(* ===== verification/Orbit_Prelude.thy ===== *)
theory Orbit_Prelude
  imports Main "HOL-Library.Word" "HOL-Library.Monad_Syntax"
begin

text \<open>
  Shared vocabulary of the development.  Addresses and sizes of the emulator are
  \<^verbatim>\<open>u64\<close> values; they are modelled as natural numbers, and every addition or
  subtraction of the source that could leave the 64-bit range is written with
  \<open>uadd\<close> and \<open>usub\<close>, which wrap modulo \<open>U64\<close> as the machine does.  The rules
  \<open>uadd_exact\<close> and \<open>usub_exact\<close> (collection \<open>u64_exact\<close>) remove the wrap-around where an
  invariant bounds the operands.

  The rest of the theory models \<^verbatim>\<open>src/common/alignment.h\<close>, the size literals of
  \<^verbatim>\<open>src/common/types.h\<close> and the kernel error codes the memory components return.
\<close>

unbundle bit_operations_syntax

named_theorems u64_exact \<open>wrap-around free readings of 64-bit arithmetic\<close>

type_synonym VAddr = nat
type_synonym PAddr = nat
type_synonym s32 = int
type_synonym tid = nat

subsection \<open>64-bit unsigned arithmetic\<close>

definition U64 :: nat where
  "U64 = 18446744073709551616"

definition uadd :: "nat \<Rightarrow> nat \<Rightarrow> nat" where
  "uadd a b = (a + b) mod U64"

definition usub :: "nat \<Rightarrow> nat \<Rightarrow> nat" where
  "usub a b = (a + (U64 - b mod U64)) mod U64"

text \<open>The value \<^verbatim>\<open>-1\<close> of an unsigned 64-bit variable.\<close>

definition minus_one :: nat where
  "minus_one = U64 - 1"

lemma U64_pos [simp]: "0 < U64"
  by (simp add: U64_def)

lemma uadd_exact [u64_exact]: "a + b < U64 \<Longrightarrow> uadd a b = a + b"
  by (simp add: uadd_def)

lemma usub_exact [u64_exact]: "b \<le> a \<Longrightarrow> a < U64 \<Longrightarrow> usub a b = a - b"
proof -
  assume h: "b \<le> a" "a < U64"
  then have "a + (U64 - b mod U64) = (a - b) + U64" by simp
  then have "usub a b = ((a - b) + U64) mod U64" by (simp only: usub_def)
  also have "\<dots> = (a - b) mod U64" by (rule mod_add_self2)
  finally show ?thesis using h by simp
qed

lemma uadd_less [simp]: "uadd a b < U64"
  by (simp add: uadd_def)

lemma usub_less [simp]: "usub a b < U64"
  by (simp add: usub_def)

lemma usub_int: "usub a b = nat ((int a - int b) mod int U64)"
proof -
  have "int (U64 - b mod U64) = int U64 - int b mod int U64"
    by (simp add: of_nat_diff zmod_int less_imp_le)
  then have "int (usub a b) = (int a + (int U64 - int b mod int U64)) mod int U64"
    by (simp only: usub_def zmod_int of_nat_add)
  also have "\<dots> = (int a + int U64 - int b) mod int U64"
    by (metis add_diff_eq mod_diff_right_eq)
  also have "\<dots> = (int a - int b) mod int U64"
    by (metis add_diff_eq add.commute diff_add_eq mod_add_self2)
  finally show ?thesis by (metis nat_int)
qed

lemma usub_usub: "usub (usub a b) c = usub a (b + c)"
proof -
  have "int (usub a b) = (int a - int b) mod int U64" by (simp add: usub_int)
  then show ?thesis by (simp add: usub_int mod_diff_left_eq diff_diff_eq)
qed

lemma usub_zero: "a < U64 \<Longrightarrow> usub a 0 = a"
  by (simp add: usub_exact)

lemma usub_uadd: "a < U64 \<Longrightarrow> b < U64 \<Longrightarrow> usub (uadd a b) b = a"
proof -
  assume h: "a < U64" "b < U64"
  show ?thesis
  proof (cases "a + b < U64")
    case True
    then show ?thesis by (simp add: uadd_exact usub_exact)
  next
    case False
    with h have "uadd a b = a + b - U64"
      by (simp add: uadd_def mod_if)
    with False h show ?thesis by (simp add: usub_def)
  qed
qed

lemmas u64_eval = uadd_def usub_def U64_def minus_one_def

subsection \<open>Size literals (src/common/types.h)\<close>

abbreviation KB :: nat where "KB \<equiv> 1024"
abbreviation MB :: nat where "MB \<equiv> 1048576"
abbreviation GB :: nat where "GB \<equiv> 1073741824"

subsection \<open>Alignment helpers (src/common/alignment.h)\<close>

definition AlignUp :: "nat \<Rightarrow> nat \<Rightarrow> nat" where
  "AlignUp value sz =
     (let m = value mod sz; v = usub value m in if m = 0 then v else uadd v sz)"

definition AlignDown :: "nat \<Rightarrow> nat \<Rightarrow> nat" where
  "AlignDown value sz = usub value (value mod sz)"

definition IsAligned :: "nat \<Rightarrow> nat \<Rightarrow> bool" where
  "IsAligned value alignment = (value AND (usub alignment 1) = 0)"

definition Is16KBAligned :: "nat \<Rightarrow> bool" where
  "Is16KBAligned value = (value AND 0x3FFF = 0)"

definition Is64KBAligned :: "nat \<Rightarrow> bool" where
  "Is64KBAligned value = (value AND 0xFFFF = 0)"

definition Is2MBAligned :: "nat \<Rightarrow> bool" where
  "Is2MBAligned value = (value AND 0x1FFFFF = 0)"

lemma and_mask_nat: "(v::nat) AND (2 ^ n - 1) = v mod 2 ^ n"
  by (metis mask_eq_exp_minus_1 take_bit_eq_mask take_bit_eq_mod)

lemma Is16KBAligned_dvd: "Is16KBAligned v \<longleftrightarrow> 16384 dvd v"
  using and_mask_nat [of v 14] by (simp add: Is16KBAligned_def dvd_eq_mod_eq_0)

lemma Is64KBAligned_dvd: "Is64KBAligned v \<longleftrightarrow> 65536 dvd v"
  using and_mask_nat [of v 16] by (simp add: Is64KBAligned_def dvd_eq_mod_eq_0)

lemma Is2MBAligned_dvd: "Is2MBAligned v \<longleftrightarrow> 2097152 dvd v"
  using and_mask_nat [of v 21] by (simp add: Is2MBAligned_def dvd_eq_mod_eq_0)

lemma IsAligned_pow2: "n < 64 \<Longrightarrow> IsAligned v (2 ^ n) \<longleftrightarrow> 2 ^ n dvd v"
proof -
  assume n: "n < 64"
  have "(2::nat) ^ n < 2 ^ 64" using n by (intro power_strict_increasing) simp_all
  then have "usub (2 ^ n) 1 = 2 ^ n - 1" by (simp add: usub_exact U64_def)
  then show ?thesis
    using and_mask_nat [of v n] by (simp add: IsAligned_def dvd_eq_mod_eq_0)
qed

lemma AlignDown_exact [u64_exact]: "v < U64 \<Longrightarrow> AlignDown v s = v - v mod s"
  by (simp add: AlignDown_def usub_exact)

lemma AlignUp_exact [u64_exact]:
  "v + s < U64 \<Longrightarrow> AlignUp v s = (if s dvd v then v else v div s * s + s)"
proof -
  assume h: "v + s < U64"
  have "v - v mod s = v div s * s" by (rule minus_mod_eq_div_mult)
  moreover have "v div s * s \<le> v" by (rule div_times_less_eq_dividend)
  ultimately show ?thesis
    using h by (auto simp: AlignUp_def Let_def usub_exact uadd_exact dvd_eq_mod_eq_0)
qed

lemma div_mult_bounds:
  assumes "0 < (s::nat)" and "\<not> s dvd v"
  shows "v div s * s < v" and "v < v div s * s + s"
proof -
  have "v = v div s * s + v mod s" by simp
  moreover have "0 < v mod s" and "v mod s < s" using assms by (auto simp: dvd_eq_mod_eq_0)
  ultimately show "v div s * s < v" and "v < v div s * s + s" by linarith+
qed

lemma AlignUp_dvd: "v + s < U64 \<Longrightarrow> s dvd AlignUp v s"
  by (simp add: AlignUp_exact)

lemma AlignUp_ge: "v + s < U64 \<Longrightarrow> 0 < s \<Longrightarrow> v \<le> AlignUp v s"
  using div_mult_bounds(2) [of s v] by (auto simp: AlignUp_exact)

lemma AlignUp_less: "v + s < U64 \<Longrightarrow> 0 < s \<Longrightarrow> AlignUp v s < v + s"
  using div_mult_bounds(1) [of s v] by (auto simp: AlignUp_exact)

lemma AlignUp_le_sum: "v + s < U64 \<Longrightarrow> AlignUp v s \<le> v + s"
  using div_times_less_eq_dividend [of v s] by (simp add: AlignUp_exact)

lemma AlignUp_least:
  assumes b: "v + s < U64" and d: "s dvd w" and le: "v \<le> w"
  shows "AlignUp v s \<le> w"
proof (cases "s dvd v")
  case True
  with b le show ?thesis by (simp add: AlignUp_exact)
next
  case False
  obtain k where w: "w = k * s" using d by (metis dvdE mult.commute)
  from False w le have "v < k * s" by (metis dvd_triv_right order_le_less)
  then have "v div s < k" using less_mult_imp_div_less by blast
  then have "Suc (v div s) * s \<le> k * s" by (intro mult_le_mono1) simp
  with False b w show ?thesis by (simp add: AlignUp_exact add.commute)
qed

subsection \<open>Kernel error codes (src/core/libraries/kernel/orbis_error.h)\<close>

text \<open>The codes are 32-bit values with the top bit set, returned as \<^verbatim>\<open>s32\<close>.\<close>

definition ORBIS_OK :: s32 where "ORBIS_OK = 0"
definition ORBIS_KERNEL_ERROR_ENOENT :: s32 where "ORBIS_KERNEL_ERROR_ENOENT = 0x80020002 - 2 ^ 32"
definition ORBIS_KERNEL_ERROR_EBADF :: s32 where "ORBIS_KERNEL_ERROR_EBADF = 0x80020009 - 2 ^ 32"
definition ORBIS_KERNEL_ERROR_ENOMEM :: s32 where "ORBIS_KERNEL_ERROR_ENOMEM = 0x8002000C - 2 ^ 32"
definition ORBIS_KERNEL_ERROR_EACCES :: s32 where "ORBIS_KERNEL_ERROR_EACCES = 0x8002000D - 2 ^ 32"
definition ORBIS_KERNEL_ERROR_EFAULT :: s32 where "ORBIS_KERNEL_ERROR_EFAULT = 0x8002000E - 2 ^ 32"
definition ORBIS_KERNEL_ERROR_EBUSY :: s32 where "ORBIS_KERNEL_ERROR_EBUSY = 0x80020010 - 2 ^ 32"
definition ORBIS_KERNEL_ERROR_EINVAL :: s32 where "ORBIS_KERNEL_ERROR_EINVAL = 0x80020016 - 2 ^ 32"
definition ORBIS_KERNEL_ERROR_EAGAIN :: s32 where "ORBIS_KERNEL_ERROR_EAGAIN = 0x80020023 - 2 ^ 32"
definition ORBIS_KERNEL_ERROR_ENAMETOOLONG :: s32 where
  "ORBIS_KERNEL_ERROR_ENAMETOOLONG = 0x8002003F - 2 ^ 32"

lemmas orbis_codes =
  ORBIS_OK_def ORBIS_KERNEL_ERROR_ENOENT_def ORBIS_KERNEL_ERROR_EBADF_def
  ORBIS_KERNEL_ERROR_ENOMEM_def ORBIS_KERNEL_ERROR_EACCES_def ORBIS_KERNEL_ERROR_EFAULT_def
  ORBIS_KERNEL_ERROR_EBUSY_def ORBIS_KERNEL_ERROR_EINVAL_def ORBIS_KERNEL_ERROR_EAGAIN_def
  ORBIS_KERNEL_ERROR_ENAMETOOLONG_def

definition ORBIS_KERNEL_ERROR_EPERM :: s32 where "ORBIS_KERNEL_ERROR_EPERM = 0x80020001 - 2 ^ 32"
definition ORBIS_KERNEL_ERROR_ESRCH :: s32 where "ORBIS_KERNEL_ERROR_ESRCH = 0x80020003 - 2 ^ 32"
definition ORBIS_KERNEL_ERROR_ETIMEDOUT :: s32 where "ORBIS_KERNEL_ERROR_ETIMEDOUT = 0x8002003C - 2 ^ 32"
definition ORBIS_KERNEL_ERROR_ECANCELED :: s32 where "ORBIS_KERNEL_ERROR_ECANCELED = 0x80020055 - 2 ^ 32"

lemmas sync_codes = orbis_codes ORBIS_KERNEL_ERROR_EPERM_def ORBIS_KERNEL_ERROR_ESRCH_def
  ORBIS_KERNEL_ERROR_ETIMEDOUT_def ORBIS_KERNEL_ERROR_ECANCELED_def

subsection \<open>POSIX error codes (src/core/libraries/kernel/posix_error.h)\<close>

definition POSIX_EPERM :: s32 where "POSIX_EPERM = 1"
definition POSIX_ESRCH :: s32 where "POSIX_ESRCH = 3"
definition POSIX_EDEADLK :: s32 where "POSIX_EDEADLK = 11"
definition POSIX_ENOMEM :: s32 where "POSIX_ENOMEM = 12"
definition POSIX_EBUSY :: s32 where "POSIX_EBUSY = 16"
definition POSIX_EINVAL :: s32 where "POSIX_EINVAL = 22"
definition POSIX_EAGAIN :: s32 where "POSIX_EAGAIN = 35"
definition POSIX_ETIMEDOUT :: s32 where "POSIX_ETIMEDOUT = 60"
definition POSIX_EOVERFLOW :: s32 where "POSIX_EOVERFLOW = 84"

lemmas posix_codes = POSIX_EPERM_def POSIX_ESRCH_def POSIX_EDEADLK_def POSIX_ENOMEM_def POSIX_EBUSY_def
  POSIX_EINVAL_def POSIX_EAGAIN_def POSIX_ETIMEDOUT_def POSIX_EOVERFLOW_def

text \<open>
  A parameter \<^verbatim>\<open>T** p\<close> is a null pointer or the address of a cell that is null or owns an object:
  the address and the object, when both are there.
\<close>

definition deref :: "(nat \<Rightarrow> 'a option) \<Rightarrow> nat option \<Rightarrow> (nat \<times> 'a) option" where
  "deref cells p = (case p of None \<Rightarrow> None | Some a \<Rightarrow> map_option (\<lambda>x. (a, x)) (cells a))"

text \<open>A point in time, as \<^verbatim>\<open>src/core/libraries/kernel/time.h\<close> has it.\<close>

record OrbisKernelTimespec =
  tv_sec :: int
  tv_nsec :: int

text \<open>Arithmetic on \<^verbatim>\<open>s32\<close> values.\<close>

definition wrap_s32 :: "int \<Rightarrow> s32" where
  "wrap_s32 x = sint (word_of_int x :: 32 word)"

definition ORBIS_KERNEL_ERROR_UNKNOWN :: s32 where
  "ORBIS_KERNEL_ERROR_UNKNOWN = 0x80020000 - 2 ^ 32"

definition ErrnoToSceKernelError :: "s32 \<Rightarrow> s32" where
  "ErrnoToSceKernelError error = wrap_s32 (error + ORBIS_KERNEL_ERROR_UNKNOWN)"

lemma wrap_s32_exact: "- (2 ^ 31) \<le> x \<Longrightarrow> x < 2 ^ 31 \<Longrightarrow> wrap_s32 x = x"
  by (simp add: wrap_s32_def signed_of_int signed_take_bit_int_eq_self)

lemma wrap_s32_add:
  "wrap_s32 (wrap_s32 x + y) = wrap_s32 (x + y)" "wrap_s32 (y + wrap_s32 x) = wrap_s32 (y + x)"
  by (simp_all add: wrap_s32_def mod_simps algebra_simps)

lemma wrap_s32_diff: "wrap_s32 (wrap_s32 x - y) = wrap_s32 (x - y)"
  using wrap_s32_add(1) [of x "- y"] by simp

lemma wrap_s32_eq_iff: "wrap_s32 x = wrap_s32 y \<longleftrightarrow> x mod 2 ^ 32 = y mod 2 ^ 32"
  by (simp add: wrap_s32_def signed_of_int signed_take_bit_eq_iff_take_bit_eq take_bit_eq_mod)

lemma wrap_s32_nat_inj: "a < 2 ^ 32 \<Longrightarrow> b < 2 ^ 32 \<Longrightarrow> wrap_s32 (int a) = wrap_s32 (int b) \<Longrightarrow> a = b"
  by (simp add: wrap_s32_eq_iff)

end
