(* ===== verification/Orbit_OrderedMap.thy ===== *)
theory Orbit_OrderedMap
  imports Orbit_Prelude
begin

text \<open>
  The part of \<^verbatim>\<open>std::map\<close> with unsigned keys that the memory manager uses.  A map is an
  association list sorted by key; an iterator is the key it points at, which is stable under
  insertion and under erasure of other elements exactly as a \<^verbatim>\<open>std::map\<close> iterator is, and
  \<^verbatim>\<open>end()\<close> is \<open>None\<close>.  \<open>om_floor\<close> is the idiom \<^verbatim>\<open>std::prev(map.upper_bound(x))\<close>; it is
  \<open>None\<close> where that expression would decrement \<^verbatim>\<open>begin()\<close>.

  The locale \<open>std_map\<close> states what the clients rely on, as laws over the lookup function; the
  interpretation \<open>om\<close> discharges them for the sorted lists.
\<close>

type_synonym 'v omap = "(nat \<times> 'v) list"

subsection \<open>Operations\<close>

definition om_lookup :: "'v omap \<Rightarrow> nat \<Rightarrow> 'v option" where
  "om_lookup m = map_of m"

fun om_set :: "nat \<Rightarrow> 'v \<Rightarrow> 'v omap \<Rightarrow> 'v omap" where
  "om_set k v [] = [(k, v)]"
| "om_set k v ((k', v') # m) =
     (if k < k' then (k, v) # (k', v') # m
      else if k = k' then (k, v) # m
      else (k', v') # om_set k v m)"

definition om_emplace :: "nat \<Rightarrow> 'v \<Rightarrow> 'v omap \<Rightarrow> 'v omap" where
  "om_emplace k v m = (if om_lookup m k = None then om_set k v m else m)"

fun om_erase :: "nat \<Rightarrow> 'v omap \<Rightarrow> 'v omap" where
  "om_erase k [] = []"
| "om_erase k ((k', v') # m) = (if k = k' then m else (k', v') # om_erase k m)"

fun om_floor :: "'v omap \<Rightarrow> nat \<Rightarrow> (nat \<times> 'v) option" where
  "om_floor [] x = None"
| "om_floor ((k, v) # m) x =
     (if k \<le> x then (case om_floor m x of None \<Rightarrow> Some (k, v) | Some e \<Rightarrow> Some e) else None)"

fun om_next :: "'v omap \<Rightarrow> nat \<Rightarrow> (nat \<times> 'v) option" where
  "om_next [] x = None"
| "om_next ((k, v) # m) x = (if x < k then Some (k, v) else om_next m x)"

definition om_prev :: "'v omap \<Rightarrow> nat \<Rightarrow> (nat \<times> 'v) option" where
  "om_prev m x = (if x = 0 then None else om_floor m (x - 1))"

text \<open>The entries from an iterator to \<^verbatim>\<open>end()\<close>, for loops that do not change the map.\<close>

definition om_from :: "'v omap \<Rightarrow> nat \<Rightarrow> 'v omap" where
  "om_from m x = filter (\<lambda>(k, v). x \<le> k) m"

definition om_inv :: "'v omap \<Rightarrow> bool" where
  "om_inv m = sorted_wrt (<) (map fst m)"

subsection \<open>The interface\<close>

locale std_map =
  fixes lookup :: "'m \<Rightarrow> nat \<Rightarrow> 'v option"
    and put :: "nat \<Rightarrow> 'v \<Rightarrow> 'm \<Rightarrow> 'm"
    and erase :: "nat \<Rightarrow> 'm \<Rightarrow> 'm"
    and floor_of :: "'m \<Rightarrow> nat \<Rightarrow> (nat \<times> 'v) option"
    and next_of :: "'m \<Rightarrow> nat \<Rightarrow> (nat \<times> 'v) option"
    and prev_of :: "'m \<Rightarrow> nat \<Rightarrow> (nat \<times> 'v) option"
    and inv :: "'m \<Rightarrow> bool"
  assumes lookup_put: "inv m \<Longrightarrow> lookup (put k v m) = (lookup m)(k \<mapsto> v)"
    and lookup_erase: "inv m \<Longrightarrow> lookup (erase k m) = (lookup m)(k := None)"
    and inv_put: "inv m \<Longrightarrow> inv (put k v m)"
    and inv_erase: "inv m \<Longrightarrow> inv (erase k m)"
    and floor_Some: "inv m \<Longrightarrow> floor_of m x = Some (k, v) \<longleftrightarrow>
          lookup m k = Some v \<and> k \<le> x \<and> (\<forall>k'. k < k' \<and> k' \<le> x \<longrightarrow> lookup m k' = None)"
    and floor_None: "inv m \<Longrightarrow> floor_of m x = None \<longleftrightarrow> (\<forall>k \<le> x. lookup m k = None)"
    and next_Some: "inv m \<Longrightarrow> next_of m x = Some (k, v) \<longleftrightarrow>
          lookup m k = Some v \<and> x < k \<and> (\<forall>k'. x < k' \<and> k' < k \<longrightarrow> lookup m k' = None)"
    and next_None: "inv m \<Longrightarrow> next_of m x = None \<longleftrightarrow> (\<forall>k > x. lookup m k = None)"
    and prev_Some: "inv m \<Longrightarrow> prev_of m x = Some (k, v) \<longleftrightarrow>
          lookup m k = Some v \<and> k < x \<and> (\<forall>k'. k < k' \<and> k' < x \<longrightarrow> lookup m k' = None)"
    and prev_None: "inv m \<Longrightarrow> prev_of m x = None \<longleftrightarrow> (\<forall>k < x. lookup m k = None)"
begin

lemma floor_at_key:
  assumes "inv m" and "lookup m k = Some v"
  shows "floor_of m k = Some (k, v)"
  using assms by (auto simp: floor_Some)

lemma floor_lookup:
  assumes "inv m" and "floor_of m x = Some (k, v)"
  shows "lookup m k = Some v" and "k \<le> x"
  using assms by (auto simp: floor_Some)

lemma next_lookup:
  assumes "inv m" and "next_of m x = Some (k, v)"
  shows "lookup m k = Some v" and "x < k"
  using assms by (auto simp: next_Some)

lemma prev_lookup:
  assumes "inv m" and "prev_of m x = Some (k, v)"
  shows "lookup m k = Some v" and "k < x"
  using assms by (auto simp: prev_Some)

text \<open>What lies below an iterator decides its predecessor.\<close>

lemma prev_cong:
  assumes "inv m" and "inv m'" and "\<And>j. j < k \<Longrightarrow> lookup m' j = lookup m j"
  shows "prev_of m' k = prev_of m k"
proof (cases "prev_of m k")
  case None
  then have "\<forall>j < k. lookup m j = None" using assms(1) by (simp only: prev_None)
  then have "prev_of m' k = None" using assms(2,3) by (simp only: prev_None) simp
  with None show ?thesis by simp
next
  case (Some e)
  obtain j v where e: "e = (j, v)" by (cases e)
  with Some have "lookup m j = Some v \<and> j < k \<and> (\<forall>i. j < i \<and> i < k \<longrightarrow> lookup m i = None)"
    using assms(1) by (simp add: prev_Some)
  then have "prev_of m' k = Some (j, v)" using assms by (simp add: prev_Some)
  with Some e show ?thesis by simp
qed

text \<open>The predecessor of the successor is where we started.\<close>

lemma prev_of_next:
  assumes "inv m" and "lookup m k = Some v" and "next_of m k = Some (k', v')"
  shows "prev_of m k' = Some (k, v)"
  using assms by (auto simp: next_Some prev_Some)

lemma next_of_prev:
  assumes "inv m" and "lookup m k = Some v" and "prev_of m k = Some (k', v')"
  shows "next_of m k' = Some (k, v)"
  using assms by (auto simp: next_Some prev_Some)

end

subsection \<open>Sorted association lists provide it\<close>

lemma om_inv_Cons: "om_inv ((k, v) # m) \<longleftrightarrow> (\<forall>k' \<in> fst ` set m. k < k') \<and> om_inv m"
  by (auto simp: om_inv_def)

lemma om_inv_Nil [simp]: "om_inv []"
  by (simp add: om_inv_def)

lemma om_lookup_Nil [simp]: "om_lookup [] k = None"
  by (simp add: om_lookup_def)

lemma om_lookup_Cons: "om_lookup ((k, v) # m) x = (if x = k then Some v else om_lookup m x)"
  by (simp add: om_lookup_def)

lemma om_lookup_key: "om_lookup m k = Some v \<Longrightarrow> k \<in> fst ` set m"
  by (auto simp: om_lookup_def dest: map_of_SomeD intro: rev_image_eqI)

lemma om_lookup_above: "om_inv ((k, v) # m) \<Longrightarrow> x \<le> k \<Longrightarrow> om_lookup m x = None"
  by (cases "om_lookup m x") (fastforce simp: om_inv_Cons dest: om_lookup_key)+

lemma om_lookup_set: "om_lookup (om_set k v m) = (om_lookup m)(k \<mapsto> v)"
  by (induction k v m rule: om_set.induct) (auto simp: om_lookup_Cons fun_eq_iff)

lemma set_om_set: "fst ` set (om_set k v m) = insert k (fst ` set m)"
  by (induction k v m rule: om_set.induct) auto

lemma om_inv_set: "om_inv m \<Longrightarrow> om_inv (om_set k v m)"
  by (induction k v m rule: om_set.induct) (force simp: om_inv_Cons set_om_set)+

lemma set_om_erase: "set (om_erase k m) \<subseteq> set m"
  by (induction k m rule: om_erase.induct) auto

lemma om_inv_erase: "om_inv m \<Longrightarrow> om_inv (om_erase k m)"
proof (induction k m rule: om_erase.induct)
  case (2 k k' v' m)
  then show ?case using set_om_erase [of k m] by (auto simp: om_inv_Cons)
qed simp

lemma om_lookup_erase: "om_inv m \<Longrightarrow> om_lookup (om_erase k m) = (om_lookup m)(k := None)"
proof (induction k m rule: om_erase.induct)
  case (2 k k' v' m)
  from "2.prems" have "om_lookup m k' = None" by (rule om_lookup_above) simp
  with 2 show ?case by (auto simp: om_lookup_Cons om_inv_Cons fun_eq_iff)
qed (simp add: fun_eq_iff)

lemma om_floor_None: "om_inv m \<Longrightarrow> om_floor m x = None \<longleftrightarrow> (\<forall>k \<le> x. om_lookup m k = None)"
proof (induction m x rule: om_floor.induct)
  case (2 k v m x)
  show ?case
  proof (cases "k \<le> x")
    case False
    then have "\<forall>j \<le> x. om_lookup m j = None"
      using om_lookup_above [OF "2.prems"] by simp
    with False show ?thesis by (simp add: om_lookup_Cons)
  qed (auto simp: om_lookup_Cons split: option.splits)
qed simp

lemma om_floor_SomeD:
  "om_inv m \<Longrightarrow> om_floor m x = Some (k, v) \<Longrightarrow>
     om_lookup m k = Some v \<and> k \<le> x \<and> (\<forall>k'. k < k' \<and> k' \<le> x \<longrightarrow> om_lookup m k' = None)"
proof (induction m x rule: om_floor.induct)
  case (2 j w m x)
  note above = om_lookup_above [OF "2.prems"(1)]
  have inv: "om_inv m" using "2.prems" by (simp add: om_inv_Cons)
  have le: "j \<le> x" using "2.prems"(2) by (auto split: if_splits)
  show ?case
  proof (cases "om_floor m x")
    case None
    then have "\<forall>i \<le> x. om_lookup m i = None" using om_floor_None [OF inv] by simp
    with None le "2.prems"(2) show ?thesis by (auto simp: om_lookup_Cons)
  next
    case (Some e)
    with le "2.prems"(2) have "om_floor m x = Some (k, v)" by simp
    from "2.IH" [OF le inv this] have IH: "om_lookup m k = Some v" "k \<le> x"
      "\<forall>k'. k < k' \<and> k' \<le> x \<longrightarrow> om_lookup m k' = None" by auto
    moreover have "j < k" using above [of k] IH(1) by (cases "j < k") auto
    ultimately show ?thesis by (auto simp: om_lookup_Cons)
  qed
qed simp

lemma om_floor_Some:
  assumes inv: "om_inv m"
  shows "om_floor m x = Some (k, v) \<longleftrightarrow>
     om_lookup m k = Some v \<and> k \<le> x \<and> (\<forall>k'. k < k' \<and> k' \<le> x \<longrightarrow> om_lookup m k' = None)"
proof
  assume r: "om_lookup m k = Some v \<and> k \<le> x \<and> (\<forall>k'. k < k' \<and> k' \<le> x \<longrightarrow> om_lookup m k' = None)"
  then have "om_floor m x \<noteq> None" using om_floor_None [OF inv] by auto
  then obtain j w where f: "om_floor m x = Some (j, w)" by (cases "om_floor m x") auto
  from om_floor_SomeD [OF inv f] r have "j = k"
    by (metis linorder_neqE_nat option.distinct(1))
  with f om_floor_SomeD [OF inv f] r show "om_floor m x = Some (k, v)" by simp
qed (use om_floor_SomeD [OF inv] in blast)

lemma om_next_None: "om_inv m \<Longrightarrow> om_next m x = None \<longleftrightarrow> (\<forall>k > x. om_lookup m k = None)"
  by (induction m x rule: om_next.induct) (auto simp: om_lookup_Cons om_inv_Cons)

lemma om_next_SomeD:
  "om_inv m \<Longrightarrow> om_next m x = Some (k, v) \<Longrightarrow>
     om_lookup m k = Some v \<and> x < k \<and> (\<forall>k'. x < k' \<and> k' < k \<longrightarrow> om_lookup m k' = None)"
proof (induction m x rule: om_next.induct)
  case (2 j w m x)
  note above = om_lookup_above [OF "2.prems"(1)]
  from 2 above show ?case by (auto simp: om_lookup_Cons om_inv_Cons split: if_splits)
qed simp

lemma om_next_Some:
  assumes inv: "om_inv m"
  shows "om_next m x = Some (k, v) \<longleftrightarrow>
     om_lookup m k = Some v \<and> x < k \<and> (\<forall>k'. x < k' \<and> k' < k \<longrightarrow> om_lookup m k' = None)"
proof
  assume r: "om_lookup m k = Some v \<and> x < k \<and> (\<forall>k'. x < k' \<and> k' < k \<longrightarrow> om_lookup m k' = None)"
  then have "om_next m x \<noteq> None" using om_next_None [OF inv] by auto
  then obtain j w where f: "om_next m x = Some (j, w)" by (cases "om_next m x") auto
  from om_next_SomeD [OF inv f] r have "j = k"
    by (metis linorder_neqE_nat option.distinct(1))
  with f om_next_SomeD [OF inv f] r show "om_next m x = Some (k, v)" by simp
qed (use om_next_SomeD [OF inv] in blast)

lemma le_pred_iff: "x \<noteq> 0 \<Longrightarrow> (j::nat) \<le> x - Suc 0 \<longleftrightarrow> j < x"
  by auto

interpretation om: std_map om_lookup om_set om_erase om_floor om_next om_prev om_inv
  by unfold_locales
    (simp_all add: om_lookup_set om_lookup_erase om_inv_set om_inv_erase
       om_floor_Some om_floor_None om_next_Some om_next_None om_prev_def le_pred_iff)

lemma om_lookup_emplace:
  "om_lookup (om_emplace k v m) = (if om_lookup m k = None then (om_lookup m)(k \<mapsto> v) else om_lookup m)"
  by (simp add: om_emplace_def om_lookup_set)

lemma om_inv_emplace: "om_inv m \<Longrightarrow> om_inv (om_emplace k v m)"
  by (simp add: om_emplace_def om_inv_set)

text \<open>Two sorted lists with the same lookups are the same map.\<close>

lemma om_ext: "om_inv m \<Longrightarrow> om_inv m' \<Longrightarrow> om_lookup m = om_lookup m' \<Longrightarrow> m = m'"
proof (induction m arbitrary: m')
  case Nil
  then show ?case by (cases m') (auto simp: om_lookup_Cons fun_eq_iff split: if_splits)
next
  case (Cons e m)
  obtain k v where e: "e = (k, v)" by (cases e)
  have "om_lookup m' k = Some v" 
    using fun_cong [OF Cons.prems(3), of k] by (simp add: e om_lookup_Cons)
  then obtain k' v' n where m': "m' = (k', v') # n" by (cases m') auto
  have eq: "om_lookup ((k, v) # m) x = om_lookup ((k', v') # n) x" for x
    using Cons.prems(3) by (simp add: e m')
  have "k = k'"
    using eq [of k] eq [of k'] om_lookup_above [OF Cons.prems(1) [unfolded e], of k']
      om_lookup_above [OF Cons.prems(2) [unfolded m'], of k]
    by (cases "k \<le> k'") (auto simp: om_lookup_Cons split: if_splits)
  moreover have "v = v'" using eq [of k] \<open>k = k'\<close> by (simp add: om_lookup_Cons)
  moreover have "om_lookup m x = om_lookup n x" for x
    using eq [of x] \<open>k = k'\<close> om_lookup_above [OF Cons.prems(1) [unfolded e], of k]
      om_lookup_above [OF Cons.prems(2) [unfolded m'], of k']
    by (cases "x = k") (auto simp: om_lookup_Cons)
  then have "m = n"
    using Cons.prems by (intro Cons.IH) (auto simp: e m' om_inv_Cons)
  ultimately show ?case by (simp add: e m')
qed

lemma om_lookup_in_set: "om_inv m \<Longrightarrow> om_lookup m k = Some v \<longleftrightarrow> (k, v) \<in> set m"
  by (auto simp: om_inv_def om_lookup_def strict_sorted_iff intro: map_of_is_SomeI dest: map_of_SomeD)

lemma om_inv_from: "om_inv m \<Longrightarrow> om_inv (om_from m x)"
  by (induction m) (auto simp: om_inv_Cons om_from_def)

lemma set_om_from: "(k, v) \<in> set (om_from m x) \<longleftrightarrow> (k, v) \<in> set m \<and> x \<le> k"
  by (auto simp: om_from_def)

lemma om_from_at:
  assumes "om_inv m" and "om_lookup m h = Some a"
  obtains rest where "om_from m h = (h, a) # rest" and "\<And>k b. (k, b) \<in> set rest \<Longrightarrow> h < k"
  using assms
proof (induction m arbitrary: thesis)
  case (Cons e m)
  obtain k v where e: "e = (k, v)" by (cases e)
  show ?case
  proof (cases "h = k")
    case True
    have all: "\<forall>(k', v') \<in> set m. k < k'" using Cons.prems(2) by (force simp: e om_inv_Cons)
    then have "om_from m h = m" by (auto simp: om_from_def True intro!: filter_True)
    with True Cons.prems(3) have "om_from (e # m) h = (h, a) # m"
      by (simp add: e om_lookup_Cons om_from_def)
    with all True show ?thesis by (intro Cons.prems(1)) auto
  next
    case False
    with Cons.prems(3) have l: "om_lookup m h = Some a" by (simp add: e om_lookup_Cons)
    have "k < h" using om_lookup_key [OF l] Cons.prems(2) by (force simp: e om_inv_Cons)
    then have "om_from (e # m) h = om_from m h" by (simp add: e om_from_def)
    with Cons.IH [OF _ _ l] Cons.prems(1,2) show ?thesis by (auto simp: e om_inv_Cons)
  qed
qed simp

end
