(* ===== verification/Orbit_Segments.thy ===== *)
theory Orbit_Segments
  imports Orbit_OrderedMap
begin

text \<open>
  Maps of memory areas.  The physical maps, the virtual memory map and the list of physical
  areas behind one virtual area all share one shape: an ordered map from a start key to an
  area of some positive size, areas not overlapping.  Their meaning is a partial function
  from single addresses to contents, \<open>seg_den\<close>; an area map is correct when the operations
  that only reorganise areas (split, carve, merge) leave that function alone.

  The locales state this contract once.  \<open>segments_split\<close> is what \<^verbatim>\<open>Split\<close> and
  \<^verbatim>\<open>CarveVMA\<close>/\<^verbatim>\<open>CarvePhysArea\<close> promise, \<open>segments_merge\<close> what \<^verbatim>\<open>MergeAdjacent\<close> promises;
  the component theories interpret them on the model's own definitions.
\<close>

fun seg_ok :: "('a \<Rightarrow> nat) \<Rightarrow> (nat \<Rightarrow> 'a \<Rightarrow> bool) \<Rightarrow> 'a omap \<Rightarrow> bool" where
  "seg_ok sz ok [] \<longleftrightarrow> True"
| "seg_ok sz ok ((k, a) # m) \<longleftrightarrow>
     0 < sz a \<and> k + sz a < U64 \<and> ok k a \<and> (\<forall>(k', a') \<in> set m. k + sz a \<le> k') \<and> seg_ok sz ok m"

definition seg_den :: "('a \<Rightarrow> nat) \<Rightarrow> ('a \<Rightarrow> nat \<Rightarrow> 'c) \<Rightarrow> 'a omap \<Rightarrow> nat \<Rightarrow> 'c option" where
  "seg_den sz content m x =
     (case om_floor m x of
        None \<Rightarrow> None
      | Some (k, a) \<Rightarrow> if x < k + sz a then Some (content a (x - k)) else None)"

text \<open>A range lies inside one area of the map.\<close>

definition seg_fits :: "('a \<Rightarrow> nat) \<Rightarrow> 'a omap \<Rightarrow> nat \<Rightarrow> nat \<Rightarrow> bool" where
  "seg_fits sz m y l \<longleftrightarrow>
     (case om_floor m y of None \<Rightarrow> False | Some (k, a) \<Rightarrow> y + l \<le> k + sz a)"

lemma seg_ok_inv: "seg_ok sz ok m \<Longrightarrow> om_inv m"
  by (induction sz ok m rule: seg_ok.induct) (force simp: om_inv_Cons)+

lemma seg_ok_entry:
  "seg_ok sz ok m \<Longrightarrow> (k, a) \<in> set m \<Longrightarrow> 0 < sz a \<and> k + sz a < U64 \<and> ok k a"
  by (induction sz ok m rule: seg_ok.induct) auto

lemma seg_ok_apart:
  "seg_ok sz ok m \<Longrightarrow> (k, a) \<in> set m \<Longrightarrow> (k', a') \<in> set m \<Longrightarrow> k < k' \<Longrightarrow> k + sz a \<le> k'"
  by (induction sz ok m rule: seg_ok.induct) fastforce+

lemma seg_ok_from: "seg_ok sz okk m \<Longrightarrow> seg_ok sz okk (om_from m x)"
  by (induction sz okk m rule: seg_ok.induct) (auto simp: om_from_def)

lemma seg_okI:
  assumes "om_inv m"
    and "\<And>k a. (k, a) \<in> set m \<Longrightarrow> 0 < sz a \<and> k + sz a < U64 \<and> ok k a"
    and "\<And>k a k' a'. (k, a) \<in> set m \<Longrightarrow> (k', a') \<in> set m \<Longrightarrow> k < k' \<Longrightarrow> k + sz a \<le> k'"
  shows "seg_ok sz ok m"
  using assms
proof (induction m)
  case (Cons e m)
  obtain k a where e: "e = (k, a)" by (cases e)
  have "k + sz a \<le> k'" if "(k', a') \<in> set m" for k' a'
  proof -
    have "k < k'" using Cons.prems(1) that by (force simp: e om_inv_Cons)
    with that show ?thesis using Cons.prems(3) [of k a k' a'] by (simp add: e)
  qed
  moreover have "seg_ok sz ok m"
    using Cons.prems by (intro Cons.IH) (auto simp: e om_inv_Cons)
  ultimately show ?case using Cons.prems(2) [of k a] by (auto simp: e)
qed simp

subsection \<open>Reading a map through its meaning\<close>

locale segments =
  fixes sz :: "'a \<Rightarrow> nat"
    and content :: "'a \<Rightarrow> nat \<Rightarrow> 'c"
    and ok :: "nat \<Rightarrow> 'a \<Rightarrow> bool"
begin

lemma lookupD:
  assumes "seg_ok sz ok m" and "om_lookup m k = Some a"
  shows "0 < sz a" and "k + sz a < U64" and "ok k a"
  using assms seg_ok_entry [of sz ok m k a] seg_ok_inv [of sz ok m]
  by (auto simp: om_lookup_in_set)

lemma apart:
  assumes "seg_ok sz ok m" and "om_lookup m k = Some a" and "om_lookup m k' = Some a'" and "k < k'"
  shows "k + sz a \<le> k'"
  using assms seg_ok_apart [of sz ok m k a k' a'] seg_ok_inv [of sz ok m]
  by (auto simp: om_lookup_in_set)

lemma okI:
  assumes "om_inv m"
    and "\<And>k a. om_lookup m k = Some a \<Longrightarrow> 0 < sz a \<and> k + sz a < U64 \<and> ok k a"
    and "\<And>k a k' a'. om_lookup m k = Some a \<Longrightarrow> om_lookup m k' = Some a' \<Longrightarrow> k < k' \<Longrightarrow> k + sz a \<le> k'"
  shows "seg_ok sz ok m"
  using assms by (intro seg_okI) (auto simp: om_lookup_in_set)

text \<open>The area that holds an address is the one \<^verbatim>\<open>prev(upper_bound(x))\<close> finds.\<close>

lemma floor_holds:
  assumes m: "seg_ok sz ok m" and "om_lookup m k = Some a" and "k \<le> x" and "x < k + sz a"
  shows "om_floor m x = Some (k, a)"
proof -
  have "om_lookup m k' = None" if "k < k'" and "k' \<le> x" for k'
    using apart [OF m assms(2) _ that(1)] that(2) assms(4) by (cases "om_lookup m k'") auto
  with assms show ?thesis by (simp add: om.floor_Some [OF seg_ok_inv [OF m]])
qed

lemma den_holds:
  assumes "seg_ok sz ok m" and "om_lookup m k = Some a" and "k \<le> x" and "x < k + sz a"
  shows "seg_den sz content m x = Some (content a (x - k))"
  using floor_holds [OF assms] assms(4) by (simp add: seg_den_def)

lemma den_Some:
  assumes m: "seg_ok sz ok m"
  shows "seg_den sz content m x = Some c \<longleftrightarrow>
    (\<exists>k a. om_lookup m k = Some a \<and> k \<le> x \<and> x < k + sz a \<and> content a (x - k) = c)"
proof
  assume "seg_den sz content m x = Some c"
  then obtain k a where "om_floor m x = Some (k, a)" and "x < k + sz a" and "content a (x - k) = c"
    by (auto simp: seg_den_def split: option.splits prod.splits if_splits)
  with om.floor_lookup [OF seg_ok_inv [OF m]]
  show "\<exists>k a. om_lookup m k = Some a \<and> k \<le> x \<and> x < k + sz a \<and> content a (x - k) = c" by blast
qed (use den_holds [OF m] in auto)

lemma den_eqI:
  assumes "seg_ok sz ok m" and "seg_ok sz ok m'"
    and "\<And>c. (\<exists>k a. om_lookup m k = Some a \<and> k \<le> x \<and> x < k + sz a \<and> content a (x - k) = c) \<longleftrightarrow>
             (\<exists>k a. om_lookup m' k = Some a \<and> k \<le> x \<and> x < k + sz a \<and> content a (x - k) = c)"
  shows "seg_den sz content m x = seg_den sz content m' x"
proof -
  have "seg_den sz content m x = Some c \<longleftrightarrow> seg_den sz content m' x = Some c" for c
    unfolding den_Some [OF assms(1)] den_Some [OF assms(2)] by (rule assms(3))
  then show ?thesis by (metis option.exhaust)
qed

lemma den_floor:
  assumes m: "seg_ok sz ok m" and "seg_den sz content m x \<noteq> None"
  obtains k a where "om_floor m x = Some (k, a)" and "om_lookup m k = Some a"
    and "k \<le> x" and "x < k + sz a"
  using assms om.floor_lookup [OF seg_ok_inv [OF m]]
  by (auto simp: seg_den_def split: option.splits prod.splits if_splits)

lemma fits_iff:
  assumes m: "seg_ok sz ok m" and l: "0 < l"
  shows "seg_fits sz m y l \<longleftrightarrow> (\<exists>k a. om_lookup m k = Some a \<and> k \<le> y \<and> y + l \<le> k + sz a)"
proof
  assume "seg_fits sz m y l"
  then obtain k a where "om_floor m y = Some (k, a)" and "y + l \<le> k + sz a"
    by (auto simp: seg_fits_def split: option.splits)
  then show "\<exists>k a. om_lookup m k = Some a \<and> k \<le> y \<and> y + l \<le> k + sz a"
    using om.floor_lookup [OF seg_ok_inv [OF m]] by blast
next
  assume "\<exists>k a. om_lookup m k = Some a \<and> k \<le> y \<and> y + l \<le> k + sz a"
  then obtain k a where k: "om_lookup m k = Some a" "k \<le> y" "y + l \<le> k + sz a" by blast
  with l have "om_floor m y = Some (k, a)" by (intro floor_holds [OF m]) auto
  with k show "seg_fits sz m y l" by (simp add: seg_fits_def)
qed

lemma replace_fits:
  assumes m: "seg_ok sz ok m" and k: "om_lookup m k = Some a" and s: "sz a' = sz a"
  shows "seg_fits sz (om_set k a' m) y l = seg_fits sz m y l"
proof -
  have inv': "om_inv (om_set k a' m)" by (rule om_inv_set [OF seg_ok_inv [OF m]])
  show ?thesis
  proof (cases "om_floor m y")
    case None
    then have none: "\<forall>j \<le> y. om_lookup m j = None" by (simp only: om.floor_None [OF seg_ok_inv [OF m]])
    then have "k > y" using k by (metis not_le option.distinct(1))
    with none have "om_floor (om_set k a' m) y = None"
      by (simp only: om.floor_None [OF inv']) (simp add: om_lookup_set)
    with None show ?thesis by (simp add: seg_fits_def)
  next
    case (Some e)
    obtain j b where e: "e = (j, b)" by (cases e)
    with Some have jb: "om_lookup m j = Some b" "j \<le> y" "\<forall>i. j < i \<and> i \<le> y \<longrightarrow> om_lookup m i = None"
      using om.floor_Some [OF seg_ok_inv [OF m]] by auto
    then have "om_floor (om_set k a' m) y = Some (j, if j = k then a' else b)"
      unfolding om.floor_Some [OF inv'] using k by (auto simp: om_lookup_set)
    with Some e s k jb show ?thesis by (auto simp: seg_fits_def)
  qed
qed

text \<open>Replacing the contents of one area changes the meaning on that area only.\<close>

lemma replace:
  assumes m: "seg_ok sz ok m" and k: "om_lookup m k = Some a" and "sz a' = sz a" and "ok k a'"
  shows "seg_ok sz ok (om_set k a' m)"
    and "seg_den sz content (om_set k a' m) x =
         (if k \<le> x \<and> x < k + sz a then Some (content a' (x - k)) else seg_den sz content m x)"
proof -
  note look = om.lookup_put [OF seg_ok_inv [OF m]]
  show ok': "seg_ok sz ok (om_set k a' m)"
    using lookupD [OF m] apart [OF m] assms(2-4)
    by (intro okI) (auto simp: look om.inv_put seg_ok_inv [OF m] split: if_splits)
  show "seg_den sz content (om_set k a' m) x =
         (if k \<le> x \<and> x < k + sz a then Some (content a' (x - k)) else seg_den sz content m x)"
  proof (cases "k \<le> x \<and> x < k + sz a")
    case True
    with assms(3) show ?thesis by (simp add: den_holds [OF ok', of k a'] look)
  next
    case False
    then have "seg_den sz content (om_set k a' m) x = seg_den sz content m x"
      using assms(2,3) by (intro den_eqI [OF ok' m]) (auto simp: look split: if_splits)
    with False show ?thesis by auto
  qed
qed

end

subsection \<open>Split and carve\<close>

locale segments_split = segments sz content ok
  for sz :: "'a \<Rightarrow> nat" and content :: "'a \<Rightarrow> nat \<Rightarrow> 'c" and ok :: "nat \<Rightarrow> 'a \<Rightarrow> bool" +
  fixes cutl :: "'a \<Rightarrow> nat \<Rightarrow> 'a"
    and cutr :: "'a \<Rightarrow> nat \<Rightarrow> 'a"
    and split_map :: "'a omap \<Rightarrow> nat \<Rightarrow> nat \<Rightarrow> (nat \<times> 'a omap) option"
    and carve_map :: "'a omap \<Rightarrow> nat \<Rightarrow> nat \<Rightarrow> (nat \<times> 'a omap) option"
  assumes cut_sz: "ok k a \<Longrightarrow> k + sz a < U64 \<Longrightarrow> 0 < off \<Longrightarrow> off < sz a \<Longrightarrow>
          sz (cutl a off) = off \<and> sz (cutr a off) = sz a - off"
    and cut_ok: "ok k a \<Longrightarrow> k + sz a < U64 \<Longrightarrow> 0 < off \<Longrightarrow> off < sz a \<Longrightarrow>
          ok k (cutl a off) \<and> ok (k + off) (cutr a off)"
    and content_cutl: "ok k a \<Longrightarrow> k + sz a < U64 \<Longrightarrow> 0 < off \<Longrightarrow> off < sz a \<Longrightarrow> i < off \<Longrightarrow>
          content (cutl a off) i = content a i"
    and content_cutr: "ok k a \<Longrightarrow> k + sz a < U64 \<Longrightarrow> 0 < off \<Longrightarrow> off < sz a \<Longrightarrow> i < sz a - off \<Longrightarrow>
          content (cutr a off) i = content a (off + i)"
    and split_map_eq: "seg_ok sz ok m \<Longrightarrow> om_lookup m k = Some a \<Longrightarrow> 0 < off \<Longrightarrow> off < sz a \<Longrightarrow>
          split_map m k off =
            Some (k + off, om_emplace (k + off) (cutr a off) (om_set k (cutl a off) m))"
    and carve_map_eq: "seg_ok sz ok m \<Longrightarrow> om_floor m x = Some (k, a) \<Longrightarrow> 0 < n \<Longrightarrow>
          x + n \<le> k + sz a \<Longrightarrow>
          carve_map m x n =
            (let e = x - k + n in
             Option.bind (if e \<noteq> sz a then map_option snd (split_map m k e) else Some m)
               (\<lambda>m1. if x \<noteq> k then split_map m1 k (x - k) else Some (k, m1)))"
begin

text \<open>Splitting an area keeps the map well formed and its meaning.\<close>

lemma split_map_correct:
  assumes m: "seg_ok sz ok m" and k: "om_lookup m k = Some a" and off: "0 < off" "off < sz a"
  obtains m' where "split_map m k off = Some (k + off, m')"
    and "om_lookup m' = (om_lookup m)(k \<mapsto> cutl a off, k + off \<mapsto> cutr a off)"
    and "seg_ok sz ok m'" and "seg_den sz content m' = seg_den sz content m"
proof -
  note a = lookupD [OF m k]
  note cuts = cut_sz [OF a(3,2) off] cut_ok [OF a(3,2) off]
  let ?m = "om_emplace (k + off) (cutr a off) (om_set k (cutl a off) m)"
  have free: "om_lookup m k' = None" if "k < k'" "k' < k + sz a" for k'
    using apart [OF m k _ that(1)] that(2) by (cases "om_lookup m k'") auto
  have look: "om_lookup ?m = (om_lookup m)(k \<mapsto> cutl a off, k + off \<mapsto> cutr a off)"
    using off free [of "k + off"] by (simp add: om_lookup_emplace om_lookup_set)
  have inv: "om_inv ?m"
    by (simp add: om_inv_emplace om_inv_set seg_ok_inv [OF m])
  have ok': "seg_ok sz ok ?m"
  proof (rule okI [OF inv])
    fix j b assume "om_lookup ?m j = Some b"
    then show "0 < sz b \<and> j + sz b < U64 \<and> ok j b"
      using cuts off a lookupD [OF m] by (auto simp: look split: if_splits)
  next
    fix j b j' b' assume "om_lookup ?m j = Some b" and "om_lookup ?m j' = Some b'" and "j < j'"
    then show "j + sz b \<le> j'"
      using cuts off a apart [OF m, of j b j' b'] apart [OF m k, of j' b'] apart [OF m, of j b k a] k
        free [of j] by (cases "j < k") (auto simp: look split: if_splits)
  qed
  have "seg_den sz content ?m = seg_den sz content m"
  proof
    fix x
    show "seg_den sz content ?m x = seg_den sz content m x"
    proof (cases "k \<le> x \<and> x < k + sz a")
      case True
      then have d: "seg_den sz content m x = Some (content a (x - k))"
        using den_holds [OF m k] by blast
      show ?thesis
      proof (cases "x < k + off")
        case left: True
        have "seg_den sz content ?m x = Some (content (cutl a off) (x - k))"
          using cuts True left off by (intro den_holds [OF ok']) (auto simp: look)
        moreover have "content (cutl a off) (x - k) = content a (x - k)"
          using True left by (intro content_cutl [OF a(3,2) off]) linarith
        ultimately show ?thesis using d by simp
      next
        case False
        have "seg_den sz content ?m x = Some (content (cutr a off) (x - (k + off)))"
          using cuts True False off by (intro den_holds [OF ok']) (auto simp: look)
        with d False show ?thesis
          using content_cutr [OF a(3,2) off, of "x - (k + off)"] True by simp
      qed
    next
      case False
      then show ?thesis
        using cuts off k free [of "k + off"]
        by (intro den_eqI [OF ok' m]) (auto simp: look split: if_splits)
    qed
  qed
  with that split_map_eq [OF m k off] look ok' show thesis by blast
qed

lemma split_map_fits:
  assumes m: "seg_ok sz ok m" and k: "om_lookup m k = Some a" and off: "0 < off" "off < sz a"
    and s: "split_map m k off = Some (h, m')"
    and l: "0 < l" and f: "seg_fits sz m y l" and cut: "y + l \<le> k + off \<or> k + off \<le> y"
  shows "seg_fits sz m' y l"
proof -
  obtain m'' where m'': "split_map m k off = Some (k + off, m'')"
    and look: "om_lookup m'' = (om_lookup m)(k \<mapsto> cutl a off, k + off \<mapsto> cutr a off)"
    and ok': "seg_ok sz ok m''"
    by (rule split_map_correct [OF m k off]) (rule that)
  have eq: "m'' = m'" using m'' s by simp
  note c = cut_sz [OF lookupD(3,2) [OF m k] off]
  from f obtain j b where j: "om_lookup m j = Some b" "j \<le> y" "y + l \<le> j + sz b"
    unfolding fits_iff [OF m l] by blast
  have "\<exists>j b. om_lookup m'' j = Some b \<and> j \<le> y \<and> y + l \<le> j + sz b"
  proof (cases "j = k")
    case True
    with j k c cut show ?thesis
      by (cases "y + l \<le> k + off") (auto simp: look intro: exI [of _ "k + off"] exI [of _ k])
  next
    case False
    have "j \<noteq> k + off" using apart [OF m k j(1)] off by auto
    with False j show ?thesis by (auto simp: look)
  qed
  then show ?thesis by (simp add: fits_iff [OF ok' l] eq [symmetric])
qed

text \<open>
  Carving \<open>n\<close> units at \<open>x\<close> out of the area that holds them isolates an area of exactly that
  range, with the contents it had, and changes the meaning of the map nowhere.
\<close>

lemma carve_correct:
  assumes m: "seg_ok sz ok m" and f: "om_floor m x = Some (k, a)"
    and n: "0 < n" and fit: "x + n \<le> k + sz a"
  obtains m' b where "carve_map m x n = Some (x, m')"
    and "seg_ok sz ok m'" and "seg_den sz content m' = seg_den sz content m"
    and "om_lookup m' x = Some b" and "sz b = n"
    and "\<And>i. i < n \<Longrightarrow> content b i = content a (x - k + i)"
    and "om_lookup m' k \<noteq> None"
    and "\<And>j c. om_lookup m j = Some c \<Longrightarrow> j \<noteq> k \<Longrightarrow> om_lookup m' j = Some c"
proof -
  note inv = seg_ok_inv [OF m]
  have k: "om_lookup m k = Some a" and kx: "k \<le> x" using om.floor_lookup [OF inv f] by auto
  note a = lookupD [OF m k]
  define e where "e = x - k + n"
  have e: "0 < e" "e \<le> sz a" using n fit kx by (auto simp: e_def)
  obtain m1 a1 where m1: "(if e \<noteq> sz a then map_option snd (split_map m k e) else Some m) = Some m1"
    and ok1: "seg_ok sz ok m1" and den1: "seg_den sz content m1 = seg_den sz content m"
    and k1: "om_lookup m1 k = Some a1" and sz1: "sz a1 = e"
    and c1: "\<And>i. i < e \<Longrightarrow> content a1 i = content a i"
    and other1: "\<And>j c. om_lookup m j = Some c \<Longrightarrow> j \<noteq> k \<Longrightarrow> om_lookup m1 j = Some c"
  proof (cases "e = sz a")
    case True
    show thesis by (rule that [of m a]) (use True m k in simp_all)
  next
    case False
    with e have lt: "e < sz a" by simp
    obtain m' where s: "split_map m k e = Some (k + e, m')"
      and look: "om_lookup m' = (om_lookup m)(k \<mapsto> cutl a e, k + e \<mapsto> cutr a e)"
      and ok': "seg_ok sz ok m'" and d: "seg_den sz content m' = seg_den sz content m"
      using split_map_correct [OF m k e(1) lt] by blast
    have other: "om_lookup m' j = Some c" if j: "om_lookup m j = Some c" "j \<noteq> k" for j c
    proof -
      have "j \<noteq> k + e" using apart [OF m k j(1)] lt e by auto
      with j look show ?thesis by simp
    qed
    show thesis
      by (rule that [of m' "cutl a e"])
        (use False s look ok' d e lt other cut_sz [OF a(3,2) e(1) lt] content_cutl [OF a(3,2) e(1) lt]
          in simp_all)
  qed
  have carve: "carve_map m x n = (if x \<noteq> k then split_map m1 k (x - k) else Some (k, m1))"
    unfolding carve_map_eq [OF m f n fit] Let_def e_def [symmetric] m1 by simp
  show thesis
  proof (cases "x = k")
    case True
    show thesis
      by (rule that [of m1 a1]) (use True carve ok1 den1 k1 sz1 c1 other1 in \<open>simp_all add: e_def\<close>)
  next
    case False
    define o1 where "o1 = x - k"
    have o1: "0 < o1" "o1 < sz a1" and x: "x = k + o1"
      using False kx n sz1 by (simp_all add: e_def o1_def)
    note a1 = lookupD [OF ok1 k1]
    obtain m' where s: "split_map m1 k o1 = Some (k + o1, m')"
      and look: "om_lookup m' = (om_lookup m1)(k \<mapsto> cutl a1 o1, k + o1 \<mapsto> cutr a1 o1)"
      and ok': "seg_ok sz ok m'" and d: "seg_den sz content m' = seg_den sz content m1"
      using split_map_correct [OF ok1 k1 o1] by blast
    have "content (cutr a1 o1) i = content a (x - k + i)" if "i < n" for i
      using content_cutr [OF a1(3,2) o1, of i] c1 [of "o1 + i"] sz1 that by (simp add: e_def o1_def)
    moreover have "om_lookup m' j = Some c" if j: "om_lookup m j = Some c" "j \<noteq> k" for j c
      using apart [OF ok1 k1 other1 [OF j]] other1 [OF j] j o1 by (cases "j = k + o1") (auto simp: look)
    moreover have "sz (cutr a1 o1) = n"
      using cut_sz [OF a1(3,2) o1] sz1 by (simp add: e_def o1_def)
    moreover have "carve_map m x n = Some (x, m')"
      unfolding carve o1_def [symmetric] using False s x [symmetric] by simp
    moreover have "om_lookup m' x = Some (cutr a1 o1)" and "om_lookup m' k \<noteq> None"
      using look x o1 by simp_all
    ultimately show thesis
      using ok' d den1 by (intro that [of m' "cutr a1 o1"]) simp_all
  qed
qed

text \<open>Carving splits at the two ends of the range only: what such splits keep, carving keeps.\<close>

lemma carve_invariant:
  assumes m: "seg_ok sz ok m" and f: "om_floor m x = Some (k, a)"
    and n: "0 < n" and fit: "x + n \<le> k + sz a" and cv: "carve_map m x n = Some (h, m')"
    and p: "P m"
    and step: "\<And>m k a off h m'. seg_ok sz ok m \<Longrightarrow> om_lookup m k = Some a \<Longrightarrow> 0 < off \<Longrightarrow> off < sz a \<Longrightarrow>
        k + off = x \<or> k + off = x + n \<Longrightarrow> split_map m k off = Some (h, m') \<Longrightarrow> P m \<Longrightarrow> P m'"
  shows "P m'"
proof -
  note fl = om.floor_lookup [OF seg_ok_inv [OF m] f]
  define e where "e = x - k + n"
  have e: "0 < e" "e \<le> sz a" "k + e = x + n" using n fit fl(2) by (auto simp: e_def)
  obtain m1 where m1: "(if e \<noteq> sz a then map_option snd (split_map m k e) else Some m) = Some m1"
    and cv1: "(if x \<noteq> k then split_map m1 k (x - k) else Some (k, m1)) = Some (h, m')"
    using cv unfolding carve_map_eq [OF m f n fit] Let_def e_def [symmetric] bind_eq_Some_conv by blast
  obtain a1 where ok1: "seg_ok sz ok m1" and k1: "om_lookup m1 k = Some a1" and s1: "sz a1 = e"
    and p1: "P m1"
  proof (cases "e = sz a")
    case True
    with m1 m fl p show thesis by (intro that [of a]) auto
  next
    case False
    with e have lt: "e < sz a" by simp
    obtain m2 where s: "split_map m k e = Some (k + e, m2)"
      and look: "om_lookup m2 = (om_lookup m)(k \<mapsto> cutl a e, k + e \<mapsto> cutr a e)" and "seg_ok sz ok m2"
      by (rule split_map_correct [OF m fl(1) e(1) lt]) (rule that)
    moreover have "m2 = m1" using m1 s False by simp
    moreover have "P m2" using e(3) by (intro step [OF m fl(1) e(1) lt _ s p]) simp
    moreover have "om_lookup m2 k = Some (cutl a e)" using e by (simp add: look)
    ultimately show thesis
      using cut_sz [OF lookupD(3,2) [OF m fl(1)] e(1) lt] by (intro that [of "cutl a e"]) auto
  qed
  show ?thesis
  proof (cases "x = k")
    case True
    with cv1 p1 show ?thesis by simp
  next
    case False
    then have o1: "0 < x - k" "x - k < sz a1" using fl(2) n s1 by (auto simp: e_def)
    have "split_map m1 k (x - k) = Some (h, m')" using cv1 False by simp
    from step [OF ok1 k1 o1 _ this p1] fl(2) show ?thesis by simp
  qed
qed

text \<open>Carving does not break up a range outside the carved one.\<close>

lemma carve_fits:
  assumes m: "seg_ok sz ok m" and f: "om_floor m x = Some (k, a)"
    and n: "0 < n" and fit: "x + n \<le> k + sz a" and cv: "carve_map m x n = Some (h, m')"
    and l: "0 < l" and y: "seg_fits sz m y l" and out: "y + l \<le> x \<or> x + n \<le> y"
  shows "seg_fits sz m' y l"
proof (rule carve_invariant [where P = "\<lambda>m. seg_fits sz m y l", OF m f n fit cv y])
  fix m k a off h m'
  assume "seg_ok sz ok m" "om_lookup m k = Some a" "0 < off" "off < sz a"
    and at: "k + off = x \<or> k + off = x + n" and s: "split_map m k off = Some (h, m')"
    and "seg_fits sz m y l"
  with split_map_fits [of m k a off h m' l y] l out n show "seg_fits sz m' y l" by auto
qed

text \<open>A property of single areas that both halves of an area inherit.\<close>

lemma carve_all:
  assumes m: "seg_ok sz ok m" and f: "om_floor m x = Some (k, a)"
    and n: "0 < n" and fit: "x + n \<le> k + sz a" and cv: "carve_map m x n = Some (h, m')"
    and p: "\<And>j b. om_lookup m j = Some b \<Longrightarrow> P b"
    and cut: "\<And>j b off. ok j b \<Longrightarrow> j + sz b < U64 \<Longrightarrow> 0 < off \<Longrightarrow> off < sz b \<Longrightarrow> P b \<Longrightarrow>
        P (cutl b off) \<and> P (cutr b off)"
    and j: "om_lookup m' j = Some b"
  shows "P b"
proof -
  have "\<forall>j b. om_lookup m' j = Some b \<longrightarrow> P b"
  proof (rule carve_invariant [where P = "\<lambda>m. \<forall>j b. om_lookup m j = Some b \<longrightarrow> P b", OF m f n fit cv])
    fix m k a off h m'
    assume m: "seg_ok sz ok m" "om_lookup m k = Some a" "0 < off" "off < sz a"
      and s: "split_map m k off = Some (h, m')" and all: "\<forall>j b. om_lookup m j = Some b \<longrightarrow> P b"
    obtain m2 where "split_map m k off = Some (k + off, m2)"
      and "om_lookup m2 = (om_lookup m)(k \<mapsto> cutl a off, k + off \<mapsto> cutr a off)"
      by (rule split_map_correct [OF m]) (rule that)
    with s all cut [OF lookupD(3,2) [OF m(1,2)] m(3,4)] m(2)
    show "\<forall>j b. om_lookup m' j = Some b \<longrightarrow> P b" by auto
  qed (use p in blast)
  with j show ?thesis by blast
qed

end

subsection \<open>Merge\<close>

text \<open>
  The two steps of \<^verbatim>\<open>MergeAdjacent\<close> over a merge test and a merge operation: first the next
  area is absorbed by the area at the iterator, then that area by the previous one; the
  iterator returned points at the area that survives.
\<close>

definition om_join_next ::
  "('a \<Rightarrow> 'a \<Rightarrow> bool) \<Rightarrow> ('a \<Rightarrow> 'a \<Rightarrow> 'a) \<Rightarrow> 'a omap \<Rightarrow> nat \<Rightarrow> 'a omap" where
  "om_join_next joinable join m k =
     (case (om_lookup m k, om_next m k) of
        (Some a, Some (k2, b)) \<Rightarrow>
          if joinable a b then om_erase k2 (om_set k (join a b) m) else m
      | _ \<Rightarrow> m)"

definition om_join_prev ::
  "('a \<Rightarrow> 'a \<Rightarrow> bool) \<Rightarrow> ('a \<Rightarrow> 'a \<Rightarrow> 'a) \<Rightarrow> 'a omap \<Rightarrow> nat \<Rightarrow> nat \<times> 'a omap" where
  "om_join_prev joinable join m k =
     (case (om_lookup m k, om_prev m k) of
        (Some a, Some (k0, p)) \<Rightarrow>
          if joinable p a then (k0, om_erase k (om_set k0 (join p a) m)) else (k, m)
      | _ \<Rightarrow> (k, m))"

locale segments_merge = segments sz content ok
  for sz :: "'a \<Rightarrow> nat" and content :: "'a \<Rightarrow> nat \<Rightarrow> 'c" and ok :: "nat \<Rightarrow> 'a \<Rightarrow> bool" +
  fixes good :: "'a omap \<Rightarrow> bool"
    and joinable :: "'a \<Rightarrow> 'a \<Rightarrow> bool"
    and join :: "'a \<Rightarrow> 'a \<Rightarrow> 'a"
    and merge_map :: "'a omap \<Rightarrow> nat \<Rightarrow> (nat \<times> 'a omap) option"
  assumes good_ok: "good m \<Longrightarrow> seg_ok sz ok m"
    and good_den: "good m \<Longrightarrow> seg_ok sz ok m' \<Longrightarrow>
          seg_den sz content m' = seg_den sz content m \<Longrightarrow> good m'"
    and good_adj: "good m \<Longrightarrow> om_lookup m k = Some a \<Longrightarrow> om_next m k = Some (k2, b) \<Longrightarrow>
          joinable a b \<Longrightarrow> k2 = k + sz a"
    and join_sz: "ok k a \<Longrightarrow> ok (k + sz a) b \<Longrightarrow> k + sz a + sz b < U64 \<Longrightarrow> joinable a b \<Longrightarrow>
          sz (join a b) = sz a + sz b \<and> ok k (join a b)"
    and content_join: "ok k a \<Longrightarrow> ok (k + sz a) b \<Longrightarrow> k + sz a + sz b < U64 \<Longrightarrow> joinable a b \<Longrightarrow>
          0 < sz a \<Longrightarrow> 0 < sz b \<Longrightarrow> i < sz a + sz b \<Longrightarrow>
          content (join a b) i = (if i < sz a then content a i else content b (i - sz a))"
    and merge_map_eq: "good m \<Longrightarrow> om_lookup m k = Some a \<Longrightarrow>
          merge_map m k = Some (om_join_prev joinable join (om_join_next joinable join m k) k)"
begin

lemma join_pair:
  assumes g: "good m" and k: "om_lookup m k = Some a" and nx: "om_next m k = Some (k2, b)"
    and j: "joinable a b"
  defines "m' \<equiv> om_erase k2 (om_set k (join a b) m)"
  shows "good m'" and "seg_den sz content m' = seg_den sz content m"
    and "om_lookup m' = (om_lookup m)(k \<mapsto> join a b, k2 := None)" and "k2 = k + sz a"
    and "sz (join a b) = sz a + sz b"
proof -
  note m = good_ok [OF g]
  note inv = seg_ok_inv [OF m]
  show k2: "k2 = k + sz a" by (rule good_adj [OF g k nx j])
  have b: "om_lookup m k2 = Some b" using om.next_lookup [OF inv nx] by simp
  note la = lookupD [OF m k] and lb = lookupD [OF m b]
  have js: "sz (join a b) = sz a + sz b" "ok k (join a b)"
    using join_sz [OF la(3), of b] lb j k2 by auto
  show "sz (join a b) = sz a + sz b" by (rule js)
  show look: "om_lookup m' = (om_lookup m)(k \<mapsto> join a b, k2 := None)"
    by (simp add: m'_def om.lookup_erase om.lookup_put om.inv_put inv)
  have ne: "k \<noteq> k2" using k2 la by simp
  have ok': "seg_ok sz ok m'"
  proof (rule okI)
    show "om_inv m'" by (simp add: m'_def om.inv_erase om.inv_put inv)
  next
    fix i c assume "om_lookup m' i = Some c"
    then show "0 < sz c \<and> i + sz c < U64 \<and> ok i c"
      using js la lb k2 lookupD [OF m] by (auto simp: look split: if_splits)
  next
    fix i c i' c' assume h: "om_lookup m' i = Some c" "om_lookup m' i' = Some c'" "i < i'"
    show "i + sz c \<le> i'"
    proof (cases "i = k")
      case True
      with h ne have "om_lookup m i' = Some c'" and "i' \<noteq> k2" and "c = join a b"
        by (auto simp: look split: if_splits)
      moreover have "k2 < i'"
        using apart [OF m k calculation(1)] True h(3) k2 \<open>i' \<noteq> k2\<close> by simp
      ultimately show ?thesis using apart [OF m b, of i' c'] True js k2 by simp
    next
      case False
      with h ne show ?thesis
        using apart [OF m _ _ h(3)] k by (auto simp: look split: if_splits)
    qed
  qed
  show den: "seg_den sz content m' = seg_den sz content m"
  proof
    fix x
    show "seg_den sz content m' x = seg_den sz content m x"
    proof (cases "k \<le> x \<and> x < k + (sz a + sz b)")
      case True
      have "seg_den sz content m' x = Some (content (join a b) (x - k))"
        using True js ne by (intro den_holds [OF ok']) (auto simp: look)
      also have "content (join a b) (x - k) =
          (if x - k < sz a then content a (x - k) else content b (x - k - sz a))"
        using True by (intro content_join [OF la(3) _ _ j la(1) lb(1)]) (use lb k2 in auto)
      finally show ?thesis
        using True den_holds [OF m k, of x] den_holds [OF m b, of x] k2 by (auto simp: less_diff_conv2)
    next
      case False
      with js k b k2 ne show ?thesis
        by (intro den_eqI [OF ok' m]) (auto simp: look split: if_splits)
    qed
  qed
  show "good m'" by (rule good_den [OF g ok' den])
qed

lemma join_pair_fits:
  assumes g: "good m" and k: "om_lookup m k = Some a" and nx: "om_next m k = Some (k2, b)"
    and j: "joinable a b" and l: "0 < l" and f: "seg_fits sz m y l"
  shows "seg_fits sz (om_erase k2 (om_set k (join a b) m)) y l"
proof -
  note jp = join_pair [OF g k nx j]
  note m = good_ok [OF g]
  from f obtain i c where i: "om_lookup m i = Some c" "i \<le> y" "y + l \<le> i + sz c"
    unfolding fits_iff [OF m l] by blast
  have b: "om_lookup m k2 = Some b" and "k \<noteq> k2" using om.next_lookup [OF seg_ok_inv [OF m] nx] by auto
  have "\<exists>i c. ((om_lookup m)(k \<mapsto> join a b, k2 := None)) i = Some c \<and> i \<le> y \<and> y + l \<le> i + sz c"
  proof (cases "i = k \<or> i = k2")
    case True
    with i k b jp(4,5) \<open>k \<noteq> k2\<close> show ?thesis by (intro exI [of _ k] exI [of _ "join a b"]) auto
  next
    case False
    with i show ?thesis by auto
  qed
  then show ?thesis by (simp add: fits_iff [OF good_ok [OF jp(1)] l] jp(3))
qed

text \<open>A merge joins pairs of neighbours: what joining a pair keeps, merging keeps.\<close>

lemma merge_invariant:
  assumes g: "good m" and k: "om_lookup m k = Some a" and e: "merge_map m k = Some (h, m')"
    and p: "P m"
    and step: "\<And>m k a k2 b. good m \<Longrightarrow> om_lookup m k = Some a \<Longrightarrow> om_next m k = Some (k2, b) \<Longrightarrow>
        joinable a b \<Longrightarrow> P m \<Longrightarrow> P (om_erase k2 (om_set k (join a b) m))"
  shows "P m'"
proof -
  define m1 where "m1 = om_join_next joinable join m k"
  have 1: "good m1 \<and> P m1 \<and> (\<exists>a1. om_lookup m1 k = Some a1)"
  proof (cases "\<exists>k2 b. om_next m k = Some (k2, b) \<and> joinable a b")
    case True
    then obtain k2 b where nx: "om_next m k = Some (k2, b)" and j: "joinable a b" by blast
    have m1: "m1 = om_erase k2 (om_set k (join a b) m)" by (simp add: m1_def om_join_next_def k nx j)
    have "k \<noteq> k2" using om.next_lookup [OF seg_ok_inv [OF good_ok [OF g]] nx] by simp
    with join_pair [OF g k nx j] step [OF g k nx j p] show ?thesis by (simp add: m1)
  next
    case False
    then have "m1 = m" using k by (auto simp: m1_def om_join_next_def split: option.splits)
    with g p k show ?thesis by simp
  qed
  then obtain a1 where g1: "good m1" and p1: "P m1" and k1: "om_lookup m1 k = Some a1" by blast
  have m': "m' = snd (om_join_prev joinable join m1 k)"
    using e merge_map_eq [OF g k] by (simp add: m1_def)
  show ?thesis
  proof (cases "\<exists>k0 q. om_prev m1 k = Some (k0, q) \<and> joinable q a1")
    case True
    then obtain k0 q where pv: "om_prev m1 k = Some (k0, q)" and j: "joinable q a1" by blast
    note inv1 = seg_ok_inv [OF good_ok [OF g1]]
    have k0: "om_lookup m1 k0 = Some q" using om.prev_lookup [OF inv1 pv] by simp
    have nx: "om_next m1 k0 = Some (k, a1)" by (rule om.next_of_prev [OF inv1 k1 pv])
    from step [OF g1 k0 nx j p1] show ?thesis
      by (simp add: m' om_join_prev_def k1 pv j)
  next
    case False
    then have "om_join_prev joinable join m1 k = (k, m1)"
      using k1 by (auto simp: om_join_prev_def split: option.splits)
    with p1 m' show ?thesis by simp
  qed
qed

lemma merge_fits:
  assumes g: "good m" and k: "om_lookup m k = Some a" and e: "merge_map m k = Some (h, m')"
    and l: "0 < l" and f: "seg_fits sz m y l"
  shows "seg_fits sz m' y l"
  by (rule merge_invariant [where P = "\<lambda>m. seg_fits sz m y l", OF g k e f])
    (rule join_pair_fits [OF _ _ _ _ l])

lemma merge_all:
  assumes g: "good m" and k: "om_lookup m k = Some a" and e: "merge_map m k = Some (h, m')"
    and p: "\<And>j b. om_lookup m j = Some b \<Longrightarrow> P b"
    and jn: "\<And>j a b. ok j a \<Longrightarrow> ok (j + sz a) b \<Longrightarrow> j + sz a + sz b < U64 \<Longrightarrow> joinable a b \<Longrightarrow>
        P a \<Longrightarrow> P b \<Longrightarrow> P (join a b)"
    and j: "om_lookup m' j = Some b"
  shows "P b"
proof -
  have "\<forall>j b. om_lookup m' j = Some b \<longrightarrow> P b"
  proof (rule merge_invariant [where P = "\<lambda>m. \<forall>j b. om_lookup m j = Some b \<longrightarrow> P b", OF g k e])
    fix m k a k2 b
    assume g: "good m" and k: "om_lookup m k = Some a" and nx: "om_next m k = Some (k2, b)"
      and j: "joinable a b" and all: "\<forall>j b. om_lookup m j = Some b \<longrightarrow> P b"
    note ok = lookupD [OF good_ok [OF g]] and jp = join_pair [OF g k nx j]
    have b: "om_lookup m k2 = Some b"
      using om.next_lookup [OF seg_ok_inv [OF good_ok [OF g]] nx] by simp
    have "P (join a b)"
      using ok(3) [OF k] ok(2,3) [OF b] jp(4) j all k b by (intro jn [of k a b]) auto
    with all show "\<forall>j c. om_lookup (om_erase k2 (om_set k (join a b) m)) j = Some c \<longrightarrow> P c"
      by (simp add: jp(3))
  qed (use p in blast)
  with j show ?thesis by blast
qed

text \<open>
  \<^verbatim>\<open>MergeAdjacent\<close> keeps the map well formed and its meaning; the iterator it returns is at an
  area that covers the one it was called for.
\<close>

lemma merge_correct:
  assumes g: "good m" and k: "om_lookup m k = Some a"
  obtains h m' c where "merge_map m k = Some (h, m')" and "good m'"
    and "seg_den sz content m' = seg_den sz content m"
    and "om_lookup m' h = Some c" and "h \<le> k" and "k + sz a \<le> h + sz c"
proof -
  define m1 where "m1 = om_join_next joinable join m k"
  obtain a1 where g1: "good m1" and d1: "seg_den sz content m1 = seg_den sz content m"
    and k1: "om_lookup m1 k = Some a1" and s1: "sz a \<le> sz a1"
  proof (cases "\<exists>k2 b. om_next m k = Some (k2, b) \<and> joinable a b")
    case True
    then obtain k2 b where nx: "om_next m k = Some (k2, b)" and j: "joinable a b" by blast
    have m1: "m1 = om_erase k2 (om_set k (join a b) m)" by (simp add: m1_def om_join_next_def k nx j)
    note jp = join_pair [OF g k nx j, folded m1]
    have "k \<noteq> k2" using jp(4) lookupD(1) [OF good_ok [OF g] k] by simp
    then have "om_lookup m1 k = Some (join a b)" by (simp add: jp(3))
    with jp(1,2,5) show thesis by (intro that [of "join a b"]) simp_all
  next
    case False
    then have "m1 = m" using k by (auto simp: m1_def om_join_next_def split: option.splits)
    with g k show thesis by (intro that [of a]) simp_all
  qed
  have e: "merge_map m k = Some (om_join_prev joinable join m1 k)"
    using merge_map_eq [OF g k] by (simp add: m1_def)
  show thesis
  proof (cases "\<exists>k0 p. om_prev m1 k = Some (k0, p) \<and> joinable p a1")
    case True
    then obtain k0 p where pv: "om_prev m1 k = Some (k0, p)" and j: "joinable p a1" by blast
    note inv1 = seg_ok_inv [OF good_ok [OF g1]]
    have k0: "om_lookup m1 k0 = Some p" and lt: "k0 < k" using om.prev_lookup [OF inv1 pv] by auto
    have nx: "om_next m1 k0 = Some (k, a1)" by (rule om.next_of_prev [OF inv1 k1 pv])
    note jp = join_pair [OF g1 k0 nx j]
    have "om_join_prev joinable join m1 k = (k0, om_erase k (om_set k0 (join p a1) m1))"
      by (simp add: om_join_prev_def k1 pv j)
    with e jp d1 lt s1 show thesis
      by (intro that [of k0 "om_erase k (om_set k0 (join p a1) m1)" "join p a1"]) simp_all
  next
    case False
    then have "om_join_prev joinable join m1 k = (k, m1)"
      using k1 by (auto simp: om_join_prev_def split: option.splits)
    with e g1 d1 k1 s1 show thesis by (intro that [of k m1 a1]) simp_all
  qed
qed

end

subsection \<open>Carve, assign, merge\<close>

text \<open>
  The memory manager changes a range of a map in three steps: it carves the range out, assigns
  to the carved area, and merges it with its neighbours.  \<open>carve_assign\<close> is the first two.
\<close>

definition carve_assign ::
  "('a omap \<Rightarrow> nat \<Rightarrow> nat \<Rightarrow> (nat \<times> 'a omap) option) \<Rightarrow> ('a \<Rightarrow> 'a) \<Rightarrow> 'a omap \<Rightarrow> nat \<Rightarrow> nat \<Rightarrow>
   (nat \<times> 'a omap) option" where
  "carve_assign carve f m x n =
     do { (h, m1) \<leftarrow> carve m x n; a \<leftarrow> om_lookup m1 h; Some (h, om_set h (f a) m1) }"

locale segment_map =
  segments_split sz content ok cutl cutr split_map carve_map +
  segments_merge sz content ok "seg_ok sz ok" joinable join merge_map
  for sz :: "'a \<Rightarrow> nat" and content :: "'a \<Rightarrow> nat \<Rightarrow> 'c" and ok :: "nat \<Rightarrow> 'a \<Rightarrow> bool"
    and cutl cutr split_map carve_map joinable join merge_map
begin

lemma carve_assign_correct:
  assumes m: "seg_ok sz ok m" and f: "om_floor m x = Some (k, a)"
    and n: "0 < n" and fit: "x + n \<le> k + sz a"
    and upd: "\<forall>b. sz b = n \<and> ok x b \<and> (\<forall>i < n. content b i = content a (x - k + i)) \<longrightarrow>
                sz (f b) = n \<and> ok x (f b) \<and> (\<forall>i < n. content (f b) i = c i)"
  obtains m' b where "carve_assign carve_map f m x n = Some (x, m')"
    and "seg_ok sz ok m'" and "om_lookup m' x = Some (f b)" and "sz (f b) = n"
    and "sz b = n" and "ok x b" and "\<And>i. i < n \<Longrightarrow> content b i = content a (x - k + i)"
    and "\<And>y. seg_den sz content m' y =
           (if x \<le> y \<and> y < x + n then Some (c (y - x)) else seg_den sz content m y)"
    and "om_lookup m' k \<noteq> None"
    and "\<And>j d. om_lookup m j = Some d \<Longrightarrow> j \<noteq> k \<Longrightarrow> om_lookup m' j = Some d"
proof -
  obtain m1 b where cv: "carve_map m x n = Some (x, m1)" and ok1: "seg_ok sz ok m1"
    and d1: "seg_den sz content m1 = seg_den sz content m"
    and bx: "om_lookup m1 x = Some b" and sb: "sz b = n"
    and cb: "\<And>i. i < n \<Longrightarrow> content b i = content a (x - k + i)"
    and hk: "om_lookup m1 k \<noteq> None"
    and other: "\<And>j d. om_lookup m j = Some d \<Longrightarrow> j \<noteq> k \<Longrightarrow> om_lookup m1 j = Some d"
    by (rule carve_correct [OF m f n fit]) (rule that)
  have okb: "ok x b" by (rule lookupD(3) [OF ok1 bx])
  have u: "sz (f b) = n \<and> ok x (f b) \<and> (\<forall>i < n. content (f b) i = c i)"
    using upd sb okb cb by simp
  have r: "seg_ok sz ok (om_set x (f b) m1)"
    "seg_den sz content (om_set x (f b) m1) y =
       (if x \<le> y \<and> y < x + n then Some (c (y - x)) else seg_den sz content m y)" for y
    using replace [OF ok1 bx, of "f b"] u sb d1 by auto
  have look: "om_lookup (om_set x (f b) m1) = (om_lookup m1)(x \<mapsto> f b)"
    by (simp add: om_lookup_set)
  have away: "om_lookup (om_set x (f b) m1) j = Some d" if j: "om_lookup m j = Some d" "j \<noteq> k" for j d
  proof -
    have "j \<noteq> x"
    proof
      assume "j = x"
      with j om.floor_at_key [OF seg_ok_inv [OF m]] f show False by auto
    qed
    with other [OF j] show ?thesis by (simp add: look)
  qed
  have "carve_assign carve_map f m x n = Some (x, om_set x (f b) m1)"
    by (simp add: carve_assign_def cv bx)
  then show thesis
    by (rule that [OF _ r(1) _ _ sb okb cb r(2) _ away]) (use u hk in \<open>auto simp: look\<close>)
qed

lemma carve_assign_fits:
  assumes m: "seg_ok sz ok m" and f: "om_floor m x = Some (k, a)"
    and n: "0 < n" and fit: "x + n \<le> k + sz a"
    and ca: "carve_assign carve_map f m x n = Some (h, m')" and sf: "\<And>b. sz (f b) = sz b"
    and l: "0 < l" and y: "seg_fits sz m y l" and out: "y + l \<le> x \<or> x + n \<le> y"
  shows "seg_fits sz m' y l"
proof -
  obtain m1 b where cv: "carve_map m x n = Some (x, m1)" and ok1: "seg_ok sz ok m1"
    and b: "om_lookup m1 x = Some b"
    by (rule carve_correct [OF m f n fit]) (rule that)
  have "m' = om_set x (f b) m1" using ca by (auto simp: carve_assign_def cv b)
  with carve_fits [OF m f n fit cv l y out] replace_fits [OF ok1 b sf] show ?thesis by simp
qed

lemma update_range:
  assumes m: "seg_ok sz ok m" and f: "om_floor m x = Some (k, a)"
    and n: "0 < n" and fit: "x + n \<le> k + sz a"
    and upd: "\<forall>b. sz b = n \<and> ok x b \<and> (\<forall>i < n. content b i = content a (x - k + i)) \<longrightarrow>
                sz (f b) = n \<and> ok x (f b) \<and> (\<forall>i < n. content (f b) i = c i)"
    and sf: "\<And>b. sz (f b) = sz b"
  obtains m1 h m' d where "carve_assign carve_map f m x n = Some (x, m1)"
    and "merge_map m1 x = Some (h, m')" and "seg_ok sz ok m'"
    and "om_lookup m' h = Some d" and "h \<le> x" and "x + n \<le> h + sz d"
    and "\<And>y. seg_den sz content m' y =
           (if x \<le> y \<and> y < x + n then Some (c (y - x)) else seg_den sz content m y)"
    and "\<And>y l. 0 < l \<Longrightarrow> seg_fits sz m y l \<Longrightarrow> y + l \<le> x \<or> x + n \<le> y \<Longrightarrow> seg_fits sz m' y l"
proof -
  obtain m1 b where ca: "carve_assign carve_map f m x n = Some (x, m1)"
    and ok1: "seg_ok sz ok m1" and l1: "om_lookup m1 x = Some (f b)" and s1: "sz (f b) = n"
    and d1: "\<And>y. seg_den sz content m1 y =
           (if x \<le> y \<and> y < x + n then Some (c (y - x)) else seg_den sz content m y)"
    by (rule carve_assign_correct [OF m f n fit upd]) (rule that)
  obtain h m' d where mg: "merge_map m1 x = Some (h, m')" and "seg_ok sz ok m'"
    and "seg_den sz content m' = seg_den sz content m1"
    and "om_lookup m' h = Some d" and "h \<le> x" and "x + sz (f b) \<le> h + sz d"
    using merge_correct [OF ok1 l1] by blast
  moreover have "seg_fits sz m' y l"
    if "0 < l" "seg_fits sz m y l" "y + l \<le> x \<or> x + n \<le> y" for y l
    using merge_fits [OF ok1 l1 mg that(1) carve_assign_fits [OF m f n fit ca sf that]] .
  ultimately show thesis using ca d1 s1 by (intro that [of m1 h m' d]) auto
qed

text \<open>A property of single areas through the three steps.\<close>

lemma update_all:
  assumes m: "seg_ok sz ok m" and f: "om_floor m x = Some (k, a)"
    and n: "0 < n" and fit: "x + n \<le> k + sz a"
    and ca: "carve_assign carve_map f m x n = Some (x, m1)" and mg: "merge_map m1 x = Some (h, m')"
    and ok1: "seg_ok sz ok m1"
    and p: "\<And>j b. om_lookup m j = Some b \<Longrightarrow> P b" and fp: "\<And>b. P b \<Longrightarrow> P (f b)"
    and cut: "\<And>j b off. ok j b \<Longrightarrow> j + sz b < U64 \<Longrightarrow> 0 < off \<Longrightarrow> off < sz b \<Longrightarrow> P b \<Longrightarrow>
        P (cutl b off) \<and> P (cutr b off)"
    and jn: "\<And>j a b. ok j a \<Longrightarrow> ok (j + sz a) b \<Longrightarrow> j + sz a + sz b < U64 \<Longrightarrow> joinable a b \<Longrightarrow>
        P a \<Longrightarrow> P b \<Longrightarrow> P (join a b)"
    and j: "om_lookup m' j = Some b"
  shows "P b"
proof -
  obtain m0 c where cv: "carve_map m x n = Some (x, m0)" and c: "om_lookup m0 x = Some c"
    and m1: "m1 = om_set x (f c) m0"
    using ca by (auto simp: carve_assign_def bind_eq_Some_conv)
  have P0: "P d" if "om_lookup m0 i = Some d" for i d
    by (rule carve_all [where P = P, OF m f n fit cv p cut that])
  have P1: "P d" if "om_lookup m1 i = Some d" for i d
    using that P0 fp c by (auto simp: m1 om_lookup_set split: if_splits)
  have "om_lookup m1 x = Some (f c)" by (simp add: m1 om_lookup_set)
  then show ?thesis by (rule merge_all [where P = P, OF ok1 _ mg P1 jn j])
qed

end

end
