(* ===== verification/Orbit_PhysMap.thy ===== *)
theory Orbit_PhysMap
  imports Orbit_Segments
begin

text \<open>
  Physical memory areas (\<^verbatim>\<open>src/core/memory.h\<close>, \<^verbatim>\<open>PhysicalMemoryArea\<close>) and the operations of
  \<^verbatim>\<open>MemoryManager\<close> on maps of them: \<^verbatim>\<open>Split\<close>, \<^verbatim>\<open>CarvePhysArea\<close> and \<^verbatim>\<open>MergeAdjacent\<close>
  (\<^verbatim>\<open>src/core/memory.cpp\<close>).  An operation returns \<open>None\<close> where the source aborts on a failed
  \<^verbatim>\<open>ASSERT\<close> or would use an invalid iterator.

  Two kinds of map exist.  \<^verbatim>\<open>dmem_map\<close> and \<^verbatim>\<open>fmem_map\<close> are keyed by the physical base address
  (\<open>phys_keyed\<close>); the map \<^verbatim>\<open>phys_areas\<close> of a virtual area is keyed by the offset in that area
  and tiles it without gaps (\<open>phys_tiled\<close>).  The interpretations \<open>pk\<close> and \<open>pt\<close> show that the
  operations change neither kind's meaning.
\<close>

datatype PhysicalMemoryType =
  PFree | PAllocated | PMapped | PPooled | PCommitted | PFlexible

record PhysicalMemoryArea =
  pma_base :: PAddr
  pma_size :: nat
  pma_memory_type :: s32
  pma_dma_type :: PhysicalMemoryType

type_synonym PhysMap = "PhysicalMemoryArea omap"

definition GetEnd :: "PhysicalMemoryArea \<Rightarrow> PAddr" where
  "GetEnd a = uadd (pma_base a) (pma_size a)"

definition phys_CanMergeWith :: "PhysicalMemoryArea \<Rightarrow> PhysicalMemoryArea \<Rightarrow> bool" where
  "phys_CanMergeWith a nxt =
     (if uadd (pma_base a) (pma_size a) \<noteq> pma_base nxt then False
      else if pma_memory_type a \<noteq> pma_memory_type nxt then False
      else if pma_dma_type a \<noteq> pma_dma_type nxt then False
      else True)"

definition phys_Split :: "PhysMap \<Rightarrow> PAddr \<Rightarrow> nat \<Rightarrow> (PAddr \<times> PhysMap) option" where
  "phys_Split m phys_handle offset_in_area =
     do {
       old_area \<leftarrow> om_lookup m phys_handle;
       if offset_in_area < pma_size old_area \<and> offset_in_area > 0
       then let new_area = old_area\<lparr>
                  pma_base := uadd (pma_base old_area) offset_in_area,
                  pma_size := usub (pma_size old_area) offset_in_area\<rparr>;
                m1 = om_set phys_handle (old_area\<lparr>pma_size := offset_in_area\<rparr>) m
            in Some (pma_base new_area, om_emplace (pma_base new_area) new_area m1)
       else None
     }"

definition CarvePhysArea :: "PhysMap \<Rightarrow> PAddr \<Rightarrow> nat \<Rightarrow> (PAddr \<times> PhysMap) option" where
  "CarvePhysArea m addr sz =
     do {
       (pmem_handle, area) \<leftarrow> om_floor m addr;
       if \<not> addr \<le> GetEnd area then None
       else if \<not> pma_base area \<le> addr then None
       else
         let start_in_area = usub addr (pma_base area);
             end_in_vma = uadd start_in_area sz
         in if \<not> end_in_vma \<le> pma_size area then None
            else do {
              m1 \<leftarrow> (if end_in_vma \<noteq> pma_size area
                     then map_option snd (phys_Split m pmem_handle end_in_vma)
                     else Some m);
              if start_in_area \<noteq> 0 then phys_Split m1 pmem_handle start_in_area
              else Some (pmem_handle, m1)
            }
     }"

definition phys_MergeAdjacent :: "PhysMap \<Rightarrow> PAddr \<Rightarrow> (PAddr \<times> PhysMap) option" where
  "phys_MergeAdjacent m iter =
     do {
       a \<leftarrow> om_lookup m iter;
       let (a1, m1) =
         (case om_next m iter of
            Some (nk, nxt) \<Rightarrow>
              if phys_CanMergeWith a nxt
              then let a' = a\<lparr>pma_size := uadd (pma_size a) (pma_size nxt)\<rparr>
                   in (a', om_erase nk (om_set iter a' m))
              else (a, m)
          | None \<Rightarrow> (a, m));
       (case om_prev m1 iter of
          Some (pk, prv) \<Rightarrow>
            if phys_CanMergeWith prv a1
            then Some (pk, om_erase iter
                   (om_set pk (prv\<lparr>pma_size := uadd (pma_size prv) (pma_size a1)\<rparr>) m1))
            else Some (iter, m1)
        | None \<Rightarrow> Some (iter, m1))
     }"

subsection \<open>Meaning and invariants\<close>

text \<open>
  What a map says about one key: the physical address, the memory type and the usage.
\<close>

type_synonym phys_info = "PAddr \<times> s32 \<times> PhysicalMemoryType"

definition phys_content :: "PhysicalMemoryArea \<Rightarrow> nat \<Rightarrow> phys_info" where
  "phys_content a i = (pma_base a + i, pma_memory_type a, pma_dma_type a)"

definition phys_at :: "PhysMap \<Rightarrow> nat \<Rightarrow> phys_info option" where
  "phys_at m = seg_den pma_size phys_content m"

definition base_is_key :: "nat \<Rightarrow> PhysicalMemoryArea \<Rightarrow> bool" where
  "base_is_key k a \<longleftrightarrow> pma_base a = k"

definition in_u64 :: "nat \<Rightarrow> PhysicalMemoryArea \<Rightarrow> bool" where
  "in_u64 k a \<longleftrightarrow> pma_base a + pma_size a < U64"

definition phys_keyed :: "PhysMap \<Rightarrow> bool" where
  "phys_keyed m = seg_ok pma_size base_is_key m"

definition phys_segs :: "PhysMap \<Rightarrow> bool" where
  "phys_segs m = seg_ok pma_size in_u64 m"

definition phys_tiled :: "PhysMap \<Rightarrow> nat \<Rightarrow> bool" where
  "phys_tiled m n \<longleftrightarrow> phys_segs m \<and> (\<forall>i. phys_at m i \<noteq> None \<longleftrightarrow> i < n)"

definition phys_cutl :: "PhysicalMemoryArea \<Rightarrow> nat \<Rightarrow> PhysicalMemoryArea" where
  "phys_cutl a off = a\<lparr>pma_size := off\<rparr>"

definition phys_cutr :: "PhysicalMemoryArea \<Rightarrow> nat \<Rightarrow> PhysicalMemoryArea" where
  "phys_cutr a off =
     a\<lparr>pma_base := uadd (pma_base a) off, pma_size := usub (pma_size a) off\<rparr>"

definition phys_join :: "PhysicalMemoryArea \<Rightarrow> PhysicalMemoryArea \<Rightarrow> PhysicalMemoryArea" where
  "phys_join a b = a\<lparr>pma_size := uadd (pma_size a) (pma_size b)\<rparr>"

lemma phys_MergeAdjacent_eq:
  "om_inv m \<Longrightarrow> om_lookup m k = Some a \<Longrightarrow>
   phys_MergeAdjacent m k =
     Some (om_join_prev phys_CanMergeWith phys_join
            (om_join_next phys_CanMergeWith phys_join m k) k)"
proof -
  assume inv: "om_inv m" and k: "om_lookup m k = Some a"
  show ?thesis
  proof (cases "\<exists>nk nxt. om_next m k = Some (nk, nxt) \<and> phys_CanMergeWith a nxt")
    case True
    then obtain nk nxt where nx: "om_next m k = Some (nk, nxt)" "phys_CanMergeWith a nxt" by blast
    have "nk \<noteq> k" using om.next_lookup [OF inv nx(1)] by simp
    then have "om_lookup (om_erase nk (om_set k (phys_join a nxt) m)) k = Some (phys_join a nxt)"
      by (simp add: om.lookup_erase om.lookup_put om.inv_put inv)
    with nx k show ?thesis
      by (auto simp: phys_MergeAdjacent_def om_join_next_def om_join_prev_def phys_join_def Let_def
               split: option.splits)
  next
    case False
    then show ?thesis
      using k by (auto simp: phys_MergeAdjacent_def om_join_next_def om_join_prev_def phys_join_def
                       Let_def split: option.splits)
  qed
qed

lemma carve_phys_eq:
  assumes m: "seg_ok pma_size base_is_key m" and f: "om_floor m x = Some (k, a)"
    and n: "0 < n" "x + n \<le> k + pma_size a"
  shows "CarvePhysArea m x n =
    (let e = x - k + n in
     Option.bind (if e \<noteq> pma_size a then map_option snd (phys_Split m k e) else Some m)
       (\<lambda>m1. if x \<noteq> k then phys_Split m1 k (x - k) else Some (k, m1)))"
proof -
  have k: "(k, a) \<in> set m" "k \<le> x"
    using om.floor_lookup [OF seg_ok_inv [OF m] f] om_lookup_in_set [OF seg_ok_inv [OF m]] by auto
  from seg_ok_entry [OF m k(1)] have b: "pma_base a = k" "k + pma_size a < U64"
    by (auto simp: base_is_key_def)
  have "usub x k = x - k" "uadd (x - k) n = x - k + n" "uadd k (pma_size a) = k + pma_size a"
    using b k n by (simp_all add: u64_exact)
  with f b k n show ?thesis
    by (auto simp: CarvePhysArea_def GetEnd_def Let_def)
qed

interpretation pk: segment_map pma_size phys_content base_is_key phys_cutl phys_cutr
  phys_Split CarvePhysArea phys_CanMergeWith phys_join phys_MergeAdjacent
proof (unfold_locales, goal_cases)
  case (5 m k a off)
  have "base_is_key k a" "k + pma_size a < U64"
    using seg_ok_entry [OF 5(1)] 5(2) om_lookup_in_set [OF seg_ok_inv [OF 5(1)]] by auto
  with 5 show ?case
    by (simp add: phys_Split_def phys_cutl_def phys_cutr_def base_is_key_def u64_exact)
next
  case (6 m x k a n)
  then show ?case by (rule carve_phys_eq)
next
  case (9 m k a k2 b)
  note l = seg_ok_entry [OF 9(1)] om_lookup_in_set [OF seg_ok_inv [OF 9(1)]]
  have "base_is_key k a" "k + pma_size a < U64" "base_is_key k2 b"
    using l 9(2) om.next_lookup [OF seg_ok_inv [OF 9(1)] 9(3)] by auto
  with 9(4) show ?case
    by (auto simp: phys_CanMergeWith_def base_is_key_def u64_exact split: if_splits)
next
  case (12 m k a)
  then show ?case by (intro phys_MergeAdjacent_eq seg_ok_inv)
qed (auto simp: phys_cutl_def phys_cutr_def phys_join_def phys_content_def base_is_key_def
       phys_CanMergeWith_def u64_exact split: if_splits)

text \<open>Tilings: the successor of an area starts where the area ends.\<close>

lemma phys_tiled_adjacent:
  assumes t: "phys_tiled m n" and k: "om_lookup m k = Some a" and nx: "om_next m k = Some (k2, b)"
  shows "k2 = k + pma_size a"
proof -
  have m: "seg_ok pma_size in_u64 m" using t by (simp add: phys_tiled_def phys_segs_def)
  note inv = seg_ok_inv [OF m]
  note n2 = om.next_lookup [OF inv nx]
  have le: "k + pma_size a \<le> k2"
    using seg_ok_apart [OF m] k n2 by (simp add: om_lookup_in_set inv)
  have "0 < pma_size b" using seg_ok_entry [OF m] n2 by (simp add: om_lookup_in_set inv)
  then have "phys_at m k2 \<noteq> None"
    using om.floor_at_key [OF inv n2(1)] by (simp add: phys_at_def seg_den_def)
  then have k2: "k2 < n" using t by (simp add: phys_tiled_def)
  show ?thesis
  proof (rule ccontr)
    assume ne: "k2 \<noteq> k + pma_size a"
    with le have lt: "k + pma_size a < k2" by simp
    have "om_floor m (k + pma_size a) = Some (k, a)"
      using k nx lt by (auto simp: om.floor_Some [OF inv] om.next_Some [OF inv])
    then have "phys_at m (k + pma_size a) = None" by (simp add: phys_at_def seg_den_def)
    then have "n \<le> k + pma_size a" using t by (meson not_le phys_tiled_def)
    with lt k2 show False by simp
  qed
qed

interpretation pt: segments_merge pma_size phys_content in_u64 "\<lambda>m. \<exists>n. phys_tiled m n"
  phys_CanMergeWith phys_join phys_MergeAdjacent
proof (unfold_locales, goal_cases)
  case (2 m m')
  then show ?case by (auto simp: phys_tiled_def phys_segs_def phys_at_def)
next
  case (3 m k a k2 b)
  then show ?case by (blast intro: phys_tiled_adjacent)
next
  case (6 m k a)
  then show ?case
    by (intro phys_MergeAdjacent_eq) (auto simp: phys_tiled_def phys_segs_def dest: seg_ok_inv)
qed (auto simp: phys_tiled_def phys_segs_def phys_join_def phys_content_def in_u64_def
       phys_CanMergeWith_def u64_exact split: if_splits)

subsection \<open>What the operations do to the physical maps\<close>

lemma phys_keyed_ok: "phys_keyed m \<Longrightarrow> seg_ok pma_size base_is_key m"
  by (simp add: phys_keyed_def)

lemma phys_at_key:
  assumes "phys_keyed m" and "phys_at m x = Some (p, t, d)"
  shows "p = x"
proof -
  obtain k a where "om_lookup m k = Some a" and "k \<le> x" and "phys_content a (x - k) = (p, t, d)"
    using assms pk.den_Some by (auto simp: phys_at_def phys_keyed_def)
  moreover have "pma_base a = k"
    using pk.lookupD(3) [of m k a] assms(1) calculation by (simp add: phys_keyed_def base_is_key_def)
  ultimately show ?thesis by (simp add: phys_content_def)
qed

text \<open>The area that \<^verbatim>\<open>prev(upper_bound(x))\<close> finds in a keyed map, and what it says.\<close>

lemma phys_floor_at:
  assumes "phys_keyed m" and "om_floor m x = Some (k, a)" and "x < k + pma_size a"
  shows "phys_at m x = Some (x, pma_memory_type a, pma_dma_type a)"
proof -
  note inv = seg_ok_inv [OF phys_keyed_ok [OF assms(1)]]
  note l = om.floor_lookup [OF inv assms(2)]
  have "pma_base a = k" using pk.lookupD(3) [OF phys_keyed_ok [OF assms(1)] l(1)]
    by (simp add: base_is_key_def)
  with l assms show ?thesis by (simp add: phys_at_def seg_den_def phys_content_def)
qed

lemma phys_area_at:
  assumes "phys_keyed m" and "om_lookup m k = Some a" and "k \<le> x" and "x < k + pma_size a"
  shows "phys_at m x = Some (x, pma_memory_type a, pma_dma_type a)"
  using assms pk.floor_holds [OF phys_keyed_ok] by (intro phys_floor_at) auto

text \<open>
  Carving a range out of an area of a keyed map and giving it a new usage: the step that
  allocation, mapping and release have in common.  \<open>retag\<close> says what such an assignment may
  change, namely the two tags of the area.
\<close>

definition retag ::
  "(PhysicalMemoryArea \<Rightarrow> PhysicalMemoryArea) \<Rightarrow> (s32 \<Rightarrow> s32) \<Rightarrow> PhysicalMemoryType \<Rightarrow> bool" where
  "retag f g d \<longleftrightarrow> (\<forall>b. pma_base (f b) = pma_base b \<and> pma_size (f b) = pma_size b \<and>
      pma_memory_type (f b) = g (pma_memory_type b) \<and> pma_dma_type (f b) = d)"

lemma phys_carve_assign:
  assumes m: "phys_keyed m" and f: "om_floor m x = Some (k, a)"
    and n: "0 < n" and fit: "x + n \<le> k + pma_size a" and r: "retag f g d"
  obtains m' where "carve_assign CarvePhysArea f m x n = Some (x, m')" and "phys_keyed m'"
    and "\<And>y. phys_at m' y = (if x \<le> y \<and> y < x + n then Some (y, g (pma_memory_type a), d) else phys_at m y)"
    and "om_lookup m' x \<noteq> None" and "om_lookup m' k \<noteq> None"
    and "\<And>y l. 0 < l \<Longrightarrow> seg_fits pma_size m y l \<Longrightarrow> y + l \<le> x \<or> x + n \<le> y \<Longrightarrow> seg_fits pma_size m' y l"
proof -
  note keyed = phys_keyed_ok [OF m]
  note l = om.floor_lookup [OF seg_ok_inv [OF keyed] f]
  have base: "pma_base a = k" using pk.lookupD(3) [OF keyed l(1)] by (simp add: base_is_key_def)
  have sf: "pma_size (f b) = pma_size b" for b using r by (simp add: retag_def)
  have upd: "\<forall>b. pma_size b = n \<and> base_is_key x b \<and>
      (\<forall>i < n. phys_content b i = phys_content a (x - k + i)) \<longrightarrow>
      pma_size (f b) = n \<and> base_is_key x (f b) \<and>
      (\<forall>i < n. phys_content (f b) i = (x + i, g (pma_memory_type a), d))"
    using r n by (auto simp: retag_def base_is_key_def phys_content_def)
  obtain m' b where ca: "carve_assign CarvePhysArea f m x n = Some (x, m')"
    and "seg_ok pma_size base_is_key m'" and "om_lookup m' x = Some (f b)"
    and "\<And>y. seg_den pma_size phys_content m' y =
           (if x \<le> y \<and> y < x + n then Some (x + (y - x), g (pma_memory_type a), d)
            else seg_den pma_size phys_content m y)"
    and "om_lookup m' k \<noteq> None"
    by (rule pk.carve_assign_correct [OF keyed f n fit upd]) (rule that)
  with pk.carve_assign_fits [OF keyed f n fit ca sf] show thesis
    by (intro that [of m']) (auto simp: phys_keyed_def phys_at_def)
qed

lemma phys_merge:
  assumes m: "phys_keyed m" and k: "om_lookup m k \<noteq> None"
  obtains h m' where "phys_MergeAdjacent m k = Some (h, m')" and "phys_keyed m'"
    and "phys_at m' = phys_at m"
    and "\<And>y l. 0 < l \<Longrightarrow> seg_fits pma_size m y l \<Longrightarrow> seg_fits pma_size m' y l"
proof -
  obtain a where k: "om_lookup m k = Some a" using k by auto
  obtain h m' where mg: "phys_MergeAdjacent m k = Some (h, m')" and "seg_ok pma_size base_is_key m'"
    and "seg_den pma_size phys_content m' = seg_den pma_size phys_content m"
    using pk.merge_correct [OF phys_keyed_ok [OF m] k] by blast
  with pk.merge_fits [OF phys_keyed_ok [OF m] k mg] show thesis
    by (intro that [of h m']) (auto simp: phys_keyed_def phys_at_def)
qed

subsection \<open>Tilings as chains\<close>

text \<open>
  A tiling of \<open>n\<close> bytes is a list of areas each of which starts where the one before ends; this
  reads off the list, and is how the loops over the physical areas walk through it.
\<close>

fun phys_chain :: "nat \<Rightarrow> PhysMap \<Rightarrow> nat \<Rightarrow> bool" where
  "phys_chain a [] n \<longleftrightarrow> a = n"
| "phys_chain a ((k, r) # m) n \<longleftrightarrow>
     k = a \<and> 0 < pma_size r \<and> pma_base r + pma_size r < U64 \<and> phys_chain (a + pma_size r) m n"

lemma phys_chain_le: "phys_chain a m n \<Longrightarrow> a \<le> n"
  by (induction a m n rule: phys_chain.induct) auto

lemma phys_chain_entry:
  "phys_chain a m n \<Longrightarrow> (k, r) \<in> set m \<Longrightarrow> a \<le> k \<and> k + pma_size r \<le> n"
proof (induction a m n rule: phys_chain.induct)
  case (2 a k' r' m n)
  then show ?case using phys_chain_le [of "a + pma_size r'" m n] by auto
qed simp

lemma phys_chain_segs: "phys_chain a m n \<Longrightarrow> n < U64 \<Longrightarrow> seg_ok pma_size in_u64 m"
proof (induction a m n rule: phys_chain.induct)
  case (2 a k r m n)
  then show ?case
    using phys_chain_le [of "a + pma_size r" m n] phys_chain_entry [of "a + pma_size r" m n]
    by (auto simp: in_u64_def)
qed simp

lemma phys_at_Cons:
  assumes "seg_ok pma_size ok ((k, r) # m)"
  shows "phys_at ((k, r) # m) i =
    (if k \<le> i \<and> i < k + pma_size r then Some (phys_content r (i - k)) else phys_at m i)"
proof -
  have m: "seg_ok pma_size ok m" and later: "\<And>j b. om_lookup m j = Some b \<Longrightarrow> k + pma_size r \<le> j"
    using assms seg_ok_inv [of pma_size ok m] by (auto simp: om_lookup_in_set)
  show ?thesis
  proof (cases "om_floor m i")
    case None
    then have "\<forall>j \<le> i. om_lookup m j = None" by (simp only: om.floor_None [OF seg_ok_inv [OF m]])
    with None show ?thesis by (auto simp: phys_at_def seg_den_def)
  next
    case (Some e)
    obtain j b where e: "e = (j, b)" by (cases e)
    have "om_lookup m j = Some b" "j \<le> i"
      using om.floor_lookup [OF seg_ok_inv [OF m] Some [unfolded e]] .
    with later have "k + pma_size r \<le> i" by fastforce
    with Some e show ?thesis by (auto simp: phys_at_def seg_den_def)
  qed
qed

lemma phys_chain_at:
  "phys_chain a m n \<Longrightarrow> n < U64 \<Longrightarrow> phys_at m i \<noteq> None \<longleftrightarrow> a \<le> i \<and> i < n"
proof (induction a m n rule: phys_chain.induct)
  case (1 a n)
  then show ?case by (simp add: phys_at_def seg_den_def)
next
  case (2 a k r m n)
  have "a + pma_size r \<le> n" using 2 phys_chain_le [of "a + pma_size r" m n] by simp
  moreover have "phys_at ((k, r) # m) i \<noteq> None \<longleftrightarrow>
      k \<le> i \<and> i < k + pma_size r \<or> phys_at m i \<noteq> None"
    using phys_at_Cons [OF phys_chain_segs [OF "2.prems"], of i] by (auto split: if_splits simp del: not_None_eq)
  moreover have "phys_at m i \<noteq> None \<longleftrightarrow> a + pma_size r \<le> i \<and> i < n" and "k = a"
    using 2 by simp_all
  ultimately show ?case by linarith
qed

lemma phys_tiled_to_chain:
  "seg_ok pma_size in_u64 m \<Longrightarrow> \<forall>i. phys_at m i \<noteq> None \<longleftrightarrow> a \<le> i \<and> i < n \<Longrightarrow>
   a \<le> n \<Longrightarrow> phys_chain a m n"
proof (induction m arbitrary: a)
  case Nil
  then have "\<forall>i. \<not> (a \<le> i \<and> i < n)" by (simp add: phys_at_def seg_den_def)
  with Nil.prems(3) show ?case by (metis le_neq_implies_less order_refl phys_chain.simps(1))
next
  case (Cons e m)
  obtain k r where e: "e = (k, r)" by (cases e)
  note ok = Cons.prems(1) [unfolded e]
  note at = phys_at_Cons [OF ok]
  have m: "seg_ok pma_size in_u64 m" and later: "\<And>j b. (j, b) \<in> set m \<Longrightarrow> k + pma_size r \<le> j"
    using ok by auto
  have r: "0 < pma_size r" "pma_base r + pma_size r < U64" using ok by (auto simp: in_u64_def)
  have low: "phys_at m i = None" if "i < k + pma_size r" for i
  proof -
    have "om_floor m i = None"
      unfolding om.floor_None [OF seg_ok_inv [OF m]]
      using that later om_lookup_in_set [OF seg_ok_inv [OF m]]
      by (metis le_less_trans not_le option.exhaust)
    then show ?thesis by (simp add: phys_at_def seg_den_def)
  qed
  have spec: "(if k \<le> i \<and> i < k + pma_size r then True else phys_at m i \<noteq> None) \<longleftrightarrow> a \<le> i \<and> i < n" for i
    using Cons.prems(2) [unfolded e, rule_format, of i] by (auto simp: at split: if_splits simp del: not_None_eq)
  have ka: "a \<le> k" "k < n" using spec [of k] r by auto
  have "k = a"
  proof (rule ccontr)
    assume "k \<noteq> a"
    with ka have "a < k" by simp
    then show False using spec [of a] low [of a] ka by simp
  qed
  moreover have "k + pma_size r \<le> n"
  proof -
    have "k \<le> k + pma_size r - 1" "k + pma_size r - 1 < k + pma_size r" using r by auto
    then have "k + pma_size r - 1 < n" using spec [of "k + pma_size r - 1"] by metis
    then show ?thesis using r by simp
  qed
  moreover have "phys_at m i \<noteq> None \<longleftrightarrow> k + pma_size r \<le> i \<and> i < n" for i
    using spec [of i] low [of i] \<open>k = a\<close> by (cases "i < k + pma_size r") (auto simp del: not_None_eq)
  ultimately show ?case using r Cons.IH [OF m, of "k + pma_size r"] by (simp add: e)
qed

lemma phys_tiled_chain: "n < U64 \<Longrightarrow> phys_tiled m n \<longleftrightarrow> phys_chain 0 m n"
  using phys_chain_segs [of 0 m n] phys_chain_at [of 0 m n] phys_tiled_to_chain [of m 0 n]
  by (auto simp: phys_tiled_def phys_segs_def simp del: not_None_eq)

lemma phys_chain_from:
  "phys_chain a m n \<Longrightarrow> om_lookup m h = Some r \<Longrightarrow> phys_chain h (om_from m h) n"
proof (induction a m n rule: phys_chain.induct)
  case (2 a k r' m n)
  show ?case
  proof (cases "h = k")
    case True
    have "\<forall>e \<in> set m. k \<le> fst e"
      using 2 phys_chain_entry [of "a + pma_size r'" m n] by fastforce
    then have "om_from m k = m" unfolding om_from_def by (intro filter_True) (simp add: case_prod_beta)
    with 2 True show ?thesis by (simp add: om_from_def)
  next
    case False
    with 2 have l: "om_lookup m h = Some r" by (simp add: om_lookup_Cons)
    then have "(h, r) \<in> set m" by (auto simp: om_lookup_def dest: map_of_SomeD)
    then have "a < h" using 2 phys_chain_entry [of "a + pma_size r'" m n h r] by auto
    with 2 l show ?thesis by (simp add: om_from_def)
  qed
qed simp

subsection \<open>Assigning a usage to a range\<close>

text \<open>Carve a range, change its usage, and merge it with its neighbours.\<close>

definition phys_assign_merge ::
  "(PhysicalMemoryArea \<Rightarrow> PhysicalMemoryArea) \<Rightarrow> PhysMap \<Rightarrow> PAddr \<Rightarrow> nat \<Rightarrow> PhysMap option" where
  "phys_assign_merge f m addr sz =
     do { (h, m1) \<leftarrow> carve_assign CarvePhysArea f m addr sz;
          (_, m2) \<leftarrow> phys_MergeAdjacent m1 h;
          Some m2 }"

lemma phys_assign_merge_correct:
  assumes m: "phys_keyed m" and fit: "seg_fits pma_size m x n" and n: "0 < n" and r: "retag f g d"
  obtains m' where "phys_assign_merge f m x n = Some m'" and "phys_keyed m'"
    and "\<And>y. phys_at m' y =
           (if x \<le> y \<and> y < x + n then map_option (\<lambda>(q, t, _). (q, g t, d)) (phys_at m y) else phys_at m y)"
    and "\<And>y l. 0 < l \<Longrightarrow> seg_fits pma_size m y l \<Longrightarrow> y + l \<le> x \<or> x + n \<le> y \<Longrightarrow> seg_fits pma_size m' y l"
    and "\<And>y. x \<le> y \<Longrightarrow> y < x + n \<Longrightarrow> phys_at m y \<noteq> None"
proof -
  obtain k a where f: "om_floor m x = Some (k, a)" and bound: "x + n \<le> k + pma_size a"
    using fit by (auto simp: seg_fits_def split: option.splits)
  note l = om.floor_lookup [OF seg_ok_inv [OF phys_keyed_ok [OF m]] f]
  have at: "phys_at m y = Some (y, pma_memory_type a, pma_dma_type a)" if "x \<le> y" "y < x + n" for y
    using that l bound by (intro phys_area_at [OF m l(1)]) auto
  obtain m1 where ca: "carve_assign CarvePhysArea f m x n = Some (x, m1)" and k1: "phys_keyed m1"
    and d1: "\<And>y. phys_at m1 y = (if x \<le> y \<and> y < x + n then Some (y, g (pma_memory_type a), d) else phys_at m y)"
    and h1: "om_lookup m1 x \<noteq> None"
    and f1: "\<And>y l. 0 < l \<Longrightarrow> seg_fits pma_size m y l \<Longrightarrow> y + l \<le> x \<or> x + n \<le> y \<Longrightarrow> seg_fits pma_size m1 y l"
    by (rule phys_carve_assign [OF m f n bound r]) (rule that)
  obtain h m2 where mg: "phys_MergeAdjacent m1 x = Some (h, m2)" and "phys_keyed m2"
    and "phys_at m2 = phys_at m1"
    and "\<And>y l. 0 < l \<Longrightarrow> seg_fits pma_size m1 y l \<Longrightarrow> seg_fits pma_size m2 y l"
    by (rule phys_merge [OF k1 h1]) (rule that)
  moreover have "phys_assign_merge f m x n = Some m2" by (simp add: phys_assign_merge_def ca mg)
  ultimately show thesis using d1 f1 at by (intro that [of m2]) auto
qed

end
