(* ===== verification/Orbit_VmaMap.thy ===== *)
theory Orbit_VmaMap
  imports Orbit_PhysMap
begin

text \<open>
  Virtual memory areas (\<^verbatim>\<open>src/core/memory.h\<close>, \<^verbatim>\<open>VirtualMemoryArea\<close>) and the operations of
  \<^verbatim>\<open>MemoryManager\<close> that reorganise the map of them: \<^verbatim>\<open>Split\<close>, \<^verbatim>\<open>CarveVMA\<close> and
  \<^verbatim>\<open>MergeAdjacent\<close> (\<^verbatim>\<open>src/core/memory.cpp\<close>).

  The meaning of the map, \<open>vma_at\<close>, gives for every virtual address the attributes of its
  area and the physical location behind it; the interpretation \<open>vm\<close> shows that splitting,
  carving and merging preserve it, which is what makes the area list a faithful page table.
\<close>

datatype VMAType =
  VFree | VReserved | VDirect | VFlexible | VPooled | VPoolReserved | VStack | VCode | VFile

type_synonym MemoryProt = "32 word"

definition ProtNoAccess :: MemoryProt where "ProtNoAccess = 0"
definition ProtCpuRead :: MemoryProt where "ProtCpuRead = 1"
definition ProtCpuWrite :: MemoryProt where "ProtCpuWrite = 2"
definition ProtCpuReadWrite :: MemoryProt where "ProtCpuReadWrite = 3"
definition ProtCpuExec :: MemoryProt where "ProtCpuExec = 4"
definition ProtGpuRead :: MemoryProt where "ProtGpuRead = 16"
definition ProtGpuWrite :: MemoryProt where "ProtGpuWrite = 32"
definition ProtGpuReadWrite :: MemoryProt where "ProtGpuReadWrite = 48"

lemmas prot_defs = ProtNoAccess_def ProtCpuRead_def ProtCpuWrite_def ProtCpuReadWrite_def
  ProtCpuExec_def ProtGpuRead_def ProtGpuWrite_def ProtGpuReadWrite_def

record VirtualMemoryArea =
  vma_base :: VAddr
  vma_size :: nat
  vma_phys_areas :: PhysMap
  vma_type :: VMAType
  vma_prot :: MemoryProt
  vma_name :: string
  vma_fd :: s32
  vma_disallow_merge :: bool

type_synonym VMAMap = "VirtualMemoryArea omap"

definition vma_Contains :: "VirtualMemoryArea \<Rightarrow> VAddr \<Rightarrow> nat \<Rightarrow> bool" where
  "vma_Contains v addr sz \<longleftrightarrow>
     addr \<ge> vma_base v \<and> uadd addr sz \<le> uadd (vma_base v) (vma_size v)"

definition vma_Overlaps :: "VirtualMemoryArea \<Rightarrow> VAddr \<Rightarrow> nat \<Rightarrow> bool" where
  "vma_Overlaps v addr sz \<longleftrightarrow>
     addr < uadd (vma_base v) (vma_size v) \<and> uadd addr sz > vma_base v"

definition IsFree :: "VirtualMemoryArea \<Rightarrow> bool" where
  "IsFree v \<longleftrightarrow> vma_type v = VFree"

definition IsMapped :: "VirtualMemoryArea \<Rightarrow> bool" where
  "IsMapped v \<longleftrightarrow>
     vma_type v \<noteq> VFree \<and> vma_type v \<noteq> VReserved \<and> vma_type v \<noteq> VPoolReserved"

definition HasPhysicalBacking :: "VirtualMemoryArea \<Rightarrow> bool" where
  "HasPhysicalBacking v \<longleftrightarrow>
     vma_type v = VDirect \<or> vma_type v = VFlexible \<or> vma_type v = VPooled"

definition vma_CanMergeWith :: "VirtualMemoryArea \<Rightarrow> VirtualMemoryArea \<Rightarrow> bool option" where
  "vma_CanMergeWith v nxt =
     (if vma_disallow_merge v \<or> vma_disallow_merge nxt then Some False
      else if uadd (vma_base v) (vma_size v) \<noteq> vma_base nxt then Some False
      else do {
        contiguous \<leftarrow>
          (if vma_type v = VDirect \<and> vma_type nxt = VDirect
           then if vma_phys_areas v = [] \<or> vma_phys_areas nxt = [] then None
                else let last_phys = snd (last (vma_phys_areas v));
                         first_next_phys = snd (hd (vma_phys_areas nxt))
                     in Some (\<not> (uadd (pma_base last_phys) (pma_size last_phys) \<noteq> pma_base first_next_phys
                               \<or> pma_memory_type last_phys \<noteq> pma_memory_type first_next_phys))
           else Some True);
        if \<not> contiguous then Some False
        else if vma_prot v \<noteq> vma_prot nxt \<or> vma_type v \<noteq> vma_type nxt then Some False
        else if vma_name v \<noteq> vma_name nxt then Some False
        else Some True
      })"

text \<open>The loop of \<^verbatim>\<open>Split\<close> that distributes the physical areas over the two halves.\<close>

definition split_phys_step ::
  "nat \<Rightarrow> nat \<times> PhysicalMemoryArea \<Rightarrow> PhysMap \<times> PhysMap \<Rightarrow> PhysMap \<times> PhysMap" where
  "split_phys_step offset_in_vma e acc =
     (let (offset, region) = e; (old_areas, new_areas) = acc;
          old1 = (if uadd offset (pma_size region) \<le> offset_in_vma
                  then om_set offset region old_areas else old_areas);
          (old2, new2) =
            (if offset < offset_in_vma \<and> uadd offset (pma_size region) > offset_in_vma
             then let size_in_old = usub offset_in_vma offset;
                      new_base = uadd (pma_base region) size_in_old;
                      size_in_new = usub (pma_size region) size_in_old
                  in (om_set offset \<lparr>pma_base = pma_base region, pma_size = size_in_old,
                        pma_memory_type = pma_memory_type region,
                        pma_dma_type = pma_dma_type region\<rparr> old1,
                      om_set 0 \<lparr>pma_base = new_base, pma_size = size_in_new,
                        pma_memory_type = pma_memory_type region,
                        pma_dma_type = pma_dma_type region\<rparr> new_areas)
             else (old1, new_areas));
          new3 = (if offset \<ge> offset_in_vma
                  then om_set (usub offset offset_in_vma) region new2 else new2)
      in (old2, new3))"

definition split_phys_areas :: "nat \<Rightarrow> PhysMap \<Rightarrow> PhysMap \<times> PhysMap" where
  "split_phys_areas offset_in_vma areas = fold (split_phys_step offset_in_vma) areas ([], [])"

definition vma_Split :: "VMAMap \<Rightarrow> VAddr \<Rightarrow> nat \<Rightarrow> (VAddr \<times> VMAMap) option" where
  "vma_Split m vma_handle offset_in_vma =
     do {
       old_vma \<leftarrow> om_lookup m vma_handle;
       if offset_in_vma < vma_size old_vma \<and> offset_in_vma > 0
       then let new_vma = old_vma\<lparr>
                  vma_base := uadd (vma_base old_vma) offset_in_vma,
                  vma_size := usub (vma_size old_vma) offset_in_vma\<rparr>;
                old1 = old_vma\<lparr>vma_size := offset_in_vma\<rparr>;
                (old2, new2) =
                  (if HasPhysicalBacking new_vma
                   then let (old_areas, new_areas) =
                          split_phys_areas offset_in_vma (vma_phys_areas old_vma)
                        in (old1\<lparr>vma_phys_areas := old_areas\<rparr>,
                            new_vma\<lparr>vma_phys_areas := new_areas\<rparr>)
                   else (old1, new_vma))
            in Some (vma_base new2, om_emplace (vma_base new2) new2 (om_set vma_handle old2 m))
       else None
     }"

definition CarveVMA :: "VMAMap \<Rightarrow> VAddr \<Rightarrow> nat \<Rightarrow> (VAddr \<times> VMAMap) option" where
  "CarveVMA m virtual_addr sz =
     do {
       (vma_handle, vma) \<leftarrow> om_floor m virtual_addr;
       if \<not> vma_base vma \<le> virtual_addr then None
       else
         let start_in_vma = usub virtual_addr (vma_base vma);
             end_in_vma = uadd start_in_vma sz
         in if start_in_vma = 0 \<and> sz = vma_size vma then Some (vma_handle, m)
            else if \<not> end_in_vma \<le> vma_size vma then None
            else do {
              m1 \<leftarrow> (if end_in_vma \<noteq> vma_size vma
                     then map_option snd (vma_Split m vma_handle end_in_vma)
                     else Some m);
              if start_in_vma \<noteq> 0 then vma_Split m1 vma_handle start_in_vma
              else Some (vma_handle, m1)
            }
     }"

text \<open>The loop of \<^verbatim>\<open>MergeAdjacent\<close> that appends the physical areas of the absorbed area.\<close>

definition append_phys_areas :: "nat \<Rightarrow> PhysMap \<Rightarrow> PhysMap \<Rightarrow> PhysMap" where
  "append_phys_areas base_offset areas into =
     fold (\<lambda>(off, area) acc. om_set (uadd base_offset off) area acc) areas into"

definition vma_absorb :: "VirtualMemoryArea \<Rightarrow> VirtualMemoryArea \<Rightarrow> VirtualMemoryArea" where
  "vma_absorb v nxt =
     (let base_offset = vma_size v in
      v\<lparr>vma_size := uadd (vma_size v) (vma_size nxt),
        vma_phys_areas := append_phys_areas base_offset (vma_phys_areas nxt) (vma_phys_areas v)\<rparr>)"

definition vma_MergeAdjacent :: "VMAMap \<Rightarrow> VAddr \<Rightarrow> (VAddr \<times> VMAMap) option" where
  "vma_MergeAdjacent m iter =
     do {
       v \<leftarrow> om_lookup m iter;
       (v1, m1) \<leftarrow>
         (case om_next m iter of
            Some (nk, nxt) \<Rightarrow>
              do { c \<leftarrow> vma_CanMergeWith v nxt;
                   if c then let v' = vma_absorb v nxt in Some (v', om_erase nk (om_set iter v' m))
                   else Some (v, m) }
          | None \<Rightarrow> Some (v, m));
       (case om_prev m1 iter of
          Some (pk, prv) \<Rightarrow>
            do { c \<leftarrow> vma_CanMergeWith prv v1;
                 if c then Some (pk, om_erase iter (om_set pk (vma_absorb prv v1) m1))
                 else Some (iter, m1) }
        | None \<Rightarrow> Some (iter, m1))
     }"

subsection \<open>Meaning and invariant\<close>

record page_info =
  pg_type :: VMAType
  pg_prot :: MemoryProt
  pg_name :: string
  pg_disallow_merge :: bool
  pg_phys :: "phys_info option"

definition vma_content :: "VirtualMemoryArea \<Rightarrow> nat \<Rightarrow> page_info" where
  "vma_content v i =
     \<lparr>pg_type = vma_type v, pg_prot = vma_prot v, pg_name = vma_name v,
      pg_disallow_merge = vma_disallow_merge v, pg_phys = phys_at (vma_phys_areas v) i\<rparr>"

definition vma_at :: "VMAMap \<Rightarrow> VAddr \<Rightarrow> page_info option" where
  "vma_at m = seg_den vma_size vma_content m"

definition vma_ok :: "nat \<Rightarrow> VirtualMemoryArea \<Rightarrow> bool" where
  "vma_ok k v \<longleftrightarrow> vma_base v = k \<and>
     (if HasPhysicalBacking v then phys_tiled (vma_phys_areas v) (vma_size v)
      else vma_phys_areas v = [])"

definition vma_map_ok :: "VMAMap \<Rightarrow> bool" where
  "vma_map_ok m = seg_ok vma_size vma_ok m"

subsection \<open>Distributing the physical areas over two halves\<close>

lemma seg_ok_snoc:
  "seg_ok sz ok (xs @ [(k, a)]) \<longleftrightarrow>
     seg_ok sz ok xs \<and> 0 < sz a \<and> k + sz a < U64 \<and> ok k a \<and> (\<forall>(k', a') \<in> set xs. k' + sz a' \<le> k)"
  by (induction sz ok xs rule: seg_ok.induct) auto

lemma om_lookup_snoc:
  "om_lookup (xs @ [(k, a)]) x = (case om_lookup xs x of Some b \<Rightarrow> Some b | None \<Rightarrow> if x = k then Some a else None)"
  by (simp add: om_lookup_def map_add_def split: option.splits)

lemma phys_record: "\<lparr>pma_base = pma_base a, pma_size = s, pma_memory_type = pma_memory_type a,
    pma_dma_type = pma_dma_type a\<rparr> = phys_cutl a s"
  by (simp add: phys_cutl_def)

lemma phys_record_r: "\<lparr>pma_base = uadd (pma_base a) s, pma_size = usub (pma_size a) s,
    pma_memory_type = pma_memory_type a, pma_dma_type = pma_dma_type a\<rparr> = phys_cutr a s"
  by (simp add: phys_cutr_def)

lemma split_phys_lookups:
  assumes "seg_ok pma_size in_u64 xs" and "off < U64"
  shows "om_inv (fst (split_phys_areas off xs)) \<and> om_inv (snd (split_phys_areas off xs)) \<and>
    (\<forall>k r'. om_lookup (fst (split_phys_areas off xs)) k = Some r' \<longleftrightarrow>
      (\<exists>r. om_lookup xs k = Some r \<and>
        (k + pma_size r \<le> off \<and> r' = r \<or>
         k < off \<and> off < k + pma_size r \<and> r' = phys_cutl r (off - k)))) \<and>
    (\<forall>k r'. om_lookup (snd (split_phys_areas off xs)) k = Some r' \<longleftrightarrow>
      om_lookup xs (off + k) = Some r' \<or>
      k = 0 \<and> (\<exists>j r. om_lookup xs j = Some r \<and> j < off \<and> off < j + pma_size r \<and>
                    r' = phys_cutr r (off - j)))"
  using assms
proof (induction xs rule: rev_induct)
  case Nil
  then show ?case by (simp add: split_phys_areas_def)
next
  case (snoc e xs)
  obtain o1 r1 where e: "e = (o1, r1)" by (cases e)
  obtain A B where AB: "split_phys_areas off xs = (A, B)" by (cases "split_phys_areas off xs")
  from snoc.prems have xs: "seg_ok pma_size in_u64 xs" and r1: "0 < pma_size r1" "o1 + pma_size r1 < U64"
    and apart: "\<And>j r. om_lookup xs j = Some r \<Longrightarrow> j + pma_size r \<le> o1"
    by (auto simp: e seg_ok_snoc om_lookup_def dest: map_of_SomeD)
  have pos: "0 < pma_size r" if "om_lookup xs j = Some r" for j r
    using that seg_ok_entry [OF xs] by (simp add: om_lookup_in_set [OF seg_ok_inv [OF xs]])
  have fresh: "om_lookup xs j = None" if "o1 \<le> j" for j
    using apart [of j] pos [of j] that by (cases "om_lookup xs j") force+
  note IH = snoc.IH [OF xs snoc.prems(2), unfolded AB fst_conv snd_conv]
  have res: "split_phys_areas off (xs @ [e]) = split_phys_step off (o1, r1) (A, B)"
    using AB by (simp add: split_phys_areas_def e)
  have ex: "uadd o1 (pma_size r1) = o1 + pma_size r1" using r1 by (simp add: u64_exact)
  have look1: "om_lookup (xs @ [e]) j = Some r \<longleftrightarrow> om_lookup xs j = Some r \<or> j = o1 \<and> r = r1" for j r
    using fresh [of o1] by (auto simp: e om_lookup_snoc split: option.splits)
  consider (left) "o1 + pma_size r1 \<le> off" | (mid) "o1 < off" "off < o1 + pma_size r1" | (right) "off \<le> o1"
    by linarith
  then show ?case
  proof cases
    case left
    then have sp: "split_phys_areas off (xs @ [e]) = (om_set o1 r1 A, B)"
      using r1 by (simp add: res split_phys_step_def ex)
    show ?thesis
      unfolding sp look1 fst_conv snd_conv om_lookup_set
      using IH left r1 fresh [of o1] by (auto simp: om_inv_set)
  next
    case mid
    have s: "usub off o1 = off - o1" using mid snoc.prems(2) by (simp add: u64_exact)
    have sp: "split_phys_areas off (xs @ [e]) =
        (om_set o1 (phys_cutl r1 (off - o1)) A, om_set 0 (phys_cutr r1 (off - o1)) B)"
      using mid by (simp add: res split_phys_step_def ex s phys_record phys_record_r Let_def)
    have no: "\<not> (om_lookup xs j = Some r \<and> j < off \<and> off < j + pma_size r)" for j r
      using apart [of j r] mid by auto
    show ?thesis
      unfolding sp look1 fst_conv snd_conv om_lookup_set
      using IH mid r1 fresh [of o1] fresh no by (auto simp: om_inv_set)
  next
    case right
    have s: "usub o1 off = o1 - off" using right r1 by (simp add: u64_exact)
    have sp: "split_phys_areas off (xs @ [e]) = (A, om_set (o1 - off) r1 B)"
      using right r1 by (simp add: res split_phys_step_def ex s)
    have no: "\<not> off < j + pma_size r" if "o1 = off" "om_lookup xs j = Some r" for j r
      using apart [of j r] that by auto
    show ?thesis
      unfolding sp look1 fst_conv snd_conv om_lookup_set
      using IH right r1 fresh no by (auto simp: om_inv_set)
  qed
qed

lemmas split_phys_fst = split_phys_lookups [THEN conjunct2, THEN conjunct2, THEN conjunct1, rule_format]
lemmas split_phys_snd = split_phys_lookups [THEN conjunct2, THEN conjunct2, THEN conjunct2, rule_format]
lemmas split_phys_inv = split_phys_lookups [THEN conjunct1] split_phys_lookups [THEN conjunct2, THEN conjunct1]

lemma phys_tiled_lookup:
  assumes "phys_tiled m n" and "om_lookup m k = Some a"
  shows "0 < pma_size a" and "k + pma_size a < U64" and "pma_base a + pma_size a < U64"
    and "k + pma_size a \<le> n"
proof -
  have m: "seg_ok pma_size in_u64 m" using assms by (simp add: phys_tiled_def phys_segs_def)
  show s: "0 < pma_size a" and "k + pma_size a < U64" and "pma_base a + pma_size a < U64"
    using pt.lookupD [OF m assms(2)] by (simp_all add: in_u64_def)
  have "phys_at m (k + pma_size a - 1) \<noteq> None"
    using s by (simp add: phys_at_def pt.den_holds [OF m assms(2)])
  then show "k + pma_size a \<le> n" using assms(1) s by (simp add: phys_tiled_def)
qed

lemma phys_tiled_None: "phys_tiled m n \<Longrightarrow> n \<le> i \<Longrightarrow> phys_at m i = None"
  unfolding phys_tiled_def by (metis not_le)

lemma phys_tiled_bound: "phys_tiled m n \<Longrightarrow> i < n \<Longrightarrow> i < U64"
proof -
  assume t: "phys_tiled m n" and i: "i < n"
  have m: "seg_ok pma_size in_u64 m" using t by (simp add: phys_tiled_def phys_segs_def)
  from t i have "phys_at m i \<noteq> None" by (simp add: phys_tiled_def)
  then obtain k a where "om_lookup m k = Some a" "i < k + pma_size a"
    using pt.den_floor [OF m] by (metis phys_at_def)
  then show "i < U64" using phys_tiled_lookup(2) [OF t] by fastforce
qed

lemma split_phys_left:
  assumes t: "phys_tiled xs n" and off: "0 < off" "off < n"
  shows "seg_ok pma_size in_u64 (fst (split_phys_areas off xs))"
    and "phys_at (fst (split_phys_areas off xs)) i = (if i < off then phys_at xs i else None)"
proof -
  have m: "seg_ok pma_size in_u64 xs" using t by (simp add: phys_tiled_def phys_segs_def)
  define L where "L = fst (split_phys_areas off xs)"
  note L = split_phys_fst [OF m phys_tiled_bound [OF t off(2)], folded L_def]
  have okL: "seg_ok pma_size in_u64 L"
  proof (rule pt.okI)
    show "om_inv L" unfolding L_def by (rule split_phys_inv [OF m phys_tiled_bound [OF t off(2)]])
  next
    fix k a assume "om_lookup L k = Some a"
    then obtain r where r: "om_lookup xs k = Some r"
      and "k + pma_size r \<le> off \<and> a = r \<or> k < off \<and> off < k + pma_size r \<and> a = phys_cutl r (off - k)"
      unfolding L by blast
    then show "0 < pma_size a \<and> k + pma_size a < U64 \<and> in_u64 k a"
      using pt.lookupD [OF m r] by (auto simp: in_u64_def phys_cutl_def)
  next
    fix k a k' a' assume h: "om_lookup L k = Some a" "om_lookup L k' = Some a'" "k < k'"
    then obtain r r' where "om_lookup xs k = Some r" "om_lookup xs k' = Some r'"
      and "k + pma_size a \<le> k + pma_size r"
      unfolding L by (auto simp: phys_cutl_def)
    then show "k + pma_size a \<le> k'" using pt.apart [OF m _ _ h(3)] by fastforce
  qed
  then show "seg_ok pma_size in_u64 (fst (split_phys_areas off xs))" by (simp add: L_def)
  show "phys_at (fst (split_phys_areas off xs)) i = (if i < off then phys_at xs i else None)"
  proof (cases "i < off")
    case True
    with off t have "phys_at xs i \<noteq> None" by (simp add: phys_tiled_def)
    then obtain k r where k: "om_lookup xs k = Some r" "k \<le> i" "i < k + pma_size r"
      using pt.den_floor [OF m] by (metis phys_at_def)
    then have d: "phys_at xs i = Some (phys_content r (i - k))"
      by (simp add: phys_at_def pt.den_holds [OF m])
    obtain r' where r': "om_lookup L k = Some r'" "i < k + pma_size r'"
      and "phys_content r' (i - k) = phys_content r (i - k)"
    proof (cases "k + pma_size r \<le> off")
      case True
      then show thesis using k L by (intro that [of r]) auto
    next
      case False
      then show thesis
        using k L \<open>i < off\<close> by (intro that [of "phys_cutl r (off - k)"]) (auto simp: phys_cutl_def phys_content_def)
    qed
    with d True k show ?thesis
      using pt.den_holds [OF okL r'(1)] by (simp add: L_def [symmetric] phys_at_def)
  next
    case False
    have "om_floor L i = Some (k, a) \<Longrightarrow> k + pma_size a \<le> i" for k a
      using om.floor_lookup [OF seg_ok_inv [OF okL]] False by (fastforce simp: L phys_cutl_def)
    with False show ?thesis
      by (auto simp: L_def [symmetric] phys_at_def seg_den_def split: option.splits)
  qed
qed

lemma split_phys_right:
  assumes t: "phys_tiled xs n" and off: "0 < off" "off < n"
  shows "seg_ok pma_size in_u64 (snd (split_phys_areas off xs))"
    and "phys_at (snd (split_phys_areas off xs)) i = phys_at xs (off + i)"
proof -
  have m: "seg_ok pma_size in_u64 xs" using t by (simp add: phys_tiled_def phys_segs_def)
  define R where "R = snd (split_phys_areas off xs)"
  note R = split_phys_snd [OF m phys_tiled_bound [OF t off(2)], folded R_def]
  have cr: "pma_size (phys_cutr r (off - j)) = pma_size r - (off - j)"
    "pma_base (phys_cutr r (off - j)) = pma_base r + (off - j)"
    "pma_memory_type (phys_cutr r (off - j)) = pma_memory_type r"
    "pma_dma_type (phys_cutr r (off - j)) = pma_dma_type r"
    if "om_lookup xs j = Some r" "j < off" "off < j + pma_size r" for j r
    using pt.lookupD [OF m that(1)] that by (auto simp: phys_cutr_def in_u64_def u64_exact)
  have okR: "seg_ok pma_size in_u64 R"
  proof (rule pt.okI)
    show "om_inv R" unfolding R_def by (rule split_phys_inv [OF m phys_tiled_bound [OF t off(2)]])
  next
    fix k a assume "om_lookup R k = Some a"
    then show "0 < pma_size a \<and> k + pma_size a < U64 \<and> in_u64 k a"
      using pt.lookupD [OF m] cr by (fastforce simp: R in_u64_def)
  next
    fix k a k' a' assume h: "om_lookup R k = Some a" "om_lookup R k' = Some a'" "k < k'"
    then have k': "om_lookup xs (off + k') = Some a'" by (auto simp: R)
    from h(1) show "k + pma_size a \<le> k'"
      unfolding R
    proof (elim disjE conjE exE)
      assume "om_lookup xs (off + k) = Some a"
      from pt.apart [OF m this k'] h(3) show ?thesis by simp
    next
      fix j r assume "k = 0" and j: "om_lookup xs j = Some r" "j < off" "off < j + pma_size r"
        and a: "a = phys_cutr r (off - j)"
      from pt.apart [OF m j(1) k'] j cr [OF j] a \<open>k = 0\<close> show ?thesis by simp
    qed
  qed
  then show "seg_ok pma_size in_u64 (snd (split_phys_areas off xs))" by (simp add: R_def)
  show "phys_at (snd (split_phys_areas off xs)) i = phys_at xs (off + i)"
  proof (cases "phys_at xs (off + i)")
    case (Some c)
    then obtain j r where j: "om_lookup xs j = Some r" "j \<le> off + i" "off + i < j + pma_size r"
      and c: "phys_content r (off + i - j) = c" unfolding phys_at_def pt.den_Some [OF m] by blast
    have "phys_at R i = Some c"
    proof (cases "off \<le> j")
      case True
      then have "om_lookup R (j - off) = Some r" using j by (simp add: R)
      from pt.den_holds [OF okR this, of i] j True c show ?thesis by (simp add: phys_at_def add.commute)
    next
      case False
      then have "j < off" "off < j + pma_size r" using j by auto
      then have "om_lookup R 0 = Some (phys_cutr r (off - j))" unfolding R using j(1) by blast
      from pt.den_holds [OF okR this, of i] cr [OF j(1)] False j c show ?thesis
        by (simp add: phys_at_def phys_content_def add.assoc)
    qed
    with Some show ?thesis by (simp add: R_def)
  next
    case None
    have "phys_at R i = None"
    proof (rule ccontr)
      assume "phys_at R i \<noteq> None"
      then obtain k a where "om_lookup R k = Some a" "k \<le> i" "i < k + pma_size a"
        using pt.den_floor [OF okR] by (metis phys_at_def)
      then have "\<exists>j r. om_lookup xs j = Some r \<and> j \<le> off + i \<and> off + i < j + pma_size r"
        using cr by (fastforce simp: R)
      then show False using None pt.den_holds [OF m] by (fastforce simp: phys_at_def)
    qed
    with None show ?thesis by (simp add: R_def)
  qed
qed

lemma split_phys_areas_correct:
  assumes t: "phys_tiled xs n" and off: "0 < off" "off < n"
  shows "phys_tiled (fst (split_phys_areas off xs)) off"
    and "phys_tiled (snd (split_phys_areas off xs)) (n - off)"
    and "i < off \<Longrightarrow> phys_at (fst (split_phys_areas off xs)) i = phys_at xs i"
    and "phys_at (snd (split_phys_areas off xs)) i = phys_at xs (off + i)"
  using split_phys_left [OF t off] split_phys_right [OF t off] t off
  by (auto simp: phys_tiled_def phys_segs_def)

subsection \<open>Appending the physical areas of an absorbed area\<close>

lemma append_phys_lookup:
  assumes "seg_ok pma_size in_u64 ys" and "\<forall>(j, r) \<in> set ys. s + j < U64"
  shows "om_lookup (append_phys_areas s ys m) k =
    (if s \<le> k \<and> om_lookup ys (k - s) \<noteq> None then om_lookup ys (k - s) else om_lookup m k)"
  using assms
proof (induction ys arbitrary: m)
  case Nil
  then show ?case by (simp add: append_phys_areas_def)
next
  case (Cons e ys)
  obtain j r where e: "e = (j, r)" by (cases e)
  have step: "append_phys_areas s (e # ys) m = append_phys_areas s ys (om_set (s + j) r m)"
    using Cons.prems(2) by (simp add: append_phys_areas_def e u64_exact)
  have ys: "seg_ok pma_size in_u64 ys" "\<forall>(j, r) \<in> set ys. s + j < U64"
    using Cons.prems by (auto simp: e)
  have "om_lookup ys j = None"
    using om_lookup_above [of j r ys j] seg_ok_inv [OF Cons.prems(1)] by (simp add: e)
  then show ?case
    unfolding step Cons.IH [OF ys] by (auto simp: om_lookup_set e om_lookup_Cons)
qed

lemma append_phys_inv: "om_inv m \<Longrightarrow> om_inv (append_phys_areas s ys m)"
  by (induction ys arbitrary: m) (auto simp: append_phys_areas_def om_inv_set)

lemma append_phys_areas_correct:
  assumes a: "phys_tiled xs s" and b: "phys_tiled ys t" and bound: "s + t < U64"
  shows "phys_tiled (append_phys_areas s ys xs) (s + t)"
    and "phys_at (append_phys_areas s ys xs) i = (if i < s then phys_at xs i else phys_at ys (i - s))"
proof -
  have ma: "seg_ok pma_size in_u64 xs" and mb: "seg_ok pma_size in_u64 ys"
    using a b by (simp_all add: phys_tiled_def phys_segs_def)
  define M where "M = append_phys_areas s ys xs"
  have ba: "k + pma_size r \<le> s" if "om_lookup xs k = Some r" for k r
    by (rule phys_tiled_lookup(4) [OF a that])
  have bb: "k + pma_size r \<le> t" "0 < pma_size r" if "om_lookup ys k = Some r" for k r
    using phys_tiled_lookup [OF b that] by simp_all
  have "\<forall>(j, r) \<in> set ys. s + j < U64"
    using bb bound by (force simp: om_lookup_in_set [OF seg_ok_inv [OF mb]])
  note look0 = append_phys_lookup [OF mb this, of xs, folded M_def]
  have look: "om_lookup M k = (if k < s then om_lookup xs k else om_lookup ys (k - s))" for k
    using ba [of k] pt.lookupD(1) [OF ma, of k] by (cases "om_lookup xs k") (force simp: look0)+
  have okM: "seg_ok pma_size in_u64 M"
  proof (rule pt.okI)
    show "om_inv M" by (simp add: M_def append_phys_inv seg_ok_inv [OF ma])
  next
    fix k r assume "om_lookup M k = Some r"
    then show "0 < pma_size r \<and> k + pma_size r < U64 \<and> in_u64 k r"
      using pt.lookupD [OF ma, of k r] pt.lookupD [OF mb, of "k - s" r] bb [of "k - s" r] bound
      by (auto simp: look in_u64_def split: if_splits)
  next
    fix k r k' r' assume h: "om_lookup M k = Some r" "om_lookup M k' = Some r'" "k < k'"
    show "k + pma_size r \<le> k'"
    proof (cases "k < s")
      case True
      with h show ?thesis
        using pt.apart [OF ma, of k r k' r'] ba [of k r] by (auto simp: look split: if_splits)
    next
      case False
      with h have "om_lookup ys (k - s) = Some r" "om_lookup ys (k' - s) = Some r'" "k - s < k' - s"
        by (auto simp: look split: if_splits)
      from pt.apart [OF mb this] False h(3) show ?thesis by linarith
    qed
  qed
  have den: "phys_at M i = (if i < s then phys_at xs i else phys_at ys (i - s))" for i
  proof (cases "i < s")
    case True
    have "phys_at xs i \<noteq> None" using a True by (simp add: phys_tiled_def)
    then obtain k r where "om_lookup xs k = Some r" "k \<le> i" "i < k + pma_size r"
      using pt.den_floor [OF ma] by (metis phys_at_def)
    then show ?thesis
      using True pt.den_holds [OF ma, of k r i] pt.den_holds [OF okM, of k r i]
      by (simp add: look phys_at_def)
  next
    case False
    show ?thesis
    proof (cases "i < s + t")
      case True
      then have "phys_at ys (i - s) \<noteq> None" using b False by (simp add: phys_tiled_def)
      then obtain k r where "om_lookup ys k = Some r" "k \<le> i - s" "i - s < k + pma_size r"
        using pt.den_floor [OF mb] by (metis phys_at_def)
      then show ?thesis
        using False pt.den_holds [OF mb, of k r "i - s"] pt.den_holds [OF okM, of "s + k" r i]
        by (simp add: look phys_at_def diff_diff_eq)
    next
      case out: False
      have "phys_at ys (i - s) = None" using False out by (intro phys_tiled_None [OF b]) simp
      moreover have "k + pma_size r \<le> i" if "om_floor M i = Some (k, r)" for k r
      proof -
        have "om_lookup M k = Some r" by (rule om.floor_lookup [OF seg_ok_inv [OF okM] that])
        then show ?thesis
          using ba [of k r] bb(1) [of "k - s" r] False out by (cases "k < s") (simp_all add: look)
      qed
      ultimately show ?thesis
        using False by (auto simp: phys_at_def seg_den_def split: option.splits)
    qed
  qed
  show "phys_at (append_phys_areas s ys xs) i = (if i < s then phys_at xs i else phys_at ys (i - s))"
    using den by (simp add: M_def)
  show "phys_tiled (append_phys_areas s ys xs) (s + t)"
    using a b okM den by (auto simp: phys_tiled_def phys_segs_def M_def)
qed

subsection \<open>The area map as a page table\<close>

definition vma_cutl :: "VirtualMemoryArea \<Rightarrow> nat \<Rightarrow> VirtualMemoryArea" where
  "vma_cutl v off = v\<lparr>vma_size := off, vma_phys_areas :=
     (if HasPhysicalBacking v then fst (split_phys_areas off (vma_phys_areas v)) else vma_phys_areas v)\<rparr>"

definition vma_cutr :: "VirtualMemoryArea \<Rightarrow> nat \<Rightarrow> VirtualMemoryArea" where
  "vma_cutr v off = v\<lparr>vma_base := uadd (vma_base v) off, vma_size := usub (vma_size v) off,
     vma_phys_areas :=
       (if HasPhysicalBacking v then snd (split_phys_areas off (vma_phys_areas v)) else vma_phys_areas v)\<rparr>"

definition vma_joinable :: "VirtualMemoryArea \<Rightarrow> VirtualMemoryArea \<Rightarrow> bool" where
  "vma_joinable v nxt \<longleftrightarrow> vma_CanMergeWith v nxt = Some True"

lemma vma_size_cut [simp]:
  "vma_size (vma_cutl v off) = off" "vma_type (vma_cutl v off) = vma_type v"
  "vma_type (vma_cutr v off) = vma_type v"
  by (simp_all add: vma_cutl_def vma_cutr_def)

lemma vma_Split_eq:
  assumes "om_lookup m k = Some v" and "vma_base v = k" and "k + vma_size v < U64"
    and "0 < off" and "off < vma_size v"
  shows "vma_Split m k off = Some (k + off, om_emplace (k + off) (vma_cutr v off) (om_set k (vma_cutl v off) m))"
proof -
  have [simp]: "HasPhysicalBacking (v\<lparr>vma_base := b, vma_size := s\<rparr>) = HasPhysicalBacking v" for b s
    by (simp add: HasPhysicalBacking_def)
  show ?thesis
    using assms
    by (simp add: vma_Split_def vma_cutl_def vma_cutr_def u64_exact split: prod.splits)
qed

lemma vma_CanMergeWith_total:
  assumes "vma_ok k v" and "vma_ok k' w" and "0 < vma_size v" and "0 < vma_size w"
  shows "vma_CanMergeWith v w \<noteq> None"
proof -
  have ne: "vma_phys_areas u \<noteq> []" if "vma_ok j u" "0 < vma_size u" "vma_type u = VDirect" for j u
  proof
    assume "vma_phys_areas u = []"
    with that have "phys_tiled [] (vma_size u)" by (simp add: vma_ok_def HasPhysicalBacking_def)
    then have "phys_at [] 0 \<noteq> None" using that(2) unfolding phys_tiled_def by blast
    then show False by (simp add: phys_at_def seg_den_def)
  qed
  from ne [OF assms(1,3)] ne [OF assms(2,4)] show ?thesis
    by (auto simp: vma_CanMergeWith_def Let_def)
qed

lemma vma_joinableD:
  assumes "vma_joinable v w"
  shows "uadd (vma_base v) (vma_size v) = vma_base w" and "vma_prot w = vma_prot v"
    and "vma_type w = vma_type v" and "vma_name w = vma_name v"
    and "vma_disallow_merge w = vma_disallow_merge v"
proof -
  have c: "vma_CanMergeWith v w = Some True" using assms by (simp add: vma_joinable_def)
  then have d: "\<not> vma_disallow_merge v" "\<not> vma_disallow_merge w"
    and b: "uadd (vma_base v) (vma_size v) = vma_base w"
    by (auto simp: vma_CanMergeWith_def split: if_splits)
  then show "uadd (vma_base v) (vma_size v) = vma_base w"
    and "vma_disallow_merge w = vma_disallow_merge v" by simp_all
  from c b d show "vma_prot w = vma_prot v" and "vma_type w = vma_type v" and "vma_name w = vma_name v"
    by (auto simp: vma_CanMergeWith_def Let_def bind_eq_Some_conv split: if_splits)
qed

lemma vma_absorb_ok:
  assumes "vma_ok k v" and "vma_ok (k + vma_size v) w" and "k + vma_size v + vma_size w < U64"
    and "vma_joinable v w"
  shows "vma_size (vma_absorb v w) = vma_size v + vma_size w" and "vma_ok k (vma_absorb v w)"
    and "vma_content (vma_absorb v w) i =
         (if i < vma_size v then vma_content v i else vma_content w (i - vma_size v))"
proof -
  note j = vma_joinableD [OF assms(4)]
  show sz: "vma_size (vma_absorb v w) = vma_size v + vma_size w"
    using assms(3) by (simp add: vma_absorb_def u64_exact)
  have ty: "vma_type (vma_absorb v w) = vma_type v" "vma_base (vma_absorb v w) = vma_base v"
    "vma_phys_areas (vma_absorb v w) =
       append_phys_areas (vma_size v) (vma_phys_areas w) (vma_phys_areas v)"
    by (simp_all add: vma_absorb_def)
  have same: "HasPhysicalBacking w = HasPhysicalBacking v"
    "HasPhysicalBacking (vma_absorb v w) = HasPhysicalBacking v"
    using j(3) ty(1) by (simp_all add: HasPhysicalBacking_def)
  show "vma_ok k (vma_absorb v w)"
    using assms(1-3) append_phys_areas_correct(1)
    by (auto simp: vma_ok_def sz ty same) (simp add: append_phys_areas_def)
  show "vma_content (vma_absorb v w) i =
         (if i < vma_size v then vma_content v i else vma_content w (i - vma_size v))"
  proof (cases "HasPhysicalBacking v")
    case True
    then have "phys_at (vma_phys_areas (vma_absorb v w)) i =
        (if i < vma_size v then phys_at (vma_phys_areas v) i
         else phys_at (vma_phys_areas w) (i - vma_size v))"
      unfolding ty using assms(1-3) same by (intro append_phys_areas_correct(2)) (auto simp: vma_ok_def)
    with j show ?thesis by (simp add: vma_content_def vma_absorb_def)
  next
    case False
    then have "vma_phys_areas v = []" "vma_phys_areas w = []" using assms(1,2) same by (auto simp: vma_ok_def)
    with j show ?thesis
      by (simp add: vma_content_def vma_absorb_def append_phys_areas_def phys_at_def seg_den_def)
  qed
qed

lemma vma_joinable_adjacent:
  assumes m: "seg_ok vma_size vma_ok m" and "om_lookup m k = Some v" and "om_lookup m k2 = Some w"
    and "vma_joinable v w"
  shows "k2 = k + vma_size v"
proof -
  have "vma_base v = k" "k + vma_size v < U64" "vma_base w = k2"
    using seg_ok_entry [OF m] assms(2,3) by (auto simp: om_lookup_in_set [OF seg_ok_inv [OF m]] vma_ok_def)
  with vma_joinableD(1) [OF assms(4)] show ?thesis by (simp add: u64_exact)
qed

lemma carve_vma_eq:
  assumes m: "seg_ok vma_size vma_ok m" and f: "om_floor m x = Some (k, a)"
    and n: "0 < n" "x + n \<le> k + vma_size a"
  shows "CarveVMA m x n =
    (let e = x - k + n in
     Option.bind (if e \<noteq> vma_size a then map_option snd (vma_Split m k e) else Some m)
       (\<lambda>m1. if x \<noteq> k then vma_Split m1 k (x - k) else Some (k, m1)))"
proof -
  have k: "(k, a) \<in> set m" "k \<le> x"
    using om.floor_lookup [OF seg_ok_inv [OF m] f] om_lookup_in_set [OF seg_ok_inv [OF m]] by auto
  from seg_ok_entry [OF m k(1)] have b: "vma_base a = k" "k + vma_size a < U64"
    by (auto simp: vma_ok_def)
  have "usub x k = x - k" "uadd (x - k) n = x - k + n"
    using b k n by (simp_all add: u64_exact)
  with f b k n show ?thesis by (auto simp: CarveVMA_def Let_def)
qed

lemma vma_MergeAdjacent_eq:
  assumes m: "seg_ok vma_size vma_ok m" and k: "om_lookup m k = Some v"
  shows "vma_MergeAdjacent m k =
     Some (om_join_prev vma_joinable vma_absorb (om_join_next vma_joinable vma_absorb m k) k)"
proof -
  note inv = seg_ok_inv [OF m]
  have ent: "0 < vma_size u \<and> j + vma_size u < U64 \<and> vma_ok j u" if "om_lookup m j = Some u" for j u
    using seg_ok_entry [OF m] that by (simp add: om_lookup_in_set inv)
  define m1 where "m1 = om_join_next vma_joinable vma_absorb m k"
  define v1 where "v1 = the (om_lookup m1 k)"
  have first: "(case om_next m k of
            Some (nk, nxt) \<Rightarrow>
              do { c \<leftarrow> vma_CanMergeWith v nxt;
                   if c then let v' = vma_absorb v nxt in Some (v', om_erase nk (om_set k v' m))
                   else Some (v, m) }
          | None \<Rightarrow> Some (v, m)) = Some (v1, m1)
      \<and> om_lookup m1 k = Some v1 \<and> 0 < vma_size v1 \<and> vma_ok k v1
      \<and> om_prev m1 k = om_prev m k \<and> (\<forall>j < k. om_lookup m1 j = om_lookup m j)"
  proof (cases "\<exists>nk nxt. om_next m k = Some (nk, nxt) \<and> vma_joinable v nxt")
    case True
    then obtain nk nxt where nx: "om_next m k = Some (nk, nxt)" and j: "vma_joinable v nxt" by blast
    note l = om.next_lookup [OF inv nx]
    have m1: "m1 = om_erase nk (om_set k (vma_absorb v nxt) m)"
      by (simp add: m1_def om_join_next_def k nx j)
    have inv1: "om_inv m1" by (simp add: m1 om_inv_erase om_inv_set inv)
    have look: "om_lookup m1 = (om_lookup m)(k \<mapsto> vma_absorb v nxt, nk := None)"
      by (simp add: m1 om.lookup_erase om.lookup_put om.inv_put inv)
    then have v1: "v1 = vma_absorb v nxt" "om_lookup m1 k = Some v1" using l by (simp_all add: v1_def)
    have "nk = k + vma_size v" by (rule vma_joinable_adjacent [OF m k l(1) j])
    then have "0 < vma_size v1 \<and> vma_ok k v1"
      using vma_absorb_ok [of k v nxt] ent [OF k] ent [OF l(1)] j by (simp add: v1)
    moreover have "om_prev m1 k = om_prev m k"
      using l by (intro om.prev_cong [OF inv inv1]) (simp add: look)
    moreover have "\<forall>i < k. om_lookup m1 i = om_lookup m i" using l by (simp add: look)
    ultimately show ?thesis
      using nx j v1 by (simp add: vma_joinable_def m1 Let_def)
  next
    case False
    then have m1: "m1 = m" using k by (auto simp: m1_def om_join_next_def split: option.splits)
    then have v1: "v1 = v" using k by (simp add: v1_def)
    have "vma_CanMergeWith v nxt = Some False" if "om_next m k = Some (nk, nxt)" for nk nxt
      using False that vma_CanMergeWith_total [of k v nk nxt] ent [OF k]
        ent [OF om.next_lookup(1) [OF inv that]] by (auto simp: vma_joinable_def)
    then show ?thesis using k ent [OF k] by (auto simp: m1 v1 split: option.splits)
  qed
  have second: "vma_CanMergeWith prv v1 = Some (vma_joinable prv v1)" if "om_prev m k = Some (pk, prv)" for pk prv
    using vma_CanMergeWith_total [of pk prv k v1] first ent [OF om.prev_lookup(1) [OF inv that]]
    by (auto simp: vma_joinable_def)
  show ?thesis
    unfolding m1_def [symmetric] om_join_prev_def vma_MergeAdjacent_def
    using first k second by (auto split: option.splits)
qed

interpretation vm: segment_map vma_size vma_content vma_ok vma_cutl vma_cutr
  vma_Split CarveVMA vma_joinable vma_absorb vma_MergeAdjacent
proof (unfold_locales, goal_cases)
  case (1 k a off)
  then show ?case by (simp add: vma_cutr_def u64_exact)
next
  case (2 k a off)
  then show ?case
    using split_phys_areas_correct [of "vma_phys_areas a" "vma_size a" off]
    by (auto simp: vma_ok_def vma_cutl_def vma_cutr_def u64_exact HasPhysicalBacking_def)
next
  case (3 k a off i)
  then show ?case
    using split_phys_areas_correct(3) [of "vma_phys_areas a" "vma_size a" off i]
    by (auto simp: vma_content_def vma_ok_def vma_cutl_def)
next
  case (4 k a off i)
  then show ?case
    using split_phys_areas_correct(4) [of "vma_phys_areas a" "vma_size a" off i]
    by (auto simp: vma_content_def vma_ok_def vma_cutr_def phys_at_def seg_den_def)
next
  case (5 m k a off)
  have "vma_ok k a" "k + vma_size a < U64"
    using seg_ok_entry [OF 5(1)] 5(2) om_lookup_in_set [OF seg_ok_inv [OF 5(1)]] by auto
  with 5 show ?case by (intro vma_Split_eq) (auto simp: vma_ok_def)
next
  case (6 m x k a n)
  then show ?case by (rule carve_vma_eq)
next
  case (9 m k a k2 b)
  then show ?case
    using om.next_lookup [OF seg_ok_inv [OF 9(1)] 9(3)] by (intro vma_joinable_adjacent)
next
  case (10 k a b)
  then show ?case by (simp add: vma_absorb_ok)
next
  case (11 k a b i)
  then show ?case by (simp add: vma_absorb_ok(3) [of k])
next
  case (12 m k a)
  then show ?case by (intro vma_MergeAdjacent_eq)
qed auto

subsection \<open>Assigning attributes to a range\<close>

text \<open>Carve a range, change its attributes, and merge it with its neighbours.\<close>

definition vma_assign_merge ::
  "(VirtualMemoryArea \<Rightarrow> VirtualMemoryArea) \<Rightarrow> VMAMap \<Rightarrow> VAddr \<Rightarrow> nat \<Rightarrow> VMAMap option" where
  "vma_assign_merge f m addr sz =
     do { (h, m1) \<leftarrow> carve_assign CarveVMA f m addr sz;
          (_, m2) \<leftarrow> vma_MergeAdjacent m1 h;
          Some m2 }"

text \<open>
  \<open>vma_update f g\<close>: the assignment \<open>f\<close> keeps an area well formed and changes what it says about
  each of its addresses by \<open>g\<close>.
\<close>

definition vma_update :: "(VirtualMemoryArea \<Rightarrow> VirtualMemoryArea) \<Rightarrow> (page_info \<Rightarrow> page_info) \<Rightarrow> bool" where
  "vma_update f g \<longleftrightarrow>
     (\<forall>b k i. vma_size (f b) = vma_size b \<and> (vma_ok k b \<longrightarrow> vma_ok k (f b)) \<and>
              vma_content (f b) i = g (vma_content b i))"

text \<open>A property of single areas that cutting and absorbing keep.\<close>

definition vma_stable :: "(VirtualMemoryArea \<Rightarrow> bool) \<Rightarrow> bool" where
  "vma_stable P \<longleftrightarrow>
     (\<forall>j b off. vma_ok j b \<longrightarrow> j + vma_size b < U64 \<longrightarrow> 0 < off \<longrightarrow> off < vma_size b \<longrightarrow> P b \<longrightarrow>
        P (vma_cutl b off) \<and> P (vma_cutr b off)) \<and>
     (\<forall>j a b. vma_ok j a \<longrightarrow> vma_ok (j + vma_size a) b \<longrightarrow> j + vma_size a + vma_size b < U64 \<longrightarrow>
        vma_joinable a b \<longrightarrow> P a \<longrightarrow> P b \<longrightarrow> P (vma_absorb a b))"

lemma vma_area_content:
  assumes m: "vma_map_ok m" and f: "om_floor m x = Some (k, v)" and "x \<le> y" and "y < k + vma_size v"
  shows "vma_at m y = Some (vma_content v (y - k))"
proof -
  note ok = m [unfolded vma_map_ok_def]
  note l = om.floor_lookup [OF seg_ok_inv [OF ok] f]
  from l assms show ?thesis unfolding vma_at_def by (intro vm.den_holds [OF ok]) auto
qed

lemma vma_assign_merge_correct:
  assumes m: "vma_map_ok m" and f: "om_floor m x = Some (k, v)"
    and n: "0 < n" and fit: "x + n \<le> k + vma_size v" and u: "vma_update f g"
  obtains m' where "vma_assign_merge f m x n = Some m'" and "vma_map_ok m'"
    and "\<And>y. vma_at m' y = (if x \<le> y \<and> y < x + n then map_option g (vma_at m y) else vma_at m y)"
    and "\<And>P. vma_stable P \<Longrightarrow> \<forall>b. P b \<longrightarrow> P (f b) \<Longrightarrow> \<forall>j b. om_lookup m j = Some b \<longrightarrow> P b \<Longrightarrow>
           \<forall>j b. om_lookup m' j = Some b \<longrightarrow> P b"
proof -
  note ok = m [unfolded vma_map_ok_def]
  note l = om.floor_lookup [OF seg_ok_inv [OF ok] f]
  let ?c = "\<lambda>i. g (vma_content v (x - k + i))"
  have upd: "\<forall>b. vma_size b = n \<and> vma_ok x b \<and> (\<forall>i < n. vma_content b i = vma_content v (x - k + i)) \<longrightarrow>
                vma_size (f b) = n \<and> vma_ok x (f b) \<and> (\<forall>i < n. vma_content (f b) i = ?c i)"
    using u by (simp add: vma_update_def)
  have sf: "vma_size (f b) = vma_size b" for b using u by (simp add: vma_update_def)
  obtain m1 h m' where ca: "carve_assign CarveVMA f m x n = Some (x, m1)"
    and mg: "vma_MergeAdjacent m1 x = Some (h, m')" and ok': "seg_ok vma_size vma_ok m'"
    and den: "\<And>y. seg_den vma_size vma_content m' y =
           (if x \<le> y \<and> y < x + n then Some (?c (y - x)) else seg_den vma_size vma_content m y)"
    by (rule vm.update_range [OF ok f n fit upd sf]) (rule that)
  have ok1: "seg_ok vma_size vma_ok m1"
    by (rule vm.carve_assign_correct [OF ok f n fit upd]) (use ca in auto)
  have inside: "vma_at m y = Some (vma_content v (x - k + (y - x)))" if "x \<le> y" "y < x + n" for y
    using vma_area_content [OF m f, of y] that fit l by simp
  show thesis
  proof (rule that [of m'])
    show "vma_assign_merge f m x n = Some m'" by (simp add: vma_assign_merge_def ca mg)
    show "vma_map_ok m'" using ok' by (simp add: vma_map_ok_def)
    show "vma_at m' y = (if x \<le> y \<and> y < x + n then map_option g (vma_at m y) else vma_at m y)" for y
      using den [of y] inside [of y] by (simp add: vma_at_def)
    show "\<forall>j b. om_lookup m' j = Some b \<longrightarrow> P b"
      if "vma_stable P" "\<forall>b. P b \<longrightarrow> P (f b)" "\<forall>j b. om_lookup m j = Some b \<longrightarrow> P b" for P
    proof (intro allI impI)
      fix j b assume j: "om_lookup m' j = Some b"
      show "P b"
        by (rule vm.update_all [where P = P, OF ok f n fit ca mg ok1 _ _ _ _ j])
          (use that in \<open>auto simp: vma_stable_def\<close>)
    qed
  qed
qed

end
