(* ===== verification/Orbit_MemoryState.thy ===== *)
theory Orbit_MemoryState
  imports Orbit_VmaMap
begin

text \<open>
  The state of \<^verbatim>\<open>Core::MemoryManager\<close> (\<^verbatim>\<open>src/core/memory.h\<close>), its construction and the
  operations that read or set single parts of it.  The fields of \<open>mm\<close> are the fields of the
  class; \<open>mm_backing\<close> is the memory behind \<^verbatim>\<open>AddressSpace::BackingBase()\<close>, and \<open>mm_trace\<close>
  records, newest first, every call the manager makes on the host address space
  (\<^verbatim>\<open>AddressSpace::Map\<close>, \<^verbatim>\<open>Unmap\<close>, \<^verbatim>\<open>Protect\<close>, \<^verbatim>\<open>MapFile\<close>) and on the GPU
  (\<^verbatim>\<open>Rasterizer::MapMemory\<close>, \<^verbatim>\<open>UnmapMemory\<close>, \<^verbatim>\<open>InvalidateMemory\<close>).  Operations run under the
  manager's mutexes, so each is one step; \<open>None\<close> means that the emulator aborts.
\<close>

subsection \<open>State\<close>

datatype host_call =
  HostMap VAddr nat PAddr bool
| HostMapFile VAddr nat nat MemoryProt nat
| HostUnmap VAddr nat
| HostProtect VAddr nat "32 word"
| GpuMap VAddr nat
| GpuUnmap VAddr nat
| GpuInvalidate VAddr nat

record AddressSpace =
  as_system_managed_base :: VAddr
  as_user_base :: VAddr
  as_user_size :: nat

record PrtArea =
  prt_start :: VAddr
  prt_end :: VAddr
  prt_mapped :: bool

record mm =
  mm_impl :: AddressSpace
  mm_dmem_map :: PhysMap
  mm_fmem_map :: PhysMap
  mm_vma_map :: VMAMap
  mm_total_direct_size :: nat
  mm_total_flexible_size :: nat
  mm_flexible_usage :: nat
  mm_pool_budget :: nat
  mm_sdk_version :: s32
  mm_rasterizer :: bool
  mm_prt_areas :: "PrtArea list"
  mm_backing :: "PAddr \<Rightarrow> 8 word"
  mm_trace :: "host_call list"

definition host :: "host_call \<Rightarrow> mm \<Rightarrow> mm" where
  "host c s = s\<lparr>mm_trace := c # mm_trace s\<rparr>"

definition PrtArea_Overlaps :: "PrtArea \<Rightarrow> VAddr \<Rightarrow> nat \<Rightarrow> bool" where
  "PrtArea_Overlaps area test_address test_size =
     (let overlap_end = uadd test_address test_size
      in prt_start area < overlap_end \<and> test_address < prt_end area)"

definition SetRasterizer :: "bool \<Rightarrow> mm \<Rightarrow> mm" where
  "SetRasterizer present s = s\<lparr>mm_rasterizer := present\<rparr>"

definition GetAvailableFlexibleSize :: "mm \<Rightarrow> nat" where
  "GetAvailableFlexibleSize s = usub (mm_total_flexible_size s) (mm_flexible_usage s)"

definition IsValidGpuMapping :: "VAddr \<Rightarrow> nat \<Rightarrow> bool" where
  "IsValidGpuMapping virtual_addr sz \<longleftrightarrow> uadd virtual_addr sz < 0x10000000000"

definition FindVMA :: "mm \<Rightarrow> VAddr \<Rightarrow> (VAddr \<times> VirtualMemoryArea) option" where
  "FindVMA s target = om_floor (mm_vma_map s) target"

definition FindDmemArea :: "mm \<Rightarrow> PAddr \<Rightarrow> (PAddr \<times> PhysicalMemoryArea) option" where
  "FindDmemArea s target = om_floor (mm_dmem_map s) target"

definition FindFmemArea :: "mm \<Rightarrow> PAddr \<Rightarrow> (PAddr \<times> PhysicalMemoryArea) option" where
  "FindFmemArea s target = om_floor (mm_fmem_map s) target"

subsection \<open>Address validation\<close>

fun valid_mapping_loop :: "VMAMap \<Rightarrow> VAddr \<Rightarrow> nat \<Rightarrow> bool" where
  "valid_mapping_loop [] addr_to_check size_to_validate \<longleftrightarrow> size_to_validate = 0"
| "valid_mapping_loop ((k, v) # rest) addr_to_check size_to_validate \<longleftrightarrow>
     (if size_to_validate = 0 then True
      else let offset_in_vma = usub addr_to_check (vma_base v);
               size_in_vma = min (usub (vma_size v) offset_in_vma) size_to_validate;
               remaining = usub size_to_validate size_in_vma;
               addr' = uadd addr_to_check size_in_vma
           in case rest of
                (k2, v2) # _ \<Rightarrow>
                  if remaining > 0 \<and> addr' \<noteq> vma_base v2 then False
                  else valid_mapping_loop rest addr' remaining
              | [] \<Rightarrow> valid_mapping_loop rest addr' remaining)"

definition IsValidMapping :: "mm \<Rightarrow> VAddr \<Rightarrow> nat \<Rightarrow> bool option" where
  "IsValidMapping s virtual_addr sz =
     (let m = mm_vma_map s in
      if m = [] then None
      else let end_it = last m; end_addr = uadd (fst end_it) (vma_size (snd end_it))
           in if virtual_addr < fst (hd m) \<or> virtual_addr \<ge> end_addr then Some False
              else if sz = 0 then Some True
              else do {
                (k, v) \<leftarrow> FindVMA s virtual_addr;
                Some (valid_mapping_loop (om_from m k) virtual_addr sz)
              })"

text \<open>\<^verbatim>\<open>ASSERT_MSG(IsValidMapping(addr, size))\<close>: go on, or abort.\<close>

definition assert_valid :: "mm \<Rightarrow> VAddr \<Rightarrow> nat \<Rightarrow> unit option" where
  "assert_valid s addr sz = do { ok \<leftarrow> IsValidMapping s addr sz; if ok then Some () else None }"

fun clamp_loop :: "VMAMap \<Rightarrow> nat \<Rightarrow> nat \<Rightarrow> nat" where
  "clamp_loop [] clamped_size sz = clamped_size"
| "clamp_loop ((k, v) # rest) clamped_size sz =
     (if IsMapped v \<and> clamped_size < sz
      then clamp_loop rest (uadd clamped_size (vma_size v)) sz else clamped_size)"

definition ClampRangeSize :: "mm \<Rightarrow> VAddr \<Rightarrow> nat \<Rightarrow> nat option" where
  "ClampRangeSize s virtual_addr sz =
     (if sz < 1 * GB then Some sz
      else do {
        assert_valid s virtual_addr 0;
        (k, v) \<leftarrow> FindVMA s virtual_addr;
        let clamped_size = usub (uadd (vma_base v) (vma_size v)) virtual_addr;
        Some (min (clamp_loop (tl (om_from (mm_vma_map s) k)) clamped_size sz) sz)
      })"

subsection \<open>Partially resident texture areas and sparse copies\<close>

definition SetPrtArea :: "mm \<Rightarrow> nat \<Rightarrow> VAddr \<Rightarrow> nat \<Rightarrow> mm option" where
  "SetPrtArea s area_id address sz =
     (if area_id \<ge> length (mm_prt_areas s) then None
      else let area = mm_prt_areas s ! area_id;
               s1 = (if prt_mapped area \<and> mm_rasterizer s
                     then host (GpuUnmap (prt_start area) (usub (prt_end area) (prt_start area))) s
                     else s);
               area' = area\<lparr>prt_start := address, prt_end := uadd address sz, prt_mapped := True\<rparr>;
               s2 = s1\<lparr>mm_prt_areas := (mm_prt_areas s1)[area_id := area']\<rparr>
           in Some (if mm_rasterizer s2 then host (GpuMap address sz) s2 else s2))"

text \<open>
  \<open>mem\<close> is the guest's view of memory, which \<^verbatim>\<open>memcpy\<close> reads at the virtual address.
\<close>

fun copy_sparse_loop :: "(VAddr \<Rightarrow> 8 word) \<Rightarrow> VMAMap \<Rightarrow> VAddr \<Rightarrow> nat \<Rightarrow> 8 word list option" where
  "copy_sparse_loop mem [] virtual_addr sz = (if sz = 0 then Some [] else None)"
| "copy_sparse_loop mem ((k, v) # rest) virtual_addr sz =
     (if sz = 0 then Some []
      else let copy_size = min (usub (vma_size v) (usub virtual_addr k)) sz;
               chunk = (if IsMapped v then map (\<lambda>i. mem (virtual_addr + i)) [0..<copy_size]
                        else replicate copy_size 0)
           in do { bytes \<leftarrow> copy_sparse_loop mem rest (uadd virtual_addr copy_size) (usub sz copy_size);
                   Some (chunk @ bytes) })"

definition CopySparseMemory :: "mm \<Rightarrow> (VAddr \<Rightarrow> 8 word) \<Rightarrow> VAddr \<Rightarrow> nat \<Rightarrow> 8 word list option" where
  "CopySparseMemory s mem virtual_addr sz =
     do { assert_valid s virtual_addr 0;
          (k, v) \<leftarrow> FindVMA s virtual_addr;
          copy_sparse_loop mem (om_from (mm_vma_map s) k) virtual_addr sz }"

subsection \<open>Writing through to the backing memory\<close>

definition backing_write :: "(PAddr \<Rightarrow> 8 word) \<Rightarrow> PAddr \<Rightarrow> 8 word list \<Rightarrow> PAddr \<Rightarrow> 8 word" where
  "backing_write mem p bytes a =
     (if p \<le> a \<and> a < p + length bytes then bytes ! (a - p) else mem a)"

fun vmas_to_write_loop :: "VMAMap \<Rightarrow> VAddr \<Rightarrow> nat \<Rightarrow> VirtualMemoryArea list option" where
  "vmas_to_write_loop [] virtual_addr sz = None"
| "vmas_to_write_loop ((k, v) # rest) virtual_addr sz =
     (if vma_Overlaps v virtual_addr sz
      then if \<not> HasPhysicalBacking v then Some []
           else do { vs \<leftarrow> vmas_to_write_loop rest virtual_addr sz; Some (v # vs) }
      else Some [])"

fun write_phys_loop ::
  "PhysMap \<Rightarrow> nat \<Rightarrow> 8 word list \<Rightarrow> (PAddr \<Rightarrow> 8 word) \<Rightarrow> nat \<Rightarrow> (PAddr \<Rightarrow> 8 word) \<times> nat" where
  "write_phys_loop [] start_in_vma data mem sz = (mem, sz)"
| "write_phys_loop ((k, area) # rest) start_in_vma data mem sz =
     (if sz = 0 then (mem, sz)
      else let start_in_dma = usub (max start_in_vma k) k;
               backing = pma_base area + start_in_dma;
               copy_size = min sz (usub (pma_size area) start_in_dma)
           in write_phys_loop rest start_in_vma data
                (backing_write mem backing (take copy_size data)) (usub sz copy_size))"

fun write_vmas_loop ::
  "VirtualMemoryArea list \<Rightarrow> VAddr \<Rightarrow> 8 word list \<Rightarrow> (PAddr \<Rightarrow> 8 word) \<Rightarrow> nat \<Rightarrow>
   ((PAddr \<Rightarrow> 8 word) \<times> nat) option" where
  "write_vmas_loop [] virtual_addr data mem sz = Some (mem, sz)"
| "write_vmas_loop (v # vs) virtual_addr data mem sz =
     (let start_in_vma = usub (max virtual_addr (vma_base v)) (vma_base v) in
      do { (h, area) \<leftarrow> om_floor (vma_phys_areas v) start_in_vma;
           let (mem', sz') = write_phys_loop (om_from (vma_phys_areas v) h) start_in_vma data mem sz;
           write_vmas_loop vs virtual_addr data mem' sz' })"

text \<open>The size of the write is the length of \<open>data\<close>.\<close>

definition TryWriteBacking :: "mm \<Rightarrow> VAddr \<Rightarrow> 8 word list \<Rightarrow> (bool \<times> mm) option" where
  "TryWriteBacking s virtual_addr data =
     (let sz = length data in
      do { assert_valid s virtual_addr sz;
           (k, v) \<leftarrow> FindVMA s virtual_addr;
           vs \<leftarrow> vmas_to_write_loop (om_from (mm_vma_map s) k) virtual_addr sz;
           if vs = [] then Some (False, s)
           else do { (mem, _) \<leftarrow> write_vmas_loop vs virtual_addr data (mm_backing s) sz;
                     Some (True, s\<lparr>mm_backing := mem\<rparr>) } })"

subsection \<open>Construction and configuration\<close>

definition ORBIS_KERNEL_TOTAL_MEM :: nat where "ORBIS_KERNEL_TOTAL_MEM = 5248 * MB"
definition ORBIS_KERNEL_TOTAL_MEM_PRO :: nat where "ORBIS_KERNEL_TOTAL_MEM_PRO = 5888 * MB"
definition ORBIS_KERNEL_TOTAL_MEM_DEV :: nat where "ORBIS_KERNEL_TOTAL_MEM_DEV = 6656 * MB"
definition ORBIS_KERNEL_TOTAL_MEM_DEV_PRO :: nat where "ORBIS_KERNEL_TOTAL_MEM_DEV_PRO = 7936 * MB"
definition ORBIS_KERNEL_FLEXIBLE_MEMORY_BASE :: nat where "ORBIS_KERNEL_FLEXIBLE_MEMORY_BASE = 64 * MB"
definition ORBIS_KERNEL_FLEXIBLE_MEMORY_SIZE :: nat where "ORBIS_KERNEL_FLEXIBLE_MEMORY_SIZE = 512 * MB"

lemmas orbis_sizes = ORBIS_KERNEL_TOTAL_MEM_def ORBIS_KERNEL_TOTAL_MEM_PRO_def
  ORBIS_KERNEL_TOTAL_MEM_DEV_def ORBIS_KERNEL_TOTAL_MEM_DEV_PRO_def
  ORBIS_KERNEL_FLEXIBLE_MEMORY_BASE_def ORBIS_KERNEL_FLEXIBLE_MEMORY_SIZE_def

text \<open>A default-initialised area over a range.\<close>

definition free_vma :: "VAddr \<Rightarrow> nat \<Rightarrow> VirtualMemoryArea" where
  "free_vma b n = \<lparr>vma_base = b, vma_size = n, vma_phys_areas = [], vma_type = VFree,
     vma_prot = ProtNoAccess, vma_name = [], vma_fd = 0, vma_disallow_merge = False\<rparr>"

definition free_area :: "PAddr \<Rightarrow> nat \<Rightarrow> PhysicalMemoryArea" where
  "free_area b n = \<lparr>pma_base = b, pma_size = n, pma_memory_type = 0, pma_dma_type = PFree\<rparr>"

text \<open>\<^verbatim>\<open>extra * 1_MB\<close> in 64-bit arithmetic, for a signed number of megabytes.\<close>

definition extra_bytes :: "s32 \<Rightarrow> nat" where
  "extra_bytes extra_dmem = nat ((extra_dmem * int MB) mod int U64)"

text \<open>
  The constructor.  The usable regions of the host, the extra direct memory of the settings and
  the SDK version of the title are inputs.
\<close>

definition MemoryManager :: "AddressSpace \<Rightarrow> (VAddr \<times> VAddr) list \<Rightarrow> s32 \<Rightarrow> s32 \<Rightarrow> (PAddr \<Rightarrow> 8 word) \<Rightarrow> mm" where
  "MemoryManager impl regions extra_dmem sdk backing =
     (let vmas = fold (\<lambda>(lower, upper) m. om_emplace lower (free_vma lower (usub upper lower)) m) regions [];
          total_size0 = ORBIS_KERNEL_TOTAL_MEM_DEV_PRO;
          total_size = (if extra_dmem \<noteq> 0 then uadd total_size0 (extra_bytes extra_dmem) else total_size0)
      in \<lparr>mm_impl = impl,
          mm_dmem_map = om_emplace 0 (free_area 0 total_size) [],
          mm_fmem_map = om_emplace total_size (free_area total_size ORBIS_KERNEL_FLEXIBLE_MEMORY_SIZE) [],
          mm_vma_map = vmas,
          mm_total_direct_size = total_size,
          mm_total_flexible_size = ORBIS_KERNEL_FLEXIBLE_MEMORY_SIZE,
          mm_flexible_usage = 0,
          mm_pool_budget = 0,
          mm_sdk_version = sdk,
          mm_rasterizer = False,
          mm_prt_areas = replicate 3 \<lparr>prt_start = 0, prt_end = 0, prt_mapped = False\<rparr>,
          mm_backing = backing,
          mm_trace = []\<rparr>)"

definition SetupMemoryRegions ::
  "mm \<Rightarrow> bool \<Rightarrow> bool \<Rightarrow> s32 \<Rightarrow> nat \<Rightarrow> bool \<Rightarrow> bool \<Rightarrow> mm option" where
  "SetupMemoryRegions s is_neo is_devkit extra_dmem flexible_size use_extended_mem1 use_extended_mem2 =
     (let t0 = (if is_neo then ORBIS_KERNEL_TOTAL_MEM_PRO else ORBIS_KERNEL_TOTAL_MEM);
          t1 = (if is_devkit
                then if is_neo then ORBIS_KERNEL_TOTAL_MEM_DEV_PRO else ORBIS_KERNEL_TOTAL_MEM_DEV
                else t0);
          t2 = (if extra_dmem \<noteq> 0 then uadd t1 (extra_bytes extra_dmem) else t1);
          t3 = (if \<not> use_extended_mem1 \<and> is_neo then usub t2 (256 * MB) else t2);
          total_size = (if \<not> use_extended_mem2 \<and> \<not> is_neo then usub t3 (128 * MB) else t3);
          flexible = usub flexible_size ORBIS_KERNEL_FLEXIBLE_MEMORY_BASE
      in if \<not> flexible \<ge> mm_flexible_usage s then None
         else let old_direct_size = mm_total_direct_size s;
                  direct = usub total_size flexible_size
              in do {
                (k, area) \<leftarrow> FindDmemArea s direct;
                if pma_dma_type area = PFree \<and> pma_size area \<ge> usub old_direct_size direct
                then Some (s\<lparr>mm_total_flexible_size := flexible, mm_total_direct_size := direct,
                        mm_dmem_map := om_set k (area\<lparr>pma_size :=
                          usub (pma_size area) (usub old_direct_size direct)\<rparr>) (mm_dmem_map s)\<rparr>)
                else None
              })"

subsection \<open>Address validation is exact for ranges that start in an area\<close>

definition covered :: "mm \<Rightarrow> VAddr \<Rightarrow> nat \<Rightarrow> bool" where
  "covered s x n \<longleftrightarrow> (\<forall>y. x \<le> y \<and> y < x + n \<longrightarrow> vma_at (mm_vma_map s) y \<noteq> None)"

lemma valid_mapping_zero [simp]: "valid_mapping_loop xs a 0"
  by (cases xs) auto

lemma valid_mapping_loop_iff:
  assumes "seg_ok vma_size vma_ok ((k, v) # xs)" and "k \<le> a" and "a < k + vma_size v"
    and "0 < n" and "a + n < U64"
  shows "valid_mapping_loop ((k, v) # xs) a n \<longleftrightarrow>
    (\<forall>y. a \<le> y \<and> y < a + n \<longrightarrow> (\<exists>(j, w) \<in> set ((k, v) # xs). j \<le> y \<and> y < j + vma_size w))"
  using assms
proof (induction xs arbitrary: k v a n)
  case Nil
  have v: "vma_base v = k" "k + vma_size v < U64" using Nil.prems(1) by (auto simp: vma_ok_def)
  have e: "usub (vma_size v) (usub a (vma_base v)) = k + vma_size v - a"
    using v Nil.prems by (simp add: u64_exact)
  show ?case
  proof (cases "n \<le> k + vma_size v - a")
    case True
    with Nil.prems show ?thesis by (auto simp: e min_absorb2 u64_exact)
  next
    case False
    then have "\<not> valid_mapping_loop [(k, v)] a n"
      using Nil.prems by (simp add: e min_absorb1 u64_exact)
    moreover have "a \<le> k + vma_size v \<and> k + vma_size v < a + n" using False Nil.prems by auto
    ultimately show ?thesis by auto
  qed
next
  case (Cons e xs)
  obtain k2 v2 where e2: "e = (k2, v2)" by (cases e)
  have ok2: "seg_ok vma_size vma_ok ((k2, v2) # xs)" and v2: "0 < vma_size v2"
    and vok: "vma_ok k v" "vma_ok k2 v2" and kv: "k + vma_size v < U64" "k + vma_size v \<le> k2"
    and later: "\<And>j w. (j, w) \<in> set ((k2, v2) # xs) \<Longrightarrow> k2 \<le> j"
    using Cons.prems(1) by (auto simp: e2)
  have v: "vma_base v = k" "k + vma_size v < U64" "vma_base v2 = k2" "k + vma_size v \<le> k2"
    using vok kv by (auto simp: vma_ok_def)
  have s: "usub (vma_size v) (usub a (vma_base v)) = k + vma_size v - a"
    using v Cons.prems by (simp add: u64_exact)
  show ?case
  proof (cases "n \<le> k + vma_size v - a")
    case True
    with Cons.prems show ?thesis by (auto simp: e2 s min_absorb2 u64_exact)
  next
    case False
    let ?b = "k + vma_size v" and ?r = "n - (k + vma_size v - a)"
    have b: "a \<le> ?b" "?b < a + n" "0 < ?r" "?b + ?r = a + n" using False Cons.prems by auto
    have loop: "valid_mapping_loop ((k, v) # e # xs) a n \<longleftrightarrow>
        ?b = k2 \<and> valid_mapping_loop ((k2, v2) # xs) ?b ?r"
    proof -
      have ar: "min (k + vma_size v - a) n = ?b - a" "usub n (?b - a) = ?r" "uadd a (?b - a) = ?b"
        using False Cons.prems b by (auto simp: u64_exact)
      have "valid_mapping_loop ((k, v) # e # xs) a n \<longleftrightarrow>
          (if ?r > 0 \<and> ?b \<noteq> vma_base v2 then False else valid_mapping_loop (e # xs) ?b ?r)"
        using Cons.prems(4)
        by (subst valid_mapping_loop.simps(2)) (simp only: s Let_def ar e2 list.case prod.case if_False gr_implies_not0)
      with b(3) v(3) show ?thesis by (auto simp: e2 simp del: valid_mapping_loop.simps)
    qed
    show ?thesis
    proof (cases "?b = k2")
      case True
      define C where "C y \<longleftrightarrow> (\<exists>(j, w) \<in> set ((k2, v2) # xs). j \<le> y \<and> y < j + vma_size w)" for y
      have "valid_mapping_loop ((k2, v2) # xs) ?b ?r \<longleftrightarrow> (\<forall>y. ?b \<le> y \<and> y < ?b + ?r \<longrightarrow> C y)"
        unfolding C_def using True ok2 v2 b Cons.prems(5) by (intro Cons.IH) auto
      moreover have "(\<exists>(j, w) \<in> set ((k, v) # e # xs). j \<le> y \<and> y < j + vma_size w) \<longleftrightarrow>
          y < ?b \<and> k \<le> y \<or> C y" for y
        by (auto simp: e2 C_def)
      moreover have "(\<forall>y. ?b \<le> y \<and> y < a + n \<longrightarrow> C y) \<longleftrightarrow> (\<forall>y. a \<le> y \<and> y < a + n \<longrightarrow> y < ?b \<and> k \<le> y \<or> C y)"
        using b(1) Cons.prems(2) by (meson le_trans not_le)
      ultimately show ?thesis unfolding loop b(4) using True by blast
    next
      case ne: False
      have "\<not> (\<exists>(j, w) \<in> set ((k, v) # e # xs). j \<le> ?b \<and> ?b < j + vma_size w)"
        using later ne v(4) by (fastforce simp: e2)
      with ne b show ?thesis unfolding loop by blast
    qed
  qed
qed

lemma IsValidMapping_covered:
  assumes m: "vma_map_ok (mm_vma_map s)" and a: "vma_at (mm_vma_map s) x \<noteq> None" and n: "x + n < U64"
  shows "IsValidMapping s x n = Some (covered s x n)"
proof -
  note ok = m [unfolded vma_map_ok_def]
  note inv = seg_ok_inv [OF ok]
  obtain k v where f: "om_floor (mm_vma_map s) x = Some (k, v)" and l: "om_lookup (mm_vma_map s) k = Some v"
    and kx: "k \<le> x" "x < k + vma_size v"
    by (rule vm.den_floor [OF ok a [unfolded vma_at_def]]) (rule that)
  have inm: "(k, v) \<in> set (mm_vma_map s)" using l om_lookup_in_set [OF inv] by simp
  have ne: "mm_vma_map s \<noteq> []" using inm by auto
  have first: "fst (hd (mm_vma_map s)) \<le> k"
    using inm inv by (cases "mm_vma_map s") (fastforce simp: om_inv_Cons)+
  obtain kl vl ys where lst: "mm_vma_map s = ys @ [(kl, vl)]"
    using ne by (metis append_butlast_last_id surj_pair)
  have okl: "seg_ok vma_size vma_ok (ys @ [(kl, vl)])" using ok by (simp add: lst)
  have last: "k + vma_size v \<le> kl + vma_size vl" "kl + vma_size vl < U64"
    using inm okl by (auto simp: lst seg_ok_snoc)
  obtain rest where fr: "om_from (mm_vma_map s) k = (k, v) # rest"
    by (rule om_from_at [OF inv l]) (rule that)
  have inr: "(j, w) \<in> set ((k, v) # rest) \<longleftrightarrow> om_lookup (mm_vma_map s) j = Some w \<and> k \<le> j" for j w
    using set_om_from [of j w "mm_vma_map s" k] by (simp add: fr om_lookup_in_set [OF inv])
  have at: "vma_at (mm_vma_map s) y \<noteq> None \<longleftrightarrow> (\<exists>(j, w) \<in> set ((k, v) # rest). j \<le> y \<and> y < j + vma_size w)"
    if "x \<le> y" for y
  proof -
    have "vma_at (mm_vma_map s) y \<noteq> None \<longleftrightarrow> (\<exists>j w. om_lookup (mm_vma_map s) j = Some w \<and> j \<le> y \<and> y < j + vma_size w)"
      using vm.den_Some [OF ok, of y] by (auto simp: vma_at_def)
    also have "\<dots> \<longleftrightarrow> (\<exists>j w. (om_lookup (mm_vma_map s) j = Some w \<and> k \<le> j) \<and> j \<le> y \<and> y < j + vma_size w)"
    proof -
      have "k \<le> j" if "om_lookup (mm_vma_map s) j = Some w" "y < j + vma_size w" for j w
        using vm.apart [OF ok that(1) l] that(2) kx \<open>x \<le> y\<close> by (cases "j < k") auto
      then show ?thesis by blast
    qed
    also have "\<dots> \<longleftrightarrow> (\<exists>(j, w) \<in> set ((k, v) # rest). j \<le> y \<and> y < j + vma_size w)"
      unfolding inr [symmetric] by blast
    finally show ?thesis .
  qed
  have bounds: "\<not> x < fst (hd (mm_vma_map s))" "\<not> uadd kl (vma_size vl) \<le> x"
    using first last kx by (auto simp: u64_exact)
  show ?thesis
  proof (cases "n = 0")
    case True
    then have "covered s x n" by (auto simp: covered_def)
    with True ne bounds show ?thesis by (simp add: IsValidMapping_def lst)
  next
    case False
    have "valid_mapping_loop ((k, v) # rest) x n \<longleftrightarrow> covered s x n"
      unfolding covered_def
      using valid_mapping_loop_iff [of k v rest x n] seg_ok_from [OF ok, of k] False kx n at by (auto simp: fr)
    moreover have "IsValidMapping s x n = Some (valid_mapping_loop (om_from (mm_vma_map s) k) x n)"
      using False ne bounds f by (simp add: IsValidMapping_def FindVMA_def lst)
    ultimately show ?thesis by (simp add: fr)
  qed
qed

end
