(* ===== verification/Orbit_DirectMemory.thy ===== *)
theory Orbit_DirectMemory
  imports Orbit_MemoryState
begin

text \<open>
  Direct memory allocation and queries (\<^verbatim>\<open>src/core/memory.cpp\<close>): \<^verbatim>\<open>PoolExpand\<close>,
  \<^verbatim>\<open>Allocate\<close>, \<^verbatim>\<open>DirectMemoryQuery\<close>, \<^verbatim>\<open>DirectQueryAvailable\<close>, \<^verbatim>\<open>GetDirectMemoryType\<close>
  and \<^verbatim>\<open>GetMemoryPoolStats\<close>.  The lemmas show that an allocation takes a free, aligned block,
  marks exactly that block, and fails only when no free area is large enough.
\<close>

subsection \<open>Operations\<close>

text \<open>
  The search loop of \<^verbatim>\<open>PoolExpand\<close> and \<^verbatim>\<open>Allocate\<close>: from the iterator on, the first free area
  whose end is not below the end of the mapping.  The result is the iterator and the start.
\<close>

fun dmem_search :: "PhysMap \<Rightarrow> PAddr \<Rightarrow> nat \<Rightarrow> nat \<Rightarrow> (PAddr \<times> PAddr) option" where
  "dmem_search [] mapping_start sz alignment = None"
| "dmem_search ((k, area) # rest) mapping_start sz alignment =
     (if pma_dma_type area \<noteq> PFree \<or> GetEnd area < uadd mapping_start sz
      then (case rest of
              [] \<Rightarrow> None
            | (k2, area2) # _ \<Rightarrow>
                dmem_search rest (AlignUp (pma_base area2) alignment) sz alignment)
      else Some (k, mapping_start))"

definition PoolExpand :: "mm \<Rightarrow> PAddr \<Rightarrow> PAddr \<Rightarrow> nat \<Rightarrow> nat \<Rightarrow> (PAddr \<times> mm) option" where
  "PoolExpand s search_start search_end sz alignment0 =
     (let alignment = (if alignment0 > 0 then alignment0 else 64 * KB) in
      do {
        (h, dmem_area) \<leftarrow> FindDmemArea s search_start;
        let mapping_start =
          (if search_start > pma_base dmem_area then AlignUp search_start alignment
           else AlignUp (pma_base dmem_area) alignment);
        (case dmem_search (om_from (mm_dmem_map s) h) mapping_start sz alignment of
           None \<Rightarrow> Some (minus_one, s)
         | Some (k, start) \<Rightarrow>
             do {
               (_, m1) \<leftarrow> carve_assign CarvePhysArea
                 (\<lambda>a. a\<lparr>pma_dma_type := PPooled, pma_memory_type := 3\<rparr>) (mm_dmem_map s) start sz;
               Some (start, s\<lparr>mm_dmem_map := m1, mm_pool_budget := uadd (mm_pool_budget s) sz\<rparr>)
             })
      })"

definition Allocate :: "mm \<Rightarrow> PAddr \<Rightarrow> PAddr \<Rightarrow> nat \<Rightarrow> nat \<Rightarrow> s32 \<Rightarrow> (PAddr \<times> mm) option" where
  "Allocate s search_start search_end sz alignment0 memory_type =
     (let alignment = (if alignment0 > 0 then alignment0 else 16 * KB) in
      do {
        (h, dmem_area) \<leftarrow> FindDmemArea s search_start;
        let mapping_start = AlignUp (max search_start (pma_base dmem_area)) alignment;
        (case dmem_search (om_from (mm_dmem_map s) h) mapping_start sz alignment of
           None \<Rightarrow> Some (minus_one, s)
         | Some (k, start) \<Rightarrow>
             do {
               (_, m1) \<leftarrow> carve_assign CarvePhysArea
                 (\<lambda>a. a\<lparr>pma_memory_type := memory_type, pma_dma_type := PAllocated\<rparr>)
                 (mm_dmem_map s) start sz;
               (_, m2) \<leftarrow> phys_MergeAdjacent m1 k;
               Some (start, s\<lparr>mm_dmem_map := m2\<rparr>)
             })
      })"

record OrbisQueryInfo =
  qi_start :: nat
  qi_end :: nat
  qi_memoryType :: s32

fun query_skip_free :: "PhysMap \<Rightarrow> bool \<Rightarrow> PhysMap" where
  "query_skip_free [] find_next = []"
| "query_skip_free ((k, a) # rest) find_next =
     (if pma_dma_type a = PFree \<and> find_next then query_skip_free rest find_next else (k, a) # rest)"

fun query_extend_end :: "PhysMap \<Rightarrow> s32 \<Rightarrow> nat \<Rightarrow> nat" where
  "query_extend_end [] mt e = e"
| "query_extend_end ((k, a) # rest) mt e =
     (if pma_memory_type a = mt \<and> (pma_dma_type a = PMapped \<or> pma_dma_type a = PAllocated)
      then query_extend_end rest mt (GetEnd a) else e)"

text \<open>\<open>out_info\<close> is the caller's structure before the call.\<close>

definition DirectMemoryQuery :: "mm \<Rightarrow> PAddr \<Rightarrow> bool \<Rightarrow> OrbisQueryInfo \<Rightarrow> (s32 \<times> OrbisQueryInfo) option" where
  "DirectMemoryQuery s addr find_next out_info =
     (if addr \<ge> mm_total_direct_size s then Some (ORBIS_KERNEL_ERROR_EACCES, out_info)
      else do {
        (h, _) \<leftarrow> FindDmemArea s addr;
        let areas = query_skip_free (om_from (mm_dmem_map s) h) find_next;
        (case areas of
           [] \<Rightarrow> Some (ORBIS_KERNEL_ERROR_EACCES, out_info)
         | (k, a) # rest \<Rightarrow>
             if pma_dma_type a = PFree then Some (ORBIS_KERNEL_ERROR_EACCES, out_info)
             else Some (ORBIS_OK, out_info\<lparr>qi_start := pma_base a, qi_memoryType := pma_memory_type a,
                    qi_end := query_extend_end areas (pma_memory_type a) (qi_end out_info)\<rparr>))
      })"

definition query_available_step ::
  "PAddr \<Rightarrow> PAddr \<Rightarrow> nat \<Rightarrow> nat \<times> PhysicalMemoryArea \<Rightarrow> PAddr \<times> nat \<Rightarrow> PAddr \<times> nat" where
  "query_available_step search_start search_end alignment e acc =
     (let (k, a) = e; (paddr, max_size) = acc in
      if pma_dma_type a \<noteq> PFree then acc
      else
        let aligned0 = (if alignment > 0 then AlignUp (pma_base a) alignment else pma_base a);
            alignment_size = usub aligned0 (pma_base a);
            r0 = (if pma_size a \<ge> alignment_size then usub (pma_size a) alignment_size else 0);
            (r1, aligned_base) =
              (if pma_base a < search_start
               then ((if r0 > usub search_start (pma_base a)
                      then usub r0 (usub search_start (pma_base a)) else 0),
                     (if alignment > 0 then AlignUp search_start alignment else search_start))
               else (r0, aligned0));
            remaining_size =
              (if GetEnd a > search_end
               then if r1 > usub (GetEnd a) search_end then usub r1 (usub (GetEnd a) search_end) else 0
               else r1)
        in if remaining_size > max_size then (aligned_base, remaining_size) else acc)"

definition DirectQueryAvailable :: "mm \<Rightarrow> PAddr \<Rightarrow> PAddr \<Rightarrow> nat \<Rightarrow> (s32 \<times> PAddr \<times> nat) option" where
  "DirectQueryAvailable s search_start search_end alignment =
     do {
       (h, _) \<leftarrow> FindDmemArea s search_start;
       let (paddr, max_size) =
         fold (query_available_step search_start search_end alignment) (om_from (mm_dmem_map s) h) (0, 0);
       Some (ORBIS_OK, paddr, max_size)
     }"

text \<open>On success the memory type, the start and the end of the area.\<close>

definition GetDirectMemoryType :: "mm \<Rightarrow> PAddr \<Rightarrow> (s32 + s32 \<times> PAddr \<times> PAddr) option" where
  "GetDirectMemoryType s addr =
     (if addr \<ge> mm_total_direct_size s then Some (Inl ORBIS_KERNEL_ERROR_ENOENT)
      else do {
        (_, a) \<leftarrow> FindDmemArea s addr;
        if pma_dma_type a = PFree then Some (Inl ORBIS_KERNEL_ERROR_ENOENT)
        else Some (Inr (pma_memory_type a, pma_base a, GetEnd a))
      })"

text \<open>The sum of the committed areas in 64-bit arithmetic, and the flushed block counts.\<close>

fun committed_size :: "PhysMap \<Rightarrow> nat \<Rightarrow> nat" where
  "committed_size [] acc = acc"
| "committed_size ((k, a) # rest) acc =
     committed_size rest (if pma_dma_type a = PCommitted then uadd acc (pma_size a) else acc)"

record OrbisKernelMemoryPoolBlockStats =
  available_flushed_blocks :: int
  available_cached_blocks :: int
  allocated_flushed_blocks :: int
  allocated_cached_blocks :: int

text \<open>A 64-bit value stored to an \<^verbatim>\<open>s32\<close> field keeps its low 32 bits, read as signed.\<close>

definition to_s32 :: "nat \<Rightarrow> s32" where
  "to_s32 n = sint (of_nat n :: 32 word)"

definition GetMemoryPoolStats :: "mm \<Rightarrow> s32 \<times> OrbisKernelMemoryPoolBlockStats" where
  "GetMemoryPoolStats s =
     (let committed = committed_size (mm_dmem_map s) 0; block_size = 64 * KB
      in (ORBIS_OK, \<lparr>available_flushed_blocks = to_s32 (committed div block_size),
                     available_cached_blocks = 0,
                     allocated_flushed_blocks = to_s32 (committed div block_size),
                     allocated_cached_blocks = 0\<rparr>))"

subsection \<open>Invariant\<close>

definition dmem_ok :: "mm \<Rightarrow> bool" where
  "dmem_ok s \<longleftrightarrow> phys_keyed (mm_dmem_map s) \<and>
     (\<forall>x. phys_at (mm_dmem_map s) x \<noteq> None \<longleftrightarrow> x < mm_total_direct_size s)"

text \<open>The usage of a physical address, and the free ranges.\<close>

definition dmem_type :: "mm \<Rightarrow> PAddr \<Rightarrow> (s32 \<times> PhysicalMemoryType) option" where
  "dmem_type s x = map_option snd (phys_at (mm_dmem_map s) x)"


subsection \<open>The search loop\<close>

text \<open>
  A range of \<open>n\<close> bytes at \<open>y\<close> suits a request when it is aligned, not below the search start and
  inside one free area of the list.
\<close>

definition suits :: "PhysMap \<Rightarrow> PAddr \<Rightarrow> nat \<Rightarrow> nat \<Rightarrow> PAddr \<Rightarrow> bool" where
  "suits xs lo n al y \<longleftrightarrow>
     al dvd y \<and> lo \<le> y \<and>
     (\<exists>(j, a) \<in> set xs. pma_dma_type a = PFree \<and> j \<le> y \<and> y + n \<le> j + pma_size a)"

lemma suits_iff:
  "suits xs lo n al y \<longleftrightarrow> al dvd y \<and> lo \<le> y \<and>
     (\<exists>j a. (j, a) \<in> set xs \<and> pma_dma_type a = PFree \<and> j \<le> y \<and> y + n \<le> j + pma_size a)"
  by (auto simp: suits_def)

lemma suits_Cons:
  "suits ((k, a) # xs) lo n al y \<longleftrightarrow>
     (al dvd y \<and> lo \<le> y \<and> pma_dma_type a = PFree \<and> k \<le> y \<and> y + n \<le> k + pma_size a) \<or> suits xs lo n al y"
  by (auto simp: suits_def)

lemma not_suits_Nil: "\<not> suits [] lo n al y"
  by (simp add: suits_def)

text \<open>The loop finds the lowest suitable address, and fails only when there is none.\<close>

lemma dmem_search_least:
  assumes "seg_ok pma_size base_is_key xs" and "0 < n" and "0 < al"
    and "\<forall>(k, a) \<in> set xs. k + pma_size a \<le> T" and "T + al + n < U64" and "start + n < U64"
    and "al dvd start" and "lo \<le> start"
    and "\<forall>(k, a) \<in> set (tl xs). lo < k"
    and "\<And>k a ys. xs = (k, a) # ys \<Longrightarrow> k \<le> start \<and> (\<forall>y. al dvd y \<and> lo \<le> y \<and> k \<le> y \<longrightarrow> start \<le> y)"
  shows "case dmem_search xs start n al of
           None \<Rightarrow> \<forall>y. \<not> suits xs lo n al y
         | Some (k, st) \<Rightarrow>
             (\<exists>a. (k, a) \<in> set xs \<and> pma_dma_type a = PFree \<and> k \<le> st \<and> st + n \<le> k + pma_size a) \<and>
             al dvd st \<and> lo \<le> st \<and> (\<forall>y. suits xs lo n al y \<longrightarrow> st \<le> y)"
  using assms
proof (induction xs start n al rule: dmem_search.induct)
  case (2 k a rest start n al)
  have a: "pma_base a = k" "k + pma_size a < U64" "GetEnd a = k + pma_size a"
    using "2.prems"(1) by (auto simp: base_is_key_def GetEnd_def u64_exact)
  have wrap: "uadd start n = start + n" using "2.prems"(6) by (simp add: u64_exact)
  from "2.prems"(10) have first: "k \<le> start" "\<And>y. al dvd y \<Longrightarrow> lo \<le> y \<Longrightarrow> k \<le> y \<Longrightarrow> start \<le> y" by auto
  show ?case
  proof (cases "pma_dma_type a \<noteq> PFree \<or> k + pma_size a < start + n")
    case skip: True
    then have head: "suits ((k, a) # rest) lo n al y \<longleftrightarrow> suits rest lo n al y" for y
      using first(2) [of y] by (auto simp: suits_Cons)
    show ?thesis
    proof (cases rest)
      case Nil
      with skip have "dmem_search ((k, a) # rest) start n al = None" by (simp add: a wrap)
      then show ?thesis by (simp add: head) (simp add: Nil not_suits_Nil)
    next
      case (Cons e ys)
      obtain k2 a2 where e: "e = (k2, a2)" by (cases e)
      let ?start = "AlignUp (pma_base a2) al"
      have a2: "pma_base a2 = k2" "0 < pma_size a2" "k2 + pma_size a2 \<le> T" "lo < k2"
        using "2.prems"(1,4,9) by (auto simp: Cons e base_is_key_def)
      with "2.prems"(5) have small: "k2 + al < U64" by simp
      have "?start + n < U64" using AlignUp_le_sum [OF small] a2 "2.prems"(5) by simp
      moreover have "lo \<le> ?start" and "k2 \<le> ?start"
        using AlignUp_ge [OF small "2.prems"(3)] a2 by auto
      moreover have "al dvd ?start" using AlignUp_dvd [OF small] a2 by simp
      moreover have "?start \<le> y" if "al dvd y" "k2 \<le> y" for y
        using AlignUp_least [OF small that] a2 by simp
      ultimately have "case dmem_search rest ?start n al of
           None \<Rightarrow> \<forall>y. \<not> suits rest lo n al y
         | Some (k, st) \<Rightarrow>
             (\<exists>a. (k, a) \<in> set rest \<and> pma_dma_type a = PFree \<and> k \<le> st \<and> st + n \<le> k + pma_size a) \<and>
             al dvd st \<and> lo \<le> st \<and> (\<forall>y. suits rest lo n al y \<longrightarrow> st \<le> y)"
        using "2.prems" skip
        by (intro "2.IH" [of e ys k2 a2]) (auto simp: a wrap Cons e)
      moreover have "dmem_search ((k, a) # rest) start n al = dmem_search rest ?start n al"
        using skip by (simp add: a wrap Cons e)
      ultimately show ?thesis by (auto simp: head split: option.splits)
    qed
  next
    case False
    have "start \<le> y" if "suits rest lo n al y" for y
    proof -
      from that obtain j b where "(j, b) \<in> set rest" "j \<le> y" "al dvd y" "lo \<le> y" by (auto simp: suits_def)
      moreover from this have "k \<le> j" using "2.prems"(1) by force
      ultimately show ?thesis using first(2) [of y] by simp
    qed
    with False first "2.prems"(7,8) show ?thesis by (auto simp: a wrap suits_Cons)
  qed
qed (simp add: not_suits_Nil)


lemma dmem_ok_keyed: "dmem_ok s \<Longrightarrow> seg_ok pma_size base_is_key (mm_dmem_map s)"
  by (simp add: dmem_ok_def phys_keyed_def)

lemma dmem_ok_inv: "dmem_ok s \<Longrightarrow> om_inv (mm_dmem_map s)"
  by (rule seg_ok_inv [OF dmem_ok_keyed])

lemma dmem_area_bound:
  assumes ok: "dmem_ok s" and k: "om_lookup (mm_dmem_map s) k = Some a"
  shows "k + pma_size a \<le> mm_total_direct_size s"
proof -
  note l = pk.lookupD [OF dmem_ok_keyed [OF ok] k]
  have "phys_at (mm_dmem_map s) (k + pma_size a - 1) \<noteq> None"
    using pk.den_holds [OF dmem_ok_keyed [OF ok] k, of "k + pma_size a - 1"] l(1)
    by (simp add: phys_at_def)
  then have "k + pma_size a - 1 < mm_total_direct_size s" using ok by (simp add: dmem_ok_def)
  with l(1) show ?thesis by simp
qed

lemma suits_below_total:
  assumes ok: "dmem_ok s" and su: "suits (mm_dmem_map s) lo n al y"
  shows "y + n \<le> mm_total_direct_size s"
proof -
  obtain j a where "(j, a) \<in> set (mm_dmem_map s)" and y: "y + n \<le> j + pma_size a" using su by (auto simp: suits_iff)
  then have "om_lookup (mm_dmem_map s) j = Some a" using om_lookup_in_set [OF dmem_ok_inv [OF ok]] by blast
  then show ?thesis using dmem_area_bound [OF ok] y by fastforce
qed

lemma dmem_find:
  assumes ok: "dmem_ok s" and T: "0 < mm_total_direct_size s"
  obtains h a where "FindDmemArea s x = Some (h, a)" and "om_lookup (mm_dmem_map s) h = Some a"
    and "h \<le> x" and "pma_base a = h"
proof -
  have "phys_at (mm_dmem_map s) 0 \<noteq> None" using ok T by (simp add: dmem_ok_def)
  then have "seg_den pma_size phys_content (mm_dmem_map s) 0 \<noteq> None" by (simp add: phys_at_def)
  then obtain j b where "om_lookup (mm_dmem_map s) j = Some b" and "j \<le> 0"
    by (rule pk.den_floor [OF dmem_ok_keyed [OF ok]]) (rule that)
  then have "om_floor (mm_dmem_map s) x \<noteq> None"
    unfolding om.floor_None [OF dmem_ok_inv [OF ok]] by (metis le_zero_eq option.distinct(1) zero_le)
  then obtain h a where f: "om_floor (mm_dmem_map s) x = Some (h, a)" by auto
  note l = om.floor_lookup [OF dmem_ok_inv [OF ok] f]
  with that f pk.lookupD(3) [OF dmem_ok_keyed [OF ok] l(1)] show thesis
    by (simp add: FindDmemArea_def base_is_key_def)
qed

lemma dmem_search_from:
  assumes ok: "dmem_ok s" and T: "0 < mm_total_direct_size s" and n: "0 < n" and al: "0 < al"
    and b: "max lo (mm_total_direct_size s) + al + n < U64"
  obtains h a where "FindDmemArea s lo = Some (h, a)" and "pma_base a = h" and "h \<le> lo"
    and "dmem_search (om_from (mm_dmem_map s) h) (AlignUp lo al) n al = None \<Longrightarrow>
         \<forall>y. \<not> suits (mm_dmem_map s) lo n al y"
    and "\<And>k st. dmem_search (om_from (mm_dmem_map s) h) (AlignUp lo al) n al = Some (k, st) \<Longrightarrow>
         (\<exists>a. om_lookup (mm_dmem_map s) k = Some a \<and> om_floor (mm_dmem_map s) st = Some (k, a) \<and>
              pma_dma_type a = PFree \<and> k \<le> st \<and> st + n \<le> k + pma_size a) \<and>
         al dvd st \<and> lo \<le> st \<and> (\<forall>y. suits (mm_dmem_map s) lo n al y \<longrightarrow> st \<le> y)"
proof -
  let ?m = "mm_dmem_map s"
  note keyed = dmem_ok_keyed [OF ok] and inv = dmem_ok_inv [OF ok]
  obtain h a where f: "FindDmemArea s lo = Some (h, a)" and h: "om_lookup ?m h = Some a"
    and hle: "h \<le> lo" and base: "pma_base a = h"
    by (rule dmem_find [OF ok T]) (rule that)
  obtain rest where xs: "om_from ?m h = (h, a) # rest" and above: "\<And>k b. (k, b) \<in> set rest \<Longrightarrow> h < k"
    by (rule om_from_at [OF inv h]) (rule that)
  have look: "(j, c) \<in> set (om_from ?m h) \<longleftrightarrow> om_lookup ?m j = Some c \<and> h \<le> j" for j c
    by (simp add: set_om_from om_lookup_in_set [OF inv])
  have later: "lo < j" if "(j, c) \<in> set rest" for j c
  proof (rule ccontr)
    assume "\<not> lo < j"
    moreover have "om_lookup ?m j = Some c" using that look [of j c] by (simp add: xs)
    ultimately show False
      using f above [OF that] by (auto simp: FindDmemArea_def om.floor_Some [OF inv])
  qed
  have small: "lo + al < U64" using b by simp
  have "suits ?m lo n al y \<longleftrightarrow> suits (om_from ?m h) lo n al y" for y
  proof -
    have "h \<le> j" if "om_lookup ?m j = Some c" "y + n \<le> j + pma_size c" "lo \<le> y" for j c
      using pk.apart [OF keyed that(1) h] that hle n by (cases "j < h") auto
    then show ?thesis by (auto simp: suits_iff look om_lookup_in_set [OF inv, symmetric])
  qed
  moreover have "case dmem_search (om_from ?m h) (AlignUp lo al) n al of
           None \<Rightarrow> \<forall>y. \<not> suits (om_from ?m h) lo n al y
         | Some (k, st) \<Rightarrow>
             (\<exists>a. (k, a) \<in> set (om_from ?m h) \<and> pma_dma_type a = PFree \<and> k \<le> st \<and> st + n \<le> k + pma_size a) \<and>
             al dvd st \<and> lo \<le> st \<and> (\<forall>y. suits (om_from ?m h) lo n al y \<longrightarrow> st \<le> y)"
  proof (rule dmem_search_least [where T = "mm_total_direct_size s"])
    show "seg_ok pma_size base_is_key (om_from ?m h)" by (rule seg_ok_from [OF keyed])
    show "\<forall>(k, a) \<in> set (om_from ?m h). k + pma_size a \<le> mm_total_direct_size s"
      using dmem_area_bound [OF ok] look by auto
    show "AlignUp lo al + n < U64" using AlignUp_le_sum [OF small] b by simp
    show "\<And>k a ys. om_from ?m h = (k, a) # ys \<Longrightarrow>
       k \<le> AlignUp lo al \<and> (\<forall>y. al dvd y \<and> lo \<le> y \<and> k \<le> y \<longrightarrow> AlignUp lo al \<le> y)"
      using AlignUp_ge [OF small al] AlignUp_least [OF small] hle by (auto simp: xs)
  qed (use AlignUp_ge [OF small al] AlignUp_dvd [OF small] later n al b in \<open>auto simp: xs\<close>)
  moreover have "om_floor ?m st = Some (k, c)"
    if "om_lookup ?m k = Some c" "k \<le> st" "st + n \<le> k + pma_size c" for k c st
    using that n by (intro pk.floor_holds [OF keyed]) auto
  ultimately show thesis
    by (intro that [OF f base hle]) (auto simp: look split: option.splits)
qed


subsection \<open>Allocation\<close>

lemma dmem_ok_cong:
  "mm_dmem_map s' = mm_dmem_map s \<Longrightarrow> mm_total_direct_size s' = mm_total_direct_size s \<Longrightarrow>
   dmem_ok s' = dmem_ok s"
  by (simp add: dmem_ok_def)

lemma dmem_ok_update:
  assumes "dmem_ok s" and "phys_keyed m" and "x + n \<le> mm_total_direct_size s"
    and "\<And>y. phys_at m y = (if x \<le> y \<and> y < x + n then Some (c y) else phys_at (mm_dmem_map s) y)"
  shows "dmem_ok (s\<lparr>mm_dmem_map := m\<rparr>)"
  using assms by (auto simp: dmem_ok_def simp del: not_None_eq)

text \<open>Ranges outside the changed one that lay in one area still do.\<close>

definition keeps_fits :: "PhysMap \<Rightarrow> PhysMap \<Rightarrow> PAddr \<Rightarrow> nat \<Rightarrow> bool" where
  "keeps_fits m m' x n \<longleftrightarrow>
     (\<forall>y l. 0 < l \<longrightarrow> seg_fits pma_size m y l \<longrightarrow> y + l \<le> x \<or> x + n \<le> y \<longrightarrow> seg_fits pma_size m' y l)"

text \<open>What \<^verbatim>\<open>Allocate\<close> and \<^verbatim>\<open>PoolExpand\<close> have in common: search, carve, give a new usage.\<close>

lemma dmem_take_cases:
  assumes ok: "dmem_ok s" and T: "0 < mm_total_direct_size s" and n: "0 < sz" and al: "0 < al"
    and b: "max lo (mm_total_direct_size s) + al + sz < U64" and rt: "retag f (\<lambda>_. mt) d"
  obtains
    (none) h a where "FindDmemArea s lo = Some (h, a)" and "pma_base a \<le> lo"
      and "\<And>y. \<not> suits (mm_dmem_map s) lo sz al y"
      and "dmem_search (om_from (mm_dmem_map s) h) (AlignUp lo al) sz al = None"
  | (found) h a k st m1 where "FindDmemArea s lo = Some (h, a)" and "pma_base a \<le> lo"
      and "dmem_search (om_from (mm_dmem_map s) h) (AlignUp lo al) sz al = Some (k, st)"
      and "suits (mm_dmem_map s) lo sz al st" and "\<And>y. suits (mm_dmem_map s) lo sz al y \<Longrightarrow> st \<le> y"
      and "carve_assign CarvePhysArea f (mm_dmem_map s) st sz = Some (st, m1)"
      and "om_lookup m1 k \<noteq> None" and "dmem_ok (s\<lparr>mm_dmem_map := m1\<rparr>)"
      and "\<And>x. phys_at m1 x = (if st \<le> x \<and> x < st + sz then Some (x, mt, d) else phys_at (mm_dmem_map s) x)"
      and "keeps_fits (mm_dmem_map s) m1 st sz"
proof -
  let ?m = "mm_dmem_map s"
  obtain h a where f: "FindDmemArea s lo = Some (h, a)" and base: "pma_base a = h"
    and hle: "h \<le> lo"
    and none': "dmem_search (om_from ?m h) (AlignUp lo al) sz al = None \<Longrightarrow>
         \<forall>y. \<not> suits ?m lo sz al y"
    and found': "\<And>k st. dmem_search (om_from ?m h) (AlignUp lo al) sz al = Some (k, st) \<Longrightarrow>
         (\<exists>a. om_lookup ?m k = Some a \<and> om_floor ?m st = Some (k, a) \<and>
              pma_dma_type a = PFree \<and> k \<le> st \<and> st + sz \<le> k + pma_size a) \<and>
         al dvd st \<and> lo \<le> st \<and> (\<forall>y. suits ?m lo sz al y \<longrightarrow> st \<le> y)"
    by (rule dmem_search_from [OF ok T n al b]) (rule that)
  show thesis
  proof (cases "dmem_search (om_from ?m h) (AlignUp lo al) sz al")
    case None
    with none' f base hle show thesis by (intro none) auto
  next
    case (Some e)
    obtain k st where e: "e = (k, st)" by (cases e)
    from found' [OF Some [unfolded e]] obtain c where c: "om_lookup ?m k = Some c"
      "om_floor ?m st = Some (k, c)" "pma_dma_type c = PFree" "k \<le> st" "st + sz \<le> k + pma_size c"
      and st: "al dvd st" "lo \<le> st" "\<And>y. suits ?m lo sz al y \<Longrightarrow> st \<le> y" by blast
    have km: "phys_keyed ?m" using ok by (simp add: dmem_ok_def)
    obtain m1 where ca: "carve_assign CarvePhysArea f ?m st sz = Some (st, m1)" and k1: "phys_keyed m1"
      and d1: "\<And>y. phys_at m1 y = (if st \<le> y \<and> y < st + sz then Some (y, mt, d) else phys_at ?m y)"
      and h1: "om_lookup m1 k \<noteq> None"
      and f1: "\<And>y l. 0 < l \<Longrightarrow> seg_fits pma_size ?m y l \<Longrightarrow> y + l \<le> st \<or> st + sz \<le> y \<Longrightarrow> seg_fits pma_size m1 y l"
      by (rule phys_carve_assign [OF km c(2) n c(5) rt]) (rule that)
    have "suits ?m lo sz al st"
      using c st(1,2) by (auto simp: suits_iff om_lookup_in_set [OF dmem_ok_inv [OF ok], symmetric])
    moreover have "dmem_ok (s\<lparr>mm_dmem_map := m1\<rparr>)"
      using dmem_area_bound [OF ok c(1)] c(5) by (intro dmem_ok_update [OF ok k1, of st sz]) (auto simp: d1)
    ultimately show thesis
      using f base hle st(3) Some e by (intro found [OF _ _ _ _ _ ca h1 _ d1]) (auto simp: keeps_fits_def f1)
  qed
qed

lemma Allocate_cases:
  assumes ok: "dmem_ok s" and T: "0 < mm_total_direct_size s" and n: "0 < sz"
    and al: "al = (if alignment0 > 0 then alignment0 else 16 * KB)"
    and b: "max search_start (mm_total_direct_size s) + al + sz < U64"
  obtains
    (none) "\<And>y. \<not> suits (mm_dmem_map s) search_start sz al y"
      and "Allocate s search_start search_end sz alignment0 memory_type = Some (minus_one, s)"
  | (found) r m' where "suits (mm_dmem_map s) search_start sz al r"
      and "\<And>y. suits (mm_dmem_map s) search_start sz al y \<Longrightarrow> r \<le> y"
      and "Allocate s search_start search_end sz alignment0 memory_type = Some (r, s\<lparr>mm_dmem_map := m'\<rparr>)"
      and "dmem_ok (s\<lparr>mm_dmem_map := m'\<rparr>)"
      and "\<And>x. phys_at m' x = (if r \<le> x \<and> x < r + sz then Some (x, memory_type, PAllocated)
                               else phys_at (mm_dmem_map s) x)"
      and "keeps_fits (mm_dmem_map s) m' r sz"
proof -
  let ?f = "\<lambda>a. a\<lparr>pma_memory_type := memory_type, pma_dma_type := PAllocated\<rparr>"
  have rt: "retag ?f (\<lambda>_. memory_type) PAllocated" by (simp add: retag_def)
  have alp: "0 < al" using al by simp
  show thesis
  proof (rule dmem_take_cases [OF ok T n alp b rt], goal_cases)
    case (1 h a)
    then show thesis by (intro none) (simp_all add: Allocate_def max_absorb1 al [symmetric])
  next
    case (2 h a k st m1)
    have k1: "phys_keyed m1" using 2(8) by (simp add: dmem_ok_def)
    obtain h2 m2 where mg: "phys_MergeAdjacent m1 k = Some (h2, m2)" and k2: "phys_keyed m2"
      and d2: "phys_at m2 = phys_at m1"
      and f2: "\<And>y l. 0 < l \<Longrightarrow> seg_fits pma_size m1 y l \<Longrightarrow> seg_fits pma_size m2 y l"
      by (rule phys_merge [OF k1 2(7)]) (rule that)
    have "Allocate s search_start search_end sz alignment0 memory_type = Some (st, s\<lparr>mm_dmem_map := m2\<rparr>)"
      using 2 by (simp add: Allocate_def max_absorb1 al [symmetric] mg)
    moreover have "dmem_ok (s\<lparr>mm_dmem_map := m2\<rparr>)"
      using 2(8) k2 by (simp add: dmem_ok_def d2)
    moreover have "keeps_fits (mm_dmem_map s) m2 st sz" using 2(10) f2 by (auto simp: keeps_fits_def)
    ultimately show thesis using 2 by (intro found) (auto simp: d2)
  qed
qed

text \<open>The parameter \<^verbatim>\<open>search_end\<close> is never read.\<close>

lemma Allocate_ignores_search_end:
  "Allocate s search_start search_end sz alignment0 memory_type = Allocate s search_start search_end' sz alignment0 memory_type"
  "PoolExpand s search_start search_end sz alignment0 = PoolExpand s search_start search_end' sz alignment0"
  by (simp_all add: Allocate_def PoolExpand_def)

lemma PoolExpand_cases:
  assumes ok: "dmem_ok s" and T: "0 < mm_total_direct_size s" and n: "0 < sz"
    and al: "al = (if alignment0 > 0 then alignment0 else 64 * KB)"
    and b: "max search_start (mm_total_direct_size s) + al + sz < U64"
  obtains
    (none) "\<And>y. \<not> suits (mm_dmem_map s) search_start sz al y"
      and "PoolExpand s search_start search_end sz alignment0 = Some (minus_one, s)"
  | (found) r m' where "suits (mm_dmem_map s) search_start sz al r"
      and "\<And>y. suits (mm_dmem_map s) search_start sz al y \<Longrightarrow> r \<le> y"
      and "PoolExpand s search_start search_end sz alignment0 =
             Some (r, s\<lparr>mm_dmem_map := m', mm_pool_budget := uadd (mm_pool_budget s) sz\<rparr>)"
      and "dmem_ok (s\<lparr>mm_dmem_map := m'\<rparr>)"
      and "\<And>x. phys_at m' x = (if r \<le> x \<and> x < r + sz then Some (x, 3, PPooled)
                               else phys_at (mm_dmem_map s) x)"
      and "keeps_fits (mm_dmem_map s) m' r sz"
proof -
  let ?f = "\<lambda>a. a\<lparr>pma_dma_type := PPooled, pma_memory_type := 3\<rparr>"
  have rt: "retag ?f (\<lambda>_. 3) PPooled" by (simp add: retag_def)
  have alp: "0 < al" using al by simp
  have start: "(if search_start > p then AlignUp search_start al else AlignUp p al) = AlignUp search_start al"
    if "p \<le> search_start" for p
    using that by auto
  show thesis
    by (rule dmem_take_cases [OF ok T n alp b rt])
      (simp_all add: PoolExpand_def start al [symmetric] none found)
qed

subsection \<open>Queries\<close>

text \<open>The area of a used address, and the run of mapped areas of one type that follows it.\<close>

lemma GetDirectMemoryType_correct:
  assumes ok: "dmem_ok s"
  shows "GetDirectMemoryType s addr =
    (case phys_at (mm_dmem_map s) addr of
       None \<Rightarrow> Some (Inl ORBIS_KERNEL_ERROR_ENOENT)
     | Some (_, t, d) \<Rightarrow>
         if d = PFree then Some (Inl ORBIS_KERNEL_ERROR_ENOENT)
         else (case om_floor (mm_dmem_map s) addr of
                 Some (k, a) \<Rightarrow> Some (Inr (t, k, k + pma_size a)) | None \<Rightarrow> None))"
proof (cases "addr < mm_total_direct_size s")
  case True
  then have "seg_den pma_size phys_content (mm_dmem_map s) addr \<noteq> None"
    using ok by (simp add: dmem_ok_def phys_at_def)
  then obtain k a where f: "om_floor (mm_dmem_map s) addr = Some (k, a)"
    and l: "om_lookup (mm_dmem_map s) k = Some a" "addr < k + pma_size a"
    by (rule pk.den_floor [OF dmem_ok_keyed [OF ok]]) (rule that)
  note b = pk.lookupD [OF dmem_ok_keyed [OF ok] l(1)]
  have "phys_at (mm_dmem_map s) addr = Some (addr, pma_memory_type a, pma_dma_type a)"
    using ok f l by (intro phys_floor_at) (auto simp: dmem_ok_def)
  with True f b show ?thesis
    by (simp add: GetDirectMemoryType_def FindDmemArea_def GetEnd_def base_is_key_def u64_exact)
next
  case False
  then have "phys_at (mm_dmem_map s) addr = None"
    using ok by (meson dmem_ok_def)
  with False show ?thesis by (simp add: GetDirectMemoryType_def)
qed

end
