(* ===== verification/Orbit_Invariant.thy ===== *)
theory Orbit_Invariant
  imports Orbit_DirectMemory
begin

text \<open>
  The invariant of the memory manager.  Beside the well-formedness of the three maps it says how
  they agree: the copy of a physical area that a virtual area holds matches the physical map
  (\<open>backing_agrees\<close>), no two virtual addresses show the same physical byte (\<open>no_alias\<close>), and
  every physical area of a virtual area lies inside one area of the physical map
  (\<open>pieces_fit\<close>), which is what \<^verbatim>\<open>CarvePhysArea\<close> asserts when memory is released.
\<close>

subsection \<open>Definitions\<close>

definition kind_map :: "mm \<Rightarrow> VMAType \<Rightarrow> PhysMap" where
  "kind_map s ty = (if ty = VFlexible then mm_fmem_map s else mm_dmem_map s)"

definition usage_of :: "VMAType \<Rightarrow> PhysicalMemoryType" where
  "usage_of ty = (if ty = VFlexible then PFlexible else if ty = VPooled then PCommitted else PMapped)"

definition backing_agrees :: "mm \<Rightarrow> bool" where
  "backing_agrees s \<longleftrightarrow>
     (\<forall>x i p t d. vma_at (mm_vma_map s) x = Some i \<longrightarrow> pg_phys i = Some (p, t, d) \<longrightarrow>
        phys_at (kind_map s (pg_type i)) p = Some (p, t, d) \<and> d = usage_of (pg_type i))"

definition no_alias :: "mm \<Rightarrow> bool" where
  "no_alias s \<longleftrightarrow>
     (\<forall>x y i j p t d t' d'. vma_at (mm_vma_map s) x = Some i \<longrightarrow> vma_at (mm_vma_map s) y = Some j \<longrightarrow>
        pg_phys i = Some (p, t, d) \<longrightarrow> pg_phys j = Some (p, t', d') \<longrightarrow>
        (pg_type i = VFlexible \<longleftrightarrow> pg_type j = VFlexible) \<longrightarrow> x = y)"

definition area_fits :: "(VMAType \<Rightarrow> PhysMap) \<Rightarrow> VirtualMemoryArea \<Rightarrow> bool" where
  "area_fits M v \<longleftrightarrow>
     (\<forall>(off, r) \<in> set (vma_phys_areas v). seg_fits pma_size (M (vma_type v)) (pma_base r) (pma_size r))"

definition pieces_fit :: "mm \<Rightarrow> bool" where
  "pieces_fit s \<longleftrightarrow> (\<forall>(k, v) \<in> set (mm_vma_map s). area_fits (kind_map s) v)"

definition mm_ok :: "mm \<Rightarrow> bool" where
  "mm_ok s \<longleftrightarrow> vma_map_ok (mm_vma_map s) \<and> dmem_ok s \<and> phys_keyed (mm_fmem_map s) \<and>
     backing_agrees s \<and> no_alias s \<and> pieces_fit s \<and> mm_flexible_usage s < U64"

subsection \<open>Physical maps in which a set of bytes got a new usage\<close>

definition retagged ::
  "PhysMap \<Rightarrow> PhysMap \<Rightarrow> PAddr set \<Rightarrow> (s32 \<Rightarrow> s32) \<Rightarrow> PhysicalMemoryType \<Rightarrow> bool" where
  "retagged M M' P g d \<longleftrightarrow> phys_keyed M' \<and>
     (\<forall>p. phys_at M' p =
        (if p \<in> P then map_option (\<lambda>(q, t, _). (q, g t, d)) (phys_at M p) else phys_at M p)) \<and>
     (\<forall>y l. 0 < l \<longrightarrow> seg_fits pma_size M y l \<longrightarrow> {y ..< y + l} \<inter> P = {} \<longrightarrow> seg_fits pma_size M' y l)"

lemma retagged_refl: "phys_keyed M \<Longrightarrow> retagged M M {} g d"
  by (simp add: retagged_def)

lemma seg_fits_mono:
  assumes m: "phys_keyed m" and f: "seg_fits pma_size m y l" and n: "0 < n"
    and sub: "y \<le> x" "x + n \<le> y + l"
  shows "seg_fits pma_size m x n"
proof -
  note k = phys_keyed_ok [OF m]
  have "0 < l" using n sub by simp
  with f obtain j a where "om_lookup m j = Some a" "j \<le> y" "y + l \<le> j + pma_size a"
    by (auto simp: pk.fits_iff [OF k])
  with n sub show ?thesis unfolding pk.fits_iff [OF k n] by (intro exI [of _ j] exI [of _ a]) auto
qed

lemma fits_floor:
  assumes "phys_keyed m" and "seg_fits pma_size m x n"
  obtains k a where "om_floor m x = Some (k, a)" and "x + n \<le> k + pma_size a"
  using assms by (auto simp: seg_fits_def split: option.splits)

lemma fits_uniform:
  assumes m: "phys_keyed m" and f: "om_floor m x = Some (k, a)" and "x + n \<le> k + pma_size a"
    and "x \<le> y" "y < x + n"
  shows "phys_at m y = Some (y, pma_memory_type a, pma_dma_type a)"
proof -
  note l = om.floor_lookup [OF seg_ok_inv [OF phys_keyed_ok [OF m]] f]
  from l assms show ?thesis by (intro phys_area_at [OF m l(1)]) auto
qed

lemma retagged_step:
  assumes t: "retagged M M' P g d" and k: "phys_keyed M" and fit: "seg_fits pma_size M x n"
    and n: "0 < n" and apart: "{x ..< x + n} \<inter> P = {}" and r: "retag f g d"
  obtains M'' where "phys_assign_merge f M' x n = Some M''" and "retagged M M'' (P \<union> {x ..< x + n}) g d"
proof -
  have k': "phys_keyed M'" and at: "\<And>p. phys_at M' p =
        (if p \<in> P then map_option (\<lambda>(q, t, _). (q, g t, d)) (phys_at M p) else phys_at M p)"
    and fits: "\<And>y l. 0 < l \<Longrightarrow> seg_fits pma_size M y l \<Longrightarrow> {y ..< y + l} \<inter> P = {} \<Longrightarrow> seg_fits pma_size M' y l"
    using t by (auto simp: retagged_def)
  obtain M'' where pm: "phys_assign_merge f M' x n = Some M''" and k2: "phys_keyed M''"
    and at2: "\<And>y. phys_at M'' y =
           (if x \<le> y \<and> y < x + n then map_option (\<lambda>(q, t, _). (q, g t, d)) (phys_at M' y) else phys_at M' y)"
    and fits2: "\<And>y l. 0 < l \<Longrightarrow> seg_fits pma_size M' y l \<Longrightarrow> y + l \<le> x \<or> x + n \<le> y \<Longrightarrow> seg_fits pma_size M'' y l"
    by (rule phys_assign_merge_correct [OF k' fits [OF n fit apart] n r]) (rule that)
  have "retagged M M'' (P \<union> {x ..< x + n}) g d"
    unfolding retagged_def
  proof (intro conjI allI impI)
    show "phys_keyed M''" by (rule k2)
    show "phys_at M'' p = (if p \<in> P \<union> {x ..< x + n}
        then map_option (\<lambda>(q, t, _). (q, g t, d)) (phys_at M p) else phys_at M p)" for p
      using apart by (auto simp: at2 at)
    show "seg_fits pma_size M'' y l"
      if "0 < l" "seg_fits pma_size M y l" "{y ..< y + l} \<inter> (P \<union> {x ..< x + n}) = {}" for y l
    proof (rule fits2 [OF that(1) fits [OF that(1,2)]])
      show "{y ..< y + l} \<inter> P = {}" using that(3) by blast
      show "y + l \<le> x \<or> x + n \<le> y"
      proof (rule ccontr)
        assume "\<not> (y + l \<le> x \<or> x + n \<le> y)"
        then have "max x y \<in> {y ..< y + l} \<inter> {x ..< x + n}" using that(1) n by auto
        with that(3) show False by blast
      qed
    qed
  qed
  with pm that show thesis by blast
qed

subsection \<open>The areas of the manager\<close>

lemma area_fits_alt:
  "om_inv (vma_phys_areas v) \<Longrightarrow> area_fits M v \<longleftrightarrow>
     (\<forall>off r. om_lookup (vma_phys_areas v) off = Some r \<longrightarrow>
        seg_fits pma_size (M (vma_type v)) (pma_base r) (pma_size r))"
  by (auto simp: area_fits_def om_lookup_in_set)

lemma vma_ok_areas_inv: "vma_ok k v \<Longrightarrow> om_inv (vma_phys_areas v)"
  by (auto simp: vma_ok_def phys_tiled_def phys_segs_def seg_ok_inv split: if_splits)

lemma area_fits_stable:
  assumes M: "\<And>ty. phys_keyed (M ty)"
  shows "vma_stable (area_fits M)"
  unfolding vma_stable_def
proof (intro conjI allI impI)
  fix j b off
  assume b: "vma_ok j b" "j + vma_size b < U64" "0 < off" "off < vma_size b" and fit: "area_fits M b"
  note inv = vma_ok_areas_inv [OF b(1)]
  have "area_fits M (vma_cutl b off) \<and> area_fits M (vma_cutr b off)"
  proof (cases "HasPhysicalBacking b")
    case True
    then have t: "phys_tiled (vma_phys_areas b) (vma_size b)" using b(1) by (simp add: vma_ok_def)
    then have segs: "seg_ok pma_size in_u64 (vma_phys_areas b)" by (simp add: phys_tiled_def phys_segs_def)
    have off: "off < U64" using b(2,4) by simp
    note sp = split_phys_lookups [OF segs off]
    have sub: "seg_fits pma_size (M (vma_type b)) (pma_base r') (pma_size r')"
      if "om_lookup (vma_phys_areas b) i = Some r" "pma_base r \<le> pma_base r'" "0 < pma_size r'"
        "pma_base r' + pma_size r' \<le> pma_base r + pma_size r" for i r r'
      using fit that area_fits_alt [OF inv] by (blast intro: seg_fits_mono [OF M])
    note ent = phys_tiled_lookup [OF t]
    have "seg_fits pma_size (M (vma_type b)) (pma_base r') (pma_size r')"
      if r': "om_lookup (fst (split_phys_areas off (vma_phys_areas b))) i = Some r'" for i r'
    proof -
      from r' sp obtain r where r: "om_lookup (vma_phys_areas b) i = Some r"
        and "i + pma_size r \<le> off \<and> r' = r \<or> i < off \<and> off < i + pma_size r \<and> r' = phys_cutl r (off - i)"
        by blast
      with ent(1) [OF r] show ?thesis by (intro sub [OF r]) (auto simp: phys_cutl_def)
    qed
    moreover have "seg_fits pma_size (M (vma_type b)) (pma_base r') (pma_size r')"
      if r': "om_lookup (snd (split_phys_areas off (vma_phys_areas b))) i = Some r'" for i r'
    proof -
      from r' sp consider (whole) "om_lookup (vma_phys_areas b) (off + i) = Some r'"
        | (cut) j r where "om_lookup (vma_phys_areas b) j = Some r" "j < off" "off < j + pma_size r"
            "r' = phys_cutr r (off - j)" by blast
      then show ?thesis
      proof cases
        case whole
        with ent(1) show ?thesis by (intro sub [OF whole]) auto
      next
        case (cut j r)
        note e = ent [OF cut(1)]
        from cut e have "pma_base r' = pma_base r + (off - j)" "pma_size r' = pma_size r - (off - j)"
          by (simp_all add: phys_cutr_def u64_exact)
        with cut e show ?thesis by (intro sub [OF cut(1)]) auto
      qed
    qed
    ultimately show ?thesis
      using True sp by (simp add: area_fits_alt vma_cutl_def vma_cutr_def)
  next
    case False
    then have "vma_phys_areas b = []" using b(1) by (simp add: vma_ok_def)
    with False show ?thesis by (simp add: area_fits_def vma_cutl_def vma_cutr_def)
  qed
  then show "area_fits M (vma_cutl b off)" and "area_fits M (vma_cutr b off)" by blast+
next
  fix j a b
  assume a: "vma_ok j a" and b: "vma_ok (j + vma_size a) b" and bound: "j + vma_size a + vma_size b < U64"
    and jn: "vma_joinable a b" and fits: "area_fits M a" "area_fits M b"
  have ty: "vma_type b = vma_type a" by (rule vma_joinableD(3) [OF jn])
  show "area_fits M (vma_absorb a b)"
  proof (cases "HasPhysicalBacking a")
    case True
    with b ty have t: "phys_tiled (vma_phys_areas b) (vma_size b)"
      by (simp add: vma_ok_def HasPhysicalBacking_def)
    have segs: "seg_ok pma_size in_u64 (vma_phys_areas b)"
      and small: "\<forall>(i, r) \<in> set (vma_phys_areas b). vma_size a + i < U64"
      using t phys_tiled_lookup(4) [OF t] bound om_lookup_in_set [OF vma_ok_areas_inv [OF b]]
      by (fastforce simp: phys_tiled_def phys_segs_def)+
    note look = append_phys_lookup [OF segs small]
    have inv: "om_inv (vma_phys_areas (vma_absorb a b))"
      by (simp add: vma_absorb_def append_phys_inv vma_ok_areas_inv [OF a])
    show ?thesis
      using fits ty area_fits_alt [OF vma_ok_areas_inv [OF a], of M] area_fits_alt [OF vma_ok_areas_inv [OF b], of M]
      unfolding area_fits_alt [OF inv] by (auto simp: vma_absorb_def look split: if_splits)
  next
    case False
    with a b ty have "vma_phys_areas a = []" "vma_phys_areas b = []"
      by (auto simp: vma_ok_def HasPhysicalBacking_def)
    then show ?thesis by (simp add: area_fits_def vma_absorb_def append_phys_areas_def)
  qed
qed

subsection \<open>Reading the invariant\<close>

lemma mm_okD:
  assumes "mm_ok s"
  shows "vma_map_ok (mm_vma_map s)" and "dmem_ok s" and "phys_keyed (mm_fmem_map s)"
    and "backing_agrees s" and "no_alias s" and "pieces_fit s" and "mm_flexible_usage s < U64"
  using assms by (auto simp: mm_ok_def)

lemma mm_ok_kind_keyed: "mm_ok s \<Longrightarrow> phys_keyed (kind_map s ty)"
  by (simp add: mm_ok_def kind_map_def dmem_ok_def)

lemma vma_map_inv: "vma_map_ok m \<Longrightarrow> om_inv m"
  by (simp add: vma_map_ok_def seg_ok_inv)

lemma vma_lookup_ok:
  assumes "vma_map_ok m" and "om_lookup m k = Some v"
  shows "vma_ok k v" and "0 < vma_size v" and "k + vma_size v < U64" and "vma_base v = k"
  using vm.lookupD [OF assms(1) [unfolded vma_map_ok_def] assms(2)] by (auto simp: vma_ok_def)

lemma pieces_fit_lookup:
  assumes "mm_ok s" and "om_lookup (mm_vma_map s) k = Some v"
  shows "area_fits (kind_map s) v"
  using mm_okD(6) [OF assms(1)] assms(2) om_lookup_in_set [OF vma_map_inv [OF mm_okD(1) [OF assms(1)]]]
  by (auto simp: pieces_fit_def)

lemma pieces_fitI:
  assumes "vma_map_ok (mm_vma_map s)"
    and "\<And>k v. om_lookup (mm_vma_map s) k = Some v \<Longrightarrow> area_fits (kind_map s) v"
  shows "pieces_fit s"
  using assms om_lookup_in_set [OF vma_map_inv [OF assms(1)]] by (auto simp: pieces_fit_def)

text \<open>A byte of a physical area of a virtual area is what some virtual address shows.\<close>

lemma piece_page:
  assumes m: "vma_map_ok m" and k: "om_lookup m k = Some v"
    and r: "om_lookup (vma_phys_areas v) off = Some r" and i: "i < pma_size r"
  obtains c where "vma_at m (k + off + i) = Some c" and "pg_type c = vma_type v"
    and "pg_phys c = Some (pma_base r + i, pma_memory_type r, pma_dma_type r)"
    and "off + i < vma_size v"
proof -
  note ok = vma_lookup_ok [OF m k]
  have "vma_phys_areas v \<noteq> []" using r by auto
  then have t: "phys_tiled (vma_phys_areas v) (vma_size v)" using ok(1) by (auto simp: vma_ok_def split: if_splits)
  then have segs: "seg_ok pma_size in_u64 (vma_phys_areas v)" by (simp add: phys_tiled_def phys_segs_def)
  have inside: "off + i < vma_size v" using phys_tiled_lookup(4) [OF t r] i by simp
  have "phys_at (vma_phys_areas v) (off + i) = Some (phys_content r i)"
    using pt.den_holds [OF segs r, of "off + i"] i by (simp add: phys_at_def)
  moreover have "vma_at m (k + off + i) = Some (vma_content v (off + i))"
    using vm.den_holds [OF m [unfolded vma_map_ok_def] k, of "k + off + i"] inside
    by (simp add: vma_at_def add.assoc)
  ultimately show thesis using inside by (intro that) (auto simp: vma_content_def phys_content_def)
qed

text \<open>The physical bytes behind a part of a virtual area.\<close>

definition phys_bytes :: "VirtualMemoryArea \<Rightarrow> nat \<Rightarrow> nat \<Rightarrow> PAddr set" where
  "phys_bytes v start n = {p. \<exists>i < n. \<exists>t d. phys_at (vma_phys_areas v) (start + i) = Some (p, t, d)}"

text \<open>
  The bytes behind a range are shown by addresses of the range only: an address outside it shows
  other bytes.
\<close>

lemma release_untouched:
  assumes ok: "mm_ok s" and f: "om_floor (mm_vma_map s) x = Some (k, v)"
    and n: "x + n \<le> k + vma_size v" and out: "\<not> (x \<le> y \<and> y < x + n)"
    and c: "vma_at (mm_vma_map s) y = Some c" "pg_phys c = Some (p, t, d)"
      "(pg_type c = VFlexible) = (vma_type v = VFlexible)"
  shows "p \<notin> phys_bytes v (x - k) n"
proof
  note D = mm_okD [OF ok]
  note l = om.floor_lookup [OF vma_map_inv [OF D(1)] f]
  assume "p \<in> phys_bytes v (x - k) n"
  then obtain i t' d' where i: "i < n" "phys_at (vma_phys_areas v) (x - k + i) = Some (p, t', d')"
    by (auto simp: phys_bytes_def)
  have "vma_at (mm_vma_map s) (x + i) = Some (vma_content v (x + i - k))"
    using i n by (intro vma_area_content [OF D(1) f]) auto
  moreover have "pg_phys (vma_content v (x + i - k)) = Some (p, t', d')"
    "pg_type (vma_content v (x + i - k)) = vma_type v" using i l by (simp_all add: vma_content_def)
  ultimately have "y = x + i" using D(5) c by (auto simp: no_alias_def)
  with out i show False by simp
qed

text \<open>
  Releasing a range: its addresses lose their physical memory, the bytes behind them get another
  usage, and everything else stays as it was.  The invariant survives.
\<close>

lemma mm_ok_release:
  assumes ok: "mm_ok s" and f: "om_floor (mm_vma_map s) x = Some (k, v)"
    and n: "x + n \<le> k + vma_size v"
    and M': "retagged (kind_map s (vma_type v)) M' (phys_bytes v (x - k) n) g d"
    and m': "vma_map_ok (mm_vma_map s')"
    and at: "\<And>y. vma_at (mm_vma_map s') y =
        (if x \<le> y \<and> y < x + n then map_option h (vma_at (mm_vma_map s) y) else vma_at (mm_vma_map s) y)"
    and h: "\<And>c. pg_phys (h c) = None"
    and fits: "\<And>j b. om_lookup (mm_vma_map s') j = Some b \<Longrightarrow> area_fits (kind_map s) b"
    and maps: "\<And>ty. kind_map s' ty =
        (if (ty = VFlexible) = (vma_type v = VFlexible) then M' else kind_map s ty)"
    and total: "mm_total_direct_size s' = mm_total_direct_size s" and us: "mm_flexible_usage s' < U64"
  shows "mm_ok s'"
proof -
  note D = mm_okD [OF ok]
  have old: "vma_at (mm_vma_map s) y = Some c" if "vma_at (mm_vma_map s') y = Some c" "pg_phys c \<noteq> None" for y c
    using that at [of y] h by (auto split: if_splits)
  have untouched: "p \<notin> phys_bytes v (x - k) n"
    if "vma_at (mm_vma_map s') y = Some c" "pg_phys c = Some (p, t, d)"
      "(pg_type c = VFlexible) = (vma_type v = VFlexible)" for y c p t d
  proof (rule release_untouched [OF ok f n _ old that(2,3)])
    show "\<not> (x \<le> y \<and> y < x + n)" using that(1,2) at [of y] h by (auto split: if_splits)
  qed (use that in auto)
  have keyed: "phys_keyed M'" and at': "\<And>p. p \<notin> phys_bytes v (x - k) n \<Longrightarrow>
      phys_at M' p = phys_at (kind_map s (vma_type v)) p"
    and dom: "\<And>p. phys_at M' p = None \<longleftrightarrow> phys_at (kind_map s (vma_type v)) p = None"
    and fits': "\<And>y l. 0 < l \<Longrightarrow> seg_fits pma_size (kind_map s (vma_type v)) y l \<Longrightarrow>
        {y ..< y + l} \<inter> phys_bytes v (x - k) n = {} \<Longrightarrow> seg_fits pma_size M' y l"
    using M' by (auto simp: retagged_def)
  have same: "kind_map s ty = kind_map s (vma_type v)" if "(ty = VFlexible) = (vma_type v = VFlexible)" for ty
    using that by (auto simp: kind_map_def)
  have "dmem_ok s' \<and> phys_keyed (mm_fmem_map s')"
    using D(2,3) keyed dom maps [of VDirect] maps [of VFlexible] total
    by (auto simp: dmem_ok_def kind_map_def split: if_splits simp del: not_None_eq)
  moreover have "backing_agrees s'"
    unfolding backing_agrees_def
  proof (intro allI impI)
    fix y c p t d
    assume c: "vma_at (mm_vma_map s') y = Some c" "pg_phys c = Some (p, t, d)"
    then have "phys_at (kind_map s (pg_type c)) p = Some (p, t, d) \<and> d = usage_of (pg_type c)"
      using D(4) old [of y c] by (auto simp: backing_agrees_def)
    with untouched [OF c] at' [of p] same [of "pg_type c"]
    show "phys_at (kind_map s' (pg_type c)) p = Some (p, t, d) \<and> d = usage_of (pg_type c)"
      by (auto simp: maps)
  qed
  moreover have "no_alias s'"
    unfolding no_alias_def
  proof (intro allI impI)
    fix y z i j p t d t' d'
    assume i: "vma_at (mm_vma_map s') y = Some i" "pg_phys i = Some (p, t, d)"
      and j: "vma_at (mm_vma_map s') z = Some j" "pg_phys j = Some (p, t', d')"
      and "(pg_type i = VFlexible) = (pg_type j = VFlexible)"
    with D(5) [unfolded no_alias_def, rule_format, OF old old] show "y = z" by blast
  qed
  moreover have "pieces_fit s'"
  proof (rule pieces_fitI [OF m'])
    fix j b
    assume b: "om_lookup (mm_vma_map s') j = Some b"
    note inv = vma_ok_areas_inv [OF vma_lookup_ok(1) [OF m' b]]
    show "area_fits (kind_map s') b"
      unfolding area_fits_alt [OF inv]
    proof (intro allI impI)
      fix off r
      assume r: "om_lookup (vma_phys_areas b) off = Some r"
      have old_fit: "seg_fits pma_size (kind_map s (vma_type b)) (pma_base r) (pma_size r)"
        using fits [OF b] r area_fits_alt [OF inv] by blast
      have ne: "vma_phys_areas b \<noteq> []" using r by auto
      then have "0 < pma_size r"
        using vma_lookup_ok(1) [OF m' b] phys_tiled_lookup(1) [OF _ r] by (auto simp: vma_ok_def split: if_splits)
      moreover have "{pma_base r ..< pma_base r + pma_size r} \<inter> phys_bytes v (x - k) n = {}"
        if kind: "(vma_type b = VFlexible) = (vma_type v = VFlexible)"
      proof -
        have "q \<notin> phys_bytes v (x - k) n" if q: "pma_base r \<le> q" "q < pma_base r + pma_size r" for q
        proof -
          have "q - pma_base r < pma_size r" using q by simp
          then obtain c where "vma_at (mm_vma_map s') (j + off + (q - pma_base r)) = Some c"
            "pg_type c = vma_type b"
            "pg_phys c = Some (pma_base r + (q - pma_base r), pma_memory_type r, pma_dma_type r)"
            by (rule piece_page [OF m' b r])
          with q kind show ?thesis using untouched by simp
        qed
        then show ?thesis by auto
      qed
      ultimately show "seg_fits pma_size (kind_map s' (vma_type b)) (pma_base r) (pma_size r)"
        using old_fit fits' [of "pma_size r" "pma_base r"] same [of "vma_type b"] by (auto simp: maps)
    qed
  qed
  ultimately show ?thesis using m' us by (simp add: mm_ok_def)
qed

lemma mm_fits_stable: "mm_ok s \<Longrightarrow> vma_stable (area_fits (kind_map s))"
  by (rule area_fits_stable) (rule mm_ok_kind_keyed)

text \<open>The invariant speaks of the maps, the size of direct memory and the flexible usage only.\<close>

lemma mm_ok_cong:
  assumes "mm_vma_map s' = mm_vma_map s" "mm_dmem_map s' = mm_dmem_map s" "mm_fmem_map s' = mm_fmem_map s"
    "mm_total_direct_size s' = mm_total_direct_size s" "mm_flexible_usage s' = mm_flexible_usage s"
  shows "mm_ok s' = mm_ok s"
proof -
  have k: "kind_map s' = kind_map s" using assms by (auto simp: kind_map_def)
  show ?thesis
    unfolding mm_ok_def dmem_ok_def backing_agrees_def no_alias_def pieces_fit_def k assms ..
qed

end
