(* ===== verification/Orbit_Unmap.thy ===== *)
theory Orbit_Unmap
  imports Orbit_Invariant
begin

text \<open>
  Release of virtual and physical memory (\<^verbatim>\<open>src/core/memory.cpp\<close>): \<^verbatim>\<open>UnmapBytesFromEntry\<close>,
  \<^verbatim>\<open>UnmapMemoryImpl\<close>, \<^verbatim>\<open>UnmapMemory\<close>, \<^verbatim>\<open>PoolDecommit\<close> and \<^verbatim>\<open>Free\<close>.  The loops over
  changing maps may in principle not end, so they are partial functions in the option monad;
  the lemmas show that they do end and what they leave behind.
\<close>

subsection \<open>Releasing the physical memory of a part of an area\<close>

text \<open>
  The loop over the physical areas of a virtual area, from the one that holds \<open>start_in_vma\<close>,
  until \<open>size_to_free\<close> bytes are done; \<open>f\<close> is what is done with each piece.  The result has
  the number of bytes that no physical area covered.
\<close>

fun phys_loop ::
  "(PAddr \<Rightarrow> nat \<Rightarrow> mm \<Rightarrow> mm option) \<Rightarrow> nat \<Rightarrow> PhysMap \<Rightarrow> nat \<Rightarrow> mm \<Rightarrow> (nat \<times> mm) option" where
  "phys_loop f start_in_vma [] size_to_free s = Some (size_to_free, s)"
| "phys_loop f start_in_vma ((off, area) # rest) size_to_free s =
     (if size_to_free = 0 then Some (size_to_free, s)
      else let dma_offset = usub (max off start_in_vma) off;
               phys_addr = uadd (pma_base area) dma_offset;
               size_in_dma = min size_to_free (usub (pma_size area) dma_offset)
           in do { s1 \<leftarrow> f phys_addr size_in_dma s;
                   phys_loop f start_in_vma rest (usub size_to_free size_in_dma) s1 })"

definition unmap_piece :: "VMAType \<Rightarrow> PAddr \<Rightarrow> nat \<Rightarrow> mm \<Rightarrow> mm option" where
  "unmap_piece t phys_addr size_in_dma s =
     (if t = VDirect
      then do { m \<leftarrow> phys_assign_merge (\<lambda>a. a\<lparr>pma_dma_type := PAllocated\<rparr>)
                       (mm_dmem_map s) phys_addr size_in_dma;
                Some (s\<lparr>mm_dmem_map := m\<rparr>) }
      else if t = VFlexible
      then do { m \<leftarrow> phys_assign_merge (\<lambda>a. a\<lparr>pma_dma_type := PFree\<rparr>)
                       (mm_fmem_map s) phys_addr size_in_dma;
                Some (s\<lparr>mm_fmem_map := m,
                        mm_backing := backing_write (mm_backing s) phys_addr (replicate size_in_dma 0),
                        mm_flexible_usage := usub (mm_flexible_usage s) size_in_dma\<rparr>) }
      else Some s)"

definition free_vma_attrs :: "VirtualMemoryArea \<Rightarrow> VirtualMemoryArea" where
  "free_vma_attrs v = v\<lparr>vma_type := VFree, vma_prot := ProtNoAccess, vma_phys_areas := [],
     vma_disallow_merge := False, vma_name := []\<rparr>"

definition UnmapBytesFromEntry ::
  "mm \<Rightarrow> VAddr \<Rightarrow> VirtualMemoryArea \<Rightarrow> nat \<Rightarrow> (nat \<times> mm) option" where
  "UnmapBytesFromEntry s virtual_addr vma sz =
     (let start_in_vma = usub virtual_addr (vma_base vma);
          size_in_vma = min (usub (vma_size vma) start_in_vma) sz
      in if vma_type vma = VFree \<or> vma_type vma = VPooled then Some (size_in_vma, s)
         else do {
           s1 \<leftarrow> (if vma_phys_areas vma \<noteq> []
                  then do {
                    (h, _) \<leftarrow> om_floor (vma_phys_areas vma) start_in_vma;
                    (size_to_free, s') \<leftarrow> phys_loop (unmap_piece (vma_type vma)) start_in_vma
                      (om_from (vma_phys_areas vma) h) size_in_vma s;
                    if size_to_free = 0 then Some s' else None
                  }
                  else Some s);
           m \<leftarrow> vma_assign_merge free_vma_attrs (mm_vma_map s1) virtual_addr size_in_vma;
           let s2 = s1\<lparr>mm_vma_map := m\<rparr>;
           Some (size_in_vma,
             if vma_type vma \<noteq> VReserved \<and> vma_type vma \<noteq> VPoolReserved
             then host (HostUnmap virtual_addr size_in_vma) s2 else s2)
         })"

partial_function (option) UnmapMemoryImpl_from :: "mm \<Rightarrow> VAddr \<Rightarrow> nat \<Rightarrow> nat \<Rightarrow> mm option" where
  "UnmapMemoryImpl_from s virtual_addr sz unmapped_bytes =
     do {
       (_, vma) \<leftarrow> FindVMA s (uadd virtual_addr unmapped_bytes);
       (unmapped, s1) \<leftarrow> UnmapBytesFromEntry s (uadd virtual_addr unmapped_bytes) vma
                           (usub sz unmapped_bytes);
       if unmapped > 0
       then let unmapped_bytes' = uadd unmapped_bytes unmapped
            in if unmapped_bytes' < sz then UnmapMemoryImpl_from s1 virtual_addr sz unmapped_bytes'
               else Some s1
       else None
     }"

definition UnmapMemoryImpl :: "mm \<Rightarrow> VAddr \<Rightarrow> nat \<Rightarrow> (s32 \<times> mm) option" where
  "UnmapMemoryImpl s virtual_addr sz =
     do { s' \<leftarrow> UnmapMemoryImpl_from s virtual_addr sz 0; Some (ORBIS_OK, s') }"

text \<open>\<^verbatim>\<open>if (rasterizer != nullptr && IsValidGpuMapping(addr, size)) rasterizer->...\<close>\<close>

definition gpu_unmap :: "VAddr \<Rightarrow> nat \<Rightarrow> mm \<Rightarrow> mm" where
  "gpu_unmap addr sz s =
     (if mm_rasterizer s \<and> IsValidGpuMapping addr sz then host (GpuUnmap addr sz) s else s)"

definition gpu_map :: "VAddr \<Rightarrow> nat \<Rightarrow> mm \<Rightarrow> mm" where
  "gpu_map addr sz s =
     (if mm_rasterizer s \<and> IsValidGpuMapping addr sz then host (GpuMap addr sz) s else s)"

definition UnmapMemory :: "mm \<Rightarrow> VAddr \<Rightarrow> nat \<Rightarrow> (s32 \<times> mm) option" where
  "UnmapMemory s virtual_addr0 size0 =
     (if size0 = 0 then Some (ORBIS_OK, s)
      else let virtual_addr = AlignDown virtual_addr0 (16 * KB);
               sz = AlignUp size0 (16 * KB)
           in do { assert_valid s virtual_addr sz;
                   UnmapMemoryImpl (gpu_unmap virtual_addr sz s) virtual_addr sz })"

subsection \<open>Memory pools\<close>

fun decommit_check :: "VMAMap \<Rightarrow> VAddr \<Rightarrow> bool" where
  "decommit_check [] range_end \<longleftrightarrow> True"
| "decommit_check ((k, v) # rest) range_end \<longleftrightarrow>
     (if uadd (vma_base v) (vma_size v) \<le> range_end
      then if vma_type v \<noteq> VPoolReserved \<and> vma_type v \<noteq> VPooled then False
           else decommit_check rest range_end
      else True)"

definition decommit_piece :: "PAddr \<Rightarrow> nat \<Rightarrow> mm \<Rightarrow> mm option" where
  "decommit_piece phys_addr size_in_dma s =
     do { m \<leftarrow> phys_assign_merge (\<lambda>a. a\<lparr>pma_dma_type := PPooled\<rparr>)
                 (mm_dmem_map s) phys_addr size_in_dma;
          Some (s\<lparr>mm_dmem_map := m\<rparr>) }"

definition pool_reserved_attrs :: "VirtualMemoryArea \<Rightarrow> VirtualMemoryArea" where
  "pool_reserved_attrs v = v\<lparr>vma_type := VPoolReserved, vma_prot := ProtNoAccess,
     vma_disallow_merge := False, vma_name := ''anon'', vma_phys_areas := []\<rparr>"

partial_function (option) decommit_loop :: "mm \<Rightarrow> VAddr \<Rightarrow> nat \<Rightarrow> mm option" where
  "decommit_loop s current_addr remaining_size =
     (if remaining_size = 0 then Some s
      else do {
        (_, vma) \<leftarrow> FindVMA s current_addr;
        let start_in_vma = usub current_addr (vma_base vma);
        let size_in_vma = min remaining_size (usub (vma_size vma) start_in_vma);
        s1 \<leftarrow> (if vma_type vma = VPooled
               then do {
                 (h, _) \<leftarrow> om_floor (vma_phys_areas vma) start_in_vma;
                 (size_to_free, s') \<leftarrow> phys_loop decommit_piece start_in_vma
                   (om_from (vma_phys_areas vma) h) size_in_vma
                   (s\<lparr>mm_pool_budget := uadd (mm_pool_budget s) size_in_vma\<rparr>);
                 if size_to_free = 0 then Some s' else None
               }
               else Some s);
        m \<leftarrow> vma_assign_merge pool_reserved_attrs (mm_vma_map s1) current_addr size_in_vma;
        decommit_loop (s1\<lparr>mm_vma_map := m\<rparr>) (uadd current_addr size_in_vma)
          (usub remaining_size size_in_vma)
      })"

definition PoolDecommit :: "mm \<Rightarrow> VAddr \<Rightarrow> nat \<Rightarrow> (s32 \<times> mm) option" where
  "PoolDecommit s virtual_addr sz =
     do {
       assert_valid s virtual_addr sz;
       (k, _) \<leftarrow> FindVMA s virtual_addr;
       if \<not> decommit_check (om_from (mm_vma_map s) k) (uadd virtual_addr sz)
       then Some (ORBIS_KERNEL_ERROR_EINVAL, s)
       else do {
         s1 \<leftarrow> decommit_loop (gpu_unmap virtual_addr sz s) virtual_addr sz;
         Some (ORBIS_OK, host (HostUnmap virtual_addr sz) s1)
       }
     }"

subsection \<open>Releasing direct memory\<close>

text \<open>The loop that collects what to release; \<open>Inl\<close> is the error of a checked release.\<close>

fun free_list_loop :: "PhysMap \<Rightarrow> PAddr \<Rightarrow> nat \<Rightarrow> bool \<Rightarrow> s32 + (PAddr \<times> nat) list" where
  "free_list_loop [] phys_addr remaining_size is_checked = Inr []"
| "free_list_loop ((k, area) # rest) phys_addr remaining_size is_checked =
     (if remaining_size = 0 then Inr []
      else if pma_dma_type area = PFree
      then if is_checked then Inl ORBIS_KERNEL_ERROR_ENOENT
           else free_list_loop rest phys_addr remaining_size is_checked
      else let current_phys_addr = max phys_addr k;
               start_in_dma = usub current_phys_addr k;
               size_in_dma = min remaining_size (usub (pma_size area) start_in_dma)
           in case free_list_loop rest phys_addr (usub remaining_size size_in_dma) is_checked of
                Inl e \<Rightarrow> Inl e
              | Inr xs \<Rightarrow> Inr ((current_phys_addr, size_in_dma) # xs))"

text \<open>The virtual ranges of one direct mapping that show a physical range.\<close>

definition remove_list_of :: "PAddr \<Rightarrow> nat \<Rightarrow> VirtualMemoryArea \<Rightarrow> (VAddr \<times> nat) list" where
  "remove_list_of phys_addr sz mapping =
     (if vma_type mapping \<noteq> VDirect then []
      else map (\<lambda>(offset_in_vma, pm).
              let phys_offset = usub (max (pma_base pm) phys_addr) (pma_base pm);
                  addr_in_vma = uadd (uadd (vma_base mapping) offset_in_vma) phys_offset
              in (addr_in_vma, min (usub (pma_size pm) phys_offset) sz))
            (filter (\<lambda>(_, pm). uadd phys_addr sz > pma_base pm \<and>
                               phys_addr < uadd (pma_base pm) (pma_size pm))
              (vma_phys_areas mapping)))"

fun unmap_all :: "(VAddr \<times> nat) list \<Rightarrow> mm \<Rightarrow> mm option" where
  "unmap_all [] s = Some s"
| "unmap_all ((addr, sz) # rest) s = do { (_, s1) \<leftarrow> UnmapMemoryImpl s addr sz; unmap_all rest s1 }"

fun release_all :: "(PAddr \<times> nat) list \<Rightarrow> PhysMap \<Rightarrow> PhysMap option" where
  "release_all [] m = Some m"
| "release_all ((phys_addr, sz) # rest) m =
     do { m1 \<leftarrow> phys_assign_merge (\<lambda>a. a\<lparr>pma_dma_type := PFree, pma_memory_type := 0\<rparr>) m phys_addr sz;
          release_all rest m1 }"

definition Free :: "mm \<Rightarrow> PAddr \<Rightarrow> nat \<Rightarrow> bool \<Rightarrow> (s32 \<times> mm) option" where
  "Free s phys_addr sz is_checked =
     (if phys_addr > mm_total_direct_size s \<or>
         (is_checked \<and> uadd phys_addr sz > mm_total_direct_size s)
      then Some (if is_checked then ORBIS_KERNEL_ERROR_ENOENT else ORBIS_OK, s)
      else do {
        (h, _) \<leftarrow> FindDmemArea s phys_addr;
        (case free_list_loop (om_from (mm_dmem_map s) h) phys_addr sz is_checked of
           Inl e \<Rightarrow> Some (e, s)
         | Inr free_list \<Rightarrow>
             let remove_list = concat (map (\<lambda>(_, v). remove_list_of phys_addr sz v) (mm_vma_map s));
                 s1 = fold (\<lambda>(addr, unmap_size). gpu_unmap addr unmap_size) remove_list s
             in do {
               s2 \<leftarrow> unmap_all remove_list s1;
               m \<leftarrow> release_all free_list (mm_dmem_map s2);
               Some (ORBIS_OK, s2\<lparr>mm_dmem_map := m\<rparr>)
             })
      })"

subsection \<open>The loop over physical areas\<close>

text \<open>
  The loop over physical areas visits the bytes of the range in order, in pieces each of which
  lies in one physical area: an invariant of single pieces is an invariant of the loop.
\<close>

lemma phys_loop_pieces:
  assumes "phys_chain off0 xs N" and "N < U64" and "set xs \<subseteq> set areas"
    and "off0 \<le> start + j" and "start \<le> off0 \<and> off0 = start + j \<or> j = 0 \<and> off0 \<le> start"
    and "xs \<noteq> [] \<Longrightarrow> start + j < off0 + pma_size (snd (hd xs))"
    and "j \<le> n" and "start + n \<le> N" and "Q j s"
    and step: "\<And>i l off r p s. Q i s \<Longrightarrow> 0 < l \<Longrightarrow> i + l \<le> n \<Longrightarrow> (off, r) \<in> set areas \<Longrightarrow>
        off \<le> start + i \<Longrightarrow> start + i + l \<le> off + pma_size r \<Longrightarrow>
        p = pma_base r + (start + i - off) \<Longrightarrow> \<exists>s'. f p l s = Some s' \<and> Q (i + l) s'"
  shows "\<exists>s'. phys_loop f start xs (n - j) s = Some (0, s') \<and> Q n s'"
  using assms(1-9)
proof (induction xs arbitrary: off0 j s)
  case Nil
  then have "n = j" by auto
  with Nil.prems show ?case by simp
next
  case (Cons e xs)
  obtain k r where e: "e = (k, r)" by (cases e)
  have r: "k = off0" "0 < pma_size r" "pma_base r + pma_size r < U64" "phys_chain (off0 + pma_size r) xs N"
    using Cons.prems(1) by (auto simp: e)
  have pos: "start + j < off0 + pma_size r" using Cons.prems(6) by (simp add: e)
  have bound: "off0 + pma_size r \<le> N" by (rule phys_chain_le [OF r(4)])
  show ?case
  proof (cases "n = j")
    case True
    with Cons.prems show ?thesis by (simp add: e)
  next
    case False
    with Cons.prems(7) have nj: "j < n" by simp
    let ?l = "min (n - j) (off0 + pma_size r - (start + j))"
    have mx: "max k start = start + j" using Cons.prems(4,5) r(1) by auto
    have d: "usub (max k start) k = start + j - off0"
      using mx r(1) Cons.prems(2,4) pos bound by (simp add: u64_exact)
    have p: "uadd (pma_base r) (start + j - off0) = pma_base r + (start + j - off0)"
      using r(3) pos by (intro uadd_exact) linarith
    have sz: "usub (pma_size r) (start + j - off0) = off0 + pma_size r - (start + j)"
      using r(3) pos Cons.prems(4) by (subst usub_exact) auto
    have rem: "usub (n - j) ?l = n - (j + ?l)"
      using Cons.prems(2,8) by (subst usub_exact) auto
    have lb: "0 < ?l" "j + ?l \<le> n" "start + j + ?l \<le> off0 + pma_size r" using nj pos by auto
    have "(off0, r) \<in> set areas" using Cons.prems(3) r(1) by (simp add: e)
    from step [OF Cons.prems(9) lb(1,2) this Cons.prems(4) lb(3) refl]
    obtain s1 where s1: "f (pma_base r + (start + j - off0)) ?l s = Some s1" and q1: "Q (j + ?l) s1"
      by blast
    have run: "phys_loop f start (e # xs) (n - j) s = phys_loop f start xs (n - (j + ?l)) s1"
      using nj s1 rem by (simp add: e d p sz Let_def)
    show ?thesis
    proof (cases "n - j \<le> off0 + pma_size r - (start + j)")
      case True
      then have "n = j + ?l" by (simp add: nj less_imp_le)
      then have "n - (j + ?l) = 0" and "Q n s1" using q1 by simp_all
      then show ?thesis unfolding run by (cases xs) auto
    next
      case False
      then have l: "?l = off0 + pma_size r - (start + j)" by simp
      then have next_pos: "start + (j + ?l) = off0 + pma_size r" using pos by simp
      have "phys_chain (off0 + pma_size r) xs N" by (rule r(4))
      moreover have "start + (j + ?l) < off0 + pma_size r + pma_size (snd (hd xs))" if "xs \<noteq> []"
        using next_pos that r(4) by (cases xs) auto
      moreover have "start \<le> off0 + pma_size r" using pos by simp
      moreover have "j + ?l \<le> n" using nj by simp
      ultimately show ?thesis
        unfolding run using next_pos q1 Cons.prems(2,3,8)
        by (intro Cons.IH [of "off0 + pma_size r" "j + ?l" s1]) auto
    qed
  qed
qed

lemma phys_loop_tiled:
  assumes t: "phys_tiled areas N" and N: "N < U64" and n: "0 < n" "start + n \<le> N" and q: "Q 0 s"
    and step: "\<And>i l off r p s. Q i s \<Longrightarrow> 0 < l \<Longrightarrow> i + l \<le> n \<Longrightarrow> om_lookup areas off = Some r \<Longrightarrow>
        off \<le> start + i \<Longrightarrow> start + i + l \<le> off + pma_size r \<Longrightarrow>
        p = pma_base r + (start + i - off) \<Longrightarrow> \<exists>s'. f p l s = Some s' \<and> Q (i + l) s'"
  obtains h r s' where "om_floor areas start = Some (h, r)"
    and "phys_loop f start (om_from areas h) n s = Some (0, s')" and "Q n s'"
proof -
  have segs: "seg_ok pma_size in_u64 areas" using t by (simp add: phys_tiled_def phys_segs_def)
  have chain: "phys_chain 0 areas N" using t N by (simp add: phys_tiled_chain)
  have "phys_at areas start \<noteq> None" using t n by (simp add: phys_tiled_def)
  then obtain h r where f: "om_floor areas start = Some (h, r)" and below: "start < h + pma_size r"
    by (auto simp: phys_at_def seg_den_def split: option.splits if_splits)
  note l = om.floor_lookup [OF seg_ok_inv [OF segs] f]
  obtain rest where from_h: "om_from areas h = (h, r) # rest"
    by (rule om_from_at [OF seg_ok_inv [OF segs] l(1)]) (rule that)
  have "\<exists>s'. phys_loop f start (om_from areas h) (n - 0) s = Some (0, s') \<and> Q n s'"
  proof (rule phys_loop_pieces [where N = N and areas = areas and ?off0.0 = h])
    show "phys_chain h (om_from areas h) N" by (rule phys_chain_from [OF chain l(1)])
    show "set (om_from areas h) \<subseteq> set areas" by (auto simp: om_from_def)
  qed (use l below n q N in \<open>auto simp: from_h om_lookup_in_set [OF seg_ok_inv [OF segs], symmetric] intro!: step\<close>)
  with f that show thesis by auto
qed

text \<open>
  The loop with an operation that gives each piece a new usage in the physical map of the area:
  it succeeds on a well-formed state, and all the bytes behind the range have the new usage.
  \<open>frame\<close> describes what else the operation does.
\<close>

lemma phys_loop_retag:
  assumes ok: "mm_ok s" and k: "om_lookup (mm_vma_map s) k = Some v" and bk: "HasPhysicalBacking v"
    and n: "0 < n" "start + n \<le> vma_size v" and fr0: "frame 0 s0"
    and s0: "kind_map s0 (vma_type v) = kind_map s (vma_type v)"
    and r: "retag F g d"
    and op: "\<And>i p l s' M. frame i s' \<Longrightarrow> i + l \<le> n \<Longrightarrow> 0 < l \<Longrightarrow>
        {q. \<exists>j < i + l. \<exists>t d. phys_at (vma_phys_areas v) (start + j) = Some (q, t, d)} =
        {q. \<exists>j < i. \<exists>t d. phys_at (vma_phys_areas v) (start + j) = Some (q, t, d)} \<union> {p ..< p + l} \<Longrightarrow>
        phys_assign_merge F (kind_map s' (vma_type v)) p l = Some M \<Longrightarrow>
        \<exists>s''. f p l s' = Some s'' \<and> kind_map s'' (vma_type v) = M \<and> frame (i + l) s''"
  obtains h a s' where "om_floor (vma_phys_areas v) start = Some (h, a)"
    and "phys_loop f start (om_from (vma_phys_areas v) h) n s0 = Some (0, s')" and "frame n s'"
    and "retagged (kind_map s (vma_type v)) (kind_map s' (vma_type v)) (phys_bytes v start n) g d"
proof -
  note D = mm_okD [OF ok]
  note vok = vma_lookup_ok [OF D(1) k]
  let ?A = "vma_phys_areas v" and ?K = "kind_map s (vma_type v)"
  have t: "phys_tiled ?A (vma_size v)" using vok(1) bk by (simp add: vma_ok_def)
  have N: "vma_size v < U64" using vok(3) by simp
  have keyed: "phys_keyed ?K" by (rule mm_ok_kind_keyed [OF ok])
  have fit: "area_fits (kind_map s) v" by (rule pieces_fit_lookup [OF ok k])
  have inv: "om_inv ?A" by (rule vma_ok_areas_inv [OF vok(1)])
  have segs: "seg_ok pma_size in_u64 ?A" using t by (simp add: phys_tiled_def phys_segs_def)
  have inj: "i = j" if "phys_at ?A i = Some (p, t, d)" "phys_at ?A j = Some (p, t', d')" for i j p t d t' d'
  proof -
    have "i < vma_size v" "j < vma_size v" using t that by (auto simp: phys_tiled_def)
    then have "vma_at (mm_vma_map s) (k + i) = Some (vma_content v i)"
      "vma_at (mm_vma_map s) (k + j) = Some (vma_content v j)"
      using vm.den_holds [OF D(1) [unfolded vma_map_ok_def] k] by (simp_all add: vma_at_def)
    with that D(5) have "k + i = k + j" by (fastforce simp: no_alias_def vma_content_def)
    then show ?thesis by simp
  qed
  obtain h a s' where "om_floor ?A start = Some (h, a)"
    and "phys_loop f start (om_from ?A h) n s0 = Some (0, s')"
    and "frame n s' \<and> retagged ?K (kind_map s' (vma_type v)) (phys_bytes v start n) g d"
  proof (rule phys_loop_tiled [OF t N n, where f = f and s = s0 and Q = "\<lambda>i s'. frame i s' \<and>
        retagged ?K (kind_map s' (vma_type v)) (phys_bytes v start i) g d"], goal_cases)
    case 1
    show ?case using fr0 retagged_refl [OF keyed] s0 by (simp add: phys_bytes_def)
  next
    case (2 i l off r p s')
    have at: "phys_at ?A (start + i + j) = Some (p + j, pma_memory_type r, pma_dma_type r)" if "j < l" for j
    proof -
      have "phys_at ?A (start + i + j) = Some (phys_content r (start + i + j - off))"
        using 2 that unfolding phys_at_def by (intro pt.den_holds [OF segs 2(5)]) auto
      with 2(6,8) show ?thesis by (simp add: phys_content_def)
    qed
    have grow: "phys_bytes v start (i + l) = phys_bytes v start i \<union> {p ..< p + l}"
    proof (intro set_eqI iffI)
      fix q assume "q \<in> phys_bytes v start (i + l)"
      then obtain j t d where j: "j < i + l" "phys_at ?A (start + j) = Some (q, t, d)" by (auto simp: phys_bytes_def)
      show "q \<in> phys_bytes v start i \<union> {p ..< p + l}"
        using j at [of "j - i"] by (cases "j < i") (auto simp: phys_bytes_def)
    next
      fix q assume "q \<in> phys_bytes v start i \<union> {p ..< p + l}"
      then show "q \<in> phys_bytes v start (i + l)"
      proof
        assume "q \<in> {p ..< p + l}"
        then have "i + (q - p) < i + l" "phys_at ?A (start + (i + (q - p))) =
            Some (q, pma_memory_type r, pma_dma_type r)"
          using at [of "q - p"] by (auto simp: add.assoc)
        then show ?thesis unfolding phys_bytes_def by blast
      qed (auto simp: phys_bytes_def intro: trans_less_add1)
    qed
    have new: "{p ..< p + l} \<inter> phys_bytes v start i = {}"
    proof (rule ccontr)
      assume "{p ..< p + l} \<inter> phys_bytes v start i \<noteq> {}"
      then obtain q j t d where q: "p \<le> q" "q < p + l" "j < i" "phys_at ?A (start + j) = Some (q, t, d)"
        by (auto simp: phys_bytes_def)
      from inj [OF q(4), of "start + i + (q - p)"] at [of "q - p"] q show False by simp
    qed
    have rfit: "seg_fits pma_size ?K (pma_base r) (pma_size r)"
      using fit 2(5) area_fits_alt [OF inv] by blast
    have "seg_fits pma_size ?K p l"
      using 2 by (intro seg_fits_mono [OF keyed rfit 2(3)]) auto
    from retagged_step [OF conjunct2 [OF 2(2)] keyed this 2(3) new \<open>retag F g d\<close>]
    obtain M where M: "phys_assign_merge F (kind_map s' (vma_type v)) p l = Some M"
      "retagged ?K M (phys_bytes v start i \<union> {p ..< p + l}) g d" by blast
    from op [OF conjunct1 [OF 2(2)] 2(4,3) grow [unfolded phys_bytes_def] M(1)] M(2) grow show ?case by auto
  qed (rule that)
  then show thesis by (blast intro: that)
qed

subsection \<open>What unmapping promises\<close>

definition free_page :: page_info where
  "free_page = \<lparr>pg_type = VFree, pg_prot = ProtNoAccess, pg_name = [], pg_disallow_merge = False,
     pg_phys = None\<rparr>"

text \<open>An unmapped page is free; free pages stay, and pooled pages are left alone.\<close>

definition unmap_page :: "page_info \<Rightarrow> page_info" where
  "unmap_page c = (if pg_type c = VFree \<or> pg_type c = VPooled then c else free_page)"

text \<open>The physical bytes that the pages of one type in a range show, and their number.\<close>

definition shown :: "mm \<Rightarrow> VAddr \<Rightarrow> nat \<Rightarrow> VMAType \<Rightarrow> PAddr set" where
  "shown s x n ty = {p. \<exists>y c t d. x \<le> y \<and> y < x + n \<and> vma_at (mm_vma_map s) y = Some c \<and>
     pg_type c = ty \<and> pg_phys c = Some (p, t, d)}"

definition page_count :: "mm \<Rightarrow> VAddr \<Rightarrow> nat \<Rightarrow> VMAType \<Rightarrow> nat" where
  "page_count s x n ty =
     card {y \<in> {x ..< x + n}. \<exists>c. vma_at (mm_vma_map s) y = Some c \<and> pg_type c = ty}"

text \<open>
  \<open>unmapped s x n s'\<close>: in \<open>s'\<close> the range of \<open>n\<close> bytes at \<open>x\<close> is unmapped and nothing else has
  changed.  The direct memory behind it is allocated but not mapped, the flexible memory behind
  it is free, zeroed, and no longer counted.
\<close>

definition unmapped :: "mm \<Rightarrow> VAddr \<Rightarrow> nat \<Rightarrow> mm \<Rightarrow> bool" where
  "unmapped s x n s' \<longleftrightarrow> mm_ok s' \<and>
     (\<forall>y. vma_at (mm_vma_map s') y =
        (if x \<le> y \<and> y < x + n then map_option unmap_page (vma_at (mm_vma_map s) y)
         else vma_at (mm_vma_map s) y)) \<and>
     (\<forall>p. phys_at (mm_dmem_map s') p =
        (if p \<in> shown s x n VDirect then map_option (\<lambda>(q, t, _). (q, t, PAllocated)) (phys_at (mm_dmem_map s) p)
         else phys_at (mm_dmem_map s) p)) \<and>
     (\<forall>p. phys_at (mm_fmem_map s') p =
        (if p \<in> shown s x n VFlexible then map_option (\<lambda>(q, t, _). (q, t, PFree)) (phys_at (mm_fmem_map s) p)
         else phys_at (mm_fmem_map s) p)) \<and>
     (\<forall>p. mm_backing s' p = (if p \<in> shown s x n VFlexible then 0 else mm_backing s p)) \<and>
     mm_flexible_usage s' = usub (mm_flexible_usage s) (page_count s x n VFlexible) \<and>
     (\<exists>vm dm fm bk us tr. s' = s\<lparr>mm_vma_map := vm, mm_dmem_map := dm, mm_fmem_map := fm,
        mm_backing := bk, mm_flexible_usage := us, mm_trace := tr\<rparr>)"

lemma shown_area:
  assumes m: "vma_map_ok (mm_vma_map s)" and f: "om_floor (mm_vma_map s) x = Some (k, v)"
    and n: "x + n \<le> k + vma_size v"
  shows "shown s x n ty = (if vma_type v = ty then phys_bytes v (x - k) n else {})"
    and "page_count s x n ty = (if vma_type v = ty then n else 0)"
proof -
  note l = om.floor_lookup [OF vma_map_inv [OF m] f]
  have at: "vma_at (mm_vma_map s) (x + i) = Some (vma_content v (x - k + i))" if "i < n" for i
    using vma_area_content [OF m f, of "x + i"] that n l by simp
  have at': "vma_at (mm_vma_map s) y = Some (vma_content v (y - k))" if "x \<le> y" "y < x + n" for y
    using vma_area_content [OF m f, of y] that n by simp
  show "shown s x n ty = (if vma_type v = ty then phys_bytes v (x - k) n else {})"
  proof (cases "vma_type v = ty")
    case True
    have "p \<in> shown s x n ty \<longleftrightarrow> p \<in> phys_bytes v (x - k) n" for p
    proof
      assume "p \<in> shown s x n ty"
      then obtain y c t d where y: "x \<le> y" "y < x + n" "vma_at (mm_vma_map s) y = Some c" "pg_phys c = Some (p, t, d)"
        by (auto simp: shown_def)
      then have "phys_at (vma_phys_areas v) (x - k + (y - x)) = Some (p, t, d)" "y - x < n"
        using at' [of y] l by (auto simp: vma_content_def)
      then show "p \<in> phys_bytes v (x - k) n" unfolding phys_bytes_def by blast
    next
      assume "p \<in> phys_bytes v (x - k) n"
      then obtain i t d where "i < n" "phys_at (vma_phys_areas v) (x - k + i) = Some (p, t, d)"
        by (auto simp: phys_bytes_def)
      with at [of i] True show "p \<in> shown s x n ty"
        unfolding shown_def
        by (intro CollectI exI [of _ "x + i"] exI [of _ "vma_content v (x - k + i)"] exI [of _ t] exI [of _ d])
          (auto simp: vma_content_def)
    qed
    with True show ?thesis by auto
  next
    case False
    with at' show ?thesis by (auto simp: shown_def vma_content_def)
  qed
  have "{y \<in> {x ..< x + n}. \<exists>c. vma_at (mm_vma_map s) y = Some c \<and> pg_type c = ty} =
      (if vma_type v = ty then {x ..< x + n} else {})"
    using at' by (auto simp: vma_content_def)
  then show "page_count s x n ty = (if vma_type v = ty then n else 0)" by (simp add: page_count_def)
qed

text \<open>Unmapping in two steps.\<close>

lemma shown_join:
  assumes "\<And>y. x + j \<le> y \<Longrightarrow> y < x + j + l \<Longrightarrow> vma_at (mm_vma_map s1) y = vma_at (mm_vma_map s) y"
  shows "shown s x (j + l) ty = shown s x j ty \<union> shown s1 (x + j) l ty"
    and "page_count s x (j + l) ty = page_count s x j ty + page_count s1 (x + j) l ty"
proof -
  let ?p = "\<lambda>s y. \<exists>c. vma_at (mm_vma_map s) y = Some c \<and> pg_type c = ty"
  let ?q = "\<lambda>s y p. \<exists>c t d. vma_at (mm_vma_map s) y = Some c \<and> pg_type c = ty \<and> pg_phys c = Some (p, t, d)"
  have sh: "p \<in> shown s x n ty \<longleftrightarrow> (\<exists>y. x \<le> y \<and> y < x + n \<and> ?q s y p)" for s x n p
    unfolding shown_def by blast
  have range: "x \<le> y \<and> y < x + (j + l) \<longleftrightarrow> x \<le> y \<and> y < x + j \<or> x + j \<le> y \<and> y < x + j + l" for y
    by auto
  show "shown s x (j + l) ty = shown s x j ty \<union> shown s1 (x + j) l ty"
  proof (rule set_eqI)
    fix p
    have "p \<in> shown s x (j + l) ty \<longleftrightarrow>
        (\<exists>y. x \<le> y \<and> y < x + j \<and> ?q s y p) \<or> (\<exists>y. x + j \<le> y \<and> y < x + j + l \<and> ?q s y p)"
      unfolding sh using range by blast
    also have "(\<exists>y. x + j \<le> y \<and> y < x + j + l \<and> ?q s y p) \<longleftrightarrow> (\<exists>y. x + j \<le> y \<and> y < x + j + l \<and> ?q s1 y p)"
      using assms by metis
    finally show "p \<in> shown s x (j + l) ty \<longleftrightarrow> p \<in> shown s x j ty \<union> shown s1 (x + j) l ty"
      unfolding Un_iff sh .
  qed
  have "{y \<in> {x ..< x + (j + l)}. ?p s y} = {y \<in> {x ..< x + j}. ?p s y} \<union> {y \<in> {x + j ..< x + j + l}. ?p s1 y}"
    using assms by auto
  moreover have "{y \<in> {x ..< x + j}. ?p s y} \<inter> {y \<in> {x + j ..< x + j + l}. ?p s1 y} = {}" by auto
  ultimately show "page_count s x (j + l) ty = page_count s x j ty + page_count s1 (x + j) l ty"
    by (simp add: page_count_def card_Un_disjoint)
qed

lemma unmapped_trans:
  assumes "unmapped s x j s1" and "unmapped s1 (x + j) l s2"
  shows "unmapped s x (j + l) s2"
proof -
  have at: "vma_at (mm_vma_map s1) y = vma_at (mm_vma_map s) y" if "x + j \<le> y" for y
    using assms(1) that by (simp add: unmapped_def)
  note j = shown_join [of x j l s1 s, OF at]
  have us: "mm_flexible_usage s2 = usub (mm_flexible_usage s) (page_count s x (j + l) VFlexible)"
    using assms unfolding unmapped_def by (simp add: j usub_usub)
  have tag: "(if p \<in> shown s x (j + l) ty then map_option (\<lambda>(q, t, _). (q, t, d)) a else a) =
     (if p \<in> shown s1 (x + j) l ty then map_option (\<lambda>(q, t, _). (q, t, d))
        (if p \<in> shown s x j ty then map_option (\<lambda>(q, t, _). (q, t, d)) a else a)
      else (if p \<in> shown s x j ty then map_option (\<lambda>(q, t, _). (q, t, d)) a else a))"
    for p ty d and a :: "phys_info option"
    by (cases a) (auto simp: j)
  obtain vm dm fm bk us1 tr where s1: "s1 = s\<lparr>mm_vma_map := vm, mm_dmem_map := dm, mm_fmem_map := fm,
        mm_backing := bk, mm_flexible_usage := us1, mm_trace := tr\<rparr>"
    using assms(1) unfolding unmapped_def by blast
  obtain vm' dm' fm' bk' us' tr' where s2: "s2 = s1\<lparr>mm_vma_map := vm', mm_dmem_map := dm', mm_fmem_map := fm',
        mm_backing := bk', mm_flexible_usage := us', mm_trace := tr'\<rparr>"
    using assms(2) unfolding unmapped_def by blast
  have frame: "s2 = s\<lparr>mm_vma_map := vm', mm_dmem_map := dm', mm_fmem_map := fm',
        mm_backing := bk', mm_flexible_usage := us', mm_trace := tr'\<rparr>" by (simp add: s2 s1)
  show ?thesis
    unfolding unmapped_def
  proof (intro conjI allI)
    show "mm_ok s2" using assms(2) by (simp add: unmapped_def)
    show "vma_at (mm_vma_map s2) y = (if x \<le> y \<and> y < x + (j + l)
        then map_option unmap_page (vma_at (mm_vma_map s) y) else vma_at (mm_vma_map s) y)" for y
      using assms by (simp add: unmapped_def)
    show "phys_at (mm_dmem_map s2) p =
      (if p \<in> shown s x (j + l) VDirect then map_option (\<lambda>(q, t, _). (q, t, PAllocated)) (phys_at (mm_dmem_map s) p)
       else phys_at (mm_dmem_map s) p)" for p
      using assms unfolding unmapped_def tag by simp
    show "phys_at (mm_fmem_map s2) p =
      (if p \<in> shown s x (j + l) VFlexible then map_option (\<lambda>(q, t, _). (q, t, PFree)) (phys_at (mm_fmem_map s) p)
       else phys_at (mm_fmem_map s) p)" for p
      using assms unfolding unmapped_def tag by simp
    show "mm_backing s2 p = (if p \<in> shown s x (j + l) VFlexible then 0 else mm_backing s p)" for p
      using assms by (simp add: unmapped_def j)
    show "mm_flexible_usage s2 = usub (mm_flexible_usage s) (page_count s x (j + l) VFlexible)" by (rule us)
    show "\<exists>vm dm fm bk us tr. s2 = s\<lparr>mm_vma_map := vm, mm_dmem_map := dm, mm_fmem_map := fm,
        mm_backing := bk, mm_flexible_usage := us, mm_trace := tr\<rparr>" using frame by blast
  qed
qed

subsection \<open>One entry\<close>

lemma vma_update_free: "vma_update free_vma_attrs (\<lambda>_. free_page)"
  by (auto simp: vma_update_def free_vma_attrs_def vma_ok_def HasPhysicalBacking_def vma_content_def
      free_page_def phys_at_def seg_den_def)

lemma kind_map_simps [simp]:
  "kind_map (s\<lparr>mm_vma_map := m\<rparr>) ty = kind_map s ty"
  "kind_map (s\<lparr>mm_trace := tr\<rparr>) ty = kind_map s ty"
  "kind_map (s\<lparr>mm_pool_budget := b\<rparr>) ty = kind_map s ty"
  by (simp_all add: kind_map_def)

lemma retagged_none: "phys_keyed M \<Longrightarrow> P = {} \<Longrightarrow> retagged M M P g d"
  by (simp add: retagged_refl)

text \<open>The last part of \<^verbatim>\<open>UnmapBytesFromEntry\<close>, when the physical memory has been released.\<close>

lemma unmap_area_done:
  assumes ok: "mm_ok s" and f: "om_floor (mm_vma_map s) x = Some (k, v)"
    and n: "0 < n" "x + n \<le> k + vma_size v" and ty: "vma_type v \<noteq> VFree" "vma_type v \<noteq> VPooled"
    and r: "retagged (kind_map s (vma_type v)) (kind_map s1 (vma_type v)) (phys_bytes v (x - k) n) id d"
    and d: "vma_type v = VDirect \<Longrightarrow> d = PAllocated" "vma_type v = VFlexible \<Longrightarrow> d = PFree"
    and s1: "\<exists>dm fm bk us. s1 = s\<lparr>mm_dmem_map := dm, mm_fmem_map := fm, mm_backing := bk, mm_flexible_usage := us\<rparr>"
    and other: "\<And>ty. (ty = VFlexible) \<noteq> (vma_type v = VFlexible) \<Longrightarrow> kind_map s1 ty = kind_map s ty"
    and unbacked: "\<not> HasPhysicalBacking v \<Longrightarrow> s1 = s"
    and bk: "\<And>p. mm_backing s1 p = (if p \<in> shown s x n VFlexible then 0 else mm_backing s p)"
    and us: "mm_flexible_usage s1 = usub (mm_flexible_usage s) (page_count s x n VFlexible)"
  obtains m where "vma_assign_merge free_vma_attrs (mm_vma_map s1) x n = Some m"
    and "unmapped s x n (s1\<lparr>mm_vma_map := m, mm_trace := tr\<rparr>)"
proof -
  note D = mm_okD [OF ok]
  have vm: "mm_vma_map s1 = mm_vma_map s" "mm_total_direct_size s1 = mm_total_direct_size s" using s1 by auto
  obtain m where m: "vma_assign_merge free_vma_attrs (mm_vma_map s) x n = Some m" and mok: "vma_map_ok m"
    and at: "\<And>y. vma_at m y = (if x \<le> y \<and> y < x + n then map_option (\<lambda>_. free_page) (vma_at (mm_vma_map s) y)
        else vma_at (mm_vma_map s) y)"
    and all: "\<And>P. vma_stable P \<Longrightarrow> \<forall>b. P b \<longrightarrow> P (free_vma_attrs b) \<Longrightarrow>
        \<forall>j b. om_lookup (mm_vma_map s) j = Some b \<longrightarrow> P b \<Longrightarrow> \<forall>j b. om_lookup m j = Some b \<longrightarrow> P b"
    by (rule vma_assign_merge_correct [OF D(1) f n vma_update_free]) (rule that)
  let ?s = "s1\<lparr>mm_vma_map := m, mm_trace := tr\<rparr>"
  have fits: "area_fits (kind_map s) b" if "om_lookup m j = Some b" for j b
  proof -
    have "\<forall>b. area_fits (kind_map s) (free_vma_attrs b)" by (simp add: area_fits_def free_vma_attrs_def)
    with all [OF mm_fits_stable [OF ok]] pieces_fit_lookup [OF ok] that
    show ?thesis by blast
  qed
  have same: "kind_map s1 ty = kind_map s1 (vma_type v)" if "(ty = VFlexible) = (vma_type v = VFlexible)" for ty
    using that by (auto simp: kind_map_def)
  have ok': "mm_ok ?s"
  proof (rule mm_ok_release [OF ok f n(2) r, where h = "\<lambda>_. free_page"])
    show "kind_map ?s ty = (if (ty = VFlexible) = (vma_type v = VFlexible) then kind_map s1 (vma_type v)
        else kind_map s ty)" for ty
      using same [of ty] other [of ty] by (simp only: kind_map_simps split: if_split) blast
    show "area_fits (kind_map s) b" if "om_lookup (mm_vma_map ?s) j = Some b" for j b
      using that by (intro fits [of j]) simp
  qed (simp_all add: mok at vm us free_page_def)
  have page: "map_option (\<lambda>_. free_page) (vma_at (mm_vma_map s) y) = map_option unmap_page (vma_at (mm_vma_map s) y)"
    if "x \<le> y" "y < x + n" for y
    using vma_area_content [OF D(1) f, of y] that n ty by (simp add: unmap_page_def vma_content_def)
  note sh = shown_area [OF D(1) f n(2)]
  have phys: "phys_at (kind_map s1 (vma_type v)) p = (if p \<in> phys_bytes v (x - k) n
      then map_option (\<lambda>(q, t, _). (q, t, d)) (phys_at (kind_map s (vma_type v)) p)
      else phys_at (kind_map s (vma_type v)) p)" for p
    using r by (simp add: retagged_def)
  have keep: "mm_fmem_map s1 = mm_fmem_map s" if "vma_type v \<noteq> VFlexible"
    using other [of VFlexible] that by (simp add: kind_map_def)
  have keepd: "mm_dmem_map s1 = mm_dmem_map s" if "vma_type v \<noteq> VDirect"
  proof (cases "vma_type v = VFlexible")
    case True
    then show ?thesis using other [of VDirect] by (simp add: kind_map_def)
  next
    case False
    with that ty have "\<not> HasPhysicalBacking v" by (auto simp: HasPhysicalBacking_def)
    with unbacked show ?thesis by simp
  qed
  have frame: "\<exists>vm dm fm bk us tr'. ?s = s\<lparr>mm_vma_map := vm, mm_dmem_map := dm, mm_fmem_map := fm,
      mm_backing := bk, mm_flexible_usage := us, mm_trace := tr'\<rparr>"
  proof -
    obtain dm fm bk us where "s1 = s\<lparr>mm_dmem_map := dm, mm_fmem_map := fm, mm_backing := bk, mm_flexible_usage := us\<rparr>"
      using s1 by blast
    then have "?s = s\<lparr>mm_vma_map := m, mm_dmem_map := dm, mm_fmem_map := fm, mm_backing := bk,
      mm_flexible_usage := us, mm_trace := tr\<rparr>" by simp
    then show ?thesis by blast
  qed
  have "phys_at (mm_dmem_map s1) p = (if p \<in> shown s x n VDirect
      then map_option (\<lambda>(q, t, _). (q, t, PAllocated)) (phys_at (mm_dmem_map s) p) else phys_at (mm_dmem_map s) p)" for p
    using phys [of p] d(1) keepd by (cases "vma_type v = VDirect") (auto simp: sh kind_map_def)
  moreover have "phys_at (mm_fmem_map s1) p = (if p \<in> shown s x n VFlexible
      then map_option (\<lambda>(q, t, _). (q, t, PFree)) (phys_at (mm_fmem_map s) p) else phys_at (mm_fmem_map s) p)" for p
    using phys [of p] d(2) keep by (cases "vma_type v = VFlexible") (auto simp: sh kind_map_def)
  ultimately have phys': "phys_at (mm_dmem_map ?s) p = (if p \<in> shown s x n VDirect
      then map_option (\<lambda>(q, t, _). (q, t, PAllocated)) (phys_at (mm_dmem_map s) p) else phys_at (mm_dmem_map s) p)"
    "phys_at (mm_fmem_map ?s) p = (if p \<in> shown s x n VFlexible
      then map_option (\<lambda>(q, t, _). (q, t, PFree)) (phys_at (mm_fmem_map s) p) else phys_at (mm_fmem_map s) p)" for p
    by simp_all
  have "vma_at (mm_vma_map ?s) y = (if x \<le> y \<and> y < x + n
      then map_option unmap_page (vma_at (mm_vma_map s) y) else vma_at (mm_vma_map s) y)" for y
    using page [of y] by (simp add: at)
  moreover have "mm_backing ?s p = (if p \<in> shown s x n VFlexible then 0 else mm_backing s p)" for p
    by (simp add: bk)
  moreover have "mm_flexible_usage ?s = usub (mm_flexible_usage s) (page_count s x n VFlexible)"
    by (simp add: us)
  ultimately have "unmapped s x n ?s"
    unfolding unmapped_def using ok' phys' frame by (intro conjI allI) blast+
  with m vm show thesis by (intro that) auto
qed

lemma backing_zero:
  "backing_write mem p (replicate l 0) q = (if q \<in> {p ..< p + l} then 0 else mem q)"
  by (auto simp: backing_write_def)

text \<open>Releasing the physical memory of a direct and of a flexible area.\<close>

lemma unmap_direct_loop:
  assumes ok: "mm_ok s" and k: "om_lookup (mm_vma_map s) k = Some v" and ty: "vma_type v = VDirect"
    and n: "0 < n" "start + n \<le> vma_size v"
  obtains h a s' where "om_floor (vma_phys_areas v) start = Some (h, a)"
    and "phys_loop (unmap_piece VDirect) start (om_from (vma_phys_areas v) h) n s = Some (0, s')"
    and "\<exists>dm. s' = s\<lparr>mm_dmem_map := dm\<rparr>"
    and "retagged (kind_map s VDirect) (kind_map s' VDirect) (phys_bytes v start n) id PAllocated"
proof -
  have bk: "HasPhysicalBacking v" using ty by (simp add: HasPhysicalBacking_def)
  have rt: "retag (\<lambda>a. a\<lparr>pma_dma_type := PAllocated\<rparr>) id PAllocated" by (simp add: retag_def)
  let ?frame = "\<lambda>i s'. \<exists>dm. s' = s\<lparr>mm_dmem_map := dm\<rparr>"
  have "\<exists>dm. s = s\<lparr>mm_dmem_map := dm\<rparr>" by (rule exI [of _ "mm_dmem_map s"]) simp
  then show thesis
    by (rule phys_loop_retag [OF ok k bk n, where frame = ?frame and f = "unmap_piece VDirect", OF _ refl rt,
          unfolded ty]) (auto simp: unmap_piece_def kind_map_def intro: that [unfolded kind_map_def])
qed

lemma unmap_flexible_loop:
  assumes ok: "mm_ok s" and k: "om_lookup (mm_vma_map s) k = Some v" and ty: "vma_type v = VFlexible"
    and n: "0 < n" "start + n \<le> vma_size v"
  obtains h a s' where "om_floor (vma_phys_areas v) start = Some (h, a)"
    and "phys_loop (unmap_piece VFlexible) start (om_from (vma_phys_areas v) h) n s = Some (0, s')"
    and "\<exists>fm bk. s' = s\<lparr>mm_fmem_map := fm, mm_backing := bk, mm_flexible_usage := usub (mm_flexible_usage s) n\<rparr>"
    and "\<And>p. mm_backing s' p = (if p \<in> phys_bytes v start n then 0 else mm_backing s p)"
    and "retagged (kind_map s VFlexible) (kind_map s' VFlexible) (phys_bytes v start n) id PFree"
proof -
  have bk: "HasPhysicalBacking v" using ty by (simp add: HasPhysicalBacking_def)
  have rt: "retag (\<lambda>a. a\<lparr>pma_dma_type := PFree\<rparr>) id PFree" by (simp add: retag_def)
  let ?frame = "\<lambda>i s'. (\<exists>fm bk. s' = s\<lparr>mm_fmem_map := fm, mm_backing := bk,
      mm_flexible_usage := usub (mm_flexible_usage s) i\<rparr>) \<and>
      (\<forall>p. mm_backing s' p = (if p \<in> phys_bytes v start i then 0 else mm_backing s p))"
  have us: "usub (mm_flexible_usage s) 0 = mm_flexible_usage s"
    by (rule usub_zero [OF mm_okD(7) [OF ok]])
  have "s = s\<lparr>mm_fmem_map := mm_fmem_map s, mm_backing := mm_backing s,
      mm_flexible_usage := usub (mm_flexible_usage s) 0\<rparr>" by (simp add: us)
  then have "\<exists>fm bk. s = s\<lparr>mm_fmem_map := fm, mm_backing := bk,
      mm_flexible_usage := usub (mm_flexible_usage s) 0\<rparr>" by blast
  then have fr0: "?frame 0 s" by (simp add: phys_bytes_def)
  show thesis
  proof (rule phys_loop_retag [OF ok k bk n, where frame = ?frame and f = "unmap_piece VFlexible",
        OF fr0 refl rt, unfolded ty], goal_cases)
    case (1 i p l s' M)
    then obtain fm bk where s': "s' = s\<lparr>mm_fmem_map := fm, mm_backing := bk,
        mm_flexible_usage := usub (mm_flexible_usage s) i\<rparr>"
      and b: "\<And>p. mm_backing s' p = (if p \<in> phys_bytes v start i then 0 else mm_backing s p)" by blast
    have M: "phys_assign_merge (\<lambda>a. a\<lparr>pma_dma_type := PFree\<rparr>) fm p l = Some M"
      using 1(5) by (simp add: s' kind_map_def)
    have grow: "phys_bytes v start (i + l) = phys_bytes v start i \<union> {p ..< p + l}"
      using 1(4) by (simp add: phys_bytes_def)
    let ?s = "s\<lparr>mm_fmem_map := M, mm_backing := backing_write bk p (replicate l 0),
      mm_flexible_usage := usub (mm_flexible_usage s) (i + l)\<rparr>"
    have "unmap_piece VFlexible p l s' = Some ?s"
      by (simp add: unmap_piece_def s' M usub_usub)
    moreover have "mm_backing ?s q = (if q \<in> phys_bytes v start (i + l) then 0 else mm_backing s q)" for q
      using b [of q] by (simp add: s' backing_zero grow)
    moreover have "kind_map ?s VFlexible = M" by (simp add: kind_map_def)
    ultimately show ?case by blast
  next
    case (2 h a s')
    then show ?case by (intro that) auto
  qed
qed

definition unmap_phys :: "mm \<Rightarrow> VirtualMemoryArea \<Rightarrow> nat \<Rightarrow> nat \<Rightarrow> mm option" where
  "unmap_phys s v start n =
     (if vma_phys_areas v \<noteq> []
      then do { (h, _) \<leftarrow> om_floor (vma_phys_areas v) start;
                (size_to_free, s') \<leftarrow> phys_loop (unmap_piece (vma_type v)) start
                  (om_from (vma_phys_areas v) h) n s;
                if size_to_free = 0 then Some s' else None }
      else Some s)"

lemma unmap_phys_correct:
  assumes ok: "mm_ok s" and f: "om_floor (mm_vma_map s) x = Some (k, v)"
    and n: "0 < n" "x + n \<le> k + vma_size v" and ty: "vma_type v \<noteq> VFree" "vma_type v \<noteq> VPooled"
  obtains s1 where "unmap_phys s v (x - k) n = Some s1"
    and "\<And>tr. \<exists>m. vma_assign_merge free_vma_attrs (mm_vma_map s1) x n = Some m \<and>
          unmapped s x n (s1\<lparr>mm_vma_map := m, mm_trace := tr\<rparr>)"
proof -
  note D = mm_okD [OF ok]
  note l = om.floor_lookup [OF vma_map_inv [OF D(1)] f]
  have n3: "x - k + n \<le> vma_size v" using n l(2) by simp
  note sh = shown_area [OF D(1) f n(2)]
  have us0: "usub (mm_flexible_usage s) 0 = mm_flexible_usage s" by (rule usub_zero [OF D(7)])
  note fin = unmap_area_done [OF ok f n ty]
  consider (direct) "vma_type v = VDirect" | (flex) "vma_type v = VFlexible" | (none) "\<not> HasPhysicalBacking v"
    using ty by (auto simp: HasPhysicalBacking_def)
  then show thesis
  proof cases
    case direct
    obtain h a s1 where fl: "om_floor (vma_phys_areas v) (x - k) = Some (h, a)"
      and lp: "phys_loop (unmap_piece VDirect) (x - k) (om_from (vma_phys_areas v) h) n s = Some (0, s1)"
      and s1: "\<exists>dm. s1 = s\<lparr>mm_dmem_map := dm\<rparr>"
      and rt: "retagged (kind_map s VDirect) (kind_map s1 VDirect) (phys_bytes v (x - k) n) id PAllocated"
      by (rule unmap_direct_loop [OF ok l(1) direct n(1) n3]) (rule that)
    obtain dm where dm: "s1 = s\<lparr>mm_dmem_map := dm\<rparr>" using s1 by blast
    have fr: "s1 = s\<lparr>mm_dmem_map := dm, mm_fmem_map := mm_fmem_map s, mm_backing := mm_backing s,
        mm_flexible_usage := mm_flexible_usage s\<rparr>" by (simp add: dm)
    show thesis
    proof (rule that)
      show "unmap_phys s v (x - k) n = Some s1" using fl lp direct by (auto simp: unmap_phys_def)
      show "\<exists>m. vma_assign_merge free_vma_attrs (mm_vma_map s1) x n = Some m \<and>
          unmapped s x n (s1\<lparr>mm_vma_map := m, mm_trace := tr\<rparr>)" for tr
      proof (rule fin [of s1 PAllocated tr])
        show "retagged (kind_map s (vma_type v)) (kind_map s1 (vma_type v)) (phys_bytes v (x - k) n) id PAllocated"
          unfolding direct by (rule rt)
        show "\<exists>dm fm bk us. s1 = s\<lparr>mm_dmem_map := dm, mm_fmem_map := fm, mm_backing := bk,
            mm_flexible_usage := us\<rparr>" using fr by blast
      qed (auto simp: sh direct us0 dm kind_map_def HasPhysicalBacking_def)
    qed
  next
    case flex
    obtain h a s1 where fl: "om_floor (vma_phys_areas v) (x - k) = Some (h, a)"
      and lp: "phys_loop (unmap_piece VFlexible) (x - k) (om_from (vma_phys_areas v) h) n s = Some (0, s1)"
      and s1: "\<exists>fm bk. s1 = s\<lparr>mm_fmem_map := fm, mm_backing := bk, mm_flexible_usage := usub (mm_flexible_usage s) n\<rparr>"
      and bk: "\<And>p. mm_backing s1 p = (if p \<in> phys_bytes v (x - k) n then 0 else mm_backing s p)"
      and rt: "retagged (kind_map s VFlexible) (kind_map s1 VFlexible) (phys_bytes v (x - k) n) id PFree"
      by (rule unmap_flexible_loop [OF ok l(1) flex n(1) n3]) (rule that)
    obtain fm bm where dm: "s1 = s\<lparr>mm_fmem_map := fm, mm_backing := bm,
        mm_flexible_usage := usub (mm_flexible_usage s) n\<rparr>" using s1 by blast
    have fr: "s1 = s\<lparr>mm_dmem_map := mm_dmem_map s, mm_fmem_map := fm, mm_backing := bm,
        mm_flexible_usage := usub (mm_flexible_usage s) n\<rparr>" by (simp add: dm)
    show thesis
    proof (rule that)
      show "unmap_phys s v (x - k) n = Some s1" using fl lp flex by (auto simp: unmap_phys_def)
      show "\<exists>m. vma_assign_merge free_vma_attrs (mm_vma_map s1) x n = Some m \<and>
          unmapped s x n (s1\<lparr>mm_vma_map := m, mm_trace := tr\<rparr>)" for tr
      proof (rule fin [of s1 PFree tr])
        show "retagged (kind_map s (vma_type v)) (kind_map s1 (vma_type v)) (phys_bytes v (x - k) n) id PFree"
          unfolding flex by (rule rt)
        show "\<exists>dm fm bk us. s1 = s\<lparr>mm_dmem_map := dm, mm_fmem_map := fm, mm_backing := bk,
            mm_flexible_usage := us\<rparr>" using fr by blast
      qed (use bk in \<open>auto simp: sh flex us0 dm kind_map_def HasPhysicalBacking_def\<close>)
    qed
  next
    case none
    then have empty: "vma_phys_areas v = []" using vma_lookup_ok(1) [OF D(1) l(1)] by (simp add: vma_ok_def)
    then have bytes: "phys_bytes v (x - k) n = {}" by (simp add: phys_bytes_def phys_at_def seg_den_def)
    have t: "vma_type v \<noteq> VDirect" "vma_type v \<noteq> VFlexible" using none by (auto simp: HasPhysicalBacking_def)
    have fr: "s = s\<lparr>mm_dmem_map := mm_dmem_map s, mm_fmem_map := mm_fmem_map s, mm_backing := mm_backing s,
        mm_flexible_usage := mm_flexible_usage s\<rparr>" by simp
    show thesis
    proof (rule that)
      show "unmap_phys s v (x - k) n = Some s" by (simp add: unmap_phys_def empty)
      show "\<exists>m. vma_assign_merge free_vma_attrs (mm_vma_map s) x n = Some m \<and>
          unmapped s x n (s\<lparr>mm_vma_map := m, mm_trace := tr\<rparr>)" for tr
      proof (rule fin [of s PFree tr])
        show "\<exists>dm fm bk us. s = s\<lparr>mm_dmem_map := dm, mm_fmem_map := fm, mm_backing := bk,
            mm_flexible_usage := us\<rparr>" using fr by blast
      qed (use t in \<open>auto simp: sh us0 bytes retagged_refl [OF mm_ok_kind_keyed [OF ok]]\<close>)
    qed
  qed
qed

lemma UnmapBytesFromEntry_correct:
  assumes ok: "mm_ok s" and f: "FindVMA s x = Some (k, v)" and x: "x < k + vma_size v" and sz: "0 < sz"
  obtains s' where "UnmapBytesFromEntry s x v sz = Some (min (k + vma_size v - x) sz, s')"
    and "unmapped s x (min (k + vma_size v - x) sz) s'"
proof -
  note D = mm_okD [OF ok]
  note fl = f [unfolded FindVMA_def]
  note l = om.floor_lookup [OF vma_map_inv [OF D(1)] fl]
  note vok = vma_lookup_ok [OF D(1) l(1)]
  define n where "n = min (k + vma_size v - x) sz"
  have n: "0 < n" "x + n \<le> k + vma_size v"
    using x sz l(2) by (auto simp: n_def)
  have start: "usub x (vma_base v) = x - k" and sz_eq: "min (usub (vma_size v) (x - k)) sz = n"
    using vok l(2) x by (auto simp: u64_exact n_def)
  note sh = shown_area [OF D(1) fl n(2)]
  have eq: "UnmapBytesFromEntry s x v sz =
     (if vma_type v = VFree \<or> vma_type v = VPooled then Some (n, s)
      else do { s1 \<leftarrow> unmap_phys s v (x - k) n;
                m \<leftarrow> vma_assign_merge free_vma_attrs (mm_vma_map s1) x n;
                Some (n, if vma_type v \<noteq> VReserved \<and> vma_type v \<noteq> VPoolReserved
                         then host (HostUnmap x n) (s1\<lparr>mm_vma_map := m\<rparr>) else s1\<lparr>mm_vma_map := m\<rparr>) })"
    unfolding UnmapBytesFromEntry_def unmap_phys_def start Let_def sz_eq by simp
  show thesis
  proof (cases "vma_type v = VFree \<or> vma_type v = VPooled")
    case True
    have "map_option unmap_page (vma_at (mm_vma_map s) y) = vma_at (mm_vma_map s) y"
      if "x \<le> y" "y < x + n" for y
      using vma_area_content [OF D(1) fl, of y] that n True by (auto simp: unmap_page_def vma_content_def)
    moreover have "s = s\<lparr>mm_vma_map := mm_vma_map s, mm_dmem_map := mm_dmem_map s, mm_fmem_map := mm_fmem_map s,
        mm_backing := mm_backing s, mm_flexible_usage := mm_flexible_usage s, mm_trace := mm_trace s\<rparr>" by simp
    then have "\<exists>vm dm fm bk us tr. s = s\<lparr>mm_vma_map := vm, mm_dmem_map := dm, mm_fmem_map := fm,
        mm_backing := bk, mm_flexible_usage := us, mm_trace := tr\<rparr>" by blast
    ultimately have "unmapped s x n s"
      using True ok usub_zero [OF D(7)] by (auto simp: unmapped_def sh)
    with True eq that show thesis by (simp add: n_def)
  next
    case False
    obtain s1 where s1: "unmap_phys s v (x - k) n = Some s1"
      and m: "\<And>tr. \<exists>m. vma_assign_merge free_vma_attrs (mm_vma_map s1) x n = Some m \<and>
          unmapped s x n (s1\<lparr>mm_vma_map := m, mm_trace := tr\<rparr>)"
      by (rule unmap_phys_correct [OF ok fl n]) (use False that in auto)
    from m obtain m' where m1: "vma_assign_merge free_vma_attrs (mm_vma_map s1) x n = Some m'" by blast
    with m have u: "unmapped s x n (s1\<lparr>mm_vma_map := m', mm_trace := tr\<rparr>)" for tr by auto
    have id: "s1\<lparr>mm_vma_map := m'\<rparr> = s1\<lparr>mm_vma_map := m', mm_trace := mm_trace s1\<rparr>" by simp
    have "unmapped s x n (s1\<lparr>mm_vma_map := m'\<rparr>)" by (subst id) (rule u)
    with u [of "HostUnmap x n # mm_trace s1"] False eq s1 m1 that show thesis
      by (auto simp: host_def n_def)
  qed
qed

subsection \<open>Whole ranges\<close>

lemma unmapped_zero: "mm_ok s \<Longrightarrow> unmapped s x 0 s"
proof -
  assume ok: "mm_ok s"
  have "s = s\<lparr>mm_vma_map := mm_vma_map s, mm_dmem_map := mm_dmem_map s, mm_fmem_map := mm_fmem_map s,
      mm_backing := mm_backing s, mm_flexible_usage := mm_flexible_usage s, mm_trace := mm_trace s\<rparr>" by simp
  then have "\<exists>vm dm fm bk us tr. s = s\<lparr>mm_vma_map := vm, mm_dmem_map := dm, mm_fmem_map := fm,
      mm_backing := bk, mm_flexible_usage := us, mm_trace := tr\<rparr>" by blast
  with ok show ?thesis
    by (auto simp: unmapped_def shown_def page_count_def usub_zero [OF mm_okD(7)])
qed

lemma unmapped_ok: "unmapped s x n s' \<Longrightarrow> mm_ok s'"
  by (simp add: unmapped_def)

lemma unmapped_at: "unmapped s x n s' \<Longrightarrow> vma_at (mm_vma_map s') y =
    (if x \<le> y \<and> y < x + n then map_option unmap_page (vma_at (mm_vma_map s) y) else vma_at (mm_vma_map s) y)"
  by (simp add: unmapped_def)

lemma vma_find:
  assumes "vma_map_ok (mm_vma_map s)" and "vma_at (mm_vma_map s) x \<noteq> None"
  obtains k v where "FindVMA s x = Some (k, v)" and "k \<le> x" and "x < k + vma_size v"
    and "om_lookup (mm_vma_map s) k = Some v"
  by (rule vm.den_floor [OF assms(1) [unfolded vma_map_ok_def] assms(2) [unfolded vma_at_def]])
    (use that in \<open>auto simp: FindVMA_def\<close>)

lemma UnmapMemoryImpl_from_correct:
  assumes "unmapped s0 x j s" and "j < n" and "x + n < U64" and "covered s0 x n"
  shows "\<exists>s'. UnmapMemoryImpl_from s x n j = Some s' \<and> unmapped s0 x n s'"
  using assms
proof (induction "n - j" arbitrary: j s rule: less_induct)
  case less
  note ok = unmapped_ok [OF less.prems(1)]
  have "vma_at (mm_vma_map s) (x + j) \<noteq> None"
    using unmapped_at [OF less.prems(1)] less.prems(2,4) by (simp add: covered_def)
  then obtain k v where f: "FindVMA s (x + j) = Some (k, v)" and kv: "x + j < k + vma_size v"
    by (rule vma_find [OF mm_okD(1) [OF ok]])
  let ?l = "min (k + vma_size v - (x + j)) (n - j)"
  have nj: "0 < n - j" using less.prems(2) by simp
  obtain s1 where u: "UnmapBytesFromEntry s (x + j) v (n - j) = Some (?l, s1)" and s1: "unmapped s (x + j) ?l s1"
    by (rule UnmapBytesFromEntry_correct [OF ok f kv nj]) (rule that)
  have l: "0 < ?l" "j + ?l \<le> n" using kv nj by auto
  note tr = unmapped_trans [OF less.prems(1) s1]
  have ar: "uadd x j = x + j" "usub n j = n - j" "uadd j ?l = j + ?l"
    using less.prems(2,3) l by (auto simp: u64_exact)
  have step: "UnmapMemoryImpl_from s x n j =
      (if j + ?l < n then UnmapMemoryImpl_from s1 x n (j + ?l) else Some s1)"
    using l(1) by (subst UnmapMemoryImpl_from.simps) (simp only: ar f u Let_def prod.case bind.bind_lunit if_True)
  show ?case
  proof (cases "j + ?l < n")
    case True
    then show ?thesis
      unfolding step using less.hyps [OF _ tr True less.prems(3,4)] l by simp
  next
    case False
    with l have "j + ?l = n" by simp
    with False tr show ?thesis unfolding step by simp
  qed
qed

lemma UnmapMemoryImpl_correct:
  assumes "mm_ok s" and "0 < n" and "x + n < U64" and "covered s x n"
  obtains s' where "UnmapMemoryImpl s x n = Some (ORBIS_OK, s')" and "unmapped s x n s'"
  using UnmapMemoryImpl_from_correct [OF unmapped_zero [OF assms(1)] assms(2-4)]
  by (auto simp: UnmapMemoryImpl_def)

text \<open>Calls on the GPU do not touch the maps.\<close>

lemma mm_ok_trace: "mm_ok (s\<lparr>mm_trace := tr\<rparr>) = mm_ok s"
  by (rule mm_ok_cong) simp_all

lemma gpu_unmap_eq: "\<exists>tr. gpu_unmap a n s = s\<lparr>mm_trace := tr\<rparr>"
  by (auto simp: gpu_unmap_def host_def intro: exI [of _ "mm_trace s"])

lemma unmapped_trace: "unmapped (s\<lparr>mm_trace := tr\<rparr>) x n s' \<Longrightarrow> unmapped s x n s'"
proof -
  assume u: "unmapped (s\<lparr>mm_trace := tr\<rparr>) x n s'"
  then obtain vm dm fm bk us tr' where "s' = s\<lparr>mm_trace := tr\<rparr>\<lparr>mm_vma_map := vm, mm_dmem_map := dm, mm_fmem_map := fm,
      mm_backing := bk, mm_flexible_usage := us, mm_trace := tr'\<rparr>"
    unfolding unmapped_def by blast
  then have "s' = s\<lparr>mm_vma_map := vm, mm_dmem_map := dm, mm_fmem_map := fm,
      mm_backing := bk, mm_flexible_usage := us, mm_trace := tr'\<rparr>" by simp
  then have "\<exists>vm dm fm bk us tr. s' = s\<lparr>mm_vma_map := vm, mm_dmem_map := dm, mm_fmem_map := fm,
      mm_backing := bk, mm_flexible_usage := us, mm_trace := tr\<rparr>" by blast
  with u show ?thesis by (simp add: unmapped_def shown_def page_count_def cong: if_cong)
qed

lemma UnmapMemory_correct:
  assumes ok: "mm_ok s" and n: "0 < sz" and a: "a = AlignDown addr (16 * KB)" and l: "l = AlignUp sz (16 * KB)"
    and b: "addr + sz + 16 * KB < U64" and c: "covered s a l"
  obtains s' where "UnmapMemory s addr sz = Some (ORBIS_OK, s')" and "unmapped s a l s'"
proof -
  have lb: "sz \<le> l" "l < sz + 16 * KB" and ab: "a \<le> addr"
    using AlignUp_ge [of sz "16 * KB"] AlignUp_less [of sz "16 * KB"] b by (auto simp: l a u64_exact)
  then have "vma_at (mm_vma_map s) a \<noteq> None" using c n by (simp add: covered_def)
  moreover have small: "a + l < U64" using lb ab b by simp
  ultimately have v: "assert_valid s a l = Some ()"
    using IsValidMapping_covered [OF mm_okD(1) [OF ok], of a l] c by (simp add: assert_valid_def)
  obtain tr where g: "gpu_unmap a l s = s\<lparr>mm_trace := tr\<rparr>" using gpu_unmap_eq by blast
  have l0: "0 < l" using lb n by simp
  have "mm_ok (s\<lparr>mm_trace := tr\<rparr>)" "covered (s\<lparr>mm_trace := tr\<rparr>) a l"
    using ok c by (simp_all add: mm_ok_trace covered_def)
  then obtain s' where "UnmapMemoryImpl (s\<lparr>mm_trace := tr\<rparr>) a l = Some (ORBIS_OK, s')"
    and u: "unmapped (s\<lparr>mm_trace := tr\<rparr>) a l s'"
    using UnmapMemoryImpl_correct [OF _ l0 small] by blast
  then have "UnmapMemory s addr sz = Some (ORBIS_OK, s')"
    using n v g a l by (simp add: UnmapMemory_def Let_def)
  with unmapped_trace [OF u] that show thesis by blast
qed

end
