(* ===== verification/Orbit_Startup.thy ===== *)
theory Orbit_Startup
  imports Orbit_Unmap
begin

text \<open>
  The invariant holds from the start: the constructor of \<^verbatim>\<open>MemoryManager\<close> and
  \<^verbatim>\<open>SetupMemoryRegions\<close> (\<^verbatim>\<open>src/core/memory.cpp\<close>) establish \<open>mm_ok\<close>.
\<close>

text \<open>The usable regions of the host: ascending, not empty, not overlapping.\<close>

fun regions_ok :: "(VAddr \<times> VAddr) list \<Rightarrow> bool" where
  "regions_ok [] \<longleftrightarrow> True"
| "regions_ok ((lo, hi) # rs) \<longleftrightarrow>
     lo < hi \<and> hi < U64 \<and> (\<forall>(lo', hi') \<in> set rs. hi \<le> lo') \<and> regions_ok rs"

definition region_areas :: "(VAddr \<times> VAddr) list \<Rightarrow> VMAMap" where
  "region_areas regions = map (\<lambda>(lo, hi). (lo, free_vma lo (hi - lo))) regions"

lemma om_set_snoc: "\<forall>(k', v') \<in> set m. k' < k \<Longrightarrow> om_set k v m = m @ [(k, v)]"
  by (induction k v m rule: om_set.induct) auto

lemma regions_fold:
  "regions_ok regions \<Longrightarrow> \<forall>(k, v) \<in> set acc. \<forall>(lo, hi) \<in> set regions. k < lo \<Longrightarrow>
   fold (\<lambda>(lower, upper) m. om_emplace lower (free_vma lower (usub upper lower)) m) regions acc =
     acc @ region_areas regions"
proof (induction regions arbitrary: acc rule: regions_ok.induct)
  case (2 lo hi rs)
  have below: "\<forall>(k', v') \<in> set acc. k' < lo" using "2.prems"(2) by fastforce
  then have "lo \<notin> fst ` set acc" by fastforce
  then have "om_lookup acc lo = None" using om_lookup_key [of acc lo] by (cases "om_lookup acc lo") auto
  then have "om_emplace lo (free_vma lo (usub hi lo)) acc = acc @ [(lo, free_vma lo (hi - lo))]"
    using om_set_snoc [OF below] "2.prems"(1) by (simp add: om_emplace_def usub_exact)
  moreover have "\<forall>(k, v) \<in> set (acc @ [(lo, free_vma lo (hi - lo))]). \<forall>(l, h) \<in> set rs. k < l"
    using "2.prems" by fastforce
  ultimately show ?case using "2.IH" "2.prems"(1) by (simp add: region_areas_def)
qed (simp add: region_areas_def)

lemma free_vma_ok: "vma_ok k (free_vma k n)"
  by (simp add: vma_ok_def free_vma_def HasPhysicalBacking_def)

lemma region_areas_ok: "regions_ok regions \<Longrightarrow> vma_map_ok (region_areas regions)"
  unfolding vma_map_ok_def
proof (induction regions rule: regions_ok.induct)
  case (2 lo hi rs)
  have sz: "vma_size (free_vma lo n) = n" for lo n by (simp add: free_vma_def)
  have "seg_ok vma_size vma_ok (region_areas rs)" using 2 by simp
  moreover have "\<forall>(k', a') \<in> set (region_areas rs). hi \<le> k'" using "2.prems" by (auto simp: region_areas_def)
  moreover have "region_areas ((lo, hi) # rs) = (lo, free_vma lo (hi - lo)) # region_areas rs"
    by (simp add: region_areas_def)
  ultimately show ?case using "2.prems" by (simp add: free_vma_ok sz)
qed (simp add: region_areas_def)

lemma region_areas_free:
  "om_lookup (region_areas regions) k = Some v \<Longrightarrow> vma_phys_areas v = [] \<and> vma_type v = VFree"
  by (auto simp: region_areas_def om_lookup_def free_vma_def dest!: map_of_SomeD)

text \<open>A state without physical backing satisfies the part of the invariant that links the maps.\<close>

lemma unbacked_links:
  assumes m: "vma_map_ok (mm_vma_map s)"
    and e: "\<And>k v. om_lookup (mm_vma_map s) k = Some v \<Longrightarrow> vma_phys_areas v = []"
  shows "backing_agrees s" and "no_alias s" and "pieces_fit s"
proof -
  have none: "pg_phys i = None" if i: "vma_at (mm_vma_map s) x = Some i" for x i
  proof -
    obtain k v where "om_lookup (mm_vma_map s) k = Some v" "vma_content v (x - k) = i"
      using i vm.den_Some [OF m [unfolded vma_map_ok_def], of x i] by (auto simp: vma_at_def)
    with e show ?thesis by (force simp: vma_content_def phys_at_def seg_den_def)
  qed
  show "backing_agrees s" and "no_alias s"
    unfolding backing_agrees_def no_alias_def using none by fastforce+
  show "pieces_fit s"
    by (rule pieces_fitI [OF m]) (simp add: area_fits_def e)
qed

text \<open>One free area.\<close>

lemma free_area_at:
  assumes "0 < n" and "b + n < U64"
  shows "phys_keyed [(b, free_area b n)]"
    and "phys_at [(b, free_area b n)] x = (if b \<le> x \<and> x < b + n then Some (x, 0, PFree) else None)"
  using assms by (auto simp: phys_keyed_def base_is_key_def free_area_def phys_at_def seg_den_def phys_content_def)

lemma extra_bytes_exact: "0 \<le> e \<Longrightarrow> e < 2 ^ 31 \<Longrightarrow> extra_bytes e = nat e * MB"
  by (simp add: extra_bytes_def U64_def nat_mult_distrib)

definition dmem_capacity :: "s32 \<Rightarrow> nat" where
  "dmem_capacity extra = ORBIS_KERNEL_TOTAL_MEM_DEV_PRO + nat extra * MB"

lemma MemoryManager_state:
  assumes "regions_ok regions" and "0 \<le> extra" and "extra < 2 ^ 31"
    and s_def: "s = MemoryManager impl regions extra sdk mem"
  shows "mm_vma_map s = region_areas regions"
    and "mm_total_direct_size s = dmem_capacity extra"
    and "mm_dmem_map s = [(0, free_area 0 (dmem_capacity extra))]"
    and "mm_fmem_map s = [(dmem_capacity extra, free_area (dmem_capacity extra) ORBIS_KERNEL_FLEXIBLE_MEMORY_SIZE)]"
    and "mm_flexible_usage s = 0"
proof -
  have small: "nat extra < 2 ^ 31" using assms(2,3) by simp
  have tot: "(if extra \<noteq> 0 then uadd ORBIS_KERNEL_TOTAL_MEM_DEV_PRO (extra_bytes extra) else ORBIS_KERNEL_TOTAL_MEM_DEV_PRO)
      = dmem_capacity extra"
    using assms(2,3) small by (auto simp: dmem_capacity_def extra_bytes_exact orbis_sizes uadd_exact U64_def)
  show "mm_vma_map s = region_areas regions"
    using regions_fold [OF assms(1), of "[]"] by (simp add: s_def MemoryManager_def Let_def)
  show "mm_total_direct_size s = dmem_capacity extra"
    "mm_dmem_map s = [(0, free_area 0 (dmem_capacity extra))]"
    "mm_fmem_map s = [(dmem_capacity extra, free_area (dmem_capacity extra) ORBIS_KERNEL_FLEXIBLE_MEMORY_SIZE)]"
    "mm_flexible_usage s = 0"
    unfolding s_def MemoryManager_def Let_def tot by (simp_all add: om_emplace_def)
qed

lemma MemoryManager_ok:
  assumes "regions_ok regions" and "0 \<le> extra" and "extra < 2 ^ 31"
  shows "mm_ok (MemoryManager impl regions extra sdk mem)"
proof -
  let ?s = "MemoryManager impl regions extra sdk mem"
  note st = MemoryManager_state [OF assms refl, of impl sdk mem]
  have m: "vma_map_ok (mm_vma_map ?s)" by (simp add: st region_areas_ok assms(1))
  have cap: "0 < dmem_capacity extra" "dmem_capacity extra + ORBIS_KERNEL_FLEXIBLE_MEMORY_SIZE < U64"
    using assms(2,3) nat_less_iff [of extra "2 ^ 31"] by (auto simp: dmem_capacity_def orbis_sizes U64_def)
  have "dmem_ok ?s"
    using free_area_at [of "dmem_capacity extra" 0] cap by (simp add: dmem_ok_def st)
  moreover have "phys_keyed (mm_fmem_map ?s)"
    using free_area_at(1) [OF _ cap(2)] by (simp add: st orbis_sizes)
  ultimately show ?thesis
    using unbacked_links [OF m] region_areas_free m by (simp add: mm_ok_def st)
qed

end
