(* ===== verification/Orbit_Map.thy ===== *)
theory Orbit_Map
  imports Orbit_Unmap
begin

text \<open>
  Creation of virtual mappings (\<^verbatim>\<open>src/core/memory.cpp\<close>): \<^verbatim>\<open>SearchFree\<close>, \<^verbatim>\<open>CreateArea\<close>,
  \<^verbatim>\<open>MapMemory\<close>, \<^verbatim>\<open>MapFile\<close> and \<^verbatim>\<open>PoolCommit\<close>.  The base for unhinted mappings is the one of the
  Apple ARM64 build (\<^verbatim>\<open>DEFAULT_MAPPING_BASE\<close> is 0 there).
\<close>

subsection \<open>Flags\<close>

type_synonym MemoryMapFlags = "32 word"

definition MapFixed :: MemoryMapFlags where "MapFixed = 0x10"
definition MapNoOverwrite :: MemoryMapFlags where "MapNoOverwrite = 0x80"
definition MapVoid :: MemoryMapFlags where "MapVoid = 0x100"
definition MapStack :: MemoryMapFlags where "MapStack = 0x400"
definition MapAnon :: MemoryMapFlags where "MapAnon = 0x1000"
definition MapNoCoalesce :: MemoryMapFlags where "MapNoCoalesce = 0x400000"

lemmas map_flag_defs = MapFixed_def MapNoOverwrite_def MapVoid_def MapStack_def MapAnon_def
  MapNoCoalesce_def

text \<open>\<^verbatim>\<open>True(flags & bit)\<close> of the enum flag operators.\<close>

definition has_flag :: "32 word \<Rightarrow> 32 word \<Rightarrow> bool" where
  "has_flag flags bits \<longleftrightarrow> flags AND bits \<noteq> 0"

definition DEFAULT_MAPPING_BASE :: nat where "DEFAULT_MAPPING_BASE = 0"

definition FW_200 :: s32 where "FW_200 = 0x2000000"

subsection \<open>Address search\<close>

fun search_free_loop :: "VMAMap \<Rightarrow> VAddr \<Rightarrow> nat \<Rightarrow> nat \<Rightarrow> VAddr" where
  "search_free_loop [] max_search_address sz alignment = minus_one"
| "search_free_loop ((k, v) # rest) max_search_address sz alignment =
     (if \<not> IsFree v then search_free_loop rest max_search_address sz alignment
      else let virtual_addr = AlignUp (vma_base v) alignment;
               vma_end = uadd (vma_base v) (vma_size v)
           in if virtual_addr > vma_end then search_free_loop rest max_search_address sz alignment
              else if virtual_addr \<ge> max_search_address then minus_one
              else if usub vma_end virtual_addr \<ge> sz then virtual_addr
              else search_free_loop rest max_search_address sz alignment)"

text \<open>The parameter \<^verbatim>\<open>alignment\<close> is a \<^verbatim>\<open>u32\<close>; a zero alignment divides by zero.\<close>

definition SearchFree :: "mm \<Rightarrow> VAddr \<Rightarrow> nat \<Rightarrow> nat \<Rightarrow> VAddr option" where
  "SearchFree s virtual_addr0 sz alignment64 =
     (let alignment = alignment64 mod 2 ^ 32;
          min_search_address = as_system_managed_base (mm_impl s);
          max_search_address = uadd (as_user_base (mm_impl s)) (as_user_size (mm_impl s));
          virtual_addr1 = (if virtual_addr0 < min_search_address then min_search_address else virtual_addr0)
      in do {
        assert_valid s virtual_addr1 0;
        if alignment = 0 then None
        else let virtual_addr = AlignUp virtual_addr1 alignment
             in do {
               (k, v) \<leftarrow> FindVMA s virtual_addr;
               if IsFree v \<and> vma_Contains v virtual_addr sz then Some virtual_addr
               else Some (search_free_loop (tl (om_from (mm_vma_map s) k)) max_search_address sz alignment)
             }
      })"

subsection \<open>Areas\<close>

partial_function (option) create_unmap_loop ::
  "mm \<Rightarrow> VAddr \<Rightarrow> VirtualMemoryArea \<Rightarrow> nat \<Rightarrow> mm option" where
  "create_unmap_loop s unmap_addr vma unmap_size =
     (if unmap_size = 0 then Some s
      else do {
        (unmapped, s1) \<leftarrow> UnmapBytesFromEntry s unmap_addr vma unmap_size;
        let unmap_addr' = uadd unmap_addr unmapped;
        (_, vma') \<leftarrow> FindVMA s1 unmap_addr';
        create_unmap_loop s1 unmap_addr' vma' (usub unmap_size unmapped)
      })"

text \<open>On the PS4, read is appended to write mappings.\<close>

definition append_read :: "MemoryProt \<Rightarrow> MemoryProt" where
  "append_read prot = (if has_flag prot ProtCpuWrite then prot OR ProtCpuRead else prot)"

definition area_attrs ::
  "MemoryProt \<Rightarrow> MemoryMapFlags \<Rightarrow> VMAType \<Rightarrow> string \<Rightarrow> VirtualMemoryArea \<Rightarrow> VirtualMemoryArea" where
  "area_attrs prot flags ty name v =
     v\<lparr>vma_disallow_merge := has_flag flags MapNoCoalesce, vma_prot := append_read prot,
       vma_name := name, vma_type := ty, vma_phys_areas := []\<rparr>"

definition CreateArea ::
  "mm \<Rightarrow> VAddr \<Rightarrow> nat \<Rightarrow> MemoryProt \<Rightarrow> MemoryMapFlags \<Rightarrow> VMAType \<Rightarrow> string \<Rightarrow> (VAddr \<times> mm) option" where
  "CreateArea s virtual_addr sz prot flags ty name =
     do {
       (_, vma0) \<leftarrow> FindVMA s virtual_addr;
       s1 \<leftarrow> (if has_flag flags MapFixed then create_unmap_loop s virtual_addr vma0 sz else Some s);
       (_, vma) \<leftarrow> FindVMA s1 virtual_addr;
       if \<not> IsFree vma then None
       else do {
         (h, m) \<leftarrow> carve_assign CarveVMA (area_attrs prot flags ty name) (mm_vma_map s1) virtual_addr sz;
         Some (h, s1\<lparr>mm_vma_map := m\<rparr>)
       }
     }"

subsection \<open>Finding physical memory for a mapping\<close>

text \<open>
  The loop of \<^verbatim>\<open>MapMemory\<close> (flexible memory) and of \<^verbatim>\<open>PoolCommit\<close>: it runs over a physical map
  from an iterator, takes areas of the usage \<open>wanted\<close> until the request is covered, gives what
  it takes a new usage, and records it in the areas of the new mapping.  The results are the
  uncovered size, the physical map, the areas of the mapping and the host calls, newest first.
\<close>

partial_function (option) backing_loop ::
  "PhysicalMemoryType \<Rightarrow> (PhysicalMemoryArea \<Rightarrow> PhysicalMemoryArea) \<Rightarrow> bool \<Rightarrow> VAddr \<Rightarrow>
   PAddr option \<Rightarrow> PhysMap \<Rightarrow> PhysMap \<Rightarrow> VAddr \<Rightarrow> nat \<Rightarrow> host_call list \<Rightarrow>
   (nat \<times> PhysMap \<times> PhysMap \<times> host_call list) option" where
  "backing_loop wanted f is_exec mapped_addr handle pm areas current_addr remaining_size calls =
     (case handle of
        None \<Rightarrow> Some (remaining_size, pm, areas, calls)
      | Some h \<Rightarrow>
          if remaining_size = 0 then Some (remaining_size, pm, areas, calls)
          else do {
            area \<leftarrow> om_lookup pm h;
            if pma_dma_type area \<noteq> wanted
            then backing_loop wanted f is_exec mapped_addr (map_option fst (om_next pm h)) pm areas
                   current_addr remaining_size calls
            else let size_to_map = min remaining_size (pma_size area);
                     offset = usub current_addr mapped_addr
                 in do {
                   (new_handle, pm1) \<leftarrow> carve_assign CarvePhysArea f pm (pma_base area) size_to_map;
                   new_area \<leftarrow> om_lookup pm1 new_handle;
                   (_, areas1) \<leftarrow> phys_MergeAdjacent (om_set offset new_area areas) offset;
                   (h1, pm2) \<leftarrow> phys_MergeAdjacent pm1 new_handle;
                   backing_loop wanted f is_exec mapped_addr (map_option fst (om_next pm2 h1)) pm2 areas1
                     (uadd current_addr size_to_map) (usub remaining_size size_to_map)
                     (HostMap current_addr size_to_map (pma_base new_area) is_exec # calls)
                 }
          })"

text \<open>\<^verbatim>\<open>map.begin()\<close>\<close>

definition om_begin :: "'v omap \<Rightarrow> nat option" where
  "om_begin m = (case m of [] \<Rightarrow> None | (k, v) # _ \<Rightarrow> Some k)"

text \<open>The loop of \<^verbatim>\<open>MapMemory\<close> for direct memory.\<close>

partial_function (option) direct_loop ::
  "PAddr \<Rightarrow> PhysMap \<Rightarrow> PhysMap \<Rightarrow> PAddr \<Rightarrow> nat \<Rightarrow> (PhysMap \<times> PhysMap) option" where
  "direct_loop phys_addr dmem areas current_phys_addr remaining_size =
     (if remaining_size = 0 then Some (dmem, areas)
      else do {
        (_, area) \<leftarrow> om_floor dmem current_phys_addr;
        let start_phys_addr = max current_phys_addr (pma_base area);
        let offset_in_dma = usub start_phys_addr (pma_base area);
        let size_in_dma = min (usub (pma_size area) offset_in_dma) remaining_size;
        (h, dmem1) \<leftarrow> carve_assign CarvePhysArea (\<lambda>a. a\<lparr>pma_dma_type := PMapped\<rparr>) dmem
                       start_phys_addr size_in_dma;
        new_area \<leftarrow> om_lookup dmem1 h;
        let offset_in_vma = usub current_phys_addr phys_addr;
        (_, areas1) \<leftarrow> phys_MergeAdjacent (om_set offset_in_vma new_area areas) offset_in_vma;
        (_, dmem2) \<leftarrow> phys_MergeAdjacent dmem1 h;
        direct_loop phys_addr dmem2 areas1 (uadd current_phys_addr size_in_dma)
          (usub remaining_size size_in_dma)
      })"

fun validate_dmem_loop :: "PhysMap \<Rightarrow> PAddr \<Rightarrow> bool \<Rightarrow> s32 option" where
  "validate_dmem_loop [] range_end validate_dmem = None"
| "validate_dmem_loop ((k, a) # rest) range_end validate_dmem =
     (if \<not> pma_base a < range_end then None
      else if pma_dma_type a \<noteq> PAllocated \<and> pma_dma_type a \<noteq> PMapped
      then Some ORBIS_KERNEL_ERROR_ENOMEM
      else if validate_dmem \<and> pma_dma_type a = PMapped then Some ORBIS_KERNEL_ERROR_EBUSY
      else validate_dmem_loop rest range_end validate_dmem)"

text \<open>The check of the physical range: \<open>Some None\<close> passes, \<open>Some (Some e)\<close> is an error.\<close>

definition validate_phys :: "mm \<Rightarrow> PAddr \<Rightarrow> nat \<Rightarrow> bool \<Rightarrow> s32 option option" where
  "validate_phys s phys_addr sz validate_dmem =
     (if phys_addr = minus_one then Some None
      else if mm_total_direct_size s < uadd phys_addr sz then Some (Some ORBIS_KERNEL_ERROR_ENOMEM)
      else do {
        (h, _) \<leftarrow> FindDmemArea s phys_addr;
        Some (validate_dmem_loop (om_from (mm_dmem_map s) h) (uadd phys_addr sz) validate_dmem)
      })"

text \<open>
  The choice of the virtual address, shared by \<^verbatim>\<open>MapMemory\<close> and \<^verbatim>\<open>MapFile\<close>: \<open>Inl\<close> is an error.
\<close>

definition choose_address :: "mm \<Rightarrow> VAddr \<Rightarrow> nat \<Rightarrow> MemoryMapFlags \<Rightarrow> nat \<Rightarrow> (s32 + VAddr) option" where
  "choose_address s virtual_addr sz flags alignment =
     (if has_flag flags MapFixed \<and> has_flag flags MapNoOverwrite
      then do {
        assert_valid s virtual_addr sz;
        (_, vma) \<leftarrow> FindVMA s virtual_addr;
        let remaining_size = usub (uadd (vma_base vma) (vma_size vma)) virtual_addr;
        if \<not> IsFree vma \<or> remaining_size < sz then Some (Inl ORBIS_KERNEL_ERROR_ENOMEM)
        else Some (Inr virtual_addr)
      }
      else if \<not> has_flag flags MapFixed
      then do {
        a \<leftarrow> SearchFree s (if virtual_addr = 0 then DEFAULT_MAPPING_BASE else virtual_addr) sz alignment;
        if a = minus_one then Some (Inl ORBIS_KERNEL_ERROR_ENOMEM) else Some (Inr a)
      }
      else Some (Inr virtual_addr))"

text \<open>Backing of the new area \<open>h\<close>, by type.\<close>

definition back_area ::
  "mm \<Rightarrow> VAddr \<Rightarrow> nat \<Rightarrow> VMAType \<Rightarrow> bool \<Rightarrow> PAddr \<Rightarrow> mm option" where
  "back_area s h sz ty is_exec phys_addr =
     do {
       new_vma \<leftarrow> om_lookup (mm_vma_map s) h;
       (if ty = VFlexible
        then do {
          (remaining, fmem, areas, calls) \<leftarrow>
            backing_loop PFree (\<lambda>a. a\<lparr>pma_dma_type := PFlexible\<rparr>) is_exec (vma_base new_vma)
              (om_begin (mm_fmem_map s)) (mm_fmem_map s) (vma_phys_areas new_vma) (vma_base new_vma) sz [];
          if remaining \<noteq> 0 then None
          else Some (s\<lparr>mm_fmem_map := fmem,
                       mm_vma_map := om_set h (new_vma\<lparr>vma_phys_areas := areas\<rparr>) (mm_vma_map s),
                       mm_flexible_usage := uadd (mm_flexible_usage s) (usub sz remaining),
                       mm_trace := calls @ mm_trace s\<rparr>)
        }
        else if ty = VDirect
        then do {
          (dmem, areas) \<leftarrow> direct_loop phys_addr (mm_dmem_map s) (vma_phys_areas new_vma) phys_addr sz;
          Some (s\<lparr>mm_dmem_map := dmem,
                  mm_vma_map := om_set h (new_vma\<lparr>vma_phys_areas := areas\<rparr>) (mm_vma_map s)\<rparr>)
        }
        else Some s)
     }"

definition MapMemory ::
  "mm \<Rightarrow> VAddr \<Rightarrow> nat \<Rightarrow> MemoryProt \<Rightarrow> MemoryMapFlags \<Rightarrow> VMAType \<Rightarrow> string \<Rightarrow> bool \<Rightarrow> PAddr \<Rightarrow> nat \<Rightarrow>
   ((s32 + VAddr) \<times> mm) option" where
  "MapMemory s virtual_addr sz prot flags ty name validate_dmem phys_addr alignment0 =
     (if ty = VFlexible \<and> uadd (mm_flexible_usage s) sz > mm_total_flexible_size s
      then Some (Inl ORBIS_KERNEL_ERROR_EINVAL, s)
      else do {
        err \<leftarrow> validate_phys s phys_addr sz validate_dmem;
        (case err of
           Some e \<Rightarrow> Some (Inl e, s)
         | None \<Rightarrow>
             let alignment = (if alignment0 > 0 then alignment0 else 16 * KB)
             in do {
               addr \<leftarrow> choose_address s virtual_addr sz flags alignment;
               (case addr of
                  Inl e \<Rightarrow> Some (Inl e, s)
                | Inr a \<Rightarrow>
                    do {
                      (h, s2) \<leftarrow> CreateArea (gpu_unmap a sz s) a sz prot flags ty name;
                      new_vma \<leftarrow> om_lookup (mm_vma_map s2) h;
                      let mapped_addr = vma_base new_vma;
                      let is_exec = has_flag prot ProtCpuExec;
                      s3 \<leftarrow> back_area s2 h sz ty is_exec phys_addr;
                      s4 \<leftarrow> (if ty \<noteq> VDirect \<or> mm_sdk_version s3 mod 2 ^ 32 \<ge> FW_200
                             then do { (_, m) \<leftarrow> vma_MergeAdjacent (mm_vma_map s3) h;
                                       Some (s3\<lparr>mm_vma_map := m\<rparr>) }
                             else Some s3);
                      let s5 =
                        (if ty \<noteq> VReserved \<and> ty \<noteq> VPoolReserved
                         then gpu_map mapped_addr sz
                                (if ty \<noteq> VFlexible
                                 then host (HostMap mapped_addr sz phys_addr is_exec) s4 else s4)
                         else s4);
                      Some (Inr mapped_addr, s5)
                    })
             })
      })"

text \<open>What the file handle table says about a descriptor.\<close>

record HostFile =
  hf_is_regular :: bool
  hf_writable :: bool
  hf_mapping :: nat

definition file_prot :: "HostFile \<Rightarrow> MemoryProt \<Rightarrow> MemoryProt" where
  "file_prot file prot =
     (let p = append_read prot
      in if \<not> hf_writable file then p AND NOT ProtCpuWrite else p)"

definition MapFile ::
  "(s32 \<Rightarrow> HostFile option) \<Rightarrow> mm \<Rightarrow> VAddr \<Rightarrow> nat \<Rightarrow> MemoryProt \<Rightarrow> MemoryMapFlags \<Rightarrow> s32 \<Rightarrow> int \<Rightarrow>
   ((s32 + VAddr) \<times> mm) option" where
  "MapFile files s virtual_addr sz prot flags fd phys_addr =
     (case files fd of
        None \<Rightarrow> Some (Inl ORBIS_KERNEL_ERROR_EBADF, s)
      | Some file \<Rightarrow>
          if \<not> hf_is_regular file then Some (Inl ORBIS_KERNEL_ERROR_EBADF, s)
          else let p1 = file_prot file prot in
            if p1 \<ge> ProtGpuRead then None
            else let p2 = (if has_flag p1 ProtCpuExec then p1 AND NOT ProtCpuExec else p1)
            in do {
              addr \<leftarrow> choose_address s virtual_addr sz flags (16 * KB);
              (case addr of
                 Inl e \<Rightarrow> Some (Inl e, s)
               | Inr a \<Rightarrow>
                   do {
                     (h, s2) \<leftarrow> CreateArea (gpu_unmap a sz s) a sz p2 flags VFile ''anon'';
                     new_vma \<leftarrow> om_lookup (mm_vma_map s2) h;
                     let s3 = s2\<lparr>mm_vma_map := om_set h (new_vma\<lparr>vma_fd := fd\<rparr>) (mm_vma_map s2)\<rparr>;
                     let mapped_addr = vma_base new_vma;
                     Some (Inr mapped_addr,
                           host (HostMapFile mapped_addr sz (nat (phys_addr mod int U64)) p2 (hf_mapping file)) s3)
                   })
            })"

subsection \<open>Committing pooled memory\<close>

definition pooled_attrs :: "MemoryProt \<Rightarrow> VirtualMemoryArea \<Rightarrow> VirtualMemoryArea" where
  "pooled_attrs prot v =
     v\<lparr>vma_disallow_merge := False, vma_prot := prot, vma_name := ''anon'', vma_type := VPooled,
       vma_phys_areas := []\<rparr>"

definition PoolCommit :: "mm \<Rightarrow> VAddr \<Rightarrow> nat \<Rightarrow> MemoryProt \<Rightarrow> s32 \<Rightarrow> (s32 \<times> mm) option" where
  "PoolCommit s virtual_addr sz prot mtype =
     do {
       assert_valid s virtual_addr sz;
       let mapped_addr = AlignUp virtual_addr (64 * KB);
       (_, vma) \<leftarrow> FindVMA s mapped_addr;
       if vma_type vma \<noteq> VPoolReserved then Some (ORBIS_KERNEL_ERROR_EINVAL, s)
       else if \<not> vma_Contains vma mapped_addr sz then Some (ORBIS_KERNEL_ERROR_EINVAL, s)
       else if mm_pool_budget s \<le> sz then Some (ORBIS_KERNEL_ERROR_ENOMEM, s)
       else do {
         (h, m1) \<leftarrow> carve_assign CarveVMA (pooled_attrs (append_read prot)) (mm_vma_map s) virtual_addr sz;
         new_vma \<leftarrow> om_lookup m1 h;
         (remaining, dmem, areas, calls) \<leftarrow>
           backing_loop PPooled (\<lambda>a. a\<lparr>pma_dma_type := PCommitted, pma_memory_type := mtype\<rparr>) False mapped_addr
             (om_begin (mm_dmem_map s)) (mm_dmem_map s) (vma_phys_areas new_vma) mapped_addr sz [];
         if remaining \<noteq> 0 then None
         else do {
           (_, m2) \<leftarrow> vma_MergeAdjacent (om_set h (new_vma\<lparr>vma_phys_areas := areas\<rparr>) m1) h;
           Some (ORBIS_OK,
             gpu_map mapped_addr sz
               (s\<lparr>mm_pool_budget := usub (mm_pool_budget s) sz, mm_dmem_map := dmem, mm_vma_map := m2,
                  mm_trace := calls @ mm_trace s\<rparr>))
         }
       }
     }"

end
