(* ===== verification/Orbit_Gather.thy ===== *)
theory Orbit_Gather
  imports Orbit_Startup Orbit_Map
begin

text \<open>
  How a new mapping gathers its physical memory.  The loops of \<^verbatim>\<open>MapMemory\<close> and \<^verbatim>\<open>PoolCommit\<close>
  (\<^verbatim>\<open>src/core/memory.cpp\<close>) take areas of a physical map one after the other, change their usage,
  and append each to the \<^verbatim>\<open>phys_areas\<close> of the mapping, merging in both maps as they go.
  \<open>gathered\<close> is the invariant of these loops; the section ends with what each loop delivers.
\<close>

subsection \<open>Appending a physical area\<close>

lemma set_om_set_subset: "set (om_set k v m) \<subseteq> insert (k, v) (set m)"
  by (induction k v m rule: om_set.induct) auto

lemma phys_chain_snoc:
  "phys_chain a (m @ [(k, r)]) n \<longleftrightarrow>
     phys_chain a m k \<and> 0 < pma_size r \<and> pma_base r + pma_size r < U64 \<and> n = k + pma_size r"
  by (induction a m k rule: phys_chain.induct) auto

lemma phys_chain_below: "phys_chain a m n \<Longrightarrow> \<forall>(k, r) \<in> set m. k < n"
  by (induction a m n rule: phys_chain.induct) (auto dest: phys_chain_le)

lemma add_piece:
  assumes c: "phys_chain 0 areas j" and b: "pma_size b = n" "0 < n" "pma_base b + n < U64" and j: "j + n < U64"
  obtains h areas' where "phys_MergeAdjacent (om_set j b areas) j = Some (h, areas')"
    and "phys_chain 0 areas' (j + n)"
    and "\<And>i. phys_at areas' i = (if j \<le> i \<and> i < j + n then Some (phys_content b (i - j)) else phys_at areas i)"
    and "\<And>off r. (off, r) \<in> set areas' \<Longrightarrow> (off, r) \<in> set areas \<or> r = b \<or>
           (\<exists>off' r'. (off', r') \<in> set areas \<and> phys_CanMergeWith r' b \<and> r = phys_join r' b)"
proof -
  note below = phys_chain_below [OF c]
  define m where "m = om_set j b areas"
  have m: "m = areas @ [(j, b)]" using om_set_snoc [OF below] by (simp add: m_def)
  have ch: "phys_chain 0 m (j + n)" using c b by (simp add: m phys_chain_snoc)
  then have t: "phys_tiled m (j + n)" using phys_tiled_chain [OF j] by simp
  have sa: "seg_ok pma_size in_u64 areas" using phys_chain_segs [OF c] j by simp
  note sinv = seg_ok_inv [OF sa]
  have sg: "seg_ok pma_size in_u64 m" using t by (simp add: phys_tiled_def phys_segs_def)
  note inv = seg_ok_inv [OF sg]
  have lk: "om_lookup m j = Some b" by (simp add: m_def om_lookup_set)
  have "om_lookup m k = None" if "j < k" for k
    using below that by (cases "om_lookup areas k") (force simp: m_def om_lookup_set om_lookup_in_set [OF sinv])+
  then have nx: "om_next m j = None" by (simp add: om.next_None [OF inv])
  have j1: "om_join_next phys_CanMergeWith phys_join m j = m" by (simp add: om_join_next_def lk nx)
  have eq: "phys_MergeAdjacent m j = Some (om_join_prev phys_CanMergeWith phys_join m j)"
    using phys_MergeAdjacent_eq [OF inv lk] by (simp add: j1)
  obtain h m' where mg: "phys_MergeAdjacent m j = Some (h, m')" and g: "\<exists>n. phys_tiled m' n"
    and den: "seg_den pma_size phys_content m' = seg_den pma_size phys_content m"
    using pt.merge_correct [OF exI [of "phys_tiled m", OF t] lk] by blast
  have "phys_tiled m' (j + n)" using g t den by (auto simp: phys_tiled_def phys_at_def)
  then have c': "phys_chain 0 m' (j + n)" using phys_tiled_chain [OF j] by simp
  have om: "om_lookup m = (om_lookup areas)(j \<mapsto> b)" by (simp add: m_def om_lookup_set)
  have at: "phys_at m' i = (if j \<le> i \<and> i < j + n then Some (phys_content b (i - j)) else phys_at areas i)" for i
  proof (cases "j \<le> i \<and> i < j + n")
    case True
    then show ?thesis using pt.den_holds [OF sg lk, of i] b by (simp add: phys_at_def den)
  next
    case False
    have "seg_den pma_size phys_content m i = seg_den pma_size phys_content areas i"
      using False b below
      by (intro pt.den_eqI [OF sg sa]) (force simp: om om_lookup_in_set [OF seg_ok_inv [OF sa]] split: if_splits)
    with False show ?thesis by (auto simp: phys_at_def den)
  qed
  have "(off, r) \<in> set areas \<or> r = b \<or>
      (\<exists>off' r'. (off', r') \<in> set areas \<and> phys_CanMergeWith r' b \<and> r = phys_join r' b)"
    if r: "(off, r) \<in> set m'" for off r
  proof (cases "\<exists>k0 p. om_prev m j = Some (k0, p) \<and> phys_CanMergeWith p b")
    case True
    then obtain k0 p where pv: "om_prev m j = Some (k0, p)" "phys_CanMergeWith p b" by blast
    have "(k0, p) \<in> set areas"
      using om.prev_lookup [OF inv pv(1)]
      by (simp add: m_def om_lookup_set om_lookup_in_set [OF sinv] split: if_splits)
    moreover have "(off, r) \<in> insert (k0, phys_join p b) (set m)"
      using r mg eq pv lk set_om_erase set_om_set_subset by (fastforce simp: om_join_prev_def)
    ultimately show ?thesis using pv(2) by (auto simp: m)
  next
    case False
    then have "m' = m" using mg eq lk by (auto simp: om_join_prev_def split: option.splits prod.splits if_splits)
    with r show ?thesis by (auto simp: m)
  qed
  with mg c' at show thesis by (intro that) (auto simp: m_def)
qed

text \<open>
  When the area at \<open>x\<close> is merged, an area that ends at \<open>x\<close> with the same tags becomes one with it.
\<close>

lemma phys_merge_joins:
  assumes m: "phys_keyed m" and x: "om_lookup m x = Some b" and mg: "phys_MergeAdjacent m x = Some (h, m')"
    and f: "seg_fits pma_size m y l" and l: "0 < l" "y + l = x"
    and tags: "phys_at m (x - 1) = Some (x - 1, pma_memory_type b, pma_dma_type b)"
  shows "seg_fits pma_size m' y (l + pma_size b)"
proof -
  note sg = phys_keyed_ok [OF m]
  note inv = seg_ok_inv [OF sg]
  obtain k0 p where k0: "om_lookup m k0 = Some p" "k0 \<le> y" "y + l \<le> k0 + pma_size p"
    using f pk.fits_iff [OF sg l(1)] by blast
  have end_p: "k0 + pma_size p = x" using pk.apart [OF sg k0(1) x] k0 l by simp
  have pv: "om_prev m x = Some (k0, p)"
    unfolding om.prev_Some [OF inv]
  proof (intro conjI allI impI)
    show "om_lookup m k0 = Some p" "k0 < x" using k0 l by simp_all
    show "om_lookup m k' = None" if "k0 < k' \<and> k' < x" for k'
      using pk.apart [OF sg k0(1), of k'] that end_p by (cases "om_lookup m k'") auto
  qed
  have pb: "pma_base p = k0" "pma_base b = x"
    using pk.lookupD(3) [OF sg k0(1)] pk.lookupD(3) [OF sg x] by (simp_all add: base_is_key_def)
  have tp: "pma_memory_type p = pma_memory_type b" "pma_dma_type p = pma_dma_type b"
    using phys_area_at [OF m k0(1), of "x - 1"] tags end_p k0 l by auto
  define m1 where "m1 = om_join_next phys_CanMergeWith phys_join m x"
  obtain a1 where k1: "phys_keyed m1" and x1: "om_lookup m1 x = Some a1" and s1: "pma_size b \<le> pma_size a1"
    and t1: "pma_base a1 = x" "pma_memory_type a1 = pma_memory_type b" "pma_dma_type a1 = pma_dma_type b"
    and below: "\<And>k. k < x \<Longrightarrow> om_lookup m1 k = om_lookup m k"
  proof (cases "\<exists>k2 c. om_next m x = Some (k2, c) \<and> phys_CanMergeWith b c")
    case True
    then obtain k2 c where nx: "om_next m x = Some (k2, c)" and j: "phys_CanMergeWith b c" by blast
    have m1: "m1 = om_erase k2 (om_set x (phys_join b c) m)" by (simp add: m1_def om_join_next_def x nx j)
    note jp = pk.join_pair [OF sg x nx j, folded m1]
    have "x < k2" using om.next_lookup [OF inv nx] by simp
    with jp pb show thesis by (intro that [of "phys_join b c"]) (auto simp: phys_keyed_def phys_join_def)
  next
    case False
    then have "m1 = m" using x by (auto simp: m1_def om_join_next_def split: option.splits)
    with m x pb show thesis by (intro that [of b]) simp_all
  qed
  note sg1 = phys_keyed_ok [OF k1]
  note inv1 = seg_ok_inv [OF sg1]
  have pv1: "om_prev m1 x = Some (k0, p)" using om.prev_cong [OF inv inv1 below] pv by simp
  have cm: "phys_CanMergeWith p a1"
    using pb tp t1 end_p pk.lookupD(2) [OF sg k0(1)] by (simp add: phys_CanMergeWith_def u64_exact)
  have k01: "om_lookup m1 k0 = Some p" using below [of k0] k0 l by simp
  note jp = pk.join_pair [OF sg1 k01 om.next_of_prev [OF inv1 x1 pv1] cm]
  have "m' = om_erase x (om_set k0 (phys_join p a1) m1)"
    using mg phys_MergeAdjacent_eq [OF inv x] by (auto simp: m1_def [symmetric] om_join_prev_def x1 pv1 cm)
  with jp have sg': "seg_ok pma_size base_is_key m'" and "om_lookup m' k0 = Some (phys_join p a1)"
    and "pma_size (phys_join p a1) = pma_size p + pma_size a1"
    using k0 l by auto
  then show ?thesis
    using pk.fits_iff [OF sg', of "l + pma_size b" y] l k0 s1 end_p
    by (auto intro!: exI [of _ k0] exI [of _ "phys_join p a1"])
qed

subsection \<open>The invariant of the loops\<close>

text \<open>Two sets of bytes that get a new usage one after the other.\<close>

lemma retagged_trans:
  assumes a: "retagged M M' A g d" and b: "retagged M' M'' B g d" and dis: "B \<inter> A = {}"
  shows "retagged M M'' (A \<union> B) g d"
  unfolding retagged_def
proof (intro conjI allI impI)
  show "phys_keyed M''" using b by (simp add: retagged_def)
  show "phys_at M'' p = (if p \<in> A \<union> B then map_option (\<lambda>(q, t, _). (q, g t, d)) (phys_at M p) else phys_at M p)" for p
  proof -
    have "phys_at M'' p = (if p \<in> B then map_option (\<lambda>(q, t, _). (q, g t, d)) (phys_at M' p) else phys_at M' p)"
      and "phys_at M' p = (if p \<in> A then map_option (\<lambda>(q, t, _). (q, g t, d)) (phys_at M p) else phys_at M p)"
      using a b by (simp_all add: retagged_def)
    with dis show ?thesis by auto
  qed
  show "seg_fits pma_size M'' y l"
    if "0 < l" "seg_fits pma_size M y l" "{y ..< y + l} \<inter> (A \<union> B) = {}" for y l
  proof -
    from that(3) have "{y ..< y + l} \<inter> A = {}" "{y ..< y + l} \<inter> B = {}" by auto
    with that(1,2) a b show ?thesis unfolding retagged_def by blast
  qed
qed

lemma apart_intervals: "(0::nat) < l \<Longrightarrow> 0 < n \<Longrightarrow> {y ..< y + l} \<inter> {x ..< x + n} = {} \<longleftrightarrow> y + l \<le> x \<or> x + n \<le> y"
proof
  assume p: "0 < l" "0 < n" and e: "{y ..< y + l} \<inter> {x ..< x + n} = {}"
  show "y + l \<le> x \<or> x + n \<le> y"
  proof (rule ccontr)
    assume "\<not> (y + l \<le> x \<or> x + n \<le> y)"
    then have "max x y \<in> {y ..< y + l} \<inter> {x ..< x + n}" using p by auto
    with e show False by blast
  qed
qed auto

text \<open>
  \<open>gathered D0 D areas j A g d\<close>: from the physical map \<open>D0\<close> the bytes \<open>A\<close> have been taken, which
  leaves \<open>D\<close>; the list \<open>areas\<close> shows exactly these bytes, each once, at the offsets below \<open>j\<close>.
\<close>

definition gathered ::
  "PhysMap \<Rightarrow> PhysMap \<Rightarrow> PhysMap \<Rightarrow> nat \<Rightarrow> PAddr set \<Rightarrow> (s32 \<Rightarrow> s32) \<Rightarrow> PhysicalMemoryType \<Rightarrow> bool" where
  "gathered D0 D areas j A g d \<longleftrightarrow> retagged D0 D A g d \<and> phys_chain 0 areas j \<and>
     (\<forall>off r. (off, r) \<in> set areas \<longrightarrow> seg_fits pma_size D (pma_base r) (pma_size r)) \<and>
     (\<forall>i < j. \<exists>p t. phys_at areas i = Some (p, t, d) \<and> phys_at D p = Some (p, t, d)) \<and>
     A = {p. \<exists>i < j. \<exists>t. phys_at areas i = Some (p, t, d)} \<and>
     inj_on (\<lambda>i. fst (the (phys_at areas i))) {..< j}"

lemma gathered_start: "phys_keyed D \<Longrightarrow> gathered D D [] 0 {} g d"
  by (simp add: gathered_def retagged_refl)

text \<open>The usage a set of bytes has.\<close>

definition used_as :: "PhysMap \<Rightarrow> PhysicalMemoryType \<Rightarrow> PAddr set" where
  "used_as D d = {p. \<exists>t. phys_at D p = Some (p, t, d)}"

text \<open>One round of a loop, in the physical map: carve, change the usage, merge.\<close>

lemma take_area:
  assumes keyed: "phys_keyed D" and fl: "om_floor D x = Some (k, a)" and n: "0 < n" "x + n \<le> k + pma_size a"
    and r: "retag f g d"
  obtains D1 b h D2 c where "carve_assign CarvePhysArea f D x n = Some (x, D1)"
    and "om_lookup D1 x = Some b" and "pma_base b = x" "pma_size b = n" "x + n < U64"
      "pma_memory_type b = g (pma_memory_type a)" "pma_dma_type b = d"
    and "phys_MergeAdjacent D1 x = Some (h, D2)" and "om_lookup D2 h = Some c" "h \<le> x" "x + n \<le> h + pma_size c"
    and "retagged D D2 {x ..< x + n} g d"
    and "\<And>y. phys_at D2 y = (if x \<le> y \<and> y < x + n then Some (y, g (pma_memory_type a), d) else phys_at D y)"
    and "seg_fits pma_size D2 x n"
    and "\<And>y l. 0 < l \<Longrightarrow> y + l = x \<Longrightarrow> seg_fits pma_size D y l \<Longrightarrow>
          phys_at D (x - 1) = Some (x - 1, g (pma_memory_type a), d) \<Longrightarrow> seg_fits pma_size D2 y (l + n)"
proof -
  note sg = phys_keyed_ok [OF keyed]
  note l = om.floor_lookup [OF seg_ok_inv [OF sg] fl]
  have la: "k + pma_size a < U64" "pma_base a = k"
    using pk.lookupD [OF sg l(1)] by (simp_all add: base_is_key_def)
  have upd: "\<forall>b. pma_size b = n \<and> base_is_key x b \<and> (\<forall>i < n. phys_content b i = phys_content a (x - k + i)) \<longrightarrow>
      pma_size (f b) = n \<and> base_is_key x (f b) \<and> (\<forall>i < n. phys_content (f b) i = (x + i, g (pma_memory_type a), d))"
    using r n la l by (fastforce simp: retag_def base_is_key_def phys_content_def)
  obtain D1 b where ca: "carve_assign CarvePhysArea f D x n = Some (x, D1)"
    and sg1: "seg_ok pma_size base_is_key D1" and b: "om_lookup D1 x = Some (f b)" "pma_size (f b) = n"
    and c: "\<And>i. i < n \<Longrightarrow> phys_content b i = phys_content a (x - k + i)"
    and den1: "\<And>y. seg_den pma_size phys_content D1 y = (if x \<le> y \<and> y < x + n
        then Some (x + (y - x), g (pma_memory_type a), d) else seg_den pma_size phys_content D y)"
    by (rule pk.carve_assign_correct [OF sg fl n upd]) (rule that)
  have fb: "pma_base (f b) = x" "pma_memory_type (f b) = g (pma_memory_type a)" "pma_dma_type (f b) = d"
    using pk.lookupD(3) [OF sg1 b(1)] c [OF n(1)] r by (auto simp: base_is_key_def phys_content_def retag_def)
  have at1: "phys_at D1 y = (if x \<le> y \<and> y < x + n then Some (y, g (pma_memory_type a), d) else phys_at D y)" for y
    using den1 [of y] by (simp add: phys_at_def)
  have fits1: "seg_fits pma_size D1 y l" if "0 < l" "seg_fits pma_size D y l" "y + l \<le> x \<or> x + n \<le> y" for y l
    using pk.carve_assign_fits [OF sg fl n ca _ that] r by (simp add: retag_def)
  obtain h D2 c2 where mg: "phys_MergeAdjacent D1 x = Some (h, D2)" and sg2: "seg_ok pma_size base_is_key D2"
    and den2: "seg_den pma_size phys_content D2 = seg_den pma_size phys_content D1"
    and h: "om_lookup D2 h = Some c2" "h \<le> x" "x + n \<le> h + pma_size c2"
    using pk.merge_correct [OF sg1 b(1)] b(2) by metis
  have fits2: "seg_fits pma_size D2 y l" if "0 < l" "seg_fits pma_size D1 y l" for y l
    using pk.merge_fits [OF sg1 b(1) mg that] .
  have at2: "phys_at D2 y = (if x \<le> y \<and> y < x + n then Some (y, g (pma_memory_type a), d) else phys_at D y)" for y
    using at1 den2 by (simp add: phys_at_def)
  have rt: "retagged D D2 {x ..< x + n} g d"
    unfolding retagged_def
  proof (intro conjI allI impI)
    show "phys_keyed D2" using sg2 by (simp add: phys_keyed_def)
    show "phys_at D2 p = (if p \<in> {x ..< x + n} then map_option (\<lambda>(q, t, _). (q, g t, d)) (phys_at D p) else phys_at D p)" for p
      using fits_uniform [OF keyed fl n(2), of p] by (auto simp: at2)
    show "seg_fits pma_size D2 y l"
      if "0 < l" "seg_fits pma_size D y l" "{y ..< y + l} \<inter> {x ..< x + n} = {}" for y l
      using that fits2 [OF _ fits1] n(1) by (auto simp: apart_intervals)
  qed
  have own: "seg_fits pma_size D2 x n"
    using fits2 [OF n(1)] pk.fits_iff [OF sg1 n(1), of x] b by auto
  have jn: "seg_fits pma_size D2 y (l + n)" if "0 < l" "y + l = x" "seg_fits pma_size D y l"
    "phys_at D (x - 1) = Some (x - 1, g (pma_memory_type a), d)" for y l
    using phys_merge_joins [OF _ b(1) mg fits1 [OF that(1,3)] that(1,2)] that sg1 b fb
    by (simp add: at1 phys_keyed_def)
  have "x + n < U64" using la n by simp
  with ca b fb mg h rt at2 own jn show thesis by (intro that) auto
qed

lemma gatheredD:
  assumes "gathered D0 D areas j A g d"
  shows "phys_keyed D" and "phys_chain 0 areas j" and "retagged D0 D A g d"
    and "(off, r) \<in> set areas \<Longrightarrow> seg_fits pma_size D (pma_base r) (pma_size r)"
    and "i < j \<Longrightarrow> \<exists>p t. phys_at areas i = Some (p, t, d) \<and> phys_at D p = Some (p, t, d)"
    and "A = {p. \<exists>i < j. \<exists>t. phys_at areas i = Some (p, t, d)}"
    and "inj_on (\<lambda>i. fst (the (phys_at areas i))) {..< j}"
  using assms unfolding gathered_def retagged_def by blast+

text \<open>What a collected area says about its bytes.\<close>

lemma gathered_piece:
  assumes G: "gathered D0 D areas j A g d" and j: "j < U64" and r: "(off, r) \<in> set areas"
  shows "0 < pma_size r" and "pma_base r + pma_size r < U64"
    and "{pma_base r ..< pma_base r + pma_size r} \<subseteq> A"
    and "i < pma_size r \<Longrightarrow> phys_at D (pma_base r + i) = Some (pma_base r + i, pma_memory_type r, pma_dma_type r)"
proof -
  note g = gatheredD [OF G]
  have sa: "seg_ok pma_size in_u64 areas" by (rule phys_chain_segs [OF g(2) j])
  have lk: "om_lookup areas off = Some r" using r by (simp add: om_lookup_in_set [OF seg_ok_inv [OF sa]])
  have at: "phys_at areas (off + i) = Some (pma_base r + i, pma_memory_type r, pma_dma_type r) \<and> off + i < j"
    if i: "i < pma_size r" for i
    using pt.den_holds [OF sa lk, of "off + i"] phys_chain_entry [OF g(2) r] i
    by (simp add: phys_at_def phys_content_def)
  show "0 < pma_size r" "pma_base r + pma_size r < U64"
    using seg_ok_entry [OF sa r] by (simp_all add: in_u64_def)
  have in_A: "pma_base r + i \<in> A \<and> phys_at D (pma_base r + i) = Some (pma_base r + i, pma_memory_type r, pma_dma_type r)"
    if i: "i < pma_size r" for i
    using at [OF i] g(5) [of "off + i"] g(6) by auto
  then show "{pma_base r ..< pma_base r + pma_size r} \<subseteq> A"
    by (auto simp: le_iff_add)
  show "i < pma_size r \<Longrightarrow> phys_at D (pma_base r + i) = Some (pma_base r + i, pma_memory_type r, pma_dma_type r)"
    using in_A by blast
qed

text \<open>The new byte addresses are distinct from the old ones and from each other.\<close>

lemma shows_append:
  assumes A: "A = {p. \<exists>i < j. \<exists>t. phys_at areas i = Some (p, t, d)}"
    and sh: "\<And>i. i < j \<Longrightarrow> \<exists>p t. phys_at areas i = Some (p, t, d)"
    and inj: "inj_on (\<lambda>i. fst (the (phys_at areas i))) {..< j}"
    and new: "{x ..< x + n} \<inter> A = {}"
    and at: "\<And>i. phys_at areas' i = (if j \<le> i \<and> i < j + n then Some (x + (i - j), t, d) else phys_at areas i)"
  shows "A \<union> {x ..< x + n} = {p. \<exists>i < j + n. \<exists>t. phys_at areas' i = Some (p, t, d)}"
    and "inj_on (\<lambda>i. fst (the (phys_at areas' i))) {..< j + n}"
proof -
  let ?p = "\<lambda>i. fst (the (phys_at areas' i))"
  have old: "?p ` {..< j} = A" and nw: "?p ` {j ..< j + n} = {x ..< x + n}"
  proof -
    have "?p i = fst (the (phys_at areas i))" if "i < j" for i using that by (simp add: at)
    then have "?p ` {..< j} = (\<lambda>i. fst (the (phys_at areas i))) ` {..< j}" by (intro image_cong) auto
    also have "\<dots> = A" using sh by (force simp: A)
    finally show "?p ` {..< j} = A" .
    have "?p ` {j ..< j + n} = (\<lambda>i. x + (i - j)) ` {j ..< j + n}" by (intro image_cong) (auto simp: at)
    also have "\<dots> = {x ..< x + n}"
    proof -
      have "y \<in> (\<lambda>i. x + (i - j)) ` {j ..< j + n}" if "y \<in> {x ..< x + n}" for y
        using that by (intro image_eqI [of _ _ "j + (y - x)"]) auto
      then show ?thesis by auto
    qed
    finally show "?p ` {j ..< j + n} = {x ..< x + n}" .
  qed
  have split: "{..< j + n} = {..< j} \<union> {j ..< j + n}" by auto
  have "?p ` {..< j + n} = A \<union> {x ..< x + n}" by (simp add: split image_Un old nw)
  moreover have "?p ` {..< j + n} = {p. \<exists>i < j + n. \<exists>t. phys_at areas' i = Some (p, t, d)}"
  proof -
    have "\<exists>p t. phys_at areas' i = Some (p, t, d)" if "i < j + n" for i
      using that sh [of i] by (simp add: at)
    then show ?thesis by force
  qed
  ultimately show "A \<union> {x ..< x + n} = {p. \<exists>i < j + n. \<exists>t. phys_at areas' i = Some (p, t, d)}" by simp
  have "inj_on ?p {..< j}" using inj by (rule inj_on_cong [THEN iffD1, rotated]) (simp add: at)
  moreover have "inj_on ?p {j ..< j + n}" by (rule inj_onI) (auto simp: at)
  ultimately show "inj_on ?p {..< j + n}"
    unfolding split using new old nw by (subst inj_on_Un) blast
qed

text \<open>One round of a loop.\<close>

lemma gather_step:
  assumes G: "gathered D0 D areas j A g d"
    and fl: "om_floor D x = Some (k, a)" and n: "0 < n" "x + n \<le> k + pma_size a" and j: "j + n < U64"
    and r: "retag f g d" and new: "{x ..< x + n} \<inter> A = {}"
  obtains D1 b h D2 h' areas' c where "carve_assign CarvePhysArea f D x n = Some (x, D1)"
    and "om_lookup D1 x = Some b" and "pma_base b = x"
    and "phys_MergeAdjacent (om_set j b areas) j = Some (h', areas')"
    and "phys_MergeAdjacent D1 x = Some (h, D2)" and "om_lookup D2 h = Some c" "h \<le> x" "x + n \<le> h + pma_size c"
    and "gathered D0 D2 areas' (j + n) (A \<union> {x ..< x + n}) g d"
    and "\<And>i. phys_at areas' i = (if j \<le> i \<and> i < j + n then Some (x + (i - j), g (pma_memory_type a), d) else phys_at areas i)"
    and "\<And>y. phys_at D2 y = (if x \<le> y \<and> y < x + n then Some (y, g (pma_memory_type a), d) else phys_at D y)"
proof -
  note g = gatheredD [OF G]
  obtain D1 b h D2 c where ca: "carve_assign CarvePhysArea f D x n = Some (x, D1)"
    and b: "om_lookup D1 x = Some b" "pma_base b = x" "pma_size b = n" "x + n < U64"
      "pma_memory_type b = g (pma_memory_type a)" "pma_dma_type b = d"
    and mg: "phys_MergeAdjacent D1 x = Some (h, D2)" and h: "om_lookup D2 h = Some c" "h \<le> x" "x + n \<le> h + pma_size c"
    and rt: "retagged D D2 {x ..< x + n} g d"
    and at2: "\<And>y. phys_at D2 y = (if x \<le> y \<and> y < x + n then Some (y, g (pma_memory_type a), d) else phys_at D y)"
    and own: "seg_fits pma_size D2 x n"
    and jn: "\<And>y l. 0 < l \<Longrightarrow> y + l = x \<Longrightarrow> seg_fits pma_size D y l \<Longrightarrow>
          phys_at D (x - 1) = Some (x - 1, g (pma_memory_type a), d) \<Longrightarrow> seg_fits pma_size D2 y (l + n)"
    by (rule take_area [OF g(1) fl n r]) (rule that)
  have bx: "pma_base b + n < U64" using b by simp
  obtain h' areas' where ap: "phys_MergeAdjacent (om_set j b areas) j = Some (h', areas')"
    and ch': "phys_chain 0 areas' (j + n)"
    and at': "\<And>i. phys_at areas' i = (if j \<le> i \<and> i < j + n then Some (phys_content b (i - j)) else phys_at areas i)"
    and el: "\<And>off r. (off, r) \<in> set areas' \<Longrightarrow> (off, r) \<in> set areas \<or> r = b \<or>
           (\<exists>off' r'. (off', r') \<in> set areas \<and> phys_CanMergeWith r' b \<and> r = phys_join r' b)"
    by (rule add_piece [OF g(2) b(3) n(1) bx j]) (rule that)
  have at'': "phys_at areas' i = (if j \<le> i \<and> i < j + n then Some (x + (i - j), g (pma_memory_type a), d) else phys_at areas i)" for i
    using at' [of i] b by (simp add: phys_content_def)
  have "j < U64" using j by simp
  note piece = gathered_piece [OF G this]
  have pf': "seg_fits pma_size D2 (pma_base r) (pma_size r)" if "(off, r) \<in> set areas'" for off r
    using el [OF that]
  proof (elim disjE exE conjE)
    assume r: "(off, r) \<in> set areas"
    have "{pma_base r ..< pma_base r + pma_size r} \<inter> {x ..< x + n} = {}" using piece(3) [OF r] new by blast
    then show ?thesis using rt piece(1) [OF r] g(4) [OF r] by (simp add: retagged_def)
  next
    assume "r = b"
    then show ?thesis using own b by simp
  next
    fix off' r'
    assume r': "(off', r') \<in> set areas" and cm: "phys_CanMergeWith r' b" and r: "r = phys_join r' b"
    have e: "pma_base r' + pma_size r' = x" "pma_memory_type r' = g (pma_memory_type a)" "pma_dma_type r' = d"
      using cm b piece(2) [OF r'] by (auto simp: phys_CanMergeWith_def u64_exact split: if_splits)
    with piece(4) [OF r', of "pma_size r' - 1"] piece(1) [OF r']
    have "phys_at D (x - 1) = Some (x - 1, g (pma_memory_type a), d)" by simp
    then show ?thesis
      using jn [OF piece(1) [OF r'] e(1) g(4) [OF r']] bx b e(1) r by (simp add: phys_join_def u64_exact)
  qed
  have all: "\<exists>p t. phys_at areas' i = Some (p, t, d) \<and> phys_at D2 p = Some (p, t, d)" if "i < j + n" for i
  proof (cases "i < j")
    case True
    then obtain p t where p: "phys_at areas i = Some (p, t, d)" "phys_at D p = Some (p, t, d)" using g(5) by blast
    then have "p \<in> A" using g(6) True by auto
    then have "\<not> (x \<le> p \<and> p < x + n)" using new by auto
    with p True show ?thesis by (auto simp: at'' at2)
  next
    case False
    with that show ?thesis by (auto simp: at'' at2)
  qed
  have sh: "\<exists>p t. phys_at areas i = Some (p, t, d)" if "i < j" for i using g(5) [OF that] by blast
  have "gathered D0 D2 areas' (j + n) (A \<union> {x ..< x + n}) g d"
    unfolding gathered_def
    using retagged_trans [OF g(3) rt new] ch' pf' all shows_append [OF g(6) sh g(7) new at''] by blast
  with ca b(1,2) ap mg h at'' at2 show thesis by (intro that) auto
qed

subsection \<open>Direct memory\<close>

text \<open>
  The loop over a physical range that is present in the map: the mapping shows the range byte by
  byte, and the range has become mapped.
\<close>

lemma direct_loop_correct:
  assumes "gathered D0 D areas j {p ..< p + j} id PMapped"
    and "\<And>i. i < j \<Longrightarrow> \<exists>t. phys_at areas i = Some (p + i, t, PMapped)"
    and "\<And>q. p \<le> q \<Longrightarrow> q < p + n \<Longrightarrow> phys_at D0 q \<noteq> None"
    and "j \<le> n" and "p + n < U64"
  shows "\<exists>D' areas'. direct_loop p D areas (p + j) (n - j) = Some (D', areas') \<and>
     gathered D0 D' areas' n {p ..< p + n} id PMapped \<and>
     (\<forall>i < n. \<exists>t. phys_at areas' i = Some (p + i, t, PMapped))"
  using assms
proof (induction "n - j" arbitrary: j D areas rule: less_induct)
  case less
  show ?case
  proof (cases "j = n")
    case True
    then have "direct_loop p D areas (p + j) (n - j) = Some (D, areas)"
      by (subst direct_loop.simps) simp
    with True less.prems(1,2) show ?thesis by blast
  next
    case False
    note g = gatheredD [OF less.prems(1)]
    have jn: "j < n" using False less.prems(4) by simp
    have "phys_at D (p + j) \<noteq> None"
      using g(3) less.prems(3) [of "p + j"] jn by (auto simp: retagged_def)
    then obtain k a where fl: "om_floor D (p + j) = Some (k, a)" and k: "om_lookup D k = Some a" "k \<le> p + j"
      "p + j < k + pma_size a"
      using pk.den_floor [OF phys_keyed_ok [OF g(1)]] unfolding phys_at_def by metis
    have kb: "pma_base a = k" "k + pma_size a < U64"
      using pk.lookupD [OF phys_keyed_ok [OF g(1)] k(1)] by (simp_all add: base_is_key_def)
    define l where "l = min (pma_size a - (p + j - k)) (n - j)"
    have l: "0 < l" "p + j + l \<le> k + pma_size a" "j + l \<le> n" using k jn by (auto simp: l_def)
    have ar: "max (p + j) (pma_base a) = p + j" "usub (p + j) (pma_base a) = p + j - k"
      "min (usub (pma_size a) (p + j - k)) (n - j) = l" "usub (p + j) p = j" "uadd (p + j) l = p + (j + l)"
      "usub (n - j) l = n - (j + l)"
      using kb k l less.prems(5) by (auto simp: u64_exact l_def)
    have apart: "{p + j ..< p + j + l} \<inter> {p ..< p + j} = {}" by auto
    have jl: "j + l < U64" using l less.prems(5) by simp
    have rt: "retag (\<lambda>a. a\<lparr>pma_dma_type := PMapped\<rparr>) id PMapped" by (simp add: retag_def)
    obtain D1 b h D2 h' areas' where
      st: "carve_assign CarvePhysArea (\<lambda>a. a\<lparr>pma_dma_type := PMapped\<rparr>) D (p + j) l = Some (p + j, D1)"
      "om_lookup D1 (p + j) = Some b" "phys_MergeAdjacent (om_set j b areas) j = Some (h', areas')"
      "phys_MergeAdjacent D1 (p + j) = Some (h, D2)"
      and G: "gathered D0 D2 areas' (j + l) ({p ..< p + j} \<union> {p + j ..< p + j + l}) id PMapped"
      and at: "\<And>i. phys_at areas' i = (if j \<le> i \<and> i < j + l then Some (p + j + (i - j), id (pma_memory_type a), PMapped)
          else phys_at areas i)"
      by (rule gather_step [OF less.prems(1) fl l(1,2) jl rt apart]) (rule that)
    have "{p ..< p + j} \<union> {p + j ..< p + j + l} = {p ..< p + (j + l)}" by auto
    with G have G': "gathered D0 D2 areas' (j + l) {p ..< p + (j + l)} id PMapped" by simp
    have at': "\<exists>t. phys_at areas' i = Some (p + i, t, PMapped)" if "i < j + l" for i
      using that less.prems(2) [of i] by (auto simp: at)
    have step: "direct_loop p D areas (p + j) (n - j) = direct_loop p D2 areas' (p + (j + l)) (n - (j + l))"
      using jn by (subst direct_loop.simps) (simp add: fl ar st)
    show ?thesis
      unfolding step using l jn less.prems(5) less.prems(3)
      by (intro less.hyps [OF _ G' at']) auto
  qed
qed

subsection \<open>Flexible and pooled memory\<close>

lemma used_as_finite: "phys_keyed D \<Longrightarrow> finite (used_as D d)"
proof -
  assume m: "phys_keyed D"
  have "p < U64" if "phys_at D p = Some c" for p c
    using pk.den_Some [OF phys_keyed_ok [OF m], of p c] that pk.lookupD(2) [OF phys_keyed_ok [OF m]]
    unfolding phys_at_def by fastforce
  then have "used_as D d \<subseteq> {..< U64}" by (auto simp: used_as_def)
  then show ?thesis by (rule finite_subset) simp
qed

text \<open>The iterator has passed everything that could be taken.\<close>

definition none_below :: "PhysMap \<Rightarrow> PhysicalMemoryType \<Rightarrow> PAddr option \<Rightarrow> bool" where
  "none_below D d handle \<longleftrightarrow> (\<forall>p \<in> used_as D d. \<exists>h. handle = Some h \<and> h \<le> p)"

text \<open>Moving the iterator past an area of another usage.\<close>

lemma none_below_next:
  assumes m: "phys_keyed D" and h: "om_lookup D h = Some c" and ne: "pma_dma_type c \<noteq> w"
    and below: "\<And>p. p \<in> used_as D w \<Longrightarrow> h \<le> p"
  shows "none_below D w (map_option fst (om_next D h))"
  unfolding none_below_def
proof
  fix p assume p: "p \<in> used_as D w"
  note sg = phys_keyed_ok [OF m]
  note inv = seg_ok_inv [OF sg]
  obtain t where at: "phys_at D p = Some (p, t, w)" using p by (auto simp: used_as_def)
  then obtain k a where k: "om_lookup D k = Some a" "k \<le> p" "p < k + pma_size a"
    using pk.den_Some [OF sg, of p] unfolding phys_at_def by blast
  have "pma_dma_type a = w" using phys_area_at [OF m k] at by simp
  with h k ne have "k \<noteq> h" by auto
  moreover have "\<not> k < h" using pk.apart [OF sg k(1) h] below [OF p] k by auto
  ultimately have hk: "h < k" by simp
  show "\<exists>n. map_option fst (om_next D h) = Some n \<and> n \<le> p"
  proof (cases "om_next D h")
    case None
    then show ?thesis using om.next_None [OF inv] hk k(1) by auto
  next
    case (Some e)
    obtain k' v' where e: "e = (k', v')" by (cases e)
    from Some e have "k' \<le> k"
      using om.next_Some [OF inv, of h k' v'] hk k(1) by (metis linorder_not_le option.distinct(1))
    with Some e k show ?thesis by simp
  qed
qed

lemma none_below_begin: "phys_keyed D \<Longrightarrow> none_below D d (om_begin D)"
proof -
  assume m: "phys_keyed D"
  note sg = phys_keyed_ok [OF m]
  have "\<exists>h. om_begin D = Some h \<and> h \<le> p" if at: "phys_at D p = Some c" for p c
  proof -
    obtain k a where k: "(k, a) \<in> set D" "k \<le> p"
      using pk.den_Some [OF sg, of p c] at unfolding phys_at_def om_lookup_in_set [OF seg_ok_inv [OF sg]] by blast
    then obtain h v rest where D: "D = (h, v) # rest" by (cases D) auto
    have "h \<le> k" using k(1) seg_ok_inv [OF sg] by (auto simp: D om_inv_Cons intro: less_imp_le)
    with D k(2) show ?thesis by (simp add: om_begin_def)
  qed
  then show ?thesis by (auto simp: none_below_def used_as_def)
qed

text \<open>What the map still offers after a round.\<close>

lemma used_as_taken:
  assumes "\<And>y. phys_at D2 y = (if x \<le> y \<and> y < x + n then Some (y, t, d) else phys_at D y)" and "d \<noteq> w"
  shows "used_as D2 w = used_as D w - {x ..< x + n}"
  using assms by (auto simp: used_as_def)

lemma area_used_as:
  assumes "phys_keyed D" and "om_lookup D h = Some a" and "n \<le> pma_size a"
  shows "{h ..< h + n} \<subseteq> used_as D (pma_dma_type a)"
  using phys_area_at [OF assms(1,2)] assms(3) by (fastforce simp: used_as_def)

lemma gathered_other_usage:
  assumes G: "gathered D0 D areas j A g d" and "d \<noteq> w"
  shows "A \<inter> used_as D w = {}"
  using gatheredD(5,6) [OF G] assms(2) by (fastforce simp: used_as_def)

text \<open>
  The loop takes areas of the wanted usage from the iterator on until the request is covered.
  It covers the request whenever the map holds that many bytes of this usage.
\<close>

lemma om_from_next:
  assumes inv: "om_inv m" and h: "om_lookup m h = Some a" and nx: "om_next m h = Some (k, b)"
  shows "length (om_from m k) < length (om_from m h)"
proof -
  have hk: "h < k" using om.next_lookup [OF inv nx] by simp
  have sub: "om_from m k = filter (\<lambda>(j, v). k \<le> j) (om_from m h)"
    using hk by (auto simp: om_from_def intro: filter_cong)
  have "(h, a) \<in> set (om_from m h)" using h by (simp add: set_om_from om_lookup_in_set [OF inv])
  then show ?thesis unfolding sub using hk by (intro length_filter_less [of "(h, a)"]) auto
qed

definition backing_inv ::
  "PhysicalMemoryType \<Rightarrow> PhysMap \<Rightarrow> PAddr option \<Rightarrow> PhysMap \<Rightarrow> PhysMap \<Rightarrow> nat \<Rightarrow> PAddr set \<Rightarrow> (s32 \<Rightarrow> s32) \<Rightarrow>
   PhysicalMemoryType \<Rightarrow> nat \<Rightarrow> bool" where
  "backing_inv w D0 handle D areas j A g d n \<longleftrightarrow>
     gathered D0 D areas j A g d \<and> A \<subseteq> used_as D0 w \<and> none_below D w handle \<and>
     (handle = None \<or> om_lookup D (the handle) \<noteq> None) \<and> n - j \<le> card (used_as D w) \<and> j \<le> n"

lemma next_valid:
  "om_inv D \<Longrightarrow> map_option fst (om_next D h) = None \<or> om_lookup D (the (map_option fst (om_next D h))) \<noteq> None"
  using om.next_lookup [of D h] by (cases "om_next D h") force+

lemma backing_skip:
  assumes I: "backing_inv w D0 (Some h) D areas j A g d n" and jn: "j < n"
    and a: "om_lookup D h = Some a" "pma_dma_type a \<noteq> w"
  shows "backing_loop w f ex base (Some h) D areas (base + j) (n - j) calls =
      backing_loop w f ex base (map_option fst (om_next D h)) D areas (base + j) (n - j) calls"
    and "backing_inv w D0 (map_option fst (om_next D h)) D areas j A g d n"
    and "(case map_option fst (om_next D h) of None \<Rightarrow> 0 | Some h \<Rightarrow> length (om_from D h)) < length (om_from D h)"
proof -
  have G: "gathered D0 D areas j A g d" and nb: "none_below D w (Some h)" using I by (auto simp: backing_inv_def)
  note keyed = gatheredD(1) [OF G]
  note inv = seg_ok_inv [OF phys_keyed_ok [OF keyed]]
  show "backing_loop w f ex base (Some h) D areas (base + j) (n - j) calls =
      backing_loop w f ex base (map_option fst (om_next D h)) D areas (base + j) (n - j) calls"
    using jn a by (subst backing_loop.simps) simp
  have "none_below D w (map_option fst (om_next D h))"
    using nb by (intro none_below_next [OF keyed a]) (auto simp: none_below_def)
  with I next_valid [OF inv, of h] show "backing_inv w D0 (map_option fst (om_next D h)) D areas j A g d n"
    by (simp add: backing_inv_def)
  show "(case map_option fst (om_next D h) of None \<Rightarrow> 0 | Some h \<Rightarrow> length (om_from D h)) < length (om_from D h)"
  proof (cases "om_next D h")
    case None
    then show ?thesis using a by (auto simp: om_lookup_in_set [OF inv] om_from_def filter_empty_conv)
  next
    case (Some e)
    then show ?thesis using om_from_next [OF inv a(1), of "fst e" "snd e"] by simp
  qed
qed

lemma backing_take:
  assumes I: "backing_inv w D0 (Some h) D areas j A g d n" and jn: "j < n" and b: "base + n < U64"
    and rt: "retag f g d" and dw: "d \<noteq> w" and a: "om_lookup D h = Some a" "pma_dma_type a = w"
  obtains h1 D2 areas' l A' calls' where "0 < l"
    and "backing_loop w f ex base (Some h) D areas (base + j) (n - j) calls =
      backing_loop w f ex base h1 D2 areas' (base + (j + l)) (n - (j + l)) calls'"
    and "backing_inv w D0 h1 D2 areas' (j + l) A' g d n"
proof -
  have G0: "gathered D0 D areas j A g d" and A0: "A \<subseteq> used_as D0 w"
    and below: "\<And>p. p \<in> used_as D w \<Longrightarrow> h \<le> p" and cnt: "n - j \<le> card (used_as D w)"
    using I by (auto simp: backing_inv_def none_below_def)
  note g = gatheredD [OF G0]
  note sg = phys_keyed_ok [OF g(1)]
  have ab: "pma_base a = h" "0 < pma_size a" using pk.lookupD [OF sg a(1)] by (simp_all add: base_is_key_def)
  define l where "l = min (n - j) (pma_size a)"
  have l: "0 < l" "l \<le> pma_size a" "j + l \<le> n" using ab jn by (auto simp: l_def)
  have fl: "om_floor D h = Some (h, a)" by (rule om.floor_at_key [OF seg_ok_inv [OF sg] a(1)])
  have own: "{h ..< h + l} \<subseteq> used_as D w" using area_used_as [OF g(1) a(1) l(2)] a(2) by simp
  then have new: "{h ..< h + l} \<inter> A = {}" using gathered_other_usage [OF G0 dw] by blast
  have jl: "j + l < U64" and hl: "h + l \<le> h + pma_size a" using l b by simp_all
  obtain D1 b' h1 D2 h' areas' c where
    st: "carve_assign CarvePhysArea f D h l = Some (h, D1)" "om_lookup D1 h = Some b'" "pma_base b' = h"
      "phys_MergeAdjacent (om_set j b' areas) j = Some (h', areas')" "phys_MergeAdjacent D1 h = Some (h1, D2)"
    and h1: "om_lookup D2 h1 = Some c" "h1 \<le> h" "h + l \<le> h1 + pma_size c"
    and G: "gathered D0 D2 areas' (j + l) (A \<union> {h ..< h + l}) g d"
    and at: "\<And>y. phys_at D2 y = (if h \<le> y \<and> y < h + l then Some (y, g (pma_memory_type a), d) else phys_at D y)"
    by (rule gather_step [OF G0 fl l(1) hl jl rt new]) (rule that)
  note g2 = gatheredD [OF G]
  note left = used_as_taken [OF at dw]
  have ar: "usub (base + j) base = j" "min (n - j) (pma_size a) = l" "uadd (base + j) l = base + (j + l)"
    "usub (n - j) l = n - (j + l)"
    using l b by (auto simp: u64_exact l_def)
  have step: "backing_loop w f ex base (Some h) D areas (base + j) (n - j) calls =
      backing_loop w f ex base (map_option fst (om_next D2 h1)) D2 areas' (base + (j + l)) (n - (j + l))
        (HostMap (base + j) l (pma_base b') ex # calls)"
    using jn a(2) by (subst backing_loop.simps) (simp add: a(1) ab ar st)
  have "p \<in> used_as D0 w" if "p \<in> {h ..< h + l}" for p
  proof -
    have "p \<in> used_as D w" "p \<notin> A" using own new that by blast+
    then show ?thesis using g(3) by (auto simp: used_as_def retagged_def)
  qed
  with A0 have sub: "A \<union> {h ..< h + l} \<subseteq> used_as D0 w" by blast
  have "pma_dma_type c = d"
    using phys_area_at [OF g2(1) h1(1,2)] at [of h] h1(3) l(1) by simp
  then have nb: "none_below D2 w (map_option fst (om_next D2 h1))"
    using below h1(2) dw by (intro none_below_next [OF g2(1) h1(1)]) (auto simp: left intro: order_trans)
  have "n - (j + l) \<le> card (used_as D2 w)"
    using own cnt card_Diff_subset [OF _ own] by (simp add: left)
  with G sub nb next_valid [OF seg_ok_inv [OF phys_keyed_ok [OF g2(1)]], of h1] l(3)
  have "backing_inv w D0 (map_option fst (om_next D2 h1)) D2 areas' (j + l) (A \<union> {h ..< h + l}) g d n"
    by (simp add: backing_inv_def)
  then show thesis by (rule that [OF l(1) step])
qed

lemma backing_loop_correct:
  assumes "backing_inv w D0 handle D areas j A g d n" and "base + n < U64" and "retag f g d" and "d \<noteq> w"
  shows "\<exists>D' areas' A' calls'. backing_loop w f ex base handle D areas (base + j) (n - j) calls =
       Some (0, D', areas', calls') \<and> gathered D0 D' areas' n A' g d \<and> A' \<subseteq> used_as D0 w"
  using assms(1)
proof (induction "(n - j, case handle of None \<Rightarrow> 0 | Some h \<Rightarrow> length (om_from D h))"
    arbitrary: j D areas A handle calls rule: wf_induct_rule [OF wf_lex_prod [OF wf_less_than wf_less_than]])
  case 1
  note I = "1.prems"
  show ?case
  proof (cases "j = n")
    case True
    then have "backing_loop w f ex base handle D areas (base + j) (n - j) calls = Some (0, D, areas, calls)"
      by (subst backing_loop.simps) (simp split: option.split)
    with True I show ?thesis unfolding backing_inv_def by blast
  next
    case False
    then have jn: "j < n" using I by (simp add: backing_inv_def)
    then have "used_as D w \<noteq> {}" using I by (auto simp: backing_inv_def)
    with I obtain h where h: "handle = Some h" by (auto simp: backing_inv_def none_below_def)
    with I obtain a where a: "om_lookup D h = Some a" by (auto simp: backing_inv_def)
    note Ih = I [unfolded h]
    show ?thesis
    proof (cases "pma_dma_type a = w")
      case False
      note skip = backing_skip [OF Ih jn a False]
      show ?thesis unfolding h skip(1) using skip(2,3) by (intro "1.hyps") (simp_all add: h)
    next
      case True
      obtain h1 D2 areas' l A' calls' where "0 < l"
        and st: "backing_loop w f ex base (Some h) D areas (base + j) (n - j) calls =
          backing_loop w f ex base h1 D2 areas' (base + (j + l)) (n - (j + l)) calls'"
        and inv: "backing_inv w D0 h1 D2 areas' (j + l) A' g d n"
        by (rule backing_take [OF Ih jn assms(2-4) a True]) (rule that)
      then have "n - (j + l) < n - j" using jn by simp
      then show ?thesis unfolding h st using inv by (intro "1.hyps") simp_all
    qed
  qed
qed

end
