(* ===== verification/Orbit_MapLemmas.thy ===== *)
theory Orbit_MapLemmas
  imports Orbit_Gather
begin

text \<open>
  Mapping memory keeps the invariant.  The loops of \<open>MapMemory\<close> collect physical memory for a new
  area piece by piece; the lemmas here follow them, and conclude that the new pages show exactly
  the memory that was taken.
\<close>

subsection \<open>Adding backed pages\<close>

lemma old_page_not_taken:
  assumes ok: "mm_ok s" and y: "vma_at (mm_vma_map s) y = Some i" "pg_phys i = Some (p, t, d)"
    and kind: "(pg_type i = VFlexible) = (ty = VFlexible)"
    and A: "\<And>p t d. p \<in> A \<Longrightarrow> phys_at (kind_map s ty) p = Some (p, t, d) \<Longrightarrow>
              d \<notin> {PMapped, PCommitted, PFlexible}"
  shows "p \<notin> A"
proof
  assume "p \<in> A"
  moreover have "kind_map s (pg_type i) = kind_map s ty" using kind by (auto simp: kind_map_def)
  moreover have "phys_at (kind_map s (pg_type i)) p = Some (p, t, d)" "d = usage_of (pg_type i)"
    using mm_okD(4) [OF ok] y by (auto simp: backing_agrees_def)
  ultimately show False using A [of p t d] by (simp add: usage_of_def split: if_splits)
qed

lemma old_area_not_taken:
  assumes ok: "mm_ok s" and k: "om_lookup (mm_vma_map s) k = Some v"
    and kind: "(vma_type v = VFlexible) = (ty = VFlexible)"
    and A: "\<And>p t d. p \<in> A \<Longrightarrow> phys_at (kind_map s ty) p = Some (p, t, d) \<Longrightarrow>
              d \<notin> {PMapped, PCommitted, PFlexible}"
    and r: "om_lookup (vma_phys_areas v) off = Some r"
  shows "{pma_base r ..< pma_base r + pma_size r} \<inter> A = {}"
proof -
  have "q \<notin> A" if q: "pma_base r \<le> q" "q < pma_base r + pma_size r" for q
  proof -
    have "q - pma_base r < pma_size r" using q by simp
    then obtain c where "vma_at (mm_vma_map s) (k + off + (q - pma_base r)) = Some c"
      "pg_type c = vma_type v"
      "pg_phys c = Some (pma_base r + (q - pma_base r), pma_memory_type r, pma_dma_type r)"
      by (rule piece_page [OF mm_okD(1) [OF ok] k r])
    then show ?thesis using old_page_not_taken [OF ok _ _ _ A, of _ c] kind q by auto
  qed
  then show ?thesis by auto
qed

text \<open>The old areas still fit when a set of bytes they do not show got a new usage.\<close>

lemma old_area_fits:
  assumes ok: "mm_ok s" and k: "om_lookup (mm_vma_map s) k = Some v"
    and M': "retagged (kind_map s ty) M' A g d"
    and A: "\<And>p t d. p \<in> A \<Longrightarrow> phys_at (kind_map s ty) p = Some (p, t, d) \<Longrightarrow>
              d \<notin> {PMapped, PCommitted, PFlexible}"
    and maps: "\<And>ty'. K ty' = (if (ty' = VFlexible) = (ty = VFlexible) then M' else kind_map s ty')"
  shows "area_fits K v"
proof -
  note vok = vma_lookup_ok [OF mm_okD(1) [OF ok] k]
  note inv = vma_ok_areas_inv [OF vok(1)]
  show ?thesis
    unfolding area_fits_alt [OF inv]
  proof (intro allI impI)
    fix off r
    assume r: "om_lookup (vma_phys_areas v) off = Some r"
    have old: "seg_fits pma_size (kind_map s (vma_type v)) (pma_base r) (pma_size r)"
      using pieces_fit_lookup [OF ok k] r by (simp add: area_fits_alt [OF inv])
    have "vma_phys_areas v \<noteq> []" using r by auto
    then have pos: "0 < pma_size r"
      using vok(1) phys_tiled_lookup(1) [OF _ r] by (auto simp: vma_ok_def split: if_splits)
    show "seg_fits pma_size (K (vma_type v)) (pma_base r) (pma_size r)"
    proof (cases "(vma_type v = VFlexible) = (ty = VFlexible)")
      case True
      then have "kind_map s (vma_type v) = kind_map s ty" by (auto simp: kind_map_def)
      with old pos old_area_not_taken [OF ok k True A r] M' True show ?thesis
        by (simp add: retagged_def maps)
    next
      case False
      then show ?thesis using old by (simp add: maps)
    qed
  qed
qed

text \<open>
  Pages of type \<open>ty\<close> are put at addresses that showed no memory, backed by distinct bytes that
  were free, allocated or pooled; these bytes get the usage that belongs to the type.
\<close>

lemma mm_ok_acquire:
  assumes ok: "mm_ok s"
    and m': "vma_map_ok (mm_vma_map s')"
    and at: "\<And>y. vma_at (mm_vma_map s') y =
        (if x \<le> y \<and> y < x + n then Some (c (y - x)) else vma_at (mm_vma_map s) y)"
    and M': "retagged (kind_map s ty) M' A g d"
    and A: "\<And>p t d. p \<in> A \<Longrightarrow> phys_at (kind_map s ty) p = Some (p, t, d) \<Longrightarrow>
              d \<notin> {PMapped, PCommitted, PFlexible}"
    and c: "\<And>i. i < n \<Longrightarrow> pg_type (c i) = ty"
    and cp: "\<And>i p t d. i < n \<Longrightarrow> pg_phys (c i) = Some (p, t, d) \<Longrightarrow>
              p \<in> A \<and> phys_at M' p = Some (p, t, d) \<and> d = usage_of ty"
    and inj: "\<And>i j p t d t' d'. i < n \<Longrightarrow> j < n \<Longrightarrow> pg_phys (c i) = Some (p, t, d) \<Longrightarrow>
              pg_phys (c j) = Some (p, t', d') \<Longrightarrow> i = j"
    and maps: "\<And>ty'. kind_map s' ty' = (if (ty' = VFlexible) = (ty = VFlexible) then M' else kind_map s ty')"
    and fits: "\<And>j b. om_lookup (mm_vma_map s') j = Some b \<Longrightarrow> area_fits (kind_map s') b"
    and total: "mm_total_direct_size s' = mm_total_direct_size s" and us: "mm_flexible_usage s' < U64"
  shows "mm_ok s'"
proof -
  note D = mm_okD [OF ok]
  have same: "kind_map s ty' = kind_map s ty" if "(ty' = VFlexible) = (ty = VFlexible)" for ty'
    using that by (auto simp: kind_map_def)
  have keyed: "phys_keyed M'" and at': "\<And>p. p \<notin> A \<Longrightarrow> phys_at M' p = phys_at (kind_map s ty) p"
    and dom: "\<And>p. phys_at M' p = None \<longleftrightarrow> phys_at (kind_map s ty) p = None"
    using M' by (auto simp: retagged_def)
  have "dmem_ok s' \<and> phys_keyed (mm_fmem_map s')"
    using D(2,3) keyed dom maps [of VDirect] maps [of VFlexible] total
    by (auto simp: dmem_ok_def kind_map_def split: if_splits simp del: not_None_eq)
  moreover have "backing_agrees s'"
    unfolding backing_agrees_def
  proof (intro allI impI)
    fix y i p t d
    assume i: "vma_at (mm_vma_map s') y = Some i" "pg_phys i = Some (p, t, d)"
    show "phys_at (kind_map s' (pg_type i)) p = Some (p, t, d) \<and> d = usage_of (pg_type i)"
    proof (cases "x \<le> y \<and> y < x + n")
      case True
      then have "y - x < n" "i = c (y - x)" using i at by auto
      then show ?thesis using c cp [of "y - x" p t d] i maps by auto
    next
      case False
      then have o: "vma_at (mm_vma_map s) y = Some i" using i at [of y] by (auto split: if_splits)
      then have "phys_at (kind_map s (pg_type i)) p = Some (p, t, d) \<and> d = usage_of (pg_type i)"
        using D(4) i by (auto simp: backing_agrees_def)
      with old_page_not_taken [OF ok o i(2) _ A] at' same [of "pg_type i"] show ?thesis
        by (auto simp: maps)
    qed
  qed
  moreover have "no_alias s'"
    unfolding no_alias_def
  proof (intro allI impI)
    fix y z i j p t d t' d'
    assume i: "vma_at (mm_vma_map s') y = Some i" "pg_phys i = Some (p, t, d)"
      and j: "vma_at (mm_vma_map s') z = Some j" "pg_phys j = Some (p, t', d')"
      and k: "(pg_type i = VFlexible) = (pg_type j = VFlexible)"
    have taken: "p \<in> A \<and> pg_type e = ty \<and> e = c (u - x) \<and> u - x < n"
      if "x \<le> u \<and> u < x + n" "vma_at (mm_vma_map s') u = Some e" "pg_phys e = Some (p, w)" for u e w
    proof -
      from that have "u - x < n" "e = c (u - x)" using at by auto
      with cp [of "u - x" p "fst w" "snd w"] c that show ?thesis by auto
    qed
    have kept: "p \<notin> A"
      if "\<not> (x \<le> u \<and> u < x + n)" "vma_at (mm_vma_map s') u = Some e" "pg_phys e = Some (p, w)"
        "(pg_type e = VFlexible) = (ty = VFlexible)" for u e w
      using old_page_not_taken [OF ok _ _ that(4) A, of u p "fst w" "snd w"] that(1-3) at by auto
    show "y = z"
    proof (cases "x \<le> y \<and> y < x + n"; cases "x \<le> z \<and> z < x + n")
      assume "x \<le> y \<and> y < x + n" "x \<le> z \<and> z < x + n"
      with taken i j inj [of "y - x" "z - x"] show ?thesis by (metis eq_diff_iff)
    next
      assume "\<not> (x \<le> y \<and> y < x + n)" "\<not> (x \<le> z \<and> z < x + n)"
      then show ?thesis using D(5) i j k at by (auto simp: no_alias_def)
    qed (use taken kept i j k in metis)+
  qed
  moreover have "pieces_fit s'" by (rule pieces_fitI [OF m' fits])
  ultimately show ?thesis using m' us by (simp add: mm_ok_def)
qed

subsection \<open>A new use for memory that no mapping shows\<close>

lemma mm_ok_repurpose:
  assumes ok: "mm_ok s" and r: "retagged (mm_dmem_map s) D A g d"
    and A: "\<And>p t d. p \<in> A \<Longrightarrow> phys_at (mm_dmem_map s) p = Some (p, t, d) \<Longrightarrow>
              d \<notin> {PMapped, PCommitted, PFlexible}"
  shows "mm_ok (s\<lparr>mm_dmem_map := D\<rparr>)"
proof (rule mm_ok_acquire [OF ok, where x = 0 and n = 0 and ty = VDirect and A = A and g = g and d = d])
  show rk: "retagged (kind_map s VDirect) D A g d" using r by (simp add: kind_map_def)
  show Ak: "d \<notin> {PMapped, PCommitted, PFlexible}"
    if "p \<in> A" "phys_at (kind_map s VDirect) p = Some (p, t, d)" for p t d
    using A that by (simp add: kind_map_def)
  show maps: "kind_map (s\<lparr>mm_dmem_map := D\<rparr>) ty' =
      (if (ty' = VFlexible) = (VDirect = VFlexible) then D else kind_map s ty')" for ty'
    by (simp add: kind_map_def)
  show "area_fits (kind_map (s\<lparr>mm_dmem_map := D\<rparr>)) b"
    if "om_lookup (mm_vma_map (s\<lparr>mm_dmem_map := D\<rparr>)) j = Some b" for j b
    using that by (intro old_area_fits [OF ok _ rk Ak maps]) simp_all
qed (use mm_okD [OF ok] in auto)

lemma retagged_interval:
  assumes "phys_keyed m'" and "keeps_fits m m' x n" and n: "0 < n"
    and present: "\<And>y. x \<le> y \<Longrightarrow> y < x + n \<Longrightarrow> \<exists>t d. phys_at m y = Some (y, t, d)"
    and "\<And>y. phys_at m' y = (if x \<le> y \<and> y < x + n then Some (y, mt, d) else phys_at m y)"
  shows "retagged m m' {x ..< x + n} (\<lambda>_. mt) d"
  unfolding retagged_def
proof (intro conjI allI impI)
  show "phys_at m' p = (if p \<in> {x ..< x + n} then map_option (\<lambda>(q, t, _). (q, mt, d)) (phys_at m p) else phys_at m p)" for p
    using present [of p] assms(5) [of p] by auto
  show "seg_fits pma_size m' y l"
    if l: "0 < l" "seg_fits pma_size m y l" "{y ..< y + l} \<inter> {x ..< x + n} = {}" for y l
    using assms(2) l n by (auto simp: keeps_fits_def apart_intervals)
qed (rule assms(1))

text \<open>An allocation takes free memory, so it keeps the invariant.\<close>

lemma mm_ok_take_free:
  assumes ok: "mm_ok s" and su: "suits (mm_dmem_map s) lo sz al r" and n: "0 < sz"
    and k: "phys_keyed m'" "keeps_fits (mm_dmem_map s) m' r sz"
    and at: "\<And>x. phys_at m' x = (if r \<le> x \<and> x < r + sz then Some (x, mt, d) else phys_at (mm_dmem_map s) x)"
  shows "mm_ok (s\<lparr>mm_dmem_map := m'\<rparr>)"
proof -
  have dk: "dmem_ok s" by (rule mm_okD(2) [OF ok])
  then have km: "phys_keyed (mm_dmem_map s)" by (simp add: dmem_ok_def)
  obtain j a where j: "om_lookup (mm_dmem_map s) j = Some a" "pma_dma_type a = PFree" "j \<le> r" "r + sz \<le> j + pma_size a"
    using su by (auto simp: suits_iff om_lookup_in_set [OF dmem_ok_inv [OF dk]])
  have free: "phys_at (mm_dmem_map s) y = Some (y, pma_memory_type a, PFree)" if "r \<le> y" "y < r + sz" for y
    using phys_area_at [OF km j(1), of y] that j by simp
  show ?thesis
    by (rule mm_ok_repurpose [OF ok retagged_interval [OF k n _ at]]) (use free in auto)
qed

end
