(* ===== verification/Orbit_MapMemory.thy ===== *)
theory Orbit_MapMemory
  imports Orbit_MapLemmas
begin

text \<open>
  What \<^verbatim>\<open>MapMemory\<close> promises (\<^verbatim>\<open>src/core/memory.cpp\<close>): the new pages have the requested type,
  protection and name, show the memory that was gathered for them, every other page is as it was,
  and the invariant of the manager is kept.
\<close>

subsection \<open>The new area\<close>

definition mapped_page :: "MemoryProt \<Rightarrow> MemoryMapFlags \<Rightarrow> VMAType \<Rightarrow> string \<Rightarrow> PhysMap \<Rightarrow> nat \<Rightarrow> page_info" where
  "mapped_page prot flags ty name areas i =
     \<lparr>pg_type = ty, pg_prot = append_read prot, pg_name = name,
      pg_disallow_merge = has_flag flags MapNoCoalesce, pg_phys = phys_at areas i\<rparr>"

lemma om_set_twice: "om_inv m \<Longrightarrow> om_set k a (om_set k b m) = om_set k a m"
  by (rule om_ext) (auto simp: om_inv_set om_lookup_set)

text \<open>Storing the physical areas into a freshly carved area.\<close>

definition with_areas :: "PhysMap \<Rightarrow> VirtualMemoryArea \<Rightarrow> VirtualMemoryArea" where
  "with_areas areas v = v\<lparr>vma_phys_areas := areas\<rparr>"

text \<open>
  \<open>sets_page F ty areas page\<close>: the assignment \<open>F\<close> makes an area of type \<open>ty\<close> with the physical
  areas \<open>areas\<close>, whose addresses are described by \<open>page\<close>.
\<close>

definition sets_page ::
  "(VirtualMemoryArea \<Rightarrow> VirtualMemoryArea) \<Rightarrow> VMAType \<Rightarrow> PhysMap \<Rightarrow> (nat \<Rightarrow> page_info) \<Rightarrow> bool" where
  "sets_page F ty areas page \<longleftrightarrow>
     (\<forall>b. vma_size (F b) = vma_size b \<and> vma_base (F b) = vma_base b \<and> vma_type (F b) = ty \<and>
          vma_phys_areas (F b) = areas \<and> (\<forall>i. vma_content (F b) i = page i))"

lemma sets_page_content:
  assumes "sets_page F ty areas page"
  shows "pg_phys (page i) = phys_at areas i" and "pg_type (page i) = ty"
proof -
  define b where "b = F (free_vma 0 0)"
  have "page i = vma_content b i" "vma_phys_areas b = areas" "vma_type b = ty"
    using assms by (simp_all add: sets_page_def b_def)
  then show "pg_phys (page i) = phys_at areas i" and "pg_type (page i) = ty"
    by (simp_all add: vma_content_def)
qed

lemma sets_mapped_page:
  "sets_page (\<lambda>b. with_areas areas (area_attrs prot flags ty name b)) ty areas (mapped_page prot flags ty name areas)"
  by (simp add: sets_page_def with_areas_def area_attrs_def mapped_page_def vma_content_def)

lemma area_assigned:
  assumes m: "vma_map_ok m" and f: "om_floor m x = Some (k, v)" and n: "0 < n" "x + n \<le> k + vma_size v"
    and bk: "if ty = VDirect \<or> ty = VFlexible \<or> ty = VPooled then phys_tiled areas n else areas = []"
    and F: "sets_page F ty areas page"
    and M: "\<And>ty. phys_keyed (M ty)" and old: "\<And>j b. om_lookup m j = Some b \<Longrightarrow> area_fits M b"
    and new: "\<And>off r. (off, r) \<in> set areas \<Longrightarrow> seg_fits pma_size (M ty) (pma_base r) (pma_size r)"
  obtains m1 h m2 where "carve_assign CarveVMA F m x n = Some (x, m1)" and "vma_MergeAdjacent m1 x = Some (h, m2)"
    and "\<And>m'. m' \<in> {m1, m2} \<Longrightarrow> vma_map_ok m'"
    and "\<And>m' y. m' \<in> {m1, m2} \<Longrightarrow> vma_at m' y = (if x \<le> y \<and> y < x + n then Some (page (y - x)) else vma_at m y)"
    and "\<And>m' j b. m' \<in> {m1, m2} \<Longrightarrow> om_lookup m' j = Some b \<Longrightarrow> area_fits M b"
proof -
  note sg = m [unfolded vma_map_ok_def]
  have upd: "\<forall>b. vma_size b = n \<and> vma_ok x b \<and> (\<forall>i < n. vma_content b i = vma_content v (x - k + i)) \<longrightarrow>
      vma_size (F b) = n \<and> vma_ok x (F b) \<and> (\<forall>i < n. vma_content (F b) i = page i)"
    using bk F by (auto simp: sets_page_def vma_ok_def HasPhysicalBacking_def)
  obtain m1 b where ca: "carve_assign CarveVMA F m x n = Some (x, m1)" and ok1: "seg_ok vma_size vma_ok m1"
    and lk: "om_lookup m1 x = Some (F b)"
    and den1: "\<And>y. seg_den vma_size vma_content m1 y = (if x \<le> y \<and> y < x + n
        then Some (page (y - x)) else seg_den vma_size vma_content m y)"
    by (rule vm.carve_assign_correct [OF sg f n upd]) (rule that)
  obtain h m2 where mg: "vma_MergeAdjacent m1 x = Some (h, m2)" and ok2: "seg_ok vma_size vma_ok m2"
    and den2: "seg_den vma_size vma_content m2 = seg_den vma_size vma_content m1"
    using vm.merge_correct [OF ok1 lk] by metis
  have st: "vma_stable (area_fits M)" by (rule area_fits_stable [OF M])
  have fF: "area_fits M (F b)" for b using new F by (auto simp: area_fits_def sets_page_def)
  have fits1: "area_fits M b" if "om_lookup m1 j = Some b" for j b
  proof -
    obtain c m0 where cv: "CarveVMA m x n = Some (x, m0)" and c: "m1 = om_set x (F c) m0"
      using ca by (auto simp: carve_assign_def split: Option.bind_splits)
    have "area_fits M e" if "om_lookup m0 i = Some e" for i e
    proof (rule vm.carve_all [OF sg f n cv _ _ that, where P = "area_fits M"])
      show "area_fits M b" if "om_lookup m j = Some b" for j b by (rule old [OF that])
    qed (use st in \<open>unfold vma_stable_def, blast\<close>)
    with that c fF show ?thesis by (auto simp: om_lookup_set split: if_splits)
  qed
  have fits2: "area_fits M b" if "om_lookup m2 j = Some b" for j b
  proof (rule vm.merge_all [OF ok1 lk mg _ _ that, where P = "area_fits M"])
    show "area_fits M b" if "om_lookup m1 j = Some b" for j b by (rule fits1 [OF that])
  qed (use st in \<open>unfold vma_stable_def, blast\<close>)
  show thesis
    using ca mg ok1 ok2 den1 den2 fits1 fits2 by (intro that) (auto simp: vma_map_ok_def vma_at_def)
qed

text \<open>The two assignments of the code, attributes first and physical areas later, as one.\<close>

lemma assign_twice:
  assumes m: "vma_map_ok m" and f: "om_floor m x = Some (k, v)" and n: "0 < n" "x + n \<le> k + vma_size v"
    and G: "\<And>b. vma_base (G b) = vma_base b"
  obtains m0 b where "carve_assign CarveVMA G m x n = Some (x, m0)" and "om_lookup m0 x = Some (G b)"
    and "vma_base b = x"
    and "\<And>areas. carve_assign CarveVMA (\<lambda>b. with_areas areas (G b)) m x n = Some (x, om_set x (with_areas areas (G b)) m0)"
proof -
  note sg = m [unfolded vma_map_ok_def]
  obtain mc b where cv: "CarveVMA m x n = Some (x, mc)" and ok: "seg_ok vma_size vma_ok mc"
    and b: "om_lookup mc x = Some b"
    by (rule vm.carve_correct [OF sg f n]) (rule that)
  have "vma_base b = x" using vm.lookupD(3) [OF ok b] by (simp add: vma_ok_def)
  with cv b om_set_twice [OF seg_ok_inv [OF ok]] show thesis
    by (intro that [of "om_set x (G b) mc" b]) (auto simp: carve_assign_def om_lookup_set)
qed

subsection \<open>The state after the mapping\<close>

abbreviation backed :: "VMAType \<Rightarrow> bool" where
  "backed ty \<equiv> ty = VDirect \<or> ty = VFlexible \<or> ty = VPooled"

text \<open>
  What a mapping of \<open>n\<close> bytes of type \<open>ty\<close> is backed by: the bytes \<open>A\<close> gathered from the physical
  map of the type, or nothing for the types that have no physical memory.
\<close>

definition backing_for ::
  "mm \<Rightarrow> VMAType \<Rightarrow> nat \<Rightarrow> PhysMap \<Rightarrow> PhysMap \<Rightarrow> PAddr set \<Rightarrow> (s32 \<Rightarrow> s32) \<Rightarrow> bool" where
  "backing_for s ty n M' areas A g \<longleftrightarrow>
     (if backed ty then gathered (kind_map s ty) M' areas n A g (usage_of ty)
      else areas = [] \<and> A = {} \<and> M' = kind_map s ty)"

lemma phys_at_Nil [simp]: "phys_at [] i = None"
  by (simp add: phys_at_def seg_den_def)

lemma backing_forD:
  assumes B: "backing_for s ty n M' areas A g" and ok: "mm_ok s" and n: "n < U64"
  shows "retagged (kind_map s ty) M' A g (usage_of ty)"
    and "if backed ty then phys_tiled areas n else areas = []"
    and "(off, r) \<in> set areas \<Longrightarrow> seg_fits pma_size M' (pma_base r) (pma_size r)"
    and "i < n \<Longrightarrow> phys_at areas i = Some (p, t, d) \<Longrightarrow> p \<in> A \<and> phys_at M' p = Some (p, t, d) \<and> d = usage_of ty"
    and "i < n \<Longrightarrow> j < n \<Longrightarrow> phys_at areas i = Some (p, t, d) \<Longrightarrow> phys_at areas j = Some (p, t', d') \<Longrightarrow> i = j"
proof -
  have all: "retagged (kind_map s ty) M' A g (usage_of ty) \<and> (if backed ty then phys_tiled areas n else areas = []) \<and>
    (\<forall>off r. (off, r) \<in> set areas \<longrightarrow> seg_fits pma_size M' (pma_base r) (pma_size r)) \<and>
    (\<forall>i p t d. i < n \<longrightarrow> phys_at areas i = Some (p, t, d) \<longrightarrow> p \<in> A \<and> phys_at M' p = Some (p, t, d) \<and> d = usage_of ty) \<and>
    (\<forall>i j p t d t' d'. i < n \<longrightarrow> j < n \<longrightarrow> phys_at areas i = Some (p, t, d) \<longrightarrow> phys_at areas j = Some (p, t', d') \<longrightarrow> i = j)"
  proof (cases "backed ty")
    case True
    then have G: "gathered (kind_map s ty) M' areas n A g (usage_of ty)" using B by (auto simp: backing_for_def)
    note g = gatheredD [OF G]
    have "phys_tiled areas n" using phys_tiled_chain [OF n] g(2) by simp
    moreover have "p \<in> A \<and> phys_at M' p = Some (p, t, d) \<and> d = usage_of ty"
      if "i < n" "phys_at areas i = Some (p, t, d)" for i p t d
      using g(5) [OF that(1)] g(6) that by auto
    moreover have "i = j" if "i < n" "j < n" "phys_at areas i = Some (p, t, d)" "phys_at areas j = Some (p, t', d')"
      for i j p t d t' d'
      using inj_onD [OF g(7), of i j] that by simp
    ultimately show ?thesis using True g(3,4) by simp
  next
    case False
    with B show ?thesis by (auto simp: backing_for_def retagged_refl [OF mm_ok_kind_keyed [OF ok]])
  qed
  then show "retagged (kind_map s ty) M' A g (usage_of ty)"
    and "if backed ty then phys_tiled areas n else areas = []"
    and "(off, r) \<in> set areas \<Longrightarrow> seg_fits pma_size M' (pma_base r) (pma_size r)"
    and "i < n \<Longrightarrow> phys_at areas i = Some (p, t, d) \<Longrightarrow> p \<in> A \<and> phys_at M' p = Some (p, t, d) \<and> d = usage_of ty"
    and "i < n \<Longrightarrow> j < n \<Longrightarrow> phys_at areas i = Some (p, t, d) \<Longrightarrow> phys_at areas j = Some (p, t', d') \<Longrightarrow> i = j"
    by blast+
qed

text \<open>Memory that no mapping shows can be taken.\<close>

definition unshown :: "PhysMap \<Rightarrow> PAddr set \<Rightarrow> bool" where
  "unshown D A \<longleftrightarrow>
     (\<forall>p t d. p \<in> A \<longrightarrow> phys_at D p = Some (p, t, d) \<longrightarrow> d \<notin> {PMapped, PCommitted, PFlexible})"

text \<open>
  \<open>mapped s x n page s'\<close>: in \<open>s'\<close> the \<open>n\<close> pages at \<open>x\<close> are described by \<open>page\<close>, every other page
  is as it was in \<open>s\<close>, and the invariant holds.
\<close>

definition mapped :: "mm \<Rightarrow> VAddr \<Rightarrow> nat \<Rightarrow> (nat \<Rightarrow> page_info) \<Rightarrow> mm \<Rightarrow> bool" where
  "mapped s x n page s' \<longleftrightarrow> mm_ok s' \<and>
     (\<forall>y. vma_at (mm_vma_map s') y =
        (if x \<le> y \<and> y < x + n then Some (page (y - x)) else vma_at (mm_vma_map s) y))"

lemma mapping_done:
  assumes ok: "mm_ok s" and f: "om_floor (mm_vma_map s) x = Some (k, v)" and n: "0 < n" "x + n \<le> k + vma_size v"
    and B: "backing_for s ty n M' areas A g" and free: "unshown (kind_map s ty) A"
    and F: "sets_page F ty areas page"
  obtains m1 h m2 where "carve_assign CarveVMA F (mm_vma_map s) x n = Some (x, m1)"
    and "vma_MergeAdjacent m1 x = Some (h, m2)"
    and "\<And>s'. mm_vma_map s' \<in> {m1, m2} \<Longrightarrow>
          \<forall>ty'. kind_map s' ty' = (if (ty' = VFlexible) = (ty = VFlexible) then M' else kind_map s ty') \<Longrightarrow>
          mm_total_direct_size s' = mm_total_direct_size s \<Longrightarrow> mm_flexible_usage s' < U64 \<Longrightarrow> mapped s x n page s'"
proof -
  note D = mm_okD [OF ok]
  let ?K = "\<lambda>ty'. if (ty' = VFlexible) = (ty = VFlexible) then M' else kind_map s ty'"
  have "n < U64"
    using vma_lookup_ok(3) [OF D(1) om.floor_lookup(1) [OF vma_map_inv [OF D(1)] f]] n by simp
  note g = backing_forD [OF B ok this]
  have free': "d \<notin> {PMapped, PCommitted, PFlexible}" if "p \<in> A" "phys_at (kind_map s ty) p = Some (p, t, d)" for p t d
    using free that by (auto simp: unshown_def)
  have pp: "pg_phys (page i) = phys_at areas i" "pg_type (page i) = ty" for i
    using sets_page_content [OF F, of i] by simp_all
  have K: "phys_keyed (?K ty')" for ty' using g(1) mm_ok_kind_keyed [OF ok] by (simp add: retagged_def)
  have old: "area_fits ?K b" if "om_lookup (mm_vma_map s) j = Some b" for j b
    by (rule old_area_fits [OF ok that g(1) free']) simp_all
  have new: "seg_fits pma_size (?K ty) (pma_base r) (pma_size r)" if "(off, r) \<in> set areas" for off r
    using g(3) [OF that] by simp
  obtain m1 h m2 where ca: "carve_assign CarveVMA F (mm_vma_map s) x n = Some (x, m1)"
    and mg: "vma_MergeAdjacent m1 x = Some (h, m2)"
    and mok: "\<And>m'. m' \<in> {m1, m2} \<Longrightarrow> vma_map_ok m'"
    and at: "\<And>m' y. m' \<in> {m1, m2} \<Longrightarrow> vma_at m' y =
        (if x \<le> y \<and> y < x + n then Some (page (y - x)) else vma_at (mm_vma_map s) y)"
    and fits: "\<And>m' j b. m' \<in> {m1, m2} \<Longrightarrow> om_lookup m' j = Some b \<Longrightarrow> area_fits ?K b"
    by (rule area_assigned [OF D(1) f n g(2) F, of ?K, OF K old new]) (blast | rule that)+
  have "mm_ok s'" if s': "mm_vma_map s' \<in> {m1, m2}"
    "\<forall>ty'. kind_map s' ty' = (if (ty' = VFlexible) = (ty = VFlexible) then M' else kind_map s ty')"
    "mm_total_direct_size s' = mm_total_direct_size s" "mm_flexible_usage s' < U64" for s'
  proof (rule mm_ok_acquire [OF ok mok [OF s'(1)] at [OF s'(1)] g(1)])
    show "p \<in> A \<and> phys_at M' p = Some (p, t, d) \<and> d = usage_of ty"
      if "i < n" "pg_phys (page i) = Some (p, t, d)" for i p t d
      using g(4) that by (simp add: pp)
    show "i = j" if "i < n" "j < n" "pg_phys (page i) = Some (p, t, d)" "pg_phys (page j) = Some (p, t', d')"
      for i j p t d t' d'
      using g(5) that by (simp add: pp)
    have "kind_map s' = ?K" using s'(2) by (simp add: fun_eq_iff)
    then show "area_fits (kind_map s') b" if "om_lookup (mm_vma_map s') j = Some b" for j b
      using fits [OF s'(1) that] by simp
  qed (use free' in \<open>auto simp: pp s'\<close>)
  with ca mg at show thesis by (intro that) (auto simp: mapped_def)
qed

subsection \<open>Creating the area\<close>

text \<open>A range inside one free area.\<close>

definition free_at :: "mm \<Rightarrow> VAddr \<Rightarrow> nat \<Rightarrow> bool" where
  "free_at s x n \<longleftrightarrow>
     (case FindVMA s x of None \<Rightarrow> False | Some (k, v) \<Rightarrow> IsFree v \<and> x + n \<le> k + vma_size v)"

lemma free_atE:
  assumes "free_at s x n"
  obtains k v where "FindVMA s x = Some (k, v)" and "IsFree v" and "x + n \<le> k + vma_size v"
  using assms by (auto simp: free_at_def split: option.splits)

lemma create_unmap_free:
  assumes m: "vma_map_ok (mm_vma_map s)" and f: "FindVMA s x = Some (k, v)" and v: "IsFree v"
    and n: "0 < n" "x + n \<le> k + vma_size v"
  shows "create_unmap_loop s x v n = Some s"
proof -
  note l = om.floor_lookup [OF vma_map_inv [OF m] f [unfolded FindVMA_def]]
  note vok = vma_lookup_ok [OF m l(1)]
  have u: "UnmapBytesFromEntry s x v n = Some (n, s)"
    using v vok l(2) n by (auto simp: UnmapBytesFromEntry_def IsFree_def u64_exact min_def)
  have ar: "uadd x n = x + n" "usub n n = 0" using vok n by (simp_all add: u64_exact)
  have "FindVMA s (x + n) \<noteq> None"
    using om.floor_None [OF vma_map_inv [OF m], of "x + n"] l by (auto simp: FindVMA_def intro: exI [of _ k])
  then obtain k' v' where f': "FindVMA s (x + n) = Some (k', v')" by auto
  have "create_unmap_loop s (x + n) v' 0 = Some s" by (subst create_unmap_loop.simps) simp
  with u ar f' n(1) show ?thesis by (subst create_unmap_loop.simps) simp
qed

lemma CreateArea_free:
  assumes m: "vma_map_ok (mm_vma_map s)" and f: "FindVMA s x = Some (k, v)" and v: "IsFree v"
    and n: "0 < n" "x + n \<le> k + vma_size v"
    and ca: "carve_assign CarveVMA (area_attrs prot flags ty name) (mm_vma_map s) x n = Some (x, m0)"
  shows "CreateArea s x n prot flags ty name = Some (x, s\<lparr>mm_vma_map := m0\<rparr>)"
  using f v ca create_unmap_free [OF m f v n] by (simp add: CreateArea_def)

subsection \<open>Backing the area\<close>

text \<open>What \<open>back_area\<close> leaves behind, by type; \<open>h\<close> is the area that was just created.\<close>

lemma back_area_unbacked:
  assumes "om_lookup (mm_vma_map s) h = Some v" and "\<not> backed ty"
  shows "back_area s h n ty ex p = Some s"
  using assms by (simp add: back_area_def)

lemma back_area_direct:
  assumes keyed: "phys_keyed (mm_dmem_map s)" and h: "om_lookup (mm_vma_map s) h = Some v" and e: "vma_phys_areas v = []"
    and p: "\<And>q. p \<le> q \<Longrightarrow> q < p + n \<Longrightarrow> phys_at (mm_dmem_map s) q \<noteq> None" and b: "p + n < U64"
  obtains D areas where
      "back_area s h n VDirect ex p =
        Some (s\<lparr>mm_dmem_map := D, mm_vma_map := om_set h (with_areas areas v) (mm_vma_map s)\<rparr>)"
    and "gathered (mm_dmem_map s) D areas n {p ..< p + n} id PMapped"
    and "\<forall>i < n. \<exists>t. phys_at areas i = Some (p + i, t, PMapped)"
proof -
  have "gathered (mm_dmem_map s) (mm_dmem_map s) [] 0 {p ..< p + 0} id PMapped"
    using gathered_start [OF keyed] by simp
  from direct_loop_correct [OF this _ p _ b]
  obtain D areas where "direct_loop p (mm_dmem_map s) [] p n = Some (D, areas)"
    and "gathered (mm_dmem_map s) D areas n {p ..< p + n} id PMapped"
    and "\<forall>i < n. \<exists>t. phys_at areas i = Some (p + i, t, PMapped)" by auto
  with h e show thesis by (intro that) (simp_all add: back_area_def with_areas_def)
qed

lemma back_area_flexible:
  assumes keyed: "phys_keyed (mm_fmem_map s)" and h: "om_lookup (mm_vma_map s) h = Some v" and e: "vma_phys_areas v = []"
    and enough: "n \<le> card (used_as (mm_fmem_map s) PFree)" and b: "vma_base v + n < U64"
  obtains D areas A calls where
      "back_area s h n VFlexible ex p =
        Some (s\<lparr>mm_fmem_map := D, mm_vma_map := om_set h (with_areas areas v) (mm_vma_map s),
                mm_flexible_usage := uadd (mm_flexible_usage s) n, mm_trace := calls @ mm_trace s\<rparr>)"
    and "gathered (mm_fmem_map s) D areas n A id PFlexible" and "A \<subseteq> used_as (mm_fmem_map s) PFree"
proof -
  let ?M = "mm_fmem_map s"
  have "om_begin ?M = None \<or> om_lookup ?M (the (om_begin ?M)) \<noteq> None"
    by (cases ?M) (auto simp: om_begin_def om_lookup_Cons)
  then have I: "backing_inv PFree ?M (om_begin ?M) ?M [] 0 {} id PFlexible n"
    using enough by (simp add: backing_inv_def gathered_start [OF keyed] none_below_begin [OF keyed])
  have rt: "retag (\<lambda>a. a\<lparr>pma_dma_type := PFlexible\<rparr>) id PFlexible" by (simp add: retag_def)
  from backing_loop_correct [OF I b rt, where ex = ex and calls = "[]"]
  obtain D areas A calls where
    "backing_loop PFree (\<lambda>a. a\<lparr>pma_dma_type := PFlexible\<rparr>) ex (vma_base v) (om_begin ?M) ?M [] (vma_base v) n [] =
       Some (0, D, areas, calls)"
    and "gathered ?M D areas n A id PFlexible" and "A \<subseteq> used_as ?M PFree" by auto
  with h e b show thesis by (intro that) (simp_all add: back_area_def with_areas_def usub_exact)
qed

subsection \<open>The whole operation\<close>

lemma gpu_map_eq: "\<exists>tr. gpu_map a n s = s\<lparr>mm_trace := tr\<rparr>"
  by (auto simp: gpu_map_def host_def intro: exI [of _ "mm_trace s"])

lemma MapMemory_finish:
  assumes v1: "\<not> (ty = VFlexible \<and> uadd (mm_flexible_usage s) n > mm_total_flexible_size s)"
    and v2: "validate_phys s p n vd = Some None"
    and v3: "choose_address s va n flags (if al > 0 then al else 16 * KB) = Some (Inr x)"
    and cr: "CreateArea (gpu_unmap x n s) x n prot flags ty name = Some (x, s2)"
    and lk: "om_lookup (mm_vma_map s2) x = Some b" and b: "vma_base b = x"
    and ba: "back_area s2 x n ty (has_flag prot ProtCpuExec) p = Some s3"
    and mg: "vma_MergeAdjacent (mm_vma_map s3) x = Some (h, m2)"
  shows "\<exists>m' tr. m' \<in> {mm_vma_map s3, m2} \<and>
    MapMemory s va n prot flags ty name vd p al = Some (Inr x, s3\<lparr>mm_vma_map := m', mm_trace := tr\<rparr>)"
proof -
  define s4 where "s4 = (if ty \<noteq> VDirect \<or> mm_sdk_version s3 mod 2 ^ 32 \<ge> FW_200 then s3\<lparr>mm_vma_map := m2\<rparr> else s3)"
  define s5 where "s5 = (if ty \<noteq> VReserved \<and> ty \<noteq> VPoolReserved
      then gpu_map x n (if ty \<noteq> VFlexible then host (HostMap x n p (has_flag prot ProtCpuExec)) s4 else s4) else s4)"
  obtain tr1 tr2 where "gpu_map x n s4 = s4\<lparr>mm_trace := tr1\<rparr>"
    "gpu_map x n (host (HostMap x n p (has_flag prot ProtCpuExec)) s4) = s4\<lparr>mm_trace := tr2\<rparr>"
    using gpu_map_eq [of x n s4] gpu_map_eq [of x n "host (HostMap x n p (has_flag prot ProtCpuExec)) s4"]
    by (auto simp: host_def)
  then have "s5 = s4\<lparr>mm_trace := (if ty \<noteq> VReserved \<and> ty \<noteq> VPoolReserved
      then if ty \<noteq> VFlexible then tr2 else tr1 else mm_trace s4)\<rparr>" by (simp add: s5_def)
  then obtain tr where tr: "s5 = s4\<lparr>mm_trace := tr\<rparr>" by blast
  have "\<exists>m' \<in> {mm_vma_map s3, m2}. s4 = s3\<lparr>mm_vma_map := m'\<rparr>" by (simp add: s4_def)
  then obtain m' where m': "m' \<in> {mm_vma_map s3, m2}" "s4 = s3\<lparr>mm_vma_map := m'\<rparr>" by blast
  then have "s5 = s3\<lparr>mm_vma_map := m', mm_trace := tr\<rparr>" using tr by simp
  moreover have "MapMemory s va n prot flags ty name vd p al = Some (Inr x, s5)"
    using v1 v2 v3 cr lk b ba mg unfolding MapMemory_def s5_def s4_def
    by (simp add: Let_def split del: if_split) (simp split: if_split)
  ultimately show ?thesis using m'(1) by blast
qed

text \<open>The first half: the new area is carved and its attributes are set, whatever will back it.\<close>

lemma area_created:
  assumes ok: "mm_ok s" and fr: "free_at s x n" and n: "0 < n"
  obtains k v tr m0 b where "om_floor (mm_vma_map s) x = Some (k, v)" and "x + n \<le> k + vma_size v" and "x + n < U64"
    and "CreateArea (gpu_unmap x n s) x n prot flags ty name = Some (x, s\<lparr>mm_vma_map := m0, mm_trace := tr\<rparr>)"
    and "carve_assign CarveVMA (area_attrs prot flags ty name) (mm_vma_map s) x n = Some (x, m0)"
    and "om_lookup m0 x = Some (area_attrs prot flags ty name b)" and "vma_base b = x"
    and "\<And>areas. carve_assign CarveVMA (\<lambda>b. with_areas areas (area_attrs prot flags ty name b)) (mm_vma_map s) x n =
           Some (x, om_set x (with_areas areas (area_attrs prot flags ty name b)) m0)"
proof -
  note D = mm_okD [OF ok]
  obtain k v where f: "FindVMA s x = Some (k, v)" and v: "IsFree v" and xn: "x + n \<le> k + vma_size v"
    using fr by (rule free_atE)
  note fl = f [unfolded FindVMA_def]
  have xb: "x + n < U64"
    using vma_lookup_ok(3) [OF D(1) om.floor_lookup(1) [OF vma_map_inv [OF D(1)] fl]] xn by simp
  obtain tr where g: "gpu_unmap x n s = s\<lparr>mm_trace := tr\<rparr>" using gpu_unmap_eq by blast
  obtain m0 b where ca: "carve_assign CarveVMA (area_attrs prot flags ty name) (mm_vma_map s) x n = Some (x, m0)"
    and lk: "om_lookup m0 x = Some (area_attrs prot flags ty name b)" and b: "vma_base b = x"
    and tw: "\<And>areas. carve_assign CarveVMA (\<lambda>b. with_areas areas (area_attrs prot flags ty name b)) (mm_vma_map s) x n =
           Some (x, om_set x (with_areas areas (area_attrs prot flags ty name b)) m0)"
    by (rule assign_twice [OF D(1) fl n xn, where G = "area_attrs prot flags ty name"])
      (auto simp: area_attrs_def intro: that)
  have "CreateArea (gpu_unmap x n s) x n prot flags ty name = Some (x, s\<lparr>mm_trace := tr, mm_vma_map := m0\<rparr>)"
    unfolding g using D(1) f v ca by (intro CreateArea_free [OF _ _ _ n xn]) (simp_all add: FindVMA_def)
  then have "CreateArea (gpu_unmap x n s) x n prot flags ty name = Some (x, s\<lparr>mm_vma_map := m0, mm_trace := tr\<rparr>)" by simp
  with fl xn xb ca lk b tw show thesis by (intro that) simp_all
qed

text \<open>
  The second half, for any way of backing the new area: \<open>Q\<close> is what the backing step says about
  the state and the physical areas.
\<close>

lemma MapMemory_backs:
  assumes ok: "mm_ok s" and n: "0 < n"
    and v1: "\<not> (ty = VFlexible \<and> uadd (mm_flexible_usage s) n > mm_total_flexible_size s)"
    and v2: "validate_phys s p n vd = Some None"
    and v3: "choose_address s va n flags (if al > 0 then al else 16 * KB) = Some (Inr x)"
    and fr: "free_at s x n"
    and bk: "\<And>m0 tr b. om_lookup m0 x = Some b \<Longrightarrow> vma_base b = x \<Longrightarrow> vma_phys_areas b = [] \<Longrightarrow> x + n < U64 \<Longrightarrow>
      \<exists>s3 M' areas A g. back_area (s\<lparr>mm_vma_map := m0, mm_trace := tr\<rparr>) x n ty (has_flag prot ProtCpuExec) p = Some s3 \<and>
        mm_vma_map s3 = (if backed ty then om_set x (with_areas areas b) m0 else m0) \<and>
        backing_for s ty n M' areas A g \<and> unshown (kind_map s ty) A \<and>
        (\<forall>ty'. kind_map s3 ty' = (if (ty' = VFlexible) = (ty = VFlexible) then M' else kind_map s ty')) \<and>
        mm_total_direct_size s3 = mm_total_direct_size s \<and> mm_flexible_usage s3 < U64 \<and> Q s3 areas"
  obtains s3 areas m' tr where
      "MapMemory s va n prot flags ty name vd p al = Some (Inr x, s3\<lparr>mm_vma_map := m', mm_trace := tr\<rparr>)"
    and "mapped s x n (mapped_page prot flags ty name areas) (s3\<lparr>mm_vma_map := m', mm_trace := tr\<rparr>)" and "Q s3 areas"
proof -
  let ?f = "area_attrs prot flags ty name"
  obtain k v tr m0 b where f: "om_floor (mm_vma_map s) x = Some (k, v)" "x + n \<le> k + vma_size v" and xb: "x + n < U64"
    and cr: "CreateArea (gpu_unmap x n s) x n prot flags ty name = Some (x, s\<lparr>mm_vma_map := m0, mm_trace := tr\<rparr>)"
    and ca0: "carve_assign CarveVMA ?f (mm_vma_map s) x n = Some (x, m0)"
    and lk: "om_lookup m0 x = Some (?f b)" and b: "vma_base b = x"
    and tw: "\<And>areas. carve_assign CarveVMA (\<lambda>b. with_areas areas (?f b)) (mm_vma_map s) x n =
           Some (x, om_set x (with_areas areas (?f b)) m0)"
    by (rule area_created [OF ok fr n]) (rule that)
  have b': "vma_base (?f b) = x" "vma_phys_areas (?f b) = []" using b by (simp_all add: area_attrs_def)
  from bk [OF lk b' xb] obtain s3 M' areas A g where
    ba: "back_area (s\<lparr>mm_vma_map := m0, mm_trace := tr\<rparr>) x n ty (has_flag prot ProtCpuExec) p = Some s3"
    and vm: "mm_vma_map s3 = (if backed ty then om_set x (with_areas areas (?f b)) m0 else m0)"
    and B: "backing_for s ty n M' areas A g" and un: "unshown (kind_map s ty) A"
    and maps: "\<And>ty'. kind_map s3 ty' = (if (ty' = VFlexible) = (ty = VFlexible) then M' else kind_map s ty')"
    and rest: "mm_total_direct_size s3 = mm_total_direct_size s" "mm_flexible_usage s3 < U64" "Q s3 areas"
    by blast
  obtain m1 h m2 where ca: "carve_assign CarveVMA (\<lambda>b. with_areas areas (?f b)) (mm_vma_map s) x n = Some (x, m1)"
    and mg: "vma_MergeAdjacent m1 x = Some (h, m2)"
    and fin: "\<And>s'. mm_vma_map s' \<in> {m1, m2} \<Longrightarrow>
          \<forall>ty'. kind_map s' ty' = (if (ty' = VFlexible) = (ty = VFlexible) then M' else kind_map s ty') \<Longrightarrow>
          mm_total_direct_size s' = mm_total_direct_size s \<Longrightarrow> mm_flexible_usage s' < U64 \<Longrightarrow>
          mapped s x n (mapped_page prot flags ty name areas) s'"
    by (rule mapping_done [OF ok f(1) n f(2) B un sets_mapped_page]) (rule that)
  have m1: "m1 = mm_vma_map s3"
  proof (cases "backed ty")
    case True
    then show ?thesis using ca tw [of areas] vm by auto
  next
    case False
    then have "areas = []" using B by (auto simp: backing_for_def)
    then have "(\<lambda>b. with_areas areas (?f b)) = ?f" by (auto simp: with_areas_def area_attrs_def)
    then show ?thesis using ca ca0 vm False by simp
  qed
  have "om_lookup (mm_vma_map (s\<lparr>mm_vma_map := m0, mm_trace := tr\<rparr>)) x = Some (?f b)" using lk by simp
  from MapMemory_finish [OF v1 v2 v3 cr this b'(1) ba mg [unfolded m1]]
  obtain m' tr' where m': "m' \<in> {mm_vma_map s3, m2}"
    and eq: "MapMemory s va n prot flags ty name vd p al = Some (Inr x, s3\<lparr>mm_vma_map := m', mm_trace := tr'\<rparr>)" by blast
  have "mapped s x n (mapped_page prot flags ty name areas) (s3\<lparr>mm_vma_map := m', mm_trace := tr'\<rparr>)"
    using m' maps rest by (intro fin) (simp_all add: m1)
  with eq rest(3) show thesis by (intro that)
qed

lemma MapMemory_unbacked:
  assumes "mm_ok s" and "0 < n" and ty: "\<not> backed ty"
    and "validate_phys s p n vd = Some None"
    and "choose_address s va n flags (if al > 0 then al else 16 * KB) = Some (Inr x)" and "free_at s x n"
  obtains m' tr where
      "MapMemory s va n prot flags ty name vd p al = Some (Inr x, s\<lparr>mm_vma_map := m', mm_trace := tr\<rparr>)"
    and "mapped s x n (mapped_page prot flags ty name []) (s\<lparr>mm_vma_map := m', mm_trace := tr\<rparr>)"
proof -
  have v1: "\<not> (ty = VFlexible \<and> uadd (mm_flexible_usage s) n > mm_total_flexible_size s)" using ty by simp
  show thesis
  proof (rule MapMemory_backs [OF assms(1,2) v1 assms(4-6),
        where prot = prot and name = name and Q = "\<lambda>s3 areas. areas = [] \<and> (\<exists>vm tr. s3 = s\<lparr>mm_vma_map := vm, mm_trace := tr\<rparr>)"], goal_cases)
    case (1 m0 tr b)
    let ?s = "s\<lparr>mm_vma_map := m0, mm_trace := tr\<rparr>"
    have "back_area ?s x n ty (has_flag prot ProtCpuExec) p = Some ?s"
      by (rule back_area_unbacked [OF _ ty]) (simp add: 1)
    moreover have "backing_for s ty n (kind_map s ty) [] {} id" using ty by (auto simp: backing_for_def)
    moreover have "kind_map ?s ty' = (if (ty' = VFlexible) = (ty = VFlexible) then kind_map s ty else kind_map s ty')" for ty'
      by (auto simp: kind_map_def)
    ultimately show ?case using ty mm_okD(7) [OF assms(1)]
      by (intro exI [of _ ?s] exI [of _ "kind_map s ty"] exI [of _ "[]"] exI [of _ "{}"] exI [of _ id])
        (auto simp: unshown_def)
  next
    case (2 s3 areas m' tr)
    then show ?case by (auto intro: that)
  qed
qed

text \<open>Direct memory: the range of physical memory is allocated and not mapped.\<close>

lemma MapMemory_direct:
  assumes "mm_ok s" and "0 < n" and v2: "validate_phys s p n vd = Some None"
    and "choose_address s va n flags (if al > 0 then al else 16 * KB) = Some (Inr x)" and "free_at s x n"
    and alloc: "{p ..< p + n} \<subseteq> used_as (mm_dmem_map s) PAllocated" and b: "p + n < U64"
  obtains D areas m' tr where
      "MapMemory s va n prot flags VDirect name vd p al =
         Some (Inr x, s\<lparr>mm_dmem_map := D, mm_vma_map := m', mm_trace := tr\<rparr>)"
    and "mapped s x n (mapped_page prot flags VDirect name areas) (s\<lparr>mm_dmem_map := D, mm_vma_map := m', mm_trace := tr\<rparr>)"
    and "retagged (mm_dmem_map s) D {p ..< p + n} id PMapped"
    and "\<And>i. i < n \<Longrightarrow> \<exists>t. phys_at areas i = Some (p + i, t, PMapped)"
proof -
  let ?Q = "\<lambda>s3 areas. retagged (mm_dmem_map s) (mm_dmem_map s3) {p ..< p + n} id PMapped \<and>
    (\<forall>i < n. \<exists>t. phys_at areas i = Some (p + i, t, PMapped)) \<and>
    (\<exists>D vm tr. s3 = s\<lparr>mm_dmem_map := D, mm_vma_map := vm, mm_trace := tr\<rparr>)"
  have v1: "\<not> (VDirect = VFlexible \<and> uadd (mm_flexible_usage s) n > mm_total_flexible_size s)" by simp
  have keyed: "phys_keyed (mm_dmem_map s)" using mm_okD(2) [OF assms(1)] by (simp add: dmem_ok_def)
  have pr: "phys_at (mm_dmem_map s) q \<noteq> None" if "p \<le> q" "q < p + n" for q
    using alloc that by (auto simp: used_as_def)
  have un: "unshown (kind_map s VDirect) {p ..< p + n}"
    using alloc by (fastforce simp: unshown_def used_as_def kind_map_def)
  show thesis
  proof (rule MapMemory_backs [OF assms(1,2) v1 assms(3-5), where prot = prot and name = name and Q = ?Q], goal_cases)
    case (1 m0 tr b')
    let ?s = "s\<lparr>mm_vma_map := m0, mm_trace := tr\<rparr>"
    have lk: "om_lookup (mm_vma_map ?s) x = Some b'" and pr': "phys_keyed (mm_dmem_map ?s)" using 1 keyed by simp_all
    obtain D areas where ba: "back_area ?s x n VDirect (has_flag prot ProtCpuExec) p =
        Some (?s\<lparr>mm_dmem_map := D, mm_vma_map := om_set x (with_areas areas b') (mm_vma_map ?s)\<rparr>)"
      and G: "gathered (mm_dmem_map ?s) D areas n {p ..< p + n} id PMapped"
      and sh: "\<forall>i < n. \<exists>t. phys_at areas i = Some (p + i, t, PMapped)"
      by (rule back_area_direct [OF pr' lk 1(3) _ b]) (use pr in \<open>auto intro: that\<close>)
    let ?s3 = "s\<lparr>mm_dmem_map := D, mm_vma_map := om_set x (with_areas areas b') m0, mm_trace := tr\<rparr>"
    have "back_area ?s x n VDirect (has_flag prot ProtCpuExec) p = Some ?s3" using ba by simp
    moreover have "backing_for s VDirect n D areas {p ..< p + n} id"
      using G by (simp add: backing_for_def kind_map_def usage_of_def)
    moreover have "?Q ?s3 areas" using sh gatheredD(3) [OF G] by auto
    moreover have "mm_flexible_usage ?s3 < U64" using mm_okD(7) [OF assms(1)] by simp
    moreover have "\<forall>ty'. kind_map ?s3 ty' = (if (ty' = VFlexible) = (VDirect = VFlexible) then D else kind_map s ty')"
      by (simp add: kind_map_def)
    ultimately show ?case using un
      by (intro exI [of _ ?s3] exI [of _ D] exI [of _ areas] exI [of _ "{p ..< p + n}"] exI [of _ id])
        (simp del: split_paired_Ex)
  next
    case (2 s3 areas m' tr)
    then obtain D vm tr' where s3: "s3 = s\<lparr>mm_dmem_map := D, mm_vma_map := vm, mm_trace := tr'\<rparr>" by blast
    then have "s3\<lparr>mm_vma_map := m', mm_trace := tr\<rparr> = s\<lparr>mm_dmem_map := D, mm_vma_map := m', mm_trace := tr\<rparr>" by simp
    note eq = 2(1,2) [unfolded this]
    show ?case using 2(3) s3 by (intro that [OF eq]) auto
  qed
qed

text \<open>Flexible memory: there is enough of it.\<close>

lemma MapMemory_flexible:
  assumes "mm_ok s" and "0 < n" and v1: "uadd (mm_flexible_usage s) n \<le> mm_total_flexible_size s"
    and "validate_phys s p n vd = Some None"
    and "choose_address s va n flags (if al > 0 then al else 16 * KB) = Some (Inr x)" and "free_at s x n"
    and enough: "n \<le> card (used_as (mm_fmem_map s) PFree)"
  obtains D areas A m' tr s' where
      "MapMemory s va n prot flags VFlexible name vd p al = Some (Inr x, s')"
    and "s' = s\<lparr>mm_fmem_map := D, mm_vma_map := m', mm_flexible_usage := uadd (mm_flexible_usage s) n, mm_trace := tr\<rparr>"
    and "mapped s x n (mapped_page prot flags VFlexible name areas) s'"
    and "gathered (mm_fmem_map s) D areas n A id PFlexible" and "A \<subseteq> used_as (mm_fmem_map s) PFree"
proof -
  let ?Q = "\<lambda>s3 areas. (\<exists>A. gathered (mm_fmem_map s) (mm_fmem_map s3) areas n A id PFlexible \<and> A \<subseteq> used_as (mm_fmem_map s) PFree) \<and>
    (\<exists>D vm tr. s3 = s\<lparr>mm_fmem_map := D, mm_vma_map := vm, mm_flexible_usage := uadd (mm_flexible_usage s) n, mm_trace := tr\<rparr>)"
  have v1': "\<not> (VFlexible = VFlexible \<and> uadd (mm_flexible_usage s) n > mm_total_flexible_size s)" using v1 by simp
  note keyed = mm_okD(3) [OF assms(1)]
  show thesis
  proof (rule MapMemory_backs [OF assms(1,2) v1' assms(4-6), where prot = prot and name = name and Q = ?Q], goal_cases)
    case (1 m0 tr b')
    let ?s = "s\<lparr>mm_vma_map := m0, mm_trace := tr\<rparr>"
    have lk: "om_lookup (mm_vma_map ?s) x = Some b'" and pr': "phys_keyed (mm_fmem_map ?s)"
      and en: "n \<le> card (used_as (mm_fmem_map ?s) PFree)" and xb: "vma_base b' + n < U64"
      using 1 keyed enough by simp_all
    obtain D areas A calls where ba: "back_area ?s x n VFlexible (has_flag prot ProtCpuExec) p =
        Some (?s\<lparr>mm_fmem_map := D, mm_vma_map := om_set x (with_areas areas b') (mm_vma_map ?s),
                mm_flexible_usage := uadd (mm_flexible_usage ?s) n, mm_trace := calls @ mm_trace ?s\<rparr>)"
      and G: "gathered (mm_fmem_map ?s) D areas n A id PFlexible" and A: "A \<subseteq> used_as (mm_fmem_map ?s) PFree"
      by (rule back_area_flexible [OF pr' lk 1(3) en xb]) (rule that)
    let ?s3 = "s\<lparr>mm_fmem_map := D, mm_vma_map := om_set x (with_areas areas b') m0,
      mm_flexible_usage := uadd (mm_flexible_usage s) n, mm_trace := calls @ tr\<rparr>"
    have "back_area ?s x n VFlexible (has_flag prot ProtCpuExec) p = Some ?s3" using ba by simp
    moreover have "backing_for s VFlexible n D areas A id"
      using G by (simp add: backing_for_def kind_map_def usage_of_def)
    moreover have "?Q ?s3 areas" using G A by auto
    moreover have "unshown (kind_map s VFlexible) A"
      using A by (fastforce simp: unshown_def used_as_def kind_map_def)
    moreover have "\<forall>ty'. kind_map ?s3 ty' = (if (ty' = VFlexible) = (VFlexible = VFlexible) then D else kind_map s ty')"
      by (simp add: kind_map_def)
    ultimately show ?case
      by (intro exI [of _ ?s3] exI [of _ D] exI [of _ areas] exI [of _ A] exI [of _ id]) (simp del: split_paired_Ex)
  next
    case (2 s3 areas m' tr)
    then obtain A D vm tr' where "s3 = s\<lparr>mm_fmem_map := D, mm_vma_map := vm,
        mm_flexible_usage := uadd (mm_flexible_usage s) n, mm_trace := tr'\<rparr>"
      and "gathered (mm_fmem_map s) D areas n A id PFlexible" "A \<subseteq> used_as (mm_fmem_map s) PFree" by auto
    moreover from this(1) have "s3\<lparr>mm_vma_map := m', mm_trace := tr\<rparr> = s\<lparr>mm_fmem_map := D, mm_vma_map := m',
        mm_flexible_usage := uadd (mm_flexible_usage s) n, mm_trace := tr\<rparr>" by simp
    ultimately show ?case by (intro that [OF 2(1) _ 2(2)])
  qed
qed

end
