(* ===== verification/Orbit_Search.thy ===== *)
theory Orbit_Search
  imports Orbit_MapMemory
begin

text \<open>
  The search for an address (\<^verbatim>\<open>SearchFree\<close>), the choice of the address of a mapping and the check
  of its physical range (\<^verbatim>\<open>src/core/memory.cpp\<close>).
\<close>

subsection \<open>First fit\<close>

text \<open>An aligned address at which a free area of the list holds \<open>n\<close> bytes.\<close>

definition room :: "VMAMap \<Rightarrow> nat \<Rightarrow> nat \<Rightarrow> VAddr \<Rightarrow> bool" where
  "room m n al y \<longleftrightarrow> al dvd y \<and> (\<exists>k v. (k, v) \<in> set m \<and> IsFree v \<and> k \<le> y \<and> y + n \<le> k + vma_size v)"

lemma room_Cons:
  "room ((k, v) # m) n al y \<longleftrightarrow>
     (al dvd y \<and> IsFree v \<and> k \<le> y \<and> y + n \<le> k + vma_size v) \<or> room m n al y"
  by (auto simp: room_def)

lemma not_room_Nil [simp]: "\<not> room [] n al y"
  by (simp add: room_def)

lemma search_free_loop_least:
  assumes "seg_ok vma_size vma_ok xs" and "0 < n" and "0 < al" and "\<forall>(k, v) \<in> set xs. k + vma_size v + al < U64 - 1"
    and "r = search_free_loop xs hi n al"
  shows "if r = minus_one then (\<forall>y. room xs n al y \<longrightarrow> hi \<le> y)
         else room xs n al r \<and> r < hi \<and> (\<forall>y. room xs n al y \<longrightarrow> r \<le> y)"
  using assms
proof (induction xs hi n al rule: search_free_loop.induct)
  case (2 k v rest hi n al)
  have v: "vma_base v = k" "k + vma_size v + al < U64 - 1" using "2.prems"(1,4) by (auto simp: vma_ok_def)
  let ?a = "AlignUp k al"
  have small: "k + al < U64" "k + vma_size v < U64" using v by simp_all
  note al = AlignUp_dvd [OF small(1)] AlignUp_ge [OF small(1) "2.prems"(3)] AlignUp_less [OF small(1) "2.prems"(3)]
  have least: "?a \<le> y" if "al dvd y" "k \<le> y" for y by (rule AlignUp_least [OF small(1) that])
  have later: "?a \<le> y" if "room rest n al y" for y
  proof -
    from that obtain j b where "(j, b) \<in> set rest" "j \<le> y" "al dvd y" by (auto simp: room_def)
    moreover from this have "k \<le> j" using "2.prems"(1) by force
    ultimately show ?thesis using least [of y] by simp
  qed
  have rest: "seg_ok vma_size vma_ok rest" "\<forall>(k, v) \<in> set rest. k + vma_size v + al < U64 - 1"
    using "2.prems"(1,4) by auto
  have ends: "uadd k (vma_size v) = k + vma_size v" using small by (simp add: u64_exact)
  have sub: "usub (k + vma_size v) ?a = k + vma_size v - ?a" if "?a \<le> k + vma_size v"
    using that small by (simp add: u64_exact)
  have ne: "?a \<noteq> minus_one" using al(3) v by (simp add: minus_one_def)
  show ?case
  proof (cases "IsFree v \<and> ?a \<le> k + vma_size v \<and> (hi \<le> ?a \<or> n \<le> k + vma_size v - ?a)")
    case True
    show ?thesis
    proof (cases "hi \<le> ?a")
      case hi: True
      then have "r = minus_one" using True "2.prems"(5) by (simp add: v(1) ends Let_def)
      with hi least later show ?thesis by (auto simp: room_Cons intro: order_trans)
    next
      case False
      then have r: "r = ?a" using True "2.prems"(5) by (simp add: v(1) ends Let_def sub)
      have "room ((k, v) # rest) n al ?a" using True False al by (auto simp: room_Cons)
      with False r ne least later show ?thesis by (auto simp: room_Cons)
    qed
  next
    case False
    then have skip: "search_free_loop ((k, v) # rest) hi n al = search_free_loop rest hi n al"
      by (auto simp: v(1) ends Let_def sub not_le)
    have none: "room ((k, v) # rest) n al y \<longleftrightarrow> room rest n al y" for y
      using False least [of y] "2.prems"(2) by (auto simp: room_Cons)
    have "if r = minus_one then (\<forall>y. room rest n al y \<longrightarrow> hi \<le> y)
         else room rest n al r \<and> r < hi \<and> (\<forall>y. room rest n al y \<longrightarrow> r \<le> y)"
    proof (cases "IsFree v")
      case free: True
      show ?thesis
      proof (cases "?a > k + vma_size v")
        case True
        then show ?thesis using "2.IH"(2) [of ?a "k + vma_size v"] "2.prems" rest free skip by (auto simp: v(1) ends)
      next
        case le: False
        then show ?thesis
          using "2.IH"(3) [of ?a "k + vma_size v"] "2.prems" rest free skip False by (auto simp: v(1) ends sub not_le)
      qed
    next
      case nf: False
      then show ?thesis using "2.IH"(1) "2.prems" rest skip by simp
    qed
    then show ?thesis by (simp only: none)
  qed
qed simp

lemma room_free_at:
  assumes m: "vma_map_ok (mm_vma_map s)" and r: "room (mm_vma_map s) n al y" and n: "0 < n"
  shows "free_at s y n"
proof -
  obtain k v where k: "(k, v) \<in> set (mm_vma_map s)" "IsFree v" "k \<le> y" "y + n \<le> k + vma_size v"
    using r by (auto simp: room_def)
  have lk: "om_lookup (mm_vma_map s) k = Some v" using k(1) by (simp add: om_lookup_in_set [OF vma_map_inv [OF m]])
  have "om_floor (mm_vma_map s) y = Some (k, v)"
    using vm.floor_holds [OF m [unfolded vma_map_ok_def] lk k(3)] k(4) n by simp
  then show ?thesis using k by (simp add: free_at_def FindVMA_def)
qed

lemma room_iff_free_at:
  assumes m: "vma_map_ok (mm_vma_map s)" and n: "0 < n"
  shows "room (mm_vma_map s) n al y \<longleftrightarrow> al dvd y \<and> free_at s y n"
proof
  assume r: "room (mm_vma_map s) n al y"
  then show "al dvd y \<and> free_at s y n" using room_free_at [OF m r n] by (simp add: room_def)
next
  assume r: "al dvd y \<and> free_at s y n"
  then obtain k v where f: "om_floor (mm_vma_map s) y = Some (k, v)" "IsFree v" "y + n \<le> k + vma_size v"
    by (auto simp: free_at_def FindVMA_def split: option.splits)
  with om.floor_lookup [OF vma_map_inv [OF m] f(1)] r show "room (mm_vma_map s) n al y"
    by (auto simp: room_def om_lookup_in_set [OF vma_map_inv [OF m]])
qed

text \<open>Where the search starts: the hint, but not below the system managed region, rounded up.\<close>

definition first_candidate :: "mm \<Rightarrow> VAddr \<Rightarrow> nat \<Rightarrow> VAddr" where
  "first_candidate s va al = AlignUp (max va (as_system_managed_base (mm_impl s))) al"

definition search_limit :: "mm \<Rightarrow> VAddr" where
  "search_limit s = uadd (as_user_base (mm_impl s)) (as_user_size (mm_impl s))"

text \<open>
  The search returns the lowest aligned address, from its start on, at which a free area has room,
  and -1 only when there is none below its end.
\<close>

lemma SearchFree_first_fit:
  assumes m: "vma_map_ok (mm_vma_map s)" and n: "0 < n" and al: "0 < al" "al < 2 ^ 32"
    and hi: "\<forall>(k, v) \<in> set (mm_vma_map s). k + vma_size v + al + n < U64"
    and at: "vma_at (mm_vma_map s) (max va (as_system_managed_base (mm_impl s))) \<noteq> None"
  obtains r where "SearchFree s va n al = Some r"
    and "if r = minus_one
         then (\<forall>y. room (mm_vma_map s) n al y \<longrightarrow> first_candidate s va al \<le> y \<longrightarrow> search_limit s \<le> y)
         else room (mm_vma_map s) n al r \<and> first_candidate s va al \<le> r \<and>
              (\<forall>y. room (mm_vma_map s) n al y \<longrightarrow> first_candidate s va al \<le> y \<longrightarrow> r \<le> y)"
proof -
  note sg = m [unfolded vma_map_ok_def]
  note inv = seg_ok_inv [OF sg]
  define w where "w = max va (as_system_managed_base (mm_impl s))"
  note at = at [folded w_def]
  define a where "a = first_candidate s va al"
  obtain k0 v0 where k0: "om_lookup (mm_vma_map s) k0 = Some v0" "k0 \<le> w" "w < k0 + vma_size v0"
    by (rule vma_find [OF m at]) (rule that)
  have mem: "(k, v) \<in> set (mm_vma_map s) \<longleftrightarrow> om_lookup (mm_vma_map s) k = Some v" for k v
    by (simp add: om_lookup_in_set [OF inv])
  have b0: "k0 + vma_size v0 + al + n < U64" using hi k0(1) mem by blast
  have small: "w + al < U64" using k0(3) b0 by linarith
  have a: "w \<le> a" "al dvd a" "a < w + al"
    using AlignUp_ge [OF small al(1)] AlignUp_dvd [OF small] AlignUp_less [OF small al(1)]
    by (simp_all only: a_def first_candidate_def w_def)
  have an: "a + n < U64" using a(3) k0(3) b0 by linarith
  have valid: "assert_valid s w 0 = Some ()"
  proof -
    have "covered s w 0" by (auto simp: covered_def)
    then show ?thesis using IsValidMapping_covered [OF m at, of 0] small by (simp add: assert_valid_def)
  qed
  have "om_floor (mm_vma_map s) a \<noteq> None"
    using om.floor_None [OF inv, of a] k0 a(1) by (auto intro: exI [of _ k0])
  then obtain k v where f: "om_floor (mm_vma_map s) a = Some (k, v)" by auto
  note fl = om.floor_lookup [OF inv f]
  have vb: "vma_base v = k" "k + vma_size v < U64"
    using vma_lookup_ok [OF m fl(1)] by simp_all
  have cont: "vma_Contains v a n \<longleftrightarrow> a + n \<le> k + vma_size v"
    using vb fl(2) an by (simp add: vma_Contains_def u64_exact)
  obtain rest where from_k: "om_from (mm_vma_map s) k = (k, v) # rest" and above: "\<And>j b. (j, b) \<in> set rest \<Longrightarrow> k < j"
    by (rule om_from_at [OF inv fl(1)]) (rule that)
  have rest: "seg_ok vma_size vma_ok rest" using seg_ok_from [OF sg, of k] by (simp add: from_k)
  have in_rest: "(j, b) \<in> set rest \<longleftrightarrow> (j, b) \<in> set (mm_vma_map s) \<and> k < j" for j b
  proof -
    have "(j, b) \<in> set ((k, v) # rest) \<longleftrightarrow> (j, b) \<in> set (mm_vma_map s) \<and> k \<le> j"
      using set_om_from [of j b "mm_vma_map s" k] by (simp add: from_k)
    then show ?thesis using above [of j b] mem by (cases "j = k") auto
  qed
  have after: "a < j" if "(j, b) \<in> set rest" for j b
    using f that in_rest mem om.floor_Some [OF inv, of a k v] by (metis not_le option.distinct(1))
  have split: "room (mm_vma_map s) n al y \<and> a \<le> y \<longleftrightarrow>
      (al dvd y \<and> a \<le> y \<and> IsFree v \<and> y + n \<le> k + vma_size v) \<or> room rest n al y" for y
  proof -
    have "j < k \<Longrightarrow> om_lookup (mm_vma_map s) j = Some b \<Longrightarrow> j + vma_size b \<le> k" for j b
      using vm.apart [OF sg _ fl(1)] by blast
    then have "k \<le> j" if "(j, b) \<in> set (mm_vma_map s)" "y + n \<le> j + vma_size b" "a \<le> y" for j b
      using that fl(2) n mem by (metis add_leD1 le_add1 le_antisym le_trans less_add_same_cancel1 not_le)
    then have ge: "k \<le> j" if "(j, b) \<in> set (mm_vma_map s)" "y + n \<le> j + vma_size b" "a \<le> y" for j b
      using that by blast
    show ?thesis
    proof (intro iffI)
      assume r: "room (mm_vma_map s) n al y \<and> a \<le> y"
      then obtain j b where j: "(j, b) \<in> set (mm_vma_map s)" "IsFree b" "j \<le> y" "y + n \<le> j + vma_size b" "al dvd y"
        by (auto simp: room_def)
      show "al dvd y \<and> a \<le> y \<and> IsFree v \<and> y + n \<le> k + vma_size v \<or> room rest n al y"
      proof (cases "j = k")
        case True
        then show ?thesis using j r mem fl(1) by auto
      next
        case False
        then have "(j, b) \<in> set rest" using ge [OF j(1,4)] r j(1) in_rest by simp
        then show ?thesis using j by (auto simp: room_def)
      qed
    next
      assume "al dvd y \<and> a \<le> y \<and> IsFree v \<and> y + n \<le> k + vma_size v \<or> room rest n al y"
      then show "room (mm_vma_map s) n al y \<and> a \<le> y"
      proof
        assume "al dvd y \<and> a \<le> y \<and> IsFree v \<and> y + n \<le> k + vma_size v"
        then show ?thesis using mem [of k v] fl by (auto simp: room_def intro: order_trans)
      next
        assume "room rest n al y"
        then show ?thesis using after in_rest by (auto simp: room_def) (meson less_imp_le order_trans)
      qed
    qed
  qed
  have eq: "SearchFree s va n al =
    Some (if IsFree v \<and> a + n \<le> k + vma_size v then a else search_free_loop rest (search_limit s) n al)"
  proof -
    have "(if va < as_system_managed_base (mm_impl s) then as_system_managed_base (mm_impl s) else va) = w"
      by (simp add: w_def max_def)
    moreover have "AlignUp w al = a" by (simp add: a_def first_candidate_def w_def)
    moreover have "al mod 2 ^ 32 = al" using al by simp
    ultimately show ?thesis
      using valid f al cont from_k unfolding SearchFree_def Let_def search_limit_def by (simp add: FindVMA_def)
  qed
  have hi': "\<forall>(k, v) \<in> set rest. k + vma_size v + al < U64 - 1"
    using hi in_rest n by fastforce
  let ?r = "if IsFree v \<and> a + n \<le> k + vma_size v then a else search_free_loop rest (search_limit s) n al"
  have ne: "a \<noteq> minus_one" using an n by (simp add: minus_one_def)
  have "if ?r = minus_one
         then (\<forall>y. room (mm_vma_map s) n al y \<longrightarrow> a \<le> y \<longrightarrow> search_limit s \<le> y)
         else room (mm_vma_map s) n al ?r \<and> a \<le> ?r \<and> (\<forall>y. room (mm_vma_map s) n al y \<longrightarrow> a \<le> y \<longrightarrow> ?r \<le> y)"
  proof (cases "IsFree v \<and> a + n \<le> k + vma_size v")
    case True
    then show ?thesis using ne split [of a] a(2) by auto
  next
    case False
    then have only: "room (mm_vma_map s) n al y \<and> a \<le> y \<longleftrightarrow> room rest n al y" for y
      using split [of y] by auto
    show ?thesis
      using search_free_loop_least [OF rest n al(1) hi' refl, of "search_limit s"] False only
      by (simp split: if_splits) blast+
  qed
  then show thesis by (intro that [OF eq]) (simp only: a_def)
qed

subsection \<open>The choice of the address\<close>

text \<open>Unless an existing mapping is to be replaced, the chosen range is free.\<close>

lemma choose_fixed_free:
  assumes m: "vma_map_ok (mm_vma_map s)" and fx: "has_flag flags MapFixed" "has_flag flags MapNoOverwrite"
    and fr: "free_at s va n" and n: "0 < n"
  shows "choose_address s va n flags al = Some (Inr va)"
proof -
  obtain k v where f: "FindVMA s va = Some (k, v)" and v: "IsFree v" and le: "va + n \<le> k + vma_size v"
    using fr by (rule free_atE)
  note l = om.floor_lookup [OF vma_map_inv [OF m] f [unfolded FindVMA_def]]
  note vok = vma_lookup_ok [OF m l(1)]
  have at: "vma_at (mm_vma_map s) y \<noteq> None" if "va \<le> y" "y < va + n" for y
    using vma_area_content [OF m f [unfolded FindVMA_def], of y] that le by simp
  have "assert_valid s va n = Some ()"
    using IsValidMapping_covered [OF m at [of va], of n] at n le vok(3)
    by (simp add: assert_valid_def covered_def)
  moreover have "uadd (vma_base v) (vma_size v) = k + vma_size v" "usub (k + vma_size v) va = k + vma_size v - va"
    using vok le by (simp_all add: u64_exact)
  ultimately show ?thesis using fx f v le by (simp add: choose_address_def)
qed

lemma choose_search_free:
  assumes m: "vma_map_ok (mm_vma_map s)" and fx: "\<not> has_flag flags MapFixed"
    and n: "0 < n" and al: "0 < al" "al < 2 ^ 32"
    and hi: "\<forall>(k, v) \<in> set (mm_vma_map s). k + vma_size v + al + n < U64"
    and at: "vma_at (mm_vma_map s) (max va (as_system_managed_base (mm_impl s))) \<noteq> None"
  obtains (none) "choose_address s va n flags al = Some (Inl ORBIS_KERNEL_ERROR_ENOMEM)"
      and "\<And>y. room (mm_vma_map s) n al y \<Longrightarrow> first_candidate s va al \<le> y \<Longrightarrow> search_limit s \<le> y"
  | (found) x where "choose_address s va n flags al = Some (Inr x)" and "free_at s x n" and "al dvd x"
      and "first_candidate s va al \<le> x"
      and "\<And>y. room (mm_vma_map s) n al y \<Longrightarrow> first_candidate s va al \<le> y \<Longrightarrow> x \<le> y"
proof -
  have va: "(if va = 0 then DEFAULT_MAPPING_BASE else va) = va" by (simp add: DEFAULT_MAPPING_BASE_def)
  obtain r where r: "SearchFree s va n al = Some r"
    and spec: "if r = minus_one
         then (\<forall>y. room (mm_vma_map s) n al y \<longrightarrow> first_candidate s va al \<le> y \<longrightarrow> search_limit s \<le> y)
         else room (mm_vma_map s) n al r \<and> first_candidate s va al \<le> r \<and>
              (\<forall>y. room (mm_vma_map s) n al y \<longrightarrow> first_candidate s va al \<le> y \<longrightarrow> r \<le> y)"
    by (rule SearchFree_first_fit [OF m n al hi at]) (rule that)
  show thesis
  proof (cases "r = minus_one")
    case True
    with r spec fx show ?thesis by (intro none) (simp_all add: choose_address_def va)
  next
    case False
    then have rm: "room (mm_vma_map s) n al r" and rest: "first_candidate s va al \<le> r"
      "\<And>y. room (mm_vma_map s) n al y \<Longrightarrow> first_candidate s va al \<le> y \<Longrightarrow> r \<le> y"
      using spec by (auto split: if_splits)
    have "choose_address s va n flags al = Some (Inr r)" using r fx False by (simp add: choose_address_def va)
    moreover have "al dvd r" using rm by (simp add: room_def)
    ultimately show ?thesis using found rest room_free_at [OF m rm n] by blast
  qed
qed

subsection \<open>The check of the physical range\<close>

definition mappable :: "bool \<Rightarrow> PhysicalMemoryType \<Rightarrow> bool" where
  "mappable validate_dmem d \<longleftrightarrow> d = PAllocated \<or> \<not> validate_dmem \<and> d = PMapped"

lemma validate_dmem_loop_iff:
  assumes "seg_ok pma_size base_is_key xs"
  shows "validate_dmem_loop xs e vd = None \<longleftrightarrow> (\<forall>(k, a) \<in> set xs. k < e \<longrightarrow> mappable vd (pma_dma_type a))"
    and "validate_dmem_loop xs e vd \<in> {None, Some ORBIS_KERNEL_ERROR_ENOMEM, Some ORBIS_KERNEL_ERROR_EBUSY}"
proof -
  show "validate_dmem_loop xs e vd \<in> {None, Some ORBIS_KERNEL_ERROR_ENOMEM, Some ORBIS_KERNEL_ERROR_EBUSY}"
    by (induction xs e vd rule: validate_dmem_loop.induct) auto
  show "validate_dmem_loop xs e vd = None \<longleftrightarrow> (\<forall>(k, a) \<in> set xs. k < e \<longrightarrow> mappable vd (pma_dma_type a))"
    using assms
  proof (induction xs e vd rule: validate_dmem_loop.induct)
    case (2 k a rest e vd)
    then have b: "pma_base a = k" "\<forall>(k', a') \<in> set rest. k < k'" by (auto simp: base_is_key_def)
    show ?case
    proof (cases "k < e")
      case True
      with 2 b show ?thesis by (auto simp: mappable_def)
    next
      case False
      with b show ?thesis by auto
    qed
  qed simp
qed

text \<open>
  A range of direct memory passes the check exactly when every byte of it may be mapped.
\<close>

lemma validate_phys_exact:
  assumes ok: "dmem_ok s" and p: "p \<noteq> minus_one" and n: "0 < n" and b: "p + n \<le> mm_total_direct_size s" "mm_total_direct_size s < U64"
  obtains e where "validate_phys s p n vd = Some e"
    and "e = None \<longleftrightarrow> (\<forall>q t d. p \<le> q \<and> q < p + n \<and> phys_at (mm_dmem_map s) q = Some (q, t, d) \<longrightarrow> mappable vd d)"
    and "e \<in> {None, Some ORBIS_KERNEL_ERROR_ENOMEM, Some ORBIS_KERNEL_ERROR_EBUSY}"
proof -
  note sg = dmem_ok_keyed [OF ok]
  note inv = seg_ok_inv [OF sg]
  have keyed: "phys_keyed (mm_dmem_map s)" using ok by (simp add: dmem_ok_def)
  have "phys_at (mm_dmem_map s) p \<noteq> None" using ok n b by (simp add: dmem_ok_def)
  then obtain h a where f: "om_floor (mm_dmem_map s) p = Some (h, a)" and h: "om_lookup (mm_dmem_map s) h = Some a"
    "h \<le> p" "p < h + pma_size a"
    using pk.den_floor [OF sg] unfolding phys_at_def by metis
  let ?xs = "om_from (mm_dmem_map s) h"
  have xs: "seg_ok pma_size base_is_key ?xs" by (rule seg_ok_from [OF sg])
  have mem: "(k, c) \<in> set ?xs \<longleftrightarrow> om_lookup (mm_dmem_map s) k = Some c \<and> h \<le> k" for k c
    by (simp add: set_om_from om_lookup_in_set [OF inv])
  have eq: "validate_phys s p n vd = Some (validate_dmem_loop ?xs (p + n) vd)"
    using p b f by (simp add: validate_phys_def u64_exact FindDmemArea_def)
  have "(\<forall>(k, c) \<in> set ?xs. k < p + n \<longrightarrow> mappable vd (pma_dma_type c)) \<longleftrightarrow>
      (\<forall>q t d. p \<le> q \<and> q < p + n \<and> phys_at (mm_dmem_map s) q = Some (q, t, d) \<longrightarrow> mappable vd d)"
  proof (intro iffI allI impI ballI)
    fix q t d
    assume all: "\<forall>(k, c) \<in> set ?xs. k < p + n \<longrightarrow> mappable vd (pma_dma_type c)"
      and q: "p \<le> q \<and> q < p + n \<and> phys_at (mm_dmem_map s) q = Some (q, t, d)"
    then obtain k c where k: "om_lookup (mm_dmem_map s) k = Some c" "k \<le> q" "q < k + pma_size c"
      using pk.den_Some [OF sg, of q] unfolding phys_at_def by blast
    have "h \<le> k" using pk.apart [OF sg k(1) h(1)] k q h by (metis dual_order.strict_trans1 leD leI le_trans)
    then have "(k, c) \<in> set ?xs" using k mem by simp
    with all k q have "mappable vd (pma_dma_type c)" by fastforce
    then show "mappable vd d" using phys_area_at [OF keyed k] q by simp
  next
    fix e
    assume all: "\<forall>q t d. p \<le> q \<and> q < p + n \<and> phys_at (mm_dmem_map s) q = Some (q, t, d) \<longrightarrow> mappable vd d"
      and e: "e \<in> set ?xs"
    obtain k c where kc: "e = (k, c)" by (cases e)
    have k: "om_lookup (mm_dmem_map s) k = Some c" "h \<le> k" using e mem by (simp_all add: kc)
    have "mappable vd (pma_dma_type c)" if "k < p + n"
    proof -
      have sz: "0 < pma_size c" using pk.lookupD [OF sg k(1)] by simp
      have "max p k < k + pma_size c" using sz k h by (cases "h = k") (use pk.apart [OF sg h(1) k(1)] in auto)
      then have "phys_at (mm_dmem_map s) (max p k) = Some (max p k, pma_memory_type c, pma_dma_type c)"
        by (intro phys_area_at [OF keyed k(1)]) simp_all
      with all that n show ?thesis by (metis add_less_cancel_left less_add_same_cancel1 max.cobounded1 max_def)
    qed
    then show "case e of (k, c) \<Rightarrow> k < p + n \<longrightarrow> mappable vd (pma_dma_type c)" by (simp add: kc)
  qed
  with eq validate_dmem_loop_iff [OF xs, of "p + n" vd] show thesis by (intro that) auto
qed

end
