(* ===== verification/Orbit_Flexible.thy ===== *)
theory Orbit_Flexible
  imports Orbit_Search
begin

text \<open>
  The accounting of flexible memory.  \<^verbatim>\<open>MapMemory\<close> admits a request by comparing the usage
  counter with the configured size and then asserts that its loop finds the memory; the invariant
  \<open>flex_budget\<close> is what makes the comparison sufficient.
\<close>

definition flex_budget :: "mm \<Rightarrow> bool" where
  "flex_budget s \<longleftrightarrow>
     mm_total_flexible_size s \<le> mm_flexible_usage s + card (used_as (mm_fmem_map s) PFree)"

lemma flex_budget_enough:
  assumes "flex_budget s" and "mm_flexible_usage s + n \<le> mm_total_flexible_size s"
  shows "n \<le> card (used_as (mm_fmem_map s) PFree)"
  using assms by (simp add: flex_budget_def)

text \<open>The number of bytes that were gathered.\<close>

lemma gathered_bij:
  assumes "gathered D0 D areas n A g d"
  shows "bij_betw (\<lambda>i. fst (the (phys_at areas i))) {..< n} A" and "card A = n"
proof -
  note g = gatheredD [OF assms]
  have "(\<lambda>i. fst (the (phys_at areas i))) ` {..< n} = A" using g(5,6) by force
  then show b: "bij_betw (\<lambda>i. fst (the (phys_at areas i))) {..< n} A" using g(7) by (simp add: bij_betw_def)
  show "card A = n" using bij_betw_same_card [OF b] by simp
qed

lemma gathered_leaves:
  assumes G: "gathered D0 D areas n A g d" and "A \<subseteq> used_as D0 w" and "d \<noteq> w"
  shows "used_as D w = used_as D0 w - A"
  using gatheredD(3) [OF G] assms(3) by (auto simp: used_as_def retagged_def split: if_splits)

lemma flex_budget_map:
  assumes b: "flex_budget s" and G: "gathered (mm_fmem_map s) D areas n A id PFlexible"
    and A: "A \<subseteq> used_as (mm_fmem_map s) PFree" and k: "phys_keyed (mm_fmem_map s)"
    and s': "mm_fmem_map s' = D" "mm_total_flexible_size s' = mm_total_flexible_size s"
      "mm_flexible_usage s' = mm_flexible_usage s + n"
  shows "flex_budget s'"
proof -
  have fin: "finite (used_as (mm_fmem_map s) PFree)" by (rule used_as_finite [OF k])
  have "card (used_as D PFree) = card (used_as (mm_fmem_map s) PFree) - n"
    using gathered_leaves [OF G A] card_Diff_subset [OF finite_subset [OF A fin] A] gathered_bij(2) [OF G] by simp
  moreover have "n \<le> card (used_as (mm_fmem_map s) PFree)"
    using card_mono [OF fin A] gathered_bij(2) [OF G] by simp
  ultimately show ?thesis using b s' by (simp add: flex_budget_def)
qed

text \<open>Every page of flexible memory shows a byte of its own.\<close>

lemma flexible_page_backed:
  assumes m: "vma_map_ok m" and c: "vma_at m y = Some c" "pg_type c = VFlexible"
  shows "pg_phys c \<noteq> None"
proof -
  obtain k v where k: "om_lookup m k = Some v" "k \<le> y" "y < k + vma_size v" and cv: "vma_content v (y - k) = c"
    using vm.den_Some [OF m [unfolded vma_map_ok_def], of y c] c(1) unfolding vma_at_def by blast
  have "vma_type v = VFlexible" using c(2) cv by (auto simp: vma_content_def)
  then have "phys_tiled (vma_phys_areas v) (vma_size v)"
    using vma_lookup_ok(1) [OF m k(1)] by (simp add: vma_ok_def HasPhysicalBacking_def)
  then have "phys_at (vma_phys_areas v) (y - k) \<noteq> None" using k by (simp add: phys_tiled_def less_diff_conv2)
  then show ?thesis using cv by (auto simp: vma_content_def)
qed

lemma shown_card:
  assumes ok: "mm_ok s"
  shows "card (shown s x n VFlexible) = page_count s x n VFlexible"
proof -
  note D = mm_okD [OF ok]
  let ?Y = "{y \<in> {x ..< x + n}. \<exists>c. vma_at (mm_vma_map s) y = Some c \<and> pg_type c = VFlexible}"
  let ?f = "\<lambda>y. fst (the (pg_phys (the (vma_at (mm_vma_map s) y))))"
  have "inj_on ?f ?Y"
  proof (rule inj_onI)
    fix y z assume y: "y \<in> ?Y" and z: "z \<in> ?Y" and eq: "?f y = ?f z"
    then obtain c e where c: "vma_at (mm_vma_map s) y = Some c" "pg_type c = VFlexible"
      and e: "vma_at (mm_vma_map s) z = Some e" "pg_type e = VFlexible" by auto
    obtain p t d q t' d' where "pg_phys c = Some (p, t, d)" "pg_phys e = Some (q, t', d')"
      using flexible_page_backed [OF D(1) c] flexible_page_backed [OF D(1) e] by auto
    then show "y = z" using D(5) c e eq unfolding no_alias_def by (metis fst_conv option.sel)
  qed
  moreover have "?f ` ?Y = shown s x n VFlexible"
  proof (intro equalityI subsetI)
    fix p assume "p \<in> ?f ` ?Y"
    then obtain y c where y: "x \<le> y" "y < x + n" and c: "vma_at (mm_vma_map s) y = Some c" "pg_type c = VFlexible"
      and p: "p = fst (the (pg_phys c))" by auto
    obtain q t d where "pg_phys c = Some (q, t, d)" using flexible_page_backed [OF D(1) c] by auto
    with y c p show "p \<in> shown s x n VFlexible" by (auto simp: shown_def)
  next
    fix p assume "p \<in> shown s x n VFlexible"
    then obtain y c t d where "x \<le> y" "y < x + n" "vma_at (mm_vma_map s) y = Some c" "pg_type c = VFlexible"
      "pg_phys c = Some (p, t, d)" by (auto simp: shown_def)
    then show "p \<in> ?f ` ?Y" by (intro image_eqI [of _ _ y]) auto
  qed
  ultimately show ?thesis unfolding page_count_def by (metis (no_types, lifting) card_image)
qed

lemma flex_budget_unmap:
  assumes ok: "mm_ok s" and b: "flex_budget s" and u: "unmapped s x n s'"
  shows "flex_budget s'"
proof -
  note D = mm_okD [OF ok]
  let ?S = "shown s x n VFlexible" and ?F = "used_as (mm_fmem_map s) PFree"
  have in_use: "phys_at (mm_fmem_map s) p = Some (p, t, d) \<Longrightarrow> p \<in> ?S \<Longrightarrow> d = PFlexible" for p t d
    using D(4) by (fastforce simp: shown_def backing_agrees_def kind_map_def usage_of_def)
  have present: "\<exists>t d. phys_at (mm_fmem_map s) p = Some (p, t, d)" if "p \<in> ?S" for p
    using D(4) that by (fastforce simp: shown_def backing_agrees_def kind_map_def)
  have at: "phys_at (mm_fmem_map s') p =
      (if p \<in> ?S then map_option (\<lambda>(q, t, _). (q, t, PFree)) (phys_at (mm_fmem_map s) p) else phys_at (mm_fmem_map s) p)" for p
    using u by (simp add: unmapped_def)
  have F': "used_as (mm_fmem_map s') PFree = ?F \<union> ?S"
    using present by (fastforce simp: used_as_def at)
  have dis: "?F \<inter> ?S = {}" using in_use by (fastforce simp: used_as_def)
  have finF: "finite ?F" by (rule used_as_finite [OF D(3)])
  have "?S \<subseteq> used_as (mm_fmem_map s') PFree" using F' by blast
  then have finS: "finite ?S"
    using used_as_finite [OF mm_okD(3) [OF unmapped_ok [OF u]]] finite_subset by blast
  have card': "card (used_as (mm_fmem_map s') PFree) = card ?F + page_count s x n VFlexible"
    using card_Un_disjoint [OF finF finS dis] shown_card [OF ok] F' by simp
  have us: "mm_flexible_usage s' = usub (mm_flexible_usage s) (page_count s x n VFlexible)"
    and tot: "mm_total_flexible_size s' = mm_total_flexible_size s"
    using u by (auto simp: unmapped_def)
  have "mm_flexible_usage s \<le> usub (mm_flexible_usage s) c + c" if "c < U64" for c
    using D(7) that by (cases "c \<le> mm_flexible_usage s") (auto simp: usub_def usub_exact mod_if)
  then show ?thesis
    using b us tot card' D(7) by (cases "page_count s x n VFlexible < U64") (force simp: flex_budget_def)+
qed

end
