(* ===== verification/Orbit_Query.thy ===== *)
theory Orbit_Query
  imports Orbit_Map
begin

text \<open>
  Protection changes, type changes, naming and queries of virtual memory
  (\<^verbatim>\<open>src/core/memory.cpp\<close>): \<^verbatim>\<open>QueryProtection\<close>, \<^verbatim>\<open>ProtectBytes\<close>, \<^verbatim>\<open>Protect\<close>,
  \<^verbatim>\<open>VirtualQuery\<close>, \<^verbatim>\<open>SetDirectMemoryType\<close>, \<^verbatim>\<open>NameVirtualRange\<close>, \<^verbatim>\<open>IsStack\<close> and
  \<^verbatim>\<open>InvalidateMemory\<close>.
\<close>

subsection \<open>Protection\<close>

text \<open>On success the start, the end and the protection of the area.\<close>

definition QueryProtection :: "mm \<Rightarrow> VAddr \<Rightarrow> (s32 + VAddr \<times> VAddr \<times> MemoryProt) option" where
  "QueryProtection s addr =
     (if addr < as_system_managed_base (mm_impl s) then Some (Inl ORBIS_KERNEL_ERROR_EACCES)
      else do {
        (_, vma) \<leftarrow> FindVMA s addr;
        if IsFree vma then Some (Inl ORBIS_KERNEL_ERROR_EACCES)
        else Some (Inr (vma_base vma, uadd (vma_base vma) (vma_size vma), vma_prot vma))
      })"

text \<open>The permissions of the host (\<^verbatim>\<open>Core::MemoryPermission\<close>).\<close>

definition PermRead :: "32 word" where "PermRead = 1"
definition PermWrite :: "32 word" where "PermWrite = 2"
definition PermReadWrite :: "32 word" where "PermReadWrite = 3"
definition PermExecute :: "32 word" where "PermExecute = 4"

lemmas perm_defs = PermRead_def PermWrite_def PermReadWrite_def PermExecute_def

definition host_perms :: "MemoryProt \<Rightarrow> 32 word" where
  "host_perms prot =
     (let p1 = (if has_flag prot ProtCpuRead then PermRead else 0);
          p2 = (if has_flag prot ProtCpuReadWrite then p1 OR PermReadWrite else p1);
          p3 = (if has_flag prot ProtCpuExec then p2 OR PermExecute else p2);
          p4 = (if has_flag prot ProtGpuRead then p3 OR PermRead else p3);
          p5 = (if has_flag prot ProtGpuWrite then p4 OR PermWrite else p4)
      in if has_flag prot ProtGpuReadWrite then p5 OR PermReadWrite else p5)"

text \<open>
  \<open>vma\<close> is the area \<^verbatim>\<open>vma_base\<close> refers to.  The source reads its type again after
  \<^verbatim>\<open>MergeAdjacent\<close>, which may have erased it; no statement writes the type, so the model reads
  the value it had.
\<close>

definition ProtectBytes :: "mm \<Rightarrow> VAddr \<Rightarrow> VirtualMemoryArea \<Rightarrow> nat \<Rightarrow> MemoryProt \<Rightarrow> (nat \<times> mm) option" where
  "ProtectBytes s addr vma sz prot0 =
     (let start_in_vma = usub addr (vma_base vma);
          adjusted_size = min (usub (vma_size vma) start_in_vma) sz;
          old_prot = vma_prot vma
      in if vma_type vma = VFree \<or> vma_type vma = VPoolReserved then Some (adjusted_size, s)
         else
           let prot1 = append_read prot0;
               perms = host_perms prot1;
               prot = (if vma_type vma = VDirect \<or> vma_type vma = VPooled \<or> vma_type vma = VFile
                       then prot1 AND NOT ProtCpuExec else prot1)
           in do {
             m \<leftarrow> vma_assign_merge (\<lambda>v. v\<lparr>vma_prot := prot\<rparr>) (mm_vma_map s) addr adjusted_size;
             let s1 = s\<lparr>mm_vma_map := m\<rparr>;
             if vma_type vma = VReserved then Some (adjusted_size, s1)
             else Some (adjusted_size,
                    if prot0 \<noteq> old_prot then host (HostProtect addr adjusted_size perms) s1 else s1)
           })"

text \<open>
  \<^verbatim>\<open>protected_bytes\<close> and the result of \<^verbatim>\<open>ProtectBytes\<close> are \<^verbatim>\<open>s64\<close>; values from \<open>2 ^ 63\<close> on are
  negative there.
\<close>

partial_function (option) protect_loop ::
  "mm \<Rightarrow> VAddr \<Rightarrow> nat \<Rightarrow> MemoryProt \<Rightarrow> nat \<Rightarrow> (s32 \<times> mm) option" where
  "protect_loop s addr sz prot protected_bytes =
     (if \<not> protected_bytes < sz then Some (ORBIS_OK, s)
      else do {
        (_, vma) \<leftarrow> FindVMA s (uadd addr protected_bytes);
        let protected1 =
          (if vma_base vma > uadd addr protected_bytes
           then uadd protected_bytes (usub (vma_base vma) (uadd addr protected_bytes))
           else protected_bytes);
        (result, s1) \<leftarrow> ProtectBytes s (uadd addr protected1) vma (usub sz protected1) prot;
        if result \<ge> 2 ^ 63 then Some (to_s32 result, s1)
        else protect_loop s1 addr sz prot (uadd protected1 result)
      })"

definition Protect :: "mm \<Rightarrow> VAddr \<Rightarrow> nat \<Rightarrow> MemoryProt \<Rightarrow> (s32 \<times> mm) option" where
  "Protect s addr sz prot =
     (if sz = 0 then Some (ORBIS_OK, s)
      else do { assert_valid s addr sz; protect_loop s addr sz prot 0 })"

definition InvalidateMemory :: "VAddr \<Rightarrow> nat \<Rightarrow> mm \<Rightarrow> mm" where
  "InvalidateMemory addr sz s = (if mm_rasterizer s then host (GpuInvalidate addr sz) s else s)"

subsection \<open>Queries\<close>

record OrbisVirtualQueryInfo =
  vq_start :: nat
  vq_end :: nat
  vq_offset :: nat
  vq_protection :: "32 word"
  vq_memory_type :: s32
  vq_is_flexible :: bool
  vq_is_direct :: bool
  vq_is_stack :: bool
  vq_is_pooled :: bool
  vq_is_committed :: bool
  vq_name :: string

fun virtual_query_skip :: "VMAMap \<Rightarrow> s32 \<Rightarrow> VMAMap" where
  "virtual_query_skip [] flags = []"
| "virtual_query_skip ((k, v) # rest) flags =
     (if vma_type v = VFree \<and> flags = 1 then virtual_query_skip rest flags else (k, v) # rest)"

text \<open>\<^verbatim>\<open>strncpy(dest, src, n)\<close>: the bytes written.\<close>

definition strncpy :: "nat \<Rightarrow> string \<Rightarrow> string" where
  "strncpy n src = take n (takeWhile (\<lambda>c. c \<noteq> CHR 0x00) src @ replicate n (CHR 0x00))"

definition ORBIS_KERNEL_MAXIMUM_NAME_LENGTH :: nat where
  "ORBIS_KERNEL_MAXIMUM_NAME_LENGTH = 32"

definition query_info :: "VirtualMemoryArea \<Rightarrow> OrbisVirtualQueryInfo option" where
  "query_info vma =
     do {
       (offset, memory_type) \<leftarrow>
         (if vma_type vma = VDirect
          then (case vma_phys_areas vma of [] \<Rightarrow> None | (_, a) # _ \<Rightarrow> Some (pma_base a, pma_memory_type a))
          else Some (0, 0));
       Some \<lparr>vq_start = vma_base vma, vq_end = uadd (vma_base vma) (vma_size vma),
             vq_offset = offset,
             vq_protection = (if vma_type vma = VReserved \<or> vma_type vma = VPoolReserved then 0
                              else vma_prot vma),
             vq_memory_type = memory_type,
             vq_is_flexible = (vma_type vma = VFlexible),
             vq_is_direct = (vma_type vma = VDirect),
             vq_is_stack = (vma_type vma = VStack),
             vq_is_pooled = (vma_type vma = VPoolReserved \<or> vma_type vma = VPooled),
             vq_is_committed = IsMapped vma,
             vq_name = strncpy ORBIS_KERNEL_MAXIMUM_NAME_LENGTH (vma_name vma)\<rparr>
     }"

definition VirtualQuery :: "mm \<Rightarrow> VAddr \<Rightarrow> s32 \<Rightarrow> (s32 + OrbisVirtualQueryInfo) option" where
  "VirtualQuery s addr flags =
     (let lo = as_system_managed_base (mm_impl s);
          query_addr = (if addr < lo then lo else addr)
      in if addr < query_addr \<and> flags = 0 then Some (Inl ORBIS_KERNEL_ERROR_EACCES)
         else do {
           (h, _) \<leftarrow> FindVMA s query_addr;
           (case virtual_query_skip (om_from (mm_vma_map s) h) flags of
              [] \<Rightarrow> Some (Inl ORBIS_KERNEL_ERROR_EACCES)
            | (_, vma) # _ \<Rightarrow>
                if vma_type vma = VFree then Some (Inl ORBIS_KERNEL_ERROR_EACCES)
                else map_option Inr (query_info vma))
         })"

text \<open>On success the bounds of the stack area, zero for other areas.\<close>

definition IsStack :: "mm \<Rightarrow> VAddr \<Rightarrow> (s32 + VAddr \<times> VAddr) option" where
  "IsStack s addr =
     do {
       assert_valid s addr 0;
       (_, vma) \<leftarrow> FindVMA s addr;
       if IsFree vma then Some (Inl ORBIS_KERNEL_ERROR_EACCES)
       else Some (Inr (if vma_type vma = VStack
                       then (vma_base vma, uadd (vma_base vma) (vma_size vma)) else (0, 0)))
     }"

subsection \<open>Memory types and names\<close>

fun set_type_phys :: "s32 \<Rightarrow> PhysMap \<Rightarrow> PhysMap \<Rightarrow> (PhysMap \<times> PhysMap) option" where
  "set_type_phys memory_type [] dmem = Some ([], dmem)"
| "set_type_phys memory_type ((off, a) # rest) dmem =
     do {
       (_, dmem1) \<leftarrow> carve_assign CarvePhysArea (\<lambda>b. b\<lparr>pma_memory_type := memory_type\<rparr>) dmem
                       (pma_base a) (pma_size a);
       (areas, dmem2) \<leftarrow> set_type_phys memory_type rest dmem1;
       Some ((off, a\<lparr>pma_memory_type := memory_type\<rparr>) # areas, dmem2)
     }"

text \<open>After a modification: merge, and step to the next area when this one is done.\<close>

definition merge_and_step :: "VMAMap \<Rightarrow> VAddr \<Rightarrow> VAddr \<Rightarrow> (VAddr option \<times> VMAMap) option" where
  "merge_and_step m h current_addr =
     do {
       (h1, m1) \<leftarrow> vma_MergeAdjacent m h;
       vma \<leftarrow> om_lookup m1 h1;
       Some (if uadd (vma_base vma) (vma_size vma) \<le> current_addr
             then map_option fst (om_next m1 h1) else Some h1, m1)
     }"

partial_function (option) set_type_loop ::
  "mm \<Rightarrow> VAddr option \<Rightarrow> VAddr \<Rightarrow> nat \<Rightarrow> s32 \<Rightarrow> mm option" where
  "set_type_loop s vma_handle current_addr remaining_size memory_type =
     (case vma_handle of
        None \<Rightarrow> Some s
      | Some h \<Rightarrow>
          if remaining_size = 0 then Some s
          else do {
            vma \<leftarrow> om_lookup (mm_vma_map s) h;
            let start_in_vma = usub current_addr (vma_base vma);
            let size_in_vma = min remaining_size (usub (vma_size vma) start_in_vma);
            (h1, s1) \<leftarrow>
              (if vma_type vma = VDirect \<or> vma_type vma = VPooled
               then do {
                 (h1, m1) \<leftarrow> CarveVMA (mm_vma_map s) current_addr size_in_vma;
                 v1 \<leftarrow> om_lookup m1 h1;
                 (areas, dmem) \<leftarrow> set_type_phys memory_type (vma_phys_areas v1) (mm_dmem_map s);
                 Some (h1, s\<lparr>mm_vma_map := om_set h1 (v1\<lparr>vma_phys_areas := areas\<rparr>) m1,
                             mm_dmem_map := dmem\<rparr>)
               }
               else Some (h, s));
            let current1 = uadd current_addr size_in_vma;
            (handle2, m2) \<leftarrow> merge_and_step (mm_vma_map s1) h1 current1;
            set_type_loop (s1\<lparr>mm_vma_map := m2\<rparr>) handle2 current1 (usub remaining_size size_in_vma)
              memory_type
          })"

definition SetDirectMemoryType :: "mm \<Rightarrow> VAddr \<Rightarrow> nat \<Rightarrow> s32 \<Rightarrow> (s32 \<times> mm) option" where
  "SetDirectMemoryType s addr sz memory_type =
     do {
       assert_valid s addr sz;
       (h, _) \<leftarrow> FindVMA s addr;
       s1 \<leftarrow> set_type_loop s (Some h) addr sz memory_type;
       Some (ORBIS_OK, s1)
     }"

partial_function (option) name_loop ::
  "mm \<Rightarrow> VAddr option \<Rightarrow> VAddr \<Rightarrow> nat \<Rightarrow> string \<Rightarrow> mm option" where
  "name_loop s it current_addr remaining_size name =
     (case it of
        None \<Rightarrow> Some s
      | Some h \<Rightarrow>
          if remaining_size = 0 then Some s
          else do {
            vma \<leftarrow> om_lookup (mm_vma_map s) h;
            let start_in_vma = usub current_addr (vma_base vma);
            let size_in_vma = min remaining_size (usub (vma_size vma) start_in_vma);
            (h1, m1) \<leftarrow>
              (if \<not> IsFree vma
               then if size_in_vma < vma_size vma
                    then carve_assign CarveVMA (\<lambda>v. v\<lparr>vma_name := name\<rparr>) (mm_vma_map s)
                           current_addr size_in_vma
                    else Some (h, om_set h (vma\<lparr>vma_name := name\<rparr>) (mm_vma_map s))
               else Some (h, mm_vma_map s));
            let current1 = uadd current_addr size_in_vma;
            (it2, m2) \<leftarrow> merge_and_step m1 h1 current1;
            name_loop (s\<lparr>mm_vma_map := m2\<rparr>) it2 current1 (usub remaining_size size_in_vma) name
          })"

definition NameVirtualRange :: "mm \<Rightarrow> VAddr \<Rightarrow> nat \<Rightarrow> string \<Rightarrow> mm option" where
  "NameVirtualRange s virtual_addr sz name =
     (let aligned_size = AlignUp sz (16 * KB);
          aligned_addr = AlignDown virtual_addr (16 * KB)
      in do {
        assert_valid s aligned_addr aligned_size;
        (h, _) \<leftarrow> FindVMA s aligned_addr;
        name_loop s (Some h) aligned_addr aligned_size name
      })"

end
