(* ===== verification/Orbit_KernelMemory.thy ===== *)
theory Orbit_KernelMemory
  imports Orbit_Query
begin

text \<open>
  The memory calls of the guest's kernel library
  (\<^verbatim>\<open>src/core/libraries/kernel/memory.cpp\<close>): argument checks, the calls on the memory manager,
  the batch interfaces and the POSIX wrappers with their \<^verbatim>\<open>errno\<close>.  The state \<open>kern\<close> is the
  memory manager with the static variables of that file and \<^verbatim>\<open>g_posix_errno\<close>.  Pointer
  arguments are optional values (\<^verbatim>\<open>nullptr\<close> is \<open>None\<close>); an in/out pointer is an argument and a
  result.
\<close>

subsection \<open>State and conversions\<close>

record kern =
  k_mm :: mm
  k_sdk_version :: s32
  k_alias_dmem :: bool
  k_prt_apertures :: "(VAddr \<times> nat) list"
  k_errno :: s32

definition s64_to_u64 :: "int \<Rightarrow> nat" where
  "s64_to_u64 x = nat (x mod int U64)"

definition s32_to_u32 :: "int \<Rightarrow> 32 word" where
  "s32_to_u32 x = word_of_int x"

definition ErrSceToPosix :: "s32 \<Rightarrow> kern \<Rightarrow> kern" where
  "ErrSceToPosix error k = k\<lparr>k_errno := wrap_s32 (error - ORBIS_KERNEL_ERROR_UNKNOWN)\<rparr>"

definition FW_250 :: s32 where "FW_250 = 0x2500000"

text \<open>Run an operation of the memory manager on the kernel state.\<close>

definition on_mm :: "kern \<Rightarrow> ('a \<times> mm) option \<Rightarrow> ('a \<times> kern) option" where
  "on_mm k r = map_option (\<lambda>(a, s). (a, k\<lparr>k_mm := s\<rparr>)) r"

definition has_single_bit :: "nat \<Rightarrow> bool" where
  "has_single_bit x \<longleftrightarrow> x \<noteq> 0 \<and> x AND (x - 1) = 0"

subsection \<open>Direct memory\<close>

definition sceKernelGetDirectMemorySize :: "kern \<Rightarrow> nat" where
  "sceKernelGetDirectMemorySize k = mm_total_direct_size (k_mm k)"

definition sceKernelEnableDmemAliasing :: "kern \<Rightarrow> s32 \<times> kern" where
  "sceKernelEnableDmemAliasing k = (ORBIS_OK, k\<lparr>k_alias_dmem := True\<rparr>)"

text \<open>On success the physical address; \<open>want_out\<close> says that the result pointer is not null.\<close>

definition sceKernelAllocateDirectMemory ::
  "kern \<Rightarrow> int \<Rightarrow> int \<Rightarrow> nat \<Rightarrow> nat \<Rightarrow> s32 \<Rightarrow> bool \<Rightarrow> ((s32 + int) \<times> kern) option" where
  "sceKernelAllocateDirectMemory k searchStart searchEnd len alignment memoryType want_out =
     (if searchStart < 0 \<or> searchEnd < 0 then Some (Inl ORBIS_KERNEL_ERROR_EINVAL, k)
      else if len \<le> 0 \<or> \<not> Is16KBAligned len then Some (Inl ORBIS_KERNEL_ERROR_EINVAL, k)
      else if alignment \<noteq> 0 \<and> \<not> Is16KBAligned alignment then Some (Inl ORBIS_KERNEL_ERROR_EINVAL, k)
      else if memoryType > 10 then Some (Inl ORBIS_KERNEL_ERROR_EINVAL, k)
      else if \<not> want_out then Some (Inl ORBIS_KERNEL_ERROR_EINVAL, k)
      else
        let is_in_range = (s64_to_u64 (searchEnd - searchStart) \<ge> len)
        in if searchEnd \<le> searchStart \<or> s64_to_u64 searchEnd < len \<or> \<not> is_in_range
           then Some (Inl ORBIS_KERNEL_ERROR_EAGAIN, k)
           else do {
             (phys_addr, k1) \<leftarrow> on_mm k (Allocate (k_mm k) (s64_to_u64 searchStart)
                                         (s64_to_u64 searchEnd) len alignment memoryType);
             if phys_addr = minus_one then Some (Inl ORBIS_KERNEL_ERROR_EAGAIN, k1)
             else Some (Inr (sint (of_nat phys_addr :: 64 word)), k1)
           })"

definition sceKernelAllocateMainDirectMemory ::
  "kern \<Rightarrow> nat \<Rightarrow> nat \<Rightarrow> s32 \<Rightarrow> bool \<Rightarrow> ((s32 + int) \<times> kern) option" where
  "sceKernelAllocateMainDirectMemory k len alignment memoryType want_out =
     (let searchEnd = sint (of_nat (sceKernelGetDirectMemorySize k) :: 64 word)
      in sceKernelAllocateDirectMemory k 0 searchEnd len alignment memoryType want_out)"

definition sceKernelCheckedReleaseDirectMemory :: "kern \<Rightarrow> nat \<Rightarrow> nat \<Rightarrow> (s32 \<times> kern) option" where
  "sceKernelCheckedReleaseDirectMemory k start len =
     (if \<not> Is16KBAligned start \<or> \<not> Is16KBAligned len then Some (ORBIS_KERNEL_ERROR_EINVAL, k)
      else if len = 0 then Some (ORBIS_OK, k)
      else on_mm k (Free (k_mm k) start len True))"

definition sceKernelReleaseDirectMemory :: "kern \<Rightarrow> nat \<Rightarrow> nat \<Rightarrow> (s32 \<times> kern) option" where
  "sceKernelReleaseDirectMemory k start len =
     (if \<not> Is16KBAligned start \<or> \<not> Is16KBAligned len then Some (ORBIS_KERNEL_ERROR_EINVAL, k)
      else if len = 0 then Some (ORBIS_OK, k)
      else do { (_, k1) \<leftarrow> on_mm k (Free (k_mm k) start len False); Some (ORBIS_OK, k1) })"

definition sceKernelAvailableDirectMemorySize ::
  "kern \<Rightarrow> nat \<Rightarrow> nat \<Rightarrow> nat \<Rightarrow> bool \<Rightarrow> (s32 + nat \<times> nat) option" where
  "sceKernelAvailableDirectMemorySize k searchStart searchEnd alignment want_out =
     (if \<not> want_out then Some (Inl ORBIS_KERNEL_ERROR_EINVAL)
      else do {
        (result, physAddr, size) \<leftarrow> DirectQueryAvailable (k_mm k) searchStart searchEnd alignment;
        if size = 0 then Some (Inl ORBIS_KERNEL_ERROR_ENOMEM) else Some (Inr (physAddr, size))
      })"

definition sceKernelDirectMemoryQuery ::
  "kern \<Rightarrow> nat \<Rightarrow> s32 \<Rightarrow> OrbisQueryInfo \<Rightarrow> (s32 \<times> OrbisQueryInfo) option" where
  "sceKernelDirectMemoryQuery k offset flags info = DirectMemoryQuery (k_mm k) offset (flags = 1) info"

definition sceKernelGetDirectMemoryType :: "kern \<Rightarrow> nat \<Rightarrow> (s32 + s32 \<times> PAddr \<times> PAddr) option" where
  "sceKernelGetDirectMemoryType k addr = GetDirectMemoryType (k_mm k) addr"

subsection \<open>Mapping\<close>

text \<open>
  The outcome of a mapping call for the caller: the return value and the contents of the
  in/out address, which a failed call leaves alone.
\<close>

definition map_result :: "VAddr \<Rightarrow> ((s32 + VAddr) \<times> kern) option \<Rightarrow> (s32 \<times> VAddr \<times> kern) option" where
  "map_result in_addr r =
     map_option (\<lambda>(x, k). case x of Inl e \<Rightarrow> (e, in_addr, k) | Inr a \<Rightarrow> (ORBIS_OK, a, k)) r"

definition sceKernelVirtualQuery :: "kern \<Rightarrow> VAddr \<Rightarrow> s32 \<Rightarrow> (s32 + OrbisVirtualQueryInfo) option" where
  "sceKernelVirtualQuery k addr flags = VirtualQuery (k_mm k) addr flags"

text \<open>\<^verbatim>\<open>addr\<close> is dereferenced by the log line before the null check, so a null pointer aborts.\<close>

definition sceKernelReserveVirtualRange ::
  "kern \<Rightarrow> VAddr option \<Rightarrow> nat \<Rightarrow> s32 \<Rightarrow> nat \<Rightarrow> (s32 \<times> VAddr \<times> kern) option" where
  "sceKernelReserveVirtualRange k addr len flags alignment =
     do {
       in_addr \<leftarrow> addr;
       if len = 0 \<or> \<not> Is16KBAligned len then Some (ORBIS_KERNEL_ERROR_EINVAL, in_addr, k)
       else if alignment \<noteq> 0 \<and> \<not> has_single_bit alignment \<and> \<not> Is16KBAligned alignment
       then Some (ORBIS_KERNEL_ERROR_EINVAL, in_addr, k)
       else map_result in_addr (on_mm k (MapMemory (k_mm k) in_addr len ProtNoAccess (s32_to_u32 flags)
              VReserved ''anon'' False minus_one alignment))
     }"

definition sceKernelMapNamedDirectMemory ::
  "kern \<Rightarrow> VAddr \<Rightarrow> nat \<Rightarrow> s32 \<Rightarrow> s32 \<Rightarrow> int \<Rightarrow> nat \<Rightarrow> string \<Rightarrow> (s32 \<times> VAddr \<times> kern) option" where
  "sceKernelMapNamedDirectMemory k in_addr len prot flags phys_addr alignment name =
     (if len = 0 \<or> \<not> Is16KBAligned len then Some (ORBIS_KERNEL_ERROR_EINVAL, in_addr, k)
      else if \<not> Is16KBAligned (s64_to_u64 phys_addr) then Some (ORBIS_KERNEL_ERROR_EINVAL, in_addr, k)
      else if alignment \<noteq> 0 \<and> \<not> has_single_bit alignment \<and> \<not> Is16KBAligned alignment
      then Some (ORBIS_KERNEL_ERROR_EINVAL, in_addr, k)
      else if length name \<ge> ORBIS_KERNEL_MAXIMUM_NAME_LENGTH
      then Some (ORBIS_KERNEL_ERROR_ENAMETOOLONG, in_addr, k)
      else let mem_prot = s32_to_u32 prot in
        if has_flag mem_prot ProtCpuExec then Some (ORBIS_KERNEL_ERROR_EACCES, in_addr, k)
        else
          let map_flags = s32_to_u32 flags;
              should_check = (k_sdk_version k mod 2 ^ 32 \<ge> FW_250 \<and> \<not> has_flag map_flags MapStack
                              \<and> \<not> k_alias_dmem k)
          in map_result in_addr (on_mm k (MapMemory (k_mm k) in_addr len mem_prot map_flags VDirect name
               should_check (s64_to_u64 phys_addr) alignment)))"

definition sceKernelMapDirectMemory ::
  "kern \<Rightarrow> VAddr \<Rightarrow> nat \<Rightarrow> s32 \<Rightarrow> s32 \<Rightarrow> int \<Rightarrow> nat \<Rightarrow> (s32 \<times> VAddr \<times> kern) option" where
  "sceKernelMapDirectMemory k in_addr len prot flags phys_addr alignment =
     sceKernelMapNamedDirectMemory k in_addr len prot flags phys_addr alignment ''anon''"

definition sceKernelMapDirectMemory2 ::
  "kern \<Rightarrow> VAddr \<Rightarrow> nat \<Rightarrow> s32 \<Rightarrow> s32 \<Rightarrow> s32 \<Rightarrow> int \<Rightarrow> nat \<Rightarrow> (s32 \<times> VAddr \<times> kern) option" where
  "sceKernelMapDirectMemory2 k in_addr len ty prot flags phys_addr alignment =
     (if len = 0 \<or> \<not> Is16KBAligned len then Some (ORBIS_KERNEL_ERROR_EINVAL, in_addr, k)
      else if \<not> Is16KBAligned (s64_to_u64 phys_addr) then Some (ORBIS_KERNEL_ERROR_EINVAL, in_addr, k)
      else if alignment \<noteq> 0 \<and> \<not> has_single_bit alignment \<and> \<not> Is16KBAligned alignment
      then Some (ORBIS_KERNEL_ERROR_EINVAL, in_addr, k)
      else let mem_prot = s32_to_u32 prot in
        if has_flag mem_prot ProtCpuExec then Some (ORBIS_KERNEL_ERROR_EINVAL, in_addr, k)
        else do {
          (ret, out_addr, k1) \<leftarrow> map_result in_addr (on_mm k (MapMemory (k_mm k) in_addr len mem_prot
             (s32_to_u32 flags) VDirect ''anon'' (\<not> k_alias_dmem k) (s64_to_u64 phys_addr) alignment));
          if ret = 0
          then do { (_, k2) \<leftarrow> on_mm k1 (SetDirectMemoryType (k_mm k1) out_addr len ty);
                    Some (ret, out_addr, k2) }
          else Some (ret, out_addr, k1)
        })"

definition sceKernelMapNamedFlexibleMemory ::
  "kern \<Rightarrow> VAddr \<Rightarrow> nat \<Rightarrow> s32 \<Rightarrow> s32 \<Rightarrow> string option \<Rightarrow> (s32 \<times> VAddr \<times> kern) option" where
  "sceKernelMapNamedFlexibleMemory k in_addr len prot flags name =
     (if len = 0 \<or> \<not> Is16KBAligned len then Some (ORBIS_KERNEL_ERROR_EINVAL, in_addr, k)
      else (case name of
         None \<Rightarrow> Some (ORBIS_KERNEL_ERROR_EFAULT, in_addr, k)
       | Some n \<Rightarrow>
           if length n \<ge> ORBIS_KERNEL_MAXIMUM_NAME_LENGTH
           then Some (ORBIS_KERNEL_ERROR_ENAMETOOLONG, in_addr, k)
           else map_result in_addr (on_mm k (MapMemory (k_mm k) in_addr len (s32_to_u32 prot)
                  (s32_to_u32 flags) VFlexible n False minus_one 0))))"

definition sceKernelMapFlexibleMemory ::
  "kern \<Rightarrow> VAddr \<Rightarrow> nat \<Rightarrow> s32 \<Rightarrow> s32 \<Rightarrow> (s32 \<times> VAddr \<times> kern) option" where
  "sceKernelMapFlexibleMemory k in_addr len prot flags =
     sceKernelMapNamedFlexibleMemory k in_addr len prot flags (Some ''anon'')"

definition sceKernelAvailableFlexibleMemorySize :: "kern \<Rightarrow> s32 \<times> nat" where
  "sceKernelAvailableFlexibleMemorySize k = (ORBIS_OK, GetAvailableFlexibleSize (k_mm k))"

definition sceKernelConfiguredFlexibleMemorySize :: "kern \<Rightarrow> bool \<Rightarrow> s32 + nat" where
  "sceKernelConfiguredFlexibleMemorySize k want_out =
     (if \<not> want_out then Inl ORBIS_KERNEL_ERROR_EINVAL else Inr (mm_total_flexible_size (k_mm k)))"

definition sceKernelMunmap :: "kern \<Rightarrow> VAddr \<Rightarrow> nat \<Rightarrow> (s32 \<times> kern) option" where
  "sceKernelMunmap k addr len =
     (if len = 0 then Some (ORBIS_KERNEL_ERROR_EINVAL, k)
      else on_mm k (UnmapMemory (k_mm k) addr len))"

subsection \<open>Protection, names and queries\<close>

definition sceKernelQueryMemoryProtection ::
  "kern \<Rightarrow> VAddr \<Rightarrow> (s32 + VAddr \<times> VAddr \<times> MemoryProt) option" where
  "sceKernelQueryMemoryProtection k addr = QueryProtection (k_mm k) addr"

definition mprotect_size :: "VAddr \<Rightarrow> nat \<Rightarrow> nat" where
  "mprotect_size in_addr sz =
     AlignUp (usub (uadd sz in_addr) (AlignDown in_addr (16 * KB))) (16 * KB)"

definition sceKernelMprotect :: "kern \<Rightarrow> VAddr \<Rightarrow> nat \<Rightarrow> s32 \<Rightarrow> (s32 \<times> kern) option" where
  "sceKernelMprotect k in_addr sz prot =
     (let aligned_addr = AlignDown in_addr (16 * KB);
          aligned_size = mprotect_size in_addr sz
      in if aligned_size = 0 then Some (ORBIS_OK, k)
         else do {
           (result, k1) \<leftarrow> on_mm k (Protect (k_mm k) aligned_addr aligned_size (s32_to_u32 prot));
           Some (result, if result = ORBIS_OK
                         then k1\<lparr>k_mm := InvalidateMemory aligned_addr aligned_size (k_mm k1)\<rparr> else k1)
         })"

definition posix_mprotect :: "kern \<Rightarrow> VAddr \<Rightarrow> nat \<Rightarrow> s32 \<Rightarrow> (s32 \<times> kern) option" where
  "posix_mprotect k addr sz prot =
     do { (result, k1) \<leftarrow> sceKernelMprotect k addr sz prot;
          if result < 0 then Some (-1, ErrSceToPosix result k1) else Some (result, k1) }"

definition sceKernelMtypeprotect :: "kern \<Rightarrow> VAddr \<Rightarrow> nat \<Rightarrow> s32 \<Rightarrow> s32 \<Rightarrow> (s32 \<times> kern) option" where
  "sceKernelMtypeprotect k in_addr sz mtype prot =
     (let aligned_addr = AlignDown in_addr (16 * KB);
          aligned_size = mprotect_size in_addr sz
      in if aligned_size = 0 then Some (ORBIS_OK, k)
         else do {
           (result, k1) \<leftarrow> on_mm k (Protect (k_mm k) aligned_addr aligned_size (s32_to_u32 prot));
           if result = ORBIS_OK
           then do {
             (_, k2) \<leftarrow> on_mm k1 (SetDirectMemoryType (k_mm k1) aligned_addr aligned_size mtype);
             Some (result, k2\<lparr>k_mm := InvalidateMemory aligned_addr aligned_size (k_mm k2)\<rparr>)
           }
           else Some (result, k1)
         })"

definition sceKernelIsStack :: "kern \<Rightarrow> VAddr \<Rightarrow> (s32 + VAddr \<times> VAddr) option" where
  "sceKernelIsStack k addr = IsStack (k_mm k) addr"

definition sceKernelIsAddressSanitizerEnabled :: "nat" where
  "sceKernelIsAddressSanitizerEnabled = 0"

definition sceKernelSetVirtualRangeName ::
  "kern \<Rightarrow> VAddr \<Rightarrow> nat \<Rightarrow> string option \<Rightarrow> (s32 \<times> kern) option" where
  "sceKernelSetVirtualRangeName k addr len name =
     (case name of
        None \<Rightarrow> Some (ORBIS_KERNEL_ERROR_EFAULT, k)
      | Some n \<Rightarrow>
          if length n \<ge> ORBIS_KERNEL_MAXIMUM_NAME_LENGTH
          then Some (ORBIS_KERNEL_ERROR_ENAMETOOLONG, k)
          else do { s \<leftarrow> NameVirtualRange (k_mm k) addr len n; Some (ORBIS_OK, k\<lparr>k_mm := s\<rparr>) })"

definition posix_munmap :: "kern \<Rightarrow> VAddr \<Rightarrow> nat \<Rightarrow> (s32 \<times> kern) option" where
  "posix_munmap k addr len =
     do { (result, k1) \<leftarrow> sceKernelMunmap k addr len;
          if result < 0 then Some (-1, ErrSceToPosix result k1) else Some (result, k1) }"

subsection \<open>Batches of mapping operations\<close>

record OrbisKernelBatchMapEntry =
  be_start :: VAddr
  be_offset :: nat
  be_length :: nat
  be_protection :: s32
  be_type :: s32
  be_operation :: s32

text \<open>One entry: its result and the entry as the call leaves it.\<close>

definition batch_map_entry ::
  "kern \<Rightarrow> OrbisKernelBatchMapEntry \<Rightarrow> s32 \<Rightarrow> (s32 \<times> OrbisKernelBatchMapEntry \<times> kern) option" where
  "batch_map_entry k e flags =
     (if be_length e = 0 \<or> be_operation e > 4 then Some (ORBIS_KERNEL_ERROR_EINVAL, e, k)
      else if be_operation e = 0
      then do { (r, a, k1) \<leftarrow> sceKernelMapNamedDirectMemory k (be_start e) (be_length e) (be_protection e)
                  flags (sint (of_nat (be_offset e) :: 64 word)) 0 ''anon'';
                Some (r, e\<lparr>be_start := a\<rparr>, k1) }
      else if be_operation e = 1
      then do { (r, k1) \<leftarrow> sceKernelMunmap k (be_start e) (be_length e); Some (r, e, k1) }
      else if be_operation e = 2
      then do { (r, k1) \<leftarrow> sceKernelMprotect k (be_start e) (be_length e) (be_protection e);
                Some (r, e, k1) }
      else if be_operation e = 3
      then do { (r, a, k1) \<leftarrow> sceKernelMapNamedFlexibleMemory k (be_start e) (be_length e)
                  (be_protection e) flags (Some ''anon'');
                Some (r, e\<lparr>be_start := a\<rparr>, k1) }
      else if be_operation e = 4
      then do { (r, k1) \<leftarrow> sceKernelMtypeprotect k (be_start e) (be_length e) (be_type e) (be_protection e);
                Some (r, e, k1) }
      else None)"

text \<open>The result, the number of processed entries, the entries afterwards and the state.\<close>

fun batch_map_loop ::
  "kern \<Rightarrow> OrbisKernelBatchMapEntry list \<Rightarrow> s32 \<Rightarrow> nat \<Rightarrow>
   (s32 \<times> nat \<times> OrbisKernelBatchMapEntry list \<times> kern) option" where
  "batch_map_loop k [] flags processed = Some (ORBIS_OK, processed, [], k)"
| "batch_map_loop k (e # es) flags processed =
     do {
       (result, e1, k1) \<leftarrow> batch_map_entry k e flags;
       if result \<noteq> ORBIS_OK then Some (result, processed, e1 # es, k1)
       else do {
         (r, p, es1, k2) \<leftarrow> batch_map_loop k1 es flags (processed + 1);
         Some (r, p, e1 # es1, k2)
       }
     }"

text \<open>\<open>entries\<close> is the array of \<open>numEntries\<close> entries, or \<open>None\<close> for a null pointer.\<close>

definition sceKernelBatchMap2 ::
  "kern \<Rightarrow> OrbisKernelBatchMapEntry list option \<Rightarrow> s32 \<Rightarrow> s32 \<Rightarrow>
   (s32 \<times> nat \<times> OrbisKernelBatchMapEntry list \<times> kern) option" where
  "sceKernelBatchMap2 k entries numEntries flags =
     (case entries of
        None \<Rightarrow> Some (if numEntries > 0 then ORBIS_KERNEL_ERROR_EINVAL else ORBIS_OK, 0, [], k)
      | Some es \<Rightarrow>
          if nat numEntries \<le> length es
          then do { (r, p, es1, k1) \<leftarrow> batch_map_loop k (take (nat numEntries) es) flags 0;
                    Some (r, p, es1 @ drop (nat numEntries) es, k1) }
          else None)"

definition sceKernelBatchMap ::
  "kern \<Rightarrow> OrbisKernelBatchMapEntry list option \<Rightarrow> s32 \<Rightarrow>
   (s32 \<times> nat \<times> OrbisKernelBatchMapEntry list \<times> kern) option" where
  "sceKernelBatchMap k entries numEntries = sceKernelBatchMap2 k entries numEntries 0x10"

subsection \<open>Memory pools\<close>

definition sceKernelMemoryPoolExpand ::
  "kern \<Rightarrow> nat \<Rightarrow> nat \<Rightarrow> nat \<Rightarrow> nat \<Rightarrow> bool \<Rightarrow> ((s32 + nat) \<times> kern) option" where
  "sceKernelMemoryPoolExpand k searchStart searchEnd len alignment want_out =
     (if searchEnd \<le> searchStart then Some (Inl ORBIS_KERNEL_ERROR_EINVAL, k)
      else if len \<le> 0 \<or> \<not> Is64KBAligned len then Some (Inl ORBIS_KERNEL_ERROR_EINVAL, k)
      else if alignment \<noteq> 0 \<and> \<not> Is64KBAligned alignment then Some (Inl ORBIS_KERNEL_ERROR_EINVAL, k)
      else if \<not> want_out then Some (Inl ORBIS_KERNEL_ERROR_EINVAL, k)
      else
        let is_in_range = (usub searchEnd searchStart \<ge> len)
        in if searchEnd \<le> searchStart \<or> searchEnd < len \<or> \<not> is_in_range
           then Some (Inl ORBIS_KERNEL_ERROR_ENOMEM, k)
           else do {
             (phys_addr, k1) \<leftarrow> on_mm k (PoolExpand (k_mm k) searchStart searchEnd len alignment);
             if phys_addr = minus_one then Some (Inl ORBIS_KERNEL_ERROR_ENOMEM, k1)
             else Some (Inr phys_addr, k1)
           })"

definition sceKernelMemoryPoolReserve ::
  "kern \<Rightarrow> VAddr \<Rightarrow> nat \<Rightarrow> nat \<Rightarrow> s32 \<Rightarrow> ((s32 + VAddr) \<times> kern) option" where
  "sceKernelMemoryPoolReserve k addr_in len alignment flags =
     (if len = 0 \<or> \<not> Is2MBAligned len then Some (Inl ORBIS_KERNEL_ERROR_EINVAL, k)
      else if alignment \<noteq> 0 \<and> \<not> has_single_bit alignment \<and> \<not> Is2MBAligned alignment
      then Some (Inl ORBIS_KERNEL_ERROR_EINVAL, k)
      else
        let map_alignment = (if alignment = 0 then 2 * MB else alignment)
        in on_mm k (MapMemory (k_mm k) addr_in len ProtNoAccess (s32_to_u32 flags) VPoolReserved
             ''anon'' False minus_one map_alignment))"

definition sceKernelMemoryPoolCommit ::
  "kern \<Rightarrow> VAddr \<Rightarrow> nat \<Rightarrow> s32 \<Rightarrow> s32 \<Rightarrow> (s32 \<times> kern) option" where
  "sceKernelMemoryPoolCommit k addr len ty prot =
     (if addr = 0 then Some (ORBIS_KERNEL_ERROR_EINVAL, k)
      else if len = 0 \<or> \<not> Is64KBAligned len then Some (ORBIS_KERNEL_ERROR_EINVAL, k)
      else if has_flag (s32_to_u32 prot) ProtCpuExec then Some (ORBIS_KERNEL_ERROR_EINVAL, k)
      else on_mm k (PoolCommit (k_mm k) addr len (s32_to_u32 prot) ty))"

definition sceKernelMemoryPoolDecommit :: "kern \<Rightarrow> VAddr \<Rightarrow> nat \<Rightarrow> (s32 \<times> kern) option" where
  "sceKernelMemoryPoolDecommit k addr len =
     (if addr = 0 then Some (ORBIS_KERNEL_ERROR_EINVAL, k)
      else if len = 0 \<or> \<not> Is64KBAligned len then Some (ORBIS_KERNEL_ERROR_EINVAL, k)
      else on_mm k (PoolDecommit (k_mm k) addr len))"

datatype OrbisKernelMemoryPoolBatchEntry =
  PoolOpCommit VAddr nat s32 s32
| PoolOpDecommit VAddr nat
| PoolOpProtect VAddr nat s32
| PoolOpTypeProtect VAddr nat s32 s32
| PoolOpMove VAddr VAddr nat
| PoolOpOther nat

definition pool_batch_entry :: "kern \<Rightarrow> OrbisKernelMemoryPoolBatchEntry \<Rightarrow> (s32 \<times> kern) option" where
  "pool_batch_entry k e =
     (case e of
        PoolOpCommit addr len prot ty \<Rightarrow> sceKernelMemoryPoolCommit k addr len ty prot
      | PoolOpDecommit addr len \<Rightarrow> sceKernelMemoryPoolDecommit k addr len
      | PoolOpProtect addr len prot \<Rightarrow> sceKernelMprotect k addr len prot
      | PoolOpTypeProtect addr len prot ty \<Rightarrow> sceKernelMtypeprotect k addr len ty prot
      | PoolOpMove _ _ _ \<Rightarrow> None
      | PoolOpOther _ \<Rightarrow> Some (ORBIS_KERNEL_ERROR_EINVAL, k))"

fun pool_batch_loop ::
  "kern \<Rightarrow> OrbisKernelMemoryPoolBatchEntry list \<Rightarrow> nat \<Rightarrow> (s32 \<times> nat \<times> kern) option" where
  "pool_batch_loop k [] processed = Some (ORBIS_OK, processed, k)"
| "pool_batch_loop k (e # es) processed =
     do { (result, k1) \<leftarrow> pool_batch_entry k e;
          if result \<noteq> ORBIS_OK then Some (result, processed, k1)
          else pool_batch_loop k1 es (processed + 1) }"

definition sceKernelMemoryPoolBatch ::
  "kern \<Rightarrow> OrbisKernelMemoryPoolBatchEntry list option \<Rightarrow> s32 \<Rightarrow> (s32 \<times> nat \<times> kern) option" where
  "sceKernelMemoryPoolBatch k entries count =
     (case entries of
        None \<Rightarrow> Some (ORBIS_KERNEL_ERROR_EINVAL, 0, k)
      | Some es \<Rightarrow>
          if nat count \<le> length es then pool_batch_loop k (take (nat count) es) 0 else None)"

text \<open>The bytes of the statistics structure that the caller's buffer receives.\<close>

definition le32 :: "s32 \<Rightarrow> 8 word list" where
  "le32 x = map (\<lambda>i. word_of_int (x div 256 ^ i)) [0 ..< 4]"

definition stats_bytes :: "OrbisKernelMemoryPoolBlockStats \<Rightarrow> 8 word list" where
  "stats_bytes st = le32 (available_flushed_blocks st) @ le32 (available_cached_blocks st) @
     le32 (allocated_flushed_blocks st) @ le32 (allocated_cached_blocks st)"

definition sceKernelMemoryPoolGetBlockStats :: "kern \<Rightarrow> bool \<Rightarrow> nat \<Rightarrow> (s32 \<times> 8 word list) option" where
  "sceKernelMemoryPoolGetBlockStats k has_stats sz =
     (let local_stats = snd (GetMemoryPoolStats (k_mm k));
          size_to_copy = (if sz < 16 then sz else 16)
      in if has_stats \<or> sz = 0 then Some (ORBIS_OK, take size_to_copy (stats_bytes local_stats)) else None)"

subsection \<open>POSIX mappings\<close>

text \<open>\<open>Inl\<close> stands for the result \<^verbatim>\<open>(void*)-1\<close>.\<close>

definition mmap_call ::
  "(s32 \<Rightarrow> HostFile option) \<Rightarrow> mm \<Rightarrow> VAddr \<Rightarrow> nat \<Rightarrow> MemoryProt \<Rightarrow> MemoryMapFlags \<Rightarrow> s32 \<Rightarrow> int \<Rightarrow>
   ((s32 + VAddr) \<times> mm) option" where
  "mmap_call files s addr sz prot flags fd phys_addr =
     (if has_flag flags MapAnon
      then MapMemory s addr sz prot flags VFlexible ''anon'' False minus_one 0
      else if has_flag flags MapStack
      then MapMemory s addr sz prot flags VStack ''anon'' False minus_one 0
      else if has_flag flags MapVoid
      then MapMemory s addr sz ProtNoAccess flags VReserved ''anon'' False minus_one 0
      else MapFile files s addr sz prot flags fd phys_addr)"

definition posix_mmap ::
  "(s32 \<Rightarrow> HostFile option) \<Rightarrow> kern \<Rightarrow> VAddr \<Rightarrow> nat \<Rightarrow> s32 \<Rightarrow> s32 \<Rightarrow> s32 \<Rightarrow> int \<Rightarrow>
   ((unit + VAddr) \<times> kern) option" where
  "posix_mmap files k vaddr len prot flags fd phys_addr =
     (if len = 0 then Some (Inl (), ErrSceToPosix ORBIS_KERNEL_ERROR_EINVAL k)
      else
        let mem_flags = s32_to_u32 flags;
            aligned_addr = AlignUp vaddr (16 * KB);
            aligned_size = AlignUp len (16 * KB)
        in if has_flag mem_flags MapFixed \<and> vaddr \<noteq> aligned_addr
           then Some (Inl (), ErrSceToPosix ORBIS_KERNEL_ERROR_EINVAL k)
           else do {
             (r, k1) \<leftarrow> on_mm k (mmap_call files (k_mm k) aligned_addr aligned_size (s32_to_u32 prot)
                          mem_flags fd phys_addr);
             (case r of
                Inl e \<Rightarrow> Some (Inl (), ErrSceToPosix e k1)
              | Inr a \<Rightarrow> Some (Inr a, k1))
           })"

definition sceKernelMmap ::
  "(s32 \<Rightarrow> HostFile option) \<Rightarrow> kern \<Rightarrow> VAddr \<Rightarrow> nat \<Rightarrow> s32 \<Rightarrow> s32 \<Rightarrow> s32 \<Rightarrow> int \<Rightarrow>
   ((s32 + VAddr) \<times> kern) option" where
  "sceKernelMmap files k addr len prot flags fd phys_addr =
     do {
       (r, k1) \<leftarrow> posix_mmap files k addr len prot flags fd phys_addr;
       (case r of
          Inl _ \<Rightarrow> Some (Inl (ErrnoToSceKernelError (k_errno k1)), k1)
        | Inr a \<Rightarrow> if a = minus_one then Some (Inl (ErrnoToSceKernelError (k_errno k1)), k1)
                   else Some (Inr a, k1))
     }"

subsection \<open>Partially resident texture apertures\<close>

definition MAX_PRT_APERTURES :: int where "MAX_PRT_APERTURES = 3"
definition PRT_AREA_START_ADDR :: VAddr where "PRT_AREA_START_ADDR = 0x1000000000"
definition PRT_AREA_SIZE :: nat where "PRT_AREA_SIZE = 0xec00000000"

definition sceKernelSetPrtAperture :: "kern \<Rightarrow> s32 \<Rightarrow> VAddr \<Rightarrow> nat \<Rightarrow> (s32 \<times> kern) option" where
  "sceKernelSetPrtAperture k i address sz =
     (if i < 0 \<or> i \<ge> MAX_PRT_APERTURES then Some (ORBIS_KERNEL_ERROR_EINVAL, k)
      else if address < PRT_AREA_START_ADDR \<or> uadd address sz > PRT_AREA_START_ADDR + PRT_AREA_SIZE
      then Some (ORBIS_KERNEL_ERROR_EINVAL, k)
      else if address mod 4096 \<noteq> 0 then Some (ORBIS_KERNEL_ERROR_EINVAL, k)
      else do {
        s \<leftarrow> SetPrtArea (k_mm k) (nat i) address sz;
        Some (ORBIS_OK, k\<lparr>k_mm := s, k_prt_apertures := (k_prt_apertures k)[nat i := (address, sz)]\<rparr>)
      })"

definition sceKernelGetPrtAperture :: "kern \<Rightarrow> s32 \<Rightarrow> s32 + VAddr \<times> nat" where
  "sceKernelGetPrtAperture k i =
     (if i < 0 \<or> i \<ge> MAX_PRT_APERTURES then Inl ORBIS_KERNEL_ERROR_EINVAL
      else Inr (k_prt_apertures k ! nat i))"

end
