(* ===== verification/Orbit_Cpu.thy ===== *)
theory Orbit_Cpu
  imports Orbit_Prelude
begin

text \<open>
  The fallback x86-64 interpreter (\<^verbatim>\<open>src/core/cpu/custom_bridge/custom_cpu_translator.cpp\<close>,
  class \<^verbatim>\<open>CustomCPUTranslator\<close>): instruction decoding, execution, flags and the interpreter loop.
  Registers and addresses are 64-bit words.  The guest shares the address space of the host, so
  memory is one function from addresses to bytes; the only address that the code rejects is 0.
  Logging and status strings are left out, except for the record of the last unsupported opcode.
\<close>

subsection \<open>State\<close>

text \<open>
  \<^verbatim>\<open>GuestRegisterContext\<close> with the memory and the fields of the translator that a step writes.
  The register files are functions of the register number; decoding yields numbers below 16 only.
\<close>

record cpu =
  gpr :: "nat \<Rightarrow> 64 word"
  rip :: "64 word"
  rflags :: "64 word"
  instruction_counter :: nat
  halted :: bool
  suspended :: bool
  xmm :: "nat \<Rightarrow> 8 word list"
  mem :: "64 word \<Rightarrow> 8 word"
  unsupported_rip :: "64 word"
  unsupported_opcode :: "8 word"

definition Rax :: nat where "Rax = 0"
definition Rsp :: nat where "Rsp = 4"
definition Rbp :: nat where "Rbp = 5"
definition Rsi :: nat where "Rsi = 6"
definition Rdi :: nat where "Rdi = 7"

datatype StepResult = Continue | Halt | Unsupported | Fault

definition MaxInterpreterSteps :: nat where "MaxInterpreterSteps = 500000"

definition FlagCf :: "64 word" where "FlagCf = push_bit 0 1"
definition FlagPf :: "64 word" where "FlagPf = push_bit 2 1"
definition FlagZf :: "64 word" where "FlagZf = push_bit 6 1"
definition FlagSf :: "64 word" where "FlagSf = push_bit 7 1"
definition FlagOf :: "64 word" where "FlagOf = push_bit 11 1"

lemmas flag_defs = FlagCf_def FlagPf_def FlagZf_def FlagSf_def FlagOf_def

definition WidthMask :: "nat \<Rightarrow> 64 word" where
  "WidthMask width = (if width \<ge> 64 then NOT 0 else push_bit width 1 - 1)"

definition SignBit :: "nat \<Rightarrow> 64 word" where
  "SignBit width = push_bit (width - 1) 1"

subsection \<open>Memory\<close>

text \<open>Little-endian values of \<open>n\<close> bytes.\<close>

fun read_le :: "(64 word \<Rightarrow> 8 word) \<Rightarrow> 64 word \<Rightarrow> nat \<Rightarrow> 64 word" where
  "read_le m a 0 = 0"
| "read_le m a (Suc n) = ucast (m a) OR push_bit 8 (read_le m (a + 1) n)"

fun write_le :: "(64 word \<Rightarrow> 8 word) \<Rightarrow> 64 word \<Rightarrow> nat \<Rightarrow> 64 word \<Rightarrow> 64 word \<Rightarrow> 8 word" where
  "write_le m a 0 v = m"
| "write_le m a (Suc n) v = write_le (m(a := ucast v)) (a + 1) n (drop_bit 8 v)"

definition ReadMemory :: "cpu \<Rightarrow> 64 word \<Rightarrow> nat \<Rightarrow> 64 word option" where
  "ReadMemory c address sz = (if address = 0 \<or> sz = 0 then None else Some (read_le (mem c) address sz))"

definition WriteMemory :: "cpu \<Rightarrow> 64 word \<Rightarrow> nat \<Rightarrow> 64 word \<Rightarrow> cpu option" where
  "WriteMemory c address sz v =
     (if address = 0 \<or> sz = 0 then None else Some (c\<lparr>mem := write_le (mem c) address sz v\<rparr>))"

definition Read8 :: "cpu \<Rightarrow> 64 word \<Rightarrow> 8 word option" where
  "Read8 c address = map_option ucast (ReadMemory c address 1)"

definition Read32 :: "cpu \<Rightarrow> 64 word \<Rightarrow> 32 word option" where
  "Read32 c address = map_option ucast (ReadMemory c address 4)"

definition Read64 :: "cpu \<Rightarrow> 64 word \<Rightarrow> 64 word option" where
  "Read64 c address = ReadMemory c address 8"

subsection \<open>Registers and stack\<close>

definition ReadGpr :: "cpu \<Rightarrow> nat \<Rightarrow> nat \<Rightarrow> 64 word" where
  "ReadGpr c reg width = (if reg \<ge> 16 then 0 else gpr c reg AND WidthMask width)"

definition WriteGpr :: "cpu \<Rightarrow> nat \<Rightarrow> nat \<Rightarrow> 64 word \<Rightarrow> cpu" where
  "WriteGpr c reg width v =
     (if reg \<ge> 16 then c
      else if width = 32 then c\<lparr>gpr := (gpr c)(reg := ucast (ucast v :: 32 word))\<rparr>
      else c\<lparr>gpr := (gpr c)(reg := v AND WidthMask width)\<rparr>)"

text \<open>The flag tells whether the access succeeded; a failed push has moved the stack pointer.\<close>

definition Push64 :: "cpu \<Rightarrow> 64 word \<Rightarrow> bool \<times> cpu" where
  "Push64 c v =
     (let c1 = c\<lparr>gpr := (gpr c)(Rsp := gpr c Rsp - 8)\<rparr>
      in case WriteMemory c1 (gpr c1 Rsp) 8 v of None \<Rightarrow> (False, c1) | Some c2 \<Rightarrow> (True, c2))"

text \<open>\<^verbatim>\<open>Pop64(context, value)\<close> for a local \<^verbatim>\<open>value\<close>.\<close>

definition Pop64 :: "cpu \<Rightarrow> (64 word \<times> cpu) option" where
  "Pop64 c = do { v \<leftarrow> ReadMemory c (gpr c Rsp) 8;
                  Some (v, c\<lparr>gpr := (gpr c)(Rsp := gpr c Rsp + 8)\<rparr>) }"

text \<open>
  \<^verbatim>\<open>Pop64(context, context.gpr[reg])\<close>: the result parameter is a reference to the register, so it
  is written before the stack pointer is incremented.
\<close>

definition Pop64_reg :: "cpu \<Rightarrow> nat \<Rightarrow> cpu option" where
  "Pop64_reg c reg = do { v \<leftarrow> ReadMemory c (gpr c Rsp) 8;
                          let g = (gpr c)(reg := v);
                          Some (c\<lparr>gpr := g(Rsp := g Rsp + 8)\<rparr>) }"

subsection \<open>Flags and conditions\<close>

definition set_flag :: "64 word \<Rightarrow> bool \<Rightarrow> 64 word \<Rightarrow> 64 word" where
  "set_flag flag b f = (if b then f OR flag else f)"

definition popcount :: "64 word \<Rightarrow> nat" where
  "popcount w = length (filter (\<lambda>i. bit w i) [0 ..< 64])"

definition UpdateArithmeticFlags :: "cpu \<Rightarrow> 64 word \<Rightarrow> 64 word \<Rightarrow> 64 word \<Rightarrow> nat \<Rightarrow> bool \<Rightarrow> cpu" where
  "UpdateArithmeticFlags c lhs0 rhs0 result0 width subtract =
     (let m = WidthMask width;
          lhs = lhs0 AND m; rhs = rhs0 AND m; result = result0 AND m;
          f0 = rflags c AND NOT (FlagCf OR FlagPf OR FlagZf OR FlagSf OR FlagOf);
          f1 = set_flag FlagZf (result = 0) f0;
          f2 = set_flag FlagPf (popcount (result AND 0xff) mod 2 = 0) f1;
          f3 = set_flag FlagSf (result AND SignBit width \<noteq> 0) f2;
          f4 = (if subtract
                then set_flag FlagOf ((lhs XOR rhs) AND (lhs XOR result) AND SignBit width \<noteq> 0)
                       (set_flag FlagCf (lhs < rhs) f3)
                else set_flag FlagOf (NOT (lhs XOR rhs) AND (lhs XOR result) AND SignBit width \<noteq> 0)
                       (set_flag FlagCf (result < lhs) f3))
      in c\<lparr>rflags := f4\<rparr>)"

definition UpdateLogicFlags :: "cpu \<Rightarrow> 64 word \<Rightarrow> nat \<Rightarrow> cpu" where
  "UpdateLogicFlags c result0 width =
     (let result = result0 AND WidthMask width;
          f0 = rflags c AND NOT (FlagCf OR FlagPf OR FlagZf OR FlagSf OR FlagOf);
          f1 = set_flag FlagZf (result = 0) f0;
          f2 = set_flag FlagPf (popcount (result AND 0xff) mod 2 = 0) f1
      in c\<lparr>rflags := set_flag FlagSf (result AND SignBit width \<noteq> 0) f2\<rparr>)"

definition CheckCondition :: "cpu \<Rightarrow> 8 word \<Rightarrow> bool" where
  "CheckCondition c condition =
     (let cf = (rflags c AND FlagCf \<noteq> 0);
          zf = (rflags c AND FlagZf \<noteq> 0);
          sf = (rflags c AND FlagSf \<noteq> 0);
          ovf = (rflags c AND FlagOf \<noteq> 0)
      in if condition = 0 then ovf
         else if condition = 1 then \<not> ovf
         else if condition = 2 then cf
         else if condition = 3 then \<not> cf
         else if condition = 4 then zf
         else if condition = 5 then \<not> zf
         else if condition = 6 then cf \<or> zf
         else if condition = 7 then \<not> cf \<and> \<not> zf
         else if condition = 8 then sf
         else if condition = 9 then \<not> sf
         else if condition = 0xc then sf \<noteq> ovf
         else if condition = 0xd then sf = ovf
         else if condition = 0xe then zf \<or> sf \<noteq> ovf
         else if condition = 0xf then \<not> zf \<and> sf = ovf
         else False)"

subsection \<open>Operand decoding\<close>

record RexPrefix =
  rex_w :: bool
  rex_r :: bool
  rex_x :: bool
  rex_b :: bool

definition no_rex :: RexPrefix where
  "no_rex = \<lparr>rex_w = False, rex_r = False, rex_x = False, rex_b = False\<rparr>"

definition DecodeRexPrefix :: "8 word \<Rightarrow> RexPrefix" where
  "DecodeRexPrefix rex = \<lparr>rex_w = (rex AND 0x08 \<noteq> 0), rex_r = (rex AND 0x04 \<noteq> 0),
     rex_x = (rex AND 0x02 \<noteq> 0), rex_b = (rex AND 0x01 \<noteq> 0)\<rparr>"

record ModRm =
  mr_mod :: nat
  mr_reg :: nat
  mr_rm :: nat
  mr_length :: nat
  mr_has_memory :: bool
  mr_address :: "64 word"

text \<open>Fields of a byte: bits \<open>i\<close> and above, \<open>n\<close> of them.\<close>

definition bits_of :: "8 word \<Rightarrow> nat \<Rightarrow> nat \<Rightarrow> nat" where
  "bits_of b i n = unat (take_bit n (drop_bit i b))"

definition ext :: "bool \<Rightarrow> nat" where
  "ext b = (if b then 8 else 0)"

text \<open>
  The base, the scaled index and the displacement of the addressing forms, with the cursor
  behind the bytes read so far.
\<close>

definition decode_base ::
  "cpu \<Rightarrow> 64 word \<Rightarrow> RexPrefix \<Rightarrow> 8 word \<Rightarrow> (64 word \<times> 64 word \<times> 64 word \<times> 64 word) option" where
  "decode_base c cursor rex raw =
     (let md = bits_of raw 6 2; low_rm = bits_of raw 0 3 in
      if low_rm = 4
      then do {
        sib \<leftarrow> Read8 c cursor;
        let cursor1 = cursor + 1;
        let scale = (2 :: 64 word) ^ bits_of sib 6 2;
        let index_reg = bits_of sib 3 3 + ext (rex_x rex);
        let base_reg = bits_of sib 0 3 + ext (rex_b rex);
        let index = (if index_reg \<noteq> 4 then gpr c index_reg * scale else 0);
        if bits_of sib 0 3 = 5 \<and> md = 0
        then do { d \<leftarrow> Read32 c cursor1; Some (0, index, scast d, cursor1 + 4) }
        else Some (gpr c base_reg, index, 0, cursor1)
      }
      else if low_rm = 5 \<and> md = 0
      then do { d \<leftarrow> Read32 c cursor; Some (cursor + 4, 0, scast d, cursor + 4) }
      else Some (gpr c (low_rm + ext (rex_b rex)), 0, 0, cursor))"

definition DecodeModRm :: "cpu \<Rightarrow> 64 word \<Rightarrow> RexPrefix \<Rightarrow> ModRm option" where
  "DecodeModRm c rip_after_modrm rex =
     do {
       raw \<leftarrow> Read8 c (rip_after_modrm - 1);
       let md = bits_of raw 6 2;
       let reg = bits_of raw 3 3 + ext (rex_r rex);
       let rm = bits_of raw 0 3 + ext (rex_b rex);
       if md = 3
       then Some \<lparr>mr_mod = md, mr_reg = reg, mr_rm = rm, mr_length = 1, mr_has_memory = False,
                  mr_address = 0\<rparr>
       else do {
         (base, index, disp0, cursor) \<leftarrow> decode_base c rip_after_modrm rex raw;
         (disp, cursor1) \<leftarrow>
           (if md = 1 then do { d \<leftarrow> Read8 c cursor; Some (scast d, cursor + 1) }
            else if md = 2 then do { d \<leftarrow> Read32 c cursor; Some (scast d, cursor + 4) }
            else Some (disp0, cursor));
         Some \<lparr>mr_mod = md, mr_reg = reg, mr_rm = rm,
               mr_length = unat (cursor1 - (rip_after_modrm - 1)), mr_has_memory = True,
               mr_address = base + index + disp\<rparr>
       }
     }"

text \<open>\<^verbatim>\<open>LogUnsupported\<close>: what it stores.\<close>

definition LogUnsupported :: "cpu \<Rightarrow> 64 word \<Rightarrow> 8 word \<Rightarrow> cpu" where
  "LogUnsupported c at opcode = c\<lparr>unsupported_rip := at, unsupported_opcode := opcode\<rparr>"

text \<open>The operand that ModRM designates: its value, and writing it.\<close>

definition read_rm :: "cpu \<Rightarrow> ModRm \<Rightarrow> nat \<Rightarrow> 64 word option" where
  "read_rm c m width =
     (if mr_has_memory m then ReadMemory c (mr_address m) (width div 8)
      else Some (ReadGpr c (mr_rm m) width))"

definition write_rm :: "cpu \<Rightarrow> ModRm \<Rightarrow> nat \<Rightarrow> 64 word \<Rightarrow> cpu option" where
  "write_rm c m width v =
     (if mr_has_memory m then WriteMemory c (mr_address m) (width div 8) (v AND WidthMask width)
      else Some (WriteGpr c (mr_rm m) width (v AND WidthMask width)))"

definition advance :: "cpu \<Rightarrow> nat \<Rightarrow> cpu" where
  "advance c n = c\<lparr>rip := rip c + of_nat n\<rparr>"

subsection \<open>One-byte opcodes\<close>

text \<open>\<^verbatim>\<open>if (!ok) return StepResult::Fault\<close>, keeping the state reached so far.\<close>

definition or_fault :: "cpu \<Rightarrow> 'a option \<Rightarrow> ('a \<Rightarrow> StepResult \<times> cpu) \<Rightarrow> StepResult \<times> cpu" where
  "or_fault c r k = (case r of None \<Rightarrow> (Fault, c) | Some v \<Rightarrow> k v)"

text \<open>
  The arithmetic on a decoded ModRM operand.  The one-byte opcodes run it at width 32 behind a
  one-byte opcode, the REX-prefixed ones at width 32 or 64 behind two bytes; \<open>skip\<close> is that
  distance.
\<close>

definition exec_add_sub :: "cpu \<Rightarrow> ModRm \<Rightarrow> nat \<Rightarrow> nat \<Rightarrow> 8 word \<Rightarrow> StepResult \<times> cpu" where
  "exec_add_sub c m width skip opc =
     or_fault c (read_rm c m width) (\<lambda>rm.
       let reg = ReadGpr c (mr_reg m) width;
           fin = (\<lambda>c'. (Continue, advance c' (skip + mr_length m)))
       in if opc = 0x01
          then let result = (rm + reg) AND WidthMask width
               in or_fault c (write_rm c m width result)
                    (\<lambda>c1. fin (UpdateArithmeticFlags c1 rm reg result width False))
          else if opc = 0x03
          then let result = (reg + rm) AND WidthMask width
               in fin (UpdateArithmeticFlags (WriteGpr c (mr_reg m) width result) reg rm result width False)
          else if opc = 0x29
          then let result = (rm - reg) AND WidthMask width
               in or_fault c (write_rm c m width result)
                    (\<lambda>c1. fin (UpdateArithmeticFlags c1 rm reg result width True))
          else if opc = 0x2b
          then let result = (reg - rm) AND WidthMask width
               in fin (UpdateArithmeticFlags (WriteGpr c (mr_reg m) width result) reg rm result width True)
          else let result = (rm XOR reg) AND WidthMask width
               in or_fault c (write_rm c m width result)
                    (\<lambda>c1. fin (UpdateLogicFlags c1 result width)))"

definition exec_cmp :: "cpu \<Rightarrow> ModRm \<Rightarrow> nat \<Rightarrow> nat \<Rightarrow> bool \<Rightarrow> StepResult \<times> cpu" where
  "exec_cmp c m width skip reverse =
     or_fault c (read_rm c m width) (\<lambda>rm.
       let reg = ReadGpr c (mr_reg m) width;
           lhs = (if reverse then reg else rm);
           rhs = (if reverse then rm else reg)
       in (Continue,
           advance (UpdateArithmeticFlags c lhs rhs ((lhs - rhs) AND WidthMask width) width True)
             (skip + mr_length m)))"

definition exec_test :: "cpu \<Rightarrow> ModRm \<Rightarrow> nat \<Rightarrow> nat \<Rightarrow> StepResult \<times> cpu" where
  "exec_test c m width skip =
     or_fault c (read_rm c m width) (\<lambda>rm.
       (Continue, advance (UpdateLogicFlags c (rm AND ReadGpr c (mr_reg m) width) width)
                    (skip + mr_length m)))"

definition exec_lea :: "cpu \<Rightarrow> ModRm \<Rightarrow> nat \<Rightarrow> nat \<Rightarrow> StepResult \<times> cpu" where
  "exec_lea c m width skip =
     (if \<not> mr_has_memory m then (Fault, c)
      else (Continue, advance (WriteGpr c (mr_reg m) width (mr_address m)) (skip + mr_length m)))"

text \<open>\<^verbatim>\<open>0x89\<close> and \<^verbatim>\<open>0x8b\<close> without a prefix; the store does not read its destination.\<close>

definition exec_mov32 :: "cpu \<Rightarrow> ModRm \<Rightarrow> 8 word \<Rightarrow> StepResult \<times> cpu" where
  "exec_mov32 c m opc =
     (if opc = 0x89
      then or_fault c (write_rm c m 32 (ReadGpr c (mr_reg m) 32))
             (\<lambda>c1. (Continue, advance c1 (1 + mr_length m)))
      else or_fault c (read_rm c m 32)
             (\<lambda>v. (Continue, advance (WriteGpr c (mr_reg m) 32 v) (1 + mr_length m))))"

definition exec_push :: "cpu \<Rightarrow> 64 word \<Rightarrow> nat \<Rightarrow> StepResult \<times> cpu" where
  "exec_push c v len =
     (let (ok, c1) = Push64 c v in if ok then (Continue, advance c1 len) else (Fault, c1))"

definition exec_pop :: "cpu \<Rightarrow> nat \<Rightarrow> nat \<Rightarrow> StepResult \<times> cpu" where
  "exec_pop c reg len = or_fault c (Pop64_reg c reg) (\<lambda>c1. (Continue, advance c1 len))"

definition exec_mov_imm32 :: "cpu \<Rightarrow> ModRm \<Rightarrow> StepResult \<times> cpu" where
  "exec_mov_imm32 c m =
     (if mr_reg m \<noteq> 0 then (Fault, c)
      else or_fault c (Read32 c (rip c + 1 + of_nat (mr_length m))) (\<lambda>imm.
        or_fault c (write_rm c m 32 (ucast imm))
          (\<lambda>c1. (Continue, advance c1 (5 + mr_length m)))))"

definition exec_ret :: "cpu \<Rightarrow> 64 word \<Rightarrow> StepResult \<times> cpu" where
  "exec_ret c stack_pop =
     or_fault c (Pop64 c) (\<lambda>(target, c1).
       (if target = 0 then Halt else Continue,
        c1\<lparr>gpr := (gpr c1)(Rsp := gpr c1 Rsp + stack_pop), rip := target\<rparr>))"

definition exec_leave :: "cpu \<Rightarrow> StepResult \<times> cpu" where
  "exec_leave c =
     (let c1 = c\<lparr>gpr := (gpr c)(Rsp := gpr c Rbp)\<rparr>
      in or_fault c1 (Pop64 c1) (\<lambda>(v, c2).
           (Continue, advance (c2\<lparr>gpr := (gpr c2)(Rbp := v)\<rparr>) 1)))"

definition exec_call :: "cpu \<Rightarrow> StepResult \<times> cpu" where
  "exec_call c =
     or_fault c (Read32 c (rip c + 1)) (\<lambda>rel.
       let (ok, c1) = Push64 c (rip c + 5)
       in if ok then (Continue, c1\<lparr>rip := rip c + 5 + scast rel\<rparr>) else (Fault, c1))"

subsection \<open>Immediate group 1 and conditional jumps\<close>

definition group1_result :: "nat \<Rightarrow> 64 word \<Rightarrow> 64 word \<Rightarrow> nat \<Rightarrow> 64 word" where
  "group1_result grp lhs rhs width =
     (if grp = 0 then lhs + rhs
      else if grp = 1 then lhs OR rhs
      else if grp = 4 then lhs AND rhs
      else if grp = 6 then lhs XOR rhs
      else lhs - rhs) AND WidthMask width"

definition group1_flags :: "cpu \<Rightarrow> nat \<Rightarrow> 64 word \<Rightarrow> 64 word \<Rightarrow> nat \<Rightarrow> cpu" where
  "group1_flags c grp lhs rhs width =
     (if grp = 0 \<or> grp = 5 \<or> grp = 7
      then UpdateArithmeticFlags c lhs rhs (group1_result grp lhs rhs width) width (grp \<noteq> 0)
      else UpdateLogicFlags c (group1_result grp lhs rhs width) width)"

definition DecodeGroup1 :: "cpu \<Rightarrow> 8 word \<Rightarrow> 8 word \<Rightarrow> StepResult \<times> cpu" where
  "DecodeGroup1 c rex_byte opc =
     (let has_rex = (0x40 \<le> rex_byte \<and> rex_byte \<le> 0x4f);
          rex = (if has_rex then DecodeRexPrefix rex_byte else no_rex);
          opcode_rip = rip c + (if has_rex then 1 else 0);
          width = (if rex_w rex then 64 else 32 :: nat)
      in or_fault c (DecodeModRm c (opcode_rip + 2) rex) (\<lambda>m.
         let imm_offset = opcode_rip + 1 + of_nat (mr_length m);
             imm_size = (if opc = 0x81 then 4 else 1);
             imm = (if opc = 0x81 then map_option scast (Read32 c imm_offset)
                    else map_option scast (Read8 c imm_offset) :: 64 word option)
         in or_fault c imm (\<lambda>imm.
            or_fault c (read_rm c m width) (\<lambda>lhs.
            let grp = mr_reg m mod 8;
                rhs = imm AND WidthMask width;
                result = group1_result grp lhs rhs width;
                next = opcode_rip + 1 + of_nat (mr_length m) + imm_size
            in if grp = 2 \<or> grp = 3
               then (Unsupported, LogUnsupported c (rip c)
                       (case Read8 c opcode_rip of None \<Rightarrow> 0 | Some b \<Rightarrow> b))
               else let c1 = group1_flags c grp lhs rhs width
                    in if grp = 7 then (Continue, c1\<lparr>rip := next\<rparr>)
                       else or_fault c1 (write_rm c1 m width result)
                              (\<lambda>c2. (Continue, c2\<lparr>rip := next\<rparr>))))))"

definition DecodeJccShort :: "cpu \<Rightarrow> 8 word \<Rightarrow> StepResult \<times> cpu" where
  "DecodeJccShort c opc =
     or_fault c (Read8 c (rip c + 1)) (\<lambda>rel.
       let next = rip c + 2
       in (Continue, c\<lparr>rip := (if CheckCondition c (opc AND 0xf) then next + scast rel else next)\<rparr>))"

definition DecodeJccNear :: "cpu \<Rightarrow> 64 word \<Rightarrow> StepResult \<times> cpu" where
  "DecodeJccNear c opcode_rip =
     or_fault c (Read8 c (opcode_rip + 1)) (\<lambda>op2.
       if op2 < 0x80 \<or> 0x8f < op2 then (Unsupported, LogUnsupported c (rip c) 0x0f)
       else or_fault c (Read32 c (opcode_rip + 2)) (\<lambda>rel.
         let next = opcode_rip + 6
         in (Continue,
             c\<lparr>rip := (if CheckCondition c (op2 AND 0xf) then next + scast rel else next)\<rparr>)))"

subsection \<open>Two-byte opcodes and XMM moves\<close>

definition read_bytes :: "(64 word \<Rightarrow> 8 word) \<Rightarrow> 64 word \<Rightarrow> nat \<Rightarrow> 8 word list" where
  "read_bytes m a n = map (\<lambda>i. m (a + of_nat i)) [0 ..< n]"

fun write_bytes :: "(64 word \<Rightarrow> 8 word) \<Rightarrow> 64 word \<Rightarrow> 8 word list \<Rightarrow> 64 word \<Rightarrow> 8 word" where
  "write_bytes m a [] = m"
| "write_bytes m a (b # bs) = write_bytes (m(a := b)) (a + 1) bs"

definition ReadXmmOperand :: "cpu \<Rightarrow> nat \<Rightarrow> 64 word \<Rightarrow> bool \<Rightarrow> nat \<Rightarrow> 8 word list option" where
  "ReadXmmOperand c reg address from_memory sz =
     (if sz = 0 \<or> 16 < sz then None
      else if from_memory
      then (if address = 0 then None else Some (read_bytes (mem c) address sz))
      else if reg \<ge> 16 then None
      else Some (take sz (xmm c reg)))"

definition WriteXmmOperand :: "cpu \<Rightarrow> nat \<Rightarrow> 64 word \<Rightarrow> bool \<Rightarrow> 8 word list \<Rightarrow> nat \<Rightarrow> cpu option" where
  "WriteXmmOperand c reg address to_memory bs sz =
     (if sz = 0 \<or> 16 < sz then None
      else if to_memory
      then (if address = 0 then None else Some (c\<lparr>mem := write_bytes (mem c) address (take sz bs)\<rparr>))
      else if reg \<ge> 16 then None
      else Some (c\<lparr>xmm := (xmm c)(reg := take sz bs @ drop sz (xmm c reg))\<rparr>))"

definition is_xmm_move :: "8 word \<Rightarrow> 8 word \<Rightarrow> bool" where
  "is_xmm_move op2 prefix \<longleftrightarrow>
     op2 = 0x10 \<or> op2 = 0x11 \<or> op2 = 0x28 \<or> op2 = 0x29 \<or> op2 = 0x57
     \<or> ((op2 = 0x6f \<or> op2 = 0x7f \<or> op2 = 0xef) \<and> prefix = 0x66)"

text \<open>
  The moves and exclusive-ors.  An opcode that needs the prefix \<^verbatim>\<open>0x66\<close> and does not have it has
  its ModRM byte decoded, and is then unsupported.
\<close>

definition exec_xmm :: "cpu \<Rightarrow> ModRm \<Rightarrow> 64 word \<Rightarrow> 8 word \<Rightarrow> 8 word \<Rightarrow> StepResult \<times> cpu" where
  "exec_xmm c m opcode_rip prefix op2 =
     (let vector_size = (if prefix = 0xf3 then 4 else if prefix = 0xf2 then 8 else 16 :: nat);
          fin = (\<lambda>c'. (Continue, c'\<lparr>rip := opcode_rip + 2 + of_nat (mr_length m)\<rparr>));
          d = mr_reg m
      in if op2 = 0x57 \<or> op2 = 0xef
         then or_fault c (ReadXmmOperand c (mr_rm m) (mr_address m) (mr_has_memory m) 16) (\<lambda>tmp.
                fin (c\<lparr>xmm := (xmm c)(d := map2 (XOR) (xmm c d) tmp)\<rparr>))
         else if op2 = 0x10 \<or> op2 = 0x28 \<or> op2 = 0x6f
         then let sz = (if op2 = 0x28 \<or> op2 = 0x6f then 16 else vector_size)
              in or_fault c (ReadXmmOperand c (mr_rm m) (mr_address m) (mr_has_memory m) sz) (\<lambda>tmp.
                   fin (c\<lparr>xmm := (xmm c)(d := tmp @ drop sz (xmm c d))\<rparr>))
         else let sz = (if op2 = 0x29 \<or> op2 = 0x7f then 16 else vector_size)
              in or_fault c
                   (WriteXmmOperand c (mr_rm m) (mr_address m) (mr_has_memory m) (xmm c d) sz) fin)"

definition DecodeTwoByte :: "cpu \<Rightarrow> 64 word \<Rightarrow> 8 word \<Rightarrow> 8 word \<Rightarrow> StepResult \<times> cpu" where
  "DecodeTwoByte c opcode_rip prefix rex_byte =
     (let rex = (if rex_byte \<noteq> 0 then DecodeRexPrefix rex_byte else no_rex);
          unsupported = (Unsupported, LogUnsupported c (rip c)
                           (case Read8 c (rip c) of None \<Rightarrow> 0 | Some b \<Rightarrow> b))
      in or_fault c (Read8 c (opcode_rip + 1)) (\<lambda>op2.
         if 0x80 \<le> op2 \<and> op2 \<le> 0x8f then DecodeJccNear c opcode_rip
         else if op2 = 0x05 \<or> op2 = 0x0b then (Unsupported, c\<lparr>suspended := True\<rparr>)
         else if op2 = 0x1f
         then or_fault c (DecodeModRm c (opcode_rip + 3) rex) (\<lambda>m.
                (Continue, c\<lparr>rip := opcode_rip + 2 + of_nat (mr_length m)\<rparr>))
         else if op2 = 0x10 \<or> op2 = 0x11 \<or> op2 = 0x28 \<or> op2 = 0x29 \<or> op2 = 0x6f \<or> op2 = 0x7f
              \<or> op2 = 0x57 \<or> op2 = 0xef
         then or_fault c (DecodeModRm c (opcode_rip + 3) rex) (\<lambda>m.
                if is_xmm_move op2 prefix then exec_xmm c m opcode_rip prefix op2 else unsupported)
         else unsupported))"

definition DecodePrefixed :: "cpu \<Rightarrow> 8 word \<Rightarrow> StepResult \<times> cpu" where
  "DecodePrefixed c prefix =
     or_fault c (Read8 c (rip c + 1)) (\<lambda>op0.
       let has_rex = (0x40 \<le> op0 \<and> op0 \<le> 0x4f);
           rex_byte = (if has_rex then op0 else 0);
           cursor = rip c + (if has_rex then 2 else 1)
       in or_fault c (if has_rex then Read8 c cursor else Some op0) (\<lambda>opc.
            if opc = 0x0f then DecodeTwoByte c cursor prefix rex_byte
            else if prefix = 0xf3 \<and> opc = 0x90 then (Continue, c\<lparr>rip := cursor + 1\<rparr>)
            else (Unsupported, LogUnsupported c (rip c) prefix)))"

subsection \<open>Dispatch\<close>

text \<open>\<^verbatim>\<open>[b, b + 7]\<close>: the eight opcodes that carry a register number.\<close>

definition in_octet :: "8 word \<Rightarrow> 8 word \<Rightarrow> bool" where
  "in_octet opc b \<longleftrightarrow> b \<le> opc \<and> opc \<le> b + 7"

definition DecodeOneByte :: "cpu \<Rightarrow> 8 word \<Rightarrow> StepResult \<times> cpu" where
  "DecodeOneByte c opc =
     (let modrm = (\<lambda>k. or_fault c (DecodeModRm c (rip c + 2) no_rex) k) in
      if opc = 0x0f then DecodeTwoByte c (rip c) 0 0
      else if opc \<in> {0x01, 0x03, 0x29, 0x2b, 0x31} then modrm (\<lambda>m. exec_add_sub c m 32 1 opc)
      else if opc \<in> {0x39, 0x3b} then modrm (\<lambda>m. exec_cmp c m 32 1 (opc = 0x3b))
      else if in_octet opc 0x50 then exec_push c (gpr c (unat (opc - 0x50))) 1
      else if in_octet opc 0x58 then exec_pop c (unat (opc - 0x58)) 1
      else if opc = 0x68 then or_fault c (Read32 c (rip c + 1)) (\<lambda>imm. exec_push c (scast imm) 5)
      else if opc = 0x6a then or_fault c (Read8 c (rip c + 1)) (\<lambda>imm. exec_push c (scast imm) 2)
      else if opc \<in> {0x89, 0x8b} then modrm (\<lambda>m. exec_mov32 c m opc)
      else if opc = 0x8d then modrm (\<lambda>m. exec_lea c m 32 1)
      else if opc = 0x90 then (Continue, advance c 1)
      else if in_octet opc 0xb8
      then or_fault c (Read32 c (rip c + 1)) (\<lambda>imm.
             (Continue, advance (WriteGpr c (unat (opc - 0xb8)) 32 (ucast imm)) 5))
      else if opc = 0xc3 then exec_ret c 0
      else if opc = 0xc7 then modrm (\<lambda>m. exec_mov_imm32 c m)
      else if opc = 0xc2
      then or_fault c (ReadMemory c (rip c + 1) 2) (\<lambda>stack_pop. exec_ret c stack_pop)
      else if opc = 0xc9 then exec_leave c
      else if opc = 0xcc \<or> opc = 0xf4 then (Halt, advance (c\<lparr>halted := True\<rparr>) 1)
      else if opc = 0xe8 then exec_call c
      else if opc = 0xe9
      then or_fault c (Read32 c (rip c + 1)) (\<lambda>rel. (Continue, c\<lparr>rip := rip c + 5 + scast rel\<rparr>))
      else if opc = 0xeb
      then or_fault c (Read8 c (rip c + 1)) (\<lambda>rel. (Continue, c\<lparr>rip := rip c + 2 + scast rel\<rparr>))
      else if opc = 0x81 \<or> opc = 0x83 then DecodeGroup1 c 0 opc
      else if opc \<in> {0x84, 0x85} then modrm (\<lambda>m. exec_test c m (if opc = 0x84 then 8 else 32) 1)
      else (Unsupported, LogUnsupported c (rip c) opc))"

text \<open>
  The REX-prefixed opcodes.  Apart from \<^verbatim>\<open>lea\<close>, every ModRM opcode first reads its operand, also
  the store \<^verbatim>\<open>0x89\<close>.
\<close>

definition exec_rex_modrm :: "cpu \<Rightarrow> RexPrefix \<Rightarrow> nat \<Rightarrow> 8 word \<Rightarrow> StepResult \<times> cpu" where
  "exec_rex_modrm c rex width opc =
     or_fault c (DecodeModRm c (rip c + 3) rex) (\<lambda>m.
       if opc = 0x8d then exec_lea c m width 2
       else if opc \<in> {0x01, 0x03, 0x29, 0x2b, 0x31} then exec_add_sub c m width 2 opc
       else if opc \<in> {0x39, 0x3b} then exec_cmp c m width 2 (opc = 0x3b)
       else if opc = 0x85 then exec_test c m width 2
       else or_fault c (read_rm c m width) (\<lambda>rm.
         if opc = 0x89
         then or_fault c (write_rm c m width (ReadGpr c (mr_reg m) width))
                (\<lambda>c1. (Continue, advance c1 (2 + mr_length m)))
         else (Continue, advance (WriteGpr c (mr_reg m) width rm) (2 + mr_length m))))"

definition DecodeRex :: "cpu \<Rightarrow> 8 word \<Rightarrow> StepResult \<times> cpu" where
  "DecodeRex c rex_byte =
     (let rex = DecodeRexPrefix rex_byte;
          width = (if rex_w rex then 64 else 32 :: nat)
      in or_fault c (Read8 c (rip c + 1)) (\<lambda>opc.
         if opc = 0x0f then DecodeTwoByte c (rip c + 1) 0 rex_byte
         else if in_octet opc 0xb8
         then let reg = unat (opc - 0xb8) + ext (rex_b rex)
              in if rex_w rex
                 then or_fault c (Read64 c (rip c + 2)) (\<lambda>imm.
                        (Continue, advance (WriteGpr c reg 64 imm) 10))
                 else or_fault c (Read32 c (rip c + 2)) (\<lambda>imm.
                        (Continue, advance (WriteGpr c reg 32 (ucast imm)) 6))
         else if opc \<in> {0x01, 0x03, 0x29, 0x2b, 0x31, 0x39, 0x3b, 0x85, 0x89, 0x8b, 0x8d}
         then exec_rex_modrm c rex width opc
         else if opc = 0x81 \<or> opc = 0x83 then DecodeGroup1 c rex_byte opc
         else if 0x50 \<le> opc \<and> opc \<le> 0x5f
         then let reg = bits_of opc 0 3 + ext (rex_b rex)
              in if opc < 0x58 then exec_push c (gpr c reg) 2 else exec_pop c reg 2
         else (Unsupported, LogUnsupported c (rip c) rex_byte)))"

definition Step :: "cpu \<Rightarrow> StepResult \<times> cpu" where
  "Step c =
     or_fault c (Read8 c (rip c)) (\<lambda>opc.
       if 0x70 \<le> opc \<and> opc \<le> 0x7f then DecodeJccShort c opc
       else if 0x40 \<le> opc \<and> opc \<le> 0x4f then DecodeRex c opc
       else if opc = 0x66 \<or> opc = 0xf2 \<or> opc = 0xf3 then DecodePrefixed c opc
       else DecodeOneByte c opc)"

subsection \<open>What a step leaves alone\<close>

text \<open>
  \<open>keeps c r\<close>: the step result \<open>r\<close> has the instruction counter of \<open>c\<close>, and, when execution
  continues, also its halted and suspended flags.
\<close>

definition keeps :: "cpu \<Rightarrow> StepResult \<times> cpu \<Rightarrow> bool" where
  "keeps c r \<longleftrightarrow> instruction_counter (snd r) = instruction_counter c
     \<and> (fst r = Continue \<longrightarrow> halted (snd r) = halted c \<and> suspended (snd r) = suspended c)"

named_theorems cpu_frame

lemma keeps_pair [cpu_frame]:
  "keeps c (r, c') \<longleftrightarrow> instruction_counter c' = instruction_counter c
     \<and> (r = Continue \<longrightarrow> halted c' = halted c \<and> suspended c' = suspended c)"
  by (simp add: keeps_def)

lemma keeps_or_fault:
  assumes "instruction_counter c1 = instruction_counter c"
      and "\<And>v. r = Some v \<Longrightarrow> keeps c (k v)"
  shows "keeps c (or_fault c1 r k)"
  using assms by (cases r) (auto simp: or_fault_def keeps_def)

lemma keeps_if:
  "(b \<Longrightarrow> keeps c x) \<Longrightarrow> (\<not> b \<Longrightarrow> keeps c y) \<Longrightarrow> keeps c (if b then x else y)"
  by simp

lemma frame_WriteMemory:
  assumes "WriteMemory c a n v = Some c'"
  shows "instruction_counter c' = instruction_counter c \<and> halted c' = halted c
         \<and> suspended c' = suspended c"
  using assms by (auto simp: WriteMemory_def split: if_splits)

lemma frame_WriteGpr [cpu_frame]:
  "instruction_counter (WriteGpr c r w v) = instruction_counter c"
  "halted (WriteGpr c r w v) = halted c" "suspended (WriteGpr c r w v) = suspended c"
  by (simp_all add: WriteGpr_def)

lemma frame_flags [cpu_frame]:
  "instruction_counter (UpdateArithmeticFlags c a b r w s) = instruction_counter c"
  "halted (UpdateArithmeticFlags c a b r w s) = halted c"
  "suspended (UpdateArithmeticFlags c a b r w s) = suspended c"
  "instruction_counter (UpdateLogicFlags c r w) = instruction_counter c"
  "halted (UpdateLogicFlags c r w) = halted c"
  "suspended (UpdateLogicFlags c r w) = suspended c"
  by (simp_all add: UpdateArithmeticFlags_def UpdateLogicFlags_def Let_def)

lemma frame_group1_flags [cpu_frame]:
  "instruction_counter (group1_flags c g a b w) = instruction_counter c"
  "halted (group1_flags c g a b w) = halted c" "suspended (group1_flags c g a b w) = suspended c"
  by (simp_all add: group1_flags_def frame_flags)

lemma frame_advance [cpu_frame]:
  "instruction_counter (advance c n) = instruction_counter c"
  "halted (advance c n) = halted c" "suspended (advance c n) = suspended c"
  "instruction_counter (LogUnsupported c a b) = instruction_counter c"
  by (simp_all add: advance_def LogUnsupported_def)

lemma frame_write_rm:
  assumes "write_rm c m w v = Some c'"
  shows "instruction_counter c' = instruction_counter c \<and> halted c' = halted c
         \<and> suspended c' = suspended c"
  using assms by (auto simp: write_rm_def frame_WriteGpr dest!: frame_WriteMemory split: if_splits)

lemma frame_Push64:
  assumes "Push64 c v = (ok, c')"
  shows "instruction_counter c' = instruction_counter c \<and> halted c' = halted c
         \<and> suspended c' = suspended c"
  using assms by (auto simp: Push64_def Let_def dest!: frame_WriteMemory split: option.splits)

lemma frame_Pop64:
  assumes "Pop64 c = Some (v, c')"
  shows "instruction_counter c' = instruction_counter c \<and> halted c' = halted c
         \<and> suspended c' = suspended c"
  using assms by (auto simp: Pop64_def split: bind_splits)

lemma frame_Pop64_reg:
  assumes "Pop64_reg c reg = Some c'"
  shows "instruction_counter c' = instruction_counter c \<and> halted c' = halted c
         \<and> suspended c' = suspended c"
  using assms by (auto simp: Pop64_reg_def Let_def split: bind_splits)

lemma frame_WriteXmmOperand:
  assumes "WriteXmmOperand c reg a t bs n = Some c'"
  shows "instruction_counter c' = instruction_counter c \<and> halted c' = halted c
         \<and> suspended c' = suspended c"
  using assms by (auto simp: WriteXmmOperand_def split: if_splits)

lemma keeps_exec_add_sub: "keeps c (exec_add_sub c m w s opc)"
  unfolding exec_add_sub_def Let_def
  by (auto intro!: keeps_or_fault simp: cpu_frame dest!: frame_write_rm)

lemma keeps_exec_cmp: "keeps c (exec_cmp c m w s r)"
  unfolding exec_cmp_def Let_def by (auto intro!: keeps_or_fault simp: cpu_frame)

lemma keeps_exec_test: "keeps c (exec_test c m w s)"
  unfolding exec_test_def Let_def by (auto intro!: keeps_or_fault simp: cpu_frame)

lemma keeps_exec_lea: "keeps c (exec_lea c m w s)"
  by (simp add: exec_lea_def cpu_frame)

lemma keeps_exec_mov32: "keeps c (exec_mov32 c m opc)"
  unfolding exec_mov32_def by (auto intro!: keeps_or_fault simp: cpu_frame dest!: frame_write_rm)

lemma keeps_exec_push: "keeps c (exec_push c v n)"
  by (cases "Push64 c v") (auto simp: exec_push_def cpu_frame dest!: frame_Push64)

lemma keeps_exec_pop: "keeps c (exec_pop c reg n)"
  unfolding exec_pop_def by (auto intro!: keeps_or_fault simp: cpu_frame dest!: frame_Pop64_reg)

lemma keeps_exec_mov_imm32: "keeps c (exec_mov_imm32 c m)"
  unfolding exec_mov_imm32_def by (auto intro!: keeps_or_fault simp: cpu_frame dest!: frame_write_rm)

lemma keeps_exec_ret: "keeps c (exec_ret c n)"
  unfolding exec_ret_def by (auto intro!: keeps_or_fault simp: cpu_frame dest!: frame_Pop64)

lemma keeps_exec_leave: "keeps c (exec_leave c)"
  unfolding exec_leave_def Let_def by (auto intro!: keeps_or_fault simp: cpu_frame dest!: frame_Pop64)

lemma keeps_exec_call: "keeps c (exec_call c)"
  unfolding exec_call_def Let_def
  by (auto intro!: keeps_or_fault simp: cpu_frame dest!: frame_Push64 split: prod.splits)

lemma keeps_DecodeJccShort: "keeps c (DecodeJccShort c opc)"
  unfolding DecodeJccShort_def Let_def by (auto intro!: keeps_or_fault simp: cpu_frame)

lemma keeps_DecodeJccNear: "keeps c (DecodeJccNear c a)"
  unfolding DecodeJccNear_def Let_def by (auto intro!: keeps_or_fault simp: cpu_frame)

lemma keeps_DecodeGroup1: "keeps c (DecodeGroup1 c r opc)"
  unfolding DecodeGroup1_def Let_def
  by (intro keeps_or_fault keeps_if) (auto simp: cpu_frame dest!: frame_write_rm)

lemma keeps_exec_xmm: "keeps c (exec_xmm c m a p opc)"
  unfolding exec_xmm_def Let_def
  by (auto intro!: keeps_or_fault simp: cpu_frame dest!: frame_WriteXmmOperand)

lemma keeps_DecodeTwoByte: "keeps c (DecodeTwoByte c a p r)"
  unfolding DecodeTwoByte_def Let_def
  by (intro keeps_or_fault keeps_if keeps_DecodeJccNear keeps_exec_xmm) (simp_all add: cpu_frame)

lemma keeps_DecodePrefixed: "keeps c (DecodePrefixed c p)"
  unfolding DecodePrefixed_def Let_def
  by (auto intro!: keeps_or_fault keeps_DecodeTwoByte simp: cpu_frame)

lemmas keeps_exec = keeps_exec_add_sub keeps_exec_cmp keeps_exec_test keeps_exec_lea keeps_exec_mov32
  keeps_exec_push keeps_exec_pop keeps_exec_mov_imm32 keeps_exec_ret keeps_exec_leave keeps_exec_call
  keeps_DecodeGroup1 keeps_DecodeTwoByte

lemma keeps_DecodeOneByte: "keeps c (DecodeOneByte c opc)"
  unfolding DecodeOneByte_def Let_def
  by (intro keeps_or_fault keeps_if keeps_exec) (simp_all add: cpu_frame)

lemma keeps_exec_rex_modrm: "keeps c (exec_rex_modrm c rex w opc)"
  unfolding exec_rex_modrm_def
  by (auto intro!: keeps_or_fault keeps_exec simp: cpu_frame dest!: frame_write_rm)

lemma keeps_DecodeRex: "keeps c (DecodeRex c r)"
  unfolding DecodeRex_def Let_def
  by (intro keeps_or_fault keeps_if keeps_exec keeps_exec_rex_modrm) (simp_all add: cpu_frame)

lemma keeps_Step: "keeps c (Step c)"
  unfolding Step_def
  by (intro keeps_or_fault keeps_if keeps_DecodeJccShort keeps_DecodeRex keeps_DecodePrefixed
      keeps_DecodeOneByte) simp

lemma Step_counter [simp]: "instruction_counter (snd (Step c)) = instruction_counter c"
  using keeps_Step [of c] by (simp add: keeps_def)

subsection \<open>The interpreter loop\<close>

text \<open>
  The loop of \<^verbatim>\<open>ExecuteRegistersContext\<close>.  It terminates because a step does not touch the
  instruction counter, which the loop increments up to the budget.
\<close>

function interpreter_loop :: "cpu \<Rightarrow> cpu" where
  "interpreter_loop c =
     (if instruction_counter c < MaxInterpreterSteps \<and> \<not> halted c \<and> \<not> suspended c
      then case Step c of
             (Continue, c1) \<Rightarrow> interpreter_loop (c1\<lparr>instruction_counter := instruction_counter c1 + 1\<rparr>)
           | (Halt, c1) \<Rightarrow> c1
           | (Fault, c1) \<Rightarrow> c1\<lparr>suspended := True\<rparr>
           | (Unsupported, c1) \<Rightarrow> c1\<lparr>suspended := True\<rparr>
      else c)"
  by auto
termination
proof (relation "measure (\<lambda>c. MaxInterpreterSteps - instruction_counter c)", goal_cases)
  case 1
  then show ?case by simp
next
  case (2 c r c1)
  then have "instruction_counter c1 = instruction_counter c"
    using Step_counter [of c] by (metis snd_conv)
  with 2 show ?case by (auto intro: diff_less_mono2)
qed

declare interpreter_loop.simps [simp del]

definition ExecuteRegistersContext :: "cpu \<Rightarrow> cpu" where
  "ExecuteRegistersContext c =
     (let c1 = interpreter_loop c
      in if instruction_counter c1 \<ge> MaxInterpreterSteps then c1\<lparr>suspended := True\<rparr> else c1)"

text \<open>
  \<^verbatim>\<open>ExecuteEntry\<close>: the address of the bootstrap stack, which is a local array of 64 KB, is a
  parameter; of the translator \<open>t\<close> it keeps the memory and the record of the last unsupported
  opcode.
\<close>

definition ExecuteEntry :: "cpu \<Rightarrow> 64 word \<Rightarrow> 64 word \<Rightarrow> 64 word \<Rightarrow> 64 word \<Rightarrow> bool \<times> cpu" where
  "ExecuteEntry t bootstrap_stack entry_pc entry_params exit_func =
     (if entry_pc = 0 then (False, t)
      else let c = ExecuteRegistersContext
                     \<lparr>gpr = (\<lambda>_. 0)(Rdi := entry_params, Rsi := exit_func,
                                      Rsp := bootstrap_stack + 64 * 1024 - 8),
                      rip = entry_pc, rflags = 0x202, instruction_counter = 0, halted = False,
                      suspended = False, xmm = (\<lambda>_. replicate 16 0),
                      mem = write_bytes (mem t) bootstrap_stack (replicate (64 * 1024) 0),
                      unsupported_rip = unsupported_rip t,
                      unsupported_opcode = unsupported_opcode t\<rparr>
           in (halted c, c))"

end
