(* ===== verification/Orbit_CpuLemmas.thy ===== *)
theory Orbit_CpuLemmas
  imports Orbit_Cpu
begin

text \<open>
  Facts about the interpreter of \<open>Orbit_Cpu\<close>: the status flags as statements about numbers, the
  memory and the stack, the decoder's bounds, and how the interpreter loop can end.
\<close>

subsection \<open>Flags\<close>

lemma WidthMask_mask: "WidthMask w = mask w"
proof (cases "w \<ge> 64")
  case True
  then show ?thesis
    unfolding WidthMask_def by (intro bit_word_eqI) (simp add: bit_simps)
next
  case False
  then show ?thesis
    by (simp add: WidthMask_def mask_eq_exp_minus_1)
qed

lemma and_WidthMask: "v AND WidthMask w = take_bit w v"
  by (simp add: WidthMask_mask take_bit_eq_mask)

lemma and_bit_ne_0: "k < 64 \<Longrightarrow> (f :: 64 word) AND push_bit k 1 \<noteq> 0 \<longleftrightarrow> bit f k"
  by (metis and_exp_eq_0_iff_not_bit push_bit_of_1)

lemma flag_tests:
  "f AND FlagCf \<noteq> 0 \<longleftrightarrow> bit f 0" "f AND FlagPf \<noteq> 0 \<longleftrightarrow> bit f 2" "f AND FlagZf \<noteq> 0 \<longleftrightarrow> bit f 6"
  "f AND FlagSf \<noteq> 0 \<longleftrightarrow> bit f 7" "f AND FlagOf \<noteq> 0 \<longleftrightarrow> bit f 11"
  by (simp_all only: flag_defs and_bit_ne_0)

lemma bit_set_flag: "k < 64 \<Longrightarrow> bit (set_flag (push_bit k 1) b f) j \<longleftrightarrow> bit f j \<or> (j = k \<and> b)"
  by (auto simp: set_flag_def bit_simps)

lemma bit_set_flags:
  "bit (set_flag FlagCf b f) j \<longleftrightarrow> bit f j \<or> (j = 0 \<and> b)"
  "bit (set_flag FlagPf b f) j \<longleftrightarrow> bit f j \<or> (j = 2 \<and> b)"
  "bit (set_flag FlagZf b f) j \<longleftrightarrow> bit f j \<or> (j = 6 \<and> b)"
  "bit (set_flag FlagSf b f) j \<longleftrightarrow> bit f j \<or> (j = 7 \<and> b)"
  "bit (set_flag FlagOf b f) j \<longleftrightarrow> bit f j \<or> (j = 11 \<and> b)"
  by (simp_all only: flag_defs bit_set_flag)

lemma bit_push_one: "k < 64 \<Longrightarrow> bit (push_bit k (1 :: 64 word)) j \<longleftrightarrow> j = k"
  by (auto simp: bit_simps)

lemma flag_bits:
  "bit FlagCf k \<longleftrightarrow> k = 0" "bit FlagPf k \<longleftrightarrow> k = 2" "bit FlagZf k \<longleftrightarrow> k = 6"
  "bit FlagSf k \<longleftrightarrow> k = 7" "bit FlagOf k \<longleftrightarrow> k = 11"
  by (simp_all only: flag_defs bit_push_one)

lemma SignBit_test:
  assumes "0 < w" "w \<le> 64"
  shows "v AND SignBit w = 0 \<longleftrightarrow> \<not> bit v (w - 1)"
  using and_bit_ne_0 [of "w - 1" v] assms by (simp add: SignBit_def) linarith

lemma arithmetic_flags:
  fixes l r v :: "64 word" and c :: cpu and sub :: bool
  assumes "0 < w" "w \<le> 64"
  defines "f \<equiv> rflags (UpdateArithmeticFlags c l r v w sub)"
  shows "bit f 6 \<longleftrightarrow> take_bit w v = 0"
    and "bit f 7 \<longleftrightarrow> bit v (w - 1)"
    and "bit f 2 \<longleftrightarrow> even (popcount (take_bit 8 (take_bit w v)))"
    and "sub \<Longrightarrow> bit f 0 \<longleftrightarrow> take_bit w l < take_bit w r"
    and "\<not> sub \<Longrightarrow> bit f 0 \<longleftrightarrow> take_bit w v < take_bit w l"
    and "sub \<Longrightarrow> bit f 11 \<longleftrightarrow> bit l (w - 1) \<noteq> bit r (w - 1) \<and> bit l (w - 1) \<noteq> bit v (w - 1)"
    and "\<not> sub \<Longrightarrow> bit f 11 \<longleftrightarrow> bit l (w - 1) = bit r (w - 1) \<and> bit l (w - 1) \<noteq> bit v (w - 1)"
proof -
  have ff: "(0xff :: 64 word) = mask 8"
    by (simp add: mask_eq_exp_minus_1)
  have sign: "bit (take_bit w x) (w - 1) = bit x (w - 1)" for x :: "64 word"
    using assms by (simp add: bit_simps)
  have sb: "x AND SignBit w \<noteq> 0 \<longleftrightarrow> bit x (w - 1)" for x
    using SignBit_test [OF assms(1,2)] by blast
  have sb2: "x AND (y AND SignBit w) \<noteq> 0 \<longleftrightarrow> bit x (w - 1) \<and> bit y (w - 1)" for x y
    using sb [of "x AND y"] by (simp only: and.assoc bit_and_iff)
  have n64: "w - 1 < 64" using assms by simp
  have wm: "bit (WidthMask w) (w - 1)"
    using assms by (simp add: WidthMask_mask bit_simps)
  note F = wm f_def UpdateArithmeticFlags_def Let_def bit_set_flags flag_bits bit_or_iff and_WidthMask
    sb sb2 sign bit_xor_iff bit_not_iff bit_and_iff
  show "bit f 6 \<longleftrightarrow> take_bit w v = 0" by (simp add: F)
  show "bit f 7 \<longleftrightarrow> bit v (w - 1)" by (cases sub) (simp_all add: F del: One_nat_def)
  show "bit f 2 \<longleftrightarrow> even (popcount (take_bit 8 (take_bit w v)))"
    by (simp add: F ff take_bit_eq_mask [symmetric] even_iff_mod_2_eq_zero)
  show "sub \<Longrightarrow> bit f 0 \<longleftrightarrow> take_bit w l < take_bit w r" by (simp add: F)
  show "\<not> sub \<Longrightarrow> bit f 0 \<longleftrightarrow> take_bit w v < take_bit w l" by (simp add: F)
  show "sub \<Longrightarrow> bit f 11 \<longleftrightarrow> bit l (w - 1) \<noteq> bit r (w - 1) \<and> bit l (w - 1) \<noteq> bit v (w - 1)"
    using sb by (auto simp add: F simp del: One_nat_def)
  show "\<not> sub \<Longrightarrow> bit f 11 \<longleftrightarrow> bit l (w - 1) = bit r (w - 1) \<and> bit l (w - 1) \<noteq> bit v (w - 1)"
    using n64 by (simp add: F del: One_nat_def)
qed


text \<open>Two's complement numbers of \<open>w\<close> bits.\<close>

lemma bit_top:
  fixes a :: int
  assumes "0 \<le> a" "a < 2 * 2 ^ n"
  shows "bit a n \<longleftrightarrow> 2 ^ n \<le> a"
proof -
  have "a div 2 ^ n = (if 2 ^ n \<le> a then 1 else 0)"
  proof (cases "2 ^ n \<le> a")
    case True
    have "a div 2 ^ n = 1" by (rule int_div_pos_eq [where r = "a - 2 ^ n"]) (use True assms in auto)
    then show ?thesis using True by simp
  qed (use assms in simp)
  then show ?thesis by (simp add: bit_iff_odd)
qed

text \<open>The value of the low \<open>w\<close> bits, read without and with sign.\<close>

definition uval :: "nat \<Rightarrow> 64 word \<Rightarrow> int" where
  "uval w v = uint (take_bit w v)"

definition sval :: "nat \<Rightarrow> 64 word \<Rightarrow> int" where
  "sval w v = signed_take_bit (w - 1) (uint v)"

lemma uval_eq: "uval w v = take_bit w (uint v)"
  by (simp add: uval_def unsigned_take_bit_eq)

lemma uval_range: "0 \<le> uval w v" "uval w v < 2 ^ w"
  by (simp_all add: uval_eq)

lemma bit_uval: "0 < w \<Longrightarrow> w \<le> 64 \<Longrightarrow> bit v (w - 1) \<longleftrightarrow> 2 ^ (w - 1) \<le> uval w v"
  using bit_top [of "uval w v" "w - 1"] uval_range [of w v]
  by (cases w) (simp_all add: uval_eq bit_simps)

lemma sval_uval:
  assumes "0 < w" "w \<le> 64"
  shows "sval w v = uval w v - (if bit v (w - 1) then 2 ^ w else 0)"
  using assms by (cases w) (simp_all add: sval_def uval_eq signed_take_bit_eq_take_bit_minus bit_simps)

lemma uval_diff: "w \<le> 64 \<Longrightarrow> uval w (l - r) = (uval w l - uval w r) mod 2 ^ w"
  unfolding uval_eq uint_word_arith_bintrs(2)
  using le_imp_power_dvd [of w 64 "2 :: int"]
  by (simp add: take_bit_eq_mod mod_mod_cancel mod_simps)

lemma uval_sum: "w \<le> 64 \<Longrightarrow> uval w (l + r) = (uval w l + uval w r) mod 2 ^ w"
  unfolding uval_eq uint_word_arith_bintrs(1)
  using le_imp_power_dvd [of w 64 "2 :: int"]
  by (simp add: take_bit_eq_mod mod_mod_cancel mod_simps)

lemma uval_order:
  "take_bit w l < take_bit w r \<longleftrightarrow> uval w l < uval w r"
  "take_bit w v = 0 \<longleftrightarrow> uval w v = 0"
  by (simp_all add: uval_def word_less_def flip: uint_0_iff)

lemma mod_diff_cases:
  fixes a b m :: int
  assumes "0 \<le> a" "a < m" "0 \<le> b" "b < m"
  shows "(a - b) mod m = (if a < b then a - b + m else a - b)"
  using assms by (auto intro: int_mod_pos_eq [where q = "-1"])

lemma mod_sum_cases:
  fixes a b m :: int
  assumes "0 \<le> a" "a < m" "0 \<le> b" "b < m"
  shows "(a + b) mod m = (if a + b < m then a + b else a + b - m)"
  using assms by (auto intro: int_mod_pos_eq [where q = 1])


lemma subtract_flags:
  fixes c :: cpu and l r :: "64 word"
  assumes w: "0 < w" "w \<le> 64"
  defines "f \<equiv> rflags (UpdateArithmeticFlags c l r ((l - r) AND WidthMask w) w True)"
  shows "bit f 0 \<longleftrightarrow> uval w l < uval w r" "bit f 6 \<longleftrightarrow> uval w l = uval w r"
    and "bit f 7 \<noteq> bit f 11 \<longleftrightarrow> sval w l < sval w r"
    and "bit f 11 \<longleftrightarrow> sval w l - sval w r \<noteq> sval w (l - r)"
    and "bit f 7 \<longleftrightarrow> sval w (l - r) < 0"
proof -
  define v where "v = (l - r) AND WidthMask w"
  note flags = arithmetic_flags [OF w, where c = c and l = l and r = r and v = v and sub = True,
    folded f_def [folded v_def]]
  have v: "uval w v = uval w (l - r)"
    by (simp add: uval_def v_def and_WidthMask)
  obtain n where n: "w = Suc n" using w by (cases w) auto
  let ?m = "2 ^ w :: int"
  have half: "2 ^ (w - 1) + 2 ^ (w - 1) = ?m" using n by simp
  have d: "uval w (l - r) = (if uval w l < uval w r then uval w l - uval w r + ?m else uval w l - uval w r)"
    using mod_diff_cases uval_range uval_diff w by simp
  note facts = d half uval_range [of w l] uval_range [of w r] uval_range [of w "l - r"]
  note simps = flags v bit_uval [OF w] sval_uval [OF w] uval_order
  show "bit f 0 \<longleftrightarrow> uval w l < uval w r" by (simp add: simps)
  show "bit f 6 \<longleftrightarrow> uval w l = uval w r" using facts by (auto simp: simps)
  show "bit f 7 \<noteq> bit f 11 \<longleftrightarrow> sval w l < sval w r"
    using facts by (auto simp add: simps simp del: One_nat_def split: if_splits)
  show "bit f 11 \<longleftrightarrow> sval w l - sval w r \<noteq> sval w (l - r)"
    using facts by (auto simp add: simps simp del: One_nat_def split: if_splits)
  show "bit f 7 \<longleftrightarrow> sval w (l - r) < 0"
    using facts by (simp add: simps del: One_nat_def)
qed

lemma add_flags:
  fixes c :: cpu and l r :: "64 word"
  assumes w: "0 < w" "w \<le> 64"
  defines "f \<equiv> rflags (UpdateArithmeticFlags c l r ((l + r) AND WidthMask w) w False)"
  shows "bit f 0 \<longleftrightarrow> 2 ^ w \<le> uval w l + uval w r" "bit f 6 \<longleftrightarrow> uval w (l + r) = 0"
    and "bit f 11 \<longleftrightarrow> sval w l + sval w r \<noteq> sval w (l + r)"
    and "bit f 7 \<longleftrightarrow> sval w (l + r) < 0"
proof -
  define v where "v = (l + r) AND WidthMask w"
  note flags = arithmetic_flags [OF w, where c = c and l = l and r = r and v = v and sub = False,
    folded f_def [folded v_def]]
  have v: "uval w v = uval w (l + r)"
    by (simp add: uval_def v_def and_WidthMask)
  obtain n where n: "w = Suc n" using w by (cases w) auto
  let ?m = "2 ^ w :: int"
  have half: "2 ^ (w - 1) + 2 ^ (w - 1) = ?m" using n by simp
  have d: "uval w (l + r) = (if uval w l + uval w r < ?m then uval w l + uval w r else uval w l + uval w r - ?m)"
    using mod_sum_cases uval_range uval_sum w by simp
  note facts = d half uval_range [of w l] uval_range [of w r] uval_range [of w "l + r"]
  note simps = flags v bit_uval [OF w] sval_uval [OF w] uval_order
  show "bit f 0 \<longleftrightarrow> 2 ^ w \<le> uval w l + uval w r" using facts by (auto simp: simps split: if_splits)
  show "bit f 6 \<longleftrightarrow> uval w (l + r) = 0" using facts by (auto simp: simps)
  show "bit f 11 \<longleftrightarrow> sval w l + sval w r \<noteq> sval w (l + r)"
    using facts by (auto simp add: simps simp del: One_nat_def split: if_splits)
  show "bit f 7 \<longleftrightarrow> sval w (l + r) < 0"
    using facts by (simp add: simps del: One_nat_def)
qed

subsection \<open>Memory and stack\<close>

lemma write_le_other:
  assumes "\<And>i. i < n \<Longrightarrow> x \<noteq> a + of_nat i"
  shows "write_le m a n v x = m x"
  using assms
proof (induction n arbitrary: m a v)
  case (Suc n)
  have "x \<noteq> a" using Suc.prems [of 0] by simp
  moreover have "x \<noteq> a + 1 + of_nat i" if "i < n" for i
    using Suc.prems [of "Suc i"] that by (simp add: add.assoc)
  ultimately show ?case by (simp add: Suc.IH)
qed simp

lemma of_nat_word_ne:
  "\<lbrakk>0 < i; i < 2 ^ 64\<rbrakk> \<Longrightarrow> (of_nat i :: 64 word) \<noteq> 0"
  by (auto simp: word_of_nat_eq_0_iff dest: dvd_imp_le)

lemma write_le_first:
  assumes "n < 2 ^ 64"
  shows "write_le m a (Suc n) v a = ucast v"
proof -
  have "write_le (m(a := ucast v)) (a + 1) n (drop_bit 8 v) a = (m(a := ucast v)) a"
  proof (rule write_le_other)
    show "a \<noteq> a + 1 + of_nat i" if "i < n" for i
      using of_nat_word_ne [of "Suc i"] that assms by (simp add: add.assoc)
  qed
  then show ?thesis by simp
qed

lemma byte_split: "(ucast (ucast v :: 8 word) :: 64 word) OR push_bit 8 (take_bit n (drop_bit 8 v)) = take_bit (8 + n) v"
  by (intro bit_word_eqI) (auto simp: bit_simps)

lemma read_write_le:
  assumes "n < 2 ^ 64"
  shows "read_le (write_le m a n v) a n = take_bit (8 * n) v"
  using assms
proof (induction n arbitrary: m a v)
  case (Suc n)
  have "read_le (write_le m a (Suc n) v) (a + 1) n = take_bit (8 * n) (drop_bit 8 v)"
    using Suc by simp
  moreover have "write_le m a (Suc n) v a = ucast v"
    using Suc.prems by (intro write_le_first) simp
  ultimately show ?case
    using byte_split [of v "8 * n"] by (simp del: write_le.simps)
qed simp

lemma Push64_ok:
  assumes "gpr c Rsp \<noteq> 8"
  shows "Push64 c v = (True, c\<lparr>gpr := (gpr c)(Rsp := gpr c Rsp - 8),
                               mem := write_le (mem c) (gpr c Rsp - 8) 8 v\<rparr>)"
  using assms by (simp add: Push64_def WriteMemory_def Let_def)

lemma Pop64_Push64:
  assumes "gpr c Rsp \<noteq> 8" "Push64 c v = (True, c1)"
  shows "Pop64 c1 = Some (v, c1\<lparr>gpr := gpr c\<rparr>)"
proof -
  have c1: "c1 = c\<lparr>gpr := (gpr c)(Rsp := gpr c Rsp - 8), mem := write_le (mem c) (gpr c Rsp - 8) 8 v\<rparr>"
    using assms Push64_ok by simp
  have "read_le (mem c1) (gpr c Rsp - 8) 8 = v"
    using read_write_le [of 8 "mem c" "gpr c Rsp - 8" v] by (simp add: c1 take_bit_word_eq_self)
  then show ?thesis
    using assms(1) by (simp add: Pop64_def ReadMemory_def c1)
qed

text \<open>A return undoes a push: the target is the pushed address and the stack pointer is restored.\<close>

lemma exec_ret_after_push:
  assumes "gpr c Rsp \<noteq> 8" "Push64 c target = (True, c1)" "target \<noteq> 0"
  shows "exec_ret (c1\<lparr>rip := at\<rparr>) 0 = (Continue, c1\<lparr>gpr := gpr c, rip := target\<rparr>)"
proof -
  have p: "Pop64 c1 = Some (target, c1\<lparr>gpr := gpr c\<rparr>)"
    by (rule Pop64_Push64 [OF assms(1,2)])
  then have "(gpr c1)(Rsp := gpr c1 Rsp + 8) = gpr c"
    by (auto simp: Pop64_def ReadMemory_def split: if_splits dest: arg_cong [where f = gpr])
  then have "Pop64 (c1\<lparr>rip := at\<rparr>) = Some (target, c1\<lparr>rip := at, gpr := gpr c\<rparr>)"
    using p by (auto simp: Pop64_def ReadMemory_def split: if_splits)
  then show ?thesis
    using assms(3) by (simp add: exec_ret_def or_fault_def)
qed

lemma Read8_eq: "Read8 c a = (if a = 0 then None else Some (mem c a))"
proof -
  have "ucast (ucast b :: 64 word) = b" for b :: "8 word"
    by (intro bit_word_eqI) (simp add: bit_simps)
  then show ?thesis by (simp add: Read8_def ReadMemory_def)
qed

lemma Step_opcode:
  assumes "rip c \<noteq> 0" "mem c (rip c) = opc"
  shows "Step c = (if 0x70 \<le> opc \<and> opc \<le> 0x7f then DecodeJccShort c opc
       else if 0x40 \<le> opc \<and> opc \<le> 0x4f then DecodeRex c opc
       else if opc = 0x66 \<or> opc = 0xf2 \<or> opc = 0xf3 then DecodePrefixed c opc
       else DecodeOneByte c opc)"
  using assms by (simp add: Step_def or_fault_def Read8_eq)

lemma Step_call:
  assumes "rip c \<noteq> 0" "mem c (rip c) = 0xe8"
  shows "Step c = exec_call c"
  by (simp add: Step_opcode [OF assms] DecodeOneByte_def in_octet_def)

lemma Step_ret:
  assumes "rip c \<noteq> 0" "mem c (rip c) = 0xc3"
  shows "Step c = exec_ret c 0"
  by (simp add: Step_opcode [OF assms] DecodeOneByte_def in_octet_def)

subsection \<open>Decoded operands\<close>

lemma bits_of_less: "bits_of b i n < 2 ^ n"
proof -
  have "unat (take_bit n (drop_bit i b)) = take_bit n (unat (drop_bit i b))"
    by (simp add: unsigned_take_bit_eq)
  then show ?thesis by (simp add: bits_of_def)
qed

lemma decode_base_cursor:
  assumes "decode_base c p rex raw = Some (base, index, disp, q)"
  shows "q - p \<in> {0, 1, 4, 5} \<and> (q - p \<in> {4, 5} \<longrightarrow> bits_of raw 6 2 = 0)"
  using assms
  by (auto simp: decode_base_def Let_def split: if_splits bind_splits)

lemma DecodeModRm_bounds:
  assumes "DecodeModRm c p rex = Some m"
  shows "mr_reg m < 16" "mr_rm m < 16" "1 \<le> mr_length m" "mr_length m \<le> 6"
    and "\<not> mr_has_memory m \<Longrightarrow> mr_length m = 1"
proof -
  have small: "bits_of raw i 3 + ext b < 16" for raw i b
    using bits_of_less [of raw i 3] by (simp add: ext_def)
  obtain raw where raw: "Read8 c (p - 1) = Some raw"
    using assms by (auto simp: DecodeModRm_def split: bind_splits)
  have regs: "mr_reg m = bits_of raw 3 3 + ext (rex_r rex)" "mr_rm m = bits_of raw 0 3 + ext (rex_b rex)"
    using assms by (auto simp: DecodeModRm_def raw Let_def split: if_splits bind_splits)
  show "mr_reg m < 16" "mr_rm m < 16" using regs small by simp_all
  have "mr_length m = 1 \<or> (mr_has_memory m \<and> mr_length m \<in> {1, 2, 3, 5, 6})"
  proof (cases "bits_of raw 6 2 = 3")
    case True
    then show ?thesis using assms by (auto simp: DecodeModRm_def raw Let_def split: bind_splits)
  next
    case False
    then obtain base index disp0 q where
      b: "decode_base c p rex raw = Some (base, index, disp0, q)"
      using assms by (auto simp: DecodeModRm_def raw Let_def split: bind_splits)
    define k where "k = q - p"
    have q: "q = p + k" by (simp add: k_def)
    have len: "mr_has_memory m \<and> mr_length m = unat (k + 1 + (if bits_of raw 6 2 = 1 then 1
        else if bits_of raw 6 2 = 2 then 4 else 0))"
      using assms False
      by (auto simp: DecodeModRm_def raw Let_def b q algebra_simps split: if_splits bind_splits)
    from decode_base_cursor [OF b]
    have "k \<in> {0, 1, 4, 5}" "k \<in> {4, 5} \<longrightarrow> bits_of raw 6 2 = 0" by (simp_all add: k_def)
    then show ?thesis using len by auto
  qed
  then show "1 \<le> mr_length m" "mr_length m \<le> 6" "\<not> mr_has_memory m \<Longrightarrow> mr_length m = 1"
    by auto
qed

text \<open>
  The RIP-relative form: the displacement counts from the byte behind it, whatever follows.
\<close>

lemma DecodeModRm_rip_relative:
  assumes "p \<noteq> 0" "p \<noteq> 1" "bits_of (mem c (p - 1)) 6 2 = 0" "bits_of (mem c (p - 1)) 0 3 = 5"
      and "Read32 c p = Some d"
  shows "DecodeModRm c p rex = Some \<lparr>mr_mod = 0, mr_reg = bits_of (mem c (p - 1)) 3 3 + ext (rex_r rex),
     mr_rm = 5 + ext (rex_b rex), mr_length = 5, mr_has_memory = True, mr_address = p + 4 + scast d\<rparr>"
  using assms by (simp add: DecodeModRm_def Read8_eq decode_base_def Let_def)

subsection \<open>How the interpreter loop ends\<close>

text \<open>\<open>halts_ok r\<close>: a step halts only by a halting instruction or by a return to address 0.\<close>

definition halts_ok :: "StepResult \<times> cpu \<Rightarrow> bool" where
  "halts_ok r \<longleftrightarrow> (fst r = Halt \<longrightarrow> halted (snd r) \<or> rip (snd r) = 0)"

lemma halts_ok_pair: "halts_ok (r, c) \<longleftrightarrow> (r = Halt \<longrightarrow> halted c \<or> rip c = 0)"
  by (simp add: halts_ok_def)

lemma halts_ok_or_fault: "(\<And>v. r = Some v \<Longrightarrow> halts_ok (k v)) \<Longrightarrow> halts_ok (or_fault c r k)"
  by (cases r) (auto simp: or_fault_def halts_ok_def)

lemma halts_ok_if: "(b \<Longrightarrow> halts_ok x) \<Longrightarrow> (\<not> b \<Longrightarrow> halts_ok y) \<Longrightarrow> halts_ok (if b then x else y)"
  by simp

lemma halts_ok_let_pair: "(\<And>x y. p = (x, y) \<Longrightarrow> halts_ok (f x y)) \<Longrightarrow> halts_ok (case p of (x, y) \<Rightarrow> f x y)"
  by (cases p) simp

lemmas halts_ok_intro = halts_ok_or_fault halts_ok_if halts_ok_let_pair

lemma halts_ok_exec:
  "halts_ok (exec_add_sub c m w s opc)" "halts_ok (exec_cmp c m w s b)" "halts_ok (exec_test c m w s)"
  "halts_ok (exec_lea c m w s)" "halts_ok (exec_mov32 c m opc)" "halts_ok (exec_push c v n)"
  "halts_ok (exec_pop c r n)" "halts_ok (exec_mov_imm32 c m)" "halts_ok (exec_ret c v)"
  "halts_ok (exec_leave c)" "halts_ok (exec_call c)" "halts_ok (DecodeJccShort c opc)"
  "halts_ok (DecodeJccNear c a)" "halts_ok (DecodeGroup1 c x opc)" "halts_ok (exec_xmm c m a x opc)"
  unfolding exec_add_sub_def exec_cmp_def exec_test_def exec_lea_def exec_mov32_def exec_push_def
    exec_pop_def exec_mov_imm32_def exec_ret_def exec_leave_def exec_call_def DecodeJccShort_def
    DecodeJccNear_def DecodeGroup1_def exec_xmm_def Let_def
  by (intro halts_ok_intro; simp add: halts_ok_pair)+

lemma halts_ok_DecodeTwoByte: "halts_ok (DecodeTwoByte c a p r)"
  unfolding DecodeTwoByte_def Let_def
  by (intro halts_ok_intro halts_ok_exec; simp add: halts_ok_pair)

lemma halts_ok_DecodePrefixed: "halts_ok (DecodePrefixed c p)"
  unfolding DecodePrefixed_def Let_def
  by (intro halts_ok_intro halts_ok_DecodeTwoByte; simp add: halts_ok_pair)

lemma halts_ok_DecodeOneByte: "halts_ok (DecodeOneByte c opc)"
  unfolding DecodeOneByte_def Let_def
  by (intro halts_ok_intro halts_ok_exec halts_ok_DecodeTwoByte;
      simp add: halts_ok_pair advance_def)

lemma halts_ok_DecodeRex: "halts_ok (DecodeRex c r)"
  unfolding DecodeRex_def exec_rex_modrm_def Let_def
  by (intro halts_ok_intro halts_ok_exec halts_ok_DecodeTwoByte; simp add: halts_ok_pair)

lemma halts_ok_Step: "halts_ok (Step c)"
  unfolding Step_def
  by (intro halts_ok_intro halts_ok_exec halts_ok_DecodePrefixed halts_ok_DecodeOneByte
      halts_ok_DecodeRex)

text \<open>\<open>runs c n c'\<close>: \<open>n\<close> rounds of the loop, each a step that continues, lead from \<open>c\<close> to \<open>c'\<close>.\<close>

inductive runs :: "cpu \<Rightarrow> nat \<Rightarrow> cpu \<Rightarrow> bool" where
  runs_none: "runs c 0 c"
| runs_step: "\<lbrakk>instruction_counter c < MaxInterpreterSteps; \<not> halted c; \<not> suspended c;
               Step c = (Continue, c1); runs (c1\<lparr>instruction_counter := instruction_counter c1 + 1\<rparr>) n c2\<rbrakk>
              \<Longrightarrow> runs c (Suc n) c2"

lemma runs_counter: "runs c n c' \<Longrightarrow> instruction_counter c' = instruction_counter c + n"
proof (induction rule: runs.induct)
  case (runs_step c c1 n c2)
  then show ?case using Step_counter [of c] by simp
qed simp

lemma Step_counterD: "Step c = (r, c') \<Longrightarrow> instruction_counter c' = instruction_counter c"
  using Step_counter [of c] by (simp del: Step_counter)

text \<open>The three ways in which the loop stops in \<open>c1\<close> with the final state \<open>c'\<close>.\<close>

definition loop_stops :: "cpu \<Rightarrow> cpu \<Rightarrow> bool" where
  "loop_stops c1 c' \<longleftrightarrow>
     (c' = c1 \<and> (halted c1 \<or> suspended c1 \<or> instruction_counter c1 \<ge> MaxInterpreterSteps))
     \<or> Step c1 = (Halt, c')
     \<or> (\<exists>r c2. Step c1 = (r, c2) \<and> r \<in> {Fault, Unsupported} \<and> c' = c2\<lparr>suspended := True\<rparr>)"

lemma interpreter_loop_runs:
  "\<exists>n c1. runs c n c1 \<and> loop_stops c1 (interpreter_loop c)"
proof (induction c rule: interpreter_loop.induct)
  case (1 c)
  show ?case
  proof (cases "instruction_counter c < MaxInterpreterSteps \<and> \<not> halted c \<and> \<not> suspended c")
    case go: True
    obtain r c1 where s: "Step c = (r, c1)" by (cases "Step c")
    have loop: "interpreter_loop c =
        (case r of Continue \<Rightarrow> interpreter_loop (c1\<lparr>instruction_counter := instruction_counter c1 + 1\<rparr>)
         | Halt \<Rightarrow> c1 | Fault \<Rightarrow> c1\<lparr>suspended := True\<rparr> | Unsupported \<Rightarrow> c1\<lparr>suspended := True\<rparr>)"
      by (subst interpreter_loop.simps) (use go s in \<open>simp split: StepResult.split\<close>)
    show ?thesis
    proof (cases "r = Continue")
      case True
      from 1 [OF go s [symmetric] True] obtain n c2
        where "runs (c1\<lparr>instruction_counter := instruction_counter c1 + 1\<rparr>) n c2"
          "loop_stops c2 (interpreter_loop (c1\<lparr>instruction_counter := instruction_counter c1 + 1\<rparr>))"
        by blast
      then show ?thesis using go s True loop runs_step [of c c1 n c2] by auto
    next
      case False
      then have "loop_stops c (interpreter_loop c)"
        using s loop by (cases r) (auto simp: loop_stops_def)
      then show ?thesis using runs_none by blast
    qed
  next
    case False
    then have "loop_stops c (interpreter_loop c)"
      by (subst interpreter_loop.simps) (auto simp: loop_stops_def)
    then show ?thesis using runs_none by blast
  qed
qed

lemma loop_stops_outcome:
  assumes "loop_stops c1 c'"
  shows "instruction_counter c' = instruction_counter c1"
    and "halted c' \<or> suspended c' \<or> rip c' = 0 \<or> instruction_counter c' \<ge> MaxInterpreterSteps"
  using assms halts_ok_Step [of c1]
  by (auto simp: loop_stops_def halts_ok_def dest: Step_counterD)

lemma runs_budget:
  "runs c n c' \<Longrightarrow> instruction_counter c \<le> MaxInterpreterSteps \<Longrightarrow>
   instruction_counter c' \<le> MaxInterpreterSteps"
proof (induction rule: runs.induct)
  case (runs_step c c1 n c2)
  then show ?case using Step_counter [of c] by simp
qed simp

subsection \<open>Compare and branch\<close>

lemma CheckCondition_bits:
  "CheckCondition c 0 \<longleftrightarrow> bit (rflags c) 11" "CheckCondition c 1 \<longleftrightarrow> \<not> bit (rflags c) 11"
  "CheckCondition c 2 \<longleftrightarrow> bit (rflags c) 0" "CheckCondition c 3 \<longleftrightarrow> \<not> bit (rflags c) 0"
  "CheckCondition c 4 \<longleftrightarrow> bit (rflags c) 6" "CheckCondition c 5 \<longleftrightarrow> \<not> bit (rflags c) 6"
  "CheckCondition c 6 \<longleftrightarrow> bit (rflags c) 0 \<or> bit (rflags c) 6"
  "CheckCondition c 7 \<longleftrightarrow> \<not> bit (rflags c) 0 \<and> \<not> bit (rflags c) 6"
  "CheckCondition c 8 \<longleftrightarrow> bit (rflags c) 7" "CheckCondition c 9 \<longleftrightarrow> \<not> bit (rflags c) 7"
  "CheckCondition c 0xc \<longleftrightarrow> bit (rflags c) 7 \<noteq> bit (rflags c) 11"
  "CheckCondition c 0xd \<longleftrightarrow> bit (rflags c) 7 = bit (rflags c) 11"
  "CheckCondition c 0xe \<longleftrightarrow> bit (rflags c) 6 \<or> bit (rflags c) 7 \<noteq> bit (rflags c) 11"
  "CheckCondition c 0xf \<longleftrightarrow> \<not> bit (rflags c) 6 \<and> bit (rflags c) 7 = bit (rflags c) 11"
  by (simp_all add: CheckCondition_def flag_tests Let_def)

lemma uval_masked: "uval w (v AND WidthMask w) = uval w v"
  by (simp add: uval_def and_WidthMask)

lemma sval_masked: "0 < w \<Longrightarrow> w \<le> 64 \<Longrightarrow> sval w (v AND WidthMask w) = sval w v"
  by (simp add: sval_uval uval_def and_WidthMask bit_take_bit_iff)

lemma sval_inj: "0 < w \<Longrightarrow> w \<le> 64 \<Longrightarrow> sval w l = sval w r \<longleftrightarrow> uval w l = uval w r"
  using uval_range [of w l] uval_range [of w r] bit_uval [of w l] bit_uval [of w r]
  by (auto simp: sval_uval split: if_splits)

lemma CheckCondition_advance: "CheckCondition (advance c n) k = CheckCondition c k"
  by (simp add: CheckCondition_def advance_def)

lemma rflags_advance: "rflags (advance c n) = rflags c"
  by (simp add: advance_def)

text \<open>The flags of an addition or a subtraction, read by the conditions.\<close>

lemma subtract_conditions:
  assumes w: "0 < w" "w \<le> 64"
  shows "let c' = UpdateArithmeticFlags c l r ((l - r) AND WidthMask w) w True in
     (CheckCondition c' 2 \<longleftrightarrow> uval w l < uval w r) \<and> (CheckCondition c' 3 \<longleftrightarrow> uval w r \<le> uval w l) \<and>
     (CheckCondition c' 4 \<longleftrightarrow> uval w l = uval w r) \<and> (CheckCondition c' 5 \<longleftrightarrow> uval w l \<noteq> uval w r) \<and>
     (CheckCondition c' 6 \<longleftrightarrow> uval w l \<le> uval w r) \<and> (CheckCondition c' 7 \<longleftrightarrow> uval w r < uval w l) \<and>
     (CheckCondition c' 0xc \<longleftrightarrow> sval w l < sval w r) \<and> (CheckCondition c' 0xd \<longleftrightarrow> sval w r \<le> sval w l) \<and>
     (CheckCondition c' 0xe \<longleftrightarrow> sval w l \<le> sval w r) \<and> (CheckCondition c' 0xf \<longleftrightarrow> sval w r < sval w l)"
proof -
  note f = subtract_flags [OF w, where c = c and l = l and r = r]
  have eq: "bit (rflags (UpdateArithmeticFlags c l r ((l - r) AND WidthMask w) w True)) 7 =
      bit (rflags (UpdateArithmeticFlags c l r ((l - r) AND WidthMask w) w True)) 11 \<longleftrightarrow> sval w r \<le> sval w l"
    using f(3) by linarith
  show ?thesis
    unfolding Let_def CheckCondition_bits eq f(1,2) using sval_inj [OF w, of l r] by auto
qed

end
