(* ===== verification/Orbit_SlotVector.thy ===== *)
theory Orbit_SlotVector
  imports Orbit_Prelude
begin

text \<open>
  The container of kernel objects (\<^verbatim>\<open>src/common/slot_vector.h\<close>): values with stable indices, a
  bitset that says which slots are in use, and a stack of free indices.  Indices are \<^verbatim>\<open>u32\<close>
  values; reading a bit behind the bitset is out of bounds and yields \<open>None\<close>.

  The locale \<open>handle_table\<close> states what the users of the container rely on; the interpretation
  \<open>sv\<close> discharges it for the container.
\<close>

subsection \<open>The container\<close>

record 'a SlotVector =
  sv_values :: "'a option list"
  sv_values_capacity :: nat
  sv_stored_bitset :: "64 word list"
  sv_free_list :: "nat list"

definition SetStorageBit :: "nat \<Rightarrow> 'a SlotVector \<Rightarrow> 'a SlotVector" where
  "SetStorageBit index v = v\<lparr>sv_stored_bitset := (sv_stored_bitset v)
     [index div 64 := sv_stored_bitset v ! (index div 64) OR push_bit (index mod 64) 1]\<rparr>"

definition ResetStorageBit :: "nat \<Rightarrow> 'a SlotVector \<Rightarrow> 'a SlotVector" where
  "ResetStorageBit index v = v\<lparr>sv_stored_bitset := (sv_stored_bitset v)
     [index div 64 := sv_stored_bitset v ! (index div 64) AND NOT (push_bit (index mod 64) 1)]\<rparr>"

definition ReadStorageBit :: "'a SlotVector \<Rightarrow> nat \<Rightarrow> bool option" where
  "ReadStorageBit v index =
     (if index div 64 < length (sv_stored_bitset v)
      then Some (drop_bit (index mod 64) (sv_stored_bitset v ! (index div 64)) AND 1 \<noteq> 0) else None)"

definition is_allocated :: "'a SlotVector \<Rightarrow> nat \<Rightarrow> bool option" where
  "is_allocated v slot = ReadStorageBit v slot"

definition Reserve :: "nat \<Rightarrow> 'a SlotVector \<Rightarrow> 'a SlotVector" where
  "Reserve new_capacity v =
     (let new_values = map (\<lambda>i. if ReadStorageBit v i = Some True then sv_values v ! i else None) [0 ..< new_capacity];
          words = (new_capacity + 63) div 64
      in v\<lparr>sv_values := new_values,
           sv_stored_bitset := take words (sv_stored_bitset v) @ replicate (words - length (sv_stored_bitset v)) 0,
           sv_free_list := sv_free_list v @ rev [sv_values_capacity v ..< new_capacity],
           sv_values_capacity := new_capacity\<rparr>)"

definition InitialCapacity :: nat where "InitialCapacity = 2048"

definition SlotVector_empty :: "'a SlotVector" where
  "SlotVector_empty = Reserve InitialCapacity
     \<lparr>sv_values = [], sv_values_capacity = 0, sv_stored_bitset = [], sv_free_list = []\<rparr>"

definition FreeValueIndex :: "'a SlotVector \<Rightarrow> nat \<times> 'a SlotVector" where
  "FreeValueIndex v =
     (let v1 = (if sv_free_list v = []
                then Reserve (if sv_values_capacity v \<noteq> 0 then 2 * sv_values_capacity v else 1) v else v)
      in (last (sv_free_list v1), v1\<lparr>sv_free_list := butlast (sv_free_list v1)\<rparr>))"

definition sv_insert :: "'a \<Rightarrow> 'a SlotVector \<Rightarrow> nat \<times> 'a SlotVector" where
  "sv_insert x v =
     (let (index, v1) = FreeValueIndex v
      in (index, SetStorageBit index (v1\<lparr>sv_values := (sv_values v1)[index := Some x]\<rparr>)))"

definition sv_erase :: "nat \<Rightarrow> 'a SlotVector \<Rightarrow> 'a SlotVector" where
  "sv_erase slot v = ResetStorageBit slot (v\<lparr>sv_values := (sv_values v)[slot := None], sv_free_list := sv_free_list v @ [slot]\<rparr>)"

definition sv_size :: "'a SlotVector \<Rightarrow> nat" where
  "sv_size v = sv_values_capacity v - length (sv_free_list v)"

text \<open>\<^verbatim>\<open>operator[]\<close> of an allocated slot, and an update of the value it refers to.\<close>

definition sv_at :: "'a SlotVector \<Rightarrow> nat \<Rightarrow> 'a option" where
  "sv_at v slot = (if slot < length (sv_values v) then sv_values v ! slot else None)"

definition sv_put :: "nat \<Rightarrow> 'a \<Rightarrow> 'a SlotVector \<Rightarrow> 'a SlotVector" where
  "sv_put slot x v = v\<lparr>sv_values := (sv_values v)[slot := Some x]\<rparr>"

subsection \<open>Interface\<close>

locale handle_table =
  fixes at :: "'t \<Rightarrow> nat \<Rightarrow> 'a option"
    and ins :: "'a \<Rightarrow> 't \<Rightarrow> nat \<times> 't"
    and erase :: "nat \<Rightarrow> 't \<Rightarrow> 't"
    and put :: "nat \<Rightarrow> 'a \<Rightarrow> 't \<Rightarrow> 't"
    and allocated :: "'t \<Rightarrow> nat \<Rightarrow> bool option"
    and inv :: "'t \<Rightarrow> bool"
  assumes insert_inv: "inv t \<Longrightarrow> ins x t = (i, t') \<Longrightarrow> inv t'"
    and insert_fresh: "inv t \<Longrightarrow> ins x t = (i, t') \<Longrightarrow> at t i = None"
    and at_insert: "inv t \<Longrightarrow> ins x t = (i, t') \<Longrightarrow> at t' = (at t)(i \<mapsto> x)"
    and erase_inv: "inv t \<Longrightarrow> at t i \<noteq> None \<Longrightarrow> inv (erase i t)"
    and at_erase: "inv t \<Longrightarrow> at t i \<noteq> None \<Longrightarrow> at (erase i t) = (at t)(i := None)"
    and put_inv: "inv t \<Longrightarrow> at t i \<noteq> None \<Longrightarrow> inv (put i x t)"
    and at_put: "inv t \<Longrightarrow> at t i \<noteq> None \<Longrightarrow> at (put i x t) = (at t)(i \<mapsto> x)"
    and allocated_at: "inv t \<Longrightarrow> allocated t i = Some b \<Longrightarrow> b = (at t i \<noteq> None)"
    and at_allocated: "inv t \<Longrightarrow> at t i \<noteq> None \<Longrightarrow> allocated t i = Some True"
    and erase_in_range: "inv t \<Longrightarrow> at t i \<noteq> None \<Longrightarrow> allocated (erase i t) i \<noteq> None"
begin

text \<open>A handle stays valid, with its object, while other objects come and go.\<close>

lemma insert_keeps:
  assumes "inv t" and "ins x t = (i, t')" and "at t j = Some y"
  shows "at t' j = Some y" and "i \<noteq> j"
  using insert_fresh [OF assms(1,2)] at_insert [OF assms(1,2)] assms(3) by auto

lemma erase_keeps:
  assumes "inv t" and "at t i \<noteq> None" and "at t j = Some y" and "i \<noteq> j"
  shows "at (erase i t) j = Some y"
  using at_erase [OF assms(1,2)] assms(3,4) by simp

text \<open>An erased handle is recognised as such.\<close>

lemma erased_unallocated:
  assumes "inv t" and "at t i \<noteq> None"
  shows "allocated (erase i t) i = Some False"
proof -
  obtain b where b: "allocated (erase i t) i = Some b" using erase_in_range [OF assms] by auto
  then show ?thesis using allocated_at [OF erase_inv [OF assms] b] at_erase [OF assms] by simp
qed

end

subsection \<open>The container provides it\<close>

text \<open>
  The bits, the values and the free list agree: a slot is in use exactly when its bit is set, and
  free exactly when it is on the free list, once.
\<close>

definition sv_ok :: "'a SlotVector \<Rightarrow> bool" where
  "sv_ok v \<longleftrightarrow> length (sv_values v) = sv_values_capacity v \<and>
     length (sv_stored_bitset v) = (sv_values_capacity v + 63) div 64 \<and>
     distinct (sv_free_list v) \<and>
     (\<forall>i. i \<in> set (sv_free_list v) \<longleftrightarrow> i < sv_values_capacity v \<and> sv_values v ! i = None) \<and>
     (\<forall>i < 64 * length (sv_stored_bitset v). ReadStorageBit v i = Some (sv_at v i \<noteq> None))"

lemma words_bound: "(i::nat) < n \<Longrightarrow> i div 64 < (n + 63) div 64"
  by (simp add: less_mult_imp_div_less div_less_iff_less_mult)

lemma bit_in_range: "i div 64 < l \<longleftrightarrow> i < 64 * (l::nat)"
  by (simp add: div_less_iff_less_mult mult.commute)

lemma ReadStorageBit_alt:
  "ReadStorageBit v i = (if i < 64 * length (sv_stored_bitset v)
     then Some (bit (sv_stored_bitset v ! (i div 64)) (i mod 64)) else None)"
  by (simp add: ReadStorageBit_def bit_in_range bit_iff_odd_drop_bit and_one_eq odd_iff_mod_2_eq_one)

lemma bit_slot: "bit (2 ^ k :: 64 word) m \<longleftrightarrow> m = k \<and> k < 64"
  by (auto simp: bit_exp_iff)

lemma slot_eq: "i div 64 = j div 64 \<Longrightarrow> i mod 64 = j mod 64 \<Longrightarrow> i = (j::nat)"
  by (metis div_mult_mod_eq)

lemma SetStorageBit_read:
  assumes "i < 64 * length (sv_stored_bitset v)"
  shows "ReadStorageBit (SetStorageBit i v) j = (if j = i then Some True else ReadStorageBit v j)"
proof (cases "j div 64 = i div 64")
  case True
  then show ?thesis using assms slot_eq [of j i]
    by (auto simp: ReadStorageBit_alt bit_in_range SetStorageBit_def bit_or_iff bit_slot)
next
  case False
  then show ?thesis by (auto simp: ReadStorageBit_def SetStorageBit_def)
qed

lemma ResetStorageBit_read:
  assumes "i < 64 * length (sv_stored_bitset v)"
  shows "ReadStorageBit (ResetStorageBit i v) j = (if j = i then Some False else ReadStorageBit v j)"
proof (cases "j div 64 = i div 64")
  case True
  then show ?thesis using assms slot_eq [of j i]
    by (auto simp: ReadStorageBit_alt bit_in_range ResetStorageBit_def bit_and_iff bit_not_iff bit_slot)
next
  case False
  then show ?thesis by (auto simp: ReadStorageBit_def ResetStorageBit_def)
qed

lemma storage_bit_frame [simp]:
  "sv_values (SetStorageBit i v) = sv_values v" "sv_values_capacity (SetStorageBit i v) = sv_values_capacity v"
  "sv_free_list (SetStorageBit i v) = sv_free_list v"
  "length (sv_stored_bitset (SetStorageBit i v)) = length (sv_stored_bitset v)"
  "sv_values (ResetStorageBit i v) = sv_values v" "sv_values_capacity (ResetStorageBit i v) = sv_values_capacity v"
  "sv_free_list (ResetStorageBit i v) = sv_free_list v"
  "length (sv_stored_bitset (ResetStorageBit i v)) = length (sv_stored_bitset v)"
  by (simp_all add: SetStorageBit_def ResetStorageBit_def)

lemma read_bit_update [simp]:
  "ReadStorageBit (v\<lparr>sv_values := x\<rparr>) i = ReadStorageBit v i"
  "ReadStorageBit (v\<lparr>sv_free_list := y\<rparr>) i = ReadStorageBit v i"
  by (simp_all add: ReadStorageBit_def)

lemma sv_okD:
  assumes "sv_ok v"
  shows "length (sv_values v) = sv_values_capacity v"
    and "length (sv_stored_bitset v) = (sv_values_capacity v + 63) div 64"
    and "distinct (sv_free_list v)"
    and "i \<in> set (sv_free_list v) \<longleftrightarrow> i < sv_values_capacity v \<and> sv_at v i = None"
    and "i < 64 * length (sv_stored_bitset v) \<Longrightarrow> ReadStorageBit v i = Some (sv_at v i \<noteq> None)"
    and "sv_at v i \<noteq> None \<Longrightarrow> i < sv_values_capacity v"
  using assms by (auto simp: sv_ok_def sv_at_def split: if_splits)

lemma capacity_bits: "(i::nat) < n \<Longrightarrow> i < 64 * ((n + 63) div 64)"
  using words_bound [of i n] by (simp add: bit_in_range)

lemma Reserve_ok:
  assumes ok: "sv_ok v" and n: "sv_values_capacity v \<le> n"
  shows "sv_ok (Reserve n v)" and "sv_at (Reserve n v) = sv_at v"
    and "sv_free_list (Reserve n v) = sv_free_list v @ rev [sv_values_capacity v ..< n]"
    and "sv_values_capacity (Reserve n v) = n"
proof -
  note D = sv_okD [OF ok]
  let ?w = "(n + 63) div 64"
  have le: "length (sv_stored_bitset v) \<le> ?w" unfolding D(2) using n by (intro div_le_mono) simp
  have bits: "sv_stored_bitset (Reserve n v) = sv_stored_bitset v @ replicate (?w - length (sv_stored_bitset v)) 0"
    using le by (simp add: Reserve_def Let_def)
  have at: "sv_at (Reserve n v) i = sv_at v i" for i
  proof (cases "i < sv_values_capacity v")
    case True
    then have "ReadStorageBit v i = Some (sv_at v i \<noteq> None)" using D(5) capacity_bits [OF True] by (simp add: D(2))
    with True n D(1) show ?thesis by (auto simp: sv_at_def Reserve_def Let_def)
  next
    case False
    then have "ReadStorageBit v i \<noteq> Some True" using D(5) [of i] D(1)
      by (cases "i < 64 * length (sv_stored_bitset v)") (auto simp: sv_at_def ReadStorageBit_alt)
    with False D(1) show ?thesis by (auto simp: sv_at_def Reserve_def Let_def)
  qed
  then show "sv_at (Reserve n v) = sv_at v" by (simp add: fun_eq_iff)
  show fl: "sv_free_list (Reserve n v) = sv_free_list v @ rev [sv_values_capacity v ..< n]"
    and cap: "sv_values_capacity (Reserve n v) = n"
    by (simp_all add: Reserve_def Let_def)
  have vals: "length (sv_values (Reserve n v)) = n" by (simp add: Reserve_def Let_def)
  have none: "sv_at v i = None" if "sv_values_capacity v \<le> i" for i using D(6) [of i] that by force
  have read: "ReadStorageBit (Reserve n v) i = Some (sv_at v i \<noteq> None)" if i: "i < 64 * ?w" for i
  proof (cases "i < 64 * length (sv_stored_bitset v)")
    case True
    then have "ReadStorageBit (Reserve n v) i = ReadStorageBit v i"
      using i le by (simp add: ReadStorageBit_alt bits nth_append bit_in_range)
    with D(5) [OF True] show ?thesis by simp
  next
    case False
    then have "ReadStorageBit (Reserve n v) i = Some False"
      using i le by (simp add: ReadStorageBit_alt bits nth_append bit_in_range)
    moreover have "sv_values_capacity v \<le> i"
      using False capacity_bits [of i "sv_values_capacity v"] by (auto simp: D(2) not_less)
    ultimately show ?thesis using none by simp
  qed
  have mem: "i \<in> set (sv_free_list (Reserve n v)) \<longleftrightarrow> i < n \<and> sv_values (Reserve n v) ! i = None" for i
  proof -
    have "i < n \<Longrightarrow> sv_values (Reserve n v) ! i = sv_at v i" using at [of i] vals by (simp add: sv_at_def)
    then show ?thesis using D(4) [of i] n none [of i] by (auto simp: fl not_le)
  qed
  have "set (sv_free_list v) \<inter> {sv_values_capacity v ..< n} = {}" using D(4) by fastforce
  then have "distinct (sv_free_list (Reserve n v))" using D(3) by (simp add: fl)
  moreover have "length (sv_stored_bitset (Reserve n v)) = ?w" using le by (simp add: bits)
  ultimately show "sv_ok (Reserve n v)"
    unfolding sv_ok_def using mem read vals by (simp only: cap at) blast
qed

lemma FreeValueIndex_ok:
  assumes ok: "sv_ok v"
  obtains i v' where "FreeValueIndex v = (i, v'\<lparr>sv_free_list := butlast (sv_free_list v')\<rparr>)"
    and "sv_ok v'" and "sv_at v' = sv_at v" and "sv_free_list v' \<noteq> []" and "i = last (sv_free_list v')"
proof (cases "sv_free_list v = []")
  case True
  let ?n = "if sv_values_capacity v \<noteq> 0 then 2 * sv_values_capacity v else 1"
  have le: "sv_values_capacity v \<le> ?n" "sv_values_capacity v < ?n" by auto
  note R = Reserve_ok [OF ok le(1)]
  have "sv_free_list (Reserve ?n v) \<noteq> []" using R(3) le(2) by simp
  with True R(1,2) show thesis by (intro that [of _ "Reserve ?n v"]) (auto simp: FreeValueIndex_def Let_def)
next
  case False
  with ok show thesis by (intro that [of _ v]) (auto simp: FreeValueIndex_def Let_def)
qed

lemma SlotVector_empty_ok:
  "sv_ok (SlotVector_empty :: 'a SlotVector)" "sv_at (SlotVector_empty :: 'a SlotVector) i = None"
proof -
  let ?v = "\<lparr>sv_values = [], sv_values_capacity = 0, sv_stored_bitset = [], sv_free_list = []\<rparr> :: 'a SlotVector"
  have "sv_ok ?v" by (simp add: sv_ok_def)
  from Reserve_ok(1,2) [OF this, of InitialCapacity]
  show "sv_ok (SlotVector_empty :: 'a SlotVector)" "sv_at (SlotVector_empty :: 'a SlotVector) i = None"
    by (simp_all add: SlotVector_empty_def sv_at_def)
qed

lemma insert_ok:
  assumes ok: "sv_ok v" and i: "sv_insert x v = (i, w)"
  shows "sv_ok w" and "sv_at v i = None" and "sv_at w = (sv_at v)(i \<mapsto> x)"
proof -
  obtain j v' where fv: "FreeValueIndex v = (j, v'\<lparr>sv_free_list := butlast (sv_free_list v')\<rparr>)"
    and ok': "sv_ok v'" and at: "sv_at v' = sv_at v" and ne: "sv_free_list v' \<noteq> []" and j: "j = last (sv_free_list v')"
    by (rule FreeValueIndex_ok [OF ok]) (rule that)
  note D = sv_okD [OF ok']
  let ?u = "v'\<lparr>sv_free_list := butlast (sv_free_list v'), sv_values := (sv_values v')[j := Some x]\<rparr>"
  have ij: "i = j" and w: "w = SetStorageBit j ?u" using i fv by (auto simp: sv_insert_def)
  have jf: "j \<in> set (sv_free_list v')" using ne j by simp
  then have jc: "j < sv_values_capacity v'" and jn: "sv_at v' j = None" using D(4) by auto
  have jb: "j < 64 * length (sv_stored_bitset v')" using capacity_bits [OF jc] by (simp add: D(2))
  have fl: "set (butlast (sv_free_list v')) = set (sv_free_list v') - {j}"
    using D(3) ne j by (cases "sv_free_list v'" rule: rev_cases) auto
  have atw: "sv_at w k = ((sv_at v)(j \<mapsto> x)) k" for k
    using jc D(1) at by (auto simp: w sv_at_def fun_eq_iff split: if_splits)
  show "sv_at v i = None" using jn at ij by simp
  show "sv_at w = (sv_at v)(i \<mapsto> x)" using atw ij by (simp add: fun_eq_iff)
  have read: "ReadStorageBit w k = Some (sv_at w k \<noteq> None)" if "k < 64 * length (sv_stored_bitset v')" for k
    using that D(5) [OF that] jb at atw [of k] unfolding w by (subst SetStorageBit_read) auto
  have mem: "k \<in> set (sv_free_list w) \<longleftrightarrow> k < sv_values_capacity w \<and> sv_values w ! k = None" for k
    using D(4) [of k] D(1) fl jc by (auto simp: w sv_at_def nth_list_update split: if_splits)
  have "distinct (sv_free_list w)" using D(3) by (simp add: w distinct_butlast)
  with read mem D(1,2) show "sv_ok w" unfolding sv_ok_def by (simp add: w) 
qed

lemma erase_ok:
  assumes ok: "sv_ok v" and i: "sv_at v i \<noteq> None"
  shows "sv_ok (sv_erase i v)" and "sv_at (sv_erase i v) = (sv_at v)(i := None)"
proof -
  note D = sv_okD [OF ok]
  have ic: "i < sv_values_capacity v" by (rule D(6) [OF i])
  have ib: "i < 64 * length (sv_stored_bitset v)" using capacity_bits [OF ic] by (simp add: D(2))
  have fresh: "i \<notin> set (sv_free_list v)" using D(4) [of i] i by simp
  let ?w = "sv_erase i v"
  have at: "sv_at ?w k = ((sv_at v)(i := None)) k" for k
    using ic D(1) by (auto simp: sv_erase_def sv_at_def nth_list_update)
  then show "sv_at ?w = (sv_at v)(i := None)" by (simp add: fun_eq_iff)
  have read: "ReadStorageBit ?w k = Some (sv_at ?w k \<noteq> None)" if "k < 64 * length (sv_stored_bitset v)" for k
    using that D(5) [OF that] ib at [of k] unfolding sv_erase_def by (subst ResetStorageBit_read) auto
  have mem: "k \<in> set (sv_free_list ?w) \<longleftrightarrow> k < sv_values_capacity ?w \<and> sv_values ?w ! k = None" for k
    using D(4) [of k] D(1) ic by (auto simp: sv_erase_def sv_at_def nth_list_update)
  have "distinct (sv_free_list ?w)" using D(3) fresh by (simp add: sv_erase_def)
  with read mem D(1,2) show "sv_ok ?w" unfolding sv_ok_def by (simp add: sv_erase_def)
qed

lemma put_ok:
  assumes ok: "sv_ok v" and i: "sv_at v i \<noteq> None"
  shows "sv_ok (sv_put i x v)" and "sv_at (sv_put i x v) = (sv_at v)(i \<mapsto> x)"
proof -
  note D = sv_okD [OF ok]
  have ic: "i < sv_values_capacity v" by (rule D(6) [OF i])
  have at: "sv_at (sv_put i x v) k = ((sv_at v)(i \<mapsto> x)) k" for k
    using ic D(1) by (auto simp: sv_put_def sv_at_def nth_list_update)
  then show "sv_at (sv_put i x v) = (sv_at v)(i \<mapsto> x)" by (simp add: fun_eq_iff)
  have read: "ReadStorageBit v k = Some (sv_at (sv_put i x v) k \<noteq> None)" if "k < 64 * length (sv_stored_bitset v)" for k
    using D(5) [OF that] at [of k] i by auto
  have "k \<in> set (sv_free_list v) \<longleftrightarrow> k < sv_values_capacity v \<and> (sv_values v)[i := Some x] ! k = None" for k
    using D(4) [of k] D(1) ic i by (auto simp: sv_at_def nth_list_update)
  with read D(1-3) show "sv_ok (sv_put i x v)" unfolding sv_ok_def by (simp add: sv_put_def)
qed

interpretation sv: handle_table sv_at sv_insert sv_erase sv_put is_allocated sv_ok
proof (unfold_locales, goal_cases)
  case (8 v i b)
  then show ?case using sv_okD(5) [OF 8(1), of i]
    by (cases "i < 64 * length (sv_stored_bitset v)") (auto simp: is_allocated_def ReadStorageBit_alt)
next
  case (9 v i)
  then have "i < 64 * length (sv_stored_bitset v)"
    using capacity_bits [OF sv_okD(6) [OF 9]] by (simp add: sv_okD(2) [OF 9(1)])
  with 9 show ?case by (simp add: is_allocated_def sv_okD(5) [OF 9(1)])
next
  case (10 v i)
  then have "i div 64 < length (sv_stored_bitset v)"
    using words_bound [OF sv_okD(6) [OF 10]] by (simp add: sv_okD(2) [OF 10(1)])
  then show ?case by (simp add: is_allocated_def ReadStorageBit_def sv_erase_def ResetStorageBit_def)
qed (auto dest: insert_ok erase_ok put_ok)

text \<open>The number of objects.\<close>

lemma sv_size_count:
  assumes ok: "sv_ok v"
  shows "sv_size v = card {i. sv_at v i \<noteq> None}"
proof -
  note D = sv_okD [OF ok]
  have "{i. sv_at v i \<noteq> None} = {..< sv_values_capacity v} - set (sv_free_list v)"
    using D(4,6) by auto
  moreover have "set (sv_free_list v) \<subseteq> {..< sv_values_capacity v}" using D(4) by auto
  ultimately show ?thesis
    using distinct_card [OF D(3)] by (simp add: sv_size_def card_Diff_subset)
qed

end
