(* ===== verification/Orbit_Semaphore.thy ===== *)
theory Orbit_Semaphore
  imports Orbit_SlotVector
begin

text \<open>
  Kernel semaphores (\<^verbatim>\<open>src/core/libraries/kernel/threads/semaphore.cpp\<close>).  The critical sections of
  \<^verbatim>\<open>OrbisSem\<close> (everything between taking and releasing \<^verbatim>\<open>mutex\<close>) are functions on the state; a call
  of \<^verbatim>\<open>Wait\<close> that blocks has two of them, \<open>Wait_enter\<close> up to the point where the lock is given up and
  \<open>Wait_leave\<close> from the point where it is taken again.  The threads interleave these sections in any
  order: \<open>sem_step\<close>.

  A \<^verbatim>\<open>WaitingThread\<close> object lives on the stack of its thread, so objects are named by threads; the
  list of waiters holds these names, as the list of pointers does in the code.  Counts are \<^verbatim>\<open>s32\<close>
  values; sums wrap around.
\<close>

subsection \<open>Data\<close>

text \<open>\<open>wt_timeout\<close> is the argument of the call of \<^verbatim>\<open>Wait\<close> that owns the object.\<close>

record WaitingThread =
  wt_sem :: nat
  wt_priority :: nat
  wt_need_count :: s32
  wt_was_signaled :: bool
  wt_was_deleted :: bool
  wt_was_canceled :: bool
  wt_timeout :: "nat option"

record OrbisSem =
  os_wait_list :: "nat list"
  os_waiters :: "nat \<Rightarrow> WaitingThread option"
  os_name :: string
  os_token_count :: s32
  os_max_count :: s32
  os_init_count :: s32
  os_is_fifo :: bool

definition OrbisSem_new :: "s32 \<Rightarrow> s32 \<Rightarrow> string \<Rightarrow> bool \<Rightarrow> OrbisSem" where
  "OrbisSem_new init_count max_count name is_fifo =
     \<lparr>os_wait_list = [], os_waiters = Map.empty, os_name = name, os_token_count = init_count,
      os_max_count = max_count, os_init_count = init_count, os_is_fifo = is_fifo\<rparr>"

definition WaitingThread_new :: "s32 \<Rightarrow> bool \<Rightarrow> nat \<Rightarrow> nat option \<Rightarrow> WaitingThread" where
  "WaitingThread_new need_count is_fifo prio timeout =
     \<lparr>wt_sem = 0, wt_priority = (if is_fifo then 0 else prio), wt_need_count = need_count,
      wt_was_signaled = False, wt_was_deleted = False, wt_was_canceled = False, wt_timeout = timeout\<rparr>"

definition GetResult :: "WaitingThread \<Rightarrow> s32" where
  "GetResult w =
     (if wt_was_signaled w then ORBIS_OK
      else if wt_was_deleted w then ORBIS_KERNEL_ERROR_EACCES
      else if wt_was_canceled w then ORBIS_KERNEL_ERROR_ECANCELED
      else ORBIS_KERNEL_ERROR_ETIMEDOUT)"

subsection \<open>Critical sections\<close>

fun insert_by_priority :: "(nat \<Rightarrow> nat) \<Rightarrow> nat \<Rightarrow> nat list \<Rightarrow> nat list" where
  "insert_by_priority prio t [] = [t]"
| "insert_by_priority prio t (x # xs) =
     (if prio x \<le> prio t then x # insert_by_priority prio t xs else t # x # xs)"

definition prio_of :: "OrbisSem \<Rightarrow> nat \<Rightarrow> nat" where
  "prio_of s t = (case os_waiters s t of None \<Rightarrow> 0 | Some w \<Rightarrow> wt_priority w)"

definition AddWaiter :: "nat \<Rightarrow> WaitingThread \<Rightarrow> OrbisSem \<Rightarrow> OrbisSem" where
  "AddWaiter t w s =
     (let s1 = s\<lparr>os_waiters := (os_waiters s)(t \<mapsto> w)\<rparr>
      in s1\<lparr>os_wait_list := (if os_is_fifo s then os_wait_list s @ [t]
                             else insert_by_priority (prio_of s1) t (os_wait_list s))\<rparr>)"

text \<open>\<open>Some r\<close> returns at once; \<open>None\<close> means that the thread now waits.\<close>

definition Wait_enter :: "nat \<Rightarrow> nat \<Rightarrow> bool \<Rightarrow> s32 \<Rightarrow> nat option \<Rightarrow> OrbisSem \<Rightarrow> s32 option \<times> OrbisSem" where
  "Wait_enter t prio can_block need_count timeout s =
     (if os_token_count s \<ge> need_count
      then (Some ORBIS_OK, s\<lparr>os_token_count := wrap_s32 (os_token_count s - need_count)\<rparr>)
      else if \<not> can_block then (Some ORBIS_KERNEL_ERROR_EBUSY, s)
      else if timeout = Some 0 then (Some ORBIS_KERNEL_ERROR_ETIMEDOUT, s)
      else (None, AddWaiter t (WaitingThread_new need_count (os_is_fifo s) prio timeout) s))"

text \<open>
  The second section; \<open>elapsed\<close> is the time spent waiting, in microseconds.  The second part of
  the result is what is written back to \<^verbatim>\<open>*timeout\<close>, a \<^verbatim>\<open>u32\<close>.
\<close>

definition remaining_time :: "WaitingThread \<Rightarrow> nat \<Rightarrow> nat option" where
  "remaining_time w elapsed =
     map_option (\<lambda>timeout. if wt_was_signaled w then nat ((int timeout - int elapsed) mod 2 ^ 32) else 0)
       (wt_timeout w)"

definition Wait_leave :: "nat \<Rightarrow> WaitingThread \<Rightarrow> nat \<Rightarrow> OrbisSem \<Rightarrow> s32 \<times> nat option \<times> OrbisSem" where
  "Wait_leave t w elapsed s =
     (let result = GetResult w;
          s1 = s\<lparr>os_waiters := (os_waiters s)(t := None)\<rparr>
      in (result, remaining_time w elapsed,
          if result = ORBIS_KERNEL_ERROR_ETIMEDOUT
          then s1\<lparr>os_wait_list := remove1 t (os_wait_list s)\<rparr> else s1))"

definition release_signaled :: "WaitingThread \<Rightarrow> WaitingThread" where
  "release_signaled w = w\<lparr>wt_was_signaled := True, wt_sem := Suc (wt_sem w)\<rparr>"

fun signal_loop :: "nat list \<Rightarrow> s32 \<Rightarrow> (nat \<Rightarrow> WaitingThread option) \<Rightarrow>
    nat list \<times> s32 \<times> (nat \<Rightarrow> WaitingThread option)" where
  "signal_loop [] token_count W = ([], token_count, W)"
| "signal_loop (t # ts) token_count W =
     (case W t of
        None \<Rightarrow> signal_loop ts token_count W
      | Some w \<Rightarrow>
          if wt_need_count w > token_count
          then let (rest, tc, W') = signal_loop ts token_count W in (t # rest, tc, W')
          else signal_loop ts (wrap_s32 (token_count - wt_need_count w)) (W(t \<mapsto> release_signaled w)))"

definition Signal :: "s32 \<Rightarrow> OrbisSem \<Rightarrow> bool \<times> OrbisSem" where
  "Signal signal_count s =
     (if wrap_s32 (os_token_count s + signal_count) > os_max_count s then (False, s)
      else let (rest, tc, W) = signal_loop (os_wait_list s) (wrap_s32 (os_token_count s + signal_count)) (os_waiters s)
           in (True, s\<lparr>os_wait_list := rest, os_token_count := tc, os_waiters := W\<rparr>))"

definition release_canceled :: "WaitingThread \<Rightarrow> WaitingThread" where
  "release_canceled w = w\<lparr>wt_was_canceled := True, wt_sem := Suc (wt_sem w)\<rparr>"

definition release_deleted :: "WaitingThread \<Rightarrow> WaitingThread" where
  "release_deleted w = w\<lparr>wt_was_deleted := True, wt_sem := Suc (wt_sem w)\<rparr>"

definition release_listed :: "(WaitingThread \<Rightarrow> WaitingThread) \<Rightarrow> OrbisSem \<Rightarrow> OrbisSem" where
  "release_listed f s =
     s\<lparr>os_waiters := fold (\<lambda>t W. W(t := map_option f (W t))) (os_wait_list s) (os_waiters s), os_wait_list := []\<rparr>"

text \<open>The result has the number of waiting threads.\<close>

definition Cancel :: "s32 \<Rightarrow> OrbisSem \<Rightarrow> s32 \<times> nat \<times> OrbisSem" where
  "Cancel set_count s =
     (ORBIS_OK, length (os_wait_list s),
      (release_listed release_canceled s)
        \<lparr>os_token_count := (if set_count < 0 then os_init_count s else set_count)\<rparr>)"

definition Delete :: "OrbisSem \<Rightarrow> OrbisSem" where
  "Delete s = release_listed release_deleted s"

subsection \<open>Interleavings\<close>

datatype sem_event =
  WaitCall nat s32 "nat option" "s32 option"
| WaitReturn nat s32 s32 "nat option"
| SignalCall s32 bool
| CancelCall s32
| DeleteCall

inductive sem_step :: "OrbisSem \<Rightarrow> sem_event \<Rightarrow> OrbisSem \<Rightarrow> bool" where
  enter: "os_waiters s t = None \<Longrightarrow> Wait_enter t prio can_block need timeout s = (r, s') \<Longrightarrow>
    sem_step s (WaitCall t need timeout r) s'"
| wake: "os_waiters s t = Some w \<Longrightarrow> wt_sem w > 0 \<Longrightarrow> Wait_leave t w elapsed s = (r, left, s') \<Longrightarrow>
    sem_step s (WaitReturn t (wt_need_count w) r left) s'"
| expire: "os_waiters s t = Some w \<Longrightarrow> wt_timeout w = Some timeout \<Longrightarrow> timeout \<le> elapsed \<Longrightarrow>
    Wait_leave t w elapsed s = (r, left, s') \<Longrightarrow> sem_step s (WaitReturn t (wt_need_count w) r left) s'"
| signal: "Signal c s = (b, s') \<Longrightarrow> sem_step s (SignalCall c b) s'"
| cancel: "Cancel c s = (r, n, s') \<Longrightarrow> sem_step s (CancelCall c) s'"
| delete: "sem_step s DeleteCall (Delete s)"

inductive_cases sem_stepE: "sem_step s e s'"

text \<open>\<open>WaitReturn\<close> carries the count the call asked for, its result and the time left.\<close>

inductive sem_run :: "OrbisSem \<Rightarrow> sem_event list \<Rightarrow> OrbisSem \<Rightarrow> bool" where
  none: "sem_run s [] s"
| more: "sem_run s es s' \<Longrightarrow> sem_step s' e s'' \<Longrightarrow> sem_run s (es @ [e]) s''"

text \<open>
  The code checks no argument of these calls.  \<open>sensible B\<close>: nobody asks for a negative number of tokens, and signals
  add tokens without overflow when there are at most \<open>B\<close>.
\<close>

fun sensible :: "s32 \<Rightarrow> sem_event \<Rightarrow> bool" where
  "sensible B (WaitCall t need timeout r) \<longleftrightarrow> 0 \<le> need"
| "sensible B (SignalCall c b) \<longleftrightarrow> 0 \<le> c \<and> B + c < 2 ^ 31"
| "sensible B e \<longleftrightarrow> True"

text \<open>The maximum, or the largest count that a cancellation has set.\<close>

fun count_limit :: "s32 \<Rightarrow> sem_event list \<Rightarrow> s32" where
  "count_limit m [] = m"
| "count_limit m (CancelCall c # es) = max c (count_limit m es)"
| "count_limit m (e # es) = count_limit m es"

lemma count_limit_ge: "m \<le> count_limit m es" "CancelCall c \<in> set es \<Longrightarrow> c \<le> count_limit m es"
  by (induction m es rule: count_limit.induct) auto

subsection \<open>The invariant\<close>

definition idle :: "WaitingThread \<Rightarrow> bool" where
  "idle w \<longleftrightarrow> \<not> wt_was_signaled w \<and> \<not> wt_was_deleted w \<and> \<not> wt_was_canceled w"

text \<open>
  Whatever the arguments are: the list names exactly the objects that nobody has released, each once; an object has
  been released at most once, for one reason; and with priorities the list is ordered by them.
\<close>

definition sem_shape :: "OrbisSem \<Rightarrow> bool" where
  "sem_shape s \<longleftrightarrow> distinct (os_wait_list s) \<and>
     (\<forall>t. t \<in> set (os_wait_list s) \<longleftrightarrow> (\<exists>w. os_waiters s t = Some w \<and> idle w)) \<and>
     (\<forall>t w. os_waiters s t = Some w \<longrightarrow> wt_sem w = (if idle w then 0 else 1)) \<and>
     (\<not> os_is_fifo s \<longrightarrow> sorted (map (prio_of s) (os_wait_list s))) \<and> finite (dom (os_waiters s))"

text \<open>
  With sensible arguments: the tokens stay between 0 and \<open>B\<close>, and no waiter on the list could be served from the tokens
  at hand (no wake-up is lost).
\<close>

definition tokens_ok :: "s32 \<Rightarrow> OrbisSem \<Rightarrow> bool" where
  "tokens_ok B s \<longleftrightarrow>
     (\<forall>t w. os_waiters s t = Some w \<longrightarrow> 0 \<le> wt_need_count w \<and> (idle w \<longrightarrow> os_token_count s < wt_need_count w)) \<and>
     0 \<le> os_token_count s \<and> os_token_count s \<le> B \<and> os_max_count s \<le> B \<and> B < 2 ^ 31 \<and>
     0 \<le> os_init_count s \<and> os_init_count s \<le> B"

definition sem_ok :: "OrbisSem \<Rightarrow> bool" where
  "sem_ok s \<longleftrightarrow> sem_shape s \<and> tokens_ok (os_max_count s) s"

subsection \<open>Waking up waiters\<close>

definition need_of :: "(nat \<Rightarrow> WaitingThread option) \<Rightarrow> nat \<Rightarrow> s32" where
  "need_of W t = (case W t of None \<Rightarrow> 0 | Some w \<Rightarrow> wt_need_count w)"

text \<open>The threads of \<open>ts\<close> that a pass over the list serves, and the tokens they take.\<close>

definition served :: "nat list \<Rightarrow> nat list \<Rightarrow> nat list" where
  "served ts rest = filter (\<lambda>t. t \<notin> set rest) ts"

definition taken :: "(nat \<Rightarrow> WaitingThread option) \<Rightarrow> nat list \<Rightarrow> s32" where
  "taken W ts = sum_list (map (need_of W) ts)"

text \<open>
  One pass: the order of the remaining waiters is kept, exactly the others are released, the tokens
  go down by what these take, and every waiter is served if and only if its need is covered by what
  those before it have left.
\<close>

definition pass_ok :: "nat list \<Rightarrow> s32 \<Rightarrow> (nat \<Rightarrow> WaitingThread option) \<Rightarrow> nat list \<Rightarrow> s32 \<Rightarrow>
    (nat \<Rightarrow> WaitingThread option) \<Rightarrow> bool" where
  "pass_ok ts tok W rest tc W' \<longleftrightarrow>
     rest = filter (\<lambda>t. t \<in> set rest) ts \<and> 0 \<le> tc \<and> tc \<le> tok \<and> tc = tok - taken W (served ts rest) \<and>
     (\<forall>t. W' t = (if t \<in> set (served ts rest) then map_option release_signaled (W t) else W t)) \<and>
     (\<forall>t \<in> set rest. tc < need_of W t) \<and>
     (\<forall>xs t ys. ts = xs @ t # ys \<longrightarrow> (t \<in> set rest \<longleftrightarrow> tok - taken W (served xs rest) < need_of W t))"

lemma pass_okD:
  assumes "pass_ok ts tok W rest tc W'"
  shows "rest = filter (\<lambda>t. t \<in> set rest) ts" and "0 \<le> tc" and "tc \<le> tok" and "tc = tok - taken W (served ts rest)"
    and "W' t = (if t \<in> set (served ts rest) then map_option release_signaled (W t) else W t)"
    and "t \<in> set rest \<Longrightarrow> tc < need_of W t"
    and "ts = xs @ t # ys \<Longrightarrow> t \<in> set rest \<longleftrightarrow> tok - taken W (served xs rest) < need_of W t"
    and "set rest \<subseteq> set ts"
  using assms unfolding pass_ok_def by (blast+, metis filter_is_subset)

lemma pass_skip:
  assumes P: "pass_ok ts tok W r tc W'" and nt: "t \<notin> set ts" and need: "tok < need_of W t"
  shows "pass_ok (t # ts) tok W (t # r) tc W'"
proof -
  note D = pass_okD [OF P]
  have sv: "served xs (t # r) = served xs r" if "t \<notin> set xs" for xs
    unfolding served_def using that by (intro filter_cong) auto
  have sv1: "served (t # xs) (t # r) = served xs (t # r)" for xs by (simp add: served_def)
  have first: "(u \<in> set (t # r)) = (tok - taken W (served xs (t # r)) < need_of W u)"
    if eq: "t # ts = xs @ u # ys" for xs u ys
  proof (cases xs)
    case Nil
    then show ?thesis using eq need by (simp add: served_def taken_def)
  next
    case (Cons x xs')
    then have "x = t" "ts = xs' @ u # ys" using eq by simp_all
    moreover have "t \<notin> set xs'" "u \<noteq> t" using nt \<open>ts = xs' @ u # ys\<close> by auto
    ultimately show ?thesis using D(7) [of xs' u ys] sv [of xs'] sv1 [of xs'] Cons by auto
  qed
  have "filter (\<lambda>u. u \<in> set (t # r)) ts = filter (\<lambda>u. u \<in> set r) ts" using nt by (intro filter_cong) auto
  then have "t # r = filter (\<lambda>u. u \<in> set (t # r)) (t # ts)" using D(1) by simp
  moreover have "served (t # ts) (t # r) = served ts r" using sv [OF nt] sv1 by simp
  moreover have "tc < need_of W t" using D(3) need by simp
  ultimately show ?thesis unfolding pass_ok_def using D(2-6) first by auto
qed

lemma pass_serve:
  assumes w: "W t = Some w" and P: "pass_ok ts (tok - wt_need_count w) (W(t \<mapsto> release_signaled w)) rest tc W'"
    and nt: "t \<notin> set ts" and need: "wt_need_count w \<le> tok" "0 \<le> wt_need_count w"
  shows "pass_ok (t # ts) tok W rest tc W'"
proof -
  let ?W = "W(t \<mapsto> release_signaled w)"
  note D = pass_okD [OF P]
  have nd: "need_of W t = wt_need_count w" using w by (simp add: need_of_def)
  have tr: "t \<notin> set rest" using D(8) nt by blast
  have nW: "need_of ?W u = need_of W u" if "u \<noteq> t" for u using that by (simp add: need_of_def)
  have sv1: "served (t # xs) rest = t # served xs rest" for xs using tr by (simp add: served_def)
  have tk: "taken ?W (served xs rest) = taken W (served xs rest)" if "t \<notin> set xs" for xs
    unfolding taken_def
  proof (intro arg_cong [of _ _ sum_list] map_cong refl)
    fix u assume "u \<in> set (served xs rest)"
    then have "u \<noteq> t" using that by (auto simp: served_def)
    then show "need_of ?W u = need_of W u" by (rule nW)
  qed
  have first: "(u \<in> set rest) = (tok - taken W (served xs rest) < need_of W u)"
    if eq: "t # ts = xs @ u # ys" for xs u ys
  proof (cases xs)
    case Nil
    then show ?thesis using eq need nd tr by (simp add: served_def taken_def)
  next
    case (Cons x xs')
    then have x: "x = t" "ts = xs' @ u # ys" using eq by simp_all
    then have "t \<notin> set xs'" "u \<noteq> t" using nt by auto
    then show ?thesis using D(7) [OF x(2)] x Cons sv1 [of xs'] tk [of xs'] nW [of u] nd by (auto simp: taken_def)
  qed
  have "rest = filter (\<lambda>t. t \<in> set rest) (t # ts)" using D(1) tr by simp
  moreover have "tc = tok - taken W (served (t # ts) rest)"
    using D(4) tk [OF nt] sv1 [of ts] nd by (simp add: taken_def)
  moreover have "W' u = (if u \<in> set (served (t # ts) rest) then map_option release_signaled (W u) else W u)" for u
    using D(5) [of u] w nt sv1 [of ts] by (auto simp: served_def)
  moreover have "tc < need_of W u" if "u \<in> set rest" for u using D(6) [OF that] nW [of u] tr that by metis
  moreover have "tc \<le> tok" "0 \<le> tc" using D(2,3) need by linarith+
  ultimately show ?thesis unfolding pass_ok_def using first by blast
qed

lemma signal_loop_pass:
  assumes "signal_loop ts tok W = (rest, tc, W')" and "distinct ts"
    and "\<forall>t \<in> set ts. \<exists>w. W t = Some w \<and> 0 \<le> wt_need_count w" and "0 \<le> tok" and "tok < 2 ^ 31"
  shows "pass_ok ts tok W rest tc W'"
  using assms
proof (induction ts tok W arbitrary: rest tc W' rule: signal_loop.induct)
  case (1 tok W)
  then show ?case by (simp add: pass_ok_def served_def taken_def)
next
  case (2 t ts tok W)
  obtain w where w: "W t = Some w" "0 \<le> wt_need_count w" using "2.prems"(3) by auto
  have nt: "t \<notin> set ts" and dis: "distinct ts" using "2.prems"(2) by auto
  show ?case
  proof (cases "wt_need_count w > tok")
    case True
    obtain r where r: "signal_loop ts tok W = (r, tc, W')" and rest: "rest = t # r"
      using "2.prems"(1) w True by (auto split: prod.splits)
    have "pass_ok ts tok W r tc W'" using "2.IH"(2) [OF w(1) True r dis] "2.prems"(3-5) by simp
    then show ?thesis unfolding rest using nt True w by (intro pass_skip) (simp_all add: need_of_def)
  next
    case False
    let ?tok = "tok - wt_need_count w"
    have tok': "wrap_s32 ?tok = ?tok" "0 \<le> ?tok" "?tok < 2 ^ 31"
      using False w(2) "2.prems"(4,5) by (simp_all add: wrap_s32_exact)
    have r: "signal_loop ts ?tok (W(t \<mapsto> release_signaled w)) = (rest, tc, W')"
      using "2.prems"(1) w False tok'(1) by simp
    have "\<forall>u \<in> set ts. \<exists>v. (W(t \<mapsto> release_signaled w)) u = Some v \<and> 0 \<le> wt_need_count v"
      using "2.prems"(3) nt by auto
    then have "pass_ok ts ?tok (W(t \<mapsto> release_signaled w)) rest tc W'"
      using "2.IH"(3) [OF w(1) False, unfolded tok'(1), OF r dis] tok'(2,3) by blast
    then show ?thesis using nt w False by (intro pass_serve) simp_all
  qed
qed


text \<open>Whatever the needs are, the pass releases exactly the waiters it takes off the list.\<close>

lemma signal_loop_shape:
  assumes "signal_loop ts tok W = (rest, tc, W')" and "distinct ts"
  shows "rest = filter (\<lambda>t. t \<in> set rest) ts \<and>
    (\<forall>t. W' t = (if t \<in> set ts \<and> t \<notin> set rest then map_option release_signaled (W t) else W t))"
  using assms
proof (induction ts tok W arbitrary: rest tc W' rule: signal_loop.induct)
  case (2 t ts tok W)
  have nt: "t \<notin> set ts" and dis: "distinct ts" using "2.prems"(2) by auto
  show ?case
  proof (cases "W t")
    case None
    then have l: "signal_loop ts tok W = (rest, tc, W')" using "2.prems"(1) by simp
    have IH: "rest = filter (\<lambda>t. t \<in> set rest) ts"
      "\<forall>t. W' t = (if t \<in> set ts \<and> t \<notin> set rest then map_option release_signaled (W t) else W t)"
      using "2.IH"(1) [OF None l dis] by blast+
    have "t \<notin> set rest" using IH(1) nt by (metis filter_is_subset subsetD)
    then show ?thesis using IH None by auto
  next
    case (Some w)
    show ?thesis
    proof (cases "wt_need_count w > tok")
      case True
      obtain r where r: "signal_loop ts tok W = (r, tc, W')" and rest: "rest = t # r"
        using "2.prems"(1) Some True by (auto split: prod.splits)
      have IH: "r = filter (\<lambda>t. t \<in> set r) ts"
        "\<forall>t. W' t = (if t \<in> set ts \<and> t \<notin> set r then map_option release_signaled (W t) else W t)"
        using "2.IH"(2) [OF Some True r dis] by blast+
      have "filter (\<lambda>u. u \<in> set (t # r)) ts = filter (\<lambda>u. u \<in> set r) ts" using nt by (intro filter_cong) auto
      then show ?thesis using IH nt unfolding rest by auto
    next
      case False
      have r: "signal_loop ts (wrap_s32 (tok - wt_need_count w)) (W(t \<mapsto> release_signaled w)) = (rest, tc, W')"
        using "2.prems"(1) Some False by simp
      have IH: "rest = filter (\<lambda>t. t \<in> set rest) ts"
        "\<forall>u. W' u = (if u \<in> set ts \<and> u \<notin> set rest then map_option release_signaled ((W(t \<mapsto> release_signaled w)) u)
           else (W(t \<mapsto> release_signaled w)) u)"
        using "2.IH"(3) [OF Some False r dis] by blast+
      have "t \<notin> set rest" using IH(1) nt by (metis filter_is_subset subsetD)
      then show ?thesis using IH nt Some by auto
    qed
  qed
qed simp

subsection \<open>Every section keeps the invariant\<close>

lemma sem_shapeD:
  assumes "sem_shape s"
  shows "distinct (os_wait_list s)"
    and "t \<in> set (os_wait_list s) \<longleftrightarrow> (\<exists>w. os_waiters s t = Some w \<and> idle w)"
    and "os_waiters s t = Some w \<Longrightarrow> wt_sem w = (if idle w then 0 else 1)"
    and "\<not> os_is_fifo s \<Longrightarrow> sorted (map (prio_of s) (os_wait_list s))"
    and "finite (dom (os_waiters s))"
  using assms unfolding sem_shape_def by blast+

lemma tokens_okD:
  assumes "tokens_ok B s"
  shows "os_waiters s t = Some w \<Longrightarrow> 0 \<le> wt_need_count w"
    and "os_waiters s t = Some w \<Longrightarrow> idle w \<Longrightarrow> os_token_count s < wt_need_count w"
    and "0 \<le> os_token_count s" and "os_token_count s \<le> B" and "os_max_count s \<le> B" and "B < 2 ^ 31"
    and "0 \<le> os_init_count s" and "os_init_count s \<le> B"
  using assms unfolding tokens_ok_def by blast+

lemma set_insert_by_priority [simp]: "set (insert_by_priority prio t xs) = insert t (set xs)"
  by (induction xs) auto

lemma distinct_insert_by_priority: "t \<notin> set xs \<Longrightarrow> distinct xs \<Longrightarrow> distinct (insert_by_priority prio t xs)"
  by (induction xs) auto

lemma sorted_insert_by_priority:
  "sorted (map prio xs) \<Longrightarrow> sorted (map prio (insert_by_priority prio t xs))"
  by (induction xs) auto

lemma OrbisSem_new_shape: "sem_shape (OrbisSem_new i m name fifo)"
  by (simp add: sem_shape_def OrbisSem_new_def)

lemma OrbisSem_new_tokens: "0 \<le> i \<Longrightarrow> i \<le> m \<Longrightarrow> m \<le> B \<Longrightarrow> B < 2 ^ 31 \<Longrightarrow> tokens_ok B (OrbisSem_new i m name fifo)"
  by (simp add: tokens_ok_def OrbisSem_new_def)

lemma OrbisSem_new_ok:
  "0 \<le> i \<Longrightarrow> i \<le> m \<Longrightarrow> m < 2 ^ 31 \<Longrightarrow> sem_ok (OrbisSem_new i m name fifo)"
  using OrbisSem_new_tokens [of i m m name fifo] by (simp add: sem_ok_def OrbisSem_new_shape) (simp add: OrbisSem_new_def)

lemma AddWaiter_fields:
  "os_waiters (AddWaiter t w s) = (os_waiters s)(t \<mapsto> w)" "os_token_count (AddWaiter t w s) = os_token_count s"
  "os_max_count (AddWaiter t w s) = os_max_count s" "os_init_count (AddWaiter t w s) = os_init_count s"
  "os_is_fifo (AddWaiter t w s) = os_is_fifo s" "set (os_wait_list (AddWaiter t w s)) = insert t (set (os_wait_list s))"
  by (simp_all add: AddWaiter_def Let_def)

lemma AddWaiter_shape:
  assumes ok: "sem_shape s" and new: "os_waiters s t = None" and w: "idle w" "wt_sem w = 0"
  shows "sem_shape (AddWaiter t w s)"
proof -
  note D = sem_shapeD [OF ok]
  let ?s1 = "s\<lparr>os_waiters := (os_waiters s)(t \<mapsto> w)\<rparr>"
  have nt: "t \<notin> set (os_wait_list s)" using D(2) [of t] new by simp
  have "map (prio_of ?s1) (os_wait_list s) = map (prio_of s) (os_wait_list s)"
    using nt by (auto simp: prio_of_def)
  then have "sorted (map (prio_of ?s1) (insert_by_priority (prio_of ?s1) t (os_wait_list s)))" if "\<not> os_is_fifo s"
    using D(4) [OF that] by (intro sorted_insert_by_priority) (simp only:)
  then have "\<not> os_is_fifo s \<Longrightarrow> sorted (map (prio_of ?s1) (os_wait_list (AddWaiter t w s)))"
    by (simp add: AddWaiter_def Let_def)
  moreover have "prio_of (AddWaiter t w s) = prio_of ?s1" by (rule ext) (simp add: AddWaiter_fields prio_of_def)
  moreover have "distinct (os_wait_list (AddWaiter t w s))"
    using nt D(1) by (simp add: AddWaiter_def Let_def distinct_insert_by_priority)
  ultimately show ?thesis unfolding sem_shape_def using D new w by (auto simp: AddWaiter_fields)
qed

lemma WaitingThread_new_idle: "idle (WaitingThread_new n f p tm)" "wt_sem (WaitingThread_new n f p tm) = 0"
  "wt_need_count (WaitingThread_new n f p tm) = n"
  by (simp_all add: WaitingThread_new_def idle_def)

lemma Wait_enter_cases:
  assumes "Wait_enter t prio can_block need timeout s = (r, s')"
  obtains "need \<le> os_token_count s" "r = Some ORBIS_OK" "s' = s\<lparr>os_token_count := wrap_s32 (os_token_count s - need)\<rparr>"
  | "os_token_count s < need" "r \<noteq> Some ORBIS_OK" "s' = s"
  | "os_token_count s < need" "r = None" "s' = AddWaiter t (WaitingThread_new need (os_is_fifo s) prio timeout) s"
  using assms by (auto simp: Wait_enter_def sync_codes split: if_splits)

lemma sem_shape_token [simp]: "sem_shape (s\<lparr>os_token_count := c\<rparr>) = sem_shape s"
proof -
  have "prio_of (s\<lparr>os_token_count := c\<rparr>) = prio_of s" by (rule ext) (simp add: prio_of_def)
  then show ?thesis by (simp add: sem_shape_def)
qed

lemma Wait_enter_shape:
  assumes ok: "sem_shape s" and new: "os_waiters s t = None" and call: "Wait_enter t prio can_block need timeout s = (r, s')"
  shows "sem_shape s'"
  using call by (cases rule: Wait_enter_cases) (use ok AddWaiter_shape [OF ok new WaitingThread_new_idle(1,2)] in simp_all)

lemma Wait_enter_tokens:
  assumes ok: "tokens_ok B s" and need: "0 \<le> need" and call: "Wait_enter t prio can_block need timeout s = (r, s')"
  shows "tokens_ok B s'"
  using call
proof (cases rule: Wait_enter_cases)
  case 1
  note D = tokens_okD [OF ok]
  have "s' = s\<lparr>os_token_count := os_token_count s - need\<rparr>" using 1 D(3,4,6) need by (simp add: wrap_s32_exact)
  moreover have "os_token_count s - need < wt_need_count w" if "os_waiters s u = Some w" "idle w" for u w
    using D(2) [OF that] need by simp
  ultimately show ?thesis unfolding tokens_ok_def using D need 1(1) by simp
next
  case 3
  then show ?thesis unfolding tokens_ok_def using tokens_okD [OF ok] need by (auto simp: AddWaiter_fields WaitingThread_new_idle)
qed (simp add: ok)

lemma GetResult_timeout: "GetResult w = ORBIS_KERNEL_ERROR_ETIMEDOUT \<longleftrightarrow> idle w"
  by (simp add: GetResult_def idle_def sync_codes)

lemma Wait_leave_fields:
  assumes "Wait_leave t w el s = (r, left, s')"
  shows "os_waiters s' = (os_waiters s)(t := None)" "os_token_count s' = os_token_count s" "os_max_count s' = os_max_count s"
    "os_init_count s' = os_init_count s" "os_is_fifo s' = os_is_fifo s" "r = GetResult w"
    "os_wait_list s' = (if idle w then remove1 t (os_wait_list s) else os_wait_list s)"
  using assms by (auto simp: Wait_leave_def Let_def GetResult_timeout split: if_splits)

lemma Wait_leave_shape:
  assumes ok: "sem_shape s" and w: "os_waiters s t = Some w" and call: "Wait_leave t w el s = (r, left, s')"
  shows "sem_shape s'"
proof -
  note D = sem_shapeD [OF ok] and F = Wait_leave_fields [OF call]
  have l': "os_wait_list s' = remove1 t (os_wait_list s)"
    using F(7) D(2) [of t] w by (cases "idle w") (simp_all add: remove1_idem)
  have nt: "t \<notin> set (os_wait_list s')" unfolding l' using D(1) by simp
  have "map (prio_of s') (os_wait_list s') = map (prio_of s) (os_wait_list s')"
    using nt by (auto simp: prio_of_def F(1))
  moreover have "sorted (map (prio_of s) (os_wait_list s'))" if "\<not> os_is_fifo s"
    using D(4) [OF that] unfolding l' by (rule sorted_map_remove1)
  ultimately have so: "\<not> os_is_fifo s' \<Longrightarrow> sorted (map (prio_of s') (os_wait_list s'))" using F(5) by (simp only:) simp
  have "(u \<in> set (os_wait_list s')) = (\<exists>w. os_waiters s' u = Some w \<and> idle w)" for u
    using D(1) D(2) [of u] by (simp add: l' F(1))
  moreover have "distinct (os_wait_list s')" using D(1) by (simp add: l')
  ultimately show ?thesis unfolding sem_shape_def using D so by (simp add: F(1,5))
qed

lemma Wait_leave_tokens: "tokens_ok B s \<Longrightarrow> Wait_leave t w el s = (r, left, s') \<Longrightarrow> tokens_ok B s'"
  unfolding tokens_ok_def using Wait_leave_fields [of t w el s r left s'] by auto

lemma fold_release:
  "distinct ts \<Longrightarrow> fold (\<lambda>t W. W(t := map_option f (W t))) ts W u = (if u \<in> set ts then map_option f (W u) else W u)"
  by (induction ts arbitrary: W) auto

lemma release_listed_waiters:
  "distinct (os_wait_list s) \<Longrightarrow> os_waiters (release_listed f s) u =
     (if u \<in> set (os_wait_list s) then map_option f (os_waiters s u) else os_waiters s u)"
  unfolding release_listed_def by (simp add: fold_release cong: if_cong del: fun_upd_apply)

lemma release_listed_old:
  assumes ok: "sem_shape s" and f: "\<And>w. idle w \<Longrightarrow> \<not> idle (f w)" "\<And>w. wt_need_count (f w) = wt_need_count w"
    "\<And>w. wt_sem (f w) = Suc (wt_sem w)" and Wu: "os_waiters (release_listed f s) u = Some w"
  shows "\<not> idle w \<and> wt_sem w = 1 \<and> (\<exists>v. os_waiters s u = Some v \<and> wt_need_count v = wt_need_count w)"
proof (cases "u \<in> set (os_wait_list s)")
  case True
  then obtain v where "os_waiters s u = Some v" "idle v" "w = f v"
    using Wu release_listed_waiters [OF sem_shapeD(1) [OF ok], of f u] sem_shapeD(2) [OF ok, of u] by auto
  then show ?thesis using f sem_shapeD(3) [OF ok, of u v] by simp
next
  case False
  then have "os_waiters s u = Some w" using Wu release_listed_waiters [OF sem_shapeD(1) [OF ok], of f u] by simp
  then show ?thesis using False sem_shapeD(2,3) [OF ok, of u] by auto
qed

lemma release_listed_shape:
  assumes ok: "sem_shape s" and f: "\<And>w. idle w \<Longrightarrow> \<not> idle (f w)" "\<And>w. wt_need_count (f w) = wt_need_count w"
    "\<And>w. wt_sem (f w) = Suc (wt_sem w)"
  shows "sem_shape (release_listed f s)"
proof -
  have "finite (dom (os_waiters (release_listed f s)))"
    by (rule finite_subset [OF _ sem_shapeD(5) [OF ok]])
      (auto simp: release_listed_waiters [OF sem_shapeD(1) [OF ok]] split: if_splits)
  moreover have "\<not> idle w \<and> wt_sem w = 1" if "os_waiters (release_listed f s) u = Some w" for u w
    using release_listed_old [OF ok _ _ _ that] f by blast
  moreover have "os_wait_list (release_listed f s) = []" by (simp add: release_listed_def)
  ultimately show ?thesis unfolding sem_shape_def by auto
qed

lemma release_listed_tokens:
  assumes ok: "sem_shape s" "tokens_ok B s" and f: "\<And>w. idle w \<Longrightarrow> \<not> idle (f w)" "\<And>w. wt_need_count (f w) = wt_need_count w"
    "\<And>w. wt_sem (f w) = Suc (wt_sem w)" and c: "0 \<le> c" "c \<le> B"
  shows "tokens_ok B ((release_listed f s)\<lparr>os_token_count := c\<rparr>)"
proof -
  note D = tokens_okD [OF ok(2)]
  have R: "\<not> idle w \<and> (\<exists>v. os_waiters s u = Some v \<and> wt_need_count v = wt_need_count w)"
    if "os_waiters (release_listed f s) u = Some w" for u w
    using release_listed_old [OF ok(1) _ _ _ that] f by blast
  have "0 \<le> wt_need_count w \<and> \<not> idle w" if "os_waiters (release_listed f s) u = Some w" for u w
    using R [OF that] D(1) [of u] by auto
  moreover have "os_max_count (release_listed f s) = os_max_count s" "os_init_count (release_listed f s) = os_init_count s"
    by (simp_all add: release_listed_def)
  ultimately show ?thesis unfolding tokens_ok_def using D c by auto
qed

text \<open>The pass of an accepted signal.\<close>

lemma Signal_cases:
  assumes ok: "distinct (os_wait_list s)" "\<forall>t \<in> set (os_wait_list s). \<exists>w. os_waiters s t = Some w \<and> 0 \<le> wt_need_count w"
    and c: "0 \<le> os_token_count s + c" "os_token_count s + c < 2 ^ 31" and call: "Signal c s = (b, s')"
  obtains "\<not> b" "os_max_count s < os_token_count s + c" "s' = s"
  | rest tc W where "b" "os_token_count s + c \<le> os_max_count s"
      "s' = s\<lparr>os_wait_list := rest, os_token_count := tc, os_waiters := W\<rparr>"
      "pass_ok (os_wait_list s) (os_token_count s + c) (os_waiters s) rest tc W"
proof -
  have e: "wrap_s32 (os_token_count s + c) = os_token_count s + c" using c by (simp add: wrap_s32_exact)
  obtain rest tc W where l: "signal_loop (os_wait_list s) (os_token_count s + c) (os_waiters s) = (rest, tc, W)"
    by (metis prod_cases3)
  have "pass_ok (os_wait_list s) (os_token_count s + c) (os_waiters s) rest tc W"
    by (rule signal_loop_pass [OF l ok c])
  then show thesis using that call by (auto simp: Signal_def e l split: if_splits)
qed

lemma sem_waiting_needs:
  "sem_shape s \<Longrightarrow> tokens_ok B s \<Longrightarrow> \<forall>t \<in> set (os_wait_list s). \<exists>w. os_waiters s t = Some w \<and> 0 \<le> wt_need_count w"
  using sem_shapeD(2) [of s] tokens_okD(1) [of B s] by blast

lemma idle_release: "\<not> idle (release_signaled w)" "\<not> idle (release_canceled w)" "\<not> idle (release_deleted w)"
  by (simp_all add: idle_def release_signaled_def release_canceled_def release_deleted_def)

lemma release_fields [simp]:
  "wt_need_count (release_signaled w) = wt_need_count w" "wt_need_count (release_canceled w) = wt_need_count w"
  "wt_need_count (release_deleted w) = wt_need_count w" "wt_sem (release_signaled w) = Suc (wt_sem w)"
  "wt_sem (release_canceled w) = Suc (wt_sem w)" "wt_sem (release_deleted w) = Suc (wt_sem w)"
  "wt_priority (release_signaled w) = wt_priority w" "wt_was_signaled (release_signaled w)"
  "wt_was_signaled (release_canceled w) = wt_was_signaled w" "wt_was_signaled (release_deleted w) = wt_was_signaled w"
  by (simp_all add: release_signaled_def release_canceled_def release_deleted_def)

lemma pass_old:
  assumes ok: "sem_shape s" and rest: "set rest \<subseteq> set (os_wait_list s)"
    and W: "\<And>u. W u = (if u \<in> set (os_wait_list s) \<and> u \<notin> set rest then map_option release_signaled (os_waiters s u) else os_waiters s u)"
    and u: "W u = Some w"
  shows "\<exists>v. os_waiters s u = Some v \<and> wt_need_count w = wt_need_count v \<and> wt_priority w = wt_priority v \<and>
      (idle w \<longleftrightarrow> u \<in> set rest) \<and> wt_sem w = (if idle w then 0 else 1)"
proof (cases "u \<in> set (os_wait_list s) \<and> u \<notin> set rest")
  case True
  then obtain v where "os_waiters s u = Some v" "idle v" "w = release_signaled v"
    using u W [of u] sem_shapeD(2) [OF ok, of u] by auto
  then show ?thesis using True sem_shapeD(3) [OF ok, of u v] by (simp add: idle_release)
next
  case False
  then have v: "os_waiters s u = Some w" using u W [of u] by (simp split: if_splits)
  have "idle w \<longleftrightarrow> u \<in> set rest" using sem_shapeD(2) [OF ok, of u] v False rest by auto
  then show ?thesis using v sem_shapeD(3) [OF ok v] by simp
qed

lemma pass_shape:
  assumes ok: "sem_shape s" and rest: "rest = filter (\<lambda>t. t \<in> set rest) (os_wait_list s)"
    and W: "\<And>u. W u = (if u \<in> set (os_wait_list s) \<and> u \<notin> set rest then map_option release_signaled (os_waiters s u) else os_waiters s u)"
  shows "sem_shape (s\<lparr>os_wait_list := rest, os_token_count := tc, os_waiters := W\<rparr>)" (is "sem_shape ?s'")
proof -
  note D = sem_shapeD [OF ok]
  have sub: "set rest \<subseteq> set (os_wait_list s)" by (subst rest) simp
  note old = pass_old [OF ok sub W]
  have pr: "prio_of ?s' u = prio_of s u" for u using W [of u] by (auto simp: prio_of_def split: option.splits)
  have dist: "distinct rest" using rest D(1) by (metis distinct_filter)
  have "sorted (map (prio_of ?s') rest)" if "\<not> os_is_fifo s"
  proof -
    have "sorted (map (prio_of s) (filter (\<lambda>t. t \<in> set rest) (os_wait_list s)))" using D(4) [OF that] by (rule sorted_filter)
    then show ?thesis unfolding rest [symmetric] by (simp add: pr cong: map_cong)
  qed
  moreover have "(t \<in> set rest) = (\<exists>w. W t = Some w \<and> idle w)" for t
  proof
    assume t: "t \<in> set rest"
    then obtain w where "W t = Some w" using W [of t] D(2) [of t] sub by auto
    then show "\<exists>w. W t = Some w \<and> idle w" using old t by blast
  qed (use old in blast)
  moreover have "wt_sem w = (if idle w then 0 else 1)" if "W u = Some w" for u w using old [OF that] by blast
  moreover have "finite (dom W)"
    by (rule finite_subset [OF _ D(5)]) (auto simp: W split: if_splits)
  ultimately show ?thesis unfolding sem_shape_def using dist by simp
qed

lemma pass_tokens:
  assumes ok: "sem_shape s" "tokens_ok B s" and c: "os_token_count s + c \<le> os_max_count s"
    and P: "pass_ok (os_wait_list s) (os_token_count s + c) (os_waiters s) rest tc W"
  shows "tokens_ok B (s\<lparr>os_wait_list := rest, os_token_count := tc, os_waiters := W\<rparr>)"
proof -
  note D = tokens_okD [OF ok(2)] and Q = pass_okD [OF P]
  have W: "W u = (if u \<in> set (os_wait_list s) \<and> u \<notin> set rest then map_option release_signaled (os_waiters s u) else os_waiters s u)" for u
    using Q(5) [of u] by (simp add: served_def)
  have "0 \<le> wt_need_count w \<and> (idle w \<longrightarrow> tc < wt_need_count w)" if u: "W u = Some w" for u w
    using pass_old [OF ok(1) Q(8) W u] D(1) [of u] Q(6) [of u] by (auto simp: need_of_def)
  then show ?thesis unfolding tokens_ok_def using D c Q(2,3) by auto
qed

lemma Signal_shape:
  assumes ok: "sem_shape s" and call: "Signal c s = (b, s')"
  shows "sem_shape s'"
proof -
  obtain rest tc W where l: "signal_loop (os_wait_list s) (wrap_s32 (os_token_count s + c)) (os_waiters s) = (rest, tc, W)"
    by (metis prod_cases3)
  have "sem_shape (s\<lparr>os_wait_list := rest, os_token_count := tc, os_waiters := W\<rparr>)"
    by (rule pass_shape [OF ok]) (use signal_loop_shape [OF l sem_shapeD(1) [OF ok]] in blast)+
  then show ?thesis using call ok by (auto simp: Signal_def l split: if_splits)
qed

lemma sem_step_shape:
  assumes "sem_step s e s'" and ok: "sem_shape s"
  shows "sem_shape s'"
  using assms(1)
proof cases
  case (cancel c r n)
  then show ?thesis using release_listed_shape [OF ok, of release_canceled] by (auto simp: Cancel_def idle_release)
next
  case delete
  then show ?thesis using release_listed_shape [OF ok, of release_deleted] by (simp add: Delete_def idle_release)
qed (use Wait_enter_shape [OF ok] Wait_leave_shape [OF ok] Signal_shape [OF ok] in blast)+

lemma sem_step_tokens:
  assumes "sem_step s e s'" and e: "sensible B e" "\<And>c. e = CancelCall c \<Longrightarrow> c \<le> B" and ok: "sem_shape s" "tokens_ok B s"
  shows "tokens_ok B s'"
  using assms(1)
proof cases
  case (enter t prio can_block need timeout r)
  then show ?thesis using e Wait_enter_tokens [OF ok(2)] by simp
next
  case (signal c b)
  then have "0 \<le> os_token_count s + c" "os_token_count s + c < 2 ^ 31" using e tokens_okD(3,4) [OF ok(2)] by simp_all
  from Signal_cases [OF sem_shapeD(1) [OF ok(1)] sem_waiting_needs [OF ok] this signal(2)] show ?thesis
  proof cases
    case 1
    then show ?thesis using ok by simp
  next
    case (2 rest tc W)
    then show ?thesis using pass_tokens [OF ok] by simp
  qed
next
  case (cancel c r n)
  then have "tokens_ok B ((release_listed release_canceled s)\<lparr>os_token_count := (if c < 0 then os_init_count s else c)\<rparr>)"
    using tokens_okD [OF ok(2)] e(2) by (intro release_listed_tokens [OF ok]) (simp_all add: idle_release)
  then show ?thesis using cancel by (simp add: Cancel_def)
next
  case delete
  have "tokens_ok B ((release_listed release_deleted s)\<lparr>os_token_count := os_token_count s\<rparr>)"
    using tokens_okD [OF ok(2)] by (intro release_listed_tokens [OF ok]) (simp_all add: idle_release)
  moreover have "(release_listed release_deleted s)\<lparr>os_token_count := os_token_count s\<rparr> = release_listed release_deleted s"
    by (simp add: release_listed_def)
  ultimately show ?thesis using delete by (simp add: Delete_def)
qed (use Wait_leave_tokens [OF ok(2)] in blast)+

lemma sem_run_shape: "sem_run s es s' \<Longrightarrow> sem_shape s \<Longrightarrow> sem_shape s'"
  by (induction rule: sem_run.induct) (blast intro: sem_step_shape)+

text \<open>The arguments are sensible, and \<open>B\<close> is a limit of the counts that are set.\<close>

definition fits :: "s32 \<Rightarrow> sem_event list \<Rightarrow> bool" where
  "fits B es \<longleftrightarrow> (\<forall>e \<in> set es. sensible B e \<and> (\<forall>c. e = CancelCall c \<longrightarrow> c \<le> B))"

lemma sem_run_tokens:
  assumes "sem_run s es s'" and "fits B es" and "sem_shape s" and "tokens_ok B s"
  shows "tokens_ok B s'"
  using assms
proof (induction rule: sem_run.induct)
  case (more s es s' e s'')
  have "fits B es" "sensible B e" "\<And>c. e = CancelCall c \<Longrightarrow> c \<le> B" using more.prems(1) by (auto simp: fits_def)
  then show ?case using more.IH more.prems sem_step_tokens [OF more.hyps(2)] sem_run_shape [OF more.hyps(1)] by blast
qed

lemma sem_run_needs:
  assumes "sem_run s es s'" and "sem_shape s" and "\<forall>t need timeout r. WaitCall t need timeout r \<in> set es \<longrightarrow> 0 \<le> need"
    and "\<forall>t w. os_waiters s t = Some w \<longrightarrow> 0 \<le> wt_need_count w"
  shows "\<forall>t w. os_waiters s' t = Some w \<longrightarrow> 0 \<le> wt_need_count w"
  using assms
proof (induction rule: sem_run.induct)
  case (more s es s' e s'')
  have "\<forall>t need timeout r. WaitCall t need timeout r \<in> set es \<longrightarrow> 0 \<le> need" using more.prems(2) by auto
  then have IH: "0 \<le> wt_need_count w" if "os_waiters s' t = Some w" for t w using more.IH [OF more.prems(1) _ more.prems(3)] that by blast
  have ok: "sem_shape s'" using sem_run_shape [OF more.hyps(1)] more.prems(1) by blast
  have old: "\<exists>v. os_waiters s' t = Some v \<and> wt_need_count v = wt_need_count w" if "os_waiters (release_listed f s') t = Some w"
    and "f = release_canceled \<or> f = release_deleted" for f t w
    using that release_listed_old [OF ok, of f t w] by (auto simp: idle_release)
  show ?case using more.hyps(2)
  proof cases
    case (enter t prio can_block need timeout r)
    have "0 \<le> need" using more.prems(2) enter(1) by auto
    from enter(3) show ?thesis
      by (cases rule: Wait_enter_cases) (use IH \<open>0 \<le> need\<close> in \<open>auto simp: AddWaiter_fields WaitingThread_new_idle\<close>)
  next
    case (signal c b)
    obtain rest tc W where l: "signal_loop (os_wait_list s') (wrap_s32 (os_token_count s' + c)) (os_waiters s') = (rest, tc, W)"
      by (metis prod_cases3)
    have "0 \<le> wt_need_count w" if "W t = Some w" for t w
      using signal_loop_shape [OF l sem_shapeD(1) [OF ok]] that IH by (auto split: if_splits)
    then show ?thesis using signal(2) IH by (auto simp: Signal_def l split: if_splits)
  next
    case (cancel c r n)
    then have "os_waiters s'' = os_waiters (release_listed release_canceled s')" by (auto simp: Cancel_def)
    then show ?thesis using old [of release_canceled] IH by (metis (no_types))
  next
    case delete
    then show ?thesis using old [of release_deleted] IH by (metis (no_types) Delete_def)
  qed (use IH Wait_leave_fields(1) in \<open>auto split: if_splits\<close>)
qed

lemma sem_step_fixed:
  "sem_step s e s' \<Longrightarrow> os_max_count s' = os_max_count s \<and> os_is_fifo s' = os_is_fifo s"
  by (erule sem_stepE) (auto simp: Wait_enter_def AddWaiter_def Wait_leave_def Signal_def Cancel_def Delete_def
      release_listed_def Let_def split: if_splits prod.splits)

lemma sem_run_fixed:
  "sem_run s es s' \<Longrightarrow> os_max_count s' = os_max_count s \<and> os_is_fifo s' = os_is_fifo s"
  by (induction rule: sem_run.induct) (auto dest: sem_step_fixed)

lemma sem_run_init: "sem_run s es s' \<Longrightarrow> os_init_count s' = os_init_count s"
proof (induction rule: sem_run.induct)
  case (more s es s' e s'')
  have "os_init_count s'' = os_init_count s'" using more.hyps(2)
    by (rule sem_stepE) (auto simp: Wait_enter_def AddWaiter_def Wait_leave_def Signal_def Cancel_def Delete_def
        release_listed_def Let_def split: if_splits prod.splits)
  then show ?case using more.IH by simp
qed simp

lemma sem_run_cancelled:
  assumes "sem_run s (es @ [CancelCall c]) s'"
  shows "os_token_count s' = (if c < 0 then os_init_count s else c)"
  using assms
proof (cases rule: sem_run.cases)
  case (more fs t e)
  then have e: "e = CancelCall c" and run: "sem_run s es t" by simp_all
  have "os_token_count s' = (if c < 0 then os_init_count t else c)"
    using more(3) unfolding e by (rule sem_stepE) (auto simp: Cancel_def)
  then show ?thesis using sem_run_init [OF run] by simp
qed simp

subsection \<open>Tokens are neither lost nor made up\<close>

text \<open>Tokens on their way to waiters that \<^verbatim>\<open>Signal\<close> has served and that have not run yet.\<close>

definition in_flight :: "OrbisSem \<Rightarrow> s32" where
  "in_flight s = (\<Sum>t \<in> {t. \<exists>w. os_waiters s t = Some w \<and> wt_was_signaled w}. need_of (os_waiters s) t)"

fun handed_out :: "sem_event \<Rightarrow> s32" where
  "handed_out (WaitCall t need timeout r) = (if r = Some ORBIS_OK then need else 0)"
| "handed_out (WaitReturn t need r left) = (if r = ORBIS_OK then need else 0)"
| "handed_out e = 0"

fun put_in :: "sem_event \<Rightarrow> s32" where
  "put_in (SignalCall c accepted) = (if accepted then c else 0)"
| "put_in e = 0"

fun is_cancel :: "sem_event \<Rightarrow> bool" where
  "is_cancel (CancelCall c) = True"
| "is_cancel e = False"

definition balance :: "OrbisSem \<Rightarrow> s32" where
  "balance s = os_token_count s + in_flight s"

lemma in_flight_cong:
  assumes "\<And>t. (\<exists>w. os_waiters s t = Some w \<and> wt_was_signaled w) \<longleftrightarrow> (\<exists>w. os_waiters s' t = Some w \<and> wt_was_signaled w)"
    and "\<And>t w. os_waiters s t = Some w \<Longrightarrow> wt_was_signaled w \<Longrightarrow> need_of (os_waiters s) t = need_of (os_waiters s') t"
  shows "in_flight s = in_flight s'"
  unfolding in_flight_def using assms by (intro sum.cong) auto

lemma in_flight_upd:
  assumes "\<not> (\<exists>v. os_waiters s t = Some v \<and> wt_was_signaled v)" "\<not> wt_was_signaled w"
  shows "in_flight (s'\<lparr>os_waiters := (os_waiters s)(t \<mapsto> w)\<rparr>) = in_flight s"
proof (rule in_flight_cong)
  fix u
  show "(\<exists>w'. os_waiters (s'\<lparr>os_waiters := (os_waiters s)(t \<mapsto> w)\<rparr>) u = Some w' \<and> wt_was_signaled w') \<longleftrightarrow>
      (\<exists>w. os_waiters s u = Some w \<and> wt_was_signaled w)" using assms by (cases "u = t") simp_all
next
  fix u w'
  assume "os_waiters (s'\<lparr>os_waiters := (os_waiters s)(t \<mapsto> w)\<rparr>) u = Some w'" "wt_was_signaled w'"
  then have "u \<noteq> t" using assms by auto
  then show "need_of (os_waiters (s'\<lparr>os_waiters := (os_waiters s)(t \<mapsto> w)\<rparr>)) u = need_of (os_waiters s) u"
    by (simp add: need_of_def)
qed

lemma Wait_enter_balance:
  assumes ok: "tokens_ok B s" and new: "os_waiters s t = None" and need: "0 \<le> need"
    and call: "Wait_enter t prio can_block need timeout s = (r, s')"
  shows "balance s' + (if r = Some ORBIS_OK then need else 0) = balance s"
proof (cases "os_token_count s \<ge> need")
  case True
  note D = tokens_okD [OF ok]
  have "s' = s\<lparr>os_token_count := os_token_count s - need\<rparr>" "r = Some ORBIS_OK"
    using call True D(3,4,6) need by (simp_all add: Wait_enter_def wrap_s32_exact)
  then show ?thesis by (simp add: balance_def in_flight_def)
next
  case False
  let ?w = "WaitingThread_new need (os_is_fifo s) prio timeout"
  have "in_flight (AddWaiter t ?w s) = in_flight s"
  proof -
    have "in_flight (AddWaiter t ?w s) = in_flight (s\<lparr>os_waiters := (os_waiters s)(t \<mapsto> ?w)\<rparr>)"
      by (simp add: in_flight_def AddWaiter_def Let_def)
    then show ?thesis using in_flight_upd [of s t ?w s] new by (simp add: WaitingThread_new_def)
  qed
  moreover have "os_token_count (AddWaiter t ?w s) = os_token_count s" by (simp add: AddWaiter_def Let_def)
  ultimately show ?thesis using call False by (auto simp: Wait_enter_def balance_def sync_codes split: if_splits)
qed

lemma Wait_leave_balance:
  assumes ok: "sem_shape s" and w: "os_waiters s t = Some w" and call: "Wait_leave t w el s = (r, left, s')"
  shows "balance s' + (if r = ORBIS_OK then wt_need_count w else 0) = balance s"
proof -
  let ?S = "\<lambda>s. {t. \<exists>w. os_waiters s t = Some w \<and> wt_was_signaled w}"
  have s': "os_waiters s' = (os_waiters s)(t := None)" "os_token_count s' = os_token_count s" and r: "r = GetResult w"
    using call by (auto simp: Wait_leave_def Let_def split: if_splits)
  have S: "?S s' = ?S s - {t}" by (auto simp: s'(1) split: if_splits)
  have fin: "finite (?S s)" by (rule finite_subset [OF _ sem_shapeD(5) [OF ok]]) auto
  have n: "in_flight s' = (\<Sum>u \<in> ?S s - {t}. need_of (os_waiters s) u)"
    unfolding in_flight_def S by (rule sum.cong) (simp_all add: need_of_def s'(1))
  have g: "r = ORBIS_OK \<longleftrightarrow> wt_was_signaled w" unfolding r by (simp add: GetResult_def sync_codes)
  show ?thesis
  proof (cases "wt_was_signaled w")
    case True
    then have "in_flight s = need_of (os_waiters s) t + in_flight s'"
      unfolding n unfolding in_flight_def using w fin by (intro sum.remove) auto
    then show ?thesis using True g w by (simp add: balance_def s'(2) need_of_def)
  next
    case False
    then have "?S s - {t} = ?S s" using w by auto
    then show ?thesis using False g n by (simp add: balance_def s'(2) in_flight_def)
  qed
qed

lemma release_listed_in_flight:
  assumes ok: "sem_shape s" and f: "\<And>w. wt_was_signaled (f w) = wt_was_signaled w" "\<And>w. wt_need_count (f w) = wt_need_count w"
  shows "in_flight (release_listed f s) = in_flight s"
proof -
  note W = release_listed_waiters [OF sem_shapeD(1) [OF ok]]
  show ?thesis by (rule in_flight_cong) (auto simp: W need_of_def f split: option.splits if_splits)
qed

lemma pass_in_flight:
  assumes ok: "sem_shape s" and P: "pass_ok (os_wait_list s) tok (os_waiters s) rest tc W"
    and s': "os_waiters s' = W"
  shows "in_flight s' = in_flight s + (tok - tc)"
proof -
  note D = sem_shapeD [OF ok] and Q = pass_okD [OF P]
  let ?S = "\<lambda>W. {t. \<exists>w. W t = Some w \<and> wt_was_signaled w}" and ?V = "set (served (os_wait_list s) rest)"
  have idl: "\<exists>w. os_waiters s t = Some w \<and> \<not> wt_was_signaled w" if "t \<in> ?V" for t
  proof -
    have "t \<in> set (os_wait_list s)" using that by (simp add: served_def)
    then show ?thesis using D(2) [of t] by (auto simp: idle_def)
  qed
  have S: "?S W = ?S (os_waiters s) \<union> ?V"
  proof (intro set_eqI)
    fix t show "t \<in> ?S W \<longleftrightarrow> t \<in> ?S (os_waiters s) \<union> ?V" using Q(5) [of t] idl [of t] by auto
  qed
  have dis: "?S (os_waiters s) \<inter> ?V = {}" using idl by fastforce
  have fin: "finite (?S (os_waiters s))" by (rule finite_subset [OF _ D(5)]) auto
  have nd: "need_of W t = need_of (os_waiters s) t" for t
    using Q(5) [of t] by (auto simp: need_of_def split: option.splits)
  have "in_flight s' = sum (need_of (os_waiters s)) (?S (os_waiters s)) + sum (need_of (os_waiters s)) ?V"
    unfolding in_flight_def s' S using fin dis by (simp add: nd sum.union_disjoint)
  moreover have "sum (need_of (os_waiters s)) ?V = taken (os_waiters s) (served (os_wait_list s) rest)"
    unfolding taken_def using D(1) by (intro sum_list_distinct_conv_sum_set [symmetric]) (simp add: served_def)
  ultimately show ?thesis using Q(4) by (simp add: in_flight_def)
qed

lemma sem_step_balance:
  assumes "sem_step s e s'" and e: "sensible B e" and ok: "sem_shape s" "tokens_ok B s" and nc: "\<not> is_cancel e"
  shows "balance s' + handed_out e = balance s + put_in e"
  using assms(1)
proof cases
  case (enter t prio can_block need timeout r)
  then show ?thesis using e Wait_enter_balance [OF ok(2)] by simp
next
  case (wake t w elapsed r left)
  then show ?thesis using Wait_leave_balance [OF ok(1) wake(2,4)] by simp
next
  case (expire t w timeout elapsed r left)
  then show ?thesis using Wait_leave_balance [OF ok(1) expire(2,5)] by simp
next
  case (signal c b)
  then have "0 \<le> os_token_count s + c" "os_token_count s + c < 2 ^ 31" using e tokens_okD(3,4) [OF ok(2)] by simp_all
  from Signal_cases [OF sem_shapeD(1) [OF ok(1)] sem_waiting_needs [OF ok] this signal(2)] show ?thesis
  proof cases
    case 1
    then show ?thesis using signal(1) by simp
  next
    case (2 rest tc W)
    then show ?thesis using pass_in_flight [OF ok(1) 2(4), of s'] signal(1) by (simp add: balance_def)
  qed
next
  case (cancel c r n)
  then show ?thesis using nc by simp
next
  case delete
  have "in_flight (Delete s) = in_flight s" unfolding Delete_def by (rule release_listed_in_flight [OF ok(1)]) simp_all
  then show ?thesis using delete by (simp add: balance_def Delete_def release_listed_def)
qed

lemma sem_run_balance:
  assumes "sem_run s es s'" and "fits B es" and "sem_shape s" and "tokens_ok B s" and "\<forall>e \<in> set es. \<not> is_cancel e"
  shows "balance s' + sum_list (map handed_out es) = balance s + sum_list (map put_in es)"
  using assms
proof (induction rule: sem_run.induct)
  case (more s es s' e s'')
  have f: "fits B es" "sensible B e" and nc: "\<not> is_cancel e" "\<forall>e \<in> set es. \<not> is_cancel e"
    using more.prems(1,4) by (auto simp: fits_def)
  note ok = more.prems(2,3)
  have "balance s'' + handed_out e = balance s' + put_in e"
    by (rule sem_step_balance [OF more.hyps(2) f(2) sem_run_shape [OF more.hyps(1) ok(1)] sem_run_tokens [OF more.hyps(1) f(1) ok] nc(1)])
  then show ?case using more.IH [OF f(1) ok nc(2)] by simp
qed simp


subsection \<open>The kernel calls\<close>

text \<open>
  The table of semaphores is a \<^verbatim>\<open>SlotVector\<close>.  \<open>None\<close> stands for a handle outside the bit set, which
  the code reads without a bounds check.  Of \<^verbatim>\<open>sceKernelWaitSema\<close> this is the part up to the point
  where the thread blocks (result \<open>None\<close> inside the pair).
\<close>

type_synonym sema_table = "OrbisSem SlotVector"

definition sceKernelCreateSema :: "string option \<Rightarrow> nat \<Rightarrow> s32 \<Rightarrow> s32 \<Rightarrow> sema_table \<Rightarrow> s32 \<times> nat option \<times> sema_table" where
  "sceKernelCreateSema pName attr initCount maxCount tbl =
     (case pName of
        None \<Rightarrow> (ORBIS_KERNEL_ERROR_EINVAL, None, tbl)
      | Some name \<Rightarrow>
          if attr > 2 \<or> initCount < 0 \<or> maxCount \<le> 0 \<or> initCount > maxCount
          then (ORBIS_KERNEL_ERROR_EINVAL, None, tbl)
          else let (sem, tbl') = sv_insert (OrbisSem_new initCount maxCount name (attr = 1)) tbl
               in (ORBIS_OK, Some sem, tbl'))"

definition with_sema :: "nat \<Rightarrow> (OrbisSem \<Rightarrow> 'r \<times> OrbisSem) \<Rightarrow> 'r \<Rightarrow> sema_table \<Rightarrow> ('r \<times> sema_table) option" where
  "with_sema sem f no_such tbl =
     (case is_allocated tbl sem of
        None \<Rightarrow> None
      | Some False \<Rightarrow> Some (no_such, tbl)
      | Some True \<Rightarrow>
          (case sv_at tbl sem of
             None \<Rightarrow> None
           | Some s \<Rightarrow> let (r, s') = f s in Some (r, sv_put sem s' tbl)))"

definition sceKernelWaitSema :: "nat \<Rightarrow> nat \<Rightarrow> nat \<Rightarrow> s32 \<Rightarrow> nat option \<Rightarrow> sema_table \<Rightarrow> (s32 option \<times> sema_table) option" where
  "sceKernelWaitSema t prio sem needCount pTimeout =
     with_sema sem (Wait_enter t prio True needCount pTimeout) (Some ORBIS_KERNEL_ERROR_ESRCH)"

definition sceKernelSignalSema :: "nat \<Rightarrow> s32 \<Rightarrow> sema_table \<Rightarrow> (s32 \<times> sema_table) option" where
  "sceKernelSignalSema sem signalCount =
     with_sema sem (\<lambda>s. let (b, s') = Signal signalCount s
                        in (if \<not> b then ORBIS_KERNEL_ERROR_EINVAL else ORBIS_OK, s')) ORBIS_KERNEL_ERROR_ESRCH"

definition sceKernelPollSema :: "nat \<Rightarrow> nat \<Rightarrow> nat \<Rightarrow> s32 \<Rightarrow> sema_table \<Rightarrow> (s32 option \<times> sema_table) option" where
  "sceKernelPollSema t prio sem needCount =
     with_sema sem (Wait_enter t prio False needCount None) (Some ORBIS_KERNEL_ERROR_ESRCH)"

definition sceKernelCancelSema :: "nat \<Rightarrow> s32 \<Rightarrow> sema_table \<Rightarrow> ((s32 \<times> nat option) \<times> sema_table) option" where
  "sceKernelCancelSema sem setCount =
     with_sema sem (\<lambda>s. let (r, n, s') = Cancel setCount s in ((r, Some n), s')) (ORBIS_KERNEL_ERROR_ESRCH, None)"

definition sceKernelDeleteSema :: "nat \<Rightarrow> sema_table \<Rightarrow> (s32 \<times> sema_table) option" where
  "sceKernelDeleteSema sem tbl =
     (case is_allocated tbl sem of
        None \<Rightarrow> None
      | Some False \<Rightarrow> Some (ORBIS_KERNEL_ERROR_ESRCH, tbl)
      | Some True \<Rightarrow>
          (case sv_at tbl sem of
             None \<Rightarrow> None
           | Some s \<Rightarrow> Some (ORBIS_OK, sv_erase sem (sv_put sem (Delete s) tbl))))"

text \<open>What the table means: each handle in use has a sound semaphore.\<close>

definition semas_ok :: "sema_table \<Rightarrow> bool" where
  "semas_ok tbl \<longleftrightarrow> sv_ok tbl \<and> (\<forall>h s. sv_at tbl h = Some s \<longrightarrow> sem_ok s)"

lemma with_sema_cases:
  assumes ok: "sv_ok tbl" and call: "with_sema sem f no_such tbl = Some (r, tbl')"
  obtains "sv_at tbl sem = None" "r = no_such" "tbl' = tbl"
  | s s' where "sv_at tbl sem = Some s" "f s = (r, s')" "sv_ok tbl'" "sv_at tbl' = (sv_at tbl)(sem \<mapsto> s')"
proof (cases "is_allocated tbl sem")
  case None
  then show thesis using call by (simp add: with_sema_def)
next
  case (Some b)
  show thesis
  proof (cases b)
    case True
    then obtain s where s: "sv_at tbl sem = Some s" using sv.allocated_at [OF ok Some] by auto
    obtain r1 s' where f: "f s = (r1, s')" by fastforce
    have "r1 = r" "tbl' = sv_put sem s' tbl" using call Some True s f by (simp_all add: with_sema_def)
    then show thesis using that(2) [OF s] f sv.put_inv [OF ok] sv.at_put [OF ok] s by simp
  next
    case False
    then show thesis using that(1) call Some sv.allocated_at [OF ok Some] by (simp add: with_sema_def)
  qed
qed

lemma with_sema_unknown:
  "sv_ok tbl \<Longrightarrow> sv_at tbl sem = None \<Longrightarrow> with_sema sem f no_such tbl = Some (r, tbl') \<Longrightarrow> r = no_such \<and> tbl' = tbl"
  by (erule with_sema_cases) auto

lemma with_sema_known:
  "sv_ok tbl \<Longrightarrow> sv_at tbl sem = Some s \<Longrightarrow> f s = (r, s') \<Longrightarrow>
     with_sema sem f no_such tbl = Some (r, sv_put sem s' tbl)"
  using sv.at_allocated [of tbl sem] by (simp add: with_sema_def)

lemma with_sema_ok:
  assumes ok: "semas_ok tbl" and call: "with_sema sem f no_such tbl = Some (r, tbl')"
    and f: "\<And>s r s'. sv_at tbl sem = Some s \<Longrightarrow> f s = (r, s') \<Longrightarrow> sem_ok s'"
  shows "semas_ok tbl'"
proof -
  have "sv_ok tbl" using ok by (simp add: semas_ok_def)
  from this call show ?thesis by (rule with_sema_cases) (use ok f in \<open>auto simp: semas_ok_def\<close>)
qed

lemma sceKernelCreateSema_ok:
  assumes ok: "semas_ok tbl" and call: "sceKernelCreateSema pName attr i m tbl = (r, h, tbl')" and m: "m < 2 ^ 31"
  shows "semas_ok tbl' \<and> (case h of
      None \<Rightarrow> r = ORBIS_KERNEL_ERROR_EINVAL \<and> tbl' = tbl
    | Some k \<Rightarrow> r = ORBIS_OK \<and> sv_at tbl k = None \<and>
        (\<exists>name. pName = Some name \<and> sv_at tbl' = (sv_at tbl)(k \<mapsto> OrbisSem_new i m name (attr = 1))))"
proof (cases h)
  case None
  then show ?thesis using call ok by (auto simp: sceKernelCreateSema_def Let_def split: option.splits if_splits prod.splits)
next
  case (Some k)
  have sv: "sv_ok tbl" using ok by (simp add: semas_ok_def)
  obtain name where n: "pName = Some name" using call Some by (cases pName) (simp_all add: sceKernelCreateSema_def)
  have g: "\<not> (attr > 2 \<or> i < 0 \<or> m \<le> 0 \<or> i > m)" and r: "r = ORBIS_OK"
    and ins: "sv_insert (OrbisSem_new i m name (attr = 1)) tbl = (k, tbl')"
    using call Some n by (auto simp: sceKernelCreateSema_def split: if_splits prod.splits)
  have at: "sv_at tbl' = (sv_at tbl)(k \<mapsto> OrbisSem_new i m name (attr = 1))" by (rule sv.at_insert [OF sv ins])
  have "sem_ok (OrbisSem_new i m name (attr = 1))" using g m by (intro OrbisSem_new_ok) simp_all
  then have "semas_ok tbl'" using ok sv.insert_inv [OF sv ins] at by (auto simp: semas_ok_def)
  then show ?thesis using Some n r at sv.insert_fresh [OF sv ins] by simp
qed

lemma sceKernelDeleteSema_ok:
  assumes ok: "semas_ok tbl" and s: "sv_at tbl h = Some s"
  obtains tbl' where "sceKernelDeleteSema h tbl = Some (ORBIS_OK, tbl')" "semas_ok tbl'"
    "sv_at tbl' = (sv_at tbl)(h := None)" "is_allocated tbl' h = Some False"
proof -
  have sv: "sv_ok tbl" using ok by (simp add: semas_ok_def)
  let ?p = "sv_put h (Delete s) tbl"
  have p: "sv_ok ?p" "sv_at ?p = (sv_at tbl)(h \<mapsto> Delete s)" using sv.put_inv [OF sv] sv.at_put [OF sv] s by simp_all
  then have e: "sv_ok (sv_erase h ?p)" "sv_at (sv_erase h ?p) = (sv_at tbl)(h := None)" "is_allocated (sv_erase h ?p) h = Some False"
    using sv.erase_inv [OF p(1), of h] sv.at_erase [OF p(1), of h] sv.erased_unallocated [OF p(1), of h] by simp_all
  then have "semas_ok (sv_erase h ?p)" using ok by (auto simp: semas_ok_def)
  then show thesis using that e(2,3) s sv.at_allocated [OF sv, of h] by (simp add: sceKernelDeleteSema_def)
qed

end
