(* ===== verification/Orbit_PosixSem.thy ===== *)
theory Orbit_PosixSem
  imports Orbit_Prelude
begin

text \<open>
  POSIX semaphores (second half of \<^verbatim>\<open>src/core/libraries/kernel/threads/semaphore.cpp\<close>).  They take no
  lock: a host counting semaphore blocks and wakes the threads, and an atomic \<^verbatim>\<open>value\<close> mirrors its
  count for \<^verbatim>\<open>sem_getvalue\<close> and for the overflow test of \<^verbatim>\<open>sem_post\<close>.  The two are updated one after
  the other, so each atomic access is a step of \<open>psem_step\<close>, with the place where a thread is inside
  its call as a program counter.  The calls themselves, run without interference, are functions.
\<close>

subsection \<open>Data\<close>

definition ORBIS_KERNEL_SEM_VALUE_MAX :: s32 where "ORBIS_KERNEL_SEM_VALUE_MAX = 0x7FFFFFFF"

text \<open>\<open>ps_semaphore\<close> is the count of the host semaphore.\<close>

record PthreadSem =
  ps_semaphore :: nat
  ps_value :: s32

definition PthreadSem_new :: "s32 \<Rightarrow> PthreadSem" where
  "PthreadSem_new value = \<lparr>ps_semaphore = nat value, ps_value = value\<rparr>"

text \<open>
  A \<^verbatim>\<open>PthreadSem**\<close>: a null pointer, or the address of a cell that is null or owns a semaphore.  A
  result pairs the returned value with the error number, when one is set.
\<close>

type_synonym sem_cells = "nat \<Rightarrow> PthreadSem option"
type_synonym posix_result = "s32 \<times> s32 option"

subsection \<open>Atomic accesses\<close>

definition sem_try_acquire :: "PthreadSem \<Rightarrow> PthreadSem option" where
  "sem_try_acquire p = (if ps_semaphore p > 0 then Some (p\<lparr>ps_semaphore := ps_semaphore p - 1\<rparr>) else None)"

definition sem_decrement :: "PthreadSem \<Rightarrow> PthreadSem" where
  "sem_decrement p = p\<lparr>ps_value := wrap_s32 (ps_value p - 1)\<rparr>"

definition sem_release :: "PthreadSem \<Rightarrow> PthreadSem" where
  "sem_release p = p\<lparr>ps_semaphore := Suc (ps_semaphore p)\<rparr>"

text \<open>\<^verbatim>\<open>compare_exchange_weak(current, current + 1)\<close>: \<open>Inl\<close> is failure, with the new \<^verbatim>\<open>current\<close>.\<close>

definition sem_compare_exchange :: "s32 \<Rightarrow> PthreadSem \<Rightarrow> s32 + PthreadSem" where
  "sem_compare_exchange current p =
     (if ps_value p = current then Inr (p\<lparr>ps_value := wrap_s32 (current + 1)\<rparr>) else Inl (ps_value p))"

subsection \<open>The calls without interference\<close>

definition posix_sem_init :: "nat option \<Rightarrow> nat \<Rightarrow> sem_cells \<Rightarrow> posix_result \<times> sem_cells" where
  "posix_sem_init sem value cells =
     (if int value > ORBIS_KERNEL_SEM_VALUE_MAX then ((- 1, Some POSIX_EINVAL), cells)
      else ((0, None), case sem of None \<Rightarrow> cells | Some a \<Rightarrow> cells(a \<mapsto> PthreadSem_new (int value))))"

definition posix_sem_destroy :: "nat option \<Rightarrow> sem_cells \<Rightarrow> posix_result \<times> sem_cells" where
  "posix_sem_destroy sem cells =
     (case deref cells sem of
        None \<Rightarrow> ((- 1, Some POSIX_EINVAL), cells)
      | Some (a, p) \<Rightarrow> ((0, None), cells(a := None)))"

text \<open>\<open>None\<close>: the call blocks.\<close>

definition posix_sem_wait :: "nat option \<Rightarrow> sem_cells \<Rightarrow> (posix_result \<times> sem_cells) option" where
  "posix_sem_wait sem cells =
     (case deref cells sem of
        None \<Rightarrow> Some ((- 1, Some POSIX_EINVAL), cells)
      | Some (a, p) \<Rightarrow> map_option (\<lambda>q. ((0, None), cells(a \<mapsto> sem_decrement q))) (sem_try_acquire p))"

definition sem_try_wait :: "s32 \<Rightarrow> nat option \<Rightarrow> sem_cells \<Rightarrow> posix_result \<times> sem_cells" where
  "sem_try_wait failure sem cells =
     (case deref cells sem of
        None \<Rightarrow> ((- 1, Some POSIX_EINVAL), cells)
      | Some (a, p) \<Rightarrow>
          (case sem_try_acquire p of
             None \<Rightarrow> ((- 1, Some failure), cells)
           | Some q \<Rightarrow> ((0, None), cells(a \<mapsto> sem_decrement q))))"

definition posix_sem_trywait :: "nat option \<Rightarrow> sem_cells \<Rightarrow> posix_result \<times> sem_cells" where
  "posix_sem_trywait = sem_try_wait POSIX_EAGAIN"

definition posix_sem_timedwait :: "nat option \<Rightarrow> sem_cells \<Rightarrow> posix_result \<times> sem_cells" where
  "posix_sem_timedwait = sem_try_wait POSIX_ETIMEDOUT"

definition posix_sem_post :: "nat option \<Rightarrow> sem_cells \<Rightarrow> posix_result \<times> sem_cells" where
  "posix_sem_post sem cells =
     (case deref cells sem of
        None \<Rightarrow> ((- 1, Some POSIX_EINVAL), cells)
      | Some (a, p) \<Rightarrow>
          if ps_value p = ORBIS_KERNEL_SEM_VALUE_MAX then ((- 1, Some POSIX_EOVERFLOW), cells)
          else (case sem_compare_exchange (ps_value p) p of
                  Inl _ \<Rightarrow> ((- 1, None), cells)
                | Inr q \<Rightarrow> ((0, None), cells(a \<mapsto> sem_release q))))"

definition posix_sem_getvalue :: "nat option \<Rightarrow> sem_cells \<Rightarrow> posix_result \<times> s32 option" where
  "posix_sem_getvalue sem cells =
     (case deref cells sem of
        None \<Rightarrow> ((- 1, Some POSIX_EINVAL), None)
      | Some (a, p) \<Rightarrow> ((0, None), Some (ps_value p)))"

text \<open>The \<^verbatim>\<open>scePthreadSem\<close> calls translate the error number.\<close>

definition sce_result :: "posix_result \<Rightarrow> s32" where
  "sce_result r = (if fst r \<noteq> 0 then (case snd r of None \<Rightarrow> ErrnoToSceKernelError 0 | Some e \<Rightarrow> ErrnoToSceKernelError e) else ORBIS_OK)"

definition scePthreadSemInit :: "nat option \<Rightarrow> s32 \<Rightarrow> nat \<Rightarrow> sem_cells \<Rightarrow> s32 \<times> sem_cells" where
  "scePthreadSemInit sem flag value cells =
     (if flag \<noteq> 0 then (ORBIS_KERNEL_ERROR_EINVAL, cells) else apfst sce_result (posix_sem_init sem value cells))"

definition scePthreadSemDestroy :: "nat option \<Rightarrow> sem_cells \<Rightarrow> s32 \<times> sem_cells" where
  "scePthreadSemDestroy sem cells = apfst sce_result (posix_sem_destroy sem cells)"

definition scePthreadSemWait :: "nat option \<Rightarrow> sem_cells \<Rightarrow> (s32 \<times> sem_cells) option" where
  "scePthreadSemWait sem cells = map_option (apfst sce_result) (posix_sem_wait sem cells)"

definition scePthreadSemTrywait :: "nat option \<Rightarrow> sem_cells \<Rightarrow> s32 \<times> sem_cells" where
  "scePthreadSemTrywait sem cells = apfst sce_result (posix_sem_trywait sem cells)"

definition scePthreadSemPost :: "nat option \<Rightarrow> sem_cells \<Rightarrow> s32 \<times> sem_cells" where
  "scePthreadSemPost sem cells = apfst sce_result (posix_sem_post sem cells)"

definition scePthreadSemGetvalue :: "nat option \<Rightarrow> sem_cells \<Rightarrow> s32 \<times> s32 option" where
  "scePthreadSemGetvalue sem cells = apfst sce_result (posix_sem_getvalue sem cells)"

text \<open>The deadline that \<^verbatim>\<open>scePthreadSemTimedwait\<close> computes, in 64-bit arithmetic.\<close>

definition timedwait_deadline :: "OrbisKernelTimespec \<Rightarrow> nat \<Rightarrow> OrbisKernelTimespec" where
  "timedwait_deadline now usec =
     (let total_nsec = (tv_nsec now + int (usec mod 1000000) * 1000) mod 2 ^ 64
      in \<lparr>tv_sec = sint (word_of_int (tv_sec now + int (usec div 1000000) + total_nsec div 1000000000) :: 64 word),
          tv_nsec = total_nsec mod 1000000000\<rparr>)"

definition scePthreadSemTimedwait :: "nat option \<Rightarrow> sem_cells \<Rightarrow> s32 \<times> sem_cells" where
  "scePthreadSemTimedwait sem cells = apfst sce_result (posix_sem_timedwait sem cells)"

subsection \<open>Interleavings\<close>

datatype sem_pc = Idle | Acquired | Posting s32 | Releasing

datatype psem_event =
  WaitDone nat
| WaitFailed nat s32
| PostDone nat
| PostFailed nat
| Internal

inductive psem_step :: "PthreadSem \<times> (nat \<Rightarrow> sem_pc) \<Rightarrow> psem_event \<Rightarrow> PthreadSem \<times> (nat \<Rightarrow> sem_pc) \<Rightarrow> bool" where
  acquire: "pc t = Idle \<Longrightarrow> sem_try_acquire p = Some q \<Longrightarrow> psem_step (p, pc) Internal (q, pc(t := Acquired))"
| decrement: "pc t = Acquired \<Longrightarrow> psem_step (p, pc) (WaitDone t) (sem_decrement p, pc(t := Idle))"
| give_up: "pc t = Idle \<Longrightarrow> e \<in> {POSIX_EAGAIN, POSIX_ETIMEDOUT} \<Longrightarrow> psem_step (p, pc) (WaitFailed t e) (p, pc)"
| load: "pc t = Idle \<Longrightarrow> psem_step (p, pc) Internal (p, pc(t := Posting (ps_value p)))"
| overflow: "pc t = Posting ORBIS_KERNEL_SEM_VALUE_MAX \<Longrightarrow> psem_step (p, pc) (PostFailed t) (p, pc(t := Idle))"
| exchange: "pc t = Posting current \<Longrightarrow> current \<noteq> ORBIS_KERNEL_SEM_VALUE_MAX \<Longrightarrow>
    sem_compare_exchange current p = Inr q \<Longrightarrow> psem_step (p, pc) Internal (q, pc(t := Releasing))"
| retry: "pc t = Posting current \<Longrightarrow> current \<noteq> ORBIS_KERNEL_SEM_VALUE_MAX \<Longrightarrow>
    psem_step (p, pc) Internal (p, pc(t := Posting (ps_value p)))"
| release: "pc t = Releasing \<Longrightarrow> psem_step (p, pc) (PostDone t) (sem_release p, pc(t := Idle))"

inductive psem_run :: "PthreadSem \<times> (nat \<Rightarrow> sem_pc) \<Rightarrow> psem_event list \<Rightarrow> PthreadSem \<times> (nat \<Rightarrow> sem_pc) \<Rightarrow> bool" where
  none: "psem_run s [] s"
| more: "psem_run s es s' \<Longrightarrow> psem_step s' e s'' \<Longrightarrow> psem_run s (es @ [e]) s''"

subsection \<open>The mirror is exact\<close>

definition busy :: "(nat \<Rightarrow> sem_pc) \<Rightarrow> nat set" where
  "busy pc = {t. pc t \<noteq> Idle}"

definition at_pc :: "sem_pc \<Rightarrow> (nat \<Rightarrow> sem_pc) \<Rightarrow> nat" where
  "at_pc c pc = card {t. pc t = c}"

text \<open>
  \<^verbatim>\<open>value\<close> counts the permits of the host semaphore, the ones taken but not yet subtracted and the
  ones added but not yet released.
\<close>

definition psem_ok :: "PthreadSem \<times> (nat \<Rightarrow> sem_pc) \<Rightarrow> bool" where
  "psem_ok s \<longleftrightarrow> (case s of (p, pc) \<Rightarrow>
     finite (busy pc) \<and>
     ps_value p = int (ps_semaphore p) + int (at_pc Acquired pc) + int (at_pc Releasing pc) \<and>
     ps_value p \<le> ORBIS_KERNEL_SEM_VALUE_MAX \<and>
     (\<forall>t current. pc t = Posting current \<longrightarrow> 0 \<le> current \<and> current \<le> ORBIS_KERNEL_SEM_VALUE_MAX))"

lemma at_pc_upd:
  assumes fin: "finite (busy pc)" and c: "c \<noteq> Idle"
  shows "int (at_pc c (pc(t := d))) = int (at_pc c pc) - (if pc t = c then 1 else 0) + (if d = c then 1 else 0)"
proof -
  let ?S = "{u. pc u = c}"
  have finS: "finite ?S" by (rule finite_subset [OF _ fin]) (use c in \<open>auto simp: busy_def\<close>)
  have S': "{u. (pc(t := d)) u = c} = (if d = c then insert t (?S - {t}) else ?S - {t})" by auto
  have r: "card (?S - {t}) = card ?S - (if pc t = c then 1 else 0)" using finS by simp
  have pos: "pc t = c \<Longrightarrow> 0 < card ?S" using finS by (auto simp: card_gt_0_iff)
  show ?thesis unfolding at_pc_def S' using finS r pos by (auto simp: of_nat_diff insert_absorb)
qed

lemma finite_upd: "finite (busy pc) \<Longrightarrow> finite (busy (pc(t := d)))"
  by (rule finite_subset [of _ "insert t (busy pc)"]) (auto simp: busy_def)

lemma at_pc_pos:
  assumes "psem_ok (p, pc)" and "pc t = c" and "c \<noteq> Idle"
  shows "0 < at_pc c pc"
  using assms by (auto simp: psem_ok_def at_pc_def busy_def card_gt_0_iff intro: rev_finite_subset)

lemmas sem_access_defs = sem_try_acquire_def sem_decrement_def sem_release_def sem_compare_exchange_def

lemma psem_step_ok:
  assumes "psem_step s e s'" and "psem_ok s"
  shows "psem_ok s'"
  using assms
proof cases
  case (acquire pc t p q)
  then show ?thesis using assms(2)
    by (auto simp: psem_ok_def finite_upd at_pc_upd sem_access_defs split: if_splits)
next
  case (decrement pc t p)
  then have "0 < at_pc Acquired pc" using assms(2) at_pc_pos [of p pc t] by simp
  then have "wrap_s32 (ps_value p - 1) = ps_value p - 1"
    using assms(2) decrement(1) by (intro wrap_s32_exact) (auto simp: psem_ok_def ORBIS_KERNEL_SEM_VALUE_MAX_def)
  then show ?thesis using decrement assms(2)
    by (auto simp: psem_ok_def finite_upd at_pc_upd sem_access_defs split: if_splits)
next
  case (exchange pc t current p q)
  then have "0 \<le> current \<and> current \<le> ORBIS_KERNEL_SEM_VALUE_MAX" using assms(2) by (simp add: psem_ok_def)
  then have c: "0 \<le> current" "current < 2 ^ 31 - 1" using exchange(5) by (simp_all add: ORBIS_KERNEL_SEM_VALUE_MAX_def)
  then have "wrap_s32 (current + 1) = current + 1" by (intro wrap_s32_exact) auto
  then show ?thesis using exchange assms(2) c
    by (auto simp: psem_ok_def finite_upd at_pc_upd sem_access_defs ORBIS_KERNEL_SEM_VALUE_MAX_def split: if_splits)
qed (use assms(2) in \<open>auto simp: psem_ok_def finite_upd at_pc_upd sem_access_defs split: if_splits\<close>)

lemma psem_run_ok: "psem_run s es s' \<Longrightarrow> psem_ok s \<Longrightarrow> psem_ok s'"
  by (induction rule: psem_run.induct) (blast intro: psem_step_ok)+

lemma PthreadSem_new_ok:
  "0 \<le> v \<Longrightarrow> v \<le> ORBIS_KERNEL_SEM_VALUE_MAX \<Longrightarrow> psem_ok (PthreadSem_new v, \<lambda>_. Idle)"
  by (simp add: psem_ok_def PthreadSem_new_def at_pc_def busy_def)

fun post_count :: "psem_event \<Rightarrow> int" where
  "post_count (PostDone t) = 1"
| "post_count (WaitDone t) = - 1"
| "post_count e = 0"

text \<open>Permits, counting those a waiter has taken inside its call.\<close>

definition permits :: "PthreadSem \<times> (nat \<Rightarrow> sem_pc) \<Rightarrow> int" where
  "permits s = int (ps_semaphore (fst s)) + int (at_pc Acquired (snd s))"

lemma psem_step_permits:
  assumes "psem_step s e s'" and "psem_ok s"
  shows "permits s' = permits s + post_count e"
  using assms by cases (auto simp: permits_def psem_ok_def at_pc_upd sem_access_defs of_nat_diff split: if_splits)

lemma psem_run_permits:
  assumes "psem_run s es s'" and "psem_ok s"
  shows "permits s' = permits s + sum_list (map post_count es)"
  using assms
proof (induction rule: psem_run.induct)
  case (more s es s' e s'')
  then show ?case using psem_step_permits [OF more(2)] psem_run_ok [OF more(1)] by simp
qed simp

subsection \<open>Uninterrupted calls are runs\<close>

lemma psem_run_trans: "psem_run s' fs s'' \<Longrightarrow> psem_run s es s' \<Longrightarrow> psem_run s (es @ fs) s''"
proof (induction rule: psem_run.induct)
  case (more s' fs t e u)
  then show ?case using psem_run.more [of s "es @ fs" t e u] by simp
qed simp

lemma psem_run_one: "psem_step s e s' \<Longrightarrow> psem_run s [e] s'"
  using psem_run.more [OF psem_run.none, of s e s'] by simp

lemma posix_sem_post_run:
  assumes cell: "cells a = Some p" and idle: "pc t = Idle" and call: "posix_sem_post (Some a) cells = (r, cells')"
  shows "\<exists>es q. cells' a = Some q \<and> psem_run (p, pc) es (q, pc) \<and>
     es = (if fst r = 0 then [Internal, Internal, PostDone t] else [Internal, PostFailed t])"
proof (cases "ps_value p = ORBIS_KERNEL_SEM_VALUE_MAX")
  case True
  let ?pc1 = "pc(t := Posting (ps_value p))"
  have "psem_run (p, pc) [Internal] (p, ?pc1)" using idle by (intro psem_run_one psem_step.load)
  moreover have "psem_step (p, ?pc1) (PostFailed t) (p, ?pc1(t := Idle))" using True by (intro psem_step.overflow) simp
  ultimately have "psem_run (p, pc) ([Internal] @ [PostFailed t]) (p, ?pc1(t := Idle))" by (rule psem_run.more)
  moreover have "?pc1(t := Idle) = pc" using idle by auto
  ultimately show ?thesis using call cell True by (auto simp: posix_sem_post_def deref_def simp del: fun_upd_apply)
next
  case False
  let ?q = "p\<lparr>ps_value := wrap_s32 (ps_value p + 1)\<rparr>" and ?pc1 = "pc(t := Posting (ps_value p))"
  let ?pc2 = "?pc1(t := Releasing)"
  have "psem_run (p, pc) [Internal] (p, ?pc1)" using idle by (intro psem_run_one psem_step.load)
  moreover have "psem_step (p, ?pc1) Internal (?q, ?pc2)"
    using False by (intro psem_step.exchange [where current = "ps_value p"]) (simp_all add: sem_compare_exchange_def)
  ultimately have "psem_run (p, pc) ([Internal] @ [Internal]) (?q, ?pc2)" by (rule psem_run.more)
  moreover have "psem_step (?q, ?pc2) (PostDone t) (sem_release ?q, ?pc2(t := Idle))" by (intro psem_step.release) simp
  ultimately have "psem_run (p, pc) (([Internal] @ [Internal]) @ [PostDone t]) (sem_release ?q, ?pc2(t := Idle))" by (rule psem_run.more)
  moreover have "?pc2(t := Idle) = pc" using idle by auto
  ultimately show ?thesis
    using call cell False by (auto simp: posix_sem_post_def deref_def sem_compare_exchange_def)
qed

subsection \<open>Deadlines\<close>

definition nanos :: "OrbisKernelTimespec \<Rightarrow> int" where
  "nanos t = tv_sec t * 1000000000 + tv_nsec t"

lemma timedwait_deadline_nanos:
  assumes "0 \<le> tv_nsec now" "tv_nsec now < 1000000000" "0 \<le> tv_sec now" "tv_sec now < 2 ^ 62" "usec < 2 ^ 32"
  shows "nanos (timedwait_deadline now usec) = nanos now + int usec * 1000"
    and "0 \<le> tv_nsec (timedwait_deadline now usec)" and "tv_nsec (timedwait_deadline now usec) < 1000000000"
proof -
  define n where "n = tv_nsec now + int (usec mod 1000000) * 1000"
  define k where "k = tv_sec now + int (usec div 1000000) + n div 1000000000"
  have n: "0 \<le> n" "n < 2 * 1000000000" using assms(1,2) by (simp_all add: n_def)
  have "0 \<le> n div 1000000000" "n div 1000000000 < 2" using n by simp_all
  moreover have "int (usec div 1000000) \<le> int usec" by (rule of_nat_mono) simp
  moreover have "int usec < 2 ^ 32" using assms(5) by simp
  ultimately have k: "0 \<le> k" "k < 2 ^ 63" unfolding k_def using assms(3,4) by simp_all
  then have w: "sint (word_of_int k :: 64 word) = k" by (simp add: signed_of_int signed_take_bit_int_eq_self)
  have m: "n mod 2 ^ 64 = n" using n by simp
  have eq: "timedwait_deadline now usec = \<lparr>tv_sec = k, tv_nsec = n mod 1000000000\<rparr>"
    unfolding timedwait_deadline_def Let_def n_def [symmetric] m k_def [symmetric] w by simp
  have u: "int usec = int (usec div 1000000) * 1000000 + int (usec mod 1000000)"
    by (metis div_mult_mod_eq of_nat_add of_nat_mult of_nat_numeral)
  have d: "n div 1000000000 * 1000000000 + n mod 1000000000 = n" by simp
  show "nanos (timedwait_deadline now usec) = nanos now + int usec * 1000"
    unfolding eq nanos_def using d u by (simp add: k_def n_def algebra_simps)
  show "0 \<le> tv_nsec (timedwait_deadline now usec)" "tv_nsec (timedwait_deadline now usec) < 1000000000"
    unfolding eq by simp_all
qed

end
