(* ===== verification/Orbit_EventFlag.thy ===== *)
theory Orbit_EventFlag
  imports Orbit_Prelude
begin

unbundle bit_operations_syntax

text \<open>
  Event flags (\<^verbatim>\<open>src/core/libraries/kernel/threads/event_flag.cpp\<close>): 64 bits on which threads wait with
  a condition variable.  As for semaphores the sections between taking and giving up \<^verbatim>\<open>m_mutex\<close> are
  functions, and \<open>ef_step\<close> interleaves them.  The condition variable is modelled by a flag per waiting
  thread that \<^verbatim>\<open>notify_all\<close> sets; a thread that wakes up evaluates its condition and goes back to
  sleep when it does not hold.  The loops that poll \<^verbatim>\<open>m_status\<close> or \<^verbatim>\<open>m_waiting_threads\<close> are sections
  that can only run when the loop is left.
\<close>

subsection \<open>Data\<close>

datatype ClearMode = ClearNone | ClearAll | ClearBits
datatype WaitMode = WaitAnd | WaitOr
datatype ThreadMode = Single | Multi
datatype QueueMode = Fifo | ThreadPrio
datatype Status = Set | Canceled | Deleted

record EventFlagInternal =
  ef_status :: Status
  ef_waiting_threads :: int
  ef_name :: string
  ef_thread_mode :: ThreadMode
  ef_queue_mode :: QueueMode
  ef_bits :: "64 word"

definition EventFlagInternal_new :: "string \<Rightarrow> ThreadMode \<Rightarrow> QueueMode \<Rightarrow> 64 word \<Rightarrow> EventFlagInternal" where
  "EventFlagInternal_new name thread_mode queue_mode bits =
     \<lparr>ef_status = Set, ef_waiting_threads = 0, ef_name = name, ef_thread_mode = thread_mode,
      ef_queue_mode = queue_mode, ef_bits = bits\<rparr>"

subsection \<open>Sections\<close>

definition waitFunc :: "64 word \<Rightarrow> WaitMode \<Rightarrow> EventFlagInternal \<Rightarrow> bool" where
  "waitFunc bits wait_mode f \<longleftrightarrow> ef_status f = Canceled \<or> ef_status f = Deleted \<or>
     (wait_mode = WaitAnd \<and> ef_bits f AND bits = bits) \<or> (wait_mode = WaitOr \<and> ef_bits f AND bits \<noteq> 0)"

text \<open>Entering: refused in single-thread mode when a thread already waits.\<close>

definition Wait_start :: "EventFlagInternal \<Rightarrow> s32 + EventFlagInternal" where
  "Wait_start f =
     (if ef_thread_mode f = Single \<and> ef_waiting_threads f > 0 then Inl ORBIS_KERNEL_ERROR_EPERM
      else Inr (f\<lparr>ef_waiting_threads := ef_waiting_threads f + 1\<rparr>))"

text \<open>Leaving when the condition holds: result code, \<^verbatim>\<open>*result\<close> and the flag.\<close>

definition Wait_finish :: "64 word \<Rightarrow> ClearMode \<Rightarrow> EventFlagInternal \<Rightarrow> s32 \<times> 64 word \<times> EventFlagInternal" where
  "Wait_finish bits clear_mode f =
     (let f1 = f\<lparr>ef_waiting_threads := ef_waiting_threads f - 1\<rparr>; result = ef_bits f
      in if ef_status f1 = Canceled then (ORBIS_KERNEL_ERROR_ECANCELED, result, f1)
         else if ef_status f1 = Deleted then (ORBIS_KERNEL_ERROR_EACCES, result, f1)
         else (ORBIS_OK, result,
               case clear_mode of
                 ClearAll \<Rightarrow> f1\<lparr>ef_bits := 0\<rparr>
               | ClearBits \<Rightarrow> f1\<lparr>ef_bits := ef_bits f1 AND NOT bits\<rparr>
               | ClearNone \<Rightarrow> f1))"

definition Wait_time_left :: "nat option \<Rightarrow> nat \<Rightarrow> nat option" where
  "Wait_time_left ptr_micros elapsed = map_option (\<lambda>micros. if elapsed \<ge> micros then 0 else micros - elapsed) ptr_micros"

text \<open>Leaving when the time is up and the condition does not hold.\<close>

definition Wait_give_up :: "EventFlagInternal \<Rightarrow> s32 \<times> 64 word \<times> EventFlagInternal" where
  "Wait_give_up f = (ORBIS_KERNEL_ERROR_ETIMEDOUT, ef_bits f, f\<lparr>ef_waiting_threads := ef_waiting_threads f - 1\<rparr>)"

definition Poll_result :: "s32 \<Rightarrow> s32" where
  "Poll_result ret = (if ret = ORBIS_KERNEL_ERROR_ETIMEDOUT then ORBIS_KERNEL_ERROR_EBUSY else ret)"

text \<open>\<open>None\<close>: the loop that waits for the status goes on.\<close>

definition ef_Set :: "64 word \<Rightarrow> EventFlagInternal \<Rightarrow> EventFlagInternal option" where
  "ef_Set bits f = (if ef_status f \<noteq> Set then None else Some (f\<lparr>ef_bits := ef_bits f OR bits\<rparr>))"

definition ef_Clear :: "64 word \<Rightarrow> EventFlagInternal \<Rightarrow> EventFlagInternal option" where
  "ef_Clear bits f = (if ef_status f \<noteq> Set then None else Some (f\<lparr>ef_bits := ef_bits f AND bits\<rparr>))"

definition Cancel_end :: "EventFlagInternal \<Rightarrow> EventFlagInternal option" where
  "Cancel_end f = (if ef_waiting_threads f > 0 then None else Some (f\<lparr>ef_status := Set\<rparr>))"

text \<open>The result has the number of waiting threads, and whether \<^verbatim>\<open>Cancel\<close> has already ended.\<close>

definition Cancel_start :: "64 word \<Rightarrow> EventFlagInternal \<Rightarrow> (int \<times> bool \<times> EventFlagInternal) option" where
  "Cancel_start setPattern f =
     (if ef_status f \<noteq> Set then None
      else let f1 = f\<lparr>ef_status := Canceled, ef_bits := setPattern\<rparr>
           in Some (ef_waiting_threads f, case Cancel_end f1 of None \<Rightarrow> (False, f1) | Some f2 \<Rightarrow> (True, f2)))"

subsection \<open>Interleavings\<close>

text \<open>The arguments of a call of \<^verbatim>\<open>Wait\<close> that sleeps.\<close>

record sleeper =
  sl_bits :: "64 word"
  sl_wait_mode :: WaitMode
  sl_clear_mode :: ClearMode
  sl_micros :: "nat option"
  sl_notified :: bool

record ef_system =
  sy_flag :: EventFlagInternal
  sy_sleepers :: "nat \<Rightarrow> sleeper option"
  sy_cancelling :: bool

definition ef_boot :: "EventFlagInternal \<Rightarrow> ef_system" where
  "ef_boot f = \<lparr>sy_flag = f, sy_sleepers = Map.empty, sy_cancelling = False\<rparr>"

definition notify_all :: "(nat \<Rightarrow> sleeper option) \<Rightarrow> nat \<Rightarrow> sleeper option" where
  "notify_all S = (\<lambda>t. map_option (\<lambda>w. w\<lparr>sl_notified := True\<rparr>) (S t))"

definition holds :: "EventFlagInternal \<Rightarrow> sleeper \<Rightarrow> bool" where
  "holds f w \<longleftrightarrow> waitFunc (sl_bits w) (sl_wait_mode w) f"

text \<open>
  \<open>WaitRet\<close> carries the arguments of the call, its result and the bits it reports; \<open>CancelRet\<close> is the
  end of a call of \<^verbatim>\<open>Cancel\<close>.
\<close>

datatype ef_event =
  WaitRefused nat
| WaitSleep nat
| WaitRet nat sleeper s32 "64 word"
| StillAsleep nat
| SetCall "64 word"
| ClearCall "64 word"
| CancelBegin "64 word" int
| CancelRet

inductive ef_step :: "ef_system \<Rightarrow> ef_event \<Rightarrow> ef_system \<Rightarrow> bool" where
  refuse: "sy_sleepers s t = None \<Longrightarrow> Wait_start (sy_flag s) = Inl r \<Longrightarrow> ef_step s (WaitRefused t) s"
| at_once: "sy_sleepers s t = None \<Longrightarrow> Wait_start (sy_flag s) = Inr f \<Longrightarrow> holds f w \<Longrightarrow>
    Wait_finish (sl_bits w) (sl_clear_mode w) f = (r, res, f') \<Longrightarrow>
    ef_step s (WaitRet t w r res) (s\<lparr>sy_flag := f'\<rparr>)"
| sleep: "sy_sleepers s t = None \<Longrightarrow> Wait_start (sy_flag s) = Inr f \<Longrightarrow> \<not> holds f w \<Longrightarrow> \<not> sl_notified w \<Longrightarrow>
    ef_step s (WaitSleep t) (s\<lparr>sy_flag := f, sy_sleepers := (sy_sleepers s)(t \<mapsto> w)\<rparr>)"
| awake: "sy_sleepers s t = Some w \<Longrightarrow> holds (sy_flag s) w \<Longrightarrow>
    Wait_finish (sl_bits w) (sl_clear_mode w) (sy_flag s) = (r, res, f') \<Longrightarrow>
    ef_step s (WaitRet t w r res) (s\<lparr>sy_flag := f', sy_sleepers := (sy_sleepers s)(t := None)\<rparr>)"
| back_to_sleep: "sy_sleepers s t = Some w \<Longrightarrow> \<not> holds (sy_flag s) w \<Longrightarrow>
    ef_step s (StillAsleep t) (s\<lparr>sy_sleepers := (sy_sleepers s)(t \<mapsto> w\<lparr>sl_notified := False\<rparr>)\<rparr>)"
| expire: "sy_sleepers s t = Some w \<Longrightarrow> sl_micros w \<noteq> None \<Longrightarrow> \<not> holds (sy_flag s) w \<Longrightarrow>
    Wait_give_up (sy_flag s) = (r, res, f') \<Longrightarrow>
    ef_step s (WaitRet t w r res) (s\<lparr>sy_flag := f', sy_sleepers := (sy_sleepers s)(t := None)\<rparr>)"
| set: "ef_Set bits (sy_flag s) = Some f \<Longrightarrow>
    ef_step s (SetCall bits) (s\<lparr>sy_flag := f, sy_sleepers := notify_all (sy_sleepers s)\<rparr>)"
| clear: "ef_Clear bits (sy_flag s) = Some f \<Longrightarrow> ef_step s (ClearCall bits) (s\<lparr>sy_flag := f\<rparr>)"
| cancel: "Cancel_start pat (sy_flag s) = Some (n, fin, f) \<Longrightarrow>
    ef_step s (CancelBegin pat n)
      (s\<lparr>sy_flag := f, sy_sleepers := notify_all (sy_sleepers s), sy_cancelling := \<not> fin\<rparr>)"
| cancelled: "sy_cancelling s \<Longrightarrow> Cancel_end (sy_flag s) = Some f \<Longrightarrow>
    ef_step s CancelRet (s\<lparr>sy_flag := f, sy_cancelling := False\<rparr>)"

inductive_cases ef_stepE: "ef_step s e s'"

inductive ef_run :: "ef_system \<Rightarrow> ef_event list \<Rightarrow> ef_system \<Rightarrow> bool" where
  none: "ef_run s [] s"
| more: "ef_run s es s' \<Longrightarrow> ef_step s' e s'' \<Longrightarrow> ef_run s (es @ [e]) s''"

subsection \<open>The kernel calls\<close>

text \<open>
  Arguments; \<open>None\<close> is the abort of \<^verbatim>\<open>UNREACHABLE\<close>.  The flag pointer is \<open>None\<close> when it is null.
\<close>

definition decode_queue_mode :: "32 word \<Rightarrow> QueueMode option" where
  "decode_queue_mode attr =
     (let a = attr AND 0xf in if a = 1 then Some Fifo else if a = 2 then Some ThreadPrio else if a = 0 then Some Fifo else None)"

definition decode_thread_mode :: "32 word \<Rightarrow> ThreadMode option" where
  "decode_thread_mode attr =
     (let a = attr AND 0xf0 in if a = 0x10 then Some Single else if a = 0x20 then Some Multi else if a = 0 then Some Single else None)"

definition sceKernelCreateEventFlag ::
    "bool \<Rightarrow> string option \<Rightarrow> 32 word \<Rightarrow> 64 word \<Rightarrow> bool \<Rightarrow> (s32 + EventFlagInternal) option" where
  "sceKernelCreateEventFlag ef_null pName attr initPattern pOptParam =
     (case pName of
        None \<Rightarrow> Some (Inl ORBIS_KERNEL_ERROR_EINVAL)
      | Some name \<Rightarrow>
          if ef_null then Some (Inl ORBIS_KERNEL_ERROR_EINVAL)
          else if pOptParam \<or> attr > 0x22 then Some (Inl ORBIS_KERNEL_ERROR_EINVAL)
          else if length name \<ge> 32 then Some (Inl ORBIS_KERNEL_ERROR_ENAMETOOLONG)
          else (case decode_queue_mode attr of
                  None \<Rightarrow> None
                | Some queue_mode \<Rightarrow>
                    (case decode_thread_mode attr of
                       None \<Rightarrow> None
                     | Some thread_mode \<Rightarrow> Some (Inr (EventFlagInternal_new name thread_mode queue_mode initPattern)))))"

definition decode_wait :: "32 word \<Rightarrow> WaitMode option" where
  "decode_wait waitMode = (let m = waitMode AND 0xf in if m = 1 then Some WaitAnd else if m = 2 then Some WaitOr else None)"

definition decode_clear :: "32 word \<Rightarrow> ClearMode option" where
  "decode_clear waitMode =
     (let m = waitMode AND 0xf0 in
      if m = 0 then Some ClearNone else if m = 0x10 then Some ClearAll else if m = 0x20 then Some ClearBits else None)"

text \<open>
  The common head of \<^verbatim>\<open>sceKernelPollEventFlag\<close> and \<^verbatim>\<open>sceKernelWaitEventFlag\<close>: an error code, or the
  call of \<^verbatim>\<open>Wait\<close> they make.
\<close>

definition wait_arguments :: "bool \<Rightarrow> 64 word \<Rightarrow> 32 word \<Rightarrow> nat option \<Rightarrow> (s32 + sleeper) option" where
  "wait_arguments ef_null bitPattern waitMode pTimeout =
     (if ef_null then Some (Inl ORBIS_KERNEL_ERROR_ESRCH)
      else if bitPattern = 0 then Some (Inl ORBIS_KERNEL_ERROR_EINVAL)
      else (case decode_wait waitMode of
              None \<Rightarrow> None
            | Some wait \<Rightarrow>
                (case decode_clear waitMode of
                   None \<Rightarrow> None
                 | Some clear \<Rightarrow> Some (Inr \<lparr>sl_bits = bitPattern, sl_wait_mode = wait, sl_clear_mode = clear,
                                         sl_micros = pTimeout, sl_notified = False\<rparr>))))"

text \<open>A poll is a wait for no time; run without interference it always returns.\<close>

definition ef_Poll :: "64 word \<Rightarrow> WaitMode \<Rightarrow> ClearMode \<Rightarrow> EventFlagInternal \<Rightarrow> s32 \<times> 64 word option \<times> EventFlagInternal" where
  "ef_Poll bits wait_mode clear_mode f =
     (case Wait_start f of
        Inl r \<Rightarrow> (Poll_result r, None, f)
      | Inr f1 \<Rightarrow>
          let (r, res, f2) = (if waitFunc bits wait_mode f1 then Wait_finish bits clear_mode f1 else Wait_give_up f1)
          in (Poll_result r, Some res, f2))"

definition sceKernelPollEventFlag :: "EventFlagInternal option \<Rightarrow> 64 word \<Rightarrow> 32 word \<Rightarrow>
    (s32 \<times> 64 word option \<times> EventFlagInternal option) option" where
  "sceKernelPollEventFlag ef bitPattern waitMode =
     (case wait_arguments (ef = None) bitPattern waitMode (Some 0) of
        None \<Rightarrow> None
      | Some (Inl r) \<Rightarrow> Some (r, None, ef)
      | Some (Inr w) \<Rightarrow>
          (case ef of
             None \<Rightarrow> None
           | Some f \<Rightarrow> let (r, res, f') = ef_Poll bitPattern (sl_wait_mode w) (sl_clear_mode w) f in Some (r, res, Some f')))"


subsection \<open>The invariant\<close>

text \<open>
  The counter is the number of sleeping threads, at most one in single-thread mode; the flag is
  cancelled exactly while a call of \<^verbatim>\<open>Cancel\<close> is under way, and never deleted; and a thread whose
  condition holds has been notified: no wake-up is lost.
\<close>

definition ef_ok :: "ef_system \<Rightarrow> bool" where
  "ef_ok s \<longleftrightarrow> finite (dom (sy_sleepers s)) \<and>
     ef_waiting_threads (sy_flag s) = int (card (dom (sy_sleepers s))) \<and>
     (ef_thread_mode (sy_flag s) = Single \<longrightarrow> card (dom (sy_sleepers s)) \<le> 1) \<and>
     ef_status (sy_flag s) = (if sy_cancelling s then Canceled else Set) \<and>
     (\<forall>t w. sy_sleepers s t = Some w \<longrightarrow> holds (sy_flag s) w \<longrightarrow> sl_notified w)"

lemma ef_okD:
  assumes "ef_ok s"
  shows "finite (dom (sy_sleepers s))"
    and "ef_waiting_threads (sy_flag s) = int (card (dom (sy_sleepers s)))"
    and "ef_thread_mode (sy_flag s) = Single \<Longrightarrow> card (dom (sy_sleepers s)) \<le> 1"
    and "ef_status (sy_flag s) = (if sy_cancelling s then Canceled else Set)"
    and "sy_sleepers s t = Some w \<Longrightarrow> holds (sy_flag s) w \<Longrightarrow> sl_notified w"
  using assms unfolding ef_ok_def by blast+

lemma ef_boot_ok: "ef_ok (ef_boot (EventFlagInternal_new name tm qm bits))"
  by (simp add: ef_ok_def ef_boot_def EventFlagInternal_new_def)

lemma holds_fewer_bits:
  assumes "ef_status f' = ef_status f" and "ef_bits f' = ef_bits f AND m" and "holds f' w"
  shows "holds f w"
proof -
  have 1: "x AND b = b" if "(x AND m) AND b = b" for x b :: "64 word"
  proof -
    have "x AND b = x AND ((x AND m) AND b)" using that by simp
    also have "\<dots> = (x AND m) AND b" by (simp add: ac_simps)
    finally show ?thesis using that by simp
  qed
  have 2: "x AND b \<noteq> 0" if "(x AND m) AND b \<noteq> 0" for x b :: "64 word"
  proof
    assume z: "x AND b = 0"
    have "(x AND m) AND b = m AND (x AND b)" by (simp add: ac_simps)
    then show False using that z by simp
  qed
  show ?thesis using assms(3) unfolding holds_def waitFunc_def assms(1,2) by (auto dest: 1 2)
qed

lemma holds_waiting [simp]: "holds (f\<lparr>ef_waiting_threads := n\<rparr>) w = holds f w"
  by (simp add: holds_def waitFunc_def)

lemma Wait_start_cases:
  assumes "Wait_start f = Inr f1"
  shows "f1 = f\<lparr>ef_waiting_threads := ef_waiting_threads f + 1\<rparr>" and "ef_thread_mode f = Single \<Longrightarrow> ef_waiting_threads f \<le> 0"
  using assms by (auto simp: Wait_start_def split: if_splits)

lemma Wait_finish_cases:
  assumes "Wait_finish bits cm f = (r, res, f')"
  shows "ef_status f' = ef_status f" and "ef_waiting_threads f' = ef_waiting_threads f - 1"
    and "ef_thread_mode f' = ef_thread_mode f" and "res = ef_bits f" and "\<exists>m. ef_bits f' = ef_bits f AND m"
    and "ef_status f = Canceled \<Longrightarrow> r = ORBIS_KERNEL_ERROR_ECANCELED \<and> ef_bits f' = ef_bits f"
    and "ef_status f = Set \<Longrightarrow> r = ORBIS_OK \<and>
      ef_bits f' = (case cm of ClearAll \<Rightarrow> 0 | ClearBits \<Rightarrow> ef_bits f AND NOT bits | ClearNone \<Rightarrow> ef_bits f)"
proof -
  have "\<exists>m. ef_bits f = ef_bits f AND m" by (rule exI [of _ "- 1"]) simp
  moreover have "\<exists>m. ef_bits f AND m = 0" by (rule exI [of _ 0]) simp
  ultimately show "\<exists>m. ef_bits f' = ef_bits f AND m"
    using assms by (auto simp: Wait_finish_def Let_def split: if_splits ClearMode.splits)
qed (use assms in \<open>auto simp: Wait_finish_def Let_def split: if_splits ClearMode.splits\<close>)

lemma ef_ok_at_once:
  assumes ok: "ef_ok s" and st: "Wait_start (sy_flag s) = Inr f" and fin: "Wait_finish b cm f = (r, res, f')"
  shows "ef_ok (s\<lparr>sy_flag := f'\<rparr>)"
proof -
  note D = ef_okD [OF ok] and W = Wait_start_cases [OF st] and F = Wait_finish_cases [OF fin]
  obtain m where m: "ef_bits f' = ef_bits f AND m" using F(5) by blast
  have "holds (sy_flag s) w" if "holds f' w" for w
    using that by (intro holds_fewer_bits [of f' "sy_flag s" m]) (simp_all add: F m W(1))
  then show ?thesis using D F W(1) unfolding ef_ok_def by auto
qed

lemma ef_ok_leave:
  assumes ok: "ef_ok s" and t: "sy_sleepers s t = Some w"
    and f': "ef_status f' = ef_status (sy_flag s)" "ef_waiting_threads f' = ef_waiting_threads (sy_flag s) - 1"
      "ef_thread_mode f' = ef_thread_mode (sy_flag s)" "ef_bits f' = ef_bits (sy_flag s) AND m"
  shows "ef_ok (s\<lparr>sy_flag := f', sy_sleepers := (sy_sleepers s)(t := None)\<rparr>)"
proof -
  note D = ef_okD [OF ok]
  have dom: "dom ((sy_sleepers s)(t := None)) = dom (sy_sleepers s) - {t}" by auto
  have td: "t \<in> dom (sy_sleepers s)" using t by auto
  have c: "int (card (dom (sy_sleepers s) - {t})) = int (card (dom (sy_sleepers s))) - 1"
    using card_Suc_Diff1 [OF D(1) td] by linarith
  have "holds (sy_flag s) v" if "holds f' v" for v using that f'(1,4) by (intro holds_fewer_bits [of f' "sy_flag s" m])
  moreover have "card (dom (sy_sleepers s) - {t}) \<le> 1" if "ef_thread_mode f' = Single"
    using D(3) that f'(3) c by simp
  ultimately show ?thesis using D f'(1,2) c unfolding ef_ok_def by (auto simp: dom split: if_splits)
qed

lemma ef_ok_sleep:
  assumes ok: "ef_ok s" and t: "sy_sleepers s t = None" and st: "Wait_start (sy_flag s) = Inr f" and nh: "\<not> holds f w"
  shows "ef_ok (s\<lparr>sy_flag := f, sy_sleepers := (sy_sleepers s)(t \<mapsto> w)\<rparr>)"
proof -
  note D = ef_okD [OF ok] and W = Wait_start_cases [OF st]
  have "t \<notin> dom (sy_sleepers s)" using t by auto
  then have c: "card (insert t (dom (sy_sleepers s))) = Suc (card (dom (sy_sleepers s)))" using D(1) by simp
  have "ef_thread_mode (sy_flag s) = Single \<Longrightarrow> card (dom (sy_sleepers s)) = 0" using W(2) D(2) by simp
  then show ?thesis using D W(1) nh c unfolding ef_ok_def by (auto split: if_splits)
qed

lemma dom_notify_all [simp]: "dom (notify_all S) = dom S"
  by (auto simp: notify_all_def)

lemma notified_all: "notify_all S t = Some w \<Longrightarrow> sl_notified w"
  by (auto simp: notify_all_def)

lemma Cancel_start_cases:
  assumes "Cancel_start pat f = Some (n, fin, f')"
  shows "ef_status f = Set" and "n = ef_waiting_threads f" and "ef_status f' = (if fin then Set else Canceled)"
    and "fin \<longleftrightarrow> ef_waiting_threads f \<le> 0" and "ef_waiting_threads f' = ef_waiting_threads f"
    and "ef_thread_mode f' = ef_thread_mode f" and "ef_bits f' = pat"
  using assms by (auto simp: Cancel_start_def Cancel_end_def Let_def split: if_splits)

lemma ef_step_ok:
  assumes "ef_step s e s'" and ok: "ef_ok s"
  shows "ef_ok s'"
  using assms(1)
proof cases
  case (at_once t f w r res f')
  then show ?thesis using ef_ok_at_once [OF ok] by blast
next
  case (sleep t f w)
  then show ?thesis using ef_ok_sleep [OF ok] by blast
next
  case (awake t w r res f')
  note F = Wait_finish_cases [OF awake(5)]
  obtain m where "ef_bits f' = ef_bits (sy_flag s) AND m" using F(5) by blast
  then show ?thesis unfolding awake(2) using ef_ok_leave [OF ok awake(3)] F(1-3) by blast
next
  case (back_to_sleep t w)
  have "dom ((sy_sleepers s)(t \<mapsto> w\<lparr>sl_notified := False\<rparr>)) = dom (sy_sleepers s)" using back_to_sleep(3) by auto
  moreover have "holds (sy_flag s) (w\<lparr>sl_notified := False\<rparr>) = holds (sy_flag s) w" by (simp add: holds_def)
  ultimately show ?thesis using back_to_sleep ef_okD [OF ok] unfolding ef_ok_def by (auto split: if_splits)
next
  case (expire t w r res f')
  then have "f' = (sy_flag s)\<lparr>ef_waiting_threads := ef_waiting_threads (sy_flag s) - 1\<rparr>" by (simp add: Wait_give_up_def)
  then show ?thesis unfolding expire(2) by (intro ef_ok_leave [OF ok expire(3), where m = "- 1"]) simp_all
next
  case (set bits f)
  then show ?thesis using ef_okD [OF ok] unfolding ef_ok_def by (auto simp: ef_Set_def notified_all split: if_splits)
next
  case (clear bits f)
  then have "holds (sy_flag s) w" if "holds f w" for w
    using that by (intro holds_fewer_bits [of f "sy_flag s" bits]) (auto simp: ef_Clear_def split: if_splits)
  then show ?thesis using clear ef_okD [OF ok] unfolding ef_ok_def by (auto simp: ef_Clear_def split: if_splits)
next
  case (cancel pat n fin f)
  note C = Cancel_start_cases [OF cancel(3)]
  show ?thesis unfolding cancel(2) using C ef_okD [OF ok] unfolding ef_ok_def by (auto simp: notified_all)
next
  case (cancelled f)
  then have "card (dom (sy_sleepers s)) = 0" using ef_okD(2) [OF ok] by (simp add: Cancel_end_def split: if_splits)
  then have "sy_sleepers s = Map.empty" using ef_okD(1) [OF ok] by simp
  then show ?thesis using cancelled ef_okD [OF ok] unfolding ef_ok_def by (auto simp: Cancel_end_def split: if_splits)
qed (use ok in simp)

lemma ef_run_ok: "ef_run s es s' \<Longrightarrow> ef_ok s \<Longrightarrow> ef_ok s'"
  by (induction rule: ef_run.induct) (blast intro: ef_step_ok)+


subsection \<open>What a return of \<^verbatim>\<open>Wait\<close> means\<close>

definition satisfied :: "sleeper \<Rightarrow> 64 word \<Rightarrow> bool" where
  "satisfied w bits \<longleftrightarrow> (case sl_wait_mode w of WaitAnd \<Rightarrow> bits AND sl_bits w = sl_bits w | WaitOr \<Rightarrow> bits AND sl_bits w \<noteq> 0)"

definition cleared :: "sleeper \<Rightarrow> 64 word \<Rightarrow> 64 word" where
  "cleared w bits = (case sl_clear_mode w of ClearAll \<Rightarrow> 0 | ClearBits \<Rightarrow> bits AND NOT (sl_bits w) | ClearNone \<Rightarrow> bits)"

lemma holds_iff: "holds f w \<longleftrightarrow> ef_status f \<noteq> Set \<or> satisfied w (ef_bits f)"
  by (cases "ef_status f"; cases "sl_wait_mode w") (simp_all add: holds_def waitFunc_def satisfied_def)

definition wait_outcome :: "ef_system \<Rightarrow> sleeper \<Rightarrow> s32 \<Rightarrow> ef_system \<Rightarrow> bool" where
  "wait_outcome s w r s' \<longleftrightarrow>
     (let b = ef_bits (sy_flag s); b' = ef_bits (sy_flag s') in
      (r = ORBIS_OK \<and> \<not> sy_cancelling s \<and> satisfied w b \<and> b' = cleared w b) \<or>
      (r = ORBIS_KERNEL_ERROR_ECANCELED \<and> sy_cancelling s \<and> b' = b) \<or>
      (r = ORBIS_KERNEL_ERROR_ETIMEDOUT \<and> \<not> sy_cancelling s \<and> sl_micros w \<noteq> None \<and> \<not> satisfied w b \<and> b' = b))"

lemma Wait_finish_outcome:
  assumes ok: "ef_ok s" and h: "holds f w" and f: "ef_status f = ef_status (sy_flag s)" "ef_bits f = ef_bits (sy_flag s)"
    and fin: "Wait_finish (sl_bits w) (sl_clear_mode w) f = (r, res, f')" and s': "sy_flag s' = f'"
  shows "res = ef_bits (sy_flag s) \<and> wait_outcome s w r s'"
proof -
  note F = Wait_finish_cases [OF fin] and D = ef_okD [OF ok]
  show ?thesis
  proof (cases "sy_cancelling s")
    case True
    then show ?thesis using F(4,6) D(4) f s' by (simp add: wait_outcome_def)
  next
    case False
    then show ?thesis using F(4,7) D(4) f s' h by (cases "sl_clear_mode w") (simp_all add: wait_outcome_def holds_iff cleared_def)
  qed
qed

lemma WaitRet_outcome:
  assumes step: "ef_step s (WaitRet t w r res) s'" and ok: "ef_ok s"
  shows "res = ef_bits (sy_flag s) \<and> wait_outcome s w r s' \<and> sy_sleepers s' t = None \<and> sy_cancelling s' = sy_cancelling s"
  using step
proof cases
  case (at_once f f')
  then show ?thesis using Wait_finish_outcome [OF ok at_once(4) _ _ at_once(5), of s'] Wait_start_cases(1) [OF at_once(3)] by simp
next
  case (awake f')
  then show ?thesis using Wait_finish_outcome [OF ok awake(3) _ _ awake(4), of s'] by simp
next
  case (expire f')
  then show ?thesis using ef_okD(4) [OF ok] by (auto simp: Wait_give_up_def wait_outcome_def holds_iff split: if_splits)
qed

subsection \<open>Cancelling\<close>

text \<open>Until \<^verbatim>\<open>Cancel\<close> returns, only waits end, all of them cancelled.\<close>

definition cancel_event :: "64 word \<Rightarrow> ef_event \<Rightarrow> bool" where
  "cancel_event pat e \<longleftrightarrow> (case e of
     WaitRet t w r res \<Rightarrow> r = ORBIS_KERNEL_ERROR_ECANCELED \<and> res = pat
   | WaitRefused t \<Rightarrow> True
   | _ \<Rightarrow> False)"

definition left_cancelled :: "64 word \<Rightarrow> ef_event list \<Rightarrow> nat set" where
  "left_cancelled pat es = {t. \<exists>w. WaitRet t w ORBIS_KERNEL_ERROR_ECANCELED pat \<in> set es}"

lemma cancelling_step:
  assumes step: "ef_step s e s'" and ok: "ef_ok s" and c: "sy_cancelling s" and e: "e \<noteq> CancelRet"
  shows "sy_cancelling s' \<and> ef_bits (sy_flag s') = ef_bits (sy_flag s) \<and> cancel_event (ef_bits (sy_flag s)) e \<and>
    dom (sy_sleepers s) \<subseteq> dom (sy_sleepers s') \<union> left_cancelled (ef_bits (sy_flag s)) [e]"
proof -
  have st: "ef_status (sy_flag s) = Canceled" using ef_okD(4) [OF ok] c by simp
  have h: "holds (sy_flag s) w" for w by (simp add: holds_iff st)
  show ?thesis using step
  proof cases
    case (at_once t f w r res f')
    have "wait_outcome s w r s'" "res = ef_bits (sy_flag s)" using WaitRet_outcome [of s t w r res s'] step at_once(1) ok by simp_all
    then show ?thesis using c at_once(1,2) by (simp add: wait_outcome_def Let_def cancel_event_def)
  next
    case (awake t w r res f')
    have o: "wait_outcome s w r s'" "res = ef_bits (sy_flag s)" using WaitRet_outcome [of s t w r res s'] step awake(1) ok by simp_all
    then have r: "r = ORBIS_KERNEL_ERROR_ECANCELED" "ef_bits (sy_flag s') = ef_bits (sy_flag s)"
      using c by (simp_all add: wait_outcome_def Let_def)
    then have "left_cancelled (ef_bits (sy_flag s)) [e] = {t}" using awake(1) o(2) by (auto simp: left_cancelled_def)
    then show ?thesis using c awake(1,2) r o(2) by (auto simp: cancel_event_def)
  next
    case (sleep t f w)
    then show ?thesis using Wait_start_cases(1) [OF sleep(4)] st by (simp add: holds_iff)
  qed (use e st h c in \<open>auto simp: cancel_event_def ef_Set_def ef_Clear_def Cancel_start_def left_cancelled_def split: if_splits\<close>)
qed

lemma cancelling_run:
  assumes "ef_run s es s'" and "ef_ok s" and "sy_cancelling s" and "CancelRet \<notin> set es"
  shows "sy_cancelling s' \<and> ef_bits (sy_flag s') = ef_bits (sy_flag s) \<and> (\<forall>e \<in> set es. cancel_event (ef_bits (sy_flag s)) e) \<and>
    dom (sy_sleepers s) \<subseteq> dom (sy_sleepers s') \<union> left_cancelled (ef_bits (sy_flag s)) es"
  using assms
proof (induction rule: ef_run.induct)
  case (more s es s' e s'')
  then have IH: "sy_cancelling s'" "ef_bits (sy_flag s') = ef_bits (sy_flag s)" "\<forall>e \<in> set es. cancel_event (ef_bits (sy_flag s)) e"
    "dom (sy_sleepers s) \<subseteq> dom (sy_sleepers s') \<union> left_cancelled (ef_bits (sy_flag s)) es" by simp_all
  have "ef_ok s'" using ef_run_ok more by blast
  from cancelling_step [OF more(2) this IH(1)] more.prems(3)
  have st: "sy_cancelling s''" "ef_bits (sy_flag s'') = ef_bits (sy_flag s)" "cancel_event (ef_bits (sy_flag s)) e"
    "dom (sy_sleepers s') \<subseteq> dom (sy_sleepers s'') \<union> left_cancelled (ef_bits (sy_flag s)) [e]"
    by (auto simp: IH(2))
  have "left_cancelled pat (es @ [e]) = left_cancelled pat es \<union> left_cancelled pat [e]" for pat
    by (auto simp: left_cancelled_def)
  moreover have "dom (sy_sleepers s) \<subseteq> dom (sy_sleepers s'') \<union>
      (left_cancelled (ef_bits (sy_flag s)) es \<union> left_cancelled (ef_bits (sy_flag s)) [e])" using IH(4) st(4) by blast
  ultimately show ?case using IH(3) st(1-3) by simp
qed simp

lemma CancelRet_cases:
  assumes step: "ef_step s CancelRet s'" and ok: "ef_ok s"
  shows "sy_sleepers s = Map.empty" and "sy_sleepers s' = Map.empty" and "ef_bits (sy_flag s') = ef_bits (sy_flag s)"
    and "ef_status (sy_flag s') = Set" and "sy_cancelling s"
proof -
  obtain f where f: "sy_cancelling s" "Cancel_end (sy_flag s) = Some f" "s' = s\<lparr>sy_flag := f, sy_cancelling := False\<rparr>"
    using step by cases auto
  then have "card (dom (sy_sleepers s)) = 0" using ef_okD(2) [OF ok] by (simp add: Cancel_end_def split: if_splits)
  then show "sy_sleepers s = Map.empty" using ef_okD(1) [OF ok] by simp
  then show "sy_sleepers s' = Map.empty" using f(3) by simp
  show "ef_bits (sy_flag s') = ef_bits (sy_flag s)" "ef_status (sy_flag s') = Set" "sy_cancelling s"
    using f by (auto simp: Cancel_end_def split: if_splits)
qed

lemma ef_run_Cons: "ef_run s' es s'' \<Longrightarrow> ef_step s e s' \<Longrightarrow> ef_run s (e # es) s''"
proof (induction rule: ef_run.induct)
  case (none s')
  then show ?case using ef_run.more [OF ef_run.none, of s e s'] by simp
next
  case (more s' es t f u)
  then show ?case using ef_run.more [of s "e # es" t f u] by simp
qed

text \<open>And it can return: every sleeping thread runs once.\<close>

lemma cancel_can_end:
  assumes "ef_ok s" and "sy_cancelling s" and "card (dom (sy_sleepers s)) = n"
  shows "\<exists>es s' s''. length es = n \<and> ef_run s es s' \<and> ef_step s' CancelRet s''"
  using assms
proof (induction n arbitrary: s)
  case 0
  then have "Cancel_end (sy_flag s) = Some ((sy_flag s)\<lparr>ef_status := Set\<rparr>)"
    using ef_okD(2) [OF 0(1)] by (simp add: Cancel_end_def)
  then show ?case using ef_run.none ef_step.cancelled [OF 0(2)] by fastforce
next
  case (Suc n)
  then obtain t w where t: "sy_sleepers s t = Some w" using ef_okD(1) by (metis card.empty domD dom_empty ex_in_conv nat.distinct(1))
  have h: "holds (sy_flag s) w" using ef_okD(4) [OF Suc.prems(1)] Suc.prems(2) by (simp add: holds_iff)
  obtain r res f' where fin: "Wait_finish (sl_bits w) (sl_clear_mode w) (sy_flag s) = (r, res, f')" by (metis prod_cases3)
  let ?s' = "s\<lparr>sy_flag := f', sy_sleepers := (sy_sleepers s)(t := None)\<rparr>"
  have step: "ef_step s (WaitRet t w r res) ?s'" by (rule ef_step.awake [OF t h fin])
  have "dom (sy_sleepers ?s') = dom (sy_sleepers s) - {t}" by auto
  moreover have "t \<in> dom (sy_sleepers s)" using t by auto
  ultimately have c: "card (dom (sy_sleepers ?s')) = n" using Suc.prems(3) ef_okD(1) [OF Suc.prems(1)] by simp
  have ca: "sy_cancelling ?s'" using Suc.prems(2) by simp
  obtain es s' s'' where "length es = n" "ef_run ?s' es s'" "ef_step s' CancelRet s''"
    using Suc.IH [OF ef_step_ok [OF step Suc.prems(1)] ca c] by blast
  then show ?case using ef_run_Cons [OF _ step] by (metis length_Cons)
qed

end
