(* ===== verification/Orbit_Sync.thy ===== *)
theory Orbit_Sync
  imports Orbit_Semaphore Orbit_PosixSem Orbit_EventFlag
begin

text \<open>
  The properties of semaphores and event flags, over all interleavings of their sections, with runs
  that show that the hypotheses can be met.
\<close>

section \<open>Semaphores\<close>

text \<open>A sound semaphore on which thread 7 waits for two tokens, and then three arrive.\<close>

definition sem_waiting :: OrbisSem where
  "sem_waiting = snd (Wait_enter 7 700 True 2 None (OrbisSem_new 0 5 ''s'' True))"


lemma sem_waiting_run: "sem_run (OrbisSem_new 0 5 ''s'' True) [WaitCall 7 2 None None] sem_waiting"
proof -
  have "sem_step (OrbisSem_new 0 5 ''s'' True) (WaitCall 7 2 None None) sem_waiting"
    by (rule sem_step.enter [where prio = 700 and can_block = True])
      (simp_all add: sem_waiting_def Wait_enter_def OrbisSem_new_def)
  from sem_run.more [OF sem_run.none this] show ?thesis by simp
qed







text \<open>
  C11: \<open>Signal\<close> in a state that the semaphore can get into when no call asks for a negative number of tokens, with a
  count that neither overflows nor makes the tokens negative, fails and changes nothing when the tokens would exceed the
  maximum.  Otherwise it walks the list once in order: a thread is served exactly when what the served threads before it
  have left covers its need, the others keep their order, exactly the served ones are released, and the tokens go down
  by what they take.
\<close>

theorem Signal_serves_in_order:
  assumes "sem_run (OrbisSem_new i m name fifo) es s"
    and "\<forall>t need timeout r. WaitCall t need timeout r \<in> set es \<longrightarrow> 0 \<le> need"
    and "0 \<le> os_token_count s + c" and "os_token_count s + c < 2 ^ 31"
  shows "if os_token_count s + c > m then Signal c s = (False, s)
     else \<exists>s'. Signal c s = (True, s') \<and>
       pass_ok (os_wait_list s) (os_token_count s + c) (os_waiters s) (os_wait_list s') (os_token_count s') (os_waiters s')"
proof -
  have shape: "sem_shape s" by (rule sem_run_shape [OF assms(1) OrbisSem_new_shape])
  have needs: "\<forall>t w. os_waiters s t = Some w \<longrightarrow> 0 \<le> wt_need_count w"
    by (rule sem_run_needs [OF assms(1) OrbisSem_new_shape assms(2)]) (simp add: OrbisSem_new_def)
  then have ws: "\<forall>t \<in> set (os_wait_list s). \<exists>w. os_waiters s t = Some w \<and> 0 \<le> wt_need_count w"
    using sem_shapeD(2) [OF shape] by blast
  have m: "os_max_count s = m" using sem_run_fixed [OF assms(1)] by (simp add: OrbisSem_new_def)
  obtain b s' where call: "Signal c s = (b, s')" by fastforce
  from Signal_cases [OF sem_shapeD(1) [OF shape] ws assms(3,4) call] show ?thesis
  proof cases
    case 1
    then show ?thesis using m call by simp
  next
    case (2 rest tc W)
    then show ?thesis using m call by simp
  qed
qed

theorem Signal_serves_in_order_witness:
  "if os_token_count sem_waiting + 3 > 5 then Signal 3 sem_waiting = (False, sem_waiting)
   else \<exists>s'. Signal 3 sem_waiting = (True, s') \<and>
     pass_ok (os_wait_list sem_waiting) (os_token_count sem_waiting + 3) (os_waiters sem_waiting)
       (os_wait_list s') (os_token_count s') (os_waiters s')"
  by (rule Signal_serves_in_order [OF sem_waiting_run])
    (simp_all add: sem_waiting_def Wait_enter_def OrbisSem_new_def AddWaiter_def)

text \<open>
  C12: the handles.  Creating a semaphore returns a handle that was not in use, leaves all others
  alone and refuses inconsistent counts; deleting one leaves all others alone, and after it every
  call on that handle reports \<open>ESRCH\<close> and changes nothing.
\<close>

theorem sema_handle_lifecycle:
  assumes ok: "semas_ok tbl" and m: "m < 2 ^ 31" and at: "attr \<le> 2"
    and call: "sceKernelCreateSema (Some name) attr i m tbl = (r, h, tbl1)"
  shows "semas_ok tbl1 \<and>
    (if i < 0 \<or> m \<le> 0 \<or> i > m then r = ORBIS_KERNEL_ERROR_EINVAL \<and> h = None \<and> tbl1 = tbl
     else \<exists>k tbl2. r = ORBIS_OK \<and> h = Some k \<and> sv_at tbl k = None \<and>
       sv_at tbl1 = (sv_at tbl)(k \<mapsto> OrbisSem_new i m name (attr = 1)) \<and>
       sceKernelDeleteSema k tbl1 = Some (ORBIS_OK, tbl2) \<and> semas_ok tbl2 \<and> sv_at tbl2 = sv_at tbl \<and>
       sceKernelWaitSema t prio k need timeout tbl2 = Some (Some ORBIS_KERNEL_ERROR_ESRCH, tbl2) \<and>
       sceKernelPollSema t prio k need tbl2 = Some (Some ORBIS_KERNEL_ERROR_ESRCH, tbl2) \<and>
       sceKernelSignalSema k count tbl2 = Some (ORBIS_KERNEL_ERROR_ESRCH, tbl2) \<and>
       sceKernelCancelSema k count tbl2 = Some ((ORBIS_KERNEL_ERROR_ESRCH, None), tbl2) \<and>
       sceKernelDeleteSema k tbl2 = Some (ORBIS_KERNEL_ERROR_ESRCH, tbl2))"
proof (cases "i < 0 \<or> m \<le> 0 \<or> i > m")
  case True
  then show ?thesis using call ok by (auto simp: sceKernelCreateSema_def)
next
  case False
  then obtain k where h: "h = Some k" using call at by (auto simp: sceKernelCreateSema_def split: prod.splits)
  note C = sceKernelCreateSema_ok [OF ok call m, unfolded h, simplified]
  then have k: "sv_at tbl1 k = Some (OrbisSem_new i m name (attr = 1))" by auto
  obtain tbl2 where d: "sceKernelDeleteSema k tbl1 = Some (ORBIS_OK, tbl2)" "semas_ok tbl2" "sv_at tbl2 = (sv_at tbl1)(k := None)"
      "is_allocated tbl2 k = Some False"
    using sceKernelDeleteSema_ok [OF conjunct1 [OF C] k] by blast
  have "sv_at tbl2 = sv_at tbl" using d(3) C by auto
  then show ?thesis using C d h False
    by (auto simp: sceKernelWaitSema_def sceKernelPollSema_def sceKernelSignalSema_def sceKernelCancelSema_def
        with_sema_def sceKernelDeleteSema_def)
qed

theorem sema_handle_lifecycle_witness:
  "let (r, h, tbl1) = sceKernelCreateSema (Some ''s'') 1 2 5 SlotVector_empty in semas_ok tbl1 \<and>
    (if (2::s32) < 0 \<or> (5::s32) \<le> 0 \<or> (2::s32) > 5 then r = ORBIS_KERNEL_ERROR_EINVAL \<and> h = None \<and> tbl1 = SlotVector_empty
     else \<exists>k tbl2. r = ORBIS_OK \<and> h = Some k \<and> sv_at (SlotVector_empty :: sema_table) k = None \<and>
       sv_at tbl1 = (sv_at SlotVector_empty)(k \<mapsto> OrbisSem_new 2 5 ''s'' ((1::nat) = 1)) \<and>
       sceKernelDeleteSema k tbl1 = Some (ORBIS_OK, tbl2) \<and> semas_ok tbl2 \<and> sv_at tbl2 = sv_at SlotVector_empty \<and>
       sceKernelWaitSema 7 700 k 1 None tbl2 = Some (Some ORBIS_KERNEL_ERROR_ESRCH, tbl2) \<and>
       sceKernelPollSema 7 700 k 1 tbl2 = Some (Some ORBIS_KERNEL_ERROR_ESRCH, tbl2) \<and>
       sceKernelSignalSema k 1 tbl2 = Some (ORBIS_KERNEL_ERROR_ESRCH, tbl2) \<and>
       sceKernelCancelSema k 1 tbl2 = Some ((ORBIS_KERNEL_ERROR_ESRCH, None), tbl2) \<and>
       sceKernelDeleteSema k tbl2 = Some (ORBIS_KERNEL_ERROR_ESRCH, tbl2))"
proof (cases "sceKernelCreateSema (Some ''s'') 1 2 5 SlotVector_empty")
  case (fields r h tbl1)
  have "semas_ok SlotVector_empty" by (simp add: semas_ok_def SlotVector_empty_ok)
  from sema_handle_lifecycle [OF this _ _ fields] show ?thesis unfolding fields Let_def prod.case by simp
qed

text \<open>
  The conditions on the arguments are needed: in every state with tokens, a request for a negative number of them is
  granted and adds to the tokens, beyond any maximum; and \<open>Cancel\<close> sets any count.
\<close>

lemma semaphore_exceeds_max:
  assumes "0 \<le> os_token_count s" and "need < 0" and "os_token_count s - need < 2 ^ 31" and "0 \<le> c"
  shows "Wait_enter t prio can_block need timeout s = (Some ORBIS_OK, s\<lparr>os_token_count := os_token_count s - need\<rparr>) \<and>
    os_token_count (snd (snd (Cancel c s))) = c"
  using assms by (simp add: Wait_enter_def Cancel_def wrap_s32_exact)

text \<open>
  A waiter that is signalled when its time is already up, but before it has the lock again, returns
  success with a remaining time that has wrapped around to more than an hour.
\<close>

theorem late_signal_wraps_time:
  "let w = release_signaled (WaitingThread_new 1 True 700 (Some 1000)) in
   GetResult w = ORBIS_OK \<and> remaining_time w 1001 = Some 0xFFFFFFFF"
  by (simp add: GetResult_def remaining_time_def release_signaled_def WaitingThread_new_def)

section \<open>POSIX semaphores\<close>

text \<open>
  C13: under every interleaving of the atomic accesses the value of a POSIX semaphore is the count of
  the host semaphore plus the permits that waiters have taken and not yet subtracted and that posts
  have added and not yet released; it stays between 0 and the maximum; a post that is about to
  release never exceeds the capacity of the host semaphore; and the permits are the initial value
  plus the successful posts minus the successful waits.
\<close>

theorem posix_sem_value_exact:
  assumes "0 \<le> v" and "v \<le> ORBIS_KERNEL_SEM_VALUE_MAX" and "psem_run (PthreadSem_new v, \<lambda>_. Idle) es (p, pc)"
  shows "ps_value p = int (ps_semaphore p) + int (at_pc Acquired pc) + int (at_pc Releasing pc) \<and>
     0 \<le> ps_value p \<and> ps_value p \<le> ORBIS_KERNEL_SEM_VALUE_MAX \<and>
     (\<forall>t. pc t = Releasing \<longrightarrow> int (ps_semaphore p) < ORBIS_KERNEL_SEM_VALUE_MAX) \<and>
     int (ps_semaphore p) + int (at_pc Acquired pc) = v + sum_list (map post_count es)"
proof -
  have ok: "psem_ok (p, pc)" using psem_run_ok [OF assms(3) PthreadSem_new_ok [OF assms(1,2)]] .
  have "permits (p, pc) = v + sum_list (map post_count es)"
    using psem_run_permits [OF assms(3) PthreadSem_new_ok [OF assms(1,2)]] assms(1)
    by (simp add: permits_def PthreadSem_new_def at_pc_def)
  moreover have "0 < at_pc Releasing pc" if "pc t = Releasing" for t using at_pc_pos [OF ok that] by simp
  ultimately show ?thesis using ok by (fastforce simp: psem_ok_def permits_def)
qed

definition sem_posted :: PthreadSem where
  "sem_posted = \<lparr>ps_semaphore = 4, ps_value = 4\<rparr>"

lemma sem_posted_run: "psem_run (PthreadSem_new 3, \<lambda>_. Idle) [Internal, Internal, PostDone 7] (sem_posted, \<lambda>_. Idle)"
proof -
  have call: "posix_sem_post (Some 0) [0 \<mapsto> PthreadSem_new 3] = ((0, None), [0 \<mapsto> sem_posted])"
    by (simp add: posix_sem_post_def deref_def PthreadSem_new_def sem_compare_exchange_def sem_release_def
        sem_posted_def ORBIS_KERNEL_SEM_VALUE_MAX_def wrap_s32_exact)
  show ?thesis using posix_sem_post_run [OF _ _ call, of "PthreadSem_new 3" "\<lambda>_. Idle" 7] by auto
qed

theorem posix_sem_value_exact_witness:
  "ps_value sem_posted = int (ps_semaphore sem_posted) + int (at_pc Acquired (\<lambda>_. Idle)) + int (at_pc Releasing (\<lambda>_. Idle)) \<and>
     0 \<le> ps_value sem_posted \<and> ps_value sem_posted \<le> ORBIS_KERNEL_SEM_VALUE_MAX \<and>
     int (ps_semaphore sem_posted) + int (at_pc Acquired (\<lambda>_. Idle)) = 3 + sum_list (map post_count [Internal, Internal, PostDone 7])"
  using posix_sem_value_exact [OF _ _ sem_posted_run] by (simp add: ORBIS_KERNEL_SEM_VALUE_MAX_def)

text \<open>
  The deadline of \<open>scePthreadSemTimedwait\<close> is exactly the current time plus the timeout, with
  the nanoseconds carried into the seconds, for every 32-bit number of microseconds.
\<close>

theorem timedwait_deadline_exact:
  assumes "0 \<le> tv_nsec now" and "tv_nsec now < 1000000000" and "0 \<le> tv_sec now" and "tv_sec now < 2 ^ 62" and "usec < 2 ^ 32"
  shows "tv_sec (timedwait_deadline now usec) * 1000000000 + tv_nsec (timedwait_deadline now usec) =
      tv_sec now * 1000000000 + tv_nsec now + int usec * 1000 \<and>
    0 \<le> tv_nsec (timedwait_deadline now usec) \<and> tv_nsec (timedwait_deadline now usec) < 1000000000"
  using timedwait_deadline_nanos [OF assms] by (simp add: nanos_def)

theorem timedwait_deadline_exact_witness:
  "let now = \<lparr>tv_sec = 1700000000, tv_nsec = 999999999\<rparr> in
   tv_sec (timedwait_deadline now 2500000) * 1000000000 + tv_nsec (timedwait_deadline now 2500000) =
      tv_sec now * 1000000000 + tv_nsec now + int 2500000 * 1000 \<and>
    0 \<le> tv_nsec (timedwait_deadline now 2500000) \<and> tv_nsec (timedwait_deadline now 2500000) < 1000000000"
  unfolding Let_def by (rule timedwait_deadline_exact) simp_all

section \<open>Event flags\<close>

text \<open>
  C14: whatever order the threads run in, the counter of an event flag is the number of sleeping
  threads, at most one in single-thread mode, the flag is cancelled exactly while a call of
  \<open>Cancel\<close> is under way, and every sleeping thread whose condition holds has been notified.
\<close>

theorem event_flag_keeps_invariant:
  assumes "ef_run (ef_boot (EventFlagInternal_new name tm qm bits)) es s"
  shows "finite (dom (sy_sleepers s)) \<and> ef_waiting_threads (sy_flag s) = int (card (dom (sy_sleepers s))) \<and>
     (ef_thread_mode (sy_flag s) = Single \<longrightarrow> card (dom (sy_sleepers s)) \<le> 1) \<and>
     ef_status (sy_flag s) = (if sy_cancelling s then Canceled else Set) \<and>
     (\<forall>t w. sy_sleepers s t = Some w \<longrightarrow> waitFunc (sl_bits w) (sl_wait_mode w) (sy_flag s) \<longrightarrow> sl_notified w)"
  using ef_run_ok [OF assms ef_boot_ok] unfolding ef_ok_def holds_def .

text \<open>Thread 7 sleeps on bit 0, and another thread cancels with a pattern.\<close>

definition ef_sleeper :: sleeper where
  "ef_sleeper = \<lparr>sl_bits = 1, sl_wait_mode = WaitAnd, sl_clear_mode = ClearAll, sl_micros = None, sl_notified = False\<rparr>"

definition ef_sleeping :: ef_system where
  "ef_sleeping = \<lparr>sy_flag = (EventFlagInternal_new ''e'' Multi Fifo 0)\<lparr>ef_waiting_threads := 1\<rparr>,
     sy_sleepers = [7 \<mapsto> ef_sleeper], sy_cancelling = False\<rparr>"

definition ef_cancelling :: ef_system where
  "ef_cancelling = \<lparr>sy_flag = (EventFlagInternal_new ''e'' Multi Fifo 6)\<lparr>ef_waiting_threads := 1, ef_status := Canceled\<rparr>,
     sy_sleepers = [7 \<mapsto> ef_sleeper\<lparr>sl_notified := True\<rparr>], sy_cancelling = True\<rparr>"

definition ef_drained :: ef_system where
  "ef_drained = \<lparr>sy_flag = (EventFlagInternal_new ''e'' Multi Fifo 6)\<lparr>ef_status := Canceled\<rparr>,
     sy_sleepers = Map.empty, sy_cancelling = True\<rparr>"

lemma ef_sleeping_step: "ef_step (ef_boot (EventFlagInternal_new ''e'' Multi Fifo 0)) (WaitSleep 7) ef_sleeping"
  using ef_step.sleep [of "ef_boot (EventFlagInternal_new ''e'' Multi Fifo 0)" 7 "sy_flag ef_sleeping" ef_sleeper]
  by (simp add: ef_boot_def ef_sleeping_def Wait_start_def EventFlagInternal_new_def holds_def waitFunc_def ef_sleeper_def)

lemma ef_sleeping_run: "ef_run (ef_boot (EventFlagInternal_new ''e'' Multi Fifo 0)) [WaitSleep 7] ef_sleeping"
  using ef_run.more [OF ef_run.none ef_sleeping_step] by simp

lemma ef_cancelling_step: "ef_step ef_sleeping (CancelBegin 6 1) ef_cancelling"
proof -
  have S: "notify_all (sy_sleepers ef_sleeping) = sy_sleepers ef_cancelling"
    by (rule ext) (simp add: notify_all_def ef_sleeping_def ef_cancelling_def)
  have "Cancel_start 6 (sy_flag ef_sleeping) = Some (1, False, sy_flag ef_cancelling)"
    by (simp add: Cancel_start_def Cancel_end_def ef_sleeping_def ef_cancelling_def EventFlagInternal_new_def)
  from ef_step.cancel [OF this] show ?thesis unfolding S by (simp add: ef_sleeping_def ef_cancelling_def)
qed

lemma ef_drained_step:
  "ef_step ef_cancelling (WaitRet 7 (ef_sleeper\<lparr>sl_notified := True\<rparr>) ORBIS_KERNEL_ERROR_ECANCELED 6) ef_drained"
  using ef_step.awake [of ef_cancelling 7 "ef_sleeper\<lparr>sl_notified := True\<rparr>" ORBIS_KERNEL_ERROR_ECANCELED 6 "sy_flag ef_drained"]
  by (simp add: ef_cancelling_def ef_drained_def EventFlagInternal_new_def holds_def waitFunc_def Wait_finish_def)

lemma ef_drained_run:
  "ef_run ef_cancelling [WaitRet 7 (ef_sleeper\<lparr>sl_notified := True\<rparr>) ORBIS_KERNEL_ERROR_ECANCELED 6] ef_drained"
  using ef_run.more [OF ef_run.none ef_drained_step] by simp

lemma ef_cancelled_step: "ef_step ef_drained CancelRet (ef_boot (EventFlagInternal_new ''e'' Multi Fifo 6))"
  using ef_step.cancelled [of ef_drained "EventFlagInternal_new ''e'' Multi Fifo 6"]
  by (simp add: ef_drained_def ef_boot_def Cancel_end_def EventFlagInternal_new_def)

theorem event_flag_keeps_invariant_witness:
  "finite (dom (sy_sleepers ef_sleeping)) \<and> ef_waiting_threads (sy_flag ef_sleeping) = int (card (dom (sy_sleepers ef_sleeping))) \<and>
     ef_status (sy_flag ef_sleeping) = (if sy_cancelling ef_sleeping then Canceled else Set)"
  using event_flag_keeps_invariant [OF ef_sleeping_run] by blast

text \<open>
  C15: what a return from \<open>Wait\<close> means.  It reports the bits of that moment.  Success means that the
  bits satisfy the condition, and they are then cleared as the mode says; \<open>ECANCELED\<close> is returned
  exactly while a cancellation is under way; \<open>ETIMEDOUT\<close> only when a timeout was given and the
  condition does not hold.  No other result is possible: in particular \<open>EACCES\<close> never occurs.
\<close>

theorem event_flag_wait_result:
  assumes "ef_run (ef_boot (EventFlagInternal_new name tm qm bits)) es s" and "ef_step s (WaitRet t w r res) s'"
  shows "res = ef_bits (sy_flag s) \<and> sy_sleepers s' t = None \<and>
     ((r = ORBIS_OK \<and> \<not> sy_cancelling s \<and> satisfied w res \<and> ef_bits (sy_flag s') = cleared w res) \<or>
      (r = ORBIS_KERNEL_ERROR_ECANCELED \<and> sy_cancelling s \<and> ef_bits (sy_flag s') = res) \<or>
      (r = ORBIS_KERNEL_ERROR_ETIMEDOUT \<and> \<not> sy_cancelling s \<and> sl_micros w \<noteq> None \<and> \<not> satisfied w res \<and>
       ef_bits (sy_flag s') = res))"
  using WaitRet_outcome [OF assms(2) ef_run_ok [OF assms(1) ef_boot_ok]] by (auto simp: wait_outcome_def Let_def)

lemma ef_cancelling_run:
  "ef_run (ef_boot (EventFlagInternal_new ''e'' Multi Fifo 0)) [WaitSleep 7, CancelBegin 6 1] ef_cancelling"
  using ef_run.more [OF ef_sleeping_run ef_cancelling_step] by simp

theorem event_flag_wait_result_witness:
  "6 = ef_bits (sy_flag ef_cancelling) \<and> sy_sleepers ef_drained 7 = None \<and>
     ((ORBIS_KERNEL_ERROR_ECANCELED = ORBIS_OK \<and> \<not> sy_cancelling ef_cancelling \<and>
        satisfied (ef_sleeper\<lparr>sl_notified := True\<rparr>) 6 \<and> ef_bits (sy_flag ef_drained) = cleared (ef_sleeper\<lparr>sl_notified := True\<rparr>) 6) \<or>
      (ORBIS_KERNEL_ERROR_ECANCELED = ORBIS_KERNEL_ERROR_ECANCELED \<and> sy_cancelling ef_cancelling \<and> ef_bits (sy_flag ef_drained) = 6) \<or>
      (ORBIS_KERNEL_ERROR_ECANCELED = ORBIS_KERNEL_ERROR_ETIMEDOUT \<and> \<not> sy_cancelling ef_cancelling \<and>
       sl_micros (ef_sleeper\<lparr>sl_notified := True\<rparr>) \<noteq> None \<and> \<not> satisfied (ef_sleeper\<lparr>sl_notified := True\<rparr>) 6 \<and>
       ef_bits (sy_flag ef_drained) = 6))"
  by (rule event_flag_wait_result [OF ef_cancelling_run ef_drained_step])

text \<open>
  C16: \<open>Cancel\<close> reports the number of sleeping threads and does not return before each of them has
  returned \<open>ECANCELED\<close> with the new pattern.  Meanwhile nobody else changes the bits; when it returns
  nobody sleeps and the bits are the pattern.
\<close>

theorem cancel_releases_everyone:
  assumes "ef_run (ef_boot (EventFlagInternal_new name tm qm bits)) es0 s0" and "ef_step s0 (CancelBegin pat n) s1"
    and "sy_cancelling s1" and "ef_run s1 es s2" and "CancelRet \<notin> set es" and "ef_step s2 CancelRet s3"
  shows "n = int (card (dom (sy_sleepers s0))) \<and> dom (sy_sleepers s0) \<subseteq> left_cancelled pat es \<and>
     list_all (cancel_event pat) es \<and> sy_sleepers s3 = Map.empty \<and> ef_bits (sy_flag s3) = pat \<and>
     ef_status (sy_flag s3) = Set"
proof -
  have ok0: "ef_ok s0" by (rule ef_run_ok [OF assms(1) ef_boot_ok])
  then have ok1: "ef_ok s1" by (rule ef_step_ok [OF assms(2)])
  then have ok2: "ef_ok s2" by (rule ef_run_ok [OF assms(4)])
  obtain fin f where c: "Cancel_start pat (sy_flag s0) = Some (n, fin, f)"
    and s1: "s1 = s0\<lparr>sy_flag := f, sy_sleepers := notify_all (sy_sleepers s0), sy_cancelling := \<not> fin\<rparr>"
    using assms(2) by cases auto
  note C = Cancel_start_cases [OF c]
  have d: "dom (sy_sleepers s1) = dom (sy_sleepers s0)" "ef_bits (sy_flag s1) = pat" using s1 C(7) by simp_all
  note R = cancelling_run [OF assms(4) ok1 assms(3,5), unfolded d] and E = CancelRet_cases [OF assms(6) ok2]
  show ?thesis using R E C(2) ef_okD(2) [OF ok0] by (auto simp: list_all_iff)
qed

theorem cancel_releases_everyone_witness:
  "1 = int (card (dom (sy_sleepers ef_sleeping))) \<and>
     dom (sy_sleepers ef_sleeping) \<subseteq>
       left_cancelled 6 [WaitRet 7 (ef_sleeper\<lparr>sl_notified := True\<rparr>) ORBIS_KERNEL_ERROR_ECANCELED 6] \<and>
     list_all (cancel_event 6) [WaitRet 7 (ef_sleeper\<lparr>sl_notified := True\<rparr>) ORBIS_KERNEL_ERROR_ECANCELED 6] \<and>
     sy_sleepers (ef_boot (EventFlagInternal_new ''e'' Multi Fifo 6)) = Map.empty \<and>
     ef_bits (sy_flag (ef_boot (EventFlagInternal_new ''e'' Multi Fifo 6))) = 6 \<and>
     ef_status (sy_flag (ef_boot (EventFlagInternal_new ''e'' Multi Fifo 6))) = Set"
  by (rule cancel_releases_everyone [OF ef_sleeping_run ef_cancelling_step _ ef_drained_run _ ef_cancelled_step])
    (simp_all add: ef_cancelling_def)

text \<open>
  C17: a cancellation can always be completed: from every state in which one is under way there is
  a run in which each sleeping thread takes one step, and after it \<open>Cancel\<close> returns.
\<close>

theorem cancel_can_complete:
  assumes "ef_run (ef_boot (EventFlagInternal_new name tm qm bits)) es s" and "sy_cancelling s"
  shows "\<exists>es' s' s''. length es' = card (dom (sy_sleepers s)) \<and> ef_run s es' s' \<and> ef_step s' CancelRet s''"
  using cancel_can_end [OF ef_run_ok [OF assms(1) ef_boot_ok] assms(2)] by blast

theorem cancel_can_complete_witness:
  "\<exists>es' s' s''. length es' = card (dom (sy_sleepers ef_cancelling)) \<and> ef_run ef_cancelling es' s' \<and> ef_step s' CancelRet s''"
  by (rule cancel_can_complete [OF ef_cancelling_run]) (simp add: ef_cancelling_def)

end
