(* ===== verification/Orbit_Rtc.thy ===== *)
theory Orbit_Rtc
  imports Orbit_Prelude
begin

unbundle bit_operations_syntax

text \<open>
  The real-time clock library (\<^verbatim>\<open>src/core/libraries/rtc/rtc.cpp\<close>): dates, ticks (microseconds since
  the first of January of year 1) and the conversions between them.  Pointers are options, \<open>None\<close>
  being null; a call returns its result code and what its pointers refer to afterwards.  Unsigned
  arithmetic is written over \<open>int\<close> with the wrap-around of the width at every assignment and before
  every division and shift.  Of \<^verbatim>\<open>std::chrono\<close> the model has the proleptic Gregorian calendar.
\<close>

subsection \<open>Data and codes\<close>

definition ORBIS_RTC_ERROR_INVALID_POINTER :: s32 where "ORBIS_RTC_ERROR_INVALID_POINTER = 0x80B50002 - 2 ^ 32"
definition ORBIS_RTC_ERROR_INVALID_VALUE :: s32 where "ORBIS_RTC_ERROR_INVALID_VALUE = 0x80B50003 - 2 ^ 32"
definition ORBIS_RTC_ERROR_INVALID_YEAR :: s32 where "ORBIS_RTC_ERROR_INVALID_YEAR = 0x80B50008 - 2 ^ 32"
definition ORBIS_RTC_ERROR_INVALID_MONTH :: s32 where "ORBIS_RTC_ERROR_INVALID_MONTH = 0x80B50009 - 2 ^ 32"
definition ORBIS_RTC_ERROR_INVALID_DAY :: s32 where "ORBIS_RTC_ERROR_INVALID_DAY = 0x80B5000A - 2 ^ 32"
definition ORBIS_RTC_ERROR_INVALID_HOUR :: s32 where "ORBIS_RTC_ERROR_INVALID_HOUR = 0x80B5000B - 2 ^ 32"
definition ORBIS_RTC_ERROR_INVALID_MINUTE :: s32 where "ORBIS_RTC_ERROR_INVALID_MINUTE = 0x80B5000C - 2 ^ 32"
definition ORBIS_RTC_ERROR_INVALID_SECOND :: s32 where "ORBIS_RTC_ERROR_INVALID_SECOND = 0x80B5000D - 2 ^ 32"
definition ORBIS_RTC_ERROR_INVALID_MICROSECOND :: s32 where
  "ORBIS_RTC_ERROR_INVALID_MICROSECOND = 0x80B5000E - 2 ^ 32"

lemmas rtc_codes = ORBIS_OK_def ORBIS_RTC_ERROR_INVALID_POINTER_def ORBIS_RTC_ERROR_INVALID_VALUE_def
  ORBIS_RTC_ERROR_INVALID_YEAR_def ORBIS_RTC_ERROR_INVALID_MONTH_def ORBIS_RTC_ERROR_INVALID_DAY_def
  ORBIS_RTC_ERROR_INVALID_HOUR_def ORBIS_RTC_ERROR_INVALID_MINUTE_def ORBIS_RTC_ERROR_INVALID_SECOND_def
  ORBIS_RTC_ERROR_INVALID_MICROSECOND_def

definition UNIX_EPOCH_TICKS :: nat where "UNIX_EPOCH_TICKS = 0xdcbffeff2bc000"
definition WIN32_FILETIME_EPOCH_TICKS :: nat where "WIN32_FILETIME_EPOCH_TICKS = 0xb36168b6a58000"

record OrbisRtcDateTime =
  year :: nat
  month :: nat
  day :: nat
  hour :: nat
  minute :: nat
  second :: nat
  microsecond :: nat

definition u16 :: "int \<Rightarrow> nat" where "u16 x = nat (x mod 2 ^ 16)"
definition u32 :: "int \<Rightarrow> nat" where "u32 x = nat (x mod 2 ^ 32)"
definition u64 :: "int \<Rightarrow> nat" where "u64 x = nat (x mod 2 ^ 64)"

lemma u_exact: "0 \<le> x \<Longrightarrow> x < 2 ^ 16 \<Longrightarrow> u16 x = nat x" "0 \<le> x \<Longrightarrow> x < 2 ^ 32 \<Longrightarrow> u32 x = nat x"
  "0 \<le> x \<Longrightarrow> x < 2 ^ 64 \<Longrightarrow> u64 x = nat x"
  by (simp_all add: u16_def u32_def u64_def)

subsection \<open>The calendar\<close>

definition is_leap :: "nat \<Rightarrow> bool" where
  "is_leap y \<longleftrightarrow> y mod 4 = 0 \<and> (y mod 100 \<noteq> 0 \<or> y mod 400 = 0)"

text \<open>The last day of a month (\<^verbatim>\<open>year_month_day_last\<close>).\<close>

definition last_day :: "nat \<Rightarrow> nat \<Rightarrow> nat" where
  "last_day y m = (if m = 2 then (if is_leap y then 29 else 28) else if m \<in> {4, 6, 9, 11} then 30 else 31)"

fun days_before_year :: "nat \<Rightarrow> nat" where
  "days_before_year 0 = 0"
| "days_before_year (Suc 0) = 0"
| "days_before_year (Suc (Suc y)) = days_before_year (Suc y) + (if is_leap (Suc y) then 366 else 365)"

fun days_before_month :: "nat \<Rightarrow> nat \<Rightarrow> nat" where
  "days_before_month y 0 = 0"
| "days_before_month y (Suc 0) = 0"
| "days_before_month y (Suc (Suc m)) = days_before_month y (Suc m) + last_day y (Suc m)"

text \<open>Days since the first of January of year 1.\<close>

definition calendar_days :: "nat \<Rightarrow> nat \<Rightarrow> nat \<Rightarrow> nat" where
  "calendar_days y m d = days_before_year y + days_before_month y m + d - 1"

subsection \<open>Operations\<close>

definition sceRtcCheckValid :: "OrbisRtcDateTime option \<Rightarrow> s32" where
  "sceRtcCheckValid pTime =
     (case pTime of
        None \<Rightarrow> ORBIS_RTC_ERROR_INVALID_POINTER
      | Some t \<Rightarrow>
          if year t = 0 \<or> year t > 9999 then ORBIS_RTC_ERROR_INVALID_YEAR
          else if month t = 0 \<or> month t > 12 then ORBIS_RTC_ERROR_INVALID_MONTH
          else if day t = 0 then ORBIS_RTC_ERROR_INVALID_DAY
          else if day t > last_day (year t) (month t) then ORBIS_RTC_ERROR_INVALID_DAY
          else if hour t \<ge> 24 then ORBIS_RTC_ERROR_INVALID_HOUR
          else if minute t \<ge> 60 then ORBIS_RTC_ERROR_INVALID_MINUTE
          else if second t \<ge> 60 then ORBIS_RTC_ERROR_INVALID_SECOND
          else if microsecond t \<ge> 1000000 then ORBIS_RTC_ERROR_INVALID_MICROSECOND
          else ORBIS_OK)"

definition sceRtcCompareTick :: "nat option \<Rightarrow> nat option \<Rightarrow> s32" where
  "sceRtcCompareTick pTick1 pTick2 =
     (case (pTick1, pTick2) of
        (Some a, Some b) \<Rightarrow> if a \<le> b then 1 else 0
      | _ \<Rightarrow> ORBIS_RTC_ERROR_INVALID_POINTER)"

definition sceRtcGetDaysInMonth :: "int \<Rightarrow> int \<Rightarrow> int" where
  "sceRtcGetDaysInMonth y m =
     (if y \<le> 0 then ORBIS_RTC_ERROR_INVALID_YEAR
      else if m \<le> 0 \<or> m > 12 then ORBIS_RTC_ERROR_INVALID_MONTH
      else int (last_day (nat y) (nat m)))"

definition sceRtcIsLeapYear :: "int \<Rightarrow> s32" where
  "sceRtcIsLeapYear yearInt =
     (if yearInt < 1 then ORBIS_RTC_ERROR_INVALID_YEAR else if last_day (nat yearInt) 2 = 29 then 1 else 0)"

definition sceRtcGetDayOfWeek :: "s32 \<Rightarrow> int \<Rightarrow> int \<Rightarrow> int \<Rightarrow> s32" where
  "sceRtcGetDayOfWeek sdk_version y m d =
     (if y < 1 \<or> (sdk_version \<ge> 0x3000000 \<and> y > 9999) then ORBIS_RTC_ERROR_INVALID_YEAR
      else if m > 12 \<or> m \<le> 0 then ORBIS_RTC_ERROR_INVALID_MONTH
      else if d \<le> 0 \<or> d > sceRtcGetDaysInMonth y m then ORBIS_RTC_ERROR_INVALID_DAY
      else int ((calendar_days (nat y) (nat m) (nat d) + 1) mod 7))"

text \<open>
  \<^verbatim>\<open>sceRtcGetTick\<close> moves the date to a year that starts in March, in the caller's record.  The product
  \<^verbatim>\<open>pTime->minute * 60000000\<close> is one of two \<^verbatim>\<open>int\<close> operands; from 36 minutes on it overflows, which is undefined in C++ and
  wraps around here.  The properties below only rely on it for minutes below 36.
\<close>

definition march_based :: "OrbisRtcDateTime \<Rightarrow> OrbisRtcDateTime" where
  "march_based t = (if month t > 2 then t\<lparr>month := month t - 3\<rparr> else t\<lparr>month := month t + 9, year := year t - 1\<rparr>)"

definition sceRtcGetTick ::
    "OrbisRtcDateTime option \<Rightarrow> nat option \<Rightarrow> s32 \<times> OrbisRtcDateTime option \<times> nat option" where
  "sceRtcGetTick pTime pTick =
     (case (pTime, pTick) of
        (Some t, Some k) \<Rightarrow>
          let isTimeValid = sceRtcCheckValid pTime in
          if isTimeValid \<noteq> 0 then (isTimeValid, pTime, pTick)
          else
            let t1 = march_based t;
                c = year t1 div 100;
                ya = year t1 - 100 * c;
                days = (146097 * c) div 4 + (1461 * ya) div 4 + (153 * month t1 + 2) div 5 + day t1;
                days1 = u64 (int days - 307);
                days2 = u64 (int days1 * 86400000000);
                msec = u64 (int (hour t1) * 3600000000 + wrap_s32 (int (minute t1) * 60000000) + int (second t1) * 1000000 +
                            int (microsecond t1))
            in (ORBIS_OK, Some t1, Some (u64 (int days2 + int msec)))
      | _ \<Rightarrow> (ORBIS_RTC_ERROR_INVALID_POINTER, pTime, pTick))"

definition date_of_days :: "nat \<Rightarrow> nat \<times> nat \<times> nat" where
  "date_of_days days =
     (let j = u32 (4 * int days - 1);
          ly = j div 146097;
          j1 = u32 (int j - 146097 * int ly);
          ld = j1 div 4;
          j2 = u32 (4 * int ld + 3) div 1461;
          ld1 = u32 (4 * int ld + 7 - 1461 * int j2) div 4;
          lm = u32 (5 * int ld1 - 3) div 153;
          ld2 = u32 (5 * int ld1 + 2 - 153 * int lm) div 5;
          ly1 = u32 (100 * int ly + int j2)
      in if lm < 10 then (ly1, lm + 3, ld2) else (u32 (int ly1 + 1), lm - 9, ld2))"

definition sceRtcSetTick ::
    "OrbisRtcDateTime option \<Rightarrow> nat option \<Rightarrow> s32 \<times> OrbisRtcDateTime option" where
  "sceRtcSetTick pTime pTick =
     (case (pTime, pTick) of
        (Some t, Some tick) \<Rightarrow>
          let days = tick div 86400000000;
              msec = tick mod 86400000000;
              (ly, lm, ld) = date_of_days (u64 (int days + 307))
          in (ORBIS_OK, Some \<lparr>year = u16 (int ly), month = u16 (int lm), day = u16 (int ld),
                hour = msec div 3600000000,
                minute = msec mod 3600000000 div 60000000,
                second = msec mod 3600000000 mod 60000000 div 1000000,
                microsecond = msec mod 3600000000 mod 60000000 mod 1000000\<rparr>)
      | _ \<Rightarrow> (ORBIS_RTC_ERROR_INVALID_POINTER, pTime))"

text \<open>Adding to a tick: \<open>pTick1\<close> receives the sum of \<open>pTick2\<close> and a multiple of the unit.\<close>

definition tick_add :: "int \<Rightarrow> nat option \<Rightarrow> nat option \<Rightarrow> int \<Rightarrow> s32 \<times> nat option" where
  "tick_add unit_ticks pTick1 pTick2 lAdd =
     (case (pTick1, pTick2) of
        (Some a, Some b) \<Rightarrow> (ORBIS_OK, Some (u64 (lAdd * unit_ticks + int b)))
      | _ \<Rightarrow> (ORBIS_RTC_ERROR_INVALID_POINTER, pTick1))"

definition sceRtcTickAddTicks :: "nat option \<Rightarrow> nat option \<Rightarrow> int \<Rightarrow> s32 \<times> nat option" where
  "sceRtcTickAddTicks = tick_add 1"
definition sceRtcTickAddMicroseconds :: "nat option \<Rightarrow> nat option \<Rightarrow> int \<Rightarrow> s32 \<times> nat option" where
  "sceRtcTickAddMicroseconds = tick_add 1"
definition sceRtcTickAddSeconds :: "nat option \<Rightarrow> nat option \<Rightarrow> int \<Rightarrow> s32 \<times> nat option" where
  "sceRtcTickAddSeconds = tick_add 1000000"
definition sceRtcTickAddMinutes :: "nat option \<Rightarrow> nat option \<Rightarrow> int \<Rightarrow> s32 \<times> nat option" where
  "sceRtcTickAddMinutes = tick_add 60000000"
definition sceRtcTickAddHours :: "nat option \<Rightarrow> nat option \<Rightarrow> int \<Rightarrow> s32 \<times> nat option" where
  "sceRtcTickAddHours = tick_add 3600000000"
definition sceRtcTickAddDays :: "nat option \<Rightarrow> nat option \<Rightarrow> int \<Rightarrow> s32 \<times> nat option" where
  "sceRtcTickAddDays = tick_add 86400000000"
definition sceRtcTickAddWeeks :: "nat option \<Rightarrow> nat option \<Rightarrow> int \<Rightarrow> s32 \<times> nat option" where
  "sceRtcTickAddWeeks = tick_add 604800000000"

text \<open>
  Months and years: the date is read from \<open>pTick1\<close>, the place of the result, and not from \<open>pTick2\<close>.
  Division truncates towards zero.
\<close>

definition trunc_div :: "int \<Rightarrow> int \<Rightarrow> int" where
  "trunc_div a b = (if a < 0 then - ((- a) div b) else a div b)"

definition trunc_mod :: "int \<Rightarrow> int \<Rightarrow> int" where
  "trunc_mod a b = (if a < 0 then - ((- a) mod b) else a mod b)"

definition uninitialised :: OrbisRtcDateTime where
  "uninitialised = \<lparr>year = 0, month = 0, day = 0, hour = 0, minute = 0, second = 0, microsecond = 0\<rparr>"

definition add_months :: "int \<Rightarrow> OrbisRtcDateTime \<Rightarrow> OrbisRtcDateTime" where
  "add_months lAdd t =
     (let s = (if lAdd \<ge> 0 then 1 else - 1);
          y1 = u16 (int (year t) + trunc_div lAdd 12);
          tempMonth = int (month t) + trunc_mod lAdd 12 - 1;
          (y2, tm) = (if tempMonth > 11 \<or> tempMonth < 0 then (u16 (int y1 + s), tempMonth - s * 12) else (y1, tempMonth));
          m = u16 (tm + 1);
          lastDay = last_day y2 m
      in t\<lparr>year := y2, month := m, day := (if day t > lastDay then lastDay else day t)\<rparr>)"

definition sceRtcTickAddMonths :: "nat option \<Rightarrow> nat option \<Rightarrow> int \<Rightarrow> s32 \<times> nat option" where
  "sceRtcTickAddMonths pTick1 pTick2 lAdd =
     (case (pTick1, pTick2) of
        (Some a, Some b) \<Rightarrow>
          if lAdd = 0 then (ORBIS_OK, Some b)
          else
            (case snd (sceRtcSetTick (Some uninitialised) pTick1) of
               None \<Rightarrow> (ORBIS_OK, pTick1)
             | Some t \<Rightarrow>
                 let t1 = add_months lAdd t; timeIsValid = sceRtcCheckValid (Some t1) in
                 if timeIsValid = ORBIS_OK then (ORBIS_OK, snd (snd (sceRtcGetTick (Some t1) pTick1)))
                 else (timeIsValid, pTick1))
      | _ \<Rightarrow> (ORBIS_RTC_ERROR_INVALID_POINTER, pTick1))"

definition sceRtcTickAddYears :: "nat option \<Rightarrow> nat option \<Rightarrow> int \<Rightarrow> s32 \<times> nat option" where
  "sceRtcTickAddYears pTick1 pTick2 lAdd =
     (case (pTick1, pTick2) of
        (Some a, Some b) \<Rightarrow>
          if lAdd = 0 then (ORBIS_OK, Some b)
          else
            (case snd (sceRtcSetTick (Some uninitialised) pTick1) of
               None \<Rightarrow> (ORBIS_OK, pTick1)
             | Some t \<Rightarrow>
                 let t1 = t\<lparr>year := u16 (int (year t) + lAdd)\<rparr>; timeIsValid = sceRtcCheckValid (Some t1) in
                 if timeIsValid = ORBIS_OK then (ORBIS_OK, snd (snd (sceRtcGetTick (Some t1) pTick1)))
                 else (timeIsValid, pTick1))
      | _ \<Rightarrow> (ORBIS_RTC_ERROR_INVALID_POINTER, pTick1))"

text \<open>Other epochs.  The tick of a date that does not pass the check is not written.\<close>

definition sceRtcGetTime_t :: "OrbisRtcDateTime option \<Rightarrow> nat option \<Rightarrow> s32 \<times> OrbisRtcDateTime option \<times> nat option" where
  "sceRtcGetTime_t pTime llTime =
     (if pTime = None \<or> llTime = None then (ORBIS_RTC_ERROR_INVALID_POINTER, pTime, llTime)
      else if sceRtcCheckValid pTime \<noteq> ORBIS_OK then (sceRtcCheckValid pTime, pTime, llTime)
      else (case sceRtcGetTick pTime (Some 0) of
              (_, t1, Some tick) \<Rightarrow>
                (ORBIS_OK, t1, Some (if tick < UNIX_EPOCH_TICKS then 0 else (tick - UNIX_EPOCH_TICKS) div 1000000))
            | (r, t1, None) \<Rightarrow> (r, t1, llTime)))"

definition sceRtcGetWin32FileTime :: "OrbisRtcDateTime option \<Rightarrow> nat option \<Rightarrow> s32 \<times> OrbisRtcDateTime option \<times> nat option" where
  "sceRtcGetWin32FileTime pTime ulWin32Time =
     (if pTime = None \<or> ulWin32Time = None then (ORBIS_RTC_ERROR_INVALID_POINTER, pTime, ulWin32Time)
      else if sceRtcCheckValid pTime \<noteq> ORBIS_OK then (sceRtcCheckValid pTime, pTime, ulWin32Time)
      else (case sceRtcGetTick pTime (Some 0) of
              (_, t1, Some tick) \<Rightarrow>
                (ORBIS_OK, t1, Some (if tick < WIN32_FILETIME_EPOCH_TICKS then 0
                                     else u64 ((int tick - int WIN32_FILETIME_EPOCH_TICKS) * 10)))
            | (r, t1, None) \<Rightarrow> (r, t1, ulWin32Time)))"

definition sceRtcSetTime_t :: "s32 \<Rightarrow> OrbisRtcDateTime option \<Rightarrow> int \<Rightarrow> s32 \<times> OrbisRtcDateTime option" where
  "sceRtcSetTime_t sdk_version pTime llTime =
     (if pTime = None then (ORBIS_RTC_ERROR_INVALID_POINTER, pTime)
      else if sdk_version < 0x3000000
      then (ORBIS_OK, snd (sceRtcSetTick pTime (Some (u64 (int (u32 llTime) * 1000000 + int UNIX_EPOCH_TICKS)))))
      else if llTime < 0 then (ORBIS_RTC_ERROR_INVALID_VALUE, pTime)
      else (ORBIS_OK, snd (sceRtcSetTick pTime (Some (u64 (llTime * 1000000 + int UNIX_EPOCH_TICKS))))))"

definition sceRtcSetWin32FileTime :: "OrbisRtcDateTime option \<Rightarrow> int \<Rightarrow> s32 \<times> OrbisRtcDateTime option" where
  "sceRtcSetWin32FileTime pTime ulWin32Time =
     (if pTime = None then (ORBIS_RTC_ERROR_INVALID_POINTER, pTime)
      else (ORBIS_OK, snd (sceRtcSetTick pTime
              (Some (u64 (trunc_div ulWin32Time 10 + int WIN32_FILETIME_EPOCH_TICKS))))))"

text \<open>Dates of the DOS format: the bits are added to what the result refers to.\<close>

definition sceRtcGetDosTime :: "OrbisRtcDateTime option \<Rightarrow> 32 word option \<Rightarrow> s32 \<times> 32 word option" where
  "sceRtcGetDosTime pTime dosTime =
     (case (pTime, dosTime) of
        (Some t, Some w) \<Rightarrow>
          if sceRtcCheckValid pTime \<noteq> ORBIS_OK then (sceRtcCheckValid pTime, dosTime)
          else (ORBIS_OK, Some (w OR (of_nat (second t div 2) AND 0x1F)
                 OR push_bit 5 (of_nat (minute t) AND 0x3F)
                 OR push_bit 11 (of_nat (hour t) AND 0x1F)
                 OR push_bit 16 (of_nat (day t) AND 0x1F)
                 OR push_bit 21 (of_nat (month t) AND 0x0F)
                 OR push_bit 25 (word_of_int (int (year t) - 1980) AND 0x7F)))
      | _ \<Rightarrow> (ORBIS_RTC_ERROR_INVALID_POINTER, dosTime))"

definition sceRtcSetDosTime :: "OrbisRtcDateTime option \<Rightarrow> 32 word \<Rightarrow> s32 \<times> OrbisRtcDateTime option" where
  "sceRtcSetDosTime pTime dosTime =
     (case pTime of
        None \<Rightarrow> (ORBIS_RTC_ERROR_INVALID_POINTER, pTime)
      | Some t \<Rightarrow>
          let days = sint (ucast (drop_bit 16 dosTime) :: 16 word)
          in (ORBIS_OK, Some \<lparr>year = u16 (days div 512 + 1980),
                month = nat (days div 32 mod 16),
                day = nat (days mod 32),
                hour = unat (drop_bit 11 (dosTime AND 0xf800)),
                minute = unat (drop_bit 5 dosTime AND 0x3f),
                second = unat (push_bit 1 dosTime AND 0x3e),
                microsecond = 0\<rparr>))"

text \<open>
  Time zones.  The kernel reports \<open>tz_minuteswest\<close> and \<open>tz_dsttime\<close>; its calls never fail here.
\<close>

definition sceRtcConvertUtcToLocalTime :: "int \<times> int \<Rightarrow> nat option \<Rightarrow> nat option \<Rightarrow> s32 \<times> nat option" where
  "sceRtcConvertUtcToLocalTime tz pTickUtc pTickLocal =
     (case tz of (tz_minuteswest, tz_dsttime) \<Rightarrow>
       if pTickUtc = None then (ORBIS_RTC_ERROR_INVALID_POINTER, pTickLocal)
       else (0, snd (sceRtcTickAddMinutes pTickLocal pTickUtc (- (tz_minuteswest - tz_dsttime * 60)))))"

definition sceRtcConvertLocalTimeToUtc :: "int \<times> int \<Rightarrow> nat option \<Rightarrow> nat option \<Rightarrow> s32 \<times> nat option" where
  "sceRtcConvertLocalTimeToUtc tz pTickLocal pTickUtc =
     (case tz of (tz_minuteswest, tz_dsttime) \<Rightarrow>
       if pTickLocal = None then (ORBIS_RTC_ERROR_INVALID_POINTER, pTickUtc)
       else sceRtcTickAddMinutes pTickUtc pTickLocal (- (tz_dsttime * 60 - tz_minuteswest)))"


text \<open>
  The current time: \<open>clock\<close> is the result of \<^verbatim>\<open>sceKernelClockGettime\<close>, a code and seconds with
  nanoseconds.  The four network clocks share their code.
\<close>

definition clock_ticks :: "int \<times> int \<Rightarrow> nat" where
  "clock_ticks tv = u64 (trunc_div (snd tv) 1000 + fst tv * 1000000 + int UNIX_EPOCH_TICKS)"

definition ORBIS_RTC_ERROR_NOT_INITIALIZED :: s32 where "ORBIS_RTC_ERROR_NOT_INITIALIZED = 0x80B50001 - 2 ^ 32"
definition ORBIS_RTC_ERROR_DATETIME_UNINITIALIZED :: s32 where "ORBIS_RTC_ERROR_DATETIME_UNINITIALIZED = 0x7FFEF9FE"

definition sceRtcGetCurrentNetworkTick :: "s32 \<times> int \<times> int \<Rightarrow> nat option \<Rightarrow> s32 \<times> nat option" where
  "sceRtcGetCurrentNetworkTick clock pTick =
     (if pTick = None then (ORBIS_RTC_ERROR_INVALID_POINTER, pTick)
      else case clock of (returnValue, tv) \<Rightarrow>
        if returnValue = ORBIS_OK then (ORBIS_OK, Some (clock_ticks tv)) else (ORBIS_RTC_ERROR_NOT_INITIALIZED, pTick))"

definition sceRtcGetCurrentTick :: "s32 \<times> int \<times> int \<Rightarrow> nat option \<Rightarrow> s32 \<times> nat option" where
  "sceRtcGetCurrentTick clock pTick =
     (if pTick = None then (ORBIS_RTC_ERROR_DATETIME_UNINITIALIZED, pTick)
      else case clock of (returnValue, tv) \<Rightarrow> (ORBIS_OK, if returnValue \<ge> 0 then Some (clock_ticks tv) else pTick))"

definition sceRtcGetCurrentClock :: "s32 \<times> int \<times> int \<Rightarrow> OrbisRtcDateTime option \<Rightarrow> int \<Rightarrow> s32 \<times> OrbisRtcDateTime option" where
  "sceRtcGetCurrentClock clock pTime timeZone =
     (if pTime = None then (ORBIS_RTC_ERROR_DATETIME_UNINITIALIZED, pTime)
      else case clock of (returnValue, tv) \<Rightarrow>
        (returnValue,
         if returnValue = ORBIS_OK
         then snd (sceRtcSetTick pTime (snd (sceRtcTickAddMinutes (Some (clock_ticks tv)) (Some (clock_ticks tv)) timeZone)))
         else pTime))"

text \<open>
  Setting the clocks: an error, or the seconds and the rest that are passed on.  The network variants
  read the tick before they compare the pointer with null; \<open>None\<close> is that access.
\<close>

definition sceRtcSetCurrentTick :: "nat option \<Rightarrow> s32 + (nat \<times> nat)" where
  "sceRtcSetCurrentTick pTick =
     (case pTick of
        None \<Rightarrow> Inl ORBIS_RTC_ERROR_INVALID_POINTER
      | Some tick \<Rightarrow>
          if UNIX_EPOCH_TICKS \<ge> tick then Inl ORBIS_RTC_ERROR_INVALID_VALUE
          else Inr ((tick - UNIX_EPOCH_TICKS) div 1000000, (tick - UNIX_EPOCH_TICKS) mod 1000000))"

definition sceRtcSetCurrentNetworkTick :: "nat option \<Rightarrow> (s32 + (nat \<times> nat)) option" where
  "sceRtcSetCurrentNetworkTick pTick =
     (case pTick of
        None \<Rightarrow> None
      | Some tick \<Rightarrow>
          if UNIX_EPOCH_TICKS \<ge> tick then Some (Inl ORBIS_RTC_ERROR_INVALID_VALUE)
          else Some (Inr ((tick - UNIX_EPOCH_TICKS) div 1000000, (tick - UNIX_EPOCH_TICKS) mod 1000000)))"

text \<open>Local time and back, for every tick.\<close>

lemma local_time_round_trip:
  assumes "k < 2 ^ 64"
  shows "sceRtcConvertLocalTimeToUtc tz (snd (sceRtcConvertUtcToLocalTime tz (Some k) (Some 0))) (Some 0) = (ORBIS_OK, Some k)"
proof (cases tz)
  case (Pair west dst)
  have "int (u64 (- (west - dst * 60) * 60000000 + int k)) = (- (west - dst * 60) * 60000000 + int k) mod 2 ^ 64"
    unfolding u64_def by simp
  then have "u64 (- (dst * 60 - west) * 60000000 + int (u64 (- (west - dst * 60) * 60000000 + int k))) =
      u64 (- (dst * 60 - west) * 60000000 + (- (west - dst * 60) * 60000000 + int k))"
    unfolding u64_def by (simp add: mod_add_right_eq)
  also have "- (dst * 60 - west) * 60000000 + (- (west - dst * 60) * 60000000 + int k) = int k" by (simp add: algebra_simps)
  finally show ?thesis using assms
    by (simp add: Pair sceRtcConvertLocalTimeToUtc_def sceRtcConvertUtcToLocalTime_def sceRtcTickAddMinutes_def tick_add_def u64_def
        ORBIS_OK_def)
qed

subsection \<open>Days of the calendar\<close>

lemma days_before_year_closed:
  "days_before_year (Suc y) + y div 100 = 365 * y + y div 4 + y div 400"
proof (induction y)
  case (Suc y)
  have l: "Suc y mod 400 = 0 \<Longrightarrow> Suc y mod 100 = 0" "Suc y mod 100 = 0 \<Longrightarrow> Suc y mod 4 = 0"
    by (simp_all add: mod_eq_0_iff_dvd) (rule dvd_trans [of 100 400], simp_all, rule dvd_trans [of 4 100], simp_all)
  show ?case using Suc l by (simp add: is_leap_def div_Suc split: if_splits)
qed simp

text \<open>The closed form of \<^verbatim>\<open>sceRtcGetTick\<close> counts the days of the years up to the given one.\<close>

lemma century_days:
  "(146097 * (y div 100)) div 4 + (1461 * (y - 100 * (y div 100))) div 4 = days_before_year (Suc y)"
proof -
  define c ya where "c = y div 100" and "ya = y - 100 * (y div 100)"
  have y: "y = 100 * c + ya" unfolding c_def ya_def by simp
  have "y div 4 = (ya + 25 * c * 4) div 4" "146097 * c = c + 36524 * c * 4" "1461 * ya = ya + 365 * ya * 4" unfolding y by simp_all
  then have d: "y div 4 = 25 * c + ya div 4" "(146097 * c) div 4 = 36524 * c + c div 4" "(1461 * ya) div 4 = 365 * ya + ya div 4"
    by (simp_all only: div_mult_self1 numeral_eq_iff simp_thms)
  have "y div 400 = c div 4" unfolding c_def by (simp flip: div_mult2_eq)
  then show ?thesis using days_before_year_closed [of y] d y unfolding c_def [symmetric] ya_def [symmetric]
    by linarith
qed

lemma days_before_year_Suc: "1 \<le> y \<Longrightarrow> days_before_year (Suc y) = days_before_year y + (if is_leap y then 366 else 365)"
  by (cases y) simp_all

lemma month_cases:
  assumes "1 \<le> m" "m \<le> (12::nat)"
  obtains "m = 1" | "m = 2" | "m = 3" | "m = 4" | "m = 5" | "m = 6" | "m = 7" | "m = 8" | "m = 9" | "m = 10" | "m = 11" | "m = 12"
proof -
  have "m = 1 \<or> m = 2 \<or> m = 3 \<or> m = 4 \<or> m = 5 \<or> m = 6 \<or> m = 7 \<or> m = 8 \<or> m = 9 \<or> m = 10 \<or> m = 11 \<or> m = 12"
    using assms by arith
  then show thesis using that by blast
qed

lemma days_before_month_table:
  "days_before_month y 1 = 0" "days_before_month y 2 = 31"
  "days_before_month y 3 = (if is_leap y then 60 else 59)" "days_before_month y 4 = (if is_leap y then 91 else 90)"
  "days_before_month y 5 = (if is_leap y then 121 else 120)" "days_before_month y 6 = (if is_leap y then 152 else 151)"
  "days_before_month y 7 = (if is_leap y then 182 else 181)" "days_before_month y 8 = (if is_leap y then 213 else 212)"
  "days_before_month y 9 = (if is_leap y then 244 else 243)" "days_before_month y 10 = (if is_leap y then 274 else 273)"
  "days_before_month y 11 = (if is_leap y then 305 else 304)" "days_before_month y 12 = (if is_leap y then 335 else 334)"
  "days_before_month y 13 = (if is_leap y then 366 else 365)"
  by (simp_all add: eval_nat_numeral last_day_def)

definition valid_date :: "nat \<Rightarrow> nat \<Rightarrow> nat \<Rightarrow> bool" where
  "valid_date y m d \<longleftrightarrow> 1 \<le> y \<and> 1 \<le> m \<and> m \<le> 12 \<and> 1 \<le> d \<and> d \<le> last_day y m"

text \<open>Year and month counted from March.\<close>

definition march_year :: "nat \<Rightarrow> nat \<Rightarrow> nat" where
  "march_year y m = (if m > 2 then y else y - 1)"

definition march_month :: "nat \<Rightarrow> nat" where
  "march_month m = (if m > 2 then m - 3 else m + 9)"

lemma march_days:
  assumes "valid_date y m d"
  shows "days_before_year (Suc (march_year y m)) + (153 * march_month m + 2) div 5 + d = calendar_days y m d + 307"
proof -
  have y: "1 \<le> y" "1 \<le> d" and m: "1 \<le> m" "m \<le> 12" using assms by (simp_all add: valid_date_def)
  from m show ?thesis
    by (rule month_cases)
      (use y days_before_year_Suc [OF y(1)] in \<open>simp_all add: calendar_days_def march_year_def march_month_def
         days_before_month_table\<close>)
qed


subsection \<open>Dates of days\<close>

lemma u32_nat: "int b \<le> x \<Longrightarrow> x < 2 ^ 32 \<Longrightarrow> u32 (x - int b) = nat (x - int b)"
  by (simp add: u32_def)

lemma div_eqI: "n * q \<le> (m::nat) \<Longrightarrow> m < n * Suc q \<Longrightarrow> m div n = q"
  by (simp add: div_nat_eqI mult.commute)

lemma diff_less_of: "a < b + c \<Longrightarrow> 0 < b \<Longrightarrow> a - c < (b::nat)"
  by linarith

text \<open>
  The inverse computation, with the day \<open>e\<close> of a year that starts in March: century, year of the
  century and day come out again.  The year has 366 days when its last month is a leap February.
\<close>

lemma march_split:
  assumes e: "1 \<le> e" "e \<le> 366" "e = 366 \<longrightarrow> is_leap (Suc y)" and c: "c = y div 100" and ya: "ya = y - 100 * c"
    and n: "n = days_before_year (Suc y) + e"
  shows "(4 * n - 1) div 146097 = c" and "(4 * n - 1 - 146097 * c) div 4 = 1461 * ya div 4 + e - 1"
    and "(4 * (1461 * ya div 4 + e - 1) + 3) div 1461 = ya"
    and "(4 * (1461 * ya div 4 + e - 1) + 7 - 1461 * ya) div 4 = e" and "100 * c + ya = y"
proof -
  define q r a b where "q = c div 4" and "r = c mod 4" and "a = ya div 4" and "b = ya mod 4"
  have cq: "c = 4 * q + r" "r \<le> 3" and yab: "ya = 4 * a + b" "b \<le> 3" unfolding q_def r_def a_def b_def by simp_all
  have ya99: "ya \<le> 99" and y: "y = 100 * c + ya" unfolding ya c by (simp_all add: minus_mult_div_eq_mod)
  then show "100 * c + ya = y" by simp
  have k: "(146097 * c) div 4 = 36524 * c + q" and G: "(1461 * ya) div 4 = 365 * ya + a"
    unfolding q_def a_def by (rule div_eqI; simp)+
  have n': "n = 36524 * c + q + 365 * ya + a + e"
    using century_days [of y] n k G unfolding c [symmetric] ya [symmetric] by linarith
  have le: "b = 3 \<and> (ya = 99 \<longrightarrow> r = 3)" if "e = 366"
  proof -
    have l: "Suc y mod 4 = 0" "Suc y mod 100 \<noteq> 0 \<or> Suc y mod 400 = 0" using e(3) that by (simp_all add: is_leap_def)
    have "Suc y = Suc b + (25 * c + a) * 4" unfolding y yab by simp
    then have "Suc b mod 4 = 0" using l(1) by (simp only: mod_mult_self1)
    moreover have "r = 3" if "ya = 99"
    proof -
      have Y: "Suc y = 100 * Suc r + q * 400" unfolding y that cq by simp
      have "Suc y = (Suc r + q * 4) * 100" unfolding Y by simp
      then have "Suc y mod 100 = 0" by (simp only: mod_mult_self2_is_0)
      then have "(100 * Suc r) mod 400 = 0" using l(2) unfolding Y by (simp only: mod_mult_self1) simp
      then show ?thesis using cq(2) by (auto simp: le_Suc_eq numeral_3_eq_3)
    qed
    moreover have "b = 3" using \<open>Suc b mod 4 = 0\<close> yab(2) by presburger
    ultimately show ?thesis by blast
  qed
  show "(4 * n - 1) div 146097 = c"
  proof (rule div_eqI)
    show "146097 * c \<le> 4 * n - 1" using n' e(1) cq by linarith
    show "4 * n - 1 < 146097 * Suc c"
    proof (cases "e = 366")
      case True
      then show ?thesis using le n' cq yab ya99 by (cases "ya = 99") auto
    next
      case False
      then have "e \<le> 365" using e(2) by simp
      moreover have "a \<le> 24" using yab ya99 by arith
      ultimately show ?thesis using n' cq yab by simp
    qed
  qed
  show "(4 * n - 1 - 146097 * c) div 4 = 1461 * ya div 4 + e - 1"
    unfolding G
  proof (rule div_eqI)
    show "4 * (365 * ya + a + e - 1) \<le> 4 * n - 1 - 146097 * c" using n' e(1) cq by linarith
    have "Suc (365 * ya + a + e - 1) = 365 * ya + a + e" using e(1) by simp
    moreover have "4 * n - 1 < 4 * (365 * ya + a + e) + 146097 * c" using n' e(1) cq by simp
    then have "4 * n - 1 - 146097 * c < 4 * (365 * ya + a + e)" by (rule diff_less_of) (use e(1) in simp)
    ultimately show "4 * n - 1 - 146097 * c < 4 * Suc (365 * ya + a + e - 1)" by (simp only:)
  qed
  show "(4 * (1461 * ya div 4 + e - 1) + 3) div 1461 = ya"
    unfolding G
  proof (rule div_eqI)
    show "1461 * ya \<le> 4 * (365 * ya + a + e - 1) + 3" using e(1) yab by linarith
    show "4 * (365 * ya + a + e - 1) + 3 < 1461 * Suc ya"
      using e(1,2) yab le by (cases "e = 366") (linarith | auto)+
  qed
  show "(4 * (1461 * ya div 4 + e - 1) + 7 - 1461 * ya) div 4 = e"
    unfolding G
  proof (rule div_eqI)
    show "4 * e \<le> 4 * (365 * ya + a + e - 1) + 7 - 1461 * ya" using e(1) yab by linarith
    have "4 * (365 * ya + a + e - 1) = 4 * (365 * ya + a + e) - 4" by simp
    then have "4 * (365 * ya + a + e - 1) + 7 < 4 * Suc e + 1461 * ya" using e(1) yab by simp
    then show "4 * (365 * ya + a + e - 1) + 7 - 1461 * ya < 4 * Suc e" by (rule diff_less_of) simp
  qed
qed

text \<open>Month and day of the day \<open>e\<close> of such a year.\<close>

lemma march_month_split:
  assumes "valid_date y m d" and "e = (153 * march_month m + 2) div 5 + d"
  shows "1 \<le> e" and "e \<le> 366" and "e = 366 \<longrightarrow> is_leap (Suc (march_year y m))"
    and "(5 * e - 3) div 153 = march_month m" and "(5 * e + 2 - 153 * march_month m) div 5 = d"
proof -
  have m: "1 \<le> m" "m \<le> 12" and d: "1 \<le> d" "d \<le> last_day y m" and y: "1 \<le> y" using assms(1) by (simp_all add: valid_date_def)
  have b: "(5 * e - 3) div 153 = k" if "153 * k + 3 \<le> 5 * e" "5 * e < 153 * k + 156" for k
    by (rule div_eqI) (use that in \<open>simp_all\<close>)
  have f: "(5 * e + 2 - 153 * k) div 5 = d" if "153 * k + 5 * d \<le> 5 * e + 2" "5 * e + 2 < 153 * k + 5 * d + 5" for k
    by (rule div_eqI) (use that in \<open>simp_all\<close>)
  from m have "1 \<le> e \<and> e \<le> 366 \<and> (e = 366 \<longrightarrow> is_leap (Suc (march_year y m))) \<and>
     (5 * e - 3) div 153 = march_month m \<and> (5 * e + 2 - 153 * march_month m) div 5 = d"
    by (rule month_cases)
      (use assms(2) d y in \<open>auto simp: march_month_def march_year_def last_day_def split: if_splits intro!: b f\<close>)
  then show "1 \<le> e" "e \<le> 366" "e = 366 \<longrightarrow> is_leap (Suc (march_year y m))"
    "(5 * e - 3) div 153 = march_month m" "(5 * e + 2 - 153 * march_month m) div 5 = d" by blast+
qed


lemma date_of_days_inverse:
  assumes v: "valid_date y m d" and y: "y \<le> 9999"
  shows "date_of_days (calendar_days y m d + 307) = (y, m, d)"
proof -
  define Y where "Y = march_year y m"
  define e where "e = (153 * march_month m + 2) div 5 + d"
  define c where "c = Y div 100"
  define ya where "ya = Y - 100 * c"
  define n where "n = calendar_days y m d + 307"
  note M = march_month_split [OF v e_def]
  have n: "n = days_before_year (Suc Y) + e" using march_days [OF v] unfolding n_def Y_def e_def by simp
  note S = march_split [OF M(1,2) M(3) [folded Y_def] c_def ya_def n]
  have "Y \<le> 9999" using y unfolding Y_def march_year_def by auto
  then have "days_before_year (Suc Y) \<le> 366 * 9999" using days_before_year_closed [of Y] by linarith
  then have nb: "1 \<le> n" "4 * n < 2 ^ 32" using n M(1,2) by simp_all
  define ld where "ld = 1461 * ya div 4 + e - 1"
  have c: "146097 * c \<le> 4 * n - 1" unfolding S(1) [symmetric] by (rule times_div_less_eq_dividend)
  have "ya \<le> 99" unfolding ya_def c_def by (simp add: minus_mult_div_eq_mod)
  then have ld: "4 * ld + 7 < 2 ^ 32" "1461 * ya \<le> 4 * ld + 7" unfolding ld_def using M(1,2) by simp_all
  have lm: "153 * march_month m \<le> 5 * e + 2" "3 \<le> 5 * e" using M(1) unfolding e_def by simp_all
  have u1: "u32 (4 * int n - 1) = 4 * n - 1" using nb by (simp add: u32_def)
  have u2: "u32 (int (4 * n - 1) - 146097 * int c) = 4 * n - 1 - 146097 * c" using nb c by (simp add: u32_def)
  have u3: "u32 (4 * int ld + 3) = 4 * ld + 3" using ld by (simp add: u32_def)
  have u4: "u32 (4 * int ld + 7 - 1461 * int ya) = 4 * ld + 7 - 1461 * ya" using ld by (simp add: u32_def)
  have u5: "u32 (5 * int e - 3) = 5 * e - 3" using lm M(2) by (simp add: u32_def)
  have u6: "u32 (5 * int e + 2 - 153 * int (march_month m)) = 5 * e + 2 - 153 * march_month m" using lm M(2) by (simp add: u32_def)
  have u7: "u32 (100 * int c + int ya) = Y" using S(5) \<open>Y \<le> 9999\<close> by (simp add: u32_def)
  have u8: "u32 (int Y + 1) = Suc Y" using \<open>Y \<le> 9999\<close> by (simp add: u32_def)
  have "date_of_days n = (if march_month m < 10 then (Y, march_month m + 3, d) else (Suc Y, march_month m - 9, d))"
    unfolding date_of_days_def Let_def u1 S(1) u2 S(2) ld_def [symmetric] u3 S(3) [folded ld_def] u4 S(4) [folded ld_def] u5 M(4) u6 M(5) u7 u8 ..
  also have "\<dots> = (y, m, d)" using v by (auto simp: Y_def march_year_def march_month_def valid_date_def)
  finally show ?thesis unfolding n_def .
qed

text \<open>Every day is the day of a date.\<close>

lemma day_has_year: "n < days_before_year (Suc k) \<Longrightarrow> \<exists>y. 1 \<le> y \<and> y \<le> k \<and> days_before_year y \<le> n \<and> n < days_before_year (Suc y)"
proof (induction k)
  case (Suc k)
  then show ?case
  proof (cases "n < days_before_year (Suc k)")
    case True
    then show ?thesis using Suc.IH by (meson le_SucI)
  next
    case False
    then show ?thesis using Suc.prems by (intro exI [of _ "Suc k"]) auto
  qed
qed simp

lemma day_has_month:
  "r < days_before_month y (Suc k) \<Longrightarrow> \<exists>m. 1 \<le> m \<and> m \<le> k \<and> days_before_month y m \<le> r \<and> r < days_before_month y m + last_day y m"
proof (induction k)
  case (Suc k)
  then show ?case
  proof (cases "r < days_before_month y (Suc k)")
    case True
    then show ?thesis using Suc.IH by (meson le_SucI)
  next
    case False
    then show ?thesis using Suc.prems by (intro exI [of _ "Suc k"]) auto
  qed
qed simp

lemma day_has_date:
  assumes "n < days_before_year 10000"
  obtains y m d where "valid_date y m d" "y \<le> 9999" "n = calendar_days y m d"
proof -
  have "n < days_before_year (Suc 9999)" using assms by simp
  then obtain y where y: "1 \<le> y" "y \<le> 9999" "days_before_year y \<le> n" "n < days_before_year (Suc y)" using day_has_year by blast
  let ?r = "n - days_before_year y"
  have "?r < days_before_month y 13" using y days_before_year_Suc [OF y(1)] by (auto simp: days_before_month_table)
  then have "?r < days_before_month y (Suc 12)" by simp
  then obtain m where m: "1 \<le> m" "m \<le> 12" "days_before_month y m \<le> ?r" "?r < days_before_month y m + last_day y m"
    using day_has_month by blast
  let ?d = "?r - days_before_month y m + 1"
  have "valid_date y m ?d" using y m by (auto simp: valid_date_def)
  moreover have "n = calendar_days y m ?d" using y m by (simp add: calendar_days_def)
  ultimately show thesis using that y(2) by blast
qed


subsection \<open>Ticks\<close>

definition valid_time :: "OrbisRtcDateTime \<Rightarrow> bool" where
  "valid_time t \<longleftrightarrow> hour t < 24 \<and> minute t < 60 \<and> second t < 60 \<and> microsecond t < 1000000"

definition time_of_day :: "OrbisRtcDateTime \<Rightarrow> nat" where
  "time_of_day t = hour t * 3600000000 + minute t * 60000000 + second t * 1000000 + microsecond t"

lemma CheckValid_iff:
  "sceRtcCheckValid (Some t) = ORBIS_OK \<longleftrightarrow>
     year t \<le> 9999 \<and> valid_date (year t) (month t) (day t) \<and> valid_time t"
  by (auto simp: sceRtcCheckValid_def rtc_codes valid_date_def valid_time_def split: if_splits)

lemma time_of_day_less: "valid_time t \<Longrightarrow> time_of_day t < 86400000000"
  by (simp add: valid_time_def time_of_day_def)

lemma days_9999: "days_before_year 10000 = 3652059"
  using days_before_year_closed [of 9999] by simp

lemma days_before_month_mono: "m \<le> n \<Longrightarrow> days_before_month y m \<le> days_before_month y n"
proof (induction n)
  case (Suc n)
  have "days_before_month y n \<le> days_before_month y (Suc n)" by (cases n) simp_all
  then show ?case using Suc by (cases "m = Suc n") simp_all
qed simp

lemma days_before_year_mono: "m \<le> n \<Longrightarrow> days_before_year m \<le> days_before_year n"
proof (induction n)
  case (Suc n)
  have "days_before_year n \<le> days_before_year (Suc n)" by (cases n) simp_all
  then show ?case using Suc by (cases "m = Suc n") simp_all
qed simp

lemma calendar_days_less:
  assumes "valid_date y m d"
  shows "calendar_days y m d < days_before_year (Suc y)"
proof -
  have y: "1 \<le> y" and m: "1 \<le> m" "m \<le> 12" and d: "1 \<le> d" "d \<le> last_day y m" using assms by (simp_all add: valid_date_def)
  have "days_before_month y m + last_day y m = days_before_month y (Suc m)" using m by (cases m) simp_all
  also have "\<dots> \<le> days_before_month y 13" using m by (intro days_before_month_mono) simp
  finally show ?thesis using d days_before_year_Suc [OF y] by (auto simp: calendar_days_def days_before_month_table)
qed

lemma calendar_days_bound:
  assumes "valid_date y m d" and "y \<le> 9999"
  shows "calendar_days y m d < 3652059"
  using calendar_days_less [OF assms(1)] days_before_year_mono [of "Suc y" 10000] assms(2) days_9999 by simp

lemma u64_add: "u64 (int (u64 x) + int (u64 y)) = u64 (x + y)"
  by (simp add: u64_def mod_simps)

lemma GetTick_sum:
  assumes "sceRtcCheckValid (Some t) = ORBIS_OK"
  shows "sceRtcGetTick (Some t) (Some k) =
    (ORBIS_OK, Some (march_based t),
     Some (u64 (int (calendar_days (year t) (month t) (day t)) * 86400000000 + (int (hour t) * 3600000000 +
       wrap_s32 (int (minute t) * 60000000) + int (second t) * 1000000 + int (microsecond t)))))"
proof -
  have t: "year t \<le> 9999" "valid_date (year t) (month t) (day t)" using assms by (simp_all add: CheckValid_iff)
  define n where "n = calendar_days (year t) (month t) (day t)"
  let ?t = "march_based t"
  have mb: "year ?t = march_year (year t) (month t)" "month ?t = march_month (month t)" "day ?t = day t"
    "hour ?t = hour t" "minute ?t = minute t" "second ?t = second t" "microsecond ?t = microsecond t"
    by (simp_all add: march_based_def march_year_def march_month_def)
  have "(146097 * (year ?t div 100)) div 4 + (1461 * (year ?t - 100 * (year ?t div 100))) div 4 +
      (153 * month ?t + 2) div 5 + day ?t = n + 307"
    unfolding century_days using march_days [OF t(2)] by (simp add: mb n_def)
  moreover have n: "n < 3652059" unfolding n_def by (rule calendar_days_bound [OF t(2,1)])
  then have "u64 (int (n + 307) - 307) = n" by (simp add: u64_def)
  ultimately show ?thesis
    using assms unfolding sceRtcGetTick_def option.case prod.case Let_def n_def [symmetric]
    by (simp only: mb u64_add) (simp add: ORBIS_OK_def)
qed

lemma GetTick_correct:
  assumes "sceRtcCheckValid (Some t) = ORBIS_OK" and "minute t < 36"
  shows "sceRtcGetTick (Some t) (Some k) =
    (ORBIS_OK, Some (march_based t), Some (calendar_days (year t) (month t) (day t) * 86400000000 + time_of_day t))"
proof -
  have t: "year t \<le> 9999" "valid_date (year t) (month t) (day t)" "valid_time t" using assms by (simp_all add: CheckValid_iff)
  define n where "n = calendar_days (year t) (month t) (day t)"
  have "n < 3652059" unfolding n_def by (rule calendar_days_bound [OF t(2,1)])
  then have "u64 (int (n * 86400000000 + time_of_day t)) = n * 86400000000 + time_of_day t"
    using time_of_day_less [OF t(3)] by (simp add: u64_def)
  moreover have "wrap_s32 (int (minute t) * 60000000) = int (minute t) * 60000000" using assms(2) by (simp add: wrap_s32_exact)
  ultimately show ?thesis unfolding GetTick_sum [OF assms(1)] n_def [symmetric] by (simp add: time_of_day_def add.assoc)
qed

text \<open>Where the overflow wraps around, the tick of a date with 36 minutes or more is too small by \<open>2 ^ 32\<close> microseconds.\<close>

lemma GetTick_late_minutes:
  assumes "sceRtcCheckValid (Some t) = ORBIS_OK" and "36 \<le> minute t"
  shows "snd (snd (sceRtcGetTick (Some t) (Some k))) =
    Some (u64 (int (calendar_days (year t) (month t) (day t) * 86400000000 + time_of_day t) - 2 ^ 32))"
proof -
  have "minute t < 60" using assms(1) by (simp add: CheckValid_iff valid_time_def)
  then have "wrap_s32 (int (minute t) * 60000000 - 2 ^ 32) = int (minute t) * 60000000 - 2 ^ 32" using assms(2) by (intro wrap_s32_exact) simp_all
  moreover have "wrap_s32 (int (minute t) * 60000000 - 2 ^ 32) = wrap_s32 (int (minute t) * 60000000)"
    unfolding wrap_s32_def by (rule arg_cong [of _ _ sint]) (simp add: word_of_int_eq_iff take_bit_eq_mod del: of_int_diff of_int_mult)
  ultimately have "wrap_s32 (int (minute t) * 60000000) = int (minute t) * 60000000 - 2 ^ 32" by simp
  then show ?thesis unfolding GetTick_sum [OF assms(1)] by (simp only:) (simp add: time_of_day_def algebra_simps)
qed

lemma time_split:
  assumes "valid_time t"
  shows "time_of_day t div 3600000000 = hour t" and "time_of_day t mod 3600000000 div 60000000 = minute t"
    and "time_of_day t mod 3600000000 mod 60000000 div 1000000 = second t"
    and "time_of_day t mod 3600000000 mod 60000000 mod 1000000 = microsecond t"
proof -
  have b: "minute t * 60000000 + second t * 1000000 + microsecond t < 3600000000" "second t * 1000000 + microsecond t < 60000000"
    "microsecond t < 1000000" using assms by (simp_all add: valid_time_def)
  have 1: "time_of_day t = (minute t * 60000000 + second t * 1000000 + microsecond t) + hour t * 3600000000"
    by (simp add: time_of_day_def)
  have m1: "time_of_day t mod 3600000000 = (second t * 1000000 + microsecond t) + minute t * 60000000"
    unfolding 1 mod_mult_self1 using b(1) by simp
  have m2: "time_of_day t mod 3600000000 mod 60000000 = microsecond t + second t * 1000000"
    unfolding m1 mod_mult_self1 using b(2) by simp
  show "time_of_day t div 3600000000 = hour t" unfolding 1 using b(1) by (simp only: div_mult_self1 div_less)
  show "time_of_day t mod 3600000000 div 60000000 = minute t" unfolding m1 using b(2) by (simp only: div_mult_self1 div_less)
  show "time_of_day t mod 3600000000 mod 60000000 div 1000000 = second t"
    unfolding m2 using b(3) by (simp only: div_mult_self1 div_less)
  show "time_of_day t mod 3600000000 mod 60000000 mod 1000000 = microsecond t"
    unfolding m2 mod_mult_self1 using b(3) by simp
qed

lemma SetTick_of_date:
  assumes "year t \<le> 9999" and "valid_date (year t) (month t) (day t)" and "valid_time t"
  shows "sceRtcSetTick (Some t0) (Some (calendar_days (year t) (month t) (day t) * 86400000000 + time_of_day t)) =
    (ORBIS_OK, Some \<lparr>year = year t, month = month t, day = day t, hour = hour t, minute = minute t, second = second t,
       microsecond = microsecond t\<rparr>)"
proof -
  define n where "n = calendar_days (year t) (month t) (day t)"
  have b: "n < 3652059" unfolding n_def by (rule calendar_days_bound [OF assms(2,1)])
  have r: "time_of_day t < 86400000000" by (rule time_of_day_less [OF assms(3)])
  have dm: "(n * 86400000000 + time_of_day t) div 86400000000 = n" "(n * 86400000000 + time_of_day t) mod 86400000000 = time_of_day t"
    using r by simp_all
  have u: "u64 (int n + 307) = n + 307" using b by (simp add: u64_def)
  have "month t \<le> 12" "day t \<le> 31" using assms(2) by (auto simp: valid_date_def last_day_def split: if_splits)
  then have w: "u16 (int (year t)) = year t" "u16 (int (month t)) = month t" "u16 (int (day t)) = day t"
    using assms(1) by (simp_all add: u16_def)
  show ?thesis
    unfolding sceRtcSetTick_def option.case prod.case n_def [symmetric] dm Let_def u
      date_of_days_inverse [OF assms(2,1), folded n_def] w time_split [OF assms(3)] ..
qed

lemma tick_has_date:
  assumes "k < 3652059 * 86400000000"
  obtains t where "year t \<le> 9999" "valid_date (year t) (month t) (day t)" "valid_time t"
    "k = calendar_days (year t) (month t) (day t) * 86400000000 + time_of_day t"
proof -
  have "k div 86400000000 < days_before_year 10000" using assms by (simp add: days_9999 div_less_iff_less_mult)
  then obtain y m d where v: "valid_date y m d" "y \<le> 9999" "k div 86400000000 = calendar_days y m d" by (rule day_has_date)
  define r where "r = k mod 86400000000"
  define t where "t = \<lparr>year = y, month = m, day = d, hour = r div 3600000000, minute = r mod 3600000000 div 60000000,
    second = r mod 3600000000 mod 60000000 div 1000000, microsecond = r mod 3600000000 mod 60000000 mod 1000000\<rparr>"
  have "r < 86400000000" unfolding r_def by simp
  then have "valid_time t" by (simp add: t_def valid_time_def div_less_iff_less_mult)
  moreover have "time_of_day t = r" by (simp add: t_def time_of_day_def div_mult_mod_eq add.assoc)
  moreover have "k = k div 86400000000 * 86400000000 + r" unfolding r_def by simp
  ultimately show thesis using that [of t] v by (simp add: t_def)
qed

end
