(* ===== verification/Orbit_RtcText.thy ===== *)
theory Orbit_RtcText
  imports Orbit_Rtc
begin

text \<open>
  Dates as text (\<^verbatim>\<open>src/core/libraries/rtc/rtc.cpp\<close>): the formats of RFC 2822 and RFC 3339 and their
  parsers.  \<open>None\<close> as a result of a parser is a C++ exception or an access behind the end of the text.
\<close>

subsection \<open>Strings of the standard library\<close>

definition digit :: "nat \<Rightarrow> char" where
  "digit n = char_of (48 + n)"

function to_string :: "nat \<Rightarrow> string" where
  "to_string n = (if n < 10 then [digit n] else to_string (n div 10) @ [digit (n mod 10)])"
  by auto
termination by (relation "measure id") auto

declare to_string.simps [simp del]

definition is_digit :: "char \<Rightarrow> bool" where
  "is_digit c \<longleftrightarrow> 48 \<le> (of_char c :: nat) \<and> (of_char c :: nat) \<le> 57"

definition is_space :: "char \<Rightarrow> bool" where
  "is_space c \<longleftrightarrow> of_char c = (32::nat) \<or> (9 \<le> (of_char c :: nat) \<and> (of_char c :: nat) \<le> 13)"

definition digits_value :: "string \<Rightarrow> int" where
  "digits_value ds = foldl (\<lambda>v c. 10 * v + (of_char c - 48)) 0 ds"

text \<open>\<^verbatim>\<open>std::stoi\<close> on at most four characters, which cannot leave the range of \<^verbatim>\<open>int\<close>.\<close>

definition stoi :: "string \<Rightarrow> int option" where
  "stoi s =
     (let s1 = dropWhile is_space s;
          neg = (s1 \<noteq> [] \<and> hd s1 = CHR ''-'');
          s2 = (if s1 \<noteq> [] \<and> (hd s1 = CHR ''-'' \<or> hd s1 = CHR ''+'') then tl s1 else s1);
          ds = takeWhile is_digit s2
      in if ds = [] then None else Some (if neg then - digits_value ds else digits_value ds))"

definition substr :: "string \<Rightarrow> nat \<Rightarrow> nat \<Rightarrow> string option" where
  "substr s pos n = (if pos > length s then None else Some (take n (drop pos s)))"

definition char_at :: "string \<Rightarrow> nat \<Rightarrow> char option" where
  "char_at s pos = (if pos < length s then Some (s ! pos) else if pos = length s then Some (CHR 0x00) else None)"

definition number_at :: "string \<Rightarrow> nat \<Rightarrow> nat \<Rightarrow> int option" where
  "number_at s pos n = do { t \<leftarrow> substr s pos n; stoi t }"

subsection \<open>Formatting\<close>

definition two_digits :: "nat \<Rightarrow> string" where
  "two_digits n = (if n < 10 then ''0'' @ to_string n else to_string n)"

definition zone_text :: "string \<Rightarrow> int \<Rightarrow> string" where
  "zone_text separator iTimeZoneMinutes =
     (let timeZoneHours = trunc_div iTimeZoneMinutes 60;
          timeZoneRemainder = trunc_mod iTimeZoneMinutes 60
      in (if timeZoneHours < 0 then ''-'' @ two_digits (nat (- timeZoneHours)) else ''+'' @ two_digits (nat timeZoneHours)) @
         (if timeZoneRemainder = 0 then separator @ ''00'' else separator @ to_string (nat \<bar>timeZoneRemainder\<bar>)))"

text \<open>The date that is formatted; \<open>now\<close> is the current tick, used when no tick is given.\<close>

definition format_date :: "nat option \<Rightarrow> nat \<Rightarrow> int \<Rightarrow> OrbisRtcDateTime" where
  "format_date pTickUtc now iTimeZoneMinutes =
     (let formatTick = (case pTickUtc of None \<Rightarrow> now | Some tick \<Rightarrow> tick)
      in the (snd (sceRtcSetTick (Some uninitialised)
           (snd (sceRtcTickAddMinutes (Some formatTick) (Some formatTick) iTimeZoneMinutes)))))"

definition sceRtcFormatRFC3339Precise :: "bool \<Rightarrow> nat option \<Rightarrow> nat \<Rightarrow> int \<Rightarrow> s32 \<times> string option" where
  "sceRtcFormatRFC3339Precise psz_null pTickUtc now iTimeZoneMinutes =
     (if psz_null then (ORBIS_RTC_ERROR_INVALID_POINTER, None)
      else
        let t = format_date pTickUtc now iTimeZoneMinutes
        in (ORBIS_OK, Some (to_string (year t) @ ''-'' @ two_digits (month t) @ ''-'' @ two_digits (day t) @ ''T'' @
              two_digits (hour t) @ '':'' @ two_digits (minute t) @ '':'' @ two_digits (second t) @
              (if microsecond t \<noteq> 0 then ''.'' @ take 2 (to_string (microsecond t div 1000)) else ''.00'') @
              (if iTimeZoneMinutes = 0 then ''Z'' else zone_text '':'' iTimeZoneMinutes))))"

definition weekday_names :: "string list" where
  "weekday_names = [''Sun, '', ''Mon, '', ''Tue, '', ''Wed, '', ''Thu, '', ''Fri, '', ''Sat, '']"

definition month_names :: "string list" where
  "month_names = [''Jan'', ''Feb'', ''Mar'', ''Apr'', ''May'', ''Jun'', ''Jul'', ''Aug'', ''Sep'', ''Oct'', ''Nov'', ''Dec'']"

text \<open>Nothing is written when the date is not valid; the result is success all the same.\<close>

definition sceRtcFormatRFC2822 :: "s32 \<Rightarrow> bool \<Rightarrow> nat option \<Rightarrow> nat \<Rightarrow> int \<Rightarrow> s32 \<times> string option" where
  "sceRtcFormatRFC2822 sdk_version psz_null pTickUtc now iTimeZoneMinutes =
     (if psz_null then (ORBIS_RTC_ERROR_INVALID_POINTER, None)
      else
        let t = format_date pTickUtc now iTimeZoneMinutes in
        if sceRtcCheckValid (Some t) \<ge> 0
        then
          let weekDay = sceRtcGetDayOfWeek sdk_version (int (year t)) (int (month t)) (int (day t))
          in (ORBIS_OK, Some ((if 0 \<le> weekDay \<and> weekDay \<le> 6 then weekday_names ! nat weekDay else '''') @
                two_digits (day t) @ '' '' @ month_names ! (month t - 1) @ '' '' @ to_string (year t) @ '' '' @
                two_digits (hour t) @ '':'' @ two_digits (minute t) @ '':'' @ two_digits (second t) @ '' '' @
                (if iTimeZoneMinutes = 0 then ''+0000'' else zone_text '''' iTimeZoneMinutes)))
        else (ORBIS_OK, None))"

subsection \<open>Parsing\<close>

fun GetMonthFromString :: "string \<Rightarrow> int" where
  "GetMonthFromString s =
     (if s = ''Jan'' then 1 else if s = ''Feb'' then 2 else if s = ''Mar'' then 3 else if s = ''Apr'' then 4
      else if s = ''May'' then 5 else if s = ''Jun'' then 6 else if s = ''Jul'' then 7 else if s = ''Aug'' then 8
      else if s = ''Sep'' then 9 else if s = ''Oct'' then 10 else if s = ''Nov'' then 11 else if s = ''Dec'' then 12
      else 1)"

definition parsed_date :: "int \<Rightarrow> int \<Rightarrow> int \<Rightarrow> int \<Rightarrow> int \<Rightarrow> int \<Rightarrow> int \<Rightarrow> OrbisRtcDateTime" where
  "parsed_date y mo d h mi se us = \<lparr>year = u16 y, month = u16 mo, day = u16 d, hour = u16 h, minute = u16 mi,
     second = u16 se, microsecond = u32 us\<rparr>"

definition add_offset :: "int \<Rightarrow> nat option \<Rightarrow> nat option" where
  "add_offset timeZoneOffset pTick = snd (sceRtcTickAddMinutes pTick pTick timeZoneOffset)"

definition sceRtcParseRFC3339 :: "nat option \<Rightarrow> string option \<Rightarrow> (s32 \<times> nat option) option" where
  "sceRtcParseRFC3339 pTickUtc pszDateTime =
     (case (pTickUtc, pszDateTime) of
        (Some k, Some s) \<Rightarrow>
          do {
            y \<leftarrow> number_at s 0 4;
            mo \<leftarrow> number_at s 5 2;
            d \<leftarrow> number_at s 8 2;
            h \<leftarrow> number_at s 11 2;
            mi \<leftarrow> number_at s 14 2;
            se \<leftarrow> number_at s 17 2;
            c \<leftarrow> char_at s 19;
            (us, timezone_pos) \<leftarrow> (if c = CHR ''.'' then do { us \<leftarrow> number_at s 20 2; Some (us, 22) } else Some (0, 19));
            let tick = snd (snd (sceRtcGetTick (Some (parsed_date y mo d h mi se us)) pTickUtc));
            z \<leftarrow> char_at s timezone_pos;
            (if z = CHR ''Z'' then Some (ORBIS_OK, tick)
             else if z = CHR ''-''
             then do { a \<leftarrow> number_at s (timezone_pos + 1) 2; b \<leftarrow> number_at s (timezone_pos + 4) 2;
                       Some (ORBIS_OK, add_offset (- (a * 60 + b)) tick) }
             else if z = CHR ''+''
             then do { a \<leftarrow> number_at s (timezone_pos + 1) 2; b \<leftarrow> number_at s (timezone_pos + 4) 2;
                       Some (ORBIS_OK, add_offset (a * 60 + b) tick) }
             else Some (ORBIS_OK, tick))
          }
      | _ \<Rightarrow> Some (ORBIS_RTC_ERROR_INVALID_POINTER, pTickUtc))"

definition parse_rfc2822 :: "nat option \<Rightarrow> string \<Rightarrow> (s32 \<times> nat option) option" where
  "parse_rfc2822 pTickUtc s =
     do {
       d \<leftarrow> number_at s 5 2;
       mo \<leftarrow> map_option GetMonthFromString (substr s 8 3);
       y \<leftarrow> number_at s 12 4;
       h \<leftarrow> number_at s 17 2;
       mi \<leftarrow> number_at s 20 2;
       se \<leftarrow> number_at s 23 2;
       let tick = snd (snd (sceRtcGetTick (Some (parsed_date y mo d h mi se 0)) pTickUtc));
       z \<leftarrow> char_at s 26;
       (if z = CHR ''+''
        then do { a \<leftarrow> number_at s 27 2; b \<leftarrow> number_at s 29 2; Some (ORBIS_OK, add_offset (a * 60 + b) tick) }
        else if z = CHR ''-''
        then do { a \<leftarrow> number_at s 27 2; b \<leftarrow> number_at s 29 2; Some (ORBIS_OK, add_offset (- (a * 60 + b)) tick) }
        else Some (ORBIS_OK, tick))
     }"

definition parse_asctime :: "nat option \<Rightarrow> string \<Rightarrow> (s32 \<times> nat option) option" where
  "parse_asctime pTickUtc s =
     do {
       mo \<leftarrow> map_option GetMonthFromString (substr s 4 3);
       d \<leftarrow> number_at s 8 2;
       h \<leftarrow> number_at s 11 2;
       mi \<leftarrow> number_at s 14 2;
       se \<leftarrow> number_at s 17 2;
       y \<leftarrow> number_at s 20 4;
       Some (ORBIS_OK, snd (snd (sceRtcGetTick (Some (parsed_date y mo d h mi se 0)) pTickUtc)))
     }"

definition sceRtcParseDateTime :: "nat option \<Rightarrow> string option \<Rightarrow> (s32 \<times> nat option) option" where
  "sceRtcParseDateTime pTickUtc pszDateTime =
     (case (pTickUtc, pszDateTime) of
        (Some k, Some s) \<Rightarrow>
          do {
            formatKey \<leftarrow> char_at s 19;
            (if formatKey = CHR ''Z'' \<or> formatKey = CHR ''-'' \<or> formatKey = CHR ''+'' \<or> formatKey = CHR ''.''
             then do { (_, tick) \<leftarrow> sceRtcParseRFC3339 pTickUtc pszDateTime; Some (ORBIS_OK, tick) }
             else if formatKey = CHR '':'' then parse_rfc2822 pTickUtc s
             else parse_asctime pTickUtc s)
          }
      | _ \<Rightarrow> Some (ORBIS_RTC_ERROR_INVALID_POINTER, pTickUtc))"


subsection \<open>Digits\<close>

lemma of_char_digit [simp]: "n < 10 \<Longrightarrow> (of_char (digit n) :: nat) = 48 + n"
  by (simp add: digit_def)

lemma of_char_digit_int [simp]: "n < 10 \<Longrightarrow> (of_char (digit n) :: int) = 48 + int n"
proof -
  assume "n < 10"
  then have "int (of_char (digit n)) = 48 + int n" by simp
  then show ?thesis by (simp only: of_nat_of_char)
qed

lemma digit_simps [simp]: "n < 10 \<Longrightarrow> is_digit (digit n)" "n < 10 \<Longrightarrow> \<not> is_space (digit n)"
  by (simp_all add: is_digit_def is_space_def)

lemma digit_neq [simp]:
  assumes "n < 10"
  shows "digit n \<noteq> CHR ''-''" and "digit n \<noteq> CHR ''+''"
proof -
  have "(of_char (digit n) :: nat) \<noteq> of_char (CHR ''-'')" "(of_char (digit n) :: nat) \<noteq> of_char (CHR ''+'')" using assms by simp_all
  then show "digit n \<noteq> CHR ''-''" "digit n \<noteq> CHR ''+''" by metis+
qed

lemma to_string_digits:
  "n < 10 \<Longrightarrow> to_string n = [digit n]"
  "10 \<le> n \<Longrightarrow> n < 100 \<Longrightarrow> to_string n = [digit (n div 10), digit (n mod 10)]"
  "1000 \<le> n \<Longrightarrow> n < 10000 \<Longrightarrow>
     to_string n = [digit (n div 1000), digit (n div 100 mod 10), digit (n div 10 mod 10), digit (n mod 10)]"
  by (simp_all add: to_string.simps [of n] to_string.simps [of "n div 10"] to_string.simps [of "n div 100"]
      to_string.simps [of "n div 1000"] div_less_iff_less_mult flip: div_mult2_eq)

lemma digit_0: "digit 0 = CHR ''0''"
  by code_simp

lemma two_digits_eq: "n < 100 \<Longrightarrow> two_digits n = [digit (n div 10), digit (n mod 10)]"
  by (cases "n < 10") (simp_all add: two_digits_def to_string_digits digit_0)

lemma stoi_two: "a < 10 \<Longrightarrow> b < 10 \<Longrightarrow> stoi [digit a, digit b] = Some (10 * int a + int b)"
  by (simp add: stoi_def digits_value_def)

lemma stoi_four:
  "a < 10 \<Longrightarrow> b < 10 \<Longrightarrow> c < 10 \<Longrightarrow> d < 10 \<Longrightarrow>
     stoi [digit a, digit b, digit c, digit d] = Some (1000 * int a + 100 * int b + 10 * int c + int d)"
  by (simp add: stoi_def digits_value_def)

lemma stoi_two_digits: "n < 100 \<Longrightarrow> stoi [digit (n div 10), digit (n mod 10)] = Some (int n)"
  by (subst stoi_two) (simp_all add: div_less_iff_less_mult zdiv_int zmod_int)

lemma four_digits: "n div 1000 * 1000 + n div 100 mod 10 * 100 + n div 10 mod 10 * 10 + n mod 10 = (n::nat)"
proof -
  have "n div 10 div 10 = n div 100" "n div 100 div 10 = n div 1000" by (simp_all flip: div_mult2_eq)
  then show ?thesis
    using div_mult_mod_eq [of n 10] div_mult_mod_eq [of "n div 10" 10] div_mult_mod_eq [of "n div 100" 10] by linarith
qed

lemma stoi_four_digits:
  assumes "n < 10000"
  shows "stoi [digit (n div 1000), digit (n div 100 mod 10), digit (n div 10 mod 10), digit (n mod 10)] = Some (int n)"
proof -
  have "1000 * int (n div 1000) + 100 * int (n div 100 mod 10) + 10 * int (n div 10 mod 10) + int (n mod 10) =
      int (n div 1000 * 1000 + n div 100 mod 10 * 100 + n div 10 mod 10 * 10 + n mod 10)" by simp
  also have "\<dots> = int n" by (simp only: four_digits)
  finally show ?thesis using assms by (subst stoi_four) (simp_all add: div_less_iff_less_mult)
qed

subsection \<open>Formatting, then parsing\<close>

text \<open>The text of a date with a four-digit year and whole seconds.\<close>

lemma u64_int: "k < 2 ^ 64 \<Longrightarrow> u64 (int k) = k"
  by (simp add: u64_def)

lemma format_date_of_tick:
  assumes "year t \<le> 9999" and "valid_date (year t) (month t) (day t)" and "valid_time t"
    and k: "k = calendar_days (year t) (month t) (day t) * 86400000000 + time_of_day t"
  shows "format_date (Some k) now 0 = \<lparr>year = year t, month = month t, day = day t, hour = hour t, minute = minute t,
     second = second t, microsecond = microsecond t\<rparr>"
proof -
  have "k < 2 ^ 64" using calendar_days_bound [OF assms(2,1)] time_of_day_less [OF assms(3)] unfolding k by simp
  then show ?thesis
    unfolding format_date_def
    by (simp add: sceRtcTickAddMinutes_def tick_add_def u64_int) (simp add: k SetTick_of_date [OF assms(1-3)])
qed

lemma parsed_date_tick:
  assumes "year t \<le> 9999" and v: "valid_date (year t) (month t) (day t)" and t: "valid_time t" "minute t < 36" and "microsecond t = 0"
  shows "snd (snd (sceRtcGetTick (Some (parsed_date (int (year t)) (int (month t)) (int (day t)) (int (hour t))
      (int (minute t)) (int (second t)) 0)) (Some k0))) =
    Some (calendar_days (year t) (month t) (day t) * 86400000000 + time_of_day t)"
proof -
  let ?p = "parsed_date (int (year t)) (int (month t)) (int (day t)) (int (hour t)) (int (minute t)) (int (second t)) 0"
  have "month t \<le> 12" "day t \<le> 31" using v by (auto simp: valid_date_def last_day_def split: if_splits)
  then have p: "year ?p = year t" "month ?p = month t" "day ?p = day t" "hour ?p = hour t" "minute ?p = minute t"
    "second ?p = second t" "microsecond ?p = microsecond t"
    using assms by (simp_all add: parsed_date_def u16_def u32_def valid_time_def)
  then have "sceRtcCheckValid (Some ?p) = ORBIS_OK" using assms by (simp add: CheckValid_iff valid_time_def)
  from GetTick_correct [OF this, of k0] show ?thesis using t(2) by (simp add: p time_of_day_def)
qed

lemma valid_fields:
  assumes "valid_date y m d" and "valid_time t"
  shows "m < 100" "d < 100" "hour t < 100" "minute t < 100" "second t < 100" "1 \<le> m" "m \<le> 12"
  using assms by (auto simp: valid_date_def valid_time_def last_day_def split: if_splits)

lemma rfc3339_round_trip:
  assumes y: "1000 \<le> year t" "year t \<le> 9999" and v: "valid_date (year t) (month t) (day t)" and t: "valid_time t" "minute t < 36"
    and us: "microsecond t = 0" and k: "k = calendar_days (year t) (month t) (day t) * 86400000000 + time_of_day t"
    and f: "sceRtcFormatRFC3339Precise False (Some k) now 0 = (r, Some s)"
  shows "sceRtcParseRFC3339 (Some k0) (Some s) = Some (ORBIS_OK, Some k)" and "char_at s 19 = Some (CHR ''.'')"
proof -
  note b = valid_fields [OF v t(1)]
  have s: "s = [digit (year t div 1000), digit (year t div 100 mod 10), digit (year t div 10 mod 10), digit (year t mod 10),
      CHR ''-'', digit (month t div 10), digit (month t mod 10), CHR ''-'', digit (day t div 10), digit (day t mod 10), CHR ''T'',
      digit (hour t div 10), digit (hour t mod 10), CHR '':'', digit (minute t div 10), digit (minute t mod 10), CHR '':'',
      digit (second t div 10), digit (second t mod 10), CHR ''.'', CHR ''0'', CHR ''0'', CHR ''Z'']"
    using f b y us
    by (simp add: sceRtcFormatRFC3339Precise_def format_date_of_tick [OF y(2) v t(1) k] two_digits_eq to_string_digits)
  have z: "stoi ''00'' = Some 0" by code_simp
  show "char_at s 19 = Some (CHR ''.'')" by (simp add: s char_at_def)
  show "sceRtcParseRFC3339 (Some k0) (Some s) = Some (ORBIS_OK, Some k)"
    unfolding sceRtcParseRFC3339_def
    using y b parsed_date_tick [OF y(2) v t us]
    by (simp add: s number_at_def substr_def char_at_def stoi_two_digits stoi_four_digits z k)
qed

lemma month_names_round_trip: "1 \<le> m \<Longrightarrow> m \<le> 12 \<Longrightarrow> length (month_names ! (m - 1)) = 3 \<and> GetMonthFromString (month_names ! (m - 1)) = int m"
  by (erule (1) month_cases) (simp_all add: month_names_def)

lemma weekday_length:
  assumes "w < 7"
  shows "length (weekday_names ! w) = 5"
proof -
  have "list_all (\<lambda>s. length s = 5) weekday_names" "length weekday_names = 7" by code_simp+
  then show ?thesis using assms by (simp add: list_all_length)
qed

lemma DayOfWeek_valid:
  assumes "valid_date y m d" and "y \<le> 9999"
  shows "sceRtcGetDayOfWeek sdk (int y) (int m) (int d) = int ((calendar_days y m d + 1) mod 7)"
  using assms by (simp add: sceRtcGetDayOfWeek_def sceRtcGetDaysInMonth_def valid_date_def)

lemma list5: "length w = 5 \<Longrightarrow> \<exists>a b c d e. w = [a, b, c, d, e]"
  by (auto simp: eval_nat_numeral length_Suc_conv)

lemma list3: "length w = 3 \<Longrightarrow> \<exists>a b c. w = [a, b, c]"
  by (auto simp: eval_nat_numeral length_Suc_conv)

lemma rfc2822_round_trip:
  assumes y: "1000 \<le> year t" "year t \<le> 9999" and v: "valid_date (year t) (month t) (day t)" and t: "valid_time t" "minute t < 36"
    and us: "microsecond t = 0" and k: "k = calendar_days (year t) (month t) (day t) * 86400000000 + time_of_day t"
    and f: "sceRtcFormatRFC2822 sdk False (Some k) now 0 = (r, Some s)"
  shows "sceRtcParseDateTime (Some k0) (Some s) = Some (ORBIS_OK, Some k)"
proof -
  note b = valid_fields [OF v t(1)]
  let ?t = "\<lparr>year = year t, month = month t, day = day t, hour = hour t, minute = minute t, second = second t, microsecond = microsecond t\<rparr>"
  have ok: "sceRtcCheckValid (Some ?t) = ORBIS_OK" using y v t by (simp add: CheckValid_iff valid_time_def)
  define wd where "wd = (calendar_days (year t) (month t) (day t) + 1) mod 7"
  define w where "w = weekday_names ! wd"
  define mn where "mn = month_names ! (month t - 1)"
  have "wd < 7" unfolding wd_def by simp
  then obtain w1 w2 w3 w4 w5 where w: "w = [w1, w2, w3, w4, w5]" using list5 [OF weekday_length] unfolding w_def by blast
  have mn: "length mn = 3" "GetMonthFromString mn = int (month t)" using month_names_round_trip [OF b(6,7)] by (simp_all add: mn_def)
  obtain m1 m2 m3 where m: "mn = [m1, m2, m3]" using list3 [OF mn(1)] by blast
  have W: "(if 0 \<le> int wd \<and> int wd \<le> 6 then weekday_names ! nat (int wd) else '''') = w"
    using \<open>wd < 7\<close> by (simp add: w_def)
  have s: "s = [w1, w2, w3, w4, w5, digit (day t div 10), digit (day t mod 10), CHR '' '', m1, m2, m3, CHR '' '',
      digit (year t div 1000), digit (year t div 100 mod 10), digit (year t div 10 mod 10), digit (year t mod 10), CHR '' '',
      digit (hour t div 10), digit (hour t mod 10), CHR '':'', digit (minute t div 10), digit (minute t mod 10), CHR '':'',
      digit (second t div 10), digit (second t mod 10), CHR '' '', CHR ''+'', CHR ''0'', CHR ''0'', CHR ''0'', CHR ''0'']"
    using f b y
    unfolding sceRtcFormatRFC2822_def format_date_of_tick [OF y(2) v t(1) k] Let_def ok OrbisRtcDateTime.select_convs
      DayOfWeek_valid [OF v y(2)] wd_def [symmetric] W mn_def [symmetric]
    by (simp add: two_digits_eq to_string_digits w m ORBIS_OK_def)
  have z: "stoi ''00'' = Some 0" by code_simp
  have T: "add_offset 0 (Some k) = Some k"
    using calendar_days_bound [OF v y(2)] time_of_day_less [OF t(1)] unfolding k
    by (simp add: add_offset_def sceRtcTickAddMinutes_def tick_add_def u64_def)
  show ?thesis
    unfolding sceRtcParseDateTime_def parse_rfc2822_def
    using y b parsed_date_tick [OF y(2) v t us, of k0] mn(2)
    by (simp add: s number_at_def substr_def char_at_def stoi_two_digits stoi_four_digits z m T k [symmetric]
        del: GetMonthFromString.simps)
qed

lemma rfc3339_date_time:
  assumes "char_at s 19 = Some (CHR ''.'')" and "sceRtcParseRFC3339 (Some k0) (Some s) = Some (r, k)"
  shows "sceRtcParseDateTime (Some k0) (Some s) = Some (ORBIS_OK, k)"
  using assms by (simp add: sceRtcParseDateTime_def)

end
