(* ===== verification/Orbit_RtcDos.thy ===== *)
theory Orbit_RtcDos
  imports Orbit_RtcText
begin

text \<open>
  Dates of the DOS format (\<^verbatim>\<open>sceRtcGetDosTime\<close>, \<^verbatim>\<open>sceRtcSetDosTime\<close>): six bit fields of a 32-bit word, read
  back field by field.
\<close>

unbundle bit_operations_syntax

lemma masks:
  "(x::32 word) AND 0x1F = take_bit 5 x" "x AND 0x3F = take_bit 6 x" "x AND 0x0F = take_bit 4 x" "x AND 0x7F = take_bit 7 x"
  "drop_bit 11 (x AND 0xf800) = take_bit 5 (drop_bit 11 x)" "push_bit 1 x AND 0x3e = push_bit 1 (take_bit 5 x)"
proof -
  have m: "(0x1F :: 32 word) = mask 5" "(0x3F :: 32 word) = mask 6" "(0x0F :: 32 word) = mask 4" "(0x7F :: 32 word) = mask 7"
    "(0xf800 :: 32 word) = push_bit 11 (mask 5)" "(0x3e :: 32 word) = push_bit 1 (mask 5)" by code_simp+
  show "x AND 0x1F = take_bit 5 x" "x AND 0x3F = take_bit 6 x" "x AND 0x0F = take_bit 4 x" "x AND 0x7F = take_bit 7 x"
    unfolding m by (simp_all add: take_bit_eq_mask)
  show "drop_bit 11 (x AND 0xf800) = take_bit 5 (drop_bit 11 x)" unfolding m
    by (rule bit_word_eqI) (auto simp: bit_simps)
  show "push_bit 1 x AND 0x3e = push_bit 1 (take_bit 5 x)" unfolding m
    by (simp only: take_bit_eq_mask push_bit_and)
qed

definition dos_word :: "32 word \<Rightarrow> 32 word \<Rightarrow> 32 word \<Rightarrow> 32 word \<Rightarrow> 32 word \<Rightarrow> 32 word \<Rightarrow> 32 word" where
  "dos_word a b c d e f = take_bit 5 a OR push_bit 5 (take_bit 6 b) OR push_bit 11 (take_bit 5 c) OR
     push_bit 16 (take_bit 5 d) OR push_bit 21 (take_bit 4 e) OR push_bit 25 (take_bit 7 f)"

lemma dos_word_fields:
  "take_bit 5 (dos_word a b c d e f) = take_bit 5 a"
  "take_bit 6 (drop_bit 5 (dos_word a b c d e f)) = take_bit 6 b"
  "take_bit 5 (drop_bit 11 (dos_word a b c d e f)) = take_bit 5 c"
  "take_bit 5 (drop_bit 16 (dos_word a b c d e f)) = take_bit 5 d"
  "take_bit 4 (drop_bit 21 (dos_word a b c d e f)) = take_bit 4 e"
  "drop_bit 25 (dos_word a b c d e f) = take_bit 7 f"
  by (rule bit_word_eqI, force simp: dos_word_def bit_simps)+

lemma unat_take_bit_of_nat: "w \<le> 32 \<Longrightarrow> n < 2 ^ w \<Longrightarrow> unat (take_bit w (of_nat n :: 32 word)) = n"
proof -
  assume w: "w \<le> 32" and n: "n < 2 ^ w"
  have "(2::nat) ^ w \<le> 2 ^ 32" by (rule power_increasing [OF w]) simp
  then have "take_bit LENGTH(32) n = n" using n by (intro take_bit_nat_eq_self) simp
  moreover have "take_bit w n = n" by (rule take_bit_nat_eq_self [OF n])
  ultimately show ?thesis by (simp only: unsigned_take_bit_eq unsigned_of_nat of_nat_id)
qed

lemma s16_value: "n < 65536 \<Longrightarrow> (int n + 32768) mod 65536 - 32768 = (if n < 32768 then int n else int n - 65536)"
proof (cases "n < 32768")
  case False
  assume "n < 65536"
  have "int n + 32768 = int n - 32768 + 1 * 65536" by simp
  then have "(int n + 32768) mod 65536 = (int n - 32768 + 1 * 65536) mod 65536" by (simp only:)
  also have "\<dots> = (int n - 32768) mod 65536" by (rule mod_mult_self1)
  also have "\<dots> = int n - 32768" using False \<open>n < 65536\<close> by simp
  finally show ?thesis using False by simp
qed simp

lemma s16_fields:
  "(x - 65536) mod 32 = x mod (32::int)" "(x - 65536) div 32 mod 16 = x div 32 mod (16::int)" "(x - 65536) div 512 = x div 512 - (128::int)"
proof -
  have e: "x - 65536 = x + (- 2048) * 32" "x - 65536 = x + (- 128) * 512" by simp_all
  show "(x - 65536) mod 32 = x mod 32" unfolding e(1) by (rule mod_mult_self1)
  have "x div 32 + - 2048 = x div 32 + (- 128) * 16" by simp
  moreover have "(x - 65536) div 32 = x div 32 + - 2048" unfolding e(1) by (subst div_mult_self1) simp_all
  ultimately show "(x - 65536) div 32 mod 16 = x div 32 mod 16" by (simp only: mod_mult_self1)
  show "(x - 65536) div 512 = x div 512 - 128" unfolding e(2) by (subst div_mult_self1) simp_all
qed

text \<open>The upper half as a signed number: the year field is read with its sign.\<close>

lemma dos_date_fields:
  assumes d: "d < 32" and m: "m < 16" and y: "y < 128"
    and V: "v = sint (ucast (drop_bit 16 (dos_word a b c (of_nat d) (of_nat m) (of_nat y))) :: 16 word)"
  shows "nat (v mod 32) = d" and "nat (v div 32 mod 16) = m" and "v div 512 = (if y < 64 then int y else int y - 128)"
proof -
  let ?w = "dos_word a b c (of_nat d) (of_nat m) (of_nat y)"
  define u where "u = drop_bit 16 ?w"
  have f: "take_bit 5 u = take_bit 5 (of_nat d)" "take_bit 4 (drop_bit 5 u) = take_bit 4 (of_nat m)" "drop_bit 9 u = take_bit 7 (of_nat y)"
    unfolding u_def using dos_word_fields(4-6) [of a b c "of_nat d" "of_nat m" "of_nat y"] by simp_all
  have n: "unat u mod 32 = d" "unat u div 32 mod 16 = m" "unat u div 512 = y"
  proof -
    have "unat (take_bit 5 u) = unat u mod 32" "unat (take_bit 4 (drop_bit 5 u)) = unat u div 32 mod 16" "unat (drop_bit 9 u) = unat u div 512"
      using unsigned_less [where w = u and 'a = nat]
      by (simp_all only: unsigned_take_bit_eq unsigned_drop_bit_eq) (simp_all add: take_bit_eq_mod drop_bit_eq_div)
    moreover have "unat (take_bit 5 (of_nat d :: 32 word)) = d" "unat (take_bit 4 (of_nat m :: 32 word)) = m"
      "unat (take_bit 7 (of_nat y :: 32 word)) = y" using assms(1-3) by (simp_all add: unat_take_bit_of_nat)
    ultimately show "unat u mod 32 = d" "unat u div 32 mod 16 = m" "unat u div 512 = y" using f by simp_all
  qed
  have u: "unat u < 65536" using n(3) y div_mult_mod_eq [of "unat u" 512] mod_less_divisor [of 512 "unat u"] by linarith
  have "v = signed_take_bit 15 (int (unat u))" unfolding V u_def by (simp add: signed_ucast_eq)
  also have "\<dots> = (int (unat u) + 32768) mod 65536 - 32768" by (simp add: signed_take_bit_eq_take_bit_shift take_bit_eq_mod)
  finally have v: "v = (if unat u < 32768 then int (unat u) else int (unat u) - 65536)" using s16_value [OF u] by (rule trans)
  have y64: "unat u < 32768 \<longleftrightarrow> y < 64" using n(3) by (auto simp: div_less_iff_less_mult)
  have i: "int (unat u) mod 32 = int d" "int (unat u) div 32 mod 16 = int m" "int (unat u) div 512 = int y"
    using n [THEN arg_cong [of _ _ int]] by (simp_all only: of_nat_mod of_nat_div of_nat_numeral)
  have "v mod 32 = int d \<and> v div 32 mod 16 = int m \<and> v div 512 = (if y < 64 then int y else int y - 128)"
  proof (cases "y < 64")
    case True
    then have "v = int (unat u)" using v y64 by (simp only: if_True)
    then show ?thesis using True by (simp only: i if_True)
  next
    case False
    then have "v = int (unat u) - 65536" using v y64 by (simp only: if_False)
    then show ?thesis using False by (simp only: s16_fields i if_False)
  qed
  then show "nat (v mod 32) = d" "nat (v div 32 mod 16) = m" "v div 512 = (if y < 64 then int y else int y - 128)"
    by (simp_all only: nat_int)
qed

text \<open>Writing a date and reading it back.  \<open>dos_year\<close> is the year that is read.\<close>

definition dos_year :: "nat \<Rightarrow> nat" where
  "dos_year y = (if y < 2044 then y else y - 128)"

lemma dos_round_trip:
  assumes ok: "sceRtcCheckValid (Some t) = ORBIS_OK" and y: "1980 \<le> year t" "year t < 2108"
  shows "\<exists>w. sceRtcGetDosTime (Some t) (Some 0) = (ORBIS_OK, Some w) \<and>
    sceRtcSetDosTime (Some t0) w = (ORBIS_OK, Some \<lparr>year = dos_year (year t), month = month t, day = day t, hour = hour t,
      minute = minute t, second = second t div 2 * 2, microsecond = 0\<rparr>)"
proof -
  have v: "valid_date (year t) (month t) (day t)" "valid_time t" using ok by (simp_all add: CheckValid_iff)
  let ?w = "dos_word (of_nat (second t div 2)) (of_nat (minute t)) (of_nat (hour t)) (of_nat (day t)) (of_nat (month t)) (of_nat (year t - 1980))"
  have b: "second t div 2 < 32" "minute t < 64" "hour t < 32" "day t < 32" "month t < 16" "year t - 1980 < 128"
    using v y by (auto simp: valid_date_def valid_time_def last_day_def split: if_splits)
  have Y: "(word_of_int (int (year t) - 1980) :: 32 word) = of_nat (year t - 1980)" 
  proof -
    have "int (year t) - 1980 = int (year t - 1980)" using y by simp
    then show ?thesis by (simp only: of_int_of_nat_eq)
  qed
  have G: "sceRtcGetDosTime (Some t) (Some 0) = (ORBIS_OK, Some ?w)"
    unfolding sceRtcGetDosTime_def option.case prod.case masks Y dos_word_def by (simp add: ok)
  have H: "unat (take_bit 5 (drop_bit 11 ?w)) = hour t" "unat (take_bit 6 (drop_bit 5 ?w)) = minute t"
    using b by (simp_all only: dos_word_fields) (simp_all add: unat_take_bit_of_nat)
  have S: "unat (push_bit 1 (take_bit 5 ?w)) = second t div 2 * 2"
  proof -
    have "unat (take_bit 5 (of_nat (second t div 2) :: 32 word)) = second t div 2"
      by (rule unat_take_bit_of_nat) (use b(1) in simp_all)
    then show ?thesis using b(1)
      by (simp only: dos_word_fields unsigned_push_bit_eq) (simp add: push_bit_eq_mult take_bit_nat_eq_self)
  qed
  have U: "u16 ((if year t - 1980 < 64 then int (year t - 1980) else int (year t - 1980) - 128) + 1980) = dos_year (year t)"
    using y by (auto simp: u16_def dos_year_def)
  have "sceRtcSetDosTime (Some t0) ?w = (ORBIS_OK, Some \<lparr>year = dos_year (year t), month = month t, day = day t, hour = hour t,
      minute = minute t, second = second t div 2 * 2, microsecond = 0\<rparr>)"
    unfolding sceRtcSetDosTime_def masks option.case Let_def dos_date_fields [OF b(4,5,6) refl] H S U ..
  with G show ?thesis by blast
qed

end
