(* ===== verification/Orbit_Clock.thy ===== *)
theory Orbit_Clock
  imports Orbit_RtcDos
begin

text \<open>The properties of the real-time clock library.\<close>

text \<open>Noon of the 29th of February 2024, and its tick.\<close>

definition leap_noon :: OrbisRtcDateTime where
  "leap_noon = \<lparr>year = 2024, month = 2, day = 29, hour = 12, minute = 30, second = 44, microsecond = 0\<rparr>"

lemma leap_noon_ok: "sceRtcCheckValid (Some leap_noon) = ORBIS_OK"
  by (simp add: CheckValid_iff valid_date_def valid_time_def leap_noon_def last_day_def is_leap_def)

definition leap_tick :: nat where "leap_tick = 63844806644000000"

lemma leap_days: "calendar_days 2024 2 29 = 738944"
  using days_before_year_closed [of 2023] by (simp add: calendar_days_def days_before_month_table)

lemma leap_tick: "sceRtcGetTick (Some leap_noon) (Some 0) = (ORBIS_OK, Some (march_based leap_noon), Some leap_tick)"
  using GetTick_correct [OF leap_noon_ok _, of 0] by (simp add: leap_noon_def leap_days time_of_day_def leap_tick_def)

lemma format_date_is:
  assumes "year t \<le> 9999" and "valid_date (year t) (month t) (day t)" and "valid_time t"
    and "u64 (tz * 60000000 + int k) = calendar_days (year t) (month t) (day t) * 86400000000 + time_of_day t"
  shows "format_date (Some k) now tz = t"
  unfolding format_date_def using SetTick_of_date [OF assms(1-3), of uninitialised] assms(4)
  by (simp add: sceRtcTickAddMinutes_def tick_add_def)

lemma leap_dates:
  "format_date (Some leap_tick) 0 0 = leap_noon"
  "format_date (Some leap_tick) 0 60 = leap_noon\<lparr>hour := 13\<rparr>"
  "format_date (Some (leap_tick + 250000)) 0 0 = leap_noon\<lparr>microsecond := 250000\<rparr>"
  by (rule format_date_is; simp add: leap_noon_def leap_tick_def leap_days valid_date_def valid_time_def last_day_def is_leap_def
      time_of_day_def u64_def)+

lemmas text_eval = sceRtcFormatRFC3339Precise_def leap_dates leap_noon_ok two_digits_eq to_string_digits

lemma digits: "digit 0 = CHR ''0''" "digit 1 = CHR ''1''" "digit 2 = CHR ''2''" "digit 3 = CHR ''3''" "digit 4 = CHR ''4''"
  "digit 5 = CHR ''5''" "digit 6 = CHR ''6''" "digit 7 = CHR ''7''" "digit 8 = CHR ''8''" "digit 9 = CHR ''9''"
  by code_simp+

lemma leap_text_zone:
  "sceRtcFormatRFC3339Precise False (Some leap_tick) 0 60 = (ORBIS_OK, Some ''2024-02-29T13:30:44.00+01:00'')"
  by (simp add: text_eval leap_noon_def digits digits(2) [unfolded One_nat_def] zone_text_def trunc_div_def trunc_mod_def)

lemma leap_text_fraction:
   "sceRtcFormatRFC3339Precise False (Some (leap_tick + 250000)) 0 0 = (ORBIS_OK, Some ''2024-02-29T12:30:44.25Z'')"
proof -
  have "to_string 250 = ''250''" by (simp add: to_string.simps digits digits(2) [unfolded One_nat_def])
  then show ?thesis by (simp add: text_eval leap_noon_def digits digits(2) [unfolded One_nat_def])
qed

lemma numbers: "stoi ''2024'' = Some 2024" "stoi ''02'' = Some 2" "stoi ''29'' = Some 29" "stoi ''12'' = Some 12" "stoi ''13'' = Some 13"
  "stoi ''30'' = Some 30" "stoi ''44'' = Some 44" "stoi ''00'' = Some 0" "stoi ''01'' = Some 1" "stoi ''25'' = Some 25"
  by code_simp+

lemma parsed_tick:
  assumes "h < 24" and "us < 1000000"
  shows "snd (snd (sceRtcGetTick (Some (parsed_date 2024 2 29 (int h) 30 44 (int us))) (Some 0))) =
    Some (leap_tick + h * 3600000000 + us - 12 * 3600000000)"
proof -
  let ?d = "\<lparr>year = 2024, month = 2, day = 29, hour = h, minute = 30, second = 44, microsecond = us\<rparr>"
  have d: "parsed_date 2024 2 29 (int h) 30 44 (int us) = ?d" using assms by (simp add: parsed_date_def u16_def u32_def)
  have "sceRtcCheckValid (Some ?d) = ORBIS_OK"
    using assms by (simp add: CheckValid_iff valid_date_def valid_time_def last_day_def is_leap_def)
  from GetTick_correct [OF this, of 0] show ?thesis by (simp add: d leap_days time_of_day_def leap_tick_def)
qed

lemma leap_parse_zone:
   "sceRtcParseRFC3339 (Some 0) (Some ''2024-02-29T13:30:44.00+01:00'') = Some (ORBIS_OK, Some (leap_tick + 2 * 3600000000))"
  using parsed_tick [of 13 0]
  by (simp add: sceRtcParseRFC3339_def number_at_def substr_def char_at_def numbers add_offset_def sceRtcTickAddMinutes_def tick_add_def
     leap_tick_def u64_def)

lemma leap_parse_fraction:
   "sceRtcParseRFC3339 (Some 0) (Some ''2024-02-29T12:30:44.25Z'') = Some (ORBIS_OK, Some (leap_tick + 25))"
  using parsed_tick [of 12 25]
  by (simp add: sceRtcParseRFC3339_def number_at_def substr_def char_at_def numbers leap_tick_def)

text \<open>
  C22: for every date that passes the check and has fewer than 36 minutes past the hour the tick is the number of
  microseconds since the first of January of year 1, as counted year by year and month by month in the calendar.  (From
  36 minutes on a product of the code overflows its 32-bit type.)  The call leaves the date of the caller
  changed to a year that starts in March.
\<close>

theorem GetTick_counts_microseconds:
  assumes "sceRtcCheckValid (Some t) = ORBIS_OK" and "minute t < 36"
  shows "sceRtcGetTick (Some t) (Some k) =
    (ORBIS_OK, Some (march_based t),
     Some ((days_before_year (year t) + days_before_month (year t) (month t) + day t - 1) * 86400000000 +
           hour t * 3600000000 + minute t * 60000000 + second t * 1000000 + microsecond t))"
  using GetTick_correct [OF assms] by (simp add: calendar_days_def time_of_day_def add.assoc)

theorem GetTick_counts_microseconds_witness:
  "sceRtcGetTick (Some leap_noon) (Some 0) =
    (ORBIS_OK, Some (march_based leap_noon),
     Some ((days_before_year (year leap_noon) + days_before_month (year leap_noon) (month leap_noon) + day leap_noon - 1) * 86400000000 +
           hour leap_noon * 3600000000 + minute leap_noon * 60000000 + second leap_noon * 1000000 + microsecond leap_noon))"
  by (rule GetTick_counts_microseconds [OF leap_noon_ok]) (simp add: leap_noon_def)

text \<open>
  C23: ticks and dates convert into each other without loss, in both directions, in the first 36 minutes of every hour:
  the date of the tick of such a valid date is that date, and every such tick up to the end of the year 9999 has a valid
  date whose tick it is.  Every tick up to then, whatever the minute, is converted into the valid date that it stands for
  in the calendar.
\<close>

theorem tick_date_round_trip:
  assumes "sceRtcCheckValid (Some t) = ORBIS_OK" and "minute t < 36" and "k < 315537897600000000"
  shows "(\<exists>tick t1. sceRtcGetTick (Some t) (Some 0) = (ORBIS_OK, Some t1, Some tick) \<and>
            sceRtcSetTick (Some t0) (Some tick) = (ORBIS_OK, Some (OrbisRtcDateTime.truncate t))) \<and>
         (\<exists>d d1. sceRtcSetTick (Some t0) (Some k) = (ORBIS_OK, Some d) \<and> sceRtcCheckValid (Some d) = ORBIS_OK \<and>
            k = (days_before_year (year d) + days_before_month (year d) (month d) + day d - 1) * 86400000000 +
              hour d * 3600000000 + minute d * 60000000 + second d * 1000000 + microsecond d \<and>
            (k mod 3600000000 < 36 * 60000000 \<longrightarrow> sceRtcGetTick (Some d) (Some 0) = (ORBIS_OK, Some d1, Some k)))"
proof
  have t: "year t \<le> 9999" "valid_date (year t) (month t) (day t)" "valid_time t" using assms(1) by (simp_all add: CheckValid_iff)
  show "\<exists>tick t1. sceRtcGetTick (Some t) (Some 0) = (ORBIS_OK, Some t1, Some tick) \<and>
      sceRtcSetTick (Some t0) (Some tick) = (ORBIS_OK, Some (OrbisRtcDateTime.truncate t))"
    using GetTick_correct [OF assms(1,2), of 0] SetTick_of_date [OF t, of t0] by (simp add: OrbisRtcDateTime.truncate_def)
  have "k < 3652059 * 86400000000" using assms(3) by simp
  then obtain d where d: "year d \<le> 9999" "valid_date (year d) (month d) (day d)" "valid_time d"
    and k: "k = calendar_days (year d) (month d) (day d) * 86400000000 + time_of_day d" by (rule tick_has_date)
  have v: "sceRtcCheckValid (Some d) = ORBIS_OK" using d by (simp add: CheckValid_iff)
  have m: "minute d < 36" if "k mod 3600000000 < 36 * 60000000"
  proof -
    have "k = time_of_day d + calendar_days (year d) (month d) (day d) * 24 * 3600000000" by (simp add: k)
    then have "k mod 3600000000 = time_of_day d mod 3600000000" by (simp only: mod_mult_self1)
    then show ?thesis using time_split(2) [OF d(3)] that by (metis less_mult_imp_div_less)
  qed
  have "sceRtcSetTick (Some t0) (Some k) = (ORBIS_OK, Some d)" unfolding k using SetTick_of_date [OF d, of t0] by simp
  moreover have "k = (days_before_year (year d) + days_before_month (year d) (month d) + day d - 1) * 86400000000 +
      hour d * 3600000000 + minute d * 60000000 + second d * 1000000 + microsecond d"
    by (simp add: k calendar_days_def time_of_day_def add.assoc)
  moreover have "k mod 3600000000 < 36 * 60000000 \<longrightarrow> sceRtcGetTick (Some d) (Some 0) = (ORBIS_OK, Some (march_based d), Some k)"
    using GetTick_correct [OF v m, of 0] k by simp
  ultimately show "\<exists>d d1. sceRtcSetTick (Some t0) (Some k) = (ORBIS_OK, Some d) \<and> sceRtcCheckValid (Some d) = ORBIS_OK \<and>
      k = (days_before_year (year d) + days_before_month (year d) (month d) + day d - 1) * 86400000000 +
        hour d * 3600000000 + minute d * 60000000 + second d * 1000000 + microsecond d \<and>
      (k mod 3600000000 < 36 * 60000000 \<longrightarrow> sceRtcGetTick (Some d) (Some 0) = (ORBIS_OK, Some d1, Some k))"
    using v by blast
qed

theorem tick_date_round_trip_witness:
  "(\<exists>tick t1. sceRtcGetTick (Some leap_noon) (Some 0) = (ORBIS_OK, Some t1, Some tick) \<and>
      sceRtcSetTick (Some leap_noon) (Some tick) = (ORBIS_OK, Some (OrbisRtcDateTime.truncate leap_noon))) \<and>
   (\<exists>d d1. sceRtcSetTick (Some leap_noon) (Some 63835164610000001) = (ORBIS_OK, Some d) \<and> sceRtcCheckValid (Some d) = ORBIS_OK \<and>
      sceRtcGetTick (Some d) (Some 0) = (ORBIS_OK, Some d1, Some 63835164610000001))"
proof -
  have "minute leap_noon < 36" by (simp add: leap_noon_def)
  moreover have "(63835164610000001::nat) < 315537897600000000" "(63835164610000001::nat) mod 3600000000 < 36 * 60000000" by simp_all
  ultimately show ?thesis using tick_date_round_trip [OF leap_noon_ok, of 63835164610000001 leap_noon] by blast
qed

text \<open>
  C24: a date from 1980 to 2107 that is written in the DOS format into a zeroed word and read back has
  all its fields again, the seconds rounded down to even ones.  But the year is read with the sign of
  its field, so the years from 2044 on come back 128 years too early.
\<close>

theorem dos_date_round_trip:
  assumes "sceRtcCheckValid (Some t) = ORBIS_OK" and "1980 \<le> year t" and "year t < 2108"
  shows "\<exists>w. sceRtcGetDosTime (Some t) (Some 0) = (ORBIS_OK, Some w) \<and>
    sceRtcSetDosTime (Some t0) w = (ORBIS_OK, Some \<lparr>year = (if year t < 2044 then year t else year t - 128), month = month t,
      day = day t, hour = hour t, minute = minute t, second = second t div 2 * 2, microsecond = 0\<rparr>)"
  using dos_round_trip [OF assms] by (simp add: dos_year_def)

theorem dos_date_round_trip_witness:
  "\<exists>w. sceRtcGetDosTime (Some leap_noon) (Some 0) = (ORBIS_OK, Some w) \<and>
    sceRtcSetDosTime (Some leap_noon) w = (ORBIS_OK, Some \<lparr>year = (if year leap_noon < 2044 then year leap_noon else year leap_noon - 128),
      month = month leap_noon, day = day leap_noon, hour = hour leap_noon, minute = minute leap_noon,
      second = second leap_noon div 2 * 2, microsecond = 0\<rparr>)"
  by (rule dos_date_round_trip [OF leap_noon_ok]) (simp_all add: leap_noon_def)

text \<open>
  C25: the tick of a date of whole seconds in a year with four digits, in the first 36 minutes of an hour (see C23),
  formatted in UTC as RFC 3339 or as RFC 2822, parses back to itself with \<open>sceRtcParseDateTime\<close>.
\<close>

theorem text_round_trip:
  assumes "sceRtcCheckValid (Some t) = ORBIS_OK" and "minute t < 36" and "1000 \<le> year t" and "microsecond t = 0"
    and "sceRtcGetTick (Some t) (Some 0) = (ORBIS_OK, t1, Some k)"
  shows "\<exists>s3339 s2822.
    sceRtcFormatRFC3339Precise False (Some k) now 0 = (ORBIS_OK, Some s3339) \<and>
    sceRtcFormatRFC2822 sdk False (Some k) now 0 = (ORBIS_OK, Some s2822) \<and>
    sceRtcParseRFC3339 (Some k0) (Some s3339) = Some (ORBIS_OK, Some k) \<and>
    sceRtcParseDateTime (Some k0) (Some s3339) = Some (ORBIS_OK, Some k) \<and>
    sceRtcParseDateTime (Some k0) (Some s2822) = Some (ORBIS_OK, Some k)"
proof -
  have t: "year t \<le> 9999" "valid_date (year t) (month t) (day t)" "valid_time t" using assms(1) by (simp_all add: CheckValid_iff)
  have k: "k = calendar_days (year t) (month t) (day t) * 86400000000 + time_of_day t"
    using GetTick_correct [OF assms(1,2), of 0] assms(5) by simp
  obtain s3339 where f3339: "sceRtcFormatRFC3339Precise False (Some k) now 0 = (ORBIS_OK, Some s3339)"
    by (simp add: sceRtcFormatRFC3339Precise_def Let_def)
  have "sceRtcCheckValid (Some (format_date (Some k) now 0)) = ORBIS_OK"
    unfolding format_date_of_tick [OF t k] using t by (simp add: CheckValid_iff valid_time_def)
  then obtain s2822 where f2822: "sceRtcFormatRFC2822 sdk False (Some k) now 0 = (ORBIS_OK, Some s2822)"
    by (simp add: sceRtcFormatRFC2822_def Let_def ORBIS_OK_def)
  note R = rfc3339_round_trip [OF assms(3) t assms(2,4) k f3339]
  show ?thesis
    using f3339 f2822 R(1) [of k0] rfc3339_date_time [OF R(2,1)] rfc2822_round_trip [OF assms(3) t assms(2,4) k f2822] by blast
qed

theorem text_round_trip_witness:
  "\<exists>s3339 s2822.
    sceRtcFormatRFC3339Precise False (Some leap_tick) 0 0 = (ORBIS_OK, Some s3339) \<and>
    sceRtcFormatRFC2822 0 False (Some leap_tick) 0 0 = (ORBIS_OK, Some s2822) \<and>
    sceRtcParseRFC3339 (Some 0) (Some s3339) = Some (ORBIS_OK, Some leap_tick) \<and>
    sceRtcParseDateTime (Some 0) (Some s3339) = Some (ORBIS_OK, Some leap_tick) \<and>
    sceRtcParseDateTime (Some 0) (Some s2822) = Some (ORBIS_OK, Some leap_tick)"
  by (rule text_round_trip [OF leap_noon_ok _ _ _ leap_tick]) (simp_all add: leap_noon_def)

text \<open>
  The parsers get time zones and fractions wrong.  The offset of a local time is added instead of
  subtracted, so a tick formatted one hour east of Greenwich parses to a time two hours later; and
  the hundredths of a second that are printed are read back as microseconds.
\<close>

theorem parsed_zone_and_fraction:
  "sceRtcFormatRFC3339Precise False (Some leap_tick) 0 60 = (ORBIS_OK, Some ''2024-02-29T13:30:44.00+01:00'') \<and>
   sceRtcParseRFC3339 (Some 0) (Some ''2024-02-29T13:30:44.00+01:00'') = Some (ORBIS_OK, Some (leap_tick + 2 * 3600000000)) \<and>
   sceRtcFormatRFC3339Precise False (Some (leap_tick + 250000)) 0 0 = (ORBIS_OK, Some ''2024-02-29T12:30:44.25Z'') \<and>
   sceRtcParseRFC3339 (Some 0) (Some ''2024-02-29T12:30:44.25Z'') = Some (ORBIS_OK, Some (leap_tick + 25))"
  using leap_text_zone leap_parse_zone leap_text_fraction leap_parse_fraction by blast

text \<open>
  Adding months or years takes the date from the place of the result: the tick that should be
  added to has no influence unless the number to add is 0.
\<close>

theorem add_months_ignores_source:
  assumes "n \<noteq> 0"
  shows "sceRtcTickAddMonths (Some a) (Some b) n = sceRtcTickAddMonths (Some a) (Some c) n \<and>
         sceRtcTickAddYears (Some a) (Some b) n = sceRtcTickAddYears (Some a) (Some c) n"
  using assms by (simp add: sceRtcTickAddMonths_def sceRtcTickAddYears_def)

theorem add_months_ignores_source_witness:
  "sceRtcTickAddMonths (Some 0) (Some leap_tick) 1 = sceRtcTickAddMonths (Some 0) (Some 0) 1 \<and>
   sceRtcTickAddYears (Some 0) (Some leap_tick) 1 = sceRtcTickAddYears (Some 0) (Some 0) 1"
  by (rule add_months_ignores_source) simp

end
