(* ===== verification/Orbit_Mutex.thy ===== *)
theory Orbit_Mutex
  imports Orbit_Prelude
begin

text \<open>
  Mutexes (\<^verbatim>\<open>src/core/libraries/kernel/threads/mutex.cpp\<close>, structures in \<^verbatim>\<open>pthread.h\<close>).  A mutex is a host
  lock with an owner and a recursion count beside it; the three are written one after the other, so a
  call is a sequence of atomic accesses, each one equation of \<open>mutex_next\<close>, with the place where the
  thread is inside its call as a program counter.  \<open>mutex_reach\<close> interleaves any number of threads.
  The name of a mutex, which only logs use, is left out.
\<close>

subsection \<open>Data\<close>

definition MutexErrorCheck :: "32 word" where "MutexErrorCheck = 1"
definition MutexRecursive :: "32 word" where "MutexRecursive = 2"
definition MutexNormal :: "32 word" where "MutexNormal = 3"
definition MutexAdaptiveNp :: "32 word" where "MutexAdaptiveNp = 4"
definition MutexTypeMax :: "32 word" where "MutexTypeMax = 5"

definition MutexFlagsTypeMask :: "32 word" where "MutexFlagsTypeMask = 0xff"
definition MutexFlagsDeferred :: "32 word" where "MutexFlagsDeferred = 0x200"

definition ProtNone :: "32 word" where "ProtNone = 0"
definition ProtInherit :: "32 word" where "ProtInherit = 1"
definition ProtProtect :: "32 word" where "ProtProtect = 2"

lemmas mutex_enum_defs = MutexErrorCheck_def MutexRecursive_def MutexNormal_def MutexAdaptiveNp_def
  MutexTypeMax_def MutexFlagsTypeMask_def MutexFlagsDeferred_def ProtNone_def ProtInherit_def ProtProtect_def


record PthreadMutexAttr =
  ma_type :: "32 word"
  ma_protocol :: "32 word"
  ma_ceiling :: s32

text \<open>\<open>mx_lock\<close>: the host lock \<^verbatim>\<open>m_lock\<close> is taken.\<close>

record PthreadMutex =
  mx_lock :: bool
  mx_flags :: "32 word"
  mx_owner :: "tid option"
  mx_count :: s32
  mx_spinloops :: s32
  mx_yieldloops :: s32
  mx_protocol :: "32 word"

definition MutexType :: "PthreadMutex \<Rightarrow> 32 word" where
  "MutexType m = mx_flags m AND MutexFlagsTypeMask"

definition MUTEX_ADAPTIVE_SPINS :: s32 where "MUTEX_ADAPTIVE_SPINS = 2000"

definition PthreadMutexattrDefault :: PthreadMutexAttr where
  "PthreadMutexattrDefault = \<lparr>ma_type = MutexErrorCheck, ma_protocol = ProtNone, ma_ceiling = 0\<rparr>"

definition PthreadMutexattrAdaptiveDefault :: PthreadMutexAttr where
  "PthreadMutexattrAdaptiveDefault = \<lparr>ma_type = MutexAdaptiveNp, ma_protocol = ProtNone, ma_ceiling = 0\<rparr>"

text \<open>
  The program's mutex variables hold a pointer each; the three lowest values stand for a mutex that is
  not there.
\<close>

record mutex_world =
  mw_var :: "nat \<Rightarrow> nat"
  mw_heap :: "nat \<Rightarrow> PthreadMutex option"

definition THR_MUTEX_INITIALIZER :: nat where "THR_MUTEX_INITIALIZER = 0"
definition THR_ADAPTIVE_MUTEX_INITIALIZER :: nat where "THR_ADAPTIVE_MUTEX_INITIALIZER = 1"
definition THR_MUTEX_DESTROYED :: nat where "THR_MUTEX_DESTROYED = 2"

lemmas mutex_sentinels = THR_MUTEX_INITIALIZER_def THR_ADAPTIVE_MUTEX_INITIALIZER_def THR_MUTEX_DESTROYED_def

subsection \<open>Creation and destruction\<close>

definition PthreadMutex_new :: "PthreadMutexAttr \<Rightarrow> PthreadMutex" where
  "PthreadMutex_new attr =
     \<lparr>mx_lock = False, mx_flags = ma_type attr, mx_owner = None, mx_count = 0,
      mx_spinloops = (if ma_type attr = MutexAdaptiveNp then MUTEX_ADAPTIVE_SPINS else 0),
      mx_yieldloops = 0, mx_protocol = ma_protocol attr\<rparr>"

definition attr_accepted :: "PthreadMutexAttr \<Rightarrow> bool" where
  "attr_accepted a \<longleftrightarrow> \<not> (ma_type a < MutexErrorCheck \<or> ma_type a \<ge> MutexTypeMax) \<and> \<not> ma_protocol a > ProtProtect"

text \<open>\<open>new\<close> is what the allocator returns, \<open>None\<close> for a null pointer.\<close>

definition MutexInit :: "nat option \<Rightarrow> nat \<Rightarrow> PthreadMutexAttr option \<Rightarrow> mutex_world \<Rightarrow> s32 \<times> mutex_world" where
  "MutexInit new mutex mutex_attr w =
     (if (\<exists>a \<in> set_option mutex_attr. \<not> attr_accepted a) then (POSIX_EINVAL, w)
      else case new of
             None \<Rightarrow> (POSIX_ENOMEM, w)
           | Some p \<Rightarrow>
               (0, w\<lparr>mw_var := (mw_var w)(mutex := p),
                     mw_heap := (mw_heap w)(p \<mapsto> PthreadMutex_new (case mutex_attr of None \<Rightarrow> PthreadMutexattrDefault | Some a \<Rightarrow> a))\<rparr>))"

definition MutexInitStatic :: "nat option \<Rightarrow> nat \<Rightarrow> mutex_world \<Rightarrow> s32 \<times> mutex_world" where
  "MutexInitStatic new mutex w =
     (if mw_var w mutex = THR_MUTEX_INITIALIZER then MutexInit new mutex (Some PthreadMutexattrDefault) w
      else if mw_var w mutex = THR_ADAPTIVE_MUTEX_INITIALIZER then MutexInit new mutex (Some PthreadMutexattrAdaptiveDefault) w
      else (0, w))"

definition CHECK_AND_INIT_MUTEX :: "nat option \<Rightarrow> nat \<Rightarrow> mutex_world \<Rightarrow> s32 \<times> mutex_world" where
  "CHECK_AND_INIT_MUTEX new mutex w =
     (if mw_var w mutex \<le> THR_MUTEX_DESTROYED then
        if mw_var w mutex = THR_MUTEX_DESTROYED then (POSIX_EINVAL, w) else MutexInitStatic new mutex w
      else (0, w))"

text \<open>\<open>mutex_attr\<close>: the attribute parameter after its null tests.\<close>

definition posix_pthread_mutex_init ::
    "nat option \<Rightarrow> nat \<Rightarrow> PthreadMutexAttr option \<Rightarrow> mutex_world \<Rightarrow> s32 \<times> mutex_world" where
  "posix_pthread_mutex_init new mutex mutex_attr w = MutexInit new mutex mutex_attr w"

definition posix_pthread_mutex_destroy :: "nat \<Rightarrow> mutex_world \<Rightarrow> s32 \<times> mutex_world" where
  "posix_pthread_mutex_destroy mutex w =
     (let m = mw_var w mutex in
      if m < THR_MUTEX_DESTROYED then (0, w)
      else if m = THR_MUTEX_DESTROYED then (POSIX_EINVAL, w)
      else if map_option mx_owner (mw_heap w m) \<noteq> Some None then (POSIX_EBUSY, w)
      else (0, w\<lparr>mw_var := (mw_var w)(mutex := THR_MUTEX_DESTROYED), mw_heap := (mw_heap w)(m := None)\<rparr>))"

subsection \<open>Locking a mutex the thread owns\<close>

datatype deadline = NoTimeout | RelTime nat | AbsTime OrbisKernelTimespec

definition bad_nsec :: "OrbisKernelTimespec \<Rightarrow> bool" where
  "bad_nsec ts \<longleftrightarrow> tv_nsec ts < 0 \<or> tv_nsec ts \<ge> 1000000000"

text \<open>The recursive branch that \<^verbatim>\<open>SelfTryLock\<close> and \<^verbatim>\<open>SelfLock\<close> share.\<close>

definition count_up :: "PthreadMutex \<Rightarrow> s32 \<times> PthreadMutex" where
  "count_up m =
     (if wrap_s32 (mx_count m + 1) > 0 then (0, m\<lparr>mx_count := wrap_s32 (mx_count m + 1)\<rparr>) else (POSIX_EAGAIN, m))"

definition SelfTryLock :: "PthreadMutex \<Rightarrow> s32 \<times> PthreadMutex" where
  "SelfTryLock m =
     (if MutexType m \<in> {MutexErrorCheck, MutexNormal, MutexAdaptiveNp} then (POSIX_EBUSY, m)
      else if MutexType m = MutexRecursive then count_up m
      else (POSIX_EINVAL, m))"

text \<open>The result of a sleep to the deadline, which changes nothing else.\<close>

fun DoSleep :: "deadline \<Rightarrow> s32" where
  "DoSleep (AbsTime ts) = (if tv_sec ts < 0 \<or> bad_nsec ts then POSIX_EINVAL else POSIX_ETIMEDOUT)"
| "DoSleep _ = POSIX_ETIMEDOUT"

text \<open>\<open>None\<close>: the emulator stops with \<^verbatim>\<open>UNREACHABLE_MSG\<close>.\<close>

definition SelfLock :: "deadline \<Rightarrow> PthreadMutex \<Rightarrow> (s32 \<times> PthreadMutex) option" where
  "SelfLock abstime m =
     (if MutexType m \<in> {MutexErrorCheck, MutexAdaptiveNp} then
        Some (if abstime \<noteq> NoTimeout then (DoSleep abstime, m) else (POSIX_EDEADLK, m))
      else if MutexType m = MutexNormal then
        (if abstime \<noteq> NoTimeout then Some (DoSleep abstime, m) else None)
      else if MutexType m = MutexRecursive then Some (count_up m)
      else Some (POSIX_EINVAL, m))"

subsection \<open>The calls as atomic accesses\<close>

text \<open>
  \<open>cv\<close> is the recursion count that \<^verbatim>\<open>CvLock\<close> restores and \<^verbatim>\<open>CvUnlock\<close> has saved; \<open>None\<close> in a plain
  call.  \<open>LockSpin\<close> and \<open>LockYield\<close> carry the loop counter, \<open>UnlockRelease\<close> the deferred flag.
\<close>

datatype mutex_pc =
  MIdle
| LockEnter deadline "s32 option"
| LockSpin deadline "s32 option" s32
| LockYield deadline "s32 option" s32
| LockBlock deadline "s32 option"
| LockOwned "s32 option"
| LockRestore s32
| TryEnter
| TryTake
| UnlockEnter "s32 option"
| UnlockRelease bool "s32 option"
| UnlockWake bool "s32 option"
| MReturned s32
| CvWaiting s32
| MAborted

definition m_lock_taken :: "PthreadMutex \<Rightarrow> PthreadMutex" where
  "m_lock_taken m = m\<lparr>mx_lock := True\<rparr>"

definition lock_timed :: "bool \<Rightarrow> s32 option \<Rightarrow> PthreadMutex \<Rightarrow> (PthreadMutex \<times> mutex_pc) option" where
  "lock_timed late cv m =
     (if late then Some (m, MReturned POSIX_ETIMEDOUT)
      else if mx_lock m then None else Some (m_lock_taken m, LockOwned cv))"

text \<open>
  One access of the thread \<open>t\<close>.  \<open>late\<close> says whether a timed attempt on the host lock gives up here;
  \<open>None\<close> is a thread that is blocked or between calls.
\<close>

fun mutex_next :: "tid \<Rightarrow> bool \<Rightarrow> PthreadMutex \<Rightarrow> mutex_pc \<Rightarrow> (PthreadMutex \<times> mutex_pc) option" where
  "mutex_next t late m (LockEnter abstime cv) =
     Some (if mx_owner m = Some t then
             (case SelfLock abstime m of
                None \<Rightarrow> (m, MAborted)
              | Some (ret, m') \<Rightarrow> (m', if ret = 0 \<and> cv \<noteq> None then LockRestore (the cv) else MReturned ret))
           else if mx_protocol m = ProtNone then (m, LockSpin abstime cv (mx_spinloops m))
           else (m, LockBlock abstime cv))"
| "mutex_next t late m (LockSpin abstime cv count) =
     Some (if count = 0 then (m, LockYield abstime cv (mx_yieldloops m))
           else if mx_lock m then (m, LockSpin abstime cv (wrap_s32 (count - 1)))
           else (m_lock_taken m, LockOwned cv))"
| "mutex_next t late m (LockYield abstime cv count) =
     Some (if count = 0 then (m, LockBlock abstime cv)
           else if mx_lock m then (m, LockYield abstime cv (wrap_s32 (count - 1)))
           else (m_lock_taken m, LockOwned cv))"
| "mutex_next t late m (LockBlock NoTimeout cv) =
     (if mx_lock m then None else Some (m_lock_taken m, LockOwned cv))"
| "mutex_next t late m (LockBlock (AbsTime ts) cv) =
     (if bad_nsec ts then Some (m, MReturned POSIX_EINVAL) else lock_timed late cv m)"
| "mutex_next t late m (LockBlock (RelTime usec) cv) = lock_timed late cv m"
| "mutex_next t late m (LockOwned cv) =
     Some (m\<lparr>mx_owner := Some t\<rparr>, case cv of None \<Rightarrow> MReturned 0 | Some recurse \<Rightarrow> LockRestore recurse)"
| "mutex_next t late m (LockRestore recurse) = Some (m\<lparr>mx_count := recurse\<rparr>, MReturned 0)"
| "mutex_next t late m TryEnter =
     Some (if mx_owner m = Some t then (case SelfTryLock m of (ret, m') \<Rightarrow> (m', MReturned ret))
           else (m, TryTake))"
| "mutex_next t late m TryTake =
     Some (if mx_lock m then (m, MReturned POSIX_EBUSY) else (m_lock_taken m, LockOwned None))"
| "mutex_next t late m (UnlockEnter cv) =
     Some (if mx_owner m \<noteq> Some t then (m, MReturned POSIX_EPERM)
           else if MutexType m = MutexRecursive \<and> mx_count m > 0 then
             (m\<lparr>mx_count := mx_count m - 1\<rparr>, case cv of None \<Rightarrow> MReturned 0 | Some recurse \<Rightarrow> CvWaiting recurse)
           else (m\<lparr>mx_flags := mx_flags m AND NOT MutexFlagsDeferred, mx_owner := None\<rparr>,
                 UnlockRelease (mx_flags m AND MutexFlagsDeferred \<noteq> 0) cv))"
| "mutex_next t late m (UnlockRelease deferred cv) = Some (m\<lparr>mx_lock := False\<rparr>, UnlockWake deferred cv)"
| "mutex_next t late m (UnlockWake deferred cv) =
     Some (m, case cv of None \<Rightarrow> MReturned 0 | Some recurse \<Rightarrow> CvWaiting recurse)"
| "mutex_next t late m _ = None"

text \<open>Between its calls a thread may also do what a waiter of a condition variable does: give the mutex
  up with \<^verbatim>\<open>CvUnlock\<close> after \<^verbatim>\<open>IsOwned\<close>, and take it back with \<^verbatim>\<open>CvLock\<close>.\<close>

definition CvUnlock :: "PthreadMutex \<Rightarrow> PthreadMutex \<times> mutex_pc" where
  "CvUnlock m = (m\<lparr>mx_count := 0\<rparr>, UnlockEnter (Some (mx_count m)))"

definition CvLock :: "s32 \<Rightarrow> mutex_pc" where
  "CvLock recurse = LockEnter NoTimeout (Some recurse)"

definition IsOwned :: "tid \<Rightarrow> nat \<Rightarrow> (nat \<Rightarrow> PthreadMutex option) \<Rightarrow> s32" where
  "IsOwned t this heap =
     (if this \<le> THR_MUTEX_DESTROYED then (if this = THR_MUTEX_DESTROYED then POSIX_EINVAL else POSIX_EPERM)
      else if map_option mx_owner (heap this) \<noteq> Some (Some t) then POSIX_EPERM else 0)"

subsection \<open>Entry points\<close>

text \<open>\<open>Inl\<close>: the call returns at once; \<open>Inr\<close>: the mutex and where its call starts.\<close>

definition mutex_entry :: "mutex_pc \<Rightarrow> nat option \<Rightarrow> nat \<Rightarrow> mutex_world \<Rightarrow> (s32 + nat \<times> mutex_pc) \<times> mutex_world" where
  "mutex_entry pc new mutex w =
     (case CHECK_AND_INIT_MUTEX new mutex w of
        (ret, w') \<Rightarrow> (if ret \<noteq> 0 then Inl ret else Inr (mw_var w' mutex, pc), w'))"

definition posix_pthread_mutex_trylock :: "nat option \<Rightarrow> nat \<Rightarrow> mutex_world \<Rightarrow> (s32 + nat \<times> mutex_pc) \<times> mutex_world" where
  "posix_pthread_mutex_trylock = mutex_entry TryEnter"

definition posix_pthread_mutex_lock :: "nat option \<Rightarrow> nat \<Rightarrow> mutex_world \<Rightarrow> (s32 + nat \<times> mutex_pc) \<times> mutex_world" where
  "posix_pthread_mutex_lock = mutex_entry (LockEnter NoTimeout None)"

definition posix_pthread_mutex_timedlock ::
    "OrbisKernelTimespec \<Rightarrow> nat option \<Rightarrow> nat \<Rightarrow> mutex_world \<Rightarrow> (s32 + nat \<times> mutex_pc) \<times> mutex_world" where
  "posix_pthread_mutex_timedlock abstime = mutex_entry (LockEnter (AbsTime abstime) None)"

definition posix_pthread_mutex_reltimedlock_np ::
    "nat \<Rightarrow> nat option \<Rightarrow> nat \<Rightarrow> mutex_world \<Rightarrow> (s32 + nat \<times> mutex_pc) \<times> mutex_world" where
  "posix_pthread_mutex_reltimedlock_np usec = mutex_entry (LockEnter (RelTime usec) None)"

definition posix_pthread_mutex_unlock :: "nat \<Rightarrow> mutex_world \<Rightarrow> s32 + nat \<times> mutex_pc" where
  "posix_pthread_mutex_unlock mutex w =
     (if mw_var w mutex \<le> THR_MUTEX_DESTROYED then
        Inl (if mw_var w mutex = THR_MUTEX_DESTROYED then POSIX_EINVAL else POSIX_EPERM)
      else Inr (mw_var w mutex, UnlockEnter None))"

definition posix_pthread_mutex_isowned_np :: "tid \<Rightarrow> nat \<Rightarrow> mutex_world \<Rightarrow> s32" where
  "posix_pthread_mutex_isowned_np t mutex w =
     (if mw_var w mutex \<le> THR_MUTEX_DESTROYED then 0
      else of_bool (map_option mx_owner (mw_heap w (mw_var w mutex)) = Some (Some t)))"

definition mutex_field :: "(PthreadMutex \<Rightarrow> s32) \<Rightarrow> nat option \<Rightarrow> nat \<Rightarrow> mutex_world \<Rightarrow> (s32 \<times> s32 option) \<times> mutex_world" where
  "mutex_field f new mutex w =
     (case CHECK_AND_INIT_MUTEX new mutex w of
        (ret, w') \<Rightarrow> (if ret \<noteq> 0 then (ret, None) else (0, map_option f (mw_heap w' (mw_var w' mutex))), w'))"

definition set_mutex_field ::
    "(PthreadMutex \<Rightarrow> PthreadMutex) \<Rightarrow> nat option \<Rightarrow> nat \<Rightarrow> mutex_world \<Rightarrow> s32 \<times> mutex_world" where
  "set_mutex_field f new mutex w =
     (case CHECK_AND_INIT_MUTEX new mutex w of
        (ret, w') \<Rightarrow>
          if ret \<noteq> 0 then (ret, w')
          else (0, w'\<lparr>mw_heap := (mw_heap w')(mw_var w' mutex := map_option f (mw_heap w' (mw_var w' mutex)))\<rparr>))"

definition posix_pthread_mutex_getspinloops_np :: "nat option \<Rightarrow> nat \<Rightarrow> mutex_world \<Rightarrow> (s32 \<times> s32 option) \<times> mutex_world" where
  "posix_pthread_mutex_getspinloops_np = mutex_field mx_spinloops"

definition posix_pthread_mutex_setspinloops_np :: "s32 \<Rightarrow> nat option \<Rightarrow> nat \<Rightarrow> mutex_world \<Rightarrow> s32 \<times> mutex_world" where
  "posix_pthread_mutex_setspinloops_np count = set_mutex_field (\<lambda>m. m\<lparr>mx_spinloops := count\<rparr>)"

definition posix_pthread_mutex_getyieldloops_np :: "nat option \<Rightarrow> nat \<Rightarrow> mutex_world \<Rightarrow> (s32 \<times> s32 option) \<times> mutex_world" where
  "posix_pthread_mutex_getyieldloops_np = mutex_field mx_yieldloops"

definition posix_pthread_mutex_setyieldloops_np :: "s32 \<Rightarrow> nat option \<Rightarrow> nat \<Rightarrow> mutex_world \<Rightarrow> s32 \<times> mutex_world" where
  "posix_pthread_mutex_setyieldloops_np count = set_mutex_field (\<lambda>m. m\<lparr>mx_yieldloops := count\<rparr>)"

subsection \<open>Interleavings\<close>

definition resting :: "mutex_pc \<Rightarrow> bool" where
  "resting pc \<longleftrightarrow> pc = MIdle \<or> (\<exists>ret. pc = MReturned ret)"

inductive mutex_reach :: "PthreadMutex \<Rightarrow> PthreadMutex \<times> (tid \<Rightarrow> mutex_pc) \<Rightarrow> bool" for m0 where
  start: "mutex_reach m0 (m0, \<lambda>_. MIdle)"
| call: "mutex_reach m0 (m, pcs) \<Longrightarrow> resting (pcs t) \<Longrightarrow>
    pc \<in> {TryEnter, UnlockEnter None} \<union> range (\<lambda>abstime. LockEnter abstime None) \<Longrightarrow>
    mutex_reach m0 (m, pcs(t := pc))"
| cv_unlock: "mutex_reach m0 (m, pcs) \<Longrightarrow> resting (pcs t) \<Longrightarrow> mx_owner m = Some t \<Longrightarrow> CvUnlock m = (m', pc) \<Longrightarrow>
    mutex_reach m0 (m', pcs(t := pc))"
| cv_lock: "mutex_reach m0 (m, pcs) \<Longrightarrow> pcs t = CvWaiting recurse \<Longrightarrow> mutex_reach m0 (m, pcs(t := CvLock recurse))"
| signal: "mutex_reach m0 (m, pcs) \<Longrightarrow> resting (pcs t) \<Longrightarrow> mx_owner m = Some t \<Longrightarrow>
    mutex_reach m0 (m\<lparr>mx_flags := mx_flags m OR MutexFlagsDeferred\<rparr>, pcs)"
| loops: "mutex_reach m0 (m, pcs) \<Longrightarrow> mutex_reach m0 (m\<lparr>mx_spinloops := a, mx_yieldloops := b\<rparr>, pcs)"
| access: "mutex_reach m0 (m, pcs) \<Longrightarrow> mutex_next t late m (pcs t) = Some (m', pc) \<Longrightarrow>
    mutex_reach m0 (m', pcs(t := pc))"


subsection \<open>Invariant\<close>

text \<open>The thread has the host lock, though \<^verbatim>\<open>m_owner\<close> does not name it.\<close>

fun in_section :: "mutex_pc \<Rightarrow> bool" where
  "in_section (LockOwned cv) = True"
| "in_section (UnlockRelease deferred cv) = True"
| "in_section _ = False"

definition holds :: "PthreadMutex \<Rightarrow> (tid \<Rightarrow> mutex_pc) \<Rightarrow> tid \<Rightarrow> bool" where
  "holds m pcs t \<longleftrightarrow> mx_owner m = Some t \<or> in_section (pcs t)"

text \<open>Which places fit a thread that is, or is not, the owner; \<open>count\<close> is the recursion count.\<close>

fun place_ok :: "bool \<Rightarrow> s32 \<Rightarrow> mutex_pc \<Rightarrow> bool" where
  "place_ok own count (LockEnter abstime cv) = (own \<longrightarrow> cv = None)"
| "place_ok own count (LockRestore recurse) = (own \<and> count = 0)"
| "place_ok own count (UnlockEnter cv) = (cv \<noteq> None \<longrightarrow> own \<and> count = 0)"
| "place_ok own count MIdle = True"
| "place_ok own count (MReturned ret) = True"
| "place_ok own count TryEnter = True"
| "place_ok own count MAborted = True"
| "place_ok own count _ = (\<not> own)"

fun saved :: "mutex_pc \<Rightarrow> s32 option" where
  "saved (LockEnter abstime cv) = cv"
| "saved (LockSpin abstime cv n) = cv"
| "saved (LockYield abstime cv n) = cv"
| "saved (LockBlock abstime cv) = cv"
| "saved (LockOwned cv) = cv"
| "saved (LockRestore recurse) = Some recurse"
| "saved (UnlockEnter cv) = cv"
| "saved (UnlockRelease deferred cv) = cv"
| "saved (UnlockWake deferred cv) = cv"
| "saved (CvWaiting recurse) = Some recurse"
| "saved _ = None"

definition count_fits :: "PthreadMutex \<Rightarrow> s32 \<Rightarrow> bool" where
  "count_fits m c \<longleftrightarrow> 0 \<le> c \<and> c < 2 ^ 31 \<and> (0 < c \<longrightarrow> MutexType m = MutexRecursive)"

definition mutex_ok :: "PthreadMutex \<times> (tid \<Rightarrow> mutex_pc) \<Rightarrow> bool" where
  "mutex_ok s \<longleftrightarrow> (case s of (m, pcs) \<Rightarrow>
     (\<exists>h. (\<forall>t. holds m pcs t \<longleftrightarrow> h = Some t) \<and> (mx_lock m \<longleftrightarrow> h \<noteq> None)) \<and>
     (\<forall>t. place_ok (mx_owner m = Some t) (mx_count m) (pcs t)) \<and>
     (\<forall>t recurse. saved (pcs t) = Some recurse \<longrightarrow> count_fits m recurse) \<and>
     count_fits m (mx_count m) \<and> (0 < mx_count m \<longrightarrow> mx_owner m \<noteq> None))"

definition type_known :: "PthreadMutex \<Rightarrow> bool" where
  "type_known m \<longleftrightarrow> MutexType m \<in> {MutexErrorCheck, MutexRecursive, MutexNormal, MutexAdaptiveNp}"

lemma MutexType_deferred [simp]:
  "MutexType (m\<lparr>mx_flags := mx_flags m AND NOT MutexFlagsDeferred\<rparr>) = MutexType m"
  "MutexType (m\<lparr>mx_flags := mx_flags m OR MutexFlagsDeferred\<rparr>) = MutexType m"
proof -
  have e: "(x AND - 513) AND 0xff = x AND 0xff" "(x OR 0x200) AND 0xff = x AND 0xff" for x :: "32 word"
  proof -
    have "- 513 AND (0xff :: 32 word) = 0xff" "(0x200 :: 32 word) AND 0xff = 0" by code_simp+
    then show "(x AND - 513) AND 0xff = x AND 0xff" "(x OR 0x200) AND 0xff = x AND 0xff"
      by (simp_all only: and.assoc bit.conj_disj_distrib2) (simp add: bit.conj_disj_distrib2)
  qed
  show "MutexType (m\<lparr>mx_flags := mx_flags m AND NOT MutexFlagsDeferred\<rparr>) = MutexType m"
    "MutexType (m\<lparr>mx_flags := mx_flags m OR MutexFlagsDeferred\<rparr>) = MutexType m"
    by (simp_all add: MutexType_def MutexFlagsTypeMask_def MutexFlagsDeferred_def e)
qed

lemma MutexType_fields [simp]:
  "MutexType (m\<lparr>mx_lock := a\<rparr>) = MutexType m" "MutexType (m\<lparr>mx_owner := b\<rparr>) = MutexType m"
  "MutexType (m\<lparr>mx_count := c\<rparr>) = MutexType m" "MutexType (m\<lparr>mx_spinloops := c\<rparr>) = MutexType m"
  "MutexType (m\<lparr>mx_yieldloops := c\<rparr>) = MutexType m"
  by (simp_all add: MutexType_def)

lemma place_ok_count: "place_ok False c pc = place_ok False d pc"
  by (cases pc) auto

lemma count_fits_type: "MutexType m' = MutexType m \<Longrightarrow> count_fits m' c = count_fits m c"
  by (simp add: count_fits_def)

text \<open>
  What a change by one thread has to respect: it takes and leaves the mutex together with the host lock,
  touches no other owner, and the count only as the owner.
\<close>

lemma mutex_ok_change:
  assumes ok: "mutex_ok (m, pcs)"
    and others: "\<And>u. u \<noteq> t \<Longrightarrow> mx_owner m' = Some u \<longleftrightarrow> mx_owner m = Some u"
    and count: "mx_owner m = Some t \<or> mx_owner m' = Some t \<or> mx_count m' = mx_count m"
    and place: "place_ok (mx_owner m' = Some t) (mx_count m') pc"
    and cv: "\<And>r. saved pc = Some r \<Longrightarrow> count_fits m r"
    and ty: "MutexType m' = MutexType m"
    and fits: "count_fits m (mx_count m')" "0 < mx_count m' \<Longrightarrow> mx_owner m' \<noteq> None"
    and hold: "holds m pcs t = holds m' (pcs(t := pc)) t \<and> mx_lock m' = mx_lock m \<or>
      \<not> holds m pcs t \<and> holds m' (pcs(t := pc)) t \<and> \<not> mx_lock m \<and> mx_lock m' \<or>
      holds m pcs t \<and> \<not> holds m' (pcs(t := pc)) t \<and> \<not> mx_lock m'"
  shows "mutex_ok (m', pcs(t := pc))"
proof -
  let ?pcs = "pcs(t := pc)"
  obtain h where h: "\<And>u. holds m pcs u \<longleftrightarrow> h = Some u" and l: "mx_lock m \<longleftrightarrow> h \<noteq> None"
    using ok by (auto simp: mutex_ok_def)
  have same: "holds m' ?pcs u = holds m pcs u" if "u \<noteq> t" for u
    using that others by (simp add: holds_def)
  have "\<exists>h. (\<forall>u. holds m' ?pcs u \<longleftrightarrow> h = Some u) \<and> (mx_lock m' \<longleftrightarrow> h \<noteq> None)"
  proof (cases "holds m' ?pcs t")
    case True
    have ht: "h = None \<or> h = Some t" using True hold h [of t] l by blast
    have "holds m' ?pcs u \<longleftrightarrow> Some t = Some u" for u
    proof (cases "u = t")
      case False
      then show ?thesis using ht same h by auto
    qed (use True in simp)
    moreover have "mx_lock m'" using True hold h l by auto
    ultimately show ?thesis by (intro exI [of _ "Some t"]) simp
  next
    case False
    show ?thesis
    proof (cases "holds m pcs t")
      case True
      then have "holds m' ?pcs u \<longleftrightarrow> None = Some u" for u
        using False h same by (cases "u = t") auto
      then show ?thesis using True False hold by (intro exI [of _ None]) auto
    next
      case not: False
      then have "holds m' ?pcs u \<longleftrightarrow> h = Some u" for u using False h same by (cases "u = t") auto
      then show ?thesis using not False hold l by (intro exI [of _ h]) auto
    qed
  qed
  moreover have "place_ok (mx_owner m' = Some u) (mx_count m') (?pcs u)" for u
  proof (cases "u = t \<or> mx_count m' = mx_count m")
    case True
    then show ?thesis using place ok others [of u] by (cases "u = t") (auto simp: mutex_ok_def)
  next
    case False
    then have "mx_owner m' \<noteq> Some u \<and> mx_owner m \<noteq> Some u" using count others [of u] by auto
    moreover have "place_ok (mx_owner m = Some u) (mx_count m) (pcs u)" using ok by (simp add: mutex_ok_def)
    ultimately show ?thesis using False place_ok_count [of "mx_count m'" "pcs u" "mx_count m"] by simp
  qed
  moreover have "count_fits m r" if "saved (?pcs u) = Some r" for u r
    using that cv ok by (cases "u = t") (auto simp: mutex_ok_def)
  ultimately show ?thesis using fits by (simp add: mutex_ok_def count_fits_type [OF ty])
qed

lemma count_up_cases:
  assumes "count_fits m (mx_count m)" and "count_up m = (ret, m')"
  shows "ret = 0 \<and> mx_count m < 2 ^ 31 - 1 \<and> m' = m\<lparr>mx_count := mx_count m + 1\<rparr> \<or>
         ret = POSIX_EAGAIN \<and> mx_count m = 2 ^ 31 - 1 \<and> m' = m"
proof (cases "mx_count m < 2 ^ 31 - 1")
  case True
  then have "wrap_s32 (mx_count m + 1) = mx_count m + 1"
    using assms(1) by (intro wrap_s32_exact) (auto simp: count_fits_def)
  then show ?thesis using True assms by (auto simp: count_up_def count_fits_def split: if_splits)
next
  case False
  then have c: "mx_count m = 2 ^ 31 - 1" using assms(1) by (auto simp: count_fits_def)
  have "wrap_s32 (2 ^ 31) = - (2 ^ 31)" by code_simp
  then show ?thesis using c assms(2) by (simp add: count_up_def)
qed

lemma SelfLock_cases:
  assumes "SelfLock d m = Some (ret, m')" and "count_fits m (mx_count m)"
  shows "m' = m \<and> ret \<noteq> 0 \<or>
    ret = 0 \<and> MutexType m = MutexRecursive \<and> mx_count m < 2 ^ 31 - 1 \<and> m' = m\<lparr>mx_count := mx_count m + 1\<rparr>"
  using assms count_up_cases [OF assms(2)] by (cases d) (auto simp: SelfLock_def posix_codes split: if_splits)

lemma SelfTryLock_cases:
  assumes "SelfTryLock m = (ret, m')" and "count_fits m (mx_count m)"
  shows "m' = m \<and> ret \<noteq> 0 \<or>
    ret = 0 \<and> MutexType m = MutexRecursive \<and> mx_count m < 2 ^ 31 - 1 \<and> m' = m\<lparr>mx_count := mx_count m + 1\<rparr>"
  using assms count_up_cases [OF assms(2)] by (auto simp: SelfTryLock_def posix_codes split: if_splits)

lemmas change_simps = holds_def m_lock_taken_def count_fits_def

lemma mutex_next_ok:
  assumes ok: "mutex_ok (m, pcs)" and run: "mutex_next t late m (pcs t) = Some (m', pc)"
  shows "mutex_ok (m', pcs(t := pc))" and "MutexType m' = MutexType m"
proof -
  have pl: "place_ok (mx_owner m = Some t) (mx_count m) (pcs t)"
    and sv: "\<And>r. saved (pcs t) = Some r \<Longrightarrow> count_fits m r"
    and ct: "count_fits m (mx_count m)" "0 < mx_count m \<Longrightarrow> mx_owner m \<noteq> None"
    using ok by (auto simp: mutex_ok_def)
  obtain h where h: "\<And>u. holds m pcs u \<longleftrightarrow> h = Some u" and l: "mx_lock m \<longleftrightarrow> h \<noteq> None"
    using ok by (auto simp: mutex_ok_def)
  have free: "mx_owner m = None" if "in_section (pcs t)"
  proof -
    have "mx_owner m = Some u \<Longrightarrow> u = t" for u using h [of t] h [of u] that by (auto simp: holds_def)
    moreover have "mx_owner m \<noteq> Some t" using that pl by (cases "pcs t") auto
    ultimately show ?thesis by (cases "mx_owner m") auto
  qed
  have locked: "mx_lock m" if "holds m pcs t" using that h l by auto
  have unheld: "\<not> holds m pcs t" "mx_owner m = None" if "\<not> mx_lock m"
    using that h l by (auto simp: holds_def) (metis not_Some_eq)
  have "mutex_ok (m', pcs(t := pc)) \<and> MutexType m' = MutexType m"
  proof (cases "pcs t")
    case (LockEnter abstime cv)
    show ?thesis
    proof (cases "mx_owner m = Some t")
      case True
      then have cv: "cv = None" using pl LockEnter by simp
      consider "pc = MAborted" "m' = m" | ret where "SelfLock abstime m = Some (ret, m')" "pc = MReturned ret"
        using run LockEnter True cv by (auto split: option.splits)
      then show ?thesis
      proof cases
        case 1
        then show ?thesis using ok LockEnter True ct by (auto intro!: mutex_ok_change [of m] simp: holds_def)
      next
        case 2
        then show ?thesis using SelfLock_cases [OF 2(1) ct(1)] ok LockEnter True ct
          by (auto intro!: mutex_ok_change [of m] simp: change_simps)
      qed
    next
      case False
      then show ?thesis using run LockEnter ok ct sv
        by (auto intro!: mutex_ok_change [of m] simp: holds_def split: if_splits)
    qed
  next
    case (LockSpin abstime cv n)
    then show ?thesis using run ok ct sv unheld pl
      by (auto intro!: mutex_ok_change [of m] simp: holds_def m_lock_taken_def split: if_splits)
  next
    case (LockYield abstime cv n)
    then show ?thesis using run ok ct sv unheld pl
      by (auto intro!: mutex_ok_change [of m] simp: holds_def m_lock_taken_def split: if_splits)
  next
    case (LockBlock abstime cv)
    then show ?thesis using run ok ct sv unheld pl
      by (cases abstime) (auto intro!: mutex_ok_change [of m] simp: holds_def m_lock_taken_def lock_timed_def split: if_splits)
  next
    case (LockOwned cv)
    moreover have "mx_count m = 0" if "in_section (pcs t)" using ct free that by (force simp: count_fits_def)
    ultimately show ?thesis using run ok ct sv free pl
      by (auto intro!: mutex_ok_change [of m] simp: holds_def split: option.splits)
  next
    case TryEnter
    show ?thesis
    proof (cases "mx_owner m = Some t")
      case True
      obtain ret mm where r: "SelfTryLock m = (ret, mm)" by fastforce
      then show ?thesis using SelfTryLock_cases [OF r ct(1)] ok TryEnter True ct run
        by (auto intro!: mutex_ok_change [of m] simp: change_simps)
    next
      case False
      then show ?thesis using run TryEnter ok ct
        by (auto intro!: mutex_ok_change [of m] simp: holds_def)
    qed
  next
    case TryTake
    then show ?thesis using run ok ct sv unheld pl
      by (auto intro!: mutex_ok_change [of m] simp: holds_def m_lock_taken_def split: if_splits)
  next
    case (UnlockEnter cv)
    then show ?thesis using run ok ct sv pl locked
      by (auto intro!: mutex_ok_change [of m] simp: change_simps split: if_splits option.splits)
  next
    case (UnlockRelease deferred cv)
    then show ?thesis using run ok ct sv free pl
      by (auto intro!: mutex_ok_change [of m] simp: holds_def)
  next
    case (UnlockWake deferred cv)
    then show ?thesis using run ok ct sv pl
      by (auto intro!: mutex_ok_change [of m] simp: holds_def split: option.splits)
  next
    case (LockRestore recurse)
    then show ?thesis using run ok ct sv pl
      by (auto intro!: mutex_ok_change [of m] simp: holds_def)
  qed (use run in simp_all)
  then show "mutex_ok (m', pcs(t := pc))" "MutexType m' = MutexType m" by simp_all
qed

lemma mutex_ok_fields:
  "mx_lock m' = mx_lock m \<Longrightarrow> mx_owner m' = mx_owner m \<Longrightarrow> mx_count m' = mx_count m \<Longrightarrow> MutexType m' = MutexType m \<Longrightarrow>
   mutex_ok (m', pcs) = mutex_ok (m, pcs)"
  by (simp add: mutex_ok_def holds_def count_fits_def)

lemma mutex_reach_ok:
  assumes "mutex_reach m0 (m, pcs)" and "mutex_ok (m0, \<lambda>_. MIdle)"
  shows "mutex_ok (m, pcs) \<and> MutexType m = MutexType m0"
  using assms
proof (induction "(m, pcs)" arbitrary: m pcs rule: mutex_reach.induct)
  case start
  then show ?case by simp
next
  case (call m pcs t pc)
  then have ok: "mutex_ok (m, pcs)" by simp
  have rest: "\<not> in_section (pcs t)" "\<not> in_section pc" "saved pc = None"
    and place: "place_ok own c pc" for own c using call(3,4) by (auto simp: resting_def)
  have "count_fits m (mx_count m)" "0 < mx_count m \<Longrightarrow> mx_owner m \<noteq> None" using ok by (auto simp: mutex_ok_def)
  then have "mutex_ok (m, pcs(t := pc))"
    by (intro mutex_ok_change [OF ok]) (use rest place in \<open>simp_all add: holds_def\<close>)
  then show ?case using call by simp
next
  case (cv_unlock m pcs t m' pc)
  then have ok: "mutex_ok (m, pcs)" by simp
  have m': "m' = m\<lparr>mx_count := 0\<rparr>" "pc = UnlockEnter (Some (mx_count m))" using cv_unlock(5) by (simp_all add: CvUnlock_def)
  have "count_fits m (mx_count m)" "\<not> in_section (pcs t)" using ok cv_unlock(3) by (auto simp: mutex_ok_def resting_def)
  then have "mutex_ok (m', pcs(t := pc))"
    by (intro mutex_ok_change [OF ok]) (use cv_unlock(4) in \<open>simp_all add: holds_def m' count_fits_def\<close>)
  then show ?case using cv_unlock m' by simp
next
  case (cv_lock m pcs t recurse)
  then have ok: "mutex_ok (m, pcs)" by simp
  have "place_ok (mx_owner m = Some t) (mx_count m) (pcs t)" "saved (pcs t) = Some recurse \<Longrightarrow> count_fits m recurse"
    "count_fits m (mx_count m)" "0 < mx_count m \<Longrightarrow> mx_owner m \<noteq> None"
    using ok by (auto simp: mutex_ok_def)
  then have "mutex_ok (m, pcs(t := CvLock recurse))"
    by (intro mutex_ok_change [OF ok]) (use cv_lock(3) in \<open>simp_all add: holds_def CvLock_def\<close>)
  then show ?case using cv_lock by simp
next
  case (signal m pcs t)
  then have "mutex_ok (m, pcs)" "MutexType m = MutexType m0" by simp_all
  moreover have "mutex_ok (m\<lparr>mx_flags := mx_flags m OR MutexFlagsDeferred\<rparr>, pcs) = mutex_ok (m, pcs)" by (rule mutex_ok_fields) simp_all
  ultimately show ?case by simp
next
  case (loops m pcs b a)
  then have "mutex_ok (m, pcs)" "MutexType m = MutexType m0" by simp_all
  moreover have "mutex_ok (m\<lparr>mx_spinloops := a, mx_yieldloops := b\<rparr>, pcs) = mutex_ok (m, pcs)" by (rule mutex_ok_fields) simp_all
  ultimately show ?case by simp
next
  case (access m pcs t late m' pc)
  then show ?case using mutex_next_ok [of m pcs t late m' pc] by simp
qed

lemma PthreadMutex_new_ok:
  assumes "attr_accepted a"
  shows "mutex_ok (PthreadMutex_new a, \<lambda>_. MIdle)" and "MutexType (PthreadMutex_new a) = ma_type a"
    and "type_known (PthreadMutex_new a)"
proof -
  have "ma_type a = 1 \<or> ma_type a = 2 \<or> ma_type a = 3 \<or> ma_type a = 4"
  proof -
    have "1 \<le> unat (ma_type a)" "unat (ma_type a) < 5"
      using assms by (auto simp: attr_accepted_def mutex_enum_defs not_less not_le word_le_nat_alt word_less_nat_alt)
    then have "unat (ma_type a) = 1 \<or> unat (ma_type a) = 2 \<or> unat (ma_type a) = 3 \<or> unat (ma_type a) = 4" by arith
    then show ?thesis by (simp add: word_unat_eq_iff)
  qed
  moreover have "(1 :: 32 word) AND 0xff = 1" "(2 :: 32 word) AND 0xff = 2" "(3 :: 32 word) AND 0xff = 3" "(4 :: 32 word) AND 0xff = 4"
    by code_simp+
  ultimately show ty: "MutexType (PthreadMutex_new a) = ma_type a" and "type_known (PthreadMutex_new a)"
    by (auto simp: MutexType_def PthreadMutex_new_def type_known_def mutex_enum_defs)
  show "mutex_ok (PthreadMutex_new a, \<lambda>_. MIdle)"
    by (simp add: mutex_ok_def holds_def PthreadMutex_new_def count_fits_def)
qed

end
