(* ===== verification/Orbit_Sleepq.thy ===== *)
theory Orbit_Sleepq
  imports Orbit_Prelude
begin

text \<open>
  Sleep queues (\<^verbatim>\<open>src/core/libraries/kernel/threads/sleepq.cpp\<close>): the threads that wait on an address.
  A thread lends its own \<^verbatim>\<open>SleepQueue\<close> object while it waits: the first waiter's object becomes the queue
  of the address, linked in a hash chain, and those of later waiters rest in its free list, from which a
  thread that leaves takes one back.  Queue objects and threads are numbers here; the intrusive lists are
  lists of queue numbers, and \<open>unlink\<close> takes a queue out of whichever list it is in.
\<close>

subsection \<open>State\<close>

type_synonym wchan = nat

record sleepq =
  sc_queues :: "nat \<Rightarrow> nat list"
  sq_blocked :: "nat \<Rightarrow> tid list"
  sq_freeq :: "nat \<Rightarrow> nat list"
  sq_wchan :: "nat \<Rightarrow> wchan"
  td_sleepqueue :: "tid \<Rightarrow> nat option"
  td_wchan :: "tid \<Rightarrow> wchan option"

definition SC_HASH :: "wchan \<Rightarrow> nat" where
  "SC_HASH wchan = (drop_bit 3 wchan XOR drop_bit 12 wchan) AND 511"

definition unlink :: "nat \<Rightarrow> sleepq \<Rightarrow> sleepq" where
  "unlink sq s = s\<lparr>sc_queues := (\<lambda>b. removeAll sq (sc_queues s b)), sq_freeq := (\<lambda>q. removeAll sq (sq_freeq s q))\<rparr>"

definition SleepqLookup :: "wchan \<Rightarrow> sleepq \<Rightarrow> nat option" where
  "SleepqLookup wchan s = find (\<lambda>sq. sq_wchan s sq = wchan) (sc_queues s (SC_HASH wchan))"

text \<open>\<open>None\<close>: the code dereferences a null pointer or the front of an empty list.\<close>

definition SleepqAdd :: "wchan \<Rightarrow> tid \<Rightarrow> sleepq \<Rightarrow> sleepq option" where
  "SleepqAdd wchan td s =
     (case td_sleepqueue s td of
        None \<Rightarrow> None
      | Some own \<Rightarrow>
          (case SleepqLookup wchan s of
             Some sq \<Rightarrow>
               Some (s\<lparr>sq_freeq := (sq_freeq s)(sq := own # sq_freeq s sq), td_sleepqueue := (td_sleepqueue s)(td := None),
                       td_wchan := (td_wchan s)(td := Some wchan), sq_blocked := (sq_blocked s)(sq := td # sq_blocked s sq)\<rparr>)
           | None \<Rightarrow>
               Some (s\<lparr>sc_queues := (sc_queues s)(SC_HASH wchan := own # sc_queues s (SC_HASH wchan)),
                       sq_wchan := (sq_wchan s)(own := wchan), td_sleepqueue := (td_sleepqueue s)(td := None),
                       td_wchan := (td_wchan s)(td := Some wchan), sq_blocked := (sq_blocked s)(own := td # sq_blocked s own)\<rparr>)))"

definition SleepqRemove :: "nat \<Rightarrow> tid \<Rightarrow> sleepq \<Rightarrow> (bool \<times> sleepq) option" where
  "SleepqRemove sq td s =
     (let blocked = removeAll td (sq_blocked s sq);
          s1 = s\<lparr>sq_blocked := (sq_blocked s)(sq := blocked)\<rparr> in
      if blocked = [] then
        Some (False, unlink sq (s1\<lparr>td_sleepqueue := (td_sleepqueue s)(td := Some sq)\<rparr>)\<lparr>td_wchan := (td_wchan s)(td := None)\<rparr>)
      else
        (case sq_freeq s sq of
           [] \<Rightarrow> None
         | q # qs \<Rightarrow>
             Some (True, s1\<lparr>td_sleepqueue := (td_sleepqueue s)(td := Some q), sq_freeq := (sq_freeq s)(sq := qs),
                            td_wchan := (td_wchan s)(td := None)\<rparr>)))"

text \<open>\<open>SleepqDrop\<close> also returns the threads in the order in which it calls the callback on them.\<close>

definition SleepqDrop :: "nat \<Rightarrow> sleepq \<Rightarrow> (tid list \<times> sleepq) option" where
  "SleepqDrop sq s =
     (case sq_blocked s sq of
        [] \<Rightarrow> Some ([], s)
      | td # tds \<Rightarrow>
          if length (sq_freeq s sq) < length tds then None
          else
            let s1 = unlink sq s;
                given = map_of (zip (td # tds) (sq # sq_freeq s sq)) in
            Some (td # tds,
                  s1\<lparr>td_sleepqueue := (\<lambda>t. if given t = None then td_sleepqueue s t else given t),
                     td_wchan := (\<lambda>t. if t \<in> set (td # tds) then None else td_wchan s t),
                     sq_blocked := (sq_blocked s)(sq := []), sq_freeq := (sq_freeq s)(sq := [])\<rparr>))"

text \<open>How the callers use them: on the queue of an address.\<close>

definition sleepq_remove :: "wchan \<Rightarrow> tid \<Rightarrow> sleepq \<Rightarrow> (bool \<times> sleepq) option" where
  "sleepq_remove wchan td s = (case SleepqLookup wchan s of None \<Rightarrow> None | Some sq \<Rightarrow> SleepqRemove sq td s)"

definition sleepq_drop :: "wchan \<Rightarrow> sleepq \<Rightarrow> (tid list \<times> sleepq) option" where
  "sleepq_drop wchan s = (case SleepqLookup wchan s of None \<Rightarrow> Some ([], s) | Some sq \<Rightarrow> SleepqDrop sq s)"

subsection \<open>Abstraction and invariant\<close>

text \<open>What a sleep queue is for: the threads waiting on an address, the last one first.\<close>

definition sleepers :: "sleepq \<Rightarrow> wchan \<Rightarrow> tid list" where
  "sleepers s wchan = (case SleepqLookup wchan s of None \<Rightarrow> [] | Some sq \<Rightarrow> sq_blocked s sq)"

definition chained :: "sleepq \<Rightarrow> nat \<Rightarrow> bool" where
  "chained s q \<longleftrightarrow> q \<in> set (sc_queues s (SC_HASH (sq_wchan s q)))"

text \<open>Where a queue object is: with its thread, in a chain, or in the free list of a queue.\<close>

datatype place = OwnedBy tid | InChain nat | FreeIn nat

fun located :: "sleepq \<Rightarrow> nat \<Rightarrow> place \<Rightarrow> bool" where
  "located s q (OwnedBy t) = (td_sleepqueue s t = Some q)"
| "located s q (InChain b) = (q \<in> set (sc_queues s b))"
| "located s q (FreeIn p) = (q \<in> set (sq_freeq s p))"

definition sleepq_ok :: "sleepq \<Rightarrow> bool" where
  "sleepq_ok s \<longleftrightarrow>
     (\<forall>q p p'. located s q p \<longrightarrow> located s q p' \<longrightarrow> p = p') \<and>
     (\<forall>b. distinct (sc_queues s b) \<and> (\<forall>q \<in> set (sc_queues s b). SC_HASH (sq_wchan s q) = b)) \<and>
     (\<forall>q. distinct (sq_freeq s q) \<and> distinct (sq_blocked s q)) \<and>
     (\<forall>q. if chained s q then length (sq_blocked s q) = Suc (length (sq_freeq s q)) else sq_blocked s q = [] \<and> sq_freeq s q = []) \<and>
     (\<forall>q r. chained s q \<longrightarrow> chained s r \<longrightarrow> sq_wchan s q = sq_wchan s r \<longrightarrow> q = r) \<and>
     (\<forall>t q. t \<in> set (sq_blocked s q) \<longrightarrow> td_wchan s t = Some (sq_wchan s q)) \<and>
     (\<forall>t w. td_wchan s t = Some w \<longrightarrow> (\<exists>q. chained s q \<and> sq_wchan s q = w \<and> t \<in> set (sq_blocked s q))) \<and>
     (\<forall>t. td_sleepqueue s t = None \<longleftrightarrow> td_wchan s t \<noteq> None)"

text \<open>The parts of the invariant, to use and to establish one by one.\<close>

lemma sleepq_okD:
  assumes "sleepq_ok s"
  shows sok_place: "\<And>q p p'. located s q p \<Longrightarrow> located s q p' \<Longrightarrow> p = p'"
    and sok_chain: "\<And>b. distinct (sc_queues s b)" "\<And>b q. q \<in> set (sc_queues s b) \<Longrightarrow> SC_HASH (sq_wchan s q) = b"
    and sok_distinct: "\<And>q. distinct (sq_freeq s q)" "\<And>q. distinct (sq_blocked s q)"
    and sok_chained: "\<And>q. chained s q \<Longrightarrow> length (sq_blocked s q) = Suc (length (sq_freeq s q))"
    and sok_unchained: "\<And>q. \<not> chained s q \<Longrightarrow> sq_blocked s q = [] \<and> sq_freeq s q = []"
    and sok_one: "\<And>q r. chained s q \<Longrightarrow> chained s r \<Longrightarrow> sq_wchan s q = sq_wchan s r \<Longrightarrow> q = r"
    and sok_blocked: "\<And>t q. t \<in> set (sq_blocked s q) \<Longrightarrow> td_wchan s t = Some (sq_wchan s q)"
    and sok_wchan: "\<And>t w. td_wchan s t = Some w \<Longrightarrow> \<exists>q. chained s q \<and> sq_wchan s q = w \<and> t \<in> set (sq_blocked s q)"
    and sok_own: "\<And>t. td_sleepqueue s t = None \<longleftrightarrow> td_wchan s t \<noteq> None"
  using assms unfolding sleepq_ok_def by (blast | simp)+

lemma SleepqLookup_chained:
  assumes "sleepq_ok s"
  shows "SleepqLookup w s = Some q \<longleftrightarrow> chained s q \<and> sq_wchan s q = w"
proof
  assume "SleepqLookup w s = Some q"
  then show "chained s q \<and> sq_wchan s q = w" by (auto simp: SleepqLookup_def chained_def find_Some_iff)
next
  assume c: "chained s q \<and> sq_wchan s q = w"
  then have "find (\<lambda>q. sq_wchan s q = w) (sc_queues s (SC_HASH w)) \<noteq> None"
    by (auto simp: find_None_iff chained_def)
  then obtain r where r: "SleepqLookup w s = Some r" by (auto simp: SleepqLookup_def)
  then have "chained s r \<and> sq_wchan s r = w" by (auto simp: SleepqLookup_def chained_def find_Some_iff)
  with c assms have "r = q" by (auto simp: sleepq_ok_def)
  with r show "SleepqLookup w s = Some q" by simp
qed

lemma SleepqLookup_none:
  assumes "sleepq_ok s"
  shows "SleepqLookup w s = None \<longleftrightarrow> (\<forall>q. chained s q \<longrightarrow> sq_wchan s q \<noteq> w)"
  using SleepqLookup_chained [OF assms] by (metis option.exhaust option.distinct(1))

lemma in_chain:
  assumes "sleepq_ok s"
  shows "q \<in> set (sc_queues s b) \<longleftrightarrow> chained s q \<and> SC_HASH (sq_wchan s q) = b"
  using assms by (auto simp: sleepq_ok_def chained_def)

lemma sleepers_mem:
  assumes "sleepq_ok s"
  shows "t \<in> set (sleepers s w) \<longleftrightarrow> td_wchan s t = Some w"
proof
  assume "t \<in> set (sleepers s w)"
  then obtain q where "SleepqLookup w s = Some q" "t \<in> set (sq_blocked s q)" by (cases "SleepqLookup w s") (auto simp: sleepers_def)
  then show "td_wchan s t = Some w" using assms SleepqLookup_chained [OF assms] by (auto simp: sleepq_ok_def)
next
  assume "td_wchan s t = Some w"
  then obtain q where "chained s q" "sq_wchan s q = w" "t \<in> set (sq_blocked s q)" using sok_wchan [OF assms] by blast
  moreover then have "SleepqLookup w s = Some q" using SleepqLookup_chained [OF assms] by simp
  ultimately show "t \<in> set (sleepers s w)" by (simp add: sleepers_def)
qed

lemma sleepers_lookup: "SleepqLookup w s = Some q \<Longrightarrow> sleepers s w = sq_blocked s q"
  by (simp add: sleepers_def)

lemma sleepers_chained: "sleepq_ok s \<Longrightarrow> chained s q \<Longrightarrow> sleepers s (sq_wchan s q) = sq_blocked s q"
  by (simp add: SleepqLookup_chained sleepers_lookup)

lemma sleepers_none: "sleepq_ok s \<Longrightarrow> (\<And>q. chained s q \<Longrightarrow> sq_wchan s q \<noteq> w) \<Longrightarrow> sleepers s w = []"
  using SleepqLookup_none [of s w] by (auto simp: sleepers_def)

text \<open>A queue that is unlocked by an operation keeps its threads: enough to know all other addresses.\<close>

lemma sleepers_eqI:
  assumes "sleepq_ok s" and "\<And>q. chained s q \<Longrightarrow> sq_wchan s q = w \<Longrightarrow> sq_blocked s q = ts"
    and "(\<And>q. chained s q \<Longrightarrow> sq_wchan s q \<noteq> w) \<Longrightarrow> ts = []"
  shows "sleepers s w = ts"
proof (cases "\<exists>q. chained s q \<and> sq_wchan s q = w")
  case True
  then obtain q where q: "chained s q" "sq_wchan s q = w" by blast
  then show ?thesis using sleepers_chained [OF assms(1) q(1)] assms(2) by simp
next
  case False
  then have "ts = []" by (intro assms(3)) blast
  then show ?thesis using sleepers_none [OF assms(1), of w] False by blast
qed

subsection \<open>Waiting\<close>

lemma SleepqAdd_first:
  assumes ok: "sleepq_ok s" and own: "td_sleepqueue s td = Some own" and none: "SleepqLookup w s = None"
    and run: "SleepqAdd w td s = Some s'"
  shows "sleepq_ok s'" and "sleepers s' = (sleepers s)(w := td # sleepers s w)"
proof -
  note S = sleepq_okD [OF ok]
  have s': "s' = s\<lparr>sc_queues := (sc_queues s)(SC_HASH w := own # sc_queues s (SC_HASH w)),
      sq_wchan := (sq_wchan s)(own := w), td_sleepqueue := (td_sleepqueue s)(td := None),
      td_wchan := (td_wchan s)(td := Some w), sq_blocked := (sq_blocked s)(own := td # sq_blocked s own)\<rparr>"
    using run own none by (simp add: SleepqAdd_def)
  have sel: "sc_queues s' = (sc_queues s)(SC_HASH w := own # sc_queues s (SC_HASH w))" "sq_wchan s' = (sq_wchan s)(own := w)"
    "td_sleepqueue s' = (td_sleepqueue s)(td := None)" "td_wchan s' = (td_wchan s)(td := Some w)"
    "sq_blocked s' = (sq_blocked s)(own := td # sq_blocked s own)" "sq_freeq s' = sq_freeq s" by (simp_all add: s')
  have at: "located s own p \<longleftrightarrow> p = OwnedBy td" for p using S(1) [of own p "OwnedBy td"] own by auto
  have notin: "own \<notin> set (sc_queues s b)" "own \<notin> set (sq_freeq s q)" "td_sleepqueue s t = Some own \<longleftrightarrow> t = td" for b q t
    using at [of "InChain b"] at [of "FreeIn q"] at [of "OwnedBy t"] by auto
  then have unch: "\<not> chained s own" by (simp add: chained_def)
  have loc: "located s' q p \<longleftrightarrow> (if q = own then p = InChain (SC_HASH w) else located s q p)" for q p
    using notin by (cases p) (auto simp: sel own)
  have ch: "chained s' q \<longleftrightarrow> q = own \<or> chained s q" for q
    using notin by (auto simp: sel chained_def)
  have new: "\<And>q. chained s q \<Longrightarrow> sq_wchan s q \<noteq> w" using none SleepqLookup_none [OF ok] by simp
  have empty: "sq_blocked s own = []" "sq_freeq s own = []" using unch S(7) by simp_all
  have out: "td_wchan s td = None" using S(11) [of td] own by simp
  have td: "td \<notin> set (sq_blocked s q)" for q using S(9) [of td q] out by auto
  show ok': "sleepq_ok s'"
    unfolding sleepq_ok_def
  proof (intro conjI allI ballI impI)
    show "p = p'" if "located s' q p" "located s' q p'" for q p p'
      using that S(1) by (auto simp: loc split: if_splits)
    show "distinct (sc_queues s' b)" for b using S(2) notin by (simp add: sel)
    show "SC_HASH (sq_wchan s' q) = b" if "q \<in> set (sc_queues s' b)" for b q
      using that S(3) notin by (auto simp: sel split: if_splits)
    show "distinct (sq_freeq s' q)" "distinct (sq_blocked s' q)" for q using S(4,5) td by (simp_all add: sel)
    show "if chained s' q then length (sq_blocked s' q) = Suc (length (sq_freeq s' q)) else sq_blocked s' q = [] \<and> sq_freeq s' q = []" for q
      using S(6,7) empty by (auto simp: ch) (auto simp: sel)
    show "q = r" if "chained s' q" "chained s' r" "sq_wchan s' q = sq_wchan s' r" for q r
      using that S(8) new by (auto simp: ch sel split: if_splits)
    show "td_wchan s' t = Some (sq_wchan s' q)" if "t \<in> set (sq_blocked s' q)" for t q
      using that S(9) empty td by (auto simp: sel split: if_splits)
    show "\<exists>q. chained s' q \<and> sq_wchan s' q = v \<and> t \<in> set (sq_blocked s' q)" if v: "td_wchan s' t = Some v" for t v
    proof (cases "t = td")
      case True
      then show ?thesis using v ch [of own] by (intro exI [of _ own]) (simp add: sel)
    next
      case False
      then obtain q where q: "chained s q" "sq_wchan s q = v" "t \<in> set (sq_blocked s q)" using v S(10) [of t v] by (auto simp: sel)
      then have "q \<noteq> own" using unch by auto
      then show ?thesis using q ch [of q] by (intro exI [of _ q]) (simp add: sel)
    qed
    show "(td_sleepqueue s' t = None) = (td_wchan s' t \<noteq> None)" for t using S(11) [of t] by (simp add: sel)
  qed
  have "sleepers s' v = ((sleepers s)(w := td # sleepers s w)) v" for v
  proof (rule sleepers_eqI [OF ok'])
    show "sq_blocked s' q = ((sleepers s)(w := td # sleepers s w)) v" if "chained s' q" "sq_wchan s' q = v" for q
      using that new none empty unch sleepers_chained [OF ok, of q] by (auto simp: ch sel sleepers_def)
    show "((sleepers s)(w := td # sleepers s w)) v = []" if h: "\<And>q. chained s' q \<Longrightarrow> sq_wchan s' q \<noteq> v"
    proof -
      have "v \<noteq> w" using h [of own] ch [of own] by (auto simp: sel)
      moreover have "sq_wchan s q \<noteq> v" if "chained s q" for q
        using h [of q] ch [of q] that unch by (cases "q = own") (auto simp: sel)
      ultimately show ?thesis using sleepers_none [OF ok, of v] by simp
    qed
  qed
  then show "sleepers s' = (sleepers s)(w := td # sleepers s w)" by (rule ext)
qed

lemma SleepqAdd_more:
  assumes ok: "sleepq_ok s" and own: "td_sleepqueue s td = Some own" and some: "SleepqLookup w s = Some sq"
    and run: "SleepqAdd w td s = Some s'"
  shows "sleepq_ok s'" and "sleepers s' = (sleepers s)(w := td # sleepers s w)"
proof -
  note S = sleepq_okD [OF ok]
  have sel: "sc_queues s' = sc_queues s" "sq_wchan s' = sq_wchan s" "td_sleepqueue s' = (td_sleepqueue s)(td := None)"
    "td_wchan s' = (td_wchan s)(td := Some w)" "sq_blocked s' = (sq_blocked s)(sq := td # sq_blocked s sq)"
    "sq_freeq s' = (sq_freeq s)(sq := own # sq_freeq s sq)"
    using run own some by (auto simp: SleepqAdd_def)
  have at: "located s own p \<longleftrightarrow> p = OwnedBy td" for p using S(1) [of own p "OwnedBy td"] own by auto
  have notin: "own \<notin> set (sc_queues s b)" "own \<notin> set (sq_freeq s q)" "td_sleepqueue s t = Some own \<longleftrightarrow> t = td" for b q t
    using at [of "InChain b"] at [of "FreeIn q"] at [of "OwnedBy t"] by auto
  have loc: "located s' q p \<longleftrightarrow> (if q = own then p = FreeIn sq else located s q p)" for q p
    using notin by (cases p) (auto simp: sel own)
  have ch: "chained s' q \<longleftrightarrow> chained s q" for q by (simp add: chained_def sel)
  have sq: "chained s sq" "sq_wchan s sq = w" using some SleepqLookup_chained [OF ok] by simp_all
  have out: "td_wchan s td = None" using S(11) [of td] own by simp
  have td: "td \<notin> set (sq_blocked s q)" for q using S(9) [of td q] out by auto
  show ok': "sleepq_ok s'"
    unfolding sleepq_ok_def
  proof (intro conjI allI ballI impI)
    show "p = p'" if "located s' q p" "located s' q p'" for q p p'
      using that S(1) by (auto simp: loc split: if_splits)
    show "distinct (sc_queues s' b)" for b using S(2) by (simp add: sel)
    show "SC_HASH (sq_wchan s' q) = b" if "q \<in> set (sc_queues s' b)" for b q
      using that S(3) by (auto simp: sel)
    show "distinct (sq_freeq s' q)" "distinct (sq_blocked s' q)" for q using S(4,5) td notin by (simp_all add: sel)
    show "if chained s' q then length (sq_blocked s' q) = Suc (length (sq_freeq s' q)) else sq_blocked s' q = [] \<and> sq_freeq s' q = []" for q
      using S(6,7) sq by (auto simp: ch sel)
    show "q = r" if "chained s' q" "chained s' r" "sq_wchan s' q = sq_wchan s' r" for q r
      using that S(8) by (auto simp: ch sel)
    show "td_wchan s' t = Some (sq_wchan s' q)" if "t \<in> set (sq_blocked s' q)" for t q
      using that S(9) td sq by (auto simp: sel split: if_splits)
    show "\<exists>q. chained s' q \<and> sq_wchan s' q = v \<and> t \<in> set (sq_blocked s' q)" if v: "td_wchan s' t = Some v" for t v
    proof (cases "t = td")
      case True
      then show ?thesis using v sq by (intro exI [of _ sq]) (simp add: sel ch)
    next
      case False
      then obtain q where q: "chained s q" "sq_wchan s q = v" "t \<in> set (sq_blocked s q)" using v S(10) [of t v] by (auto simp: sel)
      then show ?thesis by (intro exI [of _ q]) (auto simp: sel ch)
    qed
    show "(td_sleepqueue s' t = None) = (td_wchan s' t \<noteq> None)" for t using S(11) [of t] by (simp add: sel)
  qed
  have "sleepers s' v = ((sleepers s)(w := td # sleepers s w)) v" for v
  proof (rule sleepers_eqI [OF ok'])
    show "sq_blocked s' q = ((sleepers s)(w := td # sleepers s w)) v" if "chained s' q" "sq_wchan s' q = v" for q
      using that sq S(8) [of q sq] sleepers_chained [OF ok, of q] by (auto simp: ch sel)
    show "((sleepers s)(w := td # sleepers s w)) v = []" if h: "\<And>q. chained s' q \<Longrightarrow> sq_wchan s' q \<noteq> v"
      using h [of sq] h sq sleepers_none [OF ok, of v] by (auto simp: ch sel)
  qed
  then show "sleepers s' = (sleepers s)(w := td # sleepers s w)" by (rule ext)
qed

lemma SleepqAdd_ok:
  assumes ok: "sleepq_ok s" and out: "td_wchan s td = None"
  shows "\<exists>s'. SleepqAdd w td s = Some s' \<and> sleepq_ok s' \<and> sleepers s' = (sleepers s)(w := td # sleepers s w)"
proof -
  obtain own where own: "td_sleepqueue s td = Some own" using sok_own [OF ok, of td] out by auto
  then obtain s' where s': "SleepqAdd w td s = Some s'" by (cases "SleepqLookup w s") (auto simp: SleepqAdd_def)
  then show ?thesis
    using SleepqAdd_first [OF ok own _ s'] SleepqAdd_more [OF ok own _ s'] by (cases "SleepqLookup w s") auto
qed

subsection \<open>Leaving\<close>

text \<open>What the operations by which threads leave have in common: the threads of \<open>R\<close> leave the queue \<open>sq\<close>.\<close>

lemma sleepq_leave:
  assumes ok: "sleepq_ok s" and sq: "chained s sq" "sq_wchan s sq = w" and R: "R \<subseteq> set (sq_blocked s sq)"
    and wchan: "sq_wchan s' = sq_wchan s" and blocked: "sq_blocked s' = (sq_blocked s)(sq := filter (\<lambda>t. t \<notin> R) (sq_blocked s sq))"
    and tw: "td_wchan s' = (\<lambda>t. if t \<in> R then None else td_wchan s t)"
    and own: "\<And>t. t \<in> R \<Longrightarrow> td_sleepqueue s' t \<noteq> None" "\<And>t. t \<notin> R \<Longrightarrow> td_sleepqueue s' t = td_sleepqueue s t"
    and chains: "\<And>b. sc_queues s' b = (if sq_blocked s' sq = [] then removeAll sq (sc_queues s b) else sc_queues s b)"
    and free: "\<And>q. q \<noteq> sq \<Longrightarrow> sq_freeq s' q = sq_freeq s q" "distinct (sq_freeq s' sq)"
      "length (sq_freeq s' sq) = length (sq_blocked s' sq) - 1"
    and place: "\<And>q p p'. located s' q p \<Longrightarrow> located s' q p' \<Longrightarrow> p = p'"
  shows "sleepq_ok s'" and "sleepers s' = (sleepers s)(w := filter (\<lambda>t. t \<notin> R) (sleepers s w))"
proof -
  note S = sleepq_okD [OF ok]
  have ch: "chained s' q \<longleftrightarrow> chained s q \<and> (q = sq \<longrightarrow> sq_blocked s' sq \<noteq> [])" for q
    by (auto simp: chained_def chains wchan)
  have other: "t \<notin> R" if "q \<noteq> sq" "t \<in> set (sq_blocked s q)" for q t
  proof
    assume "t \<in> R"
    then have "td_wchan s t = Some (sq_wchan s sq)" using R S(9) by blast
    moreover have "td_wchan s t = Some (sq_wchan s q)" using that S(9) by blast
    moreover have "chained s q" using that(2) S(7) [of q] by (cases "chained s q") auto
    ultimately show False using S(8) [of q sq] sq that(1) by simp
  qed
  show ok': "sleepq_ok s'"
    unfolding sleepq_ok_def
  proof (intro conjI allI ballI impI)
    show "p = p'" if "located s' q p" "located s' q p'" for q p p' using that by (rule place)
    show "distinct (sc_queues s' b)" for b using S(2) by (simp add: chains distinct_removeAll)
    show "SC_HASH (sq_wchan s' q) = b" if "q \<in> set (sc_queues s' b)" for b q
      using that S(3) by (auto simp: chains wchan split: if_splits)
    show "distinct (sq_freeq s' q)" "distinct (sq_blocked s' q)" for q
      using S(4,5) free by (cases "q = sq"; simp add: blocked)+
    show "if chained s' q then length (sq_blocked s' q) = Suc (length (sq_freeq s' q)) else sq_blocked s' q = [] \<and> sq_freeq s' q = []" for q
    proof (cases "q = sq")
      case True
      then show ?thesis using free(3) sq by (auto simp: ch)
    next
      case False
      then show ?thesis using S(6,7) [of q] free(1) by (auto simp: ch blocked)
    qed
    show "q = r" if "chained s' q" "chained s' r" "sq_wchan s' q = sq_wchan s' r" for q r
      using that S(8) by (auto simp: ch wchan)
    show "td_wchan s' t = Some (sq_wchan s' q)" if "t \<in> set (sq_blocked s' q)" for t q
      using that S(9) [of t q] other by (cases "q = sq") (auto simp: blocked tw wchan)
    show "\<exists>q. chained s' q \<and> sq_wchan s' q = v \<and> t \<in> set (sq_blocked s' q)" if v: "td_wchan s' t = Some v" for t v
    proof -
      have t: "t \<notin> R" "td_wchan s t = Some v" using v by (auto simp: tw split: if_splits)
      then obtain q where q: "chained s q" "sq_wchan s q = v" "t \<in> set (sq_blocked s q)" using S(10) by blast
      then have b: "t \<in> set (sq_blocked s' q)" using t by (auto simp: blocked)
      then have "chained s' q" using q(1) by (auto simp: ch)
      then show ?thesis using b q by (intro exI [of _ q]) (simp add: wchan)
    qed
    show "(td_sleepqueue s' t = None) = (td_wchan s' t \<noteq> None)" for t
      using S(11) [of t] own by (cases "t \<in> R") (simp_all add: tw)
  qed
  have sw: "sleepers s w = sq_blocked s sq" using sleepers_chained [OF ok sq(1)] sq(2) by simp
  have "sleepers s' v = ((sleepers s)(w := filter (\<lambda>t. t \<notin> R) (sleepers s w))) v" for v
  proof (rule sleepers_eqI [OF ok'])
    show "sq_blocked s' q = ((sleepers s)(w := filter (\<lambda>t. t \<notin> R) (sleepers s w))) v" if "chained s' q" "sq_wchan s' q = v" for q
      using that sq sw S(8) [of q sq] sleepers_chained [OF ok, of q] by (cases "q = sq") (auto simp: ch wchan blocked)
    show "((sleepers s)(w := filter (\<lambda>t. t \<notin> R) (sleepers s w))) v = []" if h: "\<And>q. chained s' q \<Longrightarrow> sq_wchan s' q \<noteq> v"
    proof (cases "v = w")
      case True
      then show ?thesis using h [of sq] sq by (auto simp: ch wchan sw blocked)
    next
      case False
      then have "sq_wchan s q \<noteq> v" if "chained s q" for q using h [of q] that sq by (cases "q = sq") (auto simp: ch wchan)
      then show ?thesis using sleepers_none [OF ok, of v] False by simp
    qed
  qed
  then show "sleepers s' = (sleepers s)(w := filter (\<lambda>t. t \<notin> R) (sleepers s w))" by (rule ext)
qed

text \<open>A queue object is in one place; the thread that leaves had none.\<close>

lemma leaving_place:
  assumes ok: "sleepq_ok s" and sq: "chained s sq" and t: "t \<in> set (sq_blocked s sq)"
  shows "td_sleepqueue s t = None" and "located s sq p \<longleftrightarrow> p = InChain (SC_HASH (sq_wchan s sq))"
    and "q \<in> set (sq_freeq s sq) \<Longrightarrow> located s q p \<longleftrightarrow> p = FreeIn sq"
proof -
  show "td_sleepqueue s t = None" using sok_own [OF ok, of t] sok_blocked [OF ok t] by simp
  show "located s sq p \<longleftrightarrow> p = InChain (SC_HASH (sq_wchan s sq))"
    using sok_place [OF ok, of sq p "InChain (SC_HASH (sq_wchan s sq))"] sq by (auto simp: chained_def)
  show "located s q p \<longleftrightarrow> p = FreeIn sq" if "q \<in> set (sq_freeq s sq)"
    using sok_place [OF ok, of q p "FreeIn sq"] that by auto
qed

lemma removeAll_filter: "removeAll t xs = filter (\<lambda>u. u \<notin> {t}) xs"
  by (induction xs) auto

lemma SleepqRemove_ok:
  assumes ok: "sleepq_ok s" and sq: "chained s sq" "sq_wchan s sq = w" and t: "td \<in> set (sq_blocked s sq)"
  shows "\<exists>s'. SleepqRemove sq td s = Some (removeAll td (sleepers s w) \<noteq> [], s') \<and> sleepq_ok s' \<and>
    sleepers s' = (sleepers s)(w := removeAll td (sleepers s w))"
proof -
  note S = sleepq_okD [OF ok] and P = leaving_place [OF ok sq(1) t]
  have sw: "sleepers s w = sq_blocked s sq" using sleepers_chained [OF ok sq(1)] sq(2) by simp
  have tR: "{td} \<subseteq> set (sq_blocked s sq)" using t by simp
  have nf: "sq \<notin> set (sq_freeq s q)" "td_sleepqueue s u \<noteq> Some sq" for q u
    using P(2) [of "FreeIn q"] P(2) [of "OwnedBy u"] by auto
  show ?thesis
  proof (cases "removeAll td (sq_blocked s sq) = []")
    case True
    let ?s = "s\<lparr>sc_queues := (\<lambda>b. removeAll sq (sc_queues s b)), sq_blocked := (sq_blocked s)(sq := []),
      td_sleepqueue := (td_sleepqueue s)(td := Some sq), td_wchan := (td_wchan s)(td := None)\<rparr>"
    have run: "SleepqRemove sq td s = Some (False, ?s)"
      using True nf(1) by (simp add: SleepqRemove_def unlink_def)
    have "length (removeAll td (sq_blocked s sq)) = length (sq_blocked s sq) - 1"
      using t S(5) by (simp add: distinct_remove1_removeAll [symmetric] length_remove1)
    then have fr: "sq_freeq s sq = []" using True S(6) [OF sq(1)] by simp
    have loc: "located ?s q p \<longleftrightarrow> (if q = sq then p = OwnedBy td else located s q p)" for q p
      using nf P(1) by (cases p) auto
    have "sleepq_ok ?s" "sleepers ?s = (sleepers s)(w := filter (\<lambda>u. u \<notin> {td}) (sleepers s w))"
      using True fr loc S(1)
      by (intro sleepq_leave [OF ok sq tR]; auto simp: fun_eq_iff removeAll_filter split: if_splits)+
    then show ?thesis using run True by (simp add: sw removeAll_filter)
  next
    case False
    then obtain q qs where f: "sq_freeq s sq = q # qs"
      using S(6) [OF sq(1)] t by (cases "sq_freeq s sq") (auto simp: length_Suc_conv)
    let ?s = "s\<lparr>sq_blocked := (sq_blocked s)(sq := removeAll td (sq_blocked s sq)),
      td_sleepqueue := (td_sleepqueue s)(td := Some q), sq_freeq := (sq_freeq s)(sq := qs), td_wchan := (td_wchan s)(td := None)\<rparr>"
    have run: "SleepqRemove sq td s = Some (True, ?s)" using False f by (simp add: SleepqRemove_def)
    have qp: "located s q p \<longleftrightarrow> p = FreeIn sq" for p using P(3) [of q] f by simp
    have qn: "q \<notin> set (sq_freeq s r) \<or> r = sq" "td_sleepqueue s u \<noteq> Some q" "q \<notin> set (sc_queues s b)" "q \<notin> set qs" for r u b
      using qp [of "FreeIn r"] qp [of "OwnedBy u"] qp [of "InChain b"] S(4) [of sq] f by auto
    have loc: "located ?s r p \<longleftrightarrow> (if r = q then p = OwnedBy td else located s r p)" for r p
      using qn P(1) f by (cases p) (auto split: if_splits)
    have len: "length qs = length (removeAll td (sq_blocked s sq)) - 1"
      using t S(5) S(6) [OF sq(1)] f by (simp add: distinct_remove1_removeAll [symmetric] length_remove1)
    have "sleepq_ok ?s" "sleepers ?s = (sleepers s)(w := filter (\<lambda>u. u \<notin> {td}) (sleepers s w))"
      using False f len loc S(1) S(4) [of sq]
      by (intro sleepq_leave [OF ok sq tR]; auto simp: fun_eq_iff removeAll_filter split: if_splits)+
    then show ?thesis using run False by (simp add: sw removeAll_filter)
  qed
qed

lemma map_of_zip_mem:
  "length ts = length qs \<Longrightarrow> distinct ts \<Longrightarrow> map_of (zip ts qs) t = Some q \<longleftrightarrow> (t, q) \<in> set (zip ts qs)"
  by (simp add: map_of_eq_Some_iff)

lemma zip_unique: "distinct qs \<Longrightarrow> (t, q) \<in> set (zip ts qs) \<Longrightarrow> (t', q) \<in> set (zip ts qs) \<Longrightarrow> t = t'"
  by (auto simp: in_set_zip nth_eq_iff_index_eq)

lemma SleepqDrop_ok:
  assumes ok: "sleepq_ok s" and sq: "chained s sq" "sq_wchan s sq = w"
  shows "\<exists>s'. SleepqDrop sq s = Some (sleepers s w, s') \<and> sleepq_ok s' \<and> sleepers s' = (sleepers s)(w := [])"
proof -
  note S = sleepq_okD [OF ok]
  have sw: "sleepers s w = sq_blocked s sq" using sleepers_chained [OF ok sq(1)] sq(2) by simp
  let ?ts = "sq_blocked s sq" and ?qs = "sq # sq_freeq s sq"
  let ?R = "set ?ts"
  obtain td tds where ts: "?ts = td # tds" using S(6) [OF sq(1)] by (cases ?ts) auto
  have len: "length ?ts = length ?qs" using S(6) [OF sq(1)] by simp
  have P: "\<And>t. t \<in> ?R \<Longrightarrow> td_sleepqueue s t = None" "\<And>p. located s sq p \<longleftrightarrow> p = InChain (SC_HASH w)"
    "\<And>q p. q \<in> set (sq_freeq s sq) \<Longrightarrow> located s q p \<longleftrightarrow> p = FreeIn sq"
    using leaving_place [OF ok sq(1)] leaving_place(2,3) [OF ok sq(1), of td] sq(2) ts by simp_all
  have nf: "sq \<notin> set (sq_freeq s q)" "td_sleepqueue s u \<noteq> Some sq" for q u
    using P(2) [of "FreeIn q"] P(2) [of "OwnedBy u"] by auto
  have fq: "q \<notin> set (sq_freeq s r) \<or> r = sq" "td_sleepqueue s u \<noteq> Some q" "q \<notin> set (sc_queues s b)"
    if "q \<in> set (sq_freeq s sq)" for q r u b
    using P(3) [OF that, of "FreeIn r"] P(3) [OF that, of "OwnedBy u"] P(3) [OF that, of "InChain b"] by auto
  define given where "given = map_of (zip ?ts ?qs)"
  have dq: "distinct ?qs" using S(4) [of sq] nf by simp
  have gv: "given t = Some q \<longleftrightarrow> (t, q) \<in> set (zip ?ts ?qs)" for t q
    unfolding given_def using len S(5) by (rule map_of_zip_mem)
  have gR: "given t \<noteq> None \<longleftrightarrow> t \<in> ?R" for t
    unfolding given_def using len by (auto simp: map_of_eq_None_iff [symmetric] dom_def simp flip: not_None_eq)
  then have gN: "given t = None \<longleftrightarrow> t \<notin> ?R" for t by blast
  have gq: "q \<in> set ?qs" if "given t = Some q" for t q using that unfolding gv by (rule set_zip_rightD)
  let ?s = "unlink sq s\<lparr>td_sleepqueue := (\<lambda>t. if given t = None then td_sleepqueue s t else given t),
    td_wchan := (\<lambda>t. if t \<in> ?R then None else td_wchan s t),
    sq_blocked := (sq_blocked s)(sq := []), sq_freeq := (sq_freeq s)(sq := [])\<rparr>"
  have run: "SleepqDrop sq s = Some (?ts, ?s)"
    using len unfolding SleepqDrop_def given_def ts by (simp add: Let_def cong: if_cong)
  have loc: "located ?s q p \<longleftrightarrow> (if q \<in> set ?qs then (\<exists>t. given t = Some q \<and> p = OwnedBy t) else located s q p)" for q p
  proof (cases p)
    case (OwnedBy t)
    show ?thesis
    proof (cases "t \<in> ?R")
      case True
      then show ?thesis using gR [of t] gq [of t q] P(1) [OF True] OwnedBy by auto
    next
      case False
      then have g: "given t = None" using gR by blast
      then show ?thesis using OwnedBy nf(2) [of t] fq(2) [of q t] by auto
    qed
  next
    case (InChain b)
    then show ?thesis using P(2) [of p] fq(3) [of q b] by (auto simp: unlink_def)
  next
    case (FreeIn r)
    then show ?thesis using nf(1) [of r] fq(1) [of q r] by (auto simp: unlink_def)
  qed
  have pl: "p = p'" if "located ?s q p" "located ?s q p'" for q p p'
    using that S(1) [of q p p'] zip_unique [OF dq] unfolding loc by (auto simp: gv split: if_splits)
  have RR: "?R \<subseteq> set (sq_blocked s sq)" by simp
  have "sleepq_ok ?s" "sleepers ?s = (sleepers s)(w := filter (\<lambda>t. t \<notin> ?R) (sleepers s w))"
    by (intro sleepq_leave [OF ok sq RR]; auto simp: gN unlink_def nf pl)+
  then show ?thesis using run by (simp add: sw)
qed

text \<open>The same on addresses, as the condition variables call them.\<close>

lemma sleepq_remove_ok:
  assumes ok: "sleepq_ok s" and t: "td \<in> set (sleepers s w)"
  shows "\<exists>s'. sleepq_remove w td s = Some (removeAll td (sleepers s w) \<noteq> [], s') \<and> sleepq_ok s' \<and>
    sleepers s' = (sleepers s)(w := removeAll td (sleepers s w))"
proof -
  obtain sq where l: "SleepqLookup w s = Some sq" "td \<in> set (sq_blocked s sq)"
    using t by (cases "SleepqLookup w s") (auto simp: sleepers_def)
  then have "chained s sq" "sq_wchan s sq = w" using SleepqLookup_chained [OF ok] by simp_all
  then show ?thesis using SleepqRemove_ok [OF ok _ _ l(2)] l(1) by (simp add: sleepq_remove_def)
qed

lemma sleepq_drop_ok:
  assumes ok: "sleepq_ok s"
  shows "\<exists>s'. sleepq_drop w s = Some (sleepers s w, s') \<and> sleepq_ok s' \<and> sleepers s' = (sleepers s)(w := [])"
proof (cases "SleepqLookup w s")
  case None
  then have "sleepers s w = []" by (simp add: sleepers_def)
  then show ?thesis using None ok by (simp add: sleepq_drop_def fun_upd_idem)
next
  case (Some sq)
  then have "chained s sq" "sq_wchan s sq = w" using SleepqLookup_chained [OF ok] by simp_all
  then show ?thesis using SleepqDrop_ok [OF ok] Some by (simp add: sleepq_drop_def)
qed

lemma sleepers_distinct: "sleepq_ok s \<Longrightarrow> distinct (sleepers s w)"
  using sok_distinct(2) by (auto simp: sleepers_def split: option.splits)

text \<open>Before any thread waits, each has its own queue object.\<close>

definition sleepq_init :: sleepq where
  "sleepq_init = \<lparr>sc_queues = \<lambda>_. [], sq_blocked = \<lambda>_. [], sq_freeq = \<lambda>_. [], sq_wchan = \<lambda>_. 0,
     td_sleepqueue = Some, td_wchan = \<lambda>_. None\<rparr>"

lemma sleepq_init_ok: "sleepq_ok sleepq_init" "sleepers sleepq_init w = []"
proof -
  have "located sleepq_init q p \<longleftrightarrow> p = OwnedBy q" for q p by (cases p) (auto simp: sleepq_init_def)
  then show "sleepq_ok sleepq_init"
    unfolding sleepq_ok_def by (simp add: chained_def) (simp add: sleepq_init_def)
  show "sleepers sleepq_init w = []" by (simp add: sleepers_def SleepqLookup_def sleepq_init_def)
qed

subsection \<open>The interface\<close>

text \<open>
  What a condition variable relies on: threads wait on one address at a time, joining and leaving change
  only the waiting lists, and the flag that leaving returns says whether threads are still waiting.
\<close>

locale wait_queues =
  fixes inv :: "'s \<Rightarrow> bool" and waiting :: "'s \<Rightarrow> wchan \<Rightarrow> tid list" and asleep :: "'s \<Rightarrow> tid \<Rightarrow> wchan option"
    and add :: "wchan \<Rightarrow> tid \<Rightarrow> 's \<Rightarrow> 's option"
    and remove :: "wchan \<Rightarrow> tid \<Rightarrow> 's \<Rightarrow> (bool \<times> 's) option"
    and drop_all :: "wchan \<Rightarrow> 's \<Rightarrow> (tid list \<times> 's) option"
  assumes mem: "inv s \<Longrightarrow> t \<in> set (waiting s w) \<longleftrightarrow> asleep s t = Some w"
    and dist: "inv s \<Longrightarrow> distinct (waiting s w)"
    and add_ok: "inv s \<Longrightarrow> asleep s t = None \<Longrightarrow>
      \<exists>s'. add w t s = Some s' \<and> inv s' \<and> waiting s' = (waiting s)(w := t # waiting s w)"
    and remove_ok: "inv s \<Longrightarrow> t \<in> set (waiting s w) \<Longrightarrow>
      \<exists>s'. remove w t s = Some (removeAll t (waiting s w) \<noteq> [], s') \<and> inv s' \<and>
        waiting s' = (waiting s)(w := removeAll t (waiting s w))"
    and drop_ok: "inv s \<Longrightarrow> \<exists>s'. drop_all w s = Some (waiting s w, s') \<and> inv s' \<and> waiting s' = (waiting s)(w := [])"
begin

lemma asleep_iff:
  assumes "inv s" "inv s'" and "\<And>v. t \<in> set (waiting s' v) \<longleftrightarrow> t \<in> set (waiting s v)"
  shows "asleep s' t = asleep s t"
  using assms mem [OF assms(1), of t] mem [OF assms(2), of t] by (metis not_Some_eq)

lemma add_asleep:
  assumes "inv s" and "asleep s t = None" and "add w t s = Some s'"
  shows "inv s'" and "asleep s' = (asleep s)(t := Some w)" and "waiting s' = (waiting s)(w := t # waiting s w)"
proof -
  obtain inv: "inv s'" and w: "waiting s' = (waiting s)(w := t # waiting s w)" using add_ok [OF assms(1,2), of w] assms(3) by auto
  show "inv s'" "waiting s' = (waiting s)(w := t # waiting s w)" by fact+
  have "asleep s' u = ((asleep s)(t := Some w)) u" for u
  proof (cases "u = t")
    case True
    have "t \<in> set (waiting s' w)" by (simp add: w)
    then show ?thesis using mem [OF inv] True by simp
  next
    case False
    then have "asleep s' u = asleep s u" by (intro asleep_iff [OF assms(1) inv]) (simp add: w)
    then show ?thesis using False by simp
  qed
  then show "asleep s' = (asleep s)(t := Some w)" by (rule ext)
qed

lemma remove_asleep:
  assumes "inv s" and "asleep s t = Some w" and "remove w t s = Some (r, s')"
  shows "inv s'" and "asleep s' = (asleep s)(t := None)" and "r = (removeAll t (waiting s w) \<noteq> [])"
    and "waiting s' = (waiting s)(w := removeAll t (waiting s w))"
proof -
  have t: "t \<in> set (waiting s w)" using mem [OF assms(1)] assms(2) by simp
  obtain inv: "inv s'" and r: "r = (removeAll t (waiting s w) \<noteq> [])" and w: "waiting s' = (waiting s)(w := removeAll t (waiting s w))"
    using remove_ok [OF assms(1) t] assms(3) by auto
  show "inv s'" "r = (removeAll t (waiting s w) \<noteq> [])" "waiting s' = (waiting s)(w := removeAll t (waiting s w))" by fact+
  have "asleep s' u = ((asleep s)(t := None)) u" for u
  proof (cases "u = t")
    case True
    have "t \<notin> set (waiting s' v)" for v using mem [OF assms(1), of t v] assms(2) by (auto simp: w)
    then show ?thesis using mem [OF inv] True by (metis fun_upd_same not_Some_eq)
  next
    case False
    then have "asleep s' u = asleep s u" by (intro asleep_iff [OF assms(1) inv]) (simp add: w)
    then show ?thesis using False by simp
  qed
  then show "asleep s' = (asleep s)(t := None)" by (rule ext)
qed

lemma drop_asleep:
  assumes "inv s" and "drop_all w s = Some (ts, s')"
  shows "inv s'" and "ts = waiting s w" and "asleep s' = (\<lambda>u. if asleep s u = Some w then None else asleep s u)"
    and "waiting s' = (waiting s)(w := [])"
proof -
  obtain inv: "inv s'" and ts: "ts = waiting s w" and w: "waiting s' = (waiting s)(w := [])"
    using drop_ok [OF assms(1), of w] assms(2) by auto
  show "inv s'" "ts = waiting s w" "waiting s' = (waiting s)(w := [])" by fact+
  have "asleep s' u = (if asleep s u = Some w then None else asleep s u)" for u
  proof (cases "asleep s u = Some w")
    case True
    have "u \<notin> set (waiting s' v)" for v using mem [OF assms(1), of u v] True by (auto simp: w)
    then show ?thesis using mem [OF inv] True by (metis not_Some_eq)
  next
    case False
    then have "u \<notin> set (waiting s w)" using mem [OF assms(1)] by simp
    then have "asleep s' u = asleep s u" by (intro asleep_iff [OF assms(1) inv]) (simp add: w)
    then show ?thesis using False by simp
  qed
  then show "asleep s' = (\<lambda>u. if asleep s u = Some w then None else asleep s u)" by (rule ext)
qed

end

interpretation wq: wait_queues sleepq_ok sleepers td_wchan SleepqAdd sleepq_remove sleepq_drop
  by unfold_locales (simp_all add: sleepers_mem sleepers_distinct SleepqAdd_ok sleepq_remove_ok sleepq_drop_ok)

end
