(* ===== verification/Orbit_Cond.thy ===== *)
theory Orbit_Cond
  imports Orbit_Mutex Orbit_Sleepq
begin

text \<open>
  Condition variables (\<^verbatim>\<open>src/core/libraries/kernel/threads/condvar.cpp\<close>, with the wake-up half of
  \<^verbatim>\<open>pthread.h\<close>).  A waiter queues itself on the sleep queue of the condition variable, gives the mutex up
  and sleeps on a binary semaphore of its own; a signaller takes it off the queue and releases that
  semaphore, at once or, when it owns the waiter's mutex, as part of its own unlock.  \<open>cond_next\<close> is one
  access of one thread, over the mutexes of \<open>Orbit_Mutex\<close> and the queues of \<open>Orbit_Sleepq\<close>;
  \<open>cond_reach\<close> interleaves the threads.
\<close>

subsection \<open>Creation, destruction and attributes\<close>

definition ClockRealtime :: nat where "ClockRealtime = 0"
definition ClockVirtual :: nat where "ClockVirtual = 1"
definition ClockProf :: nat where "ClockProf = 2"
definition ClockMonotonic :: nat where "ClockMonotonic = 4"

record PthreadCondAttr =
  ca_pshared :: s32
  ca_clockid :: nat

definition PthreadCondattrDefault :: PthreadCondAttr where
  "PthreadCondattrDefault = \<lparr>ca_pshared = 0, ca_clockid = ClockRealtime\<rparr>"

record PthreadCond =
  cv_user_waiters :: bool
  cv_clock_id :: nat

record cond_world =
  cw_var :: "nat \<Rightarrow> nat"
  cw_heap :: "nat \<Rightarrow> PthreadCond option"

definition THR_COND_INITIALIZER :: nat where "THR_COND_INITIALIZER = 0"
definition THR_COND_DESTROYED :: nat where "THR_COND_DESTROYED = 1"

definition CondInit :: "nat option \<Rightarrow> nat \<Rightarrow> PthreadCondAttr option \<Rightarrow> cond_world \<Rightarrow> s32 \<times> cond_world" where
  "CondInit new cond cond_attr w =
     (case new of
        None \<Rightarrow> (POSIX_ENOMEM, w)
      | Some p \<Rightarrow>
          (0, w\<lparr>cw_var := (cw_var w)(cond := p),
                cw_heap := (cw_heap w)(p \<mapsto> \<lparr>cv_user_waiters = False,
                  cv_clock_id = (case cond_attr of None \<Rightarrow> ClockRealtime | Some a \<Rightarrow> ca_clockid a)\<rparr>)\<rparr>))"

definition CondInitStatic :: "nat option \<Rightarrow> nat \<Rightarrow> cond_world \<Rightarrow> s32 \<times> cond_world" where
  "CondInitStatic new cond w = (if cw_var w cond = 0 then CondInit new cond None w else (0, w))"

definition CHECK_AND_INIT_COND :: "nat option \<Rightarrow> nat \<Rightarrow> cond_world \<Rightarrow> s32 \<times> cond_world" where
  "CHECK_AND_INIT_COND new cond w =
     (if cw_var w cond \<le> THR_COND_DESTROYED then
        if cw_var w cond = THR_COND_INITIALIZER then CondInitStatic new cond w else (POSIX_EINVAL, w)
      else (0, w))"

definition posix_pthread_cond_init :: "nat option \<Rightarrow> nat \<Rightarrow> PthreadCondAttr option \<Rightarrow> cond_world \<Rightarrow> s32 \<times> cond_world" where
  "posix_pthread_cond_init new cond cond_attr w = CondInit new cond cond_attr (w\<lparr>cw_var := (cw_var w)(cond := 0)\<rparr>)"

definition posix_pthread_cond_destroy :: "nat \<Rightarrow> cond_world \<Rightarrow> s32 \<times> cond_world" where
  "posix_pthread_cond_destroy cond w =
     (if cw_var w cond = THR_COND_INITIALIZER then (0, w)
      else if cw_var w cond = THR_COND_DESTROYED then (POSIX_EINVAL, w)
      else (0, w\<lparr>cw_var := (cw_var w)(cond := THR_COND_DESTROYED), cw_heap := (cw_heap w)(cw_var w cond := None)\<rparr>))"

text \<open>An attribute variable is null or owns its attributes.\<close>

type_synonym condattr_cells = "nat \<Rightarrow> PthreadCondAttr option"

definition posix_pthread_condattr_init :: "bool \<Rightarrow> nat \<Rightarrow> condattr_cells \<Rightarrow> s32 \<times> condattr_cells" where
  "posix_pthread_condattr_init alloc a cells = (if alloc then (0, cells(a \<mapsto> PthreadCondattrDefault)) else (POSIX_ENOMEM, cells))"

definition posix_pthread_condattr_destroy :: "nat option \<Rightarrow> condattr_cells \<Rightarrow> s32 \<times> condattr_cells" where
  "posix_pthread_condattr_destroy attr cells =
     (case deref cells attr of None \<Rightarrow> (POSIX_EINVAL, cells) | Some (a, x) \<Rightarrow> (0, cells(a := None)))"

definition posix_pthread_condattr_getclock :: "nat option \<Rightarrow> condattr_cells \<Rightarrow> s32 \<times> nat option" where
  "posix_pthread_condattr_getclock attr cells =
     (case deref cells attr of None \<Rightarrow> (POSIX_EINVAL, None) | Some (a, x) \<Rightarrow> (0, Some (ca_clockid x)))"

definition posix_pthread_condattr_setclock :: "nat option \<Rightarrow> nat \<Rightarrow> condattr_cells \<Rightarrow> s32 \<times> condattr_cells" where
  "posix_pthread_condattr_setclock attr clock_id cells =
     (case deref cells attr of
        None \<Rightarrow> (POSIX_EINVAL, cells)
      | Some (a, x) \<Rightarrow>
          if clock_id \<noteq> ClockRealtime \<and> clock_id \<noteq> ClockVirtual \<and> clock_id \<noteq> ClockProf \<and> clock_id \<noteq> ClockMonotonic
          then (POSIX_EINVAL, cells)
          else (0, cells(a \<mapsto> x\<lparr>ca_clockid := clock_id\<rparr>)))"

definition posix_pthread_condattr_getpshared :: "nat option \<Rightarrow> condattr_cells \<Rightarrow> s32 \<times> s32 option" where
  "posix_pthread_condattr_getpshared attr cells =
     (case deref cells attr of None \<Rightarrow> (POSIX_EINVAL, None) | Some (a, x) \<Rightarrow> (0, Some 0))"

definition posix_pthread_condattr_setpshared :: "nat option \<Rightarrow> s32 \<Rightarrow> condattr_cells \<Rightarrow> s32" where
  "posix_pthread_condattr_setpshared attr pshared cells =
     (case deref cells attr of None \<Rightarrow> POSIX_EINVAL | Some (a, x) \<Rightarrow> if pshared \<noteq> 0 then POSIX_EINVAL else 0)"

subsection \<open>State of a run\<close>

text \<open>
  What follows a mutex call: nothing (a call of the program), the rest of \<^verbatim>\<open>Wait\<close> after \<^verbatim>\<open>CvUnlock\<close>, or
  its return after \<^verbatim>\<open>CvLock\<close>: with 0 when the thread was cancelled (\<open>None\<close>), else with its own code or that of the lock.
\<close>

datatype mutex_cont = KCall | KUnlocked nat deadline | KLocked "s32 option"

text \<open>
  The places inside the calls, in the order of the code.  \<open>c\<close> is the condition variable, \<open>m\<close> the mutex,
  \<open>recurse\<close> the saved count, and the boolean says whether the sleep timed out.  \<open>SPicked\<close> and \<open>BDropped\<close>
  carry the threads taken off the queue, \<open>SFreed\<close> and \<open>BFreed\<close> those whose semaphores are still to release.
\<close>

datatype cond_pc =
  CIdle
| CReturned s32
| CCrashed
| CMutex nat mutex_pc mutex_cont
| WEnter nat nat deadline
| WQueue nat nat deadline
| WUnlock nat nat deadline
| WAdd nat nat deadline s32
| WClear nat nat deadline s32
| WFree nat nat deadline s32
| WWake nat nat deadline s32
| WSleep nat nat deadline s32
| WRelock nat nat s32 bool
| WDecide nat nat s32 bool
| WLeave nat nat s32 "s32 option"
| SEnter nat
| SPick nat
| SPicked nat tid
| SFlush nat tid
| SFree nat "tid option"
| SFreed tid
| BEnter nat
| BDrop nat
| BDropped nat "tid list" "tid list"
| BFlush nat "tid list" "tid list"
| BFlushDirect nat "tid list" "tid list"
| BFreed "tid list"

text \<open>
  \<open>td_sema\<close> is \<^verbatim>\<open>wake_sema\<close>, a semaphore with maximum 1; \<open>td_defer\<close> holds the owners of the semaphores in
  \<^verbatim>\<open>defer_waiters\<close>, of which \<^verbatim>\<open>nwaiter_defer\<close> is the number; \<open>td_cancel\<close> is \<^verbatim>\<open>ShouldCancel()\<close>; \<open>cs_lock\<close> is
  the holder of each \<^verbatim>\<open>sc_lock\<close>.
\<close>

record cond_state =
  cs_sleepq :: sleepq
  cs_lock :: "nat \<Rightarrow> tid option"
  cs_mutex :: "nat \<Rightarrow> PthreadMutex"
  cs_waiters :: "nat \<Rightarrow> bool"
  td_sema :: "tid \<Rightarrow> bool"
  td_mutex_obj :: "tid \<Rightarrow> nat option"
  td_will_sleep :: "tid \<Rightarrow> bool"
  td_defer :: "tid \<Rightarrow> tid list"
  td_cancel :: "tid \<Rightarrow> bool"
  cs_pc :: "tid \<Rightarrow> cond_pc"

definition MaxDeferWaiters :: nat where "MaxDeferWaiters = 50"

subsection \<open>Accesses\<close>

definition goto :: "tid \<Rightarrow> cond_pc \<Rightarrow> cond_state \<Rightarrow> cond_state" where
  "goto t pc s = s\<lparr>cs_pc := (cs_pc s)(t := pc)\<rparr>"

text \<open>\<^verbatim>\<open>SleepqLock\<close> spins until the lock of the chain is free.\<close>

definition queue_lock :: "tid \<Rightarrow> nat \<Rightarrow> cond_pc \<Rightarrow> cond_state \<Rightarrow> cond_state option" where
  "queue_lock t c pc s =
     (if cs_lock s (SC_HASH c) \<noteq> None then None
      else Some (goto t pc (s\<lparr>cs_lock := (cs_lock s)(SC_HASH c := Some t)\<rparr>)))"

definition queue_unlock :: "tid \<Rightarrow> nat \<Rightarrow> cond_pc \<Rightarrow> cond_state \<Rightarrow> cond_state option" where
  "queue_unlock t c pc s = Some (goto t pc (s\<lparr>cs_lock := (cs_lock s)(SC_HASH c := None)\<rparr>))"

text \<open>One turn of \<^verbatim>\<open>WakeAll\<close>: release the next semaphore, or go on when there is none left.\<close>

definition wake_next :: "tid \<Rightarrow> cond_pc \<Rightarrow> cond_state \<Rightarrow> cond_state option" where
  "wake_next t pc s =
     (case td_defer s t of
        [] \<Rightarrow> Some (goto t pc s)
      | u # us \<Rightarrow> Some (s\<lparr>td_sema := (td_sema s)(u := True), td_defer := (td_defer s)(t := us)\<rparr>))"

text \<open>The waker owns the mutex of the thread it wakes, so it leaves the release to its own unlock.\<close>

definition defer_wake :: "tid \<Rightarrow> tid \<Rightarrow> nat \<Rightarrow> cond_state \<Rightarrow> cond_state" where
  "defer_wake t td m s =
     s\<lparr>td_defer := (td_defer s)(t := td_defer s t @ [td]),
       cs_mutex := (cs_mutex s)(m := (cs_mutex s m)\<lparr>mx_flags := mx_flags (cs_mutex s m) OR MutexFlagsDeferred\<rparr>)\<rparr>"

definition mutex_done :: "nat \<Rightarrow> mutex_pc \<Rightarrow> mutex_cont \<Rightarrow> cond_pc" where
  "mutex_done m mpc k =
     (case (mpc, k) of
        (MReturned ret, KCall) \<Rightarrow> CReturned ret
      | (MReturned ret, KLocked error) \<Rightarrow> CReturned (case error of None \<Rightarrow> 0 | Some e \<Rightarrow> if e = 0 then ret else e)
      | (CvWaiting recurse, KUnlocked c abstime) \<Rightarrow> WAdd c m abstime recurse
      | (MAborted, _) \<Rightarrow> CCrashed
      | _ \<Rightarrow> CMutex m mpc k)"

text \<open>Leaving the queue by one's own decision.\<close>

definition leave_queue :: "tid \<Rightarrow> nat \<Rightarrow> cond_pc \<Rightarrow> cond_state \<Rightarrow> cond_state" where
  "leave_queue t c pc s =
     (case sleepq_remove c t (cs_sleepq s) of
        None \<Rightarrow> goto t CCrashed s
      | Some (rest, q) \<Rightarrow> goto t pc (s\<lparr>cs_sleepq := q, cs_waiters := (cs_waiters s)(c := rest)\<rparr>))"

text \<open>
  One access of thread \<open>t\<close>.  \<open>late\<close> resolves the timed waits: the deadline passes here.  \<open>None\<close> is a thread
  that is blocked or between calls.
\<close>

fun cond_access :: "tid \<Rightarrow> bool \<Rightarrow> cond_pc \<Rightarrow> cond_state \<Rightarrow> cond_state option" where
  "cond_access t late (CMutex m mpc k) s =
     (case mpc of
        UnlockWake deferred cv \<Rightarrow>
          if \<not> td_will_sleep s t \<and> deferred \<and> td_defer s t \<noteq> [] then wake_next t (CMutex m mpc k) s
          else map_option (\<lambda>(mx, mpc'). goto t (mutex_done m mpc' k) (s\<lparr>cs_mutex := (cs_mutex s)(m := mx)\<rparr>))
                 (mutex_next t late (cs_mutex s m) mpc)
      | _ \<Rightarrow> map_option (\<lambda>(mx, mpc'). goto t (mutex_done m mpc' k) (s\<lparr>cs_mutex := (cs_mutex s)(m := mx)\<rparr>))
               (mutex_next t late (cs_mutex s m) mpc))"
| "cond_access t late (WEnter c m abstime) s =
     Some (let error = IsOwned t m (\<lambda>a. Some (cs_mutex s a)) in
       goto t (if error \<noteq> 0 then CReturned error
               else if td_wchan (cs_sleepq s) t \<noteq> None then CCrashed else WQueue c m abstime) s)"
| "cond_access t late (WQueue c m abstime) s =
     map_option (\<lambda>s'. s'\<lparr>cs_waiters := (cs_waiters s)(c := True), td_will_sleep := (td_will_sleep s)(t := True)\<rparr>)
       (queue_lock t c (WUnlock c m abstime) s)"
| "cond_access t late (WUnlock c m abstime) s =
     (case CvUnlock (cs_mutex s m) of
        (mx, mpc) \<Rightarrow> Some (goto t (CMutex m mpc (KUnlocked c abstime)) (s\<lparr>cs_mutex := (cs_mutex s)(m := mx)\<rparr>)))"
| "cond_access t late (WAdd c m abstime recurse) s =
     Some (case SleepqAdd c t (cs_sleepq s) of
             None \<Rightarrow> goto t CCrashed s
           | Some q \<Rightarrow> goto t (WClear c m abstime recurse)
                         (s\<lparr>cs_sleepq := q, td_mutex_obj := (td_mutex_obj s)(t := Some m)\<rparr>))"
| "cond_access t late (WClear c m abstime recurse) s =
     Some (goto t (WFree c m abstime recurse) (s\<lparr>td_sema := (td_sema s)(t := False)\<rparr>))"
| "cond_access t late (WFree c m abstime recurse) s = queue_unlock t c (WWake c m abstime recurse) s"
| "cond_access t late (WWake c m abstime recurse) s =
     wake_next t (WSleep c m abstime recurse) (s\<lparr>td_will_sleep := (td_will_sleep s)(t := False)\<rparr>)"
| "cond_access t late (WSleep c m abstime recurse) s =
     (if late then if abstime = NoTimeout then None else Some (goto t (WRelock c m recurse True) s)
      else if td_sema s t then Some (goto t (WRelock c m recurse False) (s\<lparr>td_sema := (td_sema s)(t := False)\<rparr>))
      else None)"
| "cond_access t late (WRelock c m recurse timed_out) s = queue_lock t c (WDecide c m recurse timed_out) s"
| "cond_access t late (WDecide c m recurse timed_out) s =
     Some (if td_wchan (cs_sleepq s) t = None then goto t (WLeave c m recurse (Some 0)) s
           else if td_cancel s t then leave_queue t c (WLeave c m recurse None) s
           else if timed_out then leave_queue t c (WLeave c m recurse (Some POSIX_ETIMEDOUT)) s
           else goto t CCrashed s)"
| "cond_access t late (WLeave c m recurse error) s =
     map_option (\<lambda>s'. s'\<lparr>td_mutex_obj := (td_mutex_obj s)(t := None)\<rparr>)
       (queue_unlock t c (CMutex m (CvLock recurse) (KLocked error)) s)"
| "cond_access t late (SEnter c) s = queue_lock t c (SPick c) s"
| "cond_access t late (SPick c) s =
     (case SleepqLookup c (cs_sleepq s) of
        None \<Rightarrow> Some (goto t (SFree c None) s)
      | Some sq \<Rightarrow>
          Some (case sq_blocked (cs_sleepq s) sq of
                  [] \<Rightarrow> goto t CCrashed s
                | td # _ \<Rightarrow>
                    (case SleepqRemove sq td (cs_sleepq s) of
                       None \<Rightarrow> goto t CCrashed s
                     | Some (rest, q) \<Rightarrow>
                         goto t (SPicked c td) (s\<lparr>cs_sleepq := q, cs_waiters := (cs_waiters s)(c := rest)\<rparr>))))"
| "cond_access t late (SPicked c td) s =
     Some (case td_mutex_obj s td of
             None \<Rightarrow> goto t CCrashed s
           | Some m \<Rightarrow>
               if mx_owner (cs_mutex s m) = Some t then
                 if length (td_defer s t) \<ge> MaxDeferWaiters then goto t (SFlush c td) s
                 else goto t (SFree c None) (defer_wake t td m s)
               else goto t (SFree c (Some td)) s)"
| "cond_access t late (SFlush c td) s = wake_next t (SPicked c td) s"
| "cond_access t late (SFree c waddr) s =
     queue_unlock t c (case waddr of None \<Rightarrow> CReturned 0 | Some td \<Rightarrow> SFreed td) s"
| "cond_access t late (SFreed td) s = Some (goto t (CReturned 0) (s\<lparr>td_sema := (td_sema s)(td := True)\<rparr>))"
| "cond_access t late (BEnter c) s = queue_lock t c (BDrop c) s"
| "cond_access t late (BDrop c) s =
     (case sleepq_drop c (cs_sleepq s) of
        None \<Rightarrow> Some (goto t CCrashed s)
      | Some (tds, q) \<Rightarrow>
          Some (goto t (BDropped c tds [])
            (s\<lparr>cs_sleepq := q,
               cs_waiters := (if SleepqLookup c (cs_sleepq s) = None then cs_waiters s else (cs_waiters s)(c := False))\<rparr>)))"
| "cond_access t late (BDropped c tds waddrs) s =
     (case tds of
        [] \<Rightarrow> queue_unlock t c (BFreed waddrs) s
      | td # rest \<Rightarrow>
          Some (case td_mutex_obj s td of
                  None \<Rightarrow> goto t CCrashed s
                | Some m \<Rightarrow>
                    if mx_owner (cs_mutex s m) = Some t then
                      if length (td_defer s t) \<ge> MaxDeferWaiters then goto t (BFlush c tds waddrs) s
                      else goto t (BDropped c rest waddrs) (defer_wake t td m s)
                    else if length waddrs \<ge> MaxDeferWaiters then goto t (BFlushDirect c tds waddrs) s
                    else goto t (BDropped c rest (waddrs @ [td])) s))"
| "cond_access t late (BFlush c tds waddrs) s = wake_next t (BDropped c tds waddrs) s"
| "cond_access t late (BFlushDirect c tds waddrs) s =
     Some (case waddrs of
             [] \<Rightarrow> goto t (BDropped c tds []) s
           | u # us \<Rightarrow> goto t (BFlushDirect c tds us) (s\<lparr>td_sema := (td_sema s)(u := True)\<rparr>))"
| "cond_access t late (BFreed waddrs) s =
     Some (case waddrs of
             [] \<Rightarrow> goto t (CReturned 0) s
           | u # us \<Rightarrow> goto t (BFreed us) (s\<lparr>td_sema := (td_sema s)(u := True)\<rparr>))"
| "cond_access t late _ s = None"

subsection \<open>Interleavings\<close>

text \<open>The parameter check of \<^verbatim>\<open>posix_pthread_cond_timedwait\<close>: \<open>Some\<close> is the code it returns at once.\<close>

definition timedwait_check :: "OrbisKernelTimespec option \<Rightarrow> s32 option" where
  "timedwait_check abstime =
     (case abstime of
        None \<Rightarrow> Some POSIX_EINVAL
      | Some ts \<Rightarrow> if tv_sec ts < 0 \<or> bad_nsec ts then Some POSIX_EINVAL else None)"

text \<open>The calls a thread can start when it is in none.\<close>

definition cond_calls :: "cond_pc set" where
  "cond_calls =
     {CMutex m (LockEnter abstime None) KCall | m abstime. True} \<union> {CMutex m TryEnter KCall | m. True} \<union>
     {CMutex m (UnlockEnter None) KCall | m. True} \<union>
     {WEnter c m abstime | c m abstime. \<forall>ts. abstime = AbsTime ts \<longrightarrow> timedwait_check (Some ts) = None} \<union>
     range SEnter \<union> range BEnter"

definition between_calls :: "cond_pc \<Rightarrow> bool" where
  "between_calls pc \<longleftrightarrow> pc = CIdle \<or> (\<exists>ret. pc = CReturned ret)"

inductive cond_reach :: "cond_state \<Rightarrow> cond_state \<Rightarrow> bool" for s0 where
  start: "cond_reach s0 s0"
| call: "cond_reach s0 s \<Longrightarrow> between_calls (cs_pc s t) \<Longrightarrow> pc \<in> cond_calls \<Longrightarrow> cond_reach s0 (goto t pc s)"
| cancel: "cond_reach s0 s \<Longrightarrow> cond_reach s0 (s\<lparr>td_cancel := (td_cancel s)(t := b)\<rparr>)"
| access: "cond_reach s0 s \<Longrightarrow> cond_access t late (cs_pc s t) s = Some s' \<Longrightarrow> cond_reach s0 s'"

definition cond_init :: "(nat \<Rightarrow> PthreadMutex) \<Rightarrow> cond_state" where
  "cond_init mutexes =
     \<lparr>cs_sleepq = sleepq_init, cs_lock = \<lambda>_. None, cs_mutex = mutexes, cs_waiters = \<lambda>_. False, td_sema = \<lambda>_. False,
      td_mutex_obj = \<lambda>_. None, td_will_sleep = \<lambda>_. False, td_defer = \<lambda>_. [], td_cancel = \<lambda>_. False, cs_pc = \<lambda>_. CIdle\<rparr>"

end
