(* ===== verification/Orbit_CondInv.thy ===== *)
theory Orbit_CondInv
  imports Orbit_Cond
begin

text \<open>
  The invariants of condition variables: who holds the locks of the sleep queues, that the mutexes keep
  their invariant, that a queued thread is inside its wait, and that a thread taken off the queue while it
  sleeps has its wake-up either done or in the hands of the thread that took it off.
\<close>

subsection \<open>Where a thread is\<close>

fun queue_held :: "cond_pc \<Rightarrow> nat option" where
  "queue_held (CMutex m mpc (KUnlocked c abstime)) = Some (SC_HASH c)"
| "queue_held (WUnlock c m abstime) = Some (SC_HASH c)"
| "queue_held (WAdd c m abstime r) = Some (SC_HASH c)"
| "queue_held (WClear c m abstime r) = Some (SC_HASH c)"
| "queue_held (WFree c m abstime r) = Some (SC_HASH c)"
| "queue_held (WDecide c m r l) = Some (SC_HASH c)"
| "queue_held (WLeave c m r e) = Some (SC_HASH c)"
| "queue_held (SPick c) = Some (SC_HASH c)"
| "queue_held (SPicked c td) = Some (SC_HASH c)"
| "queue_held (SFlush c td) = Some (SC_HASH c)"
| "queue_held (SFree c w) = Some (SC_HASH c)"
| "queue_held (BDrop c) = Some (SC_HASH c)"
| "queue_held (BDropped c tds ws) = Some (SC_HASH c)"
| "queue_held (BFlush c tds ws) = Some (SC_HASH c)"
| "queue_held (BFlushDirect c tds ws) = Some (SC_HASH c)"
| "queue_held _ = None"

text \<open>The part of a wait in which the thread can be on the queue.\<close>

fun queued_at :: "cond_pc \<Rightarrow> (nat \<times> nat) option" where
  "queued_at (WClear c m abstime r) = Some (c, m)"
| "queued_at (WFree c m abstime r) = Some (c, m)"
| "queued_at (WWake c m abstime r) = Some (c, m)"
| "queued_at (WSleep c m abstime r) = Some (c, m)"
| "queued_at (WRelock c m r l) = Some (c, m)"
| "queued_at (WDecide c m r l) = Some (c, m)"
| "queued_at _ = None"

text \<open>It has just queued itself, and holds the lock.\<close>

fun just_queued :: "cond_pc \<Rightarrow> bool" where
  "just_queued (WClear c m abstime r) = True"
| "just_queued (WFree c m abstime r) = True"
| "just_queued _ = False"

fun sleeping :: "cond_pc \<Rightarrow> bool" where
  "sleeping (WWake c m abstime r) = True"
| "sleeping (WSleep c m abstime r) = True"
| "sleeping _ = False"

text \<open>Threads off the queue whose mutex is still to be looked at, and all those still to be woken.\<close>

fun undecided :: "cond_pc \<Rightarrow> tid list" where
  "undecided (SPicked c td) = [td]"
| "undecided (SFlush c td) = [td]"
| "undecided (BDropped c tds ws) = tds"
| "undecided (BFlush c tds ws) = tds"
| "undecided (BFlushDirect c tds ws) = tds"
| "undecided _ = []"

fun in_hand :: "cond_pc \<Rightarrow> tid list" where
  "in_hand (SPicked c td) = [td]"
| "in_hand (SFlush c td) = [td]"
| "in_hand (SFree c (Some td)) = [td]"
| "in_hand (SFreed td) = [td]"
| "in_hand (BDropped c tds ws) = tds @ ws"
| "in_hand (BFlush c tds ws) = tds @ ws"
| "in_hand (BFlushDirect c tds ws) = tds @ ws"
| "in_hand (BFreed ws) = ws"
| "in_hand _ = []"

text \<open>The thread is about to release the semaphores it has deferred.\<close>

fun will_wake :: "cond_pc \<Rightarrow> bool" where
  "will_wake (CMutex m (UnlockRelease deferred cv) k) = deferred"
| "will_wake (CMutex m (UnlockWake deferred cv) k) = deferred"
| "will_wake (WAdd c m abstime r) = True"
| "will_wake (WClear c m abstime r) = True"
| "will_wake (WFree c m abstime r) = True"
| "will_wake (WWake c m abstime r) = True"
| "will_wake _ = False"

fun may_defer_sleep :: "cond_pc \<Rightarrow> bool" where
  "may_defer_sleep (WUnlock c m abstime) = True"
| "may_defer_sleep (CMutex m mpc (KUnlocked c abstime)) = True"
| "may_defer_sleep (WAdd c m abstime r) = True"
| "may_defer_sleep (WClear c m abstime r) = True"
| "may_defer_sleep (WFree c m abstime r) = True"
| "may_defer_sleep (WWake c m abstime r) = True"
| "may_defer_sleep _ = False"

text \<open>Where the thread is in its dealings with the mutex \<open>m\<close>, as \<open>Orbit_Mutex\<close> sees it.\<close>

fun mutex_view :: "nat \<Rightarrow> cond_pc \<Rightarrow> mutex_pc" where
  "mutex_view m (CMutex m' mpc k) = (if m' = m then mpc else MIdle)"
| "mutex_view m (WAdd c m' abstime r) = (if m' = m then CvWaiting r else MIdle)"
| "mutex_view m (WClear c m' abstime r) = (if m' = m then CvWaiting r else MIdle)"
| "mutex_view m (WFree c m' abstime r) = (if m' = m then CvWaiting r else MIdle)"
| "mutex_view m (WWake c m' abstime r) = (if m' = m then CvWaiting r else MIdle)"
| "mutex_view m (WSleep c m' abstime r) = (if m' = m then CvWaiting r else MIdle)"
| "mutex_view m (WRelock c m' r l) = (if m' = m then CvWaiting r else MIdle)"
| "mutex_view m (WDecide c m' r l) = (if m' = m then CvWaiting r else MIdle)"
| "mutex_view m (WLeave c m' r e) = (if m' = m then CvWaiting r else MIdle)"
| "mutex_view m _ = MIdle"

fun owned_in_wait :: "cond_pc \<Rightarrow> nat option" where
  "owned_in_wait (WQueue c m abstime) = Some m"
| "owned_in_wait (WUnlock c m abstime) = Some m"
| "owned_in_wait _ = None"

subsection \<open>The invariants\<close>

abbreviation asleep_on :: "cond_state \<Rightarrow> tid \<Rightarrow> wchan option" where
  "asleep_on s \<equiv> td_wchan (cs_sleepq s)"

definition inv_lock :: "cond_state \<Rightarrow> bool" where
  "inv_lock s \<longleftrightarrow> (\<forall>b t. cs_lock s b = Some t \<longleftrightarrow> queue_held (cs_pc s t) = Some b)"

definition inv_mutex :: "cond_state \<Rightarrow> bool" where
  "inv_mutex s \<longleftrightarrow> (\<forall>m. mutex_ok (cs_mutex s m, \<lambda>t. mutex_view m (cs_pc s t))) \<and>
     (\<forall>t m. owned_in_wait (cs_pc s t) = Some m \<longrightarrow> mx_owner (cs_mutex s m) = Some t)"

definition inv_queue :: "cond_state \<Rightarrow> bool" where
  "inv_queue s \<longleftrightarrow> sleepq_ok (cs_sleepq s) \<and>
     (\<forall>t c. asleep_on s t = Some c \<longrightarrow> (\<exists>m. queued_at (cs_pc s t) = Some (c, m))) \<and>
     (\<forall>t c m. queued_at (cs_pc s t) = Some (c, m) \<longrightarrow> td_mutex_obj s t = Some m) \<and>
     (\<forall>t. just_queued (cs_pc s t) \<longrightarrow> asleep_on s t \<noteq> None) \<and>
     (\<forall>t u. u \<in> set (undecided (cs_pc s t)) \<longrightarrow>
        (\<exists>c m. queued_at (cs_pc s u) = Some (c, m) \<and> queue_held (cs_pc s t) = Some (SC_HASH c)))"

definition wake_pending :: "cond_state \<Rightarrow> tid \<Rightarrow> bool" where
  "wake_pending s t \<longleftrightarrow> (\<exists>a. t \<in> set (td_defer s a) \<or> t \<in> set (in_hand (cs_pc s a)))"

definition inv_wake :: "cond_state \<Rightarrow> bool" where
  "inv_wake s \<longleftrightarrow> (\<forall>t. sleeping (cs_pc s t) \<longrightarrow> asleep_on s t = None \<longrightarrow> td_sema s t \<or> wake_pending s t)"

definition deferred_flag :: "PthreadMutex \<Rightarrow> bool" where
  "deferred_flag m \<longleftrightarrow> mx_flags m AND MutexFlagsDeferred \<noteq> 0"

definition inv_defer :: "cond_state \<Rightarrow> bool" where
  "inv_defer s \<longleftrightarrow>
     (\<forall>t. td_will_sleep s t \<longrightarrow> may_defer_sleep (cs_pc s t)) \<and>
     (\<forall>t. td_defer s t \<noteq> [] \<longrightarrow>
        will_wake (cs_pc s t) \<or> (\<exists>m. mx_owner (cs_mutex s m) = Some t \<and> deferred_flag (cs_mutex s m)))"

text \<open>The unlock inside a wait is a \<^verbatim>\<open>CvUnlock\<close>, which goes on to queue the thread.\<close>

fun cv_unlocking :: "mutex_pc \<Rightarrow> bool" where
  "cv_unlocking (UnlockEnter cv) = (cv \<noteq> None)"
| "cv_unlocking (UnlockRelease deferred cv) = (cv \<noteq> None)"
| "cv_unlocking (UnlockWake deferred cv) = (cv \<noteq> None)"
| "cv_unlocking _ = False"

fun cont_ok :: "cond_pc \<Rightarrow> bool" where
  "cont_ok (CMutex m mpc (KUnlocked c d)) = cv_unlocking mpc"
| "cont_ok _ = True"

definition inv_cont :: "cond_state \<Rightarrow> bool" where
  "inv_cont s \<longleftrightarrow> (\<forall>t. cont_ok (cs_pc s t))"

definition cond_inv :: "cond_state \<Rightarrow> bool" where
  "cond_inv s \<longleftrightarrow> inv_lock s \<and> inv_mutex s \<and> inv_queue s \<and> inv_wake s \<and> inv_cont s \<and> inv_defer s"

definition crashed :: "cond_state \<Rightarrow> bool" where
  "crashed s \<longleftrightarrow> (\<exists>t. cs_pc s t = CCrashed)"

lemma goto_simps [simp]:
  "cs_sleepq (goto t pc s) = cs_sleepq s" "cs_lock (goto t pc s) = cs_lock s" "cs_mutex (goto t pc s) = cs_mutex s"
  "td_sema (goto t pc s) = td_sema s" "td_mutex_obj (goto t pc s) = td_mutex_obj s" "td_will_sleep (goto t pc s) = td_will_sleep s"
  "td_defer (goto t pc s) = td_defer s" "td_cancel (goto t pc s) = td_cancel s" "cs_pc (goto t pc s) = (cs_pc s)(t := pc)"
  by (simp_all add: goto_def)

subsection \<open>The queue locks\<close>

lemma inv_lock_change:
  assumes "inv_lock s" and "cs_pc s' = (cs_pc s)(t := pc)"
    and "cs_lock s' = cs_lock s \<and> queue_held pc = queue_held (cs_pc s t) \<or>
      (\<exists>b. queue_held (cs_pc s t) = None \<and> cs_lock s b = None \<and> cs_lock s' = (cs_lock s)(b := Some t) \<and> queue_held pc = Some b) \<or>
      (\<exists>b. queue_held (cs_pc s t) = Some b \<and> cs_lock s' = (cs_lock s)(b := None) \<and> queue_held pc = None)"
  shows "inv_lock s'"
proof -
  have l: "\<And>b u. cs_lock s b = Some u \<longleftrightarrow> queue_held (cs_pc s u) = Some b" using assms(1) by (simp add: inv_lock_def)
  have "cs_lock s' b = Some u \<longleftrightarrow> queue_held (cs_pc s' u) = Some b" for b u
    using assms(3) l [of b u] l [of b t] by (cases "u = t") (auto simp: assms(2) split: if_splits)
  then show ?thesis by (simp add: inv_lock_def)
qed

lemma crashed_goto [simp]: "crashed (goto t CCrashed s)"
  by (auto simp: crashed_def)

lemma mutex_done_cases:
  "mutex_done m mpc k = CMutex m mpc k \<or> (\<exists>ret. mutex_done m mpc k = CReturned ret \<and> (k = KCall \<or> (\<exists>e. k = KLocked e)) \<and> (\<exists>r. mpc = MReturned r)) \<or>
   (\<exists>c d r. k = KUnlocked c d \<and> mpc = CvWaiting r \<and> mutex_done m mpc k = WAdd c m d r) \<or> mutex_done m mpc k = CCrashed \<and> mpc = MAborted"
  by (cases mpc; cases k) (auto simp: mutex_done_def)

lemma queue_held_done: "mutex_done m mpc k \<noteq> CCrashed \<Longrightarrow> queue_held (mutex_done m mpc k) = queue_held (CMutex m mpc' k)"
  using mutex_done_cases [of m mpc k] by (cases k) auto

lemma CMutex_access:
  assumes "cond_access t late (CMutex m mpc k) s = Some s'"
  shows "(\<exists>cv u us. mpc = UnlockWake True cv \<and> \<not> td_will_sleep s t \<and> td_defer s t = u # us \<and>
      s' = s\<lparr>td_sema := (td_sema s)(u := True), td_defer := (td_defer s)(t := us)\<rparr>) \<or>
    (\<exists>mx mpc'. mutex_next t late (cs_mutex s m) mpc = Some (mx, mpc') \<and>
      (\<forall>deferred cv. mpc = UnlockWake deferred cv \<longrightarrow> td_will_sleep s t \<or> \<not> deferred \<or> td_defer s t = []) \<and>
      s' = goto t (mutex_done m mpc' k) (s\<lparr>cs_mutex := (cs_mutex s)(m := mx)\<rparr>))"
  using assms by (cases mpc) (auto simp: wake_next_def simp del: mutex_next.simps split: if_splits list.splits)

lemma access_lock_stay:
  assumes "cs_pc s' = cs_pc s" and "cs_lock s' = cs_lock s"
  shows "\<exists>pc. cs_pc s' = (cs_pc s)(t := pc) \<and>
     (cs_lock s' = cs_lock s \<and> queue_held pc = queue_held (cs_pc s t) \<or>
      (\<exists>b. queue_held (cs_pc s t) = None \<and> cs_lock s b = None \<and> cs_lock s' = (cs_lock s)(b := Some t) \<and> queue_held pc = Some b) \<or>
      (\<exists>b. queue_held (cs_pc s t) = Some b \<and> cs_lock s' = (cs_lock s)(b := None) \<and> queue_held pc = None))"
  using assms by (intro exI [of _ "cs_pc s t"]) simp

lemma access_shape:
  assumes "cond_access t late (cs_pc s t) s = Some s'" and "\<not> crashed s'"
  shows "\<exists>pc. cs_pc s' = (cs_pc s)(t := pc) \<and>
     (cs_lock s' = cs_lock s \<and> queue_held pc = queue_held (cs_pc s t) \<or>
      (\<exists>b. queue_held (cs_pc s t) = None \<and> cs_lock s b = None \<and> cs_lock s' = (cs_lock s)(b := Some t) \<and> queue_held pc = Some b) \<or>
      (\<exists>b. queue_held (cs_pc s t) = Some b \<and> cs_lock s' = (cs_lock s)(b := None) \<and> queue_held pc = None))"
proof (cases "cs_pc s t")
  case (CMutex m mpc k)
  then consider u us where "s' = s\<lparr>td_sema := (td_sema s)(u := True), td_defer := (td_defer s)(t := us)\<rparr>"
    | mx mpc' where "s' = goto t (mutex_done m mpc' k) (s\<lparr>cs_mutex := (cs_mutex s)(m := mx)\<rparr>)"
    using CMutex_access assms(1) by metis
  then show ?thesis
  proof cases
    case 1
    then show ?thesis by (intro exI [of _ "cs_pc s t"]) auto
  next
    case 2
    have "mutex_done m mpc' k \<noteq> CCrashed"
    proof
      assume "mutex_done m mpc' k = CCrashed"
      with 2 assms(2) show False by simp
    qed
    then show ?thesis using queue_held_done [of m mpc' k mpc] 2 CMutex by (intro exI [of _ "mutex_done m mpc' k"]) auto
  qed
next
  case (WUnlock c m d)
  then show ?thesis using assms by (auto simp: CvUnlock_def)
next
  case (WAdd c m d r)
  then show ?thesis using assms by (auto split: option.splits)
next
  case (WWake c m d r)
  note here = this
  show ?thesis
  proof (cases "td_defer s t")
    case Nil
    then show ?thesis using assms here by (auto simp: wake_next_def)
  next
    case (Cons u us)
    then show ?thesis by (intro access_lock_stay) (use assms here in \<open>auto simp: wake_next_def\<close>)
  qed
next
  case (WSleep c m d r)
  then show ?thesis using assms by (auto split: if_splits)
next
  case (WDecide c m r l)
  then show ?thesis using assms by (auto simp: leave_queue_def split: if_splits option.splits)
next
  case (SPick c)
  then show ?thesis using assms by (auto split: option.splits list.splits)
next
  case (SPicked c td)
  then show ?thesis using assms by (auto simp: defer_wake_def split: option.splits if_splits)
next
  case (SFlush c td)
  note here = this
  show ?thesis
  proof (cases "td_defer s t")
    case Nil
    then show ?thesis using assms here by (auto simp: wake_next_def)
  next
    case (Cons u us)
    then show ?thesis by (intro access_lock_stay) (use assms here in \<open>auto simp: wake_next_def\<close>)
  qed
next
  case (BDrop c)
  then show ?thesis using assms by (auto split: option.splits)
next
  case (BDropped c tds ws)
  then show ?thesis using assms by (auto simp: defer_wake_def queue_unlock_def split: list.splits option.splits if_splits)
next
  case (BFlush c tds ws)
  note here = this
  show ?thesis
  proof (cases "td_defer s t")
    case Nil
    then show ?thesis using assms here by (auto simp: wake_next_def)
  next
    case (Cons u us)
    then show ?thesis by (intro access_lock_stay) (use assms here in \<open>auto simp: wake_next_def\<close>)
  qed
next
  case (BFlushDirect c tds ws)
  then show ?thesis using assms by (auto split: list.splits)
next
  case (BFreed ws)
  then show ?thesis using assms by (auto split: list.splits)
next
  case (WEnter c m d)
  then show ?thesis using assms by (auto simp: Let_def split: if_splits)
qed (use assms in \<open>auto simp: queue_lock_def queue_unlock_def split: if_splits option.splits\<close>)

subsection \<open>The mutexes\<close>

lemma mutex_okD:
  assumes "mutex_ok (m, pcs)"
  shows "place_ok (mx_owner m = Some t) (mx_count m) (pcs t)" and "saved (pcs t) = Some r \<Longrightarrow> count_fits m r"
    and "count_fits m (mx_count m)" and "0 < mx_count m \<Longrightarrow> mx_owner m \<noteq> None"
  using assms unfolding mutex_ok_def prod.case by blast+

lemma mutex_next_owner:
  assumes "mutex_ok (m, pcs)" and "mutex_next t late m (pcs t) = Some (m', pc)" and "mx_owner m = Some u" and "u \<noteq> t"
  shows "mx_owner m' = Some u"
proof -
  have "\<not> in_section (pcs t)"
  proof
    assume "in_section (pcs t)"
    then have "holds m pcs t" "holds m pcs u" using assms(3) by (simp_all add: holds_def)
    with assms(1,4) show False by (auto simp: mutex_ok_def)
  qed
  moreover have "mx_owner m \<noteq> Some t" using assms(3,4) by simp
  ultimately show ?thesis using assms(2,3)
    by (cases "pcs t") (auto simp: m_lock_taken_def lock_timed_def split: if_splits deadline.splits elim!: mutex_next.elims)
qed

lemma view_upd: "(\<lambda>u. mutex_view m (if u = t then pc else pcs u)) = (\<lambda>u. mutex_view m (pcs u))(t := mutex_view m pc)"
  by auto

lemma mutex_ok_rest: "mutex_ok (m, pcs(t := MReturned r)) \<Longrightarrow> mutex_ok (m, pcs(t := MIdle))"
  by (auto simp: mutex_ok_def holds_def fun_upd_apply split: if_splits)

text \<open>The thread moves on without touching a mutex.\<close>

definition quiet :: "cond_state \<Rightarrow> tid \<Rightarrow> cond_state \<Rightarrow> bool" where
  "quiet s t s' \<longleftrightarrow> cs_mutex s' = cs_mutex s \<and>
     (\<exists>pc. cs_pc s' = (cs_pc s)(t := pc) \<and> (\<forall>m. mutex_view m pc = mutex_view m (cs_pc s t)) \<and>
       (\<forall>m. owned_in_wait pc = Some m \<longrightarrow> owned_in_wait (cs_pc s t) = Some m \<or> mx_owner (cs_mutex s m) = Some t))"

lemma quietI:
  "cs_pc s' = (cs_pc s)(t := pc) \<Longrightarrow> cs_mutex s' = cs_mutex s \<Longrightarrow> (\<And>m. mutex_view m pc = mutex_view m (cs_pc s t)) \<Longrightarrow>
   (\<And>m. owned_in_wait pc = Some m \<Longrightarrow> owned_in_wait (cs_pc s t) = Some m \<or> mx_owner (cs_mutex s m) = Some t) \<Longrightarrow> quiet s t s'"
  unfolding quiet_def by blast

lemma quiet_stay: "cs_pc s' = cs_pc s \<Longrightarrow> cs_mutex s' = cs_mutex s \<Longrightarrow> quiet s t s'"
  unfolding quiet_def by (intro conjI exI [of _ "cs_pc s t"]) auto

lemma inv_mutex_quiet:
  assumes "inv_mutex s" and "quiet s t s'"
  shows "inv_mutex s'"
proof -
  obtain pc where pc: "cs_mutex s' = cs_mutex s" "cs_pc s' = (cs_pc s)(t := pc)" "\<And>m. mutex_view m pc = mutex_view m (cs_pc s t)"
    "\<And>m. owned_in_wait pc = Some m \<Longrightarrow> owned_in_wait (cs_pc s t) = Some m \<or> mx_owner (cs_mutex s m) = Some t"
    using assms(2) unfolding quiet_def by blast
  have "owned_in_wait (cs_pc s' u) = Some m \<Longrightarrow> mx_owner (cs_mutex s' m) = Some u" for u m
    using assms(1) pc(4) [of m] by (cases "u = t") (auto simp: inv_mutex_def pc(1,2))
  then show ?thesis using assms(1) by (simp add: inv_mutex_def pc(1,2,3) view_upd fun_upd_idem)
qed

lemma inv_mutex_one:
  assumes inv: "inv_mutex s" and pcs: "cs_pc s' = (cs_pc s)(t := pc)" and mx: "cs_mutex s' = (cs_mutex s)(m := mx)"
    and view: "\<And>m'. m' \<noteq> m \<Longrightarrow> mutex_view m' pc = mutex_view m' (cs_pc s t)"
    and ok: "mutex_ok (mx, (\<lambda>u. mutex_view m (cs_pc s u))(t := mutex_view m pc))"
    and own: "\<And>u. u \<noteq> t \<Longrightarrow> mx_owner (cs_mutex s m) = Some u \<Longrightarrow> mx_owner mx = Some u"
    and not: "owned_in_wait pc = None"
  shows "inv_mutex s'"
  unfolding inv_mutex_def
proof (intro conjI allI impI)
  show "mutex_ok (cs_mutex s' m', \<lambda>u. mutex_view m' (cs_pc s' u))" for m'
  proof (cases "m' = m")
    case True
    then show ?thesis using ok by (simp add: pcs mx view_upd)
  next
    case False
    then show ?thesis using inv view [OF False] by (simp add: pcs mx view_upd inv_mutex_def fun_upd_idem)
  qed
  show "mx_owner (cs_mutex s' m') = Some u" if "owned_in_wait (cs_pc s' u) = Some m'" for u m'
  proof -
    have "u \<noteq> t" using that not by (auto simp: pcs)
    then have "mx_owner (cs_mutex s m') = Some u" using that inv by (simp add: pcs inv_mutex_def)
    then show ?thesis using own [OF \<open>u \<noteq> t\<close>] by (auto simp: mx)
  qed
qed

lemma mutex_ok_flag: "mutex_ok (m, pcs) \<Longrightarrow> mutex_ok (m\<lparr>mx_flags := mx_flags m OR MutexFlagsDeferred\<rparr>, pcs)"
  using mutex_ok_fields [of "m\<lparr>mx_flags := mx_flags m OR MutexFlagsDeferred\<rparr>" m pcs] by simp

lemma inv_mutex_defer:
  assumes "inv_mutex s" and "s' = goto t pc (defer_wake t td m s)"
    and "\<And>m'. mutex_view m' pc = mutex_view m' (cs_pc s t)" and "owned_in_wait pc = None"
  shows "inv_mutex s'"
proof -
  have "mutex_ok (cs_mutex s m, (\<lambda>u. mutex_view m (cs_pc s u)))" using assms(1) by (simp add: inv_mutex_def)
  then show ?thesis
    by (intro inv_mutex_one [OF assms(1), of s' t pc m "(cs_mutex s m)\<lparr>mx_flags := mx_flags (cs_mutex s m) OR MutexFlagsDeferred\<rparr>"])
      (simp_all add: assms(2-4) defer_wake_def mutex_ok_flag fun_upd_idem)
qed

lemma access_mutex:
  assumes run: "cond_access t late (cs_pc s t) s = Some s'" and nc: "\<not> crashed s'" and inv: "inv_mutex s"
  shows "inv_mutex s'"
proof (cases "cs_pc s t")
  case (CMutex m mpc k)
  let ?v = "\<lambda>u. mutex_view m (cs_pc s u)"
  have ok: "mutex_ok (cs_mutex s m, ?v)" using inv by (simp add: inv_mutex_def)
  from CMutex_access [OF run [unfolded CMutex]] consider
      u us where "s' = s\<lparr>td_sema := (td_sema s)(u := True), td_defer := (td_defer s)(t := us)\<rparr>"
    | mx mpc' where "mutex_next t late (cs_mutex s m) mpc = Some (mx, mpc')"
        "s' = goto t (mutex_done m mpc' k) (s\<lparr>cs_mutex := (cs_mutex s)(m := mx)\<rparr>)" by blast
  then show ?thesis
  proof cases
    case 1
    then show ?thesis using inv by (simp add: inv_mutex_def)
  next
    case 2
    have n: "mutex_next t late (cs_mutex s m) (?v t) = Some (mx, mpc')" using 2(1) CMutex by simp
    have v: "mutex_ok (mx, ?v(t := mpc'))" by (rule mutex_next_ok(1) [OF ok n])
    have d: "mutex_done m mpc' k \<noteq> CCrashed"
    proof
      assume "mutex_done m mpc' k = CCrashed"
      with 2(2) nc show False by simp
    qed
    have "mutex_ok (mx, ?v(t := mutex_view m (mutex_done m mpc' k)))"
      using v mutex_done_cases [of m mpc' k] d mutex_ok_rest [of mx ?v t] by auto
    then show ?thesis
    proof (rule inv_mutex_one [OF inv, rotated 3])
      show "cs_pc s' = (cs_pc s)(t := mutex_done m mpc' k)" "cs_mutex s' = (cs_mutex s)(m := mx)" using 2(2) by simp_all
      show "mutex_view m' (mutex_done m mpc' k) = mutex_view m' (cs_pc s t)" if "m' \<noteq> m" for m'
        using that mutex_done_cases [of m mpc' k] d CMutex by auto
      show "mx_owner mx = Some u" if "u \<noteq> t" "mx_owner (cs_mutex s m) = Some u" for u
        by (rule mutex_next_owner [OF ok n that(2,1)])
      show "owned_in_wait (mutex_done m mpc' k) = None" using mutex_done_cases [of m mpc' k] d by auto
    qed
  qed
next
  case (WUnlock c m d)
  let ?v = "\<lambda>u. mutex_view m (cs_pc s u)" and ?mx = "cs_mutex s m"
  have ok: "mutex_ok (?mx, ?v)" and own: "mx_owner ?mx = Some t" using inv WUnlock by (auto simp: inv_mutex_def)
  have s': "s' = goto t (CMutex m (UnlockEnter (Some (mx_count ?mx))) (KUnlocked c d)) (s\<lparr>cs_mutex := (cs_mutex s)(m := ?mx\<lparr>mx_count := 0\<rparr>)\<rparr>)"
    using run WUnlock by (simp add: CvUnlock_def)
  have f: "count_fits ?mx (mx_count ?mx)" using ok by (simp add: mutex_ok_def)
  have "mutex_ok (?mx\<lparr>mx_count := 0\<rparr>, ?v(t := UnlockEnter (Some (mx_count ?mx))))"
    by (rule mutex_ok_change [OF ok]) (use own f WUnlock in \<open>auto simp: holds_def count_fits_def\<close>)
  then show ?thesis
    by (intro inv_mutex_one [OF inv, of s' t "CMutex m (UnlockEnter (Some (mx_count ?mx))) (KUnlocked c d)" m "?mx\<lparr>mx_count := 0\<rparr>"])
      (auto simp: s' WUnlock)
next
  case (WEnter c m d)
  have "mx_owner (cs_mutex s m) = Some t" if "IsOwned t m (\<lambda>a. Some (cs_mutex s a)) = 0"
    using that by (auto simp: IsOwned_def posix_codes split: if_splits)
  then have "quiet s t s'" using run nc WEnter by (auto simp: Let_def intro: quietI split: if_splits)
  then show ?thesis by (rule inv_mutex_quiet [OF inv])
next
  case (WLeave c m r e)
  let ?v = "\<lambda>u. mutex_view m (cs_pc s u)" and ?mx = "cs_mutex s m"
  have ok: "mutex_ok (?mx, ?v)" using inv by (simp add: inv_mutex_def)
  have v: "?v t = CvWaiting r" by (simp add: WLeave)
  have not: "mx_owner ?mx \<noteq> Some t" using mutex_okD(1) [OF ok, of t] v by simp
  have "mutex_ok (?mx, ?v(t := CvLock r))"
    by (rule mutex_ok_change [OF ok])
      (use not v mutex_okD(2) [OF ok, of t r] mutex_okD(3,4) [OF ok] in \<open>auto simp: holds_def CvLock_def\<close>)
  then show ?thesis
    by (intro inv_mutex_one [OF inv, of s' t "CMutex m (CvLock r) (KLocked e)" m ?mx])
      (use run WLeave in \<open>auto simp: queue_unlock_def\<close>)
next
  case (WAdd c m d r)
  then have "quiet s t s'" using run nc by (auto intro: quietI split: option.splits)
  then show ?thesis by (rule inv_mutex_quiet [OF inv])
next
  case (WWake c m d r)
  have "quiet s t s'"
  proof (cases "td_defer s t")
    case Nil
    then show ?thesis using run WWake by (auto simp: wake_next_def intro: quietI)
  next
    case (Cons u us)
    then show ?thesis by (intro quiet_stay) (use run WWake in \<open>auto simp: wake_next_def\<close>)
  qed
  then show ?thesis by (rule inv_mutex_quiet [OF inv])
next
  case (WSleep c m d r)
  then have "quiet s t s'" using run by (auto intro: quietI split: if_splits)
  then show ?thesis by (rule inv_mutex_quiet [OF inv])
next
  case (WDecide c m r l)
  then have "quiet s t s'" using run nc by (auto simp: leave_queue_def intro: quietI split: if_splits option.splits)
  then show ?thesis by (rule inv_mutex_quiet [OF inv])
next
  case (SPick c)
  then have "quiet s t s'" using run nc by (auto intro: quietI split: option.splits list.splits)
  then show ?thesis by (rule inv_mutex_quiet [OF inv])
next
  case (SFlush c td)
  have "quiet s t s'"
  proof (cases "td_defer s t")
    case Nil
    then show ?thesis using run SFlush by (auto simp: wake_next_def intro: quietI)
  next
    case (Cons u us)
    then show ?thesis by (intro quiet_stay) (use run SFlush in \<open>auto simp: wake_next_def\<close>)
  qed
  then show ?thesis by (rule inv_mutex_quiet [OF inv])
next
  case (BDrop c)
  then have "quiet s t s'" using run nc by (auto intro: quietI split: option.splits)
  then show ?thesis by (rule inv_mutex_quiet [OF inv])
next
  case (BFlush c tds ws)
  have "quiet s t s'"
  proof (cases "td_defer s t")
    case Nil
    then show ?thesis using run BFlush by (auto simp: wake_next_def intro: quietI)
  next
    case (Cons u us)
    then show ?thesis by (intro quiet_stay) (use run BFlush in \<open>auto simp: wake_next_def\<close>)
  qed
  then show ?thesis by (rule inv_mutex_quiet [OF inv])
next
  case (BFlushDirect c tds ws)
  then have "quiet s t s'" using run by (auto intro: quietI split: list.splits)
  then show ?thesis by (rule inv_mutex_quiet [OF inv])
next
  case (BFreed ws)
  then have "quiet s t s'" using run by (auto intro: quietI split: list.splits)
  then show ?thesis by (rule inv_mutex_quiet [OF inv])
next
  case (SPicked c td)
  consider pc where "s' = goto t pc s" "pc = SFlush c td \<or> pc = SFree c (Some td)"
    | m where "mx_owner (cs_mutex s m) = Some t" "s' = goto t (SFree c None) (defer_wake t td m s)"
    using run nc SPicked by (auto split: option.splits if_splits)
  then show ?thesis
  proof cases
    case 1
    then have "quiet s t s'" using SPicked by (auto intro!: quietI)
    then show ?thesis by (rule inv_mutex_quiet [OF inv])
  next
    case 2
    show ?thesis by (rule inv_mutex_defer [OF inv 2(2)]) (simp_all add: SPicked)
  qed
next
  case (BDropped c tds ws)
  consider pc l where "s' = goto t pc (s\<lparr>cs_lock := l\<rparr>)" "\<forall>m. mutex_view m pc = MIdle" "owned_in_wait pc = None"
    | m td rest where "s' = goto t (BDropped c rest ws) (defer_wake t td m s)"
  proof (cases tds)
    case Nil
    then show ?thesis using that(1) [of "BFreed ws" "(cs_lock s)(SC_HASH c := None)"] run BDropped by (simp add: queue_unlock_def)
  next
    case (Cons td rest)
    have k: "s = s\<lparr>cs_lock := cs_lock s\<rparr>" by simp
    show ?thesis
      using that(1) [of _ "cs_lock s"] that(2) run nc BDropped Cons
      by (auto split: option.splits if_splits)
  qed
  then show ?thesis
  proof cases
    case 1
    then have "quiet s t s'" using BDropped by (intro quietI [of s' s t pc]) auto
    then show ?thesis by (rule inv_mutex_quiet [OF inv])
  next
    case 2
    show ?thesis by (rule inv_mutex_defer [OF inv 2]) (simp_all add: BDropped)
  qed
qed (use run nc in \<open>auto simp: queue_lock_def queue_unlock_def intro!: inv_mutex_quiet [OF inv] quietI split: if_splits option.splits\<close>)

subsection \<open>The queues\<close>

lemma inv_queueD:
  assumes "inv_queue s"
  shows iq_ok: "sleepq_ok (cs_sleepq s)"
    and iq_at: "asleep_on s t = Some c \<Longrightarrow> \<exists>m. queued_at (cs_pc s t) = Some (c, m)"
    and iq_mutex: "queued_at (cs_pc s t) = Some (c, m) \<Longrightarrow> td_mutex_obj s t = Some m"
    and iq_just: "just_queued (cs_pc s t) \<Longrightarrow> asleep_on s t \<noteq> None"
    and iq_undecided: "u \<in> set (undecided (cs_pc s t)) \<Longrightarrow>
      \<exists>c m. queued_at (cs_pc s u) = Some (c, m) \<and> queue_held (cs_pc s t) = Some (SC_HASH c)"
  using assms unfolding inv_queue_def by blast+

lemma just_queued_held: "just_queued pc \<Longrightarrow> \<exists>c m. queued_at pc = Some (c, m) \<and> queue_held pc = Some (SC_HASH c)"
  by (cases pc) auto

lemma lock_holder: "inv_lock s \<Longrightarrow> queue_held (cs_pc s t) = Some b \<Longrightarrow> queue_held (cs_pc s u) = Some b \<Longrightarrow> t = u"
  unfolding inv_lock_def by (metis option.inject)

text \<open>The thread moves on without a change of the queues.\<close>

definition queue_quiet :: "cond_state \<Rightarrow> tid \<Rightarrow> cond_state \<Rightarrow> bool" where
  "queue_quiet s t s' \<longleftrightarrow> cs_sleepq s' = cs_sleepq s \<and>
     (\<exists>pc. cs_pc s' = (cs_pc s)(t := pc) \<and> queued_at pc = queued_at (cs_pc s t) \<and>
       (\<forall>u. (u \<noteq> t \<or> queued_at pc \<noteq> None) \<longrightarrow> td_mutex_obj s' u = td_mutex_obj s u) \<and>
       (just_queued pc \<longrightarrow> just_queued (cs_pc s t)) \<and> set (undecided pc) \<subseteq> set (undecided (cs_pc s t)) \<and>
       (undecided pc \<noteq> [] \<longrightarrow> queue_held pc = queue_held (cs_pc s t)))"

lemma queue_quietI:
  "cs_pc s' = (cs_pc s)(t := pc) \<Longrightarrow> cs_sleepq s' = cs_sleepq s \<Longrightarrow> queued_at pc = queued_at (cs_pc s t) \<Longrightarrow>
   (\<And>u. u \<noteq> t \<or> queued_at pc \<noteq> None \<Longrightarrow> td_mutex_obj s' u = td_mutex_obj s u) \<Longrightarrow>
   (just_queued pc \<Longrightarrow> just_queued (cs_pc s t)) \<Longrightarrow> set (undecided pc) \<subseteq> set (undecided (cs_pc s t)) \<Longrightarrow>
   (undecided pc \<noteq> [] \<Longrightarrow> queue_held pc = queue_held (cs_pc s t)) \<Longrightarrow> queue_quiet s t s'"
  unfolding queue_quiet_def by blast

lemma queue_quiet_stay: "cs_pc s' = cs_pc s \<Longrightarrow> cs_sleepq s' = cs_sleepq s \<Longrightarrow> td_mutex_obj s' = td_mutex_obj s \<Longrightarrow> queue_quiet s t s'"
  by (rule queue_quietI [of s' s t "cs_pc s t"]) auto

lemma inv_queue_quiet:
  assumes inv: "inv_queue s" and "queue_quiet s t s'"
  shows "inv_queue s'"
proof -
  obtain pc where pc: "cs_sleepq s' = cs_sleepq s" "cs_pc s' = (cs_pc s)(t := pc)" "queued_at pc = queued_at (cs_pc s t)"
    "\<And>u. u \<noteq> t \<or> queued_at pc \<noteq> None \<Longrightarrow> td_mutex_obj s' u = td_mutex_obj s u" "just_queued pc \<Longrightarrow> just_queued (cs_pc s t)"
    "set (undecided pc) \<subseteq> set (undecided (cs_pc s t))" "undecided pc \<noteq> [] \<Longrightarrow> queue_held pc = queue_held (cs_pc s t)"
    using assms(2) unfolding queue_quiet_def by blast
  have qa: "queued_at (cs_pc s' u) = queued_at (cs_pc s u)" for u by (simp add: pc(2,3))
  show ?thesis
    unfolding inv_queue_def
  proof (intro conjI allI impI)
    show "sleepq_ok (cs_sleepq s')" using iq_ok [OF inv] by (simp add: pc(1))
    show "\<exists>m. queued_at (cs_pc s' u) = Some (c, m)" if "asleep_on s' u = Some c" for u c
      using that iq_at [OF inv] unfolding qa by (simp add: pc(1))
    show "td_mutex_obj s' u = Some m" if "queued_at (cs_pc s' u) = Some (c, m)" for u c m
      using that iq_mutex [OF inv, of u c m] pc(4) [of u] pc(3) unfolding qa by (cases "u = t") auto
    show "asleep_on s' u \<noteq> None" if "just_queued (cs_pc s' u)" for u
      using that iq_just [OF inv, of u] pc(5) by (cases "u = t") (auto simp: pc(1,2))
    show "\<exists>c m. queued_at (cs_pc s' v) = Some (c, m) \<and> queue_held (cs_pc s' u) = Some (SC_HASH c)"
      if v: "v \<in> set (undecided (cs_pc s' u))" for u v
    proof -
      have "v \<in> set (undecided (cs_pc s u)) \<and> queue_held (cs_pc s' u) = queue_held (cs_pc s u)"
        using v pc(6,7) by (cases "u = t"; cases "undecided pc") (auto simp: pc(2))
      then show ?thesis using iq_undecided [OF inv, of v u] qa by simp
    qed
  qed
qed

text \<open>Threads are taken off the queue of \<open>c\<close> by a thread that holds its lock and keeps them in hand.\<close>

lemma inv_queue_taken:
  assumes inv: "inv_queue s" and lock: "inv_lock s" and held: "queue_held (cs_pc s t) = Some (SC_HASH c)"
    and at: "queued_at (cs_pc s t) = None" and pcs: "cs_pc s' = (cs_pc s)(t := pc)" and mo: "td_mutex_obj s' = td_mutex_obj s"
    and ok: "sleepq_ok (cs_sleepq s')" and off: "asleep_on s' = (\<lambda>u. if u \<in> T then None else asleep_on s u)"
    and T: "\<And>u. u \<in> T \<Longrightarrow> asleep_on s u = Some c"
    and pc: "queued_at pc = None" "just_queued pc = False" "set (undecided pc) \<subseteq> T" "queue_held pc = Some (SC_HASH c)"
  shows "inv_queue s'"
  unfolding inv_queue_def
proof (intro conjI allI impI)
  have qa: "queued_at (cs_pc s' u) = queued_at (cs_pc s u)" for u using at pc(1) by (simp add: pcs)
  show "sleepq_ok (cs_sleepq s')" by fact
  show "\<exists>m. queued_at (cs_pc s' u) = Some (d, m)" if "asleep_on s' u = Some d" for u d
    using that iq_at [OF inv] unfolding qa by (auto simp: off split: if_splits)
  show "td_mutex_obj s' u = Some m" if "queued_at (cs_pc s' u) = Some (d, m)" for u d m
    using that iq_mutex [OF inv] unfolding qa by (simp add: mo)
  show "asleep_on s' u \<noteq> None" if j: "just_queued (cs_pc s' u)" for u
  proof -
    have u: "u \<noteq> t" "just_queued (cs_pc s u)" using j pc(2) by (auto simp: pcs split: if_splits)
    obtain d m where d: "queued_at (cs_pc s u) = Some (d, m)" "queue_held (cs_pc s u) = Some (SC_HASH d)"
      using just_queued_held [OF u(2)] by blast
    have "u \<notin> T"
    proof
      assume "u \<in> T"
      then have "d = c" using T iq_at [OF inv, of u c] d(1) by auto
      then show False using lock_holder [OF lock held, of u] d(2) u(1) by simp
    qed
    then show ?thesis using iq_just [OF inv u(2)] by (simp add: off)
  qed
  show "\<exists>d m. queued_at (cs_pc s' v) = Some (d, m) \<and> queue_held (cs_pc s' u) = Some (SC_HASH d)"
    if v: "v \<in> set (undecided (cs_pc s' u))" for u v
  proof (cases "u = t")
    case True
    then have "v \<in> T" using v pc(3) by (auto simp: pcs)
    then show ?thesis using T iq_at [OF inv, of v c] pc(4) True unfolding qa by (auto simp: pcs)
  next
    case False
    then show ?thesis using v iq_undecided [OF inv, of v u] unfolding qa by (simp add: pcs)
  qed
qed

text \<open>A thread leaves the queue by its own decision, holding the lock.\<close>

lemma inv_queue_leave:
  assumes inv: "inv_queue s" and lock: "inv_lock s" and here: "cs_pc s t = WDecide c m r l" and pcs: "cs_pc s' = (cs_pc s)(t := pc)"
    and mo: "td_mutex_obj s' = td_mutex_obj s" and ok: "sleepq_ok (cs_sleepq s')" and off: "asleep_on s' = (asleep_on s)(t := None)"
    and pc: "queued_at pc = None" "just_queued pc = False" "undecided pc = []"
  shows "inv_queue s'"
  unfolding inv_queue_def
proof (intro conjI allI impI)
  show "sleepq_ok (cs_sleepq s')" by fact
  show "\<exists>m. queued_at (cs_pc s' u) = Some (d, m)" if "asleep_on s' u = Some d" for u d
    using that iq_at [OF inv] by (auto simp: off pcs split: if_splits)
  show "td_mutex_obj s' u = Some m" if "queued_at (cs_pc s' u) = Some (d, m)" for u d m
    using that iq_mutex [OF inv] pc(1) by (auto simp: mo pcs split: if_splits)
  show "asleep_on s' u \<noteq> None" if "just_queued (cs_pc s' u)" for u
    using that iq_just [OF inv, of u] pc(2) by (auto simp: pcs off split: if_splits)
  show "\<exists>d m. queued_at (cs_pc s' v) = Some (d, m) \<and> queue_held (cs_pc s' u) = Some (SC_HASH d)"
    if v: "v \<in> set (undecided (cs_pc s' u))" for u v
  proof -
    have u: "u \<noteq> t" "v \<in> set (undecided (cs_pc s u))" using v pc(3) by (auto simp: pcs split: if_splits)
    obtain d n where d: "queued_at (cs_pc s v) = Some (d, n)" "queue_held (cs_pc s u) = Some (SC_HASH d)"
      using iq_undecided [OF inv u(2)] by blast
    have "v \<noteq> t" using d here lock_holder [OF lock, of t "SC_HASH c" u] u(1) by auto
    then show ?thesis using d u(1) by (simp add: pcs)
  qed
qed

lemma access_queue:
  assumes run: "cond_access t late (cs_pc s t) s = Some s'" and nc: "\<not> crashed s'" and inv: "inv_queue s" and lock: "inv_lock s"
  shows "inv_queue s'"
proof (cases "cs_pc s t")
  case (CMutex m mpc k)
  from CMutex_access [OF run [unfolded CMutex]] consider
      u us where "s' = s\<lparr>td_sema := (td_sema s)(u := True), td_defer := (td_defer s)(t := us)\<rparr>"
    | mx mpc' where "s' = goto t (mutex_done m mpc' k) (s\<lparr>cs_mutex := (cs_mutex s)(m := mx)\<rparr>)" by blast
  then show ?thesis
  proof cases
    case 1
    then have "queue_quiet s t s'" by (intro queue_quiet_stay) auto
    then show ?thesis by (rule inv_queue_quiet [OF inv])
  next
    case 2
    have d: "mutex_done m mpc' k \<noteq> CCrashed"
    proof
      assume "mutex_done m mpc' k = CCrashed"
      with 2 nc show False by simp
    qed
    have "queue_quiet s t s'"
      using mutex_done_cases [of m mpc' k] d CMutex by (intro queue_quietI [of s' s t "mutex_done m mpc' k"]) (auto simp: 2)
    then show ?thesis by (rule inv_queue_quiet [OF inv])
  qed
next
  case (WAdd c m d r)
  then have out: "asleep_on s t = None" using iq_at [OF inv, of t] by (cases "asleep_on s t") auto
  obtain q where q: "SleepqAdd c t (cs_sleepq s) = Some q" "s' = goto t (WClear c m d r) (s\<lparr>cs_sleepq := q, td_mutex_obj := (td_mutex_obj s)(t := Some m)\<rparr>)"
    using run nc WAdd by (auto split: option.splits)
  have a: "sleepq_ok q" "td_wchan q = (td_wchan (cs_sleepq s))(t := Some c)"
    using wq.add_asleep [OF iq_ok [OF inv] out q(1)] by simp_all
  show ?thesis
    unfolding inv_queue_def
  proof (intro conjI allI impI)
    show "sleepq_ok (cs_sleepq s')" using a q(2) by simp
    show "\<exists>m. queued_at (cs_pc s' u) = Some (e, m)" if "asleep_on s' u = Some e" for u e
      using that iq_at [OF inv] by (auto simp: q(2) a split: if_splits)
    show "td_mutex_obj s' u = Some n" if "queued_at (cs_pc s' u) = Some (e, n)" for u e n
      using that iq_mutex [OF inv] by (auto simp: q(2) split: if_splits)
    show "asleep_on s' u \<noteq> None" if "just_queued (cs_pc s' u)" for u
      using that iq_just [OF inv, of u] by (auto simp: q(2) a split: if_splits)
    show "\<exists>e n. queued_at (cs_pc s' v) = Some (e, n) \<and> queue_held (cs_pc s' u) = Some (SC_HASH e)"
      if "v \<in> set (undecided (cs_pc s' u))" for u v
    proof -
      have u: "u \<noteq> t" "v \<in> set (undecided (cs_pc s u))" using that by (auto simp: q(2) split: if_splits)
      then obtain e n where e: "queued_at (cs_pc s v) = Some (e, n)" "queue_held (cs_pc s u) = Some (SC_HASH e)"
        using iq_undecided [OF inv] by blast
      have "v \<noteq> t" using e(1) WAdd by auto
      then show ?thesis using e u(1) by (simp add: q(2))
    qed
  qed
next
  case (WDecide c m r l)
  show ?thesis
  proof (cases "asleep_on s t")
    case None
    then have s': "s' = goto t (WLeave c m r (Some 0)) s" using run WDecide by simp
    show ?thesis by (rule inv_queue_leave [OF inv lock WDecide, of s' "WLeave c m r (Some 0)"]) (use None iq_ok [OF inv] in \<open>simp_all add: s' fun_upd_idem\<close>)
  next
    case (Some e)
    then have e: "asleep_on s t = Some c" using iq_at [OF inv Some] WDecide by simp
    obtain e' more q where q: "sleepq_remove c t (cs_sleepq s) = Some (more, q)"
      "s' = goto t (WLeave c m r e') (s\<lparr>cs_sleepq := q, cs_waiters := (cs_waiters s)(c := more)\<rparr>)"
      using run nc WDecide e by (auto simp: leave_queue_def split: if_splits option.splits)
    have a: "sleepq_ok q" "td_wchan q = (td_wchan (cs_sleepq s))(t := None)"
      using wq.remove_asleep [OF iq_ok [OF inv] e q(1)] by simp_all
    show ?thesis by (rule inv_queue_leave [OF inv lock WDecide, of s' "WLeave c m r e'"]) (simp_all add: q(2) a)
  qed
next
  case (SPick c)
  show ?thesis
  proof (cases "SleepqLookup c (cs_sleepq s)")
    case None
    then have "queue_quiet s t s'" using run SPick by (auto intro: queue_quietI)
    then show ?thesis by (rule inv_queue_quiet [OF inv])
  next
    case (Some sq)
    then obtain td tds more q where td: "sq_blocked (cs_sleepq s) sq = td # tds" and q: "SleepqRemove sq td (cs_sleepq s) = Some (more, q)"
      "s' = goto t (SPicked c td) (s\<lparr>cs_sleepq := q, cs_waiters := (cs_waiters s)(c := more)\<rparr>)"
      using run nc SPick by (auto split: list.splits option.splits)
    have e: "asleep_on s td = Some c"
      using sleepers_mem [OF iq_ok [OF inv], of td c] td Some by (simp add: sleepers_def)
    have r: "sleepq_remove c td (cs_sleepq s) = Some (more, q)" using q(1) Some by (simp add: sleepq_remove_def)
    have a: "sleepq_ok q" "td_wchan q = (td_wchan (cs_sleepq s))(td := None)"
      using wq.remove_asleep [OF iq_ok [OF inv] e r] by simp_all
    show ?thesis
      by (rule inv_queue_taken [OF inv lock, of t c s' "SPicked c td" "{td}"]) (auto simp: SPick q(2) a e)
  qed
next
  case (BDrop c)
  obtain tds q where q: "sleepq_drop c (cs_sleepq s) = Some (tds, q)" and s': "\<exists>w. s' = goto t (BDropped c tds []) (s\<lparr>cs_sleepq := q, cs_waiters := w\<rparr>)"
    using run nc BDrop by (auto split: option.splits)
  obtain w where w: "s' = goto t (BDropped c tds []) (s\<lparr>cs_sleepq := q, cs_waiters := w\<rparr>)" using s' by blast
  have a: "sleepq_ok q" "tds = sleepers (cs_sleepq s) c" "td_wchan q = (\<lambda>u. if asleep_on s u = Some c then None else asleep_on s u)"
    using wq.drop_asleep [OF iq_ok [OF inv] q] by simp_all
  have m: "u \<in> set tds \<longleftrightarrow> asleep_on s u = Some c" for u using sleepers_mem [OF iq_ok [OF inv], of u c] a(2) by simp
  show ?thesis
    by (rule inv_queue_taken [OF inv lock, of t c s' "BDropped c tds []" "set tds"]) (auto simp: BDrop w a(1,3) m fun_eq_iff)
next
  case (WWake c m d r)
  have "queue_quiet s t s'"
  proof (cases "td_defer s t")
    case Nil
    then show ?thesis using run WWake by (auto simp: wake_next_def intro: queue_quietI)
  next
    case (Cons u us)
    then show ?thesis by (intro queue_quiet_stay) (use run WWake in \<open>auto simp: wake_next_def\<close>)
  qed
  then show ?thesis by (rule inv_queue_quiet [OF inv])
next
  case (SFlush c td)
  have "queue_quiet s t s'"
  proof (cases "td_defer s t")
    case Nil
    then show ?thesis using run SFlush by (auto simp: wake_next_def intro: queue_quietI)
  next
    case (Cons u us)
    then show ?thesis by (intro queue_quiet_stay) (use run SFlush in \<open>auto simp: wake_next_def\<close>)
  qed
  then show ?thesis by (rule inv_queue_quiet [OF inv])
next
  case (BFlush c tds ws)
  have "queue_quiet s t s'"
  proof (cases "td_defer s t")
    case Nil
    then show ?thesis using run BFlush by (auto simp: wake_next_def intro: queue_quietI)
  next
    case (Cons u us)
    then show ?thesis by (intro queue_quiet_stay) (use run BFlush in \<open>auto simp: wake_next_def\<close>)
  qed
  then show ?thesis by (rule inv_queue_quiet [OF inv])
next
  case (WEnter c m d)
  then have "queue_quiet s t s'" using run nc by (auto simp: Let_def intro: queue_quietI split: if_splits)
  then show ?thesis by (rule inv_queue_quiet [OF inv])
next
  case (WSleep c m d r)
  then have "queue_quiet s t s'" using run nc by (auto intro: queue_quietI split: if_splits)
  then show ?thesis by (rule inv_queue_quiet [OF inv])
next
  case (BFlushDirect c tds ws)
  then have "queue_quiet s t s'" using run nc by (auto intro: queue_quietI split: list.splits)
  then show ?thesis by (rule inv_queue_quiet [OF inv])
next
  case (BFreed ws)
  then have "queue_quiet s t s'" using run nc by (auto intro: queue_quietI split: list.splits)
  then show ?thesis by (rule inv_queue_quiet [OF inv])
next
  case (SPicked c td)
  then have "queue_quiet s t s'" using run nc by (auto simp: defer_wake_def intro: queue_quietI split: option.splits if_splits)
  then show ?thesis by (rule inv_queue_quiet [OF inv])
next
  case (BDropped c tds ws)
  then have "queue_quiet s t s'" using run nc by (auto simp: defer_wake_def queue_unlock_def intro: queue_quietI split: list.splits option.splits if_splits)
  then show ?thesis by (rule inv_queue_quiet [OF inv])
next
  case (WUnlock c m d)
  then have "queue_quiet s t s'" using run nc by (auto simp: CvUnlock_def intro: queue_quietI)
  then show ?thesis by (rule inv_queue_quiet [OF inv])
qed (use run nc in \<open>auto simp: queue_lock_def queue_unlock_def intro!: inv_queue_quiet [OF inv] queue_quietI split: if_splits option.splits\<close>)

subsection \<open>Wake-ups\<close>

text \<open>
  What an access may do to wake-ups: those in hand or deferred stay so or are done, a semaphore is only
  consumed by the thread itself, and a thread leaves a queue only into the hands of \<open>t\<close>, or is \<open>t\<close>.
\<close>

definition wake_step :: "cond_state \<Rightarrow> tid \<Rightarrow> cond_state \<Rightarrow> bool" where
  "wake_step s t s' \<longleftrightarrow> (\<exists>pc. cs_pc s' = (cs_pc s)(t := pc) \<and> (\<forall>a. a \<noteq> t \<longrightarrow> td_defer s' a = td_defer s a) \<and>
     (\<forall>u \<in> set (td_defer s t) \<union> set (in_hand (cs_pc s t)). u \<in> set (td_defer s' t) \<union> set (in_hand pc) \<or> td_sema s' u) \<and>
     (\<forall>u. td_sema s u \<longrightarrow> td_sema s' u \<or> u = t \<and> \<not> sleeping pc) \<and>
     (\<forall>u. asleep_on s' u = None \<longrightarrow> asleep_on s u = None \<or> u \<in> set (in_hand pc) \<or> u = t \<and> \<not> sleeping pc) \<and>
     (sleeping pc \<longrightarrow> sleeping (cs_pc s t) \<or> asleep_on s' t \<noteq> None))"

lemma wake_stepI:
  "cs_pc s' = (cs_pc s)(t := pc) \<Longrightarrow> (\<And>a. a \<noteq> t \<Longrightarrow> td_defer s' a = td_defer s a) \<Longrightarrow>
   (\<And>u. u \<in> set (td_defer s t) \<union> set (in_hand (cs_pc s t)) \<Longrightarrow> u \<in> set (td_defer s' t) \<union> set (in_hand pc) \<or> td_sema s' u) \<Longrightarrow>
   (\<And>u. td_sema s u \<Longrightarrow> td_sema s' u \<or> u = t \<and> \<not> sleeping pc) \<Longrightarrow>
   (\<And>u. asleep_on s' u = None \<Longrightarrow> asleep_on s u = None \<or> u \<in> set (in_hand pc) \<or> u = t \<and> \<not> sleeping pc) \<Longrightarrow>
   (sleeping pc \<Longrightarrow> sleeping (cs_pc s t) \<or> asleep_on s' t \<noteq> None) \<Longrightarrow> wake_step s t s'"
  unfolding wake_step_def by blast

lemma inv_wake_step:
  assumes inv: "inv_wake s" and "wake_step s t s'"
  shows "inv_wake s'"
proof -
  obtain pc where pc: "cs_pc s' = (cs_pc s)(t := pc)" "\<And>a. a \<noteq> t \<Longrightarrow> td_defer s' a = td_defer s a"
    "\<And>u. u \<in> set (td_defer s t) \<union> set (in_hand (cs_pc s t)) \<Longrightarrow> u \<in> set (td_defer s' t) \<union> set (in_hand pc) \<or> td_sema s' u"
    "\<And>u. td_sema s u \<Longrightarrow> td_sema s' u \<or> u = t \<and> \<not> sleeping pc"
    "\<And>u. asleep_on s' u = None \<Longrightarrow> asleep_on s u = None \<or> u \<in> set (in_hand pc) \<or> u = t \<and> \<not> sleeping pc"
    "sleeping pc \<Longrightarrow> sleeping (cs_pc s t) \<or> asleep_on s' t \<noteq> None"
    using assms(2) unfolding wake_step_def by blast
  have pend: "wake_pending s' u \<or> td_sema s' u" if w: "wake_pending s u" for u
  proof -
    obtain a where a: "u \<in> set (td_defer s a) \<or> u \<in> set (in_hand (cs_pc s a))" using w unfolding wake_pending_def by blast
    show ?thesis
    proof (cases "a = t")
      case True
      then show ?thesis using a pc(3) [of u] unfolding wake_pending_def pc(1) by (auto intro!: exI [of _ t])
    next
      case False
      then show ?thesis using a pc(2) [OF False] unfolding wake_pending_def pc(1) by (auto intro!: exI [of _ a])
    qed
  qed
  have hand: "wake_pending s' u" if "u \<in> set (in_hand pc)" for u
    using that unfolding wake_pending_def pc(1) by (auto intro!: exI [of _ t])
  show ?thesis
    unfolding inv_wake_def
  proof (intro allI impI)
    fix u
    assume u: "sleeping (cs_pc s' u)" "asleep_on s' u = None"
    then have sl: "u = t \<Longrightarrow> sleeping pc" by (simp add: pc(1))
    show "td_sema s' u \<or> wake_pending s' u"
    proof (cases "asleep_on s u = None")
      case False
      then show ?thesis using pc(5) [OF u(2)] sl hand [of u] by auto
    next
      case True
      have "sleeping (cs_pc s u)" using u pc(6) by (cases "u = t") (auto simp: pc(1))
      then have "td_sema s u \<or> wake_pending s u" using inv True by (simp add: inv_wake_def)
      then show ?thesis using pend [of u] pc(4) [of u] sl by auto
    qed
  qed
qed

lemma access_wake:
  assumes run: "cond_access t late (cs_pc s t) s = Some s'" and nc: "\<not> crashed s'" and inv: "inv_wake s" and q: "inv_queue s"
  shows "inv_wake s'"
proof (cases "cs_pc s t")
  case (CMutex m mpc k)
  from CMutex_access [OF run [unfolded CMutex]] consider
      u us where "td_defer s t = u # us" "s' = s\<lparr>td_sema := (td_sema s)(u := True), td_defer := (td_defer s)(t := us)\<rparr>"
    | mx mpc' where "s' = goto t (mutex_done m mpc' k) (s\<lparr>cs_mutex := (cs_mutex s)(m := mx)\<rparr>)" by blast
  then have "wake_step s t s'"
  proof cases
    case 1
    then show ?thesis by (intro wake_stepI [of s' s t "cs_pc s t"]) auto
  next
    case 2
    have d: "mutex_done m mpc' k \<noteq> CCrashed"
    proof
      assume "mutex_done m mpc' k = CCrashed"
      with 2 nc show False by simp
    qed
    show ?thesis
      using mutex_done_cases [of m mpc' k] d CMutex by (intro wake_stepI [of s' s t "mutex_done m mpc' k"]) (auto simp: 2)
  qed
  then show ?thesis by (rule inv_wake_step [OF inv])
next
  case (WAdd c m d r)
  then have out: "asleep_on s t = None" using iq_at [OF q, of t] by (cases "asleep_on s t") auto
  obtain p where p: "SleepqAdd c t (cs_sleepq s) = Some p" "s' = goto t (WClear c m d r) (s\<lparr>cs_sleepq := p, td_mutex_obj := (td_mutex_obj s)(t := Some m)\<rparr>)"
    using run nc WAdd by (auto split: option.splits)
  have a: "td_wchan p = (td_wchan (cs_sleepq s))(t := Some c)" using wq.add_asleep [OF iq_ok [OF q] out p(1)] by simp
  have "wake_step s t s'" by (rule wake_stepI [of s' s t "WClear c m d r"]) (auto simp: p(2) a WAdd split: if_splits)
  then show ?thesis by (rule inv_wake_step [OF inv])
next
  case (WFree c m d r)
  then have "asleep_on s t \<noteq> None" using iq_just [OF q, of t] by simp
  then have "wake_step s t s'"
    by (intro wake_stepI [of s' s t "WWake c m d r"]) (use run WFree in \<open>auto simp: queue_unlock_def\<close>)
  then show ?thesis by (rule inv_wake_step [OF inv])
next
  case (WDecide c m r l)
  have "wake_step s t s'"
  proof (cases "asleep_on s t")
    case None
    then show ?thesis using run WDecide by (auto intro: wake_stepI)
  next
    case (Some e)
    then have e: "asleep_on s t = Some c" using iq_at [OF q Some] WDecide by simp
    obtain e' more p where p: "sleepq_remove c t (cs_sleepq s) = Some (more, p)"
      "s' = goto t (WLeave c m r e') (s\<lparr>cs_sleepq := p, cs_waiters := (cs_waiters s)(c := more)\<rparr>)"
      using run nc WDecide e by (auto simp: leave_queue_def split: if_splits option.splits)
    have a: "td_wchan p = (td_wchan (cs_sleepq s))(t := None)" using wq.remove_asleep [OF iq_ok [OF q] e p(1)] by simp
    show ?thesis by (rule wake_stepI [of s' s t "WLeave c m r e'"]) (auto simp: p(2) a WDecide split: if_splits)
  qed
  then show ?thesis by (rule inv_wake_step [OF inv])
next
  case (SPick c)
  have "wake_step s t s'"
  proof (cases "SleepqLookup c (cs_sleepq s)")
    case None
    then show ?thesis using run SPick by (auto intro: wake_stepI)
  next
    case (Some sq)
    then obtain td tds more p where td: "sq_blocked (cs_sleepq s) sq = td # tds" and p: "SleepqRemove sq td (cs_sleepq s) = Some (more, p)"
      "s' = goto t (SPicked c td) (s\<lparr>cs_sleepq := p, cs_waiters := (cs_waiters s)(c := more)\<rparr>)"
      using run nc SPick by (auto split: list.splits option.splits)
    have e: "asleep_on s td = Some c" using sleepers_mem [OF iq_ok [OF q], of td c] td Some by (simp add: sleepers_def)
    have r: "sleepq_remove c td (cs_sleepq s) = Some (more, p)" using p(1) Some by (simp add: sleepq_remove_def)
    have a: "td_wchan p = (td_wchan (cs_sleepq s))(td := None)" using wq.remove_asleep [OF iq_ok [OF q] e r] by simp
    show ?thesis by (rule wake_stepI [of s' s t "SPicked c td"]) (auto simp: SPick p(2) a split: if_splits)
  qed
  then show ?thesis by (rule inv_wake_step [OF inv])
next
  case (BDrop c)
  obtain tds p w where p: "sleepq_drop c (cs_sleepq s) = Some (tds, p)" "s' = goto t (BDropped c tds []) (s\<lparr>cs_sleepq := p, cs_waiters := w\<rparr>)"
    using run nc BDrop by (auto split: option.splits)
  have a: "tds = sleepers (cs_sleepq s) c" "td_wchan p = (\<lambda>u. if asleep_on s u = Some c then None else asleep_on s u)"
    using wq.drop_asleep [OF iq_ok [OF q] p(1)] by simp_all
  have m: "u \<in> set tds \<longleftrightarrow> asleep_on s u = Some c" for u using sleepers_mem [OF iq_ok [OF q], of u c] a(1) by simp
  have "wake_step s t s'" by (rule wake_stepI [of s' s t "BDropped c tds []"]) (auto simp: BDrop p(2) a(2) m split: if_splits)
  then show ?thesis by (rule inv_wake_step [OF inv])
next
  case (WWake c m d r)
  have "wake_step s t s'"
  proof (cases "td_defer s t")
    case Nil
    then show ?thesis using run WWake by (auto simp: wake_next_def intro: wake_stepI)
  next
    case (Cons u us)
    then show ?thesis by (intro wake_stepI [of s' s t "cs_pc s t"]) (use run WWake in \<open>auto simp: wake_next_def\<close>)
  qed
  then show ?thesis by (rule inv_wake_step [OF inv])
next
  case (SFlush c td)
  have "wake_step s t s'"
  proof (cases "td_defer s t")
    case Nil
    then show ?thesis using run SFlush by (auto simp: wake_next_def intro: wake_stepI)
  next
    case (Cons u us)
    then show ?thesis by (intro wake_stepI [of s' s t "cs_pc s t"]) (use run SFlush in \<open>auto simp: wake_next_def\<close>)
  qed
  then show ?thesis by (rule inv_wake_step [OF inv])
next
  case (BFlush c tds ws)
  have "wake_step s t s'"
  proof (cases "td_defer s t")
    case Nil
    then show ?thesis using run BFlush by (auto simp: wake_next_def intro: wake_stepI)
  next
    case (Cons u us)
    then show ?thesis by (intro wake_stepI [of s' s t "cs_pc s t"]) (use run BFlush in \<open>auto simp: wake_next_def\<close>)
  qed
  then show ?thesis by (rule inv_wake_step [OF inv])
next
  case (WEnter c m d)
  then have "wake_step s t s'" using run nc by (auto simp: Let_def intro: wake_stepI split: if_splits)
  then show ?thesis by (rule inv_wake_step [OF inv])
next
  case (WClear c m d r)
  then have "wake_step s t s'" using run nc by (auto intro!: wake_stepI split: if_splits)
  then show ?thesis by (rule inv_wake_step [OF inv])
next
  case (WSleep c m d r)
  then have "wake_step s t s'" using run nc by (auto intro!: wake_stepI split: if_splits)
  then show ?thesis by (rule inv_wake_step [OF inv])
next
  case (BFlushDirect c tds ws)
  then have "wake_step s t s'" using run nc by (auto intro!: wake_stepI split: list.splits if_splits)
  then show ?thesis by (rule inv_wake_step [OF inv])
next
  case (BFreed ws)
  then have "wake_step s t s'" using run nc by (auto intro!: wake_stepI split: list.splits if_splits)
  then show ?thesis by (rule inv_wake_step [OF inv])
next
  case (SPicked c td)
  then have "wake_step s t s'" using run nc by (auto simp: defer_wake_def intro!: wake_stepI split: option.splits if_splits)
  then show ?thesis by (rule inv_wake_step [OF inv])
next
  case (BDropped c tds ws)
  then have "wake_step s t s'" using run nc by (auto simp: defer_wake_def queue_unlock_def intro!: wake_stepI split: list.splits option.splits if_splits)
  then show ?thesis by (rule inv_wake_step [OF inv])
next
  case (WUnlock c m d)
  then have "wake_step s t s'" using run nc by (auto simp: CvUnlock_def intro!: wake_stepI)
  then show ?thesis by (rule inv_wake_step [OF inv])
next
  case (SFree c w)
  then have "wake_step s t s'" using run nc by (auto simp: queue_unlock_def intro!: wake_stepI split: option.splits)
  then show ?thesis by (rule inv_wake_step [OF inv])
qed (use run nc in \<open>auto simp: queue_lock_def queue_unlock_def intro!: inv_wake_step [OF inv] wake_stepI split: if_splits option.splits\<close>)

subsection \<open>Deferred wake-ups\<close>

lemma mutex_next_flags:
  assumes "mutex_next t late m mpc = Some (m', mpc')" and "mx_owner m \<noteq> Some t"
  shows "mx_flags m' = mx_flags m"
  using assms by (cases mpc) (auto simp: m_lock_taken_def lock_timed_def split: if_splits deadline.splits elim!: mutex_next.elims)

lemma count_up_keeps: "mx_owner (snd (count_up m)) = mx_owner m" "mx_flags (snd (count_up m)) = mx_flags m"
  by (simp_all add: count_up_def)

lemma SelfLock_keeps: "SelfLock d m = Some (r, m') \<Longrightarrow> mx_owner m' = mx_owner m \<and> mx_flags m' = mx_flags m"
  using count_up_keeps [of m] by (cases d) (auto simp: SelfLock_def split: if_splits)

lemma SelfTryLock_keeps: "SelfTryLock m = (r, m') \<Longrightarrow> mx_owner m' = mx_owner m \<and> mx_flags m' = mx_flags m"
  using count_up_keeps [of m] by (auto simp: SelfTryLock_def split: if_splits)

lemma mutex_next_deferred:
  assumes run: "mutex_next t late m mpc = Some (m', mpc')" and own: "mx_owner m = Some t" "deferred_flag m"
  shows "mx_owner m' = Some t \<and> deferred_flag m' \<or> (\<exists>cv. mpc' = UnlockRelease True cv)"
proof (cases mpc)
  case (LockEnter d cv)
  show ?thesis
  proof (cases "SelfLock d m")
    case None
    then show ?thesis using run own LockEnter by simp
  next
    case (Some p)
    then obtain r mm where "SelfLock d m = Some (r, mm)" by (cases p) simp
    then show ?thesis using run own LockEnter SelfLock_keeps [of d m r mm] by (auto simp: deferred_flag_def)
  qed
next
  case TryEnter
  obtain r mm where r: "SelfTryLock m = (r, mm)" by fastforce
  then show ?thesis using run own TryEnter SelfTryLock_keeps [OF r] by (auto simp: deferred_flag_def)
next
  case (LockBlock d cv)
  then show ?thesis using run own by (cases d) (auto simp: m_lock_taken_def lock_timed_def deferred_flag_def split: if_splits)
qed (use run own in \<open>auto simp: m_lock_taken_def deferred_flag_def split: if_splits option.splits\<close>)

lemma cv_unlocking_next:
  assumes "mutex_ok (m, pcs)" and "mutex_next t late m (pcs t) = Some (m', mpc')" and "cv_unlocking (pcs t)"
  shows "cv_unlocking mpc' \<or> (\<exists>r. mpc' = CvWaiting r)"
  using assms mutex_okD(1) [OF assms(1), of t] by (cases "pcs t") (auto split: if_splits)

lemma access_cont:
  assumes run: "cond_access t late (cs_pc s t) s = Some s'" and nc: "\<not> crashed s'" and inv: "inv_cont s" and mx: "inv_mutex s"
  shows "inv_cont s'"
proof -
  have change: "inv_cont s'" if "cs_pc s' = (cs_pc s)(t := pc)" "cont_ok pc" for pc
    using inv that by (auto simp: inv_cont_def)
  show ?thesis
  proof (cases "cs_pc s t")
    case (CMutex m mpc k)
    from CMutex_access [OF run [unfolded CMutex]] consider
        u us where "s' = s\<lparr>td_sema := (td_sema s)(u := True), td_defer := (td_defer s)(t := us)\<rparr>"
      | m2 mpc' where "mutex_next t late (cs_mutex s m) mpc = Some (m2, mpc')"
          "s' = goto t (mutex_done m mpc' k) (s\<lparr>cs_mutex := (cs_mutex s)(m := m2)\<rparr>)" by blast
    then show ?thesis
    proof cases
      case 1
      then show ?thesis using inv by (simp add: inv_cont_def)
    next
      case 2
      have ok: "mutex_ok (cs_mutex s m, \<lambda>u. mutex_view m (cs_pc s u))" using mx by (simp add: inv_mutex_def)
      have nx: "mutex_next t late (cs_mutex s m) (mutex_view m (cs_pc s t)) = Some (m2, mpc')" using 2(1) CMutex by simp
      show ?thesis
      proof (rule change)
        show "cs_pc s' = (cs_pc s)(t := mutex_done m mpc' k)" using 2(2) by simp
        show "cont_ok (mutex_done m mpc' k)"
        proof (cases k)
          case (KUnlocked c d)
          then have "cv_unlocking (mutex_view m (cs_pc s t))"
            using inv CMutex unfolding inv_cont_def by (metis cont_ok.simps(1) mutex_view.simps(1))
          then have "cv_unlocking mpc' \<or> (\<exists>r. mpc' = CvWaiting r)" using cv_unlocking_next [OF ok nx] by blast
          then show ?thesis using KUnlocked mutex_done_cases [of m mpc' k] by (auto simp: mutex_done_def)
        qed (use mutex_done_cases [of m mpc' k] in auto)
      qed
    qed
  next
    case (WUnlock c m d)
    then show ?thesis using run by (intro change [of "CMutex m (UnlockEnter (Some (mx_count (cs_mutex s m)))) (KUnlocked c d)"]) (auto simp: CvUnlock_def)
  next
    case (WLeave c m r e)
    then show ?thesis using run by (intro change [of "CMutex m (CvLock r) (KLocked e)"]) (auto simp: queue_unlock_def)
  next
    case (WWake c m d r)
    then show ?thesis using run inv by (auto simp: wake_next_def inv_cont_def split: list.splits if_splits)
  next
    case (SFlush c td)
    then show ?thesis using run inv by (auto simp: wake_next_def inv_cont_def split: list.splits if_splits)
  next
    case (BFlush c tds ws)
    then show ?thesis using run inv by (auto simp: wake_next_def inv_cont_def split: list.splits if_splits)
  qed (use run inv in \<open>auto simp: queue_lock_def queue_unlock_def leave_queue_def defer_wake_def inv_cont_def Let_def
        split: if_splits option.splits list.splits\<close>)
qed

text \<open>The thread moves on; it keeps what it has deferred and the flags that will have it wake.\<close>

definition defer_step :: "cond_state \<Rightarrow> tid \<Rightarrow> cond_state \<Rightarrow> bool" where
  "defer_step s t s' \<longleftrightarrow>
     (\<exists>pc. cs_pc s' = (cs_pc s)(t := pc) \<and> (\<forall>u. u \<noteq> t \<longrightarrow> td_defer s' u = td_defer s u \<and> td_will_sleep s' u = td_will_sleep s u) \<and>
       (\<forall>u m. u \<noteq> t \<longrightarrow> mx_owner (cs_mutex s m) = Some u \<longrightarrow> deferred_flag (cs_mutex s m) \<longrightarrow>
          mx_owner (cs_mutex s' m) = Some u \<and> deferred_flag (cs_mutex s' m)) \<and>
       (td_will_sleep s' t \<longrightarrow> may_defer_sleep pc) \<and>
       (td_defer s' t = [] \<or> will_wake pc \<or> (\<exists>m. mx_owner (cs_mutex s' m) = Some t \<and> deferred_flag (cs_mutex s' m))))"

lemma inv_defer_step:
  assumes inv: "inv_defer s" and "defer_step s t s'"
  shows "inv_defer s'"
proof -
  obtain pc where pc: "cs_pc s' = (cs_pc s)(t := pc)"
    "\<And>u. u \<noteq> t \<Longrightarrow> td_defer s' u = td_defer s u \<and> td_will_sleep s' u = td_will_sleep s u"
    "\<And>u m. u \<noteq> t \<Longrightarrow> mx_owner (cs_mutex s m) = Some u \<Longrightarrow> deferred_flag (cs_mutex s m) \<Longrightarrow>
       mx_owner (cs_mutex s' m) = Some u \<and> deferred_flag (cs_mutex s' m)"
    "td_will_sleep s' t \<longrightarrow> may_defer_sleep pc"
    "td_defer s' t = [] \<or> will_wake pc \<or> (\<exists>m. mx_owner (cs_mutex s' m) = Some t \<and> deferred_flag (cs_mutex s' m))"
    using assms(2) unfolding defer_step_def by blast
  show ?thesis
    unfolding inv_defer_def
  proof (intro conjI allI impI)
    show "may_defer_sleep (cs_pc s' u)" if "td_will_sleep s' u" for u
      using that inv pc(2) [of u] pc(4) by (cases "u = t") (auto simp: pc(1) inv_defer_def)
    show "will_wake (cs_pc s' u) \<or> (\<exists>m. mx_owner (cs_mutex s' m) = Some u \<and> deferred_flag (cs_mutex s' m))" if u: "td_defer s' u \<noteq> []" for u
    proof (cases "u = t")
      case True
      then show ?thesis using u pc(5) by (auto simp: pc(1))
    next
      case False
      then have "will_wake (cs_pc s u) \<or> (\<exists>m. mx_owner (cs_mutex s m) = Some u \<and> deferred_flag (cs_mutex s m))"
        using u inv pc(2) by (simp add: inv_defer_def)
      then show ?thesis using pc(3) [OF False] False by (auto simp: pc(1))
    qed
  qed
qed

text \<open>The usual case: no mutex changes its owner or its flag.\<close>

lemma defer_stepI:
  assumes inv: "inv_defer s" and "cs_pc s' = (cs_pc s)(t := pc)"
    "\<And>n. mx_owner (cs_mutex s' n) = mx_owner (cs_mutex s n) \<and> deferred_flag (cs_mutex s' n) = deferred_flag (cs_mutex s n)"
    and "\<And>u. u \<noteq> t \<Longrightarrow> td_defer s' u = td_defer s u \<and> td_will_sleep s' u = td_will_sleep s u"
    and "td_will_sleep s' t \<Longrightarrow> may_defer_sleep pc"
    and "td_defer s' t \<noteq> [] \<Longrightarrow> td_defer s t \<noteq> [] \<and> (will_wake (cs_pc s t) \<longrightarrow> will_wake pc)"
  shows "defer_step s t s'"
proof -
  have "td_defer s' t = [] \<or> will_wake pc \<or> (\<exists>m. mx_owner (cs_mutex s' m) = Some t \<and> deferred_flag (cs_mutex s' m))"
    using inv assms(3,6) unfolding inv_defer_def by metis
  then show ?thesis unfolding defer_step_def using assms(2-5) by (intro exI [of _ pc]) auto
qed

lemma sleep_off: "inv_defer s \<Longrightarrow> \<not> may_defer_sleep (cs_pc s t) \<Longrightarrow> \<not> td_will_sleep s t"
  by (auto simp: inv_defer_def)

lemma deferred_flag_or: "deferred_flag (m\<lparr>mx_flags := mx_flags m OR MutexFlagsDeferred\<rparr>)"
proof -
  have "(x OR 0x200) AND 0x200 = 0x200" for x :: "32 word" by (metis and.commute word_ao_absorbs(1) or.commute)
  then show ?thesis by (simp add: deferred_flag_def MutexFlagsDeferred_def)
qed

lemma defer_step_defer:
  assumes inv: "inv_defer s" and "s' = goto t pc (defer_wake t td m s)" and "mx_owner (cs_mutex s m) = Some t"
    and "\<not> may_defer_sleep (cs_pc s t)"
  shows "defer_step s t s'"
  unfolding defer_step_def assms(2)
  using sleep_off [OF inv assms(4)] assms(3)
  by (intro exI [of _ pc]) (auto simp: defer_wake_def deferred_flag_or intro!: exI [of _ m])

lemma access_defer:
  assumes run: "cond_access t late (cs_pc s t) s = Some s'" and nc: "\<not> crashed s'" and inv: "inv_defer s"
    and mx: "inv_mutex s" and cont: "inv_cont s"
  shows "inv_defer s'"
proof -
  have off: "\<not> may_defer_sleep (cs_pc s t) \<Longrightarrow> \<not> td_will_sleep s t" by (rule sleep_off [OF inv])
  show ?thesis
  proof (cases "cs_pc s t")
  case (CMutex m mpc k)
  have ok: "mutex_ok (cs_mutex s m, \<lambda>u. mutex_view m (cs_pc s u))" using mx by (simp add: inv_mutex_def)
  from CMutex_access [OF run [unfolded CMutex]] consider
      u us where "td_defer s t = u # us" "s' = s\<lparr>td_sema := (td_sema s)(u := True), td_defer := (td_defer s)(t := us)\<rparr>"
    | m2 mpc' where "mutex_next t late (cs_mutex s m) mpc = Some (m2, mpc')"
        "\<forall>deferred cv. mpc = UnlockWake deferred cv \<longrightarrow> td_will_sleep s t \<or> \<not> deferred \<or> td_defer s t = []"
        "s' = goto t (mutex_done m mpc' k) (s\<lparr>cs_mutex := (cs_mutex s)(m := m2)\<rparr>)"
    by (elim disjE exE conjE; metis)
  then have "defer_step s t s'"
  proof cases
    case 1
    have "td_will_sleep s t \<Longrightarrow> may_defer_sleep (cs_pc s t)" using off by blast
    with 1 show ?thesis by (intro defer_stepI [OF inv, of s' t "cs_pc s t"]) auto
  next
    case 2
    note go = 2
    have d: "mutex_done m mpc' k \<noteq> CCrashed"
    proof
      assume "mutex_done m mpc' k = CCrashed"
      with 2(3) nc show False by simp
    qed
    have nx: "mutex_next t late (cs_mutex s m) (mutex_view m (cs_pc s t)) = Some (m2, mpc')" using 2(1) CMutex by simp
    have ws: "may_defer_sleep (mutex_done m mpc' k)" if w: "td_will_sleep s t"
    proof -
      obtain c e where "k = KUnlocked c e" using off w CMutex by (cases k) auto
      then show ?thesis using mutex_done_cases [of m mpc' k] d by auto
    qed
    have keep: "mx_owner m2 = Some u \<and> deferred_flag m2"
      if u: "u \<noteq> t" "mx_owner (cs_mutex s m) = Some u" "deferred_flag (cs_mutex s m)" for u
      using mutex_next_owner [OF ok nx u(2,1)] mutex_next_flags [OF 2(1)] u by (auto simp: deferred_flag_def)
    have mine: "td_defer s t = [] \<or> will_wake (mutex_done m mpc' k) \<or>
        (\<exists>n. mx_owner (cs_mutex s' n) = Some t \<and> deferred_flag (cs_mutex s' n))"
    proof (cases "td_defer s t = []")
      case False
      then consider "will_wake (cs_pc s t)" | n where "mx_owner (cs_mutex s n) = Some t" "deferred_flag (cs_mutex s n)"
        using inv unfolding inv_defer_def by blast
      then show ?thesis
      proof cases
        case 1
        then consider cv where "mpc = UnlockRelease True cv" | cv where "mpc = UnlockWake True cv" using CMutex by (cases mpc) auto
        then show ?thesis
        proof cases
          case 1
          then have "mpc' = UnlockWake True cv" using 2(1) by simp
          then show ?thesis by (cases k) (auto simp: mutex_done_def)
        next
          case 2
          then have "td_will_sleep s t" using False go(2) by blast
          then obtain c e where k: "k = KUnlocked c e" using off CMutex by (cases k) auto
          then have "cv \<noteq> None" using cont CMutex 2 unfolding inv_cont_def by (metis cont_ok.simps(1) cv_unlocking.simps(3))
          then show ?thesis using go(1) 2 k by (auto simp: mutex_done_def)
        qed
      next
        case n: 2
        show ?thesis
        proof (cases "n = m")
          case True
          then consider "mx_owner m2 = Some t \<and> deferred_flag m2" | cv where "mpc' = UnlockRelease True cv"
            using mutex_next_deferred [OF go(1)] n by blast
          then show ?thesis
          proof cases
            case 1
            then show ?thesis using go(3) by (auto intro!: exI [of _ m])
          next
            case 2
            then show ?thesis by (cases k) (auto simp: mutex_done_def)
          qed
        next
          case False
          then show ?thesis using n go(3) by (auto intro!: exI [of _ n])
        qed
      qed
    qed simp
    show ?thesis
      unfolding defer_step_def
      by (intro exI [of _ "mutex_done m mpc' k"]) (use go(3) ws keep mine in auto)
  qed
  then show ?thesis by (rule inv_defer_step [OF inv])
next
  case (WUnlock c m d)
  have "defer_step s t s'"
    by (rule defer_stepI [OF inv, of s' t "CMutex m (UnlockEnter (Some (mx_count (cs_mutex s m)))) (KUnlocked c d)"])
      (use run WUnlock in \<open>auto simp: CvUnlock_def deferred_flag_def split: if_splits\<close>)
  then show ?thesis by (rule inv_defer_step [OF inv])
next
  case (SPicked c td)
  then consider pc where "s' = goto t pc s" "\<not> will_wake pc" | m where "mx_owner (cs_mutex s m) = Some t" "s' = goto t (SFree c None) (defer_wake t td m s)"
    using run nc by (auto split: option.splits if_splits)
  then have "defer_step s t s'"
  proof cases
    case 1
    then show ?thesis using off SPicked by (intro defer_stepI [OF inv, of s' t pc]) auto
  next
    case 2
    then show ?thesis using SPicked by (intro defer_step_defer [OF inv 2(2,1)]) simp
  qed
  then show ?thesis by (rule inv_defer_step [OF inv])
next
  case (BDropped c tds ws)
  consider pc l where "s' = goto t pc (s\<lparr>cs_lock := l\<rparr>)" | m td rest where "mx_owner (cs_mutex s m) = Some t" "s' = goto t (BDropped c rest ws) (defer_wake t td m s)"
  proof (cases tds)
    case Nil
    then show ?thesis using that(1) [of "BFreed ws" "(cs_lock s)(SC_HASH c := None)"] run BDropped by (simp add: queue_unlock_def)
  next
    case (Cons td rest)
    then show ?thesis using that(1) [of _ "cs_lock s"] that(2) run nc BDropped by (auto split: option.splits if_splits)
  qed
  then have "defer_step s t s'"
  proof cases
    case 1
    then show ?thesis using off BDropped by (intro defer_stepI [OF inv, of s' t pc]) auto
  next
    case 2
    then show ?thesis using BDropped by (intro defer_step_defer [OF inv 2(2,1)]) simp
  qed
  then show ?thesis by (rule inv_defer_step [OF inv])
next
  case (WWake c m d r)
  have "defer_step s t s'"
  proof (cases "td_defer s t")
    case Nil
    then show ?thesis using run WWake off by (auto simp: wake_next_def intro: defer_stepI [OF inv])
  next
    case (Cons u us)
    then show ?thesis by (intro defer_stepI [OF inv, of s' t "cs_pc s t"]) (use run WWake off in \<open>auto simp: wake_next_def\<close>)
  qed
  then show ?thesis by (rule inv_defer_step [OF inv])
next
  case (SFlush c td)
  have "defer_step s t s'"
  proof (cases "td_defer s t")
    case Nil
    then show ?thesis using run SFlush off by (auto simp: wake_next_def intro: defer_stepI [OF inv])
  next
    case (Cons u us)
    then show ?thesis by (intro defer_stepI [OF inv, of s' t "cs_pc s t"]) (use run SFlush off in \<open>auto simp: wake_next_def\<close>)
  qed
  then show ?thesis by (rule inv_defer_step [OF inv])
next
  case (BFlush c tds ws)
  have "defer_step s t s'"
  proof (cases "td_defer s t")
    case Nil
    then show ?thesis using run BFlush off by (auto simp: wake_next_def intro: defer_stepI [OF inv])
  next
    case (Cons u us)
    then show ?thesis by (intro defer_stepI [OF inv, of s' t "cs_pc s t"]) (use run BFlush off in \<open>auto simp: wake_next_def\<close>)
  qed
  then show ?thesis by (rule inv_defer_step [OF inv])
next
  case (WEnter c m d)
  then have "defer_step s t s'" using run nc off by (auto simp: Let_def intro!: defer_stepI [OF inv] split: if_splits)
  then show ?thesis by (rule inv_defer_step [OF inv])
next
  case (WAdd c m d r)
  then have "defer_step s t s'" using run nc off by (auto intro!: defer_stepI [OF inv] split: option.splits)
  then show ?thesis by (rule inv_defer_step [OF inv])
next
  case (WSleep c m d r)
  then have "defer_step s t s'" using run nc off by (auto intro!: defer_stepI [OF inv] split: if_splits)
  then show ?thesis by (rule inv_defer_step [OF inv])
next
  case (WDecide c m r l)
  then have "defer_step s t s'" using run nc off by (auto simp: leave_queue_def intro!: defer_stepI [OF inv] split: if_splits option.splits)
  then show ?thesis by (rule inv_defer_step [OF inv])
next
  case (SPick c)
  then have "defer_step s t s'" using run nc off by (auto intro!: defer_stepI [OF inv] split: option.splits list.splits)
  then show ?thesis by (rule inv_defer_step [OF inv])
next
  case (BDrop c)
  then have "defer_step s t s'" using run nc off by (auto intro!: defer_stepI [OF inv] split: option.splits)
  then show ?thesis by (rule inv_defer_step [OF inv])
next
  case (BFlushDirect c tds ws)
  then have "defer_step s t s'" using run nc off by (auto intro!: defer_stepI [OF inv] split: list.splits)
  then show ?thesis by (rule inv_defer_step [OF inv])
next
  case (BFreed ws)
  then have "defer_step s t s'" using run nc off by (auto intro!: defer_stepI [OF inv] split: list.splits)
  then show ?thesis by (rule inv_defer_step [OF inv])
qed (use run nc off in \<open>auto simp: queue_lock_def queue_unlock_def intro!: inv_defer_step [OF inv] defer_stepI [OF inv] split: if_splits option.splits\<close>)
qed

subsection \<open>All reachable states\<close>

lemma access_inv:
  assumes "cond_access t late (cs_pc s t) s = Some s'" and "\<not> crashed s'" and "cond_inv s"
  shows "cond_inv s'"
  using assms inv_lock_change access_shape [OF assms(1,2)] access_mutex [OF assms(1,2)] access_queue [OF assms(1,2)]
    access_wake [OF assms(1,2)] access_cont [OF assms(1,2)] access_defer [OF assms(1,2)]
  unfolding cond_inv_def by metis

lemma cond_calls_cases:
  assumes "pc \<in> cond_calls"
  obtains m d where "pc = CMutex m (LockEnter d None) KCall" | m where "pc = CMutex m TryEnter KCall"
    | m where "pc = CMutex m (UnlockEnter None) KCall" | c m d where "pc = WEnter c m d" | c where "pc = SEnter c" | c where "pc = BEnter c"
  using assms unfolding cond_calls_def by blast

lemma call_shape:
  assumes "pc \<in> cond_calls"
  shows "queue_held pc = None \<and> queued_at pc = None \<and> \<not> just_queued pc \<and>
    undecided pc = [] \<and> in_hand pc = [] \<and> \<not> sleeping pc \<and> cont_ok pc \<and> owned_in_wait pc = None \<and>
    \<not> in_section (mutex_view m pc) \<and> saved (mutex_view m pc) = None \<and> place_ok own n (mutex_view m pc)"
  using assms by (cases rule: cond_calls_cases) simp_all

lemma rest_shape:
  assumes "between_calls pc"
  shows "queue_held pc = None \<and> queued_at pc = None \<and> in_hand pc = [] \<and> \<not> will_wake pc \<and> \<not> may_defer_sleep pc \<and> mutex_view m pc = MIdle"
  using assms unfolding between_calls_def by auto

lemma call_inv:
  assumes inv: "cond_inv s" and rest: "between_calls (cs_pc s t)" and pc: "pc \<in> cond_calls"
  shows "cond_inv (goto t pc s)"
proof -
  let ?s = "goto t pc s"
  note C = call_shape [OF pc] and R = rest_shape [OF rest]
  have I: "inv_lock s" "inv_mutex s" "inv_queue s" "inv_wake s" "inv_cont s" "inv_defer s" using inv by (simp_all add: cond_inv_def)
  have "inv_lock ?s" by (rule inv_lock_change [OF I(1), of _ t pc]) (use C R in simp_all)
  moreover have "inv_queue ?s" by (rule inv_queue_quiet [OF I(3) queue_quietI [of _ s t pc]]) (use C R in simp_all)
  moreover have "inv_wake ?s" by (rule inv_wake_step [OF I(4) wake_stepI [of _ s t pc]]) (use C R in auto)
  moreover have "inv_cont ?s" using I(5) C by (simp add: inv_cont_def)
  moreover have "inv_defer ?s"
    by (rule inv_defer_step [OF I(6) defer_stepI [OF I(6), of _ t pc]]) (use C R sleep_off [OF I(6), of t] in auto)
  moreover have "inv_mutex ?s"
    unfolding inv_mutex_def
  proof (intro conjI allI impI)
    show "mutex_ok (cs_mutex ?s m, \<lambda>u. mutex_view m (cs_pc ?s u))" for m
    proof -
      let ?v = "\<lambda>u. mutex_view m (cs_pc s u)" and ?m = "cs_mutex s m"
      have ok: "mutex_ok (?m, ?v)" using I(2) by (simp add: inv_mutex_def)
      have vt: "?v t = MIdle" using R by blast
      have n: "\<not> in_section (mutex_view m pc)" "saved (mutex_view m pc) = None" "place_ok own c (mutex_view m pc)" for own c
        using C by blast+
      have "mutex_ok (?m, ?v(t := mutex_view m pc))"
        by (rule mutex_ok_change [OF ok]) (use vt n mutex_okD(3,4) [OF ok] in \<open>simp_all add: holds_def\<close>)
      then show ?thesis by (simp add: view_upd)
    qed
    show "mx_owner (cs_mutex ?s m) = Some u" if "owned_in_wait (cs_pc ?s u) = Some m" for u m
      using that I(2) C by (cases "u = t") (auto simp: inv_mutex_def)
  qed
  ultimately show ?thesis by (simp add: cond_inv_def)
qed

lemma crashed_stays:
  assumes "cond_access t late (cs_pc s t) s = Some s'" and "crashed s"
  shows "crashed s'"
proof -
  obtain u where u: "cs_pc s u = CCrashed" using assms(2) by (auto simp: crashed_def)
  have "u \<noteq> t" using assms(1) u by auto
  show ?thesis
  proof (rule ccontr)
    assume n: "\<not> crashed s'"
    obtain pc where "cs_pc s' = (cs_pc s)(t := pc)" using access_shape [OF assms(1) n] by blast
    then have "cs_pc s' u = CCrashed" using u \<open>u \<noteq> t\<close> by simp
    then show False using n by (auto simp: crashed_def)
  qed
qed

lemma cond_init_inv:
  assumes "\<And>m. mutex_ok (mutexes m, \<lambda>_. MIdle)"
  shows "cond_inv (cond_init mutexes)"
  using assms sleepq_init_ok(1)
  by (auto simp: cond_inv_def cond_init_def inv_lock_def inv_mutex_def inv_queue_def inv_wake_def inv_cont_def inv_defer_def sleepq_init_def)

lemma cond_reach_inv:
  assumes "cond_reach (cond_init mutexes) s" and "\<And>m. mutex_ok (mutexes m, \<lambda>_. MIdle)"
  shows "crashed s \<or> cond_inv s"
  using assms(1)
proof (induction rule: cond_reach.induct)
  case start
  then show ?case using cond_init_inv assms(2) by blast
next
  case (call s t pc)
  have "crashed s \<Longrightarrow> crashed (goto t pc s)"
  proof -
    assume "crashed s"
    then obtain u where u: "cs_pc s u = CCrashed" by (auto simp: crashed_def)
    then have "u \<noteq> t" using call(2) by (auto simp: between_calls_def)
    then show "crashed (goto t pc s)" using u by (auto simp: crashed_def)
  qed
  then show ?case using call call_inv by blast
next
  case (cancel s t b)
  then show ?case by (auto simp: crashed_def cond_inv_def inv_lock_def inv_mutex_def inv_queue_def inv_wake_def wake_pending_def inv_cont_def inv_defer_def)
next
  case (access s t late s')
  then show ?case using crashed_stays access_inv by blast
qed

end
