(* ===== verification/Orbit_Locks.thy ===== *)
theory Orbit_Locks
  imports Orbit_CondInv
begin

text \<open>Properties of the locks.\<close>

subsection \<open>A call by one thread alone\<close>

text \<open>The call started at \<open>pc\<close>, run without interference for at most \<open>n\<close> accesses.\<close>

fun mutex_alone :: "nat \<Rightarrow> tid \<Rightarrow> PthreadMutex \<Rightarrow> mutex_pc \<Rightarrow> (PthreadMutex \<times> s32) option" where
  "mutex_alone n t m (MReturned ret) = Some (m, ret)"
| "mutex_alone 0 t m pc = None"
| "mutex_alone (Suc n) t m pc =
     (case mutex_next t False m pc of None \<Rightarrow> None | Some (m', pc') \<Rightarrow> mutex_alone n t m' pc')"

text \<open>The same call \<open>k\<close> times, and the values it returned.\<close>

primrec mutex_repeat :: "nat \<Rightarrow> tid \<Rightarrow> mutex_pc \<Rightarrow> PthreadMutex \<Rightarrow> (PthreadMutex \<times> s32 list) option" where
  "mutex_repeat 0 t pc m = Some (m, [])"
| "mutex_repeat (Suc k) t pc m =
     (case mutex_repeat k t pc m of
        None \<Rightarrow> None
      | Some (m', rets) \<Rightarrow> map_option (\<lambda>(m'', ret). (m'', rets @ [ret])) (mutex_alone 6 t m' pc))"

lemma mutex_alone_Suc:
  "(\<forall>ret. pc \<noteq> MReturned ret) \<Longrightarrow>
   mutex_alone (Suc n) t m pc = (case mutex_next t False m pc of None \<Rightarrow> None | Some (m', pc') \<Rightarrow> mutex_alone n t m' pc')"
  by (cases pc) auto

lemma alone_lock_free:
  assumes "\<not> mx_lock m" and "mx_owner m \<noteq> Some t"
  shows "mutex_alone 6 t m (LockEnter NoTimeout None) = Some (m\<lparr>mx_lock := True, mx_owner := Some t\<rparr>, 0)"
  using assms by (simp add: eval_nat_numeral m_lock_taken_def)

lemma alone_relock:
  assumes "MutexType m = MutexRecursive" and "mx_owner m = Some t" and "0 \<le> mx_count m" and "mx_count m < 2 ^ 31 - 1"
  shows "mutex_alone 6 t m (LockEnter NoTimeout None) = Some (m\<lparr>mx_count := mx_count m + 1\<rparr>, 0)"
proof -
  have "wrap_s32 (mx_count m + 1) = mx_count m + 1" using assms by (intro wrap_s32_exact) auto
  then show ?thesis using assms
    by (simp add: eval_nat_numeral SelfLock_def mutex_enum_defs count_up_def)
qed

lemma alone_unlock_inner:
  assumes "MutexType m = MutexRecursive" and "mx_owner m = Some t" and "0 < mx_count m"
  shows "mutex_alone 6 t m (UnlockEnter None) = Some (m\<lparr>mx_count := mx_count m - 1\<rparr>, 0)"
  using assms by (simp add: eval_nat_numeral)

lemma alone_unlock_last:
  assumes "mx_owner m = Some t" and "mx_count m = 0"
  shows "mutex_alone 6 t m (UnlockEnter None) =
    Some (m\<lparr>mx_lock := False, mx_flags := mx_flags m AND NOT MutexFlagsDeferred, mx_owner := None\<rparr>, 0)"
  using assms by (simp add: eval_nat_numeral)

lemma repeat_lock:
  assumes ty: "MutexType m = MutexRecursive" and new: "\<not> mx_lock m" "mx_owner m = None" "mx_count m = 0"
  shows "k \<le> 2 ^ 31 \<Longrightarrow> 0 < k \<Longrightarrow> mutex_repeat k t (LockEnter NoTimeout None) m =
    Some (m\<lparr>mx_lock := True, mx_owner := Some t, mx_count := int k - 1\<rparr>, replicate k 0)"
proof (induction k)
  case (Suc k)
  show ?case
  proof (cases k)
    case 0
    then show ?thesis using alone_lock_free [of m t] new by (cases m) simp
  next
    case (Suc j)
    let ?m = "m\<lparr>mx_lock := True, mx_owner := Some t, mx_count := int k - 1\<rparr>"
    have "mutex_alone 6 t ?m (LockEnter NoTimeout None) = Some (?m\<lparr>mx_count := mx_count ?m + 1\<rparr>, 0)"
      using Suc.prems Suc ty by (intro alone_relock) auto
    then show ?thesis using Suc.IH Suc.prems Suc by (simp add: replicate_append_same)
  qed
qed simp

lemma repeat_unlock:
  assumes ty: "MutexType m = MutexRecursive" and own: "mx_owner m = Some t"
  shows "int k \<le> mx_count m \<Longrightarrow> mutex_repeat k t (UnlockEnter None) m = Some (m\<lparr>mx_count := mx_count m - int k\<rparr>, replicate k 0)"
proof (induction k)
  case (Suc k)
  let ?m = "m\<lparr>mx_count := mx_count m - int k\<rparr>"
  have "mutex_alone 6 t ?m (UnlockEnter None) = Some (?m\<lparr>mx_count := mx_count ?m - 1\<rparr>, 0)"
    using Suc.prems ty own by (intro alone_unlock_inner) auto
  then show ?case using Suc by (simp add: replicate_append_same algebra_simps)
qed simp

lemma and_not_absent: "x AND d = 0 \<Longrightarrow> x AND NOT d = x" for x :: "32 word"
proof -
  assume a: "x AND d = 0"
  have "x = x AND (d OR NOT d)" by simp
  also have "\<dots> = (x AND d) OR (x AND NOT d)" by (rule bit.conj_disj_distrib)
  finally show ?thesis using a by simp
qed

text \<open>
  C26: a recursive mutex counts.  On a fresh recursive mutex a thread can lock \<open>k\<close> times for every \<open>k\<close>
  up to \<open>2\<^sup>31\<close>, the most that the signed 32-bit counter can hold, and every lock returns 0.  Any
  \<open>j < k\<close> unlocks leave the thread the owner with the host lock taken, and exactly \<open>k\<close> give the mutex
  back as it was.
\<close>

theorem recursive_mutex_counts:
  assumes ty: "MutexType m = MutexRecursive" and new: "\<not> mx_lock m" "mx_owner m = None" "mx_count m = 0"
    and def: "mx_flags m AND MutexFlagsDeferred = 0" and k: "0 < k" "k \<le> 2 ^ 31"
  shows "\<exists>m'. mutex_repeat k t (LockEnter NoTimeout None) m = Some (m', replicate k 0) \<and>
    mx_owner m' = Some t \<and> mx_lock m' \<and>
    (\<forall>j<k. \<exists>m''. mutex_repeat j t (UnlockEnter None) m' = Some (m'', replicate j 0) \<and> mx_owner m'' = Some t \<and> mx_lock m'') \<and>
    mutex_repeat k t (UnlockEnter None) m' = Some (m, replicate k 0)"
proof -
  let ?m = "m\<lparr>mx_lock := True, mx_owner := Some t, mx_count := int k - 1\<rparr>"
  have t: "MutexType ?m = MutexRecursive" using ty by simp
  have un: "mutex_repeat j t (UnlockEnter None) ?m = Some (?m\<lparr>mx_count := int k - 1 - int j\<rparr>, replicate j 0)" if "j < k" for j
    using repeat_unlock [OF t, of t j] that by simp
  obtain i where i: "k = Suc i" using k(1) gr0_implies_Suc by blast
  have "mutex_alone 6 t (?m\<lparr>mx_count := 0\<rparr>) (UnlockEnter None) = Some (m, 0)"
    using alone_unlock_last [of "?m\<lparr>mx_count := 0\<rparr>" t] new and_not_absent [OF def] by (cases m) simp
  then have "mutex_repeat k t (UnlockEnter None) ?m = Some (m, replicate k 0)"
    using un [of i] i by (simp add: replicate_append_same)
  moreover have "\<forall>j<k. \<exists>m''. mutex_repeat j t (UnlockEnter None) ?m = Some (m'', replicate j 0) \<and> mx_owner m'' = Some t \<and> mx_lock m''"
    using un by simp
  moreover have "mx_owner ?m = Some t \<and> mx_lock ?m" by simp
  ultimately show ?thesis using repeat_lock [OF ty new k(2,1), of t] by blast
qed

theorem recursive_mutex_counts_witness:
  "\<exists>m'. mutex_repeat 3 7 (LockEnter NoTimeout None) (PthreadMutex_new \<lparr>ma_type = MutexRecursive, ma_protocol = ProtNone, ma_ceiling = 0\<rparr>)
      = Some (m', replicate 3 0) \<and> mx_owner m' = Some 7 \<and> mx_lock m' \<and>
    mutex_repeat 3 7 (UnlockEnter None) m' =
      Some (PthreadMutex_new \<lparr>ma_type = MutexRecursive, ma_protocol = ProtNone, ma_ceiling = 0\<rparr>, replicate 3 0)"
  using recursive_mutex_counts [of "PthreadMutex_new \<lparr>ma_type = MutexRecursive, ma_protocol = ProtNone, ma_ceiling = 0\<rparr>" 3 7]
    PthreadMutex_new_ok(2) [of "\<lparr>ma_type = MutexRecursive, ma_protocol = ProtNone, ma_ceiling = 0\<rparr>"]
  by (auto simp: attr_accepted_def PthreadMutex_new_def mutex_enum_defs)

text \<open>
  The owner of a mutex that is not recursive cannot lock it again: a timed lock times out (or reports a bad time), an
  untimed one reports a deadlock or, on a normal mutex, stops the emulator; \<^verbatim>\<open>trylock\<close> reports \<^verbatim>\<open>EBUSY\<close>.
\<close>

lemma relock_errors:
  assumes "type_known m" and "MutexType m \<noteq> MutexRecursive"
  shows "SelfTryLock m = (POSIX_EBUSY, m)"
    and "d \<noteq> NoTimeout \<Longrightarrow> SelfLock d m = Some (DoSleep d, m)"
    and "SelfLock NoTimeout m = (if MutexType m = MutexNormal then None else Some (POSIX_EDEADLK, m))"
  using assms by (auto simp: type_known_def SelfTryLock_def SelfLock_def mutex_enum_defs)

subsection \<open>Mutual exclusion\<close>

lemma MutexInit_new:
  assumes "MutexInit new var attr w = (0, w')" and "mw_heap w' (mw_var w' var) = Some m0"
  shows "\<exists>a. attr_accepted a \<and> m0 = PthreadMutex_new a"
  using assms
proof -
  have d: "attr_accepted PthreadMutexattrDefault"
    by (simp add: attr_accepted_def PthreadMutexattrDefault_def mutex_enum_defs word_le_nat_alt word_less_nat_alt)
  show ?thesis using assms d by (auto simp: MutexInit_def posix_codes split: if_splits option.splits)
qed

text \<open>A step of one thread does not take the mutex from another.\<close>

lemma others_keep:
  assumes ok: "mutex_ok (m, pcs)" and h: "holds m pcs t" and v: "v \<noteq> t" and step: "mutex_next v late m (pcs v) = Some (m', pc)"
  shows "holds m' (pcs(v := pc)) t"
proof -
  obtain o' where o': "\<And>u. holds m pcs u \<longleftrightarrow> o' = Some u" using ok unfolding mutex_ok_def prod.case by blast
  have "\<not> holds m pcs v" using o' [of t] o' [of v] h v by simp
  then have nv: "mx_owner m \<noteq> Some v" "\<not> in_section (pcs v)" by (simp_all add: holds_def)
  have "mx_owner m' = mx_owner m"
    using step nv by (cases "(v, late, m, pcs v)" rule: mutex_next.cases) (simp_all add: m_lock_taken_def lock_timed_def split: if_splits, auto)
  then show ?thesis using h v by (simp add: holds_def)
qed

text \<open>
  C27: mutual exclusion.  However the calls of any number of threads interleave on a mutex that
  \<^verbatim>\<open>pthread_mutex_init\<close> created, with waits on condition variables among them, at most one thread is
  between taking and releasing it, the host lock is taken exactly while one is, and the owner that
  \<^verbatim>\<open>m_owner\<close> names is that thread.  No step of another thread takes the mutex from it, and an unlock by a thread
  that is not the owner returns \<^verbatim>\<open>EPERM\<close> and changes nothing.  The type of the mutex never changes; its count is zero
  unless the mutex is recursive and owned.
\<close>

theorem mutex_excludes:
  assumes init: "posix_pthread_mutex_init new var attr w = (0, w')" "mw_heap w' (mw_var w' var) = Some m0"
    and reach: "mutex_reach m0 (m, pcs)"
  shows "(holds m pcs t \<and> holds m pcs u \<longrightarrow> t = u) \<and> (mx_lock m \<longleftrightarrow> (\<exists>t. holds m pcs t)) \<and>
    (mx_owner m = Some t \<longrightarrow> holds m pcs t) \<and>
    (\<forall>v late m' pc. holds m pcs t \<longrightarrow> v \<noteq> t \<longrightarrow> mutex_next v late m (pcs v) = Some (m', pc) \<longrightarrow> holds m' (pcs(v := pc)) t) \<and>
    (mx_owner m \<noteq> Some t \<longrightarrow> mutex_next t late m (UnlockEnter None) = Some (m, MReturned POSIX_EPERM)) \<and>
    MutexType m = MutexType m0 \<and> type_known m \<and>
    (mx_count m \<noteq> 0 \<longrightarrow> mx_owner m \<noteq> None \<and> MutexType m = MutexRecursive)"
proof -
  obtain a where a: "attr_accepted a" "m0 = PthreadMutex_new a"
    using MutexInit_new init unfolding posix_pthread_mutex_init_def by blast
  have ok: "mutex_ok (m, pcs)" "MutexType m = MutexType m0"
    using mutex_reach_ok [OF reach] PthreadMutex_new_ok(1) [OF a(1)] a(2) by simp_all
  have ty: "type_known m" using PthreadMutex_new_ok(3) [OF a(1)] a(2) ok(2) by (simp add: type_known_def)
  have one: "(holds m pcs t \<and> holds m pcs u \<longrightarrow> t = u) \<and> (mx_lock m \<longleftrightarrow> (\<exists>t. holds m pcs t))"
    using ok(1) by (auto simp: mutex_ok_def)
  have count: "mx_count m \<noteq> 0 \<longrightarrow> mx_owner m \<noteq> None \<and> MutexType m = MutexRecursive"
    using ok(1) by (auto simp: mutex_ok_def count_fits_def)
  have own: "mx_owner m = Some t \<longrightarrow> holds m pcs t" by (simp add: holds_def)
  have perm: "mx_owner m \<noteq> Some t \<longrightarrow> mutex_next t late m (UnlockEnter None) = Some (m, MReturned POSIX_EPERM)" by simp
  show ?thesis using one count own perm ty ok(2) others_keep [OF ok(1)] by blast
qed

lemma mutex_reach_access:
  "mutex_reach m0 (m, pcs) \<Longrightarrow> mutex_next t late m (pcs t) = Some (m', pc) \<Longrightarrow> pcs' = pcs(t := pc) \<Longrightarrow> mutex_reach m0 (m', pcs')"
  by (simp add: mutex_reach.access)

text \<open>An uncontended lock of a fresh default mutex, up to the host lock.\<close>

lemma reach_owned:
  fixes m0 :: PthreadMutex
  defines "m0 \<equiv> PthreadMutex_new PthreadMutexattrDefault"
  shows "mutex_reach m0 (m0\<lparr>mx_lock := True\<rparr>, (\<lambda>_. MIdle)(t := LockOwned None))"
proof -
  have r: "mutex_reach m0 (m0, (\<lambda>_. MIdle)(t := LockEnter NoTimeout None))"
    by (rule mutex_reach.call [OF mutex_reach.start]) (auto simp: resting_def)
  have r: "mutex_reach m0 (m0, (\<lambda>_. MIdle)(t := LockSpin NoTimeout None 0))"
    by (rule mutex_reach_access [OF r, of t]) (auto simp: m0_def PthreadMutex_new_def PthreadMutexattrDefault_def mutex_enum_defs)
  have r: "mutex_reach m0 (m0, (\<lambda>_. MIdle)(t := LockYield NoTimeout None 0))"
    by (rule mutex_reach_access [OF r, of t]) (auto simp: m0_def PthreadMutex_new_def PthreadMutexattrDefault_def mutex_enum_defs)
  have r: "mutex_reach m0 (m0, (\<lambda>_. MIdle)(t := LockBlock NoTimeout None))"
    by (rule mutex_reach_access [OF r, of t]) auto
  show ?thesis
    by (rule mutex_reach_access [OF r, of t]) (auto simp: m0_def PthreadMutex_new_def m_lock_taken_def)
qed

theorem mutex_excludes_witness:
  "\<exists>m pcs. mutex_reach (PthreadMutex_new PthreadMutexattrDefault) (m, pcs) \<and> holds m pcs 1 \<and> mx_owner m = None \<and> mx_lock m \<and>
     mx_count m = 0 \<and> pcs (2::nat) = TryTake \<and> (\<forall>u. \<not> holds m pcs u \<or> u = 1)"
proof -
  let ?new = "PthreadMutex_new PthreadMutexattrDefault"
  let ?w = "\<lparr>mw_var = \<lambda>_. 0, mw_heap = Map.empty\<rparr>"
  let ?m = "?new\<lparr>mx_lock := True\<rparr>"
  let ?pcs = "(\<lambda>_. MIdle)(1 := LockOwned None, 2 := TryTake)"
  have "mutex_reach ?new (?m, (\<lambda>_. MIdle)(1 := LockOwned None, 2 := TryEnter))"
    by (rule mutex_reach.call [OF reach_owned [of 1]]) (auto simp: resting_def)
  then have r: "mutex_reach ?new (?m, ?pcs)"
    by (rule mutex_reach_access [where t = 2]) (auto simp: PthreadMutex_new_def)
  have i: "posix_pthread_mutex_init (Some 4096) 8 None ?w =
      (0, ?w\<lparr>mw_var := (\<lambda>_. 0)(8 := 4096), mw_heap := [4096 \<mapsto> ?new]\<rparr>)"
    by (simp add: posix_pthread_mutex_init_def MutexInit_def)
  have h: "holds ?m ?pcs 1" by (simp add: holds_def)
  have c: "mx_lock ?m \<and> mx_count ?m = 0 \<and> mx_owner ?m = None" by (simp add: PthreadMutex_new_def)
  have "\<not> holds ?m ?pcs u \<or> u = 1" for u using mutex_excludes [OF i _ r, of 1 u] h by auto
  then show ?thesis using r h c by (intro exI [of _ ?m] exI [of _ ?pcs]) auto
qed

subsection \<open>The spin loops\<close>

text \<open>The thread keeps making accesses while another holds the host lock.\<close>

primrec mutex_accesses :: "nat \<Rightarrow> tid \<Rightarrow> PthreadMutex \<Rightarrow> mutex_pc \<Rightarrow> (PthreadMutex \<times> mutex_pc) option" where
  "mutex_accesses 0 t m pc = Some (m, pc)"
| "mutex_accesses (Suc n) t m pc =
     (case mutex_next t False m pc of None \<Rightarrow> None | Some (m', pc') \<Rightarrow> mutex_accesses n t m' pc')"

lemma mutex_accesses_add:
  "mutex_accesses n t m pc = Some (m', pc') \<Longrightarrow> mutex_accesses (n + k) t m pc = mutex_accesses k t m' pc'"
  by (induction n arbitrary: m pc) (auto split: option.splits)

definition tries :: "s32 \<Rightarrow> nat" where
  "tries count = nat (count mod 2 ^ 32)"

lemma wrap_s32_mod: "wrap_s32 x mod 4294967296 = x mod 4294967296"
proof -
  have "take_bit 32 (signed_take_bit 31 x) = take_bit 32 x" by (simp add: take_bit_signed_take_bit)
  then show ?thesis by (simp add: wrap_s32_def signed_of_int take_bit_eq_mod)
qed

lemma tries_step: "count mod 2 ^ 32 \<noteq> 0 \<Longrightarrow> tries count = Suc (tries (wrap_s32 (count - 1)))"
proof -
  assume nz: "count mod 2 ^ 32 \<noteq> 0"
  have "(count - 1) mod 2 ^ 32 = count mod 2 ^ 32 - 1"
  proof -
    have "0 \<le> count mod 2 ^ 32 - 1" "count mod 2 ^ 32 - 1 < 2 ^ 32" using nz pos_mod_bound [of "2 ^ 32" count] pos_mod_sign [of "2 ^ 32" count] by simp_all
    then show ?thesis by (metis mod_diff_left_eq mod_pos_pos_trivial)
  qed
  moreover have "0 < count mod 2 ^ 32" using nz pos_mod_sign [of "2 ^ 32" count] by simp
  ultimately show ?thesis by (simp add: tries_def wrap_s32_mod Suc_nat_eq_nat_zadd1 del: nat_minus_as_int)
qed

lemma s32_mod_zero: "- (2 ^ 31) \<le> c \<Longrightarrow> c < 2 ^ 31 \<Longrightarrow> c mod 2 ^ 32 = 0 \<longleftrightarrow> c = (0 :: int)"
proof -
  assume b: "- (2 ^ 31) \<le> c" "c < 2 ^ 31"
  show ?thesis
  proof (cases "0 \<le> c")
    case False
    have "c mod 2 ^ 32 = (c + 2 ^ 32) mod 2 ^ 32" by simp
    also have "\<dots> = c + 2 ^ 32" using False b by (intro mod_pos_pos_trivial) auto
    finally have "c mod 2 ^ 32 = c + 2 ^ 32" .
    then show ?thesis using b by simp
  qed (use b in simp)
qed

lemma wrap_s32_range: "- (2 ^ 31) \<le> wrap_s32 x" "wrap_s32 x < 2 ^ 31"
  using sint_greater_eq [of "word_of_int x :: 32 word"] sint_less [of "word_of_int x :: 32 word"]
  by (simp_all add: wrap_s32_def)

lemma spin_accesses:
  assumes "mx_lock m"
  shows "- (2 ^ 31) \<le> c \<Longrightarrow> c < 2 ^ 31 \<Longrightarrow>
    mutex_accesses (Suc (tries c)) t m (LockSpin d cv c) = Some (m, LockYield d cv (mx_yieldloops m))"
    and "- (2 ^ 31) \<le> c \<Longrightarrow> c < 2 ^ 31 \<Longrightarrow> mutex_accesses (Suc (tries c)) t m (LockYield d cv c) = Some (m, LockBlock d cv)"
proof (induction "tries c" arbitrary: c)
  case 0
  {
    case 1
    with 0 show ?case using tries_step [of c] s32_mod_zero [of c] by (cases "c = 0") auto
  next
    case 2
    with 0 show ?case using tries_step [of c] s32_mod_zero [of c] by (cases "c = 0") auto
  }
next
  case (Suc n)
  have z: "c \<noteq> 0" using Suc(3) by (auto simp: tries_def)
  {
    case 1
    have s: "tries c = Suc (tries (wrap_s32 (c - 1)))" using tries_step [of c] s32_mod_zero [OF 1] z by simp
    then show ?case using Suc.hyps(1) [of "wrap_s32 (c - 1)"] Suc.hyps(3) wrap_s32_range [of "c - 1"] z assms by simp
  next
    case 2
    have s: "tries c = Suc (tries (wrap_s32 (c - 1)))" using tries_step [of c] s32_mod_zero [OF 2] z by simp
    then show ?case using Suc.hyps(2) [of "wrap_s32 (c - 1)"] Suc.hyps(3) wrap_s32_range [of "c - 1"] z assms by simp
  }
qed

text \<open>
  A contended lock spins a bounded number of times and then blocks.  While another thread keeps the
  host lock, \<^verbatim>\<open>Lock\<close> on a mutex without a protocol makes its \<open>m_spinloops\<close> and \<open>m_yieldloops\<close> attempts
  and reaches the blocking wait, having changed nothing; the counts are read as unsigned, so a negative
  one is over two thousand million attempts.
\<close>

theorem mutex_spin_bounded:
  assumes "mx_lock m" and "mx_owner m \<noteq> Some t" and "mx_protocol m = ProtNone"
    and "- (2 ^ 31) \<le> mx_spinloops m" "mx_spinloops m < 2 ^ 31" "- (2 ^ 31) \<le> mx_yieldloops m" "mx_yieldloops m < 2 ^ 31"
  shows "mutex_accesses (1 + Suc (tries (mx_spinloops m)) + Suc (tries (mx_yieldloops m))) t m (LockEnter d cv) = Some (m, LockBlock d cv)"
proof -
  have "mutex_accesses 1 t m (LockEnter d cv) = Some (m, LockSpin d cv (mx_spinloops m))"
    using assms(2,3) by simp
  then show ?thesis
    using spin_accesses [OF assms(1)] assms mutex_accesses_add by (metis add.assoc)
qed

theorem mutex_spin_bounded_witness:
  "let m = (PthreadMutex_new PthreadMutexattrAdaptiveDefault)\<lparr>mx_lock := True, mx_owner := Some 1\<rparr> in
   mutex_accesses 2003 2 m (LockEnter NoTimeout None) = Some (m, LockBlock NoTimeout None) \<and>
   tries (- 1) = 4294967295"
  using mutex_spin_bounded [of "(PthreadMutex_new PthreadMutexattrAdaptiveDefault)\<lparr>mx_lock := True, mx_owner := Some 1\<rparr>" 2 NoTimeout None]
  by (simp add: PthreadMutex_new_def PthreadMutexattrAdaptiveDefault_def MUTEX_ADAPTIVE_SPINS_def tries_def Let_def del: mutex_accesses.simps)

subsection \<open>Sleep queues\<close>

text \<open>
  C28: the sleep queues are waiting lists.  Under the invariant, which every operation keeps, a thread that
  waits nowhere is added in front of its address's list; one that waits is removed, with the flag telling
  whether others still wait; dropping empties the list and hands over its threads in order.  No operation
  on an address touches the list of another, and none meets a null pointer or an empty free list.
\<close>

theorem sleepq_refines_lists:
  assumes "sleepq_ok s"
  shows "(td_wchan s t = None \<longrightarrow>
      (\<exists>s'. SleepqAdd w t s = Some s' \<and> sleepq_ok s' \<and> sleepers s' = (sleepers s)(w := t # sleepers s w))) \<and>
    (td_wchan s t = Some w \<longrightarrow>
      (\<exists>s'. sleepq_remove w t s = Some (removeAll t (sleepers s w) \<noteq> [], s') \<and> sleepq_ok s' \<and>
        sleepers s' = (sleepers s)(w := removeAll t (sleepers s w)))) \<and>
    (\<exists>s'. sleepq_drop w s = Some (sleepers s w, s') \<and> sleepq_ok s' \<and> sleepers s' = (sleepers s)(w := []))"
  using wq.add_ok [OF assms, of t w] wq.remove_ok [OF assms, of t w] wq.drop_ok [OF assms, of w] wq.mem [OF assms, of t w] by simp

theorem sleepq_refines_lists_witness:
  "\<exists>a b c. SleepqAdd 64 1 sleepq_init = Some a \<and> SleepqAdd 64 2 a = Some b \<and> sleepq_remove 64 1 b = Some (True, c) \<and>
     sleepers b 64 = [2, 1] \<and> sleepers c 64 = [2]"
proof -
  have i: "sleepq_ok sleepq_init" "sleepers sleepq_init 64 = []" "td_wchan sleepq_init 1 = None"
    by (simp_all add: sleepq_init_ok) (simp add: sleepq_init_def)
  obtain a where a: "SleepqAdd 64 1 sleepq_init = Some a" "sleepq_ok a" "sleepers a 64 = [1]"
    using sleepq_refines_lists [OF i(1), of 1 64] i by auto
  have "td_wchan a 2 = None" using a(1) by (auto simp: SleepqAdd_def sleepq_init_def SleepqLookup_def)
  then obtain b where b: "SleepqAdd 64 2 a = Some b" "sleepq_ok b" "sleepers b 64 = [2, 1]"
    using sleepq_refines_lists [OF a(2), of 2 64] a(3) by auto
  have "td_wchan b 1 = Some 64" using sleepers_mem [OF b(2), of 1 64] b(3) by simp
  then obtain c where "sleepq_remove 64 1 b = Some (True, c)" "sleepers c 64 = [2]"
    using sleepq_refines_lists [OF b(2), of 1 64] b(3) by auto
  then show ?thesis using a b by blast
qed

text \<open>
  \<^verbatim>\<open>pthread_cond_signalto_np\<close> takes its thread off the queue of the condition variable without asking
  whether it is there.
\<close>

definition signalto_pick :: "nat \<Rightarrow> tid \<Rightarrow> cond_state \<Rightarrow> (bool \<times> sleepq) option" where
  "signalto_pick c thread s =
     (case SleepqLookup c (cs_sleepq s) of
        None \<Rightarrow> Some (cs_waiters s c, cs_sleepq s)
      | Some sq \<Rightarrow> if td_mutex_obj s thread = None then None else SleepqRemove sq thread (cs_sleepq s))"

text \<open>
  C31: signalling a thread that does not wait there breaks the queue.  If one other thread waits on the
  condition variable, the call takes the front of an empty free list or follows a null mutex pointer; if
  more do, it leaves the queues in a state outside their invariant, the named thread now owning a queue
  object of another.
\<close>

theorem signalto_breaks_queue:
  assumes ok: "sleepq_ok (cs_sleepq s)" and others: "sleepers (cs_sleepq s) c \<noteq> []" and out: "t \<notin> set (sleepers (cs_sleepq s) c)"
  shows "case signalto_pick c t s of None \<Rightarrow> True | Some (r, q) \<Rightarrow> length (sleepers (cs_sleepq s) c) \<ge> 2 \<and> \<not> sleepq_ok q"
proof -
  let ?q = "cs_sleepq s"
  obtain sq where l: "SleepqLookup c ?q = Some sq" using others by (cases "SleepqLookup c ?q") (auto simp: sleepers_def)
  then have sq: "chained ?q sq" "sq_wchan ?q sq = c" using SleepqLookup_chained [OF ok] by simp_all
  have sl: "sleepers ?q c = sq_blocked ?q sq" using l by (simp add: sleepers_def)
  have b: "removeAll t (sq_blocked ?q sq) = sq_blocked ?q sq" using out sl by (simp add: removeAll_id)
  show ?thesis
  proof (cases "signalto_pick c t s")
    case (Some p)
    then obtain r q where p: "p = (r, q)" "SleepqRemove sq t ?q = Some (r, q)"
      using l by (cases p) (auto simp: signalto_pick_def split: if_splits)
    obtain f fs where f: "sq_freeq ?q sq = f # fs"
      using p(2) b others sl by (auto simp: SleepqRemove_def Let_def split: list.splits)
    have q: "q = ?q\<lparr>sq_blocked := (sq_blocked ?q)(sq := sq_blocked ?q sq), td_sleepqueue := (td_sleepqueue ?q)(t := Some f),
        sq_freeq := (sq_freeq ?q)(sq := fs), td_wchan := (td_wchan ?q)(t := None)\<rparr>"
      using p(2) b others sl f by (simp add: SleepqRemove_def Let_def)
    have len: "length (sq_blocked ?q sq) = Suc (length (f # fs))" using sok_chained [OF ok sq(1)] f by simp
    have "\<not> sleepq_ok q"
    proof
      assume "sleepq_ok q"
      moreover have "chained q sq" using sq(1) by (simp add: chained_def q)
      ultimately have "length (sq_blocked q sq) = Suc (length (sq_freeq q sq))" using sok_chained by blast
      then show False using len by (simp add: q)
    qed
    then show ?thesis using Some p len sl by simp
  qed simp
qed

theorem signalto_breaks_queue_witness:
  "\<exists>q s. SleepqAdd 64 2 sleepq_init = Some q \<and> cs_sleepq s = q \<and> sleepers q 64 = [2] \<and> signalto_pick 64 7 s = None"
proof -
  obtain q where q: "SleepqAdd 64 2 sleepq_init = Some q" "sleepq_ok q" "sleepers q 64 = [2]"
    using SleepqAdd_ok [OF sleepq_init_ok(1), of 2 64] sleepq_init_ok(2) [of 64] by (auto simp: sleepq_init_def)
  let ?s = "(cond_init (\<lambda>_. PthreadMutex_new PthreadMutexattrDefault))\<lparr>cs_sleepq := q\<rparr>"
  have "signalto_pick 64 7 ?s = None"
    using signalto_breaks_queue [of ?s 64 7] q(2,3) by (cases "signalto_pick 64 7 ?s") auto
  moreover have "cs_sleepq ?s = q" by simp
  ultimately show ?thesis using q by blast
qed

subsection \<open>Condition variables\<close>

text \<open>The mutexes of the program, as \<^verbatim>\<open>pthread_mutex_init\<close> leaves them.\<close>

definition fresh_mutexes :: "(nat \<Rightarrow> PthreadMutex) \<Rightarrow> bool" where
  "fresh_mutexes mutexes \<longleftrightarrow> (\<forall>m. \<exists>a. attr_accepted a \<and> mutexes m = PthreadMutex_new a)"

lemma reach_cond_inv:
  assumes "cond_reach (cond_init mutexes) s" and "fresh_mutexes mutexes" and "\<not> crashed s"
  shows "cond_inv s"
proof -
  have "mutex_ok (mutexes m, \<lambda>_. MIdle)" for m
    using assms(2) PthreadMutex_new_ok(1) unfolding fresh_mutexes_def by metis
  then show ?thesis using cond_reach_inv [OF assms(1)] assms(3) by blast
qed

text \<open>
  C29: no wake-up is lost.  Whenever a thread sleeps in a wait although a signal or a broadcast has taken it
  off the queue, its semaphore is already released, or the thread that took it off still has it in hand,
  or has deferred it; and a thread that has deferred a wake-up either owns a mutex marked for it, so that
  its unlock will wake, or is already on the way through that unlock or to its own sleep, which both wake.
\<close>

theorem cond_no_lost_wakeup:
  assumes "cond_reach (cond_init mutexes) s" and "fresh_mutexes mutexes" and "\<not> crashed s"
    and "cs_pc s t = WSleep c m abstime recurse" and "td_wchan (cs_sleepq s) t = None"
  shows "td_sema s t \<or> (\<exists>a. t \<in> set (in_hand (cs_pc s a))) \<or>
    (\<exists>a. t \<in> set (td_defer s a) \<and>
      (will_wake (cs_pc s a) \<or> (\<exists>m. mx_owner (cs_mutex s m) = Some a \<and> deferred_flag (cs_mutex s m))))"
proof -
  have inv: "cond_inv s" by (rule reach_cond_inv [OF assms(1-3)])
  then have "td_sema s t \<or> wake_pending s t" using assms(4,5) by (auto simp: cond_inv_def inv_wake_def)
  moreover have "will_wake (cs_pc s a) \<or> (\<exists>m. mx_owner (cs_mutex s m) = Some a \<and> deferred_flag (cs_mutex s m))"
    if "t \<in> set (td_defer s a)" for a
    using inv that unfolding cond_inv_def inv_defer_def by (metis empty_iff list.set(1))
  ultimately show ?thesis unfolding wake_pending_def by blast
qed

text \<open>A run given by its events.\<close>

datatype cond_event = Starts tid cond_pc | Goes tid bool

fun cond_run :: "cond_event list \<Rightarrow> cond_state \<Rightarrow> cond_state option" where
  "cond_run [] s = Some s"
| "cond_run (Starts t pc # es) s = (if between_calls (cs_pc s t) \<and> pc \<in> cond_calls then cond_run es (goto t pc s) else None)"
| "cond_run (Goes t late # es) s = (case cond_access t late (cs_pc s t) s of None \<Rightarrow> None | Some s' \<Rightarrow> cond_run es s')"

lemma cond_run_reach: "cond_run es s = Some s' \<Longrightarrow> cond_reach s0 s \<Longrightarrow> cond_reach s0 s'"
proof (induction es s rule: cond_run.induct)
  case (2 t pc es s)
  then show ?case using cond_reach.call [of s0 s t pc] by (auto split: if_splits)
next
  case (3 t late es s)
  then show ?case using cond_reach.access [of s0 s t late] by (auto split: option.splits)
qed simp

text \<open>An access moves only its own thread, so a run crashes no thread that takes no part in it.\<close>

lemma access_other_pc:
  assumes "cond_access t late pc s = Some s'" and "u \<noteq> t"
  shows "cs_pc s' u = cs_pc s u"
proof (cases pc)
  case (CMutex m mpc k)
  then show ?thesis using CMutex_access [of t late m mpc k s s'] assms by auto
qed (use assms in \<open>auto simp: queue_lock_def queue_unlock_def wake_next_def leave_queue_def defer_wake_def CvUnlock_def Let_def
      split: if_splits option.splits list.splits prod.splits\<close>)

fun event_thread :: "cond_event \<Rightarrow> tid" where
  "event_thread (Starts t pc) = t"
| "event_thread (Goes t late) = t"

lemma cond_run_other: "cond_run es s = Some s' \<Longrightarrow> \<forall>e \<in> set es. event_thread e \<noteq> u \<Longrightarrow> cs_pc s' u = cs_pc s u"
proof (induction es s rule: cond_run.induct)
  case (3 t late es s)
  then show ?case using access_other_pc [of t late "cs_pc s t" s _ u] by (auto split: option.splits)
qed (auto split: if_splits)

lemma run_not_crashed:
  assumes "cond_run es (cond_init mutexes) = Some s" and "\<forall>e \<in> set es. event_thread e \<in> {1, 2}"
    and "cs_pc s 1 \<noteq> CCrashed" "cs_pc s 2 \<noteq> CCrashed"
  shows "\<not> crashed s"
  unfolding crashed_def
proof
  assume "\<exists>t. cs_pc s t = CCrashed"
  then obtain t where t: "cs_pc s t = CCrashed" by blast
  then have "t \<notin> {1, 2}" using assms(3,4) by auto
  then have "cs_pc s t = cs_pc (cond_init mutexes) t" using assms(2) by (intro cond_run_other [OF assms(1)]) auto
  then show False using t by (simp add: cond_init_def)
qed

lemma between_calls_code [code]:
  "between_calls pc = (case pc of CIdle \<Rightarrow> True | CReturned ret \<Rightarrow> True | _ \<Rightarrow> False)"
  by (cases pc) (auto simp: between_calls_def)

fun is_call :: "cond_pc \<Rightarrow> bool" where
  "is_call (CMutex m (LockEnter abstime None) KCall) = True"
| "is_call (CMutex m TryEnter KCall) = True"
| "is_call (CMutex m (UnlockEnter None) KCall) = True"
| "is_call (WEnter c m (AbsTime ts)) = (timedwait_check (Some ts) = None)"
| "is_call (WEnter c m abstime) = True"
| "is_call (SEnter c) = True"
| "is_call (BEnter c) = True"
| "is_call _ = False"

lemma cond_calls_code [code_unfold]: "pc \<in> cond_calls \<longleftrightarrow> is_call pc"
  by (cases pc rule: is_call.cases) (auto simp: cond_calls_def)

text \<open>
  Thread 1 locks the mutex 16 and waits with a timeout on the condition variable 8; thread 2 signals.
\<close>

definition signal_run :: "cond_event list" where
  "signal_run =
     Starts 1 (CMutex 16 (LockEnter NoTimeout None) KCall) # replicate 5 (Goes 1 False) @
     Starts 1 (WEnter 8 16 (RelTime 100)) # replicate 10 (Goes 1 False) @
     Starts 2 (SEnter 8) # replicate 4 (Goes 2 False)"

text \<open>
  The wait times out before thread 2 releases the semaphore, thread 1 waits again, and only then does the
  semaphore wake it, from a queue it is still on.
\<close>

definition late_release_run :: "cond_event list" where
  "late_release_run = signal_run @
     Goes 1 True # replicate 9 (Goes 1 False) @
     Starts 1 (WEnter 8 16 (RelTime 100)) # replicate 10 (Goes 1 False) @
     Goes 2 False # replicate 3 (Goes 1 False)"

definition default_mutexes :: "nat \<Rightarrow> PthreadMutex" where
  "default_mutexes = (\<lambda>_. PthreadMutex_new PthreadMutexattrDefault)"

lemma default_mutexes_fresh: "fresh_mutexes default_mutexes"
  unfolding fresh_mutexes_def default_mutexes_def
  by (intro allI exI [of _ PthreadMutexattrDefault])
    (simp add: attr_accepted_def PthreadMutexattrDefault_def mutex_enum_defs word_le_nat_alt word_less_nat_alt)

lemma signal_run_ends:
  "map_option (\<lambda>s. (cs_pc s 1, cs_pc s 2, td_wchan (cs_sleepq s) 1)) (cond_run signal_run (cond_init default_mutexes)) =
   Some (WSleep 8 16 (RelTime 100) 0, SFreed 1, None)"
  by code_simp

theorem cond_no_lost_wakeup_witness:
  "\<exists>s. cond_run signal_run (cond_init default_mutexes) = Some s \<and> td_wchan (cs_sleepq s) 1 = None \<and>
     (td_sema s 1 \<or> (\<exists>a. 1 \<in> set (in_hand (cs_pc s a))) \<or> (\<exists>a. 1 \<in> set (td_defer s a)))"
proof -
  obtain s where s: "cond_run signal_run (cond_init default_mutexes) = Some s" "cs_pc s 1 = WSleep 8 16 (RelTime 100) 0"
    "cs_pc s 2 = SFreed 1" "td_wchan (cs_sleepq s) 1 = None"
    using signal_run_ends by auto
  have r: "cond_reach (cond_init default_mutexes) s" by (rule cond_run_reach [OF s(1) cond_reach.start])
  have "\<not> crashed s" by (rule run_not_crashed [OF s(1)]) (auto simp: s(2) [simplified] s(3) signal_run_def)
  then show ?thesis using cond_no_lost_wakeup [OF r default_mutexes_fresh _ s(2,4)] s by blast
qed

lemma crashed_fields [simp]:
  "crashed (s\<lparr>cs_sleepq := a\<rparr>) = crashed s" "crashed (s\<lparr>cs_lock := b\<rparr>) = crashed s" "crashed (s\<lparr>cs_mutex := c\<rparr>) = crashed s"
  "crashed (s\<lparr>cs_waiters := d\<rparr>) = crashed s" "crashed (s\<lparr>td_sema := e\<rparr>) = crashed s" "crashed (s\<lparr>td_mutex_obj := f\<rparr>) = crashed s"
  "crashed (s\<lparr>td_will_sleep := e\<rparr>) = crashed s" "crashed (s\<lparr>td_defer := g\<rparr>) = crashed s"
  by (simp_all add: crashed_def)

lemma crashed_goto_iff: "\<not> crashed s \<Longrightarrow> crashed (goto t pc s) \<longleftrightarrow> pc = CCrashed"
  by (auto simp: crashed_def)

text \<open>Where the aborts would come from, access by access.\<close>

lemma crashed_step:
  "\<not> crashed s \<Longrightarrow> cs_pc s' = (cs_pc s)(t := pc) \<Longrightarrow> crashed s' \<longleftrightarrow> pc = CCrashed"
  "\<not> crashed s \<Longrightarrow> cs_pc s' = cs_pc s \<Longrightarrow> \<not> crashed s'"
  by (auto simp: crashed_def)

lemma mutex_aborts:
  assumes n: "\<not> crashed s" and run: "cond_access t late (CMutex m mpc k) s = Some s'" and bad: "crashed s'" and pc: "cs_pc s t = CMutex m mpc k"
  shows "\<exists>cv. mpc = LockEnter NoTimeout cv \<and> MutexType (cs_mutex s m) = MutexNormal \<and> mx_owner (cs_mutex s m) = Some t"
proof -
  from CMutex_access [OF run] consider "cs_pc s' = cs_pc s"
    | mx mpc' where "mutex_next t late (cs_mutex s m) mpc = Some (mx, mpc')" "cs_pc s' = (cs_pc s)(t := mutex_done m mpc' k)" by fastforce
  then show ?thesis
  proof cases
    case 1
    then show ?thesis using crashed_step(2) [OF n 1] bad by simp
  next
    case 2
    then have "mpc' = MAborted" using crashed_step(1) [OF n 2(2)] bad mutex_done_cases [of m mpc' k] by fastforce
    then show ?thesis using 2(1)
      by (cases mpc) (auto simp: lock_timed_def SelfLock_def split: if_splits option.splits deadline.splits prod.splits elim!: mutex_next.elims)
  qed
qed

lemma add_aborts_not:
  assumes q: "inv_queue s" and n: "\<not> crashed s" and pc: "cs_pc s t = WEnter c m d \<or> cs_pc s t = WAdd c m d r"
    and run: "cond_access t late (cs_pc s t) s = Some s'"
  shows "\<not> crashed s'"
proof -
  note C = crashed_goto_iff n
  have "asleep_on s t = None" using iq_at [OF q, of t] pc by (cases "asleep_on s t") auto
  then show ?thesis using run pc wq.add_ok [OF iq_ok [OF q], of t c] by (auto simp: C Let_def split: if_splits)
qed

lemma decide_aborts:
  assumes q: "inv_queue s" and n: "\<not> crashed s" and pc: "cs_pc s t = WDecide c m r l"
    and run: "cond_access t late (cs_pc s t) s = Some s'" and bad: "crashed s'"
  shows "\<not> l \<and> td_wchan (cs_sleepq s) t = Some c \<and> \<not> td_cancel s t"
proof (cases "asleep_on s t")
  case None
  then show ?thesis using run bad pc by (auto simp: crashed_goto_iff n)
next
  case (Some e)
  then have e: "asleep_on s t = Some c" using iq_at [OF q Some] pc by simp
  have t: "t \<in> set (sleepers (cs_sleepq s) c)" using sleepers_mem [OF iq_ok [OF q]] e by simp
  obtain b p where "sleepq_remove c t (cs_sleepq s) = Some (b, p)" using sleepq_remove_ok [OF iq_ok [OF q] t] by blast
  then show ?thesis using run bad pc e by (auto simp: crashed_goto_iff n leave_queue_def split: if_splits)
qed

lemma pick_aborts_not:
  assumes q: "inv_queue s" and n: "\<not> crashed s" and pc: "cs_pc s t = SPick c" and run: "cond_access t late (cs_pc s t) s = Some s'"
  shows "\<not> crashed s'"
proof (cases "SleepqLookup c (cs_sleepq s)")
  case None
  then show ?thesis using run pc by (auto simp: crashed_goto_iff n)
next
  case (Some sq)
  note ok = iq_ok [OF q]
  have sq: "chained (cs_sleepq s) sq" "sq_wchan (cs_sleepq s) sq = c" using SleepqLookup_chained [OF ok] Some by simp_all
  obtain td tds where td: "sq_blocked (cs_sleepq s) sq = td # tds" using sok_chained [OF ok sq(1)] by (cases "sq_blocked (cs_sleepq s) sq") auto
  then obtain b p where "SleepqRemove sq td (cs_sleepq s) = Some (b, p)" using SleepqRemove_ok [OF ok sq, of td] by auto
  then show ?thesis using run pc Some td by (auto simp: crashed_goto_iff n)
qed

lemma hand_over_aborts_not:
  assumes q: "inv_queue s" and n: "\<not> crashed s" and pc: "cs_pc s t = SPicked c td \<or> cs_pc s t = BDropped c tds ws"
    and run: "cond_access t late (cs_pc s t) s = Some s'"
  shows "\<not> crashed s'"
proof -
  note C = crashed_goto_iff n
  have hand: "td_mutex_obj s u \<noteq> None" if "u \<in> set (undecided (cs_pc s t))" for u
    using iq_undecided [OF q that] iq_mutex [OF q] by fastforce
  show ?thesis
  proof (cases "cs_pc s t = SPicked c td")
    case True
    then obtain m where "td_mutex_obj s td = Some m" using hand [of td] by auto
    then show ?thesis using run True by (auto simp: C defer_wake_def split: if_splits)
  next
    case False
    then have d: "cs_pc s t = BDropped c tds ws" using pc by simp
    show ?thesis
    proof (cases tds)
      case Nil
      then show ?thesis using run d by (auto simp: C queue_unlock_def)
    next
      case (Cons u rest)
      then obtain m where "td_mutex_obj s u = Some m" using hand [of u] d by auto
      then show ?thesis using run d Cons by (auto simp: C defer_wake_def split: if_splits)
    qed
  qed
qed

text \<open>
  C30: what can stop the emulator.  In a reachable state the calls reach no null pointer and no empty list: only two
  accesses abort.  One is the relock, without a deadline, of a normal mutex by its owner; the other is that of a waiter
  that finds itself awake while still on the queue, neither timed out nor cancelled.
\<close>

theorem cond_aborts_only:
  assumes "cond_reach (cond_init mutexes) s" and "fresh_mutexes mutexes" and n: "\<not> crashed s"
    and run: "cond_access t late (cs_pc s t) s = Some s'" and bad: "crashed s'"
  shows "(\<exists>c m r. cs_pc s t = WDecide c m r False \<and> td_wchan (cs_sleepq s) t = Some c \<and> \<not> td_cancel s t) \<or>
    (\<exists>m cv k. cs_pc s t = CMutex m (LockEnter NoTimeout cv) k \<and> MutexType (cs_mutex s m) = MutexNormal \<and>
       mx_owner (cs_mutex s m) = Some t)"
proof -
  have inv: "cond_inv s" by (rule reach_cond_inv [OF assms(1-3)])
  then have q: "inv_queue s" by (simp add: cond_inv_def)
  note C = crashed_goto_iff n
  show ?thesis
  proof (cases "cs_pc s t")
    case (CMutex m mpc k)
    show ?thesis using mutex_aborts [OF n run [unfolded CMutex] bad CMutex] CMutex by auto
  next
    case (WDecide c m r l)
    show ?thesis using decide_aborts [OF q n WDecide run bad] WDecide by auto
  next
    case (BDrop c)
    then show ?thesis using run bad sleepq_drop_ok [OF iq_ok [OF q], of c] by (auto simp: C)
  next
    case (WEnter c m d)
    show ?thesis using add_aborts_not [OF q n _ run] WEnter bad by blast
  next
    case (WAdd c m d r)
    show ?thesis using add_aborts_not [OF q n _ run] WAdd bad by blast
  next
    case (SPick c)
    show ?thesis using pick_aborts_not [OF q n SPick run] bad by simp
  next
    case (SPicked c td)
    show ?thesis using hand_over_aborts_not [OF q n _ run] SPicked bad by blast
  next
    case (BDropped c tds ws)
    show ?thesis using hand_over_aborts_not [OF q n _ run] BDropped bad by blast
  qed (use run bad in \<open>auto simp: C wake_next_def queue_lock_def queue_unlock_def CvUnlock_def CvLock_def split: if_splits option.splits list.splits\<close>)
qed

lemma late_release_run_nearly:
  "map_option (\<lambda>s. (cs_pc s 1, cs_pc s 2, map_option (\<lambda>s. cs_pc s 1) (cond_access 1 False (cs_pc s 1) s)))
     (cond_run (butlast late_release_run) (cond_init default_mutexes)) =
   Some (WDecide 8 16 0 False, CReturned 0, Some CCrashed)"
  by code_simp

theorem cond_aborts_only_witness:
  "\<exists>s. cond_run (butlast late_release_run) (cond_init default_mutexes) = Some s \<and> \<not> crashed s \<and>
     cs_pc s 1 = WDecide 8 16 0 False \<and> td_wchan (cs_sleepq s) 1 = Some 8 \<and> \<not> td_cancel s 1"
proof -
  obtain s s' where s: "cond_run (butlast late_release_run) (cond_init default_mutexes) = Some s" "cs_pc s 1 = WDecide 8 16 0 False"
    "cs_pc s 2 = CReturned 0" "cond_access 1 False (cs_pc s 1) s = Some s'" "cs_pc s' 1 = CCrashed"
    using late_release_run_nearly by auto
  have r: "cond_reach (cond_init default_mutexes) s" by (rule cond_run_reach [OF s(1) cond_reach.start])
  have n: "\<not> crashed s" by (rule run_not_crashed [OF s(1)]) (auto simp: s(2) [simplified] s(3) late_release_run_def signal_run_def butlast_append dest: in_set_butlastD)
  have "crashed s'" using s(5) by (auto simp: crashed_def)
  then show ?thesis using cond_aborts_only [OF r default_mutexes_fresh n s(4)] s n by auto
qed

text \<open>
  The second abort happens.  In \<open>late_release_run\<close> a timed wait, a signal and a second wait of the same thread
  interleave so that the semaphore of the first wait is released during the second: when the signal has returned, the
  waiter is awake on the queue although its second wait has neither timed out nor been signalled, and its next access
  stops the emulator.
\<close>

lemma cond_late_release_aborts:
  "\<exists>s s'. cond_run (butlast late_release_run) (cond_init default_mutexes) = Some s \<and> cs_pc s 1 = WDecide 8 16 0 False \<and>
     cs_pc s 2 = CReturned 0 \<and> cond_access 1 False (cs_pc s 1) s = Some s' \<and> cs_pc s' 1 = CCrashed"
proof -
  obtain s s' where "cond_run (butlast late_release_run) (cond_init default_mutexes) = Some s" "cs_pc s 1 = WDecide 8 16 0 False"
    "cs_pc s 2 = CReturned 0" "cond_access 1 False (cs_pc s 1) s = Some s'" "cs_pc s' 1 = CCrashed"
    using late_release_run_nearly by auto
  then show ?thesis by blast
qed

end
