(* ===== verification/Orbit_MutexAttr.thy ===== *)
theory Orbit_MutexAttr
  imports Orbit_Mutex
begin

text \<open>
  The attributes of mutexes (\<^verbatim>\<open>src/core/libraries/kernel/threads/mutex.cpp\<close>, from line 357).  An attribute
  variable is null or owns its attributes; a pointer to a variable may be null as well.  Every call gives its
  result, what it stores through its second pointer (if the source stores anything), and the variables.
\<close>

subsection \<open>Calls\<close>

definition ORBIS_KERNEL_PRIO_FIFO_LOWEST :: s32 where "ORBIS_KERNEL_PRIO_FIFO_LOWEST = 256"
definition ORBIS_KERNEL_PRIO_FIFO_HIGHEST :: s32 where "ORBIS_KERNEL_PRIO_FIFO_HIGHEST = 767"
definition ORBIS_KERNEL_PRIO_RR_HIGHEST :: s32 where "ORBIS_KERNEL_PRIO_RR_HIGHEST = 767"

lemmas priority_bounds = ORBIS_KERNEL_PRIO_FIFO_LOWEST_def ORBIS_KERNEL_PRIO_FIFO_HIGHEST_def ORBIS_KERNEL_PRIO_RR_HIGHEST_def

type_synonym mutexattr_cells = "nat \<Rightarrow> PthreadMutexAttr option"

definition posix_pthread_mutexattr_init :: "bool \<Rightarrow> nat \<Rightarrow> mutexattr_cells \<Rightarrow> s32 \<times> mutexattr_cells" where
  "posix_pthread_mutexattr_init alloc a cells =
     (if alloc then (0, cells(a \<mapsto> PthreadMutexattrDefault)) else (POSIX_ENOMEM, cells))"

text \<open>The two calls that report through the error number give it as well.\<close>

definition posix_pthread_mutexattr_setkind_np ::
    "nat option \<Rightarrow> 32 word \<Rightarrow> mutexattr_cells \<Rightarrow> (s32 \<times> s32 option) \<times> mutexattr_cells" where
  "posix_pthread_mutexattr_setkind_np attr kind cells =
     (case deref cells attr of
        None \<Rightarrow> ((- 1, Some POSIX_EINVAL), cells)
      | Some (a, x) \<Rightarrow> ((0, None), cells(a \<mapsto> x\<lparr>ma_type := kind\<rparr>)))"

definition posix_pthread_mutexattr_getkind_np :: "PthreadMutexAttr option \<Rightarrow> s32 \<times> s32 option" where
  "posix_pthread_mutexattr_getkind_np attr =
     (case attr of None \<Rightarrow> (- 1, Some POSIX_EINVAL) | Some x \<Rightarrow> (sint (ma_type x), None))"

definition posix_pthread_mutexattr_setprioceiling :: "nat option \<Rightarrow> s32 \<Rightarrow> mutexattr_cells \<Rightarrow> s32 \<times> mutexattr_cells" where
  "posix_pthread_mutexattr_setprioceiling attr prioceiling cells =
     (case deref cells attr of
        None \<Rightarrow> (POSIX_EINVAL, cells)
      | Some (a, x) \<Rightarrow>
          if ma_protocol x \<noteq> ProtProtect \<or> prioceiling > ORBIS_KERNEL_PRIO_FIFO_HIGHEST \<or>
             prioceiling < ORBIS_KERNEL_PRIO_FIFO_LOWEST
          then (POSIX_EINVAL, cells) else (0, cells(a \<mapsto> x\<lparr>ma_ceiling := prioceiling\<rparr>)))"

definition posix_pthread_mutexattr_getprioceiling :: "nat option \<Rightarrow> mutexattr_cells \<Rightarrow> s32 \<times> s32 option" where
  "posix_pthread_mutexattr_getprioceiling attr cells =
     (case deref cells attr of
        None \<Rightarrow> (POSIX_EINVAL, None)
      | Some (a, x) \<Rightarrow> if ma_protocol x \<noteq> ProtProtect then (POSIX_EINVAL, None) else (0, Some (ma_ceiling x)))"

definition posix_pthread_mutexattr_setprotocol :: "nat option \<Rightarrow> 32 word \<Rightarrow> mutexattr_cells \<Rightarrow> s32 \<times> mutexattr_cells" where
  "posix_pthread_mutexattr_setprotocol mattr protocol cells =
     (case deref cells mattr of
        None \<Rightarrow> (POSIX_EINVAL, cells)
      | Some (a, x) \<Rightarrow>
          if protocol < ProtNone \<or> protocol > ProtProtect then (POSIX_EINVAL, cells)
          else (0, cells(a \<mapsto> x\<lparr>ma_protocol := protocol, ma_ceiling := ORBIS_KERNEL_PRIO_RR_HIGHEST\<rparr>)))"

definition posix_pthread_mutexattr_getprotocol :: "nat option \<Rightarrow> mutexattr_cells \<Rightarrow> s32 \<times> 32 word option" where
  "posix_pthread_mutexattr_getprotocol mattr cells =
     (case deref cells mattr of None \<Rightarrow> (POSIX_EINVAL, None) | Some (a, x) \<Rightarrow> (0, Some (ma_protocol x)))"

definition posix_pthread_mutexattr_setpshared :: "nat option \<Rightarrow> s32 \<Rightarrow> mutexattr_cells \<Rightarrow> s32" where
  "posix_pthread_mutexattr_setpshared attr pshared cells =
     (if deref cells attr = None \<or> pshared \<noteq> 0 then POSIX_EINVAL else 0)"

definition posix_pthread_mutexattr_getpshared :: "nat option \<Rightarrow> mutexattr_cells \<Rightarrow> s32 \<times> s32 option" where
  "posix_pthread_mutexattr_getpshared attr cells =
     (if deref cells attr = None then (POSIX_EINVAL, None) else (0, Some 0))"

definition posix_pthread_mutexattr_settype :: "nat option \<Rightarrow> 32 word \<Rightarrow> mutexattr_cells \<Rightarrow> s32 \<times> mutexattr_cells" where
  "posix_pthread_mutexattr_settype attr kind cells =
     (case deref cells attr of
        None \<Rightarrow> (POSIX_EINVAL, cells)
      | Some (a, x) \<Rightarrow>
          if kind < MutexErrorCheck \<or> kind \<ge> MutexTypeMax then (POSIX_EINVAL, cells)
          else (0, cells(a \<mapsto> x\<lparr>ma_type := kind\<rparr>)))"

definition posix_pthread_mutexattr_gettype :: "nat option \<Rightarrow> mutexattr_cells \<Rightarrow> s32 \<times> 32 word option" where
  "posix_pthread_mutexattr_gettype attr cells =
     (case deref cells attr of
        None \<Rightarrow> (POSIX_EINVAL, None)
      | Some (a, x) \<Rightarrow> if ma_type x \<ge> MutexTypeMax then (POSIX_EINVAL, None) else (0, Some (ma_type x)))"

definition posix_pthread_mutexattr_destroy :: "nat option \<Rightarrow> mutexattr_cells \<Rightarrow> s32 \<times> mutexattr_cells" where
  "posix_pthread_mutexattr_destroy attr cells =
     (case deref cells attr of None \<Rightarrow> (POSIX_EINVAL, cells) | Some (a, x) \<Rightarrow> (0, cells(a := None)))"

lemmas mutexattr_setters = posix_pthread_mutexattr_setprioceiling_def posix_pthread_mutexattr_setprotocol_def
  posix_pthread_mutexattr_settype_def posix_pthread_mutexattr_destroy_def posix_pthread_mutexattr_init_def

subsection \<open>Well-formed attributes\<close>

text \<open>
  The variables after any calls to the setters that check their argument.  \<^verbatim>\<open>setkind_np\<close> is the one that
  does not.
\<close>

inductive mutexattr_reach :: "mutexattr_cells \<Rightarrow> bool" where
  start: "mutexattr_reach (\<lambda>_. None)"
| new: "mutexattr_reach cells \<Longrightarrow> mutexattr_reach (snd (posix_pthread_mutexattr_init alloc a cells))"
| settype: "mutexattr_reach cells \<Longrightarrow> mutexattr_reach (snd (posix_pthread_mutexattr_settype attr kind cells))"
| setprotocol: "mutexattr_reach cells \<Longrightarrow> mutexattr_reach (snd (posix_pthread_mutexattr_setprotocol attr protocol cells))"
| setprioceiling: "mutexattr_reach cells \<Longrightarrow> mutexattr_reach (snd (posix_pthread_mutexattr_setprioceiling attr prioceiling cells))"
| destroy: "mutexattr_reach cells \<Longrightarrow> mutexattr_reach (snd (posix_pthread_mutexattr_destroy attr cells))"

definition mutexattr_ok :: "PthreadMutexAttr \<Rightarrow> bool" where
  "mutexattr_ok x \<longleftrightarrow> attr_accepted x \<and>
     (ma_protocol x = ProtProtect \<longrightarrow> ma_ceiling x \<in> {ORBIS_KERNEL_PRIO_FIFO_LOWEST .. ORBIS_KERNEL_PRIO_FIFO_HIGHEST})"

lemma deref_SomeD: "deref cells p = Some (a, x) \<Longrightarrow> p = Some a \<and> cells a = Some x"
  by (auto simp: deref_def split: option.splits)

lemma default_attr_ok: "mutexattr_ok PthreadMutexattrDefault"
  by (simp add: mutexattr_ok_def attr_accepted_def PthreadMutexattrDefault_def mutex_enum_defs word_le_nat_alt)

lemma mutexattr_reach_ok: "mutexattr_reach cells \<Longrightarrow> cells a = Some x \<Longrightarrow> mutexattr_ok x"
proof (induction arbitrary: a x rule: mutexattr_reach.induct)
  case (new cells alloc b)
  then show ?case
    using default_attr_ok by (auto simp: posix_pthread_mutexattr_init_def split: if_splits)
next
  case (settype cells attr kind)
  then show ?case
    by (auto simp: mutexattr_setters mutexattr_ok_def attr_accepted_def dest!: deref_SomeD
             split: option.splits if_splits)
next
  case (setprotocol cells attr protocol)
  then show ?case
    by (auto simp: mutexattr_setters mutexattr_ok_def attr_accepted_def priority_bounds dest!: deref_SomeD
             split: option.splits if_splits)
next
  case (setprioceiling cells attr prioceiling)
  then show ?case
    by (auto simp: mutexattr_setters mutexattr_ok_def attr_accepted_def dest!: deref_SomeD
             split: option.splits if_splits)
next
  case (destroy cells attr)
  then show ?case by (auto simp: mutexattr_setters split: option.splits if_splits)
qed simp

text \<open>
  Attributes are well-formed.  Whatever calls to the checking setters made them, attributes have a known type
  and protocol and, with the ceiling protocol, a ceiling within the priorities; \<^verbatim>\<open>pthread_mutex_init\<close>
  accepts them and creates a mutex of exactly that type, and \<^verbatim>\<open>gettype\<close> reports it.
\<close>

theorem mutexattr_well_formed:
  assumes reach: "mutexattr_reach cells" and here: "cells a = Some x"
  shows "mutexattr_ok x \<and> posix_pthread_mutexattr_gettype (Some a) cells = (0, Some (ma_type x)) \<and>
    (\<exists>m. posix_pthread_mutex_init (Some p) mutex (Some x) w =
           (0, w\<lparr>mw_var := (mw_var w)(mutex := p), mw_heap := (mw_heap w)(p \<mapsto> m)\<rparr>) \<and>
         type_known m \<and> MutexType m = ma_type x)"
proof -
  have ok: "mutexattr_ok x" using mutexattr_reach_ok reach here .
  then have acc: "attr_accepted x" by (simp add: mutexattr_ok_def)
  have "posix_pthread_mutexattr_gettype (Some a) cells = (0, Some (ma_type x))"
    using acc here by (simp add: posix_pthread_mutexattr_gettype_def deref_def attr_accepted_def not_le)
  then show ?thesis
    using ok acc PthreadMutex_new_ok(2,3) [OF acc] by (auto simp: posix_pthread_mutex_init_def MutexInit_def)
qed

lemma mutexattr_well_formed_witness:
  "\<exists>cells. snd (posix_pthread_mutexattr_settype (Some 7) MutexRecursive
            (snd (posix_pthread_mutexattr_init True 7 (\<lambda>_. None)))) = cells \<and>
      posix_pthread_mutexattr_gettype (Some 7) cells = (0, Some MutexRecursive) \<and>
      fst (posix_pthread_mutex_init (Some 64) 9 (cells 7) \<lparr>mw_var = \<lambda>_. 0, mw_heap = \<lambda>_. None\<rparr>) = 0"
proof -
  let ?c = "snd (posix_pthread_mutexattr_settype (Some 7) MutexRecursive
            (snd (posix_pthread_mutexattr_init True 7 (\<lambda>_. None))))"
  have r: "mutexattr_reach ?c" by (intro mutexattr_reach.intros)
  have c: "?c 7 = Some (PthreadMutexattrDefault\<lparr>ma_type := MutexRecursive\<rparr>)"
    by (simp add: mutexattr_setters deref_def mutex_enum_defs)
  show ?thesis
    using mutexattr_well_formed [OF r c, of 64 9 "\<lparr>mw_var = \<lambda>_. 0, mw_heap = \<lambda>_. None\<rparr>"] c by auto
qed

text \<open>
  \<^verbatim>\<open>setkind_np\<close> stores any kind; \<^verbatim>\<open>pthread_mutex_init\<close> refuses the attributes
  afterwards, although \<^verbatim>\<open>setkind_np\<close> succeeded.
\<close>

lemma setkind_unchecked:
  assumes "cells a = Some x" and "\<not> (MutexErrorCheck \<le> kind \<and> kind < MutexTypeMax)"
  shows "posix_pthread_mutexattr_setkind_np (Some a) kind cells = ((0, None), cells(a \<mapsto> x\<lparr>ma_type := kind\<rparr>)) \<and>
    posix_pthread_mutex_init new mutex (Some (x\<lparr>ma_type := kind\<rparr>)) w = (POSIX_EINVAL, w)"
  using assms
  by (auto simp: posix_pthread_mutexattr_setkind_np_def deref_def posix_pthread_mutex_init_def MutexInit_def attr_accepted_def not_le not_less)

end
