(* ===== verification/Orbit_Rwlock.thy ===== *)
theory Orbit_Rwlock
  imports Orbit_Prelude "HOL-Library.Multiset"
begin

text \<open>
  Read-write locks (\<^verbatim>\<open>src/core/libraries/kernel/threads/rwlock.cpp\<close>).  Creation, destruction and
  attributes are functions on the guest's variables; the locking calls are cut at their accesses to the lock
  and to the counter of the thread.  The host lock \<^verbatim>\<open>std::shared_timed_mutex\<close> is modelled by who holds it:
  at most one thread exclusively, or threads shared, once per call.  Giving the host lock up without holding
  it is outside its contract; such a thread ends in \<open>RwUndefined\<close>.
\<close>

subsection \<open>Creation, destruction, attributes\<close>

record PthreadRwlockAttr =
  ra_pshared :: s32
  ra_type :: s32

text \<open>\<open>rl_excl\<close>: the thread that holds the host lock exclusively; \<open>rl_owner\<close>: the field \<^verbatim>\<open>owner\<close>.\<close>

record PthreadRwlock =
  rl_excl :: "tid option"
  rl_owner :: "tid option"

definition PthreadRwlock_new :: PthreadRwlock where
  "PthreadRwlock_new = \<lparr>rl_excl = None, rl_owner = None\<rparr>"

record rwlock_world =
  rw_var :: "nat \<Rightarrow> nat"
  rw_heap :: "nat \<Rightarrow> PthreadRwlock option"

definition THR_RWLOCK_INITIALIZER :: nat where "THR_RWLOCK_INITIALIZER = 0"
definition THR_RWLOCK_DESTROYED :: nat where "THR_RWLOCK_DESTROYED = 1"

definition FW_450 :: nat where "FW_450 = 0x4500000"

text \<open>
  \<open>new\<close> is what the allocator returns, \<open>None\<close> for a null pointer.  The SDK version is a signed number that
  is compared as an unsigned one.  A null pointer behind \<open>attr\<close> is not tested for.
\<close>

definition rwlock_place :: "nat \<Rightarrow> nat \<Rightarrow> rwlock_world \<Rightarrow> rwlock_world" where
  "rwlock_place p rwlock w = w\<lparr>rw_var := (rw_var w)(rwlock := p), rw_heap := (rw_heap w)(p \<mapsto> PthreadRwlock_new)\<rparr>"

definition RwlockInit :: "s32 \<Rightarrow> nat option \<Rightarrow> nat \<Rightarrow> PthreadRwlockAttr option \<Rightarrow> rwlock_world \<Rightarrow> s32 \<times> rwlock_world" where
  "RwlockInit sdk_version new rwlock attr w =
     (case new of
        None \<Rightarrow> (POSIX_ENOMEM, w)
      | Some p \<Rightarrow>
          if attr \<noteq> None \<and> nat (sdk_version mod 2 ^ 32) \<ge> FW_450 \<and> ra_type (the attr) > 2 then (POSIX_EINVAL, w)
          else (0, rwlock_place p rwlock w))"

definition posix_pthread_rwlock_destroy :: "nat \<Rightarrow> rwlock_world \<Rightarrow> s32 \<times> rwlock_world" where
  "posix_pthread_rwlock_destroy rwlock w =
     (let prwlock = rw_var w rwlock in
      if prwlock = THR_RWLOCK_INITIALIZER then (0, w)
      else if prwlock = THR_RWLOCK_DESTROYED then (POSIX_EINVAL, w)
      else (0, w\<lparr>rw_var := (rw_var w)(rwlock := THR_RWLOCK_DESTROYED), rw_heap := (rw_heap w)(prwlock := None)\<rparr>))"

definition RwlockInitStatic :: "nat option \<Rightarrow> nat \<Rightarrow> rwlock_world \<Rightarrow> s32 \<times> rwlock_world" where
  "RwlockInitStatic new rwlock w =
     (if rw_var w rwlock = THR_RWLOCK_INITIALIZER then
        case new of None \<Rightarrow> (POSIX_ENOMEM, w) | Some p \<Rightarrow> (0, rwlock_place p rwlock w)
      else (0, w))"

definition CHECK_AND_INIT_RWLOCK :: "nat option \<Rightarrow> nat \<Rightarrow> rwlock_world \<Rightarrow> s32 \<times> rwlock_world" where
  "CHECK_AND_INIT_RWLOCK new rwlock w =
     (if rw_var w rwlock = THR_RWLOCK_INITIALIZER then RwlockInitStatic new rwlock w
      else if rw_var w rwlock = THR_RWLOCK_DESTROYED then (POSIX_EINVAL, w)
      else (0, w))"

definition posix_pthread_rwlock_init ::
    "s32 \<Rightarrow> nat option \<Rightarrow> nat \<Rightarrow> PthreadRwlockAttr option \<Rightarrow> rwlock_world \<Rightarrow> s32 \<times> rwlock_world" where
  "posix_pthread_rwlock_init sdk_version new rwlock attr w =
     RwlockInit sdk_version new rwlock attr (w\<lparr>rw_var := (rw_var w)(rwlock := 0)\<rparr>)"

type_synonym rwlockattr_cells = "nat \<Rightarrow> PthreadRwlockAttr option"

text \<open>
  Destruction leaves the pointer in the variable; the model keeps only the attributes, so the variable counts
  as empty from then on.
\<close>

definition posix_pthread_rwlockattr_destroy :: "nat option \<Rightarrow> rwlockattr_cells \<Rightarrow> s32 \<times> rwlockattr_cells" where
  "posix_pthread_rwlockattr_destroy attr cells =
     (case deref cells attr of None \<Rightarrow> (POSIX_EINVAL, cells) | Some (a, x) \<Rightarrow> (0, cells(a := None)))"

definition posix_pthread_rwlockattr_init :: "bool \<Rightarrow> nat option \<Rightarrow> rwlockattr_cells \<Rightarrow> s32 \<times> rwlockattr_cells" where
  "posix_pthread_rwlockattr_init alloc attr cells =
     (case attr of
        None \<Rightarrow> (POSIX_EINVAL, cells)
      | Some a \<Rightarrow> if alloc then (0, cells(a \<mapsto> \<lparr>ra_pshared = 0, ra_type = 0\<rparr>)) else (POSIX_ENOMEM, cells))"

definition posix_pthread_rwlockattr_gettype_np :: "nat option \<Rightarrow> rwlockattr_cells \<Rightarrow> s32 \<times> s32 option" where
  "posix_pthread_rwlockattr_gettype_np attr cells =
     (case deref cells attr of
        None \<Rightarrow> (POSIX_EINVAL, None)
      | Some (a, x) \<Rightarrow> if ra_type x > 2 then (POSIX_EINVAL, None) else (0, Some (ra_type x)))"

definition posix_pthread_rwlockattr_settype_np :: "nat option \<Rightarrow> s32 \<Rightarrow> rwlockattr_cells \<Rightarrow> s32 \<times> rwlockattr_cells" where
  "posix_pthread_rwlockattr_settype_np attr kind cells =
     (case deref cells attr of
        None \<Rightarrow> (POSIX_EINVAL, cells)
      | Some (a, x) \<Rightarrow> if ra_type x > 2 then (POSIX_EINVAL, cells) else (0, cells(a \<mapsto> x\<lparr>ra_type := kind\<rparr>)))"

text \<open>The two calls on the sharing attribute follow their pointers without a test: \<open>None\<close> is a fault.\<close>

definition posix_pthread_rwlockattr_getpshared :: "nat option \<Rightarrow> rwlockattr_cells \<Rightarrow> (s32 \<times> s32) option" where
  "posix_pthread_rwlockattr_getpshared attr cells = map_option (\<lambda>(a, x). (0, ra_pshared x)) (deref cells attr)"

definition posix_pthread_rwlockattr_setpshared :: "nat option \<Rightarrow> s32 \<Rightarrow> rwlockattr_cells \<Rightarrow> (s32 \<times> rwlockattr_cells) option" where
  "posix_pthread_rwlockattr_setpshared attr pshared cells =
     (if pshared \<noteq> 0 then Some (POSIX_EINVAL, cells)
      else map_option (\<lambda>(a, x). (0, cells(a \<mapsto> x\<lparr>ra_pshared := pshared\<rparr>))) (deref cells attr))"

subsection \<open>Locking\<close>

text \<open>
  Where a thread stands in a call; \<open>l\<close> is the lock.  \<open>RdBlocked\<close>, \<open>WrBlocked\<close>: after the first attempt
  and the test of the deadline; \<open>RdGot\<close>, \<open>WrGot\<close>: the host lock is taken, the counter or the owner not
  yet written; \<open>UnReader\<close>: the owner was another thread or none; \<open>UnShared\<close>: before
  \<^verbatim>\<open>unlock_shared\<close>; \<open>UnWriter\<close>: the owner is cleared.
\<close>

datatype rw_pc =
  RwIdle | RwReturned s32 | RwUndefined
| RdEnter nat "OrbisKernelTimespec option" | RdBlocked nat "OrbisKernelTimespec option" | RdGot nat
| WrEnter nat "OrbisKernelTimespec option" | WrBlocked nat "OrbisKernelTimespec option" | WrGot nat
| TryRdEnter nat | TryWrEnter nat
| UnEnter nat | UnOwner nat | UnWriter nat | UnReader nat | UnShared nat

text \<open>\<open>rs_shared\<close> has the pair of a lock and a thread once for each time the thread holds the lock shared.\<close>

record rw_state =
  rs_lock :: "nat \<Rightarrow> PthreadRwlock"
  rs_shared :: "(nat \<times> tid) multiset"
  td_rdlock_count :: "tid \<Rightarrow> s32"
  rs_pc :: "tid \<Rightarrow> rw_pc"

definition rw_goto :: "tid \<Rightarrow> rw_pc \<Rightarrow> rw_state \<Rightarrow> rw_state" where
  "rw_goto t pc s = s\<lparr>rs_pc := (rs_pc s)(t := pc)\<rparr>"

definition free_for_read :: "nat \<Rightarrow> rw_state \<Rightarrow> bool" where
  "free_for_read l s \<longleftrightarrow> rl_excl (rs_lock s l) = None"

definition free_for_write :: "nat \<Rightarrow> rw_state \<Rightarrow> bool" where
  "free_for_write l s \<longleftrightarrow> rl_excl (rs_lock s l) = None \<and> l \<notin># image_mset fst (rs_shared s)"

definition take_shared :: "tid \<Rightarrow> nat \<Rightarrow> rw_state \<Rightarrow> rw_state" where
  "take_shared t l s = s\<lparr>rs_shared := add_mset (l, t) (rs_shared s)\<rparr>"

definition upd_lock :: "nat \<Rightarrow> (PthreadRwlock \<Rightarrow> PthreadRwlock) \<Rightarrow> rw_state \<Rightarrow> rw_state" where
  "upd_lock l f s = s\<lparr>rs_lock := (rs_lock s)(l := f (rs_lock s l))\<rparr>"

definition take_exclusive :: "tid \<Rightarrow> nat \<Rightarrow> rw_state \<Rightarrow> rw_state" where
  "take_exclusive t l = upd_lock l (\<lambda>x. x\<lparr>rl_excl := Some t\<rparr>)"

definition bad_deadline :: "OrbisKernelTimespec option \<Rightarrow> bool" where
  "bad_deadline abstime \<longleftrightarrow> (\<exists>ts \<in> set_option abstime. tv_nsec ts \<ge> 1000000000 \<or> tv_nsec ts < 0)"

text \<open>
  One access of thread \<open>t\<close>; \<open>None\<close> while it must wait.  \<open>fails\<close> says that an attempt on the host lock
  fails although the lock is free, which the host allows, or that the deadline has passed.
\<close>

fun rw_access :: "tid \<Rightarrow> bool \<Rightarrow> rw_pc \<Rightarrow> rw_state \<Rightarrow> rw_state option" where
  "rw_access t fails (RdEnter l abstime) s =
     Some (if free_for_read l s \<and> \<not> fails then rw_goto t (RdGot l) (take_shared t l s)
           else if bad_deadline abstime then rw_goto t (RwReturned POSIX_EINVAL) s
           else rw_goto t (RdBlocked l abstime) s)"
| "rw_access t fails (RdBlocked l abstime) s =
     (if abstime \<noteq> None \<and> fails then Some (rw_goto t (RwReturned POSIX_ETIMEDOUT) s)
      else if free_for_read l s then Some (rw_goto t (RdGot l) (take_shared t l s))
      else None)"
| "rw_access t fails (RdGot l) s =
     Some (rw_goto t (RwReturned 0) (s\<lparr>td_rdlock_count := (td_rdlock_count s)(t := wrap_s32 (td_rdlock_count s t + 1))\<rparr>))"
| "rw_access t fails (WrEnter l abstime) s =
     Some (if free_for_write l s \<and> \<not> fails then rw_goto t (WrGot l) (take_exclusive t l s)
           else if bad_deadline abstime then rw_goto t (RwReturned POSIX_EINVAL) s
           else rw_goto t (WrBlocked l abstime) s)"
| "rw_access t fails (WrBlocked l abstime) s =
     (if abstime \<noteq> None \<and> fails then Some (rw_goto t (RwReturned POSIX_ETIMEDOUT) s)
      else if free_for_write l s then Some (rw_goto t (WrGot l) (take_exclusive t l s))
      else None)"
| "rw_access t fails (WrGot l) s = Some (rw_goto t (RwReturned 0) (upd_lock l (\<lambda>x. x\<lparr>rl_owner := Some t\<rparr>) s))"
| "rw_access t fails (TryRdEnter l) s =
     Some (if free_for_read l s \<and> \<not> fails then rw_goto t (RdGot l) (take_shared t l s)
           else rw_goto t (RwReturned POSIX_EBUSY) s)"
| "rw_access t fails (TryWrEnter l) s =
     Some (if free_for_write l s \<and> \<not> fails then rw_goto t (WrGot l) (take_exclusive t l s)
           else rw_goto t (RwReturned POSIX_EBUSY) s)"
| "rw_access t fails (UnEnter l) s =
     Some (rw_goto t (if rl_owner (rs_lock s l) = Some t then UnOwner l else UnReader l) s)"
| "rw_access t fails (UnOwner l) s = Some (rw_goto t (UnWriter l) (upd_lock l (\<lambda>x. x\<lparr>rl_owner := None\<rparr>) s))"
| "rw_access t fails (UnWriter l) s =
     Some (if rl_excl (rs_lock s l) = Some t then rw_goto t (RwReturned 0) (upd_lock l (\<lambda>x. x\<lparr>rl_excl := None\<rparr>) s)
           else rw_goto t RwUndefined s)"
| "rw_access t fails (UnReader l) s =
     Some (rw_goto t (UnShared l)
            (if rl_owner (rs_lock s l) = None
             then s\<lparr>td_rdlock_count := (td_rdlock_count s)(t := wrap_s32 (td_rdlock_count s t - 1))\<rparr> else s))"
| "rw_access t fails (UnShared l) s =
     Some (if (l, t) \<in># rs_shared s then rw_goto t (RwReturned 0) (s\<lparr>rs_shared := rs_shared s - {#(l, t)#}\<rparr>)
           else rw_goto t RwUndefined s)"
| "rw_access t fails _ s = None"

text \<open>
  The entry points test the variable; \<open>Inr\<close> is where the thread goes on with the lock, \<open>Inl\<close> the code
  returned at once.
\<close>

definition rwlock_entry :: "(nat \<Rightarrow> rw_pc) \<Rightarrow> nat option \<Rightarrow> nat \<Rightarrow> rwlock_world \<Rightarrow> (s32 + rw_pc) \<times> rwlock_world" where
  "rwlock_entry pc new rwlock w =
     (case CHECK_AND_INIT_RWLOCK new rwlock w of
        (ret, w') \<Rightarrow> (if ret \<noteq> 0 then Inl ret else Inr (pc (rw_var w' rwlock)), w'))"

definition posix_pthread_rwlock_rdlock :: "nat option \<Rightarrow> nat \<Rightarrow> rwlock_world \<Rightarrow> (s32 + rw_pc) \<times> rwlock_world" where
  "posix_pthread_rwlock_rdlock = rwlock_entry (\<lambda>l. RdEnter l None)"

definition posix_pthread_rwlock_timedrdlock ::
    "OrbisKernelTimespec option \<Rightarrow> nat option \<Rightarrow> nat \<Rightarrow> rwlock_world \<Rightarrow> (s32 + rw_pc) \<times> rwlock_world" where
  "posix_pthread_rwlock_timedrdlock abstime = rwlock_entry (\<lambda>l. RdEnter l abstime)"

definition posix_pthread_rwlock_tryrdlock :: "nat option \<Rightarrow> nat \<Rightarrow> rwlock_world \<Rightarrow> (s32 + rw_pc) \<times> rwlock_world" where
  "posix_pthread_rwlock_tryrdlock = rwlock_entry TryRdEnter"

definition posix_pthread_rwlock_trywrlock :: "nat option \<Rightarrow> nat \<Rightarrow> rwlock_world \<Rightarrow> (s32 + rw_pc) \<times> rwlock_world" where
  "posix_pthread_rwlock_trywrlock = rwlock_entry TryWrEnter"

definition posix_pthread_rwlock_wrlock :: "nat option \<Rightarrow> nat \<Rightarrow> rwlock_world \<Rightarrow> (s32 + rw_pc) \<times> rwlock_world" where
  "posix_pthread_rwlock_wrlock = rwlock_entry (\<lambda>l. WrEnter l None)"

definition posix_pthread_rwlock_timedwrlock ::
    "OrbisKernelTimespec option \<Rightarrow> nat option \<Rightarrow> nat \<Rightarrow> rwlock_world \<Rightarrow> (s32 + rw_pc) \<times> rwlock_world" where
  "posix_pthread_rwlock_timedwrlock abstime = rwlock_entry (\<lambda>l. WrEnter l abstime)"

definition posix_pthread_rwlock_unlock :: "nat \<Rightarrow> rwlock_world \<Rightarrow> s32 + rw_pc" where
  "posix_pthread_rwlock_unlock rwlock w =
     (if rw_var w rwlock \<le> THR_RWLOCK_DESTROYED then Inl POSIX_EINVAL else Inr (UnEnter (rw_var w rwlock)))"

subsection \<open>Interleavings\<close>

text \<open>
  Threads call in any order.  With \<open>lawful\<close> a thread unlocks only what it holds; the code does not check
  that.
\<close>

definition rw_holds :: "rw_state \<Rightarrow> nat \<Rightarrow> tid \<Rightarrow> bool" where
  "rw_holds s l t \<longleftrightarrow> rl_excl (rs_lock s l) = Some t \<or> (l, t) \<in># rs_shared s"

definition rw_resting :: "rw_pc \<Rightarrow> bool" where
  "rw_resting pc \<longleftrightarrow> pc = RwIdle \<or> (\<exists>ret. pc = RwReturned ret)"

definition rw_init :: rw_state where
  "rw_init = \<lparr>rs_lock = \<lambda>_. PthreadRwlock_new, rs_shared = {#}, td_rdlock_count = \<lambda>_. 0, rs_pc = \<lambda>_. RwIdle\<rparr>"

inductive rw_reach :: "bool \<Rightarrow> rw_state \<Rightarrow> bool" for lawful where
  start: "rw_reach lawful rw_init"
| lock: "rw_reach lawful s \<Longrightarrow> rw_resting (rs_pc s t) \<Longrightarrow>
    pc \<in> {RdEnter l abstime, WrEnter l abstime, TryRdEnter l, TryWrEnter l} \<Longrightarrow> rw_reach lawful (rw_goto t pc s)"
| unlock: "rw_reach lawful s \<Longrightarrow> rw_resting (rs_pc s t) \<Longrightarrow> (lawful \<Longrightarrow> rw_holds s l t) \<Longrightarrow>
    rw_reach lawful (rw_goto t (UnEnter l) s)"
| access: "rw_reach lawful s \<Longrightarrow> rw_access t fails (rs_pc s t) s = Some s' \<Longrightarrow> rw_reach lawful s'"

subsection \<open>Invariant\<close>

text \<open>What a thread in the middle of a call has.\<close>

fun rw_place_ok :: "rw_state \<Rightarrow> tid \<Rightarrow> rw_pc \<Rightarrow> bool" where
  "rw_place_ok s t (WrGot l) = (rl_excl (rs_lock s l) = Some t)"
| "rw_place_ok s t (UnOwner l) = (rl_owner (rs_lock s l) = Some t)"
| "rw_place_ok s t (UnWriter l) = (rl_excl (rs_lock s l) = Some t \<and> rl_owner (rs_lock s l) = None)"
| "rw_place_ok s t (RdGot l) = ((l, t) \<in># rs_shared s)"
| "rw_place_ok s t (UnReader l) = ((l, t) \<in># rs_shared s)"
| "rw_place_ok s t (UnShared l) = ((l, t) \<in># rs_shared s)"
| "rw_place_ok s t (UnEnter l) = rw_holds s l t"
| "rw_place_ok s t RwUndefined = False"
| "rw_place_ok s t _ = True"

text \<open>The thread is between the host lock and its own counter.\<close>

fun rw_uncounted :: "rw_pc \<Rightarrow> int" where
  "rw_uncounted (RdGot l) = 1"
| "rw_uncounted (UnShared l) = 1"
| "rw_uncounted _ = 0"

definition shared_holds :: "rw_state \<Rightarrow> tid \<Rightarrow> int" where
  "shared_holds s t = int (size (filter_mset (\<lambda>(l, u). u = t) (rs_shared s)))"

text \<open>The writer \<open>t\<close> of \<open>l\<close> is at a place where \<open>owner\<close> does not name it.\<close>

definition rw_unnamed :: "nat \<Rightarrow> rw_pc \<Rightarrow> bool" where
  "rw_unnamed l pc \<longleftrightarrow> pc = WrGot l \<or> pc = UnWriter l"

definition rw_excl_ok :: "rw_state \<Rightarrow> bool" where
  "rw_excl_ok s \<longleftrightarrow> (\<forall>l t u. rl_excl (rs_lock s l) = Some t \<longrightarrow> (l, u) \<notin># rs_shared s)"

definition rw_owner_ok :: "rw_state \<Rightarrow> bool" where
  "rw_owner_ok s \<longleftrightarrow>
     (\<forall>l t. rl_owner (rs_lock s l) = Some t \<longleftrightarrow> rl_excl (rs_lock s l) = Some t \<and> \<not> rw_unnamed l (rs_pc s t))"

definition rw_count_ok :: "rw_state \<Rightarrow> bool" where
  "rw_count_ok s \<longleftrightarrow> (\<forall>t. td_rdlock_count s t = wrap_s32 (shared_holds s t - rw_uncounted (rs_pc s t)))"

definition rw_places_ok :: "rw_state \<Rightarrow> bool" where
  "rw_places_ok s \<longleftrightarrow> (\<forall>t. rw_place_ok s t (rs_pc s t))"

definition rw_ok :: "rw_state \<Rightarrow> bool" where
  "rw_ok s \<longleftrightarrow> rw_excl_ok s \<and> rw_owner_ok s \<and> rw_count_ok s \<and> rw_places_ok s"

lemmas rw_ok_defs = rw_excl_ok_def rw_owner_ok_def rw_count_ok_def rw_places_ok_def

lemma rw_goto_simps [simp]:
  "rs_lock (rw_goto t pc s) = rs_lock s" "rs_shared (rw_goto t pc s) = rs_shared s"
  "td_rdlock_count (rw_goto t pc s) = td_rdlock_count s" "rs_pc (rw_goto t pc s) = (rs_pc s)(t := pc)"
  by (simp_all add: rw_goto_def)

lemma upd_lock_simps [simp]:
  "rs_lock (upd_lock l f s) = (rs_lock s)(l := f (rs_lock s l))" "rs_shared (upd_lock l f s) = rs_shared s"
  "td_rdlock_count (upd_lock l f s) = td_rdlock_count s" "rs_pc (upd_lock l f s) = rs_pc s"
  by (simp_all add: upd_lock_def)

lemma take_simps [simp]:
  "rs_lock (take_shared t l s) = rs_lock s" "rs_shared (take_shared t l s) = add_mset (l, t) (rs_shared s)"
  "td_rdlock_count (take_shared t l s) = td_rdlock_count s" "rs_pc (take_shared t l s) = rs_pc s"
  by (simp_all add: take_shared_def)

text \<open>A thread's place depends on the locks, the shared holds and nothing else.\<close>

lemma rw_place_cong:
  "rs_lock s' = rs_lock s \<Longrightarrow> (\<And>l. (l, u) \<in># rs_shared s' \<longleftrightarrow> (l, u) \<in># rs_shared s) \<Longrightarrow>
   rw_place_ok s' u pc = rw_place_ok s u pc"
  by (cases pc) (auto simp: rw_holds_def)

lemma shared_holds_cong [simp]: "shared_holds (rw_goto t pc s) = shared_holds s"
  "shared_holds (upd_lock l f s) = shared_holds s" "shared_holds (s\<lparr>td_rdlock_count := c\<rparr>) = shared_holds s"
  by (simp_all add: shared_holds_def fun_eq_iff)

lemma shared_holds_take [simp]: "shared_holds (take_shared t l s) u = shared_holds s u + of_bool (u = t)"
  by (simp add: shared_holds_def)

lemma shared_holds_drop:
  "(l, t) \<in># rs_shared s \<Longrightarrow>
   shared_holds (s\<lparr>rs_shared := rs_shared s - {#(l, t)#}\<rparr>) u = shared_holds s u - of_bool (u = t)"
  by (auto simp: shared_holds_def dest!: multi_member_split)

text \<open>Steps that only move the thread.\<close>

lemma rw_ok_move:
  assumes "rw_ok s" and "rw_place_ok s t pc" and "rw_uncounted pc = rw_uncounted (rs_pc s t)"
    and "\<And>l. rw_unnamed l pc = rw_unnamed l (rs_pc s t)"
  shows "rw_ok (rw_goto t pc s)"
proof -
  have "rw_place_ok (rw_goto t pc s) u p = rw_place_ok s u p" for u p by (rule rw_place_cong) simp_all
  then show ?thesis using assms by (auto simp: rw_ok_def rw_ok_defs)
qed

text \<open>The thread takes the lock shared.\<close>

lemma rw_ok_take_shared:
  assumes ok: "rw_ok s" and "free_for_read l s" and "rw_uncounted (rs_pc s t) = 0" and "\<And>l. \<not> rw_unnamed l (rs_pc s t)"
  shows "rw_ok (rw_goto t (RdGot l) (take_shared t l s))"
proof -
  let ?s = "rw_goto t (RdGot l) (take_shared t l s)"
  have "rw_place_ok ?s u p = rw_place_ok s u p" if "u \<noteq> t" for u p by (rule rw_place_cong) (use that in auto)
  then have "rw_places_ok ?s" using ok by (auto simp: rw_ok_def rw_places_ok_def)
  moreover have "rw_excl_ok ?s" using ok assms(2) by (auto simp: rw_ok_def rw_excl_ok_def free_for_read_def)
  moreover have "rw_owner_ok ?s" using ok assms(4) by (auto simp: rw_ok_def rw_owner_ok_def rw_unnamed_def)
  moreover have "rw_count_ok ?s" using ok assms(3) by (auto simp: rw_ok_def rw_count_ok_def)
  ultimately show ?thesis by (simp add: rw_ok_def)
qed

text \<open>The lock \<open>l\<close> changes hands.\<close>

lemma rw_ok_take_exclusive:
  assumes ok: "rw_ok s" and "free_for_write l s" and "rw_uncounted (rs_pc s t) = 0" and "\<And>l. \<not> rw_unnamed l (rs_pc s t)"
  shows "rw_ok (rw_goto t (WrGot l) (take_exclusive t l s))"
proof -
  let ?s = "rw_goto t (WrGot l) (take_exclusive t l s)"
  have free: "rl_excl (rs_lock s l) = None" "(l, u) \<notin># rs_shared s" for u
    using assms(2) by (force simp: free_for_write_def)+
  have "rl_owner (rs_lock s l) = None" using ok free(1) by (cases "rl_owner (rs_lock s l)") (auto simp: rw_ok_def rw_owner_ok_def)
  then have "rw_owner_ok ?s" using ok free assms(4) by (auto simp: rw_ok_def rw_owner_ok_def take_exclusive_def rw_unnamed_def)
  moreover have "rw_places_ok ?s"
  proof -
    have "rw_place_ok ?s u (rs_pc s u)" for u
    proof -
      have "rw_place_ok s u (rs_pc s u)" using ok by (simp add: rw_ok_def rw_places_ok_def)
      then show ?thesis using free \<open>rl_owner (rs_lock s l) = None\<close>
        by (cases "rs_pc s u") (auto simp: take_exclusive_def rw_holds_def)
    qed
    then show ?thesis by (auto simp: rw_places_ok_def take_exclusive_def)
  qed
  moreover have "rw_excl_ok ?s" using ok free by (auto simp: rw_ok_def rw_excl_ok_def take_exclusive_def)
  moreover have "rw_count_ok ?s" using ok assms(3) by (auto simp: rw_ok_def rw_count_ok_def take_exclusive_def)
  ultimately show ?thesis by (simp add: rw_ok_def)
qed

lemma rw_ok_write_owner:
  assumes ok: "rw_ok s" and pc: "rs_pc s t = WrGot l"
  shows "rw_ok (rw_goto t (RwReturned 0) (upd_lock l (\<lambda>x. x\<lparr>rl_owner := Some t\<rparr>) s))" (is "rw_ok ?s")
proof -
  have e: "rl_excl (rs_lock s l) = Some t" using ok pc by (auto simp: rw_ok_def rw_places_ok_def dest: spec [of _ t])
  have n: "rl_owner (rs_lock s l) = None"
  proof (cases "rl_owner (rs_lock s l)")
    case (Some u)
    then show ?thesis using ok pc e by (auto simp: rw_ok_def rw_owner_ok_def rw_unnamed_def)
  qed simp
  have "rw_places_ok ?s"
  proof -
    have "rw_place_ok ?s u (rs_pc s u)" if "u \<noteq> t" for u
    proof -
      have "rw_place_ok s u (rs_pc s u)" using ok by (simp add: rw_ok_def rw_places_ok_def)
      then show ?thesis using e that n by (cases "rs_pc s u") (auto simp: rw_holds_def)
    qed
    then show ?thesis by (auto simp: rw_places_ok_def)
  qed
  moreover have "rw_owner_ok ?s"
    using ok e pc unfolding rw_ok_def rw_owner_ok_def rw_unnamed_def by (auto split: if_splits)
  moreover have "rw_excl_ok ?s" using ok by (auto simp: rw_ok_def rw_excl_ok_def)
  moreover have "rw_count_ok ?s" using ok pc by (auto simp: rw_ok_def rw_count_ok_def)
  ultimately show ?thesis by (simp add: rw_ok_def)
qed

lemma rw_ok_count_up:
  assumes ok: "rw_ok s" and pc: "rs_pc s t = RdGot l"
  shows "rw_ok (rw_goto t (RwReturned 0) (s\<lparr>td_rdlock_count := (td_rdlock_count s)(t := wrap_s32 (td_rdlock_count s t + 1))\<rparr>))"
    (is "rw_ok ?s")
proof -
  have "rw_place_ok ?s u p = rw_place_ok s u p" for u p by (rule rw_place_cong) simp_all
  then show ?thesis using ok pc
    by (auto simp: rw_ok_def rw_ok_defs rw_unnamed_def wrap_s32_add)
qed

lemma rw_ok_count_down:
  assumes ok: "rw_ok s" and pc: "rs_pc s t = UnReader l"
  shows "rw_ok (rw_goto t (UnShared l) (s\<lparr>td_rdlock_count := (td_rdlock_count s)(t := wrap_s32 (td_rdlock_count s t - 1))\<rparr>))"
      (is "rw_ok ?s") and "rl_owner (rs_lock s l) = None"
proof -
  have m: "(l, t) \<in># rs_shared s" using ok pc by (auto simp: rw_ok_def rw_places_ok_def dest: spec [of _ t])
  have "rw_place_ok ?s u p = rw_place_ok s u p" for u p by (rule rw_place_cong) simp_all
  then show "rw_ok ?s" using ok pc m by (auto simp: rw_ok_def rw_ok_defs rw_unnamed_def wrap_s32_diff)
  show "rl_owner (rs_lock s l) = None"
    using ok m by (cases "rl_owner (rs_lock s l)") (auto simp: rw_ok_def rw_ok_defs)
qed

lemma rw_ok_clear_owner:
  assumes ok: "rw_ok s" and pc: "rs_pc s t = UnOwner l"
  shows "rw_ok (rw_goto t (UnWriter l) (upd_lock l (\<lambda>x. x\<lparr>rl_owner := None\<rparr>) s))" (is "rw_ok ?s")
proof -
  have o: "rl_owner (rs_lock s l) = Some t" using ok pc by (auto simp: rw_ok_def rw_places_ok_def dest: spec [of _ t])
  then have e: "rl_excl (rs_lock s l) = Some t" using ok by (auto simp: rw_ok_def rw_owner_ok_def)
  have "rw_places_ok ?s"
  proof -
    have "rw_place_ok ?s u (rs_pc s u)" if "u \<noteq> t" for u
    proof -
      have "rw_place_ok s u (rs_pc s u)" using ok by (simp add: rw_ok_def rw_places_ok_def)
      then show ?thesis using e that o by (cases "rs_pc s u") (auto simp: rw_holds_def)
    qed
    then show ?thesis using e by (auto simp: rw_places_ok_def)
  qed
  moreover have "rw_owner_ok ?s"
    using ok e pc unfolding rw_ok_def rw_owner_ok_def rw_unnamed_def by (auto split: if_splits)
  moreover have "rw_excl_ok ?s" using ok by (auto simp: rw_ok_def rw_excl_ok_def)
  moreover have "rw_count_ok ?s" using ok pc by (auto simp: rw_ok_def rw_count_ok_def)
  ultimately show ?thesis by (simp add: rw_ok_def)
qed

lemma rw_ok_release:
  assumes ok: "rw_ok s" and pc: "rs_pc s t = UnWriter l"
  shows "rw_ok (rw_goto t (RwReturned 0) (upd_lock l (\<lambda>x. x\<lparr>rl_excl := None\<rparr>) s))" (is "rw_ok ?s")
    and "rl_excl (rs_lock s l) = Some t"
proof -
  have e: "rl_excl (rs_lock s l) = Some t" "rl_owner (rs_lock s l) = None"
    using ok pc by (auto simp: rw_ok_def rw_places_ok_def dest: spec [of _ t])
  then have "rw_places_ok ?s"
  proof -
    have "rw_place_ok ?s u (rs_pc s u)" if "u \<noteq> t" for u
    proof -
      have "rw_place_ok s u (rs_pc s u)" using ok by (simp add: rw_ok_def rw_places_ok_def)
      then show ?thesis using e that by (cases "rs_pc s u") (auto simp: rw_holds_def)
    qed
    then show ?thesis by (auto simp: rw_places_ok_def)
  qed
  moreover have "rw_owner_ok ?s"
    using ok e pc unfolding rw_ok_def rw_owner_ok_def rw_unnamed_def by (auto split: if_splits)
  moreover have "rw_excl_ok ?s" using ok by (auto simp: rw_ok_def rw_excl_ok_def)
  moreover have "rw_count_ok ?s" using ok pc by (auto simp: rw_ok_def rw_count_ok_def)
  ultimately show "rw_ok ?s" by (simp add: rw_ok_def)
  show "rl_excl (rs_lock s l) = Some t" by (rule e)
qed

lemma rw_ok_release_shared:
  assumes ok: "rw_ok s" and pc: "rs_pc s t = UnShared l"
  shows "rw_ok (rw_goto t (RwReturned 0) (s\<lparr>rs_shared := rs_shared s - {#(l, t)#}\<rparr>))" (is "rw_ok ?s")
    and "(l, t) \<in># rs_shared s"
proof -
  show m: "(l, t) \<in># rs_shared s" using ok pc by (auto simp: rw_ok_def rw_places_ok_def dest: spec [of _ t])
  have "rw_place_ok ?s u p = rw_place_ok s u p" if "u \<noteq> t" for u p
    by (rule rw_place_cong) (use that in \<open>auto simp: in_diff_count\<close>)
  then have "rw_places_ok ?s" using ok by (auto simp: rw_ok_def rw_places_ok_def)
  moreover have "rw_owner_ok ?s" using ok pc by (auto simp: rw_ok_def rw_owner_ok_def rw_unnamed_def)
  moreover have "rw_excl_ok ?s" using ok by (auto simp: rw_ok_def rw_excl_ok_def dest: in_diffD)
  moreover have "rw_count_ok ?s" using ok pc shared_holds_drop [OF m] by (auto simp: rw_ok_def rw_count_ok_def)
  ultimately show "rw_ok ?s" by (simp add: rw_ok_def)
qed

lemma rw_access_ok:
  assumes ok: "rw_ok s" and step: "rw_access t fails (rs_pc s t) s = Some s'"
  shows "rw_ok s'"
proof -
  have place: "rw_place_ok s t (rs_pc s t)" using ok by (simp add: rw_ok_def rw_places_ok_def)
  have quiet: "rw_ok (rw_goto t pc s)"
    if "rw_uncounted (rs_pc s t) = 0" "\<And>l. \<not> rw_unnamed l (rs_pc s t)" "rw_uncounted pc = 0" "\<And>l. \<not> rw_unnamed l pc"
       "rw_place_ok s t pc" for pc
    using that by (intro rw_ok_move) (simp_all add: ok)
  note take = rw_ok_take_shared [OF ok] rw_ok_take_exclusive [OF ok]
  show ?thesis
  proof (cases "rs_pc s t")
    case (RdEnter l a)
    then show ?thesis using step by (auto split: if_splits simp: rw_unnamed_def intro: quiet take)
  next
    case (RdBlocked l a)
    then show ?thesis using step by (auto split: if_splits simp: rw_unnamed_def intro: quiet take)
  next
    case (RdGot l)
    then show ?thesis using step rw_ok_count_up [OF ok RdGot] by auto
  next
    case (WrEnter l a)
    then show ?thesis using step by (auto split: if_splits simp: rw_unnamed_def intro: quiet take)
  next
    case (WrBlocked l a)
    then show ?thesis using step by (auto split: if_splits simp: rw_unnamed_def intro: quiet take)
  next
    case (WrGot l)
    then show ?thesis using step rw_ok_write_owner [OF ok WrGot] by auto
  next
    case (TryRdEnter l)
    then show ?thesis using step by (auto split: if_splits simp: rw_unnamed_def intro: quiet take)
  next
    case (TryWrEnter l)
    then show ?thesis using step by (auto split: if_splits simp: rw_unnamed_def intro: quiet take)
  next
    case (UnEnter l)
    have "rw_place_ok s t (if rl_owner (rs_lock s l) = Some t then UnOwner l else UnReader l)"
      using ok place UnEnter by (auto simp: rw_holds_def rw_ok_def rw_owner_ok_def rw_unnamed_def)
    then show ?thesis using step ok UnEnter by (auto intro!: rw_ok_move simp: rw_unnamed_def split: if_splits)
  next
    case (UnOwner l)
    then show ?thesis using step rw_ok_clear_owner [OF ok UnOwner] by auto
  next
    case (UnWriter l)
    then show ?thesis using step rw_ok_release [OF ok UnWriter] by auto
  next
    case (UnReader l)
    then show ?thesis using step rw_ok_count_down [OF ok UnReader] by auto
  next
    case (UnShared l)
    then show ?thesis using step rw_ok_release_shared [OF ok UnShared] by auto
  qed (use step in auto)
qed

lemma rw_init_ok: "rw_ok rw_init"
  by (simp add: rw_ok_def rw_ok_defs rw_init_def PthreadRwlock_new_def shared_holds_def wrap_s32_def)

lemma rw_resting_simps:
  "rw_resting pc \<Longrightarrow> rw_uncounted pc = 0" "rw_resting pc \<Longrightarrow> \<not> rw_unnamed l pc"
  by (auto simp: rw_resting_def rw_unnamed_def)

lemma rw_reach_ok: "rw_reach True s \<Longrightarrow> rw_ok s"
proof (induction rule: rw_reach.induct)
  case start
  show ?case by (rule rw_init_ok)
next
  case (lock s t pc l abstime)
  then show ?case by (intro rw_ok_move) (auto simp: rw_resting_def rw_unnamed_def)
next
  case (unlock s t l)
  then show ?case by (intro rw_ok_move) (auto simp: rw_resting_def rw_unnamed_def)
next
  case (access s t fails s')
  then show ?case using rw_access_ok by blast
qed

subsection \<open>Properties\<close>

text \<open>
  C32: a lawful use of read-write locks excludes.  While a thread holds a lock exclusively nobody else holds it in
  any way; \<^verbatim>\<open>owner\<close> names the writer from the return of its call until it unlocks; the counter of a thread
  that is in no call is the number of its shared holds; and the host lock is never given up by a thread that
  does not hold it.
\<close>

theorem rwlock_excludes:
  assumes "rw_reach True s"
  shows "(\<forall>l t u. rl_excl (rs_lock s l) = Some t \<longrightarrow> rw_holds s l u \<longrightarrow> u = t) \<and>
    (\<forall>l t. rw_resting (rs_pc s t) \<longrightarrow> (rl_excl (rs_lock s l) = Some t) = (rl_owner (rs_lock s l) = Some t)) \<and>
    (\<forall>t. rw_resting (rs_pc s t) \<longrightarrow> td_rdlock_count s t = wrap_s32 (shared_holds s t)) \<and>
    (\<forall>t. rs_pc s t \<noteq> RwUndefined)"
proof (intro conjI)
  have ok: "rw_ok s" using rw_reach_ok assms .
  show "\<forall>l t u. rl_excl (rs_lock s l) = Some t \<longrightarrow> rw_holds s l u \<longrightarrow> u = t"
    using ok by (auto simp: rw_ok_def rw_excl_ok_def rw_holds_def)
  show "\<forall>l t. rw_resting (rs_pc s t) \<longrightarrow> (rl_excl (rs_lock s l) = Some t) = (rl_owner (rs_lock s l) = Some t)"
    using ok rw_resting_simps by (auto simp: rw_ok_def rw_owner_ok_def)
  show "\<forall>t. rw_resting (rs_pc s t) \<longrightarrow> td_rdlock_count s t = wrap_s32 (shared_holds s t)"
    using ok rw_resting_simps by (auto simp: rw_ok_def rw_count_ok_def)
  show "\<forall>t. rs_pc s t \<noteq> RwUndefined"
  proof
    fix t
    show "rs_pc s t \<noteq> RwUndefined" using ok by (auto simp: rw_ok_def rw_places_ok_def dest: spec [of _ t])
  qed
qed

definition rwlock_demo :: "rw_state \<Rightarrow> bool" where
  "rwlock_demo s \<longleftrightarrow> rw_reach True s \<and> rl_excl (rs_lock s 64) = Some 1 \<and> rs_pc s 1 = RwReturned 0 \<and>
     rw_resting (rs_pc s 2) \<and> \<not> rw_holds s 64 2"

lemma rwlock_demo_ex: "\<exists>s. rwlock_demo s"
proof -
  let ?s1 = "rw_goto 1 (WrEnter 64 None) rw_init"
  let ?s2 = "rw_goto 1 (WrGot 64) (take_exclusive 1 64 ?s1)"
  let ?s3 = "rw_goto 1 (RwReturned 0) (upd_lock 64 (\<lambda>x. x\<lparr>rl_owner := Some 1\<rparr>) ?s2)"
  have "rw_reach True ?s1"
    by (rule rw_reach.lock [OF rw_reach.start, where l = 64 and abstime = None]) (simp_all add: rw_init_def rw_resting_def)
  then have "rw_reach True ?s2"
    by (rule rw_reach.access [where t = 1 and fails = False])
       (simp add: free_for_write_def rw_init_def PthreadRwlock_new_def)
  then have "rw_reach True ?s3" by (rule rw_reach.access [where t = 1 and fails = False]) simp
  moreover have "rl_excl (rs_lock ?s3 64) = Some 1" by (simp add: take_exclusive_def)
  moreover have "rs_pc ?s3 2 = RwIdle" by (simp add: take_exclusive_def rw_init_def)
  moreover have "\<not> rw_holds ?s3 64 2" by (simp add: rw_holds_def take_exclusive_def rw_init_def)
  ultimately have "rwlock_demo ?s3" by (simp add: rwlock_demo_def rw_resting_def)
  then show ?thesis by blast
qed

lemma rwlock_excludes_witness:
  "\<exists>s. rl_excl (rs_lock s 64) = Some 1 \<and> rl_owner (rs_lock s 64) = Some 1 \<and> td_rdlock_count s 1 = wrap_s32 (shared_holds s 1)"
proof -
  obtain s where s: "rwlock_demo s" using rwlock_demo_ex by blast
  then have "rw_reach True s" by (simp add: rwlock_demo_def)
  from rwlock_excludes [OF this] s show ?thesis unfolding rwlock_demo_def rw_resting_def by metis
qed

text \<open>
  A thread that blocks on a lock it has itself is never let in, whatever the others do: its own unlocking
  would be needed.
\<close>

lemma own_writer_stays:
  assumes ok: "rw_ok s" and own: "rl_excl (rs_lock s l) = Some t" and pc: "\<And>k. rs_pc s t \<noteq> UnWriter k"
    and step: "rw_access u fails (rs_pc s u) s = Some s'"
  shows "rl_excl (rs_lock s' l) = Some t"
proof (cases "rs_pc s u")
  case (UnWriter k)
  have "u \<noteq> t" using pc UnWriter by auto
  have "rl_excl (rs_lock s k) = Some u" using rw_ok_release(2) [OF ok UnWriter] .
  then have "k \<noteq> l" using own \<open>u \<noteq> t\<close> by auto
  then show ?thesis using step UnWriter own \<open>rl_excl (rs_lock s k) = Some u\<close> by auto
qed (use step own in \<open>auto simp: take_exclusive_def free_for_write_def split: if_splits\<close>)

text \<open>
  Misuse of read-write locks is not reported.  A writer that locks its own lock again without a deadline,
  for reading or for writing, can never go on and stays the holder whatever step any thread takes next
  (POSIX names EDEADLK for this case); and unlocking a lock the thread does not hold does not give EPERM but
  gives the host lock up without holding it.
\<close>

theorem rwlock_misuse:
  assumes reach: "rw_reach True s"
  shows "(\<forall>l t u fails s'. rl_excl (rs_lock s l) = Some t \<and> rs_pc s t \<in> {RdBlocked l None, WrBlocked l None} \<longrightarrow>
      rw_access t fails (rs_pc s t) s = None \<and>
      (rw_access u fails (rs_pc s u) s = Some s' \<longrightarrow>
         rs_pc s' t = rs_pc s t \<and> rl_excl (rs_lock s' l) = Some t)) \<and>
    (\<forall>l t. rw_resting (rs_pc s t) \<and> \<not> rw_holds s l t \<longrightarrow>
      (\<exists>s1 s2 s3. rw_access t False (UnEnter l) (rw_goto t (UnEnter l) s) = Some s1 \<and>
         rw_access t False (rs_pc s1 t) s1 = Some s2 \<and> rw_access t False (rs_pc s2 t) s2 = Some s3 \<and>
         rs_pc s3 t = RwUndefined))"
proof (intro conjI allI impI)
  have ok: "rw_ok s" using rw_reach_ok reach .
  fix l t u fails s'
  assume a: "rl_excl (rs_lock s l) = Some t \<and> rs_pc s t \<in> {RdBlocked l None, WrBlocked l None}"
  then show stuck: "rw_access t fails (rs_pc s t) s = None" by (auto simp: free_for_read_def free_for_write_def)
  assume step: "rw_access u fails (rs_pc s u) s = Some s'"
  then have "u \<noteq> t" using stuck by auto
  then show "rs_pc s' t = rs_pc s t"
    using step by (cases "rs_pc s u") (auto simp: take_exclusive_def split: if_splits)
  show "rl_excl (rs_lock s' l) = Some t" using a by (intro own_writer_stays [OF ok _ _ step]) auto
next
  have ok: "rw_ok s" using rw_reach_ok reach .
  fix l t assume a: "rw_resting (rs_pc s t) \<and> \<not> rw_holds s l t"
  have n: "rl_owner (rs_lock s l) \<noteq> Some t" "(l, t) \<notin># rs_shared s"
    using a ok by (auto simp: rw_holds_def rw_ok_def rw_owner_ok_def)
  let ?s1 = "rw_goto t (UnReader l) (rw_goto t (UnEnter l) s)"
  obtain s2 where s2: "rw_access t False (UnReader l) ?s1 = Some s2" by simp
  then have "rs_pc s2 t = UnShared l" "rs_shared s2 = rs_shared s" by auto
  then have "rw_access t False (rs_pc s2 t) s2 = Some (rw_goto t RwUndefined s2)" using n by simp
  moreover have "rw_access t False (UnEnter l) (rw_goto t (UnEnter l) s) = Some ?s1" using n by simp
  ultimately show "\<exists>s1 s2 s3. rw_access t False (UnEnter l) (rw_goto t (UnEnter l) s) = Some s1 \<and>
         rw_access t False (rs_pc s1 t) s1 = Some s2 \<and> rw_access t False (rs_pc s2 t) s2 = Some s3 \<and>
         rs_pc s3 t = RwUndefined"
    using s2 by (intro exI conjI) (assumption | simp)+
qed

lemma rwlock_misuse_witness:
  "\<exists>s s1 s2 s3. rw_reach True s \<and> rw_access 2 False (UnEnter 64) (rw_goto 2 (UnEnter 64) s) = Some s1 \<and>
     rw_access 2 False (rs_pc s1 2) s1 = Some s2 \<and> rw_access 2 False (rs_pc s2 2) s2 = Some s3 \<and> rs_pc s3 2 = RwUndefined"
proof -
  obtain s where s: "rwlock_demo s" using rwlock_demo_ex by blast
  then have "rw_reach True s" by (simp add: rwlock_demo_def)
  from rwlock_misuse [OF this] s this show ?thesis unfolding rwlock_demo_def by blast
qed

end
