(* ===== verification/Orbit_Specific.thy ===== *)
theory Orbit_Specific
  imports Orbit_Prelude
begin

text \<open>
  Thread-specific data (\<^verbatim>\<open>src/core/libraries/kernel/threads/pthread_spec.cpp\<close>): the table of keys, the
  values of each thread, and the destructors a thread runs when it exits.  Pointers are addresses, 0 is null.
  Every call is one step; \<^verbatim>\<open>key_create\<close> and \<^verbatim>\<open>key_delete\<close> hold the lock of the table, the other two
  touch the entry of one key and the values of their own thread.
\<close>

subsection \<open>State\<close>

definition PthreadKeysMax :: nat where "PthreadKeysMax = 256"
definition PthreadDestructorIterations :: nat where "PthreadDestructorIterations = 4"

record PthreadKey =
  k_allocated :: bool
  k_seqno :: s32
  k_destructor :: nat

record PthreadSpecificElem =
  e_data :: nat
  e_seqno :: s32

text \<open>\<open>td_specific\<close>: the array of values, once the thread has one; the count of values is a field of the thread.\<close>

record tls =
  tl_keys :: "nat \<Rightarrow> PthreadKey"
  td_specific :: "tid \<Rightarrow> (nat \<Rightarrow> PthreadSpecificElem) option"
  td_data_count :: "tid \<Rightarrow> s32"

definition tls_init :: tls where
  "tls_init = \<lparr>tl_keys = \<lambda>_. \<lparr>k_allocated = False, k_seqno = 0, k_destructor = 0\<rparr>, td_specific = \<lambda>_. None, td_data_count = \<lambda>_. 0\<rparr>"

text \<open>A key is a signed number, compared with the size of the table as an unsigned one.\<close>

definition key_index :: "s32 \<Rightarrow> nat" where
  "key_index key = nat (key mod 2 ^ 32)"

subsection \<open>Calls\<close>

definition posix_pthread_key_create :: "nat \<Rightarrow> tls \<Rightarrow> (s32 \<times> s32 option) \<times> tls" where
  "posix_pthread_key_create destructor s =
     (case find (\<lambda>k. \<not> k_allocated (tl_keys s k)) [0..<PthreadKeysMax] of
        Some k \<Rightarrow>
          ((0, Some (int k)),
           s\<lparr>tl_keys := (tl_keys s)(k := \<lparr>k_allocated = True, k_seqno = wrap_s32 (k_seqno (tl_keys s k) + 1), k_destructor = destructor\<rparr>)\<rparr>)
      | None \<Rightarrow> ((POSIX_EAGAIN, None), s))"

definition posix_pthread_key_delete :: "s32 \<Rightarrow> tls \<Rightarrow> s32 \<times> tls" where
  "posix_pthread_key_delete key s =
     (let k = key_index key in
      if k \<ge> PthreadKeysMax then (POSIX_EINVAL, s)
      else if \<not> k_allocated (tl_keys s k) then (POSIX_EINVAL, s)
      else (0, s\<lparr>tl_keys := (tl_keys s)(k := (tl_keys s k)\<lparr>k_allocated := False\<rparr>)\<rparr>))"

text \<open>The array a thread gets with its first value, if the allocator has memory.\<close>

definition with_array :: "tid \<Rightarrow> tls \<Rightarrow> tls" where
  "with_array t s =
     (if td_specific s t = None then s\<lparr>td_specific := (td_specific s)(t \<mapsto> \<lambda>_. \<lparr>e_data = 0, e_seqno = 0\<rparr>)\<rparr> else s)"

definition elem :: "tls \<Rightarrow> tid \<Rightarrow> nat \<Rightarrow> PthreadSpecificElem" where
  "elem s t k = (case td_specific s t of None \<Rightarrow> \<lparr>e_data = 0, e_seqno = 0\<rparr> | Some f \<Rightarrow> f k)"

definition put_elem :: "tid \<Rightarrow> nat \<Rightarrow> PthreadSpecificElem \<Rightarrow> tls \<Rightarrow> tls" where
  "put_elem t k x s = s\<lparr>td_specific := (td_specific s)(t := map_option (\<lambda>f. f(k := x)) (td_specific s t))\<rparr>"

definition add_count :: "tid \<Rightarrow> int \<Rightarrow> tls \<Rightarrow> tls" where
  "add_count t d s = s\<lparr>td_data_count := (td_data_count s)(t := wrap_s32 (td_data_count s t + d))\<rparr>"

definition posix_pthread_setspecific :: "bool \<Rightarrow> tid \<Rightarrow> s32 \<Rightarrow> nat \<Rightarrow> tls \<Rightarrow> s32 \<times> tls" where
  "posix_pthread_setspecific alloc t key value s =
     (if td_specific s t = None \<and> \<not> alloc then (POSIX_ENOMEM, s)
      else
        let s1 = with_array t s; k = key_index key in
        if k \<ge> PthreadKeysMax then (POSIX_EINVAL, s1)
        else if \<not> k_allocated (tl_keys s1 k) then (POSIX_EINVAL, s1)
        else
          let s2 = (if e_data (elem s1 t k) = 0 then if value \<noteq> 0 then add_count t 1 s1 else s1
                    else if value = 0 then add_count t (- 1) s1 else s1)
          in (0, put_elem t k \<lparr>e_data = value, e_seqno = k_seqno (tl_keys s1 k)\<rparr> s2))"

definition posix_pthread_getspecific :: "tid \<Rightarrow> s32 \<Rightarrow> tls \<Rightarrow> nat" where
  "posix_pthread_getspecific t key s =
     (let k = key_index key in
      if td_specific s t = None \<or> k \<ge> PthreadKeysMax then 0
      else if k_allocated (tl_keys s k) \<and> e_seqno (elem s t k) = k_seqno (tl_keys s k) then e_data (elem s t k)
      else 0)"

subsection \<open>Destructors at the end of a thread\<close>

text \<open>
  The body of the two loops for one key, up to the call: the destructor to call (0 for none), its argument,
  and the state.
\<close>

definition cleanup_key :: "tid \<Rightarrow> nat \<Rightarrow> tls \<Rightarrow> nat \<times> nat \<times> tls" where
  "cleanup_key t k s =
     (let key = tl_keys s k; x = elem s t k; s' = add_count t (- 1) (put_elem t k (x\<lparr>e_data := 0\<rparr>) s) in
      if k_allocated key \<and> e_data x \<noteq> 0 then
        if e_seqno x = k_seqno key then (k_destructor key, e_data x, s') else (0, 0, s')
      else if e_data x \<noteq> 0 then (0, 0, s')
      else (0, 0, s))"

text \<open>
  The loops.  \<open>run d v\<close> is what the destructor \<open>d\<close>, code of the guest, does to the state with argument \<open>v\<close>,
  together with whatever other threads do while the lock is not held.  The calls are listed.
\<close>

fun cleanup_pass :: "(nat \<Rightarrow> nat \<Rightarrow> tls \<Rightarrow> tls) \<Rightarrow> tid \<Rightarrow> nat list \<Rightarrow> tls \<Rightarrow> (nat \<times> nat) list \<times> tls" where
  "cleanup_pass run t [] s = ([], s)"
| "cleanup_pass run t (k # ks) s =
     (if td_data_count s t > 0 then
        case cleanup_key t k s of
          (d, v, s1) \<Rightarrow>
            if d \<noteq> 0 then (case cleanup_pass run t ks (run d v s1) of (calls, s2) \<Rightarrow> ((d, v) # calls, s2))
            else cleanup_pass run t ks s1
      else ([], s))"

primrec cleanup_iterations :: "(nat \<Rightarrow> nat \<Rightarrow> tls \<Rightarrow> tls) \<Rightarrow> tid \<Rightarrow> nat \<Rightarrow> tls \<Rightarrow> (nat \<times> nat) list \<times> tls" where
  "cleanup_iterations run t 0 s = ([], s)"
| "cleanup_iterations run t (Suc i) s =
     (if td_data_count s t > 0 then
        case cleanup_pass run t [0..<PthreadKeysMax] s of
          (calls, s1) \<Rightarrow> (case cleanup_iterations run t i s1 of (calls', s2) \<Rightarrow> (calls @ calls', s2))
      else ([], s))"

definition thread_cleanupspecific :: "(nat \<Rightarrow> nat \<Rightarrow> tls \<Rightarrow> tls) \<Rightarrow> tid \<Rightarrow> tls \<Rightarrow> (nat \<times> nat) list \<times> tls" where
  "thread_cleanupspecific run t s =
     (if td_specific s t = None then ([], s)
      else case cleanup_iterations run t PthreadDestructorIterations s of
             (calls, s') \<Rightarrow> (calls, s'\<lparr>td_specific := (td_specific s')(t := None)\<rparr>))"

text \<open>A thread object is cleared when it is allocated for a new thread.\<close>

definition fresh_thread :: "tid \<Rightarrow> tls \<Rightarrow> tls" where
  "fresh_thread t s = s\<lparr>td_specific := (td_specific s)(t := None), td_data_count := (td_data_count s)(t := 0)\<rparr>"

subsection \<open>Runs\<close>

text \<open>
  The states after any calls of any threads; \<open>n\<close> counts the keys created.  Loop bodies of
  \<^verbatim>\<open>_thread_cleanupspecific\<close> are steps of their own, in any order, so that destructors and other threads may
  do anything in between.
\<close>

inductive tls_reach :: "nat \<Rightarrow> tls \<Rightarrow> bool" where
  start: "tls_reach 0 tls_init"
| create: "tls_reach n s \<Longrightarrow> tls_reach (Suc n) (snd (posix_pthread_key_create d s))"
| delete: "tls_reach n s \<Longrightarrow> tls_reach n (snd (posix_pthread_key_delete key s))"
| set_value: "tls_reach n s \<Longrightarrow> tls_reach n (snd (posix_pthread_setspecific alloc t key value s))"
| cleanup: "tls_reach n s \<Longrightarrow> td_specific s t \<noteq> None \<Longrightarrow> k < PthreadKeysMax \<Longrightarrow>
    tls_reach n (snd (snd (cleanup_key t k s)))"
| thread: "tls_reach n s \<Longrightarrow> tls_reach n (fresh_thread t s)"

subsection \<open>Lemmas\<close>

lemma key_index_int [simp]: "k < 256 \<Longrightarrow> key_index (int k) = k"
  by (simp add: key_index_def)

lemma tls_simps [simp]:
  "tl_keys (with_array t s) = tl_keys s" "td_data_count (with_array t s) = td_data_count s"
  "tl_keys (put_elem t k x s) = tl_keys s" "td_data_count (put_elem t k x s) = td_data_count s"
  "tl_keys (add_count t d s) = tl_keys s" "td_specific (add_count t d s) = td_specific s"
  "elem (with_array t s) u k = elem s u k" "elem (add_count t d s) u k = elem s u k"
  "td_specific (with_array t s) t \<noteq> None"
  by (auto simp: with_array_def put_elem_def add_count_def elem_def)

lemma elem_put:
  "td_specific s t \<noteq> None \<Longrightarrow> elem (put_elem t k x s) u j = (if u = t \<and> j = k then x else elem s u j)"
  by (auto simp: put_elem_def elem_def)

lemma specific_put [simp]: "td_specific (put_elem t k x s) u = None \<longleftrightarrow> td_specific s u = None"
  by (simp add: put_elem_def)

lemma specific_Some [simp]:
  "(\<exists>y. td_specific (put_elem t k x s) u = Some y) = (\<exists>y. td_specific s u = Some y)"
  "\<exists>y. td_specific (with_array t s) t = Some y"
  by (auto simp: put_elem_def with_array_def)

text \<open>Which values a thread has.\<close>

definition values_of :: "tls \<Rightarrow> tid \<Rightarrow> nat set" where
  "values_of s t = {k \<in> {..<PthreadKeysMax}. e_data (elem s t k) \<noteq> 0}"

definition tls_count_ok :: "tls \<Rightarrow> bool" where
  "tls_count_ok s \<longleftrightarrow> (\<forall>t. td_data_count s t = int (card (values_of s t)))"

lemma count_add: "td_data_count (add_count t d s) u = (if u = t then wrap_s32 (td_data_count s t + d) else td_data_count s u)"
  by (simp add: add_count_def)

lemma finite_values [simp]: "finite (values_of s t)"
  by (simp add: values_of_def)

lemma card_values: "card (values_of s t) \<le> 256"
  using card_mono [of "{..<PthreadKeysMax}" "values_of s t"] by (auto simp: values_of_def PthreadKeysMax_def)

lemma values_add [simp]: "values_of (add_count t d s) u = values_of s u"
  by (simp add: values_of_def)

lemma values_put:
  assumes "td_specific s t \<noteq> None" "k < PthreadKeysMax"
  shows "values_of (put_elem t k x s) u =
    (if u = t then if e_data x \<noteq> 0 then insert k (values_of s t) else values_of s t - {k} else values_of s u)"
  using assms by (auto simp: values_of_def elem_put split: if_splits)

lemma count_change:
  assumes ok: "tls_count_ok s" and "td_specific s t \<noteq> None" and k: "k < PthreadKeysMax"
    and d: "d = of_bool (e_data x \<noteq> 0) - of_bool (e_data (elem s t k) \<noteq> 0)"
  shows "tls_count_ok (put_elem t k x (add_count t d s))"
proof -
  have c: "td_data_count s u = int (card (values_of s u))" for u using ok by (simp add: tls_count_ok_def)
  have n: "wrap_s32 (int n) = int n" if "n \<le> 257" for n using that by (intro wrap_s32_exact) auto
  have "td_data_count (put_elem t k x (add_count t d s)) u = int (card (values_of (put_elem t k x (add_count t d s)) u))" for u
  proof (cases "u = t")
    case False
    then show ?thesis using assms(2,3) c by (simp add: values_put count_add)
  next
    case True
    have mem: "k \<in> values_of s t \<longleftrightarrow> e_data (elem s t k) \<noteq> 0" using k by (simp add: values_of_def)
    have "int (card (values_of s t)) + d = int (card (values_of (put_elem t k x (add_count t d s)) t))"
      using assms mem card_gt_0_iff [of "values_of s t"]
      by (auto simp: values_put d card_insert_if card_Diff_singleton_if of_nat_diff Suc_le_eq)
    then show ?thesis using n card_values [of "put_elem t k x (add_count t d s)" t] True c [of t]
      by (simp add: count_add)
  qed
  then show ?thesis by (simp add: tls_count_ok_def)
qed

lemma count_up:
  assumes "tls_count_ok s" "td_specific s t \<noteq> None" "k < PthreadKeysMax" "e_data x \<noteq> 0" "e_data (elem s t k) = 0"
  shows "tls_count_ok (put_elem t k x (add_count t 1 s))"
  using assms by (intro count_change) auto

lemma count_down:
  assumes "tls_count_ok s" "td_specific s t \<noteq> None" "k < PthreadKeysMax" "e_data x = 0" "e_data (elem s t k) \<noteq> 0"
  shows "tls_count_ok (put_elem t k x (add_count t (- 1) s))"
  using assms by (intro count_change) auto

lemma tls_count_keys [simp]: "tls_count_ok (s\<lparr>tl_keys := f\<rparr>) = tls_count_ok s"
  by (simp add: tls_count_ok_def values_of_def elem_def)

lemma tls_count_array: "tls_count_ok (with_array t s) = tls_count_ok s"
  by (simp add: tls_count_ok_def values_of_def)

lemma tls_count_fresh: "tls_count_ok s \<Longrightarrow> tls_count_ok (fresh_thread t s)"
  by (simp add: tls_count_ok_def fresh_thread_def values_of_def elem_def)

lemma count_change_0:
  assumes "tls_count_ok s" "td_specific s t \<noteq> None" "k < PthreadKeysMax"
    "(e_data x = 0) = (e_data (elem s t k) = 0)"
  shows "tls_count_ok (put_elem t k x s)"
proof -
  have "td_data_count (put_elem t k x s) u = int (card (values_of (put_elem t k x s) u))" for u
  proof -
    have "values_of (put_elem t k x s) u = values_of s u"
      using assms(3,4) unfolding values_put [OF assms(2,3)] by (auto simp: values_of_def)
    then show ?thesis using assms(1) by (simp add: tls_count_ok_def)
  qed
  then show ?thesis by (simp add: tls_count_ok_def)
qed

lemma set_keeps_count:
  assumes "tls_count_ok s"
  shows "tls_count_ok (snd (posix_pthread_setspecific alloc t key value s))"
proof -
  have ok: "tls_count_ok (with_array t s)" using assms by (simp add: tls_count_array)
  have some: "td_specific (with_array t s) t \<noteq> None" by simp
  show ?thesis
    using assms ok count_change_0 [OF ok some] count_up [OF ok some] count_down [OF ok some]
    by (auto simp: posix_pthread_setspecific_def Let_def not_le)
qed

lemma cleanup_keeps_count:
  assumes ok: "tls_count_ok s" and some: "td_specific s t \<noteq> None" and k: "k < PthreadKeysMax"
  shows "tls_count_ok (snd (snd (cleanup_key t k s)))"
proof -
  have eq: "add_count t d (put_elem t k x s) = put_elem t k x (add_count t d s)" for d x
    by (simp add: add_count_def put_elem_def)
  show ?thesis using ok count_down [OF ok some k] by (auto simp: cleanup_key_def Let_def eq)
qed

lemma tls_reach_count: "tls_reach n s \<Longrightarrow> tls_count_ok s"
proof (induction rule: tls_reach.induct)
  case start
  show ?case by (simp add: tls_count_ok_def tls_init_def values_of_def elem_def)
next
  case (create n s d)
  then show ?case by (auto simp: posix_pthread_key_create_def split: option.splits)
next
  case (delete n s key)
  then show ?case by (simp add: posix_pthread_key_delete_def Let_def)
next
  case (set_value n s alloc t key v)
  then show ?case by (intro set_keeps_count)
next
  case (cleanup n s t k)
  then show ?case by (intro cleanup_keeps_count)
next
  case (thread n s t)
  then show ?case by (intro tls_count_fresh)
qed

text \<open>
  Generations: the sequence number of a key is the number of times it was created, and a value carries the
  number its key had when the value was stored.
\<close>

definition generations_ok :: "nat \<Rightarrow> tls \<Rightarrow> bool" where
  "generations_ok n s \<longleftrightarrow> (\<exists>g. (\<forall>k. g k \<le> n \<and> k_seqno (tl_keys s k) = wrap_s32 (int (g k))) \<and>
     (\<forall>t k. \<exists>h \<le> g k. e_seqno (elem s t k) = wrap_s32 (int h)))"

lemma generations_init: "generations_ok 0 tls_init"
  unfolding generations_ok_def by (rule exI [of _ "\<lambda>_. 0"]) (simp add: tls_init_def elem_def wrap_s32_def)

lemma generations_create:
  assumes "generations_ok n s"
  shows "generations_ok (Suc n) (snd (posix_pthread_key_create d s))"
proof -
  from assms obtain g where g: "\<And>k. g k \<le> n \<and> k_seqno (tl_keys s k) = wrap_s32 (int (g k))"
    "\<And>t k. \<exists>h \<le> g k. e_seqno (elem s t k) = wrap_s32 (int h)" unfolding generations_ok_def by blast
  show ?thesis
  proof (cases "find (\<lambda>k. \<not> k_allocated (tl_keys s k)) [0..<PthreadKeysMax]")
    case None
    then show ?thesis using g unfolding generations_ok_def
      by (intro exI [of _ g]) (auto simp: posix_pthread_key_create_def intro: le_SucI)
  next
    case (Some i)
    have e: "elem (s\<lparr>tl_keys := f\<rparr>) = elem s" for f by (simp add: elem_def fun_eq_iff)
    show ?thesis unfolding generations_ok_def
    proof (intro exI [of _ "g(i := Suc (g i))"] conjI allI)
      fix k
      show "(g(i := Suc (g i))) k \<le> Suc n" using g by (auto intro: le_SucI)
      show "k_seqno (tl_keys (snd (posix_pthread_key_create d s)) k) = wrap_s32 (int ((g(i := Suc (g i))) k))"
        using Some g by (auto simp: posix_pthread_key_create_def wrap_s32_add add.commute)
      fix t
      show "\<exists>h \<le> (g(i := Suc (g i))) k. e_seqno (elem (snd (posix_pthread_key_create d s)) t k) = wrap_s32 (int h)"
        using Some g(2) [of k t] by (auto simp: posix_pthread_key_create_def e intro: le_SucI)
    qed
  qed
qed

text \<open>A step that stores current sequence numbers, or none, and leaves the table's numbers alone.\<close>

lemma generations_store:
  assumes "generations_ok n s" and "\<And>k. k_seqno (tl_keys s' k) = k_seqno (tl_keys s k)"
    and "\<And>t k. e_seqno (elem s' t k) \<in> {e_seqno (elem s t k), k_seqno (tl_keys s k), 0}"
  shows "generations_ok n s'"
proof -
  from assms(1) obtain g where g: "\<And>k. g k \<le> n \<and> k_seqno (tl_keys s k) = wrap_s32 (int (g k))"
    "\<And>t k. \<exists>h \<le> g k. e_seqno (elem s t k) = wrap_s32 (int h)" unfolding generations_ok_def by blast
  have "\<exists>h \<le> g k. e_seqno (elem s' t k) = wrap_s32 (int h)" for t k
  proof -
    have z: "0 = wrap_s32 (int 0)" by (simp add: wrap_s32_def)
    show ?thesis using assms(3) [of t k] g(1) [of k] g(2) [of k t] z
      by (metis empty_iff insert_iff le0 order_refl)
  qed
  then show ?thesis using g(1) assms(2) unfolding generations_ok_def by (intro exI [of _ g]) simp
qed

lemma tls_reach_generations: "tls_reach n s \<Longrightarrow> generations_ok n s"
proof (induction rule: tls_reach.induct)
  case start
  show ?case by (rule generations_init)
next
  case (create n s d)
  then show ?case by (intro generations_create)
next
  case (delete n s key)
  show ?case
    by (rule generations_store [OF delete.IH]) (auto simp: posix_pthread_key_delete_def Let_def elem_def)
next
  case (set_value n s alloc t key v)
  show ?case
    by (rule generations_store [OF set_value.IH])
       (auto simp: posix_pthread_setspecific_def Let_def elem_put)
next
  case (cleanup n s t k)
  show ?case
    by (rule generations_store [OF cleanup.IH]) (use cleanup.hyps in \<open>auto simp: cleanup_key_def Let_def elem_put\<close>)
next
  case (thread n s t)
  show ?case by (rule generations_store [OF thread.IH]) (auto simp: fresh_thread_def elem_def)
qed

subsection \<open>Specification\<close>

text \<open>
  What the calls promise: a table of live keys and, for each thread, the value of each key.  A new key has the
  value null in every thread.
\<close>

record tls_spec =
  sp_live :: "nat \<Rightarrow> bool"
  sp_value :: "tid \<Rightarrow> nat \<Rightarrow> nat"

definition spec_clear :: "nat \<Rightarrow> bool \<Rightarrow> tls_spec \<Rightarrow> tls_spec" where
  "spec_clear k live a = a\<lparr>sp_live := (sp_live a)(k := live), sp_value := \<lambda>t. (sp_value a t)(k := 0)\<rparr>"

definition spec_set :: "tid \<Rightarrow> nat \<Rightarrow> nat \<Rightarrow> tls_spec \<Rightarrow> tls_spec" where
  "spec_set t k v a = a\<lparr>sp_value := (sp_value a)(t := (sp_value a t)(k := v))\<rparr>"

definition tls_abs :: "tls \<Rightarrow> tls_spec" where
  "tls_abs s =
     \<lparr>sp_live = \<lambda>k. k < PthreadKeysMax \<and> k_allocated (tl_keys s k),
      sp_value = \<lambda>t k. if k < PthreadKeysMax then posix_pthread_getspecific t (int k) s else 0\<rparr>"

lemma get_elem:
  "k < PthreadKeysMax \<Longrightarrow> posix_pthread_getspecific t (int k) s =
     (if k_allocated (tl_keys s k) \<and> e_seqno (elem s t k) = k_seqno (tl_keys s k) then e_data (elem s t k) else 0)"
  by (auto simp: posix_pthread_getspecific_def PthreadKeysMax_def elem_def Let_def split: option.splits)

lemma get_key: "posix_pthread_getspecific t key s = (if key_index key < PthreadKeysMax then sp_value (tls_abs s) t (key_index key) else 0)"
proof (cases "key_index key < PthreadKeysMax")
  case True
  then have "key_index (int (key_index key)) = key_index key" by (intro key_index_int) (simp add: PthreadKeysMax_def)
  then show ?thesis using True by (simp add: tls_abs_def posix_pthread_getspecific_def)
qed (simp add: posix_pthread_getspecific_def Let_def)

lemma tls_abs_eqI:
  assumes "\<And>k. k < PthreadKeysMax \<Longrightarrow> sp_live a k = k_allocated (tl_keys s k)"
    and "\<And>t k. k < PthreadKeysMax \<Longrightarrow> sp_value a t k =
       (if k_allocated (tl_keys s k) \<and> e_seqno (elem s t k) = k_seqno (tl_keys s k) then e_data (elem s t k) else 0)"
    and "\<And>t k. \<not> k < PthreadKeysMax \<Longrightarrow> \<not> sp_live a k \<and> sp_value a t k = 0"
  shows "tls_abs s = a"
proof -
  have "sp_live (tls_abs s) k = sp_live a k" for k using assms(1,3) [of k] by (auto simp: tls_abs_def)
  moreover have "sp_value (tls_abs s) t k = sp_value a t k" for t k using assms(2,3) [of k t] get_elem [of k t s] by (auto simp: tls_abs_def)
  ultimately show ?thesis by (intro tls_spec.equality) (simp_all add: fun_eq_iff)
qed

lemma tls_abs_live [simp]: "k < PthreadKeysMax \<Longrightarrow> sp_live (tls_abs s) k = k_allocated (tl_keys s k)"
  by (simp add: tls_abs_def)

lemma tls_abs_value: "k < PthreadKeysMax \<Longrightarrow> sp_value (tls_abs s) t k =
    (if k_allocated (tl_keys s k) \<and> e_seqno (elem s t k) = k_seqno (tl_keys s k) then e_data (elem s t k) else 0)"
  using get_elem by (simp add: tls_abs_def)

lemma tls_abs_outside [simp]: "\<not> k < PthreadKeysMax \<Longrightarrow> \<not> sp_live (tls_abs s) k \<and> sp_value (tls_abs s) t k = 0"
  by (simp add: tls_abs_def)

text \<open>A number that is about to become current is on no value yet.\<close>

lemma next_seqno_fresh:
  assumes "generations_ok n s" and "Suc n < 2 ^ 32"
  shows "e_seqno (elem s t k) \<noteq> wrap_s32 (k_seqno (tl_keys s k) + 1)"
proof -
  from assms(1) obtain g where g: "\<And>k. g k \<le> n \<and> k_seqno (tl_keys s k) = wrap_s32 (int (g k))"
    "\<And>t k. \<exists>h \<le> g k. e_seqno (elem s t k) = wrap_s32 (int h)" unfolding generations_ok_def by blast
  obtain h where h: "h \<le> g k" "e_seqno (elem s t k) = wrap_s32 (int h)" using g(2) by blast
  have "wrap_s32 (k_seqno (tl_keys s k) + 1) = wrap_s32 (int (Suc (g k)))" using g(1) [of k] by (simp add: wrap_s32_add add.commute)
  then show ?thesis using wrap_s32_nat_inj [of h "Suc (g k)"] h g(1) [of k] assms(2) by auto
qed

lemma abs_create:
  assumes "generations_ok n s" and "Suc n < 2 ^ 32"
    and "find (\<lambda>k. \<not> k_allocated (tl_keys s k)) [0..<PthreadKeysMax] = Some i"
  shows "tls_abs (snd (posix_pthread_key_create d s)) = spec_clear i True (tls_abs s)"
proof -
  have i: "i < PthreadKeysMax" using assms(3) by (auto simp: find_Some_iff)
  have e: "elem (s\<lparr>tl_keys := f\<rparr>) = elem s" for f by (simp add: elem_def fun_eq_iff)
  show ?thesis
    by (rule tls_abs_eqI)
       (use next_seqno_fresh [OF assms(1,2)] i in
        \<open>auto simp: posix_pthread_key_create_def assms(3) spec_clear_def e tls_abs_value\<close>)
qed

lemma abs_delete:
  assumes "k < PthreadKeysMax" and "k_allocated (tl_keys s k)"
  shows "tls_abs (s\<lparr>tl_keys := (tl_keys s)(k := (tl_keys s k)\<lparr>k_allocated := False\<rparr>)\<rparr>) = spec_clear k False (tls_abs s)"
proof -
  have e: "elem (s\<lparr>tl_keys := f\<rparr>) = elem s" for f by (simp add: elem_def fun_eq_iff)
  show ?thesis by (rule tls_abs_eqI) (use assms in \<open>auto simp: spec_clear_def e tls_abs_value\<close>)
qed

lemma abs_put:
  assumes "td_specific s t \<noteq> None" and "k < PthreadKeysMax" and "k_allocated (tl_keys s k)"
  shows "tls_abs (put_elem t k \<lparr>e_data = v, e_seqno = k_seqno (tl_keys s k)\<rparr> s) = spec_set t k v (tls_abs s)"
  by (rule tls_abs_eqI) (use assms in \<open>auto simp: spec_set_def tls_abs_value elem_put\<close>)

lemma abs_quiet: "tls_abs (with_array t s) = tls_abs s" "tls_abs (add_count t d s) = tls_abs s"
  by (rule tls_abs_eqI; simp add: tls_abs_value)+

definition spec_create :: "tls_spec \<Rightarrow> nat option \<times> tls_spec" where
  "spec_create a =
     (case find (\<lambda>k. \<not> sp_live a k) [0..<PthreadKeysMax] of
        None \<Rightarrow> (None, a)
      | Some k \<Rightarrow> (Some k, spec_clear k True a))"

lemma find_live: "find (\<lambda>k. \<not> sp_live (tls_abs s) k) [0..<PthreadKeysMax] = find (\<lambda>k. \<not> k_allocated (tl_keys s k)) [0..<PthreadKeysMax]"
  by (rule find_cong) simp_all

text \<open>
  C39: thread-specific data is what POSIX says.  As long as fewer than \<open>2^32\<close> keys were created, the calls
  implement a table of live keys with one value per thread and key: \<^verbatim>\<open>key_create\<close> returns the lowest free
  key, with the value null in every thread even if the key was deleted with values before, or EAGAIN when all
  are live; \<^verbatim>\<open>key_delete\<close> ends a live key; \<^verbatim>\<open>setspecific\<close> sets exactly the caller's value;
  \<^verbatim>\<open>getspecific\<close> reads it back; and calls on keys that are not live change nothing.
\<close>

theorem tls_refines_spec:
  assumes reach: "tls_reach n s" and few: "Suc n < 2 ^ 32"
  shows "(case (posix_pthread_key_create d s, spec_create (tls_abs s)) of
        (((ret, key), s'), (k, a)) \<Rightarrow> key = map_option int k \<and> ret = (if k = None then POSIX_EAGAIN else 0) \<and> tls_abs s' = a) \<and>
    (let k = key_index key; live = (k < PthreadKeysMax \<and> sp_live (tls_abs s) k); a = tls_abs s in
      (case posix_pthread_key_delete key s of
         (ret, s') \<Rightarrow> if live then ret = 0 \<and> tls_abs s' = spec_clear k False a else ret = POSIX_EINVAL \<and> s' = s) \<and>
      (case posix_pthread_setspecific True t key v s of
         (ret, s') \<Rightarrow> if live then ret = 0 \<and> tls_abs s' = spec_set t k v a else ret = POSIX_EINVAL \<and> tls_abs s' = a) \<and>
      posix_pthread_getspecific t key s = (if k < PthreadKeysMax then sp_value a t k else 0))"
proof -
  have gen: "generations_ok n s" using tls_reach_generations reach .
  let ?k = "key_index key"
  have "case (posix_pthread_key_create d s, spec_create (tls_abs s)) of
        (((ret, key), s'), (k, a)) \<Rightarrow> key = map_option int k \<and> ret = (if k = None then POSIX_EAGAIN else 0) \<and> tls_abs s' = a"
    using abs_create [OF gen few, of _ d]
    by (auto simp: posix_pthread_key_create_def spec_create_def find_live split: option.splits)
  moreover have "case posix_pthread_key_delete key s of
      (ret, s') \<Rightarrow> if ?k < PthreadKeysMax \<and> sp_live (tls_abs s) ?k
        then ret = 0 \<and> tls_abs s' = spec_clear ?k False (tls_abs s) else ret = POSIX_EINVAL \<and> s' = s"
    using abs_delete [of ?k s] by (simp add: posix_pthread_key_delete_def Let_def not_le)
  moreover have "case posix_pthread_setspecific True t key v s of
      (ret, s') \<Rightarrow> if ?k < PthreadKeysMax \<and> sp_live (tls_abs s) ?k
        then ret = 0 \<and> tls_abs s' = spec_set t ?k v (tls_abs s) else ret = POSIX_EINVAL \<and> tls_abs s' = tls_abs s"
  proof -
    have some: "td_specific (with_array t s) t \<noteq> None" by simp
    have put: "tls_abs (put_elem t ?k \<lparr>e_data = x, e_seqno = k_seqno (tl_keys s ?k)\<rparr> s') = spec_set t ?k x (tls_abs s)"
      if "?k < PthreadKeysMax" "k_allocated (tl_keys s ?k)" "tls_abs s' = tls_abs s" "td_specific s' t \<noteq> None"
        "tl_keys s' = tl_keys s" for s' x
      using abs_put [OF that(4,1)] that by simp
    show ?thesis using some
      by (auto simp: posix_pthread_setspecific_def Let_def not_le abs_quiet intro!: put)
  qed
  ultimately show ?thesis by (simp add: Let_def get_key)
qed

lemma tls_refines_spec_witness:
  "\<exists>s. tls_reach 2 s \<and> posix_pthread_getspecific 5 0 s = 0 \<and>
     (\<exists>s0. tls_reach 1 s0 \<and> posix_pthread_getspecific 5 0 s0 = 77 \<and>
        s = snd (posix_pthread_key_create 9 (snd (posix_pthread_key_delete 0 s0))))"
proof -
  let ?s1 = "snd (posix_pthread_key_create 0 tls_init)"
  let ?s2 = "snd (posix_pthread_setspecific True 5 0 77 ?s1)"
  let ?s3 = "snd (posix_pthread_key_delete 0 ?s2)"
  let ?s4 = "snd (posix_pthread_key_create 9 ?s3)"
  have r1: "tls_reach 1 ?s1" using tls_reach.create [OF tls_reach.start] by simp
  have r2: "tls_reach 1 ?s2" by (rule tls_reach.set_value [OF r1])
  have r3: "tls_reach 1 ?s3" by (rule tls_reach.delete [OF r2])
  have r4: "tls_reach 2 ?s4" using tls_reach.create [OF r3, of 9] by (simp add: numeral_2_eq_2)
  have live1: "sp_live (tls_abs ?s1) 0"
    by (simp add: tls_abs_def PthreadKeysMax_def posix_pthread_key_create_def tls_init_def upt_conv_Cons)
  have zero: "key_index 0 = 0" "0 < PthreadKeysMax" by (simp_all add: key_index_def PthreadKeysMax_def)
  have s2: "tls_abs ?s2 = spec_set 5 0 77 (tls_abs ?s1)"
    using tls_refines_spec [OF r1, of 0 0 5 77] live1 zero by (simp add: Let_def case_prod_beta)
  have g2: "posix_pthread_getspecific 5 0 ?s2 = 77"
    using tls_refines_spec [OF r2, of 0 0 5 0] s2 zero by (simp add: Let_def case_prod_beta spec_set_def)
  have s3: "tls_abs ?s3 = spec_clear 0 False (tls_abs ?s2)"
    using tls_refines_spec [OF r2, of 0 0 5 0] s2 live1 zero by (simp add: Let_def case_prod_beta spec_set_def)
  have "spec_create (tls_abs ?s3) = (Some 0, spec_clear 0 True (tls_abs ?s3))"
    using s3 by (simp add: spec_create_def PthreadKeysMax_def upt_conv_Cons spec_clear_def)
  then have s4: "tls_abs ?s4 = spec_clear 0 True (tls_abs ?s3)"
    using tls_refines_spec [OF r3, of 9 0 5 0] by (simp add: case_prod_beta)
  have "posix_pthread_getspecific 5 0 ?s4 = 0"
    using tls_refines_spec [OF r4, of 0 0 5 0] s4 zero by (simp add: Let_def case_prod_beta spec_clear_def)
  then show ?thesis using r4 r2 g2 by blast
qed

subsection \<open>Exit\<close>

text \<open>The destructor to call for a key, if any.\<close>

definition wants_destructor :: "tid \<Rightarrow> tls \<Rightarrow> nat \<Rightarrow> bool" where
  "wants_destructor t s k \<longleftrightarrow> k_destructor (tl_keys s k) \<noteq> 0 \<and> posix_pthread_getspecific t (int k) s \<noteq> 0"

lemma cleanup_pass_calls: "length (fst (cleanup_pass run t ks s)) \<le> length ks"
proof (induction ks arbitrary: s)
  case (Cons k ks)
  obtain d v s1 where c: "cleanup_key t k s = (d, v, s1)" by (cases "cleanup_key t k s") auto
  show ?case using Cons [of "run d v s1"] Cons [of s1] by (auto simp: c split: prod.splits)
qed simp

lemma cleanup_iterations_calls: "length (fst (cleanup_iterations run t i s)) \<le> i * PthreadKeysMax"
proof (induction i arbitrary: s)
  case (Suc i)
  obtain calls s1 where c: "cleanup_pass run t [0..<PthreadKeysMax] s = (calls, s1)" by fastforce
  have "length calls \<le> PthreadKeysMax" using cleanup_pass_calls [of run t "[0..<PthreadKeysMax]" s] c by simp
  then show ?case using Suc [of s1] by (auto simp: c split: prod.splits)
qed simp

lemma cleanup_key_run:
  assumes "td_specific s t \<noteq> None" and k: "k < PthreadKeysMax" and "cleanup_key t k s = (d, v, s1)"
  shows "d \<noteq> 0 \<longleftrightarrow> wants_destructor t s k" and "d \<noteq> 0 \<Longrightarrow> (d, v) = (k_destructor (tl_keys s k), posix_pthread_getspecific t (int k) s)"
    and "tl_keys s1 = tl_keys s" and "\<And>j. j \<noteq> k \<Longrightarrow> elem s1 t j = elem s t j" and "e_data (elem s1 t k) = 0"
    and "td_specific s1 t \<noteq> None"
proof -
  have eq: "add_count t d (put_elem t k x s) = put_elem t k x (add_count t d s)" for d x
    by (simp add: add_count_def put_elem_def)
  show "d \<noteq> 0 \<longleftrightarrow> wants_destructor t s k" "d \<noteq> 0 \<Longrightarrow> (d, v) = (k_destructor (tl_keys s k), posix_pthread_getspecific t (int k) s)"
      "tl_keys s1 = tl_keys s" "\<And>j. j \<noteq> k \<Longrightarrow> elem s1 t j = elem s t j" "e_data (elem s1 t k) = 0" "td_specific s1 t \<noteq> None"
    using assms by (auto simp: cleanup_key_def Let_def wants_destructor_def get_elem [OF k] elem_put eq split: if_splits)
qed

text \<open>One pass with destructors that leave thread-specific data alone.\<close>

lemma cleanup_pass_quiet:
  assumes "tls_count_ok s" and "td_specific s t \<noteq> None" and "a \<le> PthreadKeysMax" and "\<And>k. k < a \<Longrightarrow> e_data (elem s t k) = 0"
  shows "fst (cleanup_pass (\<lambda>_ _ s. s) t [a..<PthreadKeysMax] s) =
      map (\<lambda>k. (k_destructor (tl_keys s k), posix_pthread_getspecific t (int k) s)) (filter (wants_destructor t s) [a..<PthreadKeysMax]) \<and>
    td_data_count (snd (cleanup_pass (\<lambda>_ _ s. s) t [a..<PthreadKeysMax] s)) t = 0"
  using assms
proof (induction "PthreadKeysMax - a" arbitrary: a s)
  case 0
  then have "values_of s t = {}" by (auto simp: values_of_def)
  then show ?case using 0 by (simp add: tls_count_ok_def)
next
  case (Suc n)
  then have a: "a < PthreadKeysMax" by simp
  show ?case
  proof (cases "td_data_count s t > 0")
    case False
    then have "values_of s t = {}" using Suc.prems(1) card_gt_0_iff [of "values_of s t"] by (simp add: tls_count_ok_def)
    then have "e_data (elem s t k) = 0" if "k < PthreadKeysMax" for k using that by (auto simp: values_of_def)
    then have none: "filter (wants_destructor t s) [a..<PthreadKeysMax] = []" by (auto simp: filter_empty_conv wants_destructor_def get_elem)
    have "td_data_count s t = 0" using False Suc.prems(1) \<open>values_of s t = {}\<close> by (simp add: tls_count_ok_def)
    then show ?thesis using a none by (simp add: upt_conv_Cons)
  next
    case True
    obtain d v s1 where c: "cleanup_key t a s = (d, v, s1)" by (cases "cleanup_key t a s") auto
    note r = cleanup_key_run [OF Suc.prems(2) a c]
    have ok1: "tls_count_ok s1" using cleanup_keeps_count [OF Suc.prems(1,2) a] c by simp
    have "e_data (elem s1 t k) = 0" if "k < Suc a" for k using that r(4,5) Suc.prems(4) by (cases "k = a") auto
    note IH = Suc.hyps(1) [of "Suc a" s1, OF _ ok1 r(6) _ this]
    have same: "posix_pthread_getspecific t (int k) s1 = posix_pthread_getspecific t (int k) s" if "k \<in> {Suc a..<PthreadKeysMax}" for k
      using that r(3,4) by (simp add: get_elem)
    then have "wants_destructor t s1 k = wants_destructor t s k" if "k \<in> {Suc a..<PthreadKeysMax}" for k
      using that r(3) by (simp add: wants_destructor_def)
    then have f: "filter (wants_destructor t s1) [Suc a..<PthreadKeysMax] = filter (wants_destructor t s) [Suc a..<PthreadKeysMax]"
      by (intro filter_cong) auto
    show ?thesis using IH Suc.hyps(2) a True r(1,2,3) same f by (auto simp: upt_conv_Cons c split: prod.splits)
  qed
qed

text \<open>
  Destructors at the end of a thread.  With destructors that leave thread-specific data alone, the exiting
  thread calls exactly the destructors of its non-null values of live keys, each once with its value, in the
  order of the keys, and no value is left.  Whatever the destructors and other threads do, the loops end after
  at most four passes over the table.
\<close>

theorem exit_runs_destructors:
  assumes reach: "tls_reach n s" and arr: "td_specific s t \<noteq> None"
  shows "fst (thread_cleanupspecific (\<lambda>_ _ s. s) t s) =
      map (\<lambda>k. (k_destructor (tl_keys s k), posix_pthread_getspecific t (int k) s)) (filter (wants_destructor t s) [0..<PthreadKeysMax]) \<and>
    td_data_count (snd (thread_cleanupspecific (\<lambda>_ _ s. s) t s)) t = 0 \<and>
    length (fst (thread_cleanupspecific run t s)) \<le> 4 * 256"
proof -
  let ?run = "\<lambda>_ _ s. s"
  have ok: "tls_count_ok s" using tls_reach_count reach .
  have idle: "cleanup_iterations ?run t i s' = ([], s')" if "td_data_count s' t = 0" for i s' using that by (cases i) simp_all
  obtain calls s1 where c: "cleanup_pass ?run t [0..<PthreadKeysMax] s = (calls, s1)" by fastforce
  note pass = cleanup_pass_quiet [OF ok arr, of 0, unfolded c]
  have "fst (cleanup_iterations ?run t 4 s) = calls \<and> td_data_count (snd (cleanup_iterations ?run t 4 s)) t = 0"
  proof (cases "td_data_count s t > 0")
    case True
    have four: "(4 :: nat) = Suc 3" by simp
    have "td_data_count s1 t = 0" using pass by simp
    from idle [OF this, of 3] True \<open>td_data_count s1 t = 0\<close> show ?thesis
      unfolding four cleanup_iterations.simps by (simp add: c)
  next
    case False
    have "td_data_count s t = 0" using False ok by (simp add: tls_count_ok_def)
    moreover have "cleanup_pass ?run t [0..<PthreadKeysMax] s = ([], s)"
      using False by (simp add: PthreadKeysMax_def upt_conv_Cons)
    ultimately show ?thesis using idle [of s 4] c by simp
  qed
  moreover have "length (fst (thread_cleanupspecific run t s)) \<le> 4 * 256"
    using cleanup_iterations_calls [of run t 4 s]
    by (auto simp: thread_cleanupspecific_def PthreadDestructorIterations_def PthreadKeysMax_def split: prod.splits)
  ultimately show ?thesis using arr pass
    by (auto simp: thread_cleanupspecific_def PthreadDestructorIterations_def split: prod.splits)
qed

lemma exit_runs_destructors_witness:
  "\<exists>s. tls_reach 1 s \<and> fst (thread_cleanupspecific (\<lambda>_ _ s. s) 5 s) = [(9, 77)]"
proof -
  let ?s1 = "snd (posix_pthread_key_create 9 tls_init)"
  let ?s2 = "snd (posix_pthread_setspecific True 5 0 77 ?s1)"
  have "tls_reach 1 ?s1" using tls_reach.create [OF tls_reach.start] by simp
  then have r: "tls_reach 1 ?s2" by (rule tls_reach.set_value)
  have s1: "?s1 = tls_init\<lparr>tl_keys := (tl_keys tls_init)(0 := \<lparr>k_allocated = True, k_seqno = 1, k_destructor = 9\<rparr>)\<rparr>"
    by (simp add: posix_pthread_key_create_def PthreadKeysMax_def upt_conv_Cons tls_init_def wrap_s32_def)
  have arr: "td_specific ?s2 5 \<noteq> None" unfolding s1
    by (simp add: posix_pthread_setspecific_def Let_def key_index_def PthreadKeysMax_def)
  have el: "elem ?s2 5 0 = \<lparr>e_data = 77, e_seqno = 1\<rparr>" unfolding s1
    by (simp add: posix_pthread_setspecific_def Let_def key_index_def PthreadKeysMax_def elem_def put_elem_def with_array_def tls_init_def add_count_def)
  have zero: "0 < PthreadKeysMax" by (simp add: PthreadKeysMax_def)
  define S where "S = ?s2"
  have keys: "tl_keys S = (tl_keys tls_init)(0 := \<lparr>k_allocated = True, k_seqno = 1, k_destructor = 9\<rparr>)"
    unfolding S_def s1 by (simp add: posix_pthread_setspecific_def Let_def)
  note S = r [folded S_def] arr [folded S_def] el [folded S_def]
  have get: "posix_pthread_getspecific 5 (int k) S = (if k = 0 then 77 else 0)" if "k < PthreadKeysMax" for k
    unfolding get_elem [OF that] by (cases "k = 0") (simp_all add: keys tls_init_def S(3))
  have wd: "wants_destructor 5 S k \<longleftrightarrow> k = 0" if "k < PthreadKeysMax" for k
    using get [OF that] by (simp add: wants_destructor_def keys)
  have "filter (wants_destructor 5 S) [0..<PthreadKeysMax] = filter (\<lambda>k. k = 0) [0..<PthreadKeysMax]"
    using wd by (intro filter_cong) auto
  also have "\<dots> = [0]" using upt_conv_Cons [of 0 PthreadKeysMax] by (simp add: zero filter_empty_conv)
  finally have f: "filter (wants_destructor 5 S) [0..<PthreadKeysMax] = [0]" .
  have "fst (thread_cleanupspecific (\<lambda>_ _ s. s) 5 S) = [(9, 77)]"
    using exit_runs_destructors [OF S(1,2)] get [OF zero] by (simp add: f keys)
  then show ?thesis using S(1) by blast
qed

end
