(* ===== verification/Orbit_ThreadAttr.thy ===== *)
theory Orbit_ThreadAttr
  imports Orbit_Prelude "HOL-Library.Word"
begin

text \<open>
  The attributes of threads (\<^verbatim>\<open>src/core/libraries/kernel/threads/pthread_attr.cpp\<close>), and what
  \<^verbatim>\<open>pthread_create\<close> makes of them.  An attribute variable is null or owns its attributes; the processor set
  of attributes is an object of its own, 16 bytes long, that the attributes point to.
\<close>

unbundle bit_operations_syntax

subsection \<open>Types and constants\<close>

definition POSIX_ENOTSUP :: s32 where "POSIX_ENOTSUP = 45"

definition SchedFifo :: nat where "SchedFifo = 1"
definition SchedOther :: nat where "SchedOther = 2"
definition SchedRoundRobin :: nat where "SchedRoundRobin = 3"


definition FlagDetached :: "32 word" where "FlagDetached = 1"
definition FlagScopeSystem :: "32 word" where "FlagScopeSystem = 2"
definition FlagScopeProcess :: "32 word" where "FlagScopeProcess = 0"

definition PthreadInheritSched :: s32 where "PthreadInheritSched = 4"
definition PthreadStackMin :: nat where "PthreadStackMin = 16384"
definition ThrStackDefault :: nat where "ThrStackDefault = 1048576"
definition sizeof_Cpuset :: nat where "sizeof_Cpuset = 16"

record PthreadPrio =
  pri_min :: s32
  pri_max :: s32
  pri_default :: s32

definition ThrPriorities :: "PthreadPrio list" where
  "ThrPriorities =
     [\<lparr>pri_min = 0x100, pri_max = 0x2FF, pri_default = 0x2BC\<rparr>,
      \<lparr>pri_min = 0x300, pri_max = 0x3BF, pri_default = 0x384\<rparr>,
      \<lparr>pri_min = 0x100, pri_max = 0x2FF, pri_default = 0x2BC\<rparr>]"

text \<open>\<open>at_cpuset\<close> is an address, 0 for null.\<close>

record PthreadAttr =
  at_policy :: nat
  at_inherit :: s32
  at_prio :: s32
  at_suspend :: s32
  at_flags :: "32 word"
  at_stackaddr :: nat
  at_stacksize :: nat
  at_guardsize :: nat
  at_cpusetsize :: nat
  at_cpuset :: nat

definition PthreadAttrDefault :: PthreadAttr where
  "PthreadAttrDefault =
     \<lparr>at_policy = SchedOther, at_inherit = PthreadInheritSched, at_prio = 700, at_suspend = 0, at_flags = FlagScopeSystem,
      at_stackaddr = 0, at_stacksize = ThrStackDefault, at_guardsize = 0, at_cpusetsize = 0, at_cpuset = 0\<rparr>"

type_synonym attr_cells = "nat \<Rightarrow> PthreadAttr option"
type_synonym cpuset_heap = "nat \<Rightarrow> 8 word list option"

subsection \<open>Creation, destruction, reading\<close>



text \<open>\<open>out\<close>: the pointer for the result is not null.\<close>

definition attr_get :: "(PthreadAttr \<Rightarrow> 'a) \<Rightarrow> nat option \<Rightarrow> bool \<Rightarrow> attr_cells \<Rightarrow> s32 \<times> 'a option" where
  "attr_get f attr out cells =
     (case deref cells attr of
        None \<Rightarrow> (POSIX_EINVAL, None)
      | Some (a, x) \<Rightarrow> if out then (0, Some (f x)) else (POSIX_EINVAL, None))"

definition posix_pthread_attr_getdetachstate :: "nat option \<Rightarrow> bool \<Rightarrow> attr_cells \<Rightarrow> s32 \<times> s32 option" where
  "posix_pthread_attr_getdetachstate = attr_get (\<lambda>x. of_bool (at_flags x AND FlagDetached \<noteq> 0))"

definition posix_pthread_attr_getguardsize :: "nat option \<Rightarrow> bool \<Rightarrow> attr_cells \<Rightarrow> s32 \<times> nat option" where
  "posix_pthread_attr_getguardsize = attr_get at_guardsize"

text \<open>This one writes through the second pointer without a test.\<close>

definition posix_pthread_attr_getinheritsched :: "nat option \<Rightarrow> attr_cells \<Rightarrow> s32 \<times> s32 option" where
  "posix_pthread_attr_getinheritsched attr cells = attr_get at_inherit attr True cells"

definition posix_pthread_attr_getschedparam :: "nat option \<Rightarrow> bool \<Rightarrow> attr_cells \<Rightarrow> s32 \<times> s32 option" where
  "posix_pthread_attr_getschedparam = attr_get at_prio"

definition posix_pthread_attr_getschedpolicy :: "nat option \<Rightarrow> bool \<Rightarrow> attr_cells \<Rightarrow> s32 \<times> nat option" where
  "posix_pthread_attr_getschedpolicy = attr_get at_policy"

definition posix_pthread_attr_getscope :: "nat option \<Rightarrow> bool \<Rightarrow> attr_cells \<Rightarrow> s32 \<times> 32 word option" where
  "posix_pthread_attr_getscope =
     attr_get (\<lambda>x. if at_flags x AND FlagScopeSystem \<noteq> 0 then FlagScopeSystem else FlagScopeProcess)"

text \<open>\<open>out2\<close>: the same for the second result.\<close>

definition posix_pthread_attr_getstack :: "nat option \<Rightarrow> bool \<Rightarrow> bool \<Rightarrow> attr_cells \<Rightarrow> s32 \<times> (nat \<times> nat) option" where
  "posix_pthread_attr_getstack attr out out2 = attr_get (\<lambda>x. (at_stackaddr x, at_stacksize x)) attr (out \<and> out2)"

definition posix_pthread_attr_getstackaddr :: "nat option \<Rightarrow> bool \<Rightarrow> attr_cells \<Rightarrow> s32 \<times> nat option" where
  "posix_pthread_attr_getstackaddr = attr_get at_stackaddr"

definition posix_pthread_attr_getstacksize :: "nat option \<Rightarrow> bool \<Rightarrow> attr_cells \<Rightarrow> s32 \<times> nat option" where
  "posix_pthread_attr_getstacksize = attr_get at_stacksize"

subsection \<open>Setting\<close>

text \<open>
  \<open>check\<close> gives the error for attributes, if any, \<open>f\<close> the new ones.
\<close>

definition attr_set :: "(PthreadAttr \<Rightarrow> s32 option) \<Rightarrow> (PthreadAttr \<Rightarrow> PthreadAttr) \<Rightarrow> nat option \<Rightarrow> attr_cells \<Rightarrow> s32 \<times> attr_cells" where
  "attr_set check f attr cells =
     (case deref cells attr of
        None \<Rightarrow> (POSIX_EINVAL, cells)
      | Some (a, x) \<Rightarrow> (case check x of Some ret \<Rightarrow> (ret, cells) | None \<Rightarrow> (0, cells(a \<mapsto> f x))))"

definition fails_if :: "bool \<Rightarrow> s32 \<Rightarrow> s32 option" where
  "fails_if b ret = (if b then Some ret else None)"

definition posix_pthread_attr_setcreatesuspend_np :: "nat option \<Rightarrow> attr_cells \<Rightarrow> s32 \<times> attr_cells" where
  "posix_pthread_attr_setcreatesuspend_np = attr_set (\<lambda>_. None) (\<lambda>x. x\<lparr>at_suspend := 1\<rparr>)"

definition posix_pthread_attr_setschedpolicy :: "nat option \<Rightarrow> nat \<Rightarrow> attr_cells \<Rightarrow> s32 \<times> attr_cells" where
  "posix_pthread_attr_setschedpolicy attr policy =
     attr_set (\<lambda>_. fails_if (policy < SchedFifo \<or> policy > SchedRoundRobin) POSIX_ENOTSUP)
       (\<lambda>x. x\<lparr>at_policy := policy, at_prio := pri_default (ThrPriorities ! (policy - 1))\<rparr>) attr"

definition posix_pthread_attr_setscope :: "nat option \<Rightarrow> 32 word \<Rightarrow> attr_cells \<Rightarrow> s32 \<times> attr_cells" where
  "posix_pthread_attr_setscope attr contentionscope =
     attr_set (\<lambda>_. fails_if (contentionscope \<noteq> FlagScopeProcess \<or> contentionscope \<noteq> FlagScopeSystem) POSIX_EINVAL)
       (\<lambda>x. x\<lparr>at_flags := if contentionscope = FlagScopeSystem then at_flags x OR contentionscope
                          else at_flags x AND NOT FlagScopeSystem\<rparr>) attr"

definition posix_pthread_attr_setstack :: "nat option \<Rightarrow> nat \<Rightarrow> nat \<Rightarrow> attr_cells \<Rightarrow> s32 \<times> attr_cells" where
  "posix_pthread_attr_setstack attr stackaddr stacksize =
     attr_set (\<lambda>_. fails_if (stackaddr = 0 \<or> stacksize < PthreadStackMin) POSIX_EINVAL)
       (\<lambda>x. x\<lparr>at_stackaddr := stackaddr, at_stacksize := stacksize\<rparr>) attr"

definition posix_pthread_attr_setstackaddr :: "nat option \<Rightarrow> nat \<Rightarrow> attr_cells \<Rightarrow> s32 \<times> attr_cells" where
  "posix_pthread_attr_setstackaddr attr stackaddr =
     attr_set (\<lambda>_. fails_if (stackaddr = 0) POSIX_EINVAL) (\<lambda>x. x\<lparr>at_stackaddr := stackaddr\<rparr>) attr"

definition posix_pthread_attr_setstacksize :: "nat option \<Rightarrow> nat \<Rightarrow> attr_cells \<Rightarrow> s32 \<times> attr_cells" where
  "posix_pthread_attr_setstacksize attr stacksize =
     attr_set (\<lambda>_. fails_if (stacksize < PthreadStackMin) POSIX_EINVAL) (\<lambda>x. x\<lparr>at_stacksize := stacksize\<rparr>) attr"

definition posix_pthread_attr_setdetachstate :: "nat option \<Rightarrow> s32 \<Rightarrow> attr_cells \<Rightarrow> s32 \<times> attr_cells" where
  "posix_pthread_attr_setdetachstate attr detachstate =
     attr_set (\<lambda>_. fails_if (detachstate \<noteq> 1 \<and> detachstate \<noteq> 0) POSIX_EINVAL)
       (\<lambda>x. x\<lparr>at_flags := if detachstate \<noteq> 0 then at_flags x OR FlagDetached else at_flags x AND NOT FlagDetached\<rparr>) attr"

text \<open>\<open>None\<close>: the parameter is a null pointer.\<close>

definition posix_pthread_attr_setschedparam :: "nat option \<Rightarrow> s32 option \<Rightarrow> attr_cells \<Rightarrow> s32 \<times> attr_cells" where
  "posix_pthread_attr_setschedparam attr param =
     attr_set
       (\<lambda>x. case param of
              None \<Rightarrow> Some POSIX_ENOTSUP
            | Some prio \<Rightarrow>
                fails_if ((at_policy x = SchedFifo \<or> at_policy x = SchedRoundRobin) \<and>
                    (prio < pri_min (ThrPriorities ! (at_policy x - 1)) \<or> prio > pri_max (ThrPriorities ! (at_policy x - 1))))
                  POSIX_ENOTSUP)
       (\<lambda>x. x\<lparr>at_prio := the param\<rparr>) attr"

definition posix_pthread_attr_setinheritsched :: "nat option \<Rightarrow> s32 \<Rightarrow> attr_cells \<Rightarrow> s32 \<times> attr_cells" where
  "posix_pthread_attr_setinheritsched attr sched_inherit =
     attr_set (\<lambda>_. fails_if (sched_inherit \<noteq> 4 \<and> sched_inherit \<noteq> 0) POSIX_ENOTSUP)
       (\<lambda>x. x\<lparr>at_inherit := sched_inherit\<rparr>) attr"

definition posix_pthread_attr_setguardsize :: "nat option \<Rightarrow> nat \<Rightarrow> attr_cells \<Rightarrow> s32 \<times> attr_cells" where
  "posix_pthread_attr_setguardsize attr guardsize = attr_set (\<lambda>_. None) (\<lambda>x. x\<lparr>at_guardsize := guardsize\<rparr>) attr"

lemmas attr_setters = posix_pthread_attr_setcreatesuspend_np_def posix_pthread_attr_setschedpolicy_def
  posix_pthread_attr_setscope_def posix_pthread_attr_setstack_def posix_pthread_attr_setstackaddr_def
  posix_pthread_attr_setstacksize_def posix_pthread_attr_setdetachstate_def posix_pthread_attr_setschedparam_def
  posix_pthread_attr_setinheritsched_def posix_pthread_attr_setguardsize_def

subsection \<open>Processor sets\<close>

text \<open>\<open>memcpy\<close> of \<open>n\<close> bytes onto the front of \<open>dst\<close>.\<close>

definition copy_front :: "nat \<Rightarrow> 8 word list \<Rightarrow> 8 word list \<Rightarrow> 8 word list" where
  "copy_front n src dst = take n src @ drop n dst"

text \<open>
  The two calls on attributes at hand; the first gives the result and the contents of the caller's buffer.
  \<open>None\<close>: the processor set was freed, or the allocation failed (\<open>new\<close> is null), and the code follows the
  pointer all the same.
\<close>

definition attr_getaffinity :: "PthreadAttr \<Rightarrow> nat \<Rightarrow> 8 word list \<Rightarrow> cpuset_heap \<Rightarrow> (s32 \<times> 8 word list) option" where
  "attr_getaffinity x cpusetsize buffer heap =
     (if at_cpuset x \<noteq> 0 then
        let n = min cpusetsize (at_cpusetsize x) in
        if n = 0 then Some (0, buffer) else map_option (\<lambda>set. (0, copy_front n set buffer)) (heap (at_cpuset x))
      else Some (0, copy_front cpusetsize (replicate cpusetsize 0xff) buffer))"

definition attr_setaffinity ::
    "nat \<Rightarrow> PthreadAttr \<Rightarrow> nat \<Rightarrow> 8 word list option \<Rightarrow> cpuset_heap \<Rightarrow> (PthreadAttr \<times> cpuset_heap) option" where
  "attr_setaffinity new x cpusetsize cpusetp heap =
     (if cpusetsize = 0 \<or> cpusetp = None then
        Some (if at_cpuset x \<noteq> 0 then (x\<lparr>at_cpuset := 0, at_cpusetsize := 0\<rparr>, heap(at_cpuset x := None)) else (x, heap))
      else
        let fresh = (at_cpuset x = 0);
            x1 = (if fresh then x\<lparr>at_cpuset := new, at_cpusetsize := sizeof_Cpuset\<rparr> else x);
            heap1 = (if fresh \<and> new \<noteq> 0 then heap(new \<mapsto> replicate sizeof_Cpuset 0) else heap)
        in if at_cpuset x1 = 0 then None
           else map_option
                  (\<lambda>old. (x1, heap1(at_cpuset x1 \<mapsto> copy_front (min cpusetsize sizeof_Cpuset) (the cpusetp) old)))
                  (heap1 (at_cpuset x1)))"

definition posix_pthread_attr_getaffinity_np ::
    "nat option \<Rightarrow> nat \<Rightarrow> 8 word list \<Rightarrow> attr_cells \<Rightarrow> cpuset_heap \<Rightarrow> (s32 \<times> 8 word list) option" where
  "posix_pthread_attr_getaffinity_np attr cpusetsize buffer cells heap =
     (case deref cells attr of None \<Rightarrow> Some (POSIX_EINVAL, buffer) | Some (a, x) \<Rightarrow> attr_getaffinity x cpusetsize buffer heap)"

definition posix_pthread_attr_setaffinity_np ::
    "nat \<Rightarrow> nat option \<Rightarrow> nat \<Rightarrow> 8 word list option \<Rightarrow> attr_cells \<Rightarrow> cpuset_heap \<Rightarrow> (s32 \<times> attr_cells \<times> cpuset_heap) option" where
  "posix_pthread_attr_setaffinity_np new attr cpusetsize cpusetp cells heap =
     (case deref cells attr of
        None \<Rightarrow> Some (POSIX_EINVAL, cells, heap)
      | Some (a, x) \<Rightarrow> map_option (\<lambda>(x', heap'). (0, cells(a \<mapsto> x'), heap')) (attr_setaffinity new x cpusetsize cpusetp heap))"

text \<open>A mask as the bytes of a set, low byte first, the reserved half zero.\<close>

definition mask_bytes :: "64 word \<Rightarrow> 8 word list" where
  "mask_bytes m = map (\<lambda>i. ucast (drop_bit (8 * i) m)) [0..<8] @ replicate 8 0"

definition bytes_mask :: "8 word list \<Rightarrow> 64 word" where
  "bytes_mask bs = foldr (\<lambda>b acc. push_bit 8 acc OR ucast b) (take 8 bs) 0"

text \<open>\<open>stack\<close>: what the caller's local variable holds before it is set.\<close>

definition scePthreadAttrGetaffinity ::
    "nat option \<Rightarrow> 8 word list \<Rightarrow> attr_cells \<Rightarrow> cpuset_heap \<Rightarrow> (s32 \<times> 64 word option) option" where
  "scePthreadAttrGetaffinity attr stack cells heap =
     map_option (\<lambda>(ret, bs). (ret, if ret = 0 then Some (bytes_mask bs) else None))
       (posix_pthread_attr_getaffinity_np attr sizeof_Cpuset stack cells heap)"

definition scePthreadAttrSetaffinity ::
    "nat \<Rightarrow> nat option \<Rightarrow> 64 word \<Rightarrow> attr_cells \<Rightarrow> cpuset_heap \<Rightarrow> (s32 \<times> attr_cells \<times> cpuset_heap) option" where
  "scePthreadAttrSetaffinity new attr m = posix_pthread_attr_setaffinity_np new attr sizeof_Cpuset (Some (mask_bytes m))"

subsection \<open>The attributes of a new thread\<close>

text \<open>\<open>cur\<close>: the attributes of the creating thread, if there is one.\<close>

definition create_attr :: "PthreadAttr option \<Rightarrow> PthreadAttr option \<Rightarrow> PthreadAttr" where
  "create_attr attr cur =
     (let x = (case attr of None \<Rightarrow> PthreadAttrDefault | Some x \<Rightarrow> x\<lparr>at_cpusetsize := 0\<rparr>) in
      case cur of
        None \<Rightarrow> x
      | Some c \<Rightarrow>
          if at_inherit x = PthreadInheritSched then
            x\<lparr>at_flags := if at_flags c AND FlagScopeSystem \<noteq> 0 then at_flags x OR FlagScopeSystem
                          else at_flags x AND NOT FlagScopeSystem,
              at_prio := at_prio c, at_policy := at_policy c\<rparr>
          else x)"

definition posix_sched_get_priority_max :: "nat \<Rightarrow> s32" where
  "posix_sched_get_priority_max policy = (if policy \<noteq> SchedFifo \<and> policy \<noteq> SchedRoundRobin then POSIX_EINVAL else 767)"

definition posix_sched_get_priority_min :: "nat \<Rightarrow> s32" where
  "posix_sched_get_priority_min policy = (if policy \<noteq> SchedFifo \<and> policy \<noteq> SchedRoundRobin then POSIX_EINVAL else 256)"


subsection \<open>Well-formed attributes\<close>

text \<open>What every setter keeps, the defaults included.\<close>

definition attr_ok :: "PthreadAttr \<Rightarrow> bool" where
  "attr_ok x \<longleftrightarrow> at_policy x \<in> {SchedFifo, SchedOther, SchedRoundRobin} \<and> at_inherit x \<in> {0, PthreadInheritSched} \<and>
     PthreadStackMin \<le> at_stacksize x \<and>
     (at_policy x \<noteq> SchedOther \<longrightarrow> pri_min (ThrPriorities ! (at_policy x - 1)) \<le> at_prio x \<and> at_prio x \<le> pri_max (ThrPriorities ! (at_policy x - 1)))"

lemma attr_ok_other_fields [simp]:
  "attr_ok (x\<lparr>at_cpuset := a, at_cpusetsize := n\<rparr>) = attr_ok x" "attr_ok (x\<lparr>at_flags := w\<rparr>) = attr_ok x"
  by (simp_all add: attr_ok_def)



lemma fails_if_None [simp]: "fails_if b ret = None \<longleftrightarrow> \<not> b"
  by (simp add: fails_if_def)


lemma byte_step: "push_bit 8 (drop_bit (n + 8) m) OR ucast (ucast (drop_bit n m) :: 8 word) = (drop_bit n m :: 64 word)"
proof (rule bit_word_eqI)
  fix k assume "k < LENGTH(64)"
  show "bit (push_bit 8 (drop_bit (n + 8) m) OR ucast (ucast (drop_bit n m) :: 8 word)) k = bit (drop_bit n m) k"
    by (cases "k < 8") (use \<open>k < LENGTH(64)\<close> in \<open>simp_all add: bit_simps\<close>)
qed

lemma bytes_of_mask: "bytes_mask (mask_bytes m @ rest) = m"
proof -
  have "[0..<8] = [0, 1, 2, 3, 4, 5, 6, 7 :: nat]" by (simp add: upt_conv_Cons)
  then have e: "take 8 (mask_bytes m @ rest) = map (\<lambda>i. ucast (drop_bit (8 * i) m)) [0, 1, 2, 3, 4, 5, 6, 7]"
    by (simp add: mask_bytes_def)
  have z: "0 = drop_bit 64 m" by (rule bit_word_eqI) (simp add: bit_simps)
  show ?thesis
    using byte_step [of 56 m] byte_step [of 48 m] byte_step [of 40 m] byte_step [of 32 m] byte_step [of 24 m]
      byte_step [of 16 m] byte_step [of 8 m] byte_step [of 0 m]
    unfolding bytes_mask_def e z by simp
qed




subsection \<open>Properties\<close>

text \<open>
  Processor sets.  The mask stored with \<^verbatim>\<open>scePthreadAttrSetaffinity\<close> is read back by
  \<^verbatim>\<open>scePthreadAttrGetaffinity\<close>.  A thread created with these attributes shares the set but has a size of 0
  for it, so reading its affinity succeeds and leaves the caller's buffer as it was; and once the attributes
  drop their set, setting the affinity of the thread writes to freed memory.
\<close>

theorem affinity_round_trip:
  assumes new: "new \<noteq> 0" and ok: "cells a = Some x" "at_cpuset x = 0" and buf: "length stack = 16"
    and inherit: "at_inherit x \<noteq> PthreadInheritSched"
  shows "\<exists>cells' heap' x'.
    scePthreadAttrSetaffinity new (Some a) m cells heap = Some (0, cells', heap') \<and>
    scePthreadAttrGetaffinity (Some a) stack cells' heap' = Some (0, Some m) \<and>
    cells' a = Some x' \<and>
    attr_getaffinity (create_attr (Some x') cur) 16 stack heap' = Some (0, stack) \<and>
    (\<exists>cells2 heap2. posix_pthread_attr_setaffinity_np new (Some a) 0 None cells' heap' = Some (0, cells2, heap2) \<and>
       attr_setaffinity another (create_attr (Some x') cur) 16 (Some (mask_bytes m)) heap2 = None)"
proof -
  let ?x = "x\<lparr>at_cpuset := new, at_cpusetsize := sizeof_Cpuset\<rparr>"
  have len: "length (mask_bytes m) = 16" by (simp add: mask_bytes_def)
  let ?heap = "heap(new \<mapsto> mask_bytes m)"
  have set: "scePthreadAttrSetaffinity new (Some a) m cells heap = Some (0, cells(a \<mapsto> ?x), ?heap)"
    using new ok len
    by (simp add: scePthreadAttrSetaffinity_def posix_pthread_attr_setaffinity_np_def deref_def attr_setaffinity_def
        sizeof_Cpuset_def copy_front_def)
  have get: "scePthreadAttrGetaffinity (Some a) stack (cells(a \<mapsto> ?x)) ?heap = Some (0, Some m)"
    using new len buf bytes_of_mask [of m "[]"]
    by (simp add: scePthreadAttrGetaffinity_def posix_pthread_attr_getaffinity_np_def deref_def attr_getaffinity_def
        sizeof_Cpuset_def copy_front_def)
  have created: "create_attr (Some ?x) cur = ?x\<lparr>at_cpusetsize := 0\<rparr>"
    using inherit by (simp add: create_attr_def Let_def split: option.splits)
  have "attr_getaffinity (create_attr (Some ?x) cur) 16 stack ?heap = Some (0, stack)"
    unfolding created using new by (simp add: attr_getaffinity_def)
  moreover have "posix_pthread_attr_setaffinity_np new (Some a) 0 None (cells(a \<mapsto> ?x)) ?heap =
      Some (0, cells(a \<mapsto> ?x\<lparr>at_cpuset := 0, at_cpusetsize := 0\<rparr>), heap(new := None))"
    using new by (simp add: posix_pthread_attr_setaffinity_np_def deref_def attr_setaffinity_def)
  moreover have "attr_setaffinity another (create_attr (Some ?x) cur) 16 (Some (mask_bytes m)) (heap(new := None)) = None"
    unfolding created using new by (simp add: attr_setaffinity_def)
  ultimately show ?thesis using set get by (intro exI [of _ "cells(a \<mapsto> ?x)"] exI [of _ ?heap] exI [of _ ?x]) simp
qed

lemma affinity_round_trip_witness:
  "\<exists>cells' heap'. scePthreadAttrSetaffinity 4096 (Some 7) 0xA5
       (\<lambda>a. if a = 7 then Some (PthreadAttrDefault\<lparr>at_inherit := 0\<rparr>) else None) (\<lambda>_. None) = Some (0, cells', heap') \<and>
     scePthreadAttrGetaffinity (Some 7) (replicate 16 0) cells' heap' = Some (0, Some 0xA5)"
  using affinity_round_trip [where new = 4096 and a = 7 and x = "PthreadAttrDefault\<lparr>at_inherit := 0\<rparr>" and
      cells = "\<lambda>a. if a = 7 then Some (PthreadAttrDefault\<lparr>at_inherit := 0\<rparr>) else None" and
      stack = "replicate 16 0" and m = "0xA5" and heap = "\<lambda>_. None" and cur = None and another = 0]
  by (simp add: PthreadAttrDefault_def PthreadInheritSched_def) blast



end
