(* ===== verification/Orbit_Once.thy ===== *)
theory Orbit_Once
  imports Orbit_Prelude
begin

text \<open>
  \<^verbatim>\<open>posix_pthread_once\<close> (\<^verbatim>\<open>src/core/libraries/kernel/threads/pthread.cpp\<close>), cut at its accesses to the
  atomic state.  A wait of \<^verbatim>\<open>std::atomic\<close> compares the value with the one it was given and sleeps while they
  are equal; \<^verbatim>\<open>notify_all\<close> makes every sleeper compare again.
\<close>

subsection \<open>Accesses\<close>

definition OnceNeverDone :: nat where "OnceNeverDone = 0"
definition OnceDone :: nat where "OnceDone = 1"
definition OnceInProgress :: nat where "OnceInProgress = 2"
definition OnceWait :: nat where "OnceWait = 3"

lemmas once_states = OnceNeverDone_def OnceDone_def OnceInProgress_def OnceWait_def

text \<open>
  \<open>OTested\<close>: the state has been read; \<open>OCompare\<close>: inside the wait, about to compare; \<open>OSleeping\<close>: asleep in
  it; \<open>ORunning\<close>: in the initialisation routine; \<open>OFinish\<close>, \<open>OStoreDone\<close>: after it; \<open>OCancelled\<close>,
  \<open>OStoreNever\<close>: the routine ended the thread and the clean-up handler runs; \<open>ONotify\<close>: the new state is
  stored, what follows is the result or, for the handler, \<open>None\<close>.
\<close>

datatype once_pc =
  OIdle | OReturned s32 | OExited
| OEnter | OTested nat | OCompare | OSleeping
| ORunning | OFinish | OStoreDone | OCancelled | OStoreNever | ONotify "s32 option"

text \<open>\<open>oc_runs\<close> counts how often the routine has run to its end; the program has no such variable.\<close>

record once_state =
  oc_state :: nat
  oc_runs :: nat
  oc_pc :: "tid \<Rightarrow> once_pc"

definition once_goto :: "tid \<Rightarrow> once_pc \<Rightarrow> once_state \<Rightarrow> once_state" where
  "once_goto t pc s = s\<lparr>oc_pc := (oc_pc s)(t := pc)\<rparr>"

text \<open>\<open>compare_exchange_strong\<close>: the new state of the variable if it had the value, else the place for a failure.\<close>

definition once_exchange :: "nat \<Rightarrow> nat \<Rightarrow> once_pc \<Rightarrow> once_pc \<Rightarrow> tid \<Rightarrow> once_state \<Rightarrow> once_state" where
  "once_exchange old new yes no t s =
     (if oc_state s = old then once_goto t yes (s\<lparr>oc_state := new\<rparr>) else once_goto t no s)"

definition wake_sleepers :: "once_state \<Rightarrow> once_state" where
  "wake_sleepers s = s\<lparr>oc_pc := (\<lambda>u. if oc_pc s u = OSleeping then OCompare else oc_pc s u)\<rparr>"

text \<open>\<open>cancelled\<close>: the routine does not return but ends the thread.\<close>

fun once_access :: "tid \<Rightarrow> bool \<Rightarrow> once_pc \<Rightarrow> once_state \<Rightarrow> once_state option" where
  "once_access t cancelled OEnter s = Some (once_goto t (OTested (oc_state s)) s)"
| "once_access t cancelled (OTested st) s =
     Some (if st = OnceDone then once_goto t (OReturned 0) s
           else if st = OnceNeverDone then once_exchange OnceNeverDone OnceInProgress ORunning OEnter t s
           else if st = OnceInProgress then once_exchange OnceInProgress OnceWait OCompare OEnter t s
           else if st = OnceWait then once_goto t OCompare s
           else once_goto t (OReturned POSIX_EINVAL) s)"
| "once_access t cancelled OCompare s = Some (once_goto t (if oc_state s = OnceWait then OSleeping else OEnter) s)"
| "once_access t cancelled ORunning s =
     Some (if cancelled then once_goto t OCancelled s else once_goto t OFinish (s\<lparr>oc_runs := Suc (oc_runs s)\<rparr>))"
| "once_access t cancelled OFinish s = Some (once_exchange OnceInProgress OnceDone (OReturned 0) OStoreDone t s)"
| "once_access t cancelled OStoreDone s = Some (once_goto t (ONotify (Some 0)) (s\<lparr>oc_state := OnceDone\<rparr>))"
| "once_access t cancelled OCancelled s = Some (once_exchange OnceInProgress OnceNeverDone OExited OStoreNever t s)"
| "once_access t cancelled OStoreNever s = Some (once_goto t (ONotify None) (s\<lparr>oc_state := OnceNeverDone\<rparr>))"
| "once_access t cancelled (ONotify ret) s =
     Some (once_goto t (case ret of None \<Rightarrow> OExited | Some r \<Rightarrow> OReturned r) (wake_sleepers s))"
| "once_access t cancelled _ s = None"

definition once_init :: once_state where
  "once_init = \<lparr>oc_state = OnceNeverDone, oc_runs = 0, oc_pc = \<lambda>_. OIdle\<rparr>"

inductive once_reach :: "once_state \<Rightarrow> bool" where
  start: "once_reach once_init"
| call: "once_reach s \<Longrightarrow> oc_pc s t = OIdle \<or> (\<exists>ret. oc_pc s t = OReturned ret) \<Longrightarrow> once_reach (once_goto t OEnter s)"
| access: "once_reach s \<Longrightarrow> once_access t cancelled (oc_pc s t) s = Some s' \<Longrightarrow> once_reach s'"

subsection \<open>Invariant\<close>

text \<open>The thread is the one that initialises.\<close>

definition initialising :: "once_pc \<Rightarrow> bool" where
  "initialising pc \<longleftrightarrow> pc \<in> {ORunning, OFinish, OStoreDone, OCancelled, OStoreNever}"

definition once_running_ok :: "once_state \<Rightarrow> bool" where
  "once_running_ok s \<longleftrightarrow>
     (\<forall>t u. initialising (oc_pc s t) \<longrightarrow> initialising (oc_pc s u) \<longrightarrow> t = u) \<and>
     ((\<exists>t. initialising (oc_pc s t)) \<longleftrightarrow> oc_state s \<in> {OnceInProgress, OnceWait}) \<and>
     oc_state s \<in> {OnceNeverDone, OnceDone, OnceInProgress, OnceWait}"

definition once_place_ok :: "once_state \<Rightarrow> once_pc \<Rightarrow> bool" where
  "once_place_ok s pc \<longleftrightarrow>
     (case pc of
        OReturned ret \<Rightarrow> ret = 0 \<and> oc_state s = OnceDone
      | OTested st \<Rightarrow> st \<in> {OnceNeverDone, OnceDone, OnceInProgress, OnceWait} \<and> (st = OnceDone \<longrightarrow> oc_state s = OnceDone)
      | OStoreDone \<Rightarrow> oc_state s = OnceWait
      | OStoreNever \<Rightarrow> oc_state s = OnceWait
      | ONotify (Some ret) \<Rightarrow> ret = 0 \<and> oc_state s = OnceDone
      | _ \<Rightarrow> True)"

definition once_runs_ok :: "once_state \<Rightarrow> bool" where
  "once_runs_ok s \<longleftrightarrow> oc_runs s = of_bool (oc_state s = OnceDone \<or> (\<exists>t. oc_pc s t = OFinish \<or> oc_pc s t = OStoreDone))"

definition once_wake_ok :: "once_state \<Rightarrow> bool" where
  "once_wake_ok s \<longleftrightarrow> (\<forall>t. oc_pc s t = OSleeping \<longrightarrow> oc_state s = OnceWait \<or> (\<exists>u ret. oc_pc s u = ONotify ret))"

definition once_ok :: "once_state \<Rightarrow> bool" where
  "once_ok s \<longleftrightarrow> once_running_ok s \<and> (\<forall>t. once_place_ok s (oc_pc s t)) \<and> once_runs_ok s \<and> once_wake_ok s"

lemma once_goto_simps [simp]:
  "oc_state (once_goto t pc s) = oc_state s" "oc_runs (once_goto t pc s) = oc_runs s"
  "oc_pc (once_goto t pc s) = (oc_pc s)(t := pc)"
  by (simp_all add: once_goto_def)

lemma wake_sleepers_simps [simp]:
  "oc_state (wake_sleepers s) = oc_state s" "oc_runs (wake_sleepers s) = oc_runs s"
  by (simp_all add: wake_sleepers_def)

lemma initialising_simps [simp]:
  "initialising ORunning" "initialising OFinish" "initialising OStoreDone" "initialising OCancelled" "initialising OStoreNever"
  "\<not> initialising OIdle" "\<not> initialising (OReturned ret)" "\<not> initialising OExited" "\<not> initialising OEnter"
  "\<not> initialising (OTested st)" "\<not> initialising OCompare" "\<not> initialising OSleeping" "\<not> initialising (ONotify r)"
  by (simp_all add: initialising_def)

lemma once_place_cong: "oc_state s' = oc_state s \<Longrightarrow> once_place_ok s' p = once_place_ok s p"
  unfolding once_place_ok_def by (simp only:)

text \<open>A step of a thread that neither initialises before nor after and leaves the state alone.\<close>

lemma once_ok_move:
  assumes ok: "once_ok s" and "\<not> initialising (oc_pc s t)" "\<not> initialising pc" and "once_place_ok s pc"
    and "pc = OSleeping \<longrightarrow> oc_state s = OnceWait" and "\<forall>ret. oc_pc s t \<noteq> ONotify ret"
  shows "once_ok (once_goto t pc s)"
proof -
  have n: "pc \<noteq> OFinish" "pc \<noteq> OStoreDone" "oc_pc s t \<noteq> OFinish" "oc_pc s t \<noteq> OStoreDone" using assms(2,3) by auto
  have "once_running_ok (once_goto t pc s)" using ok assms(2,3) by (auto simp: once_ok_def once_running_ok_def)
  moreover have "once_place_ok (once_goto t pc s) p = once_place_ok s p" for p
    by (simp add: once_place_ok_def split: once_pc.splits option.splits)
  moreover have "once_runs_ok (once_goto t pc s)" using ok n by (auto simp: once_ok_def once_runs_ok_def)
  moreover have "once_wake_ok (once_goto t pc s)"
    using ok assms(5,6) unfolding once_ok_def once_wake_ok_def by (auto split: if_splits; metis)
  ultimately show ?thesis using ok assms(4) by (simp add: once_ok_def)
qed

lemma once_okD:
  assumes "once_ok s"
  shows "initialising (oc_pc s t) \<Longrightarrow> initialising (oc_pc s u) \<Longrightarrow> t = u"
    and "initialising (oc_pc s t) \<Longrightarrow> oc_state s \<in> {OnceInProgress, OnceWait}"
    and "oc_state s \<in> {OnceInProgress, OnceWait} \<Longrightarrow> \<exists>t. initialising (oc_pc s t)"
    and "once_place_ok s (oc_pc s t)" and "once_runs_ok s" and "once_wake_ok s"
  using assms by (auto simp: once_ok_def once_running_ok_def)

text \<open>
  A step of the initialising thread, before or after it (\<open>oc_pc s t\<close> or \<open>pc\<close> initialises), to the state
  \<open>st\<close>: what has to be shown about the others follows from the new value.
\<close>

lemma once_ok_step:
  assumes ok: "once_ok s" and s': "oc_state s' = st" "oc_pc s' = (oc_pc s)(t := pc)" "oc_runs s' = n"
    and only: "\<And>u. initialising (oc_pc s u) \<Longrightarrow> u = t"
    and init: "initialising pc \<longleftrightarrow> st \<in> {OnceInProgress, OnceWait}" and st: "st \<in> {OnceNeverDone, OnceDone, OnceInProgress, OnceWait}"
    and place: "once_place_ok s' pc" and stays: "oc_state s = OnceDone \<Longrightarrow> st = OnceDone"
    and stores: "\<And>u. u \<noteq> t \<Longrightarrow> oc_pc s u \<notin> {OStoreDone, OStoreNever}"
    and runs: "n = of_bool (st = OnceDone \<or> pc = OFinish \<or> pc = OStoreDone)"
    and wake: "pc \<noteq> OSleeping" "oc_state s = OnceWait \<Longrightarrow> st = OnceWait \<or> (\<exists>ret. pc = ONotify ret)" "\<And>ret. oc_pc s t \<noteq> ONotify ret"
  shows "once_ok s'"
proof -
  have rest: "\<not> initialising (oc_pc s u)" if "u \<noteq> t" for u using only that by blast
  then have fin: "oc_pc s u \<noteq> OFinish" "oc_pc s u \<noteq> OStoreDone" if "u \<noteq> t" for u using that by fastforce+
  have "once_running_ok s'" using only init st by (auto simp: once_running_ok_def s')
  moreover have "once_place_ok s' (oc_pc s' u)" for u
  proof (cases "u = t")
    case False
    then show ?thesis
      using once_okD(4) [OF ok, of u] stores [OF False] stays
      by (auto simp: s' once_place_ok_def split: once_pc.splits option.splits)
  qed (use place in \<open>simp add: s'\<close>)
  moreover have "once_runs_ok s'"
    using fin unfolding once_runs_ok_def s' runs by (auto split: if_splits; metis)
  moreover have "once_wake_ok s'"
  proof -
    have "oc_pc s' u = OSleeping \<longrightarrow> st = OnceWait \<or> (\<exists>v ret. oc_pc s' v = ONotify ret)" for u
    proof
      assume a: "oc_pc s' u = OSleeping"
      then have "oc_pc s u = OSleeping" using wake(1) by (auto simp: s' split: if_splits)
      then consider "oc_state s = OnceWait" | v ret where "oc_pc s v = ONotify ret"
        using once_okD(6) [OF ok] unfolding once_wake_ok_def by blast
      then show "st = OnceWait \<or> (\<exists>v ret. oc_pc s' v = ONotify ret)"
      proof cases
        case 1
        then show ?thesis using wake(2) by (auto simp: s')
      next
        case 2
        then have "v \<noteq> t" using wake(3) by auto
        then have "oc_pc s' v = ONotify ret" using 2 by (simp add: s')
        then show ?thesis by blast
      qed
    qed
    then show ?thesis by (simp add: once_wake_ok_def s')
  qed
  ultimately show ?thesis by (simp add: once_ok_def)
qed

lemma once_ok_notify:
  assumes ok: "once_ok s" and pc: "oc_pc s t = ONotify ret"
  shows "once_ok (once_goto t (case ret of None \<Rightarrow> OExited | Some r \<Rightarrow> OReturned r) (wake_sleepers s))" (is "once_ok ?s")
proof -
  let ?p = "case ret of None \<Rightarrow> OExited | Some r \<Rightarrow> OReturned r"
  have pcs: "oc_pc ?s u = (if u = t then ?p else if oc_pc s u = OSleeping then OCompare else oc_pc s u)" for u
    by (simp add: wake_sleepers_def)
  have i: "initialising (oc_pc ?s u) \<longleftrightarrow> initialising (oc_pc s u)" for u unfolding pcs using pc by (simp split: option.splits)
  have f: "oc_pc ?s u = OFinish \<longleftrightarrow> oc_pc s u = OFinish" "oc_pc ?s u = OStoreDone \<longleftrightarrow> oc_pc s u = OStoreDone" for u
    unfolding pcs using pc by (auto split: option.splits)
  have "once_running_ok ?s" using ok unfolding once_ok_def once_running_ok_def i by simp
  moreover have "once_place_ok ?s (oc_pc ?s u)" for u
  proof -
    have e: "once_place_ok ?s p = once_place_ok s p" for p by (rule once_place_cong) simp
    have "once_place_ok s ?p" using once_okD(4) [OF ok, of t] unfolding pc by (simp add: once_place_ok_def split: option.splits)
    moreover have "once_place_ok s OCompare" by (simp add: once_place_ok_def)
    ultimately show ?thesis using once_okD(4) [OF ok, of u] unfolding e pcs by simp
  qed
  moreover have "once_runs_ok ?s" using ok unfolding once_ok_def once_runs_ok_def f by simp
  moreover have "once_wake_ok ?s" unfolding once_wake_ok_def pcs by (auto split: option.splits)
  ultimately show ?thesis by (simp add: once_ok_def)
qed

text \<open>Another thread marks that it waits for the initialising one.\<close>

lemma once_ok_wait:
  assumes ok: "once_ok s" and pc: "oc_pc s t = OTested st" and st: "oc_state s = OnceInProgress"
  shows "once_ok (once_goto t OCompare (s\<lparr>oc_state := OnceWait\<rparr>))" (is "once_ok ?s")
proof -
  have i: "initialising (oc_pc ?s u) \<longleftrightarrow> initialising (oc_pc s u)" for u using pc by simp
  have "once_running_ok ?s" using ok st unfolding once_ok_def once_running_ok_def i by (simp add: once_states)
  moreover have "once_place_ok ?s (oc_pc ?s u)" for u
    using once_okD(4) [OF ok, of u] st by (auto simp: once_place_ok_def once_states split: once_pc.splits option.splits)
  moreover have "once_runs_ok ?s"
  proof -
    have "oc_pc ?s u = OFinish \<longleftrightarrow> oc_pc s u = OFinish" "oc_pc ?s u = OStoreDone \<longleftrightarrow> oc_pc s u = OStoreDone" for u using pc by auto
    then show ?thesis using once_okD(5) [OF ok] st unfolding once_runs_ok_def by (simp add: once_states)
  qed
  moreover have "once_wake_ok ?s" by (simp add: once_wake_ok_def)
  ultimately show ?thesis by (simp add: once_ok_def)
qed

lemma once_runs_before:
  assumes ok: "once_ok s" and "initialising (oc_pc s t)" and "oc_pc s t \<notin> {OFinish, OStoreDone}"
  shows "oc_runs s = 0"
proof -
  have "oc_pc s u \<noteq> OFinish \<and> oc_pc s u \<noteq> OStoreDone" for u
    using once_okD(1) [OF ok assms(2), of u] assms(3) by (cases "initialising (oc_pc s u)") auto
  moreover have "oc_state s \<noteq> OnceDone" using once_okD(2) [OF ok assms(2)] by (auto simp: once_states)
  ultimately show ?thesis using once_okD(5) [OF ok] by (simp add: once_runs_ok_def)
qed

lemma once_runs_after:
  assumes ok: "once_ok s" and "oc_pc s t \<in> {OFinish, OStoreDone}"
  shows "oc_runs s = 1"
  using once_okD(5) [OF ok] assms(2) by (auto simp: once_runs_ok_def)

lemma once_init_step_ok:
  assumes ok: "once_ok s" and t: "initialising (oc_pc s t)" and step: "once_access t cancelled (oc_pc s t) s = Some s'"
  shows "once_ok s'"
proof -
  note place = once_okD(4) [OF ok, of t] and st = once_okD(2) [OF ok t]
  have mine: "u = t" if "initialising (oc_pc s u)" for u using once_okD(1) [OF ok] that t by blast
  have others: "oc_pc s u \<notin> {OStoreDone, OStoreNever}" if "u \<noteq> t" for u using mine [of u] that by auto
  have go: "once_ok s'" if "oc_pc s' = (oc_pc s)(t := pc)" "initialising pc \<longleftrightarrow> oc_state s' \<in> {OnceInProgress, OnceWait}"
      "oc_state s' \<in> {OnceNeverDone, OnceDone, OnceInProgress, OnceWait}" "once_place_ok s' pc"
      "oc_runs s' = of_bool (oc_state s' = OnceDone \<or> pc = OFinish \<or> pc = OStoreDone)" "pc \<noteq> OSleeping"
      "oc_state s = OnceWait \<Longrightarrow> oc_state s' = OnceWait \<or> (\<exists>ret. pc = ONotify ret)" for pc
  proof (rule once_ok_step [OF ok refl that(1) refl mine that(2,3,4) _ others that(5,6,7)])
    show "oc_state s' = OnceDone" if "oc_state s = OnceDone" using st that by (auto simp: once_states)
    show "oc_pc s t \<noteq> ONotify ret" for ret using t by auto
  qed
  note defs = once_exchange_def once_place_ok_def once_states
  consider "oc_pc s t = ORunning" | "oc_pc s t = OFinish" | "oc_pc s t = OStoreDone" | "oc_pc s t = OCancelled" | "oc_pc s t = OStoreNever"
    using t by (auto simp: initialising_def)
  then show ?thesis
  proof cases
    case 1
    then show ?thesis using step st once_runs_before [OF ok t]
      by (intro go [of "if cancelled then OCancelled else OFinish"]; cases cancelled) (auto simp: defs)
  next
    case 2
    then show ?thesis using step st once_runs_after [OF ok, of t]
      by (intro go [of "if oc_state s = OnceInProgress then OReturned 0 else OStoreDone"]) (auto simp: defs)
  next
    case 3
    then show ?thesis using step st once_runs_after [OF ok, of t]
      by (intro go [of "ONotify (Some 0)"]) (auto simp: defs)
  next
    case 4
    then show ?thesis using step st once_runs_before [OF ok t]
      by (intro go [of "if oc_state s = OnceInProgress then OExited else OStoreNever"]) (auto simp: defs)
  next
    case 5
    then show ?thesis using step st once_runs_before [OF ok t]
      by (intro go [of "ONotify None"]) (auto simp: defs)
  qed
qed

lemma once_access_ok:
  assumes ok: "once_ok s" and step: "once_access t cancelled (oc_pc s t) s = Some s'"
  shows "once_ok s'"
proof (cases "initialising (oc_pc s t)")
  case True
  show ?thesis by (rule once_init_step_ok [OF ok True step])
next
  case False
  note place = once_okD(4) [OF ok, of t]
  show ?thesis
  proof (cases "oc_pc s t")
    case OEnter
    have "once_place_ok s (OTested (oc_state s))" using ok by (simp add: once_place_ok_def once_ok_def once_running_ok_def)
    then have "once_ok (once_goto t (OTested (oc_state s)) s)" using OEnter by (intro once_ok_move [OF ok]) simp_all
    then show ?thesis using step OEnter by simp
  next
    case (OTested st)
    have move: "once_ok (once_goto t pc s)" if "once_place_ok s pc" "\<not> initialising pc" "pc \<noteq> OSleeping" for pc
      using ok OTested that by (intro once_ok_move) auto
    have none: "\<not> initialising (oc_pc s u)" if "oc_state s = OnceNeverDone" for u
      using once_okD(2) [OF ok, of u] that by (auto simp: once_states)
    have start: "once_ok (once_goto t ORunning (s\<lparr>oc_state := OnceInProgress\<rparr>))" (is "once_ok ?s") if n: "oc_state s = OnceNeverDone"
    proof (rule once_ok_step [OF ok refl, where t = t and pc = ORunning])
      show "oc_pc ?s = (oc_pc s)(t := ORunning)" "oc_runs ?s = oc_runs s" by simp_all
      show "u = t" if "initialising (oc_pc s u)" for u using none [OF n, of u] that by simp
      show "initialising ORunning \<longleftrightarrow> oc_state ?s \<in> {OnceInProgress, OnceWait}"
        "oc_state ?s \<in> {OnceNeverDone, OnceDone, OnceInProgress, OnceWait}" by simp_all
      show "once_place_ok ?s ORunning" by (simp add: once_place_ok_def)
      show "oc_state ?s = OnceDone" if "oc_state s = OnceDone" using n that by (simp add: once_states)
      show "oc_pc s u \<notin> {OStoreDone, OStoreNever}" for u using none [OF n, of u] by auto
      have "oc_pc s u \<notin> {OFinish, OStoreDone}" for u using none [OF n, of u] by auto
      then show "oc_runs s = of_bool (oc_state ?s = OnceDone \<or> ORunning = OFinish \<or> ORunning = OStoreDone)"
        using once_okD(5) [OF ok] n by (simp add: once_runs_ok_def once_states)
      show "oc_state ?s = OnceWait \<or> (\<exists>ret. ORunning = ONotify ret)" if "oc_state s = OnceWait" using n that by (simp add: once_states)
      show "oc_pc s t \<noteq> ONotify ret" for ret using OTested by simp
    qed simp
    have enter: "once_ok (once_goto t OEnter s)" "once_ok (once_goto t OCompare s)" by (rule move; simp add: once_place_ok_def)+
    have "st \<in> {OnceNeverDone, OnceDone, OnceInProgress, OnceWait}" using place unfolding OTested by (simp add: once_place_ok_def)
    then consider "st = OnceDone" | "st = OnceNeverDone" | "st = OnceInProgress" | "st = OnceWait" by blast
    then show ?thesis
    proof cases
      case 1
      then have "once_ok (once_goto t (OReturned 0) s)" using place unfolding OTested by (intro move) (simp_all add: once_place_ok_def)
      then show ?thesis using step OTested 1 by simp
    next
      case 2
      then show ?thesis using step OTested start enter by (simp add: once_exchange_def once_states split: if_splits)
    next
      case 3
      then show ?thesis using step OTested once_ok_wait [OF ok OTested] enter by (simp add: once_exchange_def once_states split: if_splits)
    next
      case 4
      then show ?thesis using step OTested enter by (simp add: once_states)
    qed
  next
    case OCompare
    then have "once_ok (once_goto t (if oc_state s = OnceWait then OSleeping else OEnter) s)"
      by (intro once_ok_move [OF ok]) (simp_all add: once_place_ok_def)
    then show ?thesis using step OCompare by simp
  next
    case (ONotify ret)
    then show ?thesis using step once_ok_notify [OF ok] by auto
  qed (use step False in auto)
qed

lemma once_reach_ok: "once_reach s \<Longrightarrow> once_ok s"
proof (induction rule: once_reach.induct)
  case start
  show ?case by (simp add: once_ok_def once_running_ok_def once_place_ok_def once_runs_ok_def once_wake_ok_def once_init_def once_states)
next
  case (call s t)
  then show ?case by (intro once_ok_move) (auto simp: once_place_ok_def)
next
  case (access s t cancelled s')
  then show ?case using once_access_ok by blast
qed

subsection \<open>Property\<close>

text \<open>
  C33: \<^verbatim>\<open>pthread_once\<close> runs the routine once.  Under all interleavings, and whatever threads end inside the
  routine, at most one thread is in it; it has run to its end at most once; every call that returned has
  returned 0 after that; and no call sleeps for ever: while one sleeps, another thread is still initialising or
  is about to wake all sleepers.
\<close>

theorem once_exactly_once:
  assumes "once_reach s"
  shows "(\<forall>t u. oc_pc s t = ORunning \<longrightarrow> oc_pc s u = ORunning \<longrightarrow> t = u) \<and> oc_runs s \<le> 1 \<and>
    (\<forall>t ret. oc_pc s t = OReturned ret \<longrightarrow> ret = 0 \<and> oc_runs s = 1 \<and> oc_state s = OnceDone) \<and>
    (\<forall>t. oc_pc s t = OSleeping \<longrightarrow> (\<exists>u. initialising (oc_pc s u) \<or> (\<exists>ret. oc_pc s u = ONotify ret)))"
proof (intro conjI allI impI)
  note ok = once_reach_ok [OF assms]
  show "oc_runs s \<le> 1" using once_okD(5) [OF ok] by (simp add: once_runs_ok_def)
  show "t = u" if "oc_pc s t = ORunning" "oc_pc s u = ORunning" for t u using once_okD(1) [OF ok] that by simp
  fix t ret assume r: "oc_pc s t = OReturned ret"
  then show "ret = 0" "oc_state s = OnceDone" using once_okD(4) [OF ok, of t] by (simp_all add: once_place_ok_def)
  then show "oc_runs s = 1" using once_okD(5) [OF ok] by (simp add: once_runs_ok_def)
next
  note ok = once_reach_ok [OF assms]
  fix t assume "oc_pc s t = OSleeping"
  then consider "oc_state s = OnceWait" | u ret where "oc_pc s u = ONotify ret"
    using once_okD(6) [OF ok] unfolding once_wake_ok_def by blast
  then show "\<exists>u. initialising (oc_pc s u) \<or> (\<exists>ret. oc_pc s u = ONotify ret)"
  proof cases
    case 1
    then show ?thesis using once_okD(3) [OF ok] by auto
  qed blast
qed

text \<open>A run in which one thread starts, another waits, and both return.\<close>

definition once_act :: "tid \<Rightarrow> once_state \<Rightarrow> once_state" where
  "once_act t s = (case once_access t False (oc_pc s t) s of Some s' \<Rightarrow> s' | None \<Rightarrow> s)"

lemma once_act_reach: "once_reach s \<Longrightarrow> once_reach (once_act t s)"
  unfolding once_act_def by (auto split: option.splits intro: once_reach.access)

definition once_run :: "tid list \<Rightarrow> once_state" where
  "once_run ts = fold once_act ts (once_goto 1 OEnter (once_goto 0 OEnter once_init))"

lemma once_run_reach: "once_reach (once_run ts)"
proof -
  have "once_reach (fold once_act ts s)" if "once_reach s" for s
    using that by (induction ts arbitrary: s) (auto intro: once_act_reach)
  moreover have "once_reach (once_goto 1 OEnter (once_goto 0 OEnter once_init))"
    by (intro once_reach.intros) (simp_all add: once_init_def)
  ultimately show ?thesis by (simp add: once_run_def)
qed

theorem once_exactly_once_witness:
  "let s = once_run [0, 0, 1, 1, 1, 0, 0]; s' = once_run [0, 0, 1, 1, 1, 0, 0, 0, 0, 1, 1, 1]
   in oc_pc s 0 = OStoreDone \<and> oc_pc s 1 = OSleeping \<and> (\<exists>u. initialising (oc_pc s u) \<or> (\<exists>ret. oc_pc s u = ONotify ret)) \<and>
      oc_pc s' 0 = OReturned 0 \<and> oc_pc s' 1 = OReturned 0 \<and> oc_runs s' = 1"
proof -
  have a: "oc_pc (once_run [0, 0, 1, 1, 1, 0, 0]) 0 = OStoreDone" "oc_pc (once_run [0, 0, 1, 1, 1, 0, 0]) 1 = OSleeping"
    by (simp_all add: once_run_def once_act_def once_init_def once_exchange_def once_states)
  have b: "oc_pc (once_run [0, 0, 1, 1, 1, 0, 0, 0, 0, 1, 1, 1]) 0 = OReturned 0"
    "oc_pc (once_run [0, 0, 1, 1, 1, 0, 0, 0, 0, 1, 1, 1]) 1 = OReturned 0"
    by (simp_all add: once_run_def once_act_def once_init_def once_exchange_def once_states wake_sleepers_def)
  have "oc_runs (once_run ts) = 1" if "oc_pc (once_run ts) t = OReturned 0" for ts t
    using once_exactly_once [OF once_run_reach, of ts] that by blast
  moreover have "\<exists>u. initialising (oc_pc (once_run ts) u) \<or> (\<exists>ret. oc_pc (once_run ts) u = ONotify ret)"
    if "oc_pc (once_run ts) t = OSleeping" for ts t
    using once_exactly_once [OF once_run_reach, of ts] that by blast
  ultimately show ?thesis unfolding Let_def using a b by blast
qed

end
