(* ===== verification/Orbit_Thread.thy ===== *)
theory Orbit_Thread
  imports Orbit_ThreadAttr
begin

text \<open>
  The life of threads (\<^verbatim>\<open>src/core/libraries/kernel/threads/pthread.cpp\<close>, \<^verbatim>\<open>thread_state.cpp\<close>): creation, exit,
  joining, detaching, references, and the collection of thread objects, cut at the accesses to shared state.
  A thread is known by the address of its object.  The addresses of freed objects are not used again here, so that
  an access to freed memory shows; a call with a stale pointer to reused memory is a call for the new thread.
\<close>

subsection \<open>State\<close>

text \<open>\<open>tb_terminated\<close>: \<^verbatim>\<open>tid\<close> is \<^verbatim>\<open>TidTerminated\<close>; \<open>tb_dead\<close>: \<^verbatim>\<open>state\<close> is \<^verbatim>\<open>Dead\<close>; \<open>tb_lock\<close>: who holds \<^verbatim>\<open>lock\<close>.\<close>

datatype obj_life = Unborn | Live | Freed

record thread_obj =
  tb_life :: obj_life
  tb_lock :: "tid option"
  tb_terminated :: bool
  tb_refcount :: int
  tb_dead :: bool
  tb_detached :: bool
  tb_joiner :: "tid option"
  tb_ret :: nat
  tb_attr :: PthreadAttr
  tb_name :: string

definition ShouldCollect :: "thread_obj \<Rightarrow> bool" where
  "ShouldCollect ob \<longleftrightarrow> tb_refcount ob = 0 \<and> tb_dead ob \<and> tb_detached ob"

text \<open>The calls that look a thread up, and what calls yield.  \<open>UJoin timed\<close>: with or without a deadline.\<close>

datatype thr_use =
  UJoin bool | UDetach | UGetAttr | USetSched nat s32 | UGetSched | USetPrio s32 | UGetName | URename string

datatype thr_value = VNone | VJoined tid nat | VAttr PthreadAttr | VSched nat s32 | VName string | VThread tid

text \<open>What a thread does while it holds the lock of an object, and what it goes on with.\<close>

datatype thr_body = BFind thr_use | BUse thr_use | BDel thr_value | BJoined nat | BExit

datatype thr_next = NReturn s32 thr_value | NJoin tid bool | NUse tid thr_use | NDel tid thr_value | NExit

text \<open>
  Places of a thread: \<open>F\<dots>\<close> in \<^verbatim>\<open>FindThread\<close>, \<open>A\<dots>\<close> at the lock of an object, \<open>Tc\<dots>\<close> in \<^verbatim>\<open>TryCollect\<close>,
  \<open>Ex\<dots>\<close> in \<^verbatim>\<open>posix_pthread_exit\<close>, \<open>Jn\<dots>\<close> in \<^verbatim>\<open>JoinThread\<close>, \<open>Cl\<dots>\<close> in \<^verbatim>\<open>Collect\<close>, \<open>Cr\<dots>\<close> in creation.
\<close>

type_synonym create_args = "PthreadAttr option \<times> string"

datatype thr_pc =
  TNone | TIdle | TReturned s32 thr_value | TGone | TAborted
| FList tid thr_use | FLook tid thr_use | FLock tid thr_use | FDead tid thr_use | FUnlist tid thr_use bool
| ALock tid thr_body | ABody tid thr_body | AUnlock tid thr_next | ASelf thr_use
| TcTest tid thr_next | TcList tid thr_next | TcLock tid thr_next | TcTake tid thr_next
| TcUnlist tid thr_next bool | TcUnlock tid thr_next bool
| ExRet nat | ExActive | ExStore | ExNotify | ExNative
| JnTest tid bool | JnCompare tid | JnSleep tid | JnRet tid
| CrGc create_args | ClList create_args | ClScan create_args | ClUnlist create_args "tid list" | ClFree create_args "tid list"
| CrAlloc create_args | CrList create_args tid | CrInsert create_args tid | CrUnlist create_args tid
| CrActive create_args tid | CrStart create_args tid | CrAffinity tid

record thread_world =
  tw_obj :: "tid \<Rightarrow> thread_obj"
  tw_pc :: "tid \<Rightarrow> thr_pc"
  tw_threads :: "tid set"
  tw_gc :: "tid list"
  tw_list_lock :: "tid option"
  tw_active :: int

definition tw_goto :: "tid \<Rightarrow> thr_pc \<Rightarrow> thread_world \<Rightarrow> thread_world" where
  "tw_goto t pc s = s\<lparr>tw_pc := (tw_pc s)(t := pc)\<rparr>"

definition with_obj :: "tid \<Rightarrow> (thread_obj \<Rightarrow> thread_obj) \<Rightarrow> thread_world \<Rightarrow> thread_world" where
  "with_obj v f s = s\<lparr>tw_obj := (tw_obj s)(v := f (tw_obj s v))\<rparr>"

definition take_lock :: "tid \<Rightarrow> thread_obj \<Rightarrow> thread_obj" where
  "take_lock t ob = ob\<lparr>tb_lock := Some t\<rparr>"

definition drop_lock :: "thread_obj \<Rightarrow> thread_obj" where
  "drop_lock ob = ob\<lparr>tb_lock := None\<rparr>"

definition add_refs :: "int \<Rightarrow> thread_obj \<Rightarrow> thread_obj" where
  "add_refs n ob = ob\<lparr>tb_refcount := tb_refcount ob + n\<rparr>"

subsection \<open>Steps\<close>

definition include_dead :: "thr_use \<Rightarrow> bool" where
  "include_dead u \<longleftrightarrow> u \<in> {UJoin True, UJoin False, UDetach}"

definition resume :: "thr_next \<Rightarrow> thr_pc" where
  "resume n = (case n of
     NReturn ret x \<Rightarrow> TReturned ret x
   | NJoin v timed \<Rightarrow> JnTest v timed
   | NUse v u \<Rightarrow> ALock v (BUse u)
   | NDel v x \<Rightarrow> ALock v (BDel x)
   | NExit \<Rightarrow> ExStore)"

text \<open>
  What the calls do between looking the thread up and giving its lock up: the place the caller goes on to, and the
  object.  \<^verbatim>\<open>JoinThread\<close>, \<^verbatim>\<open>posix_pthread_detach\<close>, \<^verbatim>\<open>posix_pthread_attr_get_np\<close>, \<^verbatim>\<open>posix_pthread_setschedparam\<close>,
  \<^verbatim>\<open>RefAdd\<close>.
\<close>

definition join_body :: "tid \<Rightarrow> tid \<Rightarrow> bool \<Rightarrow> thread_obj \<Rightarrow> thr_pc \<times> thread_obj" where
  [simp]: "join_body t v timed ob =
     (if tb_detached ob then (AUnlock v (NReturn POSIX_EINVAL VNone), ob)
      else if tb_joiner ob \<noteq> None then (AUnlock v (NReturn POSIX_ENOTSUP VNone), ob)
      else (AUnlock v (NJoin v timed), ob\<lparr>tb_joiner := Some t\<rparr>))"

definition detach_body :: "tid \<Rightarrow> thread_obj \<Rightarrow> thr_pc \<times> thread_obj" where
  [simp]: "detach_body v ob =
     (if tb_detached ob \<or> tb_joiner ob \<noteq> None then (AUnlock v (NReturn POSIX_EINVAL VNone), ob)
      else (TcTest v (NReturn 0 VNone), ob\<lparr>tb_detached := True\<rparr>))"

definition get_attr_body :: "tid \<Rightarrow> thread_obj \<Rightarrow> thr_pc \<times> thread_obj" where
  [simp]: "get_attr_body v ob =
     (let x = tb_attr ob; x1 = (if tb_detached ob then x\<lparr>at_flags := at_flags x OR FlagDetached\<rparr> else x)
      in (AUnlock v (NReturn 0 (VAttr x1)), ob))"

definition set_sched_body :: "tid \<Rightarrow> nat \<Rightarrow> s32 \<Rightarrow> thread_obj \<Rightarrow> thr_pc \<times> thread_obj" where
  [simp]: "set_sched_body v policy prio ob =
     (let x = tb_attr ob in
      if at_policy x = policy \<and> (policy = SchedOther \<or> at_prio x = prio)
      then (AUnlock v (NReturn 0 VNone), ob\<lparr>tb_attr := x\<lparr>at_prio := prio\<rparr>\<rparr>)
      else (AUnlock v (NReturn 0 VNone), ob\<lparr>tb_attr := x\<lparr>at_policy := policy, at_prio := prio\<rparr>\<rparr>))"

definition ref_add_body :: "tid \<Rightarrow> thr_use \<Rightarrow> thread_obj \<Rightarrow> thr_pc \<times> thread_obj" where
  [simp]: "ref_add_body v u ob = (AUnlock v (NUse v u), add_refs 1 ob)"

fun find_body :: "tid \<Rightarrow> tid \<Rightarrow> thr_use \<Rightarrow> thread_obj \<Rightarrow> thr_pc \<times> thread_obj" where
  "find_body t v (UJoin timed) ob = join_body t v timed ob"
| "find_body t v UDetach ob = detach_body v ob"
| "find_body t v UGetAttr ob = get_attr_body v ob"
| "find_body t v (USetSched policy prio) ob = set_sched_body v policy prio ob"
| "find_body t v u ob = ref_add_body v u ob"

text \<open>What the calls do under the lock while they have a reference; the caller itself needs none.\<close>

definition get_sched_body :: "thread_obj \<Rightarrow> thr_value \<times> thread_obj" where
  [simp]: "get_sched_body ob = (VSched (at_policy (tb_attr ob)) (at_prio (tb_attr ob)), ob)"

definition set_prio_body :: "s32 \<Rightarrow> thread_obj \<Rightarrow> thr_value \<times> thread_obj" where
  [simp]: "set_prio_body prio ob = (VNone, ob\<lparr>tb_attr := (tb_attr ob)\<lparr>at_prio := prio\<rparr>\<rparr>)"

definition get_name_body :: "thread_obj \<Rightarrow> thr_value \<times> thread_obj" where
  [simp]: "get_name_body ob = (if tb_dead ob then VNone else VName (take 32 (tb_name ob)), ob)"

definition rename_body :: "string \<Rightarrow> thread_obj \<Rightarrow> thr_value \<times> thread_obj" where
  [simp]: "rename_body name ob = (VNone, if tb_dead ob then ob else ob\<lparr>tb_name := name\<rparr>)"

fun use_body :: "thr_use \<Rightarrow> thread_obj \<Rightarrow> thr_value \<times> thread_obj" where
  "use_body UGetSched ob = get_sched_body ob"
| "use_body (USetPrio prio) ob = set_prio_body prio ob"
| "use_body UGetName ob = get_name_body ob"
| "use_body (URename name) ob = rename_body name ob"
| "use_body _ ob = (VNone, ob)"

text \<open>The other critical sections: \<^verbatim>\<open>RefDelete\<close>, the end of \<^verbatim>\<open>JoinThread\<close>, the middle of \<^verbatim>\<open>ExitThread\<close>.\<close>

definition ref_delete_body :: "tid \<Rightarrow> thr_value \<Rightarrow> thread_obj \<Rightarrow> thr_pc \<times> thread_obj" where
  [simp]: "ref_delete_body v x ob = (TcTest v (NReturn 0 x), add_refs (- 1) ob)"

definition joined_body :: "tid \<Rightarrow> nat \<Rightarrow> thread_obj \<Rightarrow> thr_pc \<times> thread_obj" where
  [simp]: "joined_body v ret ob = (TcTest v (NReturn 0 (VJoined v ret)), ob\<lparr>tb_detached := True, tb_joiner := None\<rparr>)"

definition exit_body :: "tid \<Rightarrow> thread_obj \<Rightarrow> thr_pc \<times> thread_obj" where
  [simp]: "exit_body v ob = (TcTest v NExit, add_refs (- 1) (ob\<lparr>tb_dead := True\<rparr>))"

fun lock_body :: "tid \<Rightarrow> tid \<Rightarrow> thr_body \<Rightarrow> thread_obj \<Rightarrow> thr_pc \<times> thread_obj" where
  "lock_body t v (BFind u) ob = find_body t v u ob"
| "lock_body t v (BUse u) ob =
     (let (x, ob1) = use_body u ob in (AUnlock v (if v = t then NReturn 0 x else NDel v x), ob1))"
| "lock_body t v (BDel x) ob = ref_delete_body v x ob"
| "lock_body t v (BJoined ret) ob = joined_body v ret ob"
| "lock_body t v BExit ob = exit_body v ob"

definition GcThreshold :: nat where "GcThreshold = 5"

definition FlagStackUser :: "32 word" where "FlagStackUser = 256"
definition AdditionalStack :: nat where "AdditionalStack = 131072"

definition detached_attr :: "PthreadAttr \<Rightarrow> bool" where
  "detached_attr x \<longleftrightarrow> at_flags x AND FlagDetached \<noteq> 0"

text \<open>A new object, its attributes made from those the caller gives and those of the calling thread.\<close>

definition new_obj :: "create_args \<Rightarrow> PthreadAttr \<Rightarrow> nat \<Rightarrow> thread_obj" where
  "new_obj args cur stack =
     (let x0 = create_attr (fst args) (Some cur);
          x = (if at_stackaddr x0 \<noteq> 0 then x0\<lparr>at_guardsize := 0, at_flags := at_flags x0 OR FlagStackUser\<rparr>
               else x0\<lparr>at_stacksize := at_stacksize x0 + AdditionalStack, at_stackaddr := stack,
                       at_flags := at_flags x0 AND NOT FlagStackUser\<rparr>) in
      \<lparr>tb_life = Live, tb_lock = None, tb_terminated = False, tb_refcount = 1, tb_dead = False,
       tb_detached = detached_attr x, tb_joiner = None, tb_ret = 0, tb_attr = x, tb_name = snd args\<rparr>)"

definition wake_joiners :: "tid \<Rightarrow> thread_world \<Rightarrow> thread_world" where
  "wake_joiners v s = s\<lparr>tw_pc := (\<lambda>u. if tw_pc s u = JnSleep v then JnCompare v else tw_pc s u)\<rparr>"

text \<open>\<^verbatim>\<open>FindThread\<close>: the list, then the object.  A mutex that is held, and a sleep, give no step.\<close>

fun find_step :: "tid \<Rightarrow> thr_pc \<Rightarrow> thread_world \<Rightarrow> thread_world option" where
  "find_step t (FList v u) s =
     (if tw_list_lock s = None then Some (tw_goto t (FLook v u) (s\<lparr>tw_list_lock := Some t\<rparr>)) else None)"
| "find_step t (FLook v u) s = Some (tw_goto t (if v \<in> tw_threads s then FLock v u else FUnlist v u False) s)"
| "find_step t (FLock v u) s =
     (if tb_lock (tw_obj s v) = None then Some (tw_goto t (FDead v u) (with_obj v (take_lock t) s)) else None)"
| "find_step t (FDead v u) s =
     Some (if \<not> include_dead u \<and> tb_dead (tw_obj s v) then tw_goto t (FUnlist v u False) (with_obj v drop_lock s)
           else tw_goto t (FUnlist v u True) s)"
| "find_step t (FUnlist v u found) s =
     Some (tw_goto t (if found then ABody v (BFind u) else TReturned POSIX_ESRCH VNone) (s\<lparr>tw_list_lock := None\<rparr>))"
| "find_step t _ s = None"

text \<open>Critical sections of the calls, and the calls for the caller itself that take no lock.\<close>

fun lock_step :: "tid \<Rightarrow> thr_pc \<Rightarrow> thread_world \<Rightarrow> thread_world option" where
  "lock_step t (ALock v b) s =
     (if tb_lock (tw_obj s v) = None then Some (tw_goto t (ABody v b) (with_obj v (take_lock t) s)) else None)"
| "lock_step t (ABody v b) s =
     (let (pc, ob) = lock_body t v b (tw_obj s v) in Some (tw_goto t pc (with_obj v (\<lambda>_. ob) s)))"
| "lock_step t (AUnlock v n) s = Some (tw_goto t (resume n) (with_obj v drop_lock s))"
| "lock_step t (ASelf u) s =
     (let (x, ob) = use_body u (tw_obj s t) in Some (tw_goto t (TReturned 0 x) (with_obj t (\<lambda>_. ob) s)))"
| "lock_step t _ s = None"

text \<open>\<^verbatim>\<open>TryCollect\<close>.\<close>

fun collect_step :: "tid \<Rightarrow> thr_pc \<Rightarrow> thread_world \<Rightarrow> thread_world option" where
  "collect_step t (TcTest v n) s =
     Some (if ShouldCollect (tw_obj s v) then tw_goto t (TcList v n) (with_obj v (drop_lock \<circ> add_refs 1) s)
           else tw_goto t (resume n) (with_obj v drop_lock s))"
| "collect_step t (TcList v n) s =
     (if tw_list_lock s = None then Some (tw_goto t (TcLock v n) (s\<lparr>tw_list_lock := Some t\<rparr>)) else None)"
| "collect_step t (TcLock v n) s =
     (if tb_lock (tw_obj s v) = None then Some (tw_goto t (TcTake v n) (with_obj v (take_lock t) s)) else None)"
| "collect_step t (TcTake v n) s =
     (let s1 = with_obj v (add_refs (- 1)) s in
      Some (if ShouldCollect (tw_obj s1 v)
            then tw_goto t (TcUnlist v n True) (s1\<lparr>tw_threads := tw_threads s - {v}, tw_gc := tw_gc s @ [v]\<rparr>)
            else tw_goto t (TcUnlist v n False) s1))"
| "collect_step t (TcUnlist v n c) s = Some (tw_goto t (TcUnlock v n c) (s\<lparr>tw_list_lock := None\<rparr>))"
| "collect_step t (TcUnlock v n c) s = Some (tw_goto t (resume n) (with_obj v drop_lock s))"
| "collect_step t _ s = None"

text \<open>\<^verbatim>\<open>posix_pthread_exit\<close> after the clean-up handlers and destructors, and \<^verbatim>\<open>ExitThread\<close>; the critical section is \<open>exit_body\<close>.\<close>

fun exit_step :: "tid \<Rightarrow> thr_pc \<Rightarrow> thread_world \<Rightarrow> thread_world option" where
  "exit_step t (ExRet ret) s = Some (tw_goto t ExActive (with_obj t (\<lambda>ob. ob\<lparr>tb_ret := ret\<rparr>) s))"
| "exit_step t ExActive s =
     Some (tw_goto t (if tw_active s = 1 then TAborted else ALock t BExit) (s\<lparr>tw_active := tw_active s - 1\<rparr>))"
| "exit_step t ExStore s = Some (tw_goto t ExNotify (with_obj t (\<lambda>ob. ob\<lparr>tb_terminated := True\<rparr>) s))"
| "exit_step t ExNotify s = Some (tw_goto t ExNative (wake_joiners t s))"
| "exit_step t ExNative s = Some (tw_goto t TGone s)"
| "exit_step t _ s = None"

text \<open>\<^verbatim>\<open>JoinThread\<close> after it has made the caller the joiner.\<close>

fun join_step :: "tid \<Rightarrow> thr_pc \<Rightarrow> thread_world \<Rightarrow> thread_world option" where
  "join_step t (JnTest v timed) s =
     Some (tw_goto t (if tb_terminated (tw_obj s v) then JnRet v else if timed then TAborted else JnCompare v) s)"
| "join_step t (JnCompare v) s = Some (tw_goto t (if tb_terminated (tw_obj s v) then JnTest v False else JnSleep v) s)"
| "join_step t (JnRet v) s = Some (tw_goto t (ALock v (BJoined (tb_ret (tw_obj s v)))) s)"
| "join_step t _ s = None"

text \<open>\<^verbatim>\<open>Alloc\<close> up to the allocation, with \<^verbatim>\<open>Collect\<close> and \<^verbatim>\<open>Free\<close>.\<close>

fun gc_step :: "tid \<Rightarrow> thr_pc \<Rightarrow> thread_world \<Rightarrow> thread_world option" where
  "gc_step t (CrGc args) s = Some (tw_goto t (if GcThreshold \<le> length (tw_gc s) then ClList args else CrAlloc args) s)"
| "gc_step t (ClList args) s =
     (if tw_list_lock s = None then Some (tw_goto t (ClScan args) (s\<lparr>tw_list_lock := Some t\<rparr>)) else None)"
| "gc_step t (ClScan args) s =
     (let terminated = (\<lambda>v. tb_terminated (tw_obj s v)) in
      Some (tw_goto t (ClUnlist args (filter terminated (tw_gc s))) (s\<lparr>tw_gc := filter (Not \<circ> terminated) (tw_gc s)\<rparr>)))"
| "gc_step t (ClUnlist args vs) s = Some (tw_goto t (ClFree args vs) (s\<lparr>tw_list_lock := None\<rparr>))"
| "gc_step t (ClFree args vs) s =
     (case vs of
        [] \<Rightarrow> Some (tw_goto t (CrAlloc args) s)
      | v # vs' \<Rightarrow> Some (tw_goto t (ClFree args vs') (with_obj v (\<lambda>ob. ob\<lparr>tb_life := Freed\<rparr>) s)))"
| "gc_step t _ s = None"

text \<open>
  \<^verbatim>\<open>posix_pthread_create_name_np\<close> from the allocation on.  \<^verbatim>\<open>SetAffinity\<close> reads the object on hosts with at least eight
  processors.  \<open>alloc\<close>: the object that \<^verbatim>\<open>Alloc\<close> returns, if any, and the stack that \<^verbatim>\<open>CreateStack\<close> finds.\<close>

fun create_step :: "tid \<Rightarrow> (tid \<times> nat option) option \<Rightarrow> thr_pc \<Rightarrow> thread_world \<Rightarrow> thread_world option" where
  "create_step t alloc (CrAlloc args) s =
     (case alloc of
        None \<Rightarrow> Some (tw_goto t (TReturned POSIX_EAGAIN VNone) s)
      | Some (v, stack) \<Rightarrow>
          if tb_life (tw_obj s v) \<noteq> Unborn then None
          else case stack of
                 None \<Rightarrow> Some (tw_goto t (TReturned POSIX_EAGAIN VNone) s)
               | Some a \<Rightarrow> Some (tw_goto t (CrList args v) (with_obj v (\<lambda>_. new_obj args (tb_attr (tw_obj s t)) a) s)))"
| "create_step t alloc (CrList args v) s =
     (if tw_list_lock s = None then Some (tw_goto t (CrInsert args v) (s\<lparr>tw_list_lock := Some t\<rparr>)) else None)"
| "create_step t alloc (CrInsert args v) s = Some (tw_goto t (CrUnlist args v) (s\<lparr>tw_threads := insert v (tw_threads s)\<rparr>))"
| "create_step t alloc (CrUnlist args v) s = Some (tw_goto t (CrActive args v) (s\<lparr>tw_list_lock := None\<rparr>))"
| "create_step t alloc (CrActive args v) s = Some (tw_goto t (CrStart args v) (s\<lparr>tw_active := tw_active s + 1\<rparr>))"
| "create_step t alloc (CrStart args v) s =
     Some (tw_goto t (case fst args of
                None \<Rightarrow> TReturned 0 (VThread v)
              | Some x \<Rightarrow> if at_cpuset x \<noteq> 0 then CrAffinity v else TReturned 0 (VThread v))
             (tw_goto v TIdle s))"
| "create_step t alloc (CrAffinity v) s = Some (tw_goto t (TReturned 0 (VThread v)) s)"
| "create_step t alloc _ s = None"

text \<open>A place belongs to one of these parts.\<close>

definition or_else :: "'a option \<Rightarrow> 'a option \<Rightarrow> 'a option" where
  "or_else x y = (case x of None \<Rightarrow> y | Some z \<Rightarrow> Some z)"

lemma or_else_simps [simp]: "or_else None y = y" "or_else x None = x"
  by (simp_all add: or_else_def split: option.splits)

definition thr_step :: "tid \<Rightarrow> (tid \<times> nat option) option \<Rightarrow> thr_pc \<Rightarrow> thread_world \<Rightarrow> thread_world option" where
  [simp]: "thr_step t alloc pc s =
     or_else (find_step t pc s) (or_else (lock_step t pc s) (or_else (collect_step t pc s) (or_else (exit_step t pc s)
       (or_else (join_step t pc s) (or_else (gc_step t pc s) (create_step t alloc pc s))))))"

text \<open>The calls, up to their first access to shared state.\<close>

definition use_call :: "tid \<Rightarrow> thr_use \<Rightarrow> tid option \<Rightarrow> thr_pc" where
  "use_call t u target = (case target of
     None \<Rightarrow> TReturned (case u of UGetName \<Rightarrow> POSIX_ESRCH | URename name \<Rightarrow> POSIX_ESRCH | _ \<Rightarrow> POSIX_EINVAL) VNone
   | Some v \<Rightarrow>
       if v \<noteq> t then FList v u
       else (case u of
               UJoin timed \<Rightarrow> TReturned POSIX_EDEADLK VNone
             | USetSched policy prio \<Rightarrow> ALock t (BFind u)
             | UGetSched \<Rightarrow> ALock t (BUse u)
             | USetPrio prio \<Rightarrow> ALock t (BUse u)
             | UGetName \<Rightarrow> ASelf u
             | URename name \<Rightarrow> ASelf u
             | _ \<Rightarrow> FList v u))"

definition thr_idle :: "thr_pc \<Rightarrow> bool" where
  "thr_idle pc \<longleftrightarrow> (case pc of TIdle \<Rightarrow> True | TReturned ret x \<Rightarrow> True | _ \<Rightarrow> False)"

text \<open>The first thread, 0, runs.\<close>

definition unborn_obj :: thread_obj where
  "unborn_obj = \<lparr>tb_life = Unborn, tb_lock = None, tb_terminated = False, tb_refcount = 0, tb_dead = False, tb_detached = False,
     tb_joiner = None, tb_ret = 0, tb_attr = PthreadAttrDefault, tb_name = ''''\<rparr>"

definition thr_init :: thread_world where
  "thr_init = \<lparr>tw_obj = (\<lambda>_. unborn_obj)(0 := new_obj (None, ''main'') PthreadAttrDefault 0), tw_pc = (\<lambda>_. TNone)(0 := TIdle),
     tw_threads = {0}, tw_gc = [], tw_list_lock = None, tw_active = 1\<rparr>"

inductive thr_reach :: "thread_world \<Rightarrow> bool" where
  start: "thr_reach thr_init"
| call: "thr_reach s \<Longrightarrow> thr_idle (tw_pc s t) \<Longrightarrow> thr_reach (tw_goto t (use_call t u target) s)"
| exit: "thr_reach s \<Longrightarrow> thr_idle (tw_pc s t) \<Longrightarrow> thr_reach (tw_goto t (ExRet ret) s)"
| create: "thr_reach s \<Longrightarrow> thr_idle (tw_pc s t) \<Longrightarrow> thr_reach (tw_goto t (CrGc args) s)"
| step: "thr_reach s \<Longrightarrow> thr_step t alloc (tw_pc s t) s = Some s' \<Longrightarrow> thr_reach s'"

end
