(* ===== verification/Orbit_ThreadInv.thy ===== *)
theory Orbit_ThreadInv
  imports Orbit_Thread
begin

text \<open>
  The invariant of the life of threads, and its properties: what a place of a thread says about the locks it holds,
  the references it has and the objects it relies on.
\<close>

subsection \<open>What a place means\<close>

text \<open>The object whose lock the thread holds, and whether it holds the lock of the list.\<close>

fun locks :: "thr_pc \<Rightarrow> tid option" where
  "locks (ABody v b) = Some v"
| "locks (AUnlock v n) = Some v"
| "locks (FDead v u) = Some v"
| "locks (FUnlist v u found) = (if found then Some v else None)"
| "locks (TcTest v n) = Some v"
| "locks (TcTake v n) = Some v"
| "locks (TcUnlist v n c) = Some v"
| "locks (TcUnlock v n c) = Some v"
| "locks _ = None"

fun lists :: "thr_pc \<Rightarrow> bool" where
  "lists (FLook v u) = True"
| "lists (FLock v u) = True"
| "lists (FDead v u) = True"
| "lists (FUnlist v u found) = True"
| "lists (TcLock v n) = True"
| "lists (TcTake v n) = True"
| "lists (TcUnlist v n c) = True"
| "lists (ClScan args) = True"
| "lists (ClUnlist args vs) = True"
| "lists (CrInsert args v) = True"
| "lists (CrUnlist args v) = True"
| "lists _ = False"

text \<open>The object that the thread has a reference to.\<close>

fun body_holds :: "tid \<Rightarrow> tid \<Rightarrow> thr_body \<Rightarrow> tid option" where
  "body_holds t v (BUse u) = (if v = t then None else Some v)"
| "body_holds t v (BDel x) = Some v"
| "body_holds t v _ = None"

fun next_target :: "thr_next \<Rightarrow> tid option" where
  "next_target (NJoin v timed) = Some v"
| "next_target (NUse v u) = Some v"
| "next_target (NDel v x) = Some v"
| "next_target _ = None"

fun next_holds :: "thr_next \<Rightarrow> tid option" where
  "next_holds (NUse v u) = Some v"
| "next_holds (NDel v x) = Some v"
| "next_holds _ = None"

fun holds :: "tid \<Rightarrow> thr_pc \<Rightarrow> tid option" where
  "holds t (ALock v b) = body_holds t v b"
| "holds t (ABody v b) = body_holds t v b"
| "holds t (AUnlock v n) = next_holds n"
| "holds t (TcList v n) = Some v"
| "holds t (TcLock v n) = Some v"
| "holds t (TcTake v n) = Some v"
| "holds t _ = None"

text \<open>The object that the thread takes to be in the list of threads.\<close>

fun relies :: "thr_pc \<Rightarrow> tid option" where
  "relies (FLock v u) = Some v"
| "relies (FDead v u) = Some v"
| "relies (FUnlist v u found) = (if found then Some v else None)"
| "relies (ALock v b) = Some v"
| "relies (ABody v b) = Some v"
| "relies (AUnlock v n) = Some v"
| "relies (TcTest v n) = Some v"
| "relies (TcList v n) = Some v"
| "relies (TcLock v n) = Some v"
| "relies (TcTake v n) = Some v"
| "relies (TcUnlist v n c) = (if c then None else Some v)"
| "relies (TcUnlock v n c) = (if c then None else Some v)"
| "relies (JnTest v timed) = Some v"
| "relies (JnCompare v) = Some v"
| "relies (JnSleep v) = Some v"
| "relies (JnRet v) = Some v"
| "relies (CrUnlist args v) = Some v"
| "relies (CrActive args v) = Some v"
| "relies (CrStart args v) = Some v"
| "relies _ = None"

text \<open>The object that the thread is the joiner of, and the result of a join under way.\<close>

fun joining :: "thr_pc \<Rightarrow> tid option" where
  "joining (AUnlock w n) = (case n of NJoin v timed \<Rightarrow> Some v | _ \<Rightarrow> None)"
| "joining (JnTest v timed) = Some v"
| "joining (JnCompare v) = Some v"
| "joining (JnSleep v) = Some v"
| "joining (JnRet v) = Some v"
| "joining (ALock v b) = (case b of BJoined r \<Rightarrow> Some v | _ \<Rightarrow> None)"
| "joining (ABody v b) = (case b of BJoined r \<Rightarrow> Some v | _ \<Rightarrow> None)"
| "joining _ = None"

fun joined :: "thr_value \<Rightarrow> (tid \<times> nat) option" where
  "joined (VJoined v r) = Some (v, r)"
| "joined _ = None"

fun body_result :: "tid \<Rightarrow> thr_body \<Rightarrow> (tid \<times> nat) option" where
  "body_result v (BDel x) = joined x"
| "body_result v (BJoined r) = Some (v, r)"
| "body_result v _ = None"

fun next_result :: "thr_next \<Rightarrow> (tid \<times> nat) option" where
  "next_result (NReturn ret x) = joined x"
| "next_result (NDel v x) = joined x"
| "next_result _ = None"

fun result :: "thr_pc \<Rightarrow> (tid \<times> nat) option" where
  "result (TReturned ret x) = joined x"
| "result (ALock v b) = body_result v b"
| "result (ABody v b) = body_result v b"
| "result (AUnlock v n) = next_result n"
| "result (TcTest v n) = next_result n"
| "result (TcList v n) = next_result n"
| "result (TcLock v n) = next_result n"
| "result (TcTake v n) = next_result n"
| "result (TcUnlist v n c) = next_result n"
| "result (TcUnlock v n c) = next_result n"
| "result _ = None"

text \<open>The thread has marked itself dead; it has stored \<^verbatim>\<open>TidTerminated\<close>.\<close>

fun marked :: "thr_pc \<Rightarrow> bool" where
  "marked (AUnlock v n) = (n = NExit)"
| "marked (TcTest v n) = (n = NExit)"
| "marked (TcList v n) = (n = NExit)"
| "marked (TcLock v n) = (n = NExit)"
| "marked (TcTake v n) = (n = NExit)"
| "marked (TcUnlist v n c) = (n = NExit)"
| "marked (TcUnlock v n c) = (n = NExit)"
| "marked pc = (pc \<in> {ExStore, ExNotify, ExNative, TGone})"

definition ended :: "thr_pc \<Rightarrow> bool" where
  "ended pc \<longleftrightarrow> pc = ExNotify \<or> pc = ExNative \<or> pc = TGone"

text \<open>The object being created, and the objects taken off the list to be freed.\<close>

fun creating :: "thr_pc \<Rightarrow> tid option" where
  "creating (CrList args v) = Some v"
| "creating (CrInsert args v) = Some v"
| "creating (CrUnlist args v) = Some v"
| "creating (CrActive args v) = Some v"
| "creating (CrStart args v) = Some v"
| "creating _ = None"

fun works :: "thr_pc \<Rightarrow> tid list" where
  "works (ClUnlist args vs) = vs"
| "works (ClFree args vs) = vs"
| "works _ = []"

text \<open>Which places a thread can be at with which object.\<close>

definition takes_ref :: "thr_use \<Rightarrow> bool" where
  "takes_ref u \<longleftrightarrow> (case u of UGetSched \<Rightarrow> True | USetPrio prio \<Rightarrow> True | UGetName \<Rightarrow> True | URename name \<Rightarrow> True | _ \<Rightarrow> False)"

fun body_shape :: "tid \<Rightarrow> tid \<Rightarrow> thr_body \<Rightarrow> bool" where
  "body_shape t v (BFind u) = (takes_ref u \<longrightarrow> v \<noteq> t)"
| "body_shape t v (BDel x) = (v \<noteq> t)"
| "body_shape t v BExit = (v = t)"
| "body_shape t v _ = True"

fun shape_ok :: "tid \<Rightarrow> thr_pc \<Rightarrow> bool" where
  "shape_ok t (FList v u) = (takes_ref u \<longrightarrow> v \<noteq> t)"
| "shape_ok t (FLook v u) = (takes_ref u \<longrightarrow> v \<noteq> t)"
| "shape_ok t (FLock v u) = (takes_ref u \<longrightarrow> v \<noteq> t)"
| "shape_ok t (FDead v u) = (takes_ref u \<longrightarrow> v \<noteq> t)"
| "shape_ok t (FUnlist v u found) = (takes_ref u \<longrightarrow> v \<noteq> t)"
| "shape_ok t (ALock v b) = (body_shape t v b \<and> (\<forall>u. b = BFind u \<longrightarrow> v = t))"
| "shape_ok t (ABody v b) = body_shape t v b"
| "shape_ok t (AUnlock v n) = (n \<noteq> NExit \<and> next_target n \<in> {None, Some v} \<and> next_holds n \<noteq> Some t)"
| "shape_ok t (TcTest v n) = (next_target n = None \<and> (n = NExit \<longrightarrow> v = t))"
| "shape_ok t (TcList v n) = (next_target n = None \<and> (n = NExit \<longrightarrow> v = t))"
| "shape_ok t (TcLock v n) = (next_target n = None \<and> (n = NExit \<longrightarrow> v = t))"
| "shape_ok t (TcTake v n) = (next_target n = None \<and> (n = NExit \<longrightarrow> v = t))"
| "shape_ok t (TcUnlist v n c) = (next_target n = None \<and> (n = NExit \<longrightarrow> v = t))"
| "shape_ok t (TcUnlock v n c) = (next_target n = None \<and> (n = NExit \<longrightarrow> v = t))"
| "shape_ok t _ = True"

subsection \<open>Invariant\<close>

definition refs_ok :: "thread_world \<Rightarrow> tid \<Rightarrow> bool" where
  "refs_ok s v \<longleftrightarrow> finite {t. holds t (tw_pc s t) = Some v} \<and>
     tb_refcount (tw_obj s v) = of_bool (\<not> tb_dead (tw_obj s v)) + int (card {t. holds t (tw_pc s t) = Some v})"

definition threads_ok :: "thread_world \<Rightarrow> bool" where
  "threads_ok s \<longleftrightarrow> (\<forall>v\<in>tw_threads s. tb_life (tw_obj s v) = Live) \<and> distinct (tw_gc s) \<and>
     (\<forall>v\<in>set (tw_gc s). v \<notin> tw_threads s \<and> tb_life (tw_obj s v) = Live \<and> tb_dead (tw_obj s v) \<and> tb_detached (tw_obj s v))"

definition works_ok :: "thread_world \<Rightarrow> bool" where
  "works_ok s \<longleftrightarrow>
     (\<forall>t. distinct (works (tw_pc s t)) \<and> (\<forall>v\<in>set (works (tw_pc s t)). v \<notin> tw_threads s \<and> v \<notin> set (tw_gc s) \<and>
        tb_life (tw_obj s v) = Live \<and> tb_terminated (tw_obj s v))) \<and>
     (\<forall>t u. t \<noteq> u \<longrightarrow> set (works (tw_pc s t)) \<inter> set (works (tw_pc s u)) = {})"

definition own_ok :: "thread_world \<Rightarrow> tid \<Rightarrow> bool" where
  "own_ok s t \<longleftrightarrow> (let pc = tw_pc s t; ob = tw_obj s t in
     (tb_dead ob \<longleftrightarrow> marked pc) \<and> (tb_terminated ob \<longleftrightarrow> ended pc) \<and> (pc \<noteq> TNone \<longrightarrow> \<not> marked pc \<longrightarrow> t \<in> tw_threads s) \<and>
     (marked pc \<longrightarrow> \<not> ended pc \<longrightarrow> tb_life ob = Live) \<and> (tb_life ob = Unborn \<longrightarrow> pc = TNone) \<and> shape_ok t pc)"

definition place_ok :: "thread_world \<Rightarrow> tid \<Rightarrow> bool" where
  "place_ok s t \<longleftrightarrow> (let pc = tw_pc s t in
     (\<forall>v. relies pc = Some v \<longrightarrow> v \<in> tw_threads s) \<and>
     (\<forall>v. joining pc = Some v \<longrightarrow> tb_joiner (tw_obj s v) = Some t \<and> \<not> tb_detached (tw_obj s v)) \<and>
     (\<forall>v. pc = JnRet v \<longrightarrow> tb_terminated (tw_obj s v)) \<and>
     (\<forall>v r. result pc = Some (v, r) \<longrightarrow> tb_terminated (tw_obj s v) \<and> tb_ret (tw_obj s v) = r) \<and>
     (\<forall>v. locks pc = Some v \<longrightarrow> tb_life (tw_obj s v) \<noteq> Unborn) \<and>
     (\<forall>v. pc = JnSleep v \<longrightarrow> tb_terminated (tw_obj s v) \<longrightarrow> tw_pc s v = ExNotify))"

definition creating_ok :: "thread_world \<Rightarrow> bool" where
  "creating_ok s \<longleftrightarrow> (\<forall>t v. creating (tw_pc s t) = Some v \<longrightarrow> tw_pc s v = TNone \<and> tb_life (tw_obj s v) = Live \<and>
     (\<forall>u. creating (tw_pc s u) = Some v \<longrightarrow> u = t))"

definition world_ok :: "thread_world \<Rightarrow> bool" where
  "world_ok s \<longleftrightarrow>
     (\<forall>t. tw_list_lock s = Some t \<longleftrightarrow> lists (tw_pc s t)) \<and>
     (\<forall>t v. tb_lock (tw_obj s v) = Some t \<longleftrightarrow> locks (tw_pc s t) = Some v) \<and>
     (\<forall>v. tb_life (tw_obj s v) = Live \<longrightarrow> refs_ok s v) \<and>
     threads_ok s \<and> works_ok s \<and> creating_ok s \<and> (\<forall>t. own_ok s t \<and> place_ok s t)"

lemma world_okD:
  assumes "world_ok s"
  shows "tw_list_lock s = Some t \<longleftrightarrow> lists (tw_pc s t)" and "tb_lock (tw_obj s v) = Some t \<longleftrightarrow> locks (tw_pc s t) = Some v"
    and "tb_life (tw_obj s v) = Live \<Longrightarrow> refs_ok s v" and "threads_ok s" "works_ok s" "creating_ok s" "own_ok s t" "place_ok s t"
  using assms by (auto simp: world_ok_def)


text \<open>
  A step of a thread that changes at most one object: what has to be shown is about the old and the new place and
  the two values of the object.
\<close>

definition local_ok :: "thread_world \<Rightarrow> tid \<Rightarrow> thr_pc \<Rightarrow> tid \<Rightarrow> thread_obj \<Rightarrow> bool" where
  "local_ok s t pc' v ob \<longleftrightarrow> (let pc = tw_pc s t; old = tw_obj s v in
     tb_lock ob = (if locks pc' = Some v then Some t else if locks pc = Some v then None else tb_lock old) \<and>
     (locks pc' = Some v \<longrightarrow> locks pc = Some v \<or> tb_lock old = None \<and> tb_life old \<noteq> Unborn) \<and>
     (\<forall>w. w \<noteq> v \<longrightarrow> (locks pc' = Some w \<longleftrightarrow> locks pc = Some w) \<and> (holds t pc' = Some w \<longleftrightarrow> holds t pc = Some w)) \<and>
     tb_refcount ob - of_bool (\<not> tb_dead ob) - of_bool (holds t pc' = Some v) =
       tb_refcount old - of_bool (\<not> tb_dead old) - of_bool (holds t pc = Some v) \<and>
     tb_life ob = tb_life old \<and> (tb_detached old \<longrightarrow> tb_detached ob) \<and>
     (tb_terminated old \<longrightarrow> tb_terminated ob \<and> tb_ret ob = tb_ret old) \<and>
     (tb_terminated ob \<longrightarrow> tb_terminated old \<or> v = t \<and> pc' = ExNotify) \<and>
     (v \<noteq> t \<longrightarrow> tb_dead ob = tb_dead old) \<and>
     (\<forall>u. u \<noteq> t \<longrightarrow> joining (tw_pc s u) = Some v \<longrightarrow> tb_joiner ob = tb_joiner old \<and> tb_detached ob = tb_detached old))"

definition moves_ok :: "tid \<Rightarrow> thr_pc \<Rightarrow> thr_pc \<Rightarrow> bool" where
  "moves_ok t pc pc' \<longleftrightarrow> pc \<noteq> TNone \<and> pc' \<noteq> TNone \<and> pc \<noteq> ExNotify \<and> shape_ok t pc' \<and> (marked pc \<longrightarrow> marked pc') \<and>
     creating pc' = creating pc \<and> works pc' = works pc"

definition place_after :: "thread_world \<Rightarrow> tid \<Rightarrow> thr_pc \<Rightarrow> (tid \<Rightarrow> thread_obj) \<Rightarrow> bool" where
  "place_after s t pc' obj \<longleftrightarrow>
     (tb_dead (obj t) \<longleftrightarrow> marked pc') \<and> (tb_terminated (obj t) \<longleftrightarrow> ended pc') \<and>
     (\<forall>w. relies pc' = Some w \<longrightarrow> w \<in> tw_threads s) \<and>
     (\<forall>w. joining pc' = Some w \<longrightarrow> tb_joiner (obj w) = Some t \<and> \<not> tb_detached (obj w)) \<and>
     (\<forall>w. pc' = JnRet w \<longrightarrow> tb_terminated (obj w)) \<and> (\<forall>w. pc' = JnSleep w \<longrightarrow> \<not> tb_terminated (obj w)) \<and>
     (\<forall>w r. result pc' = Some (w, r) \<longrightarrow> tb_terminated (obj w) \<and> tb_ret (obj w) = r)"

lemma card_insert_one:
  assumes "finite {u. u \<noteq> t \<and> P u}" and "{u. Q u} = {u. u \<noteq> t \<and> P u} \<union> (if b then {t} else {})"
  shows "finite {u. Q u} \<and> int (card {u. Q u}) = int (card {u. u \<noteq> t \<and> P u}) + of_bool b"
  using assms by (cases b) auto

lemma refs_ok_split:
  "refs_ok s v \<longleftrightarrow> finite {u. u \<noteq> t \<and> holds u (tw_pc s u) = Some v} \<and>
     tb_refcount (tw_obj s v) = of_bool (\<not> tb_dead (tw_obj s v)) + of_bool (holds t (tw_pc s t) = Some v) +
       int (card {u. u \<noteq> t \<and> holds u (tw_pc s u) = Some v})"
proof -
  let ?A = "{u. u \<noteq> t \<and> holds u (tw_pc s u) = Some v}"
  have e: "{u. holds u (tw_pc s u) = Some v} = ?A \<union> (if holds t (tw_pc s t) = Some v then {t} else {})" by auto
  have f: "finite {u. holds u (tw_pc s u) = Some v} \<longleftrightarrow> finite ?A" unfolding e by simp
  show ?thesis
  proof (cases "finite ?A")
    case True
    show ?thesis using card_insert_one [OF True e] True f by (auto simp: refs_ok_def)
  next
    case False
    then show ?thesis using f by (simp add: refs_ok_def)
  qed
qed

lemma world_local:
  assumes ok: "world_ok s"
    and pc: "tw_pc s' = (tw_pc s)(t := pc')" and obj: "tw_obj s' = (tw_obj s)(v := ob)"
    and same: "tw_threads s' = tw_threads s" "tw_gc s' = tw_gc s"
    and list: "tw_list_lock s' = (if lists pc' then Some t else if lists (tw_pc s t) then None else tw_list_lock s)"
      "lists pc' \<Longrightarrow> lists (tw_pc s t) \<or> tw_list_lock s = None"
    and l: "local_ok s t pc' v ob" and m: "moves_ok t (tw_pc s t) pc'" and p: "place_after s t pc' ((tw_obj s)(v := ob))"
  shows "world_ok s'"
proof -
  note D = world_okD [OF ok]
  note L = l [unfolded local_ok_def Let_def] and M = m [unfolded moves_ok_def] and P = p [unfolded place_after_def]
  have "tw_list_lock s' = Some u \<longleftrightarrow> lists (tw_pc s' u)" for u
    using D(1) [of u] D(1) [of t] list unfolding pc by (auto split: if_splits)
  moreover have "tb_lock (tw_obj s' w) = Some u \<longleftrightarrow> locks (tw_pc s' u) = Some w" for u w
  proof (cases "w = v")
    case True
    show ?thesis using D(2) [of v u] D(2) [of v t] L unfolding pc obj True by (auto split: if_splits)
  next
    case False
    then show ?thesis using D(2) [of w u] L unfolding pc obj by auto
  qed
  moreover have "refs_ok s' w" if "tb_life (tw_obj s' w) = Live" for w
  proof -
    have live: "tb_life (tw_obj s w) = Live" using that L unfolding obj by (auto split: if_splits)
    have others: "{u. u \<noteq> t \<and> holds u (tw_pc s' u) = Some w} = {u. u \<noteq> t \<and> holds u (tw_pc s u) = Some w}" unfolding pc by auto
    show ?thesis
      using D(3) [OF live] L unfolding refs_ok_split [of _ w t] others unfolding pc obj by (cases "w = v") auto
  qed
  moreover have "threads_ok s'"
  proof -
    have dead: "tb_dead ob" if "tb_dead (tw_obj s v)"
    proof (cases "v = t")
      case True
      have "tb_dead ob \<longleftrightarrow> marked pc'" using P True by simp
      moreover have "marked pc'" using M D(7) [of t] that True by (simp add: own_ok_def Let_def)
      ultimately show ?thesis by simp
    qed (use L that in simp)
    show ?thesis using D(4) L dead unfolding threads_ok_def same obj by auto
  qed
  moreover have "works_ok s'" using D(5) L M unfolding works_ok_def same pc obj by simp
  moreover have "creating_ok s'"
  proof -
    have c: "creating (tw_pc s' u) = creating (tw_pc s u)" for u using M by (simp add: pc)
    have "tw_pc s' w = TNone" if "tw_pc s w = TNone" for w using M that by (auto simp: pc)
    moreover have "tb_life (tw_obj s' w) = tb_life (tw_obj s w)" for w using L by (simp add: obj)
    ultimately show ?thesis using D(6) unfolding creating_ok_def c by metis
  qed
  moreover have "own_ok s' u" for u
  proof -
    have life: "tb_life (tw_obj s' u) = tb_life (tw_obj s u)" using L by (simp add: obj)
    show ?thesis
    proof (cases "u = t")
      case True
      have t1: "tb_terminated (tw_obj s t) \<Longrightarrow> tb_terminated (tw_obj s' t)" using L by (auto simp: obj)
      have t2: "tb_life (tw_obj s t) = Live" if "t \<in> tw_threads s" using D(4) that by (simp add: threads_ok_def)
      have t3: "tw_pc s t \<noteq> TNone" "pc' \<noteq> TNone" "shape_ok t pc'" "marked (tw_pc s t) \<Longrightarrow> marked pc'" using M by simp_all
      have t4: "tb_dead (tw_obj s' t) \<longleftrightarrow> marked pc'" "tb_terminated (tw_obj s' t) \<longleftrightarrow> ended pc'" using P by (simp_all add: obj)
      have o: "tb_terminated (tw_obj s t) \<longleftrightarrow> ended (tw_pc s t)" "\<not> marked (tw_pc s t) \<Longrightarrow> t \<in> tw_threads s"
        "marked (tw_pc s t) \<Longrightarrow> \<not> ended (tw_pc s t) \<Longrightarrow> tb_life (tw_obj s t) = Live" "tb_life (tw_obj s t) \<noteq> Unborn"
        using D(7) [of t] t3(1) by (auto simp: own_ok_def Let_def)
      have "t \<in> tw_threads s" if "\<not> marked pc'" using that t3(4) o(2) by blast
      moreover have "tb_life (tw_obj s t) = Live" if "\<not> ended pc'" using that t1 t2 t4(2) o by blast
      ultimately show ?thesis using life t3 t4 o(4) unfolding own_ok_def Let_def same True by (simp add: pc)
    next
      case False
      have "tb_dead (tw_obj s' u) = tb_dead (tw_obj s u)" using L False by (auto simp: obj)
      moreover have "tb_terminated (tw_obj s' u) = tb_terminated (tw_obj s u)" using L False by (auto simp: obj)
      moreover have "tw_pc s' u = tw_pc s u" using False by (simp add: pc)
      ultimately show ?thesis using D(7) [of u] life unfolding own_ok_def Let_def same by metis
    qed
  qed
  moreover have "place_ok s' u" for u
  proof (cases "u = t")
    case True
    have lk: "tb_life (tw_obj s w) \<noteq> Unborn" if "locks (tw_pc s t) = Some w" for w
      using D(8) [of t] that by (simp add: place_ok_def Let_def)
    have life: "tb_life (tw_obj s' w) = tb_life (tw_obj s w)" for w using L by (simp add: obj)
    have "tb_life (tw_obj s' w) \<noteq> Unborn" if "locks pc' = Some w" for w
    proof -
      have "locks pc' = Some v \<longrightarrow> locks (tw_pc s t) = Some v \<or> tb_life (tw_obj s v) \<noteq> Unborn" using L by blast
      moreover have "w \<noteq> v \<longrightarrow> locks (tw_pc s t) = Some w" using L that by blast
      ultimately show ?thesis unfolding life using lk that by blast
    qed
    moreover have "tw_pc s' t = pc'" by (simp add: pc)
    ultimately show ?thesis using P unfolding True place_ok_def Let_def obj same by simp
  next
    case False
    have o: "tb_life (tw_obj s' w) = tb_life (tw_obj s w)" "tb_terminated (tw_obj s w) \<Longrightarrow> tb_terminated (tw_obj s' w) \<and> tb_ret (tw_obj s' w) = tb_ret (tw_obj s w)"
        "joining (tw_pc s u) = Some w \<Longrightarrow> tb_joiner (tw_obj s' w) = tb_joiner (tw_obj s w) \<and> tb_detached (tw_obj s' w) = tb_detached (tw_obj s w)"
        "tb_terminated (tw_obj s' w) \<Longrightarrow> \<not> tb_terminated (tw_obj s w) \<Longrightarrow> w = t \<and> pc' = ExNotify" for w
      using L False by (auto simp: obj split: if_splits)
    have "tw_pc s' w = ExNotify" if "tw_pc s u = JnSleep w" "tb_terminated (tw_obj s' w)" for w
    proof (cases "tb_terminated (tw_obj s w)")
      case True
      then have "tw_pc s w = ExNotify" using D(8) [of u] that(1) by (simp add: place_ok_def Let_def)
      moreover have "w \<noteq> t" using calculation M by auto
      ultimately show ?thesis by (simp add: pc)
    next
      case False
      then show ?thesis using o(4) [OF that(2)] by (simp add: pc)
    qed
    moreover have "tw_pc s' u = tw_pc s u" using False by (simp add: pc)
    ultimately show ?thesis using D(8) [of u] o(1-3) unfolding place_ok_def Let_def same by simp
  qed
  ultimately show ?thesis by (simp add: world_ok_def)
qed


lemma world_goto:
  assumes ok: "world_ok s" and pc: "tw_pc s' = (tw_pc s)(t := pc')"
    and same: "tw_obj s' = tw_obj s" "tw_threads s' = tw_threads s" "tw_gc s' = tw_gc s"
    and list: "tw_list_lock s' = (if lists pc' then Some t else if lists (tw_pc s t) then None else tw_list_lock s)"
      "lists pc' \<Longrightarrow> lists (tw_pc s t) \<or> tw_list_lock s = None"
    and keeps: "locks pc' = locks (tw_pc s t)" "holds t pc' = holds t (tw_pc s t)"
    and m: "moves_ok t (tw_pc s t) pc'" and p: "place_after s t pc' (tw_obj s)"
  shows "world_ok s'"
proof (rule world_local [OF ok pc _ same(2,3) list _ m])
  show "tw_obj s' = (tw_obj s)(t := tw_obj s t)" by (simp add: same)
  show "local_ok s t pc' t (tw_obj s t)"
    using world_okD(2) [OF ok, of t t] keeps by (auto simp: local_ok_def Let_def)
  show "place_after s t pc' ((tw_obj s)(t := tw_obj s t))" using p by simp
qed

text \<open>The steps that change the list of threads, the list of objects to collect, or the life of an object.\<close>

lemma own_okD:
  assumes "world_ok s"
  shows "tb_dead (tw_obj s t) = marked (tw_pc s t)" and "tb_terminated (tw_obj s t) = ended (tw_pc s t)"
    and "tw_pc s t \<noteq> TNone \<Longrightarrow> \<not> marked (tw_pc s t) \<Longrightarrow> t \<in> tw_threads s"
    and "marked (tw_pc s t) \<Longrightarrow> \<not> ended (tw_pc s t) \<Longrightarrow> tb_life (tw_obj s t) = Live"
    and "tb_life (tw_obj s t) = Unborn \<Longrightarrow> tw_pc s t = TNone" and "shape_ok t (tw_pc s t)"
  using world_okD(7) [OF assms, of t] unfolding own_ok_def Let_def by blast+

lemma place_okD:
  assumes "world_ok s"
  shows "relies (tw_pc s t) = Some v \<Longrightarrow> v \<in> tw_threads s"
    and "joining (tw_pc s t) = Some v \<Longrightarrow> tb_joiner (tw_obj s v) = Some t \<and> \<not> tb_detached (tw_obj s v)"
    and "tw_pc s t = JnRet v \<Longrightarrow> tb_terminated (tw_obj s v)"
    and "result (tw_pc s t) = Some (v, r) \<Longrightarrow> tb_terminated (tw_obj s v) \<and> tb_ret (tw_obj s v) = r"
    and "locks (tw_pc s t) = Some v \<Longrightarrow> tb_life (tw_obj s v) \<noteq> Unborn"
    and "tw_pc s t = JnSleep v \<Longrightarrow> tb_terminated (tw_obj s v) \<Longrightarrow> tw_pc s v = ExNotify"
  using world_okD(8) [OF assms, of t] unfolding place_ok_def Let_def by blast+

lemma place_okI:
  assumes "\<And>v. relies (tw_pc s t) = Some v \<Longrightarrow> v \<in> tw_threads s"
    and "\<And>v. joining (tw_pc s t) = Some v \<Longrightarrow> tb_joiner (tw_obj s v) = Some t \<and> \<not> tb_detached (tw_obj s v)"
    and "\<And>v. tw_pc s t = JnRet v \<Longrightarrow> tb_terminated (tw_obj s v)"
    and "\<And>v r. result (tw_pc s t) = Some (v, r) \<Longrightarrow> tb_terminated (tw_obj s v) \<and> tb_ret (tw_obj s v) = r"
    and "\<And>v. locks (tw_pc s t) = Some v \<Longrightarrow> tb_life (tw_obj s v) \<noteq> Unborn"
    and "\<And>v. tw_pc s t = JnSleep v \<Longrightarrow> tb_terminated (tw_obj s v) \<Longrightarrow> tw_pc s v = ExNotify"
  shows "place_ok s t"
  using assms unfolding place_ok_def Let_def by blast

lemma threads_okD:
  assumes "world_ok s"
  shows "v \<in> tw_threads s \<Longrightarrow> tb_life (tw_obj s v) = Live" and "distinct (tw_gc s)"
    and "v \<in> set (tw_gc s) \<Longrightarrow> v \<notin> tw_threads s \<and> tb_life (tw_obj s v) = Live \<and> tb_dead (tw_obj s v) \<and> tb_detached (tw_obj s v)"
  using world_okD(4) [OF assms] unfolding threads_ok_def by blast+

lemma works_okD:
  assumes "world_ok s"
  shows "distinct (works (tw_pc s t))"
    and "v \<in> set (works (tw_pc s t)) \<Longrightarrow> v \<notin> tw_threads s \<and> v \<notin> set (tw_gc s) \<and> tb_life (tw_obj s v) = Live \<and> tb_terminated (tw_obj s v)"
    and "v \<in> set (works (tw_pc s t)) \<Longrightarrow> v \<in> set (works (tw_pc s u)) \<Longrightarrow> t = u"
  using world_okD(5) [OF assms] unfolding works_ok_def by blast+

lemma works_okI:
  assumes "\<And>t. distinct (works (tw_pc s t))"
    and "\<And>v t. v \<in> set (works (tw_pc s t)) \<Longrightarrow> v \<notin> tw_threads s \<and> v \<notin> set (tw_gc s) \<and> tb_life (tw_obj s v) = Live \<and> tb_terminated (tw_obj s v)"
    and "\<And>v t u. v \<in> set (works (tw_pc s t)) \<Longrightarrow> v \<in> set (works (tw_pc s u)) \<Longrightarrow> t = u"
  shows "works_ok s"
  using assms unfolding works_ok_def by blast

lemma creating_okD:
  assumes "world_ok s" and "creating (tw_pc s t) = Some v"
  shows "tw_pc s v = TNone" and "tb_life (tw_obj s v) = Live" and "creating (tw_pc s u) = Some v \<Longrightarrow> u = t"
  using world_okD(6) [OF assms(1)] assms(2) unfolding creating_ok_def by blast+

lemma relies_why:
  assumes "relies pc = Some v" and "shape_ok t pc"
  shows "locks pc = Some v \<or> lists pc \<or> holds t pc = Some v \<or> joining pc = Some v \<or> creating pc = Some v \<or> v = t \<and> \<not> marked pc"
proof (cases pc)
  case (ALock w b)
  then show ?thesis using assms by (cases b) auto
qed (use assms in \<open>auto split: if_splits\<close>)

text \<open>Two places that differ at most in what the thread relies on, creates and has to free.\<close>

definition alike :: "tid \<Rightarrow> thr_pc \<Rightarrow> thr_pc \<Rightarrow> bool" where
  "alike t pc pc' \<longleftrightarrow> locks pc' = locks pc \<and> lists pc' = lists pc \<and> holds t pc' = holds t pc \<and> joining pc' = joining pc \<and>
     result pc' = result pc \<and> marked pc' = marked pc \<and> ended pc' = ended pc \<and> shape_ok t pc' = shape_ok t pc \<and>
     (pc' = TNone \<longleftrightarrow> pc = TNone) \<and> (\<forall>w. pc' = JnRet w \<longleftrightarrow> pc = JnRet w) \<and> (\<forall>w. pc' = JnSleep w \<longleftrightarrow> pc = JnSleep w) \<and>
     (pc' = ExNotify \<longleftrightarrow> pc = ExNotify)"

lemma alikeD:
  assumes "alike t pc pc'"
  shows "locks pc' = locks pc" "lists pc' = lists pc" "holds t pc' = holds t pc" "joining pc' = joining pc"
    "result pc' = result pc" "marked pc' = marked pc" "ended pc' = ended pc" "shape_ok t pc' = shape_ok t pc"
    "pc' = TNone \<longleftrightarrow> pc = TNone" "pc' = JnRet w \<longleftrightarrow> pc = JnRet w" "pc' = JnSleep w \<longleftrightarrow> pc = JnSleep w"
    "pc' = ExNotify \<longleftrightarrow> pc = ExNotify"
  using assms by (simp_all add: alike_def)

lemma world_collect:
  assumes ok: "world_ok s" and at: "tw_pc s t = TcUnlist v n False" and c: "ShouldCollect (tw_obj s v)"
    and pc: "tw_pc s' = (tw_pc s)(t := TcUnlist v n True)" and obj: "tw_obj s' = tw_obj s"
    and lists: "tw_threads s' = tw_threads s - {v}" "tw_gc s' = tw_gc s @ [v]" "tw_list_lock s' = tw_list_lock s"
  shows "world_ok s'"
proof -
  note D = world_okD [OF ok] and place = world_okD(8) [OF ok, unfolded place_ok_def Let_def]
  have v: "v \<in> tw_threads s" by (rule place_okD(1) [OF ok, of t]) (simp add: at)
  have live: "tb_life (tw_obj s v) = Live" by (rule threads_okD(1) [OF ok v])
  have f: "\<not> holds u (tw_pc s u) = Some v" for u
    using D(3) [OF live] c by (auto simp: refs_ok_def ShouldCollect_def)
  have mine: "u = t" if "locks (tw_pc s u) = Some v \<or> lists (tw_pc s u)" for u
    using that D(1) [of u] D(1) [of t] D(2) [of v u] D(2) [of v t] at by auto
  have "alike u (tw_pc s u) (tw_pc s' u)" for u by (cases "u = t") (simp_all add: alike_def pc at ended_def)
  note pcs = alikeD [OF this]
  have "works (tw_pc s' u) = works (tw_pc s u)" "creating (tw_pc s' u) = creating (tw_pc s u)" for u by (simp_all add: pc at)
  note pcs = pcs this
  have dead: "marked (tw_pc s v)" and det: "tb_detached (tw_obj s v)"
    using c own_okD(1) [OF ok, of v] by (simp_all add: ShouldCollect_def)
  have "works_ok s'"
  proof (rule works_okI)
    show "distinct (works (tw_pc s' u))" for u unfolding pcs by (rule works_okD(1) [OF ok])
    show "w \<notin> tw_threads s' \<and> w \<notin> set (tw_gc s') \<and> tb_life (tw_obj s' w) = Live \<and> tb_terminated (tw_obj s' w)"
      if "w \<in> set (works (tw_pc s' u))" for w u
      using works_okD(2) [OF ok, of w u] that v unfolding pcs obj lists by auto
    show "u = u'" if "w \<in> set (works (tw_pc s' u))" "w \<in> set (works (tw_pc s' u'))" for w u u'
      using that works_okD(3) [OF ok, of w u u'] unfolding pcs by blast
  qed
  moreover have "threads_ok s'" using D(4) c live v unfolding threads_ok_def obj lists by (auto simp: ShouldCollect_def)
  moreover have "creating_ok s'" using D(6) unfolding creating_ok_def pcs obj by simp
  moreover have "own_ok s' u" for u using D(7) [of u] dead unfolding own_ok_def Let_def pcs obj lists by blast
  moreover have "refs_ok s' w" if "tb_life (tw_obj s' w) = Live" for w
    using D(3) [of w] that unfolding refs_ok_def pcs obj by simp
  moreover have "place_ok s' u" for u
  proof -
    have "relies (tw_pc s' u) \<noteq> Some v"
    proof
      assume r: "relies (tw_pc s' u) = Some v"
      then have "u \<noteq> t" by (auto simp: pc)
      then have r': "relies (tw_pc s u) = Some v" and "locks (tw_pc s u) \<noteq> Some v" "\<not> lists (tw_pc s u)" using mine r by (simp_all add: pc) blast+
      moreover have "joining (tw_pc s u) \<noteq> Some v" using place [of u] det by blast
      moreover have "creating (tw_pc s u) \<noteq> Some v" using creating_okD(1) [OF ok, of u v] dead by auto
      ultimately show False using relies_why [OF _ own_okD(6) [OF ok], of u v] f [of u] dead by blast
    qed
    then show ?thesis using place [of u] unfolding place_ok_def Let_def pcs obj lists
      by (cases "u = t"; simp add: pc at) blast
  qed
  ultimately show ?thesis using D(1,2) unfolding world_ok_def pcs obj lists by simp
qed

lemma world_scan:
  assumes ok: "world_ok s" and at: "tw_pc s t = ClScan args"
    and pc: "tw_pc s' = (tw_pc s)(t := ClUnlist args (filter P (tw_gc s)))" and P: "\<And>v. P v \<longleftrightarrow> tb_terminated (tw_obj s v)"
    and same: "tw_obj s' = tw_obj s" "tw_threads s' = tw_threads s" "tw_list_lock s' = tw_list_lock s"
    and gc: "tw_gc s' = filter (Not \<circ> P) (tw_gc s)"
  shows "world_ok s'"
proof -
  note D = world_okD [OF ok]
  have "alike u (tw_pc s u) (tw_pc s' u)" for u by (cases "u = t") (simp_all add: alike_def pc at ended_def)
  note pcs = alikeD [OF this]
  have "relies (tw_pc s' u) = relies (tw_pc s u)" "creating (tw_pc s' u) = creating (tw_pc s u)" for u by (simp_all add: pc at)
  note pcs = pcs this
  have works: "works (tw_pc s' u) = (if u = t then filter P (tw_gc s) else works (tw_pc s u))" for u by (simp add: pc)
  have "works_ok s'"
  proof (rule works_okI)
    show "distinct (works (tw_pc s' u))" for u unfolding works using works_okD(1) [OF ok] threads_okD(2) [OF ok] by simp
    show "w \<notin> tw_threads s' \<and> w \<notin> set (tw_gc s') \<and> tb_life (tw_obj s' w) = Live \<and> tb_terminated (tw_obj s' w)"
      if "w \<in> set (works (tw_pc s' u))" for w u
      using that works_okD(2) [OF ok, of w u] threads_okD(3) [OF ok, of w] unfolding works same gc by (cases "u = t") (simp_all add: P)
    show "u = u'" if "w \<in> set (works (tw_pc s' u))" "w \<in> set (works (tw_pc s' u'))" for w u u'
      using that works_okD(2) [OF ok, of w u] works_okD(2) [OF ok, of w u'] works_okD(3) [OF ok, of w u u']
      unfolding works by (cases "u = t"; cases "u' = t") simp_all
  qed
  moreover have "threads_ok s'" using threads_okD [OF ok] unfolding threads_ok_def same gc by auto
  moreover have "creating_ok s'" using D(6) unfolding creating_ok_def pcs same by blast
  moreover have "own_ok s' u" for u using D(7) [of u] unfolding own_ok_def Let_def pcs same by blast
  moreover have "refs_ok s' w" if "tb_life (tw_obj s' w) = Live" for w
    using D(3) [of w] that unfolding refs_ok_def pcs same by blast
  moreover have "place_ok s' u" for u using D(8) [of u] unfolding place_ok_def Let_def pcs same by blast
  ultimately show ?thesis using D(1,2) unfolding world_ok_def pcs same by blast
qed

lemma world_free:
  assumes ok: "world_ok s" and at: "tw_pc s t = ClFree args (v # vs)"
    and pc: "tw_pc s' = (tw_pc s)(t := ClFree args vs)" and obj: "tw_obj s' = (tw_obj s)(v := (tw_obj s v)\<lparr>tb_life := Freed\<rparr>)"
    and same: "tw_threads s' = tw_threads s" "tw_gc s' = tw_gc s" "tw_list_lock s' = tw_list_lock s"
  shows "world_ok s'"
proof -
  note D = world_okD [OF ok]
  have "alike u (tw_pc s u) (tw_pc s' u)" for u by (cases "u = t") (simp_all add: alike_def pc at ended_def)
  note pcs = alikeD [OF this]
  have "relies (tw_pc s' u) = relies (tw_pc s u)" "creating (tw_pc s' u) = creating (tw_pc s u)" for u by (simp_all add: pc at)
  note pcs = pcs this
  have works: "works (tw_pc s' u) = (if u = t then vs else works (tw_pc s u))" for u by (simp add: pc)
  have fields: "tb_lock (tw_obj s' w) = tb_lock (tw_obj s w)" "tb_refcount (tw_obj s' w) = tb_refcount (tw_obj s w)"
    "tb_dead (tw_obj s' w) = tb_dead (tw_obj s w)" "tb_terminated (tw_obj s' w) = tb_terminated (tw_obj s w)"
    "tb_detached (tw_obj s' w) = tb_detached (tw_obj s w)" "tb_joiner (tw_obj s' w) = tb_joiner (tw_obj s w)"
    "tb_ret (tw_obj s' w) = tb_ret (tw_obj s w)" "tb_life (tw_obj s' w) = (if w = v then Freed else tb_life (tw_obj s w))" for w
    by (simp_all add: obj)
  have w: "works (tw_pc s t) = v # vs" by (simp add: at)
  then have v: "v \<notin> tw_threads s" "v \<notin> set (tw_gc s)" "tb_terminated (tw_obj s v)" "v \<notin> set vs" and d: "distinct vs"
    using works_okD(2) [OF ok, of v t] works_okD(1) [OF ok, of t] by auto
  have old: "w \<in> set (works (tw_pc s u)) \<and> w \<noteq> v" if "w \<in> set (works (tw_pc s' u))" for w u
    using that works_okD(3) [OF ok, of v u t] w v(4) unfolding works by (cases "u = t") auto
  have "works_ok s'"
  proof (rule works_okI)
    show "distinct (works (tw_pc s' u))" for u unfolding works using works_okD(1) [OF ok] d by simp
    show "w \<notin> tw_threads s' \<and> w \<notin> set (tw_gc s') \<and> tb_life (tw_obj s' w) = Live \<and> tb_terminated (tw_obj s' w)"
      if "w \<in> set (works (tw_pc s' u))" for w u
      using old [OF that] works_okD(2) [OF ok, of w u] unfolding fields same by simp
    show "u = u'" if "w \<in> set (works (tw_pc s' u))" "w \<in> set (works (tw_pc s' u'))" for w u u'
      using old [OF that(1)] old [OF that(2)] works_okD(3) [OF ok, of w u u'] by blast
  qed
  moreover have "threads_ok s'" using threads_okD [OF ok] v unfolding threads_ok_def same fields by auto
  moreover have "creating_ok s'"
  proof -
    have "tw_pc s v \<noteq> TNone" using own_okD(2) [OF ok, of v] v(3) by (auto simp: ended_def)
    then show ?thesis using D(6) unfolding creating_ok_def pcs fields by metis
  qed
  moreover have "own_ok s' u" for u
  proof -
    have "ended (tw_pc s v)" using own_okD(2) [OF ok, of v] v(3) by simp
    then show ?thesis using D(7) [of u] unfolding own_ok_def Let_def pcs fields same by (metis obj_life.distinct)
  qed
  moreover have "refs_ok s' w" if "tb_life (tw_obj s' w) = Live" for w
    using D(3) [of w] that unfolding refs_ok_def pcs fields by (simp split: if_splits)
  moreover have "place_ok s' u" for u using D(8) [of u] unfolding place_ok_def Let_def pcs fields same by auto
  ultimately show ?thesis using D(1,2) unfolding world_ok_def pcs fields same by blast
qed

lemma joining_relies: "joining pc = Some v \<Longrightarrow> shape_ok t pc \<Longrightarrow> relies pc = Some v"
  by (cases pc) (auto split: thr_next.splits thr_body.splits)

lemma holds_relies: "holds t pc = Some v \<Longrightarrow> shape_ok t pc \<Longrightarrow> relies pc = Some v"
proof (cases pc)
  case (AUnlock w n)
  then show "holds t pc = Some v \<Longrightarrow> shape_ok t pc \<Longrightarrow> ?thesis" by (cases n) auto
next
  case (ALock w b)
  then show "holds t pc = Some v \<Longrightarrow> shape_ok t pc \<Longrightarrow> ?thesis" by (cases b) (auto split: if_splits)
next
  case (ABody w b)
  then show "holds t pc = Some v \<Longrightarrow> shape_ok t pc \<Longrightarrow> ?thesis" by (cases b) (auto split: if_splits)
qed auto

lemma fresh_unused:
  assumes ok: "world_ok s" and v: "tb_life (tw_obj s v) = Unborn"
  shows "tw_pc s v = TNone" "v \<notin> tw_threads s" "v \<notin> set (tw_gc s)" "locks (tw_pc s u) \<noteq> Some v" "relies (tw_pc s u) \<noteq> Some v"
    "holds u (tw_pc s u) \<noteq> Some v" "joining (tw_pc s u) \<noteq> Some v" "result (tw_pc s u) \<noteq> Some (v, r)" "creating (tw_pc s u) \<noteq> Some v"
    "v \<notin> set (works (tw_pc s u))" "tw_pc s u \<noteq> JnSleep v" "tw_pc s u \<noteq> JnRet v"
proof -
  show pc: "tw_pc s v = TNone" by (rule own_okD(5) [OF ok v])
  show th: "v \<notin> tw_threads s" using threads_okD(1) [OF ok, of v] v by auto
  show "v \<notin> set (tw_gc s)" using threads_okD(3) [OF ok, of v] v by auto
  show "locks (tw_pc s u) \<noteq> Some v" using place_okD(5) [OF ok, of u v] v by auto
  show r: "relies (tw_pc s u) \<noteq> Some v" using place_okD(1) [OF ok, of u v] th by auto
  show "holds u (tw_pc s u) \<noteq> Some v" using holds_relies [OF _ own_okD(6) [OF ok, of u]] r by blast
  show "joining (tw_pc s u) \<noteq> Some v" using joining_relies [OF _ own_okD(6) [OF ok, of u]] r by blast
  have "\<not> tb_terminated (tw_obj s v)" using own_okD(2) [OF ok, of v] pc by (simp add: ended_def)
  then show "result (tw_pc s u) \<noteq> Some (v, r)" "tw_pc s u \<noteq> JnRet v"
    using place_okD(4) [OF ok, of u v r] place_okD(3) [OF ok, of u v] by auto
  show "creating (tw_pc s u) \<noteq> Some v" using creating_okD(2) [OF ok, of u v] v by auto
  show "v \<notin> set (works (tw_pc s u))" using works_okD(2) [OF ok, of v u] v by auto
  show "tw_pc s u \<noteq> JnSleep v" using r by auto
qed

lemma world_alloc:
  assumes ok: "world_ok s" and at: "tw_pc s t = CrAlloc args" and v: "tb_life (tw_obj s v) = Unborn"
    and pc: "tw_pc s' = (tw_pc s)(t := CrList args v)" and obj: "tw_obj s' = (tw_obj s)(v := ob)"
    and ob: "tb_life ob = Live" "tb_lock ob = None" "\<not> tb_terminated ob" "tb_refcount ob = 1" "\<not> tb_dead ob"
    and same: "tw_threads s' = tw_threads s" "tw_gc s' = tw_gc s" "tw_list_lock s' = tw_list_lock s"
  shows "world_ok s'"
proof -
  note D = world_okD [OF ok] and F = fresh_unused [OF ok v]
  have "alike u (tw_pc s u) (tw_pc s' u)" for u by (cases "u = t") (simp_all add: alike_def pc at ended_def)
  note pcs = alikeD [OF this]
  have "works (tw_pc s' u) = works (tw_pc s u)" "relies (tw_pc s' u) = relies (tw_pc s u)" for u by (simp_all add: pc at)
  note pcs = pcs this
  have creating: "creating (tw_pc s' u) = (if u = t then Some v else creating (tw_pc s u))" for u by (simp add: pc)
  have other: "tw_obj s' w = tw_obj s w" if "w \<noteq> v" for w using that by (simp add: obj)
  have "works_ok s'"
  proof (rule works_okI)
    show "w \<notin> tw_threads s' \<and> w \<notin> set (tw_gc s') \<and> tb_life (tw_obj s' w) = Live \<and> tb_terminated (tw_obj s' w)"
      if "w \<in> set (works (tw_pc s' u))" for w u
      using works_okD(2) [OF ok, of w u] that F(10) [of u] other [of w] unfolding pcs same by metis
  qed (use works_okD [OF ok] in \<open>unfold pcs, blast+\<close>)
  moreover have "threads_ok s'" using D(4) F(2,3) other unfolding threads_ok_def same by metis
  moreover have "creating_ok s'"
    using D(6) F(1,9) other ob(1) unfolding creating_ok_def creating pcs by (simp add: obj)
  moreover have "own_ok s' u" for u
  proof (cases "u = v")
    case True
    then show ?thesis using F(1) ob own_okD(6) [OF ok, of v] unfolding own_ok_def Let_def pcs by (simp add: obj ended_def)
  qed (use D(7) [of u] other [of u] in \<open>unfold own_ok_def Let_def pcs same, metis\<close>)
  moreover have "refs_ok s' w" if "tb_life (tw_obj s' w) = Live" for w
  proof (cases "w = v")
    case True
    have "{u. holds u (tw_pc s u) = Some v} = {}" using F(6) by blast
    then show ?thesis using ob unfolding refs_ok_def pcs True by (simp add: obj)
  qed (use D(3) [of w] that other [of w] in \<open>unfold refs_ok_def pcs, metis\<close>)
  moreover have "place_ok s' u" for u
  proof -
    show ?thesis
    proof (rule place_okI; unfold pcs same)
      show "w \<in> tw_threads s" if "relies (tw_pc s u) = Some w" for w by (rule place_okD(1) [OF ok that])
      show "tb_joiner (tw_obj s' w) = Some u \<and> \<not> tb_detached (tw_obj s' w)" if "joining (tw_pc s u) = Some w" for w
        using place_okD(2) [OF ok that] that F(7) [of u] other [of w] by (cases "w = v") simp_all
      show "tb_terminated (tw_obj s' w)" if "tw_pc s u = JnRet w" for w
        using place_okD(3) [OF ok that] that F(12) [of u] other [of w] by (cases "w = v") simp_all
      show "tb_terminated (tw_obj s' w) \<and> tb_ret (tw_obj s' w) = r" if "result (tw_pc s u) = Some (w, r)" for w r
        using place_okD(4) [OF ok that] that F(8) [of u r] other [of w] by (cases "w = v") simp_all
      show "tb_life (tw_obj s' w) \<noteq> Unborn" if "locks (tw_pc s u) = Some w" for w
        using place_okD(5) [OF ok that] that F(4) [of u] other [of w] by (cases "w = v") simp_all
      show "tw_pc s w = ExNotify" if "tw_pc s u = JnSleep w" "tb_terminated (tw_obj s' w)" for w
        using place_okD(6) [OF ok that(1)] that F(11) [of u] other [of w] by (cases "w = v") simp_all
    qed
  qed
  moreover have "tb_lock (tw_obj s' w) = Some u \<longleftrightarrow> locks (tw_pc s' u) = Some w" for u w
    using D(2) [of w u] F(4) [of u] ob(2) unfolding pcs by (cases "w = v") (simp_all add: obj)
  ultimately show ?thesis using D(1) unfolding world_ok_def pcs same by blast
qed

lemma world_insert:
  assumes ok: "world_ok s" and at: "tw_pc s t = CrInsert args v" and pc: "tw_pc s' = (tw_pc s)(t := CrUnlist args v)"
    and same: "tw_obj s' = tw_obj s" "tw_threads s' = insert v (tw_threads s)" "tw_gc s' = tw_gc s" "tw_list_lock s' = tw_list_lock s"
  shows "world_ok s'"
proof -
  note D = world_okD [OF ok]
  have "creating (tw_pc s t) = Some v" by (simp add: at)
  note C = creating_okD [OF ok this]
  have new: "\<not> tb_dead (tw_obj s v)" "\<not> tb_terminated (tw_obj s v)"
    using own_okD(1,2) [OF ok, of v] C(1) by (simp_all add: ended_def)
  have "alike u (tw_pc s u) (tw_pc s' u)" for u by (cases "u = t") (simp_all add: alike_def pc at ended_def)
  note pcs = alikeD [OF this]
  have "works (tw_pc s' u) = works (tw_pc s u)" "creating (tw_pc s' u) = creating (tw_pc s u)" for u by (simp_all add: pc at)
  note pcs = pcs this
  have "works_ok s'"
  proof (rule works_okI)
    show "w \<notin> tw_threads s' \<and> w \<notin> set (tw_gc s') \<and> tb_life (tw_obj s' w) = Live \<and> tb_terminated (tw_obj s' w)"
      if "w \<in> set (works (tw_pc s' u))" for w u
      using works_okD(2) [OF ok, of w u] that new(2) unfolding pcs same by auto
  qed (use works_okD [OF ok] in \<open>unfold pcs, blast+\<close>)
  moreover have "threads_ok s'" using D(4) C(2) new(1) unfolding threads_ok_def same by auto
  moreover have "creating_ok s'" using D(6) unfolding creating_ok_def pcs same by blast
  moreover have "own_ok s' u" for u using D(7) [of u] unfolding own_ok_def Let_def pcs same by blast
  moreover have "refs_ok s' w" if "tb_life (tw_obj s' w) = Live" for w using D(3) [of w] that unfolding refs_ok_def pcs same by blast
  moreover have "place_ok s' u" for u
  proof -
    have "w \<in> tw_threads s'" if "relies (tw_pc s' u) = Some w" for w
      using that place_okD(1) [OF ok, of u w] by (auto simp: pc same split: if_splits)
    then show ?thesis using D(8) [of u] unfolding place_ok_def Let_def pcs same by blast
  qed
  ultimately show ?thesis using D(1,2) unfolding world_ok_def pcs same by blast
qed

lemma world_start:
  assumes ok: "world_ok s" and at: "tw_pc s t = CrStart args v" and pc: "tw_pc s' = (tw_pc s)(v := TIdle, t := pc')"
    and pc': "pc' = CrAffinity v \<or> pc' = TReturned 0 (VThread v)"
    and same: "tw_obj s' = tw_obj s" "tw_threads s' = tw_threads s" "tw_gc s' = tw_gc s" "tw_list_lock s' = tw_list_lock s"
  shows "world_ok s'"
proof -
  note D = world_okD [OF ok]
  have c: "creating (tw_pc s t) = Some v" by (simp add: at)
  note C = creating_okD [OF ok c]
  have vt: "v \<noteq> t" using C(1) at by auto
  have v: "v \<in> tw_threads s" by (rule place_okD(1) [OF ok, of t]) (simp add: at)
  have pcs: "locks (tw_pc s' u) = locks (tw_pc s u)" "lists (tw_pc s' u) = lists (tw_pc s u)" "holds u (tw_pc s' u) = holds u (tw_pc s u)"
    "joining (tw_pc s' u) = joining (tw_pc s u)" "result (tw_pc s' u) = result (tw_pc s u)" "marked (tw_pc s' u) = marked (tw_pc s u)"
    "ended (tw_pc s' u) = ended (tw_pc s u)" "shape_ok u (tw_pc s' u) = shape_ok u (tw_pc s u)" "works (tw_pc s' u) = works (tw_pc s u)"
    "relies (tw_pc s' u) = (if u = t then None else relies (tw_pc s u))"
    "creating (tw_pc s' u) = (if u = t then None else creating (tw_pc s u))"
    "tw_pc s' u = JnRet w \<longleftrightarrow> tw_pc s u = JnRet w" "tw_pc s' u = JnSleep w \<longleftrightarrow> tw_pc s u = JnSleep w"
    "tw_pc s' u = ExNotify \<longleftrightarrow> tw_pc s u = ExNotify" for u w
    using vt C(1) pc' by (cases "u = t"; cases "u = v"; force simp: pc at ended_def)+
  have "works_ok s'" using D(5) unfolding works_ok_def pcs same by blast
  moreover have "threads_ok s'" using D(4) unfolding threads_ok_def same by blast
  moreover have "creating_ok s'"
  proof -
    have "tw_pc s' w = TNone" if "creating (tw_pc s u) = Some w" "u \<noteq> t" for u w
    proof -
      have "w \<noteq> v" using C(3) [of u] that by auto
      moreover have "w \<noteq> t" using creating_okD(1) [OF ok that(1)] at by auto
      ultimately show ?thesis using creating_okD(1) [OF ok that(1)] by (simp add: pc)
    qed
    then show ?thesis using D(6) unfolding creating_ok_def pcs same by (metis option.distinct(1))
  qed
  moreover have "own_ok s' u" for u
  proof (cases "u = v")
    case True
    then show ?thesis using D(7) [of v] v threads_okD(1) [OF ok v] unfolding own_ok_def Let_def pcs same by simp
  next
    case False
    then have "tw_pc s' u = TNone \<longleftrightarrow> tw_pc s u = TNone" using pc' at by (auto simp: pc)
    then show ?thesis using D(7) [of u] unfolding own_ok_def Let_def pcs same by blast
  qed
  moreover have "refs_ok s' w" if "tb_life (tw_obj s' w) = Live" for w using D(3) [of w] that unfolding refs_ok_def pcs same by blast
  moreover have "place_ok s' u" for u using D(8) [of u] unfolding place_ok_def Let_def pcs same by simp
  ultimately show ?thesis using D(1,2) unfolding world_ok_def pcs same by blast
qed

lemma world_notify:
  assumes ok: "world_ok s" and at: "tw_pc s t = ExNotify"
    and pc: "\<And>u. tw_pc s' u = (if u = t then ExNative else if tw_pc s u = JnSleep t then JnCompare t else tw_pc s u)"
    and same: "tw_obj s' = tw_obj s" "tw_threads s' = tw_threads s" "tw_gc s' = tw_gc s" "tw_list_lock s' = tw_list_lock s"
  shows "world_ok s'"
proof -
  note D = world_okD [OF ok]
  have pcs: "locks (tw_pc s' u) = locks (tw_pc s u)" "lists (tw_pc s' u) = lists (tw_pc s u)" "holds u (tw_pc s' u) = holds u (tw_pc s u)"
    "joining (tw_pc s' u) = joining (tw_pc s u)" "result (tw_pc s' u) = result (tw_pc s u)" "marked (tw_pc s' u) = marked (tw_pc s u)"
    "ended (tw_pc s' u) = ended (tw_pc s u)" "shape_ok u (tw_pc s' u) = shape_ok u (tw_pc s u)" "works (tw_pc s' u) = works (tw_pc s u)"
    "relies (tw_pc s' u) = relies (tw_pc s u)" "creating (tw_pc s' u) = creating (tw_pc s u)"
    "tw_pc s' u = TNone \<longleftrightarrow> tw_pc s u = TNone" "tw_pc s' u = JnRet w \<longleftrightarrow> tw_pc s u = JnRet w" for u w
    using at by (cases "u = t"; cases "tw_pc s u = JnSleep t"; simp add: pc ended_def)+
  have "works_ok s'" using D(5) unfolding works_ok_def pcs same by blast
  moreover have "threads_ok s'" using D(4) unfolding threads_ok_def same by blast
  moreover have "creating_ok s'" using D(6) unfolding creating_ok_def pcs same by blast
  moreover have "own_ok s' u" for u using D(7) [of u] unfolding own_ok_def Let_def pcs same by blast
  moreover have "refs_ok s' w" if "tb_life (tw_obj s' w) = Live" for w using D(3) [of w] that unfolding refs_ok_def pcs same by blast
  moreover have "place_ok s' u" for u
  proof -
    have "tw_pc s' w = ExNotify" if "tw_pc s' u = JnSleep w" "tb_terminated (tw_obj s w)" for w
    proof -
      have "tw_pc s u = JnSleep w" "w \<noteq> t" using that(1) by (auto simp: pc split: if_splits)
      then show ?thesis using place_okD(6) [OF ok, of u w] that(2) by (simp add: pc)
    qed
    then show ?thesis using D(8) [of u] unfolding place_ok_def Let_def pcs same by blast
  qed
  ultimately show ?thesis using D(1,2) unfolding world_ok_def pcs same by blast
qed

end
