(* ===== verification/Orbit_ThreadSteps.thy ===== *)
theory Orbit_ThreadSteps
  imports Orbit_ThreadInv
begin

text \<open>Every step in the life of threads keeps its invariant; the properties that follow.\<close>

subsection \<open>Steps keep the invariant\<close>

lemma tw_goto_simps [simp]:
  "tw_obj (tw_goto t pc s) = tw_obj s" "tw_pc (tw_goto t pc s) = (tw_pc s)(t := pc)" "tw_threads (tw_goto t pc s) = tw_threads s"
  "tw_gc (tw_goto t pc s) = tw_gc s" "tw_list_lock (tw_goto t pc s) = tw_list_lock s"
  by (simp_all add: tw_goto_def)

lemma with_obj_simps [simp]:
  "tw_obj (with_obj v f s) = (tw_obj s)(v := f (tw_obj s v))" "tw_pc (with_obj v f s) = tw_pc s" "tw_threads (with_obj v f s) = tw_threads s"
  "tw_gc (with_obj v f s) = tw_gc s" "tw_list_lock (with_obj v f s) = tw_list_lock s"
  by (simp_all add: with_obj_def)

text \<open>What holds of the acting thread at its place.\<close>

lemma at_facts:
  assumes ok: "world_ok s" and at: "tw_pc s t = pc"
  shows "tb_dead (tw_obj s t) = marked pc" "tb_terminated (tw_obj s t) = ended pc" "shape_ok t pc"
    "tw_list_lock s = Some t \<longleftrightarrow> lists pc" "tb_lock (tw_obj s v) = Some t \<longleftrightarrow> locks pc = Some v"
    "relies pc = Some v \<Longrightarrow> v \<in> tw_threads s \<and> tb_life (tw_obj s v) = Live"
    "joining pc = Some v \<Longrightarrow> tb_joiner (tw_obj s v) = Some t \<and> \<not> tb_detached (tw_obj s v)"
    "result pc = Some (v, r) \<Longrightarrow> tb_terminated (tw_obj s v) \<and> tb_ret (tw_obj s v) = r"
  using own_okD(1,2,6) [OF ok, of t] world_okD(1) [OF ok, of t] world_okD(2) [OF ok, of v t] place_okD(1,2,4) [OF ok, of t]
    threads_okD(1) [OF ok, of v] unfolding at by simp_all

lemma find_steps_ok:
  assumes ok: "world_ok s" and at: "tw_pc s t = pc" and step: "thr_step t alloc pc s = Some s'"
    and pc: "pc \<in> {FList v u, FLook v u, FLock v u, FDead v u, FUnlist v u found}"
  shows "world_ok s'"
proof -
  note F = at_facts [OF ok at] and defs = moves_ok_def place_after_def ended_def local_ok_def take_lock_def drop_lock_def
  consider "pc = FList v u" | "pc = FLook v u" | "pc = FLock v u" | "pc = FDead v u" | "pc = FUnlist v u found" using pc by blast
  then show ?thesis
  proof cases
    case 1
    then have s': "s' = tw_goto t (FLook v u) (s\<lparr>tw_list_lock := Some t\<rparr>)" "tw_list_lock s = None" using step by (simp_all split: if_splits)
    show ?thesis unfolding s'(1) by (rule world_goto [OF ok, of _ t "FLook v u"]) (use F(1-3) s'(2) at 1 in \<open>simp_all add: defs\<close>)
  next
    case 2
    then have s': "s' = tw_goto t (if v \<in> tw_threads s then FLock v u else FUnlist v u False) s" using step by simp
    show ?thesis unfolding s' by (rule world_goto [OF ok, of _ t "if v \<in> tw_threads s then FLock v u else FUnlist v u False"])
      (use F(1-4) at 2 in \<open>auto simp: defs\<close>)
  next
    case 3
    then have s': "s' = tw_goto t (FDead v u) (with_obj v (take_lock t) s)" "tb_lock (tw_obj s v) = None" using step by (simp_all split: if_splits)
    show ?thesis unfolding s'(1) by (rule world_local [OF ok, of _ t "FDead v u" v "take_lock t (tw_obj s v)"])
      (use F(1-4) F(6) [of v] s'(2) at 3 in \<open>auto simp: defs\<close>)
  next
    case 4
    show ?thesis
    proof (cases "\<not> include_dead u \<and> tb_dead (tw_obj s v)")
      case True
      then have s': "s' = tw_goto t (FUnlist v u False) (with_obj v drop_lock s)" using step 4 by simp
      show ?thesis unfolding s' by (rule world_local [OF ok, of _ t "FUnlist v u False" v "drop_lock (tw_obj s v)"])
        (use F(1-4) F(6) [of v] at 4 in \<open>auto simp: defs\<close>)
    next
      case False
      then have s': "s' = tw_goto t (FUnlist v u True) s" using step 4 by auto
      show ?thesis unfolding s' by (rule world_goto [OF ok, of _ t "FUnlist v u True"]) (use F(1-4) F(6) [of v] at 4 in \<open>simp_all add: defs\<close>)
    qed
  next
    case 5
    show ?thesis
    proof (cases found)
      case True
      then have s': "s' = tw_goto t (ABody v (BFind u)) (s\<lparr>tw_list_lock := None\<rparr>)" using step 5 by simp
      show ?thesis unfolding s' by (rule world_goto [OF ok, of _ t "ABody v (BFind u)"]) (use F(1-4) F(6) [of v] at 5 True in \<open>simp_all add: defs\<close>)
    next
      case False
      then have s': "s' = tw_goto t (TReturned POSIX_ESRCH VNone) (s\<lparr>tw_list_lock := None\<rparr>)" using step 5 by simp
      show ?thesis unfolding s' by (rule world_goto [OF ok, of _ t "TReturned POSIX_ESRCH VNone"]) (use F(1-4) at 5 False in \<open>simp_all add: defs\<close>)
    qed
  qed
qed

text \<open>A use changes nothing but the attributes and the name.\<close>

lemma use_body_keeps:
  assumes "use_body u ob = (x, ob1)"
  shows "joined x = None" "tb_life ob1 = tb_life ob" "tb_lock ob1 = tb_lock ob" "tb_terminated ob1 = tb_terminated ob" "tb_refcount ob1 = tb_refcount ob"
    "tb_dead ob1 = tb_dead ob" "tb_detached ob1 = tb_detached ob" "tb_joiner ob1 = tb_joiner ob" "tb_ret ob1 = tb_ret ob"
  using assms by (cases u; auto split: if_splits)+

lemma set_sched_keeps:
  assumes "find_body t v (USetSched policy prio) ob = (pc', ob1)"
  shows "pc' = AUnlock v (NReturn 0 VNone)" "tb_life ob1 = tb_life ob" "tb_lock ob1 = tb_lock ob" "tb_terminated ob1 = tb_terminated ob"
    "tb_refcount ob1 = tb_refcount ob" "tb_dead ob1 = tb_dead ob" "tb_detached ob1 = tb_detached ob" "tb_joiner ob1 = tb_joiner ob"
    "tb_ret ob1 = tb_ret ob"
  using assms by (auto simp: Let_def split: if_splits)

lemma body_step_ok:
  assumes ok: "world_ok s" and at: "tw_pc s t = ABody v b" and step: "thr_step t alloc (ABody v b) s = Some s'"
  shows "world_ok s'"
proof -
  note F = at_facts [OF ok at] and defs = moves_ok_def place_after_def ended_def local_ok_def add_refs_def
  have others: "tb_joiner (tw_obj s v) = Some u" if "joining (tw_pc s u) = Some v" for u using place_okD(2) [OF ok that] by simp
  obtain pc' ob where b: "lock_body t v b (tw_obj s v) = (pc', ob)" by force
  then have s': "s' = tw_goto t pc' (with_obj v (\<lambda>_. ob) s)" using step by simp
  have go: "world_ok s'" if "local_ok s t pc' v ob" "moves_ok t (ABody v b) pc'" "place_after s t pc' ((tw_obj s)(v := ob))" "\<not> lists pc'"
    using world_local [OF ok, of s' t pc' v ob] that at by (simp add: s')
  have lock: "tb_lock (tw_obj s v) = Some t" and v: "v \<in> tw_threads s" using F(5) [of v] F(6) [of v] by simp_all
  show ?thesis
  proof (cases b)
    case (BFind u)
    show ?thesis
    proof (cases u)
      case (UJoin timed)
      consider "pc' = AUnlock v (NReturn POSIX_EINVAL VNone)" "ob = tw_obj s v" | "pc' = AUnlock v (NReturn POSIX_ENOTSUP VNone)" "ob = tw_obj s v"
        | "pc' = AUnlock v (NJoin v timed)" "ob = (tw_obj s v)\<lparr>tb_joiner := Some t\<rparr>" "tb_joiner (tw_obj s v) = None" "\<not> tb_detached (tw_obj s v)"
        using b unfolding BFind UJoin by (auto split: if_splits)
      then show ?thesis
      proof cases
        case 3
        then have "joining (tw_pc s u) \<noteq> Some v" for u using others [of u] by auto
        then show ?thesis using F(1-3) lock v at BFind 3 by (intro go) (auto simp: defs)
      qed (use F(1-3) lock v at BFind in \<open>intro go; auto simp: defs\<close>)+
    next
      case UDetach
      consider "pc' = AUnlock v (NReturn POSIX_EINVAL VNone)" "ob = tw_obj s v"
        | "pc' = TcTest v (NReturn 0 VNone)" "ob = (tw_obj s v)\<lparr>tb_detached := True\<rparr>" "tb_joiner (tw_obj s v) = None"
        using b unfolding BFind UDetach by (auto split: if_splits)
      then show ?thesis
      proof cases
        case 2
        then have "joining (tw_pc s u) \<noteq> Some v" for u using others [of u] by auto
        then show ?thesis using F(1-3) lock v at BFind 2 by (intro go) (auto simp: defs)
      qed (use F(1-3) lock v at BFind in \<open>intro go; auto simp: defs\<close>)
    next
      case UGetAttr
      then show ?thesis using b F(1-3) lock v at BFind by (intro go) (auto simp: defs Let_def)
    next
      case (USetSched policy prio)
      have "find_body t v (USetSched policy prio) (tw_obj s v) = (pc', ob)" using b BFind USetSched by simp
      note K = set_sched_keeps [OF this]
      show ?thesis using F(1-3) lock v at BFind K by (intro go) (auto simp: defs)
    qed (use b F(1-3) lock v at BFind in \<open>intro go; auto simp: defs takes_ref_def\<close>)+
  next
    case (BUse u)
    obtain x ob1 where u: "use_body u (tw_obj s v) = (x, ob1)" by force
    note K = use_body_keeps [OF u]
    have e: "pc' = AUnlock v (if v = t then NReturn 0 x else NDel v x)" "ob = ob1" using b BUse u by auto
    show ?thesis using F(1-3) lock v at BUse K unfolding e by (intro go [unfolded e]) (auto simp: defs)
  next
    case (BDel x)
    then show ?thesis using b F(1-3) F(8) lock v at by (intro go) (auto simp: defs)
  next
    case (BJoined ret)
    then have "u = t" if "joining (tw_pc s u) = Some v" for u using others [OF that] others [of t] at by simp
    then show ?thesis using b F(1-3) F(7) [of v] F(8) [of v ret] lock v at BJoined by (intro go) (auto simp: defs)
  next
    case BExit
    then show ?thesis using b F(1-3) lock v at by (intro go) (auto simp: defs)
  qed
qed

lemma resume_facts:
  assumes "next_holds n \<noteq> Some t"
  shows "lists (resume n) = False" "locks (resume n) = None" "holds t (resume n) = next_holds n" "relies (resume n) = next_target n"
    "joining (resume n) = (case n of NJoin v timed \<Rightarrow> Some v | _ \<Rightarrow> None)" "result (resume n) = next_result n"
    "marked (resume n) = (n = NExit)" "ended (resume n) = False" "creating (resume n) = None" "works (resume n) = []"
    "resume n \<noteq> TNone" "resume n \<noteq> JnRet w" "resume n \<noteq> JnSleep w" "resume n \<noteq> ExNotify" "shape_ok t (resume n)"
  using assms by (cases n; simp add: resume_def ended_def)+

lemma lock_steps_ok:
  assumes ok: "world_ok s" and at: "tw_pc s t = pc" and step: "thr_step t alloc pc s = Some s'"
    and pc: "(\<exists>v b. pc = ALock v b) \<or> (\<exists>v n. pc = AUnlock v n) \<or> (\<exists>u. pc = ASelf u)"
  shows "world_ok s'"
proof -
  note F = at_facts [OF ok at] and defs = moves_ok_def place_after_def ended_def local_ok_def take_lock_def drop_lock_def
  consider v b where "pc = ALock v b" | v n where "pc = AUnlock v n" | u where "pc = ASelf u" using pc by blast
  then show ?thesis
  proof cases
    case 1
    then have s': "s' = tw_goto t (ABody v b) (with_obj v (take_lock t) s)" "tb_lock (tw_obj s v) = None" using step by (simp_all split: if_splits)
    show ?thesis unfolding s'(1) by (rule world_local [OF ok, of _ t "ABody v b" v "take_lock t (tw_obj s v)"])
      (use F(1-4) F(6) [of v] F(7,8) s'(2) at 1 in \<open>auto simp: defs split: thr_body.splits\<close>)
  next
    case 2
    then have s': "s' = tw_goto t (resume n) (with_obj v drop_lock s)" using step by simp
    have n: "next_holds n \<noteq> Some t" "n \<noteq> NExit" "next_target n = None \<or> next_target n = Some v" using F(3) 2 by auto
    note R = resume_facts [OF n(1)]
    show ?thesis unfolding s' by (rule world_local [OF ok, of _ t "resume n" v "drop_lock (tw_obj s v)"])
      (use F(1-4) F(5,6) [of v] F(7,8) R n at 2 in \<open>auto simp: defs split: thr_next.splits\<close>)
  next
    case 3
    obtain x ob where u: "use_body u (tw_obj s t) = (x, ob)" by force
    note K = use_body_keeps [OF u]
    have s': "s' = tw_goto t (TReturned 0 x) (with_obj t (\<lambda>_. ob) s)" using step 3 u by simp
    show ?thesis unfolding s' by (rule world_local [OF ok, of _ t "TReturned 0 x" t ob]) (use F(1-4) F(5) [of t] K at 3 in \<open>auto simp: defs\<close>)
  qed
qed

lemma collect_steps_ok:
  assumes ok: "world_ok s" and at: "tw_pc s t = pc" and step: "thr_step t alloc pc s = Some s'"
    and pc: "pc \<in> {TcTest v n, TcList v n, TcLock v n, TcTake v n, TcUnlist v n c, TcUnlock v n c}"
  shows "world_ok s'"
proof -
  note F = at_facts [OF ok at] and defs = moves_ok_def place_after_def ended_def local_ok_def take_lock_def drop_lock_def add_refs_def
  have target: "next_target n = None" using F(3) pc by auto
  then have n: "next_holds n = None" "joining (AUnlock v n) = None" by (cases n; simp)+
  then have R: "lists (resume n) = False" "locks (resume n) = None" "holds t (resume n) = None" "relies (resume n) = None"
    "joining (resume n) = None" "result (resume n) = next_result n" "marked (resume n) = (n = NExit)" "ended (resume n) = False"
    "creating (resume n) = None" "works (resume n) = []" "resume n \<noteq> TNone" "\<forall>w. resume n \<noteq> JnRet w" "\<forall>w. resume n \<noteq> JnSleep w"
    "resume n \<noteq> ExNotify" "shape_ok t (resume n)"
    using resume_facts [of n t] target by (simp_all split: thr_next.splits)
  consider "pc = TcTest v n" | "pc = TcList v n" | "pc = TcLock v n" | "pc = TcTake v n" | "pc = TcUnlist v n c" | "pc = TcUnlock v n c"
    using pc by blast
  then show ?thesis
  proof cases
    case 1
    show ?thesis
    proof (cases "ShouldCollect (tw_obj s v)")
      case True
      then have s': "s' = tw_goto t (TcList v n) (with_obj v (drop_lock \<circ> add_refs 1) s)" using step 1 by simp
      show ?thesis unfolding s' by (rule world_local [OF ok, of _ t "TcList v n" v "drop_lock (add_refs 1 (tw_obj s v))"])
        (use F(1-4) F(5,6) [of v] F(8) target at 1 in \<open>auto simp: defs\<close>)
    next
      case False
      then have s': "s' = tw_goto t (resume n) (with_obj v drop_lock s)" using step 1 by simp
      show ?thesis unfolding s' by (rule world_local [OF ok, of _ t "resume n" v "drop_lock (tw_obj s v)"])
        (use F(1-4) F(5,6) [of v] F(8) R at 1 in \<open>auto simp: defs\<close>)
    qed
  next
    case 2
    then have s': "s' = tw_goto t (TcLock v n) (s\<lparr>tw_list_lock := Some t\<rparr>)" "tw_list_lock s = None" using step by (simp_all split: if_splits)
    show ?thesis unfolding s'(1) by (rule world_goto [OF ok, of _ t "TcLock v n"])
      (use F(1-3) F(6) [of v] F(8) target s'(2) at 2 in \<open>simp_all add: defs\<close>)
  next
    case 3
    then have s': "s' = tw_goto t (TcTake v n) (with_obj v (take_lock t) s)" "tb_lock (tw_obj s v) = None" using step by (simp_all split: if_splits)
    show ?thesis unfolding s'(1) by (rule world_local [OF ok, of _ t "TcTake v n" v "take_lock t (tw_obj s v)"])
      (use F(1-4) F(6) [of v] F(8) target s'(2) at 3 in \<open>auto simp: defs\<close>)
  next
    case 4
    let ?s = "tw_goto t (TcUnlist v n False) (with_obj v (add_refs (- 1)) s)"
    have ok1: "world_ok ?s" by (rule world_local [OF ok, of _ t "TcUnlist v n False" v "add_refs (- 1) (tw_obj s v)"])
        (use F(1-4) F(5,6) [of v] F(8) target at 4 in \<open>auto simp: defs\<close>)
    show ?thesis
    proof (cases "ShouldCollect (add_refs (- 1) (tw_obj s v))")
      case True
      then have s': "s' = tw_goto t (TcUnlist v n True) ((with_obj v (add_refs (- 1)) s)\<lparr>tw_threads := tw_threads s - {v}, tw_gc := tw_gc s @ [v]\<rparr>)"
        using step 4 by (simp add: Let_def)
      show ?thesis by (rule world_collect [OF ok1, of t v n]) (use True in \<open>simp_all add: s'\<close>)
    next
      case False
      then have "s' = ?s" using step 4 by (simp add: Let_def)
      then show ?thesis using ok1 by simp
    qed
  next
    case 5
    then have s': "s' = tw_goto t (TcUnlock v n c) (s\<lparr>tw_list_lock := None\<rparr>)" using step by simp
    show ?thesis unfolding s' by (rule world_goto [OF ok, of _ t "TcUnlock v n c"])
      (use F(1-3) F(6) [of v] F(8) target at 5 in \<open>simp_all add: defs\<close>)
  next
    case 6
    then have s': "s' = tw_goto t (resume n) (with_obj v drop_lock s)" using step by simp
    show ?thesis unfolding s' by (rule world_local [OF ok, of _ t "resume n" v "drop_lock (tw_obj s v)"])
      (use F(1-4) F(5) [of v] F(8) R at 6 in \<open>auto simp: defs\<close>)
  qed
qed

lemma exit_steps_ok:
  assumes ok: "world_ok s" and at: "tw_pc s t = pc" and step: "thr_step t alloc pc s = Some s'"
    and pc: "(\<exists>ret. pc = ExRet ret) \<or> pc \<in> {ExActive, ExStore, ExNotify, ExNative}"
  shows "world_ok s'"
proof -
  note F = at_facts [OF ok at] and defs = moves_ok_def place_after_def ended_def local_ok_def
  have mine: "t \<in> tw_threads s" if "\<not> marked pc" using own_okD(3) [OF ok, of t] that at pc by auto
  consider ret where "pc = ExRet ret" | "pc = ExActive" | "pc = ExStore" | "pc = ExNotify" | "pc = ExNative" using pc by blast
  then show ?thesis
  proof cases
    case 1
    then have s': "s' = tw_goto t ExActive (with_obj t (\<lambda>ob. ob\<lparr>tb_ret := ret\<rparr>) s)" using step by simp
    show ?thesis unfolding s' by (rule world_local [OF ok, of _ t ExActive t "(tw_obj s t)\<lparr>tb_ret := ret\<rparr>"])
      (use F(1-4) F(5) [of t] at 1 in \<open>auto simp: defs\<close>)
  next
    case 2
    then have s': "s' = tw_goto t (if tw_active s = 1 then TAborted else ALock t BExit) (s\<lparr>tw_active := tw_active s - 1\<rparr>)" using step by simp
    show ?thesis unfolding s' by (rule world_goto [OF ok, of _ t "if tw_active s = 1 then TAborted else ALock t BExit"])
      (use F(1-3) mine at 2 in \<open>auto simp: defs split: if_splits\<close>)
  next
    case 3
    then have s': "s' = tw_goto t ExNotify (with_obj t (\<lambda>ob. ob\<lparr>tb_terminated := True\<rparr>) s)" using step by simp
    show ?thesis unfolding s' by (rule world_local [OF ok, of _ t ExNotify t "(tw_obj s t)\<lparr>tb_terminated := True\<rparr>"])
      (use F(1-4) F(5) [of t] at 3 in \<open>auto simp: defs\<close>)
  next
    case 4
    then have s': "s' = tw_goto t ExNative (wake_joiners t s)" using step by simp
    show ?thesis by (rule world_notify [OF ok, of t]) (use at 4 in \<open>simp_all add: s' wake_joiners_def\<close>)
  next
    case 5
    then have s': "s' = tw_goto t TGone s" using step by simp
    show ?thesis unfolding s' by (rule world_goto [OF ok, of _ t TGone]) (use F(1-3) at 5 in \<open>simp_all add: defs\<close>)
  qed
qed

lemma join_steps_ok:
  assumes ok: "world_ok s" and at: "tw_pc s t = pc" and step: "thr_step t alloc pc s = Some s'"
    and pc: "pc \<in> {JnTest v timed, JnCompare v, JnRet v}"
  shows "world_ok s'"
proof -
  note F = at_facts [OF ok at] and defs = moves_ok_def place_after_def ended_def
  consider "pc = JnTest v timed" | "pc = JnCompare v" | "pc = JnRet v" using pc by blast
  then show ?thesis
  proof cases
    case 1
    let ?pc = "if tb_terminated (tw_obj s v) then JnRet v else if timed then TAborted else JnCompare v"
    have s': "s' = tw_goto t ?pc s" using step 1 by simp
    show ?thesis unfolding s' by (rule world_goto [OF ok, of _ t ?pc]) (use F(1-3) F(6,7) [of v] at 1 in \<open>auto simp: defs split: if_splits\<close>)
  next
    case 2
    let ?pc = "if tb_terminated (tw_obj s v) then JnTest v False else JnSleep v"
    have s': "s' = tw_goto t ?pc s" using step 2 by simp
    show ?thesis unfolding s' by (rule world_goto [OF ok, of _ t ?pc]) (use F(1-3) F(6,7) [of v] at 2 in \<open>auto simp: defs split: if_splits\<close>)
  next
    case 3
    let ?pc = "ALock v (BJoined (tb_ret (tw_obj s v)))"
    have s': "s' = tw_goto t ?pc s" using step 3 by simp
    have "tb_terminated (tw_obj s v)" using place_okD(3) [OF ok, of t v] at 3 by simp
    then show ?thesis unfolding s' by (rule_tac world_goto [OF ok, of _ t ?pc]) (use F(1-3) F(6,7) [of v] at 3 in \<open>auto simp: defs\<close>)
  qed
qed

lemma gc_steps_ok:
  assumes ok: "world_ok s" and at: "tw_pc s t = pc" and step: "thr_step t alloc pc s = Some s'"
    and pc: "pc \<in> {CrGc args, ClList args, ClScan args, ClUnlist args vs, ClFree args vs}"
  shows "world_ok s'"
proof -
  note F = at_facts [OF ok at] and defs = moves_ok_def place_after_def ended_def
  consider "pc = CrGc args" | "pc = ClList args" | "pc = ClScan args" | "pc = ClUnlist args vs" | "pc = ClFree args vs" using pc by blast
  then show ?thesis
  proof cases
    case 1
    let ?pc = "if GcThreshold \<le> length (tw_gc s) then ClList args else CrAlloc args"
    have s': "s' = tw_goto t ?pc s" using step 1 by simp
    show ?thesis unfolding s' by (rule world_goto [OF ok, of _ t ?pc]) (use F(1-3) at 1 in \<open>auto simp: defs split: if_splits\<close>)
  next
    case 2
    then have s': "s' = tw_goto t (ClScan args) (s\<lparr>tw_list_lock := Some t\<rparr>)" "tw_list_lock s = None" using step by (simp_all split: if_splits)
    show ?thesis unfolding s'(1) by (rule world_goto [OF ok, of _ t "ClScan args"]) (use F(1-3) s'(2) at 2 in \<open>simp_all add: defs\<close>)
  next
    case 3
    let ?P = "\<lambda>v. tb_terminated (tw_obj s v)"
    have s': "s' = tw_goto t (ClUnlist args (filter ?P (tw_gc s))) (s\<lparr>tw_gc := filter (Not \<circ> ?P) (tw_gc s)\<rparr>)"
      using step 3 by (simp add: Let_def)
    show ?thesis by (rule world_scan [OF ok, of t args _ ?P]) (use at 3 in \<open>simp_all add: s'\<close>)
  next
    case 4
    then have s': "s' = tw_goto t (ClFree args vs) (s\<lparr>tw_list_lock := None\<rparr>)" using step by simp
    show ?thesis unfolding s' by (rule world_goto [OF ok, of _ t "ClFree args vs"]) (use F(1-3) at 4 in \<open>simp_all add: defs\<close>)
  next
    case 5
    show ?thesis
    proof (cases vs)
      case Nil
      then have s': "s' = tw_goto t (CrAlloc args) s" using step 5 by simp
      show ?thesis unfolding s' by (rule world_goto [OF ok, of _ t "CrAlloc args"]) (use F(1-3) at 5 Nil in \<open>simp_all add: defs\<close>)
    next
      case (Cons v vs')
      then have s': "s' = tw_goto t (ClFree args vs') (with_obj v (\<lambda>ob. ob\<lparr>tb_life := Freed\<rparr>) s)" using step 5 by simp
      show ?thesis by (rule world_free [OF ok, of t args v vs']) (use at 5 Cons in \<open>simp_all add: s'\<close>)
    qed
  qed
qed

lemma new_obj_simps:
  "tb_life (new_obj args cur a) = Live" "tb_lock (new_obj args cur a) = None" "tb_terminated (new_obj args cur a) = False"
  "tb_refcount (new_obj args cur a) = 1" "tb_dead (new_obj args cur a) = False"
  by (simp_all add: new_obj_def Let_def)

lemma create_steps_ok:
  assumes ok: "world_ok s" and at: "tw_pc s t = pc" and step: "thr_step t alloc pc s = Some s'"
    and pc: "pc \<in> {CrAlloc args, CrList args v, CrInsert args v, CrUnlist args v, CrActive args v, CrStart args v, CrAffinity v}"
  shows "world_ok s'"
proof -
  note F = at_facts [OF ok at] and defs = moves_ok_def place_after_def ended_def
  consider "pc = CrAlloc args" | "pc = CrList args v" | "pc = CrInsert args v" | "pc = CrUnlist args v" | "pc = CrActive args v"
    | "pc = CrStart args v" | "pc = CrAffinity v" using pc by blast
  then show ?thesis
  proof cases
    case 1
    consider "s' = tw_goto t (TReturned POSIX_EAGAIN VNone) s"
      | w a where "tb_life (tw_obj s w) = Unborn" "s' = tw_goto t (CrList args w) (with_obj w (\<lambda>_. new_obj args (tb_attr (tw_obj s t)) a) s)"
      using step 1 by (auto split: option.splits prod.splits if_splits)
    then show ?thesis
    proof cases
      case 1
      show ?thesis unfolding 1 by (rule world_goto [OF ok, of _ t "TReturned POSIX_EAGAIN VNone"])
        (use F(1-3) at \<open>pc = CrAlloc args\<close> in \<open>simp_all add: defs\<close>)
    next
      case 2
      show ?thesis by (rule world_alloc [OF ok, of t args w _ "new_obj args (tb_attr (tw_obj s t)) a"])
        (use 2 at \<open>pc = CrAlloc args\<close> in \<open>simp_all add: new_obj_simps\<close>)
    qed
  next
    case 2
    then have s': "s' = tw_goto t (CrInsert args v) (s\<lparr>tw_list_lock := Some t\<rparr>)" "tw_list_lock s = None" using step by (simp_all split: if_splits)
    show ?thesis unfolding s'(1) by (rule world_goto [OF ok, of _ t "CrInsert args v"]) (use F(1-3) s'(2) at 2 in \<open>simp_all add: defs\<close>)
  next
    case 3
    then have s': "s' = tw_goto t (CrUnlist args v) (s\<lparr>tw_threads := insert v (tw_threads s)\<rparr>)" using step by simp
    show ?thesis by (rule world_insert [OF ok, of t args v]) (use at 3 in \<open>simp_all add: s'\<close>)
  next
    case 4
    then have s': "s' = tw_goto t (CrActive args v) (s\<lparr>tw_list_lock := None\<rparr>)" using step by simp
    show ?thesis unfolding s' by (rule world_goto [OF ok, of _ t "CrActive args v"]) (use F(1-3) F(6) [of v] at 4 in \<open>simp_all add: defs\<close>)
  next
    case 5
    then have s': "s' = tw_goto t (CrStart args v) (s\<lparr>tw_active := tw_active s + 1\<rparr>)" using step by simp
    show ?thesis unfolding s' by (rule world_goto [OF ok, of _ t "CrStart args v"]) (use F(1-3) F(6) [of v] at 5 in \<open>simp_all add: defs\<close>)
  next
    case 6
    let ?pc = "case fst args of None \<Rightarrow> TReturned 0 (VThread v) | Some x \<Rightarrow> if at_cpuset x \<noteq> 0 then CrAffinity v else TReturned 0 (VThread v)"
    have s': "s' = tw_goto t ?pc (tw_goto v TIdle s)" using step 6 by simp
    show ?thesis by (rule world_start [OF ok, of t args v _ ?pc]) (use at 6 in \<open>simp_all add: s' split: option.splits\<close>)
  next
    case 7
    then have s': "s' = tw_goto t (TReturned 0 (VThread v)) s" using step by simp
    show ?thesis unfolding s' by (rule world_goto [OF ok, of _ t "TReturned 0 (VThread v)"]) (use F(1-3) at 7 in \<open>simp_all add: defs\<close>)
  qed
qed

lemma thr_step_ok:
  assumes ok: "world_ok s" and step: "thr_step t alloc (tw_pc s t) s = Some s'"
  shows "world_ok s'"
proof -
  let ?pc = "tw_pc s t"
  consider (find) v u f where "?pc \<in> {FList v u, FLook v u, FLock v u, FDead v u, FUnlist v u f}"
    | (lock) "(\<exists>v b. ?pc = ALock v b) \<or> (\<exists>v n. ?pc = AUnlock v n) \<or> (\<exists>u. ?pc = ASelf u)"
    | (body) v b where "?pc = ABody v b"
    | (collect) v n c where "?pc \<in> {TcTest v n, TcList v n, TcLock v n, TcTake v n, TcUnlist v n c, TcUnlock v n c}"
    | (exit) "(\<exists>ret. ?pc = ExRet ret) \<or> ?pc \<in> {ExActive, ExStore, ExNotify, ExNative}"
    | (join) v timed where "?pc \<in> {JnTest v timed, JnCompare v, JnRet v}"
    | (gc) args vs where "?pc \<in> {CrGc args, ClList args, ClScan args, ClUnlist args vs, ClFree args vs}"
    | (create) args v where
        "?pc \<in> {CrAlloc args, CrList args v, CrInsert args v, CrUnlist args v, CrActive args v, CrStart args v, CrAffinity v}"
    | (rest) "?pc \<in> {TNone, TIdle, TGone, TAborted} \<or> (\<exists>ret x. ?pc = TReturned ret x) \<or> (\<exists>v. ?pc = JnSleep v)"
    by (cases ?pc; simp; blast)
  then show ?thesis
  proof cases
    case body
    then show ?thesis using body_step_ok [OF ok body] step by simp
  next
    case rest
    then show ?thesis using step by auto
  qed (use find_steps_ok [OF ok refl step] lock_steps_ok [OF ok refl step] collect_steps_ok [OF ok refl step] exit_steps_ok [OF ok refl step]
    join_steps_ok [OF ok refl step] gc_steps_ok [OF ok refl step] create_steps_ok [OF ok refl step] in \<open>blast\<close>)+
qed

lemma thr_init_ok: "world_ok thr_init"
proof -
  have obj: "tw_obj thr_init v = (if v = 0 then new_obj (None, ''main'') PthreadAttrDefault 0 else unborn_obj)" for v by (simp add: thr_init_def)
  have pc: "tw_pc thr_init t = (if t = 0 then TIdle else TNone)" for t by (simp add: thr_init_def)
  have lists: "tw_threads thr_init = {0}" "tw_gc thr_init = []" "tw_list_lock thr_init = None" by (simp_all add: thr_init_def)
  note N = new_obj_simps [of "(None, ''main'')" PthreadAttrDefault 0]
  show ?thesis unfolding world_ok_def threads_ok_def works_ok_def creating_ok_def own_ok_def place_ok_def refs_ok_def Let_def obj pc lists
    by (simp add: N unborn_obj_def ended_def)
qed

definition starts :: "tid \<Rightarrow> thr_pc \<Rightarrow> bool" where
  "starts t pc \<longleftrightarrow> (\<exists>v u. pc = FList v u \<and> (takes_ref u \<longrightarrow> v \<noteq> t)) \<or> (\<exists>u. pc = ALock t (BUse u)) \<or>
     (\<exists>u. pc = ALock t (BFind u) \<and> \<not> takes_ref u) \<or> (\<exists>u. pc = ASelf u) \<or> (\<exists>ret. pc = TReturned ret VNone) \<or>
     (\<exists>ret. pc = ExRet ret) \<or> (\<exists>args. pc = CrGc args)"

lemma use_call_starts: "starts t (use_call t u target)"
proof (cases target)
  case (Some v)
  show ?thesis
  proof (cases "v = t")
    case True
    show ?thesis using Some True by (cases u) (simp_all add: use_call_def starts_def takes_ref_def)
  qed (use Some in \<open>simp add: use_call_def starts_def\<close>)
qed (simp add: use_call_def starts_def)

lemma starts_ok:
  assumes ok: "world_ok s" and idle: "thr_idle (tw_pc s t)" and pc': "starts t pc'"
  shows "world_ok (tw_goto t pc' s)"
proof -
  obtain pc where at: "tw_pc s t = pc" and pc: "pc = TIdle \<or> (\<exists>ret x. pc = TReturned ret x)" using idle by (auto simp: thr_idle_def split: thr_pc.splits)
  note F = at_facts [OF ok at]
  have mine: "t \<in> tw_threads s" using own_okD(3) [OF ok, of t] at pc by auto
  have c: "\<not> marked pc" "\<not> ended pc" "\<not> lists pc" "locks pc = None" "holds t pc = None" "creating pc = None" "works pc = []"
    "pc \<noteq> TNone" "pc \<noteq> ExNotify" using pc by (auto simp: ended_def)
  have c': "\<not> marked pc'" "\<not> ended pc'" "\<not> lists pc'" "locks pc' = None" "holds t pc' = None" "creating pc' = None" "works pc' = []"
    "pc' \<noteq> TNone" "shape_ok t pc'" "joining pc' = None" "result pc' = None" "relies pc' = None \<or> relies pc' = Some t"
    "\<forall>w. pc' \<noteq> JnRet w" "\<forall>w. pc' \<noteq> JnSleep w"
    using pc' unfolding starts_def by (auto simp: ended_def)
  show ?thesis
    by (rule world_goto [OF ok, of _ t pc']) (use F(1-3) mine at c c' in \<open>auto simp: moves_ok_def place_after_def\<close>)
qed

lemma thr_reach_ok: "thr_reach s \<Longrightarrow> world_ok s"
proof (induction rule: thr_reach.induct)
  case start
  show ?case by (rule thr_init_ok)
next
  case (step s t alloc s')
  then show ?case using thr_step_ok by blast
next
  case (call s t u target)
  show ?case by (rule starts_ok [OF call(3,2) use_call_starts])
next
  case (exit s t ret)
  show ?case by (rule starts_ok [OF exit(3,2)]) (simp add: starts_def)
next
  case (create s t args)
  show ?case by (rule starts_ok [OF create(3,2)]) (simp add: starts_def)
qed

end
