(* ===== verification/Orbit_ThreadLife.thy ===== *)
theory Orbit_ThreadLife
  imports Orbit_ThreadSteps
begin

text \<open>What the invariant of the life of threads gives: which accesses are to live objects, and what a join returns.\<close>

subsection \<open>Accesses\<close>

text \<open>The objects that the next step of a thread reads or writes.\<close>

fun touches :: "tid \<Rightarrow> tid list \<Rightarrow> thr_pc \<Rightarrow> tid list" where
  "touches t gc (FLock v u) = [v]"
| "touches t gc (FDead v u) = [v]"
| "touches t gc (ALock v b) = [v]"
| "touches t gc (ABody v b) = [v]"
| "touches t gc (AUnlock v n) = [v]"
| "touches t gc (TcTest v n) = [v]"
| "touches t gc (TcLock v n) = [v]"
| "touches t gc (TcTake v n) = [v]"
| "touches t gc (TcUnlock v n c) = [v]"
| "touches t gc (ASelf u) = [t]"
| "touches t gc (ExRet ret) = [t]"
| "touches t gc ExStore = [t]"
| "touches t gc ExNotify = [t]"
| "touches t gc ExNative = [t]"
| "touches t gc (JnTest v timed) = [v]"
| "touches t gc (JnCompare v) = [v]"
| "touches t gc (JnRet v) = [v]"
| "touches t gc (ClScan args) = gc"
| "touches t gc (ClFree args vs) = take 1 vs"
| "touches t gc (CrAlloc args) = [t]"
| "touches t gc (CrStart args v) = [v]"
| "touches t gc (CrAffinity v) = [v]"
| "touches t gc _ = []"

text \<open>The accesses that nothing protects.\<close>

definition unprotected :: "tid \<Rightarrow> thr_pc \<Rightarrow> tid \<Rightarrow> bool" where
  "unprotected t pc v \<longleftrightarrow>
     (pc = ExNotify \<or> pc = ExNative) \<and> v = t \<or> (\<exists>n. pc = TcUnlock v n True \<and> n \<noteq> NExit) \<or> pc = CrAffinity v"

lemma touches_relies:
  assumes "v \<in> set (touches t gc pc)" and "\<not> unprotected t pc v" and "shape_ok t pc"
  shows "relies pc = Some v \<or> v = t \<and> pc \<noteq> TNone \<and> \<not> ended pc \<or> pc = ClScan args \<and> v \<in> set gc \<or>
    (\<exists>args. pc = ClScan args) \<and> v \<in> set gc \<or> v \<in> set (works pc)"
  using assms by (cases pc) (auto simp: unprotected_def ended_def dest: in_set_takeD)

text \<open>
  C34: the life of thread objects.  Over all interleavings of creation, exit, join, detach and the calls that look
  a thread up, every access is to an object that is allocated and not yet freed, with three exceptions, that nothing
  protects: an exiting thread still uses its own object after it has stored \<^verbatim>\<open>TidTerminated\<close>; \<^verbatim>\<open>TryCollect\<close> unlocks an
  object that it has already put on the list to be collected; and the creator sets the affinity of a thread that
  runs already.  In particular no object is freed twice.
\<close>

theorem thread_lifetime_safe:
  assumes "thr_reach s" and "v \<in> set (touches t (tw_gc s) (tw_pc s t))" and "\<not> unprotected t (tw_pc s t) v"
  shows "tb_life (tw_obj s v) = Live"
proof -
  note ok = thr_reach_ok [OF assms(1)]
  consider "relies (tw_pc s t) = Some v" | "v = t" "tw_pc s t \<noteq> TNone" "\<not> ended (tw_pc s t)" | "v \<in> set (tw_gc s)"
    | "v \<in> set (works (tw_pc s t))"
    using touches_relies [OF assms(2,3) own_okD(6) [OF ok]] by blast
  then show ?thesis
  proof cases
    case 1
    then show ?thesis using threads_okD(1) [OF ok place_okD(1) [OF ok]] by blast
  next
    case 2
    then show ?thesis using own_okD(3,4) [OF ok, of t] threads_okD(1) [OF ok, of t] by blast
  next
    case 3
    then show ?thesis using threads_okD(3) [OF ok] by blast
  next
    case 4
    then show ?thesis using works_okD(2) [OF ok] by blast
  qed
qed

text \<open>
  C35: a join returns the value that the thread gave to \<^verbatim>\<open>pthread_exit\<close>, and only after the thread has terminated; two
  threads never join the same thread; and a joiner does not sleep for ever: while it sleeps, the thread has not
  terminated yet or is about to wake it.
\<close>

theorem join_waits_for_exit:
  assumes "thr_reach s"
  shows "(\<forall>t v ret r. tw_pc s t = TReturned ret (VJoined v r) \<longrightarrow> tb_terminated (tw_obj s v) \<and> tb_ret (tw_obj s v) = r) \<and>
    (\<forall>t u v. joining (tw_pc s t) = Some v \<longrightarrow> joining (tw_pc s u) = Some v \<longrightarrow> t = u) \<and>
    (\<forall>t v. tw_pc s t = JnSleep v \<longrightarrow> \<not> tb_terminated (tw_obj s v) \<or> tw_pc s v = ExNotify)"
proof (intro conjI allI impI)
  note ok = thr_reach_ok [OF assms]
  show "tb_terminated (tw_obj s v)" "tb_ret (tw_obj s v) = r" if "tw_pc s t = TReturned ret (VJoined v r)" for t v ret r
    using place_okD(4) [OF ok, of t v r] that by simp_all
  show "t = u" if "joining (tw_pc s t) = Some v" "joining (tw_pc s u) = Some v" for t u v
    using place_okD(2) [OF ok that(1)] place_okD(2) [OF ok that(2)] by simp
  show "\<not> tb_terminated (tw_obj s v) \<or> tw_pc s v = ExNotify" if "tw_pc s t = JnSleep v" for t v
    using place_okD(6) [OF ok that] by blast
qed

subsection \<open>Runs\<close>

datatype thr_act = ACall tid thr_use tid | AExit tid nat | ACreate tid create_args | AStep tid "(tid \<times> nat option) option"

fun thr_do :: "thr_act \<Rightarrow> thread_world \<Rightarrow> thread_world" where
  "thr_do (ACall t u v) s = (if thr_idle (tw_pc s t) then tw_goto t (use_call t u (Some v)) s else s)"
| "thr_do (AExit t ret) s = (if thr_idle (tw_pc s t) then tw_goto t (ExRet ret) s else s)"
| "thr_do (ACreate t args) s = (if thr_idle (tw_pc s t) then tw_goto t (CrGc args) s else s)"
| "thr_do (AStep t alloc) s = (case thr_step t alloc (tw_pc s t) s of Some s' \<Rightarrow> s' | None \<Rightarrow> s)"

definition thr_run :: "thr_act list \<Rightarrow> thread_world" where
  "thr_run acts = fold thr_do acts thr_init"

lemma thr_run_reach: "thr_reach (thr_run acts)"
proof -
  have "thr_reach (thr_do a s)" if "thr_reach s" for a s
    using that by (cases a) (auto intro: thr_reach.intros split: option.splits)
  then have "thr_reach (fold thr_do acts s)" if "thr_reach s" for s
    using that by (induction acts arbitrary: s) auto
  then show ?thesis by (simp add: thr_run_def thr_reach.start)
qed

definition steps :: "nat \<Rightarrow> tid \<Rightarrow> thr_act list" where
  "steps n t = replicate n (AStep t None)"

lemma steps_simps:
  "steps (Suc 0) t = [AStep t None]" "steps 5 t = [AStep t None, AStep t None, AStep t None, AStep t None, AStep t None]"
  "steps 8 t = steps 5 t @ [AStep t None, AStep t None, AStep t None]" "steps 9 t = steps 5 t @ [AStep t None, AStep t None, AStep t None, AStep t None]"
  "steps 11 t = steps 5 t @ steps 5 t @ steps (Suc 0) t" "steps 13 t = steps 5 t @ steps 8 t" "steps 17 t = steps 8 t @ steps 9 t"
  by (simp_all add: steps_def eval_nat_numeral)

text \<open>Thread \<open>t\<close> creates \<open>v\<close>; threads that end by themselves, and ones that wait to be joined.\<close>

definition spawn :: "create_args \<Rightarrow> tid \<Rightarrow> tid \<Rightarrow> thr_act list" where
  "spawn args t v = [ACreate t args] @ steps 1 t @ [AStep t (Some (v, Some 4096))] @ steps 5 t"

definition detached_args :: create_args where
  "detached_args = (Some (PthreadAttrDefault\<lparr>at_flags := FlagDetached\<rparr>), ''d'')"

definition cpuset_args :: create_args where
  "cpuset_args = (Some (PthreadAttrDefault\<lparr>at_flags := FlagDetached, at_cpuset := 1\<rparr>), ''c'')"

definition joinable_args :: create_args where
  "joinable_args = (None, ''j'')"

lemma args_simps:
  "tb_detached (new_obj detached_args cur a)" "tb_detached (new_obj cpuset_args cur a)" "\<not> tb_detached (new_obj joinable_args cur a)"
  "tb_joiner (new_obj args cur a) = None" "fst joinable_args = None"
  "fst detached_args = Some (PthreadAttrDefault\<lparr>at_flags := FlagDetached\<rparr>)" "at_cpuset (PthreadAttrDefault\<lparr>at_flags := FlagDetached\<rparr>) = 0"
  "fst cpuset_args = Some (PthreadAttrDefault\<lparr>at_flags := FlagDetached, at_cpuset := 1\<rparr>)"
  by (simp_all add: new_obj_def detached_args_def cpuset_args_def joinable_args_def create_attr_def PthreadAttrDefault_def
      PthreadInheritSched_def detached_attr_def Let_def FlagDetached_def FlagScopeSystem_def FlagStackUser_def)

text \<open>Thread 6 is created, then four threads that end and are put on the list of objects to collect.\<close>

definition four_collected :: "thr_act list" where
  "four_collected = spawn joinable_args 0 6 @ concat (map (\<lambda>v. spawn detached_args 0 v @ AExit v 0 # steps 13 v) [1, 2, 3, 4])"

definition notify_run :: "thr_act list" where
  "notify_run = four_collected @ spawn detached_args 0 5 @ AExit 5 0 # steps 11 5 @ ACreate 0 joinable_args # steps 9 0"

definition detach_run :: "thr_act list" where
  "detach_run = four_collected @ spawn joinable_args 0 5 @ AExit 5 0 # steps 8 5 @ ACall 0 UDetach 5 # steps 11 0 @
     ACreate 6 joinable_args # steps 9 6"

definition affinity_run :: "thr_act list" where
  "affinity_run = four_collected @ spawn cpuset_args 0 5 @ AExit 5 0 # steps 13 5 @ ACreate 6 joinable_args # steps 9 6"

definition join_run :: "nat \<Rightarrow> thr_act list" where
  "join_run n = spawn joinable_args 0 5 @ AExit 5 7 # steps 8 5 @ ACall 0 (UJoin False) 5 # steps n 0"

lemma thr_init_simps:
  "tw_obj thr_init 0 = new_obj (None, ''main'') PthreadAttrDefault 0" "v \<noteq> 0 \<Longrightarrow> tw_obj thr_init v = unborn_obj"
  "tw_pc thr_init 0 = TIdle" "v \<noteq> 0 \<Longrightarrow> tw_pc thr_init v = TNone" "tw_threads thr_init = {0}" "tw_gc thr_init = []"
  "tw_list_lock thr_init = None" "tw_active thr_init = 1"
  by (simp_all add: thr_init_def)

lemmas run_simps = thr_run_def spawn_def four_collected_def steps_simps args_simps thr_init_simps new_obj_simps unborn_obj_def tw_goto_def
  with_obj_def take_lock_def drop_lock_def add_refs_def thr_idle_def resume_def ShouldCollect_def GcThreshold_def wake_joiners_def
  use_call_def include_dead_def

text \<open>
  C36: the three unprotected accesses can be to a freed object.  A detached thread that exits is freed by another
  thread's creation between its store of \<^verbatim>\<open>TidTerminated\<close> and its \<^verbatim>\<open>notify_all\<close>; \<^verbatim>\<open>pthread_detach\<close> (like a join) of a
  terminated thread unlocks its mutex after another thread has freed it; and a thread created detached with a
  processor set is gone before its creator sets its affinity.
\<close>

theorem lifetime_races:
  "(\<exists>s. thr_reach s \<and> tw_pc s 5 = ExNotify \<and> tb_life (tw_obj s 5) = Freed) \<and>
   (\<exists>s. thr_reach s \<and> tw_pc s 0 = TcUnlock 5 (NReturn 0 VNone) True \<and> tb_life (tw_obj s 5) = Freed) \<and>
   (\<exists>s. thr_reach s \<and> tw_pc s 0 = CrAffinity 5 \<and> tb_life (tw_obj s 5) = Freed)"
proof -
  have "tw_pc (thr_run notify_run) 5 = ExNotify \<and> tb_life (tw_obj (thr_run notify_run) 5) = Freed"
    by (simp add: run_simps notify_run_def)
  moreover have "tw_pc (thr_run detach_run) 0 = TcUnlock 5 (NReturn 0 VNone) True \<and> tb_life (tw_obj (thr_run detach_run) 5) = Freed"
    by (simp add: run_simps detach_run_def)
  moreover have "tw_pc (thr_run affinity_run) 0 = CrAffinity 5 \<and> tb_life (tw_obj (thr_run affinity_run) 5) = Freed"
    by (simp add: run_simps affinity_run_def)
  ultimately show ?thesis using thr_run_reach by blast
qed

lemma join_run_simp:
  "tw_pc (thr_run (join_run 8)) 0 = JnRet 5 \<and> tw_pc (thr_run (join_run 17)) 0 = TReturned 0 (VJoined 5 7)"
  by (simp add: run_simps join_run_def)

theorem thread_lifetime_safe_witness:
  "tw_pc (thr_run (join_run 8)) 0 = JnRet 5 \<and> tb_life (tw_obj (thr_run (join_run 8)) 5) = Live"
  using thread_lifetime_safe [OF thr_run_reach, of 5 0 "join_run 8"] join_run_simp by (simp add: unprotected_def)

theorem join_waits_for_exit_witness:
  "tb_terminated (tw_obj (thr_run (join_run 17)) 5) \<and> tb_ret (tw_obj (thr_run (join_run 17)) 5) = 7"
  using join_waits_for_exit [OF thr_run_reach, of "join_run 17"] join_run_simp by blast

end
