(* ===== verification/Orbit_Psf.thy ===== *)
theory Orbit_Psf
  imports Orbit_Prelude "HOL-Library.Word"
begin

text \<open>
  PSF files (\<^verbatim>\<open>param.sfo\<close>): \<^verbatim>\<open>src/core/file_format/psf.h\<close> and \<^verbatim>\<open>psf.cpp\<close>.  A \<^verbatim>\<open>std::string\<close> is a list of bytes.
  Reads outside the buffer, which \<^verbatim>\<open>Open\<close> does not prevent, and failed assertions are outcomes of their own.
\<close>

subsection \<open>Bytes\<close>

type_synonym bytes = "8 word list"

primrec bytes_le :: "nat \<Rightarrow> nat \<Rightarrow> bytes" where
  "bytes_le 0 x = []"
| "bytes_le (Suc n) x = word_of_nat x # bytes_le n (x div 256)"

definition bytes_be :: "nat \<Rightarrow> nat \<Rightarrow> bytes" where
  "bytes_be n x = rev (bytes_le n x)"

primrec le_nat :: "bytes \<Rightarrow> nat" where
  "le_nat [] = 0"
| "le_nat (b # bs) = unat b + 256 * le_nat bs"

definition be_nat :: "bytes \<Rightarrow> nat" where
  "be_nat bs = le_nat (rev bs)"

definition bytes_of :: "string \<Rightarrow> bytes" where
  "bytes_of cs = map of_char cs"

datatype 'a outcome = Normal 'a | Aborts | Outside

fun and_then :: "'a outcome \<Rightarrow> ('a \<Rightarrow> 'b outcome) \<Rightarrow> 'b outcome" where
  "and_then (Normal x) f = f x"
| "and_then Aborts f = Aborts"
| "and_then Outside f = Outside"

definition read_bytes :: "nat \<Rightarrow> nat \<Rightarrow> bytes \<Rightarrow> bytes outcome" where
  "read_bytes off n b = (if off + n \<le> length b then Normal (take n (drop off b)) else Outside)"

definition read_c_str :: "nat \<Rightarrow> bytes \<Rightarrow> bytes outcome" where
  "read_c_str off b = (if 0 \<in> set (drop off b) then Normal (takeWhile (\<lambda>x. x \<noteq> 0) (drop off b)) else Outside)"

subsection \<open>Layout\<close>

definition PSF_MAGIC :: nat where "PSF_MAGIC = 0x00505346"
definition PSF_VERSION_1_1 :: nat where "PSF_VERSION_1_1 = 0x00000101"
definition PSF_VERSION_1_0 :: nat where "PSF_VERSION_1_0 = 0x00000100"

record psf_header =
  h_magic :: nat
  h_version :: nat
  h_key_table_offset :: nat
  h_data_table_offset :: nat
  h_index_table_entries :: nat

record psf_raw_entry =
  r_key_offset :: nat
  r_param_fmt :: nat
  r_param_len :: nat
  r_param_max_len :: nat
  r_data_offset :: nat

definition header_bytes :: "psf_header \<Rightarrow> bytes" where
  "header_bytes h = bytes_be 4 (h_magic h) @ bytes_le 4 (h_version h) @ bytes_le 4 (h_key_table_offset h) @
     bytes_le 4 (h_data_table_offset h) @ bytes_le 4 (h_index_table_entries h)"

definition parse_header :: "bytes \<Rightarrow> psf_header" where
  "parse_header b =
     \<lparr>h_magic = be_nat (take 4 b), h_version = le_nat (take 4 (drop 4 b)), h_key_table_offset = le_nat (take 4 (drop 8 b)),
      h_data_table_offset = le_nat (take 4 (drop 12 b)), h_index_table_entries = le_nat (take 4 (drop 16 b))\<rparr>"

text \<open>\<^verbatim>\<open>param_fmt\<close> is declared big-endian but read with \<^verbatim>\<open>Raw\<close> and written with \<^verbatim>\<open>FromRaw\<close>, so it is little-endian.\<close>

definition raw_bytes :: "psf_raw_entry \<Rightarrow> bytes" where
  "raw_bytes r = bytes_le 2 (r_key_offset r) @ bytes_le 2 (r_param_fmt r) @ bytes_le 4 (r_param_len r) @
     bytes_le 4 (r_param_max_len r) @ bytes_le 4 (r_data_offset r)"

definition parse_raw :: "bytes \<Rightarrow> psf_raw_entry" where
  "parse_raw b =
     \<lparr>r_key_offset = le_nat (take 2 b), r_param_fmt = le_nat (take 2 (drop 2 b)), r_param_len = le_nat (take 4 (drop 4 b)),
      r_param_max_len = le_nat (take 4 (drop 8 b)), r_data_offset = le_nat (take 4 (drop 12 b))\<rparr>"

definition FmtBinary :: nat where "FmtBinary = 0x0004"
definition FmtText :: nat where "FmtText = 0x0204"
definition FmtInteger :: nat where "FmtInteger = 0x0404"

lemmas psf_formats = FmtBinary_def FmtText_def FmtInteger_def

subsection \<open>State\<close>

record psf_entry =
  pe_key :: bytes
  pe_fmt :: nat
  pe_max_len :: nat

record psf =
  ps_entries :: "psf_entry list"
  ps_binaries :: "nat \<Rightarrow> bytes option"
  ps_strings :: "nat \<Rightarrow> bytes option"
  ps_integers :: "nat \<Rightarrow> s32 option"

definition psf_empty :: psf where
  "psf_empty = \<lparr>ps_entries = [], ps_binaries = \<lambda>_. None, ps_strings = \<lambda>_. None, ps_integers = \<lambda>_. None\<rparr>"

text \<open>\<^verbatim>\<open>std::unordered_map::emplace\<close> keeps what is there.\<close>

definition emplace :: "nat \<Rightarrow> 'a \<Rightarrow> (nat \<Rightarrow> 'a option) \<Rightarrow> nat \<Rightarrow> 'a option" where
  "emplace i x m = (if m i = None then m(i \<mapsto> x) else m)"

subsection \<open>Reading\<close>

definition open_entry :: "bytes \<Rightarrow> psf_header \<Rightarrow> nat \<Rightarrow> psf \<Rightarrow> psf outcome" where
  "open_entry b h i p =
     and_then (read_bytes (20 + i * 16) 16 b) (\<lambda>rb. let r = parse_raw rb in
     and_then (read_c_str (h_key_table_offset h + r_key_offset r) b) (\<lambda>key.
       let fmt = r_param_fmt r;
           p1 = p\<lparr>ps_entries := ps_entries p @ [\<lparr>pe_key = key, pe_fmt = fmt, pe_max_len = r_param_max_len r\<rparr>]\<rparr>;
           data = h_data_table_offset h + r_data_offset r
       in if fmt = FmtBinary then
            and_then (read_bytes data (r_param_len r) b) (\<lambda>x. Normal (p1\<lparr>ps_binaries := emplace i x (ps_binaries p)\<rparr>))
          else if fmt = FmtText then
            and_then (read_c_str data b) (\<lambda>x. Normal (p1\<lparr>ps_strings := emplace i x (ps_strings p)\<rparr>))
          else if fmt = FmtInteger then
            if r_param_len r \<noteq> 4 then Aborts
            else and_then (read_bytes data 4 b)
                   (\<lambda>x. Normal (p1\<lparr>ps_integers := emplace i (wrap_s32 (int (le_nat x))) (ps_integers p)\<rparr>))
          else Aborts))"

primrec open_loop :: "bytes \<Rightarrow> psf_header \<Rightarrow> nat \<Rightarrow> nat \<Rightarrow> psf \<Rightarrow> psf outcome" where
  "open_loop b h i 0 p = Normal p"
| "open_loop b h i (Suc n) p = and_then (open_entry b h i p) (open_loop b h (Suc i) n)"

text \<open>The result of \<^verbatim>\<open>Open\<close> and the contents afterwards; what was there before is cleared.\<close>

definition psf_Open :: "bytes \<Rightarrow> (bool \<times> psf) outcome" where
  "psf_Open b =
     and_then (read_bytes 0 20 b) (\<lambda>hb. let h = parse_header hb in
       if h_magic h \<noteq> PSF_MAGIC then Normal (False, psf_empty)
       else if h_version h \<noteq> PSF_VERSION_1_1 \<and> h_version h \<noteq> PSF_VERSION_1_0 then Normal (False, psf_empty)
       else and_then (open_loop b h 0 (h_index_table_entries h) psf_empty) (\<lambda>p. Normal (True, p)))"

subsection \<open>Writing\<close>

text \<open>
  The buffer starts with the header and the raw entries, which the code writes through pointers into it; \<open>rest\<close> is
  what it appends.  \<open>base\<close> is the size of that start.
\<close>

fun encode_keys :: "psf_entry list \<Rightarrow> bytes \<Rightarrow> psf_raw_entry list \<times> bytes" where
  "encode_keys [] rest = ([], rest)"
| "encode_keys (e # es) rest =
     (let r = \<lparr>r_key_offset = length rest mod 2 ^ 16, r_param_fmt = pe_fmt e mod 2 ^ 16, r_param_len = 0,
               r_param_max_len = pe_max_len e mod 2 ^ 32, r_data_offset = 0\<rparr>;
          (rs, rest') = encode_keys es (rest @ pe_key e @ [0])
      in (r # rs, rest'))"

definition pad4 :: "nat \<Rightarrow> nat" where
  "pad4 n = (if n mod 4 \<noteq> 0 then 4 - n mod 4 else 0)"

text \<open>What is written for the value of an entry; a missing value throws, an unknown format aborts.\<close>

definition value_bytes :: "psf \<Rightarrow> nat \<Rightarrow> nat \<Rightarrow> bytes option" where
  "value_bytes p i fmt =
     (if fmt = FmtBinary then ps_binaries p i
      else if fmt = FmtText then map_option (\<lambda>x. x @ [0]) (ps_strings p i)
      else if fmt = FmtInteger then map_option (\<lambda>x. bytes_le 4 (nat (x mod 2 ^ 32))) (ps_integers p i)
      else None)"

fun encode_data :: "psf \<Rightarrow> nat \<Rightarrow> nat \<Rightarrow> nat \<Rightarrow> psf_raw_entry list \<Rightarrow> psf_entry list \<Rightarrow> bytes \<Rightarrow> (psf_raw_entry list \<times> bytes) option" where
  "encode_data p base offset i (r # rs) (e # es) rest =
     (let rest1 = rest @ replicate (pad4 (base + length rest)) 0 in
      case value_bytes p i (pe_fmt e) of
        None \<Rightarrow> None
      | Some x \<Rightarrow>
          let len = length x mod 2 ^ 32; padding = wrap_s32 (int (r_param_max_len r)) - wrap_s32 (int len) in
          if padding < 0 then None
          else case encode_data p base offset (Suc i) rs es (rest1 @ x @ replicate (nat padding) 0) of
                 None \<Rightarrow> None
               | Some (rs', rest') \<Rightarrow>
                   Some (r\<lparr>r_data_offset := (base + length rest1 - offset) mod 2 ^ 32, r_param_len := len\<rparr> # rs', rest'))"
| "encode_data p base offset i rs es rest = Some ([], rest)"

definition psf_Encode :: "psf \<Rightarrow> bytes option" where
  "psf_Encode p =
     (let n = length (ps_entries p); base = 20 + 16 * n; (rs, keys) = encode_keys (ps_entries p) []; offset = base + length keys in
      case encode_data p base offset 0 rs (ps_entries p) keys of
        None \<Rightarrow> None
      | Some (rs', rest) \<Rightarrow>
          Some (header_bytes \<lparr>h_magic = PSF_MAGIC, h_version = PSF_VERSION_1_1, h_key_table_offset = base mod 2 ^ 32,
                  h_data_table_offset = offset mod 2 ^ 32, h_index_table_entries = n mod 2 ^ 32\<rparr> @
                concat (map raw_bytes rs') @ rest))"

subsection \<open>Looking up and adding\<close>

definition FindEntry :: "bytes \<Rightarrow> psf \<Rightarrow> nat" where
  "FindEntry key p = length (takeWhile (\<lambda>e. pe_key e \<noteq> key) (ps_entries p))"

text \<open>The outer \<open>None\<close>: a failed assertion or an exception.\<close>

definition psf_get :: "nat \<Rightarrow> (psf \<Rightarrow> nat \<Rightarrow> 'a option) \<Rightarrow> bytes \<Rightarrow> psf \<Rightarrow> 'a option option" where
  "psf_get fmt field key p =
     (let i = FindEntry key p in
      if i = length (ps_entries p) then Some None
      else if pe_fmt (ps_entries p ! i) \<noteq> fmt then None
      else map_option Some (field p i))"

definition GetBinary :: "bytes \<Rightarrow> psf \<Rightarrow> bytes option option" where
  "GetBinary = psf_get FmtBinary ps_binaries"

definition GetString :: "bytes \<Rightarrow> psf \<Rightarrow> bytes option option" where
  "GetString = psf_get FmtText ps_strings"

definition GetInteger :: "bytes \<Rightarrow> psf \<Rightarrow> s32 option option" where
  "GetInteger = psf_get FmtInteger ps_integers"

definition psf_known_max_sizes :: "(bytes \<times> nat) list" where
  "psf_known_max_sizes = map (\<lambda>(key, n). (bytes_of key, n))
     [(''ACCOUNT_ID'', 8), (''CATEGORY'', 4), (''DETAIL'', 1024), (''FORMAT'', 4), (''MAINTITLE'', 128), (''PARAMS'', 1024),
      (''SAVEDATA_BLOCKS'', 8), (''SAVEDATA_DIRECTORY'', 32), (''SUBTITLE'', 128), (''TITLE_ID'', 12)]"

definition get_max_size :: "bytes \<Rightarrow> nat \<Rightarrow> nat" where
  "get_max_size key n = (case map_of psf_known_max_sizes key of Some m \<Rightarrow> m | None \<Rightarrow> n)"

text \<open>
  The three kinds of values are added in the same way: \<open>field\<close> and \<open>put\<close> read and write the map of values of the
  format \<open>fmt\<close>, \<open>m\<close> is the maximal length.
\<close>

definition psf_add ::
    "nat \<Rightarrow> (psf \<Rightarrow> nat \<Rightarrow> 'a option) \<Rightarrow> ((nat \<Rightarrow> 'a option) \<Rightarrow> psf \<Rightarrow> psf) \<Rightarrow> nat \<Rightarrow> bytes \<Rightarrow> 'a \<Rightarrow> bool \<Rightarrow> psf \<Rightarrow> psf option" where
  "psf_add fmt field put m key x update p =
     (let i = FindEntry key p; n = length (ps_entries p) in
      if i < n \<and> \<not> update then Some p
      else if i < n then
        let e = ps_entries p ! i in
        if pe_fmt e \<noteq> fmt \<or> field p i = None then None
        else Some (put ((field p)(i \<mapsto> x)) (p\<lparr>ps_entries := (ps_entries p)[i := e\<lparr>pe_max_len := m\<rparr>]\<rparr>))
      else Some (put (emplace n x (field p)) (p\<lparr>ps_entries := ps_entries p @ [\<lparr>pe_key = key, pe_fmt = fmt, pe_max_len = m\<rparr>]\<rparr>)))"

definition AddBinary :: "bytes \<Rightarrow> bytes \<Rightarrow> bool \<Rightarrow> psf \<Rightarrow> psf option" where
  "AddBinary key x = psf_add FmtBinary ps_binaries (\<lambda>m. ps_binaries_update (\<lambda>_. m)) (get_max_size key (length x mod 2 ^ 32)) key x"

definition AddBinary64 :: "bytes \<Rightarrow> 64 word \<Rightarrow> bool \<Rightarrow> psf \<Rightarrow> psf option" where
  "AddBinary64 key x = AddBinary key (bytes_le 8 (unat x))"

definition AddString :: "bytes \<Rightarrow> bytes \<Rightarrow> bool \<Rightarrow> psf \<Rightarrow> psf option" where
  "AddString key x = psf_add FmtText ps_strings (\<lambda>m. ps_strings_update (\<lambda>_. m)) (get_max_size key (Suc (length x) mod 2 ^ 32)) key x"

definition AddInteger :: "bytes \<Rightarrow> s32 \<Rightarrow> bool \<Rightarrow> psf \<Rightarrow> psf option" where
  "AddInteger = psf_add FmtInteger ps_integers (\<lambda>m. ps_integers_update (\<lambda>_. m)) 4"

subsection \<open>Layout lemmas\<close>

lemma length_bytes_le [simp]: "length (bytes_le n x) = n"
  by (induction n arbitrary: x) simp_all

lemma length_bytes_be [simp]: "length (bytes_be n x) = n"
  by (simp add: bytes_be_def)

lemma le_nat_bytes_le: "le_nat (bytes_le n x) = x mod 256 ^ n"
proof (induction n arbitrary: x)
  case (Suc n)
  have "x mod (256 * 256 ^ n) = 256 * (x div 256 mod 256 ^ n) + x mod 256" by (rule mod_mult2_eq)
  then show ?case using Suc by (simp add: unat_of_nat)
qed simp

lemma be_nat_bytes_be: "be_nat (bytes_be n x) = x mod 256 ^ n"
  by (simp add: be_nat_def bytes_be_def le_nat_bytes_le)

lemma length_header_bytes [simp]: "length (header_bytes h) = 20"
  by (simp add: header_bytes_def)

lemma length_raw_bytes [simp]: "length (raw_bytes r) = 16"
  by (simp add: raw_bytes_def)

definition raw_fits :: "psf_raw_entry \<Rightarrow> bool" where
  "raw_fits r \<longleftrightarrow> r_key_offset r < 2 ^ 16 \<and> r_param_fmt r < 2 ^ 16 \<and> r_param_len r < 2 ^ 32 \<and> r_param_max_len r < 2 ^ 32 \<and>
     r_data_offset r < 2 ^ 32"

lemma parse_raw_bytes: "raw_fits r \<Longrightarrow> parse_raw (raw_bytes r) = r"
  by (simp add: parse_raw_def raw_bytes_def le_nat_bytes_le raw_fits_def)

lemma parse_header_bytes:
  assumes "h_magic h < 2 ^ 32" "h_version h < 2 ^ 32" "h_key_table_offset h < 2 ^ 32" "h_data_table_offset h < 2 ^ 32"
    "h_index_table_entries h < 2 ^ 32"
  shows "parse_header (header_bytes h) = h"
  using assms by (simp add: parse_header_def header_bytes_def le_nat_bytes_le be_nat_bytes_be)

lemma raw_entry_at:
  "i < length rs \<Longrightarrow> take 16 (drop (16 * i) (concat (map raw_bytes rs) @ rest)) = raw_bytes (rs ! i)"
proof (induction rs arbitrary: i)
  case (Cons r rs)
  then show ?case by (cases i) simp_all
qed simp

lemma length_raw_table: "length (concat (map raw_bytes rs)) = 16 * length rs"
  by (induction rs) simp_all

lemma c_str_at: "0 \<notin> set x \<Longrightarrow> drop off b = x @ 0 # zs \<Longrightarrow> read_c_str off b = Normal x"
  by (auto simp: read_c_str_def takeWhile_append)

lemma bytes_at: "drop off b = x @ zs \<Longrightarrow> off \<le> length b \<Longrightarrow> read_bytes off (length x) b = Normal x"
proof -
  assume a: "drop off b = x @ zs" and "off \<le> length b"
  moreover have "length b - off = length x + length zs" using arg_cong [OF a, of length] by simp
  ultimately show ?thesis by (simp add: read_bytes_def)
qed

subsection \<open>What is written where\<close>

lemma encode_keys_writes:
  assumes "encode_keys es rest = (rs, out)"
  shows "length rs = length es \<and> (\<exists>tail. out = rest @ tail) \<and>
    (length out \<le> 2 ^ 16 \<longrightarrow> (\<forall>j<length es. (\<exists>zs. drop (r_key_offset (rs ! j)) out = pe_key (es ! j) @ 0 # zs) \<and>
      r_key_offset (rs ! j) < 2 ^ 16)) \<and>
    (\<forall>j<length es. r_param_fmt (rs ! j) = pe_fmt (es ! j) mod 2 ^ 16 \<and> r_param_max_len (rs ! j) = pe_max_len (es ! j) mod 2 ^ 32)"
  using assms
proof (induction es arbitrary: rest rs)
  case (Cons e es)
  obtain rs1 where rec: "encode_keys es (rest @ pe_key e @ [0]) = (rs1, out)"
    and rs: "rs = \<lparr>r_key_offset = length rest mod 2 ^ 16, r_param_fmt = pe_fmt e mod 2 ^ 16, r_param_len = 0,
      r_param_max_len = pe_max_len e mod 2 ^ 32, r_data_offset = 0\<rparr> # rs1"
    using Cons.prems by (auto simp: Let_def split: prod.splits)
  note IH = Cons.IH [OF rec]
  obtain tail where tail: "out = rest @ pe_key e @ 0 # tail" using IH by auto
  have "drop (length rest mod 2 ^ 16) out = pe_key e @ 0 # tail" if "length out \<le> 2 ^ 16"
    using that by (simp add: tail)
  then show ?case using IH tail unfolding rs by (auto simp: nth_Cons split: nat.splits)
qed simp

lemma encode_data_writes:
  assumes "encode_data p base offset i rs es rest = Some (rs', out)" and "length rs = length es" and "offset \<le> base + length rest"
    and "base + length out < 2 ^ 32" and "base \<le> offset"
  shows "length rs' = length es \<and> (\<exists>tail. out = rest @ tail) \<and>
    (\<forall>j<length es. \<exists>x zs. value_bytes p (i + j) (pe_fmt (es ! j)) = Some x \<and>
       rs' ! j = (rs ! j)\<lparr>r_data_offset := r_data_offset (rs' ! j), r_param_len := length x\<rparr> \<and>
       offset + r_data_offset (rs' ! j) \<le> base + length out \<and> r_data_offset (rs' ! j) < 2 ^ 32 \<and> length x < 2 ^ 32 \<and>
       drop (offset + r_data_offset (rs' ! j) - base) out = x @ zs)"
  using assms
proof (induction es arbitrary: i rs rs' rest)
  case (Cons e es)
  obtain r rs1 where rs: "rs = r # rs1" using Cons.prems(2) by (cases rs) auto
  define rest1 where "rest1 = rest @ replicate (pad4 (base + length rest)) 0"
  obtain x padding rs2 where x: "value_bytes p i (pe_fmt e) = Some x"
    and rec: "encode_data p base offset (Suc i) rs1 es (rest1 @ x @ replicate padding 0) = Some (rs2, out)"
    and rs': "rs' = r\<lparr>r_data_offset := (base + length rest1 - offset) mod 2 ^ 32, r_param_len := length x mod 2 ^ 32\<rparr> # rs2"
    using Cons.prems(1) unfolding rs rest1_def by (auto simp: Let_def split: option.splits if_splits)
  have "offset \<le> base + length (rest1 @ x @ replicate padding 0)" using Cons.prems(3) by (simp add: rest1_def)
  note IH = Cons.IH [OF rec _ this Cons.prems(4,5)]
  have len: "length rs1 = length es" using Cons.prems(2) rs by simp
  obtain tail where tail: "out = rest1 @ x @ replicate padding 0 @ tail" using IH len by auto
  have small: "base + length rest1 - offset < 2 ^ 32" "length x < 2 ^ 32" using Cons.prems(4) by (simp_all add: tail)
  have pos: "offset + (base + length rest1 - offset) - base = length rest1" using Cons.prems(3,5) by (simp add: rest1_def)
  have here: "drop (offset + (base + length rest1 - offset) - base) out = x @ replicate padding 0 @ tail" unfolding pos by (simp add: tail)
  have le: "offset + (base + length rest1 - offset) \<le> base + length out" using Cons.prems(3) by (simp add: tail rest1_def)
  show ?case
  proof (intro conjI allI impI)
    show "length rs' = length (e # es)" using IH len rs' by simp
    show "\<exists>tail. out = rest @ tail" by (simp add: tail rest1_def)
    fix j assume "j < length (e # es)"
    then show "\<exists>x zs. value_bytes p (i + j) (pe_fmt ((e # es) ! j)) = Some x \<and>
       rs' ! j = (rs ! j)\<lparr>r_data_offset := r_data_offset (rs' ! j), r_param_len := length x\<rparr> \<and>
       offset + r_data_offset (rs' ! j) \<le> base + length out \<and> r_data_offset (rs' ! j) < 2 ^ 32 \<and> length x < 2 ^ 32 \<and>
       drop (offset + r_data_offset (rs' ! j) - base) out = x @ zs"
    proof (cases j)
      case 0
      then show ?thesis using x here le small by (auto simp: rs rs')
    next
      case (Suc k)
      then show ?thesis using IH len \<open>j < length (e # es)\<close> by (simp add: rs rs')
    qed
  qed
qed simp


subsection \<open>Round trip\<close>

text \<open>Every entry has a known format and a value of it, and there are no other values.\<close>

definition psf_ok :: "psf \<Rightarrow> bool" where
  "psf_ok p \<longleftrightarrow> (let es = ps_entries p; has = (\<lambda>i fmt. i < length es \<and> pe_fmt (es ! i) = fmt) in
     (\<forall>i. (ps_binaries p i \<noteq> None \<longleftrightarrow> has i FmtBinary) \<and> (ps_strings p i \<noteq> None \<longleftrightarrow> has i FmtText) \<and>
          (ps_integers p i \<noteq> None \<longleftrightarrow> has i FmtInteger)) \<and>
     (\<forall>e\<in>set es. pe_fmt e \<in> {FmtBinary, FmtText, FmtInteger} \<and> pe_max_len e < 2 ^ 32) \<and>
     (\<forall>i x. ps_integers p i = Some x \<longrightarrow> - (2 ^ 31) \<le> x \<and> x < 2 ^ 31))"

text \<open>Keys and strings have no zero byte, and the keys fit a table with 16-bit offsets.\<close>

definition psf_storable :: "psf \<Rightarrow> bool" where
  "psf_storable p \<longleftrightarrow> (\<forall>e\<in>set (ps_entries p). 0 \<notin> set (pe_key e)) \<and> (\<forall>i x. ps_strings p i = Some x \<longrightarrow> 0 \<notin> set x) \<and>
     length (snd (encode_keys (ps_entries p) [])) \<le> 2 ^ 16"

definition first_entries :: "nat \<Rightarrow> psf \<Rightarrow> psf" where
  "first_entries i p = (let keep = (\<lambda>m j. if j < i then m j else None) in
     \<lparr>ps_entries = take i (ps_entries p), ps_binaries = keep (ps_binaries p), ps_strings = (\<lambda>j. if j < i then ps_strings p j else None),
      ps_integers = (\<lambda>j. if j < i then ps_integers p j else None)\<rparr>)"

lemma psf_okD:
  assumes "psf_ok p"
  shows "ps_binaries p i \<noteq> None \<longleftrightarrow> i < length (ps_entries p) \<and> pe_fmt (ps_entries p ! i) = FmtBinary"
    and "ps_strings p i \<noteq> None \<longleftrightarrow> i < length (ps_entries p) \<and> pe_fmt (ps_entries p ! i) = FmtText"
    and "ps_integers p i \<noteq> None \<longleftrightarrow> i < length (ps_entries p) \<and> pe_fmt (ps_entries p ! i) = FmtInteger"
    and "i < length (ps_entries p) \<Longrightarrow> pe_fmt (ps_entries p ! i) \<in> {FmtBinary, FmtText, FmtInteger}"
    and "i < length (ps_entries p) \<Longrightarrow> pe_max_len (ps_entries p ! i) < 2 ^ 32"
    and "ps_integers p i = Some x \<Longrightarrow> - (2 ^ 31) \<le> x \<and> x < 2 ^ 31"
  using assms by (simp_all add: psf_ok_def Let_def)

lemma first_entries_0: "first_entries 0 p = psf_empty"
  by (simp add: first_entries_def psf_empty_def)

lemma first_entries_all: "psf_ok p \<Longrightarrow> first_entries (length (ps_entries p)) p = p"
  using psf_okD(1-3) [of p] by (auto simp: first_entries_def Let_def fun_eq_iff intro!: psf.equality) (metis option.exhaust)+

text \<open>Reading the entry \<open>i\<close> back extends the first \<open>i\<close> entries by it.\<close>

lemma open_entry_reads:
  assumes ok: "psf_ok p" and i: "i < length (ps_entries p)"
    and raw: "read_bytes (20 + i * 16) 16 b = Normal (raw_bytes r)" "raw_fits r"
    and key: "read_c_str (h_key_table_offset h + r_key_offset r) b = Normal (pe_key (ps_entries p ! i))"
    and fmt: "r_param_fmt r = pe_fmt (ps_entries p ! i)" "r_param_max_len r = pe_max_len (ps_entries p ! i)"
    and x: "value_bytes p i (pe_fmt (ps_entries p ! i)) = Some x" "r_param_len r = length x"
    and data: "drop (h_data_table_offset h + r_data_offset r) b = x @ zs" "h_data_table_offset h + r_data_offset r \<le> length b"
    and zero: "\<And>x. ps_strings p i = Some x \<Longrightarrow> 0 \<notin> set x"
  shows "open_entry b h i (first_entries i p) = Normal (first_entries (Suc i) p)"
proof -
  let ?e = "ps_entries p ! i"
  have es: "take i (ps_entries p) @ [\<lparr>pe_key = pe_key ?e, pe_fmt = pe_fmt ?e, pe_max_len = pe_max_len ?e\<rparr>] = take (Suc i) (ps_entries p)"
    using i by (simp add: take_Suc_conv_app_nth)
  have ext: "m i = None \<Longrightarrow> (\<lambda>j. if j < Suc i then m j else None) = (\<lambda>j. if j < i then m j else None)"
      "m i = Some y \<Longrightarrow> (\<lambda>j. if j < Suc i then m j else None) = (\<lambda>j. if j < i then m j else None)(i \<mapsto> y)"
    for m :: "nat \<Rightarrow> 'a option" and y
    by (auto simp: less_Suc_eq fun_eq_iff)
  note D = psf_okD [OF ok, of i] and b = bytes_at [OF data]
  consider (bin) "pe_fmt ?e = FmtBinary" | (str) "pe_fmt ?e = FmtText" | (int) "pe_fmt ?e = FmtInteger" using D(4) [OF i] by auto
  then show ?thesis
  proof cases
    case bin
    then have "ps_binaries p i = Some x" "ps_strings p i = None" "ps_integers p i = None"
      using x(1) D(2,3) by (auto simp: value_bytes_def psf_formats)
    then show ?thesis using raw key fmt x(2) b es bin
      by (simp add: open_entry_def parse_raw_bytes first_entries_def Let_def emplace_def ext)
  next
    case str
    then obtain c where c: "ps_strings p i = Some c" "x = c @ [0]" using x(1) by (auto simp: value_bytes_def psf_formats)
    moreover have "ps_binaries p i = None" "ps_integers p i = None" using D(1,3) str by (auto simp: psf_formats)
    moreover have "read_c_str (h_data_table_offset h + r_data_offset r) b = Normal c"
      by (rule c_str_at) (use zero c data(1) in \<open>simp_all\<close>)
    ultimately show ?thesis using raw key fmt es str
      by (simp add: open_entry_def parse_raw_bytes first_entries_def Let_def emplace_def ext psf_formats)
  next
    case int
    then obtain v where v: "ps_integers p i = Some v" "x = bytes_le 4 (nat (v mod 2 ^ 32))" using x(1) by (auto simp: value_bytes_def psf_formats)
    have "wrap_s32 (int (le_nat x)) = v"
    proof -
      have "wrap_s32 (int (le_nat x)) = wrap_s32 v" unfolding wrap_s32_eq_iff v(2) by (simp add: le_nat_bytes_le nat_less_iff)
      then show ?thesis using D(6) [OF v(1)] by (simp add: wrap_s32_exact)
    qed
    moreover have "ps_binaries p i = None" "ps_strings p i = None" using D(1,2) int by (auto simp: psf_formats)
    moreover have "length x = 4" by (simp add: v)
    ultimately show ?thesis using raw key fmt x(2) b es int v(1)
      by (simp add: open_entry_def parse_raw_bytes first_entries_def Let_def emplace_def ext psf_formats)
  qed
qed

lemma open_loop_reads:
  assumes "\<And>j. j < length (ps_entries p) \<Longrightarrow> open_entry b h j (first_entries j p) = Normal (first_entries (Suc j) p)"
  shows "i + n \<le> length (ps_entries p) \<Longrightarrow> open_loop b h i n (first_entries i p) = Normal (first_entries (i + n) p)"
  using assms by (induction n arbitrary: i) simp_all

lemma encode_data_length:
  "encode_data p base offset i rs es rest = Some (rs', out) \<Longrightarrow> length rs = length es \<Longrightarrow> length rs' = length es"
proof (induction p base offset i rs es rest arbitrary: rs' rule: encode_data.induct)
  case (1 p base offset i r rs e es rest)
  then show ?case by (fastforce simp: Let_def split: option.splits if_splits)
qed auto

text \<open>
  C37: what \<^verbatim>\<open>Encode\<close> writes, \<^verbatim>\<open>Open\<close> reads back: the same entries in the same order, with the same keys, formats, maximal
  lengths and values.
\<close>

theorem psf_round_trip:
  assumes ok: "psf_ok p" and fits: "psf_storable p" and enc: "psf_Encode p = Some b" and small: "length b < 2 ^ 32"
  shows "psf_Open b = Normal (True, p)"
proof -
  define es where "es = ps_entries p"
  define n where "n = length es"
  define base where "base = 20 + 16 * n"
  obtain rs keys where keys: "encode_keys es [] = (rs, keys)" by force
  define offset where "offset = base + length keys"
  define h where "h = \<lparr>h_magic = PSF_MAGIC, h_version = PSF_VERSION_1_1, h_key_table_offset = base mod 2 ^ 32,
    h_data_table_offset = offset mod 2 ^ 32, h_index_table_entries = n mod 2 ^ 32\<rparr>"
  obtain rs' rest where data: "encode_data p base offset 0 rs es keys = Some (rs', rest)"
    and b: "b = header_bytes h @ concat (map raw_bytes rs') @ rest"
    using enc keys unfolding psf_Encode_def h_def offset_def base_def n_def es_def by (auto simp: Let_def split: option.splits)
  note K = encode_keys_writes [OF keys]
  have table: "length keys \<le> 2 ^ 16" using fits keys by (simp add: psf_storable_def es_def)
  have len: "length rs = length es" using K by simp
  have "length rs' = n" using encode_data_length [OF data len] by (simp add: n_def)
  then have table_len: "length (concat (map raw_bytes rs')) = 16 * n" and rs': "length rs' = n" by (simp_all add: length_raw_table)
  have lb: "length b = base + length rest" by (simp add: b table_len base_def)
  note D = encode_data_writes [OF data len, unfolded lb [symmetric]]
  have D: "\<exists>tail. rest = keys @ tail"
    "\<And>j. j < n \<Longrightarrow> \<exists>x zs. value_bytes p j (pe_fmt (es ! j)) = Some x \<and>
       rs' ! j = (rs ! j)\<lparr>r_data_offset := r_data_offset (rs' ! j), r_param_len := length x\<rparr> \<and>
       offset + r_data_offset (rs' ! j) \<le> length b \<and> r_data_offset (rs' ! j) < 2 ^ 32 \<and> length x < 2 ^ 32 \<and>
       drop (offset + r_data_offset (rs' ! j) - base) rest = x @ zs"
    using D small by (simp_all add: offset_def n_def)
  obtain tail where tail: "rest = keys @ tail" using D(1) by blast
  have bounds: "base < 2 ^ 32" "offset < 2 ^ 32" "n < 2 ^ 32" using small by (simp_all add: lb tail offset_def base_def)
  have h: "parse_header (header_bytes h) = h" by (rule parse_header_bytes) (simp_all add: h_def PSF_MAGIC_def PSF_VERSION_1_1_def)
  have start: "read_bytes 0 20 b = Normal (header_bytes h)" using bytes_at [of 0 b "header_bytes h"] by (simp add: b)
  have dropb: "drop (base + m) b = drop m rest" for m by (simp add: b table_len base_def)
  have reads: "open_entry b h j (first_entries j p) = Normal (first_entries (Suc j) p)" if j: "j < length (ps_entries p)" for j
  proof -
    have jn: "j < n" using j by (simp add: n_def es_def)
    obtain x zs where x: "value_bytes p j (pe_fmt (es ! j)) = Some x"
      and r: "rs' ! j = (rs ! j)\<lparr>r_data_offset := r_data_offset (rs' ! j), r_param_len := length x\<rparr>"
      and pos: "offset + r_data_offset (rs' ! j) \<le> length b" "r_data_offset (rs' ! j) < 2 ^ 32" "length x < 2 ^ 32"
      and at: "drop (offset + r_data_offset (rs' ! j) - base) rest = x @ zs"
      using D(2) [OF jn] by blast
    have f: "r_key_offset (rs' ! j) = r_key_offset (rs ! j)" "r_param_fmt (rs' ! j) = r_param_fmt (rs ! j)"
      "r_param_max_len (rs' ! j) = r_param_max_len (rs ! j)" "r_param_len (rs' ! j) = length x"
      by (subst r; simp)+
    obtain ys where key: "drop (r_key_offset (rs ! j)) keys = pe_key (es ! j) @ 0 # ys" and ko: "r_key_offset (rs ! j) < 2 ^ 16"
      using K table jn by (auto simp: n_def)
    have ej: "es ! j \<in> set (ps_entries p)" using j by (simp add: es_def)
    have fm: "r_param_fmt (rs ! j) = pe_fmt (es ! j)" "r_param_max_len (rs ! j) = pe_max_len (es ! j)"
      using K jn psf_okD(4,5) [OF ok j] by (auto simp: n_def es_def psf_formats)
    have fit: "raw_fits (rs' ! j)" using f fm ko pos psf_okD(4,5) [OF ok j] by (auto simp: raw_fits_def es_def psf_formats)
    have "r_key_offset (rs ! j) \<le> length keys" using arg_cong [OF key, of length] by simp
    then have keyb: "drop (base + r_key_offset (rs ! j)) b = pe_key (es ! j) @ 0 # ys @ tail" by (simp add: dropb tail key)
    have datab: "drop (offset + r_data_offset (rs' ! j)) b = x @ zs"
      using at dropb [of "offset + r_data_offset (rs' ! j) - base"] by (simp add: offset_def add.assoc)
    have "take 16 (drop (20 + j * 16) b) = raw_bytes (rs' ! j)" using raw_entry_at [of j rs' rest] jn rs' by (simp add: b mult.commute)
    then have raw: "read_bytes (20 + j * 16) 16 b = Normal (raw_bytes (rs' ! j))"
      using jn by (simp add: read_bytes_def lb base_def)
    show ?thesis
    proof (rule open_entry_reads [OF ok j raw fit])
      show "read_c_str (h_key_table_offset h + r_key_offset (rs' ! j)) b = Normal (pe_key (ps_entries p ! j))"
        by (rule c_str_at [of _ _ _ "ys @ tail"]) (use fits ej keyb bounds in \<open>simp_all add: h_def f psf_storable_def es_def\<close>)
      show "drop (h_data_table_offset h + r_data_offset (rs' ! j)) b = x @ zs" using datab bounds by (simp add: h_def)
      show "h_data_table_offset h + r_data_offset (rs' ! j) \<le> length b" using pos bounds by (simp add: h_def)
      show "0 \<notin> set c" if "ps_strings p j = Some c" for c using fits that by (simp add: psf_storable_def)
    qed (use f fm x in \<open>simp_all add: es_def\<close>)
  qed
  have "open_loop b h 0 n psf_empty = Normal p"
    using open_loop_reads [OF reads, of 0 n] first_entries_all [OF ok] first_entries_0 [of p] by (simp add: n_def es_def)
  moreover have "h_magic h = PSF_MAGIC" "h_version h = PSF_VERSION_1_1" "h_index_table_entries h = n" using bounds by (simp_all add: h_def)
  ultimately show ?thesis by (simp add: psf_Open_def start h)
qed

text \<open>A string whose place is longer than it, and a negative number.\<close>

definition psf_example :: psf where
  "psf_example =
     \<lparr>ps_entries = [\<lparr>pe_key = [84, 73], pe_fmt = FmtText, pe_max_len = 4\<rparr>, \<lparr>pe_key = [86], pe_fmt = FmtInteger, pe_max_len = 4\<rparr>],
      ps_binaries = \<lambda>_. None, ps_strings = [0 \<mapsto> [72, 105]], ps_integers = [1 \<mapsto> - 5]\<rparr>"

lemma psf_example_encodes: "\<exists>b. psf_Encode psf_example = Some b \<and> length b < 2 ^ 32"
proof -
  have es: "ps_entries psf_example = [\<lparr>pe_key = [84, 73], pe_fmt = 516, pe_max_len = 4\<rparr>, \<lparr>pe_key = [86], pe_fmt = 1028, pe_max_len = 4\<rparr>]"
    by (simp add: psf_example_def psf_formats)
  have v: "value_bytes psf_example 0 516 = Some [72, 105, 0]" "value_bytes psf_example (Suc 0) 1028 = Some (bytes_le 4 4294967291)"
    by (simp_all add: value_bytes_def psf_example_def psf_formats)
  have w: "wrap_s32 3 = 3" "wrap_s32 4 = 4" by (simp_all add: wrap_s32_exact)
  let ?rs = "[\<lparr>r_key_offset = 0, r_param_fmt = 516, r_param_len = 0, r_param_max_len = 4, r_data_offset = 0\<rparr>,
    \<lparr>r_key_offset = 3, r_param_fmt = 1028, r_param_len = 0, r_param_max_len = 4, r_data_offset = 0\<rparr>]"
  have k: "encode_keys (ps_entries psf_example) [] = (?rs, [84, 73, 0, 86, 0])" by (simp add: es)
  obtain rs out where d: "encode_data psf_example 52 57 0 ?rs (ps_entries psf_example) [84, 73, 0, 86, 0] = Some (rs, out)"
      "length rs = 2" "length out = 16"
    unfolding es by (simp add: v w pad4_def Let_def)
  have "length (ps_entries psf_example) = 2" by (simp add: es)
  then show ?thesis using d by (simp add: psf_Encode_def k length_raw_table)
qed

theorem psf_round_trip_witness:
  "psf_Encode psf_example \<noteq> None \<and> psf_Open (the (psf_Encode psf_example)) = Normal (True, psf_example)"
proof -
  have ok: "psf_ok psf_example"
    by (simp add: psf_ok_def psf_example_def psf_formats Let_def nth_Cons split: nat.splits)
  have fits: "psf_storable psf_example" by (simp add: psf_storable_def psf_example_def)
  obtain b where b: "psf_Encode psf_example = Some b" "length b < 2 ^ 32" using psf_example_encodes by blast
  show ?thesis unfolding b(1) option.sel using psf_round_trip [OF ok fits b] by blast
qed

end
