(* ===== verification/Orbit_PsfMap.thy ===== *)
theory Orbit_PsfMap
  imports Orbit_Psf
begin

text \<open>
  The operations on a PSF as operations on a map from keys to values, and when \<^verbatim>\<open>Encode\<close> succeeds.
\<close>

subsection \<open>The map\<close>

datatype psf_value = VBin bytes | VStr bytes | VInt s32

definition psf_value_at :: "psf \<Rightarrow> nat \<Rightarrow> psf_value option" where
  "psf_value_at p i =
     (let fmt = pe_fmt (ps_entries p ! i) in
      if fmt = FmtBinary then map_option VBin (ps_binaries p i)
      else if fmt = FmtText then map_option VStr (ps_strings p i)
      else if fmt = FmtInteger then map_option VInt (ps_integers p i)
      else None)"

definition psf_map :: "psf \<Rightarrow> bytes \<Rightarrow> psf_value option" where
  "psf_map p key = (let i = FindEntry key p in if i < length (ps_entries p) then psf_value_at p i else None)"

fun value_fmt :: "psf_value \<Rightarrow> nat" where
  "value_fmt (VBin x) = FmtBinary"
| "value_fmt (VStr x) = FmtText"
| "value_fmt (VInt x) = FmtInteger"

text \<open>What adding does to a map: \<open>None\<close> when the value would change its format.\<close>

definition add_spec :: "bytes \<Rightarrow> psf_value \<Rightarrow> bool \<Rightarrow> (bytes \<Rightarrow> psf_value option) \<Rightarrow> (bytes \<Rightarrow> psf_value option) option" where
  "add_spec key x update m =
     (case m key of
        None \<Rightarrow> Some (m(key \<mapsto> x))
      | Some y \<Rightarrow> if \<not> update then Some m else if value_fmt y \<noteq> value_fmt x then None else Some (m(key \<mapsto> x)))"

lemma fmt_distinct [simp]:
  "FmtBinary \<noteq> FmtText" "FmtBinary \<noteq> FmtInteger" "FmtText \<noteq> FmtBinary" "FmtText \<noteq> FmtInteger" "FmtInteger \<noteq> FmtBinary" "FmtInteger \<noteq> FmtText"
  by (simp_all add: psf_formats)

subsection \<open>Finding\<close>

lemma FindEntry_le: "FindEntry key p \<le> length (ps_entries p)"
  by (simp add: FindEntry_def length_takeWhile_le)

lemma FindEntry_at: "FindEntry key p < length (ps_entries p) \<Longrightarrow> pe_key (ps_entries p ! FindEntry key p) = key"
  using nth_length_takeWhile [of "\<lambda>e. pe_key e \<noteq> key" "ps_entries p"] by (simp add: FindEntry_def)

lemma takeWhile_length_append:
  "length (takeWhile P (xs @ [x])) =
     (if length (takeWhile P xs) < length xs then length (takeWhile P xs) else if P x then Suc (length xs) else length xs)"
  by (induction xs) auto

lemma FindEntry_append:
  assumes "ps_entries p' = ps_entries p @ [e]"
  shows "FindEntry key p' = (if FindEntry key p < length (ps_entries p) then FindEntry key p
    else if pe_key e = key then length (ps_entries p) else Suc (length (ps_entries p)))"
  unfolding FindEntry_def assms takeWhile_length_append by simp

lemma takeWhile_length_update:
  "i < length xs \<Longrightarrow> P x = P (xs ! i) \<Longrightarrow> length (takeWhile P (xs[i := x])) = length (takeWhile P xs)"
proof (induction xs arbitrary: i)
  case (Cons y ys)
  then show ?case by (cases i) simp_all
qed simp

lemma FindEntry_update:
  assumes "ps_entries p' = (ps_entries p)[i := e]" and "i < length (ps_entries p)" and "pe_key e = pe_key (ps_entries p ! i)"
  shows "FindEntry key p' = FindEntry key p"
  unfolding FindEntry_def assms(1) by (rule takeWhile_length_update) (use assms in simp_all)

lemma value_at_some: "psf_ok p \<Longrightarrow> i < length (ps_entries p) \<Longrightarrow> \<exists>x. psf_value_at p i = Some x \<and> value_fmt x = pe_fmt (ps_entries p ! i)"
  using psf_okD(1-4) [of p i] by (auto simp: psf_value_at_def Let_def)

lemma psf_map_none: "psf_ok p \<Longrightarrow> psf_map p key = None \<longleftrightarrow> FindEntry key p = length (ps_entries p)"
  using value_at_some [of p "FindEntry key p"] FindEntry_le [of key p] by (auto simp: psf_map_def Let_def)

text \<open>
  A new entry at the end, or a new value and length for an entry of the same format: what the maps of values have to
  be, whatever the format.
\<close>

lemma map_after_new:
  assumes ok: "psf_ok p" and new: "FindEntry key p = length (ps_entries p)"
    and es: "ps_entries p' = ps_entries p @ [e]" "pe_key e = key"
    and x: "psf_value_at p' (length (ps_entries p)) = Some x"
    and keep: "\<And>i. i < length (ps_entries p) \<Longrightarrow> psf_value_at p' i = psf_value_at p i"
  shows "psf_map p' = (psf_map p)(key \<mapsto> x)"
proof
  fix k
  show "psf_map p' k = ((psf_map p)(key \<mapsto> x)) k"
    using FindEntry_append [OF es(1), of k] new es x keep FindEntry_le [of k p] by (auto simp: psf_map_def Let_def)
qed

lemma map_after_update:
  assumes i: "i = FindEntry key p" "i < length (ps_entries p)" and es: "ps_entries p' = (ps_entries p)[i := e]" "pe_key e = key"
    and x: "psf_value_at p' i = Some x" and keep: "\<And>j. j \<noteq> i \<Longrightarrow> j < length (ps_entries p) \<Longrightarrow> psf_value_at p' j = psf_value_at p j"
  shows "psf_map p' = (psf_map p)(key \<mapsto> x)"
proof
  fix k
  have key: "pe_key (ps_entries p ! i) = key" using FindEntry_at i by simp
  have f: "FindEntry k p' = FindEntry k p" by (rule FindEntry_update [OF es(1) i(2)]) (use es key in simp)
  show "psf_map p' k = ((psf_map p)(key \<mapsto> x)) k"
  proof (cases "k = key")
    case False
    have "FindEntry k p \<noteq> i" if "FindEntry k p < length (ps_entries p)" using FindEntry_at [OF that] key False by auto
    then show ?thesis using False keep by (auto simp: psf_map_def Let_def f es)
  qed (use i x f in \<open>simp add: psf_map_def Let_def es\<close>)
qed

subsection \<open>The operations\<close>

lemma get_max_size_small: "n < 2 ^ 32 \<Longrightarrow> get_max_size key n < 2 ^ 32"
proof -
  have "\<forall>(k, m)\<in>set psf_known_max_sizes. m < 2 ^ 32" by (simp add: psf_known_max_sizes_def)
  then show "n < 2 ^ 32 \<Longrightarrow> ?thesis" by (auto simp: get_max_size_def split: option.splits dest: map_of_SomeD)
qed

lemma get_is_map:
  assumes "psf_ok p"
  shows "GetBinary key p = (case psf_map p key of None \<Rightarrow> Some None | Some (VBin x) \<Rightarrow> Some (Some x) | _ \<Rightarrow> None)"
    and "GetString key p = (case psf_map p key of None \<Rightarrow> Some None | Some (VStr x) \<Rightarrow> Some (Some x) | _ \<Rightarrow> None)"
    and "GetInteger key p = (case psf_map p key of None \<Rightarrow> Some None | Some (VInt x) \<Rightarrow> Some (Some x) | _ \<Rightarrow> None)"
  using psf_okD(1-4) [OF assms, of "FindEntry key p"] FindEntry_le [of key p]
  by (auto simp: GetBinary_def GetString_def GetInteger_def psf_get_def psf_map_def psf_value_at_def Let_def psf_formats split: option.splits)

lemma psf_ok_new:
  assumes ok: "psf_ok p" and es: "ps_entries p' = ps_entries p @ [e]" "pe_fmt e \<in> {FmtBinary, FmtText, FmtInteger}" "pe_max_len e < 2 ^ 32"
    and maps: "\<And>i. i \<noteq> length (ps_entries p) \<Longrightarrow> ps_binaries p' i = ps_binaries p i \<and> ps_strings p' i = ps_strings p i \<and> ps_integers p' i = ps_integers p i"
    and at: "(ps_binaries p' (length (ps_entries p)) \<noteq> None) = (pe_fmt e = FmtBinary)" "(ps_strings p' (length (ps_entries p)) \<noteq> None) = (pe_fmt e = FmtText)"
      "(ps_integers p' (length (ps_entries p)) \<noteq> None) = (pe_fmt e = FmtInteger)"
    and range: "\<And>x. ps_integers p' (length (ps_entries p)) = Some x \<Longrightarrow> - (2 ^ 31) \<le> x \<and> x < 2 ^ 31"
  shows "psf_ok p'"
proof -
  let ?n = "length (ps_entries p)"
  have "(ps_binaries p' i \<noteq> None \<longleftrightarrow> i < Suc ?n \<and> pe_fmt ((ps_entries p @ [e]) ! i) = FmtBinary) \<and>
      (ps_strings p' i \<noteq> None \<longleftrightarrow> i < Suc ?n \<and> pe_fmt ((ps_entries p @ [e]) ! i) = FmtText) \<and>
      (ps_integers p' i \<noteq> None \<longleftrightarrow> i < Suc ?n \<and> pe_fmt ((ps_entries p @ [e]) ! i) = FmtInteger)" for i
  proof (cases "i = ?n")
    case True
    then show ?thesis using at by simp
  next
    case False
    then show ?thesis using maps [OF False] psf_okD(1-3) [OF ok, of i] by (simp add: nth_append less_Suc_eq)
  qed
  moreover have "- (2 ^ 31) \<le> x \<and> x < 2 ^ 31" if "ps_integers p' i = Some x" for i x
    using that range maps [of i] psf_okD(6) [OF ok, of i x] by (cases "i = ?n") auto
  moreover have "\<forall>e\<in>set (ps_entries p'). pe_fmt e \<in> {FmtBinary, FmtText, FmtInteger} \<and> pe_max_len e < 2 ^ 32"
    using ok es by (auto simp: psf_ok_def Let_def)
  ultimately show ?thesis unfolding psf_ok_def Let_def es(1) by simp
qed

lemma psf_ok_update:
  assumes ok: "psf_ok p" and i: "i < length (ps_entries p)"
    and es: "ps_entries p' = (ps_entries p)[i := e]" "pe_fmt e = pe_fmt (ps_entries p ! i)" "pe_max_len e < 2 ^ 32"
    and maps: "\<And>j. (ps_binaries p' j \<noteq> None) = (ps_binaries p j \<noteq> None) \<and> (ps_strings p' j \<noteq> None) = (ps_strings p j \<noteq> None) \<and>
      (ps_integers p' j \<noteq> None) = (ps_integers p j \<noteq> None)"
    and range: "\<And>j x. ps_integers p' j = Some x \<Longrightarrow> - (2 ^ 31) \<le> x \<and> x < 2 ^ 31"
  shows "psf_ok p'"
proof -
  have fmt: "pe_fmt ((ps_entries p)[i := e] ! j) = pe_fmt (ps_entries p ! j)" for j using es i by (cases "j = i") simp_all
  have "pe_fmt e' \<in> {FmtBinary, FmtText, FmtInteger} \<and> pe_max_len e' < 2 ^ 32" if "e' \<in> set (ps_entries p')" for e'
  proof -
    have "e' = e \<or> e' \<in> set (ps_entries p)" using that set_update_subset_insert [of "ps_entries p" i e] unfolding es(1) by blast
    moreover have "pe_fmt e \<in> {FmtBinary, FmtText, FmtInteger}" unfolding es(2) by (rule psf_okD(4) [OF ok i])
    ultimately show ?thesis using es(3) ok unfolding psf_ok_def Let_def by blast
  qed
  then show ?thesis using maps range psf_okD(1-3) [OF ok] unfolding psf_ok_def Let_def es(1) by (simp add: fmt)
qed

text \<open>One operation, for each format: a new entry, an entry that stays, and an entry that changes.\<close>

lemma add_cases:
  assumes ok: "psf_ok p" and i: "i = FindEntry key p"
  obtains (fresh) "i = length (ps_entries p)" "psf_map p key = None"
    | (present) y where "i < length (ps_entries p)" "psf_map p key = Some y" "psf_value_at p i = Some y" "value_fmt y = pe_fmt (ps_entries p ! i)"
proof (cases "i < length (ps_entries p)")
  case True
  then show ?thesis using value_at_some [OF ok True] present i by (auto simp: psf_map_def Let_def)
next
  case False
  then show ?thesis using fresh psf_map_none [OF ok, of key] FindEntry_le [of key p] i by simp
qed

text \<open>The contract of a format: its map of values can be read and written on its own.\<close>

locale psf_field =
  fixes fmt :: nat and field :: "psf \<Rightarrow> nat \<Rightarrow> 'a option" and put :: "(nat \<Rightarrow> 'a option) \<Rightarrow> psf \<Rightarrow> psf"
    and inj :: "'a \<Rightarrow> psf_value" and good :: "'a \<Rightarrow> bool"
  assumes inj_fmt: "value_fmt (inj x) = fmt"
    and put_entries: "ps_entries (put f p) = ps_entries p" and field_put: "field (put f p) = f"
    and field_entries: "field (p\<lparr>ps_entries := es\<rparr>) = field p"
    and value_here: "pe_fmt (ps_entries p ! i) = fmt \<Longrightarrow> psf_value_at p i = map_option inj (field p i)"
    and value_there: "pe_fmt (es ! i) = pe_fmt (ps_entries p ! i) \<Longrightarrow> pe_fmt (ps_entries p ! i) \<noteq> fmt \<Longrightarrow>
      psf_value_at (put f (p\<lparr>ps_entries := es\<rparr>)) i = psf_value_at p i"
    and has: "psf_ok p \<Longrightarrow> field p i \<noteq> None \<longleftrightarrow> i < length (ps_entries p) \<and> pe_fmt (ps_entries p ! i) = fmt"
    and ok_new: "psf_ok p \<Longrightarrow> good x \<Longrightarrow> m < 2 ^ 32 \<Longrightarrow> psf_ok (put ((field p)(length (ps_entries p) \<mapsto> x))
      (p\<lparr>ps_entries := ps_entries p @ [\<lparr>pe_key = key, pe_fmt = fmt, pe_max_len = m\<rparr>]\<rparr>))"
    and ok_update: "psf_ok p \<Longrightarrow> i < length (ps_entries p) \<Longrightarrow> pe_fmt (ps_entries p ! i) = fmt \<Longrightarrow> good x \<Longrightarrow> m < 2 ^ 32 \<Longrightarrow>
      psf_ok (put ((field p)(i \<mapsto> x)) (p\<lparr>ps_entries := (ps_entries p)[i := (ps_entries p ! i)\<lparr>pe_max_len := m\<rparr>]\<rparr>))"
begin

lemma add_new:
  assumes ok: "psf_ok p" and fresh: "FindEntry key p = length (ps_entries p)" and x: "good x" and m: "m < 2 ^ 32"
  shows "\<exists>p'. psf_add fmt field put m key x update p = Some p' \<and> psf_map p' = (psf_map p)(key \<mapsto> inj x) \<and> psf_ok p'"
proof (intro exI conjI)
  let ?n = "length (ps_entries p)" and ?e = "\<lparr>pe_key = key, pe_fmt = fmt, pe_max_len = m\<rparr>"
  let ?p = "put ((field p)(?n \<mapsto> x)) (p\<lparr>ps_entries := ps_entries p @ [?e]\<rparr>)"
  have none: "field p ?n = None" using has [OF ok, of ?n] by auto
  show "psf_add fmt field put m key x update p = Some ?p" using fresh none by (simp add: psf_add_def Let_def emplace_def)
  show "psf_ok ?p" by (rule ok_new [OF ok x m])
  show "psf_map ?p = (psf_map p)(key \<mapsto> inj x)"
  proof (rule map_after_new [OF ok fresh, where e = ?e])
    show "psf_value_at ?p ?n = Some (inj x)" by (subst value_here) (simp_all add: put_entries field_put)
    show "psf_value_at ?p i = psf_value_at p i" if i: "i < ?n" for i
    proof (cases "pe_fmt (ps_entries p ! i) = fmt")
      case True
      then show ?thesis using i value_here [of ?p i] value_here [of p i] by (simp add: put_entries field_put nth_append)
    next
      case False
      then show ?thesis using i value_there [of "ps_entries p @ [?e]" i p] by (simp add: nth_append)
    qed
  qed (simp_all add: put_entries)
qed

lemma add_update:
  assumes ok: "psf_ok p" and i: "i = FindEntry key p" "i < length (ps_entries p)" and f: "pe_fmt (ps_entries p ! i) = fmt"
    and x: "good x" and m: "m < 2 ^ 32"
  shows "\<exists>p'. psf_add fmt field put m key x True p = Some p' \<and> psf_map p' = (psf_map p)(key \<mapsto> inj x) \<and> psf_ok p'"
proof (intro exI conjI)
  let ?e = "(ps_entries p ! i)\<lparr>pe_max_len := m\<rparr>"
  let ?p = "put ((field p)(i \<mapsto> x)) (p\<lparr>ps_entries := (ps_entries p)[i := ?e]\<rparr>)"
  have some: "field p i \<noteq> None" using has [OF ok, of i] i f by simp
  show "psf_add fmt field put m key x True p = Some ?p"
    using i f some unfolding psf_add_def Let_def i(1) [symmetric] by (simp only: simp_thms if_True if_False)
  show "psf_ok ?p" by (rule ok_update [OF ok i(2) f x m])
  have fmts: "pe_fmt ((ps_entries p)[i := ?e] ! j) = pe_fmt (ps_entries p ! j)" for j using i by (cases "j = i") simp_all
  show "psf_map ?p = (psf_map p)(key \<mapsto> inj x)"
  proof (rule map_after_update [OF i, where e = ?e])
    show "pe_key ?e = key" using FindEntry_at i by simp
    show "psf_value_at ?p i = Some (inj x)" by (subst value_here) (simp_all add: put_entries field_put fmts f)
    show "psf_value_at ?p j = psf_value_at p j" if j: "j \<noteq> i" "j < length (ps_entries p)" for j
    proof (cases "pe_fmt (ps_entries p ! j) = fmt")
      case True
      then show ?thesis using j value_here [of ?p j] value_here [of p j] by (simp add: put_entries field_put)
    next
      case False
      then show ?thesis using j value_there [of "(ps_entries p)[i := ?e]" j p] by simp
    qed
  qed (simp add: put_entries)
qed

lemma add_implements_spec:
  assumes ok: "psf_ok p" and x: "good x" and m: "m < 2 ^ 32"
  shows "map_option psf_map (psf_add fmt field put m key x update p) = add_spec key (inj x) update (psf_map p)"
    and "psf_add fmt field put m key x update p = Some p' \<Longrightarrow> psf_ok p'"
proof -
  define i where "i = FindEntry key p"
  have "map_option psf_map (psf_add fmt field put m key x update p) = add_spec key (inj x) update (psf_map p) \<and>
    (\<forall>p'. psf_add fmt field put m key x update p = Some p' \<longrightarrow> psf_ok p')"
  proof (cases rule: add_cases [OF ok i_def, case_names fresh present])
    case fresh
    then show ?thesis using add_new [OF ok _ x m, of key update] by (auto simp: i_def add_spec_def)
  next
    case (present y)
    show ?thesis
    proof (cases "update \<and> pe_fmt (ps_entries p ! i) = fmt")
      case True
      then show ?thesis using add_update [OF ok i_def present(1) _ x m] present by (auto simp: add_spec_def inj_fmt)
    next
      case False
      then have "psf_add fmt field put m key x update p = (if \<not> update then Some p else None)"
        using present(1) unfolding psf_add_def Let_def i_def by auto
      then show ?thesis using False present ok by (auto simp: add_spec_def inj_fmt)
    qed
  qed
  then show "map_option psf_map (psf_add fmt field put m key x update p) = add_spec key (inj x) update (psf_map p)"
    and "psf_add fmt field put m key x update p = Some p' \<Longrightarrow> psf_ok p'" by blast+
qed

end

lemma psf_no_value:
  assumes "psf_ok p"
  shows "ps_binaries p (length (ps_entries p)) = None" "ps_strings p (length (ps_entries p)) = None" "ps_integers p (length (ps_entries p)) = None"
  using psf_okD(1-3) [OF assms, of "length (ps_entries p)"] by simp_all

text \<open>The three formats.\<close>

interpretation binaries: psf_field FmtBinary ps_binaries "\<lambda>m. ps_binaries_update (\<lambda>_. m)" VBin "\<lambda>_. True"
proof
  fix p :: psf and m i :: nat and x :: bytes and key :: bytes
  assume ok: "psf_ok p" and good: "(\<lambda>_. True) x" and m: "m < 2 ^ 32"
  note none = psf_no_value [OF ok] and range = psf_okD(6) [OF ok]
  show "psf_ok (ps_binaries_update (\<lambda>_. (ps_binaries p)(length (ps_entries p) \<mapsto> x))
      (p\<lparr>ps_entries := ps_entries p @ [\<lparr>pe_key = key, pe_fmt = FmtBinary, pe_max_len = m\<rparr>]\<rparr>))"
    by (rule psf_ok_new [OF ok, where e = "\<lparr>pe_key = key, pe_fmt = FmtBinary, pe_max_len = m\<rparr>"]) (use none m good in simp_all)
  assume i: "i < length (ps_entries p)" "pe_fmt (ps_entries p ! i) = FmtBinary"
  then have some: "ps_binaries p i \<noteq> None" using psf_okD(1) [OF ok, of i] by simp
  show "psf_ok (ps_binaries_update (\<lambda>_. (ps_binaries p)(i \<mapsto> x)) (p\<lparr>ps_entries := (ps_entries p)[i := (ps_entries p ! i)\<lparr>pe_max_len := m\<rparr>]\<rparr>))"
    by (rule psf_ok_update [OF ok i(1), where e = "(ps_entries p ! i)\<lparr>pe_max_len := m\<rparr>"])
      (use some m range good in \<open>simp_all split: if_splits\<close>)
next
  show "(ps_binaries p i \<noteq> None) = (i < length (ps_entries p) \<and> pe_fmt (ps_entries p ! i) = FmtBinary)" if "psf_ok p" for p i
    by (rule psf_okD(1) [OF that])
qed (simp_all add: psf_value_at_def Let_def)

interpretation strings: psf_field FmtText ps_strings "\<lambda>m. ps_strings_update (\<lambda>_. m)" VStr "\<lambda>_. True"
proof
  fix p :: psf and m i :: nat and x :: bytes and key :: bytes
  assume ok: "psf_ok p" and good: "(\<lambda>_. True) x" and m: "m < 2 ^ 32"
  note none = psf_no_value [OF ok] and range = psf_okD(6) [OF ok]
  show "psf_ok (ps_strings_update (\<lambda>_. (ps_strings p)(length (ps_entries p) \<mapsto> x))
      (p\<lparr>ps_entries := ps_entries p @ [\<lparr>pe_key = key, pe_fmt = FmtText, pe_max_len = m\<rparr>]\<rparr>))"
    by (rule psf_ok_new [OF ok, where e = "\<lparr>pe_key = key, pe_fmt = FmtText, pe_max_len = m\<rparr>"]) (use none m good in simp_all)
  assume i: "i < length (ps_entries p)" "pe_fmt (ps_entries p ! i) = FmtText"
  then have some: "ps_strings p i \<noteq> None" using psf_okD(2) [OF ok, of i] by simp
  show "psf_ok (ps_strings_update (\<lambda>_. (ps_strings p)(i \<mapsto> x)) (p\<lparr>ps_entries := (ps_entries p)[i := (ps_entries p ! i)\<lparr>pe_max_len := m\<rparr>]\<rparr>))"
    by (rule psf_ok_update [OF ok i(1), where e = "(ps_entries p ! i)\<lparr>pe_max_len := m\<rparr>"])
      (use some m range good in \<open>simp_all split: if_splits\<close>)
next
  show "(ps_strings p i \<noteq> None) = (i < length (ps_entries p) \<and> pe_fmt (ps_entries p ! i) = FmtText)" if "psf_ok p" for p i
    by (rule psf_okD(2) [OF that])
qed (simp_all add: psf_value_at_def Let_def)

interpretation integers: psf_field FmtInteger ps_integers "\<lambda>m. ps_integers_update (\<lambda>_. m)" VInt "\<lambda>x. - (2 ^ 31) \<le> x \<and> x < 2 ^ 31"
proof
  fix p :: psf and m i :: nat and x :: s32 and key :: bytes
  assume ok: "psf_ok p" and good: "(\<lambda>x. - (2 ^ 31) \<le> x \<and> x < 2 ^ 31) x" and m: "m < 2 ^ 32"
  note none = psf_no_value [OF ok] and range = psf_okD(6) [OF ok]
  show "psf_ok (ps_integers_update (\<lambda>_. (ps_integers p)(length (ps_entries p) \<mapsto> x))
      (p\<lparr>ps_entries := ps_entries p @ [\<lparr>pe_key = key, pe_fmt = FmtInteger, pe_max_len = m\<rparr>]\<rparr>))"
    by (rule psf_ok_new [OF ok, where e = "\<lparr>pe_key = key, pe_fmt = FmtInteger, pe_max_len = m\<rparr>"]) (use none m good in simp_all)
  assume i: "i < length (ps_entries p)" "pe_fmt (ps_entries p ! i) = FmtInteger"
  then have some: "ps_integers p i \<noteq> None" using psf_okD(3) [OF ok, of i] by simp
  show "psf_ok (ps_integers_update (\<lambda>_. (ps_integers p)(i \<mapsto> x)) (p\<lparr>ps_entries := (ps_entries p)[i := (ps_entries p ! i)\<lparr>pe_max_len := m\<rparr>]\<rparr>))"
    by (rule psf_ok_update [OF ok i(1), where e = "(ps_entries p ! i)\<lparr>pe_max_len := m\<rparr>"])
      (use some m range good in \<open>simp_all split: if_splits\<close>)
next
  show "(ps_integers p i \<noteq> None) = (i < length (ps_entries p) \<and> pe_fmt (ps_entries p ! i) = FmtInteger)" if "psf_ok p" for p i
    by (rule psf_okD(3) [OF that])
qed (simp_all add: psf_value_at_def Let_def)


subsection \<open>Properties\<close>

text \<open>
  The operations on a PSF implement a map from keys to values.  Adding adds or replaces the one value, or leaves
  the map alone when the key is there and \<^verbatim>\<open>update\<close> is not given, or aborts when the format would change; reading
  reads the value of the key; and every reachable PSF is well-formed, one value for every entry.
\<close>

theorem psf_implements_map:
  assumes ok: "psf_ok p" and z: "- (2 ^ 31) \<le> z" "z < 2 ^ 31"
  shows "map_option psf_map (AddBinary key x update p) = add_spec key (VBin x) update (psf_map p) \<and>
    map_option psf_map (AddString key y update p) = add_spec key (VStr y) update (psf_map p) \<and>
    map_option psf_map (AddInteger key z update p) = add_spec key (VInt z) update (psf_map p) \<and>
    (\<forall>p'. Some p' \<in> {AddBinary key x update p, AddString key y update p, AddInteger key z update p} \<longrightarrow> psf_ok p') \<and>
    GetBinary key p = (case psf_map p key of None \<Rightarrow> Some None | Some (VBin x) \<Rightarrow> Some (Some x) | _ \<Rightarrow> None) \<and>
    GetString key p = (case psf_map p key of None \<Rightarrow> Some None | Some (VStr x) \<Rightarrow> Some (Some x) | _ \<Rightarrow> None) \<and>
    GetInteger key p = (case psf_map p key of None \<Rightarrow> Some None | Some (VInt x) \<Rightarrow> Some (Some x) | _ \<Rightarrow> None)"
proof -
  have m: "get_max_size key (length x mod 2 ^ 32) < 2 ^ 32" "get_max_size key (Suc (length y) mod 2 ^ 32) < 2 ^ 32" "(4::nat) < 2 ^ 32"
    by (simp_all only: get_max_size_small mod_less_divisor zero_less_power zero_less_numeral) simp
  have "psf_ok p'" if "Some p' \<in> {AddBinary key x update p, AddString key y update p, AddInteger key z update p}" for p'
    using that binaries.add_implements_spec(2) [OF ok TrueI m(1), of key x update p']
      strings.add_implements_spec(2) [OF ok TrueI m(2), of key y update p'] integers.add_implements_spec(2) [OF ok conjI [OF z] m(3), of key update p']
    by (auto simp: AddBinary_def AddString_def AddInteger_def)
  then show ?thesis
    using binaries.add_implements_spec(1) [OF ok TrueI m(1), of key x update] strings.add_implements_spec(1) [OF ok TrueI m(2), of key y update]
      integers.add_implements_spec(1) [OF ok conjI [OF z] m(3), of key update] get_is_map [OF ok, of key]
    by (simp add: AddBinary_def AddString_def AddInteger_def)
qed

lemma psf_empty_ok: "psf_ok psf_empty"
  by (simp add: psf_ok_def psf_empty_def)

theorem psf_implements_map_witness:
  "map_option psf_map (AddString [84] [72, 105] False psf_empty) = Some [[84] \<mapsto> VStr [72, 105]]"
proof -
  have "psf_map psf_empty = (\<lambda>_. None)" by (simp add: psf_map_def psf_empty_def FindEntry_def fun_eq_iff)
  then show ?thesis using psf_implements_map [OF psf_empty_ok, of 0 "[84]" "[]" False "[72, 105]"] by (simp add: add_spec_def)
qed

lemma encode_data_succeeds:
  "length rs = length es \<Longrightarrow> encode_data p base offset i rs es rest \<noteq> None \<longleftrightarrow>
    (\<forall>j<length es. \<exists>x. value_bytes p (i + j) (pe_fmt (es ! j)) = Some x \<and>
       wrap_s32 (int (length x mod 2 ^ 32)) \<le> wrap_s32 (int (r_param_max_len (rs ! j))))"
proof (induction es arbitrary: i rs rest)
  case (Cons e es)
  obtain r rs1 where rs: "rs = r # rs1" "length rs1 = length es" using Cons.prems by (cases rs) auto
  note IH = Cons.IH [OF rs(2), of "Suc i"]
  show ?case
  proof (cases "value_bytes p i (pe_fmt e)")
    case None
    then show ?thesis by (auto simp: rs Let_def intro!: exI [of _ 0])
  next
    case (Some x)
    show ?thesis
    proof (cases "wrap_s32 (int (length x mod 2 ^ 32)) \<le> wrap_s32 (int (r_param_max_len r))")
      case True
      let ?R = "(rest @ replicate (pad4 (base + length rest)) 0) @ x @
        replicate (nat (wrap_s32 (int (r_param_max_len r)) - wrap_s32 (int (length x mod 2 ^ 32)))) 0"
      have "encode_data p base offset i rs (e # es) rest \<noteq> None \<longleftrightarrow> encode_data p base offset (Suc i) rs1 es ?R \<noteq> None"
        using Some True by (cases "encode_data p base offset (Suc i) rs1 es ?R") (auto simp: rs Let_def)
      moreover have "(\<forall>j<length (e # es). P j) \<longleftrightarrow> P 0 \<and> (\<forall>j<length es. P (Suc j))" for P by (auto simp: less_Suc_eq_0_disj)
      ultimately show ?thesis using IH Some True by (simp add: rs)
    next
      case False
      then show ?thesis using Some by (auto simp: rs Let_def intro!: exI [of _ 0])
    qed
  qed
qed simp

text \<open>
  \<^verbatim>\<open>Encode\<close> aborts exactly when a value is longer than the maximal length of its entry, and adding allows that: a
  title of twelve bytes or more, whose terminating zero does not fit, is stored without complaint and aborts the
  emulator when the file is written.  (Values and lengths below two gigabytes.)
\<close>

theorem psf_encode_aborts:
  assumes ok: "psf_ok p" and small: "\<forall>e\<in>set (ps_entries p). pe_max_len e < 2 ^ 31"
    "\<forall>i x. value_bytes p i (pe_fmt (ps_entries p ! i)) = Some x \<longrightarrow> length x < 2 ^ 31"
    and title: "12 \<le> length title" "length title < 2 ^ 31 - 1"
  shows "(psf_Encode p = None \<longleftrightarrow> (\<exists>i<length (ps_entries p). \<exists>x. value_bytes p i (pe_fmt (ps_entries p ! i)) = Some x \<and>
      pe_max_len (ps_entries p ! i) < length x)) \<and>
    (\<exists>q. AddString (bytes_of ''TITLE_ID'') title False psf_empty = Some q \<and> psf_Encode q = None)"
proof
  let ?es = "ps_entries p"
  obtain rs keys where k: "encode_keys ?es [] = (rs, keys)" by force
  note K = encode_keys_writes [OF k]
  let ?base = "20 + 16 * length ?es"
  have "psf_Encode p \<noteq> None \<longleftrightarrow> encode_data p ?base (?base + length keys) 0 rs ?es keys \<noteq> None"
    unfolding psf_Encode_def Let_def k by (auto split: option.splits)
  also have "\<dots> \<longleftrightarrow> (\<forall>j<length ?es. \<exists>x. value_bytes p j (pe_fmt (?es ! j)) = Some x \<and> length x \<le> pe_max_len (?es ! j))"
  proof -
    have "wrap_s32 (int (length x mod 2 ^ 32)) = int (length x) \<and> wrap_s32 (int (r_param_max_len (rs ! j))) = int (pe_max_len (?es ! j))"
      if "j < length ?es" "value_bytes p j (pe_fmt (?es ! j)) = Some x" for j x
    proof -
      have "length x < 2 ^ 31" "pe_max_len (?es ! j) < 2 ^ 31" using small that by (blast, simp)
      then show ?thesis using K that(1) by (simp add: wrap_s32_exact)
    qed
    then show ?thesis using encode_data_succeeds [of rs ?es p ?base "?base + length keys" 0 keys] K by (auto simp del: not_None_eq)
  qed
  finally have "psf_Encode p \<noteq> None \<longleftrightarrow> (\<forall>j<length ?es. \<exists>x. value_bytes p j (pe_fmt (?es ! j)) = Some x \<and> length x \<le> pe_max_len (?es ! j))" .
  moreover have "\<exists>x. value_bytes p j (pe_fmt (?es ! j)) = Some x" if "j < length ?es" for j
    using psf_okD(1-4) [OF ok, of j] that by (auto simp: value_bytes_def)
  ultimately show "psf_Encode p = None \<longleftrightarrow> (\<exists>i<length ?es. \<exists>x. value_bytes p i (pe_fmt (?es ! i)) = Some x \<and> pe_max_len (?es ! i) < length x)"
    by (metis leD leI option.inject)
next
  let ?key = "bytes_of ''TITLE_ID''"
  define q where "q = psf_empty\<lparr>ps_entries := [\<lparr>pe_key = ?key, pe_fmt = FmtText, pe_max_len = 12\<rparr>], ps_strings := [0 \<mapsto> title]\<rparr>"
  have "get_max_size ?key n = 12" for n by (simp add: get_max_size_def psf_known_max_sizes_def bytes_of_def)
  then have "AddString ?key title False psf_empty = Some q"
    by (simp add: AddString_def psf_add_def FindEntry_def psf_empty_def q_def emplace_def)
  moreover have "psf_Encode q = None"
  proof -
    have v: "value_bytes q 0 FmtText = Some (title @ [0])" by (simp add: q_def value_bytes_def)
    have w: "wrap_s32 (int (Suc (length title) mod 2 ^ 32)) = int (Suc (length title))" using title by (simp add: wrap_s32_exact)
    have m: "FmtText mod 65536 = FmtText" "wrap_s32 12 = 12" by (simp_all add: FmtText_def wrap_s32_exact)
    have es: "ps_entries q = [\<lparr>pe_key = ?key, pe_fmt = FmtText, pe_max_len = 12\<rparr>]" by (simp add: q_def)
    show ?thesis unfolding psf_Encode_def es using title w by (simp add: Let_def v m)
  qed
  ultimately show "\<exists>q. AddString ?key title False psf_empty = Some q \<and> psf_Encode q = None" by blast
qed

theorem psf_encode_aborts_witness:
  "psf_Encode psf_empty \<noteq> None \<and>
   (\<exists>q. AddString (bytes_of ''TITLE_ID'') (bytes_of ''CUSA00000-001'') False psf_empty = Some q \<and> psf_Encode q = None)"
proof -
  have none: "value_bytes psf_empty i f = None" for i f by (simp add: value_bytes_def psf_empty_def)
  have es: "ps_entries psf_empty = []" by (simp add: psf_empty_def)
  show ?thesis using psf_encode_aborts [OF psf_empty_ok, of "bytes_of ''CUSA00000-001''"] by (simp add: none es bytes_of_def)
qed

end
