(* ===== verification/Orbit_NpBind.thy ===== *)
theory Orbit_NpBind
  imports Orbit_Psf
begin

text \<open>
  NPBind files (\<^verbatim>\<open>src/core/file_format/npbind.h\<close>, \<^verbatim>\<open>npbind.cpp\<close>): a header, bodies of four entries of type, size and
  data each, with padding between them, and a digest at the end.
\<close>

subsection \<open>Definitions\<close>

definition NPBIND_MAGIC :: nat where "NPBIND_MAGIC = 0xD294A018"

record np_header =
  np_magic :: nat
  np_version :: nat
  np_file_size :: nat
  np_entry_size :: nat
  np_num_entries :: nat

definition sizeof_NpBindHeader :: nat where "sizeof_NpBindHeader = 128"

definition parse_np_header :: "bytes \<Rightarrow> np_header" where
  "parse_np_header b =
     \<lparr>np_magic = be_nat (take 4 b), np_version = be_nat (take 4 (drop 4 b)), np_file_size = be_nat (take 8 (drop 8 b)),
      np_entry_size = be_nat (take 8 (drop 16 b)), np_num_entries = be_nat (take 8 (drop 24 b))\<rparr>"

record np_entry =
  ne_type :: nat
  ne_size :: nat
  ne_data :: bytes

record np_body =
  nb_npcommid :: np_entry
  nb_trophy :: np_entry
  nb_unk1 :: np_entry
  nb_unk2 :: np_entry

record np_file =
  nf_header :: np_header
  nf_bodies :: "np_body list"
  nf_digest :: bytes

definition np_Clear :: np_file where
  "np_Clear = \<lparr>nf_header = \<lparr>np_magic = 0, np_version = 0, np_file_size = 0, np_entry_size = 0, np_num_entries = 0\<rparr>,
     nf_bodies = [], nf_digest = replicate 20 0\<rparr>"

text \<open>\<^verbatim>\<open>read_entry\<close>: the entry and the offset behind it, or \<open>None\<close> for \<^verbatim>\<open>false\<close>.\<close>

definition read_entry :: "bytes \<Rightarrow> nat \<Rightarrow> (np_entry \<times> nat) option outcome" where
  "read_entry b off =
     (if off + 4 > length b then Normal None
      else and_then (read_bytes off 2 b) (\<lambda>t. and_then (read_bytes (off + 2) 2 b) (\<lambda>n.
        let n1 = be_nat n; off1 = off + 4 in
        if off1 + n1 > length b then Normal None
        else and_then (read_bytes off1 n1 b) (\<lambda>d. Normal (Some (\<lparr>ne_type = be_nat t, ne_size = n1, ne_data = d\<rparr>, off1 + n1))))))"

definition and_read :: "'a option outcome \<Rightarrow> ('a \<Rightarrow> 'b option outcome) \<Rightarrow> 'b option outcome" where
  "and_read x f = and_then x (\<lambda>r. case r of None \<Rightarrow> Normal None | Some y \<Rightarrow> f y)"

definition read_body :: "bytes \<Rightarrow> nat \<Rightarrow> (np_body \<times> nat) option outcome" where
  "read_body b off =
     and_read (read_entry b off) (\<lambda>(e1, off1). and_read (read_entry b off1) (\<lambda>(e2, off2).
     and_read (read_entry b off2) (\<lambda>(e3, off3). and_read (read_entry b off3) (\<lambda>(e4, off4).
       Normal (Some (\<lparr>nb_npcommid = e1, nb_trophy = e2, nb_unk1 = e3, nb_unk2 = e4\<rparr>, off4))))))"

definition body_padding :: nat where "body_padding = 0x98"

primrec read_bodies :: "bytes \<Rightarrow> nat \<Rightarrow> nat \<Rightarrow> (bool \<times> np_body list) outcome" where
  "read_bodies b 0 off = Normal (True, [])"
| "read_bodies b (Suc n) off =
     (if off + 4 * 4 > length b then Normal (False, [])
      else and_then (read_body b off) (\<lambda>r. case r of
             None \<Rightarrow> Normal (False, [])
           | Some (body, off1) \<Rightarrow>
               let off2 = (if off1 + body_padding \<le> length b then off1 + body_padding else length b)
               in and_then (read_bodies b n off2) (\<lambda>(ok, bodies). Normal (ok, body # bodies))))"

text \<open>
  \<^verbatim>\<open>Load\<close> of a file with the given contents, \<open>None\<close> when it cannot be read.  \<open>can_reserve\<close>: the host can reserve
  memory for that many bodies; otherwise \<^verbatim>\<open>reserve\<close> throws.
\<close>

definition np_Load :: "(nat \<Rightarrow> bool) \<Rightarrow> bytes option \<Rightarrow> (bool \<times> np_file) outcome" where
  "np_Load can_reserve contents =
     (case contents of
        None \<Rightarrow> Normal (False, np_Clear)
      | Some b \<Rightarrow>
          if length b < sizeof_NpBindHeader then Normal (False, np_Clear)
          else and_then (read_bytes 0 sizeof_NpBindHeader b) (\<lambda>hb.
            let h = parse_np_header hb; f = np_Clear\<lparr>nf_header := h\<rparr> in
            if np_magic h \<noteq> NPBIND_MAGIC then Normal (False, f)
            else if \<not> can_reserve (np_num_entries h) then Aborts
            else and_then (read_bodies b (np_num_entries h) sizeof_NpBindHeader) (\<lambda>(ok, bodies).
              let f1 = f\<lparr>nf_bodies := bodies\<rparr> in
              if \<not> ok then Normal (False, f1)
              else if length b \<ge> 20
                   then and_then (read_bytes (length b - 20) 20 b) (\<lambda>d. Normal (True, f1\<lparr>nf_digest := d\<rparr>))
                   else Normal (True, f1))))"

definition GetNpCommIds :: "np_file \<Rightarrow> bytes list" where
  "GetNpCommIds f = map ne_data (filter (\<lambda>e. ne_data e \<noteq> []) (map nb_npcommid (nf_bodies f)))"

definition np_IsValid :: "np_file \<Rightarrow> bool" where
  "np_IsValid f \<longleftrightarrow> np_magic (nf_header f) = NPBIND_MAGIC"

definition GetBody :: "nat \<Rightarrow> np_file \<Rightarrow> np_body option" where
  "GetBody i f = (if i < length (nf_bodies f) then Some (nf_bodies f ! i) else None)"

subsection \<open>Reads stay inside\<close>

definition np_entry_ok :: "np_entry \<Rightarrow> bool" where
  "np_entry_ok e \<longleftrightarrow> length (ne_data e) = ne_size e"

definition np_body_ok :: "np_body \<Rightarrow> bool" where
  "np_body_ok x \<longleftrightarrow> np_entry_ok (nb_npcommid x) \<and> np_entry_ok (nb_trophy x) \<and> np_entry_ok (nb_unk1 x) \<and> np_entry_ok (nb_unk2 x)"

text \<open>The read failed, or gave a good value, moved on by at least \<open>n\<close> bytes and stayed inside.\<close>

definition good_read :: "bytes \<Rightarrow> nat \<Rightarrow> nat \<Rightarrow> ('a \<Rightarrow> bool) \<Rightarrow> ('a \<times> nat) option outcome \<Rightarrow> bool" where
  "good_read b off n P r \<longleftrightarrow> r = Normal None \<or> (\<exists>x off'. r = Normal (Some (x, off')) \<and> P x \<and> off + n \<le> off' \<and> off' \<le> length b)"

lemma good_read_entry: "good_read b off 4 np_entry_ok (read_entry b off)"
  by (simp add: good_read_def read_entry_def read_bytes_def np_entry_ok_def Let_def)

lemma good_read_then:
  assumes "good_read b off m P r" and "\<And>x off'. P x \<Longrightarrow> off' \<le> length b \<Longrightarrow> good_read b off' n Q (f (x, off'))"
  shows "good_read b off (m + n) Q (and_read r f)"
proof (cases "r = Normal None")
  case False
  then obtain x off' where r: "r = Normal (Some (x, off'))" "P x" "off + m \<le> off'" "off' \<le> length b" using assms(1) by (auto simp: good_read_def)
  then show ?thesis using assms(2) [OF r(2,4)] by (auto simp: good_read_def and_read_def)
qed (simp add: good_read_def and_read_def)

lemma good_read_body: "good_read b off 16 np_body_ok (read_body b off)"
proof -
  have "good_read b off (4 + (4 + (4 + (4 + 0)))) np_body_ok (read_body b off)"
    unfolding read_body_def
    by (rule good_read_then [OF good_read_entry], simp only: prod.case)+ (simp add: good_read_def np_body_ok_def)
  then show ?thesis by simp
qed

lemma read_bodies_result:
  "off \<le> length b \<Longrightarrow> \<exists>ok bodies. read_bodies b n off = Normal (ok, bodies) \<and> (\<forall>x\<in>set bodies. np_body_ok x) \<and>
     length bodies \<le> n \<and> 16 * length bodies \<le> length b - off \<and> (ok \<longrightarrow> length bodies = n)"
proof (induction n arbitrary: off)
  case (Suc n)
  show ?case
  proof (cases "off + 16 > length b \<or> read_body b off = Normal None")
    case True
    then show ?thesis using Suc.prems by auto
  next
    case False
    then obtain x off1 where x: "read_body b off = Normal (Some (x, off1))" "np_body_ok x" "off + 16 \<le> off1" "off1 \<le> length b"
      using good_read_body [of b off] by (auto simp: good_read_def)
    define off2 where "off2 = (if off1 + body_padding \<le> length b then off1 + body_padding else length b)"
    have o: "off1 \<le> off2" "off2 \<le> length b" using x(4) by (auto simp: off2_def)
    obtain ok bodies where IH: "read_bodies b n off2 = Normal (ok, bodies)" "\<forall>x\<in>set bodies. np_body_ok x" "length bodies \<le> n"
        "16 * length bodies \<le> length b - off2" "ok \<longrightarrow> length bodies = n" using Suc.IH [OF o(2)] by blast
    then show ?thesis using False x o by (auto simp: Let_def off2_def [symmetric])
  qed
qed auto

text \<open>
  C38: \<^verbatim>\<open>Load\<close> never reads outside the file, whatever its contents.  It throws only when the memory for the bodies
  cannot be reserved; every entry it keeps has as many bytes of data as its size says; there are at most as many
  bodies as fit into the file, at sixteen bytes each; and when it succeeds it has read all that the header announces.
\<close>

theorem np_load_in_bounds:
  "np_Load can_reserve contents \<noteq> Outside \<and>
   (np_Load can_reserve contents = Aborts \<longrightarrow>
      (\<exists>b. contents = Some b \<and> \<not> can_reserve (np_num_entries (parse_np_header (take sizeof_NpBindHeader b))))) \<and>
   (\<forall>ok f b. np_Load can_reserve contents = Normal (ok, f) \<longrightarrow> contents = Some b \<longrightarrow>
      (\<forall>x\<in>set (nf_bodies f). np_body_ok x) \<and> 16 * length (nf_bodies f) \<le> length b \<and> length (nf_digest f) = 20 \<and>
      (ok \<longrightarrow> np_IsValid f \<and> length (nf_bodies f) = np_num_entries (nf_header f)))"
proof (cases contents)
  case None
  then show ?thesis by (simp add: np_Load_def)
next
  case (Some b)
  let ?h = "parse_np_header (take sizeof_NpBindHeader b)"
  show ?thesis
  proof (cases "length b < sizeof_NpBindHeader \<or> np_magic ?h \<noteq> NPBIND_MAGIC \<or> \<not> can_reserve (np_num_entries ?h)")
    case True
    then show ?thesis by (auto simp: np_Load_def Some read_bytes_def Let_def np_Clear_def)
  next
    case False
    then have len: "sizeof_NpBindHeader \<le> length b" and h: "np_magic ?h = NPBIND_MAGIC" "can_reserve (np_num_entries ?h)" by simp_all
    obtain ok bodies where B: "read_bodies b (np_num_entries ?h) sizeof_NpBindHeader = Normal (ok, bodies)" "\<forall>x\<in>set bodies. np_body_ok x"
        "16 * length bodies \<le> length b - sizeof_NpBindHeader" "ok \<longrightarrow> length bodies = np_num_entries ?h"
      using read_bodies_result [OF len, of "np_num_entries ?h"] by blast
    have d: "20 \<le> length b" using len by (simp add: sizeof_NpBindHeader_def)
    define f where "f = np_Clear\<lparr>nf_header := ?h, nf_bodies := bodies\<rparr>"
    have "np_Load can_reserve contents = Normal (ok, if ok then f\<lparr>nf_digest := drop (length b - 20) b\<rparr> else f)"
      using len h B(1) d by (simp add: np_Load_def Some read_bytes_def Let_def f_def)
    moreover have "16 * length bodies \<le> length b" using B(3) by simp
    ultimately show ?thesis using B d h by (auto simp: f_def np_Clear_def np_IsValid_def Some)
  qed
qed

subsection \<open>What is read\<close>

definition np_entry_bytes :: "np_entry \<Rightarrow> bytes" where
  "np_entry_bytes e = bytes_be 2 (ne_type e) @ bytes_be 2 (ne_size e) @ ne_data e"

definition np_body_bytes :: "np_body \<Rightarrow> bytes" where
  "np_body_bytes x = np_entry_bytes (nb_npcommid x) @ np_entry_bytes (nb_trophy x) @ np_entry_bytes (nb_unk1 x) @ np_entry_bytes (nb_unk2 x)"

definition np_header_bytes :: "np_header \<Rightarrow> bytes" where
  "np_header_bytes h = bytes_be 4 (np_magic h) @ bytes_be 4 (np_version h) @ bytes_be 8 (np_file_size h) @
     bytes_be 8 (np_entry_size h) @ bytes_be 8 (np_num_entries h)"

text \<open>Type and size fit their fields.\<close>

definition np_entry_fits :: "np_entry \<Rightarrow> bool" where
  "np_entry_fits e \<longleftrightarrow> np_entry_ok e \<and> ne_type e < 2 ^ 16 \<and> ne_size e < 2 ^ 16"

definition np_body_fits :: "np_body \<Rightarrow> bool" where
  "np_body_fits x \<longleftrightarrow> np_entry_fits (nb_npcommid x) \<and> np_entry_fits (nb_trophy x) \<and> np_entry_fits (nb_unk1 x) \<and> np_entry_fits (nb_unk2 x)"

definition np_header_fits :: "np_header \<Rightarrow> bool" where
  "np_header_fits h \<longleftrightarrow> np_magic h < 2 ^ 32 \<and> np_version h < 2 ^ 32 \<and> np_file_size h < 2 ^ 64 \<and> np_entry_size h < 2 ^ 64 \<and>
     np_num_entries h < 2 ^ 64"

lemma drop_more: "drop off b = xs @ ys \<Longrightarrow> drop (off + length xs) b = ys"
  by (metis append_eq_conv_conj drop_drop add.commute)

lemma length_from_drop: "drop off b = xs @ ys \<Longrightarrow> xs \<noteq> [] \<Longrightarrow> off + length xs \<le> length b"
proof -
  assume "drop off b = xs @ ys" "xs \<noteq> []"
  then have "length b - off = length xs + length ys" "xs \<noteq> []" by (metis length_append length_drop, simp)
  then show ?thesis by (cases "off \<le> length b") auto
qed

lemma read_entry_at:
  assumes at: "drop off b = np_entry_bytes e @ zs" and fits: "np_entry_fits e"
  shows "read_entry b off = Normal (Some (e, off + length (np_entry_bytes e)))"
proof -
  have "4 \<le> length (np_entry_bytes e)" by (simp add: np_entry_bytes_def)
  then have "np_entry_bytes e \<noteq> []" by auto
  then have len: "off + length (np_entry_bytes e) \<le> length b" by (rule length_from_drop [OF at])
  then have l: "off + 4 + ne_size e \<le> length b" using fits by (simp add: np_entry_bytes_def np_entry_fits_def np_entry_ok_def)
  have t: "take 2 (drop off b) = bytes_be 2 (ne_type e)" unfolding at by (simp add: np_entry_bytes_def)
  have n: "take 2 (drop (off + 2) b) = bytes_be 2 (ne_size e)"
    using drop_more [of off b "bytes_be 2 (ne_type e)"] at by (simp add: np_entry_bytes_def)
  have d: "take (ne_size e) (drop (off + 4) b) = ne_data e"
    using drop_more [of off b "bytes_be 2 (ne_type e) @ bytes_be 2 (ne_size e)"] at fits
    by (simp add: np_entry_bytes_def np_entry_fits_def np_entry_ok_def)
  have v: "be_nat (bytes_be 2 (ne_size e)) = ne_size e" "be_nat (bytes_be 2 (ne_type e)) = ne_type e"
    using fits by (simp_all add: be_nat_bytes_be np_entry_fits_def)
  have r: "read_bytes off 2 b = Normal (bytes_be 2 (ne_type e))" "read_bytes (off + 2) 2 b = Normal (bytes_be 2 (ne_size e))"
    "read_bytes (off + 4) (ne_size e) b = Normal (ne_data e)"
    using l by (simp_all add: read_bytes_def t n [simplified] d)
  have "length (np_entry_bytes e) = 4 + ne_size e" using fits by (simp add: np_entry_bytes_def np_entry_fits_def np_entry_ok_def)
  then show ?thesis using l by (simp add: read_entry_def Let_def r r(2) [simplified] v add.assoc)
qed

lemma read_body_at:
  assumes at: "drop off b = np_body_bytes x @ zs" and fits: "np_body_fits x"
  shows "read_body b off = Normal (Some (x, off + length (np_body_bytes x)))"
proof -
  let ?e1 = "np_entry_bytes (nb_npcommid x)" and ?e2 = "np_entry_bytes (nb_trophy x)" and ?e3 = "np_entry_bytes (nb_unk1 x)"
    and ?e4 = "np_entry_bytes (nb_unk2 x)"
  note a1 = at [unfolded np_body_bytes_def append_assoc]
  note a2 = drop_more [OF a1] and f = fits [unfolded np_body_fits_def]
  note a3 = drop_more [OF a2]
  note a4 = drop_more [OF a3]
  show ?thesis
    using f read_entry_at [OF a1] read_entry_at [OF a2] read_entry_at [OF a3] read_entry_at [OF a4]
    by (simp add: read_body_def and_read_def np_body_bytes_def add.assoc)
qed

lemma read_bodies_at:
  assumes "drop off b = concat (map (\<lambda>(x, pad). np_body_bytes x @ pad) xs) @ zs"
    and "\<forall>(x, pad)\<in>set xs. np_body_fits x \<and> length pad = body_padding"
  shows "read_bodies b (length xs) off = Normal (True, map fst xs)"
  using assms
proof (induction xs arbitrary: off)
  case (Cons y xs)
  obtain x pad where y: "y = (x, pad)" by force
  have fits: "np_body_fits x" "length pad = body_padding" using Cons.prems(2) y by auto
  have at: "drop off b = np_body_bytes x @ pad @ concat (map (\<lambda>(x, pad). np_body_bytes x @ pad) xs) @ zs"
    using Cons.prems(1) y by simp
  have "pad \<noteq> []" using fits(2) by (auto simp: body_padding_def)
  then have len: "off + length (np_body_bytes x) + body_padding \<le> length b"
    using length_from_drop [of off b "np_body_bytes x @ pad"] at fits(2) by simp
  have four: "16 \<le> length (np_body_bytes x)" by (simp add: np_body_bytes_def np_entry_bytes_def)
  have rest: "drop (off + length (np_body_bytes x) + body_padding) b = concat (map (\<lambda>(x, pad). np_body_bytes x @ pad) xs) @ zs"
    using drop_more [of off b "np_body_bytes x @ pad"] at fits(2) by (simp add: add.assoc)
  have "read_bodies b (length xs) (off + length (np_body_bytes x) + body_padding) = Normal (True, map fst xs)"
    by (rule Cons.IH [OF rest]) (use Cons.prems(2) in simp)
  then show ?case using len four read_body_at [OF at fits(1)] by (simp add: y Let_def)
qed simp

text \<open>
  \<^verbatim>\<open>Load\<close> reads what the format says: from a file made of a header, bodies with their padding, and anything after
  them, it reads that header, exactly those bodies, and the last 20 bytes as the digest.
\<close>

theorem np_load_reads:
  assumes h: "np_header_fits h" "np_magic h = NPBIND_MAGIC" "np_num_entries h = length xs" "can_reserve (length xs)"
    and pad: "length padding = 96" and xs: "\<forall>(x, pad)\<in>set xs. np_body_fits x \<and> length pad = body_padding"
    and b: "b = np_header_bytes h @ padding @ concat (map (\<lambda>(x, pad). np_body_bytes x @ pad) xs) @ zs"
  shows "np_Load can_reserve (Some b) = Normal (True, \<lparr>nf_header = h, nf_bodies = map fst xs, nf_digest = drop (length b - 20) b\<rparr>)"
proof -
  have len: "length (np_header_bytes h @ padding) = sizeof_NpBindHeader"
    using pad by (simp add: np_header_bytes_def sizeof_NpBindHeader_def)
  have b': "b = (np_header_bytes h @ padding) @ concat (map (\<lambda>(x, pad). np_body_bytes x @ pad) xs) @ zs" by (simp add: b)
  have lb: "sizeof_NpBindHeader \<le> length b" unfolding b' using len by simp
  have hb: "take sizeof_NpBindHeader b = np_header_bytes h @ padding" unfolding b' using len by simp
  have parse: "parse_np_header (np_header_bytes h @ padding) = h"
    using h(1) by (simp add: parse_np_header_def np_header_bytes_def be_nat_bytes_be np_header_fits_def)
  have "drop sizeof_NpBindHeader b = concat (map (\<lambda>(x, pad). np_body_bytes x @ pad) xs) @ zs" unfolding b' using len by simp
  note R = read_bodies_at [OF this xs]
  have "20 \<le> length b" using lb by (simp add: sizeof_NpBindHeader_def)
  then show ?thesis using lb hb h R by (simp add: np_Load_def read_bytes_def Let_def parse np_Clear_def)
qed

text \<open>Two bodies, the padding of the second one empty entries.\<close>

definition np_example :: "(np_body \<times> bytes) list" where
  "np_example = (let e = (\<lambda>t d. \<lparr>ne_type = t, ne_size = length d, ne_data = d\<rparr>) in
     [(\<lparr>nb_npcommid = e 16 [78, 80], nb_trophy = e 17 [], nb_unk1 = e 18 [1], nb_unk2 = e 19 []\<rparr>, replicate 152 0),
      (\<lparr>nb_npcommid = e 16 [], nb_trophy = e 17 [], nb_unk1 = e 18 [], nb_unk2 = e 19 []\<rparr>, replicate 152 7)])"

theorem np_load_reads_witness:
  "\<exists>f. np_Load (\<lambda>n. n < 1000)
     (Some (np_header_bytes \<lparr>np_magic = NPBIND_MAGIC, np_version = 1, np_file_size = 0, np_entry_size = 0, np_num_entries = 2\<rparr> @
       replicate 96 0 @ concat (map (\<lambda>(x, pad). np_body_bytes x @ pad) np_example) @ [])) = Normal (True, f) \<and>
     length (nf_bodies f) = 2 \<and> GetNpCommIds f = [[78, 80]]"
proof -
  let ?h = "\<lparr>np_magic = NPBIND_MAGIC, np_version = 1, np_file_size = 0, np_entry_size = 0, np_num_entries = 2\<rparr>"
  have h: "np_header_fits ?h" "np_magic ?h = NPBIND_MAGIC" by (simp_all add: np_header_fits_def NPBIND_MAGIC_def)
  have n: "np_num_entries ?h = length np_example" by (simp add: np_example_def Let_def)
  have fits: "\<forall>(x, pad)\<in>set np_example. np_body_fits x \<and> length pad = body_padding"
    by (simp add: np_example_def Let_def np_body_fits_def np_entry_fits_def np_entry_ok_def body_padding_def)
  have ids: "map ne_data (filter (\<lambda>e. ne_data e \<noteq> []) (map nb_npcommid (map fst np_example))) = [[78, 80]]" "length np_example = 2"
    by (simp_all add: np_example_def Let_def)
  show ?thesis
    using np_load_reads [OF h n _ _ fits refl, of "\<lambda>n. n < 1000" "replicate 96 0" "[]"] ids by (simp add: GetNpCommIds_def)
qed

theorem np_load_in_bounds_witness:
  "np_Load (\<lambda>_. True) (Some (replicate 200 0xff)) \<noteq> Outside"
  using np_load_in_bounds by blast

end
