(* ===== verification/Spec2Isabelle.thy ===== *)
theory Spec2Isabelle
  imports Orbit_Startup Orbit_Flexible Orbit_KernelMemory Orbit_CpuLemmas Orbit_Sync Orbit_Clock Orbit_Locks
    Orbit_MutexAttr Orbit_Rwlock Orbit_Specific Orbit_ThreadAttr Orbit_Once Orbit_ThreadLife Orbit_PsfMap Orbit_NpBind
begin

text \<open>
  Orbit Console is an emulator of the PlayStation 4 (a fork of shadPS4).  This development models
  and verifies five parts of it that carry its own core logic: the memory manager with the guest
  calls on top of it, the custom CPU interpreter, the threads and synchronisation objects of the
  kernel, the real-time clock library, and the parsers of two file formats.

  \<^bold>\<open>The memory manager\<close> (\<^verbatim>\<open>src/src/core/memory.h\<close>, \<^verbatim>\<open>src/src/core/memory.cpp\<close>) keeps three ordered
  maps: \<^verbatim>\<open>vma_map\<close> of virtual areas, \<^verbatim>\<open>dmem_map\<close> of direct memory and \<^verbatim>\<open>fmem_map\<close> of flexible
  memory.  A virtual area with physical memory holds a fourth, \<^verbatim>\<open>phys_areas\<close>, from offsets to copies
  of physical areas.  Every operation works on these maps with three primitives, splitting (carving)
  an area, assigning to it, and merging it with its neighbours.  The guest reaches the manager through
  the \<^verbatim>\<open>sceKernel\<close> and posix calls of \<^verbatim>\<open>src/src/core/libraries/kernel/memory.cpp\<close>.

  \<^item> \<^verbatim>\<open>Orbit_Prelude\<close>: 64-bit arithmetic with wrap-around (\<open>uadd\<close>, \<open>usub\<close>), \<^verbatim>\<open>common/alignment.h\<close>, error codes.
  \<^item> \<^verbatim>\<open>Orbit_OrderedMap\<close>: the part of \<^verbatim>\<open>std::map\<close> that is used, behind the locale \<open>std_map\<close>.
  \<^item> \<^verbatim>\<open>Orbit_Segments\<close>: maps of areas and their meaning as functions on single addresses; the locales
    \<open>segments_split\<close>, \<open>segments_merge\<close> and \<open>segment_map\<close> state what splitting, carving and merging promise.
  \<^item> \<^verbatim>\<open>Orbit_PhysMap\<close>, \<^verbatim>\<open>Orbit_VmaMap\<close>: physical and virtual areas, \<^verbatim>\<open>Split\<close>, \<^verbatim>\<open>CarvePhysArea\<close>,
    \<^verbatim>\<open>CarveVMA\<close>, \<^verbatim>\<open>MergeAdjacent\<close>; the interpretations \<open>pk\<close>, \<open>pt\<close> and \<open>vm\<close> show that these operations
    change no page and no byte.
  \<^item> \<^verbatim>\<open>Orbit_MemoryState\<close>: the state \<open>mm\<close>, constructor, configuration, address validation, sparse copies,
    writes to the backing memory.
  \<^item> \<^verbatim>\<open>Orbit_DirectMemory\<close>: \<^verbatim>\<open>Allocate\<close>, \<^verbatim>\<open>PoolExpand\<close> and the queries of direct memory; first fit.
  \<^item> \<^verbatim>\<open>Orbit_Invariant\<close>: the invariant \<open>mm_ok\<close>: the maps are well formed, the virtual areas agree with the
    physical maps, no physical byte is shown twice, and every physical area of a virtual area lies inside
    one area of the physical map (which is what \<^verbatim>\<open>CarvePhysArea\<close> asserts on release).
  \<^item> \<^verbatim>\<open>Orbit_Unmap\<close>: \<^verbatim>\<open>UnmapMemory\<close>, \<^verbatim>\<open>PoolDecommit\<close>, \<^verbatim>\<open>Free\<close>; unmapping never aborts on a covered range,
    and \<open>unmapped\<close> is its specification.
  \<^item> \<^verbatim>\<open>Orbit_Startup\<close>: the constructor establishes the invariant.
  \<^item> \<^verbatim>\<open>Orbit_Map\<close>: \<^verbatim>\<open>SearchFree\<close>, \<^verbatim>\<open>CreateArea\<close>, \<^verbatim>\<open>MapMemory\<close>, \<^verbatim>\<open>MapFile\<close>, \<^verbatim>\<open>PoolCommit\<close>.
    \<^verbatim>\<open>Orbit_Gather\<close> follows the loops that collect physical memory (invariant \<open>gathered\<close>),
    \<^verbatim>\<open>Orbit_MapLemmas\<close> and \<^verbatim>\<open>Orbit_MapMemory\<close> show that a mapping keeps the invariant and shows exactly
    the memory it took, \<^verbatim>\<open>Orbit_Search\<close> treats the search for an address and the check of the physical
    range, and \<^verbatim>\<open>Orbit_Flexible\<close> the accounting of flexible memory (\<open>flex_budget\<close>).
  \<^item> \<^verbatim>\<open>Orbit_Query\<close>: \<^verbatim>\<open>Protect\<close>, \<^verbatim>\<open>NameVirtualRange\<close>, \<^verbatim>\<open>SetDirectMemoryType\<close> and the queries of virtual memory.
  \<^item> \<^verbatim>\<open>Orbit_KernelMemory\<close>: the guest calls: argument checks, error codes, batches, apertures.

  \<^bold>\<open>The CPU interpreter\<close> (\<^verbatim>\<open>src/src/core/cpu/custom_bridge/custom_cpu_translator.h\<close> and \<^verbatim>\<open>.cpp\<close>) decodes and executes a subset of
  x86-64.  \<^verbatim>\<open>Orbit_Cpu\<close> has the context (\<open>RegisterContext\<close>), guest memory, ModRM decoding, flags, one
  definition per instruction group, \<open>Step\<close> and the interpreter loop; \<^verbatim>\<open>Orbit_CpuLemmas\<close> the meaning of
  the flags, stack round trips, bounds of the decoder, and the run of the loop as an inductive relation.

  \<^bold>\<open>Synchronisation\<close> (\<^verbatim>\<open>src/src/core/libraries/kernel/threads\<close>).  The code between taking and giving up a
  lock is a function on the state of the object, an atomic access likewise, and an inductive step
  relation interleaves them in every order; properties are proved by rule induction over its runs.

  \<^item> \<^verbatim>\<open>Orbit_SlotVector\<close>: the table behind semaphore handles (\<^verbatim>\<open>common/slot_vector.h\<close>), with the locale
    \<open>handle_table\<close> that states what its clients rely on and the interpretation \<open>sv\<close>.
  \<^item> \<^verbatim>\<open>Orbit_Semaphore\<close>: \<^verbatim>\<open>OrbisSem\<close> and the calls on handles; the invariant \<open>sem_shape\<close> of its lists,
    which holds whatever the arguments are, the bounds \<open>tokens_ok\<close>, which need \<open>sensible\<close> arguments, the pass of \<^verbatim>\<open>Signal\<close> over
    its waiters (\<open>pass_ok\<close>), the balance of tokens.
  \<^item> \<^verbatim>\<open>Orbit_PosixSem\<close>: POSIX semaphores, lock-free; invariant \<open>psem_ok\<close>.
  \<^item> \<^verbatim>\<open>Orbit_EventFlag\<close>: event flags with a condition variable; invariant \<open>ef_ok\<close>, results, cancellation.
  \<^item> \<^verbatim>\<open>Orbit_Sync\<close>: the properties of the three.
  \<^item> \<^verbatim>\<open>Orbit_Mutex\<close>: mutexes of all four types, cut at the accesses to the host mutex and the owner; invariant
    \<open>mutex_ok\<close>.  \<^verbatim>\<open>Orbit_MutexAttr\<close>: their attributes.
  \<^item> \<^verbatim>\<open>Orbit_Sleepq\<close>: the hash table of sleep queues; locale \<open>wait_queues\<close> states what condition variables
    rely on, interpretation \<open>wq\<close>.
  \<^item> \<^verbatim>\<open>Orbit_Cond\<close>: condition variables on top of both, with deferred wake-ups; \<^verbatim>\<open>Orbit_CondInv\<close>: their
    invariant \<open>cond_inv\<close>, in six parts; \<^verbatim>\<open>Orbit_Locks\<close>: the properties of mutexes, queues and condition variables.
  \<^item> \<^verbatim>\<open>Orbit_Rwlock\<close>: read-write locks; invariant \<open>rw_ok\<close>.
  \<^item> \<^verbatim>\<open>Orbit_Specific\<close>: thread-specific data; invariants of the counts and of the generations of keys, and the
    specification \<open>tls_spec\<close> with the abstraction \<open>tls_abs\<close>.
  \<^item> \<^verbatim>\<open>Orbit_ThreadAttr\<close>: the attributes of threads; invariant \<open>attr_ok\<close>.
  \<^item> \<^verbatim>\<open>Orbit_Once\<close>: \<^verbatim>\<open>pthread_once\<close>, with threads that end inside the routine.
  \<^item> \<^verbatim>\<open>Orbit_Thread\<close>: the life cycle of threads (creation, exit, join, detach, the list of garbage, reference
    counts) and the calls that look a thread up, cut at their accesses; \<^verbatim>\<open>Orbit_ThreadInv\<close>: its invariant;
    \<^verbatim>\<open>Orbit_ThreadSteps\<close>: every step keeps it; \<^verbatim>\<open>Orbit_ThreadLife\<close>: no access to a freed object, with three exceptions
    that are shown to happen, and what joining promises.

  \<^bold>\<open>The real-time clock\<close> (\<^verbatim>\<open>src/src/core/libraries/rtc/rtc.cpp\<close>).  \<^verbatim>\<open>Orbit_Rtc\<close> has dates, ticks and
  epochs, with a calendar that counts year by year and month by month as the reference for the closed
  formulas of the code; \<^verbatim>\<open>Orbit_RtcText\<close> the text formats and their parsers; \<^verbatim>\<open>Orbit_RtcDos\<close> the bit fields
  of DOS dates; \<^verbatim>\<open>Orbit_Clock\<close> the properties.

  \<^bold>\<open>File formats\<close> (\<^verbatim>\<open>src/src/core/file_format\<close>).  \<^verbatim>\<open>Orbit_Psf\<close> has \<^verbatim>\<open>psf.cpp\<close>, parsing and writing, and
  shows that what is written is read back; \<^verbatim>\<open>Orbit_PsfMap\<close> that its operations implement a map (locale
  \<open>psf_field\<close>, interpreted for the three kinds of values) and when writing aborts; \<^verbatim>\<open>Orbit_NpBind\<close> has
  \<^verbatim>\<open>npbind.cpp\<close>, whose reads stay inside the file.

  \<^bold>\<open>Conventions.\<close>  \<open>None\<close> stands for an abort of the emulator (a failed \<^verbatim>\<open>ASSERT\<close> or an invalid iterator).
  Loops over maps that change while they run are \<^theory_text>\<open>partial_function (option)\<close>; that they return is
  part of the theorems about them.  The interpreter loop needs no fuel of its own: the instruction
  budget of the code is its measure.  Operations hold the manager's locks, so each is one step.  Calls on
  the host address space and the GPU are recorded in \<open>mm_trace\<close>; the file table is a parameter of \<open>MapFile\<close>.

  \<^bold>\<open>Not modelled.\<close>  Host system calls (\<^verbatim>\<open>address_space.cpp\<close>), reading and writing of host files, the loader and
  linker, the video core and shader recompiler, the high-level libraries (mostly stubs that log and
  return constants) and the user interface.  Of threads: their host threads, their stacks
  (\<^verbatim>\<open>stack.cpp\<close>), cancellation and the reuse of freed thread objects.  Logging is left out everywhere.
  A semaphore or an event flag is not modelled beyond its deletion, where the code goes on to use the
  freed object if threads still wait on it.
\<close>

section \<open>A concrete manager\<close>

text \<open>
  A freshly constructed manager with the two user-visible regions of a small address space; the
  witnesses below run the operations on it.
\<close>

definition boot_regions :: "(VAddr \<times> VAddr) list" where
  "boot_regions = [(0x400000, 0x7ffffc000), (0x1000000000, 0x2000000000)]"

definition boot :: mm where
  "boot = MemoryManager \<lparr>as_system_managed_base = 0x400000, as_user_base = 0x1000000000,
            as_user_size = 0x1000000000\<rparr> boot_regions 0 0x3000000 (\<lambda>_. 0)"

lemma boot_ok: "mm_ok boot"
  unfolding boot_def by (rule MemoryManager_ok) (simp_all add: boot_regions_def U64_def)

lemma boot_total: "mm_total_direct_size boot = 7936 * MB"
  by (simp add: boot_def MemoryManager_def Let_def orbis_sizes)

lemma boot_vma: "mm_vma_map boot =
    [(0x400000, free_vma 0x400000 0x7ffbfc000), (0x1000000000, free_vma 0x1000000000 0x1000000000)]"
  by (simp add: boot_def boot_regions_def MemoryManager_def Let_def om_emplace_def om_lookup_def
      usub_def U64_def)

lemma boot_dmem: "mm_dmem_map boot = [(0, free_area 0 (7936 * MB))]"
  by (simp add: boot_def MemoryManager_def Let_def orbis_sizes om_emplace_def om_lookup_def)

lemma boot_covered:
  "0x1000000000 \<le> x \<Longrightarrow> x + n \<le> 0x2000000000 \<Longrightarrow> covered boot x n"
  by (auto simp: covered_def boot_vma vma_at_def seg_den_def free_vma_def)

text \<open>The same manager after 64 KB of direct memory have been allocated.\<close>

definition boot_allocated :: mm where
  "boot_allocated = boot\<lparr>mm_dmem_map :=
     [(0, \<lparr>pma_base = 0, pma_size = 0x10000, pma_memory_type = 3, pma_dma_type = PAllocated\<rparr>),
      (0x10000, free_area 0x10000 (7936 * MB - 0x10000))]\<rparr>"

lemma boot_allocated_at: "phys_at (mm_dmem_map boot_allocated) x =
    (if x < 0x10000 then Some (x, 3, PAllocated) else if x < 7936 * MB then Some (x, 0, PFree) else None)"
  by (auto simp: boot_allocated_def phys_at_def seg_den_def free_area_def phys_content_def)

lemma boot_allocated_ok: "mm_ok boot_allocated"
proof -
  have m: "mm_vma_map boot_allocated = mm_vma_map boot" by (simp add: boot_allocated_def)
  have vm: "vma_map_ok (mm_vma_map boot_allocated)" using mm_okD(1) [OF boot_ok] by (simp add: m)
  have unb: "vma_phys_areas v = []" if "om_lookup (mm_vma_map boot_allocated) k = Some v" for k v
    using that by (auto simp: m boot_vma om_lookup_Cons free_vma_def split: if_splits)
  have "phys_keyed (mm_dmem_map boot_allocated)"
    by (simp add: boot_allocated_def phys_keyed_def base_is_key_def free_area_def U64_def)
  then have "dmem_ok boot_allocated"
    by (simp add: dmem_ok_def boot_allocated_at) (simp add: boot_allocated_def boot_total)
  with vm unbacked_links [OF vm unb] mm_okD(3,7) [OF boot_ok] show ?thesis
    by (simp add: mm_ok_def) (simp add: boot_allocated_def)
qed

lemma boot_free: "0x1000000000 \<le> x \<Longrightarrow> x + n \<le> 0x2000000000 \<Longrightarrow> free_at boot x n"
  by (simp add: free_at_def FindVMA_def boot_vma IsFree_def free_vma_def)

lemma boot_fmem: "mm_fmem_map boot = [(7936 * MB, free_area (7936 * MB) (512 * MB))]"
  by (simp add: boot_def MemoryManager_def Let_def orbis_sizes om_emplace_def om_lookup_def)

lemma boot_budget: "flex_budget boot" "mm_total_flexible_size boot = 512 * MB" "mm_flexible_usage boot = 0"
proof -
  show t: "mm_total_flexible_size boot = 512 * MB" "mm_flexible_usage boot = 0"
    by (simp_all add: boot_def MemoryManager_def Let_def orbis_sizes)
  have "phys_at (mm_fmem_map boot) x = (if 7936 * MB \<le> x \<and> x < 8448 * MB then Some (x, 0, PFree) else None)" for x
    by (auto simp: boot_fmem phys_at_def seg_den_def free_area_def phys_content_def)
  then have "used_as (mm_fmem_map boot) PFree = {7936 * MB ..< 8448 * MB}" by (auto simp: used_as_def)
  then show "flex_budget boot" by (simp add: flex_budget_def t)
qed

section \<open>Memory manager\<close>

text \<open>
  C1: \<open>MapMemory\<close> of direct memory, at an address the manager has chosen in a free area and over a
  physical range that is allocated but not mapped, succeeds: the new pages have the requested type,
  protection and name and show the physical range byte by byte, that range is now mapped, every
  other page and every other byte is as it was, and the invariant holds.
\<close>

theorem MapMemory_maps_direct:
  assumes "mm_ok s" and "0 < n" and "p + n \<le> mm_total_direct_size s" and "mm_total_direct_size s < U64"
    and "{p ..< p + n} \<subseteq> used_as (mm_dmem_map s) PAllocated"
    and "choose_address s va n flags (if al > 0 then al else 16 * KB) = Some (Inr x)" and "free_at s x n"
  shows "\<exists>s'. MapMemory s va n prot flags VDirect name vd p al = Some (Inr x, s') \<and> mm_ok s' \<and>
     (\<forall>y. vma_at (mm_vma_map s') y =
        (if x \<le> y \<and> y < x + n
         then Some \<lparr>pg_type = VDirect, pg_prot = append_read prot, pg_name = name,
                     pg_disallow_merge = has_flag flags MapNoCoalesce,
                     pg_phys = phys_at (mm_dmem_map s') (p + (y - x))\<rparr>
         else vma_at (mm_vma_map s) y)) \<and>
     (\<forall>q. phys_at (mm_dmem_map s') q =
        (if p \<le> q \<and> q < p + n then map_option (\<lambda>(r, t, _). (r, t, PMapped)) (phys_at (mm_dmem_map s) q)
         else phys_at (mm_dmem_map s) q)) \<and>
     (\<exists>dm vm tr. s' = s\<lparr>mm_dmem_map := dm, mm_vma_map := vm, mm_trace := tr\<rparr>)"
proof -
  have "p \<noteq> minus_one" and b: "p + n < U64" using assms(2-4) by (auto simp: minus_one_def)
  moreover have "mappable vd d" if "p \<le> q \<and> q < p + n \<and> phys_at (mm_dmem_map s) q = Some (q, t, d)" for q t d
    using assms(5) that by (fastforce simp: used_as_def mappable_def)
  ultimately have v: "validate_phys s p n vd = Some None"
    using validate_phys_exact [OF mm_okD(2) [OF assms(1)] _ assms(2-4), where vd = vd] by metis
  obtain D areas m' tr where
    e: "MapMemory s va n prot flags VDirect name vd p al =
          Some (Inr x, s\<lparr>mm_dmem_map := D, mm_vma_map := m', mm_trace := tr\<rparr>)"
    and mp: "mapped s x n (mapped_page prot flags VDirect name areas) (s\<lparr>mm_dmem_map := D, mm_vma_map := m', mm_trace := tr\<rparr>)"
    and rt: "retagged (mm_dmem_map s) D {p ..< p + n} id PMapped"
    and sh: "\<And>i. i < n \<Longrightarrow> \<exists>t. phys_at areas i = Some (p + i, t, PMapped)"
    by (rule MapMemory_direct [OF assms(1,2) v assms(6,7,5) b]) (rule that)
  let ?s = "s\<lparr>mm_dmem_map := D, mm_vma_map := m', mm_trace := tr\<rparr>"
  have at: "vma_at m' y = (if x \<le> y \<and> y < x + n then Some (mapped_page prot flags VDirect name areas (y - x))
      else vma_at (mm_vma_map s) y)" for y
    using mp by (simp add: mapped_def)
  have "phys_at areas i = phys_at D (p + i)" if i: "i < n" for i
  proof -
    obtain t where t: "phys_at areas i = Some (p + i, t, PMapped)" using sh [OF i] by blast
    have "backing_agrees ?s" using mp mm_okD(4) by (simp add: mapped_def)
    then have "phys_at (kind_map ?s VDirect) (p + i) = Some (p + i, t, PMapped)"
      using at [of "x + i"] i t by (fastforce simp: backing_agrees_def mapped_page_def)
    with t show ?thesis by (simp add: kind_map_def)
  qed
  then have pages: "vma_at (mm_vma_map ?s) y = (if x \<le> y \<and> y < x + n
      then Some \<lparr>pg_type = VDirect, pg_prot = append_read prot, pg_name = name,
        pg_disallow_merge = has_flag flags MapNoCoalesce, pg_phys = phys_at (mm_dmem_map ?s) (p + (y - x))\<rparr>
      else vma_at (mm_vma_map s) y)" for y
    using at [of y] by (auto simp: mapped_page_def)
  have "phys_at (mm_dmem_map ?s) q = (if p \<le> q \<and> q < p + n
      then map_option (\<lambda>(r, t, _). (r, t, PMapped)) (phys_at (mm_dmem_map s) q) else phys_at (mm_dmem_map s) q)" for q
    using rt by (auto simp: retagged_def)
  moreover have "\<exists>dm vm tr. ?s = s\<lparr>mm_dmem_map := dm, mm_vma_map := vm, mm_trace := tr\<rparr>" by blast
  moreover have "mm_ok ?s" using mp by (simp add: mapped_def)
  ultimately show ?thesis using e pages by blast
qed

theorem MapMemory_maps_direct_witness:
  "\<exists>s'. MapMemory boot_allocated 0x1000000000 0x8000 3 0x90 VDirect ''anon'' True 0x4000 0 = Some (Inr 0x1000000000, s') \<and>
     mm_ok s' \<and>
     (\<forall>y. vma_at (mm_vma_map s') y =
        (if 0x1000000000 \<le> y \<and> y < 0x1000000000 + 0x8000
         then Some \<lparr>pg_type = VDirect, pg_prot = append_read 3, pg_name = ''anon'',
                     pg_disallow_merge = has_flag 0x90 MapNoCoalesce,
                     pg_phys = phys_at (mm_dmem_map s') (0x4000 + (y - 0x1000000000))\<rparr>
         else vma_at (mm_vma_map boot_allocated) y)) \<and>
     (\<forall>q. phys_at (mm_dmem_map s') q =
        (if 0x4000 \<le> q \<and> q < 0x4000 + 0x8000
         then map_option (\<lambda>(r, t, _). (r, t, PMapped)) (phys_at (mm_dmem_map boot_allocated) q)
         else phys_at (mm_dmem_map boot_allocated) q)) \<and>
     (\<exists>dm vm tr. s' = boot_allocated\<lparr>mm_dmem_map := dm, mm_vma_map := vm, mm_trace := tr\<rparr>)"
proof (rule MapMemory_maps_direct [OF boot_allocated_ok])
  have total: "mm_total_direct_size boot_allocated = 7936 * MB" by (simp add: boot_allocated_def boot_total)
  then show "0x4000 + 0x8000 \<le> mm_total_direct_size boot_allocated" "mm_total_direct_size boot_allocated < U64"
    by (simp_all add: U64_def)
  show "{0x4000 ..< 0x4000 + 0x8000} \<subseteq> used_as (mm_dmem_map boot_allocated) PAllocated"
    by (auto simp: used_as_def boot_allocated_at)
  show fr: "free_at boot_allocated 0x1000000000 0x8000"
    using boot_free [of "0x1000000000" "0x8000"] by (simp add: free_at_def FindVMA_def boot_allocated_def)
  show "choose_address boot_allocated 0x1000000000 0x8000 0x90 (if (0::nat) < 0 then 0 else 16 * KB) = Some (Inr 0x1000000000)"
    by (rule choose_fixed_free [OF mm_okD(1) [OF boot_allocated_ok] _ _ fr]) (simp_all add: has_flag_def map_flag_defs)
qed simp

text \<open>
  C2: \<open>MapMemory\<close> of flexible memory succeeds whenever the size test passes: it takes as many free
  bytes of flexible memory as the mapping has, shows each of them at exactly one address, marks
  exactly these bytes, raises the usage counter by the size, keeps the invariant of the manager and
  the accounting invariant, and leaves every other page alone.
\<close>

theorem MapMemory_maps_flexible:
  assumes "mm_ok s" and "flex_budget s" and "0 < n" and "mm_flexible_usage s + n \<le> mm_total_flexible_size s"
    and "mm_total_flexible_size s < U64"
    and "choose_address s va n flags (if al > 0 then al else 16 * KB) = Some (Inr x)" and "free_at s x n"
  shows "\<exists>s' areas A. MapMemory s va n prot flags VFlexible name vd minus_one al = Some (Inr x, s') \<and>
     mm_ok s' \<and> flex_budget s' \<and> mm_flexible_usage s' = mm_flexible_usage s + n \<and>
     A \<subseteq> used_as (mm_fmem_map s) PFree \<and> bij_betw (\<lambda>i. fst (the (phys_at areas i))) {..< n} A \<and>
     (\<forall>y. vma_at (mm_vma_map s') y =
        (if x \<le> y \<and> y < x + n
         then Some \<lparr>pg_type = VFlexible, pg_prot = append_read prot, pg_name = name,
                     pg_disallow_merge = has_flag flags MapNoCoalesce, pg_phys = phys_at areas (y - x)\<rparr>
         else vma_at (mm_vma_map s) y)) \<and>
     (\<forall>q. phys_at (mm_fmem_map s') q =
        (if q \<in> A then map_option (\<lambda>(r, t, _). (r, t, PFlexible)) (phys_at (mm_fmem_map s) q)
         else phys_at (mm_fmem_map s) q))"
proof -
  have sum: "uadd (mm_flexible_usage s) n = mm_flexible_usage s + n" using assms(4,5) by (simp add: u64_exact)
  have v: "validate_phys s minus_one n vd = Some None" by (simp add: validate_phys_def)
  have le: "uadd (mm_flexible_usage s) n \<le> mm_total_flexible_size s" using assms(4) by (simp add: sum)
  obtain D areas A m' tr s' where e: "MapMemory s va n prot flags VFlexible name vd minus_one al = Some (Inr x, s')"
    and s': "s' = s\<lparr>mm_fmem_map := D, mm_vma_map := m', mm_flexible_usage := uadd (mm_flexible_usage s) n, mm_trace := tr\<rparr>"
    and mp: "mapped s x n (mapped_page prot flags VFlexible name areas) s'"
    and G: "gathered (mm_fmem_map s) D areas n A id PFlexible" and A: "A \<subseteq> used_as (mm_fmem_map s) PFree"
    by (rule MapMemory_flexible [OF assms(1,3) le v assms(6,7) flex_budget_enough [OF assms(2,4)]]) (rule that)
  have "flex_budget s'"
    by (rule flex_budget_map [OF assms(2) G A mm_okD(3) [OF assms(1)]]) (simp_all add: s' sum)
  moreover have "phys_at (mm_fmem_map s') q =
      (if q \<in> A then map_option (\<lambda>(r, t, _). (r, t, PFlexible)) (phys_at (mm_fmem_map s) q)
       else phys_at (mm_fmem_map s) q)" for q
    using gatheredD(3) [OF G] by (simp add: retagged_def s')
  moreover have "mm_flexible_usage s' = mm_flexible_usage s + n" by (simp add: s' sum)
  ultimately show ?thesis
    using e mp A gathered_bij(1) [OF G] unfolding mapped_def mapped_page_def by blast
qed

theorem MapMemory_maps_flexible_witness:
  "\<exists>s' areas A. MapMemory boot 0x1000000000 0x10000 3 0x90 VFlexible ''anon'' False minus_one 0 = Some (Inr 0x1000000000, s') \<and>
     mm_ok s' \<and> flex_budget s' \<and> mm_flexible_usage s' = mm_flexible_usage boot + 0x10000 \<and>
     A \<subseteq> used_as (mm_fmem_map boot) PFree \<and> bij_betw (\<lambda>i. fst (the (phys_at areas i))) {..< 0x10000} A \<and>
     (\<forall>y. vma_at (mm_vma_map s') y =
        (if 0x1000000000 \<le> y \<and> y < 0x1000000000 + 0x10000
         then Some \<lparr>pg_type = VFlexible, pg_prot = append_read 3, pg_name = ''anon'',
                     pg_disallow_merge = has_flag 0x90 MapNoCoalesce, pg_phys = phys_at areas (y - 0x1000000000)\<rparr>
         else vma_at (mm_vma_map boot) y)) \<and>
     (\<forall>q. phys_at (mm_fmem_map s') q =
        (if q \<in> A then map_option (\<lambda>(r, t, _). (r, t, PFlexible)) (phys_at (mm_fmem_map boot) q)
         else phys_at (mm_fmem_map boot) q))"
proof (rule MapMemory_maps_flexible [OF boot_ok boot_budget(1)])
  show fr: "free_at boot 0x1000000000 0x10000" by (rule boot_free) simp_all
  show "choose_address boot 0x1000000000 0x10000 0x90 (if (0::nat) < 0 then 0 else 16 * KB) = Some (Inr 0x1000000000)"
    by (rule choose_fixed_free [OF mm_okD(1) [OF boot_ok] _ _ fr]) (simp_all add: has_flag_def map_flag_defs)
qed (simp_all add: boot_budget U64_def)

text \<open>
  C5: the address search is a first fit.  A mapping without a fixed address gets the lowest aligned
  address, from the rounded hint on, at which a free area holds the whole range; the request fails
  only when no such address lies below the end of the user region.
\<close>

theorem SearchFree_finds_first:
  assumes "vma_map_ok (mm_vma_map s)" and "0 < n" and "0 < al" and "al < 2 ^ 32"
    and "\<forall>(k, v) \<in> set (mm_vma_map s). k + vma_size v + al + n < U64"
    and "vma_at (mm_vma_map s) (max va (as_system_managed_base (mm_impl s))) \<noteq> None"
    and "start = AlignUp (max va (as_system_managed_base (mm_impl s))) al"
  shows "\<exists>r. SearchFree s va n al = Some r \<and>
     (if r = minus_one
      then \<forall>y. start \<le> y \<and> al dvd y \<and> free_at s y n \<longrightarrow>
             uadd (as_user_base (mm_impl s)) (as_user_size (mm_impl s)) \<le> y
      else start \<le> r \<and> al dvd r \<and> free_at s r n \<and>
           (\<forall>y. start \<le> y \<and> al dvd y \<and> free_at s y n \<longrightarrow> r \<le> y))"
proof -
  have room: "room (mm_vma_map s) n al y \<longleftrightarrow> al dvd y \<and> free_at s y n" for y
    by (rule room_iff_free_at [OF assms(1,2)])
  show ?thesis
    by (rule SearchFree_first_fit [OF assms(1-6)])
      (use assms(7) in \<open>auto simp: room first_candidate_def search_limit_def split: if_splits\<close>)
qed

theorem SearchFree_finds_first_witness:
  "\<exists>r. SearchFree boot 0x7ffff8000 0x8000 0x4000 = Some r \<and>
     (if r = minus_one
      then \<forall>y. 0x7ffff8000 \<le> y \<and> 0x4000 dvd y \<and> free_at boot y 0x8000 \<longrightarrow>
             uadd (as_user_base (mm_impl boot)) (as_user_size (mm_impl boot)) \<le> y
      else 0x7ffff8000 \<le> r \<and> 0x4000 dvd r \<and> free_at boot r 0x8000 \<and>
           (\<forall>y. 0x7ffff8000 \<le> y \<and> 0x4000 dvd y \<and> free_at boot y 0x8000 \<longrightarrow> r \<le> y))"
proof (rule SearchFree_finds_first)
  have base: "as_system_managed_base (mm_impl boot) = 0x400000" by (simp add: boot_def MemoryManager_def Let_def)
  then show "0x7ffff8000 = AlignUp (max 0x7ffff8000 (as_system_managed_base (mm_impl boot))) 0x4000"
    by (simp add: AlignUp_def u64_eval)
  show "vma_at (mm_vma_map boot) (max 0x7ffff8000 (as_system_managed_base (mm_impl boot))) \<noteq> None"
    by (simp add: base boot_vma vma_at_def seg_den_def free_vma_def)
  show "\<forall>(k, v) \<in> set (mm_vma_map boot). k + vma_size v + 0x4000 + 0x8000 < U64"
    by (simp add: boot_vma free_vma_def U64_def)
qed (simp_all add: mm_okD(1) [OF boot_ok])

text \<open>
  The check of the physical range of a mapping lets a range of direct memory pass exactly when
  each of its bytes is allocated, or mapped already and the caller did not ask for exclusive
  memory; otherwise it reports ENOMEM or EBUSY.
\<close>

theorem validate_phys_decides:
  assumes "dmem_ok s" and "0 < n" and "p + n \<le> mm_total_direct_size s" and "mm_total_direct_size s < U64"
  shows "\<exists>e. validate_phys s p n vd = Some e \<and>
     (e = None \<longleftrightarrow> {p ..< p + n} \<subseteq> used_as (mm_dmem_map s) PAllocated \<union> (if vd then {} else used_as (mm_dmem_map s) PMapped)) \<and>
     e \<in> {None, Some ORBIS_KERNEL_ERROR_ENOMEM, Some ORBIS_KERNEL_ERROR_EBUSY}"
proof -
  have "p \<noteq> minus_one" using assms(2-4) by (auto simp: minus_one_def)
  then obtain e where e: "validate_phys s p n vd = Some e"
    "e = None \<longleftrightarrow> (\<forall>q t d. p \<le> q \<and> q < p + n \<and> phys_at (mm_dmem_map s) q = Some (q, t, d) \<longrightarrow> mappable vd d)"
    "e \<in> {None, Some ORBIS_KERNEL_ERROR_ENOMEM, Some ORBIS_KERNEL_ERROR_EBUSY}"
    using validate_phys_exact [OF assms(1) _ assms(2-4)] by metis
  have "(\<forall>t d. phys_at (mm_dmem_map s) q = Some (q, t, d) \<longrightarrow> mappable vd d) \<longleftrightarrow>
      q \<in> used_as (mm_dmem_map s) PAllocated \<union> (if vd then {} else used_as (mm_dmem_map s) PMapped)" if "q < p + n" for q
  proof -
    have "phys_at (mm_dmem_map s) q \<noteq> None" using that assms(1,3) by (simp add: dmem_ok_def)
    then obtain r t d where at: "phys_at (mm_dmem_map s) q = Some (r, t, d)" by auto
    moreover have "r = q" using assms(1) phys_at_key [OF _ at] by (simp add: dmem_ok_def)
    ultimately show ?thesis by (simp add: used_as_def mappable_def)
  qed
  then have "(\<forall>q t d. p \<le> q \<and> q < p + n \<and> phys_at (mm_dmem_map s) q = Some (q, t, d) \<longrightarrow> mappable vd d) \<longleftrightarrow>
     {p ..< p + n} \<subseteq> used_as (mm_dmem_map s) PAllocated \<union> (if vd then {} else used_as (mm_dmem_map s) PMapped)"
    unfolding subset_iff atLeastLessThan_iff by blast
  with e show ?thesis by blast
qed

theorem validate_phys_decides_witness:
  "\<exists>e. validate_phys boot_allocated 0xC000 0x8000 True = Some e \<and>
     (e = None \<longleftrightarrow> {0xC000 ..< 0xC000 + 0x8000} \<subseteq> used_as (mm_dmem_map boot_allocated) PAllocated \<union>
        (if True then {} else used_as (mm_dmem_map boot_allocated) PMapped)) \<and>
     e \<in> {None, Some ORBIS_KERNEL_ERROR_ENOMEM, Some ORBIS_KERNEL_ERROR_EBUSY}"
  by (rule validate_phys_decides [OF mm_okD(2) [OF boot_allocated_ok]])
    (simp_all add: boot_allocated_def boot_total U64_def)

text \<open>
  C3: \<open>UnmapMemory\<close> succeeds on every range that lies in the areas of a well-formed manager.  Every page of the rounded
  range becomes free, except that pages of committed pools (\<open>VPooled\<close>) are left as they are, as the code does; direct memory that
  the range showed stays allocated but is no longer mapped, flexible memory that it showed is free, zeroed and no
  longer counted, everything else is untouched, the invariant holds, and the accounting of flexible memory stays
  sufficient.
\<close>

theorem UnmapMemory_unmaps:
  assumes "mm_ok s" and "0 < sz" and "addr + sz + 16 * KB < U64"
    and "covered s (AlignDown addr (16 * KB)) (AlignUp sz (16 * KB))"
  shows "\<exists>s'. UnmapMemory s addr sz = Some (ORBIS_OK, s') \<and>
           unmapped s (AlignDown addr (16 * KB)) (AlignUp sz (16 * KB)) s' \<and>
           (\<forall>y c. AlignDown addr (16 * KB) \<le> y \<and> y < AlignDown addr (16 * KB) + AlignUp sz (16 * KB) \<and>
              vma_at (mm_vma_map s) y = Some c \<longrightarrow>
              vma_at (mm_vma_map s') y = Some (if pg_type c = VFree \<or> pg_type c = VPooled then c else free_page)) \<and>
           (flex_budget s \<longrightarrow> flex_budget s')"
proof -
  obtain s' where s': "UnmapMemory s addr sz = Some (ORBIS_OK, s')"
    "unmapped s (AlignDown addr (16 * KB)) (AlignUp sz (16 * KB)) s'"
    by (rule UnmapMemory_correct [OF assms(1,2) refl refl assms(3,4)]) (rule that)
  then show ?thesis using unmapped_at [OF s'(2)] flex_budget_unmap [OF assms(1) _ s'(2)] by (auto simp: unmap_page_def)
qed

lemma boot_maps_direct:
  obtains s1 c t where "MapMemory boot_allocated 0x1000000000 0x8000 3 0x90 VDirect ''anon'' True 0x4000 0 = Some (Inr 0x1000000000, s1)"
    and "mm_ok s1" and "covered s1 0x1000000000 0x8000" and "vma_at (mm_vma_map s1) 0x1000004000 = Some c" and "pg_type c = VDirect"
    and "pg_phys c = Some (0x8000, t, PMapped)" and "phys_at (mm_dmem_map s1) 0x8000 = Some (0x8000, 3, PMapped)"
proof -
  let ?x = "0x1000000000 :: nat"
  have total: "mm_total_direct_size boot_allocated = 7936 * MB" by (simp add: boot_allocated_def boot_total)
  have al: "{0x4000 ..< 0x4000 + 0x8000} \<subseteq> used_as (mm_dmem_map boot_allocated) PAllocated" by (auto simp: used_as_def boot_allocated_at)
  have "mappable True d" if "0x4000 \<le> q \<and> q < 0x4000 + 0x8000 \<and> phys_at (mm_dmem_map boot_allocated) q = Some (q, t, d)" for q t d
    using that by (auto simp: boot_allocated_at mappable_def)
  then have v: "validate_phys boot_allocated 0x4000 0x8000 True = Some None"
    using validate_phys_exact [OF mm_okD(2) [OF boot_allocated_ok], where p = "0x4000" and n = "0x8000" and vd = True] by (simp add: total U64_def minus_one_def) metis
  have fr: "free_at boot_allocated ?x 0x8000"
    using boot_free [of ?x "0x8000"] by (simp add: free_at_def FindVMA_def boot_allocated_def)
  have ch: "choose_address boot_allocated ?x 0x8000 0x90 (if (0::nat) > 0 then 0 else 16 * KB) = Some (Inr ?x)"
    by (rule choose_fixed_free [OF mm_okD(1) [OF boot_allocated_ok] _ _ fr]) (simp_all add: has_flag_def map_flag_defs)
  have small: "0x4000 + 0x8000 < U64" by (simp add: U64_def)
  obtain D areas m' tr where e: "MapMemory boot_allocated ?x 0x8000 3 0x90 VDirect ''anon'' True 0x4000 0 =
        Some (Inr ?x, boot_allocated\<lparr>mm_dmem_map := D, mm_vma_map := m', mm_trace := tr\<rparr>)"
    and mp: "mapped boot_allocated ?x 0x8000 (mapped_page 3 0x90 VDirect ''anon'' areas)
        (boot_allocated\<lparr>mm_dmem_map := D, mm_vma_map := m', mm_trace := tr\<rparr>)"
    and rt: "retagged (mm_dmem_map boot_allocated) D {0x4000 ..< 0x4000 + 0x8000} id PMapped"
    and sh: "\<And>i. i < 0x8000 \<Longrightarrow> \<exists>t. phys_at areas i = Some (0x4000 + i, t, PMapped)"
    by (rule MapMemory_direct [OF boot_allocated_ok _ v ch fr al small, of "3" "''anon''"]) (simp, rule that)
  obtain t where t: "phys_at areas 0x4000 = Some (0x8000, t, PMapped)" using sh [of "0x4000"] by auto
  show thesis
  proof (rule that [OF e, of "mapped_page 3 0x90 VDirect ''anon'' areas 0x4000" t])
    show "phys_at (mm_dmem_map (boot_allocated\<lparr>mm_dmem_map := D, mm_vma_map := m', mm_trace := tr\<rparr>)) 0x8000 = Some (0x8000, 3, PMapped)"
      using rt by (simp add: retagged_def boot_allocated_at)
  qed (use mp t in \<open>simp_all add: mapped_def covered_def mapped_page_def\<close>)
qed

theorem UnmapMemory_unmaps_witness:
  "\<exists>s1 s2. MapMemory boot_allocated 0x1000000000 0x8000 3 0x90 VDirect ''anon'' True 0x4000 0 = Some (Inr 0x1000000000, s1) \<and>
     map_option pg_type (vma_at (mm_vma_map s1) 0x1000004000) = Some VDirect \<and> phys_at (mm_dmem_map s1) 0x8000 = Some (0x8000, 3, PMapped) \<and>
     UnmapMemory s1 0x1000000000 0x8000 = Some (ORBIS_OK, s2) \<and>
     vma_at (mm_vma_map s2) 0x1000004000 = Some free_page \<and> phys_at (mm_dmem_map s2) 0x8000 = Some (0x8000, 3, PAllocated)"
proof -
  obtain s1 c t where m: "MapMemory boot_allocated 0x1000000000 0x8000 3 0x90 VDirect ''anon'' True 0x4000 0 = Some (Inr 0x1000000000, s1)"
    and ok: "mm_ok s1" and cov: "covered s1 0x1000000000 0x8000" and c: "vma_at (mm_vma_map s1) 0x1000004000 = Some c"
      "pg_type c = VDirect" "pg_phys c = Some (0x8000, t, PMapped)"
    and byte: "phys_at (mm_dmem_map s1) 0x8000 = Some (0x8000, 3, PMapped)"
    by (rule boot_maps_direct)
  have round: "AlignDown 0x1000000000 (16 * KB) = 0x1000000000" "AlignUp 0x8000 (16 * KB) = 0x8000"
    by (simp_all add: AlignDown_def AlignUp_def u64_eval)
  have in_range: "0x1000000000 \<le> (0x1000004000::nat) \<and> (0x1000004000::nat) < 0x1000000000 + 0x8000" by simp
  have "(0x8000::nat) \<in> shown s1 0x1000000000 0x8000 VDirect" unfolding shown_def using c in_range by blast
  then have alloc: "phys_at (mm_dmem_map s2) 0x8000 = Some (0x8000, 3, PAllocated)" if "unmapped s1 0x1000000000 0x8000 s2" for s2
    using that byte by (simp add: unmapped_def)
  obtain s2 where s2: "UnmapMemory s1 0x1000000000 0x8000 = Some (ORBIS_OK, s2)" "unmapped s1 0x1000000000 0x8000 s2"
    "\<And>y c. 0x1000000000 \<le> y \<and> y < 0x1000000000 + 0x8000 \<and> vma_at (mm_vma_map s1) y = Some c \<Longrightarrow>
       vma_at (mm_vma_map s2) y = Some (if pg_type c = VFree \<or> pg_type c = VPooled then c else free_page)"
    using UnmapMemory_unmaps [OF ok, where sz = "0x8000" and addr = "0x1000000000", unfolded round] cov by (auto simp: U64_def)
  have "vma_at (mm_vma_map s2) 0x1000004000 = Some free_page" using s2(3) [of "0x1000004000" c] in_range c(1,2) by simp
  then show ?thesis using m c byte s2(1) alloc [OF s2(2)] by (intro exI [of _ s1] exI [of _ s2]) simp
qed

text \<open>
  C4: \<open>Allocate\<close> is a first fit.  If a free, aligned range exists at or above the search start and below the search end,
  it returns the lowest one, which becomes allocated with the requested type while every other byte of direct memory
  keeps its state and the invariant of the whole manager holds.  If none exists, and the search end is not below the end
  of direct memory, it returns -1 and changes nothing.  (The code never looks at the search end, whatever its comments say; when the
  search end is lower, the search goes on beyond it, see \<open>Allocate_ignores_search_end\<close>.)
\<close>

theorem Allocate_first_fit:
  assumes "mm_ok s" and "0 < mm_total_direct_size s" and "0 < sz"
    and "al = (if alignment0 > 0 then alignment0 else 16 * KB)"
    and "max search_start (mm_total_direct_size s) + al + sz < U64"
    and "(\<exists>y. suits (mm_dmem_map s) search_start sz al y \<and> y + sz \<le> search_end) \<or> mm_total_direct_size s \<le> search_end"
  shows "case Allocate s search_start search_end sz alignment0 memory_type of
           None \<Rightarrow> False
         | Some (r, s') \<Rightarrow>
             if \<exists>y. suits (mm_dmem_map s) search_start sz al y \<and> y + sz \<le> search_end
             then suits (mm_dmem_map s) search_start sz al r \<and> r + sz \<le> search_end \<and>
                  (\<forall>y. suits (mm_dmem_map s) search_start sz al y \<longrightarrow> r \<le> y) \<and> mm_ok s' \<and>
                  (\<forall>x. phys_at (mm_dmem_map s') x =
                     (if r \<le> x \<and> x < r + sz then Some (x, memory_type, PAllocated)
                      else phys_at (mm_dmem_map s) x)) \<and>
                  s' = s\<lparr>mm_dmem_map := mm_dmem_map s'\<rparr>
             else r = minus_one \<and> s' = s"
proof (rule Allocate_cases [OF mm_okD(2) [OF assms(1)] assms(2-5), of search_end memory_type], goal_cases)
  case 1
  then show ?case by simp
next
  case (2 r m')
  have "phys_keyed m'" using 2 by (simp add: dmem_ok_def)
  then have "mm_ok (s\<lparr>mm_dmem_map := m'\<rparr>)"
    using 2 by (intro mm_ok_take_free [OF assms(1) 2(1) assms(3)])
  moreover have "r + sz \<le> search_end"
    using assms(6)
  proof
    assume "\<exists>y. suits (mm_dmem_map s) search_start sz al y \<and> y + sz \<le> search_end"
    then show ?thesis using 2 by fastforce
  next
    assume "mm_total_direct_size s \<le> search_end"
    then show ?thesis using suits_below_total [OF mm_okD(2) [OF assms(1)] 2(1)] by simp
  qed
  ultimately show ?case using 2 by auto
qed

theorem Allocate_first_fit_witness:
  "case Allocate boot 0 0x180000000 0x10000 0x8000 3 of
     None \<Rightarrow> False
   | Some (r, s') \<Rightarrow>
       if \<exists>y. suits (mm_dmem_map boot) 0 0x10000 0x8000 y \<and> y + 0x10000 \<le> 0x180000000
       then suits (mm_dmem_map boot) 0 0x10000 0x8000 r \<and> r + 0x10000 \<le> 0x180000000 \<and>
            (\<forall>y. suits (mm_dmem_map boot) 0 0x10000 0x8000 y \<longrightarrow> r \<le> y) \<and> mm_ok s' \<and>
            (\<forall>x. phys_at (mm_dmem_map s') x =
               (if r \<le> x \<and> x < r + 0x10000 then Some (x, 3, PAllocated)
                else phys_at (mm_dmem_map boot) x)) \<and>
            s' = boot\<lparr>mm_dmem_map := mm_dmem_map s'\<rparr>
       else r = minus_one \<and> s' = boot"
proof (rule Allocate_first_fit)
  have "suits (mm_dmem_map boot) 0 0x10000 0x8000 0" by (simp add: suits_def boot_dmem free_area_def)
  then show "(\<exists>y. suits (mm_dmem_map boot) 0 0x10000 0x8000 y \<and> y + 0x10000 \<le> 0x180000000) \<or>
      mm_total_direct_size boot \<le> 0x180000000" by (intro disjI1 exI [of _ 0]) simp
qed (simp_all add: boot_ok boot_total U64_def)

text \<open>
  \<open>PoolExpand\<close> is a first fit of the same kind; the range it returns becomes pooled memory
  and the pool budget grows by its size.
\<close>

theorem PoolExpand_first_fit:
  assumes "mm_ok s" and "0 < mm_total_direct_size s" and "0 < sz"
    and "al = (if alignment0 > 0 then alignment0 else 64 * KB)"
    and "max search_start (mm_total_direct_size s) + al + sz < U64"
  shows "case PoolExpand s search_start search_end sz alignment0 of
           None \<Rightarrow> False
         | Some (r, s') \<Rightarrow>
             if \<exists>y. suits (mm_dmem_map s) search_start sz al y
             then suits (mm_dmem_map s) search_start sz al r \<and>
                  (\<forall>y. suits (mm_dmem_map s) search_start sz al y \<longrightarrow> r \<le> y) \<and> mm_ok s' \<and>
                  (\<forall>x. phys_at (mm_dmem_map s') x =
                     (if r \<le> x \<and> x < r + sz then Some (x, 3, PPooled)
                      else phys_at (mm_dmem_map s) x)) \<and>
                  s' = s\<lparr>mm_dmem_map := mm_dmem_map s', mm_pool_budget := uadd (mm_pool_budget s) sz\<rparr>
             else r = minus_one \<and> s' = s"
proof (rule PoolExpand_cases [OF mm_okD(2) [OF assms(1)] assms(2-5), of search_end], goal_cases)
  case 1
  then show ?case by simp
next
  case (2 r m')
  then have "phys_keyed m'" by (simp add: dmem_ok_def)
  then have "mm_ok (s\<lparr>mm_dmem_map := m'\<rparr>)"
    using 2 by (intro mm_ok_take_free [OF assms(1) 2(1) assms(3)])
  then have "mm_ok (s\<lparr>mm_dmem_map := m', mm_pool_budget := uadd (mm_pool_budget s) sz\<rparr>)"
    by (subst mm_ok_cong [of _ "s\<lparr>mm_dmem_map := m'\<rparr>"]) simp_all
  with 2 show ?case by auto
qed

theorem PoolExpand_first_fit_witness:
  "case PoolExpand boot 0 0x180000000 0x20000 0 of
     None \<Rightarrow> False
   | Some (r, s') \<Rightarrow>
       if \<exists>y. suits (mm_dmem_map boot) 0 0x20000 0x10000 y
       then suits (mm_dmem_map boot) 0 0x20000 0x10000 r \<and>
            (\<forall>y. suits (mm_dmem_map boot) 0 0x20000 0x10000 y \<longrightarrow> r \<le> y) \<and> mm_ok s' \<and>
            (\<forall>x. phys_at (mm_dmem_map s') x =
               (if r \<le> x \<and> x < r + 0x20000 then Some (x, 3, PPooled)
                else phys_at (mm_dmem_map boot) x)) \<and>
            s' = boot\<lparr>mm_dmem_map := mm_dmem_map s', mm_pool_budget := uadd (mm_pool_budget boot) 0x20000\<rparr>
       else r = minus_one \<and> s' = boot"
  by (rule PoolExpand_first_fit) (simp_all add: boot_ok boot_total U64_def)

text \<open>
  C6: the constructor establishes the invariant, for every list of ascending, disjoint usable
  regions and every non-negative amount of extra direct memory.
\<close>

theorem MemoryManager_establishes:
  assumes "regions_ok regions" and "0 \<le> extra" and "extra < 2 ^ 31"
  shows "mm_ok (MemoryManager impl regions extra sdk backing)"
  using assms by (rule MemoryManager_ok)

theorem MemoryManager_establishes_witness: "mm_ok (MemoryManager (mm_impl boot) boot_regions 512 0 (\<lambda>_. 7))"
  by (rule MemoryManager_establishes) (simp_all add: boot_regions_def U64_def)

text \<open>
  C7: \<open>IsValidMapping\<close> accepts a range that starts in an area exactly when every byte of it lies
  in an area.
\<close>

theorem IsValidMapping_exact:
  assumes "vma_map_ok (mm_vma_map s)" and "vma_at (mm_vma_map s) x \<noteq> None" and "x + n < U64"
  shows "IsValidMapping s x n = Some (covered s x n)"
  using assms by (rule IsValidMapping_covered)

theorem IsValidMapping_exact_witness: "IsValidMapping boot 0x1000000000 0x8000 = Some True"
proof -
  have c: "covered boot 0x1000000000 0x8000" by (rule boot_covered) simp_all
  then have "vma_at (mm_vma_map boot) 0x1000000000 \<noteq> None" by (simp add: covered_def)
  then show ?thesis
    using IsValidMapping_exact [of boot "0x1000000000" "0x8000"] c mm_okD [OF boot_ok]
    by (simp add: U64_def)
qed

text \<open>
  A range that starts strictly inside a gap between two areas is accepted although no byte
  of it is mapped: the offset is larger than the size of the area below, the unsigned difference
  wraps around and the whole range seems to fit.
\<close>

theorem IsValidMapping_accepts_gap:
  "IsValidMapping boot 0x800000000 0x4000 = Some True \<and>
   {y \<in> {0x800000000 ..< 0x800004000}. vma_at (mm_vma_map boot) y \<noteq> None} = {}"
proof
  show "IsValidMapping boot 0x800000000 0x4000 = Some True"
    by (simp add: IsValidMapping_def boot_vma FindVMA_def om_from_def free_vma_def u64_eval Let_def)
  show "{y \<in> {0x800000000 ..< 0x800004000}. vma_at (mm_vma_map boot) y \<noteq> None} = {}"
    by (auto simp: boot_vma vma_at_def seg_den_def free_vma_def)
qed

text \<open>
  C8: \<open>CarveVMA\<close> cuts an area of exactly the requested range out of the area that contains it,
  without changing what any address of the virtual space means.
\<close>

theorem CarveVMA_keeps_pages:
  assumes "vma_map_ok m" and "om_floor m x = Some (k, v)" and "0 < n" and "x + n \<le> k + vma_size v"
  shows "\<exists>m' b. CarveVMA m x n = Some (x, m') \<and> vma_map_ok m' \<and> vma_at m' = vma_at m \<and>
           om_lookup m' x = Some b \<and> vma_base b = x \<and> vma_size b = n"
proof -
  obtain m' b where c: "CarveVMA m x n = Some (x, m')" and ok: "seg_ok vma_size vma_ok m'"
    and same: "seg_den vma_size vma_content m' = seg_den vma_size vma_content m"
    and b: "om_lookup m' x = Some b" "vma_size b = n"
    using vm.carve_correct [OF assms(1) [unfolded vma_map_ok_def] assms(2-4)] by metis
  from vm.lookupD [OF ok b(1)] have "vma_base b = x" by (simp add: vma_ok_def)
  with c ok same b show ?thesis unfolding vma_map_ok_def vma_at_def by metis
qed

theorem CarveVMA_keeps_pages_witness:
  "\<exists>m' b. CarveVMA (mm_vma_map boot) 0x1000004000 0x8000 = Some (0x1000004000, m') \<and> vma_map_ok m' \<and>
     vma_at m' = vma_at (mm_vma_map boot) \<and> om_lookup m' 0x1000004000 = Some b \<and>
     vma_base b = 0x1000004000 \<and> vma_size b = 0x8000"
  by (rule CarveVMA_keeps_pages [where k = "0x1000000000" and v = "free_vma 0x1000000000 0x1000000000"])
    (simp_all add: mm_okD [OF boot_ok], simp_all add: boot_vma free_vma_def)

text \<open>
  \<open>MergeAdjacent\<close> of virtual areas joins an area with its neighbours without changing what
  any address means; the area that it returns covers the one that was given.
\<close>

theorem MergeAdjacent_keeps_pages:
  assumes "vma_map_ok m" and "om_lookup m k = Some v"
  shows "\<exists>h m' w. vma_MergeAdjacent m k = Some (h, m') \<and> vma_map_ok m' \<and> vma_at m' = vma_at m \<and>
           om_lookup m' h = Some w \<and> h \<le> k \<and> k + vma_size v \<le> h + vma_size w"
  using vm.merge_correct [OF assms(1) [unfolded vma_map_ok_def] assms(2)]
  unfolding vma_map_ok_def vma_at_def by metis

theorem MergeAdjacent_keeps_pages_witness:
  "\<exists>h m' w. vma_MergeAdjacent (mm_vma_map boot) 0x400000 = Some (h, m') \<and> vma_map_ok m' \<and>
     vma_at m' = vma_at (mm_vma_map boot) \<and> om_lookup m' h = Some w \<and> h \<le> 0x400000 \<and>
     0x400000 + vma_size (free_vma 0x400000 0x7ffbfc000) \<le> h + vma_size w"
  by (rule MergeAdjacent_keeps_pages) (simp_all add: mm_okD [OF boot_ok], simp add: boot_vma om_lookup_def)

text \<open>
  \<open>CarvePhysArea\<close> and \<open>MergeAdjacent\<close> of physical areas keep the type and the usage of every
  physical byte; carving yields an area of exactly the requested range.
\<close>

theorem phys_carve_merge_keeps_bytes:
  assumes "phys_keyed m" and "om_floor m x = Some (k, a)" and "0 < n" and "x + n \<le> k + pma_size a"
  shows "\<exists>m' b h m''. CarvePhysArea m x n = Some (x, m') \<and> phys_keyed m' \<and> phys_at m' = phys_at m \<and>
           om_lookup m' x = Some b \<and> pma_size b = n \<and>
           phys_MergeAdjacent m' x = Some (h, m'') \<and> phys_keyed m'' \<and> phys_at m'' = phys_at m"
proof -
  obtain m' b where c: "CarvePhysArea m x n = Some (x, m')" and ok: "seg_ok pma_size base_is_key m'"
    and same: "seg_den pma_size phys_content m' = seg_den pma_size phys_content m"
    and b: "om_lookup m' x = Some b" "pma_size b = n"
    using pk.carve_correct [OF phys_keyed_ok [OF assms(1)] assms(2-4)] by metis
  obtain h m'' where "phys_MergeAdjacent m' x = Some (h, m'')" "seg_ok pma_size base_is_key m''"
    "seg_den pma_size phys_content m'' = seg_den pma_size phys_content m'"
    using pk.merge_correct [OF ok b(1)] by metis
  with c ok same b show ?thesis unfolding phys_keyed_def phys_at_def by metis
qed

theorem phys_carve_merge_keeps_bytes_witness:
  "\<exists>m' b h m''. CarvePhysArea (mm_dmem_map boot) 0x8000 0x4000 = Some (0x8000, m') \<and> phys_keyed m' \<and>
     phys_at m' = phys_at (mm_dmem_map boot) \<and> om_lookup m' 0x8000 = Some b \<and> pma_size b = 0x4000 \<and>
     phys_MergeAdjacent m' 0x8000 = Some (h, m'') \<and> phys_keyed m'' \<and>
     phys_at m'' = phys_at (mm_dmem_map boot)"
  by (rule phys_carve_merge_keeps_bytes [where k = 0 and a = "free_area 0 (7936 * MB)"])
    (use mm_okD(2) [OF boot_ok] in \<open>simp_all add: dmem_ok_def boot_dmem free_area_def\<close>)

text \<open>
  \<open>GetDirectMemoryType\<close> reports the type and the bounds of the area of an address in use, and
  the error \<open>ENOENT\<close> for a free address or one outside direct memory.
\<close>

theorem GetDirectMemoryType_reports:
  assumes "dmem_ok s"
  shows "GetDirectMemoryType s addr =
    (case phys_at (mm_dmem_map s) addr of
       None \<Rightarrow> Some (Inl ORBIS_KERNEL_ERROR_ENOENT)
     | Some (_, t, d) \<Rightarrow>
         if d = PFree then Some (Inl ORBIS_KERNEL_ERROR_ENOENT)
         else (case om_floor (mm_dmem_map s) addr of
                 Some (k, a) \<Rightarrow> Some (Inr (t, k, k + pma_size a)) | None \<Rightarrow> None))"
  using assms by (rule GetDirectMemoryType_correct)

theorem GetDirectMemoryType_reports_witness:
  "GetDirectMemoryType boot 0x4000 = Some (Inl ORBIS_KERNEL_ERROR_ENOENT)"
proof -
  have "phys_at (mm_dmem_map boot) 0x4000 = Some (0x4000, 0, PFree)"
    by (simp add: boot_dmem phys_at_def seg_den_def phys_content_def free_area_def)
  then show ?thesis
    using GetDirectMemoryType_reports [of boot "0x4000"] mm_okD [OF boot_ok] by simp
qed

text \<open>
  The host permissions for read-only memory include writing: the test for the read-write
  mask succeeds as soon as one of its two bits is set.  The guest's protection is not enforced.
\<close>

theorem host_perms_read_is_read_write:
  "host_perms ProtCpuRead = PermReadWrite \<and> host_perms ProtGpuRead = PermReadWrite"
  by (simp add: host_perms_def has_flag_def prot_defs perm_defs)

section \<open>CPU interpreter\<close>

text \<open>A guest with a few registers set, a stack at \<open>0x8000\<close>, and code at \<open>0x1000\<close>.\<close>

definition guest :: "8 word list \<Rightarrow> cpu" where
  "guest code = \<lparr>gpr = (\<lambda>_. 0)(Rsp := 0x8000, 1 := 7), rip = 0x1000, rflags = 0x202,
     instruction_counter = 0, halted = False, suspended = False, xmm = (\<lambda>_. replicate 16 0),
     mem = write_bytes (\<lambda>_. 0) 0x1000 code, unsupported_rip = 0, unsupported_opcode = 0\<rparr>"

text \<open>
  C18: after a comparison of two operands of 1 to 64 bits, each conditional jump is taken exactly
  in the case it is named for: below, above or equal, equal, not equal, below or equal and above
  compare the operands as unsigned numbers, less, greater or equal, less or equal and greater as
  signed ones.
\<close>

theorem compare_then_branch:
  assumes "0 < w" and "w \<le> 64" and "read_rm c m w = Some rm"
    and "l = (if reverse then ReadGpr c (mr_reg m) w else rm)"
    and "r = (if reverse then rm else ReadGpr c (mr_reg m) w)"
  shows "\<exists>c'. exec_cmp c m w skip reverse = (Continue, c') \<and>
     (CheckCondition c' 2 \<longleftrightarrow> uval w l < uval w r) \<and> (CheckCondition c' 3 \<longleftrightarrow> uval w r \<le> uval w l) \<and>
     (CheckCondition c' 4 \<longleftrightarrow> uval w l = uval w r) \<and> (CheckCondition c' 5 \<longleftrightarrow> uval w l \<noteq> uval w r) \<and>
     (CheckCondition c' 6 \<longleftrightarrow> uval w l \<le> uval w r) \<and> (CheckCondition c' 7 \<longleftrightarrow> uval w r < uval w l) \<and>
     (CheckCondition c' 0xc \<longleftrightarrow> sval w l < sval w r) \<and> (CheckCondition c' 0xd \<longleftrightarrow> sval w r \<le> sval w l) \<and>
     (CheckCondition c' 0xe \<longleftrightarrow> sval w l \<le> sval w r) \<and> (CheckCondition c' 0xf \<longleftrightarrow> sval w r < sval w l)"
  unfolding exec_cmp_def or_fault_def assms(3) option.case Let_def assms(4,5) [symmetric]
  using subtract_conditions [OF assms(1,2), of c l r]
  by (simp add: CheckCondition_advance Let_def)

theorem compare_then_branch_witness:
  "\<exists>c'. exec_cmp (guest []) \<lparr>mr_mod = 3, mr_reg = 0, mr_rm = 1, mr_length = 1, mr_has_memory = False,
          mr_address = 0\<rparr> 32 1 False = (Continue, c') \<and>
     (CheckCondition c' 2 \<longleftrightarrow> uval 32 7 < uval 32 0) \<and> (CheckCondition c' 3 \<longleftrightarrow> uval 32 0 \<le> uval 32 7) \<and>
     (CheckCondition c' 4 \<longleftrightarrow> uval 32 7 = uval 32 0) \<and> (CheckCondition c' 5 \<longleftrightarrow> uval 32 7 \<noteq> uval 32 0) \<and>
     (CheckCondition c' 6 \<longleftrightarrow> uval 32 7 \<le> uval 32 0) \<and> (CheckCondition c' 7 \<longleftrightarrow> uval 32 0 < uval 32 7) \<and>
     (CheckCondition c' 0xc \<longleftrightarrow> sval 32 7 < sval 32 0) \<and> (CheckCondition c' 0xd \<longleftrightarrow> sval 32 0 \<le> sval 32 7) \<and>
     (CheckCondition c' 0xe \<longleftrightarrow> sval 32 7 \<le> sval 32 0) \<and> (CheckCondition c' 0xf \<longleftrightarrow> sval 32 0 < sval 32 7)"
  by (rule compare_then_branch [where rm = 7])
    (simp_all add: read_rm_def ReadGpr_def guest_def Rsp_def WidthMask_def)

text \<open>
  After an addition the carry condition holds exactly when the unsigned sum does not fit the
  width, the overflow condition exactly when the signed sum does not, and the sign and zero
  conditions describe the result.
\<close>

theorem add_sets_flags:
  assumes "0 < w" and "w \<le> 64"
  shows "let c' = UpdateArithmeticFlags c l r ((l + r) AND WidthMask w) w False in
     (CheckCondition c' 2 \<longleftrightarrow> 2 ^ w \<le> uval w l + uval w r) \<and>
     (CheckCondition c' 0 \<longleftrightarrow> sval w l + sval w r \<noteq> sval w (l + r)) \<and>
     (CheckCondition c' 8 \<longleftrightarrow> sval w (l + r) < 0) \<and> (CheckCondition c' 4 \<longleftrightarrow> uval w (l + r) = 0)"
  using add_flags [OF assms, where c = c and l = l and r = r]
  unfolding Let_def CheckCondition_bits by (intro conjI) assumption+

theorem add_sets_flags_witness:
  "let c' = UpdateArithmeticFlags (guest []) 0xffffffff 1 ((0xffffffff + 1) AND WidthMask 32) 32 False in
     (CheckCondition c' 2 \<longleftrightarrow> 2 ^ 32 \<le> uval 32 0xffffffff + uval 32 1) \<and>
     (CheckCondition c' 0 \<longleftrightarrow> sval 32 0xffffffff + sval 32 1 \<noteq> sval 32 (0xffffffff + 1)) \<and>
     (CheckCondition c' 8 \<longleftrightarrow> sval 32 (0xffffffff + 1) < 0) \<and>
     (CheckCondition c' 4 \<longleftrightarrow> uval 32 (0xffffffff + 1) = 0)"
  by (rule add_sets_flags) simp_all

text \<open>
  C19: a call and the return at its target lead back behind the call with all registers restored,
  unless the push would wrap to address 0.
\<close>

theorem call_then_return:
  assumes "rip c \<noteq> 0" and "rip c + 1 \<noteq> 0" and "rip c + 5 \<noteq> 0" and "mem c (rip c) = 0xe8"
    and "gpr c Rsp \<noteq> 8" and "Step c = (Continue, c1)" and "rip c1 \<noteq> 0" and "mem c1 (rip c1) = 0xc3"
  shows "\<exists>c2. Step c1 = (Continue, c2) \<and> rip c2 = rip c + 5 \<and> gpr c2 = gpr c \<and> mem c2 = mem c1"
proof -
  obtain p where p: "Push64 c (rip c + 5) = (True, p)" using Push64_ok [OF assms(5)] by blast
  have "\<exists>rel. c1 = p\<lparr>rip := rip c + 5 + rel\<rparr>"
    using assms(2,6) p
    by (auto simp: Step_call [OF assms(1,4)] exec_call_def or_fault_def Read32_def ReadMemory_def)
  then obtain a where a: "c1 = p\<lparr>rip := a\<rparr>" by blast
  show ?thesis
    using exec_ret_after_push [OF assms(5) p assms(3), of a] Step_ret [OF assms(7,8)] by (simp add: a)
qed

theorem call_then_return_witness:
  "\<exists>c2. Step (snd (Step (guest [0xe8, 0, 0, 0, 0, 0xc3]))) = (Continue, c2) \<and>
     rip c2 = rip (guest [0xe8, 0, 0, 0, 0, 0xc3]) + 5 \<and> gpr c2 = gpr (guest [0xe8, 0, 0, 0, 0, 0xc3]) \<and>
     mem c2 = mem (snd (Step (guest [0xe8, 0, 0, 0, 0, 0xc3])))"
proof (rule call_then_return)
  show "Step (guest [0xe8, 0, 0, 0, 0, 0xc3]) = (Continue, snd (Step (guest [0xe8, 0, 0, 0, 0, 0xc3])))"
    by (rule prod_eqI) (code_simp, simp)
qed code_simp+

text \<open>
  C20: a decoded ModRM operand names registers below 16 and is 1 to 6 bytes long, 1 byte when it
  designates a register.
\<close>

theorem ModRm_in_bounds:
  assumes "DecodeModRm c p rex = Some m"
  shows "mr_reg m < 16 \<and> mr_rm m < 16 \<and> 1 \<le> mr_length m \<and> mr_length m \<le> 6 \<and>
         (mr_has_memory m \<or> mr_length m = 1)"
  using DecodeModRm_bounds [OF assms] by blast

theorem ModRm_in_bounds_witness:
  "let m = the (DecodeModRm (guest [0x01, 0x44, 0x24, 0x08]) 0x1002 no_rex) in
     mr_reg m < 16 \<and> mr_rm m < 16 \<and> 1 \<le> mr_length m \<and> mr_length m \<le> 6 \<and> (mr_has_memory m \<or> mr_length m = 1)"
  unfolding Let_def
  by (rule ModRm_in_bounds [where c = "guest [0x01, 0x44, 0x24, 0x08]" and p = "0x1002" and rex = no_rex],
      rule option.collapse [symmetric]) code_simp

text \<open>
  C21: the interpreter loop ends for every guest program.  It runs some number of continuing steps
  inside the budget and then stops because the guest is halted, suspended, out of budget, or has
  returned to address 0.
\<close>

theorem interpreter_ends:
  assumes "instruction_counter c \<le> MaxInterpreterSteps"
  shows "\<exists>n c1. runs c n c1 \<and>
     instruction_counter (ExecuteRegistersContext c) = instruction_counter c + n \<and>
     instruction_counter c + n \<le> MaxInterpreterSteps \<and>
     (halted (ExecuteRegistersContext c) \<or> suspended (ExecuteRegistersContext c) \<or>
      rip (ExecuteRegistersContext c) = 0)"
proof -
  obtain n c1 where r: "runs c n c1" and s: "loop_stops c1 (interpreter_loop c)"
    using interpreter_loop_runs by blast
  note o = loop_stops_outcome [OF s] and k = runs_counter [OF r] and b = runs_budget [OF r assms]
  show ?thesis
    using r o k b by (intro exI [of _ n] exI [of _ c1]) (auto simp: ExecuteRegistersContext_def Let_def)
qed

theorem interpreter_ends_witness:
  "\<exists>n c1. runs (guest [0x90, 0xf4]) n c1 \<and>
     instruction_counter (ExecuteRegistersContext (guest [0x90, 0xf4])) =
       instruction_counter (guest [0x90, 0xf4]) + n \<and>
     instruction_counter (guest [0x90, 0xf4]) + n \<le> MaxInterpreterSteps \<and>
     (halted (ExecuteRegistersContext (guest [0x90, 0xf4])) \<or>
      suspended (ExecuteRegistersContext (guest [0x90, 0xf4])) \<or>
      rip (ExecuteRegistersContext (guest [0x90, 0xf4])) = 0)"
  by (rule interpreter_ends) (simp add: guest_def)

text \<open>
  The displacement of a RIP-relative operand is added to the address behind the displacement
  also when an immediate follows.  An \<open>add dword [rip + d], imm8\<close> is seven bytes long, and changes
  the word at \<open>d\<close> plus six bytes, not plus the address of the next instruction.
\<close>

theorem rip_relative_before_immediate:
  assumes "mem c (rip c) = 0x83" and "mem c (rip c + 1) = 0x05" and "rip c \<noteq> 0" and "rip c + 1 \<noteq> 0"
    and "rip c + 2 \<noteq> 0" and "rip c + 6 \<noteq> 0" and "Read32 c (rip c + 2) = Some d"
    and "a = rip c + 6 + scast d" and "a \<noteq> 0"
  shows "\<exists>c'. Step c = (Continue, c') \<and> rip c' = rip c + 7 \<and>
     mem c' = write_le (mem c) a 4 (take_bit 32 (read_le (mem c) a 4 + take_bit 32 (scast (mem c (rip c + 6)))))"
proof -
  have b: "bits_of 0x05 6 2 = 0" "bits_of 0x05 0 3 = 5" "bits_of 0x05 3 3 = 0"
    by code_simp+
  have m: "DecodeModRm c (rip c + 2) no_rex = Some \<lparr>mr_mod = 0, mr_reg = 0, mr_rm = 5, mr_length = 5,
      mr_has_memory = True, mr_address = a\<rparr>"
    using DecodeModRm_rip_relative [of "rip c + 2" c d no_rex] assms b
    by (simp add: no_rex_def ext_def algebra_simps)
  have s: "Step c = DecodeGroup1 c 0 0x83"
    using Step_opcode [OF assms(3,1)] by (simp add: DecodeOneByte_def in_octet_def)
  have w: "rex_w no_rex = False" by (simp add: no_rex_def)
  show ?thesis
    using assms(6,9)
    by (simp add: s DecodeGroup1_def Let_def m or_fault_def Read8_eq read_rm_def write_rm_def ReadMemory_def
        WriteMemory_def group1_flags_def group1_result_def and_WidthMask UpdateArithmeticFlags_def w add.assoc)
qed

theorem rip_relative_before_immediate_witness:
  "\<exists>c'. Step (guest [0x83, 0x05, 0x10, 0, 0, 0, 1]) = (Continue, c') \<and>
     rip c' = rip (guest [0x83, 0x05, 0x10, 0, 0, 0, 1]) + 7 \<and>
     mem c' = write_le (mem (guest [0x83, 0x05, 0x10, 0, 0, 0, 1])) 0x1016 4
       (take_bit 32 (read_le (mem (guest [0x83, 0x05, 0x10, 0, 0, 0, 1])) 0x1016 4 +
          take_bit 32 (scast (mem (guest [0x83, 0x05, 0x10, 0, 0, 0, 1])
            (rip (guest [0x83, 0x05, 0x10, 0, 0, 0, 1]) + 6)))))"
  by (rule rip_relative_before_immediate [where d = "0x10"]) code_simp+

text \<open>
  \<open>pop rsp\<close> leaves the popped value plus 8 in the stack pointer, because the increment comes
  after the write to the register that the result parameter refers to.
\<close>

theorem pop_rsp_adds_8:
  assumes "gpr c Rsp \<noteq> 0"
  shows "exec_pop c Rsp 1 =
    (Continue, c\<lparr>gpr := (gpr c)(Rsp := read_le (mem c) (gpr c Rsp) 8 + 8), rip := rip c + 1\<rparr>)"
  using assms by (simp add: exec_pop_def Pop64_reg_def ReadMemory_def or_fault_def advance_def Let_def)

theorem pop_rsp_adds_8_witness:
  "exec_pop (guest []) Rsp 1 =
    (Continue, (guest [])\<lparr>gpr := (gpr (guest []))(Rsp := read_le (mem (guest [])) (gpr (guest []) Rsp) 8 + 8),
                  rip := rip (guest []) + 1\<rparr>)"
  by (rule pop_rsp_adds_8) (simp add: guest_def Rsp_def)

end
